(* ===== verification/Ovpn_Prelude.thy ===== *)
theory Ovpn_Prelude
  imports Main "HOL-Library.Word"
begin

text \<open>
  Shared base of the development: names of the machine types the C sources use, the
  memory operations that stand for \<^verbatim>\<open>memcpy\<close> and \<^verbatim>\<open>memset\<close>, network byte order,
  and the collections of rewrite rules the component theories use.
\<close>

section \<open>Machine types\<close>

type_synonym byte = "8 word"
type_synonym u16 = "16 word"
type_synonym u32 = "32 word"
type_synonym u64 = "64 word"

named_theorems mem_simps \<open>memory copies into a block\<close>
named_theorems buf_simps \<open>content and well-formedness of buffers after an operation\<close>
named_theorems codec_simps \<open>network byte order\<close>

section \<open>Blocks of memory\<close>

text \<open>
  A block of memory is a list of bytes. \<open>mem_put m i xs\<close> is the block after
  \<^verbatim>\<open>memcpy(m + i, xs, len)\<close>; the copy is in bounds exactly when the block keeps its length.
\<close>

lemma unat_bound: "unat (w :: 'a::len word) < 2 ^ LENGTH('a)"
  by (rule unsigned_less)

definition mem_put :: "'a list \<Rightarrow> nat \<Rightarrow> 'a list \<Rightarrow> 'a list" where
  "mem_put m i xs = take i m @ xs @ drop (i + length xs) m"

definition mem_get :: "'a list \<Rightarrow> nat \<Rightarrow> nat \<Rightarrow> 'a list" where
  "mem_get m i n = take n (drop i m)"

lemma length_mem_put [mem_simps]:
  "i + length xs \<le> length m \<Longrightarrow> length (mem_put m i xs) = length m"
  by (simp add: mem_put_def)

lemma length_mem_put_iff:
  "i \<le> length m \<Longrightarrow> length (mem_put m i xs) = length m \<longleftrightarrow> i + length xs \<le> length m"
  by (auto simp: mem_put_def)

lemma length_mem_get [mem_simps]: "i + n \<le> length m \<Longrightarrow> length (mem_get m i n) = n"
  by (simp add: mem_get_def)

lemma mem_get_put_same [mem_simps]:
  "i + length xs \<le> length m \<Longrightarrow> n = length xs \<Longrightarrow> mem_get (mem_put m i xs) i n = xs"
  by (simp add: mem_get_def mem_put_def)

lemma mem_get_put_before [mem_simps]:
  assumes "j + n \<le> i" and "i \<le> length m"
  shows "mem_get (mem_put m i xs) j n = mem_get m j n"
proof -
  have "take n (drop j (take i m @ xs @ drop (i + length xs) m)) = take n (drop j (take i m))"
    using assms by simp
  also have "\<dots> = take n (drop j m)"
    using assms by (simp add: drop_take min_def)
  finally show ?thesis
    by (simp add: mem_get_def mem_put_def)
qed

lemma mem_get_put_after [mem_simps]:
  assumes "i + length xs \<le> j" and "i + length xs \<le> length m"
  shows "mem_get (mem_put m i xs) j n = mem_get m j n"
  using assms by (simp add: mem_get_def mem_put_def min_def add.commute)

lemma mem_get_append: "mem_get m i (n + k) = mem_get m i n @ mem_get m (i + n) k"
  by (simp add: mem_get_def take_add add.commute [of n i])

lemma mem_get_split:
  "n \<le> k \<Longrightarrow> mem_get m i k = mem_get m i n @ mem_get m (i + n) (k - n)"
  using mem_get_append [of m i n "k - n"] by simp

lemma mem_get_put_extend_right [mem_simps]:
  assumes "j + k = i" and "i + length xs \<le> length m" and "n = k + length xs"
  shows "mem_get (mem_put m i xs) j n = mem_get m j k @ xs"
  using assms by (simp add: mem_get_append mem_get_put_before mem_get_put_same)

lemma mem_get_put_extend_left [mem_simps]:
  assumes "j = i + length xs" and "j \<le> length m" and "n = length xs + k"
  shows "mem_get (mem_put m i xs) i n = xs @ mem_get m j k"
  using assms by (simp add: mem_get_append mem_get_put_after mem_get_put_same)

lemma mem_get_0 [simp]: "mem_get m i 0 = []"
  by (simp add: mem_get_def)

lemma mem_get_take [mem_simps]: "k \<le> n \<Longrightarrow> take k (mem_get m i n) = mem_get m i k"
  by (simp add: mem_get_def min_def)

lemma mem_get_drop [mem_simps]: "drop k (mem_get m i n) = mem_get m (i + k) (n - k)"
  by (simp add: mem_get_def drop_take add.commute)

lemma mem_get_Suc: "i < length m \<Longrightarrow> mem_get m i (Suc n) = m ! i # mem_get m (Suc i) n"
  by (simp add: mem_get_def Cons_nth_drop_Suc [symmetric])

section \<open>Network byte order\<close>

text \<open>
  \<open>be_enc k n\<close> is the \<open>k\<close>-byte big-endian image of a number, the bytes that
  \<^verbatim>\<open>htons\<close>, \<^verbatim>\<open>htonl\<close> and \<^verbatim>\<open>htonll\<close> put in memory; \<open>be_dec\<close> reads it back.
\<close>

fun be_enc :: "nat \<Rightarrow> nat \<Rightarrow> byte list" where
  "be_enc 0 n = []"
| "be_enc (Suc k) n = be_enc k (n div 256) @ [of_nat n]"

definition be_dec :: "byte list \<Rightarrow> nat" where
  "be_dec bs = foldl (\<lambda>a b. a * 256 + unat b) 0 bs"

lemma length_be_enc [simp]: "length (be_enc k n) = k"
  by (induction k arbitrary: n) auto

lemma be_dec_Nil [simp]: "be_dec [] = 0"
  by (simp add: be_dec_def)

lemma be_dec_snoc [simp]: "be_dec (bs @ [b]) = be_dec bs * 256 + unat b"
  by (simp add: be_dec_def)

lemma be_dec_enc [codec_simps]: "n < 256 ^ k \<Longrightarrow> be_dec (be_enc k n) = n"
proof (induction k arbitrary: n)
  case 0
  then show ?case by simp
next
  case (Suc k)
  then have "n div 256 < 256 ^ k"
    by (simp add: div_less_iff_less_mult mult.commute)
  with Suc.IH show ?case
    by (simp add: unat_of_nat)
qed

lemma be_dec_bound: "be_dec bs < 256 ^ length bs"
proof (induction bs rule: rev_induct)
  case Nil
  then show ?case by simp
next
  case (snoc b bs)
  have "unat b < 256"
    using unat_bound [of b] by simp
  with snoc show ?case by simp
qed

lemma be_enc_dec [codec_simps]: "k = length bs \<Longrightarrow> be_enc k (be_dec bs) = bs"
proof (induction bs arbitrary: k rule: rev_induct)
  case Nil
  then show ?case by simp
next
  case (snoc b bs)
  have "unat b < 256"
    using unat_bound [of b] by simp
  moreover have z: "(256 :: byte) = 0"
    by simp
  have "(of_nat (be_dec bs) :: byte) * 256 = 0"
    by (subst z) (rule mult_zero_right)
  ultimately show ?case
    using snoc by simp
qed

text \<open>The codecs of the fixed-width integers the packets carry.\<close>

definition enc16 :: "u16 \<Rightarrow> byte list" where "enc16 w = be_enc 2 (unat w)"
definition dec16 :: "byte list \<Rightarrow> u16" where "dec16 bs = of_nat (be_dec bs)"
definition enc32 :: "u32 \<Rightarrow> byte list" where "enc32 w = be_enc 4 (unat w)"
definition dec32 :: "byte list \<Rightarrow> u32" where "dec32 bs = of_nat (be_dec bs)"
definition enc64 :: "u64 \<Rightarrow> byte list" where "enc64 w = be_enc 8 (unat w)"
definition dec64 :: "byte list \<Rightarrow> u64" where "dec64 bs = of_nat (be_dec bs)"

lemma dec16_enc16 [codec_simps]: "dec16 (enc16 w) = w"
  using unat_bound [of w] by (simp add: dec16_def enc16_def be_dec_enc)

lemma dec32_enc32 [codec_simps]: "dec32 (enc32 w) = w"
  using unat_bound [of w] by (simp add: dec32_def enc32_def be_dec_enc)

lemma dec64_enc64 [codec_simps]: "dec64 (enc64 w) = w"
  using unat_bound [of w] by (simp add: dec64_def enc64_def be_dec_enc)

lemma length_enc [codec_simps]:
  "length (enc16 a) = 2" "length (enc32 b) = 4" "length (enc64 c) = 8"
  by (simp_all add: enc16_def enc32_def enc64_def)

lemma enc32_dec32 [codec_simps]: "length bs = 4 \<Longrightarrow> enc32 (dec32 bs) = bs"
  using be_dec_bound [of bs]
  by (simp add: enc32_def dec32_def unat_of_nat be_enc_dec)

section \<open>Integer helpers of \<^verbatim>\<open>integer.h\<close>\<close>

definition min_int :: "int \<Rightarrow> int \<Rightarrow> int" where
  "min_int x y = (if x < y then x else y)"

definition max_int :: "int \<Rightarrow> int \<Rightarrow> int" where
  "max_int x y = (if x > y then x else y)"

definition constrain_int :: "int \<Rightarrow> int \<Rightarrow> int \<Rightarrow> int" where
  "constrain_int x lo hi =
     (if lo > hi then lo else if x < lo then lo else if x > hi then hi else x)"

text \<open>\<^verbatim>\<open>ASSERT\<close> stops the process: \<open>None\<close>.\<close>

definition modulo_add :: "int \<Rightarrow> int \<Rightarrow> int \<Rightarrow> int option" where
  "modulo_add x y m =
     (let s = x + y in
      if \<not> (0 \<le> x \<and> x < m \<and> - m \<le> y \<and> y \<le> m) then None
      else let s1 = (if s \<ge> m then s - m else s) in
           Some (if s1 < 0 then s1 + m else s1))"

definition modulo_subtract :: "int \<Rightarrow> int \<Rightarrow> int \<Rightarrow> int option" where
  "modulo_subtract x y m =
     (let d1 = x - y; d2 = (if x > y then - m else m) + d1 in
      if \<not> (0 \<le> x \<and> x < m \<and> 0 \<le> y \<and> y < m) then None
      else Some (if \<bar>d1\<bar> > \<bar>d2\<bar> then d2 else d1))"

text \<open>A value that is stored in an \<^verbatim>\<open>int\<close>.\<close>

definition to_int32 :: "int \<Rightarrow> int" where
  "to_int32 x = sint (of_int x :: u32)"

lemma to_int32_id: "- (2 ^ 31) \<le> x \<Longrightarrow> x < 2 ^ 31 \<Longrightarrow> to_int32 x = x"
  by (simp add: to_int32_def signed_of_int signed_take_bit_int_eq_self)

definition index_verify :: "int \<Rightarrow> int \<Rightarrow> int option" where
  "index_verify i n = (if i < 0 \<or> i \<ge> n then None else Some i)"

function adjust_power_of_2_from :: "nat \<Rightarrow> nat \<Rightarrow> nat" where
  "adjust_power_of_2_from r u = (if 0 < r \<and> r < u then adjust_power_of_2_from (2 * r) u else r)"
  by pat_completeness auto
termination
  by (relation "measure (\<lambda>(r, u). u - r)") auto

declare adjust_power_of_2_from.simps [simp del]

definition round_down_size :: "nat \<Rightarrow> nat \<Rightarrow> nat" where
  "round_down_size num multiple = (num div multiple) * multiple"

lemma modulo_add_mod:
  assumes "0 \<le> x" "x < m" "- m \<le> y" "y \<le> m"
  shows "modulo_add x y m = Some ((x + y) mod m)"
proof -
  consider "x + y \<ge> m" | "0 \<le> x + y" "x + y < m" | "x + y < 0"
    by linarith
  then show ?thesis
  proof cases
    case 1
    with assms have "(x + y - m) mod m = x + y - m"
      by (intro mod_pos_pos_trivial) auto
    then have "(x + y) mod m = x + y - m"
      by simp
    with 1 assms show ?thesis
      by (simp add: modulo_add_def Let_def)
  next
    case 2
    with assms show ?thesis
      by (simp add: modulo_add_def Let_def)
  next
    case 3
    with assms have "(x + y + m) mod m = x + y + m"
      by (intro mod_pos_pos_trivial) auto
    then have "(x + y) mod m = x + y + m"
      by simp
    with 3 assms show ?thesis
      by (simp add: modulo_add_def Let_def)
  qed
qed

section \<open>Runs of operations and simulation\<close>

text \<open>
  A sequence of operations on a component, each of which answers or fails, and the same
  sequence on the specification of the component. The interface a component's proof has to
  fill in is the simulation of one operation.
\<close>

fun run_ops :: "('s \<Rightarrow> 'o \<Rightarrow> ('r \<times> 's) option) \<Rightarrow> 's \<Rightarrow> 'o list \<Rightarrow> ('r list \<times> 's) option" where
  "run_ops step s [] = Some ([], s)"
| "run_ops step s (x # xs) =
     (case step s x of None \<Rightarrow> None
      | Some (r, s') \<Rightarrow> map_option (\<lambda>(rs, t). (r # rs, t)) (run_ops step s' xs))"

fun run_spec :: "('a \<Rightarrow> 'o \<Rightarrow> 'r \<times> 'a) \<Rightarrow> 'a \<Rightarrow> 'o list \<Rightarrow> 'r list \<times> 'a" where
  "run_spec spec m [] = ([], m)"
| "run_spec spec m (x # xs) =
     (case spec m x of (r, m') \<Rightarrow> (case run_spec spec m' xs of (rs, t) \<Rightarrow> (r # rs, t)))"

locale simulation =
  fixes inv :: "'s \<Rightarrow> bool" and abs :: "'s \<Rightarrow> 'a"
    and step :: "'s \<Rightarrow> 'o \<Rightarrow> ('r \<times> 's) option" and spec :: "'a \<Rightarrow> 'o \<Rightarrow> 'r \<times> 'a"
  assumes step_law: "inv s \<Longrightarrow> \<exists>r s'. step s x = Some (r, s') \<and> inv s' \<and> spec (abs s) x = (r, abs s')"
begin

lemma run_simulates:
  assumes "inv s"
  shows "\<exists>rs s'. run_ops step s xs = Some (rs, s') \<and> inv s' \<and> run_spec spec (abs s) xs = (rs, abs s')"
  using assms
proof (induction xs arbitrary: s)
  case (Cons x xs)
  obtain r s1 where 1: "step s x = Some (r, s1)" "inv s1" "spec (abs s) x = (r, abs s1)"
    using step_law[OF Cons(2)] by blast
  from Cons(1)[OF 1(2)] 1 show ?case by auto
qed simp

end

text \<open>The same where the specification leaves a choice and a call must be legal.\<close>

fun run_rel :: "('a \<Rightarrow> 'o \<Rightarrow> 'r \<Rightarrow> 'a \<Rightarrow> bool) \<Rightarrow> 'a \<Rightarrow> 'o list \<Rightarrow> 'r list \<Rightarrow> 'a \<Rightarrow> bool" where
  "run_rel spec m [] rs t \<longleftrightarrow> rs = [] \<and> t = m"
| "run_rel spec m (x # xs) rs t \<longleftrightarrow> (\<exists>r rs' m'. rs = r # rs' \<and> spec m x r m' \<and> run_rel spec m' xs rs' t)"

locale relational_simulation =
  fixes inv :: "'s \<Rightarrow> bool" and abs :: "'s \<Rightarrow> 'a" and legal :: "'o \<Rightarrow> bool"
    and step :: "'s \<Rightarrow> 'o \<Rightarrow> ('r \<times> 's) option" and spec :: "'a \<Rightarrow> 'o \<Rightarrow> 'r \<Rightarrow> 'a \<Rightarrow> bool"
  assumes step_law: "inv s \<Longrightarrow> legal x \<Longrightarrow> \<exists>r s'. step s x = Some (r, s') \<and> inv s' \<and> spec (abs s) x r (abs s')"
begin

lemma run_simulates:
  assumes "inv s" "\<forall>x \<in> set xs. legal x"
  shows "\<exists>rs s'. run_ops step s xs = Some (rs, s') \<and> inv s' \<and> run_rel spec (abs s) xs rs (abs s')"
  using assms
proof (induction xs arbitrary: s)
  case (Cons x xs)
  obtain r s1 where 1: "step s x = Some (r, s1)" "inv s1" "spec (abs s) x r (abs s1)"
    using step_law[OF Cons.prems(1), of x] Cons.prems(2) by auto
  from Cons.IH[OF 1(2)] Cons.prems(2) 1 show ?case by auto
qed simp

end

end
