(* ===== verification/Buf.thy ===== *)
theory Buf
  imports Ovpn_Prelude
begin

text \<open>
  \<^verbatim>\<open>struct buffer\<close> of \<^verbatim>\<open>buffer.h\<close> and \<^verbatim>\<open>buffer.c\<close>: the packet buffer every component
  reads and writes. A buffer is its three \<^verbatim>\<open>int\<close> fields and the allocated block
  (\<open>None\<close> is the \<^verbatim>\<open>NULL\<close> pointer); a \<^verbatim>\<open>uint8_t *\<close> into the block is an index. Each
  C function is one definition: it returns its C result together with the buffer after
  the call. The lemmas show that every operation keeps the three fields within the block
  (\<open>buf_wf\<close>) and what it does to the \<open>content\<close>, the bytes between \<^verbatim>\<open>BPTR\<close> and \<^verbatim>\<open>BEND\<close>.
\<close>

section \<open>State\<close>

record buffer =
  bf_cap :: int
  bf_off :: int
  bf_len :: int
  bf_data :: "byte list option"

definition BUF_SIZE_MAX :: int where
  "BUF_SIZE_MAX = 1000000"

definition bf_mem :: "buffer \<Rightarrow> byte list" where
  "bf_mem b = (case bf_data b of None \<Rightarrow> [] | Some m \<Rightarrow> m)"

definition content :: "buffer \<Rightarrow> byte list" where
  "content b = mem_get (bf_mem b) (nat (bf_off b)) (nat (bf_len b))"

text \<open>\<^verbatim>\<open>memcpy(buf->data + i, xs, n)\<close>\<close>

definition bf_poke :: "buffer \<Rightarrow> nat \<Rightarrow> byte list \<Rightarrow> buffer" where
  "bf_poke b i xs = b\<lparr>bf_data := map_option (\<lambda>m. mem_put m i xs) (bf_data b)\<rparr>"

section \<open>Inline functions of \<^verbatim>\<open>buffer.h\<close>\<close>

definition clear_buf :: buffer where
  "clear_buf = \<lparr>bf_cap = 0, bf_off = 0, bf_len = 0, bf_data = None\<rparr>"

definition buf_defined :: "buffer \<Rightarrow> bool" where
  "buf_defined b \<longleftrightarrow> bf_data b \<noteq> None"

definition buf_valid :: "buffer \<Rightarrow> bool" where
  "buf_valid b \<longleftrightarrow> bf_data b \<noteq> None \<and> bf_len b \<ge> 0"

definition buf_bptr :: "buffer \<Rightarrow> nat option" where
  "buf_bptr b = (if buf_valid b then Some (nat (bf_off b)) else None)"

definition buf_len :: "buffer \<Rightarrow> int" where
  "buf_len b = (if buf_valid b then bf_len b else 0)"

definition buf_bend :: "buffer \<Rightarrow> nat option" where
  "buf_bend b = map_option (\<lambda>p. p + nat (buf_len b)) (buf_bptr b)"

definition buf_blast :: "buffer \<Rightarrow> nat option" where
  "buf_blast b =
     (if buf_len b > 0 then map_option (\<lambda>p. p + nat (buf_len b) - 1) (buf_bptr b) else None)"

text \<open>
  The argument is a \<^verbatim>\<open>size_t\<close>; a negative \<^verbatim>\<open>int\<close> passed for it converts to a value far
  above \<open>BUF_SIZE_MAX\<close>, so the test is false for it.
\<close>

definition buf_size_valid :: "int \<Rightarrow> bool" where
  "buf_size_valid n \<longleftrightarrow> 0 \<le> n \<and> n < BUF_SIZE_MAX"

definition buf_size_valid_signed :: "int \<Rightarrow> bool" where
  "buf_size_valid_signed n \<longleftrightarrow> n \<ge> - BUF_SIZE_MAX \<and> n < BUF_SIZE_MAX"

definition buf_reset :: "buffer \<Rightarrow> buffer" where
  "buf_reset b = b\<lparr>bf_cap := 0, bf_off := 0, bf_len := 0, bf_data := None\<rparr>"

definition buf_reset_len :: "buffer \<Rightarrow> buffer" where
  "buf_reset_len b = b\<lparr>bf_len := 0, bf_off := 0\<rparr>"

definition buf_init :: "buffer \<Rightarrow> int \<Rightarrow> bool \<times> buffer" where
  "buf_init b offset =
     (if offset < 0 \<or> offset > bf_cap b \<or> bf_data b = None then (False, b)
      else (True, b\<lparr>bf_len := 0, bf_off := offset\<rparr>))"

text \<open>\<^verbatim>\<open>buf_size_error\<close> is \<^verbatim>\<open>M_FATAL\<close>: the process stops, \<open>None\<close>.\<close>

definition buf_set_write :: "byte list option \<Rightarrow> int \<Rightarrow> buffer option" where
  "buf_set_write data sz =
     (if \<not> buf_size_valid sz then None
      else let d = (if sz > 0 then map_option (\<lambda>m. mem_put m 0 [0]) data else data)
           in Some \<lparr>bf_cap = sz, bf_off = 0, bf_len = 0, bf_data = d\<rparr>)"

definition buf_set_read :: "byte list option \<Rightarrow> int \<Rightarrow> buffer option" where
  "buf_set_read data sz =
     (if \<not> buf_size_valid sz then None
      else Some \<lparr>bf_cap = sz, bf_off = 0, bf_len = sz, bf_data = data\<rparr>)"

definition buf_safe :: "buffer \<Rightarrow> int \<Rightarrow> bool" where
  "buf_safe b n \<longleftrightarrow> buf_valid b \<and> buf_size_valid n \<and> bf_off b + bf_len b + n \<le> bf_cap b"

definition buf_safe_bidir :: "buffer \<Rightarrow> int \<Rightarrow> bool" where
  "buf_safe_bidir b n =
     (if buf_valid b \<and> buf_size_valid_signed n
      then let newlen = bf_len b + n in newlen \<ge> 0 \<and> bf_off b + newlen \<le> bf_cap b
      else False)"

definition buf_forward_capacity :: "buffer \<Rightarrow> int" where
  "buf_forward_capacity b =
     (if buf_valid b
      then let ret = bf_cap b - (bf_off b + bf_len b) in if ret < 0 then 0 else ret
      else 0)"

definition buf_forward_capacity_total :: "buffer \<Rightarrow> int" where
  "buf_forward_capacity_total b =
     (if buf_valid b then let ret = bf_cap b - bf_off b in if ret < 0 then 0 else ret else 0)"

definition buf_reverse_capacity :: "buffer \<Rightarrow> int" where
  "buf_reverse_capacity b = (if buf_valid b then bf_off b else 0)"

definition buf_inc_len :: "buffer \<Rightarrow> int \<Rightarrow> bool \<times> buffer" where
  "buf_inc_len b inc =
     (if \<not> buf_safe_bidir b inc then (False, b) else (True, b\<lparr>bf_len := bf_len b + inc\<rparr>))"

definition buf_prepend :: "buffer \<Rightarrow> int \<Rightarrow> nat option \<times> buffer" where
  "buf_prepend b sz =
     (if \<not> buf_valid b \<or> sz < 0 \<or> sz > bf_off b then (None, b)
      else let b' = b\<lparr>bf_off := bf_off b - sz, bf_len := bf_len b + sz\<rparr>
           in (buf_bptr b', b'))"

definition buf_advance :: "buffer \<Rightarrow> int \<Rightarrow> bool \<times> buffer" where
  "buf_advance b sz =
     (if \<not> buf_valid b \<or> sz < 0 \<or> bf_len b < sz then (False, b)
      else (True, b\<lparr>bf_off := bf_off b + sz, bf_len := bf_len b - sz\<rparr>))"

definition buf_write_alloc :: "buffer \<Rightarrow> int \<Rightarrow> nat option \<times> buffer" where
  "buf_write_alloc b sz =
     (if \<not> buf_safe b sz then (None, b)
      else (map_option (\<lambda>p. p + nat (bf_len b)) (buf_bptr b), b\<lparr>bf_len := bf_len b + sz\<rparr>))"

definition buf_write_alloc_prepend :: "buffer \<Rightarrow> int \<Rightarrow> bool \<Rightarrow> nat option \<times> buffer" where
  "buf_write_alloc_prepend b sz prepend =
     (if prepend then buf_prepend b sz else buf_write_alloc b sz)"

definition buf_read_alloc :: "buffer \<Rightarrow> int \<Rightarrow> nat option \<times> buffer" where
  "buf_read_alloc b sz =
     (if sz < 0 \<or> bf_len b < sz then (None, b)
      else (buf_bptr b, b\<lparr>bf_off := bf_off b + sz, bf_len := bf_len b - sz\<rparr>))"

definition buf_write :: "buffer \<Rightarrow> byte list \<Rightarrow> bool \<times> buffer" where
  "buf_write dest src =
     (case buf_write_alloc dest (int (length src)) of
        (None, b) \<Rightarrow> (False, b)
      | (Some cp, b) \<Rightarrow> (True, bf_poke b cp src))"

definition buf_write_prepend :: "buffer \<Rightarrow> byte list \<Rightarrow> bool \<times> buffer" where
  "buf_write_prepend dest src =
     (case buf_prepend dest (int (length src)) of
        (None, b) \<Rightarrow> (False, b)
      | (Some cp, b) \<Rightarrow> (True, bf_poke b cp src))"

definition buf_write_u8 :: "buffer \<Rightarrow> byte \<Rightarrow> bool \<times> buffer" where
  "buf_write_u8 dest d = buf_write dest [d]"

definition buf_write_u16 :: "buffer \<Rightarrow> u16 \<Rightarrow> bool \<times> buffer" where
  "buf_write_u16 dest d = buf_write dest (enc16 d)"

definition buf_write_u32 :: "buffer \<Rightarrow> u32 \<Rightarrow> bool \<times> buffer" where
  "buf_write_u32 dest d = buf_write dest (enc32 d)"

text \<open>\<open>BPTR(src)\<close>, \<open>BLEN(src)\<close> name the content of \<open>src\<close>.\<close>

definition buf_bytes :: "buffer \<Rightarrow> byte list" where
  "buf_bytes b = (case buf_bptr b of None \<Rightarrow> [] | Some p \<Rightarrow> mem_get (bf_mem b) p (nat (buf_len b)))"

definition buf_copy :: "buffer \<Rightarrow> buffer \<Rightarrow> bool \<times> buffer" where
  "buf_copy dest src = buf_write dest (buf_bytes src)"

definition buf_read :: "buffer \<Rightarrow> int \<Rightarrow> byte list option \<times> buffer" where
  "buf_read src sz =
     (case buf_read_alloc src sz of
        (None, b) \<Rightarrow> (None, b)
      | (Some cp, b) \<Rightarrow> (Some (mem_get (bf_mem src) cp (nat sz)), b))"

definition buf_copy_n :: "buffer \<Rightarrow> buffer \<Rightarrow> int \<Rightarrow> bool \<times> buffer \<times> buffer" where
  "buf_copy_n dest src n =
     (case buf_read_alloc src n of
        (None, src') \<Rightarrow> (False, dest, src')
      | (Some cp, src') \<Rightarrow>
          (case buf_write dest (mem_get (bf_mem src) cp (nat n)) of
             (ok, dest') \<Rightarrow> (ok, dest', src')))"

definition buf_copy_range :: "buffer \<Rightarrow> int \<Rightarrow> buffer \<Rightarrow> int \<Rightarrow> int \<Rightarrow> bool \<times> buffer" where
  "buf_copy_range dest dest_index src src_index src_len =
     (if src_index < 0 \<or> src_len < 0 \<or> src_index + src_len > bf_len src \<or> dest_index < 0
         \<or> bf_off dest + dest_index + src_len > bf_cap dest
      then (False, dest)
      else let d = bf_poke dest (nat (bf_off dest + dest_index))
                     (mem_get (bf_mem src) (nat (bf_off src + src_index)) (nat src_len))
           in (True, if dest_index + src_len > bf_len d
                     then d\<lparr>bf_len := dest_index + src_len\<rparr> else d))"

definition buf_copy_excess :: "buffer \<Rightarrow> buffer \<Rightarrow> int \<Rightarrow> bool \<times> buffer \<times> buffer" where
  "buf_copy_excess dest src n =
     (if n < 0 then (False, dest, src)
      else if bf_len src > n then
        (let src' = src\<lparr>bf_len := n\<rparr> in
         case buf_advance src n of
           (False, b) \<Rightarrow> (False, dest, src')
         | (True, b) \<Rightarrow> (case buf_copy dest b of (ok, dest') \<Rightarrow> (ok, dest', src')))
      else (True, dest, src))"

text \<open>\<^verbatim>\<open>buf_read_u8\<close> and \<^verbatim>\<open>buf_read_u16\<close> return \<open>-1\<close> at the end of the buffer.\<close>

definition buf_read_u8 :: "buffer \<Rightarrow> int \<times> buffer" where
  "buf_read_u8 b =
     (if buf_len b < 1 then (- 1, b)
      else (case buf_bptr b of
              None \<Rightarrow> (- 1, b)
            | Some p \<Rightarrow> (int (unat (bf_mem b ! p)), snd (buf_advance b 1))))"

definition buf_read_u16 :: "buffer \<Rightarrow> int \<times> buffer" where
  "buf_read_u16 b =
     (case buf_read b 2 of
        (None, b') \<Rightarrow> (- 1, b')
      | (Some bs, b') \<Rightarrow> (int (unat (dec16 bs)), b'))"

definition buf_read_u32 :: "buffer \<Rightarrow> (u32 \<times> bool) \<times> buffer" where
  "buf_read_u32 b =
     (case buf_read b 4 of
        (None, b') \<Rightarrow> ((0, False), b')
      | (Some bs, b') \<Rightarrow> ((dec32 bs, True), b'))"

definition buf_equal :: "buffer \<Rightarrow> buffer \<Rightarrow> bool" where
  "buf_equal a b \<longleftrightarrow> buf_len a = buf_len b \<and> buf_bytes a = buf_bytes b"

definition buf_string_match :: "buffer \<Rightarrow> byte list \<Rightarrow> int \<Rightarrow> bool" where
  "buf_string_match src m sz =
     (if sz \<noteq> bf_len src then False else take (nat sz) (buf_bytes src) = take (nat sz) m)"

definition buf_string_match_head :: "buffer \<Rightarrow> byte list \<Rightarrow> int \<Rightarrow> bool" where
  "buf_string_match_head src m sz =
     (if sz < 0 \<or> sz > bf_len src then False
      else take (nat sz) (buf_bytes src) = take (nat sz) m)"

section \<open>Functions of \<^verbatim>\<open>buffer.c\<close>\<close>

definition array_mult_safe :: "nat \<Rightarrow> nat \<Rightarrow> nat \<Rightarrow> nat option" where
  "array_mult_safe m1 m2 extra =
     (let limit = 0xFFFFFFFF; res = (m1 * m2 + extra) mod 2 ^ 64 in
      if m1 > limit \<or> m2 > limit \<or> extra > limit \<or> res > limit then None else Some res)"

definition alloc_buf :: "int \<Rightarrow> buffer option" where
  "alloc_buf sz =
     (if \<not> buf_size_valid sz then None
      else Some \<lparr>bf_cap = sz, bf_off = 0, bf_len = 0, bf_data = Some (replicate (nat sz) 0)\<rparr>)"

text \<open>
  \<^verbatim>\<open>malloc\<close> leaves the new block unspecified: the block it returns is the argument
  \<open>fresh\<close>.
\<close>

definition alloc_buf_gc :: "int \<Rightarrow> byte list \<Rightarrow> buffer option" where
  "alloc_buf_gc sz fresh =
     (if \<not> buf_size_valid sz then None
      else Some \<lparr>bf_cap = sz, bf_off = 0, bf_len = 0,
                  bf_data = Some (if sz \<noteq> 0 then mem_put fresh 0 [0] else fresh)\<rparr>)"

definition clone_buf :: "buffer \<Rightarrow> byte list \<Rightarrow> buffer" where
  "clone_buf b fresh =
     \<lparr>bf_cap = bf_cap b, bf_off = bf_off b, bf_len = bf_len b,
      bf_data = Some (mem_put fresh (nat (bf_off b)) (buf_bytes b))\<rparr>"

definition buf_clear :: "buffer \<Rightarrow> buffer" where
  "buf_clear b =
     (let b1 = (if bf_cap b > 0 then bf_poke b 0 (replicate (nat (bf_cap b)) 0) else b)
      in b1\<lparr>bf_len := 0, bf_off := 0\<rparr>)"

definition buf_assign :: "buffer \<Rightarrow> buffer \<Rightarrow> bool \<times> buffer" where
  "buf_assign dest src =
     (case buf_init dest (bf_off src) of
        (False, d) \<Rightarrow> (False, d)
      | (True, d) \<Rightarrow> buf_write d (buf_bytes src))"

definition free_buf :: "buffer \<Rightarrow> buffer" where
  "free_buf b = clear_buf"

text \<open>
  The result of \<^verbatim>\<open>buf_sub\<close> points into the block of its argument. Its model carries the
  bytes of that region and the index where the region starts; \<open>buf_sub_sync\<close> makes the
  bytes written through it visible in the parent.
\<close>

definition buf_sub :: "buffer \<Rightarrow> int \<Rightarrow> bool \<Rightarrow> (buffer \<times> nat) \<times> buffer" where
  "buf_sub b sz prepend =
     (case (if prepend then buf_prepend b sz else buf_write_alloc b sz) of
        (Some p, b') \<Rightarrow>
          ((\<lparr>bf_cap = sz, bf_off = 0, bf_len = 0,
             bf_data = Some (mem_get (bf_mem b') p (nat sz))\<rparr>, p), b')
      | (None, b') \<Rightarrow> ((clear_buf, 0), b'))"

definition buf_sub_sync :: "buffer \<Rightarrow> nat \<Rightarrow> buffer \<Rightarrow> buffer" where
  "buf_sub_sync b p sub = bf_poke b p (bf_mem sub)"

section \<open>Well-formed buffers\<close>

definition buf_wf :: "buffer \<Rightarrow> bool" where
  "buf_wf b \<longleftrightarrow>
     (case bf_data b of
        None \<Rightarrow> bf_cap b = 0 \<and> bf_off b = 0 \<and> bf_len b = 0
      | Some m \<Rightarrow> 0 \<le> bf_off b \<and> 0 \<le> bf_len b \<and> bf_off b + bf_len b \<le> bf_cap b
                  \<and> bf_cap b = int (length m) \<and> bf_cap b < BUF_SIZE_MAX)"

lemmas buf_read_defs =
  buf_valid_def buf_bptr_def buf_len_def buf_bytes_def bf_mem_def content_def buf_wf_def

lemma buf_wf_bounds:
  "buf_wf b \<Longrightarrow> 0 \<le> bf_off b \<and> 0 \<le> bf_len b \<and> bf_off b + bf_len b \<le> bf_cap b"
  by (auto simp: buf_wf_def split: option.splits)

lemma buf_wf_mem: "buf_wf b \<Longrightarrow> bf_data b = Some m \<Longrightarrow> int (length m) = bf_cap b"
  by (simp add: buf_wf_def)

lemma length_content [buf_simps]: "buf_wf b \<Longrightarrow> length (content b) = nat (bf_len b)"
  by (auto simp: buf_read_defs mem_get_def split: option.splits)

lemma buf_len_wf [buf_simps]: "buf_wf b \<Longrightarrow> buf_len b = bf_len b"
  by (auto simp: buf_read_defs split: option.splits)

lemma buf_bytes_wf [buf_simps]: "buf_wf b \<Longrightarrow> buf_bytes b = content b"
  by (auto simp: buf_read_defs split: option.splits)

lemma bf_len_content: "buf_wf b \<Longrightarrow> bf_len b = int (length (content b))"
  using buf_wf_bounds [of b] by (simp add: length_content)

lemma buf_valid_wf [buf_simps]: "buf_wf b \<Longrightarrow> buf_valid b \<longleftrightarrow> buf_defined b"
  by (auto simp: buf_read_defs buf_defined_def split: option.splits)

lemma clear_buf_wf [buf_simps]: "buf_wf clear_buf" "content clear_buf = []"
  by (simp_all add: clear_buf_def buf_wf_def content_def)

lemma alloc_buf_wf:
  "alloc_buf n = Some b \<Longrightarrow> buf_wf b \<and> content b = [] \<and> bf_cap b = n \<and> buf_defined b"
  by (auto simp: alloc_buf_def buf_size_valid_def buf_wf_def content_def buf_defined_def split: if_splits)

lemma buf_init_wf:
  "buf_wf b \<Longrightarrow> buf_init b off = (ok, b') \<Longrightarrow>
     buf_wf b' \<and> (ok \<longrightarrow> content b' = [] \<and> bf_off b' = off) \<and> bf_cap b' = bf_cap b
     \<and> buf_defined b' = buf_defined b"
  by (auto simp: buf_init_def buf_read_defs buf_defined_def split: if_splits option.splits)

subsection \<open>Appending\<close>

lemma buf_write_iff [buf_simps]: "fst (buf_write b xs) \<longleftrightarrow> buf_safe b (int (length xs))"
  by (auto simp: buf_write_def buf_write_alloc_def buf_safe_def buf_bptr_def split: option.splits)

lemma buf_write_unsafe [buf_simps]:
  "\<not> buf_safe b (int (length xs)) \<Longrightarrow> buf_write b xs = (False, b)"
  by (simp add: buf_write_def buf_write_alloc_def)

lemma buf_write_safe:
  assumes wf: "buf_wf b" and safe: "buf_safe b (int (length xs))"
  obtains b' where "buf_write b xs = (True, b')" "buf_wf b'" "content b' = content b @ xs"
    "bf_off b' = bf_off b" "bf_cap b' = bf_cap b" "bf_len b' = bf_len b + int (length xs)"
    "buf_defined b'"
proof -
  from safe obtain m where m: "bf_data b = Some m"
    by (auto simp: buf_safe_def buf_valid_def)
  let ?p = "nat (bf_off b) + nat (bf_len b)"
  let ?b = "b\<lparr>bf_len := bf_len b + int (length xs), bf_data := Some (mem_put m ?p xs)\<rparr>"
  have bounds: "0 \<le> bf_off b" "0 \<le> bf_len b" "bf_off b + bf_len b + int (length xs) \<le> bf_cap b"
    "bf_cap b = int (length m)" "bf_cap b < BUF_SIZE_MAX"
    using wf safe m by (auto simp: buf_wf_def buf_safe_def)
  have fits: "?p + length xs \<le> length m"
    using bounds by linarith
  have w: "buf_write b xs = (True, ?b)"
    using safe m bounds
    by (simp add: buf_write_def buf_write_alloc_def buf_bptr_def buf_safe_def bf_poke_def)
  have wf': "buf_wf ?b"
    using bounds fits by (simp add: buf_wf_def mem_simps)
  have "nat (bf_len b + int (length xs)) = nat (bf_len b) + length xs"
    using bounds by (simp add: nat_add_distrib)
  then have c: "content ?b = content b @ xs"
    using m fits by (simp add: content_def bf_mem_def mem_simps)
  show thesis
    by (rule that [OF w wf' c]) (simp_all add: buf_defined_def)
qed

lemma buf_write_wf [buf_simps]: "buf_wf b \<Longrightarrow> buf_wf (snd (buf_write b xs))"
  by (cases "buf_safe b (int (length xs))")
     (auto elim!: buf_write_safe [of b xs] simp: buf_write_unsafe)

lemma content_buf_write [buf_simps]:
  "buf_wf b \<Longrightarrow> buf_safe b (int (length xs)) \<Longrightarrow> content (snd (buf_write b xs)) = content b @ xs"
  by (auto elim!: buf_write_safe [of b xs])

lemma buf_write_frame [buf_simps]:
  "buf_wf b \<Longrightarrow> bf_off (snd (buf_write b xs)) = bf_off b"
  "buf_wf b \<Longrightarrow> bf_cap (snd (buf_write b xs)) = bf_cap b"
  "buf_wf b \<Longrightarrow> buf_defined (snd (buf_write b xs)) = buf_defined b"
  by (cases "buf_safe b (int (length xs))";
      auto elim!: buf_write_safe [of b xs] simp: buf_write_unsafe buf_safe_def buf_valid_def buf_defined_def)+

lemma buf_safe_wf:
  "buf_wf b \<Longrightarrow> buf_safe b n \<longleftrightarrow> buf_defined b \<and> 0 \<le> n \<and> bf_off b + bf_len b + n \<le> bf_cap b"
  by (auto simp: buf_safe_def buf_wf_def buf_valid_def buf_size_valid_def buf_defined_def split: option.splits)

subsection \<open>Prepending\<close>

lemma buf_prepend_none:
  "\<not> buf_valid b \<or> n < 0 \<or> n > bf_off b \<Longrightarrow> buf_prepend b n = (None, b)"
  by (simp add: buf_prepend_def)

lemma buf_write_prepend_safe:
  assumes wf: "buf_wf b" and def: "buf_defined b" and room: "int (length xs) \<le> bf_off b"
  obtains b' where "buf_write_prepend b xs = (True, b')" "buf_wf b'" "content b' = xs @ content b"
    "bf_off b' = bf_off b - int (length xs)" "bf_cap b' = bf_cap b" "buf_defined b'"
    "bf_len b' = bf_len b + int (length xs)"
proof -
  from def obtain m where m: "bf_data b = Some m"
    by (auto simp: buf_defined_def)
  let ?p = "nat (bf_off b - int (length xs))"
  let ?b = "b\<lparr>bf_off := bf_off b - int (length xs), bf_len := bf_len b + int (length xs),
               bf_data := Some (mem_put m ?p xs)\<rparr>"
  have bounds: "0 \<le> bf_len b" "bf_off b + bf_len b \<le> bf_cap b"
    "bf_cap b = int (length m)" "bf_cap b < BUF_SIZE_MAX"
    using wf m by (auto simp: buf_wf_def)
  have p: "?p + length xs = nat (bf_off b)"
    using room by linarith
  have fits: "nat (bf_off b) \<le> length m"
    using bounds room by linarith
  have w: "buf_write_prepend b xs = (True, ?b)"
    using m bounds room
    by (simp add: buf_write_prepend_def buf_prepend_def buf_valid_def buf_bptr_def Let_def bf_poke_def)
  have wf': "buf_wf ?b"
    using bounds room fits p by (simp add: buf_wf_def mem_simps)
  have n: "nat (bf_len b + int (length xs)) = length xs + nat (bf_len b)"
    using bounds by (simp add: nat_add_distrib)
  have c: "content ?b = xs @ content b"
    using m fits p n by (simp add: content_def bf_mem_def mem_get_put_extend_left [where j = "nat (bf_off b)"])
  show thesis
    by (rule that [OF w wf' c]) (simp_all add: buf_defined_def)
qed

lemma buf_write_prepend_unsafe [buf_simps]:
  "\<not> buf_valid b \<or> int (length xs) > bf_off b \<Longrightarrow> buf_write_prepend b xs = (False, b)"
  by (auto simp: buf_write_prepend_def buf_prepend_def)

subsection \<open>Reading\<close>

lemma buf_advance_ok:
  assumes wf: "buf_wf b" and def: "buf_defined b" and n: "0 \<le> n" "n \<le> bf_len b"
  obtains b' where "buf_advance b n = (True, b')" "buf_wf b'" "content b' = drop (nat n) (content b)"
    "bf_cap b' = bf_cap b" "bf_off b' = bf_off b + n" "buf_defined b'" "bf_len b' = bf_len b - n"
proof -
  let ?b = "b\<lparr>bf_off := bf_off b + n, bf_len := bf_len b - n\<rparr>"
  have w: "buf_advance b n = (True, ?b)"
    using assms by (auto simp: buf_advance_def buf_valid_def buf_defined_def)
  have wf': "buf_wf ?b"
    using assms by (auto simp: buf_wf_def split: option.splits)
  have c: "content ?b = drop (nat n) (content b)"
    using n buf_wf_bounds [OF wf]
    by (simp add: content_def bf_mem_def mem_get_drop nat_add_distrib nat_diff_distrib)
  show thesis
    using def by (intro that [OF w wf' c]) (simp_all add: buf_defined_def)
qed

lemma buf_read_short [buf_simps]:
  "bf_len b < n \<Longrightarrow> buf_read b n = (None, b)"
  by (simp add: buf_read_def buf_read_alloc_def)

lemma buf_read_ok:
  assumes wf: "buf_wf b" and def: "buf_defined b" and n: "0 \<le> n" "n \<le> bf_len b"
  obtains b' where "buf_read b n = (Some (take (nat n) (content b)), b')" "buf_wf b'"
    "content b' = drop (nat n) (content b)" "bf_cap b' = bf_cap b" "buf_defined b'"
    "bf_len b' = bf_len b - n"
proof -
  obtain b' where b': "buf_advance b n = (True, b')" "buf_wf b'" "content b' = drop (nat n) (content b)"
    "bf_cap b' = bf_cap b" "buf_defined b'" "bf_len b' = bf_len b - n"
    using buf_advance_ok [OF assms] by metis
  have "nat n \<le> nat (bf_len b)"
    using n by linarith
  then have "buf_read b n = (Some (take (nat n) (content b)), b')"
    using b'(1) wf def n
    by (auto simp: buf_read_def buf_read_alloc_def buf_advance_def buf_bptr_def buf_valid_def
        content_def mem_get_take split: if_splits)
  with b' show thesis
    by (intro that)
qed

lemma buf_read_wf: "buf_wf b \<Longrightarrow> 0 \<le> n \<Longrightarrow> buf_wf (snd (buf_read b n))"
  by (auto simp: buf_read_def buf_read_alloc_def buf_wf_def split: option.splits if_splits)

lemma buf_read_u8_ok:
  assumes "buf_wf b" "content b = x # xs"
  obtains b' where "buf_read_u8 b = (int (unat x), b')" "buf_wf b'" "content b' = xs"
    "bf_cap b' = bf_cap b" "buf_defined b'"
proof -
  have len: "1 \<le> bf_len b"
    using assms bf_len_content [of b] by simp
  then have def: "buf_defined b"
    using assms(1) by (auto simp: buf_wf_def buf_defined_def split: option.splits)
  obtain b' where b': "buf_advance b 1 = (True, b')" "buf_wf b'" "content b' = drop 1 (content b)"
    "bf_cap b' = bf_cap b" "buf_defined b'"
    using buf_advance_ok [OF assms(1) def _ len] by (metis nat_one_as_int int_one_le_iff_zero_less zero_le_one nat_1)
  obtain m where m: "bf_data b = Some m"
    using def by (auto simp: buf_defined_def)
  have "nat (bf_off b) < length m"
    using assms(1) m len by (auto simp: buf_wf_def)
  then have "bf_mem b ! nat (bf_off b) = x"
    using assms(2) m len
    by (cases "nat (bf_len b)") (auto simp: content_def bf_mem_def mem_get_Suc)
  then have "buf_read_u8 b = (int (unat x), b')"
    using len def assms(1) b'(1)
    by (simp add: buf_read_u8_def buf_len_wf buf_bptr_def buf_valid_wf)
  with b' assms(2) show thesis
    by (intro that) auto
qed

lemma buf_read_u8_end: "buf_wf b \<Longrightarrow> content b = [] \<Longrightarrow> buf_read_u8 b = (- 1, b)"
  using bf_len_content [of b] by (simp add: buf_read_u8_def buf_len_wf)

section \<open>Fixed-width fields\<close>

text \<open>
  The interface between the packet formats and the buffer: an encoder of fixed width and
  a decoder that inverts it. Writing a field and reading it back is proved once.
\<close>

locale byte_codec =
  fixes enc :: "'a \<Rightarrow> byte list" and dec :: "byte list \<Rightarrow> 'a" and width :: nat
  assumes width: "length (enc x) = width"
    and dec_enc: "dec (enc x) = x"
begin

lemma read_field:
  assumes "buf_wf b" "content b = enc x @ rest" "0 < width"
  obtains b' where "buf_read b (int width) = (Some (enc x), b')" "buf_wf b'" "content b' = rest"
    "dec (enc x) = x" "buf_defined b'"
proof -
  have len: "int width \<le> bf_len b"
    using assms(1,2) bf_len_content [of b] width [of x] by simp
  then have "buf_defined b"
    using assms(1,3) by (auto simp: buf_wf_def buf_defined_def split: option.splits)
  then show thesis
    using buf_read_ok [OF assms(1) _ _ len] assms(2) width [of x] dec_enc [of x] that
    by (metis append_eq_conv_conj nat_int of_nat_0_le_iff)
qed

lemma write_read:
  assumes "buf_wf b" "content b = []" "buf_safe b (int width)" "0 < width"
  shows "map_option dec (fst (buf_read (snd (buf_write b (enc x))) (int width))) = Some x"
proof -
  obtain b' where "buf_write b (enc x) = (True, b')" "buf_wf b'" "content b' = enc x @ []"
    using buf_write_safe [OF assms(1), of "enc x"] assms(2,3) by (auto simp: width)
  then show ?thesis
    using read_field [of b' x "[]"] assms(4) by (metis fst_conv option.simps(9) snd_conv)
qed

lemma prepend_read:
  assumes "buf_wf b" "buf_defined b" "int width \<le> bf_off b" "0 < width"
  shows "\<exists>b1 b2. buf_write_prepend b (enc x) = (True, b1)
           \<and> buf_read b1 (int width) = (Some (enc x), b2) \<and> content b2 = content b"
proof -
  obtain b1 where b1: "buf_write_prepend b (enc x) = (True, b1)" "buf_wf b1"
    "content b1 = enc x @ content b"
    using buf_write_prepend_safe [OF assms(1,2), of "enc x"] assms(3) by (auto simp: width)
  then obtain b2 where "buf_read b1 (int width) = (Some (enc x), b2)" "content b2 = content b"
    using read_field [OF b1(2,3) assms(4)] by metis
  with b1(1) show ?thesis
    by blast
qed

end

interpretation u16c: byte_codec enc16 dec16 2
  by unfold_locales (simp_all add: codec_simps)

interpretation u32c: byte_codec enc32 dec32 4
  by unfold_locales (simp_all add: codec_simps)

interpretation u64c: byte_codec enc64 dec64 8
  by unfold_locales (simp_all add: codec_simps)

section \<open>Properties\<close>

text \<open>C29: \<^verbatim>\<open>buf_write\<close> is memory safe and appends: on a well-formed buffer it succeeds exactly
  when the bytes fit behind the content, and then the content grows by them at the end and
  nothing else moves; otherwise the buffer is untouched.\<close>

theorem buf_write_appends:
  assumes "buf_wf b"
  shows "case buf_write b xs of (ok, b') \<Rightarrow>
      buf_wf b'
      \<and> (ok \<longleftrightarrow> buf_defined b \<and> bf_off b + bf_len b + int (length xs) \<le> bf_cap b)
      \<and> (if ok then content b' = content b @ xs \<and> bf_off b' = bf_off b \<and> bf_cap b' = bf_cap b
         else b' = b)"
proof (cases "buf_safe b (int (length xs))")
  case True
  then show ?thesis
    by (rule buf_write_safe [OF assms]) (use True assms in \<open>auto simp: buf_safe_wf\<close>)
next
  case False
  with assms show ?thesis
    by (auto simp: buf_write_unsafe buf_safe_wf)
qed

definition demo_buf :: buffer where
  "demo_buf = \<lparr>bf_cap = 6, bf_off = 2, bf_len = 1, bf_data = Some [0, 0, 7, 0, 0, 0]\<rparr>"

lemma demo_buf_wf: "buf_wf demo_buf" "content demo_buf = [7]"
  by (simp_all add: demo_buf_def buf_wf_def content_def bf_mem_def mem_get_def BUF_SIZE_MAX_def)

theorem buf_write_appends_witness:
  "content (snd (buf_write demo_buf [1, 2, 3])) = [7, 1, 2, 3]
   \<and> buf_write demo_buf [1, 2, 3, 4] = (False, demo_buf)"
  using buf_write_appends [OF demo_buf_wf(1), of "[1, 2, 3]"]
    buf_write_appends [OF demo_buf_wf(1), of "[1, 2, 3, 4]"] demo_buf_wf(2)
  by (auto simp: demo_buf_def buf_defined_def split: prod.splits if_splits)

text \<open>a header prepended with \<^verbatim>\<open>buf_write_prepend\<close> is what the next \<^verbatim>\<open>buf_read\<close> of its
  length returns, and that read restores the content from before the prepend.\<close>

lemma buf_prepend_read_roundtrip:
  assumes "buf_wf b" "buf_defined b" "int (length h) \<le> bf_off b"
  shows "\<exists>b1 b2. buf_write_prepend b h = (True, b1) \<and> buf_wf b1
     \<and> buf_read b1 (int (length h)) = (Some h, b2) \<and> buf_wf b2 \<and> content b2 = content b"
proof -
  obtain b1 where b1: "buf_write_prepend b h = (True, b1)" "buf_wf b1" "content b1 = h @ content b"
    "buf_defined b1" "bf_len b1 = bf_len b + int (length h)"
    using buf_write_prepend_safe [OF assms] by metis
  then obtain b2 where "buf_read b1 (int (length h)) = (Some (take (length h) (content b1)), b2)"
    "buf_wf b2" "content b2 = drop (length h) (content b1)"
    using buf_read_ok [OF b1(2,4), of "int (length h)"] buf_wf_bounds [OF assms(1)] by auto
  with b1 show ?thesis
    by auto
qed

lemma buf_prepend_read_roundtrip_witness:
  "\<exists>b1 b2. buf_write_prepend demo_buf [5, 6] = (True, b1) \<and> buf_wf b1
     \<and> buf_read b1 (int (length [5 :: byte, 6])) = (Some [5, 6], b2) \<and> buf_wf b2
     \<and> content b2 = content demo_buf"
  by (rule buf_prepend_read_roundtrip [OF demo_buf_wf(1)])
     (simp_all add: demo_buf_def buf_defined_def)

text \<open>\<^verbatim>\<open>buf_copy_excess\<close> cuts the source at \<^verbatim>\<open>len\<close> and appends exactly the cut-off
  tail to the destination; no byte is lost or duplicated when the tail fits.\<close>

theorem buf_copy_excess_splits:
  assumes "buf_wf dest" "buf_wf src" "0 \<le> n"
    and "n < bf_len src \<longrightarrow> buf_safe dest (bf_len src - n)"
  shows "\<exists>dest' src'. buf_copy_excess dest src n = (True, dest', src')
     \<and> buf_wf dest' \<and> buf_wf src'
     \<and> content src' = take (nat n) (content src)
     \<and> content dest' = content dest @ drop (nat n) (content src)"
proof (cases "n < bf_len src")
  case False
  then have "length (content src) \<le> nat n"
    using assms(2) by (simp add: length_content nat_mono)
  with False assms show ?thesis
    by (simp add: buf_copy_excess_def)
next
  case True
  have def: "buf_defined src"
    using assms(2,3) True by (auto simp: buf_wf_def buf_defined_def split: option.splits)
  let ?src = "src\<lparr>bf_len := n\<rparr>"
  obtain b where b: "buf_advance src n = (True, b)" "buf_wf b"
    "content b = drop (nat n) (content src)" "bf_len b = bf_len src - n"
    using buf_advance_ok [OF assms(2) def assms(3)] True by (metis less_imp_le)
  have wf': "buf_wf ?src"
    using assms(2,3) True by (auto simp: buf_wf_def split: option.splits)
  have c': "content ?src = take (nat n) (content src)"
    using True assms(3) by (simp add: content_def bf_mem_def mem_get_take nat_mono)
  have len: "int (length (content b)) = bf_len src - n"
    using b(2,4) True by (simp add: length_content)
  then obtain d where d: "buf_write dest (content b) = (True, d)" "buf_wf d"
    "content d = content dest @ content b"
    using buf_write_safe [OF assms(1), of "content b"] assms(4) True by auto
  have "buf_copy dest b = (True, d)"
    using d(1) b(2) by (simp add: buf_copy_def buf_bytes_wf)
  with b(1,3) d(2,3) wf' c' assms(3) True show ?thesis
    by (simp add: buf_copy_excess_def Let_def)
qed

theorem buf_copy_excess_splits_witness:
  "\<exists>dest' src'. buf_copy_excess demo_buf (snd (buf_write demo_buf [8, 9])) 1 = (True, dest', src')
     \<and> content dest' = [7, 8, 9] \<and> content src' = [7]"
proof -
  have safe: "buf_safe demo_buf 2"
    using demo_buf_wf(1) by (simp add: buf_safe_wf demo_buf_def buf_defined_def)
  obtain s where s: "buf_write demo_buf [8, 9] = (True, s)" "buf_wf s" "content s = [7, 8, 9]" "bf_len s = 3"
    by (rule buf_write_safe [OF demo_buf_wf(1), of "[8, 9]"])
       (use safe demo_buf_wf(2) in \<open>auto simp: demo_buf_def\<close>)
  with safe show ?thesis
    using buf_copy_excess_splits [OF demo_buf_wf(1) s(2), of 1] demo_buf_wf(2) by auto
qed

end
