(* ===== verification/C_Strings.thy ===== *)
theory C_Strings
  imports Buf
begin

unbundle bit_operations_syntax

text \<open>
  The string half of \<^verbatim>\<open>buffer.c\<close>: character classes, the in-place string filters that
  sanitise names and passwords received from a peer, and the text operations on a
  \<^verbatim>\<open>struct buffer\<close>. A NUL-terminated C string is the list of its bytes before the
  terminator; a \<^verbatim>\<open>char[size]\<close> array is a list of \<open>size\<close> bytes, terminator included.
\<close>

section \<open>Characters of the C locale\<close>

definition isdigit :: "byte \<Rightarrow> bool" where "isdigit c \<longleftrightarrow> 48 \<le> unat c \<and> unat c \<le> 57"
definition isupper :: "byte \<Rightarrow> bool" where "isupper c \<longleftrightarrow> 65 \<le> unat c \<and> unat c \<le> 90"
definition islower :: "byte \<Rightarrow> bool" where "islower c \<longleftrightarrow> 97 \<le> unat c \<and> unat c \<le> 122"
definition isalpha :: "byte \<Rightarrow> bool" where "isalpha c \<longleftrightarrow> isupper c \<or> islower c"
definition isalnum :: "byte \<Rightarrow> bool" where "isalnum c \<longleftrightarrow> isalpha c \<or> isdigit c"
definition isascii :: "byte \<Rightarrow> bool" where "isascii c \<longleftrightarrow> unat c < 128"
definition iscntrl :: "byte \<Rightarrow> bool" where "iscntrl c \<longleftrightarrow> unat c < 32 \<or> unat c = 127"
definition isspace :: "byte \<Rightarrow> bool" where "isspace c \<longleftrightarrow> unat c = 32 \<or> (9 \<le> unat c \<and> unat c \<le> 13)"
definition ispunct :: "byte \<Rightarrow> bool" where "ispunct c \<longleftrightarrow> 33 \<le> unat c \<and> unat c \<le> 126 \<and> \<not> isalnum c"
definition isxdigit :: "byte \<Rightarrow> bool" where
  "isxdigit c \<longleftrightarrow> isdigit c \<or> (65 \<le> unat c \<and> unat c \<le> 70) \<or> (97 \<le> unat c \<and> unat c \<le> 102)"

lemmas ctype_defs = isdigit_def isupper_def islower_def isalpha_def isalnum_def isascii_def
  iscntrl_def isspace_def ispunct_def isxdigit_def

definition CC_ANY :: u32 where "CC_ANY = 0x1"
definition CC_NULL :: u32 where "CC_NULL = 0x2"
definition CC_ALNUM :: u32 where "CC_ALNUM = 0x4"
definition CC_ALPHA :: u32 where "CC_ALPHA = 0x8"
definition CC_ASCII :: u32 where "CC_ASCII = 0x10"
definition CC_CNTRL :: u32 where "CC_CNTRL = 0x20"
definition CC_DIGIT :: u32 where "CC_DIGIT = 0x40"
definition CC_PRINT :: u32 where "CC_PRINT = 0x80"
definition CC_PUNCT :: u32 where "CC_PUNCT = 0x100"
definition CC_SPACE :: u32 where "CC_SPACE = 0x200"
definition CC_XDIGIT :: u32 where "CC_XDIGIT = 0x400"
definition CC_BLANK :: u32 where "CC_BLANK = 0x800"
definition CC_NEWLINE :: u32 where "CC_NEWLINE = 0x1000"
definition CC_CR :: u32 where "CC_CR = 0x2000"
definition CC_BACKSLASH :: u32 where "CC_BACKSLASH = 0x4000"
definition CC_UNDERBAR :: u32 where "CC_UNDERBAR = 0x8000"
definition CC_DASH :: u32 where "CC_DASH = 0x10000"
definition CC_DOT :: u32 where "CC_DOT = 0x20000"
definition CC_COMMA :: u32 where "CC_COMMA = 0x40000"
definition CC_COLON :: u32 where "CC_COLON = 0x80000"
definition CC_SLASH :: u32 where "CC_SLASH = 0x100000"
definition CC_SINGLE_QUOTE :: u32 where "CC_SINGLE_QUOTE = 0x200000"
definition CC_DOUBLE_QUOTE :: u32 where "CC_DOUBLE_QUOTE = 0x400000"
definition CC_REVERSE_QUOTE :: u32 where "CC_REVERSE_QUOTE = 0x800000"
definition CC_AT :: u32 where "CC_AT = 0x1000000"
definition CC_EQUAL :: u32 where "CC_EQUAL = 0x2000000"
definition CC_LESS_THAN :: u32 where "CC_LESS_THAN = 0x4000000"
definition CC_GREATER_THAN :: u32 where "CC_GREATER_THAN = 0x8000000"
definition CC_PIPE :: u32 where "CC_PIPE = 0x10000000"
definition CC_QUESTION_MARK :: u32 where "CC_QUESTION_MARK = 0x20000000"
definition CC_ASTERISK :: u32 where "CC_ASTERISK = 0x40000000"
definition CC_CRLF :: u32 where "CC_CRLF = CC_CR OR CC_NEWLINE"
definition CC_NAME :: u32 where "CC_NAME = CC_ALNUM OR CC_UNDERBAR"

lemmas cc_defs = CC_ANY_def CC_NULL_def CC_ALNUM_def CC_ALPHA_def CC_ASCII_def CC_CNTRL_def CC_DIGIT_def CC_PRINT_def CC_PUNCT_def CC_SPACE_def CC_XDIGIT_def CC_BLANK_def CC_NEWLINE_def CC_CR_def CC_BACKSLASH_def CC_UNDERBAR_def CC_DASH_def CC_DOT_def CC_COMMA_def CC_COLON_def CC_SLASH_def CC_SINGLE_QUOTE_def CC_DOUBLE_QUOTE_def CC_REVERSE_QUOTE_def CC_AT_def CC_EQUAL_def CC_LESS_THAN_def CC_GREATER_THAN_def CC_PIPE_def CC_QUESTION_MARK_def CC_ASTERISK_def
  CC_CRLF_def CC_NAME_def

definition cc_has :: "u32 \<Rightarrow> u32 \<Rightarrow> bool" where
  "cc_has flags cls \<longleftrightarrow> flags AND cls \<noteq> 0"

definition char_class :: "byte \<Rightarrow> u32 \<Rightarrow> bool" where
  "char_class c flags =
     (if flags = 0 then False
      else if cc_has flags CC_ANY then True
      else if cc_has flags CC_NULL \<and> c = 0 then True
      else if cc_has flags CC_ALNUM \<and> isalnum c then True
      else if cc_has flags CC_ALPHA \<and> isalpha c then True
      else if cc_has flags CC_ASCII \<and> isascii c then True
      else if cc_has flags CC_CNTRL \<and> iscntrl c then True
      else if cc_has flags CC_DIGIT \<and> isdigit c then True
      else if cc_has flags CC_PRINT \<and> (unat c \<ge> 32 \<and> c \<noteq> 127) then True
      else if cc_has flags CC_PUNCT \<and> ispunct c then True
      else if cc_has flags CC_SPACE \<and> isspace c then True
      else if cc_has flags CC_XDIGIT \<and> isxdigit c then True
      else if cc_has flags CC_BLANK \<and> (c = 32 \<or> c = 9) then True
      else if cc_has flags CC_NEWLINE \<and> c = 10 then True
      else if cc_has flags CC_CR \<and> c = 13 then True
      else if cc_has flags CC_BACKSLASH \<and> c = 92 then True
      else if cc_has flags CC_UNDERBAR \<and> c = 95 then True
      else if cc_has flags CC_DASH \<and> c = 45 then True
      else if cc_has flags CC_DOT \<and> c = 46 then True
      else if cc_has flags CC_COMMA \<and> c = 44 then True
      else if cc_has flags CC_COLON \<and> c = 58 then True
      else if cc_has flags CC_SLASH \<and> c = 47 then True
      else if cc_has flags CC_SINGLE_QUOTE \<and> c = 39 then True
      else if cc_has flags CC_DOUBLE_QUOTE \<and> c = 34 then True
      else if cc_has flags CC_REVERSE_QUOTE \<and> c = 96 then True
      else if cc_has flags CC_AT \<and> c = 64 then True
      else if cc_has flags CC_EQUAL \<and> c = 61 then True
      else if cc_has flags CC_LESS_THAN \<and> c = 60 then True
      else if cc_has flags CC_GREATER_THAN \<and> c = 62 then True
      else if cc_has flags CC_PIPE \<and> c = 124 then True
      else if cc_has flags CC_QUESTION_MARK \<and> c = 63 then True
      else if cc_has flags CC_ASTERISK \<and> c = 42 then True
      else False)"

definition char_inc_exc :: "byte \<Rightarrow> u32 \<Rightarrow> u32 \<Rightarrow> bool" where
  "char_inc_exc c inclusive exclusive \<longleftrightarrow> char_class c inclusive \<and> \<not> char_class c exclusive"

section \<open>String filters\<close>

fun string_class :: "byte list \<Rightarrow> u32 \<Rightarrow> u32 \<Rightarrow> bool" where
  "string_class [] inclusive exclusive = True"
| "string_class (c # cs) inclusive exclusive =
     (if \<not> char_inc_exc c inclusive exclusive then False
      else string_class cs inclusive exclusive)"

text \<open>The loop of \<^verbatim>\<open>string_mod\<close>: the result is \<^verbatim>\<open>ret\<close> and the string left in place.\<close>

fun string_mod :: "byte list \<Rightarrow> u32 \<Rightarrow> u32 \<Rightarrow> byte \<Rightarrow> bool \<times> byte list" where
  "string_mod [] inclusive exclusive rep = (True, [])"
| "string_mod (c # cs) inclusive exclusive rep =
     (let bad = \<not> char_inc_exc c inclusive exclusive;
          c' = (if bad then rep else c);
          r = string_mod cs inclusive exclusive rep
      in (\<not> bad \<and> fst r, if c' \<noteq> 0 then c' # snd r else snd r))"

definition string_mod_const :: "byte list option \<Rightarrow> u32 \<Rightarrow> u32 \<Rightarrow> byte \<Rightarrow> byte list option" where
  "string_mod_const str inclusive exclusive rep =
     map_option (\<lambda>s. snd (string_mod s inclusive exclusive rep)) str"

definition string_check_buf :: "buffer \<Rightarrow> u32 \<Rightarrow> u32 \<Rightarrow> bool" where
  "string_check_buf b inclusive exclusive \<longleftrightarrow>
     list_all (\<lambda>c. char_inc_exc c inclusive exclusive) (buf_bytes b)"

fun string_replace_leading :: "byte list \<Rightarrow> byte \<Rightarrow> byte \<Rightarrow> byte list" where
  "string_replace_leading [] m r = []"
| "string_replace_leading (c # cs) m r =
     (if c = m then r # string_replace_leading cs m r else c # cs)"

fun skip_leading_whitespace :: "byte list \<Rightarrow> byte list" where
  "skip_leading_whitespace [] = []"
| "skip_leading_whitespace (c # cs) =
     (if \<not> (c = 32 \<or> c = 9) then c # cs else skip_leading_whitespace cs)"

text \<open>
  \<^verbatim>\<open>strchr(what, *cp)\<close> never sees the terminator here, as \<^verbatim>\<open>len > 0\<close> and \<^verbatim>\<open>cp\<close> is the
  last character.
\<close>

function rm_trailing_chars :: "byte list \<Rightarrow> byte list \<Rightarrow> byte list" where
  "rm_trailing_chars str what =
     (if str \<noteq> [] \<and> last str \<in> set what then rm_trailing_chars (butlast str) what else str)"
  by pat_completeness auto
termination
  by (relation "measure (\<lambda>(s, w). length s)") auto

declare rm_trailing_chars.simps [simp del]

definition chomp :: "byte list \<Rightarrow> byte list" where
  "chomp str = rm_trailing_chars str [13, 10]"

text \<open>The array of \<open>capacity\<close> bytes after \<^verbatim>\<open>string_null_terminate\<close>; \<open>None\<close> is the \<^verbatim>\<open>ASSERT\<close>.\<close>

definition string_null_terminate :: "byte list \<Rightarrow> int \<Rightarrow> int \<Rightarrow> byte list option" where
  "string_null_terminate str n capacity =
     (if \<not> (n \<ge> 0 \<and> n \<le> capacity \<and> capacity > 0) then None
      else if n < capacity then Some (str[nat n := 0])
      else if n = capacity then Some (str[nat (n - 1) := 0])
      else Some str)"

definition c_strlen :: "byte list \<Rightarrow> nat" where
  "c_strlen a = length (takeWhile (\<lambda>c. c \<noteq> 0) a)"

definition has_digit :: "byte list \<Rightarrow> bool" where
  "has_digit src \<longleftrightarrow> list_ex isdigit src"

text \<open>\<^verbatim>\<open>strncpynt(dest, src, maxlen)\<close>: the \<open>maxlen\<close> bytes of \<open>dest\<close> afterwards.\<close>

definition strncpynt :: "byte list \<Rightarrow> byte list \<Rightarrow> nat \<Rightarrow> byte list" where
  "strncpynt dest src maxlen =
     (if maxlen > 0
      then mem_put dest 0
             (take (maxlen - 1) src @ replicate (maxlen - 1 - length src) 0 @ [0])
      else dest)"

section \<open>Text in a buffer\<close>

definition buf_rmtail :: "buffer \<Rightarrow> byte \<Rightarrow> buffer" where
  "buf_rmtail b remove =
     (case buf_blast b of
        None \<Rightarrow> b
      | Some cp \<Rightarrow> if bf_mem b ! cp = remove
                   then (bf_poke b cp [0])\<lparr>bf_len := bf_len b - 1\<rparr> else b)"

definition buf_null_terminate :: "buffer \<Rightarrow> buffer" where
  "buf_null_terminate b =
     (if (case buf_blast b of None \<Rightarrow> False | Some l \<Rightarrow> bf_mem b ! l = 0) then b
      else let b1 = (if \<not> buf_safe b 1 then snd (buf_inc_len b (- 1)) else b)
           in snd (buf_write_u8 b1 0))"

function buf_chomp_loop :: "buffer \<Rightarrow> buffer" where
  "buf_chomp_loop b =
     (case buf_blast b of
        None \<Rightarrow> b
      | Some l \<Rightarrow>
          if char_class (bf_mem b ! l) (CC_CRLF OR CC_NULL)
          then (if fst (buf_inc_len b (- 1)) then buf_chomp_loop (snd (buf_inc_len b (- 1))) else b)
          else b)"
  by pat_completeness auto
termination
  by (relation "measure (\<lambda>b. nat (bf_len b))")
     (auto simp: buf_blast_def buf_len_def buf_inc_len_def split: if_splits)

declare buf_chomp_loop.simps [simp del]

definition buf_chomp :: "buffer \<Rightarrow> buffer" where
  "buf_chomp b = buf_null_terminate (buf_chomp_loop b)"

definition buf_puts :: "buffer \<Rightarrow> byte list \<Rightarrow> bool \<times> buffer" where
  "buf_puts b str =
     (let cap = buf_forward_capacity b in
      case buf_bend b of
        None \<Rightarrow> (False, b)
      | Some p \<Rightarrow>
          if cap > 0
          then let b1 = bf_poke b p (strncpynt (mem_get (bf_mem b) p (nat cap)) str (nat cap));
                   b2 = bf_poke b1 (nat (bf_cap b) - 1) [0]
               in (True, b2\<lparr>bf_len := bf_len b2 + int (c_strlen (drop p (bf_mem b2)))\<rparr>)
          else (False, b))"

definition buf_catrunc :: "buffer \<Rightarrow> byte list \<Rightarrow> buffer" where
  "buf_catrunc b str =
     (if buf_forward_capacity b \<le> 1
      then let n = int (length str) + 1 in
           if n < buf_forward_capacity_total b
           then bf_poke b (nat (bf_cap b - n)) (str @ [0]) else b
      else b)"

definition string_alloc_buf :: "byte list \<Rightarrow> buffer option" where
  "string_alloc_buf str =
     (case buf_set_read (Some (str @ [0])) (int (length str) + 1) of
        None \<Rightarrow> None
      | Some b \<Rightarrow> Some (if bf_len b > 0 then b\<lparr>bf_len := bf_len b - 1\<rparr> else b))"

definition buf_string_match_head_str :: "buffer \<Rightarrow> byte list \<Rightarrow> bool" where
  "buf_string_match_head_str src m =
     (if int (length m) > bf_len src then False else take (length m) (buf_bytes src) = m)"

definition buf_string_compare_advance :: "buffer \<Rightarrow> byte list \<Rightarrow> bool \<times> buffer" where
  "buf_string_compare_advance src m =
     (if buf_string_match_head_str src m
      then (True, snd (buf_advance src (int (length m)))) else (False, src))"

text \<open>The loop of \<^verbatim>\<open>buf_substring_len\<close>, over the bytes left in the copy \<^verbatim>\<open>tmp\<close>.\<close>

fun buf_substring_scan :: "byte list \<Rightarrow> int \<Rightarrow> int \<Rightarrow> int" where
  "buf_substring_scan [] delim i = - 1"
| "buf_substring_scan (c # cs) delim i =
     (if int (unat c) = delim then i + 1 else buf_substring_scan cs delim (i + 1))"

definition buf_substring_len :: "buffer \<Rightarrow> int \<Rightarrow> int" where
  "buf_substring_len b delim = buf_substring_scan (buf_bytes b) delim 0"

text \<open>
  The loop of \<^verbatim>\<open>buf_parse\<close>: \<open>n\<close> counts the bytes stored in \<open>line\<close>, an array of
  \<open>sz\<close> bytes.
\<close>

function buf_parse_loop ::
  "buffer \<Rightarrow> int \<Rightarrow> nat \<Rightarrow> nat \<Rightarrow> byte list \<Rightarrow> bool \<Rightarrow> (bool \<times> byte list) \<times> buffer" where
  "buf_parse_loop b delim sz n line eol =
     (let (c, b') = buf_read_u8 b;
          eol' = (if c < 0 then True else eol);
          c' = (if c \<le> 0 \<or> c = delim then 0 else c)
      in if n \<ge> sz then ((eol', line), b')
         else let line' = line[n := of_int c'] in
              if c' \<noteq> 0 then buf_parse_loop b' delim sz (Suc n) line' eol'
              else ((eol', line'), b'))"
  by pat_completeness auto
termination
  by (relation "measure (\<lambda>(b, d, sz, n, l, e). sz - n)") (auto simp: Let_def split: if_splits)

declare buf_parse_loop.simps [simp del]

definition buf_parse :: "buffer \<Rightarrow> int \<Rightarrow> byte list \<Rightarrow> nat \<Rightarrow> ((bool \<times> byte list) \<times> buffer) option" where
  "buf_parse b delim line sz =
     (if \<not> sz > 0 then None
      else let ((eol, l), b') = buf_parse_loop b delim sz 0 line False;
               l' = l[sz - 1 := 0]
           in Some ((\<not> (eol \<and> c_strlen l' = 0), l'), b'))"

section \<open>Filters: lemmas\<close>

lemma string_class_iff: "string_class s i e \<longleftrightarrow> list_all (\<lambda>c. char_inc_exc c i e) s"
  by (induction s) auto

lemma string_mod_eq:
  "string_mod s i e r =
     (string_class s i e,
      filter (\<lambda>c. c \<noteq> 0) (map (\<lambda>c. if char_inc_exc c i e then c else r) s))"
  by (induction s) (auto simp: Let_def)

lemma rm_trailing_chars_eq:
  "rm_trailing_chars s what = rev (dropWhile (\<lambda>c. c \<in> set what) (rev s))"
proof (induction s rule: rev_induct)
  case Nil
  then show ?case by (subst rm_trailing_chars.simps) simp
next
  case (snoc c s)
  then show ?case by (subst rm_trailing_chars.simps) simp
qed

lemma skip_leading_whitespace_eq:
  "skip_leading_whitespace s = dropWhile (\<lambda>c. c = 32 \<or> c = 9) s"
  by (induction s) auto

lemma string_replace_leading_length: "length (string_replace_leading s m r) = length s"
  by (induction s) auto

section \<open>Parsing: lemmas\<close>

lemma unat_pos: "(x :: 'a::len word) \<noteq> 0 \<Longrightarrow> 0 < unat x"
  by (simp add: unat_gt_0)

lemma buf_parse_loop_word:
  assumes "buf_wf b" "content b = w @ d # rest" "\<forall>x \<in> set w. x \<noteq> 0 \<and> x \<noteq> d"
    "n + length w < sz" "length line = sz"
  shows "\<exists>b'. buf_parse_loop b (int (unat d)) sz n line eol
            = ((eol, take n line @ w @ 0 # drop (n + length w + 1) line), b')
          \<and> buf_wf b' \<and> content b' = rest"
  using assms
proof (induction w arbitrary: b n line)
  case Nil
  then obtain b' where "buf_read_u8 b = (int (unat d), b')" "buf_wf b'" "content b' = rest"
    using buf_read_u8_ok by (metis append_Nil)
  with Nil show ?case
    by (subst buf_parse_loop.simps) (auto simp: Let_def upd_conv_take_nth_drop)
next
  case (Cons x w)
  then obtain b1 where b1: "buf_read_u8 b = (int (unat x), b1)" "buf_wf b1"
    "content b1 = w @ d # rest"
    using buf_read_u8_ok by (metis append_Cons)
  let ?line = "line[n := x]"
  obtain b' where b': "buf_parse_loop b1 (int (unat d)) sz (Suc n) ?line eol
      = ((eol, take (Suc n) ?line @ w @ 0 # drop (Suc n + length w + 1) ?line), b')"
    "buf_wf b'" "content b' = rest"
    using Cons.IH [OF b1(2,3), of "Suc n" ?line] Cons.prems by auto
  have line: "take (Suc n) ?line = take n line @ [x]"
    "drop (Suc n + length w + 1) ?line = drop (n + length (x # w) + 1) line"
    using Cons.prems(4,5) by (simp_all add: take_Suc_conv_app_nth)
  have "x \<noteq> 0" "x \<noteq> d"
    using Cons.prems(3) by auto
  then have "buf_parse_loop b (int (unat d)) sz n line eol
      = buf_parse_loop b1 (int (unat d)) sz (Suc n) ?line eol"
    using b1(1) Cons.prems(4)
    by (subst buf_parse_loop.simps) (simp add: Let_def uint_0_iff word_uint_eq_iff [symmetric])
  with b' line show ?case
    by auto
qed

lemma c_strlen_word: "0 \<notin> set w \<Longrightarrow> c_strlen (w @ 0 # xs) = length w"
  by (induction w) (auto simp: c_strlen_def)

section \<open>Properties\<close>

text \<open>\<^verbatim>\<open>string_mod\<close> sanitises: when the replacement is NUL (delete) or itself an allowed
  character, the string left in place consists of allowed characters only, never grows and
  holds no NUL; the C result tells exactly whether the string was clean, and a clean string
  is left unchanged.\<close>

theorem string_mod_sanitises:
  assumes "0 \<notin> set s" and "r = 0 \<or> char_inc_exc r i e"
  shows "string_class (snd (string_mod s i e r)) i e
    \<and> length (snd (string_mod s i e r)) \<le> length s
    \<and> 0 \<notin> set (snd (string_mod s i e r))
    \<and> (fst (string_mod s i e r) \<longleftrightarrow> string_class s i e)
    \<and> (string_class s i e \<longrightarrow> snd (string_mod s i e r) = s)"
proof -
  let ?f = "\<lambda>c. if char_inc_exc c i e then c else r"
  have "length (filter (\<lambda>c. c \<noteq> 0) (map ?f s)) \<le> length s"
    using length_filter_le [of _ "map ?f s"] by simp
  moreover have "filter (\<lambda>c. c \<noteq> 0) (map ?f s) = s" if "string_class s i e"
    using that assms(1) by (induction s) (auto split: if_splits)
  moreover have "string_class (filter (\<lambda>c. c \<noteq> 0) (map ?f s)) i e"
    unfolding string_class_iff list_all_iff using assms(2) by fastforce
  ultimately show ?thesis
    by (simp add: string_mod_eq)
qed

theorem string_mod_sanitises_witness:
  "string_class (snd (string_mod [65, 10, 66] CC_ALPHA 0 95)) (CC_ALPHA OR CC_UNDERBAR) 0 \<and>
   string_class (snd (string_mod [65, 10, 66] CC_ALPHA 0 0)) CC_ALPHA 0"
proof -
  have "string_class (snd (string_mod [65, 10, 66] CC_ALPHA 0 0)) CC_ALPHA 0"
    using string_mod_sanitises [of "[65, 10, 66]" 0 CC_ALPHA 0] by simp
  moreover have "string_class (snd (string_mod [65, 10, 66] CC_ALPHA 0 95)) (CC_ALPHA OR CC_UNDERBAR) 0"
    by (simp add: string_mod_eq string_class_iff char_inc_exc_def char_class_def cc_has_def cc_defs ctype_defs)
  ultimately show ?thesis
    by simp
qed

text \<open>C33: \<^verbatim>\<open>buf_parse\<close> reads one line: when the unread bytes start with a word without NUL or
  delimiter, then the delimiter, and the word fits the array with its terminator, the call
  succeeds, the array holds the word as a C string, and exactly the word and its delimiter
  are consumed.\<close>

theorem buf_parse_line:
  assumes "buf_wf b" "content b = w @ d # rest" "\<forall>x \<in> set w. x \<noteq> 0 \<and> x \<noteq> d"
    and "length w < sz" "length line = sz"
  shows "\<exists>l b'. buf_parse b (int (unat d)) line sz = Some ((True, l), b')
    \<and> takeWhile (\<lambda>c. c \<noteq> 0) l = w \<and> length l = sz \<and> buf_wf b' \<and> content b' = rest"
proof -
  obtain b' where b': "buf_parse_loop b (int (unat d)) sz 0 line False
      = ((False, w @ 0 # drop (length w + 1) line), b')" "buf_wf b'" "content b' = rest"
    using buf_parse_loop_word [OF assms(1,2,3), of 0 sz line False] assms(4,5) by auto
  let ?l = "(w @ 0 # drop (length w + 1) line)[sz - 1 := 0]"
  have nz: "takeWhile (\<lambda>c. c \<noteq> 0) w = w"
    using assms(3) by (auto simp: takeWhile_eq_all_conv)
  have "take (length w + 1) ?l = w @ [0]"
  proof (cases "sz - 1 = length w")
    case True
    then show ?thesis by simp
  next
    case False
    with assms(4) show ?thesis by simp
  qed
  then obtain tl where "?l = (w @ [0]) @ tl"
    by (metis append_take_drop_id)
  with nz have tw: "takeWhile (\<lambda>c. c \<noteq> 0) ?l = w"
    by (simp add: takeWhile_append)
  have len: "length ?l = sz"
    using assms(4,5) by simp
  have "buf_parse b (int (unat d)) line sz = Some ((True, ?l), b')"
    using b' assms(4) by (simp add: buf_parse_def)
  with tw len b' show ?thesis
    by blast
qed

theorem buf_parse_line_witness:
  "\<exists>l b'. buf_parse \<lparr>bf_cap = 4, bf_off = 0, bf_len = 4, bf_data = Some [80, 85, 44, 83]\<rparr>
      (int (unat (44 :: byte))) [9, 9, 9] 3 = Some ((True, l), b')
    \<and> takeWhile (\<lambda>c. c \<noteq> 0) l = [80, 85] \<and> length l = 3 \<and> buf_wf b' \<and> content b' = [83]"
  by (rule buf_parse_line)
     (simp_all add: buf_wf_def content_def bf_mem_def mem_get_def BUF_SIZE_MAX_def)

text \<open>\<^verbatim>\<open>rm_trailing_chars\<close> removes exactly the longest suffix of characters to delete:
  what it returns is a prefix, it does not end in one of them, and the rest are all of them.\<close>

theorem rm_trailing_chars_spec:
  "\<exists>tl. s = rm_trailing_chars s what @ tl \<and> set tl \<subseteq> set what
     \<and> dropWhile (\<lambda>c. c \<in> set what) (rev (rm_trailing_chars s what)) = rev (rm_trailing_chars s what)"
proof (intro exI conjI)
  let ?p = "\<lambda>c. c \<in> set what"
  show "s = rm_trailing_chars s what @ rev (takeWhile ?p (rev s))"
    unfolding rm_trailing_chars_eq rev_append [symmetric] takeWhile_dropWhile_id by simp
  show "set (rev (takeWhile ?p (rev s))) \<subseteq> set what"
    by (auto dest: set_takeWhileD)
  show "dropWhile ?p (rev (rm_trailing_chars s what)) = rev (rm_trailing_chars s what)"
    by (simp add: rm_trailing_chars_eq)
qed

end
