(* ===== verification/Circ_List.thy ===== *)
theory Circ_List
  imports Ovpn_Prelude
begin

text \<open>
  The fixed-capacity circular list of \<^verbatim>\<open>circ_list.h\<close>, the memory of the replay window.
  Each macro is a definition; a failed \<^verbatim>\<open>ASSERT\<close> in its index arithmetic is \<open>None\<close>.
  \<open>circ_items\<close> is the abstract view, the newest element first; the lemmas show that
  every macro refines the corresponding list operation and that no assertion fails.
\<close>

record circ_list =
  x_head :: int
  x_size :: int
  x_cap :: int
  x_list :: "int list"

definition CIRC_LIST_ALLOC :: "int \<Rightarrow> circ_list" where
  "CIRC_LIST_ALLOC n = \<lparr>x_head = 0, x_size = 0, x_cap = n, x_list = replicate (nat n) 0\<rparr>"

definition CIRC_LIST_RESET :: "circ_list \<Rightarrow> circ_list" where
  "CIRC_LIST_RESET c = c\<lparr>x_head := 0, x_size := 0\<rparr>"

definition CIRC_LIST_PUSH :: "circ_list \<Rightarrow> int \<Rightarrow> circ_list option" where
  "CIRC_LIST_PUSH c item =
     (case modulo_add (x_head c) (- 1) (x_cap c) of
        None \<Rightarrow> None
      | Some h \<Rightarrow> Some (c\<lparr>x_head := h, x_list := (x_list c)[nat h := item],
                          x_size := min_int (x_size c + 1) (x_cap c)\<rparr>))"

definition CIRC_LIST_INDEX :: "circ_list \<Rightarrow> int \<Rightarrow> int option" where
  "CIRC_LIST_INDEX c i =
     (case index_verify i (x_size c) of
        None \<Rightarrow> None
      | Some k \<Rightarrow> modulo_add (x_head c) k (x_cap c))"

definition CIRC_LIST_ITEM :: "circ_list \<Rightarrow> int \<Rightarrow> int option" where
  "CIRC_LIST_ITEM c i = map_option (\<lambda>k. x_list c ! nat k) (CIRC_LIST_INDEX c i)"

definition CIRC_LIST_SET :: "circ_list \<Rightarrow> int \<Rightarrow> int \<Rightarrow> circ_list option" where
  "CIRC_LIST_SET c i v =
     map_option (\<lambda>k. c\<lparr>x_list := (x_list c)[nat k := v]\<rparr>) (CIRC_LIST_INDEX c i)"

section \<open>Refinement of a bounded list\<close>

definition circ_wf :: "circ_list \<Rightarrow> bool" where
  "circ_wf c \<longleftrightarrow> 0 < x_cap c \<and> 0 \<le> x_head c \<and> x_head c < x_cap c
     \<and> 0 \<le> x_size c \<and> x_size c \<le> x_cap c \<and> int (length (x_list c)) = x_cap c"

definition circ_slot :: "circ_list \<Rightarrow> nat \<Rightarrow> nat" where
  "circ_slot c i = nat ((x_head c + int i) mod x_cap c)"

definition circ_items :: "circ_list \<Rightarrow> int list" where
  "circ_items c = map (\<lambda>i. x_list c ! circ_slot c i) [0..<nat (x_size c)]"

lemma length_circ_items [simp]: "length (circ_items c) = nat (x_size c)"
  by (simp add: circ_items_def)

lemma circ_items_nth: "i < nat (x_size c) \<Longrightarrow> circ_items c ! i = x_list c ! circ_slot c i"
  by (simp add: circ_items_def)

lemma circ_slot_bound: "circ_wf c \<Longrightarrow> circ_slot c i < length (x_list c)"
  by (simp add: circ_wf_def circ_slot_def nat_less_iff)

lemma circ_slot_inj:
  assumes "circ_wf c" "i < nat (x_cap c)" "j < nat (x_cap c)" "circ_slot c i = circ_slot c j"
  shows "i = j"
proof -
  have "(x_head c + int i) mod x_cap c = (x_head c + int j) mod x_cap c"
    using assms by (simp add: circ_slot_def circ_wf_def eq_nat_nat_iff)
  then have "(x_head c + int i - (x_head c + int j)) mod x_cap c = 0"
    by (simp add: mod_eq_dvd_iff)
  then have "x_cap c dvd int i - int j"
    by (simp add: dvd_eq_mod_eq_0)
  moreover have "\<bar>int i - int j\<bar> < x_cap c"
    using assms(2,3) by linarith
  ultimately have "int i - int j = 0"
    using zdvd_not_zless dvd_imp_le_int by (metis abs_of_pos assms(1) circ_wf_def not_less)
  then show ?thesis by simp
qed

lemma circ_alloc_wf: "0 < n \<Longrightarrow> circ_wf (CIRC_LIST_ALLOC n) \<and> circ_items (CIRC_LIST_ALLOC n) = []"
  by (simp add: circ_wf_def CIRC_LIST_ALLOC_def circ_items_def)

lemma circ_reset_wf:
  "circ_wf c \<Longrightarrow> circ_wf (CIRC_LIST_RESET c) \<and> circ_items (CIRC_LIST_RESET c) = []
     \<and> x_cap (CIRC_LIST_RESET c) = x_cap c \<and> x_size (CIRC_LIST_RESET c) = 0"
  by (simp add: circ_wf_def CIRC_LIST_RESET_def circ_items_def)

lemma circ_index:
  assumes "circ_wf c" "i < nat (x_size c)"
  shows "CIRC_LIST_INDEX c (int i) = Some (int (circ_slot c i))"
  using assms modulo_add_mod [of "x_head c" "x_cap c" "int i"]
  by (simp add: CIRC_LIST_INDEX_def index_verify_def circ_wf_def circ_slot_def)

lemma circ_index_out: "i < 0 \<or> i \<ge> x_size c \<Longrightarrow> CIRC_LIST_INDEX c i = None"
  by (auto simp: CIRC_LIST_INDEX_def index_verify_def)

lemma circ_item:
  "circ_wf c \<Longrightarrow> i < nat (x_size c) \<Longrightarrow> CIRC_LIST_ITEM c (int i) = Some (circ_items c ! i)"
  by (simp add: CIRC_LIST_ITEM_def circ_index circ_items_nth)

lemma circ_set:
  assumes "circ_wf c" "i < nat (x_size c)"
  shows "\<exists>c'. CIRC_LIST_SET c (int i) v = Some c' \<and> circ_wf c' \<and> x_cap c' = x_cap c
    \<and> x_size c' = x_size c \<and> circ_items c' = (circ_items c)[i := v]"
proof (intro exI conjI)
  let ?c = "c\<lparr>x_list := (x_list c)[circ_slot c i := v]\<rparr>"
  show "CIRC_LIST_SET c (int i) v = Some ?c"
    using assms by (simp add: CIRC_LIST_SET_def circ_index)
  show "circ_wf ?c"
    using assms by (simp add: circ_wf_def)
  show "circ_items ?c = (circ_items c)[i := v]"
  proof (rule nth_equalityI)
    fix k assume "k < length (circ_items ?c)"
    then have k: "k < nat (x_size c)" by simp
    have "circ_slot ?c k = circ_slot c k"
      by (simp add: circ_slot_def)
    moreover have "circ_slot c k = circ_slot c i \<longleftrightarrow> k = i"
      using circ_slot_inj [OF assms(1), of k i] k assms by (auto simp: circ_wf_def)
    ultimately show "circ_items ?c ! k = (circ_items c)[i := v] ! k"
      using k circ_slot_bound [OF assms(1), of k]
      by (auto simp: circ_items_nth nth_list_update)
  qed simp
qed simp_all

lemma circ_push:
  assumes "circ_wf c"
  shows "\<exists>c'. CIRC_LIST_PUSH c v = Some c' \<and> circ_wf c' \<and> x_cap c' = x_cap c
    \<and> x_size c' = min_int (x_size c + 1) (x_cap c)
    \<and> circ_items c' = take (nat (x_cap c)) (v # circ_items c)"
proof (intro exI conjI)
  let ?h = "(x_head c + - 1) mod x_cap c"
  let ?c = "c\<lparr>x_head := ?h, x_list := (x_list c)[nat ?h := v],
               x_size := min_int (x_size c + 1) (x_cap c)\<rparr>"
  have cap: "0 < x_cap c" and h: "0 \<le> x_head c" "x_head c < x_cap c"
    using assms by (simp_all add: circ_wf_def)
  have m: "modulo_add (x_head c) (- 1) (x_cap c) = Some ?h"
    by (rule modulo_add_mod) (use cap h in auto)
  show "CIRC_LIST_PUSH c v = Some ?c"
    unfolding CIRC_LIST_PUSH_def m option.case ..
  show wf': "circ_wf ?c"
    using assms cap by (auto simp: circ_wf_def min_int_def)
  have slot: "circ_slot ?c 0 = nat ?h" "circ_slot ?c (Suc k) = circ_slot c k" for k
    using mod_add_left_eq [of "x_head c + - 1" "x_cap c" "int (Suc k)"]
    by (simp_all add: circ_slot_def)
  show "circ_items ?c = take (nat (x_cap c)) (v # circ_items c)"
  proof (rule nth_equalityI)
    show "length (circ_items ?c) = length (take (nat (x_cap c)) (v # circ_items c))"
      using assms by (auto simp: circ_wf_def min_int_def min_def nat_add_distrib)
    fix k assume "k < length (circ_items ?c)"
    then have k: "k < nat (x_size ?c)" by simp
    then have kc: "k < nat (x_cap c)" "k < Suc (nat (x_size c))"
      using assms by (auto simp: circ_wf_def min_int_def split: if_splits)
    show "circ_items ?c ! k = take (nat (x_cap c)) (v # circ_items c) ! k"
    proof (cases k)
      case 0
      have "nat ?h < length (x_list c)"
        using circ_slot_bound [OF wf', of 0] slot(1) by simp
      with 0 k kc slot(1) show ?thesis
        by (simp add: circ_items_nth)
    next
      case (Suc j)
      have "circ_slot ?c (Suc j) \<noteq> circ_slot ?c 0"
        using circ_slot_inj [OF wf', of "Suc j" 0] kc Suc cap by auto
      then have "circ_slot c j \<noteq> nat ?h"
          by (simp only: slot not_False_eq_True)
      with Suc k kc slot(2) show ?thesis
        by (simp add: circ_items_nth)
    qed
  qed
qed simp_all

end
