(* ===== verification/Replay_Filter.thy ===== *)
theory Replay_Filter
  imports Main
begin

text \<open>
  The interface between a receive path and the code above it: a receiver state, a step
  that says for one incoming event whether it is accepted, and the promise that an
  accepted event's key is new. Two parts of the program provide it: the replay window in
  datagram mode and the strict sequence of stream mode.
\<close>

text \<open>
  \<open>rx_run\<close> feeds a receiver a sequence of events and lists the accepted ones; \<open>None\<close> is a
  step that stops the process.
\<close>

fun rx_run :: "('s \<Rightarrow> 'e \<Rightarrow> (bool \<times> 's) option) \<Rightarrow> 's \<Rightarrow> 'e list \<Rightarrow> 'e list option" where
  "rx_run recv s [] = Some []"
| "rx_run recv s (e # es) =
     (case recv s e of
        None \<Rightarrow> None
      | Some (True, s') \<Rightarrow> map_option (\<lambda>acc. e # acc) (rx_run recv s' es)
      | Some (False, s') \<Rightarrow> rx_run recv s' es)"

locale replay_filter =
  fixes recv :: "'s \<Rightarrow> 'e \<Rightarrow> (bool \<times> 's) option"
    and key :: "'e \<Rightarrow> 'k"
    and valid :: "'e \<Rightarrow> bool"
    and inv :: "'k set \<Rightarrow> 's \<Rightarrow> bool"
  assumes alive: "inv S s \<Longrightarrow> valid e \<Longrightarrow> recv s e \<noteq> None"
    and fresh: "inv S s \<Longrightarrow> valid e \<Longrightarrow> recv s e = Some (True, s') \<Longrightarrow> key e \<notin> S"
    and keep: "inv S s \<Longrightarrow> valid e \<Longrightarrow> recv s e = Some (True, s') \<Longrightarrow> inv (insert (key e) S) s'"
    and refuse: "inv S s \<Longrightarrow> valid e \<Longrightarrow> recv s e = Some (False, s') \<Longrightarrow> inv S s'"
begin

lemma run_no_replay:
  assumes "inv S s" "\<forall>e \<in> set es. valid e"
  shows "\<exists>acc. rx_run recv s es = Some acc \<and> distinct (map key acc) \<and> key ` set acc \<inter> S = {}
           \<and> set acc \<subseteq> set es"
  using assms
proof (induction es arbitrary: S s)
  case Nil
  then show ?case by simp
next
  case (Cons e es)
  obtain ok s' where r: "recv s e = Some (ok, s')"
    using alive [of S s e] Cons.prems by auto
  show ?case
  proof (cases ok)
    case True
    have new: "key e \<notin> S" and inv': "inv (insert (key e) S) s'"
      using fresh keep r True Cons.prems by auto
    obtain acc where "rx_run recv s' es = Some acc" "distinct (map key acc)"
      "key ` set acc \<inter> insert (key e) S = {}" "set acc \<subseteq> set es"
      using Cons.IH [OF inv'] Cons.prems(2) by auto
    with r True new show ?thesis
      by auto
  next
    case False
    have inv': "inv S s'"
      using refuse r False Cons.prems by auto
    obtain acc where "rx_run recv s' es = Some acc" "distinct (map key acc)"
      "key ` set acc \<inter> S = {}" "set acc \<subseteq> set es"
      using Cons.IH [OF inv'] Cons.prems(2) by auto
    with r False show ?thesis
      by auto
  qed
qed

end

end
