(* ===== verification/Packet_Id.thy ===== *)
theory Packet_Id
  imports Buf Circ_List Replay_Filter
begin

unbundle bit_operations_syntax

text \<open>
  Replay protection, \<^verbatim>\<open>packet_id.h\<close> and \<^verbatim>\<open>packet_id.c\<close>: the packet id on the wire (32-bit
  short form, 64-bit long form, 16+48-bit epoch form), the sender's counter, and the
  receiver's sliding window. \<^verbatim>\<open>time_t\<close> is \<open>int\<close>, a \<^verbatim>\<open>uint64_t\<close> counter is a 64-bit word.
  The global clock \<^verbatim>\<open>now\<close> is an argument. \<open>None\<close> is a failed \<^verbatim>\<open>ASSERT\<close> (or the
  \<^verbatim>\<open>index_verify\<close> of the circular list), which stops the process.
\<close>

section \<open>State\<close>

definition SEQ_UNSEEN :: int where "SEQ_UNSEEN = 0"
definition SEQ_EXPIRED :: int where "SEQ_EXPIRED = 1"
definition PACKET_ID_MAX :: u64 where "PACKET_ID_MAX = 0xFFFFFFFF"
definition PACKET_ID_EPOCH_MAX :: u64 where "PACKET_ID_EPOCH_MAX = 0x0000FFFFFFFFFFFF"
definition PACKET_ID_MASK :: u64 where "PACKET_ID_MASK = 0x0000FFFFFFFFFFFF"
definition PACKET_ID_WRAP_TRIGGER :: u64 where "PACKET_ID_WRAP_TRIGGER = 0xFF000000"
definition MAX_SEQ_BACKTRACK :: int where "MAX_SEQ_BACKTRACK = 65536"
definition MAX_TIME_BACKTRACK :: int where "MAX_TIME_BACKTRACK = 600"
definition SEQ_REAP_INTERVAL :: int where "SEQ_REAP_INTERVAL = 5"

record packet_id_rec =
  last_reap :: int
  pr_time :: int
  pr_id :: u64
  seq_backtrack :: u64
  time_backtrack :: int
  max_backtrack_stat :: u64
  initialized :: bool
  seq_list :: "circ_list option"

record packet_id_net =
  pn_id :: u64
  pn_time :: int

record packet_id_send =
  ps_id :: u64
  ps_time :: int

record packet_id =
  pid_send :: packet_id_send
  pid_rec :: packet_id_rec

record packet_id_persist =
  pp_fd :: int
  pp_time :: int
  pp_id :: u32
  time_last_written :: int
  id_last_written :: u32

definition clear_rec :: packet_id_rec where
  "clear_rec = \<lparr>last_reap = 0, pr_time = 0, pr_id = 0, seq_backtrack = 0, time_backtrack = 0,
                max_backtrack_stat = 0, initialized = False, seq_list = None\<rparr>"

definition clear_send :: packet_id_send where
  "clear_send = \<lparr>ps_id = 0, ps_time = 0\<rparr>"

section \<open>Receiver\<close>

definition packet_id_init_recv :: "packet_id_rec \<Rightarrow> int \<Rightarrow> int \<Rightarrow> packet_id_rec option" where
  "packet_id_init_recv rec sb tb =
     (if sb \<noteq> 0 then
        (if 0 \<le> sb \<and> sb \<le> MAX_SEQ_BACKTRACK \<and> 0 \<le> tb \<and> tb \<le> MAX_TIME_BACKTRACK
         then Some (rec\<lparr>seq_list := Some (CIRC_LIST_ALLOC sb), seq_backtrack := of_int sb,
                        time_backtrack := tb, initialized := True\<rparr>)
         else None)
      else Some (rec\<lparr>initialized := True\<rparr>))"

definition packet_id_init :: "int \<Rightarrow> int \<Rightarrow> packet_id option" where
  "packet_id_init sb tb =
     map_option (\<lambda>r. \<lparr>pid_send = clear_send, pid_rec = r\<rparr>) (packet_id_init_recv clear_rec sb tb)"

definition packet_id_move_recv :: "packet_id_rec \<Rightarrow> packet_id_rec \<Rightarrow> (packet_id_rec \<times> packet_id_rec) option" where
  "packet_id_move_recv dest src =
     (let dest' = src in
      map_option (\<lambda>src'. (dest', src'))
        (packet_id_init_recv clear_rec (uint (seq_backtrack dest')) (time_backtrack dest')))"

text \<open>The \<^verbatim>\<open>while (p->id < pin->id)\<close> loop of \<^verbatim>\<open>packet_id_add\<close>.\<close>

function packet_id_push_to :: "circ_list \<Rightarrow> u64 \<Rightarrow> u64 \<Rightarrow> (circ_list \<times> u64) option" where
  "packet_id_push_to c cur target =
     (if cur < target
      then (case CIRC_LIST_PUSH c SEQ_UNSEEN of
              None \<Rightarrow> None
            | Some c' \<Rightarrow> packet_id_push_to c' (cur + 1) target)
      else Some (c, cur))"
  by pat_completeness auto
termination
proof (relation "measure (\<lambda>(c, cur, target). unat target - unat cur)", goal_cases)
  case 1
  show ?case by simp
next
  case (2 c cur target c')
  then have lt: "unat cur < unat target"
    by (simp add: word_less_nat_alt)
  then have "unat (cur + 1) = unat cur + 1"
    using unat_bound [of target] by (simp add: unat_word_ariths)
  with lt show ?case by simp
qed

declare packet_id_push_to.simps [simp del]

text \<open>
  \<^verbatim>\<open>int64_t diff = p->id - pin->id\<close>; the index macro takes an \<^verbatim>\<open>int\<close>, so \<open>diff\<close> is narrowed
  to 32 bits there.
\<close>

definition packet_id_add :: "int \<Rightarrow> packet_id_rec \<Rightarrow> packet_id_net \<Rightarrow> packet_id_rec option" where
  "packet_id_add now p pin =
     (case seq_list p of
        Some c0 \<Rightarrow>
          let (p1, c1) =
                (if x_size c0 = 0 \<or> pn_time pin > pr_time p
                    \<or> (pn_id pin \<ge> seq_backtrack p \<and> pn_id pin - seq_backtrack p > pr_id p)
                 then (p\<lparr>pr_time := pn_time pin,
                         pr_id := (if pn_id pin > seq_backtrack p
                                   then pn_id pin - seq_backtrack p else 0)\<rparr>,
                       CIRC_LIST_RESET c0)
                 else (p, c0))
          in (case packet_id_push_to c1 (pr_id p1) (pn_id pin) of
                None \<Rightarrow> None
              | Some (c2, cur) \<Rightarrow>
                  let p2 = p1\<lparr>pr_id := cur\<rparr>;
                      diff = cur - pn_id pin
                  in if sint diff < x_size c2 \<and> now > SEQ_EXPIRED
                     then map_option (\<lambda>c3. p2\<lparr>seq_list := Some c3\<rparr>)
                            (CIRC_LIST_SET c2 (sint (ucast diff :: u32)) now)
                     else Some (p2\<lparr>seq_list := Some c2\<rparr>))
      | None \<Rightarrow> Some (p\<lparr>pr_time := pn_time pin, pr_id := pn_id pin\<rparr>))"

text \<open>The \<^verbatim>\<open>for\<close> loop of \<^verbatim>\<open>packet_id_reap\<close>, from index \<open>i\<close>.\<close>

function packet_id_reap_loop :: "int \<Rightarrow> int \<Rightarrow> circ_list \<Rightarrow> int \<Rightarrow> bool \<Rightarrow> circ_list option" where
  "packet_id_reap_loop now tb c i expire =
     (if i < x_size c then
        (case CIRC_LIST_ITEM c i of
           None \<Rightarrow> None
         | Some t \<Rightarrow>
             if t = SEQ_EXPIRED then Some c
             else
               let expire' = (if \<not> expire \<and> t \<noteq> 0 \<and> t + tb < now then True else expire) in
               if expire'
               then (case CIRC_LIST_SET c i SEQ_EXPIRED of
                       None \<Rightarrow> None
                     | Some c' \<Rightarrow> packet_id_reap_loop now tb c' (i + 1) expire')
               else packet_id_reap_loop now tb c (i + 1) expire')
      else Some c)"
  by pat_completeness auto
termination
  by (relation "measure (\<lambda>(n, tb, c, i, e). nat (x_size c - i))")
     (auto simp: CIRC_LIST_SET_def)

declare packet_id_reap_loop.simps [simp del]

text \<open>\<^verbatim>\<open>CIRC_LIST_SIZE\<close> of a \<^verbatim>\<open>NULL\<close> list is a crash: \<open>None\<close>.\<close>

definition packet_id_reap :: "int \<Rightarrow> packet_id_rec \<Rightarrow> packet_id_rec option" where
  "packet_id_reap now p =
     (if time_backtrack p \<noteq> 0
      then (case seq_list p of
              None \<Rightarrow> None
            | Some c \<Rightarrow>
                map_option (\<lambda>c'. p\<lparr>seq_list := Some c', last_reap := now\<rparr>)
                  (packet_id_reap_loop now (time_backtrack p) c 0 False))
      else Some (p\<lparr>last_reap := now\<rparr>))"

definition packet_id_reap_test :: "int \<Rightarrow> packet_id_rec \<Rightarrow> packet_id_rec option" where
  "packet_id_reap_test now p =
     (if last_reap p + SEQ_REAP_INTERVAL \<le> now then packet_id_reap now p else Some p)"

definition packet_id_test :: "packet_id_rec \<Rightarrow> packet_id_net \<Rightarrow> (bool \<times> packet_id_rec) option" where
  "packet_id_test p pin =
     (if \<not> initialized p then None
      else if pn_id pin = 0 then Some (False, p)
      else if seq_backtrack p \<noteq> 0 then
        (if pn_time pin = pr_time p then
           (if pn_id pin > pr_id p then Some (True, p)
            else
              let diff = pr_id p - pn_id pin;
                  p1 = (if diff > max_backtrack_stat p then p\<lparr>max_backtrack_stat := diff\<rparr> else p)
              in (case seq_list p of
                    None \<Rightarrow> None
                  | Some c \<Rightarrow>
                      if diff \<ge> ucast (of_int (x_size c) :: u32) then Some (False, p1)
                      else (case CIRC_LIST_ITEM c (sint (ucast diff :: u32)) of
                              None \<Rightarrow> None
                            | Some v \<Rightarrow> if v = 0 then Some (True, p1) else Some (False, p1))))
         else if pn_time pin < pr_time p then Some (False, p)
         else Some (True, p))
      else
        (if pn_time pin = pr_time p
         then Some (pr_id p = 0 \<or> pn_id pin = pr_id p + 1, p)
         else if pn_time pin < pr_time p then Some (False, p)
         else Some (pn_id pin = 1, p)))"

section \<open>Wire format and sender\<close>

definition packet_id_read :: "buffer \<Rightarrow> bool \<Rightarrow> (bool \<times> packet_id_net) \<times> buffer" where
  "packet_id_read b long_form =
     (let pin0 = \<lparr>pn_id = 0, pn_time = 0\<rparr> in
      case buf_read b 4 of
        (None, b1) \<Rightarrow> ((False, pin0), b1)
      | (Some net_id, b1) \<Rightarrow>
          let pin1 = pin0\<lparr>pn_id := ucast (dec32 net_id)\<rparr> in
          if long_form
          then (case buf_read b1 4 of
                  (None, b2) \<Rightarrow> ((False, pin1), b2)
                | (Some net_time, b2) \<Rightarrow> ((True, pin1\<lparr>pn_time := uint (dec32 net_time)\<rparr>), b2))
          else ((True, pin1), b1))"

definition packet_id_send_update :: "int \<Rightarrow> packet_id_send \<Rightarrow> bool \<Rightarrow> bool \<times> packet_id_send" where
  "packet_id_send_update now p long_form =
     (let p1 = (if ps_time p = 0 then p\<lparr>ps_time := now\<rparr> else p) in
      if ps_id p1 = PACKET_ID_MAX
      then (if \<not> long_form \<or> now \<le> ps_time p1 then (False, p1)
            else (True, p1\<lparr>ps_time := now, ps_id := 1\<rparr>))
      else (True, p1\<lparr>ps_id := ps_id p1 + 1\<rparr>))"

definition packet_id_send_update_epoch :: "int \<Rightarrow> packet_id_send \<Rightarrow> bool \<times> packet_id_send" where
  "packet_id_send_update_epoch now p =
     (let p1 = (if ps_time p = 0 then p\<lparr>ps_time := now\<rparr> else p) in
      if ps_id p1 = PACKET_ID_EPOCH_MAX then (False, p1)
      else (True, p1\<lparr>ps_id := ps_id p1 + 1\<rparr>))"

text \<open>\<^verbatim>\<open>htonpid(p->id)\<close> narrows the counter to 32 bits, \<^verbatim>\<open>htontime\<close> the time.\<close>

definition packet_id_write ::
  "int \<Rightarrow> packet_id_send \<Rightarrow> buffer \<Rightarrow> bool \<Rightarrow> bool \<Rightarrow> bool \<times> packet_id_send \<times> buffer" where
  "packet_id_write now p b long_form prepend =
     (case packet_id_send_update now p long_form of
        (False, p1) \<Rightarrow> (False, p1, b)
      | (True, p1) \<Rightarrow>
          let net_id = enc32 (ucast (ps_id p1)); net_time = enc32 (of_int (ps_time p1)) in
          if prepend then
            (case (if long_form then buf_write_prepend b net_time else (True, b)) of
               (False, b1) \<Rightarrow> (False, p1, b1)
             | (True, b1) \<Rightarrow>
                 (case buf_write_prepend b1 net_id of (ok, b2) \<Rightarrow> (ok, p1, b2)))
          else
            (case buf_write b net_id of
               (False, b1) \<Rightarrow> (False, p1, b1)
             | (True, b1) \<Rightarrow>
                 (case (if long_form then buf_write b1 net_time else (True, b1)) of
                    (ok, b2) \<Rightarrow> (ok, p1, b2))))"

definition packet_id_read_epoch :: "buffer \<Rightarrow> packet_id_net \<Rightarrow> (u16 \<times> packet_id_net) \<times> buffer" where
  "packet_id_read_epoch b pin =
     (case buf_read b 8 of
        (None, b1) \<Rightarrow> ((0, pin), b1)
      | (Some bs, b1) \<Rightarrow>
          let pid = dec64 bs; epoch = ucast (drop_bit 48 pid)
          in ((epoch, pin\<lparr>pn_id := pid AND PACKET_ID_MASK\<rparr>), b1))"

definition packet_id_write_epoch ::
  "int \<Rightarrow> packet_id_send \<Rightarrow> u16 \<Rightarrow> buffer \<Rightarrow> bool \<times> packet_id_send \<times> buffer" where
  "packet_id_write_epoch now p epoch b =
     (case packet_id_send_update_epoch now p of
        (False, p1) \<Rightarrow> (False, p1, b)
      | (True, p1) \<Rightarrow>
          let net_id = push_bit 48 (ucast epoch) OR ps_id p1
          in (case buf_write b (enc64 net_id) of (ok, b1) \<Rightarrow> (ok, p1, b1)))"

definition packet_id_size :: "bool \<Rightarrow> int" where
  "packet_id_size long_form = 4 + (if long_form then 4 else 0)"

definition packet_id_close_to_wrapping :: "packet_id_send \<Rightarrow> bool" where
  "packet_id_close_to_wrapping p \<longleftrightarrow> ps_id p \<ge> PACKET_ID_WRAP_TRIGGER"

definition reset_packet_id_send :: "packet_id_send \<Rightarrow> packet_id_send" where
  "reset_packet_id_send p = p\<lparr>ps_time := 0, ps_id := 0\<rparr>"

section \<open>Persistence\<close>

definition packet_id_persist_init :: packet_id_persist where
  "packet_id_persist_init =
     \<lparr>pp_fd = - 1, pp_time = 0, pp_id = 0, time_last_written = 0, id_last_written = 0\<rparr>"

definition packet_id_persist_enabled :: "packet_id_persist \<Rightarrow> bool" where
  "packet_id_persist_enabled p \<longleftrightarrow> pp_fd p \<ge> 0"

definition packet_id_persist_close :: "packet_id_persist \<Rightarrow> packet_id_persist" where
  "packet_id_persist_close p = (if packet_id_persist_enabled p then packet_id_persist_init else p)"

text \<open>
  The system calls are arguments: \<open>fd\<close> is what \<^verbatim>\<open>platform_open\<close> returned, \<open>locked\<close> whether
  \<^verbatim>\<open>flock\<close> succeeded (its failure is \<^verbatim>\<open>M_ERR\<close>, the process stops), \<open>img\<close> the record
  \<^verbatim>\<open>read\<close> delivered in full.
\<close>

definition packet_id_persist_load ::
  "packet_id_persist \<Rightarrow> int \<Rightarrow> bool \<Rightarrow> (int \<times> u32) option \<Rightarrow> packet_id_persist option" where
  "packet_id_persist_load p fd locked img =
     (if \<not> packet_id_persist_enabled p
      then let p1 = p\<lparr>pp_fd := fd\<rparr> in
           if fd = - 1 then Some p1
           else if \<not> locked then None
           else (case img of
                   Some (t, i) \<Rightarrow> Some (p1\<lparr>pp_time := t, time_last_written := t,
                                           pp_id := i, id_last_written := i\<rparr>)
                 | None \<Rightarrow> Some p1)
      else Some p)"

definition packet_id_persist_save ::
  "packet_id_persist \<Rightarrow> bool \<Rightarrow> bool \<Rightarrow> (int \<times> u32) option \<times> packet_id_persist" where
  "packet_id_persist_save p seek_ok write_ok =
     (if packet_id_persist_enabled p \<and> pp_time p \<noteq> 0
         \<and> (pp_time p \<noteq> time_last_written p \<or> pp_id p \<noteq> id_last_written p)
      then (if seek_ok
            then (if write_ok
                  then (Some (pp_time p, pp_id p),
                        p\<lparr>time_last_written := pp_time p, id_last_written := pp_id p\<rparr>)
                  else (None, p))
            else (None, p))
      else (None, p))"

definition packet_id_persist_load_obj :: "packet_id_persist \<Rightarrow> packet_id \<Rightarrow> packet_id" where
  "packet_id_persist_load_obj p pid =
     (if packet_id_persist_enabled p \<and> pp_time p \<noteq> 0
      then pid\<lparr>pid_rec := (pid_rec pid)\<lparr>pr_time := pp_time p, pr_id := ucast (pp_id p)\<rparr>\<rparr>
      else pid)"

definition packet_id_persist_save_obj :: "packet_id_persist \<Rightarrow> packet_id \<Rightarrow> packet_id_persist" where
  "packet_id_persist_save_obj p pid =
     (if packet_id_persist_enabled p \<and> pr_time (pid_rec pid) \<noteq> 0
      then p\<lparr>pp_time := pr_time (pid_rec pid), pp_id := ucast (pr_id (pid_rec pid))\<rparr>
      else p)"

text \<open>
  The receive path common to all packet formats, the tail of \<^verbatim>\<open>crypto_check_replay\<close>:
  reap, test, and record an accepted id.
\<close>

definition replay_recv :: "int \<Rightarrow> packet_id_rec \<Rightarrow> packet_id_net \<Rightarrow> (bool \<times> packet_id_rec) option" where
  "replay_recv now p pin =
     (case packet_id_reap_test now p of
        None \<Rightarrow> None
      | Some p1 \<Rightarrow>
          (case packet_id_test p1 pin of
             None \<Rightarrow> None
           | Some (False, p2) \<Rightarrow> Some (False, p2)
           | Some (True, p2) \<Rightarrow> map_option (\<lambda>p3. (True, p3)) (packet_id_add now p2 pin)))"

section \<open>The sliding window refines a set of accepted ids\<close>

text \<open>
  \<open>window_wf\<close>: a receiver set up by \<^verbatim>\<open>packet_id_init\<close> with a window of \<open>B\<close> ids.
  \<open>window_inv S p\<close>: every accepted \<open>(time, id)\<close> of \<open>S\<close> is recognised by the window, because
  its time is over, or it lies behind the window, or its slot is marked.
\<close>

definition window_wf :: "packet_id_rec \<Rightarrow> circ_list \<Rightarrow> bool" where
  "window_wf p c \<longleftrightarrow> initialized p \<and> seq_list p = Some c \<and> circ_wf c
     \<and> 0 < seq_backtrack p \<and> uint (seq_backtrack p) = x_cap c \<and> x_cap c \<le> MAX_SEQ_BACKTRACK
     \<and> unat (pr_id p) < 2 ^ 63"

definition seen_by :: "packet_id_rec \<Rightarrow> circ_list \<Rightarrow> int \<times> u64 \<Rightarrow> bool" where
  "seen_by p c k \<longleftrightarrow> fst k \<le> pr_time p \<and>
     (fst k = pr_time p \<longrightarrow>
        unat (snd k) \<le> unat (pr_id p) \<and>
        (unat (pr_id p) - unat (snd k) < nat (x_size c)
           \<longrightarrow> circ_items c ! (unat (pr_id p) - unat (snd k)) \<noteq> 0))"

definition window_inv :: "(int \<times> u64) set \<Rightarrow> packet_id_rec \<Rightarrow> bool" where
  "window_inv S p \<longleftrightarrow>
     (\<exists>c. window_wf p c \<and> (x_size c = 0 \<longrightarrow> S = {}) \<and> (\<forall>k \<in> S. seen_by p c k))"

definition pin_key :: "int \<times> packet_id_net \<Rightarrow> int \<times> u64" where
  "pin_key e = (pn_time (snd e), pn_id (snd e))"

definition pin_valid :: "int \<times> packet_id_net \<Rightarrow> bool" where
  "pin_valid e \<longleftrightarrow> SEQ_EXPIRED < fst e \<and> unat (pn_id (snd e)) < 2 ^ 63"

lemma packet_id_init_window:
  assumes "packet_id_init sb tb = Some pid" "0 < sb"
  shows "window_inv {} (pid_rec pid)"
proof -
  have sb: "sb \<le> 65536"
    using assms by (auto simp: packet_id_init_def packet_id_init_recv_def MAX_SEQ_BACKTRACK_def split: if_splits)
  then have u: "uint (of_int sb :: u64) = sb"
    using assms(2) by (simp add: uint_word_of_int)
  then have "0 < (of_int sb :: u64)"
    using assms(2) by (simp add: word_less_def)
  with u assms circ_alloc_wf [of sb] show ?thesis
    by (auto simp: window_inv_def window_wf_def packet_id_init_def packet_id_init_recv_def clear_rec_def
        CIRC_LIST_ALLOC_def split: if_splits intro!: exI [of _ "CIRC_LIST_ALLOC sb"])
qed

subsection \<open>Reaping\<close>

text \<open>A reap pass changes the marks only, and never clears one.\<close>

definition marks_kept :: "circ_list \<Rightarrow> circ_list \<Rightarrow> bool" where
  "marks_kept c c' \<longleftrightarrow> circ_wf c' \<and> x_cap c' = x_cap c \<and> x_size c' = x_size c
     \<and> (\<forall>i < nat (x_size c). circ_items c ! i \<noteq> 0 \<longrightarrow> circ_items c' ! i \<noteq> 0)"

lemma marks_kept_refl: "circ_wf c \<Longrightarrow> marks_kept c c"
  by (simp add: marks_kept_def)

lemma marks_kept_trans: "marks_kept a b \<Longrightarrow> marks_kept b c \<Longrightarrow> marks_kept a c"
  by (simp add: marks_kept_def)

lemma marks_kept_set:
  assumes "circ_wf c" "i < nat (x_size c)" "v \<noteq> 0"
  shows "\<exists>c'. CIRC_LIST_SET c (int i) v = Some c' \<and> marks_kept c c'"
  using circ_set [OF assms(1,2), of v] assms(2,3)
  by (fastforce simp: marks_kept_def nth_list_update)

lemma packet_id_reap_loop_marks:
  "circ_wf c \<Longrightarrow> 0 \<le> i \<Longrightarrow>
     \<exists>c'. packet_id_reap_loop now tb c i e = Some c' \<and> marks_kept c c'"
proof (induction now tb c i e rule: packet_id_reap_loop.induct)
  case (1 now tb c i e)
  show ?case
  proof (cases "i < x_size c")
    case False
    then show ?thesis
      using marks_kept_refl [OF 1(3)] by (subst packet_id_reap_loop.simps) simp
  next
    case True
    with 1(4) obtain j where j: "i = int j" "j < nat (x_size c)"
      by (metis nat_less_iff nat_0_le zless_nat_eq_int_zless)
    let ?t = "circ_items c ! j"
    have item: "CIRC_LIST_ITEM c i = Some ?t"
      using circ_item [OF 1(3) j(2)] j(1) by simp
    let ?e = "if \<not> e \<and> ?t \<noteq> 0 \<and> ?t + tb < now then True else e"
    consider "?t = SEQ_EXPIRED" | "?t \<noteq> SEQ_EXPIRED" "?e" | "?t \<noteq> SEQ_EXPIRED" "\<not> ?e"
      by blast
    then show ?thesis
    proof cases
      case 1
      then show ?thesis
        using True item marks_kept_refl [OF "1.prems"(1)]
        by (subst packet_id_reap_loop.simps) simp
    next
      case 2
      obtain c1 where c1: "CIRC_LIST_SET c i SEQ_EXPIRED = Some c1" "marks_kept c c1"
        using marks_kept_set [OF "1.prems"(1) j(2), of SEQ_EXPIRED] j(1) by (auto simp: SEQ_EXPIRED_def)
      then obtain c' where "packet_id_reap_loop now tb c1 (i + 1) ?e = Some c'" "marks_kept c1 c'"
        using "1.IH"(1) [OF True item 2(1) refl 2(2) c1(1)] "1.prems"(2) by (auto simp: marks_kept_def)
      with True item 2 c1 show ?thesis
        by (subst packet_id_reap_loop.simps) (auto simp: Let_def intro: marks_kept_trans)
    next
      case 3
      then obtain c' where "packet_id_reap_loop now tb c (i + 1) ?e = Some c'" "marks_kept c c'"
        using "1.IH"(2) [OF True item 3(1) refl 3(2)] "1.prems" by auto
      with True item 3 show ?thesis
        by (subst packet_id_reap_loop.simps) (auto simp: Let_def)
    qed
  qed
qed

lemma seen_by_marks:
  "seen_by p c k \<Longrightarrow> marks_kept c c' \<Longrightarrow>
     seen_by (p\<lparr>seq_list := Some c', last_reap := t\<rparr>) c' k"
  by (auto simp: seen_by_def marks_kept_def)

lemma packet_id_reap_test_window:
  assumes "window_inv S p"
  shows "\<exists>p'. packet_id_reap_test now p = Some p' \<and> window_inv S p'"
proof -
  obtain c where c: "window_wf p c" "x_size c = 0 \<longrightarrow> S = {}" "\<forall>k \<in> S. seen_by p c k"
    using assms by (auto simp: window_inv_def)
  then have wf: "circ_wf c" and sl: "seq_list p = Some c"
    by (simp_all add: window_wf_def)
  obtain c' where c': "packet_id_reap_loop now (time_backtrack p) c 0 False = Some c'" "marks_kept c c'"
    using packet_id_reap_loop_marks [OF wf] by blast
  let ?p = "p\<lparr>seq_list := Some c', last_reap := now\<rparr>"
  have "window_wf ?p c'" "x_size c' = x_size c"
    using c(1) c'(2) by (auto simp: window_wf_def marks_kept_def)
  moreover have "\<forall>k \<in> S. seen_by ?p c' k"
    using c(3) c'(2) by (blast intro: seen_by_marks)
  ultimately have "window_inv S ?p"
    using c(2) unfolding window_inv_def by (intro exI [of _ c']) simp
  moreover have "window_inv S (p\<lparr>last_reap := now\<rparr>)"
    using c by (auto simp: window_inv_def window_wf_def seen_by_def)
  ultimately show ?thesis
    using assms c'(1) sl by (auto simp: packet_id_reap_test_def packet_id_reap_def)
qed

subsection \<open>Testing and recording\<close>

lemma uint_sub_less:
  fixes a b :: "'a::len word"
  assumes "b \<le> a"
  shows "unat (a - b) = unat a - unat b"
  using assms by (simp add: unat_sub)

lemma small_word_index:
  fixes d :: u64
  assumes "unat d < 2 ^ 31"
  shows "sint (ucast d :: u32) = int (unat d)" "sint d = int (unat d)"
proof -
  have "int (unat d) < int (2 ^ 31)"
    using assms by (simp only: of_nat_less_iff)
  then have b: "uint d < 2 ^ 31"
    by simp
  have "uint d < 2 ^ 32"
    by (rule less_trans [OF b]) simp
  then have "take_bit 32 (uint d) = uint d"
    by (simp add: take_bit_int_eq_self_iff)
  then have "uint (ucast d :: u32) = uint d"
    by (simp add: unsigned_ucast_eq)
  moreover have nn: "- (2 ^ n) \<le> uint d" for n
    by (rule order_trans [of _ 0]) simp_all
  moreover have "signed_take_bit 31 (uint d) = uint d"
    by (rule signed_take_bit_int_eq_self [OF nn b])
  moreover have "uint d < 2 ^ 63"
    using b by (rule less_trans) simp
  then have "signed_take_bit 63 (uint d) = uint d"
    by (rule signed_take_bit_int_eq_self [OF nn])
  ultimately show "sint (ucast d :: u32) = int (unat d)" "sint d = int (unat d)"
    by (simp_all add: sint_uint)
qed

lemma small_size_word:
  assumes "0 \<le> n" "n \<le> 65536"
  shows "unat (ucast (of_int n :: u32) :: u64) = nat n"
proof -
  have "uint (of_int n :: u32) = n"
    using assms by (simp add: uint_word_of_int)
  moreover from this have "take_bit 64 (uint (of_int n :: u32)) = n"
    using assms by (simp add: take_bit_int_eq_self)
  ultimately have "uint (ucast (of_int n :: u32) :: u64) = n"
    by (simp add: unsigned_ucast_eq)
  then show ?thesis
    by (metis unat_eq_nat_uint)
qed

text \<open>The loop that brings the window up to the new id pushes unmarked slots.\<close>

lemma packet_id_push_to_items:
  "circ_wf c \<Longrightarrow> cur \<le> target \<Longrightarrow>
     \<exists>c'. packet_id_push_to c cur target = Some (c', target) \<and> circ_wf c' \<and> x_cap c' = x_cap c
        \<and> circ_items c' = take (nat (x_cap c)) (replicate (unat target - unat cur) 0 @ circ_items c)"
proof (induction c cur target rule: packet_id_push_to.induct)
  case (1 c cur target)
  show ?case
  proof (cases "cur < target")
    case False
    with 1(3) have "cur = target" by simp
    moreover have "nat (x_size c) \<le> nat (x_cap c)"
      using 1(2) by (auto simp: circ_wf_def)
    ultimately show ?thesis
      using 1(2) by (subst packet_id_push_to.simps) simp
  next
    case True
    obtain c1 where c1: "CIRC_LIST_PUSH c SEQ_UNSEEN = Some c1" "circ_wf c1" "x_cap c1 = x_cap c"
      "circ_items c1 = take (nat (x_cap c)) (0 # circ_items c)"
      using circ_push [OF 1(2), of SEQ_UNSEEN] by (auto simp: SEQ_UNSEEN_def)
    have lt: "unat cur < unat target"
      using True by (simp add: word_less_nat_alt)
    then have s: "unat (cur + 1) = Suc (unat cur)"
      using unat_bound [of target] by (simp add: unat_word_ariths)
    with lt have "cur + 1 \<le> target"
      by (simp add: word_le_nat_alt)
    then obtain c' where c': "packet_id_push_to c1 (cur + 1) target = Some (c', target)" "circ_wf c'"
      "x_cap c' = x_cap c1"
      "circ_items c' = take (nat (x_cap c1)) (replicate (unat target - unat (cur + 1)) 0 @ circ_items c1)"
      using 1(1) [OF True c1(1,2)] by blast
    have "unat target - unat cur = Suc (unat target - unat (cur + 1))"
      using lt s by linarith
    then have "replicate (unat target - unat cur) (0::int) = replicate (unat target - unat (cur + 1)) 0 @ [0]"
      by (simp add: replicate_append_same)
    then have "circ_items c' = take (nat (x_cap c)) (replicate (unat target - unat cur) 0 @ circ_items c)"
      using c'(4) c1(3,4) by (simp add: min_def)
    with True c1 c' show ?thesis
      by (subst packet_id_push_to.simps) simp
  qed
qed

lemma packet_id_push_to_max:
  assumes "circ_wf c"
  shows "\<exists>c'. packet_id_push_to c cur target = Some (c', max cur target) \<and> circ_wf c'
     \<and> x_cap c' = x_cap c
     \<and> circ_items c' = take (nat (x_cap c)) (replicate (unat target - unat cur) 0 @ circ_items c)"
proof (cases "cur \<le> target")
  case True
  then show ?thesis
    using packet_id_push_to_items [OF assms True] by (auto simp: max_def)
next
  case False
  then have "unat target - unat cur = 0"
    by (simp add: word_le_nat_alt)
  moreover have "nat (x_size c) \<le> nat (x_cap c)"
    using assms by (auto simp: circ_wf_def)
  ultimately show ?thesis
    using False assms by (subst packet_id_push_to.simps) (auto simp: max_def)
qed

lemma packet_id_test_window:
  assumes wf: "window_wf p c" and id: "unat (pn_id pin) < 2 ^ 63"
  shows "\<exists>ok p'. packet_id_test p pin = Some (ok, p')
     \<and> (ok \<longleftrightarrow> pn_id pin \<noteq> 0 \<and> (pr_time p < pn_time pin \<or> (pn_time pin = pr_time p
            \<and> (pr_id p < pn_id pin \<or> (unat (pr_id p) - unat (pn_id pin) < nat (x_size c)
                \<and> circ_items c ! (unat (pr_id p) - unat (pn_id pin)) = 0)))))
     \<and> (\<exists>m. p' = p\<lparr>max_backtrack_stat := m\<rparr>)"
proof -
  have c: "circ_wf c" "seq_list p = Some c" "initialized p" "seq_backtrack p \<noteq> 0"
    and size: "0 \<le> x_size c" "x_size c \<le> 65536"
    using wf by (auto simp: window_wf_def circ_wf_def MAX_SEQ_BACKTRACK_def)
  have keep: "\<exists>m. p = p\<lparr>max_backtrack_stat := m\<rparr>"
    by (rule exI [of _ "max_backtrack_stat p"]) simp
  show ?thesis
  proof (cases "pn_id pin \<noteq> 0 \<and> pn_time pin = pr_time p \<and> pn_id pin \<le> pr_id p")
    case False
    then show ?thesis
      using c keep by (auto simp: packet_id_test_def not_le not_less)
  next
    case True
    let ?d = "pr_id p - pn_id pin"
    have d: "unat ?d = unat (pr_id p) - unat (pn_id pin)"
      using True by (simp add: uint_sub_less)
    let ?p = "if ?d > max_backtrack_stat p then p\<lparr>max_backtrack_stat := ?d\<rparr> else p"
    have keep': "\<exists>m. ?p = p\<lparr>max_backtrack_stat := m\<rparr>"
      using keep by auto
    have far: "?d \<ge> ucast (of_int (x_size c) :: u32) \<longleftrightarrow> \<not> unat ?d < nat (x_size c)"
      by (simp only: word_le_nat_alt small_size_word [OF size] not_less)
    show ?thesis
    proof (cases "unat ?d < nat (x_size c)")
      case near: True
      moreover have "nat (x_size c) \<le> 65536"
        using size by linarith
      ultimately have "unat ?d < 2 ^ 31"
        by simp
      then have "CIRC_LIST_ITEM c (sint (ucast ?d :: u32)) = Some (circ_items c ! unat ?d)"
        using circ_item [OF c(1) near] by (simp only: small_word_index)
      then have "packet_id_test p pin = Some (circ_items c ! unat ?d = 0, ?p)"
        using True c far near by (auto simp: packet_id_test_def Let_def)
      with near True d keep' show ?thesis
        by auto
    next
      case False
      then have "packet_id_test p pin = Some (False, ?p)"
        using True c far by (auto simp: packet_id_test_def Let_def)
      with False True d keep' show ?thesis
        by auto
    qed
  qed
qed

text \<open>
  The end of \<^verbatim>\<open>packet_id_add\<close>: with the window at \<open>cur\<close> and the id inside it, its slot
  is marked with the clock.
\<close>

lemma circ_mark:
  fixes diff :: u64
  assumes "circ_wf c" "x_cap c \<le> MAX_SEQ_BACKTRACK" "unat diff < nat (x_size c)"
  shows "\<exists>c'. CIRC_LIST_SET c (sint (ucast diff :: u32)) now = Some c' \<and> circ_wf c'
     \<and> x_cap c' = x_cap c \<and> x_size c' = x_size c
     \<and> circ_items c' = (circ_items c)[unat diff := now] \<and> sint diff < x_size c"
proof -
  have "unat diff < 2 ^ 31"
    using assms by (auto simp: circ_wf_def MAX_SEQ_BACKTRACK_def)
  then have s: "sint (ucast diff :: u32) = int (unat diff)" "sint diff = int (unat diff)"
    by (rule small_word_index)+
  have "int (unat diff) < x_size c"
    using assms(3) by linarith
  then show ?thesis
    unfolding s using circ_set [OF assms(1,3), of now] by blast
qed

lemma replicate_prefix_nth:
  "d < length (take n (replicate k x @ xs)) \<Longrightarrow> k \<le> d \<Longrightarrow>
     take n (replicate k x @ xs) ! d = xs ! (d - k) \<and> d - k < length xs"
  by (auto simp: nth_append)

text \<open>
  Both ways through \<^verbatim>\<open>packet_id_add\<close>: the window slides (or stays) and the old marks move
  with it, or it starts afresh where no earlier id can be inside it.
\<close>

lemma packet_id_add_slide:
  assumes wf: "window_wf p c" and now: "now > SEQ_EXPIRED"
    and id: "unat (pn_id pin) < 2 ^ 63"
    and slide: "packet_id_push_to c (pr_id p) (pn_id pin) = Some (c2, max (pr_id p) (pn_id pin))"
       "circ_wf c2" "x_cap c2 = x_cap c"
       "circ_items c2 = take (nat (x_cap c)) (replicate k 0 @ circ_items c)"
    and k: "k = unat (pn_id pin) - unat (pr_id p)"
    and inside: "unat (pr_id p) - unat (pn_id pin) < length (circ_items c2)"
    and old: "\<forall>x \<in> S. seen_by p c x" and time: "pn_time pin = pr_time p"
  shows "\<exists>c3. CIRC_LIST_SET c2 (sint (ucast (max (pr_id p) (pn_id pin) - pn_id pin) :: u32)) now = Some c3
     \<and> sint (max (pr_id p) (pn_id pin) - pn_id pin) < x_size c2
     \<and> window_inv (insert (pn_time pin, pn_id pin) S)
          (p\<lparr>pr_id := max (pr_id p) (pn_id pin), seq_list := Some c3\<rparr>)"
proof -
  let ?cur = "max (pr_id p) (pn_id pin)" and ?id = "pn_id pin"
  have cur: "unat ?cur = max (unat (pr_id p)) (unat ?id)"
    by (auto simp: max_def word_le_nat_alt)
  have diff: "unat (?cur - ?id) = unat (pr_id p) - unat ?id"
    using cur by (simp add: uint_sub_less)
  have cap: "x_cap c2 \<le> MAX_SEQ_BACKTRACK"
    using wf slide(3) by (simp add: window_wf_def)
  obtain c3 where c3: "CIRC_LIST_SET c2 (sint (ucast (?cur - ?id) :: u32)) now = Some c3" "circ_wf c3"
    "x_cap c3 = x_cap c2" "x_size c3 = x_size c2" "sint (?cur - ?id) < x_size c2"
    "circ_items c3 = (circ_items c2)[unat (?cur - ?id) := now]"
    using circ_mark [OF slide(2) cap, of "?cur - ?id" now] inside diff by auto
  let ?p = "p\<lparr>pr_id := ?cur, seq_list := Some c3\<rparr>"
  have "window_wf ?p c3"
    using wf id c3 slide(3) cur by (simp add: window_wf_def)
  moreover have "x_size c3 \<noteq> 0"
    using inside c3(4) by auto
  moreover have "seen_by ?p c3 x" if x: "x \<in> insert (pn_time pin, ?id) S" for x
  proof -
    have now0: "now \<noteq> 0"
      using now by (simp add: SEQ_EXPIRED_def)
    show ?thesis
    proof (cases "x = (pn_time pin, ?id)")
      case True
      have "unat ?cur - unat ?id = unat (?cur - ?id)"
        using cur diff by auto
      with True time cur now0 c3(4,6) show ?thesis
        by (auto simp: seen_by_def)
    next
      case False
      with x old have sx: "seen_by p c x" by auto
      show ?thesis
      proof (cases "fst x = pr_time p")
        case False
        with sx show ?thesis by (auto simp: seen_by_def)
      next
        case True
        with sx have le: "unat (snd x) \<le> unat (pr_id p)"
          by (simp add: seen_by_def)
        let ?D = "unat ?cur - unat (snd x)"
        have D: "?D = k + (unat (pr_id p) - unat (snd x))"
          using le cur k by auto
        have "circ_items c3 ! ?D \<noteq> 0" if "?D < nat (x_size c3)"
        proof -
          have len: "?D < length (circ_items c2)"
            using that c3(4) by simp
          then have "circ_items c2 ! ?D = circ_items c ! (unat (pr_id p) - unat (snd x))"
            "unat (pr_id p) - unat (snd x) < nat (x_size c)"
            using replicate_prefix_nth [of ?D "nat (x_cap c)" k 0 "circ_items c"] D
            unfolding slide(4) by auto
          then have "circ_items c2 ! ?D \<noteq> 0"
            using sx True by (simp add: seen_by_def)
          with c3(6) now0 len show ?thesis
            by (metis nth_list_update_eq nth_list_update_neq)
        qed
        with True le cur show ?thesis
          by (simp add: seen_by_def)
      qed
    qed
  qed
  ultimately have "window_inv (insert (pn_time pin, ?id) S) ?p"
    unfolding window_inv_def by (intro exI [of _ c3]) blast
  with c3 show ?thesis
    by blast
qed

lemma packet_id_add_window:
  assumes inv: "window_inv S p" and now: "now > SEQ_EXPIRED" and id: "unat (pn_id pin) < 2 ^ 63"
    and test: "packet_id_test p pin = Some (True, p0)"
  shows "\<exists>p'. packet_id_add now p pin = Some p' \<and> window_inv (insert (pn_time pin, pn_id pin) S) p'"
proof -
  obtain c where wf: "window_wf p c" and empty: "x_size c = 0 \<longrightarrow> S = {}"
    and old: "\<forall>k \<in> S. seen_by p c k"
    using inv by (auto simp: window_inv_def)
  have c: "circ_wf c" "seq_list p = Some c"
    using wf by (auto simp: window_wf_def)
  let ?id = "pn_id pin" and ?B = "seq_backtrack p"
  have "uint ?B = x_cap c" "0 < x_cap c"
    using wf by (auto simp: window_wf_def circ_wf_def)
  then have B: "unat ?B = nat (x_cap c)" "0 < unat ?B"
    by (simp_all only: unat_eq_nat_uint zero_less_nat_eq)
  have acc: "?id \<noteq> 0" "pr_time p < pn_time pin \<or> (pn_time pin = pr_time p
            \<and> (pr_id p < ?id \<or> unat (pr_id p) - unat ?id < nat (x_size c)))"
    using packet_id_test_window [OF wf id] test by auto
  show ?thesis
  proof (cases "x_size c = 0 \<or> pn_time pin > pr_time p \<or> (?id \<ge> ?B \<and> ?id - ?B > pr_id p)")
    case reset: True
    obtain base where base_def: "base = (if ?id > ?B then ?id - ?B else 0)"
      by blast
    let ?p1 = "p\<lparr>pr_time := pn_time pin, pr_id := base\<rparr>"
    let ?c1 = "CIRC_LIST_RESET c"
    have base: "unat base = unat ?id - unat ?B" "base \<le> ?id"
      by (auto simp: base_def word_less_nat_alt word_le_nat_alt uint_sub_less)
    have c1: "circ_wf ?c1" "circ_items ?c1 = []" "x_cap ?c1 = x_cap c" "x_size ?c1 = 0"
      using circ_reset_wf [OF c(1)] by auto
    have wf1: "window_wf (?p1\<lparr>seq_list := Some ?c1\<rparr>) ?c1"
      using wf c1 base id by (auto simp: window_wf_def)
    obtain c2 where c2: "packet_id_push_to ?c1 base ?id = Some (c2, max base ?id)" "circ_wf c2"
      "x_cap c2 = x_cap ?c1"
      "circ_items c2 = take (nat (x_cap ?c1)) (replicate (unat ?id - unat base) 0 @ circ_items ?c1)"
      using packet_id_push_to_max [OF c1(1)] by blast
    have "0 < unat ?id"
      using acc(1) by (simp add: unat_gt_0)
    then have inside: "unat base - unat ?id < length (circ_items c2)"
      using base B c1(2,3) unfolding c2(4) by auto
    have old1: "\<forall>x \<in> S. fst x \<le> pn_time pin \<and> (fst x = pn_time pin \<longrightarrow> unat (snd x) \<le> unat base)"
    proof (intro ballI)
      fix x assume x: "x \<in> S"
      with empty reset have r: "pn_time pin > pr_time p \<or> (?id \<ge> ?B \<and> ?id - ?B > pr_id p)"
        by auto
      have sx: "seen_by p c x" using old x by blast
      show "fst x \<le> pn_time pin \<and> (fst x = pn_time pin \<longrightarrow> unat (snd x) \<le> unat base)"
      proof (cases "pn_time pin > pr_time p")
        case True
        with sx show ?thesis by (auto simp: seen_by_def)
      next
        case False
        with r acc(2) have "?id \<ge> ?B" "unat (pr_id p) < unat (?id - ?B)" "pn_time pin = pr_time p"
          by (auto simp: word_less_nat_alt)
        with sx base(1) show ?thesis by (auto simp: seen_by_def uint_sub_less)
      qed
    qed
    then have seen1: "\<forall>x \<in> S. seen_by (?p1\<lparr>seq_list := Some ?c1\<rparr>) ?c1 x"
      using c1(4) by (auto simp: seen_by_def)
    let ?q = "?p1\<lparr>seq_list := Some ?c1\<rparr>"
    have add: "packet_id_add now p pin =
        (if sint (max base ?id - ?id) < x_size c2 \<and> now > SEQ_EXPIRED
         then map_option (\<lambda>c3. ?q\<lparr>pr_id := max base ?id, seq_list := Some c3\<rparr>)
           (CIRC_LIST_SET c2 (sint (ucast (max base ?id - ?id) :: u32)) now)
         else Some (?q\<lparr>pr_id := max base ?id, seq_list := Some c2\<rparr>))"
      unfolding packet_id_add_def c(2) option.case if_P [OF reset] Let_def prod.case
        base_def [symmetric]
      using c2(1) by simp
    have q: "pr_id ?q = base" "pr_time ?q = pn_time pin"
      by simp_all
    show ?thesis
      using packet_id_add_slide [OF wf1 now id, unfolded q, OF c2 refl inside seen1 refl] add now
      by fastforce
  next
    case slide: False
    have time: "pn_time pin = pr_time p"
      using slide acc(2) by auto
    obtain c2 where c2: "packet_id_push_to c (pr_id p) ?id = Some (c2, max (pr_id p) ?id)" "circ_wf c2"
      "x_cap c2 = x_cap c"
      "circ_items c2 = take (nat (x_cap c)) (replicate (unat ?id - unat (pr_id p)) 0 @ circ_items c)"
      using packet_id_push_to_max [OF c(1)] by blast
    have size: "0 < x_size c" "x_size c \<le> x_cap c"
      using slide c(1) by (auto simp: circ_wf_def)
    have "length (circ_items c2) = min (nat (x_cap c)) (unat ?id - unat (pr_id p) + nat (x_size c))"
      by (simp add: c2(4) min.commute del: take_append)
    moreover have "unat (pr_id p) - unat ?id < nat (x_size c)"
      using acc(2) time size by (auto simp: word_less_nat_alt)
    moreover have "nat (x_size c) \<le> nat (x_cap c)"
      using size by linarith
    ultimately have inside: "unat (pr_id p) - unat ?id < length (circ_items c2)"
      by linarith
    have add: "packet_id_add now p pin =
        (if sint (max (pr_id p) ?id - ?id) < x_size c2 \<and> now > SEQ_EXPIRED
         then map_option (\<lambda>c3. p\<lparr>pr_id := max (pr_id p) ?id, seq_list := Some c3\<rparr>)
           (CIRC_LIST_SET c2 (sint (ucast (max (pr_id p) ?id - ?id) :: u32)) now)
         else Some (p\<lparr>pr_id := max (pr_id p) ?id, seq_list := Some c2\<rparr>))"
      unfolding packet_id_add_def c(2) option.case if_not_P [OF slide] Let_def prod.case c2(1) ..
    show ?thesis
      using packet_id_add_slide [OF wf now id c2 refl inside old time] add now
      by fastforce
  qed
qed

subsection \<open>The receive path as a replay filter\<close>

lemma window_inv_stat: "window_inv S (p\<lparr>max_backtrack_stat := m\<rparr>) \<longleftrightarrow> window_inv S p"
  by (simp add: window_inv_def window_wf_def seen_by_def)

lemma window_wf_stat: "window_wf (p\<lparr>max_backtrack_stat := m\<rparr>) c \<longleftrightarrow> window_wf p c"
  by (simp add: window_wf_def)

text \<open>One step: which packets pass, and that the invariant survives either answer.\<close>

lemma replay_recv_window:
  assumes inv: "window_inv S p" and v: "pin_valid (now, pin)"
  shows "\<exists>ok p'. replay_recv now p pin = Some (ok, p')
    \<and> (ok \<longrightarrow> (pn_time pin, pn_id pin) \<notin> S \<and> window_inv (insert (pn_time pin, pn_id pin) S) p')
    \<and> (\<not> ok \<longrightarrow> window_inv S p')"
proof -
  obtain p1 where p1: "packet_id_reap_test now p = Some p1" "window_inv S p1"
    using packet_id_reap_test_window [OF inv] by blast
  obtain c where c: "window_wf p1 c" "x_size c = 0 \<longrightarrow> S = {}" "\<forall>k \<in> S. seen_by p1 c k"
    using p1(2) by (auto simp: window_inv_def)
  have id: "unat (pn_id pin) < 2 ^ 63" and now: "now > SEQ_EXPIRED"
    using v by (auto simp: pin_valid_def)
  obtain ok m where t: "packet_id_test p1 pin = Some (ok, p1\<lparr>max_backtrack_stat := m\<rparr>)"
    and ok: "ok \<longleftrightarrow> pn_id pin \<noteq> 0 \<and> (pr_time p1 < pn_time pin \<or> (pn_time pin = pr_time p1
            \<and> (pr_id p1 < pn_id pin \<or> (unat (pr_id p1) - unat (pn_id pin) < nat (x_size c)
                \<and> circ_items c ! (unat (pr_id p1) - unat (pn_id pin)) = 0))))"
    using packet_id_test_window [OF c(1) id] by blast
  let ?p2 = "p1\<lparr>max_backtrack_stat := m\<rparr>"
  show ?thesis
  proof (cases ok)
    case False
    with p1 t show ?thesis
      by (auto simp: replay_recv_def window_inv_stat)
  next
    case True
    have "window_wf ?p2 c"
      using c(1) by (simp add: window_wf_stat)
    then obtain p3 where "packet_id_test ?p2 pin = Some (True, p3)"
      using packet_id_test_window [OF _ id, of ?p2 c] True ok by auto
    then obtain p' where "packet_id_add now ?p2 pin = Some p'"
      "window_inv (insert (pn_time pin, pn_id pin) S) p'"
      using packet_id_add_window [of S ?p2 now pin] p1(2) now id by (auto simp: window_inv_stat)
    moreover have "(pn_time pin, pn_id pin) \<notin> S"
      using True ok c(3) by (fastforce simp: seen_by_def word_less_nat_alt)
    ultimately show ?thesis
      using p1(1) t True by (auto simp: replay_recv_def)
  qed
qed

interpretation window: replay_filter "\<lambda>p e. replay_recv (fst e) p (snd e)" pin_key pin_valid window_inv
proof (unfold_locales, goal_cases)
  case (1 S s e)
  then show ?case using replay_recv_window [of S s "fst e" "snd e"] by auto
next
  case (2 S s e s')
  then show ?case using replay_recv_window [of S s "fst e" "snd e"] by (auto simp: pin_key_def)
next
  case (3 S s e s')
  then show ?case using replay_recv_window [of S s "fst e" "snd e"] by (auto simp: pin_key_def)
next
  case (4 S s e s')
  then show ?case using replay_recv_window [of S s "fst e" "snd e"] by auto
qed

text \<open>Stream mode: no window, ids must follow each other.\<close>

definition strict_inv :: "(int \<times> u64) set \<Rightarrow> packet_id_rec \<Rightarrow> bool" where
  "strict_inv S p \<longleftrightarrow> initialized p \<and> seq_backtrack p = 0 \<and> seq_list p = None
     \<and> time_backtrack p = 0 \<and> unat (pr_id p) < 2 ^ 63
     \<and> (\<forall>k \<in> S. fst k < pr_time p
          \<or> (fst k = pr_time p \<and> pr_id p \<noteq> 0 \<and> unat (snd k) \<le> unat (pr_id p)))"

lemma packet_id_init_strict:
  "packet_id_init 0 tb = Some pid \<Longrightarrow> strict_inv {} (pid_rec pid)"
  by (auto simp: packet_id_init_def packet_id_init_recv_def clear_rec_def strict_inv_def)

lemma replay_recv_strict:
  assumes inv: "strict_inv S p" and v: "pin_valid (now, pin)"
  shows "\<exists>ok p'. replay_recv now p pin = Some (ok, p')
    \<and> (ok \<longrightarrow> (pn_time pin, pn_id pin) \<notin> S \<and> strict_inv (insert (pn_time pin, pn_id pin) S) p')
    \<and> (\<not> ok \<longrightarrow> strict_inv S p')"
proof -
  let ?p1 = "if last_reap p + SEQ_REAP_INTERVAL \<le> now then p\<lparr>last_reap := now\<rparr> else p"
  have r: "packet_id_reap_test now p = Some ?p1"
    using inv by (simp add: packet_id_reap_test_def packet_id_reap_def strict_inv_def)
  have inv1: "strict_inv S ?p1"
    using inv by (simp add: strict_inv_def)
  let ?ok = "pn_id pin \<noteq> 0 \<and> (if pn_time pin = pr_time p then pr_id p = 0 \<or> pn_id pin = pr_id p + 1
      else \<not> pn_time pin < pr_time p \<and> pn_id pin = 1)"
  have t: "packet_id_test ?p1 pin = Some (?ok, ?p1)"
    using inv by (simp add: packet_id_test_def strict_inv_def)
  show ?thesis
  proof (cases ?ok)
    case False
    then have "replay_recv now p pin = Some (False, ?p1)"
      using r t by (simp only: replay_recv_def option.case prod.case) simp
    with inv1 show ?thesis by blast
  next
    case True
    let ?p2 = "?p1\<lparr>pr_time := pn_time pin, pr_id := pn_id pin\<rparr>"
    have "packet_id_add now ?p1 pin = Some ?p2"
      using inv by (simp add: packet_id_add_def strict_inv_def)
    then have run: "replay_recv now p pin = Some (True, ?p2)"
      using r t True by (simp only: replay_recv_def option.case prod.case) simp
    have id: "unat (pn_id pin) < 2 ^ 63"
      using v by (simp add: pin_valid_def)
    have suc: "unat (pr_id p + 1) = Suc (unat (pr_id p))"
      using inv by (simp add: strict_inv_def unat_word_ariths)
    have "(pn_time pin, pn_id pin) \<notin> S"
      using True inv suc by (force simp: strict_inv_def split: if_splits)
    moreover have "strict_inv (insert (pn_time pin, pn_id pin) S) ?p2"
      using True inv suc id by (force simp: strict_inv_def split: if_splits)
    ultimately show ?thesis
      using run by blast
  qed
qed

interpretation strict: replay_filter "\<lambda>p e. replay_recv (fst e) p (snd e)" pin_key pin_valid strict_inv
proof (unfold_locales, goal_cases)
  case (1 S s e)
  then show ?case using replay_recv_strict [of S s "fst e" "snd e"] by auto
next
  case (2 S s e s')
  then show ?case using replay_recv_strict [of S s "fst e" "snd e"] by (auto simp: pin_key_def)
next
  case (3 S s e s')
  then show ?case using replay_recv_strict [of S s "fst e" "snd e"] by (auto simp: pin_key_def)
next
  case (4 S s e s')
  then show ?case using replay_recv_strict [of S s "fst e" "snd e"] by auto
qed

section \<open>The sender never repeats an id\<close>


definition id_less :: "int \<times> u64 \<Rightarrow> int \<times> u64 \<Rightarrow> bool" where
  "id_less a b \<longleftrightarrow> fst a < fst b \<or> (fst a = fst b \<and> snd a < snd b)"



lemma send_update_step:
  assumes "0 \<le> now" "0 \<le> ps_time p" "ps_id p \<le> PACKET_ID_MAX"
    and "packet_id_send_update now p lf = (ok, p')"
  shows "0 \<le> ps_time p'" "ps_id p' \<le> PACKET_ID_MAX"
    "ok \<Longrightarrow> id_less (ps_time p, ps_id p) (ps_time p', ps_id p')"
    "\<not> ok \<Longrightarrow> ps_id p' = ps_id p \<and> ps_time p \<le> ps_time p'"
    "ok \<Longrightarrow> ps_id p' \<noteq> 0"
proof -
  have suc: "unat (ps_id p + 1) = Suc (unat (ps_id p))" if "ps_id p \<noteq> PACKET_ID_MAX"
    using that assms(3) by (simp add: PACKET_ID_MAX_def unat_word_ariths word_le_nat_alt word_unat_eq_iff)
  have less: "ps_id p < ps_id p + 1" "ps_id p + 1 \<le> PACKET_ID_MAX" "ps_id p + 1 \<noteq> 0"
    if "ps_id p \<noteq> PACKET_ID_MAX"
  proof -
    show "ps_id p < ps_id p + 1" "ps_id p + 1 \<noteq> 0"
      using suc [OF that] by (auto simp: word_less_nat_alt)
    have "unat (ps_id p) < unat PACKET_ID_MAX"
      using that assms(3) by (simp add: word_le_nat_alt word_unat_eq_iff)
    with suc [OF that] show "ps_id p + 1 \<le> PACKET_ID_MAX"
      by (simp add: word_le_nat_alt)
  qed
  have one: "1 \<le> PACKET_ID_MAX"
    by (simp add: PACKET_ID_MAX_def)
  show "0 \<le> ps_time p'" "ps_id p' \<le> PACKET_ID_MAX"
    "ok \<Longrightarrow> id_less (ps_time p, ps_id p) (ps_time p', ps_id p')"
    "\<not> ok \<Longrightarrow> ps_id p' = ps_id p \<and> ps_time p \<le> ps_time p'"
    "ok \<Longrightarrow> ps_id p' \<noteq> 0"
    using assms less one
    by (auto simp: packet_id_send_update_def Let_def id_less_def split: if_splits)
qed


section \<open>Wire format: lemmas\<close>

lemma epoch_pack:
  fixes e :: u16 and i :: u64
  assumes "i \<le> PACKET_ID_EPOCH_MAX"
  shows "ucast (drop_bit 48 (push_bit 48 (ucast e) OR i)) = e"
    and "(push_bit 48 (ucast e) OR i) AND PACKET_ID_MASK = i"
proof -
  have "unat i < 2 ^ 48"
    using assms by (simp add: PACKET_ID_EPOCH_MAX_def word_le_nat_alt)
  then have i: "take_bit 48 i = i"
    by (metis take_bit_nat_eq_self unsigned_take_bit_eq word_unat_eq_iff)
  have high: "bit i n \<Longrightarrow> n < 48" for n
    by (metis i bit_take_bit_iff)
  have mask: "PACKET_ID_MASK = mask 48"
    by (simp add: PACKET_ID_MASK_def mask_eq_exp_minus_1)
  show "ucast (drop_bit 48 (push_bit 48 (ucast e) OR i)) = e"
    by (rule bit_word_eqI) (auto simp: bit_simps dest: high)
  show "(push_bit 48 (ucast e) OR i) AND PACKET_ID_MASK = i"
    unfolding mask
    by (rule bit_word_eqI) (auto simp: bit_simps dest: high)
qed

section \<open>Properties\<close>

text \<open>C18: no replay. Start a receiver with \<^verbatim>\<open>packet_id_init\<close> and a window of \<open>sb\<close> ids, and
  feed it any packets, reordered, duplicated or replayed, with any clock past
  \<^verbatim>\<open>SEQ_EXPIRED\<close>: no assertion fails, and no \<open>(time, id)\<close> pair is accepted twice, through
  every reap, slide and restart of the window.\<close>

theorem replay_window_no_replay:
  assumes "packet_id_init sb tb = Some pid" "0 < sb"
    and "\<forall>e \<in> set es. SEQ_EXPIRED < fst e \<and> unat (pn_id (snd e)) < 2 ^ 63"
  shows "\<exists>acc. rx_run (\<lambda>p e. replay_recv (fst e) p (snd e)) (pid_rec pid) es = Some acc
    \<and> distinct (map (\<lambda>e. (pn_time (snd e), pn_id (snd e))) acc) \<and> set acc \<subseteq> set es"
proof -
  have "window_inv {} (pid_rec pid)"
    using packet_id_init_window assms(1,2) by blast
  then obtain acc where
    "rx_run (\<lambda>p e. replay_recv (fst e) p (snd e)) (pid_rec pid) es = Some acc"
    "distinct (map pin_key acc)" "set acc \<subseteq> set es"
    using window.run_no_replay [of "{}" "pid_rec pid" es] assms(3) by (auto simp: pin_valid_def)
  then show ?thesis
    by (simp add: pin_key_def [abs_def])
qed

definition demo_pin :: "u64 \<Rightarrow> int \<times> packet_id_net" where
  "demo_pin i = (1000, \<lparr>pn_id = i, pn_time = 0\<rparr>)"

theorem replay_window_no_replay_witness:
  "\<exists>acc. rx_run (\<lambda>p e. replay_recv (fst e) p (snd e)) (pid_rec (the (packet_id_init 4 15)))
           [demo_pin 1, demo_pin 3, demo_pin 2, demo_pin 3] = Some acc
    \<and> distinct (map (\<lambda>e. (pn_time (snd e), pn_id (snd e))) acc)
    \<and> set acc \<subseteq> set [demo_pin 1, demo_pin 3, demo_pin 2, demo_pin 3]"
  by (rule replay_window_no_replay [of 4 15])
     (simp_all add: packet_id_init_def packet_id_init_recv_def MAX_SEQ_BACKTRACK_def
        MAX_TIME_BACKTRACK_def demo_pin_def SEQ_EXPIRED_def)

text \<open>C19: what the window accepts. For a receiver whose window is in order,
  \<^verbatim>\<open>packet_id_test\<close> accepts exactly the ids that are not zero and either open a later time,
  or are above every id seen, or lie inside the window in a slot not marked yet; the test
  itself changes the backtrack statistic only.\<close>

theorem replay_window_accepts:
  assumes "window_wf p c" "unat (pn_id pin) < 2 ^ 63"
  shows "\<exists>ok m. packet_id_test p pin = Some (ok, p\<lparr>max_backtrack_stat := m\<rparr>)
     \<and> (ok \<longleftrightarrow> pn_id pin \<noteq> 0 \<and> (pr_time p < pn_time pin \<or> (pn_time pin = pr_time p
            \<and> (pr_id p < pn_id pin \<or> (unat (pr_id p) - unat (pn_id pin) < nat (x_size c)
                \<and> circ_items c ! (unat (pr_id p) - unat (pn_id pin)) = 0)))))"
  using packet_id_test_window [OF assms] by blast

theorem replay_window_accepts_witness:
  "\<exists>m. packet_id_test (pid_rec (the (packet_id_init 4 15))) \<lparr>pn_id = 7, pn_time = 0\<rparr>
     = Some (True, (pid_rec (the (packet_id_init 4 15)))\<lparr>max_backtrack_stat := m\<rparr>)"
proof -
  let ?p = "pid_rec (the (packet_id_init 4 15))"
  have "window_wf ?p (CIRC_LIST_ALLOC 4)"
    by (simp add: window_wf_def packet_id_init_def packet_id_init_recv_def MAX_SEQ_BACKTRACK_def
        MAX_TIME_BACKTRACK_def circ_wf_def CIRC_LIST_ALLOC_def clear_rec_def)
  moreover have "pr_time ?p = 0" "pr_id ?p = 0"
    by (simp_all add: packet_id_init_def packet_id_init_recv_def MAX_SEQ_BACKTRACK_def
        MAX_TIME_BACKTRACK_def clear_rec_def)
  ultimately show ?thesis
    using replay_window_accepts [of ?p "CIRC_LIST_ALLOC 4" "\<lparr>pn_id = 7, pn_time = 0\<rparr>"] by auto
qed

text \<open>stream mode (no window, used over TCP) is free of replays too: no assertion fails
  and no \<open>(time, id)\<close> pair is accepted twice.\<close>

lemma strict_sequence_no_replay:
  assumes "packet_id_init 0 tb = Some pid"
    and "\<forall>e \<in> set es. SEQ_EXPIRED < fst e \<and> unat (pn_id (snd e)) < 2 ^ 63"
  shows "\<exists>acc. rx_run (\<lambda>p e. replay_recv (fst e) p (snd e)) (pid_rec pid) es = Some acc
    \<and> distinct (map (\<lambda>e. (pn_time (snd e), pn_id (snd e))) acc)"
proof -
  have "strict_inv {} (pid_rec pid)"
    using packet_id_init_strict assms(1) by blast
  then obtain acc where
    "rx_run (\<lambda>p e. replay_recv (fst e) p (snd e)) (pid_rec pid) es = Some acc"
    "distinct (map pin_key acc)"
    using strict.run_no_replay [of "{}" "pid_rec pid" es] assms(2) by (auto simp: pin_valid_def)
  then show ?thesis
    by (simp add: pin_key_def [abs_def])
qed

theorem strict_sequence_no_replay_witness:
  "\<exists>acc. rx_run (\<lambda>p e. replay_recv (fst e) p (snd e)) (pid_rec (the (packet_id_init 0 0)))
           [demo_pin 1, demo_pin 1, demo_pin 2] = Some acc
    \<and> distinct (map (\<lambda>e. (pn_time (snd e), pn_id (snd e))) acc)"
  by (rule strict_sequence_no_replay [of 0])
     (simp_all add: packet_id_init_def packet_id_init_recv_def demo_pin_def SEQ_EXPIRED_def)



text \<open>C21: the packet id survives the wire: what \<^verbatim>\<open>packet_id_write\<close> prepends to a packet,
  \<^verbatim>\<open>packet_id_read\<close> reads back, in short and long form, and leaves the packet as it was
  (the time is sent modulo 2\<open>^\<close>32).\<close>

theorem packet_id_write_read:
  assumes wf: "buf_wf b" "buf_defined b" and room: "packet_id_size lf \<le> bf_off b"
    and max: "ps_id p \<le> PACKET_ID_MAX" "0 \<le> now" "0 \<le> ps_time p"
    and w: "packet_id_write now p b lf True = (ok, p', b')" and ok: "fst (packet_id_send_update now p lf)"
  shows "ok \<and> (\<exists>b''. packet_id_read b' lf
       = ((True, \<lparr>pn_id = ps_id p', pn_time = (if lf then ps_time p' mod 2 ^ 32 else 0)\<rparr>), b'')
     \<and> content b'' = content b)"
proof -
  obtain p1 where u: "packet_id_send_update now p lf = (True, p1)"
    using ok by (cases "packet_id_send_update now p lf") auto
  have le: "ps_id p1 \<le> PACKET_ID_MAX"
    using send_update_step(2) [OF max(2,3,1) u] .
  let ?t = "enc32 (of_int (ps_time p1))" and ?i = "enc32 (ucast (ps_id p1))"
  have id: "ucast (ucast (ps_id p1) :: u32) = ps_id p1"
  proof -
    have "unat (ps_id p1) < 2 ^ 32"
      using le by (simp add: PACKET_ID_MAX_def word_le_nat_alt)
    then have "take_bit 32 (unat (ps_id p1)) = unat (ps_id p1)"
      by (rule take_bit_nat_eq_self)
    then have "unat (ucast (ucast (ps_id p1) :: u32) :: u64) = unat (ps_id p1)"
      by (simp add: unsigned_ucast_eq unsigned_take_bit_eq)
    then show ?thesis
      by (simp only: word_unat_eq_iff)
  qed
  have time: "uint (of_int (ps_time p1) :: u32) = ps_time p1 mod 2 ^ 32"
    by (simp add: uint_word_of_int)
  show ?thesis
  proof (cases lf)
    case False
    obtain b1 b2 where "buf_write_prepend b ?i = (True, b1)" "buf_read b1 4 = (Some ?i, b2)"
      "content b2 = content b"
      using u32c.prepend_read [OF wf, of "ucast (ps_id p1)"] room False by (auto simp: packet_id_size_def)
    with False u w id show ?thesis
      by (auto simp: packet_id_write_def packet_id_read_def Let_def codec_simps)
  next
    case True
    obtain b1 where b1: "buf_write_prepend b ?t = (True, b1)" "buf_wf b1" "content b1 = ?t @ content b"
      "bf_off b1 = bf_off b - 4" "buf_defined b1"
      using buf_write_prepend_safe [OF wf, of ?t] room True by (auto simp: packet_id_size_def codec_simps)
    obtain b2 where b2: "buf_write_prepend b1 ?i = (True, b2)" "buf_wf b2" "content b2 = ?i @ content b1"
      using buf_write_prepend_safe [OF b1(2,5), of ?i] room True b1(4) by (auto simp: packet_id_size_def codec_simps)
    obtain b3 where b3: "buf_read b2 4 = (Some ?i, b3)" "buf_wf b3" "content b3 = ?t @ content b"
      using u32c.read_field [OF b2(2,3)] b1(3) by auto
    obtain b4 where b4: "buf_read b3 4 = (Some ?t, b4)" "content b4 = content b"
      using u32c.read_field [OF b3(2,3)] by auto
    from True u w id time b1(1) b2(1) b3(1) b4 show ?thesis
      by (auto simp: packet_id_write_def packet_id_read_def Let_def codec_simps)
  qed
qed

theorem packet_id_write_read_witness:
  "\<exists>ok p' b' b''. packet_id_write 1000 clear_send
        \<lparr>bf_cap = 9, bf_off = 8, bf_len = 1, bf_data = Some [0, 0, 0, 0, 0, 0, 0, 0, 42]\<rparr> True True
        = (ok, p', b') \<and> ok
     \<and> packet_id_read b' True = ((True, \<lparr>pn_id = 1, pn_time = 1000\<rparr>), b'') \<and> content b'' = [42]"
proof -
  let ?b = "\<lparr>bf_cap = 9, bf_off = 8, bf_len = 1, bf_data = Some [0, 0, 0, 0, 0, 0, 0, 0, 42 :: byte]\<rparr>"
  have b: "buf_wf ?b" "buf_defined ?b" "content ?b = [42]"
    by (simp_all add: buf_wf_def buf_defined_def content_def bf_mem_def mem_get_def BUF_SIZE_MAX_def)
  obtain ok p' b' where w: "packet_id_write 1000 clear_send ?b True True = (ok, p', b')"
    by (metis prod_cases3)
  have u: "packet_id_send_update 1000 clear_send True = (True, \<lparr>ps_id = 1, ps_time = 1000\<rparr>)"
    by (simp add: packet_id_send_update_def clear_send_def PACKET_ID_MAX_def)
  have p': "p' = \<lparr>ps_id = 1, ps_time = 1000\<rparr>"
    using w u by (auto simp: packet_id_write_def Let_def split: prod.splits if_splits bool.splits)
  show ?thesis
    using packet_id_write_read [OF b(1,2) _ _ _ _ w] u b(3) w p'
    by (auto simp: clear_send_def PACKET_ID_MAX_def packet_id_size_def)
qed

text \<open>The epoch packet id survives the wire: reading the eight bytes that
  \<^verbatim>\<open>packet_id_write_epoch\<close> appended to an empty buffer gives back the 16-bit epoch and the
  48-bit counter, for every epoch and every counter the sender can hold.\<close>

theorem packet_id_epoch_roundtrip:
  assumes "buf_wf b" "content b = []" "buf_safe b 8" "ps_id p < PACKET_ID_EPOCH_MAX"
  shows "\<exists>p' b' b''. packet_id_write_epoch now p epoch b = (True, p', b')
     \<and> ps_id p' = ps_id p + 1
     \<and> packet_id_read_epoch b' pin = ((epoch, pin\<lparr>pn_id := ps_id p'\<rparr>), b'')"
proof -
  let ?p = "if ps_time p = 0 then p\<lparr>ps_time := now\<rparr> else p"
  have "packet_id_send_update_epoch now p = (True, ?p\<lparr>ps_id := ps_id p + 1\<rparr>)"
    using assms(4) by (auto simp: packet_id_send_update_epoch_def Let_def)
  then obtain p' where p': "packet_id_send_update_epoch now p = (True, p')" "ps_id p' = ps_id p + 1"
    by auto
  have le: "ps_id p' \<le> PACKET_ID_EPOCH_MAX"
    using assms(4) p'(2) by (simp add: inc_le)
  let ?w = "push_bit 48 (ucast epoch) OR ps_id p'"
  obtain b' where b': "buf_write b (enc64 ?w) = (True, b')" "buf_wf b'" "content b' = enc64 ?w @ []"
    using buf_write_safe [OF assms(1), of "enc64 ?w"] assms(2,3) by (auto simp: codec_simps)
  obtain b'' where "buf_read b' 8 = (Some (enc64 ?w), b'')"
    using u64c.read_field [OF b'(2,3)] by auto
  with p' b'(1) epoch_pack [OF le, of epoch] show ?thesis
    by (auto simp: packet_id_write_epoch_def packet_id_read_epoch_def Let_def codec_simps)
qed

theorem packet_id_epoch_roundtrip_witness:
  "\<exists>p' b' b''. packet_id_write_epoch 9 \<lparr>ps_id = 41, ps_time = 7\<rparr> 3 (the (alloc_buf 16)) = (True, p', b')
     \<and> ps_id p' = 42
     \<and> packet_id_read_epoch b' \<lparr>pn_id = 0, pn_time = 5\<rparr> = ((3, \<lparr>pn_id = 42, pn_time = 5\<rparr>), b'')"
proof -
  obtain b where b: "alloc_buf 16 = Some b"
    by (simp add: alloc_buf_def buf_size_valid_def BUF_SIZE_MAX_def)
  then have "buf_wf b" "content b = []" "buf_safe b 8"
    using alloc_buf_wf [OF b]
    by (auto simp: alloc_buf_def buf_safe_wf buf_defined_def buf_size_valid_def split: if_splits)
  then show ?thesis
    using packet_id_epoch_roundtrip [of b "\<lparr>ps_id = 41, ps_time = 7\<rparr>" 9 3 "\<lparr>pn_id = 0, pn_time = 5\<rparr>"] b
    by (auto simp: PACKET_ID_EPOCH_MAX_def)
qed

section \<open>A restored id\<close>

lemma reap_test_empty:
  assumes "window_wf p c" "x_size c = 0"
  shows "\<exists>l. packet_id_reap_test now p = Some (p\<lparr>last_reap := l\<rparr>) \<and> \<not> l + SEQ_REAP_INTERVAL \<le> now"
proof -
  have s: "seq_list p = Some c" using assms(1) by (simp add: window_wf_def)
  have l: "packet_id_reap_loop now tb c 0 False = Some c" for tb
    by (subst packet_id_reap_loop.simps) (simp add: assms(2))
  have keep: "p\<lparr>seq_list := Some c, last_reap := now\<rparr> = p\<lparr>last_reap := now\<rparr>" using s by simp
  show ?thesis
  proof (cases "last_reap p + SEQ_REAP_INTERVAL \<le> now")
    case True
    then have "packet_id_reap_test now p = Some (p\<lparr>last_reap := now\<rparr>)"
      using s l keep by (simp add: packet_id_reap_test_def packet_id_reap_def)
    then show ?thesis by (intro exI[of _ now]) (simp add: SEQ_REAP_INTERVAL_def)
  next
    case False
    then show ?thesis by (intro exI[of _ "last_reap p"]) (simp add: packet_id_reap_test_def)
  qed
qed

text \<open>The first id recorded in an empty window: every other slot of the window is free.\<close>

lemma packet_id_add_first:
  assumes wf: "window_wf p c" and empty: "x_size c = 0" and id: "0 < pn_id pin" "unat (pn_id pin) < 2 ^ 63"
    and now: "SEQ_EXPIRED < now"
  shows "\<exists>c'. packet_id_add now p pin = Some (p\<lparr>pr_time := pn_time pin, pr_id := pn_id pin, seq_list := Some c'\<rparr>)
    \<and> window_wf (p\<lparr>pr_time := pn_time pin, pr_id := pn_id pin, seq_list := Some c'\<rparr>) c'
    \<and> nat (x_size c') = min (unat (pn_id pin)) (unat (seq_backtrack p))
    \<and> (\<forall>i. 0 < i \<and> i < nat (x_size c') \<longrightarrow> circ_items c' ! i = 0)"
proof -
  let ?id = "pn_id pin" and ?w = "seq_backtrack p"
  let ?cur = "if ?id > ?w then ?id - ?w else 0"
  have c: "circ_wf c" "seq_list p = Some c" "0 < ?w" "uint ?w = x_cap c" "x_cap c \<le> MAX_SEQ_BACKTRACK"
    using wf by (simp_all add: window_wf_def)
  have wu: "nat (x_cap c) = unat ?w" using c(4) by (metis unat_eq_nat_uint)
  have le: "?cur \<le> ?id" using c(3) by (auto simp: word_sub_le)
  have uc: "unat ?id - unat ?cur = min (unat ?id) (unat ?w)"
    by (auto simp: word_less_nat_alt unat_sub_if' min_def)
  have r: "circ_wf (CIRC_LIST_RESET c)" "x_cap (CIRC_LIST_RESET c) = x_cap c" "circ_items (CIRC_LIST_RESET c) = []"
    using c(1) by (auto simp: CIRC_LIST_RESET_def circ_wf_def circ_items_def)
  obtain c2 where c2: "packet_id_push_to (CIRC_LIST_RESET c) ?cur ?id = Some (c2, ?id)" "circ_wf c2" "x_cap c2 = x_cap c"
    "circ_items c2 = take (nat (x_cap c)) (replicate (unat ?id - unat ?cur) 0)"
    using packet_id_push_to_items[OF r(1) le] r(2,3) by auto
  have it: "circ_items c2 = replicate (min (unat ?id) (unat ?w)) 0" using c2(4) uc wu by (simp add: min_def)
  have "length (circ_items c2) = nat (x_size c2)" by (simp add: circ_items_def)
  then have sz: "nat (x_size c2) = min (unat ?id) (unat ?w)" using it by simp
  have pos: "0 < nat (x_size c2)" using sz id(1) c(3) by (simp add: word_less_nat_alt)
  obtain c3 where c3: "CIRC_LIST_SET c2 (sint (ucast (?id - ?id) :: u32)) now = Some c3" "circ_wf c3" "x_cap c3 = x_cap c2"
    "x_size c3 = x_size c2" "circ_items c3 = (circ_items c2)[unat (?id - ?id) := now]" "sint (?id - ?id) < x_size c2"
    using circ_mark[OF c2(2), of "?id - ?id" now] c2(3) c(5) pos by auto
  let ?p = "p\<lparr>pr_time := pn_time pin, pr_id := ?id, seq_list := Some c3\<rparr>"
  have "packet_id_add now p pin = Some ?p"
    unfolding packet_id_add_def c(2) option.case Let_def using c2(1) c3(1,6) empty now by simp
  moreover have "window_wf ?p c3" using wf id(2) c3 c2(3) by (simp add: window_wf_def)
  moreover have "nat (x_size c3) = min (unat ?id) (unat ?w)" using sz c3(4) by simp
  moreover have "\<forall>i. 0 < i \<and> i < nat (x_size c3) \<longrightarrow> circ_items c3 ! i = 0" using c3(4,5) it sz by simp
  ultimately show ?thesis by (intro exI[of _ c3] conjI)
qed

definition demo_persist :: packet_id_persist where
  "demo_persist =
     \<lparr>pp_fd = 3, pp_time = 5, pp_id = 100, time_last_written = 5, id_last_written = 100\<rparr>"

text \<open>C22: the id that \<^verbatim>\<open>--replay-persist\<close> restores protects only until the first packet. With \<open>P\<close>
  restored, an id of the same time at or below \<open>P\<close> is rejected. But once an id above \<open>P\<close> has been
  accepted, the window has been restarted below it with free slots: the ids at or below \<open>P\<close> are
  then accepted exactly if they lie in that window, although the restored state had covered them.\<close>

theorem persisted_id_forgotten:
  assumes init: "packet_id_init w tb = Some pid" "0 < w"
    and pp: "packet_id_persist_enabled pp" "pp_time pp \<noteq> 0" "r0 = pid_rec (packet_id_persist_load_obj pp pid)"
    and fresh: "pn_time new = pp_time pp" "unat (pp_id pp) < unat (pn_id new)" "unat (pn_id new) < 2 ^ 63"
    and old: "pn_time old = pp_time pp" "0 < pn_id old" "unat (pn_id old) \<le> unat (pp_id pp)"
    and now: "SEQ_EXPIRED < now"
  shows "\<exists>r r1 r2. replay_recv now r0 old = Some (False, r) \<and> replay_recv now r0 new = Some (True, r1)
    \<and> replay_recv now r1 old = Some (int (unat (pn_id new)) < int (unat (pn_id old)) + w, r2)"
proof -
  have w: "w \<le> 65536" using init by (auto simp: packet_id_init_def packet_id_init_recv_def MAX_SEQ_BACKTRACK_def split: if_splits)
  have u: "uint (of_int w :: u64) = w" using w init(2) by (simp add: uint_word_of_int)
  then have wp: "0 < (of_int w :: u64)" using init(2) by (simp add: word_less_def)
  let ?c = "CIRC_LIST_ALLOC w"
  have r0: "seq_list r0 = Some ?c" "seq_backtrack r0 = of_int w" "initialized r0" "pr_time r0 = pp_time pp"
    "pr_id r0 = ucast (pp_id pp)"
    using init pp by (auto simp: packet_id_init_def packet_id_init_recv_def clear_rec_def packet_id_persist_load_obj_def split: if_splits)
  have idP: "unat (pr_id r0) = unat (pp_id pp)" using unat_bound[of "pp_id pp"] by (simp add: r0(5) unsigned_ucast_eq take_bit_nat_eq_self)
  have c0: "x_size ?c = 0" by (simp add: CIRC_LIST_ALLOC_def)
  have wf0: "window_wf r0 ?c"
    using r0 wp u w circ_alloc_wf[OF init(2)] idP unat_bound[of "pp_id pp"]
    by (auto simp: window_wf_def CIRC_LIST_ALLOC_def MAX_SEQ_BACKTRACK_def)
  obtain l where l: "packet_id_reap_test now r0 = Some (r0\<lparr>last_reap := l\<rparr>)" "\<not> l + SEQ_REAP_INTERVAL \<le> now"
    using reap_test_empty[OF wf0 c0] by blast
  have wf1: "window_wf (r0\<lparr>last_reap := l\<rparr>) ?c" using wf0 by (simp add: window_wf_def)
  have small: "unat (pn_id old) < 2 ^ 63" using old(3) fresh(2,3) by simp
  obtain p where t0: "packet_id_test (r0\<lparr>last_reap := l\<rparr>) old = Some (False, p)"
    using packet_id_test_window[OF wf1 small] old r0(4) idP c0 by (auto simp: word_less_nat_alt)
  have nz: "0 < pn_id new" using fresh(2) by (simp add: word_less_nat_alt)
  obtain m where t1: "packet_id_test (r0\<lparr>last_reap := l\<rparr>) new = Some (True, r0\<lparr>last_reap := l, max_backtrack_stat := m\<rparr>)"
  proof -
    have "pn_id new \<noteq> 0" using nz by simp
    then show thesis
      using packet_id_test_window[OF wf1 fresh(3)] fresh r0(4) idP that by (auto simp: word_less_nat_alt)
  qed
  let ?p2 = "r0\<lparr>last_reap := l, max_backtrack_stat := m\<rparr>"
  have wf2: "window_wf ?p2 ?c" using wf0 by (simp add: window_wf_def)
  obtain c1 where c1: "packet_id_add now ?p2 new = Some (?p2\<lparr>pr_time := pn_time new, pr_id := pn_id new, seq_list := Some c1\<rparr>)"
    "window_wf (?p2\<lparr>pr_time := pn_time new, pr_id := pn_id new, seq_list := Some c1\<rparr>) c1"
    "nat (x_size c1) = min (unat (pn_id new)) (unat (seq_backtrack ?p2))"
    "\<forall>i. 0 < i \<and> i < nat (x_size c1) \<longrightarrow> circ_items c1 ! i = 0"
    using packet_id_add_first[OF wf2 c0 nz fresh(3) now] by blast
  define r1 where "r1 = ?p2\<lparr>pr_time := pn_time new, pr_id := pn_id new, seq_list := Some c1\<rparr>"
  have a: "replay_recv now r0 old = Some (False, p)" using l(1) t0 by (simp add: replay_recv_def)
  have b: "replay_recv now r0 new = Some (True, r1)" using l(1) t1 c1(1) by (simp add: replay_recv_def r1_def)
  have rt: "packet_id_reap_test now r1 = Some r1" using l(2) by (simp add: packet_id_reap_test_def r1_def)
  have sb: "seq_backtrack ?p2 = of_int w" using r0(2) by simp
  have sw: "unat (seq_backtrack ?p2) = nat w" unfolding sb using u by (simp only: unat_eq_nat_uint)
  obtain ok q where t2: "packet_id_test r1 old = Some (ok, q)"
    "ok \<longleftrightarrow> unat (pn_id new) - unat (pn_id old) < nat (x_size c1) \<and> circ_items c1 ! (unat (pn_id new) - unat (pn_id old)) = 0"
  proof -
    have f: "pn_id old \<noteq> 0" "pr_time r1 = pn_time old" "pr_id r1 = pn_id new" "\<not> pr_id r1 < pn_id old"
      using old fresh by (auto simp: word_less_nat_alt r1_def)
    show thesis
      using packet_id_test_window[OF c1(2)[folded r1_def] small] f that by auto
  qed
  have d: "0 < unat (pn_id new) - unat (pn_id old)" "unat (pn_id new) - unat (pn_id old) < unat (pn_id new)"
    using old(2,3) fresh(2) by (auto simp: word_less_nat_alt)
  have ok: "ok \<longleftrightarrow> int (unat (pn_id new)) < int (unat (pn_id old)) + w"
  proof -
    have sz: "nat (x_size c1) = min (unat (pn_id new)) (nat w)" using c1(3) sw by simp
    have "ok \<longleftrightarrow> unat (pn_id new) - unat (pn_id old) < nat (x_size c1)" using t2(2) c1(4) d(1) by blast
    also have "\<dots> \<longleftrightarrow> unat (pn_id new) - unat (pn_id old) < nat w" unfolding sz using d(2) by linarith
    also have "\<dots> \<longleftrightarrow> int (unat (pn_id new)) < int (unat (pn_id old)) + w" using d(1) init(2) by linarith
    finally show ?thesis .
  qed
  have inv: "window_inv {} r1" using c1(2) by (auto simp: window_inv_def r1_def)
  show ?thesis
  proof (cases ok)
    case True
    obtain k where q: "q = r1\<lparr>max_backtrack_stat := k\<rparr>"
      using packet_id_test_window[OF c1(2)[folded r1_def] small] t2(1) by auto
    have wq: "window_wf q c1" "window_inv {} q" using c1(2)[folded r1_def] inv by (simp_all add: q window_wf_stat window_inv_stat)
    have same: "pr_time q = pr_time r1" "pr_id q = pr_id r1" by (simp_all add: q)
    obtain p0 where "packet_id_test q old = Some (True, p0)"
      using packet_id_test_window[OF wq(1) small] packet_id_test_window[OF c1(2)[folded r1_def] small] t2(1) True same by auto
    then obtain r2 where "packet_id_add now q old = Some r2"
      using packet_id_add_window[OF wq(2) now small] by blast
    then show ?thesis using a b rt t2(1) ok True by (auto simp: replay_recv_def)
  next
    case False
    then show ?thesis using a b rt t2(1) ok by (auto simp: replay_recv_def)
  qed
qed

theorem persisted_id_forgotten_witness:
  "\<exists>r r1 r2. replay_recv 1000 (pid_rec (packet_id_persist_load_obj demo_persist (the (packet_id_init 4 15)))) \<lparr>pn_id = 99, pn_time = 5\<rparr>
         = Some (False, r)
     \<and> replay_recv 1000 (pid_rec (packet_id_persist_load_obj demo_persist (the (packet_id_init 4 15)))) \<lparr>pn_id = 101, pn_time = 5\<rparr>
         = Some (True, r1)
     \<and> replay_recv 1000 r1 \<lparr>pn_id = 99, pn_time = 5\<rparr> = Some (True, r2)"
proof -
  have i: "packet_id_init 4 15 = Some (the (packet_id_init 4 15))"
    by (simp add: packet_id_init_def packet_id_init_recv_def MAX_SEQ_BACKTRACK_def MAX_TIME_BACKTRACK_def)
  have p: "packet_id_persist_enabled demo_persist" "pp_time demo_persist \<noteq> 0" "pp_time demo_persist = 5" "pp_id demo_persist = 100"
    by (simp_all add: demo_persist_def packet_id_persist_enabled_def)
  show ?thesis
    using persisted_id_forgotten[OF i _ p(1,2) refl, of "\<lparr>pn_id = 101, pn_time = 5\<rparr>" "\<lparr>pn_id = 99, pn_time = 5\<rparr>" 1000] p(3,4)
    by (simp add: SEQ_EXPIRED_def)
qed

end
