(* ===== verification/Session_Id.thy ===== *)
theory Session_Id
  imports Buf
begin

text \<open>
  The 8-byte session ids of \<^verbatim>\<open>session_id.h\<close> that name the two ends of a control channel.
\<close>

type_synonym session_id = "byte list"

definition SID_SIZE :: nat where "SID_SIZE = 8"

definition x_session_id_zero :: session_id where
  "x_session_id_zero = replicate 8 0"

definition session_id_equal :: "session_id \<Rightarrow> session_id \<Rightarrow> bool" where
  "session_id_equal sid1 sid2 \<longleftrightarrow> sid1 = sid2"

definition session_id_defined :: "session_id \<Rightarrow> bool" where
  "session_id_defined sid \<longleftrightarrow> sid \<noteq> x_session_id_zero"

definition session_id_read :: "session_id \<Rightarrow> buffer \<Rightarrow> (bool \<times> session_id) \<times> buffer" where
  "session_id_read sid b =
     (case buf_read b (int SID_SIZE) of
        (None, b') \<Rightarrow> ((False, sid), b')
      | (Some s, b') \<Rightarrow> ((True, s), b'))"

definition session_id_write_prepend :: "session_id \<Rightarrow> buffer \<Rightarrow> bool \<times> buffer" where
  "session_id_write_prepend sid b = buf_write_prepend b sid"

definition session_id_write :: "session_id \<Rightarrow> buffer \<Rightarrow> bool \<times> buffer" where
  "session_id_write sid b = buf_write b sid"

text \<open>The random bytes are the argument.\<close>

definition session_id_random :: "byte list \<Rightarrow> session_id" where
  "session_id_random prng = take SID_SIZE prng"

lemma session_id_read_ok:
  assumes "buf_wf b" "content b = sid @ rest" "length sid = SID_SIZE"
  obtains b' where "session_id_read s0 b = ((True, sid), b')" "buf_wf b'" "content b' = rest"
proof -
  have len: "int SID_SIZE \<le> bf_len b"
    using assms bf_len_content [of b] by simp
  then have "buf_defined b"
    using assms(1) by (auto simp: buf_wf_def buf_defined_def SID_SIZE_def split: option.splits)
  then obtain b' where "buf_read b (int SID_SIZE) = (Some (take (nat (int SID_SIZE)) (content b)), b')"
    "buf_wf b'" "content b' = drop (nat (int SID_SIZE)) (content b)"
    using buf_read_ok [OF assms(1) _ _ len] by auto
  with assms show thesis
    by (intro that) (auto simp: session_id_read_def)
qed

end
