(* ===== verification/Reliable.thy ===== *)
theory Reliable
  imports Packet_Id Session_Id
begin

text \<open>
  The reliability layer of the control channel, \<^verbatim>\<open>reliable.h\<close> and \<^verbatim>\<open>reliable.c\<close>, with the
  part of \<^verbatim>\<open>tls_pre_decrypt\<close> that feeds it. A \<^verbatim>\<open>struct reliable_ack\<close> is the list of its
  live ids (\<^verbatim>\<open>len\<close> is the length). A \<^verbatim>\<open>struct reliable\<close> keeps its \<^verbatim>\<open>size\<close> live entries in
  \<open>rl_array\<close>, so \<^verbatim>\<open>rel->size\<close> is its length; a \<^verbatim>\<open>struct buffer *\<close> into it is the index of
  its entry. Packet ids are 32-bit words and wrap. \<open>None\<close> is a failed \<^verbatim>\<open>ASSERT\<close>.
\<close>

section \<open>State\<close>

definition RELIABLE_ACK_SIZE :: nat where "RELIABLE_ACK_SIZE = 8"
definition RELIABLE_CAPACITY :: nat where "RELIABLE_CAPACITY = 12"
definition N_ACK_RETRANSMIT :: nat where "N_ACK_RETRANSMIT = 3"
definition BIG_TIMEOUT :: int where "BIG_TIMEOUT = 604800"

type_synonym reliable_ack = "u32 list"

record reliable_entry =
  active :: bool
  timeout :: int
  next_try :: int
  packet_id :: u32
  n_acks :: nat
  opcode :: int
  e_buf :: buffer

record reliable =
  initial_timeout :: int
  rl_packet_id :: u32
  rl_offset :: int
  hold :: bool
  rl_array :: "reliable_entry list"

section \<open>Packet id arithmetic\<close>

definition subtract_pid :: "u32 \<Rightarrow> u32 \<Rightarrow> u32" where
  "subtract_pid tst base = tst - base"

definition reliable_pid_in_range1 :: "u32 \<Rightarrow> u32 \<Rightarrow> u32 \<Rightarrow> bool" where
  "reliable_pid_in_range1 tst base extent \<longleftrightarrow> subtract_pid tst base < extent"

definition reliable_pid_in_range2 :: "u32 \<Rightarrow> u32 \<Rightarrow> u32 \<Rightarrow> bool" where
  "reliable_pid_in_range2 tst base extent =
     (if base + extent \<ge> base then (if tst < base + extent then True else False)
      else if tst + 0x80000000 < (base + 0x80000000) + extent then True else False)"

definition reliable_pid_min :: "u32 \<Rightarrow> u32 \<Rightarrow> bool" where
  "reliable_pid_min p1 p2 \<longleftrightarrow> \<not> reliable_pid_in_range1 p1 p2 0x80000000"

section \<open>Acknowledgements\<close>

definition reliable_ack_packet_id_present :: "reliable_ack \<Rightarrow> u32 \<Rightarrow> bool" where
  "reliable_ack_packet_id_present ack pid \<longleftrightarrow> list_ex (\<lambda>p. p = pid) ack"

definition reliable_ack_read_packet_id :: "buffer \<Rightarrow> u32 option \<times> buffer" where
  "reliable_ack_read_packet_id b =
     (case buf_read b 4 of
        (None, b') \<Rightarrow> (None, b')
      | (Some net_pid, b') \<Rightarrow> (Some (dec32 net_pid), b'))"

definition reliable_ack_acknowledge_packet_id :: "reliable_ack \<Rightarrow> u32 \<Rightarrow> bool \<times> reliable_ack" where
  "reliable_ack_acknowledge_packet_id ack pid =
     (if \<not> reliable_ack_packet_id_present ack pid \<and> length ack < RELIABLE_ACK_SIZE
      then (True, ack @ [pid]) else (False, ack))"

text \<open>The loop of \<^verbatim>\<open>reliable_ack_parse\<close>: \<open>k\<close> ids are still to be read.\<close>

fun reliable_ack_parse_ids :: "nat \<Rightarrow> buffer \<Rightarrow> reliable_ack \<Rightarrow> (bool \<times> reliable_ack) \<times> buffer" where
  "reliable_ack_parse_ids 0 b ack = ((True, ack), b)"
| "reliable_ack_parse_ids (Suc k) b ack =
     (case buf_read b 4 of
        (None, b') \<Rightarrow> ((False, ack), b')
      | (Some net_pid, b') \<Rightarrow>
          if length ack \<ge> RELIABLE_ACK_SIZE then ((False, ack), b')
          else reliable_ack_parse_ids k b' (ack @ [dec32 net_pid]))"

definition reliable_ack_parse ::
  "buffer \<Rightarrow> session_id \<Rightarrow> (bool \<times> reliable_ack \<times> session_id) \<times> buffer" where
  "reliable_ack_parse b sid0 =
     (case buf_read b 1 of
        (None, b1) \<Rightarrow> ((False, [], sid0), b1)
      | (Some c, b1) \<Rightarrow>
          let count = unat (hd c) in
          (case reliable_ack_parse_ids count b1 [] of
             ((False, ack), b2) \<Rightarrow> ((False, ack, sid0), b2)
           | ((True, ack), b2) \<Rightarrow>
               if count \<noteq> 0
               then (case session_id_read sid0 b2 of
                       ((ok, sid), b3) \<Rightarrow> ((ok, ack, sid), b3))
               else ((True, ack, sid0), b2)))"

definition reliable_ack_read ::
  "buffer \<Rightarrow> session_id \<Rightarrow> session_id \<Rightarrow> (bool \<times> reliable_ack) \<times> buffer" where
  "reliable_ack_read b sid sid0 =
     (case reliable_ack_parse b sid0 of
        ((False, ack, remote), b') \<Rightarrow> ((False, ack), b')
      | ((True, ack, remote), b') \<Rightarrow>
          if length ack \<ge> 1 \<and> (\<not> session_id_defined remote \<or> \<not> session_id_equal remote sid)
          then ((False, ack), b') else ((True, ack), b'))"







section \<open>The packet store\<close>

definition clear_entry :: reliable_entry where
  "clear_entry = \<lparr>active = False, timeout = 0, next_try = 0, packet_id = 0, n_acks = 0,
                  opcode = 0, e_buf = clear_buf\<rparr>"

definition reliable_init :: "int \<Rightarrow> int \<Rightarrow> int \<Rightarrow> bool \<Rightarrow> reliable option" where
  "reliable_init buf_size offset array_size hld =
     (if \<not> (array_size > 0 \<and> array_size \<le> int RELIABLE_CAPACITY) then None
      else case alloc_buf buf_size of
             None \<Rightarrow> None
           | Some b \<Rightarrow>
               (case buf_init b offset of
                  (False, _) \<Rightarrow> None
                | (True, b') \<Rightarrow>
                    Some \<lparr>initial_timeout = 0, rl_packet_id = 0, rl_offset = offset, hold = hld,
                          rl_array = replicate (nat array_size) (clear_entry\<lparr>e_buf := b'\<rparr>)\<rparr>))"

definition reliable_set_timeout :: "reliable \<Rightarrow> int \<Rightarrow> reliable" where
  "reliable_set_timeout rel t = rel\<lparr>initial_timeout := t\<rparr>"

definition reliable_empty :: "reliable \<Rightarrow> bool" where
  "reliable_empty rel \<longleftrightarrow> \<not> list_ex active (rl_array rel)"

text \<open>One acknowledged id against one entry, the inner loop body of \<^verbatim>\<open>reliable_send_purge\<close>.\<close>

definition purge_entry :: "u32 \<Rightarrow> reliable_entry \<Rightarrow> reliable_entry" where
  "purge_entry pid e =
     (if active e \<and> packet_id e = pid then e\<lparr>active := False\<rparr>
      else if active e \<and> packet_id e < pid then e\<lparr>n_acks := n_acks e + 1\<rparr>
      else e)"

definition reliable_send_purge :: "reliable \<Rightarrow> reliable_ack \<Rightarrow> reliable" where
  "reliable_send_purge rel ack =
     fold (\<lambda>pid r. r\<lparr>rl_array := map (purge_entry pid) (rl_array r)\<rparr>) ack rel"

definition reliable_can_get :: "reliable \<Rightarrow> bool" where
  "reliable_can_get rel \<longleftrightarrow> list_ex (\<lambda>e. \<not> active e) (rl_array rel)"

definition reliable_not_replay :: "reliable \<Rightarrow> u32 \<Rightarrow> bool" where
  "reliable_not_replay rel i =
     (if reliable_pid_min i (rl_packet_id rel) then False
      else \<not> list_ex (\<lambda>e. active e \<and> packet_id e = i) (rl_array rel))"

definition reliable_wont_break_sequentiality :: "reliable \<Rightarrow> u32 \<Rightarrow> bool" where
  "reliable_wont_break_sequentiality rel i \<longleftrightarrow>
     reliable_pid_in_range2 i (rl_packet_id rel) (of_nat (length (rl_array rel)))"

text \<open>The index of the first entry that satisfies a test, the shape of the search loops.\<close>

fun find_index :: "('a \<Rightarrow> bool) \<Rightarrow> 'a list \<Rightarrow> nat option" where
  "find_index P [] = None"
| "find_index P (x # xs) = (if P x then Some 0 else map_option Suc (find_index P xs))"

definition upd_entry :: "reliable \<Rightarrow> nat \<Rightarrow> (reliable_entry \<Rightarrow> reliable_entry) \<Rightarrow> reliable" where
  "upd_entry rel i f = rel\<lparr>rl_array := (rl_array rel)[i := f (rl_array rel ! i)]\<rparr>"

definition reliable_get_buf :: "reliable \<Rightarrow> (nat option \<times> reliable) option" where
  "reliable_get_buf rel =
     (case find_index (\<lambda>e. \<not> active e) (rl_array rel) of
        None \<Rightarrow> Some (None, rel)
      | Some i \<Rightarrow>
          (case buf_init (e_buf (rl_array rel ! i)) (rl_offset rel) of
             (False, _) \<Rightarrow> None
           | (True, b) \<Rightarrow> Some (Some i, upd_entry rel i (\<lambda>e. e\<lparr>e_buf := b\<rparr>))))"

text \<open>The loop that finds the least active packet id; \<open>None\<close> is \<^verbatim>\<open>min_id_defined == false\<close>.\<close>

definition min_id_step :: "reliable_entry \<Rightarrow> u32 option \<Rightarrow> u32 option" where
  "min_id_step e min_id =
     (if active e
      then (case min_id of
              None \<Rightarrow> Some (packet_id e)
            | Some m \<Rightarrow> if reliable_pid_min (packet_id e) m then Some (packet_id e) else Some m)
      else min_id)"

definition reliable_min_id :: "reliable \<Rightarrow> u32 option" where
  "reliable_min_id rel = fold min_id_step (rl_array rel) None"

text \<open>\<^verbatim>\<open>ret -= subtract_pid(...)\<close> is unsigned arithmetic, converted back to \<^verbatim>\<open>int\<close>.\<close>

definition reliable_get_num_output_sequenced_available :: "reliable \<Rightarrow> int" where
  "reliable_get_num_output_sequenced_available rel =
     (let ret = int (length (rl_array rel)) in
      case reliable_min_id rel of
        None \<Rightarrow> ret
      | Some m \<Rightarrow> sint ((of_int ret :: u32) - subtract_pid (rl_packet_id rel) m))"

definition reliable_get_buf_output_sequenced :: "reliable \<Rightarrow> (nat option \<times> reliable) option" where
  "reliable_get_buf_output_sequenced rel =
     (if (case reliable_min_id rel of
            None \<Rightarrow> True
          | Some m \<Rightarrow> reliable_pid_in_range1 (rl_packet_id rel) m (of_nat (length (rl_array rel))))
      then reliable_get_buf rel else Some (None, rel))"

definition reliable_get_entry_sequenced :: "reliable \<Rightarrow> nat option" where
  "reliable_get_entry_sequenced rel =
     find_index (\<lambda>e. active e \<and> packet_id e = rl_packet_id rel) (rl_array rel)"

definition entry_due :: "int \<Rightarrow> reliable_entry \<Rightarrow> bool" where
  "entry_due now e \<longleftrightarrow> active e \<and> (now \<ge> next_try e \<or> n_acks e \<ge> N_ACK_RETRANSMIT)"

definition reliable_can_send :: "int \<Rightarrow> reliable \<Rightarrow> bool" where
  "reliable_can_send now rel \<longleftrightarrow>
     length (filter (entry_due now) (rl_array rel)) > 0 \<and> \<not> hold rel"

text \<open>The search loop of \<^verbatim>\<open>reliable_send\<close>: the index of \<open>best\<close>.\<close>

definition send_best_step :: "int \<Rightarrow> reliable_entry list \<Rightarrow> nat \<Rightarrow> nat option \<Rightarrow> nat option" where
  "send_best_step now es i best =
     (if entry_due now (es ! i)
      then (case best of
              None \<Rightarrow> Some i
            | Some j \<Rightarrow> if reliable_pid_min (packet_id (es ! i)) (packet_id (es ! j))
                        then Some i else Some j)
      else best)"

text \<open>
  \<^verbatim>\<open>best->timeout *= 2\<close> on an \<^verbatim>\<open>int\<close>. C leaves the overflow undefined; here it wraps, as compiled
  code does.
\<close>

definition double_timeout :: "int \<Rightarrow> int" where
  "double_timeout t = to_int32 (t * 2)"

definition reliable_send :: "int \<Rightarrow> reliable \<Rightarrow> (nat \<times> int) option \<times> reliable" where
  "reliable_send now rel =
     (case fold (send_best_step now (rl_array rel)) [0..<length (rl_array rel)] None of
        None \<Rightarrow> (None, rel)
      | Some i \<Rightarrow>
          (Some (i, opcode (rl_array rel ! i)),
           upd_entry rel i (\<lambda>e. e\<lparr>next_try := now + timeout e, timeout := double_timeout (timeout e), n_acks := 0\<rparr>)))"

definition reliable_schedule_now :: "int \<Rightarrow> reliable \<Rightarrow> reliable" where
  "reliable_schedule_now now rel =
     rel\<lparr>hold := False,
         rl_array := map (\<lambda>e. if active e then e\<lparr>next_try := now, timeout := initial_timeout rel\<rparr> else e)
                         (rl_array rel)\<rparr>"

fun send_timeout_loop :: "int \<Rightarrow> int \<Rightarrow> reliable_entry list \<Rightarrow> int" where
  "send_timeout_loop now ret [] = ret"
| "send_timeout_loop now ret (e # es) =
     (if active e
      then (if next_try e \<le> now then 0
            else send_timeout_loop now (min_int ret (to_int32 (next_try e - now))) es)
      else send_timeout_loop now ret es)"

definition reliable_send_timeout :: "int \<Rightarrow> reliable \<Rightarrow> int" where
  "reliable_send_timeout now rel = send_timeout_loop now BIG_TIMEOUT (rl_array rel)"

definition reliable_mark_active_incoming :: "reliable \<Rightarrow> nat \<Rightarrow> u32 \<Rightarrow> int \<Rightarrow> reliable option" where
  "reliable_mark_active_incoming rel i pid op =
     (if i \<ge> length (rl_array rel) then None
      else if reliable_pid_min pid (rl_packet_id rel) then None
      else Some (upd_entry rel i
             (\<lambda>e. e\<lparr>active := True, packet_id := pid, opcode := op, next_try := 0, timeout := 0, n_acks := 0\<rparr>)))"

definition reliable_mark_active_outgoing :: "reliable \<Rightarrow> nat \<Rightarrow> int \<Rightarrow> reliable option" where
  "reliable_mark_active_outgoing rel i op =
     (if i \<ge> length (rl_array rel) then None
      else
        let pid = rl_packet_id rel in
        (case buf_write_prepend (e_buf (rl_array rel ! i)) (enc32 pid) of
           (False, _) \<Rightarrow> None
         | (True, b) \<Rightarrow>
             Some (upd_entry (rel\<lparr>rl_packet_id := pid + 1\<rparr>) i
               (\<lambda>e. e\<lparr>packet_id := pid, e_buf := b, active := True, opcode := op, next_try := 0,
                      timeout := initial_timeout rel\<rparr>))))"

definition reliable_mark_deleted :: "reliable \<Rightarrow> nat \<Rightarrow> reliable option" where
  "reliable_mark_deleted rel i =
     (if i \<ge> length (rl_array rel) then None
      else Some ((upd_entry rel i (\<lambda>e. e\<lparr>active := False\<rparr>))
                   \<lparr>rl_packet_id := packet_id (rl_array rel ! i) + 1\<rparr>))"

text \<open>
  The end of \<^verbatim>\<open>tls_pre_decrypt\<close>: a control packet other than a pure ACK goes into the
  receive store and is acknowledged, a replay included. The result is whether the packet
  was stored, the store and the pending acknowledgements; the packet too big for the
  buffer takes the \<^verbatim>\<open>goto error\<close>, before it is marked or acknowledged.
\<close>

definition P_ACK_V1 :: int where "P_ACK_V1 = 5"

definition tls_rx_store ::
  "reliable \<Rightarrow> reliable_ack \<Rightarrow> buffer \<Rightarrow> int \<Rightarrow> (bool \<times> reliable \<times> reliable_ack) option" where
  "tls_rx_store rel rec_ack b op =
     (if op = P_ACK_V1 \<or> \<not> reliable_can_get rel then Some (False, rel, rec_ack)
      else
        (case reliable_ack_read_packet_id b of
           (None, _) \<Rightarrow> Some (False, rel, rec_ack)
         | (Some i, b') \<Rightarrow>
             if \<not> reliable_wont_break_sequentiality rel i then Some (False, rel, rec_ack)
             else if \<not> reliable_not_replay rel i
             then Some (False, rel, snd (reliable_ack_acknowledge_packet_id rec_ack i))
             else
               (case reliable_get_buf rel of
                  None \<Rightarrow> None
                | Some (None, _) \<Rightarrow> None
                | Some (Some k, rel1) \<Rightarrow>
                    (case buf_copy (e_buf (rl_array rel1 ! k)) b' of
                       (False, _) \<Rightarrow> Some (False, rel1, rec_ack)
                     | (True, inb) \<Rightarrow>
                         (case reliable_mark_active_incoming
                                 (upd_entry rel1 k (\<lambda>e. e\<lparr>e_buf := inb\<rparr>)) k i op of
                            None \<Rightarrow> None
                          | Some rel2 \<Rightarrow>
                              Some (True, rel2,
                                snd (reliable_ack_acknowledge_packet_id rec_ack i)))))))"

section \<open>Packet id arithmetic without wrap-around\<close>

lemma subtract_pid_unat: "b \<le> a \<Longrightarrow> unat (subtract_pid a b) = unat a - unat b"
  by (simp add: subtract_pid_def unat_sub)

lemma pid_min_nowrap:
  assumes "unat a < 2 ^ 31" "unat b < 2 ^ 31"
  shows "reliable_pid_min a b \<longleftrightarrow> unat a < unat b"
proof (cases "b \<le> a")
  case True
  then have "unat (a - b) = unat a - unat b" "unat b \<le> unat a"
    by (simp_all add: unat_sub word_le_nat_alt)
  moreover have "(a - b < 0x80000000) \<longleftrightarrow> unat (a - b) < 2 ^ 31"
    by (simp add: word_less_nat_alt)
  ultimately show ?thesis
    using assms by (simp add: reliable_pid_min_def reliable_pid_in_range1_def subtract_pid_def)
next
  case False
  then have "unat a < unat b"
    by (simp add: word_le_nat_alt)
  then have "unat (a - b) = 2 ^ 32 + unat a - unat b"
    using unat_bound [of b] by (simp add: unat_sub_if')
  moreover have "(a - b < 0x80000000) \<longleftrightarrow> unat (a - b) < 2 ^ 31"
    by (simp add: word_less_nat_alt)
  ultimately show ?thesis
    using assms \<open>unat a < unat b\<close>
    by (simp add: reliable_pid_min_def reliable_pid_in_range1_def subtract_pid_def)
qed

lemma in_range2_nowrap:
  assumes "unat base + n < 2 ^ 32"
  shows "reliable_pid_in_range2 i base (of_nat n) \<longleftrightarrow> unat i < unat base + n"
proof -
  have n: "unat (of_nat n :: u32) = n"
    using assms by (simp add: unat_of_nat)
  have s: "unat (base + of_nat n) = unat base + n"
    using assms n by (simp add: unat_word_ariths)
  have "base \<le> base + of_nat n"
    using s by (simp add: word_le_nat_alt)
  with s show ?thesis
    by (simp add: reliable_pid_in_range2_def word_less_nat_alt)
qed

lemma unat_Suc32: "unat (x :: u32) + 1 < 2 ^ 32 \<Longrightarrow> unat (x + 1) = unat x + 1"
  by (simp add: unat_plus_if')

lemma find_index_Some:
  "find_index P xs = Some i \<Longrightarrow> i < length xs \<and> P (xs ! i)"
  by (induction xs arbitrary: i) (auto split: if_splits)

lemma find_index_None [simp]: "find_index P xs = None \<longleftrightarrow> \<not> list_ex P xs"
  by (induction xs) auto

section \<open>The receive store\<close>

definition entry_wf :: "int \<Rightarrow> int \<Rightarrow> reliable_entry \<Rightarrow> bool" where
  "entry_wf cap off e \<longleftrightarrow>
     buf_wf (e_buf e) \<and> buf_defined (e_buf e) \<and> bf_cap (e_buf e) = cap \<and> 0 \<le> off \<and> off \<le> cap"

definition store_wf :: "int \<Rightarrow> reliable \<Rightarrow> bool" where
  "store_wf cap rel \<longleftrightarrow>
     0 < length (rl_array rel) \<and> length (rl_array rel) \<le> RELIABLE_CAPACITY
     \<and> (\<forall>i < length (rl_array rel). entry_wf cap (rl_offset rel) (rl_array rel ! i))
     \<and> (\<forall>i < length (rl_array rel). \<forall>j < length (rl_array rel).
          active (rl_array rel ! i) \<longrightarrow> active (rl_array rel ! j)
          \<longrightarrow> packet_id (rl_array rel ! i) = packet_id (rl_array rel ! j) \<longrightarrow> i = j)"

definition rx_inv :: "int \<Rightarrow> (u32 \<Rightarrow> byte list) \<Rightarrow> reliable \<Rightarrow> bool" where
  "rx_inv cap A rel \<longleftrightarrow> store_wf cap rel
     \<and> (\<forall>i < length (rl_array rel). active (rl_array rel ! i) \<longrightarrow>
          unat (rl_packet_id rel) \<le> unat (packet_id (rl_array rel ! i))
          \<and> unat (packet_id (rl_array rel ! i)) < unat (rl_packet_id rel) + length (rl_array rel)
          \<and> content (e_buf (rl_array rel ! i)) = A (packet_id (rl_array rel ! i)))"

lemma nth_upd_entry [simp]:
  "rl_array (upd_entry rel k f) = (rl_array rel)[k := f (rl_array rel ! k)]"
  "rl_packet_id (upd_entry rel k f) = rl_packet_id rel"
  "rl_offset (upd_entry rel k f) = rl_offset rel"
  "initial_timeout (upd_entry rel k f) = initial_timeout rel"
  "hold (upd_entry rel k f) = hold rel"
  by (simp_all add: upd_entry_def)

lemma upd_entry_twice [simp]: "upd_entry (upd_entry rel k f) k g = upd_entry rel k (\<lambda>e. g (f e))"
  by (cases "k < length (rl_array rel)") (simp_all add: upd_entry_def not_less list_update_beyond)

lemma reliable_init_inv:
  assumes "reliable_init sz off n hld = Some rel"
  shows "rx_inv sz A rel" "rl_packet_id rel = 0" "int (length (rl_array rel)) = n"
proof -
  obtain b b' where "alloc_buf sz = Some b" "buf_init b off = (True, b')"
    and rel: "rel = \<lparr>initial_timeout = 0, rl_packet_id = 0, rl_offset = off, hold = hld,
                rl_array = replicate (nat n) (clear_entry\<lparr>e_buf := b'\<rparr>)\<rparr>"
    and n: "0 < n" "n \<le> int RELIABLE_CAPACITY"
    using assms by (auto simp: reliable_init_def split: if_splits option.splits prod.splits bool.splits)
  then have "buf_wf b'" "buf_defined b'" "0 \<le> off" "off \<le> bf_cap b'" "bf_cap b' = sz"
    using alloc_buf_wf [of sz b] buf_init_wf [of b off True b']
    by (auto simp: buf_init_def split: if_splits)
  with n show "rx_inv sz A rel" "rl_packet_id rel = 0" "int (length (rl_array rel)) = n"
    by (auto simp: rel rx_inv_def store_wf_def entry_wf_def clear_entry_def)
qed

lemma reliable_get_buf_some:
  assumes "store_wf cap rel" "reliable_can_get rel"
  obtains k b where "reliable_get_buf rel = Some (Some k, upd_entry rel k (\<lambda>e. e\<lparr>e_buf := b\<rparr>))"
    "k < length (rl_array rel)" "\<not> active (rl_array rel ! k)"
    "buf_wf b" "buf_defined b" "content b = []" "bf_off b = rl_offset rel"
    "bf_cap b = cap"
proof -
  obtain k where f: "find_index (\<lambda>e. \<not> active e) (rl_array rel) = Some k"
    using assms(2) by (cases "find_index (\<lambda>e. \<not> active e) (rl_array rel)") (auto simp: reliable_can_get_def)
  then have k: "k < length (rl_array rel)" "\<not> active (rl_array rel ! k)"
    using find_index_Some by fastforce+
  then have e: "entry_wf cap (rl_offset rel) (rl_array rel ! k)"
    using assms(1) by (simp add: store_wf_def)
  obtain ok b where b: "buf_init (e_buf (rl_array rel ! k)) (rl_offset rel) = (ok, b)"
    by fastforce
  have ok
    using b e by (auto simp: buf_init_def entry_wf_def buf_defined_def split: if_splits)
  then show thesis
    using b e k f buf_init_wf [of "e_buf (rl_array rel ! k)" "rl_offset rel" ok b]
    by (intro that [of k b]) (auto simp: reliable_get_buf_def entry_wf_def)
qed

definition stored :: "reliable \<Rightarrow> u32 \<Rightarrow> bool" where
  "stored rel i \<longleftrightarrow> list_ex (\<lambda>e. active e \<and> packet_id e = i) (rl_array rel)"

lemma stored_nth:
  "stored rel i \<longleftrightarrow> (\<exists>k < length (rl_array rel). active (rl_array rel ! k) \<and> packet_id (rl_array rel ! k) = i)"
  by (auto simp: stored_def list_ex_length)

lemma upd_inactive_stored:
  assumes "k < length (rl_array rel)" "\<not> active (rl_array rel ! k)"
  shows "active (f (rl_array rel ! k)) \<Longrightarrow> packet_id (f (rl_array rel ! k)) = i \<Longrightarrow>
      stored (upd_entry rel k f) j \<longleftrightarrow> stored rel j \<or> j = i"
    and "\<not> active (f (rl_array rel ! k)) \<Longrightarrow> stored (upd_entry rel k f) j \<longleftrightarrow> stored rel j"
  using assms by (auto simp: stored_nth nth_list_update)

lemma store_wf_upd_inactive:
  assumes "store_wf cap rel" "k < length (rl_array rel)" "\<not> active (f (rl_array rel ! k))"
    "entry_wf cap (rl_offset rel) (f (rl_array rel ! k))"
  shows "store_wf cap (upd_entry rel k f)"
  using assms by (auto simp: store_wf_def nth_list_update)

lemma store_wf_upd_new:
  assumes "store_wf cap rel" "k < length (rl_array rel)"
    "\<not> stored rel (packet_id (f (rl_array rel ! k)))"
    "entry_wf cap (rl_offset rel) (f (rl_array rel ! k))"
  shows "store_wf cap (upd_entry rel k f)"
  using assms by (auto simp: store_wf_def nth_list_update stored_nth)

lemma rx_inv_upd_inactive:
  assumes "rx_inv cap A rel" "k < length (rl_array rel)" "\<not> active (f (rl_array rel ! k))"
    "entry_wf cap (rl_offset rel) (f (rl_array rel ! k))"
  shows "rx_inv cap A (upd_entry rel k f)"
  using assms store_wf_upd_inactive [of cap rel k f]
  by (auto simp: rx_inv_def nth_list_update)

lemma rx_inv_upd_new:
  assumes "rx_inv cap A rel" "k < length (rl_array rel)"
    "\<not> stored rel i" "packet_id (f (rl_array rel ! k)) = i"
    "entry_wf cap (rl_offset rel) (f (rl_array rel ! k))"
    "unat (rl_packet_id rel) \<le> unat i" "unat i < unat (rl_packet_id rel) + length (rl_array rel)"
    "content (e_buf (f (rl_array rel ! k))) = A i"
  shows "rx_inv cap A (upd_entry rel k f)"
  using assms store_wf_upd_new [of cap rel k f]
  by (auto simp: rx_inv_def nth_list_update)

lemma read_packet_id_ok:
  assumes "buf_wf b" "content b = enc32 i @ rest"
  obtains b' where "reliable_ack_read_packet_id b = (Some i, b')" "buf_wf b'" "content b' = rest"
proof -
  have len: "4 \<le> bf_len b"
    using assms bf_len_content [of b] by (simp add: codec_simps)
  then have "buf_defined b"
    using assms(1) by (auto simp: buf_wf_def buf_defined_def split: option.splits)
  then obtain b' where "buf_read b (int 4) = (Some (enc32 i), b')" "buf_wf b'" "content b' = rest"
    using u32c.read_field [OF assms] by (metis zero_less_numeral)
  then show thesis
    by (intro that [of b']) (auto simp: reliable_ack_read_packet_id_def codec_simps)
qed

lemma tls_rx_store_step:
  assumes inv: "rx_inv cap A rel" and b: "buf_wf b" "content b = enc32 i @ A i"
    and small: "unat (rl_packet_id rel) + RELIABLE_CAPACITY < 2 ^ 31"
  obtains ok rel' ack' where "tls_rx_store rel ack b op = Some (ok, rel', ack')"
    "rx_inv cap A rel'" "rl_packet_id rel' = rl_packet_id rel" "rl_offset rel' = rl_offset rel"
    "length (rl_array rel') = length (rl_array rel)"
    "\<And>j. stored rel' j \<longleftrightarrow> stored rel j \<or> ok \<and> j = i"
    "ok \<longleftrightarrow> op \<noteq> P_ACK_V1 \<and> reliable_can_get rel \<and> \<not> stored rel i \<and> unat (rl_packet_id rel) \<le> unat i
        \<and> unat i < unat (rl_packet_id rel) + length (rl_array rel)
        \<and> rl_offset rel + int (length (A i)) \<le> cap"
    "\<And>j. j \<in> set ack' \<Longrightarrow> j \<in> set ack \<or> j = i \<and> (stored rel' i \<or> unat i < unat (rl_packet_id rel))"
proof -
  have acks: "j \<in> set ack \<or> j = i" if "j \<in> set (snd (reliable_ack_acknowledge_packet_id ack i))" for j
    using that by (auto simp: reliable_ack_acknowledge_packet_id_def split: if_splits)
  have wf: "store_wf cap rel" and n: "length (rl_array rel) \<le> RELIABLE_CAPACITY"
    using inv by (auto simp: rx_inv_def store_wf_def)
  obtain b' where r: "reliable_ack_read_packet_id b = (Some i, b')" and b': "buf_wf b'" "content b' = A i"
    using read_packet_id_ok [OF b] .
  have range: "reliable_wont_break_sequentiality rel i \<longleftrightarrow> unat i < unat (rl_packet_id rel) + length (rl_array rel)"
    unfolding reliable_wont_break_sequentiality_def
    using small n by (intro in_range2_nowrap) auto
  have replay: "reliable_not_replay rel i \<longleftrightarrow> unat (rl_packet_id rel) \<le> unat i \<and> \<not> stored rel i"
    if "reliable_wont_break_sequentiality rel i"
  proof -
    have "reliable_pid_min i (rl_packet_id rel) \<longleftrightarrow> unat i < unat (rl_packet_id rel)"
      using that range small n by (intro pid_min_nowrap) auto
    then show ?thesis
      by (auto simp: reliable_not_replay_def stored_def)
  qed
  consider (no) "op = P_ACK_V1 \<or> \<not> reliable_can_get rel \<or> \<not> reliable_wont_break_sequentiality rel i"
    | (seen) "reliable_can_get rel" "op \<noteq> P_ACK_V1" "reliable_wont_break_sequentiality rel i" "\<not> reliable_not_replay rel i"
    | (new) "reliable_can_get rel" "reliable_wont_break_sequentiality rel i" "reliable_not_replay rel i"
      "op \<noteq> P_ACK_V1"
    by blast
  then show thesis
  proof cases
    case no
    with range inv r show ?thesis
      by (intro that [of False rel ack]) (auto simp: tls_rx_store_def)
  next
    case seen
    with replay inv r show ?thesis
      by (intro that [of False rel "snd (reliable_ack_acknowledge_packet_id ack i)"])
        (auto simp: tls_rx_store_def dest!: acks)
  next
    case new
    obtain k kb where g: "reliable_get_buf rel = Some (Some k, upd_entry rel k (\<lambda>e. e\<lparr>e_buf := kb\<rparr>))"
      and k: "k < length (rl_array rel)" "\<not> active (rl_array rel ! k)"
      and kb: "buf_wf kb" "buf_defined kb" "content kb = []" "bf_off kb = rl_offset rel" "bf_cap kb = cap"
      using reliable_get_buf_some [OF wf new(1)] .
    have off: "0 \<le> rl_offset rel" "rl_offset rel \<le> cap"
      using wf k by (auto simp: store_wf_def entry_wf_def)
    have copy: "buf_copy kb b' = buf_write kb (A i)"
      using b' by (simp add: buf_copy_def buf_bytes_wf)
    have safe: "buf_safe kb (int (length (A i))) \<longleftrightarrow> rl_offset rel + int (length (A i)) \<le> cap"
      using kb bf_len_content [OF kb(1)] by (simp add: buf_safe_wf)
    have facts: "\<not> stored rel i" "unat (rl_packet_id rel) \<le> unat i"
      "unat i < unat (rl_packet_id rel) + length (rl_array rel)"
      using new replay range by auto
    then have min: "\<not> reliable_pid_min i (rl_packet_id rel)"
      using new(3) by (auto simp: reliable_not_replay_def)
    show ?thesis
    proof (cases "buf_safe kb (int (length (A i)))")
      case True
      obtain inb where w: "buf_write kb (A i) = (True, inb)" and inb: "buf_wf inb" "content inb = A i"
        "bf_cap inb = cap" "buf_defined inb"
        by (rule buf_write_safe [OF kb(1) True]) (use kb in auto)
      let ?f = "\<lambda>e :: reliable_entry. e\<lparr>e_buf := inb, active := True, packet_id := i, opcode := op,
        next_try := 0, timeout := 0, n_acks := 0\<rparr>"
      have "tls_rx_store rel ack b op
          = Some (True, upd_entry rel k ?f, snd (reliable_ack_acknowledge_packet_id ack i))"
        using new r g k w copy min
        by (simp add: tls_rx_store_def reliable_mark_active_incoming_def)
      moreover have "rx_inv cap A (upd_entry rel k ?f)"
        using inb off facts k
        by (intro rx_inv_upd_new [OF inv, of k i]) (auto simp: entry_wf_def)
      moreover have "stored (upd_entry rel k ?f) j \<longleftrightarrow> stored rel j \<or> j = i" for j
        using k by (intro upd_inactive_stored(1)) auto
      ultimately show ?thesis
        using True safe facts new(1,4)
        by (intro that [of True "upd_entry rel k ?f" "snd (reliable_ack_acknowledge_packet_id ack i)"])
          (auto dest!: acks)
    next
      case False
      let ?f = "\<lambda>e :: reliable_entry. e\<lparr>e_buf := kb\<rparr>"
      have "tls_rx_store rel ack b op = Some (False, upd_entry rel k ?f, ack)"
        using new r g k copy buf_write_unsafe [OF False] by (simp add: tls_rx_store_def)
      moreover have "rx_inv cap A (upd_entry rel k ?f)"
        using kb off k by (intro rx_inv_upd_inactive [OF inv]) (auto simp: entry_wf_def)
      moreover have "stored (upd_entry rel k ?f) j \<longleftrightarrow> stored rel j" for j
        using k by (intro upd_inactive_stored(2)) auto
      ultimately show ?thesis
        using False safe by (intro that [of False "upd_entry rel k ?f" ack]) auto
    qed
  qed
qed

lemma store_full_has_next:
  assumes inv: "rx_inv cap A rel" and full: "\<not> reliable_can_get rel"
  shows "stored rel (rl_packet_id rel)"
proof -
  let ?n = "length (rl_array rel)"
  let ?b = "unat (rl_packet_id rel)"
  let ?f = "\<lambda>k. unat (packet_id (rl_array rel ! k))"
  have act: "active (rl_array rel ! k)" if "k < ?n" for k
    using full that by (auto simp: reliable_can_get_def list_ex_length)
  have wf: "store_wf cap rel" and n: "0 < ?n"
    using inv by (auto simp: rx_inv_def store_wf_def)
  have "inj_on ?f {..<?n}"
    using wf act by (auto simp: inj_on_def store_wf_def word_unat_eq_iff)
  then have "card (?f ` {..<?n}) = card {?b..<?b + ?n}"
    by (simp add: card_image)
  moreover have "?f ` {..<?n} \<subseteq> {?b..<?b + ?n}"
    using inv act by (auto simp: rx_inv_def)
  ultimately have "?f ` {..<?n} = {?b..<?b + ?n}"
    by (intro card_subset_eq) auto
  moreover have "?b \<in> {?b..<?b + ?n}"
    using n by simp
  ultimately have "?b \<in> ?f ` {..<?n}"
    by (simp only:)
  then obtain k where "k < ?n" "?f k = ?b"
    by (auto simp only: image_iff lessThan_iff)
  then have "packet_id (rl_array rel ! k) = rl_packet_id rel"
    by (simp only: word_unat_eq_iff)
  with act \<open>k < ?n\<close> show ?thesis
    unfolding stored_nth by blast
qed

lemma get_entry_sequenced:
  "reliable_get_entry_sequenced rel = Some k \<Longrightarrow>
     k < length (rl_array rel) \<and> active (rl_array rel ! k) \<and> packet_id (rl_array rel ! k) = rl_packet_id rel"
  unfolding reliable_get_entry_sequenced_def by (drule find_index_Some) simp

lemma deliver_step:
  assumes inv: "rx_inv cap A rel" and small: "unat (rl_packet_id rel) + RELIABLE_CAPACITY < 2 ^ 31"
    and e: "reliable_get_entry_sequenced rel = Some k"
  obtains rel' where "reliable_mark_deleted rel k = Some rel'" "rx_inv cap A rel'"
    "rl_packet_id rel' = rl_packet_id rel + 1" "rl_offset rel' = rl_offset rel"
    "length (rl_array rel') = length (rl_array rel)"
    "content (e_buf (rl_array rel ! k)) = A (rl_packet_id rel)"
    "unat (rl_packet_id rel + 1) = unat (rl_packet_id rel) + 1"
    "\<And>j. stored rel' j \<longleftrightarrow> stored rel j \<and> j \<noteq> rl_packet_id rel"
proof -
  have k: "k < length (rl_array rel)" "active (rl_array rel ! k)"
    "packet_id (rl_array rel ! k) = rl_packet_id rel"
    using get_entry_sequenced [OF e] by blast+
  have wf: "store_wf cap rel"
    using inv by (simp add: rx_inv_def)
  have uniq: "j = k" if "j < length (rl_array rel)" "active (rl_array rel ! j)"
    "packet_id (rl_array rel ! j) = rl_packet_id rel" for j
    using wf k that by (auto simp: store_wf_def)
  have suc: "unat (rl_packet_id rel + 1) = unat (rl_packet_id rel) + 1"
    using small by (intro unat_Suc32) simp
  let ?f = "\<lambda>e :: reliable_entry. e\<lparr>active := False\<rparr>"
  let ?r = "(upd_entry rel k ?f)\<lparr>rl_packet_id := rl_packet_id rel + 1\<rparr>"
  have del: "reliable_mark_deleted rel k = Some ?r"
    using k by (simp add: reliable_mark_deleted_def)
  have above: "unat (rl_packet_id rel) < unat (packet_id (rl_array rel ! j))"
    if "j < length (rl_array rel)" "active (rl_array rel ! j)" "j \<noteq> k" for j
  proof -
    have "unat (rl_packet_id rel) \<le> unat (packet_id (rl_array rel ! j))"
      using inv that by (simp add: rx_inv_def)
    moreover have "packet_id (rl_array rel ! j) \<noteq> rl_packet_id rel"
      using uniq that by blast
    ultimately show ?thesis
      by (simp add: word_unat_eq_iff order_less_le)
  qed
  have "rx_inv cap A ?r"
    unfolding rx_inv_def
  proof (intro conjI allI impI)
    show "store_wf cap ?r"
      using wf k by (auto simp: store_wf_def nth_list_update entry_wf_def)
  next
    fix j
    assume j: "j < length (rl_array ?r)" "active (rl_array ?r ! j)"
    then have j': "j < length (rl_array rel)" "active (rl_array rel ! j)" "j \<noteq> k"
      by (cases "j = k"; simp)+
    show "unat (rl_packet_id ?r) \<le> unat (packet_id (rl_array ?r ! j))"
      using above [OF j'] j' suc by simp
    show "unat (packet_id (rl_array ?r ! j)) < unat (rl_packet_id ?r) + length (rl_array ?r)"
    proof -
      have "unat (packet_id (rl_array rel ! j)) < unat (rl_packet_id rel) + length (rl_array rel)"
        using inv j'(1,2) by (simp add: rx_inv_def)
      then show ?thesis
        using j' suc by simp
    qed
    show "content (e_buf (rl_array ?r ! j)) = A (packet_id (rl_array ?r ! j))"
      using inv j' by (simp add: rx_inv_def)
  qed
  moreover have "stored ?r j \<longleftrightarrow> stored rel j \<and> j \<noteq> rl_packet_id rel" for j
  proof -
    have "stored ?r j \<longleftrightarrow> (\<exists>m < length (rl_array rel). m \<noteq> k \<and> active (rl_array rel ! m)
            \<and> packet_id (rl_array rel ! m) = j)"
      using k(1) by (auto simp: stored_nth nth_list_update split: if_splits)
    then show ?thesis
      unfolding stored_nth using k uniq by blast
  qed
  moreover have "content (e_buf (rl_array rel ! k)) = A (rl_packet_id rel)"
    using inv k by (simp add: rx_inv_def)
  ultimately show thesis
    using del suc by (intro that [of ?r]) auto
qed

section \<open>Runs of the receiving end\<close>

datatype rx_event = Arrive buffer int | Deliver

fun rx_step :: "reliable \<times> reliable_ack \<Rightarrow> rx_event \<Rightarrow> ((reliable \<times> reliable_ack) \<times> byte list list) option" where
  "rx_step (rel, ack) (Arrive b op) =
     map_option (\<lambda>(ok, rel', ack'). ((rel', ack'), [])) (tls_rx_store rel ack b op)"
| "rx_step (rel, ack) Deliver =
     (case reliable_get_entry_sequenced rel of
        None \<Rightarrow> Some ((rel, ack), [])
      | Some k \<Rightarrow> map_option (\<lambda>rel'. ((rel', ack), [content (e_buf (rl_array rel ! k))]))
                    (reliable_mark_deleted rel k))"

fun rx_trace :: "reliable \<times> reliable_ack \<Rightarrow> rx_event list \<Rightarrow> ((reliable \<times> reliable_ack) \<times> byte list list) option" where
  "rx_trace s [] = Some (s, [])"
| "rx_trace s (e # es) =
     (case rx_step s e of
        None \<Rightarrow> None
      | Some (s', out) \<Rightarrow> map_option (\<lambda>(s'', outs). (s'', out @ outs)) (rx_trace s' es))"

fun genuine :: "(u32 \<Rightarrow> byte list) \<Rightarrow> rx_event \<Rightarrow> bool" where
  "genuine A (Arrive b op) \<longleftrightarrow> buf_wf b \<and> take 4 (content b) = enc32 (dec32 (take 4 (content b)))
     \<and> drop 4 (content b) = A (dec32 (take 4 (content b)))"
| "genuine A Deliver \<longleftrightarrow> True"

lemma genuine_arrive:
  assumes "genuine A (Arrive b op)"
  obtains i where "buf_wf b" "content b = enc32 i @ A i"
  using assms append_take_drop_id [of 4 "content b"] by (intro that [of "dec32 (take 4 (content b))"]) auto

lemma rx_trace_inv:
  assumes "rx_inv cap A rel" "\<forall>e \<in> set evs. genuine A e"
    "unat (rl_packet_id rel) + length evs + RELIABLE_CAPACITY < 2 ^ 31"
  shows "\<exists>rel' ack' outs. rx_trace (rel, ack) evs = Some ((rel', ack'), outs) \<and> rx_inv cap A rel'
      \<and> length (rl_array rel') = length (rl_array rel) \<and> rl_offset rel' = rl_offset rel
      \<and> unat (rl_packet_id rel') = unat (rl_packet_id rel) + length outs
      \<and> length outs \<le> length evs
      \<and> outs = map (\<lambda>k. A (of_nat k)) [unat (rl_packet_id rel)..<unat (rl_packet_id rel')]"
  using assms
proof (induction evs arbitrary: rel ack)
  case Nil
  then show ?case by simp
next
  case (Cons e evs)
  have small: "unat (rl_packet_id rel) + RELIABLE_CAPACITY < 2 ^ 31"
    using Cons.prems(3) by simp
  show ?case
  proof (cases e)
    case (Arrive b op)
    obtain i where b: "buf_wf b" "content b = enc32 i @ A i"
      using Cons.prems(2) Arrive genuine_arrive [of A b op] by auto
    obtain ok rel1 ack1 where s: "tls_rx_store rel ack b op = Some (ok, rel1, ack1)"
      "rx_inv cap A rel1" "rl_packet_id rel1 = rl_packet_id rel" "rl_offset rel1 = rl_offset rel"
      "length (rl_array rel1) = length (rl_array rel)"
      by (rule tls_rx_store_step [OF Cons.prems(1) b small])
    have "\<forall>e \<in> set evs. genuine A e" "unat (rl_packet_id rel1) + length evs + RELIABLE_CAPACITY < 2 ^ 31"
      using Cons.prems s(3) by auto
    from Cons.IH [OF s(2) this, of ack1] s Arrive show ?thesis
      by auto
  next
    case Deliver
    show ?thesis
    proof (cases "reliable_get_entry_sequenced rel")
      case None
      with Cons.IH [OF Cons.prems(1), of ack] Cons.prems Deliver show ?thesis
        by auto
    next
      case (Some k)
      obtain rel1 where s: "reliable_mark_deleted rel k = Some rel1" "rx_inv cap A rel1"
        "rl_packet_id rel1 = rl_packet_id rel + 1" "rl_offset rel1 = rl_offset rel"
        "length (rl_array rel1) = length (rl_array rel)"
        "content (e_buf (rl_array rel ! k)) = A (rl_packet_id rel)"
        "unat (rl_packet_id rel + 1) = unat (rl_packet_id rel) + 1"
        by (rule deliver_step [OF Cons.prems(1) small Some])
      have "\<forall>e \<in> set evs. genuine A e" "unat (rl_packet_id rel1) + length evs + RELIABLE_CAPACITY < 2 ^ 31"
        using Cons.prems s(3,7) by auto
      from Cons.IH [OF s(2) this, of ack] obtain rel' ack' outs where
        r: "rx_trace (rel1, ack) evs = Some ((rel', ack'), outs)" "rx_inv cap A rel'"
        "length (rl_array rel') = length (rl_array rel1)" "rl_offset rel' = rl_offset rel1"
        "unat (rl_packet_id rel') = unat (rl_packet_id rel1) + length outs"
        "length outs \<le> length evs"
        "outs = map (\<lambda>k. A (of_nat k)) [unat (rl_packet_id rel1)..<unat (rl_packet_id rel')]"
        by blast
      have lt: "unat (rl_packet_id rel) < unat (rl_packet_id rel')"
        using r(5) s(3,7) by simp
      have "map (\<lambda>k. A (of_nat k)) [unat (rl_packet_id rel)..<unat (rl_packet_id rel')]
          = A (rl_packet_id rel) # outs"
        unfolding r(7) upt_conv_Cons [OF lt] s(3) s(7) by simp
      moreover have "rx_trace (rel, ack) (e # evs) = Some ((rel', ack'), A (rl_packet_id rel) # outs)"
        by (simp add: Deliver Some s(1,6) r(1))
      moreover have "unat (rl_packet_id rel') = unat (rl_packet_id rel) + length (A (rl_packet_id rel) # outs)"
        using r(5) s(3,7) by simp
      moreover have "length (A (rl_packet_id rel) # outs) \<le> length (e # evs)"
        using r(6) by simp
      ultimately show ?thesis
        using r(2-4) s(4,5)
        by (intro exI [of _ rel'] exI [of _ ack'] exI [of _ "A (rl_packet_id rel) # outs"] conjI) simp_all
    qed
  qed
qed

section \<open>Acknowledgement records\<close>












lemma concat_enc32_length [simp]: "length (concat (map enc32 ids)) = 4 * length ids"
  by (induction ids) (simp_all add: codec_simps)



section \<open>Retransmission\<close>

definition send_best_inv :: "int \<Rightarrow> reliable_entry list \<Rightarrow> nat \<Rightarrow> nat option \<Rightarrow> bool" where
  "send_best_inv now es k best \<longleftrightarrow>
     (case best of
        None \<Rightarrow> \<forall>j < k. \<not> entry_due now (es ! j)
      | Some i \<Rightarrow> i < k \<and> entry_due now (es ! i)
          \<and> (\<forall>j < k. entry_due now (es ! j) \<longrightarrow> unat (packet_id (es ! i)) \<le> unat (packet_id (es ! j))))"

lemma send_best_fold:
  assumes "k \<le> length es" "\<forall>e \<in> set es. active e \<longrightarrow> unat (packet_id e) < 2 ^ 31"
  shows "send_best_inv now es k (fold (send_best_step now es) [0..<k] None)"
  using assms(1)
proof (induction k)
  case 0
  then show ?case by (simp add: send_best_inv_def)
next
  case (Suc k)
  let ?best = "fold (send_best_step now es) [0..<k] None"
  have IH: "send_best_inv now es k ?best"
    using Suc by simp
  have small: "unat (packet_id (es ! j)) < 2 ^ 31" if "j < length es" "entry_due now (es ! j)" for j
    using assms(2) that by (auto simp: entry_due_def)
  have "send_best_inv now es (Suc k) (send_best_step now es k ?best)"
  proof (cases "entry_due now (es ! k)")
    case False
    with IH show ?thesis
      by (auto simp: send_best_step_def send_best_inv_def less_Suc_eq split: option.splits)
  next
    case due: True
    show ?thesis
    proof (cases ?best)
      case None
      with IH due show ?thesis
        by (auto simp: send_best_step_def send_best_inv_def less_Suc_eq)
    next
      case (Some i)
      then have i: "i < k" "entry_due now (es ! i)"
        and least: "\<And>j. j < k \<Longrightarrow> entry_due now (es ! j) \<Longrightarrow> unat (packet_id (es ! i)) \<le> unat (packet_id (es ! j))"
        using IH by (auto simp: send_best_inv_def)
      have min: "reliable_pid_min (packet_id (es ! k)) (packet_id (es ! i))
          \<longleftrightarrow> unat (packet_id (es ! k)) < unat (packet_id (es ! i))"
        using small due i Suc.prems by (intro pid_min_nowrap) auto
      have step: "send_best_step now es k ?best
          = (if unat (packet_id (es ! k)) < unat (packet_id (es ! i)) then Some k else Some i)"
        using due min by (simp add: send_best_step_def Some)
      show ?thesis
      proof (cases "unat (packet_id (es ! k)) < unat (packet_id (es ! i))")
        case True
        then have "send_best_step now es k ?best = Some k"
          using step by simp
        moreover have "unat (packet_id (es ! k)) \<le> unat (packet_id (es ! j))"
          if "j < Suc k" "entry_due now (es ! j)" for j
          using least [of j] that True by (cases "j = k") auto
        ultimately show ?thesis
          using due by (simp add: send_best_inv_def)
      next
        case False
        then have "send_best_step now es k ?best = Some i"
          using step by simp
        moreover have "unat (packet_id (es ! i)) \<le> unat (packet_id (es ! j))"
          if "j < Suc k" "entry_due now (es ! j)" for j
          using least [of j] that False by (cases "j = k") auto
        ultimately show ?thesis
          using i by (simp add: send_best_inv_def)
      qed
    qed
  qed
  then show ?case
    by simp
qed

lemma send_timeout_loop_spec:
  "0 < ret \<Longrightarrow> t = send_timeout_loop now ret es \<Longrightarrow> \<forall>e \<in> set es. active e \<longrightarrow> next_try e - now < 2 ^ 31 \<Longrightarrow>
     0 \<le> t \<and> t \<le> ret
     \<and> (t = 0 \<longleftrightarrow> (\<exists>e \<in> set es. active e \<and> next_try e \<le> now))
     \<and> (\<forall>e \<in> set es. active e \<longrightarrow> t \<le> max 0 (next_try e - now))
     \<and> (0 < t \<longrightarrow> t = ret \<or> (\<exists>e \<in> set es. active e \<and> next_try e = now + t))"
proof (induction es arbitrary: ret)
  case Nil
  then show ?case by simp
next
  case (Cons e es)
  consider "\<not> active e" | "active e" "next_try e \<le> now" | "active e" "now < next_try e"
    by linarith
  then show ?case
  proof cases
    case 1
    with Cons.IH [OF Cons.prems(1)] Cons.prems(2,3) show ?thesis
      by simp
  next
    case 2
    with Cons.prems show ?thesis
      by auto
  next
    case 3
    let ?r = "min_int ret (next_try e - now)"
    have w: "to_int32 (next_try e - now) = next_try e - now"
      using 3 Cons.prems(3) by (intro to_int32_id) auto
    have r: "0 < ?r" "?r \<le> ret" "?r \<le> next_try e - now" "?r = ret \<or> ?r = next_try e - now"
      using 3 Cons.prems(1) by (auto simp: min_int_def)
    have t: "t = send_timeout_loop now ?r es"
      using 3 Cons.prems(2) w by simp
    from Cons.IH [OF r(1) t] Cons.prems(3) r 3 show ?thesis
      by auto
  qed
qed

section \<open>Properties\<close>

text \<open>C8: The control channel delivers in order and exactly once. Whatever genuine packets
  (an id and the payload the peer sent under it) arrive, in any order, repeated or not at
  all, between deliveries, no assertion of the receiving end fails and the payloads handed
  to TLS are the peer's packets 0, 1, 2, ... without a gap or a repetition.\<close>

theorem control_channel_in_order:
  assumes "reliable_init sz off n hld = Some rel"
    and "\<forall>e \<in> set evs. genuine A e"
    and "length evs + RELIABLE_CAPACITY < 2 ^ 31"
  shows "\<exists>rel' ack' outs. rx_trace (rel, []) evs = Some ((rel', ack'), outs)
     \<and> outs = map (\<lambda>k. A (of_nat k)) [0..<length outs]
     \<and> rl_packet_id rel' = of_nat (length outs)"
proof -
  note init = reliable_init_inv(1) [OF assms(1), of A] reliable_init_inv(2) [OF assms(1)]
  have "unat (rl_packet_id rel) + length evs + RELIABLE_CAPACITY < 2 ^ 31"
    using init(2) assms(3) by simp
  then obtain rel' ack' outs where r: "rx_trace (rel, []) evs = Some ((rel', ack'), outs)"
    "unat (rl_packet_id rel') = unat (rl_packet_id rel) + length outs"
    "outs = map (\<lambda>k. A (of_nat k)) [unat (rl_packet_id rel)..<unat (rl_packet_id rel')]"
    using rx_trace_inv [OF init(1) assms(2)] by blast
  moreover have "rl_packet_id rel' = of_nat (length outs)"
    using r(2) init(2) unat_bound [of "rl_packet_id rel'"] by (simp add: word_unat_eq_iff unat_of_nat)
  moreover have "unat (rl_packet_id rel') = length outs" "unat (rl_packet_id rel) = 0"
    using r(2) init(2) by simp_all
  ultimately show ?thesis
    by (metis (no_types))
qed

definition demo_pkt :: "byte \<Rightarrow> buffer" where
  "demo_pkt i = \<lparr>bf_cap = 8, bf_off = 1, bf_len = 5, bf_data = Some [9, 0, 0, 0, i, i + 100, 0, 0]\<rparr>"

definition demo_rx :: reliable where
  "demo_rx = the (reliable_init 16 4 3 False)"

definition demo_evs :: "rx_event list" where
  "demo_evs = [Arrive (demo_pkt 1) 4, Deliver, Arrive (demo_pkt 1) 4, Arrive (demo_pkt 0) 4,
               Arrive (demo_pkt 5) 4, Deliver, Deliver, Arrive (demo_pkt 0) 4, Deliver]"

lemma demo_pkt_genuine:
  "genuine (\<lambda>i. [ucast i + 100]) (Arrive (demo_pkt 0) 4)"
  "genuine (\<lambda>i. [ucast i + 100]) (Arrive (demo_pkt 1) 4)"
  "genuine (\<lambda>i. [ucast i + 100]) (Arrive (demo_pkt 5) 4)"
  by code_simp+

lemma demo_rx_init: "reliable_init 16 4 3 False = Some demo_rx"
  unfolding demo_rx_def by (rule option.collapse [symmetric]) code_simp

theorem control_channel_in_order_witness:
  "\<exists>st. rx_trace (demo_rx, []) demo_evs = Some (st, [[100], [101]])"
proof -
  have g: "\<forall>e \<in> set demo_evs. genuine (\<lambda>i. [ucast i + 100]) e"
    unfolding demo_evs_def using demo_pkt_genuine by simp
  have l: "length demo_evs + RELIABLE_CAPACITY < 2 ^ 31"
    by (simp add: demo_evs_def RELIABLE_CAPACITY_def)
  have n: "map_option (length \<circ> snd) (rx_trace (demo_rx, []) demo_evs) = Some 2"
    by code_simp
  obtain rel' ack' outs where r: "rx_trace (demo_rx, []) demo_evs = Some ((rel', ack'), outs)"
    "outs = map (\<lambda>k. [ucast (of_nat k :: u32) + 100 :: byte]) [0..<length outs]"
    using control_channel_in_order [OF demo_rx_init g l] by blast
  then have "length outs = 2"
    using n by simp
  then have "outs = [[100], [101]]"
    using r(2) by (simp add: upt_rec)
  with r(1) show ?thesis
    by blast
qed

text \<open>C9: The receive store cannot be wedged. In every state the receiving end reaches,
  when the packet it waits for arrives (and fits its buffer), the next delivery hands out
  its payload, however many later packets fill the store.\<close>

theorem control_channel_progress:
  assumes "reliable_init sz off n hld = Some rel"
    and "\<forall>e \<in> set evs. genuine A e"
    and "length evs + RELIABLE_CAPACITY < 2 ^ 31"
    and "rx_trace (rel, []) evs = Some ((rel', ack'), outs)"
    and "buf_wf b" "content b = enc32 (rl_packet_id rel') @ A (rl_packet_id rel')"
    and "off + int (length (A (rl_packet_id rel'))) \<le> sz" and "op \<noteq> P_ACK_V1"
  shows "\<exists>st. rx_trace (rel', ack') [Arrive b op, Deliver] = Some (st, [A (rl_packet_id rel')])"
proof -
  note init = reliable_init_inv(1) [OF assms(1), of A] reliable_init_inv(2) [OF assms(1)]
  have off: "rl_offset rel = off"
    using assms(1) by (auto simp: reliable_init_def split: if_splits option.splits prod.splits bool.splits)
  have "unat (rl_packet_id rel) + length evs + RELIABLE_CAPACITY < 2 ^ 31"
    using init(2) assms(3) by simp
  then obtain r2 a2 o2 where r2: "rx_trace (rel, []) evs = Some ((r2, a2), o2)" "rx_inv sz A r2"
    "rl_offset r2 = rl_offset rel" "unat (rl_packet_id r2) = unat (rl_packet_id rel) + length o2"
    "length o2 \<le> length evs"
    using rx_trace_inv [OF init(1) assms(2)] by blast
  have "r2 = rel'" "o2 = outs"
    using r2(1) assms(4) by simp_all
  with r2 off init(2) have inv: "rx_inv sz A rel'" and o: "rl_offset rel' = off"
    and le: "unat (rl_packet_id rel') \<le> length evs"
    by simp_all
  have small: "unat (rl_packet_id rel') + RELIABLE_CAPACITY < 2 ^ 31"
    using le assms(3) by linarith
  have n: "0 < length (rl_array rel')"
    using inv by (simp add: rx_inv_def store_wf_def)
  obtain ok rel1 ack1 where s: "tls_rx_store rel' ack' b op = Some (ok, rel1, ack1)"
    "rx_inv sz A rel1" "rl_packet_id rel1 = rl_packet_id rel'" "rl_offset rel1 = rl_offset rel'"
    "length (rl_array rel1) = length (rl_array rel')"
    "\<And>j. stored rel1 j \<longleftrightarrow> stored rel' j \<or> ok \<and> j = rl_packet_id rel'"
    "ok \<longleftrightarrow> op \<noteq> P_ACK_V1 \<and> reliable_can_get rel' \<and> \<not> stored rel' (rl_packet_id rel')
        \<and> unat (rl_packet_id rel') \<le> unat (rl_packet_id rel')
        \<and> unat (rl_packet_id rel') < unat (rl_packet_id rel') + length (rl_array rel')
        \<and> rl_offset rel' + int (length (A (rl_packet_id rel'))) \<le> sz"
    by (rule tls_rx_store_step [OF inv assms(5,6) small, of ack' op]) (rule that)
  have "stored rel1 (rl_packet_id rel1)"
    using s(3,6,7) store_full_has_next [OF inv] n o assms(7,8) by auto
  then obtain k where k: "reliable_get_entry_sequenced rel1 = Some k"
    by (cases "reliable_get_entry_sequenced rel1") (auto simp: stored_def reliable_get_entry_sequenced_def)
  have small1: "unat (rl_packet_id rel1) + RELIABLE_CAPACITY < 2 ^ 31"
    using small s(3) by simp
  obtain rel2 where d: "reliable_mark_deleted rel1 k = Some rel2"
    "content (e_buf (rl_array rel1 ! k)) = A (rl_packet_id rel1)"
    by (rule deliver_step [OF s(2) small1 k])
  show ?thesis
    using s(1,3) k d by simp
qed

theorem control_channel_progress_witness:
  "\<exists>st. rx_trace (fst (the (rx_trace (demo_rx, []) (take 3 demo_evs)))) [Arrive (demo_pkt 0) 4, Deliver]
     = Some (st, [[100]])"
proof -
  let ?evs = "take 3 demo_evs"
  have g: "\<forall>e \<in> set ?evs. genuine (\<lambda>i. [ucast i + 100]) e"
    unfolding demo_evs_def using demo_pkt_genuine by simp
  have l: "length ?evs + RELIABLE_CAPACITY < 2 ^ 31"
    by (simp add: demo_evs_def RELIABLE_CAPACITY_def)
  obtain rel ack outs where t: "rx_trace (demo_rx, []) ?evs = Some ((rel, ack), outs)"
    using control_channel_in_order [OF demo_rx_init g l] by blast
  have "map_option (rl_packet_id \<circ> fst \<circ> fst) (rx_trace (demo_rx, []) ?evs) = Some 0"
    by code_simp
  then have z: "rl_packet_id rel = 0"
    using t by simp
  have b: "buf_wf (demo_pkt 0)" "content (demo_pkt 0) = enc32 0 @ [100]" "P_ACK_V1 \<noteq> 4"
    by code_simp+
  show ?thesis
    using control_channel_progress [OF demo_rx_init g l t b(1), of 4] b(2,3) z
    by (simp add: t)
qed





lemma double_timeout_small: "0 \<le> t \<Longrightarrow> t < 2 ^ 30 \<Longrightarrow> double_timeout t = 2 * t"
  unfolding double_timeout_def by (subst to_int32_id) auto

lemma double_timeout_large:
  assumes "2 ^ 30 \<le> t" "t < 2 ^ 31"
  shows "double_timeout t < 0"
proof -
  have "(of_int (t * 2) :: u32) = of_int (t * 2 - 2 ^ 32)"
    by transfer (simp add: take_bit_eq_mod)
  then have "to_int32 (t * 2) = to_int32 (t * 2 - 2 ^ 32)"
    by (simp only: to_int32_def)
  also have "\<dots> = t * 2 - 2 ^ 32" by (rule to_int32_id) (use assms in simp_all)
  finally show ?thesis using assms by (simp add: double_timeout_def)
qed

text \<open>C26: \<^verbatim>\<open>reliable_send\<close> retransmits the oldest packet that is due, sets its next try by its
  timeout and clears its acknowledgement count; it returns nothing exactly when no entry is due, and
  the store is then unchanged. A timeout below \<open>2 ^ 30\<close> is doubled; one from \<open>2 ^ 30\<close> on, which
  \<^verbatim>\<open>--tls-timeout\<close> allows, overflows the \<^verbatim>\<open>int\<close> and turns negative: after the next transmission the packet is due at
  once.\<close>

theorem reliable_send_oldest_due:
  assumes "\<forall>e \<in> set (rl_array rel). active e \<longrightarrow> unat (packet_id e) < 2 ^ 31"
  shows "case reliable_send now rel of
      (None, rel') \<Rightarrow> rel' = rel \<and> (\<forall>e \<in> set (rl_array rel). \<not> entry_due now e)
    | (Some (i, op), rel') \<Rightarrow>
        (let e = rl_array rel ! i in
          i < length (rl_array rel) \<and> entry_due now e \<and> op = opcode e
          \<and> (\<forall>e' \<in> set (rl_array rel). entry_due now e' \<longrightarrow> unat (packet_id e) \<le> unat (packet_id e'))
          \<and> rl_array rel' = (rl_array rel)
              [i := e\<lparr>next_try := now + timeout e, timeout := double_timeout (timeout e), n_acks := 0\<rparr>]
          \<and> (0 \<le> timeout e \<and> timeout e < 2 ^ 30 \<longrightarrow> timeout (rl_array rel' ! i) = 2 * timeout e)
          \<and> (2 ^ 30 \<le> timeout e \<and> timeout e < 2 ^ 31 \<longrightarrow> timeout (rl_array rel' ! i) < 0))"
proof -
  let ?es = "rl_array rel"
  have "send_best_inv now ?es (length ?es) (fold (send_best_step now ?es) [0..<length ?es] None)"
    by (rule send_best_fold [OF order_refl assms])
  then show ?thesis
    by (cases "fold (send_best_step now ?es) [0..<length ?es] None")
      (auto simp: send_best_inv_def reliable_send_def Let_def in_set_conv_nth double_timeout_small double_timeout_large)
qed

definition demo_tx :: reliable where
  "demo_tx = \<lparr>initial_timeout = 2, rl_packet_id = 3, rl_offset = 0, hold = False,
     rl_array = [\<lparr>active = True, timeout = 2, next_try = 10, packet_id = 2, n_acks = 0, opcode = 4, e_buf = clear_buf\<rparr>,
                 \<lparr>active = True, timeout = 4, next_try = 20, packet_id = 0, n_acks = 3, opcode = 4, e_buf = clear_buf\<rparr>]\<rparr>"

theorem reliable_send_oldest_due_witness:
  "case reliable_send 12 demo_tx of
      (None, rel') \<Rightarrow> False
    | (Some (i, op), rel') \<Rightarrow> i = 1 \<and> op = 4 \<and> timeout (rl_array rel' ! 1) = 8"
proof -
  have small: "\<forall>e \<in> set (rl_array demo_tx). active e \<longrightarrow> unat (packet_id e) < 2 ^ 31"
    by (simp add: demo_tx_def)
  have one: "fst (reliable_send 12 demo_tx) = Some (1, 4)"
    by code_simp
  show ?thesis
    using reliable_send_oldest_due [OF small, of 12] one
    by (cases "reliable_send 12 demo_tx") (auto simp: Let_def demo_tx_def)
qed

text \<open>\<^verbatim>\<open>reliable_send_timeout\<close> is exact: it is 0 exactly when an unacknowledged packet
  has reached its next try, it never sleeps past the next try of any packet, and a positive
  value is the distance to one of them unless it is the idle maximum.\<close>

theorem reliable_send_timeout_exact:
  assumes "\<forall>e \<in> set (rl_array rel). active e \<longrightarrow> next_try e - now < 2 ^ 31"
  shows "let t = reliable_send_timeout now rel; es = {e \<in> set (rl_array rel). active e} in
     0 \<le> t \<and> t \<le> BIG_TIMEOUT
     \<and> (t = 0 \<longleftrightarrow> {e \<in> es. next_try e \<le> now} \<noteq> {})
     \<and> es \<subseteq> {e. t \<le> max 0 (next_try e - now)}
     \<and> t \<in> {0, BIG_TIMEOUT} \<union> (\<lambda>e. next_try e - now) ` es"
proof -
  have "0 < BIG_TIMEOUT"
    by (simp add: BIG_TIMEOUT_def)
  from send_timeout_loop_spec [OF this refl assms] show ?thesis
    by (fastforce simp: reliable_send_timeout_def Let_def image_iff)
qed

lemma pid_min_exact:
  "reliable_pid_min i base \<longleftrightarrow> unat i < unat base \<and> unat base \<le> unat i + 2 ^ 31 \<or> unat base + 2 ^ 31 \<le> unat i"
proof -
  have d: "unat (i - base) = (if unat base \<le> unat i then unat i - unat base else unat i + 2 ^ 32 - unat base)"
    using unat_bound[of base] by (simp add: unat_sub_if')
  have e: "reliable_pid_min i base \<longleftrightarrow> \<not> unat (i - base) < 2 ^ 31"
    by (simp add: reliable_pid_min_def reliable_pid_in_range1_def subtract_pid_def word_less_nat_alt)
  have k: "\<not> (if y \<le> x then x - y else x + 2 ^ 32 - y) < 2 ^ 31 \<longleftrightarrow> x < y \<and> y \<le> x + 2 ^ 31 \<or> y + 2 ^ 31 \<le> x"
    if "y < 2 ^ 32" for x y :: nat
  proof (cases "y \<le> x")
    case True
    then show ?thesis by (auto simp: less_diff_conv2 not_less)
  next
    case False
    have "x + 2 ^ 32 - y < 2 ^ 31 \<longleftrightarrow> x + 2 ^ 32 < 2 ^ 31 + y" using that by (simp add: less_diff_conv2)
    also have "\<dots> \<longleftrightarrow> x + 2 ^ 31 < y" by auto
    finally show ?thesis using False by auto
  qed
  show ?thesis unfolding e d by (rule k) (use unat_bound[of base] in simp)
qed

text \<open>C27: which ids the receive store takes while the window does not wrap: those in the window
  that are not stored yet, as intended; but \<^verbatim>\<open>reliable_pid_in_range2\<close>, which promises to allow for
  wrap-around, compares raw values here, so that ids more than \<open>2 ^ 31\<close> below the awaited one, which
  are far ahead of the window, are taken as well. There are such ids once the awaited id is above
  \<open>2 ^ 31\<close>. Below that the test is right.\<close>

theorem receive_window_exact:
  assumes "length (rl_array rel) \<le> RELIABLE_CAPACITY" "unat (rl_packet_id rel) + length (rl_array rel) < 2 ^ 32"
  shows "reliable_wont_break_sequentiality rel i \<and> reliable_not_replay rel i \<longleftrightarrow>
    \<not> stored rel i
    \<and> (unat (rl_packet_id rel) \<le> unat i \<and> unat i < unat (rl_packet_id rel) + length (rl_array rel)
       \<or> unat i + 2 ^ 31 < unat (rl_packet_id rel))"
proof -
  have "reliable_wont_break_sequentiality rel i \<longleftrightarrow> unat i < unat (rl_packet_id rel) + length (rl_array rel)"
    unfolding reliable_wont_break_sequentiality_def by (rule in_range2_nowrap[OF assms(2)])
  moreover have "reliable_not_replay rel i \<longleftrightarrow> \<not> reliable_pid_min i (rl_packet_id rel) \<and> \<not> stored rel i"
    by (auto simp: reliable_not_replay_def stored_def)
  moreover have "length (rl_array rel) < 2 ^ 31" using assms(1) by (simp add: RELIABLE_CAPACITY_def)
  ultimately show ?thesis unfolding pid_min_exact by auto
qed

theorem receive_window_exact_witness:
  "reliable_wont_break_sequentiality (demo_rx\<lparr>rl_packet_id := 0xC0000000\<rparr>) 5
   \<and> reliable_not_replay (demo_rx\<lparr>rl_packet_id := 0xC0000000\<rparr>) 5"
proof -
  let ?rel = "demo_rx\<lparr>rl_packet_id := 0xC0000000\<rparr>"
  have l: "length (rl_array demo_rx) = 3" by code_simp
  have "length (rl_array ?rel) \<le> RELIABLE_CAPACITY" "unat (rl_packet_id ?rel) + length (rl_array ?rel) < 2 ^ 32"
    using l by (simp_all add: RELIABLE_CAPACITY_def)
  moreover have "\<not> stored ?rel 5" by code_simp
  ultimately  show ?thesis using receive_window_exact[of ?rel 5] by simp
qed

end
