(* ===== verification/Control_Link.thy ===== *)
theory Control_Link
  imports Reliable
begin

text \<open>
  Both ends of the control channel and the network between them, composed of the
  operations of \<^verbatim>\<open>reliable.c\<close> as \<^verbatim>\<open>ssl.c\<close> calls them: the sender queues a packet
  (\<^verbatim>\<open>reliable_get_buf_output_sequenced\<close>, \<^verbatim>\<open>reliable_mark_active_outgoing\<close>) and
  (re)transmits it (\<^verbatim>\<open>reliable_send\<close>), the network delivers any transmitted packet at any
  time, repeatedly or never, the receiver stores, acknowledges and consumes, and the
  sender learns of any subset of the acknowledgements ever made.
\<close>

record link =
  tx :: reliable
  rx :: reliable
  rx_ack :: reliable_ack
  acked :: "u32 set"
  wire :: "byte list set"
  sent :: "byte list list"
  got :: "byte list list"

inductive link_step :: "link \<Rightarrow> link \<Rightarrow> bool" where
  queue: "reliable_get_buf_output_sequenced (tx s) = Some (Some k, t1) \<Longrightarrow>
    buf_write (e_buf (rl_array t1 ! k)) p = (True, b) \<Longrightarrow>
    reliable_mark_active_outgoing (upd_entry t1 k (\<lambda>e. e\<lparr>e_buf := b\<rparr>)) k op = Some t2 \<Longrightarrow>
    link_step s (s\<lparr>tx := t2, sent := sent s @ [p]\<rparr>)"
| transmit: "reliable_send now (tx s) = (Some (k, op), t1) \<Longrightarrow>
    link_step s (s\<lparr>tx := t1, wire := insert (content (e_buf (rl_array t1 ! k))) (wire s)\<rparr>)"
| reschedule: "link_step s (s\<lparr>tx := reliable_schedule_now now (tx s)\<rparr>)"
| arrive: "buf_wf b \<Longrightarrow> content b \<in> wire s \<Longrightarrow>
    tls_rx_store (rx s) (rx_ack s) b op = Some (ok, r1, a1) \<Longrightarrow>
    link_step s (s\<lparr>rx := r1, rx_ack := a1, acked := acked s \<union> set a1\<rparr>)"
| consume: "reliable_get_entry_sequenced (rx s) = Some k \<Longrightarrow>
    reliable_mark_deleted (rx s) k = Some r1 \<Longrightarrow>
    link_step s (s\<lparr>rx := r1, got := got s @ [content (e_buf (rl_array (rx s) ! k))]\<rparr>)"
| ack_sent: "link_step s (s\<lparr>rx_ack := drop n (rx_ack s)\<rparr>)"
| ack_received: "set a \<subseteq> acked s \<Longrightarrow>
    link_step s (s\<lparr>tx := reliable_send_purge (tx s) a\<rparr>)"

definition link_start :: "reliable \<Rightarrow> reliable \<Rightarrow> link" where
  "link_start t r = \<lparr>tx = t, rx = r, rx_ack = [], acked = {}, wire = {}, sent = [], got = []\<rparr>"

inductive link_reach :: "reliable \<Rightarrow> reliable \<Rightarrow> link \<Rightarrow> bool" for t r where
  start: "link_reach t r (link_start t r)"
| step: "link_reach t r s \<Longrightarrow> link_step s s' \<Longrightarrow> link_reach t r s'"

section \<open>The sending store\<close>

definition tx_inv :: "int \<Rightarrow> byte list list \<Rightarrow> reliable \<Rightarrow> bool" where
  "tx_inv cap ps rel \<longleftrightarrow> store_wf cap rel \<and> rl_packet_id rel = of_nat (length ps)
     \<and> (\<forall>i < length (rl_array rel). active (rl_array rel ! i) \<longrightarrow>
          unat (packet_id (rl_array rel ! i)) < length ps
          \<and> length ps \<le> unat (packet_id (rl_array rel ! i)) + length (rl_array rel)
          \<and> content (e_buf (rl_array rel ! i))
             = enc32 (packet_id (rl_array rel ! i)) @ ps ! unat (packet_id (rl_array rel ! i)))"

definition shrinks :: "(reliable_entry \<Rightarrow> reliable_entry) \<Rightarrow> bool" where
  "shrinks f \<longleftrightarrow> (\<forall>e. packet_id (f e) = packet_id e \<and> e_buf (f e) = e_buf e
                      \<and> (active (f e) \<longrightarrow> active e))"

lemma tx_inv_shrink:
  assumes inv: "tx_inv cap ps rel"
    and r: "rl_packet_id r = rl_packet_id rel" "rl_offset r = rl_offset rel"
      "length (rl_array r) = length (rl_array rel)"
    and e: "\<And>i. i < length (rl_array rel) \<Longrightarrow>
      packet_id (rl_array r ! i) = packet_id (rl_array rel ! i)
      \<and> e_buf (rl_array r ! i) = e_buf (rl_array rel ! i)
      \<and> (active (rl_array r ! i) \<longrightarrow> active (rl_array rel ! i))"
  shows "tx_inv cap ps r"
proof -
  have "store_wf cap r"
    using inv r e unfolding tx_inv_def store_wf_def entry_wf_def by simp
  with inv r e show ?thesis
    unfolding tx_inv_def by simp
qed

lemma purge_entry_shrinks: "shrinks (purge_entry pid)"
  by (simp add: shrinks_def purge_entry_def)

lemma send_purge_frame:
  "rl_packet_id (reliable_send_purge rel a) = rl_packet_id rel
   \<and> rl_offset (reliable_send_purge rel a) = rl_offset rel
   \<and> length (rl_array (reliable_send_purge rel a)) = length (rl_array rel)"
  unfolding reliable_send_purge_def by (induction a arbitrary: rel) auto

lemma send_purge_entry:
  assumes "i < length (rl_array rel)"
  shows "packet_id (rl_array (reliable_send_purge rel a) ! i) = packet_id (rl_array rel ! i)
     \<and> e_buf (rl_array (reliable_send_purge rel a) ! i) = e_buf (rl_array rel ! i)
     \<and> (active (rl_array (reliable_send_purge rel a) ! i)
         \<longleftrightarrow> active (rl_array rel ! i) \<and> packet_id (rl_array rel ! i) \<notin> set a)"
  using assms unfolding reliable_send_purge_def
  by (induction a arbitrary: rel) (auto simp: purge_entry_def)

lemma find_index_ex: "find_index P xs = Some i \<Longrightarrow> list_ex P xs"
  using find_index_None [of P xs] by auto

lemma min_id_fold:
  assumes "\<forall>e \<in> set es. active e \<longrightarrow> unat (packet_id e) < 2 ^ 31"
    and "case m0 of None \<Rightarrow> True | Some m \<Rightarrow> unat m < 2 ^ 31"
  shows "(fold min_id_step es m0 = None \<longleftrightarrow> m0 = None \<and> (\<forall>e \<in> set es. \<not> active e))
     \<and> (\<forall>m. fold min_id_step es m0 = Some m \<longrightarrow>
          (\<forall>e \<in> set es. active e \<longrightarrow> unat m \<le> unat (packet_id e))
          \<and> (\<forall>k. m0 = Some k \<longrightarrow> unat m \<le> unat k))"
  using assms
proof (induction es arbitrary: m0)
  case Nil
  then show ?case by simp
next
  case (Cons e es)
  show ?case
  proof (cases "active e")
    case False
    then have "min_id_step e m0 = m0"
      by (simp add: min_id_step_def)
    with False Cons.IH [of m0] Cons.prems show ?thesis
      by auto
  next
    case True
    have e: "unat (packet_id e) < 2 ^ 31"
      using Cons.prems True by simp
    obtain k where k: "min_id_step e m0 = Some k" "unat k < 2 ^ 31" "unat k \<le> unat (packet_id e)"
      "\<And>k'. m0 = Some k' \<Longrightarrow> unat k \<le> unat k'"
    proof (cases m0)
      case None
      then show ?thesis
        using True e by (intro that [of "packet_id e"]) (auto simp: min_id_step_def)
    next
      case (Some k')
      then have k': "unat k' < 2 ^ 31"
        using Cons.prems by simp
      have "min_id_step e m0 = Some (if unat (packet_id e) < unat k' then packet_id e else k')"
        unfolding min_id_step_def Some option.case using True pid_min_nowrap [OF e k'] by simp
      then show ?thesis
        using e k' Some
        by (intro that [of "if unat (packet_id e) < unat k' then packet_id e else k'"])
          (auto split: if_splits)
    qed
    have small: "case Some k of None \<Rightarrow> True | Some m \<Rightarrow> unat m < 2 ^ 31"
      using k by simp
    have ih: "fold min_id_step es (Some k) \<noteq> None"
      "\<And>m. fold min_id_step es (Some k) = Some m \<Longrightarrow>
        (\<forall>e \<in> set es. active e \<longrightarrow> unat m \<le> unat (packet_id e)) \<and> unat m \<le> unat k"
      using Cons.IH [OF _ small] Cons.prems(1) by simp_all
    have s: "fold min_id_step (e # es) m0 = fold min_id_step es (Some k)"
      using k(1) by simp
    show ?thesis
      unfolding s
    proof (intro conjI allI impI)
      show "(fold min_id_step es (Some k) = None) = (m0 = None \<and> (\<forall>e\<in>set (e # es). \<not> active e))"
        using ih(1) True by simp
    next
      fix m
      assume "fold min_id_step es (Some k) = Some m"
      with ih(2) have m: "\<forall>e \<in> set es. active e \<longrightarrow> unat m \<le> unat (packet_id e)" "unat m \<le> unat k"
        by blast+
      show "\<forall>e\<in>set (e # es). active e \<longrightarrow> unat m \<le> unat (packet_id e)"
        using m k(3) by (simp only: set_simps ball_simps) (blast intro: order_trans)
      show "unat m \<le> unat k'" if "m0 = Some k'" for k'
        using m(2) k(4) [OF that] by (rule order_trans)
    qed
  qed
qed

lemma reliable_min_id_spec:
  assumes "\<forall>e \<in> set (rl_array rel). active e \<longrightarrow> unat (packet_id e) < 2 ^ 31"
  shows "case reliable_min_id rel of
      None \<Rightarrow> \<forall>e \<in> set (rl_array rel). \<not> active e
    | Some m \<Rightarrow> \<forall>e \<in> set (rl_array rel). active e \<longrightarrow> unat m \<le> unat (packet_id e)"
  using min_id_fold [OF assms, of None]
  by (simp only: reliable_min_id_def option.case split: option.split) blast

lemma tx_queue:
  assumes inv: "tx_inv cap ps rel" and small: "length ps + RELIABLE_CAPACITY < 2 ^ 31"
    and g: "reliable_get_buf_output_sequenced rel = Some (Some k, t1)"
    and w: "buf_write (e_buf (rl_array t1 ! k)) p = (True, b)"
    and m: "reliable_mark_active_outgoing (upd_entry t1 k (\<lambda>e. e\<lparr>e_buf := b\<rparr>)) k op = Some t2"
  shows "tx_inv cap (ps @ [p]) t2" "length (rl_array t2) = length (rl_array rel)"
    "stored t2 j \<longleftrightarrow> stored rel j \<or> j = of_nat (length ps)"
proof -
  let ?n = "length (rl_array rel)"
  have wf: "store_wf cap rel" and pid: "rl_packet_id rel = of_nat (length ps)"
    and n: "?n \<le> RELIABLE_CAPACITY" "0 < ?n"
    using inv by (auto simp: tx_inv_def store_wf_def)
  have base: "unat (rl_packet_id rel) = length ps"
    using small by (simp add: pid unat_of_nat)
  have ids: "\<forall>e \<in> set (rl_array rel). active e \<longrightarrow> unat (packet_id e) < 2 ^ 31"
    using inv small by (fastforce simp: tx_inv_def in_set_conv_nth)
  have can: "reliable_can_get rel" and g': "reliable_get_buf rel = Some (Some k, t1)"
    and window: "case reliable_min_id rel of None \<Rightarrow> True
      | Some i \<Rightarrow> reliable_pid_in_range1 (rl_packet_id rel) i (of_nat ?n)"
    using g by (auto simp: reliable_get_buf_output_sequenced_def reliable_get_buf_def reliable_can_get_def
        split: if_splits option.splits dest: find_index_ex)
  obtain kb where t1: "t1 = upd_entry rel k (\<lambda>e. e\<lparr>e_buf := kb\<rparr>)"
    and k: "k < ?n" "\<not> active (rl_array rel ! k)"
    and kb: "buf_wf kb" "buf_defined kb" "content kb = []" "bf_cap kb = cap"
    by (rule reliable_get_buf_some [OF wf can]) (use g' in auto)
  have room: "length ps < unat (packet_id (rl_array rel ! i)) + ?n"
    if i: "i < ?n" "active (rl_array rel ! i)" for i
  proof (cases "reliable_min_id rel")
    case None
    with reliable_min_id_spec [OF ids] have "\<not> active (rl_array rel ! i)"
      using i(1) by simp
    with i(2) show ?thesis
      by blast
  next
    case (Some m)
    have mi: "unat m \<le> unat (packet_id (rl_array rel ! i))"
      using reliable_min_id_spec [OF ids] i Some by simp
    have "unat (packet_id (rl_array rel ! i)) < length ps"
      using inv i by (simp add: tx_inv_def)
    then have "m \<le> rl_packet_id rel"
      using mi base by (simp add: word_le_nat_alt)
    then have "unat (subtract_pid (rl_packet_id rel) m) = length ps - unat m"
      using base by (simp add: subtract_pid_unat)
    moreover have "subtract_pid (rl_packet_id rel) m < of_nat ?n"
      using window Some by (simp add: reliable_pid_in_range1_def)
    moreover have "unat (of_nat ?n :: u32) = ?n"
      using n small by (simp add: unat_of_nat)
    ultimately have "length ps - unat m < ?n"
      by (simp add: word_less_nat_alt)
    then show ?thesis
      using mi by linarith
  qed
  have sp: "buf_safe kb (int (length p))"
    using w k by (simp add: t1 buf_write_unsafe) (metis buf_write_unsafe prod.inject)
  obtain b' where b': "buf_write kb p = (True, b')" "buf_wf b'" "content b' = content kb @ p"
    "bf_cap b' = bf_cap kb" "buf_defined b'"
    by (rule buf_write_safe [OF kb(1) sp])
  have "b = b'"
    using w b'(1) k by (simp add: t1)
  note b = b'(2-) [folded this]
  let ?pid = "rl_packet_id rel"
  obtain pb where pb: "buf_write_prepend b (enc32 ?pid) = (True, pb)"
    and t2: "t2 = upd_entry (rel\<lparr>rl_packet_id := ?pid + 1\<rparr>) k (\<lambda>e. e\<lparr>packet_id := ?pid, e_buf := pb,
       active := True, opcode := op, next_try := 0, timeout := initial_timeout rel\<rparr>)"
    using m k by (auto simp: reliable_mark_active_outgoing_def t1 upd_entry_def Let_def
        split: prod.splits bool.splits)
  have room4: "int (length (enc32 ?pid)) \<le> bf_off b"
    using pb buf_write_prepend_unsafe [of b "enc32 ?pid"] by (cases "int (length (enc32 ?pid)) \<le> bf_off b") auto
  obtain pb' where "buf_write_prepend b (enc32 ?pid) = (True, pb')" "buf_wf pb'"
    "content pb' = enc32 ?pid @ content b" "bf_cap pb' = bf_cap b" "buf_defined pb'"
    by (rule buf_write_prepend_safe [OF b(1,4) room4])
  then have pbs: "buf_wf pb" "buf_defined pb" "bf_cap pb = cap" "content pb = enc32 ?pid @ p"
    using pb b kb by simp_all
  let ?f = "\<lambda>e :: reliable_entry. e\<lparr>packet_id := ?pid, e_buf := pb,
       active := True, opcode := op, next_try := 0, timeout := initial_timeout rel\<rparr>"
  let ?r = "rel\<lparr>rl_packet_id := ?pid + 1\<rparr>"
  have t2': "t2 = upd_entry ?r k ?f"
    by (simp add: t2)
  have arr: "rl_array ?r = rl_array rel" "rl_offset ?r = rl_offset rel"
    by simp_all
  have st: "stored ?r i = stored rel i" for i
    by (simp add: stored_def)
  have new: "\<not> stored rel ?pid"
    using inv base by (auto simp: stored_nth tx_inv_def)
  have off: "0 \<le> rl_offset rel \<and> rl_offset rel \<le> cap"
    using wf k by (auto simp: store_wf_def entry_wf_def)
  have "store_wf cap ?r"
    using wf by (simp add: store_wf_def)
  then have wf2: "store_wf cap t2"
    unfolding t2' using k new pbs off by (intro store_wf_upd_new) (auto simp: st entry_wf_def)
  show "length (rl_array t2) = length (rl_array rel)"
    by (simp add: t2')
  show "stored t2 j \<longleftrightarrow> stored rel j \<or> j = of_nat (length ps)"
    unfolding t2' pid [symmetric] st [symmetric] using k by (intro upd_inactive_stored(1)) auto
  have "rl_packet_id t2 = of_nat (length (ps @ [p]))"
    by (simp add: t2' pid)
  moreover have "unat (packet_id (rl_array t2 ! i)) < length (ps @ [p])
          \<and> length (ps @ [p]) \<le> unat (packet_id (rl_array t2 ! i)) + length (rl_array t2)
          \<and> content (e_buf (rl_array t2 ! i))
             = enc32 (packet_id (rl_array t2 ! i)) @ (ps @ [p]) ! unat (packet_id (rl_array t2 ! i))"
    if "i < length (rl_array t2)" "active (rl_array t2 ! i)" for i
  proof (cases "i = k")
    case True
    then show ?thesis
      using k n pbs base by (simp add: t2')
  next
    case False
    then have i: "i < ?n" "active (rl_array rel ! i)" and e: "rl_array t2 ! i = rl_array rel ! i"
      using that by (simp_all add: t2')
    have "unat (packet_id (rl_array rel ! i)) < length ps"
      "content (e_buf (rl_array rel ! i))
             = enc32 (packet_id (rl_array rel ! i)) @ ps ! unat (packet_id (rl_array rel ! i))"
      using inv i by (simp_all add: tx_inv_def)
    then show ?thesis
      using room [OF i] unfolding e by (simp add: t2' nth_append)
  qed
  ultimately show "tx_inv cap (ps @ [p]) t2"
    using wf2 unfolding tx_inv_def by blast
qed

section \<open>The invariant of the link\<close>

definition link_inv :: "int \<Rightarrow> int \<Rightarrow> link \<Rightarrow> bool" where
  "link_inv ct cr s \<longleftrightarrow>
     tx_inv ct (sent s) (tx s)
     \<and> rx_inv cr (\<lambda>i. sent s ! unat i) (rx s)
     \<and> length (rl_array (tx s)) \<le> length (rl_array (rx s))
     \<and> unat (rl_packet_id (rx s)) \<le> length (sent s)
     \<and> (\<forall>i. stored (rx s) i \<longrightarrow> unat i < length (sent s))
     \<and> got s = take (unat (rl_packet_id (rx s))) (sent s)
     \<and> set (rx_ack s) \<subseteq> acked s
     \<and> (\<forall>i \<in> acked s. unat i < unat (rl_packet_id (rx s)) \<or> stored (rx s) i)
     \<and> (\<forall>c \<in> wire s. \<exists>i. unat i < length (sent s) \<and> c = enc32 i @ sent s ! unat i)
     \<and> (\<forall>i. unat i < length (sent s) \<longrightarrow> stored (tx s) i \<or> i \<in> acked s)"

lemma link_invD:
  assumes "link_inv ct cr s"
  shows "tx_inv ct (sent s) (tx s)" "rx_inv cr (\<lambda>i. sent s ! unat i) (rx s)"
    "unat (rl_packet_id (rx s)) \<le> length (sent s)"
    "\<And>i. stored (rx s) i \<Longrightarrow> unat i < length (sent s)"
    "got s = take (unat (rl_packet_id (rx s))) (sent s)"
    "\<And>i. i \<in> acked s \<Longrightarrow> unat i < unat (rl_packet_id (rx s)) \<or> stored (rx s) i"
    "\<And>i. i \<in> set (rx_ack s) \<Longrightarrow> i \<in> acked s"
    "\<And>c. c \<in> wire s \<Longrightarrow> \<exists>i. unat i < length (sent s) \<and> c = enc32 i @ sent s ! unat i"
    "\<And>i. unat i < length (sent s) \<Longrightarrow> stored (tx s) i \<or> i \<in> acked s"
    "length (rl_array (tx s)) \<le> length (rl_array (rx s))"
  using assms unfolding link_inv_def by blast+

lemma rx_inv_cong:
  assumes "rx_inv cap A rel" "\<And>i. stored rel i \<Longrightarrow> B i = A i"
  shows "rx_inv cap B rel"
proof -
  have "B (packet_id (rl_array rel ! i)) = A (packet_id (rl_array rel ! i))"
    if "i < length (rl_array rel)" "active (rl_array rel ! i)" for i
    using assms(2) that by (auto simp: stored_nth)
  with assms(1) show ?thesis
    by (simp add: rx_inv_def)
qed

lemma link_inv_tx_only:
  assumes inv: "link_inv ct cr s" and t: "tx_inv ct (sent s) t" "length (rl_array t) = length (rl_array (tx s))"
    and keep: "\<And>i. stored (tx s) i \<Longrightarrow> stored t i \<or> i \<in> acked s"
    and w: "\<forall>c \<in> w. \<exists>i. unat i < length (sent s) \<and> c = enc32 i @ sent s ! unat i"
  shows "link_inv ct cr (s\<lparr>tx := t, wire := w\<rparr>)"
  using inv t keep w unfolding link_inv_def by simp blast

lemma link_queue:
  assumes inv: "link_inv ct cr s" and small: "length (sent s) + RELIABLE_CAPACITY < 2 ^ 31"
    and g: "reliable_get_buf_output_sequenced (tx s) = Some (Some k, t1)"
    and w: "buf_write (e_buf (rl_array t1 ! k)) p = (True, b)"
    and m: "reliable_mark_active_outgoing (upd_entry t1 k (\<lambda>e. e\<lparr>e_buf := b\<rparr>)) k op = Some t2"
  shows "link_inv ct cr (s\<lparr>tx := t2, sent := sent s @ [p]\<rparr>)"
proof -
  have t: "tx_inv ct (sent s) (tx s)"
    using inv by (simp add: link_inv_def)
  note q = tx_queue [OF t small g w m]
  have st: "\<And>i. stored (rx s) i \<Longrightarrow> unat i < length (sent s)"
    using inv by (simp add: link_inv_def)
  have rx: "rx_inv cr (\<lambda>i. (sent s @ [p]) ! unat i) (rx s)"
    by (rule rx_inv_cong [OF link_invD(2) [OF inv]]) (simp add: st nth_append)
  have wire: "\<exists>i. unat i < length (sent s @ [p]) \<and> c = enc32 i @ (sent s @ [p]) ! unat i"
    if "c \<in> wire s" for c
  proof -
    obtain i where "unat i < length (sent s)" "c = enc32 i @ sent s ! unat i"
      using inv \<open>c \<in> wire s\<close> unfolding link_inv_def by blast
    then show ?thesis
      by (intro exI [of _ i]) (simp add: nth_append)
  qed
  have all: "stored t2 i \<or> i \<in> acked s" if i: "unat i < length (sent s @ [p])" for i
  proof (cases "unat i < length (sent s)")
    case True
    then have "stored (tx s) i \<or> i \<in> acked s"
      using inv by (simp add: link_inv_def)
    then show ?thesis
      by (auto simp: q(3))
  next
    case False
    with i have "unat i = length (sent s)"
      by simp
    then have "i = of_nat (length (sent s))"
      using small by (simp add: word_unat_eq_iff unat_of_nat)
    then show ?thesis
      by (simp add: q(3))
  qed
  show ?thesis
    unfolding link_inv_def
    using inv q(1,2) rx wire all st by (auto simp: link_inv_def intro: less_SucI)
qed

lemma link_transmit:
  assumes inv: "link_inv ct cr s" and small: "length (sent s) + RELIABLE_CAPACITY < 2 ^ 31"
    and snd: "reliable_send now (tx s) = (Some (k, op), t1)"
  shows "link_inv ct cr (s\<lparr>tx := t1, wire := insert (content (e_buf (rl_array t1 ! k))) (wire s)\<rparr>)"
proof -
  let ?es = "rl_array (tx s)"
  have t: "tx_inv ct (sent s) (tx s)"
    using inv by (simp add: link_inv_def)
  have ids: "\<forall>e \<in> set ?es. active e \<longrightarrow> unat (packet_id e) < 2 ^ 31"
    using t small by (fastforce simp: tx_inv_def in_set_conv_nth)
  obtain f where t1: "t1 = upd_entry (tx s) k f" and f: "shrinks f" "\<And>e. active (f e) = active e"
    using snd by (auto simp: reliable_send_def shrinks_def split: option.splits)
  have "send_best_inv now ?es (length ?es) (fold (send_best_step now ?es) [0..<length ?es] None)"
    by (rule send_best_fold [OF order_refl ids])
  then have k: "k < length ?es" "active (?es ! k)"
    using snd by (auto simp: reliable_send_def send_best_inv_def entry_due_def split: option.splits)
  have inv1: "tx_inv ct (sent s) t1"
  proof (rule tx_inv_shrink [OF t])
    fix i
    assume "i < length ?es"
    then show "packet_id (rl_array t1 ! i) = packet_id (?es ! i)
      \<and> e_buf (rl_array t1 ! i) = e_buf (?es ! i) \<and> (active (rl_array t1 ! i) \<longrightarrow> active (?es ! i))"
      using f by (cases "i = k") (simp_all add: t1 shrinks_def)
  qed (simp_all add: t1)
  have st: "stored t1 i = stored (tx s) i" for i
    using k f by (auto simp: t1 stored_nth shrinks_def nth_list_update)
  have "content (e_buf (rl_array t1 ! k)) = enc32 (packet_id (?es ! k)) @ sent s ! unat (packet_id (?es ! k))"
    "unat (packet_id (?es ! k)) < length (sent s)"
    using k t f by (simp_all add: t1 shrinks_def tx_inv_def)
  then show ?thesis
    using inv inv1 st by (intro link_inv_tx_only) (auto simp: link_inv_def t1)
qed

lemma link_reschedule:
  assumes inv: "link_inv ct cr s"
  shows "link_inv ct cr (s\<lparr>tx := reliable_schedule_now now (tx s)\<rparr>)"
proof -
  have t: "tx_inv ct (sent s) (tx s)"
    using inv by (simp add: link_inv_def)
  have "tx_inv ct (sent s) (reliable_schedule_now now (tx s))"
    by (rule tx_inv_shrink [OF t]) (auto simp: reliable_schedule_now_def)
  moreover have "stored (reliable_schedule_now now (tx s)) i = stored (tx s) i" for i
    by (auto simp: stored_nth reliable_schedule_now_def split: if_splits)
  moreover have "\<forall>c \<in> wire s. \<exists>i. unat i < length (sent s) \<and> c = enc32 i @ sent s ! unat i"
    using inv by (simp add: link_inv_def)
  ultimately have "link_inv ct cr (s\<lparr>tx := reliable_schedule_now now (tx s), wire := wire s\<rparr>)"
    using inv by (intro link_inv_tx_only) (auto simp: reliable_schedule_now_def)
  then show ?thesis
    by simp
qed

lemma stored_purge: "stored (reliable_send_purge rel a) i \<longleftrightarrow> stored rel i \<and> i \<notin> set a"
  by (auto simp: stored_nth send_purge_frame send_purge_entry cong: conj_cong)

lemma link_purge:
  assumes inv: "link_inv ct cr s" and a: "set a \<subseteq> acked s"
  shows "link_inv ct cr (s\<lparr>tx := reliable_send_purge (tx s) a\<rparr>)"
proof -
  have t: "tx_inv ct (sent s) (tx s)"
    using inv by (simp add: link_inv_def)
  have "tx_inv ct (sent s) (reliable_send_purge (tx s) a)"
    by (rule tx_inv_shrink [OF t]) (auto simp: send_purge_frame send_purge_entry)
  moreover have "stored (reliable_send_purge (tx s) a) i \<or> i \<in> acked s" if "stored (tx s) i" for i
    using that a by (auto simp: stored_purge)
  moreover have "\<forall>c \<in> wire s. \<exists>i. unat i < length (sent s) \<and> c = enc32 i @ sent s ! unat i"
    using inv by (simp add: link_inv_def)
  ultimately have "link_inv ct cr (s\<lparr>tx := reliable_send_purge (tx s) a, wire := wire s\<rparr>)"
    using inv by (intro link_inv_tx_only) (auto simp: send_purge_frame)
  then show ?thesis
    by simp
qed

lemma link_arrive:
  assumes inv: "link_inv ct cr s" and small: "length (sent s) + RELIABLE_CAPACITY < 2 ^ 31"
    and b: "buf_wf b" "content b \<in> wire s"
    and r: "tls_rx_store (rx s) (rx_ack s) b op = Some (ok, r1, a1)"
  shows "link_inv ct cr (s\<lparr>rx := r1, rx_ack := a1, acked := acked s \<union> set a1\<rparr>)"
proof -
  let ?A = "\<lambda>i. sent s ! unat i"
  obtain i where i: "unat i < length (sent s)" "content b = enc32 i @ ?A i"
    using inv b(2) unfolding link_inv_def by blast
  have rx: "rx_inv cr ?A (rx s)"
    using inv by (simp add: link_inv_def)
  have le: "unat (rl_packet_id (rx s)) + RELIABLE_CAPACITY < 2 ^ 31"
    using inv small by (simp add: link_inv_def)
  obtain ok' r' a' where s': "tls_rx_store (rx s) (rx_ack s) b op = Some (ok', r', a')"
    "rx_inv cr ?A r'" "rl_packet_id r' = rl_packet_id (rx s)" "rl_offset r' = rl_offset (rx s)"
    "length (rl_array r') = length (rl_array (rx s))"
    and st: "\<And>j. stored r' j \<longleftrightarrow> stored (rx s) j \<or> ok' \<and> j = i"
    and acks: "\<And>j. j \<in> set a' \<Longrightarrow>
      j \<in> set (rx_ack s) \<or> j = i \<and> (stored r' i \<or> unat i < unat (rl_packet_id (rx s)))"
    by (rule tls_rx_store_step [OF rx b(1) i(2) le, of "rx_ack s" op]) (rule that)
  have eq: "r' = r1" "a' = a1"
    using r s'(1) by simp_all
  have "unat j < unat (rl_packet_id r1) \<or> stored r1 j" if "j \<in> acked s \<union> set a1" for j
    using that link_invD(6,7) [OF inv] acks [unfolded eq] st [unfolded eq]
    unfolding s'(3) [unfolded eq] by blast
  then have "\<forall>j \<in> acked s \<union> set a1. unat j < unat (rl_packet_id r1) \<or> stored r1 j"
    by blast
  moreover have "\<forall>j. stored r1 j \<longrightarrow> unat j < length (sent s)"
    using inv st i(1) unfolding eq link_inv_def by blast
  ultimately show ?thesis
    using inv s'(2,3,5) unfolding eq link_inv_def by auto
qed

lemma link_consume:
  assumes inv: "link_inv ct cr s" and small: "length (sent s) + RELIABLE_CAPACITY < 2 ^ 31"
    and e: "reliable_get_entry_sequenced (rx s) = Some k"
    and r: "reliable_mark_deleted (rx s) k = Some r1"
  shows "link_inv ct cr (s\<lparr>rx := r1, got := got s @ [content (e_buf (rl_array (rx s) ! k))]\<rparr>)"
proof -
  let ?A = "\<lambda>i. sent s ! unat i"
  have rx: "rx_inv cr ?A (rx s)"
    using inv by (simp add: link_inv_def)
  have le: "unat (rl_packet_id (rx s)) + RELIABLE_CAPACITY < 2 ^ 31"
    using inv small by (simp add: link_inv_def)
  obtain r' where s': "reliable_mark_deleted (rx s) k = Some r'" "rx_inv cr ?A r'"
    "rl_packet_id r' = rl_packet_id (rx s) + 1" "rl_offset r' = rl_offset (rx s)"
    "length (rl_array r') = length (rl_array (rx s))"
    "content (e_buf (rl_array (rx s) ! k)) = ?A (rl_packet_id (rx s))"
    "unat (rl_packet_id (rx s) + 1) = unat (rl_packet_id (rx s)) + 1"
    and st: "\<And>j. stored r' j \<longleftrightarrow> stored (rx s) j \<and> j \<noteq> rl_packet_id (rx s)"
    by (rule deliver_step [OF rx le e]) (rule that)
  have eq: "r' = r1"
    using r s'(1) by simp
  have "stored (rx s) (rl_packet_id (rx s))"
    using get_entry_sequenced [OF e] by (auto simp: stored_nth)
  then have lt: "unat (rl_packet_id (rx s)) < length (sent s)"
    using inv by (simp add: link_inv_def)
  have "\<forall>j \<in> acked s. unat j < unat (rl_packet_id r1) \<or> stored r1 j"
  proof
    fix j
    assume "j \<in> acked s"
    then have "unat j < unat (rl_packet_id (rx s)) \<or> stored (rx s) j"
      using inv by (simp add: link_inv_def)
    moreover have "unat (rl_packet_id r1) = unat (rl_packet_id (rx s)) + 1"
      using s'(3,7) unfolding eq by simp
    ultimately show "unat j < unat (rl_packet_id r1) \<or> stored r1 j"
      using st [unfolded eq, of j] by (metis less_Suc_eq Suc_eq_plus1)
  qed
  moreover have "\<forall>j. stored r1 j \<longrightarrow> unat j < length (sent s)"
    using inv st unfolding eq link_inv_def by blast
  moreover have "got s @ [?A (rl_packet_id (rx s))] = take (unat (rl_packet_id r1)) (sent s)"
    using inv s'(3,7) lt unfolding eq by (simp add: link_inv_def take_Suc_conv_app_nth)
  moreover have "unat (rl_packet_id r1) \<le> length (sent s)"
    using lt s'(3,7) unfolding eq by simp
  ultimately show ?thesis
    using inv s'(2,5,6) unfolding eq link_inv_def by auto
qed

lemma link_step_inv:
  assumes "link_step s s'" "link_inv ct cr s" "length (sent s) + RELIABLE_CAPACITY < 2 ^ 31"
  shows "link_inv ct cr s'"
  using assms
proof (cases rule: link_step.cases)
  case (ack_sent n)
  then show ?thesis
    using assms(2) by (auto simp: link_inv_def dest: in_set_dropD)
qed (auto intro: link_queue link_transmit link_reschedule link_purge link_arrive link_consume)

lemma link_sent_mono: "link_step s s' \<Longrightarrow> length (sent s) \<le> length (sent s')"
  by (cases rule: link_step.cases) auto

lemma link_reach_inv:
  assumes "link_reach t r s" "length (sent s) + RELIABLE_CAPACITY < 2 ^ 31"
    and "reliable_init sz_t off_t nt ht = Some t" "reliable_init sz_r off_r nr hr = Some r" "nt \<le> nr"
  shows "link_inv sz_t sz_r s"
  using assms(1,2)
proof (induction rule: link_reach.induct)
  case start
  note it = reliable_init_inv [OF assms(3)] and ir = reliable_init_inv [OF assms(4)]
  have store: "store_wf sz_t t"
    using it(1) [of "\<lambda>_. []"] by (simp add: rx_inv_def)
  have none: "\<not> active e" if "e \<in> set (rl_array t) \<union> set (rl_array r)" for e
    using that assms(3,4)
    by (auto simp: reliable_init_def clear_entry_def split: if_splits option.splits prod.splits bool.splits)
  have "tx_inv sz_t [] t"
    using store it(2) none by (auto simp: tx_inv_def)
  moreover have "length (rl_array t) \<le> length (rl_array r)"
    using it(3) ir(3) assms(5) by linarith
  moreover have "\<not> stored r i" "\<not> stored t i" for i
    using none by (auto simp: stored_def list_ex_iff)
  ultimately show ?case
    using ir(1,2) by (simp add: link_inv_def link_start_def)
next
  case (step s s')
  then show ?case
    using link_sent_mono [OF step(2)] by (intro link_step_inv [OF step(2)]) auto
qed

section \<open>Properties\<close>

text \<open>C6: End to end, the control channel is a lossless FIFO. Whatever the network does to the
  transmitted packets and to the acknowledgements (loss, duplication, reordering), what the
  receiving end has handed to TLS is at every moment a prefix of what the sending end has
  queued, and every queued packet not yet delivered is still held by one of the two ends.\<close>

theorem link_fifo:
  assumes "link_reach t r s" "length (sent s) + RELIABLE_CAPACITY < 2 ^ 31"
    and "reliable_init sz_t off_t nt ht = Some t" "reliable_init sz_r off_r nr hr = Some r" "nt \<le> nr"
  shows "got s = take (length (got s)) (sent s)
     \<and> {i. length (got s) \<le> unat i \<and> unat i < length (sent s)} \<subseteq> {i. stored (tx s) i} \<union> {i. stored (rx s) i}"
proof -
  note inv = link_reach_inv [OF assms]
  have l: "length (got s) = unat (rl_packet_id (rx s))"
    using link_invD(3,5) [OF inv] by simp
  have "stored (tx s) i \<or> stored (rx s) i" if "length (got s) \<le> unat i" "unat i < length (sent s)" for i
    using link_invD(9) [OF inv that(2)] link_invD(6) [OF inv, of i] that(1) l by auto
  moreover have "got s = take (length (got s)) (sent s)"
    using link_invD(5) [OF inv] l by simp
  ultimately show ?thesis
    by auto
qed

text \<open>C7: The two windows fit together. When the receiving end has consumed all it can, every
  packet the sending end still holds is inside the receive window, so that no
  retransmission is refused for breaking sequentiality; and unless everything queued has
  been delivered, the packet the receiver waits for is among them.\<close>

theorem link_windows_agree:
  assumes "link_reach t r s" "length (sent s) + RELIABLE_CAPACITY < 2 ^ 31"
    and "reliable_init sz_t off_t nt ht = Some t" "reliable_init sz_r off_r nr hr = Some r" "nt \<le> nr"
    and "reliable_get_entry_sequenced (rx s) = None"
  shows "(stored (tx s) i \<longrightarrow> reliable_wont_break_sequentiality (rx s) i)
     \<and> (got s = sent s \<or> stored (tx s) (rl_packet_id (rx s)))"
proof -
  note inv = link_reach_inv [OF assms(1-5)]
  let ?base = "rl_packet_id (rx s)"
  have rx: "store_wf sz_r (rx s)" and tx: "tx_inv sz_t (sent s) (tx s)"
    using link_invD(1,2) [OF inv] by (simp_all add: rx_inv_def)
  have nostore: "\<not> stored (rx s) ?base"
    using assms(6) by (simp add: stored_def reliable_get_entry_sequenced_def)
  have wait: "unat ?base = length (sent s) \<or> stored (tx s) ?base"
    using link_invD(3,6,9) [OF inv] nostore by (metis le_neq_implies_less less_irrefl)
  have n: "length (rl_array (rx s)) \<le> RELIABLE_CAPACITY" "length (rl_array (tx s)) \<le> length (rl_array (rx s))"
    "0 < length (rl_array (rx s))"
    using rx link_invD(10) [OF inv] by (simp_all add: store_wf_def)
  have upper: "length (sent s) \<le> unat ?base + length (rl_array (rx s))"
    using wait
  proof
    assume "stored (tx s) ?base"
    then have "length (sent s) \<le> unat ?base + length (rl_array (tx s))"
      using tx by (auto simp: stored_nth tx_inv_def)
    then show ?thesis
      using n(2) by linarith
  qed simp
  have "reliable_wont_break_sequentiality (rx s) i" if "stored (tx s) i"
  proof -
    have "unat i < length (sent s)"
      using that tx by (auto simp: stored_nth tx_inv_def)
    moreover have "unat ?base + length (rl_array (rx s)) < 2 ^ 32"
      using n(1) link_invD(3) [OF inv] assms(2) by simp
    ultimately show ?thesis
      unfolding reliable_wont_break_sequentiality_def using upper by (subst in_range2_nowrap) linarith+
  qed
  moreover have "got s = sent s \<or> stored (tx s) ?base"
    using wait link_invD(5) [OF inv] by auto
  ultimately show ?thesis
    by blast
qed

text \<open>A short run: one packet queued, transmitted, received and consumed, a second one queued.\<close>

definition demo_t0 :: reliable where "demo_t0 = the (reliable_init 16 4 2 False)"
definition demo_t1 :: reliable where "demo_t1 = snd (the (reliable_get_buf_output_sequenced demo_t0))"
definition demo_b1 :: buffer where "demo_b1 = snd (buf_write (e_buf (rl_array demo_t1 ! 0)) [5, 6])"
definition demo_t2 :: reliable where
  "demo_t2 = the (reliable_mark_active_outgoing (upd_entry demo_t1 0 (\<lambda>e. e\<lparr>e_buf := demo_b1\<rparr>)) 0 4)"
definition demo_t3 :: reliable where "demo_t3 = snd (reliable_send 1 demo_t2)"
definition demo_net :: buffer where
  "demo_net = \<lparr>bf_cap = 6, bf_off = 0, bf_len = 6, bf_data = Some [0, 0, 0, 0, 5, 6]\<rparr>"
definition demo_r0 :: reliable where "demo_r0 = the (reliable_init 16 4 3 False)"
definition demo_r1 :: reliable where "demo_r1 = fst (snd (the (tls_rx_store demo_r0 [] demo_net 4)))"
definition demo_r2 :: reliable where "demo_r2 = the (reliable_mark_deleted demo_r1 0)"

lemma demo_link_runs:
  "reliable_init 16 4 2 False = Some demo_t0" "reliable_init 16 4 3 False = Some demo_r0"
  "reliable_get_buf_output_sequenced demo_t0 = Some (Some 0, demo_t1)"
  "buf_write (e_buf (rl_array demo_t1 ! 0)) [5, 6] = (True, demo_b1)"
  "reliable_mark_active_outgoing (upd_entry demo_t1 0 (\<lambda>e. e\<lparr>e_buf := demo_b1\<rparr>)) 0 4 = Some demo_t2"
  "reliable_send 1 demo_t2 = (Some (0, 4), demo_t3)"
  "content (e_buf (rl_array demo_t3 ! 0)) = content demo_net" "buf_wf demo_net"
  "tls_rx_store demo_r0 [] demo_net 4 = Some (True, demo_r1, [0])"
  "reliable_get_entry_sequenced demo_r1 = Some 0" "reliable_mark_deleted demo_r1 0 = Some demo_r2"
  "reliable_get_entry_sequenced demo_r2 = None"
  "content (e_buf (rl_array demo_r1 ! 0)) = [5, 6]"
  by code_simp+

definition demo_link :: link where
  "demo_link = \<lparr>tx = demo_t3, rx = demo_r2, rx_ack = [0], acked = {0}, wire = {content demo_net},
                sent = [[5, 6]], got = [[5, 6]]\<rparr>"

lemma demo_link_reach: "link_reach demo_t0 demo_r0 demo_link"
proof -
  let ?s0 = "link_start demo_t0 demo_r0"
  let ?s1 = "?s0\<lparr>tx := demo_t2, sent := sent ?s0 @ [[5, 6]]\<rparr>"
  let ?s2 = "?s1\<lparr>tx := demo_t3, wire := insert (content (e_buf (rl_array demo_t3 ! 0))) (wire ?s1)\<rparr>"
  let ?s3 = "?s2\<lparr>rx := demo_r1, rx_ack := [0], acked := acked ?s2 \<union> set [0]\<rparr>"
  let ?s4 = "?s3\<lparr>rx := demo_r2, got := got ?s3 @ [content (e_buf (rl_array (rx ?s3) ! 0))]\<rparr>"
  have "link_step ?s0 ?s1"
    by (rule link_step.queue) (use demo_link_runs in \<open>simp_all add: link_start_def\<close>)
  with link_reach.start have "link_reach demo_t0 demo_r0 ?s1"
    by (rule link_reach.step)
  moreover have "link_step ?s1 ?s2"
    by (rule link_step.transmit) (use demo_link_runs in \<open>simp add: link_start_def\<close>)
  ultimately have "link_reach demo_t0 demo_r0 ?s2"
    by (rule link_reach.step)
  moreover have "link_step ?s2 ?s3"
    by (rule link_step.arrive [where b = demo_net])
      (use demo_link_runs in \<open>simp_all add: link_start_def\<close>)
  ultimately have "link_reach demo_t0 demo_r0 ?s3"
    by (rule link_reach.step)
  moreover have "link_step ?s3 ?s4"
    by (rule link_step.consume) (use demo_link_runs in \<open>simp_all add: link_start_def\<close>)
  ultimately have "link_reach demo_t0 demo_r0 ?s4"
    by (rule link_reach.step)
  moreover have "?s4 = demo_link"
    by (simp add: demo_link_def link_start_def demo_link_runs)
  ultimately show ?thesis
    by (simp only:)
qed

lemma demo_link_small: "length (sent demo_link) + RELIABLE_CAPACITY < 2 ^ 31"
  by (simp add: demo_link_def RELIABLE_CAPACITY_def)

theorem link_fifo_witness:
  "got demo_link = take (length (got demo_link)) (sent demo_link) \<and> got demo_link = [[5, 6]]"
  using link_fifo [OF demo_link_reach demo_link_small demo_link_runs(1,2)]
  by (simp add: demo_link_def)

theorem link_windows_agree_witness:
  "stored (tx demo_link) 0 \<and> reliable_wont_break_sequentiality (rx demo_link) 0"
proof -
  have "reliable_get_entry_sequenced (rx demo_link) = None"
    by (simp add: demo_link_def demo_link_runs)
  moreover have "stored demo_t3 0"
    by code_simp
  ultimately show ?thesis
    using link_windows_agree [OF demo_link_reach demo_link_small demo_link_runs(1,2), of 0]
    by (simp add: demo_link_def)
qed

end
