(* ===== verification/Crypto_Key.thy ===== *)
theory Crypto_Key
  imports Packet_Id
begin

text \<open>
  Keys of the data channel (\<^verbatim>\<open>crypto.c\<close>, \<^verbatim>\<open>crypto.h\<close> and the key derivation of \<^verbatim>\<open>crypto_epoch.c\<close>):
  the key structures, how a context is set up from a key and freed, the usage limits of an AEAD
  key, and the expansion that makes epoch keys and data keys.

  The cryptographic library is a parameter, see \<open>cipher_kt\<close>, \<open>md_kt\<close> and the argument \<open>hm\<close>
  for HMAC-SHA256. A failed \<^verbatim>\<open>ASSERT\<close>, \<^verbatim>\<open>M_FATAL\<close> and an access outside an array are \<open>None\<close>.
\<close>

unbundle bit_operations_syntax

section \<open>Ciphers and digests\<close>

text \<open>
  The cryptographic library is a parameter: a cipher is what the calls of \<^verbatim>\<open>crypto_backend.h\<close>
  answer for it. \<open>ck_enc\<close> and \<open>ck_enc_final\<close> are the bytes \<^verbatim>\<open>cipher_ctx_update\<close> and
  \<^verbatim>\<open>cipher_ctx_final\<close> put out for a key, an IV, the authenticated data and the input,
  \<open>ck_tag\<close> those of \<^verbatim>\<open>cipher_ctx_get_tag\<close>; \<open>ck_dec\<close> and \<open>ck_dec_final\<close> are the same for
  decryption, where a call can fail and the last one gets the tag of the packet.
\<close>

datatype cipher_mode = MODE_AEAD | MODE_CBC | MODE_OFB_CFB | MODE_OTHER

record cipher_kt =
  ck_name :: string
  ck_mode :: cipher_mode
  ck_iv_size :: int
  ck_key_size :: int
  ck_block_size :: int
  ck_tag_size :: int
  ck_reset :: "byte list \<Rightarrow> byte list \<Rightarrow> bool"
  ck_enc :: "byte list \<Rightarrow> byte list \<Rightarrow> byte list \<Rightarrow> byte list \<Rightarrow> byte list"
  ck_enc_final :: "byte list \<Rightarrow> byte list \<Rightarrow> byte list \<Rightarrow> byte list \<Rightarrow> byte list"
  ck_tag :: "byte list \<Rightarrow> byte list \<Rightarrow> byte list \<Rightarrow> byte list \<Rightarrow> byte list"
  ck_dec :: "byte list \<Rightarrow> byte list \<Rightarrow> byte list \<Rightarrow> byte list \<Rightarrow> byte list option"
  ck_dec_final :: "byte list \<Rightarrow> byte list \<Rightarrow> byte list \<Rightarrow> byte list \<Rightarrow> byte list \<Rightarrow> byte list option"

record md_kt =
  md_size :: int
  md_hmac :: "byte list \<Rightarrow> byte list \<Rightarrow> byte list"

definition MAX_CIPHER_KEY_LENGTH :: int where "MAX_CIPHER_KEY_LENGTH = 64"
definition MAX_HMAC_KEY_LENGTH :: int where "MAX_HMAC_KEY_LENGTH = 64"
definition OPENVPN_MAX_IV_LENGTH :: int where "OPENVPN_MAX_IV_LENGTH = 16"
definition OPENVPN_AEAD_TAG_LENGTH :: int where "OPENVPN_AEAD_TAG_LENGTH = 16"
definition OPENVPN_AEAD_MIN_IV_LEN :: int where "OPENVPN_AEAD_MIN_IV_LEN = 4 + 8"
definition SHA256_DIGEST_LENGTH :: int where "SHA256_DIGEST_LENGTH = 32"
definition AEAD_LIMIT_BLOCKSIZE :: int where "AEAD_LIMIT_BLOCKSIZE = 16"

section \<open>Keys\<close>

text \<open>\<open>None\<close> is the name \<^verbatim>\<open>"none"\<close>.\<close>

record key_type =
  kt_cipher :: "cipher_kt option"
  kt_digest :: "md_kt option"

record raw_key =
  rk_cipher :: "byte list"
  rk_hmac :: "byte list"

record key_parameters =
  kp_cipher :: "byte list"
  kp_cipher_size :: int
  kp_hmac :: "byte list"
  kp_hmac_size :: int
  kp_epoch :: u16

record epoch_key =
  ek_key :: "byte list"
  ek_epoch :: u16

text \<open>
  A context holds what it was initialised with: the cipher and its key, the digest and its key.
  \<open>kc_iv\<close> is the IV that the last \<^verbatim>\<open>cipher_ctx_reset\<close> put into the cipher context for sealing;
  where nothing but the next two calls reads it, the IV is an argument of \<open>ck_enc\<close> and \<open>ck_dec\<close>.
\<close>

record key_ctx =
  kc_cipher :: "(cipher_kt \<times> byte list) option"
  kc_hmac :: "(md_kt \<times> byte list) option"
  kc_iv :: "byte list"
  implicit_iv :: "byte list"
  plaintext_blocks :: u64
  failed_verifications :: u64
  kc_epoch :: u16

record key_ctx_bi =
  bi_encrypt :: key_ctx
  bi_decrypt :: key_ctx
  bi_initialized :: bool

definition clear_key_ctx :: key_ctx where
  "clear_key_ctx = \<lparr>kc_cipher = None, kc_hmac = None, kc_iv = [], implicit_iv = replicate (nat OPENVPN_MAX_IV_LENGTH) 0,
     plaintext_blocks = 0, failed_verifications = 0, kc_epoch = 0\<rparr>"

definition clear_key_parameters :: key_parameters where
  "clear_key_parameters = \<lparr>kp_cipher = replicate (nat MAX_CIPHER_KEY_LENGTH) 0, kp_cipher_size = 0,
     kp_hmac = replicate (nat MAX_HMAC_KEY_LENGTH) 0, kp_hmac_size = 0, kp_epoch = 0\<rparr>"

definition key_parameters_from_key :: "raw_key \<Rightarrow> key_parameters" where
  "key_parameters_from_key key =
     \<lparr>kp_cipher = rk_cipher key, kp_cipher_size = MAX_CIPHER_KEY_LENGTH,
      kp_hmac = rk_hmac key, kp_hmac_size = MAX_HMAC_KEY_LENGTH, kp_epoch = 0\<rparr>"

definition cipher_ctx_mode_aead :: "key_ctx \<Rightarrow> bool" where
  "cipher_ctx_mode_aead ctx = (case kc_cipher ctx of None \<Rightarrow> False | Some (c, k) \<Rightarrow> ck_mode c = MODE_AEAD)"

definition key_ctx_update_implicit_iv :: "key_ctx \<Rightarrow> key_parameters \<Rightarrow> key_ctx option" where
  "key_ctx_update_implicit_iv ctx key =
     (case kc_cipher ctx of
        None \<Rightarrow> Some ctx
      | Some (c, k) \<Rightarrow>
          if ck_mode c = MODE_AEAD
          then if \<not> ck_iv_size c \<ge> OPENVPN_AEAD_MIN_IV_LEN then None
               else let (impl_iv_len, impl_iv_offset) =
                          (if kp_epoch key \<noteq> 0 then (ck_iv_size c, 0) else (ck_iv_size c - 4, 4))
                    in if impl_iv_offset + impl_iv_len \<le> OPENVPN_MAX_IV_LENGTH
                          \<and> impl_iv_len \<le> MAX_HMAC_KEY_LENGTH \<and> impl_iv_len \<le> kp_hmac_size key
                       then Some (ctx\<lparr>implicit_iv :=
                              mem_put (replicate (nat OPENVPN_MAX_IV_LENGTH) 0) (nat impl_iv_offset)
                                (take (nat impl_iv_len) (kp_hmac key))\<rparr>)
                       else None
          else Some ctx)"

definition init_key_ctx :: "key_parameters \<Rightarrow> key_type \<Rightarrow> key_ctx option" where
  "init_key_ctx key kt =
     (if (case kt_cipher kt of None \<Rightarrow> True | Some c \<Rightarrow> kp_cipher_size key \<ge> ck_key_size c)
         \<and> (case kt_digest kt of None \<Rightarrow> True | Some md \<Rightarrow> kp_hmac_size key \<ge> md_size md)
      then Some (clear_key_ctx
             \<lparr>kc_cipher := map_option (\<lambda>c. (c, take (nat (ck_key_size c)) (kp_cipher key))) (kt_cipher kt),
              kc_hmac := map_option (\<lambda>md. (md, take (nat (md_size md)) (kp_hmac key))) (kt_digest kt),
              kc_epoch := kp_epoch key\<rparr>)
      else None)"

definition init_key_bi_ctx_send :: "key_parameters \<Rightarrow> key_type \<Rightarrow> key_ctx option" where
  "init_key_bi_ctx_send key_params kt =
     (case init_key_ctx key_params kt of None \<Rightarrow> None
      | Some ctx \<Rightarrow> (case key_ctx_update_implicit_iv ctx key_params of None \<Rightarrow> None
         | Some ctx1 \<Rightarrow> Some (ctx1\<lparr>kc_epoch := kp_epoch key_params\<rparr>)))"

definition init_key_bi_ctx_recv :: "key_parameters \<Rightarrow> key_type \<Rightarrow> key_ctx option" where
  "init_key_bi_ctx_recv key_params kt =
     (case init_key_ctx key_params kt of None \<Rightarrow> None
      | Some ctx \<Rightarrow> (case key_ctx_update_implicit_iv ctx key_params of None \<Rightarrow> None
         | Some ctx1 \<Rightarrow> Some (ctx1\<lparr>kc_epoch := kp_epoch key_params\<rparr>)))"

datatype key_direction = KEY_DIRECTION_BIDIRECTIONAL | KEY_DIRECTION_NORMAL | KEY_DIRECTION_INVERSE

record key_direction_state =
  out_key :: nat
  in_key :: nat
  need_keys :: int

fun key_direction_state_init :: "key_direction \<Rightarrow> key_direction_state" where
  "key_direction_state_init KEY_DIRECTION_NORMAL = \<lparr>out_key = 0, in_key = 1, need_keys = 2\<rparr>"
| "key_direction_state_init KEY_DIRECTION_INVERSE = \<lparr>out_key = 1, in_key = 0, need_keys = 2\<rparr>"
| "key_direction_state_init KEY_DIRECTION_BIDIRECTIONAL = \<lparr>out_key = 0, in_key = 0, need_keys = 1\<rparr>"

definition init_key_ctx_bi :: "raw_key list \<Rightarrow> key_direction \<Rightarrow> key_type \<Rightarrow> key_ctx_bi option" where
  "init_key_ctx_bi keys key_direction kt =
     (let kds = key_direction_state_init key_direction;
          send_key = key_parameters_from_key (keys ! out_key kds);
          recv_key = key_parameters_from_key (keys ! in_key kds)
      in case (init_key_bi_ctx_send send_key kt, init_key_bi_ctx_recv recv_key kt) of
           (Some e, Some d) \<Rightarrow> Some \<lparr>bi_encrypt = e, bi_decrypt = d, bi_initialized = True\<rparr>
         | _ \<Rightarrow> None)"

definition free_key_ctx :: "key_ctx \<Rightarrow> key_ctx" where
  "free_key_ctx ctx = ctx\<lparr>kc_cipher := None, kc_hmac := None, kc_iv := [],
     implicit_iv := replicate (nat OPENVPN_MAX_IV_LENGTH) 0, plaintext_blocks := 0, kc_epoch := 0\<rparr>"

definition key_is_zero :: "raw_key \<Rightarrow> cipher_kt \<Rightarrow> bool" where
  "key_is_zero key c = list_all (\<lambda>b. b = 0) (take (nat (ck_key_size c)) (rk_cipher key))"

definition check_key :: "raw_key \<Rightarrow> key_type \<Rightarrow> bool" where
  "check_key key kt = (case kt_cipher kt of None \<Rightarrow> True | Some c \<Rightarrow> \<not> key_is_zero key c)"

section \<open>Limits of a key\<close>

definition cipher_get_aead_limits :: "cipher_kt option \<Rightarrow> u64" where
  "cipher_get_aead_limits c =
     (case c of None \<Rightarrow> 0
      | Some c \<Rightarrow> if ck_mode c \<noteq> MODE_AEAD then 0
                  else if ck_name c = ''CHACHA20-POLY1305'' then 0
                  else push_bit 36 1 - 1)"

definition cipher_decrypt_verify_fail_exceeded :: "key_ctx \<Rightarrow> bool" where
  "cipher_decrypt_verify_fail_exceeded ctx \<longleftrightarrow> failed_verifications ctx > push_bit 36 1"

definition cipher_decrypt_verify_fail_warn :: "key_ctx \<Rightarrow> bool" where
  "cipher_decrypt_verify_fail_warn ctx \<longleftrightarrow> failed_verifications ctx > push_bit 35 1"

definition aead_usage_limit_reached :: "u64 \<Rightarrow> key_ctx \<Rightarrow> u64 \<Rightarrow> bool" where
  "aead_usage_limit_reached limit ctx higest_pid \<longleftrightarrow> limit > 0 \<and> plaintext_blocks ctx + higest_pid > limit"

section \<open>Key derivation\<close>

text \<open>
  HMAC-SHA256 is the parameter \<open>hm\<close>. The blocks of the expansion from number \<open>block\<close> on:
  the counter is a byte, and block 0, reached after 255 blocks, would be written in front of
  the output.
\<close>

function hkdf_blocks :: "(byte list \<Rightarrow> byte list \<Rightarrow> byte list) \<Rightarrow> byte list \<Rightarrow> byte list \<Rightarrow> int \<Rightarrow> byte list \<Rightarrow> byte \<Rightarrow> byte list option" where
  "hkdf_blocks hm secret info out_len t_prev block =
     (if (uint block - 1) * SHA256_DIGEST_LENGTH < out_len
      then if block = 0 then None
           else let t = hm secret (t_prev @ info @ [block]);
                    out_offset = (uint block - 1) * SHA256_DIGEST_LENGTH;
                    copylen = min_int SHA256_DIGEST_LENGTH (out_len - out_offset)
                in map_option (\<lambda>out. take (nat copylen) t @ out) (hkdf_blocks hm secret info out_len t (block + 1))
      else Some [])"
  by pat_completeness auto
termination
proof (relation "measure (\<lambda>(hm, s, i, n, t, block). if block = 0 then 0 else 256 - unat block)", simp, goal_cases)
  case (1 hm secret info out_len t_prev block)
  then have "unat block \<noteq> 0" by (simp add: unat_eq_0)
  moreover have "unat block < 256" using unat_bound[of block] by simp
  moreover have "unat (block + 1) = (unat block + 1) mod 256" by (simp add: unat_word_ariths)
  ultimately have "block + 1 = 0 \<or> unat (block + 1) = unat block + 1" by (cases "unat block = 255") (auto simp: unat_eq_0)
  then show ?case using 1 \<open>unat block \<noteq> 0\<close> \<open>unat block < 256\<close> by auto
qed

declare hkdf_blocks.simps [simp del]

definition ovpn_hkdf_expand :: "(byte list \<Rightarrow> byte list \<Rightarrow> byte list) \<Rightarrow> byte list \<Rightarrow> byte list \<Rightarrow> int \<Rightarrow> byte list option" where
  "ovpn_hkdf_expand hm secret info out_len = hkdf_blocks hm secret info out_len [] 1"

definition ascii :: "string \<Rightarrow> byte list" where
  "ascii s = map (\<lambda>c. of_char c) s"

text \<open>The result is \<open>None\<close> for \<^verbatim>\<open>false\<close> (no output is written then) and where the expansion leaves its output.\<close>

definition ovpn_expand_label ::
  "(byte list \<Rightarrow> byte list \<Rightarrow> byte list) \<Rightarrow> byte list \<Rightarrow> byte list \<Rightarrow> byte list \<Rightarrow> u16 \<Rightarrow> byte list option" where
  "ovpn_expand_label hm secret label ctx out_len =
     (if length secret \<noteq> 32 \<or> length label > 250 \<or> length ctx > 255 \<or> length label < 1 then None
      else let prefix = ascii ''ovpn '';
               hkdf_label = enc16 out_len @ [of_nat (length prefix + length label)] @ prefix @ label
                 @ [of_nat (length ctx)] @ ctx
           in ovpn_hkdf_expand hm secret hkdf_label (uint out_len))"

definition epoch_key_iterate :: "(byte list \<Rightarrow> byte list \<Rightarrow> byte list) \<Rightarrow> epoch_key \<Rightarrow> epoch_key option" where
  "epoch_key_iterate hm key =
     map_option (\<lambda>out. \<lparr>ek_key = out, ek_epoch = ek_epoch key + 1\<rparr>)
       (ovpn_expand_label hm (ek_key key) (ascii ''datakey upd'') [] (of_int SHA256_DIGEST_LENGTH))"

text \<open>\<open>key\<close> is the structure the caller cleared.\<close>

definition epoch_data_key_derive ::
  "(byte list \<Rightarrow> byte list \<Rightarrow> byte list) \<Rightarrow> key_parameters \<Rightarrow> epoch_key \<Rightarrow> key_type \<Rightarrow> key_parameters option" where
  "epoch_data_key_derive hm key epoch_key kt =
     (case kt_cipher kt of None \<Rightarrow> None
      | Some c \<Rightarrow>
          (case (ovpn_expand_label hm (ek_key epoch_key) (ascii ''data_key'') [] (of_int (ck_key_size c)),
                 ovpn_expand_label hm (ek_key epoch_key) (ascii ''data_iv'') [] (of_int (ck_iv_size c))) of
             (Some k, Some iv) \<Rightarrow>
               Some \<lparr>kp_cipher = mem_put (kp_cipher key) 0 k, kp_cipher_size = ck_key_size c,
                     kp_hmac = mem_put (kp_hmac key) 0 iv, kp_hmac_size = ck_iv_size c,
                     kp_epoch = ek_epoch epoch_key\<rparr>
           | _ \<Rightarrow> None))"

end
