(* ===== verification/Crypto_Epoch.thy ===== *)
theory Crypto_Epoch
  imports Crypto_Key
begin

text \<open>
  Epoch keys (\<^verbatim>\<open>crypto_epoch.c\<close>): the state \<^verbatim>\<open>struct crypto_options\<close>, moving the send key on,
  the array of future receive keys, and moving the receive key on.

  \<open>epoch_chain\<close> is the key of each epoch, \<open>epoch_inv\<close> the invariant: the current receive key,
  the future keys without a gap behind it, the send key, which is never older, and the retiring
  key, each the key of its epoch. \<open>init_ok\<close>, \<open>iterate_send_ok\<close>, \<open>check_send_ok\<close> and
  \<open>replace_ok\<close> show that every operation keeps it, and \<open>jump_to_last\<close> the one case in which the
  receive key cannot be moved on.
\<close>

unbundle bit_operations_syntax

section \<open>State\<close>

record crypto_options =
  key_bi :: key_ctx_bi
  epoch_key_send :: epoch_key
  epoch_key_recv :: epoch_key
  epoch_key_type :: key_type
  aead_usage_limit :: u64
  epoch_data_keys_future :: "key_ctx list"
  epoch_retiring_key :: key_ctx
  epoch_retiring_pid :: packet_id_rec
  co_packet_id :: packet_id
  co_pid_persist :: "packet_id_persist option"
  co_flags :: u32

definition CO_PACKET_ID_LONG_FORM :: u32 where "CO_PACKET_ID_LONG_FORM = 1"
definition CO_IGNORE_PACKET_ID :: u32 where "CO_IGNORE_PACKET_ID = 2"
definition CO_EPOCH_DATA_KEY_FORMAT :: u32 where "CO_EPOCH_DATA_KEY_FORMAT = 0x100"

abbreviation encrypt_ctx :: "crypto_options \<Rightarrow> key_ctx" where
  "encrypt_ctx co \<equiv> bi_encrypt (key_bi co)"

abbreviation decrypt_ctx :: "crypto_options \<Rightarrow> key_ctx" where
  "decrypt_ctx co \<equiv> bi_decrypt (key_bi co)"

definition set_encrypt :: "key_ctx \<Rightarrow> crypto_options \<Rightarrow> crypto_options" where
  "set_encrypt ctx co = co\<lparr>key_bi := (key_bi co)\<lparr>bi_encrypt := ctx\<rparr>\<rparr>"

definition set_decrypt :: "key_ctx \<Rightarrow> crypto_options \<Rightarrow> crypto_options" where
  "set_decrypt ctx co = co\<lparr>key_bi := (key_bi co)\<lparr>bi_decrypt := ctx\<rparr>\<rparr>"

definition set_pid_send :: "packet_id_send \<Rightarrow> crypto_options \<Rightarrow> crypto_options" where
  "set_pid_send p co = co\<lparr>co_packet_id := (co_packet_id co)\<lparr>pid_send := p\<rparr>\<rparr>"

definition set_pid_rec :: "packet_id_rec \<Rightarrow> crypto_options \<Rightarrow> crypto_options" where
  "set_pid_rec p co = co\<lparr>co_packet_id := (co_packet_id co)\<lparr>pid_rec := p\<rparr>\<rparr>"

type_synonym hmac = "byte list \<Rightarrow> byte list \<Rightarrow> byte list"

section \<open>Epoch keys\<close>

definition epoch_init_send_key_ctx :: "hmac \<Rightarrow> crypto_options \<Rightarrow> crypto_options option" where
  "epoch_init_send_key_ctx hm co =
     (if kc_epoch (encrypt_ctx co) = ek_epoch (epoch_key_send co) then None
      else case epoch_data_key_derive hm clear_key_parameters (epoch_key_send co) (epoch_key_type co) of
             None \<Rightarrow> None
           | Some send_key \<Rightarrow>
               (case init_key_bi_ctx_send send_key (epoch_key_type co) of None \<Rightarrow> None
                | Some ctx \<Rightarrow> Some (set_pid_send (reset_packet_id_send (pid_send (co_packet_id co))) (set_encrypt ctx co))))"

definition epoch_init_recv_key :: "hmac \<Rightarrow> crypto_options \<Rightarrow> key_ctx option" where
  "epoch_init_recv_key hm co =
     (case epoch_data_key_derive hm clear_key_parameters (epoch_key_recv co) (epoch_key_type co) of
        None \<Rightarrow> None
      | Some recv_key \<Rightarrow> init_key_bi_ctx_recv recv_key (epoch_key_type co))"

text \<open>The loop that makes the last \<open>k\<close> future keys.\<close>

fun make_future_keys :: "hmac \<Rightarrow> nat \<Rightarrow> crypto_options \<Rightarrow> (key_ctx list \<times> crypto_options) option" where
  "make_future_keys hm 0 co = Some ([], co)"
| "make_future_keys hm (Suc k) co =
     (case epoch_key_iterate hm (epoch_key_recv co) of None \<Rightarrow> None
      | Some ek \<Rightarrow>
          let co1 = co\<lparr>epoch_key_recv := ek\<rparr> in
          (case epoch_init_recv_key hm co1 of None \<Rightarrow> None
           | Some ctx \<Rightarrow> map_option (\<lambda>(ks, co2). (ctx # ks, co2)) (make_future_keys hm k co1)))"

text \<open>
  \<^verbatim>\<open>highest_future_key\<close> points into the array, which the loop that frees old keys changes. An
  access outside the array is \<open>None\<close>.
\<close>

definition epoch_generate_future_receive_keys :: "hmac \<Rightarrow> crypto_options \<Rightarrow> crypto_options option" where
  "epoch_generate_future_receive_keys hm co =
     (let future = epoch_data_keys_future co; count = length future;
          current_decrypt_epoch = kc_epoch (decrypt_ctx co)
      in if \<not> bi_initialized (key_bi co) then None
         else if count = 0 then None
         else if \<not> (ek_epoch (epoch_key_recv co) = 1 \<or> kc_epoch (future ! (count - 1)) = ek_epoch (epoch_key_recv co)) then None
         else
           let future1 = map (\<lambda>k. if kc_epoch k > 0 \<and> kc_epoch k < current_decrypt_epoch then free_key_ctx k else k) future;
               current_highest_key = (if kc_epoch (future1 ! (count - 1)) \<noteq> 0 then kc_epoch (future1 ! (count - 1)) else 1);
               desired_highest_key = current_decrypt_epoch + of_nat count;
               num_keys_generate = unat (desired_highest_key - current_highest_key)
           in if num_keys_generate > count then None
              else if \<not> list_all (\<lambda>k. kc_epoch k = 0) (take num_keys_generate future1) then None
              else case make_future_keys hm num_keys_generate co of None \<Rightarrow> None
                   | Some (ks, co1) \<Rightarrow>
                       let future2 = drop num_keys_generate future1 @ ks
                       in if list_all (\<lambda>k. kc_epoch k > 0) future2
                          then Some (co1\<lparr>epoch_data_keys_future := future2\<rparr>) else None)"

definition epoch_iterate_send_key :: "hmac \<Rightarrow> crypto_options \<Rightarrow> crypto_options option" where
  "epoch_iterate_send_key hm co =
     (if \<not> ek_epoch (epoch_key_send co) < 0xFFFF then None
      else case epoch_key_iterate hm (epoch_key_send co) of None \<Rightarrow> None
           | Some ek \<Rightarrow>
               epoch_init_send_key_ctx hm
                 (set_encrypt (free_key_ctx (encrypt_ctx co)) (co\<lparr>epoch_key_send := ek\<rparr>)))"

text \<open>\<^verbatim>\<open>while (co->epoch_key_send.epoch < new_epoch)\<close>\<close>

function iterate_until :: "hmac \<Rightarrow> u16 \<Rightarrow> epoch_key \<Rightarrow> epoch_key option" where
  "iterate_until hm new_epoch key =
     (if ek_epoch key < new_epoch
      then (case epoch_key_iterate hm key of None \<Rightarrow> None | Some key1 \<Rightarrow> iterate_until hm new_epoch key1)
      else Some key)"
  by pat_completeness auto
termination
proof (relation "measure (\<lambda>(hm, n, key). unat n - unat (ek_epoch key))", simp, goal_cases)
  case (1 hm new_epoch key key1)
  then have e: "ek_epoch key1 = ek_epoch key + 1" by (auto simp: epoch_key_iterate_def)
  have lt: "unat (ek_epoch key) < unat new_epoch" using 1(1) by (simp add: word_less_nat_alt)
  then have "unat (ek_epoch key) + 1 < 65536" using unat_bound[of new_epoch] by simp
  then have "unat (ek_epoch key1) = unat (ek_epoch key) + 1" unfolding e by (simp add: unat_word_ariths)
  then show ?case using lt by simp
qed

declare iterate_until.simps [simp del]

definition future_index :: "crypto_options \<Rightarrow> u16 \<Rightarrow> nat" where
  "future_index co new_epoch =
     length (takeWhile (\<lambda>k. kc_epoch k \<noteq> new_epoch) (epoch_data_keys_future co))"

definition epoch_replace_update_recv_key :: "hmac \<Rightarrow> crypto_options \<Rightarrow> u16 \<Rightarrow> crypto_options option" where
  "epoch_replace_update_recv_key hm co new_epoch =
     (let fki = future_index co new_epoch in
      if \<not> fki < length (epoch_data_keys_future co) then None
      else
        let new_ctx = epoch_data_keys_future co ! fki;
            co1 = (if kc_epoch (encrypt_ctx co) < new_epoch
                   then (case iterate_until hm new_epoch (epoch_key_send co) of None \<Rightarrow> None
                         | Some ek \<Rightarrow>
                             epoch_init_send_key_ctx hm
                               (set_encrypt (free_key_ctx (encrypt_ctx co)) (co\<lparr>epoch_key_send := ek\<rparr>)))
                   else Some co)
        in case co1 of None \<Rightarrow> None
           | Some co1 \<Rightarrow>
             (case packet_id_move_recv (epoch_retiring_pid co1) (pid_rec (co_packet_id co1)) of None \<Rightarrow> None
              | Some (retiring_pid, rec) \<Rightarrow>
                  epoch_generate_future_receive_keys hm
                    (set_decrypt new_ctx (set_pid_rec rec
                      (co1\<lparr>epoch_retiring_key := decrypt_ctx co1, epoch_retiring_pid := retiring_pid,
                           epoch_data_keys_future := (epoch_data_keys_future co1)[fki := clear_key_ctx]\<rparr>)))))"

definition epoch_init_key_ctx ::
  "hmac \<Rightarrow> crypto_options \<Rightarrow> key_type \<Rightarrow> epoch_key \<Rightarrow> epoch_key \<Rightarrow> nat \<Rightarrow> crypto_options option" where
  "epoch_init_key_ctx hm co key_type e1_send e1_recv future_key_count =
     (if \<not> (ek_epoch e1_send = 1 \<and> ek_epoch e1_recv = 1) then None
      else case epoch_init_send_key_ctx hm (co\<lparr>epoch_key_recv := e1_recv, epoch_key_send := e1_send,
               epoch_key_type := key_type, aead_usage_limit := cipher_get_aead_limits (kt_cipher key_type)\<rparr>) of
             None \<Rightarrow> None
           | Some co1 \<Rightarrow>
               (case epoch_init_recv_key hm co1 of None \<Rightarrow> None
                | Some d \<Rightarrow>
                    epoch_generate_future_receive_keys hm
                      (co1\<lparr>key_bi := (key_bi co1)\<lparr>bi_decrypt := d, bi_initialized := True\<rparr>,
                           epoch_data_keys_future := replicate future_key_count clear_key_ctx\<rparr>)))"

text \<open>The result points at one of the contexts.\<close>

datatype key_slot = Slot_Decrypt | Slot_Retiring | Slot_Future nat

definition slot_ctx :: "crypto_options \<Rightarrow> key_slot \<Rightarrow> key_ctx" where
  "slot_ctx co s = (case s of Slot_Decrypt \<Rightarrow> decrypt_ctx co | Slot_Retiring \<Rightarrow> epoch_retiring_key co
     | Slot_Future i \<Rightarrow> epoch_data_keys_future co ! i)"

definition set_slot :: "key_slot \<Rightarrow> key_ctx \<Rightarrow> crypto_options \<Rightarrow> crypto_options" where
  "set_slot s ctx co = (case s of Slot_Decrypt \<Rightarrow> set_decrypt ctx co | Slot_Retiring \<Rightarrow> co\<lparr>epoch_retiring_key := ctx\<rparr>
     | Slot_Future i \<Rightarrow> co\<lparr>epoch_data_keys_future := (epoch_data_keys_future co)[i := ctx]\<rparr>)"

text \<open>The operands of the comparisons are promoted to \<^verbatim>\<open>int\<close>.\<close>

definition epoch_lookup_decrypt_key :: "crypto_options \<Rightarrow> u16 \<Rightarrow> key_slot option" where
  "epoch_lookup_decrypt_key co epoch =
     (let cur = kc_epoch (decrypt_ctx co); count = int (length (epoch_data_keys_future co)) in
      if cur = epoch then Some Slot_Decrypt
      else if kc_epoch (epoch_retiring_key co) \<noteq> 0 \<and> kc_epoch (epoch_retiring_key co) = epoch then Some Slot_Retiring
      else if uint epoch > uint cur \<and> uint epoch \<le> uint cur + count then
        let index = uint epoch - (uint cur + 1) in
        if uint epoch > 65535 - count - 1 then None else Some (Slot_Future (nat index))
      else None)"

definition epoch_check_send_iterate :: "hmac \<Rightarrow> crypto_options \<Rightarrow> crypto_options option" where
  "epoch_check_send_iterate hm co =
     (if ek_epoch (epoch_key_send co) = 0xFFFF then Some co
      else
        let limit = aead_usage_limit co;
            co1 = (if limit \<noteq> 0
                   then if aead_usage_limit_reached limit (encrypt_ctx co) (ps_id (pid_send (co_packet_id co)))
                        then epoch_iterate_send_key hm co
                        else if kc_epoch (encrypt_ctx co) = kc_epoch (decrypt_ctx co)
                                \<and> (aead_usage_limit_reached limit (decrypt_ctx co) (pr_id (pid_rec (co_packet_id co)))
                                   \<or> cipher_decrypt_verify_fail_warn (decrypt_ctx co))
                        then epoch_iterate_send_key hm co
                        else Some co
                   else Some co)
        in case co1 of None \<Rightarrow> None
           | Some co1 \<Rightarrow>
               if ps_id (pid_send (co_packet_id co1)) = PACKET_ID_EPOCH_MAX then epoch_iterate_send_key hm co1
               else Some co1)"

section \<open>Derived keys\<close>

text \<open>HMAC-SHA256 puts out 32 bytes.\<close>

definition sha256_sized :: "hmac \<Rightarrow> bool" where
  "sha256_sized hm \<longleftrightarrow> (\<forall>k m. length (hm k m) = 32)"

lemma unat_Suc8:
  fixes w :: byte
  assumes "uint w < 255"
  shows "uint (w + 1) = uint w + 1" "w + 1 \<noteq> 0"
proof -
  have "uint (w + 1) = (uint w + 1) mod 256" by (simp add: uint_word_ariths)
  also have "\<dots> = uint w + 1" using assms by (intro mod_pos_pos_trivial) simp_all
  finally show u: "uint (w + 1) = uint w + 1" .
  show "w + 1 \<noteq> 0"
  proof
    assume "w + 1 = 0"
    then have "uint w + 1 = 0" using u by simp
    then show False using uint_nonnegative[of w] by linarith
  qed
qed

text \<open>Up to 254 blocks the expansion returns, with as many bytes as asked for.\<close>

lemma hkdf_blocks_length:
  assumes "sha256_sized hm" "block \<noteq> 0" "n \<le> 8128" "(uint block - 1) * 32 \<le> n + 31"
  shows "\<exists>out. hkdf_blocks hm secret info n t block = Some out \<and> length out = nat (n - (uint block - 1) * 32)"
  using assms
proof (induction hm secret info n t block rule: hkdf_blocks.induct)
  case (1 hm secret info n t block)
  show ?case
  proof (cases "(uint block - 1) * SHA256_DIGEST_LENGTH < n")
    case False
    then show ?thesis by (subst hkdf_blocks.simps) (simp add: SHA256_DIGEST_LENGTH_def)
  next
    case True
    then have c: "(uint block - 1) * 32 < n" by (simp add: SHA256_DIGEST_LENGTH_def)
    then have lt: "uint block < 255" using "1.prems"(3) uint_nonnegative[of block] by (simp add: algebra_simps)
    note s = unat_Suc8[OF lt]
    define k where "k = n - (uint block - 1) * 32"
    have k: "0 < k" "n - (uint (block + 1) - 1) * 32 = k - 32" using c by (simp_all add: k_def s(1))
    have "\<exists>out. hkdf_blocks hm secret info n (hm secret (t @ info @ [block])) (block + 1) = Some out \<and> length out = nat (k - 32)"
      using "1.IH"[OF True "1.prems"(2) refl refl refl "1.prems"(1) s(2) "1.prems"(3)] c unfolding k(2) by (simp add: s(1))
    then obtain out where o: "hkdf_blocks hm secret info n (hm secret (t @ info @ [block])) (block + 1) = Some out"
      "length out = nat (k - 32)" by blast
    have "length (hm secret (t @ info @ [block])) = 32" using "1.prems"(1) by (simp add: sha256_sized_def)
    then have "length (take (nat (min_int 32 k)) (hm secret (t @ info @ [block])) @ out) = nat k"
      using k(1) o(2) by (auto simp: min_int_def)
    moreover have "n - (uint block * 32 - 32) = k" by (simp add: k_def)
    ultimately show ?thesis using True "1.prems"(2) o(1)
      by (subst hkdf_blocks.simps) (simp add: SHA256_DIGEST_LENGTH_def Let_def)
  qed
qed

lemma expand_label_length:
  assumes "sha256_sized hm" "length secret = 32" "1 \<le> length label" "length label \<le> 250" "n \<le> 8128"
  shows "\<exists>out. ovpn_expand_label hm secret label [] n = Some out \<and> length out = unat n"
proof -
  have n: "uint n \<le> 8128" using assms(5) by (simp add: word_le_def)
  have "\<exists>out. hkdf_blocks hm secret info (uint n) [] 1 = Some out \<and> length out = nat (uint n - (uint (1 :: byte) - 1) * 32)" for info
    by (rule hkdf_blocks_length[OF assms(1) _ n]) simp_all
  then show ?thesis using assms by (auto simp: ovpn_expand_label_def ovpn_hkdf_expand_def Let_def)
qed

definition ek_ok :: "epoch_key \<Rightarrow> bool" where
  "ek_ok ek \<longleftrightarrow> length (ek_key ek) = 32"

definition epoch_next :: "hmac \<Rightarrow> epoch_key \<Rightarrow> epoch_key" where
  "epoch_next hm ek = (case epoch_key_iterate hm ek of None \<Rightarrow> ek | Some ek' \<Rightarrow> ek')"

lemma epoch_iterate_next:
  assumes "sha256_sized hm" "ek_ok ek"
  shows "epoch_key_iterate hm ek = Some (epoch_next hm ek)" "ek_ok (epoch_next hm ek)"
    "ek_epoch (epoch_next hm ek) = ek_epoch ek + 1"
proof -
  have "\<exists>out. ovpn_expand_label hm (ek_key ek) (ascii ''datakey upd'') [] 32 = Some out \<and> length out = unat (32 :: u16)"
    by (rule expand_label_length) (use assms in \<open>simp_all add: ek_ok_def ascii_def word_le_def\<close>)
  then obtain out where o: "ovpn_expand_label hm (ek_key ek) (ascii ''datakey upd'') [] 32 = Some out" "length out = 32" by auto
  then show "epoch_key_iterate hm ek = Some (epoch_next hm ek)" "ek_ok (epoch_next hm ek)"
    "ek_epoch (epoch_next hm ek) = ek_epoch ek + 1"
    by (simp_all add: epoch_next_def epoch_key_iterate_def SHA256_DIGEST_LENGTH_def ek_ok_def)
qed

text \<open>The key of each epoch, from that of the first.\<close>

fun epoch_chain :: "hmac \<Rightarrow> epoch_key \<Rightarrow> nat \<Rightarrow> epoch_key" where
  "epoch_chain hm e1 0 = e1"
| "epoch_chain hm e1 (Suc n) = epoch_next hm (epoch_chain hm e1 n)"

lemma chain_ok:
  assumes "sha256_sized hm" "ek_ok e1" "ek_epoch e1 = 1"
  shows "ek_ok (epoch_chain hm e1 n)" "ek_epoch (epoch_chain hm e1 n) = of_nat (Suc n)"
    "epoch_key_iterate hm (epoch_chain hm e1 n) = Some (epoch_chain hm e1 (Suc n))"
proof -
  have "ek_ok (epoch_chain hm e1 n) \<and> ek_epoch (epoch_chain hm e1 n) = of_nat (Suc n)"
    by (induction n) (use assms epoch_iterate_next[OF assms(1)] in \<open>auto simp: add_ac\<close>)
  then show "ek_ok (epoch_chain hm e1 n)" "ek_epoch (epoch_chain hm e1 n) = of_nat (Suc n)" by auto
  then show "epoch_key_iterate hm (epoch_chain hm e1 n) = Some (epoch_chain hm e1 (Suc n))"
    using epoch_iterate_next(1)[OF assms(1)] by simp
qed

text \<open>The key types the epoch format is used with: an AEAD cipher with a key and an IV that fit.\<close>

definition epoch_kt :: "key_type \<Rightarrow> bool" where
  "epoch_kt kt \<longleftrightarrow> kt_digest kt = None \<and>
     (case kt_cipher kt of None \<Rightarrow> False
      | Some c \<Rightarrow> ck_mode c = MODE_AEAD \<and> 0 \<le> ck_key_size c \<and> ck_key_size c \<le> MAX_CIPHER_KEY_LENGTH
                 \<and> OPENVPN_AEAD_MIN_IV_LEN \<le> ck_iv_size c \<and> ck_iv_size c \<le> OPENVPN_MAX_IV_LENGTH)"

definition epoch_ctx :: "hmac \<Rightarrow> key_type \<Rightarrow> epoch_key \<Rightarrow> key_ctx" where
  "epoch_ctx hm kt ek =
     (case epoch_data_key_derive hm clear_key_parameters ek kt of None \<Rightarrow> clear_key_ctx
      | Some kp \<Rightarrow> (case init_key_bi_ctx_recv kp kt of None \<Rightarrow> clear_key_ctx | Some ctx \<Rightarrow> ctx))"

lemma send_recv_ctx: "init_key_bi_ctx_send = init_key_bi_ctx_recv"
  by (simp add: fun_eq_iff init_key_bi_ctx_send_def init_key_bi_ctx_recv_def)

lemma derive_ok:
  assumes "sha256_sized hm" "ek_ok ek" "epoch_kt kt"
  obtains kp where "epoch_data_key_derive hm clear_key_parameters ek kt = Some kp"
    "init_key_bi_ctx_recv kp kt = Some (epoch_ctx hm kt ek)" "kc_epoch (epoch_ctx hm kt ek) = ek_epoch ek"
    "failed_verifications (epoch_ctx hm kt ek) = 0"
    "\<exists>c k. kt_cipher kt = Some c \<and> kc_cipher (epoch_ctx hm kt ek) = Some (c, k)"
    "length (implicit_iv (epoch_ctx hm kt ek)) = 16"
proof -
  obtain c where c: "kt_cipher kt = Some c" "ck_mode c = MODE_AEAD" "0 \<le> ck_key_size c" "ck_key_size c \<le> 64"
    "12 \<le> ck_iv_size c" "ck_iv_size c \<le> 16" "kt_digest kt = None"
    using assms(3) by (auto simp: epoch_kt_def MAX_CIPHER_KEY_LENGTH_def OPENVPN_AEAD_MIN_IV_LEN_def OPENVPN_MAX_IV_LENGTH_def split: option.splits)
  have r: "unat (of_int x :: u16) = nat x \<and> (of_int x :: u16) \<le> 8128" if "0 \<le> x" "x \<le> 64" for x
  proof -
    have "uint (of_int x :: u16) = x" using that by (simp add: uint_word_of_int)
    then show ?thesis using that by (simp add: word_le_def unat_eq_nat_uint)
  qed
  have ek: "length (ek_key ek) = 32" using assms(2) by (simp add: ek_ok_def)
  obtain k where k: "ovpn_expand_label hm (ek_key ek) (ascii ''data_key'') [] (of_int (ck_key_size c)) = Some k"
    "length k = nat (ck_key_size c)"
    using expand_label_length[OF assms(1) ek, of "ascii ''data_key''" "of_int (ck_key_size c)"] r[OF c(3,4)] by (auto simp: ascii_def)
  obtain iv where iv: "ovpn_expand_label hm (ek_key ek) (ascii ''data_iv'') [] (of_int (ck_iv_size c)) = Some iv"
    "length iv = nat (ck_iv_size c)"
    using expand_label_length[OF assms(1) ek, of "ascii ''data_iv''" "of_int (ck_iv_size c)"] r[of "ck_iv_size c"] c(5,6) by (auto simp: ascii_def)
  define kp where "kp = \<lparr>kp_cipher = mem_put (kp_cipher clear_key_parameters) 0 k, kp_cipher_size = ck_key_size c,
                     kp_hmac = mem_put (kp_hmac clear_key_parameters) 0 iv, kp_hmac_size = ck_iv_size c,
                     kp_epoch = ek_epoch ek\<rparr>"
  have d: "epoch_data_key_derive hm clear_key_parameters ek kt = Some kp"
    by (simp add: epoch_data_key_derive_def c(1) k(1) iv(1) kp_def)
  show thesis
  proof (cases "\<exists>ctx. init_key_bi_ctx_recv kp kt = Some ctx \<and> kc_epoch ctx = ek_epoch ek \<and> failed_verifications ctx = 0
     \<and> (\<exists>k. kc_cipher ctx = Some (c, k)) \<and> length (implicit_iv ctx) = 16")
    case True
    then obtain ctx where i: "init_key_bi_ctx_recv kp kt = Some ctx" "kc_epoch ctx = ek_epoch ek" "failed_verifications ctx = 0"
      "\<exists>k. kc_cipher ctx = Some (c, k)" "length (implicit_iv ctx) = 16" by blast
    have "epoch_ctx hm kt ek = ctx" by (simp add: epoch_ctx_def d i(1))
    with that[OF d] i c(1) show thesis by simp
  next
    case False
    then show thesis using c
      by (auto simp: init_key_bi_ctx_recv_def init_key_ctx_def key_ctx_update_implicit_iv_def kp_def clear_key_ctx_def
          OPENVPN_AEAD_MIN_IV_LEN_def OPENVPN_MAX_IV_LENGTH_def MAX_HMAC_KEY_LENGTH_def Let_def mem_put_def split: if_splits)
  qed
qed

section \<open>The keys stay in step\<close>

definition same_ctx_key :: "key_ctx \<Rightarrow> key_ctx \<Rightarrow> bool" where
  "same_ctx_key a b \<longleftrightarrow> kc_cipher a = kc_cipher b \<and> kc_hmac a = kc_hmac b \<and> implicit_iv a = implicit_iv b \<and> kc_epoch a = kc_epoch b"

definition data_key :: "hmac \<Rightarrow> key_type \<Rightarrow> epoch_key \<Rightarrow> nat \<Rightarrow> key_ctx" where
  "data_key hm kt e1 e = epoch_ctx hm kt (epoch_chain hm e1 (e - 1))"

abbreviation epoch_of :: "key_ctx \<Rightarrow> nat" where
  "epoch_of ctx \<equiv> unat (kc_epoch ctx)"

definition epoch_setup :: "hmac \<Rightarrow> key_type \<Rightarrow> epoch_key \<Rightarrow> epoch_key \<Rightarrow> bool" where
  "epoch_setup hm kt es er \<longleftrightarrow> sha256_sized hm \<and> epoch_kt kt \<and> ek_ok es \<and> ek_ok er \<and> ek_epoch es = 1 \<and> ek_epoch er = 1"

definition rec_movable :: "packet_id_rec \<Rightarrow> bool" where
  "rec_movable p \<longleftrightarrow> uint (seq_backtrack p) \<le> MAX_SEQ_BACKTRACK \<and> 0 \<le> time_backtrack p \<and> time_backtrack p \<le> MAX_TIME_BACKTRACK"

text \<open>
  \<open>d\<close> is the epoch of the current receive key: behind it in the array are the keys of the next
  epochs without a gap, the send key is not older, and the retiring key is older.
\<close>

definition epoch_inv :: "hmac \<Rightarrow> key_type \<Rightarrow> epoch_key \<Rightarrow> epoch_key \<Rightarrow> crypto_options \<Rightarrow> bool" where
  "epoch_inv hm kt es er co \<longleftrightarrow>
     (let n = length (epoch_data_keys_future co); d = epoch_of (decrypt_ctx co); s = epoch_of (encrypt_ctx co);
          r = epoch_of (epoch_retiring_key co)
      in bi_initialized (key_bi co) \<and> epoch_key_type co = kt \<and> 0 < n \<and> 1 \<le> d \<and> d + n \<le> 65534 \<and> d \<le> s
         \<and> epoch_key_recv co = epoch_chain hm er (d + n - 1)
         \<and> (\<forall>i < n. same_ctx_key (epoch_data_keys_future co ! i) (data_key hm kt er (d + 1 + i)))
         \<and> same_ctx_key (decrypt_ctx co) (data_key hm kt er d)
         \<and> epoch_key_send co = epoch_chain hm es (s - 1) \<and> same_ctx_key (encrypt_ctx co) (data_key hm kt es s)
         \<and> (r = 0 \<or> r < d \<and> same_ctx_key (epoch_retiring_key co) (data_key hm kt er r))
         \<and> rec_movable (pid_rec (co_packet_id co)))"

lemma word_of_nat_unat: "of_nat (unat w) = w"
  by simp

lemma same_key_refl [simp]: "same_ctx_key a a"
  by (simp add: same_ctx_key_def)

lemma same_key_epoch: "same_ctx_key a b \<Longrightarrow> kc_epoch a = kc_epoch b"
  by (simp add: same_ctx_key_def)

lemma u16_of_nat: "n \<le> 65535 \<Longrightarrow> unat (of_nat n :: u16) = n"
  by (simp add: unat_of_nat)

lemma data_key_epoch:
  assumes "epoch_setup hm kt es er" "e1 = es \<or> e1 = er" "1 \<le> e"
  shows "kc_epoch (data_key hm kt e1 e) = of_nat e" "e \<le> 65535 \<Longrightarrow> epoch_of (data_key hm kt e1 e) = e"
    "epoch_data_key_derive hm clear_key_parameters (epoch_chain hm e1 (e - 1)) kt \<noteq> None"
proof -
  have s: "sha256_sized hm" "epoch_kt kt" "ek_ok e1" "ek_epoch e1 = 1" using assms(1,2) by (auto simp: epoch_setup_def)
  note c = chain_ok[OF s(1,3,4), of "e - 1"]
  obtain kp where d: "epoch_data_key_derive hm clear_key_parameters (epoch_chain hm e1 (e - 1)) kt = Some kp"
    "kc_epoch (epoch_ctx hm kt (epoch_chain hm e1 (e - 1))) = ek_epoch (epoch_chain hm e1 (e - 1))"
    using derive_ok[OF s(1) c(1) s(2)] by metis
  then show k: "kc_epoch (data_key hm kt e1 e) = of_nat e" using c(2) assms(3) by (simp add: data_key_def)
  show "epoch_of (data_key hm kt e1 e) = e" if "e \<le> 65535" using k u16_of_nat[OF that] by simp
  show "epoch_data_key_derive hm clear_key_parameters (epoch_chain hm e1 (e - 1)) kt \<noteq> None" using d(1) by simp
qed

lemma init_recv_key_ok:
  assumes "epoch_setup hm kt es er" "epoch_key_recv co = epoch_chain hm er m" "epoch_key_type co = kt"
  shows "epoch_init_recv_key hm co = Some (data_key hm kt er (Suc m))"
proof -
  have s: "sha256_sized hm" "epoch_kt kt" "ek_ok er" "ek_epoch er = 1" using assms(1) by (auto simp: epoch_setup_def)
  obtain kp where "epoch_data_key_derive hm clear_key_parameters (epoch_chain hm er m) kt = Some kp"
    "init_key_bi_ctx_recv kp kt = Some (epoch_ctx hm kt (epoch_chain hm er m))"
    using derive_ok[OF s(1) chain_ok(1)[OF s(1,3,4)] s(2)] by metis
  then show ?thesis using assms(2,3) by (simp add: epoch_init_recv_key_def data_key_def)
qed

lemma init_send_key_ok:
  assumes "epoch_setup hm kt es er" "epoch_key_send co = epoch_chain hm es m" "epoch_key_type co = kt"
    and "kc_epoch (encrypt_ctx co) \<noteq> of_nat (Suc m)"
  shows "epoch_init_send_key_ctx hm co =
    Some (set_pid_send (reset_packet_id_send (pid_send (co_packet_id co))) (set_encrypt (data_key hm kt es (Suc m)) co))"
proof -
  have s: "sha256_sized hm" "epoch_kt kt" "ek_ok es" "ek_epoch es = 1" using assms(1) by (auto simp: epoch_setup_def)
  note c = chain_ok[OF s(1,3,4), of m]
  obtain kp where "epoch_data_key_derive hm clear_key_parameters (epoch_chain hm es m) kt = Some kp"
    "init_key_bi_ctx_recv kp kt = Some (epoch_ctx hm kt (epoch_chain hm es m))"
    using derive_ok[OF s(1) c(1) s(2)] by metis
  moreover have "kc_epoch (encrypt_ctx co) \<noteq> ek_epoch (epoch_key_send co)" using assms(2,4) c(2) by simp
  ultimately show ?thesis using assms(2,3) by (simp add: epoch_init_send_key_ctx_def data_key_def send_recv_ctx)
qed

lemma make_future_ok:
  assumes "epoch_setup hm kt es er" "epoch_key_recv co = epoch_chain hm er m" "epoch_key_type co = kt"
  shows "make_future_keys hm k co =
    Some (map (\<lambda>i. data_key hm kt er (m + 2 + i)) [0..<k], co\<lparr>epoch_key_recv := epoch_chain hm er (m + k)\<rparr>)"
  using assms(2,3)
proof (induction k arbitrary: m co)
  case 0
  then show ?case by simp
next
  case (Suc k)
  have s: "sha256_sized hm" "ek_ok er" "ek_epoch er = 1" using assms(1) by (auto simp: epoch_setup_def)
  have it: "epoch_key_iterate hm (epoch_key_recv co) = Some (epoch_chain hm er (Suc m))"
    unfolding Suc.prems(1) by (rule chain_ok(3)[OF s])
  let ?co = "co\<lparr>epoch_key_recv := epoch_chain hm er (Suc m)\<rparr>"
  have i: "epoch_init_recv_key hm ?co = Some (data_key hm kt er (Suc (Suc m)))"
    by (rule init_recv_key_ok[OF assms(1)]) (use Suc.prems in simp_all)
  have r: "make_future_keys hm k ?co = Some (map (\<lambda>i. data_key hm kt er (Suc m + 2 + i)) [0..<k],
      ?co\<lparr>epoch_key_recv := epoch_chain hm er (Suc m + k)\<rparr>)"
    by (rule Suc.IH) (use Suc.prems in simp_all)
  have "map (\<lambda>i. data_key hm kt er (m + 2 + i)) [0..<Suc k] =
      data_key hm kt er (Suc (Suc m)) # map (\<lambda>i. data_key hm kt er (Suc m + 2 + i)) [0..<k]"
    by (simp add: upt_conv_Cons map_Suc_upt[symmetric] del: upt_Suc)
  then show ?case using it i r by simp
qed

lemma list_all_take: "list_all P (take k xs) \<longleftrightarrow> (\<forall>i < k. i < length xs \<longrightarrow> P (xs ! i))"
  by (auto simp: list_all_length)

text \<open>
  After the receive key moved from epoch \<open>d\<close> to \<open>d + j\<close>: the keys up to it are freed and as many
  are made at the end. The last of the array must not be the one that was taken.
\<close>

lemma generate_ok:
  assumes e: "epoch_setup hm kt es er" and t: "epoch_key_type co = kt" "bi_initialized (key_bi co)"
    and n: "length (epoch_data_keys_future co) = n" and j: "1 \<le> d" "0 < j" "j < n" "d + j + n \<le> 65534"
    and r: "epoch_key_recv co = epoch_chain hm er (d + n - 1)" and cur: "epoch_of (decrypt_ctx co) = d + j"
    and fut: "\<And>i. i < n \<Longrightarrow> i \<noteq> j - 1 \<Longrightarrow> same_ctx_key (epoch_data_keys_future co ! i) (data_key hm kt er (d + 1 + i))"
    and gone: "epoch_data_keys_future co ! (j - 1) = clear_key_ctx"
  obtains fut' where "epoch_generate_future_receive_keys hm co =
      Some (co\<lparr>epoch_key_recv := epoch_chain hm er (d + j + n - 1), epoch_data_keys_future := fut'\<rparr>)"
    "length fut' = n" "\<And>i. i < n \<Longrightarrow> same_ctx_key (fut' ! i) (data_key hm kt er (d + j + 1 + i))"
proof -
  define f where "f = epoch_data_keys_future co"
  define f1 where "f1 = map (\<lambda>k. if kc_epoch k > 0 \<and> kc_epoch k < kc_epoch (decrypt_ctx co) then free_key_ctx k else k) f"
  define ks where "ks = map (\<lambda>i. data_key hm kt er (d + n - 1 + 2 + i)) [0..<j]"
  have ep: "epoch_of (f ! i) = d + 1 + i" if "i < n" "i \<noteq> j - 1" for i
    using same_key_epoch[OF fut[OF that]] data_key_epoch(2)[OF e, of er "d + 1 + i"] that j by (simp add: f_def)
  have ln: "length f = n" using n by (simp add: f_def)
  have f1_old: "kc_epoch (f1 ! i) = 0" if "i < j" for i
  proof (cases "i = j - 1")
    case True
    then show ?thesis using gone that j ln by (simp add: f1_def f_def[symmetric] clear_key_ctx_def)
  next
    case False
    have "epoch_of (f ! i) = d + 1 + i" using ep[of i] that j(3) False by simp
    then have "kc_epoch (f ! i) > 0 \<and> kc_epoch (f ! i) < kc_epoch (decrypt_ctx co)"
      using that False cur by (simp add: word_less_nat_alt)
    then show ?thesis using that j ln by (simp add: f1_def free_key_ctx_def)
  qed
  have f1_new: "f1 ! i = f ! i" if "j \<le> i" "i < n" for i
  proof -
    have "epoch_of (f ! i) = d + 1 + i" using ep[of i] that j by simp
    then have "\<not> kc_epoch (f ! i) < kc_epoch (decrypt_ctx co)" using that cur by (simp add: word_less_nat_alt)
    then show ?thesis using that ln by (simp add: f1_def)
  qed
  have last: "f1 ! (n - 1) = f ! (n - 1)" "epoch_of (f ! (n - 1)) = d + n" using f1_new[of "n - 1"] ep[of "n - 1"] j by simp_all
  have s: "sha256_sized hm" "ek_ok er" "ek_epoch er = 1" using e by (auto simp: epoch_setup_def)
  have hi: "kc_epoch (f ! (n - 1)) = ek_epoch (epoch_key_recv co)"
  proof -
    have "kc_epoch (f ! (n - 1)) = of_nat (d + n)" using last(2) by (metis word_of_nat_unat)
    moreover have "Suc (d + n - 1) = d + n" using j by simp
    ultimately show ?thesis unfolding r chain_ok(2)[OF s] by simp
  qed
  have "kc_epoch (decrypt_ctx co) = of_nat (d + j)" using cur by (metis word_of_nat_unat)
  moreover have "kc_epoch (f ! (n - 1)) = of_nat (d + n)" using last(2) by (metis word_of_nat_unat)
  ultimately have "kc_epoch (decrypt_ctx co) + of_nat n - kc_epoch (f ! (n - 1)) = of_nat j" by simp
  then have num: "unat (kc_epoch (decrypt_ctx co) + of_nat n - kc_epoch (f ! (n - 1))) = j" using u16_of_nat[of j] j by simp
  have nz: "kc_epoch (f ! (n - 1)) \<noteq> 0" using last(2) j by auto
  have mk: "make_future_keys hm j co = Some (ks, co\<lparr>epoch_key_recv := epoch_chain hm er (d + n - 1 + j)\<rparr>)"
    unfolding ks_def by (rule make_future_ok[OF e r t(1)])
  define fut' where "fut' = drop j f1 @ ks"
  have len: "length fut' = n" using j ln by (simp add: fut'_def f1_def ks_def)
  have same: "same_ctx_key (fut' ! i) (data_key hm kt er (d + j + 1 + i))" if "i < n" for i
  proof (cases "i < n - j")
    case True
    then have "fut' ! i = f ! (j + i)" using f1_new[of "j + i"] ln by (simp add: fut'_def f1_def nth_append)
    then show ?thesis using fut[of "j + i"] True j by (simp add: f_def add_ac)
  next
    case False
    then have "fut' ! i = ks ! (i - (n - j))" using ln by (simp add: fut'_def f1_def nth_append)
    also have "\<dots> = data_key hm kt er (d + n - 1 + 2 + (i - (n - j)))" using False that j by (simp add: ks_def)
    also have "d + n - 1 + 2 + (i - (n - j)) = d + j + 1 + i" using False that j by simp
    finally show ?thesis by simp
  qed
  have pos: "list_all (\<lambda>k. kc_epoch k > 0) fut'"
  proof -
    have "kc_epoch (fut' ! i) > 0" if "i < n" for i
    proof -
      have "epoch_of (fut' ! i) = d + j + 1 + i"
        using same_key_epoch[OF same[OF that]] data_key_epoch(2)[OF e, of er "d + j + 1 + i"] that j by simp
      then show ?thesis by (simp add: word_less_nat_alt)
    qed
    then show ?thesis using len by (simp add: list_all_length)
  qed
  have zero: "list_all (\<lambda>k. kc_epoch k = 0) (take j f1)" unfolding list_all_take using f1_old by blast
  have "epoch_generate_future_receive_keys hm co =
      Some (co\<lparr>epoch_key_recv := epoch_chain hm er (d + j + n - 1), epoch_data_keys_future := fut'\<rparr>)"
    unfolding epoch_generate_future_receive_keys_def f_def[symmetric] f1_def[symmetric] ln Let_def last(1)
    using t j hi nz num mk zero pos by (simp add: fut'_def add_ac)
  then show thesis using that len same by blast
qed

lemma generate_init:
  assumes e: "epoch_setup hm kt es er" and t: "epoch_key_type co = kt" "bi_initialized (key_bi co)"
    and n: "epoch_data_keys_future co = replicate n clear_key_ctx" "0 < n" "n \<le> 65533"
    and r: "epoch_key_recv co = er" and cur: "kc_epoch (decrypt_ctx co) = 1"
  shows "epoch_generate_future_receive_keys hm co =
      Some (co\<lparr>epoch_key_recv := epoch_chain hm er n, epoch_data_keys_future := map (\<lambda>i. data_key hm kt er (2 + i)) [0..<n]\<rparr>)"
proof -
  have mk: "make_future_keys hm n co = Some (map (\<lambda>i. data_key hm kt er (2 + i)) [0..<n], co\<lparr>epoch_key_recv := epoch_chain hm er n\<rparr>)"
    using make_future_ok[OF e, of co 0 n] r t(1) by simp
  have "kc_epoch (data_key hm kt er (2 + i)) > 0" if "i < n" for i
    using data_key_epoch(2)[OF e, of er "2 + i"] that n(3) by (simp add: word_less_nat_alt)
  then have pos: "list_all (\<lambda>k. kc_epoch k > 0) (map (\<lambda>i. data_key hm kt er (2 + i)) [0..<n])" by (simp add: list_all_length)
  have m: "map (\<lambda>k. if kc_epoch k > 0 \<and> kc_epoch k < kc_epoch (decrypt_ctx co) then free_key_ctx k else k) (replicate n clear_key_ctx) =
      replicate n clear_key_ctx" by (simp add: clear_key_ctx_def)
  have z: "list_all (\<lambda>k. kc_epoch k = 0) (replicate n clear_key_ctx)" by (simp add: list_all_length clear_key_ctx_def)
  have one: "ek_epoch er = 1" using e by (simp add: epoch_setup_def)
  have "unat (kc_epoch (decrypt_ctx co) + of_nat n - 1 :: u16) = n" using u16_of_nat[of n] n(3) by (simp add: cur)
  then show ?thesis
    unfolding epoch_generate_future_receive_keys_def n(1) Let_def m
    using t n(2) r one mk pos z by (simp add: clear_key_ctx_def)
qed

lemma init_ok:
  assumes e: "epoch_setup hm kt es er" and n: "0 < n" "n \<le> 65533"
    and co: "kc_epoch (encrypt_ctx co) = 0" "kc_epoch (epoch_retiring_key co) = 0" "rec_movable (pid_rec (co_packet_id co))"
  shows "\<exists>co'. epoch_init_key_ctx hm co kt es er n = Some co' \<and> epoch_inv hm kt es er co'
    \<and> epoch_of (encrypt_ctx co') = 1 \<and> epoch_of (decrypt_ctx co') = 1 \<and> length (epoch_data_keys_future co') = n
    \<and> co_packet_id co' = (co_packet_id co)\<lparr>pid_send := \<lparr>ps_id = 0, ps_time = 0\<rparr>\<rparr> \<and> co_flags co' = co_flags co"
proof -
  have one: "ek_epoch es = 1" "ek_epoch er = 1" using e by (auto simp: epoch_setup_def)
  define co0 where "co0 = co\<lparr>epoch_key_recv := er, epoch_key_send := es, epoch_key_type := kt,
      aead_usage_limit := cipher_get_aead_limits (kt_cipher kt)\<rparr>"
  define co1 where "co1 = set_pid_send (reset_packet_id_send (pid_send (co_packet_id co0))) (set_encrypt (data_key hm kt es 1) co0)"
  have s: "epoch_init_send_key_ctx hm co0 = Some co1"
    using init_send_key_ok[OF e, of co0 0] co(1) by (simp add: co0_def co1_def)
  have r: "epoch_init_recv_key hm co1 = Some (data_key hm kt er 1)"
    using init_recv_key_ok[OF e, of co1 0] by (simp add: co0_def co1_def set_pid_send_def set_encrypt_def)
  define co2 where "co2 = co1\<lparr>key_bi := (key_bi co1)\<lparr>bi_decrypt := data_key hm kt er 1, bi_initialized := True\<rparr>,
      epoch_data_keys_future := replicate n clear_key_ctx\<rparr>"
  define co3 where "co3 = co2\<lparr>epoch_key_recv := epoch_chain hm er n, epoch_data_keys_future := map (\<lambda>i. data_key hm kt er (2 + i)) [0..<n]\<rparr>"
  have k: "kc_epoch (data_key hm kt er (Suc 0)) = 1" "kc_epoch (data_key hm kt es (Suc 0)) = 1"
    using data_key_epoch(1)[OF e, of er 1] data_key_epoch(1)[OF e, of es 1] by simp_all
  have g: "epoch_generate_future_receive_keys hm co2 = Some co3"
    unfolding co3_def by (rule generate_init[OF e _ _ _ n])
      (simp_all add: co2_def co1_def co0_def set_pid_send_def set_encrypt_def k)
  have "epoch_init_key_ctx hm co kt es er n = Some co3"
    unfolding epoch_init_key_ctx_def using one s r g by (simp add: co0_def[symmetric] co2_def)
  moreover have "epoch_inv hm kt es er co3"
    using n co by (simp add: epoch_inv_def Let_def co3_def co2_def co1_def co0_def set_pid_send_def set_encrypt_def k add_ac)
  ultimately show ?thesis
    by (simp add: co3_def co2_def co1_def co0_def set_pid_send_def set_encrypt_def k reset_packet_id_send_def)
qed

lemma epoch_invD:
  assumes "epoch_inv hm kt es er co"
  shows "bi_initialized (key_bi co)" "epoch_key_type co = kt" "0 < length (epoch_data_keys_future co)"
    "1 \<le> epoch_of (decrypt_ctx co)" "epoch_of (decrypt_ctx co) + length (epoch_data_keys_future co) \<le> 65534"
    "epoch_of (decrypt_ctx co) \<le> epoch_of (encrypt_ctx co)"
    "epoch_key_recv co = epoch_chain hm er (epoch_of (decrypt_ctx co) + length (epoch_data_keys_future co) - 1)"
    "\<And>i. i < length (epoch_data_keys_future co) \<Longrightarrow> same_ctx_key (epoch_data_keys_future co ! i) (data_key hm kt er (epoch_of (decrypt_ctx co) + 1 + i))"
    "same_ctx_key (decrypt_ctx co) (data_key hm kt er (epoch_of (decrypt_ctx co)))"
    "epoch_key_send co = epoch_chain hm es (epoch_of (encrypt_ctx co) - 1)"
    "same_ctx_key (encrypt_ctx co) (data_key hm kt es (epoch_of (encrypt_ctx co)))"
    "epoch_of (epoch_retiring_key co) = 0 \<or> epoch_of (epoch_retiring_key co) < epoch_of (decrypt_ctx co)
      \<and> same_ctx_key (epoch_retiring_key co) (data_key hm kt er (epoch_of (epoch_retiring_key co)))"
    "rec_movable (pid_rec (co_packet_id co))"
  using assms by (simp_all add: epoch_inv_def Let_def)

lemma iterate_send_ok:
  assumes e: "epoch_setup hm kt es er" and i: "epoch_inv hm kt es er co" and lt: "epoch_of (encrypt_ctx co) < 65535"
  shows "\<exists>co'. epoch_iterate_send_key hm co = Some co' \<and> epoch_inv hm kt es er co'
    \<and> epoch_of (encrypt_ctx co') = Suc (epoch_of (encrypt_ctx co)) \<and> decrypt_ctx co' = decrypt_ctx co
    \<and> co_packet_id co' = (co_packet_id co)\<lparr>pid_send := \<lparr>ps_id = 0, ps_time = 0\<rparr>\<rparr>
    \<and> epoch_data_keys_future co' = epoch_data_keys_future co \<and> epoch_retiring_key co' = epoch_retiring_key co
    \<and> epoch_retiring_pid co' = epoch_retiring_pid co \<and> co_flags co' = co_flags co"
proof -
  note d = epoch_invD[OF i]
  have s: "sha256_sized hm" "ek_ok es" "ek_epoch es = 1" using e by (auto simp: epoch_setup_def)
  define m where "m = epoch_of (encrypt_ctx co) - 1"
  have m: "epoch_of (encrypt_ctx co) = Suc m" using d(4,6) by (simp add: m_def)
  have ep: "ek_epoch (epoch_key_send co) = of_nat (Suc m)" using d(10) chain_ok(2)[OF s, of m] by (simp add: m_def)
  then have "unat (ek_epoch (epoch_key_send co)) = Suc m" using u16_of_nat[of "Suc m"] lt m by simp
  then have c: "ek_epoch (epoch_key_send co) < 0xFFFF" using lt m by (simp add: word_less_nat_alt)
  have it: "epoch_key_iterate hm (epoch_key_send co) = Some (epoch_chain hm es (Suc m))"
    using d(10) chain_ok(3)[OF s, of m] by (simp add: m_def)
  let ?co = "set_encrypt (free_key_ctx (encrypt_ctx co)) (co\<lparr>epoch_key_send := epoch_chain hm es (Suc m)\<rparr>)"
  have "(of_nat (Suc (Suc m)) :: u16) \<noteq> 0" using u16_of_nat[of "Suc (Suc m)"] lt m by force
  then have sk: "epoch_init_send_key_ctx hm ?co =
      Some (set_pid_send (reset_packet_id_send (pid_send (co_packet_id ?co))) (set_encrypt (data_key hm kt es (Suc (Suc m))) ?co))"
    using d(2) by (intro init_send_key_ok[OF e]) (simp_all add: set_encrypt_def free_key_ctx_def)
  have k: "epoch_of (data_key hm kt es (Suc (Suc m))) = Suc (Suc m)"
    by (rule data_key_epoch(2)[OF e]) (use lt m in simp_all)
  define co' where "co' = set_pid_send (reset_packet_id_send (pid_send (co_packet_id ?co))) (set_encrypt (data_key hm kt es (Suc (Suc m))) ?co)"
  have "epoch_iterate_send_key hm co = Some co'" using c it sk by (simp add: epoch_iterate_send_key_def co'_def)
  moreover have "epoch_inv hm kt es er co'"
    using d m k by (simp add: epoch_inv_def Let_def co'_def set_pid_send_def set_encrypt_def)
  ultimately show ?thesis using k m
    by (simp add: co'_def set_pid_send_def set_encrypt_def reset_packet_id_send_def)
qed

lemma iterate_until_ok:
  assumes "sha256_sized hm" "ek_ok es" "ek_epoch es = 1" "e \<le> 65535" "m \<le> 65534"
  shows "iterate_until hm (of_nat e) (epoch_chain hm es m) = Some (epoch_chain hm es (max m (e - 1)))"
  using assms(5)
proof (induction "e - Suc m" arbitrary: m)
  case 0
  have "\<not> ek_epoch (epoch_chain hm es m) < of_nat e"
    using 0 u16_of_nat[of "Suc m"] u16_of_nat[OF assms(4)] by (simp add: chain_ok(2)[OF assms(1-3)] word_less_nat_alt del: of_nat_Suc)
  moreover have "max m (e - 1) = m" using 0(1) by simp
  ultimately show ?case by (subst iterate_until.simps) (simp only: if_False)
next
  case (Suc k)
  then have lt: "Suc m < e" by simp
  then have c: "ek_epoch (epoch_chain hm es m) < of_nat e"
    using u16_of_nat[of "Suc m"] u16_of_nat[OF assms(4)] assms(4) by (simp add: chain_ok(2)[OF assms(1-3)] word_less_nat_alt del: of_nat_Suc)
  have "iterate_until hm (of_nat e) (epoch_chain hm es (Suc m)) = Some (epoch_chain hm es (max (Suc m) (e - 1)))"
    by (rule Suc.hyps(1)) (use Suc.hyps(2) lt assms(4) in simp_all)
  moreover have "max (Suc m) (e - 1) = max m (e - 1)" using lt by simp
  ultimately show ?case
    by (subst iterate_until.simps) (simp only: c if_True chain_ok(3)[OF assms(1-3)] option.case)
qed

lemma word_le_u16: "e \<le> 65535 \<Longrightarrow> kc_epoch x = of_nat e \<longleftrightarrow> epoch_of x = e"
  using u16_of_nat[of e] by (metis word_of_nat_unat)

lemma future_index_ok:
  assumes e: "epoch_setup hm kt es er" and i: "epoch_inv hm kt es er co" and k: "k < length (epoch_data_keys_future co)"
  shows "future_index co (of_nat (epoch_of (decrypt_ctx co) + 1 + k)) = k"
proof -
  note d = epoch_invD[OF i]
  let ?f = "epoch_data_keys_future co" and ?d = "epoch_of (decrypt_ctx co)"
  have ep: "epoch_of (?f ! j) = ?d + 1 + j" if "j \<le> k" for j
    using same_key_epoch[OF d(8)[of j]] data_key_epoch(2)[OF e, of er "?d + 1 + j"] that k d(5) by simp
  have v: "unat (of_nat (?d + 1 + k) :: u16) = ?d + 1 + k" using k d(5) by (intro u16_of_nat) simp
  have ne: "kc_epoch (?f ! j) \<noteq> of_nat (?d + 1 + k)" if "j < k" for j
    using ep[of j] v that by (metis add_left_cancel less_or_eq_imp_le nat_neq_iff)
  have eq: "kc_epoch (?f ! k) = of_nat (?d + 1 + k)" using ep[of k] v by (metis order_refl word_of_nat_unat)
  have "takeWhile (\<lambda>x. kc_epoch x \<noteq> of_nat (?d + 1 + k)) ?f = take k ?f"
    by (rule takeWhile_eq_take_P_nth) (use ne eq in auto)
  then show ?thesis using k by (simp add: future_index_def)
qed

lemma uint_nat_obtain:
  obtains a where "uint (w :: u16) = int a" "unat w = a"
  by (rule that[of "unat w"]) simp_all

lemma lookup_cases:
  "epoch_lookup_decrypt_key co ep =
     (let d = epoch_of (decrypt_ctx co); n = length (epoch_data_keys_future co) in
      if kc_epoch (decrypt_ctx co) = ep then Some Slot_Decrypt
      else if kc_epoch (epoch_retiring_key co) \<noteq> 0 \<and> kc_epoch (epoch_retiring_key co) = ep then Some Slot_Retiring
      else if d < unat ep \<and> unat ep \<le> d + n \<and> unat ep + n \<le> 65534 then Some (Slot_Future (unat ep - (d + 1)))
      else None)"
proof -
  obtain a where a: "uint ep = int a" "unat ep = a" by (rule uint_nat_obtain)
  obtain b where b: "uint (kc_epoch (decrypt_ctx co)) = int b" "epoch_of (decrypt_ctx co) = b" by (rule uint_nat_obtain)
  have "nat (int a - (int b + 1)) = a - (b + 1)" by linarith
  then show ?thesis unfolding epoch_lookup_decrypt_key_def Let_def a b by auto
qed

lemma lookup_ok:
  assumes e: "epoch_setup hm kt es er" and i: "epoch_inv hm kt es er co" and l: "epoch_lookup_decrypt_key co ep = Some s"
  shows "same_ctx_key (slot_ctx co s) (data_key hm kt er (unat ep))" "1 \<le> unat ep"
    "case s of Slot_Decrypt \<Rightarrow> ep = kc_epoch (decrypt_ctx co)
     | Slot_Retiring \<Rightarrow> ep = kc_epoch (epoch_retiring_key co) \<and> ep < kc_epoch (decrypt_ctx co)
     | Slot_Future k \<Rightarrow> k < length (epoch_data_keys_future co) \<and> unat ep = epoch_of (decrypt_ctx co) + 1 + k
         \<and> unat ep + length (epoch_data_keys_future co) \<le> 65534"
proof -
  note d = epoch_invD[OF i]
  let ?n = "length (epoch_data_keys_future co)"
  consider "s = Slot_Decrypt" "ep = kc_epoch (decrypt_ctx co)"
    | "s = Slot_Retiring" "ep = kc_epoch (epoch_retiring_key co)" "epoch_of (epoch_retiring_key co) \<noteq> 0"
    | k where "s = Slot_Future k" "k = unat ep - (epoch_of (decrypt_ctx co) + 1)" "epoch_of (decrypt_ctx co) < unat ep"
        "unat ep \<le> epoch_of (decrypt_ctx co) + ?n" "unat ep + ?n \<le> 65534"
    using l unfolding lookup_cases by (auto simp: Let_def unat_eq_0 split: if_splits)
  then have "same_ctx_key (slot_ctx co s) (data_key hm kt er (unat ep)) \<and> 1 \<le> unat ep \<and>
    (case s of Slot_Decrypt \<Rightarrow> ep = kc_epoch (decrypt_ctx co)
     | Slot_Retiring \<Rightarrow> ep = kc_epoch (epoch_retiring_key co) \<and> ep < kc_epoch (decrypt_ctx co)
     | Slot_Future k \<Rightarrow> k < ?n \<and> unat ep = epoch_of (decrypt_ctx co) + 1 + k \<and> unat ep + ?n \<le> 65534)"
  proof cases
    case 1
    then show ?thesis using d(4,9) by (simp add: slot_ctx_def)
  next
    case 2
    then show ?thesis using d(12) by (auto simp: slot_ctx_def word_less_nat_alt)
  next
    case 3
    have k: "k < ?n" "unat ep = epoch_of (decrypt_ctx co) + 1 + k" using 3 by simp_all
    have "same_ctx_key (slot_ctx co s) (data_key hm kt er (unat ep))" using d(8)[OF k(1)] 3(1) unfolding k(2) by (simp add: slot_ctx_def)
    moreover have "1 \<le> unat ep" using k(2) by linarith
    ultimately show ?thesis unfolding 3(1) key_slot.case using k 3(5) by blast
  qed
  then show "same_ctx_key (slot_ctx co s) (data_key hm kt er (unat ep))" "1 \<le> unat ep"
    "case s of Slot_Decrypt \<Rightarrow> ep = kc_epoch (decrypt_ctx co)
     | Slot_Retiring \<Rightarrow> ep = kc_epoch (epoch_retiring_key co) \<and> ep < kc_epoch (decrypt_ctx co)
     | Slot_Future k \<Rightarrow> k < length (epoch_data_keys_future co) \<and> unat ep = epoch_of (decrypt_ctx co) + 1 + k
         \<and> unat ep + length (epoch_data_keys_future co) \<le> 65534" by auto
qed

lemma move_recv_ok:
  assumes "rec_movable p"
  obtains p' where "packet_id_move_recv old p = Some (p, p')" "rec_movable p'" "initialized p'"
    "packet_id_init_recv clear_rec (uint (seq_backtrack p)) (time_backtrack p) = Some p'"
proof -
  have b: "0 \<le> uint (seq_backtrack p)" "uint (seq_backtrack p) \<le> 65536" using assms by (simp_all add: rec_movable_def MAX_SEQ_BACKTRACK_def)
  have w: "(of_int (uint (seq_backtrack p)) :: u64) = seq_backtrack p" by simp
  show thesis
    using assms b that
    by (cases "uint (seq_backtrack p) = 0")
       (auto simp: packet_id_move_recv_def packet_id_init_recv_def rec_movable_def clear_rec_def
          MAX_SEQ_BACKTRACK_def MAX_TIME_BACKTRACK_def Let_def w)
qed

text \<open>Moving on to the key of a later epoch, but not to the last one of the array.\<close>

lemma replace_ok:
  assumes e: "epoch_setup hm kt es er" and i: "epoch_inv hm kt es er co"
    and k: "k + 1 < length (epoch_data_keys_future co)" and ep: "unat ep = epoch_of (decrypt_ctx co) + 1 + k"
    and lim: "unat ep + length (epoch_data_keys_future co) \<le> 65534"
  obtains co' where "epoch_replace_update_recv_key hm co ep = Some co'" "epoch_inv hm kt es er co'"
    "kc_epoch (decrypt_ctx co') = ep" "epoch_of (encrypt_ctx co') = max (epoch_of (encrypt_ctx co)) (unat ep)"
    "epoch_retiring_key co' = decrypt_ctx co" "epoch_retiring_pid co' = pid_rec (co_packet_id co)"
    "packet_id_init_recv clear_rec (uint (seq_backtrack (pid_rec (co_packet_id co)))) (time_backtrack (pid_rec (co_packet_id co)))
       = Some (pid_rec (co_packet_id co'))"
    "if epoch_of (encrypt_ctx co) < unat ep then pid_send (co_packet_id co') = \<lparr>ps_id = 0, ps_time = 0\<rparr>
     else pid_send (co_packet_id co') = pid_send (co_packet_id co) \<and> encrypt_ctx co' = encrypt_ctx co"
    "length (epoch_data_keys_future co') = length (epoch_data_keys_future co)" "co_flags co' = co_flags co"
    "co_pid_persist co' = co_pid_persist co" "decrypt_ctx co' = epoch_data_keys_future co ! k"
proof -
  note d = epoch_invD[OF i]
  define n where "n = length (epoch_data_keys_future co)"
  define dd where "dd = epoch_of (decrypt_ctx co)"
  define s where "s = epoch_of (encrypt_ctx co)"
  have epn: "ep = of_nat (dd + 1 + k)" using ep by (metis dd_def word_of_nat_unat)
  have fki: "future_index co ep = k" using future_index_ok[OF e i, of k] k by (simp add: epn dd_def)
  have su: "sha256_sized hm" "ek_ok es" "ek_epoch es = 1" using e by (auto simp: epoch_setup_def)
  have s1: "1 \<le> s" "s \<le> 65535" using d(4,6) unat_bound[of "kc_epoch (encrypt_ctx co)"] by (simp_all add: s_def)
  define co1 where "co1 = (if s < unat ep
    then set_pid_send \<lparr>ps_id = 0, ps_time = 0\<rparr> (set_encrypt (data_key hm kt es (unat ep)) (co\<lparr>epoch_key_send := epoch_chain hm es (unat ep - 1)\<rparr>))
    else co)"
  have step1: "(if kc_epoch (encrypt_ctx co) < ep
       then (case iterate_until hm ep (epoch_key_send co) of None \<Rightarrow> None
             | Some ek \<Rightarrow> epoch_init_send_key_ctx hm (set_encrypt (free_key_ctx (encrypt_ctx co)) (co\<lparr>epoch_key_send := ek\<rparr>)))
       else Some co) = Some co1"
  proof (cases "s < unat ep")
    case False
    then show ?thesis by (simp add: co1_def s_def word_less_nat_alt)
  next
    case True
    have it: "iterate_until hm ep (epoch_key_send co) = Some (epoch_chain hm es (unat ep - 1))"
      using iterate_until_ok[OF su, of "unat ep" "s - 1"] d(10) True s1 lim by (simp add: s_def max_def)
    let ?co = "set_encrypt (free_key_ctx (encrypt_ctx co)) (co\<lparr>epoch_key_send := epoch_chain hm es (unat ep - 1)\<rparr>)"
    have "(of_nat (Suc (unat ep - 1)) :: u16) \<noteq> 0" using ep by (metis Suc_diff_1 add_gr_0 unat_0 word_of_nat_unat zero_less_one less_numeral_extra(3))
    then have "epoch_init_send_key_ctx hm ?co = Some (set_pid_send (reset_packet_id_send (pid_send (co_packet_id ?co)))
        (set_encrypt (data_key hm kt es (Suc (unat ep - 1))) ?co))"
      using d(2) by (intro init_send_key_ok[OF e]) (simp_all add: set_encrypt_def free_key_ctx_def)
    moreover have "Suc (unat ep - 1) = unat ep" using ep by simp
    ultimately show ?thesis using True it
      by (simp add: co1_def s_def word_less_nat_alt set_encrypt_def set_pid_send_def reset_packet_id_send_def)
  qed
  obtain p' where mv: "packet_id_move_recv (epoch_retiring_pid co1) (pid_rec (co_packet_id co)) = Some (pid_rec (co_packet_id co), p')"
      "rec_movable p'" "packet_id_init_recv clear_rec (uint (seq_backtrack (pid_rec (co_packet_id co)))) (time_backtrack (pid_rec (co_packet_id co))) = Some p'"
    using move_recv_ok[OF d(13)] by metis
  have keep: "pid_rec (co_packet_id co1) = pid_rec (co_packet_id co)" "decrypt_ctx co1 = decrypt_ctx co"
    "epoch_data_keys_future co1 = epoch_data_keys_future co" "epoch_key_type co1 = kt" "bi_initialized (key_bi co1)"
    "epoch_key_recv co1 = epoch_key_recv co" "co_flags co1 = co_flags co" "co_pid_persist co1 = co_pid_persist co"
    using d(1,2) by (simp_all add: co1_def set_pid_send_def set_encrypt_def)
  define new where "new = epoch_data_keys_future co ! k"
  define co2 where "co2 = set_decrypt new (set_pid_rec p' (co1\<lparr>epoch_retiring_key := decrypt_ctx co1,
      epoch_retiring_pid := pid_rec (co_packet_id co), epoch_data_keys_future := (epoch_data_keys_future co1)[k := clear_key_ctx]\<rparr>))"
  have new: "same_ctx_key new (data_key hm kt er (dd + 1 + k))" using d(8)[of k] k by (simp add: new_def dd_def)
  have newe: "kc_epoch new = ep" using same_key_epoch[OF new] data_key_epoch(1)[OF e, of er "dd + 1 + k"] epn by simp
  obtain fut where g: "epoch_generate_future_receive_keys hm co2 =
      Some (co2\<lparr>epoch_key_recv := epoch_chain hm er (dd + (k + 1) + n - 1), epoch_data_keys_future := fut\<rparr>)"
    "length fut = n" "\<And>j. j < n \<Longrightarrow> same_ctx_key (fut ! j) (data_key hm kt er (dd + (k + 1) + 1 + j))"
  proof (rule generate_ok[OF e, where co = co2 and n = n and d = dd and j = "k + 1"])
    show "epoch_key_type co2 = kt" "bi_initialized (key_bi co2)" "length (epoch_data_keys_future co2) = n"
      using keep by (simp_all add: co2_def set_decrypt_def set_pid_rec_def n_def)
    show "1 \<le> dd" "0 < k + 1" "k + 1 < n" using d(4) k by (simp_all add: dd_def n_def)
    show "dd + (k + 1) + n \<le> 65534" using lim ep by (simp add: dd_def n_def)
    show "epoch_key_recv co2 = epoch_chain hm er (dd + n - 1)"
      using d(7) keep by (simp add: co2_def set_decrypt_def set_pid_rec_def dd_def n_def)
    show "epoch_of (decrypt_ctx co2) = dd + (k + 1)" using newe ep by (simp add: co2_def set_decrypt_def dd_def)
    show "same_ctx_key (epoch_data_keys_future co2 ! j) (data_key hm kt er (dd + 1 + j))" if "j < n" "j \<noteq> k + 1 - 1" for j
      using d(8)[of j] that keep by (simp add: co2_def set_decrypt_def set_pid_rec_def dd_def n_def)
    show "epoch_data_keys_future co2 ! (k + 1 - 1) = clear_key_ctx"
      using k keep by (simp add: co2_def set_decrypt_def set_pid_rec_def)
  qed blast
  define co' where "co' = co2\<lparr>epoch_key_recv := epoch_chain hm er (dd + (k + 1) + n - 1), epoch_data_keys_future := fut\<rparr>"
  have r: "epoch_replace_update_recv_key hm co ep = Some co'"
    unfolding epoch_replace_update_recv_key_def Let_def fki
    using k step1 mv(1) keep g(1) by (simp add: co'_def co2_def new_def)
  have enc: "encrypt_ctx co' = encrypt_ctx co1" "epoch_key_send co' = epoch_key_send co1"
    "pid_send (co_packet_id co') = pid_send (co_packet_id co1)"
    by (simp_all add: co'_def co2_def set_decrypt_def set_pid_rec_def)
  have s': "epoch_of (encrypt_ctx co1) = max s (unat ep) \<and> epoch_key_send co1 = epoch_chain hm es (max s (unat ep) - 1)
      \<and> same_ctx_key (encrypt_ctx co1) (data_key hm kt es (max s (unat ep)))"
    using d(10,11) data_key_epoch(2)[OF e, of es "unat ep"] ep lim
    by (auto simp: co1_def s_def set_pid_send_def set_encrypt_def max_def)
  have "epoch_inv hm kt es er co'"
    unfolding epoch_inv_def Let_def enc
    using s' d(1,4,9) keep(4,5) mv(2) g(2,3) new newe ep lim k
    by (auto simp: co'_def co2_def set_decrypt_def set_pid_rec_def keep dd_def[symmetric] n_def[symmetric] add_ac)
  moreover have "decrypt_ctx co' = new" "epoch_retiring_key co' = decrypt_ctx co" "epoch_retiring_pid co' = pid_rec (co_packet_id co)"
    "pid_rec (co_packet_id co') = p'" "epoch_data_keys_future co' = fut" "co_flags co' = co_flags co" "co_pid_persist co' = co_pid_persist co"
    by (simp_all add: co'_def co2_def set_decrypt_def set_pid_rec_def keep)
  moreover have "if s < unat ep then pid_send (co_packet_id co1) = \<lparr>ps_id = 0, ps_time = 0\<rparr>
     else pid_send (co_packet_id co1) = pid_send (co_packet_id co) \<and> encrypt_ctx co1 = encrypt_ctx co"
    by (simp add: co1_def set_pid_send_def set_encrypt_def)
  ultimately show thesis
    using that[OF r] s' mv(3) newe g(2) enc by (simp add: s_def n_def new_def)
qed

text \<open>What a new send key changes.\<close>

definition send_key_moved :: "crypto_options \<Rightarrow> crypto_options \<Rightarrow> bool" where
  "send_key_moved co co' \<longleftrightarrow> epoch_of (encrypt_ctx co') = Suc (epoch_of (encrypt_ctx co)) \<and> decrypt_ctx co' = decrypt_ctx co
     \<and> co_packet_id co' = (co_packet_id co)\<lparr>pid_send := \<lparr>ps_id = 0, ps_time = 0\<rparr>\<rparr>
     \<and> epoch_data_keys_future co' = epoch_data_keys_future co \<and> epoch_retiring_key co' = epoch_retiring_key co
     \<and> epoch_retiring_pid co' = epoch_retiring_pid co \<and> co_flags co' = co_flags co"

lemma check_send_ok:
  assumes e: "epoch_setup hm kt es er" and i: "epoch_inv hm kt es er co"
  shows "\<exists>co'. epoch_check_send_iterate hm co = Some co' \<and> epoch_inv hm kt es er co' \<and> (co' = co \<or> send_key_moved co co')"
proof (cases "ek_epoch (epoch_key_send co) = 0xFFFF")
  case True
  then show ?thesis using i by (simp add: epoch_check_send_iterate_def)
next
  case False
  note d = epoch_invD[OF i]
  have su: "sha256_sized hm" "ek_ok es" "ek_epoch es = 1" using e by (auto simp: epoch_setup_def)
  have s: "Suc (epoch_of (encrypt_ctx co) - 1) = epoch_of (encrypt_ctx co)" using d(4,6) by simp
  have "ek_epoch (epoch_key_send co) = kc_epoch (encrypt_ctx co)"
    using d(10) chain_ok(2)[OF su, of "epoch_of (encrypt_ctx co) - 1"] unfolding s by simp
  then have "kc_epoch (encrypt_ctx co) \<noteq> 0xFFFF" using False by simp
  then have "epoch_of (encrypt_ctx co) \<noteq> 65535" by (metis word_of_nat_unat of_nat_numeral)
  then have lt: "epoch_of (encrypt_ctx co) < 65535" using unat_bound[of "kc_epoch (encrypt_ctx co)"] by simp
  obtain co' where c: "epoch_iterate_send_key hm co = Some co'" "epoch_inv hm kt es er co'" "send_key_moved co co'"
    using iterate_send_ok[OF e i lt] unfolding send_key_moved_def by blast
  have "ps_id (pid_send (co_packet_id co')) = 0" using c(3) by (simp add: send_key_moved_def)
  then have n: "ps_id (pid_send (co_packet_id co')) \<noteq> PACKET_ID_EPOCH_MAX" by (simp add: PACKET_ID_EPOCH_MAX_def)
  show ?thesis using False c i n by (auto simp: epoch_check_send_iterate_def Let_def)
qed

text \<open>
  The last key of the array: \<^verbatim>\<open>epoch_lookup_decrypt_key\<close> hands it out, but when it becomes the
  current key, its place, which \<^verbatim>\<open>epoch_generate_future_receive_keys\<close> takes the highest epoch
  from, has just been cleared.
\<close>

lemma jump_to_last:
  assumes e: "epoch_setup hm kt es er" and i: "epoch_inv hm kt es er co"
    and ep: "unat ep = epoch_of (decrypt_ctx co) + length (epoch_data_keys_future co)"
  shows "epoch_replace_update_recv_key hm co ep = None"
proof -
  note d = epoch_invD[OF i]
  define n where "n = length (epoch_data_keys_future co)"
  have su: "sha256_sized hm" "ek_ok er" "ek_epoch er = 1" using e by (auto simp: epoch_setup_def)
  have fki: "future_index co ep = n - 1"
  proof -
    have "ep = of_nat (epoch_of (decrypt_ctx co) + 1 + (n - 1))" using ep d(3) by (metis One_nat_def Suc_pred add.assoc n_def plus_1_eq_Suc word_of_nat_unat)
    then show ?thesis using future_index_ok[OF e i, of "n - 1"] d(3) by (simp add: n_def)
  qed
  have gen: "epoch_generate_future_receive_keys hm co2 = None"
    if "epoch_data_keys_future co2 = (epoch_data_keys_future co)[n - 1 := clear_key_ctx]" "epoch_key_recv co2 = epoch_key_recv co" for co2
  proof -
    have "Suc (epoch_of (decrypt_ctx co) + n - 1) = unat ep" using ep d(3) by (simp add: n_def)
    then have r: "ek_epoch (epoch_key_recv co) = ep" using d(7) chain_ok(2)[OF su, of "epoch_of (decrypt_ctx co) + n - 1"] by (simp add: n_def)
    have "unat ep \<noteq> 0" "unat ep \<noteq> 1" using ep d(3,4) by linarith+
    then have "ep \<noteq> 0" "ep \<noteq> 1" by auto
    then show ?thesis using that r d(3) by (simp add: epoch_generate_future_receive_keys_def Let_def clear_key_ctx_def n_def)
  qed
  define X where "X = (if kc_epoch (encrypt_ctx co) < ep
       then (case iterate_until hm ep (epoch_key_send co) of None \<Rightarrow> None
             | Some ek \<Rightarrow> epoch_init_send_key_ctx hm (set_encrypt (free_key_ctx (encrypt_ctx co)) (co\<lparr>epoch_key_send := ek\<rparr>)))
       else Some co)"
  have keep: "epoch_data_keys_future co1 = epoch_data_keys_future co \<and> epoch_key_recv co1 = epoch_key_recv co"
    if "X = Some co1" for co1
    using that by (auto simp: X_def epoch_init_send_key_ctx_def set_encrypt_def set_pid_send_def split: if_splits option.splits)
  show ?thesis
  proof (cases X)
    case None
    then show ?thesis unfolding epoch_replace_update_recv_key_def Let_def fki X_def[symmetric] by simp
  next
    case (Some co1)
    then show ?thesis
      unfolding epoch_replace_update_recv_key_def Let_def fki X_def[symmetric]
      using keep[OF Some] by (auto split: option.splits intro!: gen simp: set_decrypt_def set_pid_rec_def)
  qed
qed

end
