(* ===== verification/Crypto_Data.thy ===== *)
theory Crypto_Data
  imports Crypto_Epoch
begin

text \<open>
  Packets of the data channel (\<^verbatim>\<open>crypto.c\<close>): encryption and decryption with an AEAD cipher, in the
  old format and in the epoch format, and with the other modes, and the replay check.

  \<open>aead_packet\<close> is what a sealed packet looks like; \<open>encrypt_aead_cases\<close> and
  \<open>decrypt_epoch_cases\<close> list everything the sender and the receiver can do, under the documented
  behaviour of the ciphers (\<open>aead_correct\<close>).
\<close>

unbundle bit_operations_syntax

section \<open>Sending\<close>

text \<open>The cipher writes behind the content, then the length is raised: a failed \<^verbatim>\<open>ASSERT\<close> is \<open>None\<close>.\<close>

definition cipher_put :: "buffer \<Rightarrow> byte list \<Rightarrow> buffer option" where
  "cipher_put work out =
     (case buf_inc_len (bf_poke work (nat (bf_off work + bf_len work)) out) (int (length out)) of
        (True, work1) \<Rightarrow> Some work1
      | (False, work1) \<Rightarrow> None)"

definition epoch_format :: "crypto_options \<Rightarrow> bool" where
  "epoch_format opt \<longleftrightarrow> co_flags opt AND CO_EPOCH_DATA_KEY_FORMAT \<noteq> 0"

definition long_form :: "crypto_options \<Rightarrow> bool" where
  "long_form opt \<longleftrightarrow> co_flags opt AND CO_PACKET_ID_LONG_FORM \<noteq> 0"

text \<open>\<^verbatim>\<open>iv[i] ^ ctx->implicit_iv[i]\<close> for the bytes of the IV.\<close>

definition combine_iv :: "cipher_kt \<Rightarrow> key_ctx \<Rightarrow> byte list \<Rightarrow> byte list" where
  "combine_iv c ctx iv = map2 (\<lambda>a b. a XOR b) (take (nat (ck_iv_size c)) iv) (implicit_iv ctx)"

definition count_blocks :: "byte list \<Rightarrow> key_ctx \<Rightarrow> key_ctx" where
  "count_blocks out ctx = ctx\<lparr>plaintext_blocks := plaintext_blocks ctx
     + of_int ((int (length out) + (AEAD_LIMIT_BLOCKSIZE - 1)) div AEAD_LIMIT_BLOCKSIZE)\<rparr>"

text \<open>The error exit: the packet is dropped.\<close>

definition crypt_drop_buf :: "buffer \<Rightarrow> buffer" where
  "crypt_drop_buf b = b\<lparr>bf_len := 0\<rparr>"

text \<open>\<^verbatim>\<open>cipher_ctx_reset(ctx->cipher, iv)\<close>: the calls that follow use the IV of the context.\<close>

definition encrypt_reset_iv :: "byte list \<Rightarrow> crypto_options \<Rightarrow> crypto_options" where
  "encrypt_reset_iv iv opt = set_encrypt ((encrypt_ctx opt)\<lparr>kc_iv := iv\<rparr>) opt"

text \<open>From the IV on; \<open>work\<close> holds the header and the packet id.\<close>

definition aead_seal ::
  "bool \<Rightarrow> cipher_kt \<Rightarrow> byte list \<Rightarrow> byte list \<Rightarrow> buffer \<Rightarrow> buffer \<Rightarrow> crypto_options \<Rightarrow> (buffer \<times> crypto_options) option" where
  "aead_seal epoch_fmt c key iv b work opt0 =
     (let mac_len = OPENVPN_AEAD_TAG_LENGTH; ad = buf_bytes work; p = buf_bytes b;
          opt = encrypt_reset_iv iv opt0; ctx_iv = kc_iv (encrypt_ctx opt) in
      if \<not> ck_reset c key iv then None
      else if \<not> buf_safe work (bf_len b + mac_len + ck_block_size c) then Some (crypt_drop_buf b, opt)
      else
        case (if epoch_fmt then (Some 0, work) else buf_write_alloc work mac_len) of
          (None, work1) \<Rightarrow> None
        | (Some mac_first, work1) \<Rightarrow>
          (case cipher_put work1 (ck_enc c key ctx_iv ad p) of None \<Rightarrow> None
           | Some work2 \<Rightarrow>
             (case cipher_put work2 (ck_enc_final c key ctx_iv ad p) of None \<Rightarrow> None
              | Some work3 \<Rightarrow>
                (case (if epoch_fmt then buf_write_alloc work3 mac_len else (Some mac_first, work3)) of
                   (None, work4) \<Rightarrow> None
                 | (Some mac_out, work4) \<Rightarrow>
                     Some (bf_poke work4 mac_out (ck_tag c key ctx_iv ad p),
                           set_encrypt (count_blocks (ck_enc c key ctx_iv ad p) (encrypt_ctx opt)) opt)))))"

definition openvpn_encrypt_aead ::
  "hmac \<Rightarrow> int \<Rightarrow> buffer \<Rightarrow> buffer \<Rightarrow> crypto_options \<Rightarrow> (buffer \<times> crypto_options) option" where
  "openvpn_encrypt_aead hm now b work opt0 =
     (case (if epoch_format opt0 then epoch_check_send_iterate hm opt0 else Some opt0) of
        None \<Rightarrow> None
      | Some opt \<Rightarrow>
        let ctx = encrypt_ctx opt; snd_id = pid_send (co_packet_id opt) in
        (case kc_cipher ctx of None \<Rightarrow> None
         | Some (c, key) \<Rightarrow>
           if \<not> initialized (pid_rec (co_packet_id opt)) then None
           else if \<not> (ck_iv_size c \<ge> OPENVPN_AEAD_MIN_IV_LEN \<and> ck_iv_size c \<le> OPENVPN_MAX_IV_LENGTH) then None
           else
             (case buf_set_write (Some (replicate (nat OPENVPN_MAX_IV_LENGTH) 0)) (ck_iv_size c) of
                None \<Rightarrow> None
              | Some iv_buffer \<Rightarrow>
                (case (if epoch_format opt0 then packet_id_write_epoch now snd_id (kc_epoch ctx) iv_buffer
                       else packet_id_write now snd_id iv_buffer False False) of
                   (False, snd_id1, iv_buffer1) \<Rightarrow> Some (crypt_drop_buf b, set_pid_send snd_id1 opt)
                 | (True, snd_id1, iv_buffer1) \<Rightarrow>
                     let iv = bf_mem iv_buffer1 in
                     (case buf_write work (take (nat (buf_len iv_buffer1)) iv) of
                        (False, work1) \<Rightarrow> None
                      | (True, work1) \<Rightarrow>
                          aead_seal (epoch_format opt0) c key (combine_iv c ctx iv) b work1 (set_pid_send snd_id1 opt))))))"

text \<open>
  CBC, OFB, CFB and no encryption. \<open>iv_random\<close> are the bytes of \<^verbatim>\<open>prng_bytes\<close>. The result of
  the first part is the buffer to sign, where the signature begins and where it goes.
\<close>

definition encrypt_v1_cipher ::
  "int \<Rightarrow> byte list \<Rightarrow> cipher_kt \<Rightarrow> byte list \<Rightarrow> buffer \<Rightarrow> buffer \<Rightarrow> crypto_options
   \<Rightarrow> (buffer option \<times> buffer \<times> crypto_options) option" where
  "encrypt_v1_cipher now iv_random c key b work opt =
     (let iv0 = replicate (nat OPENVPN_MAX_IV_LENGTH) 0; snd_id = pid_send (co_packet_id opt);
          fin = (\<lambda>iv_buf b1 opt1.
            case buf_write work (take (nat (ck_iv_size c)) iv_buf) of (False, w) \<Rightarrow> None
            | (True, work1) \<Rightarrow>
              let iv = take (nat (ck_iv_size c)) iv_buf; p = buf_bytes b1 in
              if \<not> ck_reset c key iv then None
              else if \<not> buf_safe work1 (bf_len b1 + ck_block_size c) then Some (None, b1, opt1)
              else case cipher_put work1 (ck_enc c key iv [] p) of None \<Rightarrow> None
                   | Some work2 \<Rightarrow>
                     (case cipher_put work2 (ck_enc_final c key iv [] p) of None \<Rightarrow> None
                      | Some work3 \<Rightarrow>
                          if ck_mode c \<noteq> MODE_CBC \<or> int (length (ck_enc_final c key iv [] p)) = ck_iv_size c
                          then Some (Some work3, b1, opt1) else None))
      in case ck_mode c of
           MODE_CBC \<Rightarrow>
             let iv_buf = mem_put iv0 0 (take (nat (ck_iv_size c)) iv_random) in
             if initialized (pid_rec (co_packet_id opt))
             then (case packet_id_write now snd_id b (long_form opt) True of
                     (False, snd_id1, b1) \<Rightarrow> Some (None, b1, set_pid_send snd_id1 opt)
                   | (True, snd_id1, b1) \<Rightarrow> fin iv_buf b1 (set_pid_send snd_id1 opt))
             else fin iv_buf b opt
         | MODE_OFB_CFB \<Rightarrow>
             if \<not> initialized (pid_rec (co_packet_id opt)) then None
             else (case buf_set_write (Some iv0) (ck_iv_size c) of None \<Rightarrow> None
                   | Some ivb \<Rightarrow>
                     (case packet_id_write now snd_id ivb True False of
                        (False, snd_id1, ivb1) \<Rightarrow> None
                      | (True, snd_id1, ivb1) \<Rightarrow> fin (bf_mem ivb1) b (set_pid_send snd_id1 opt)))
         | _ \<Rightarrow> None)"

definition sign_v1 :: "md_kt \<Rightarrow> byte list \<Rightarrow> nat \<Rightarrow> nat \<Rightarrow> buffer \<Rightarrow> buffer" where
  "sign_v1 md key mac_out hmac_start work =
     bf_poke work mac_out
       (md_hmac md key (mem_get (bf_mem work) hmac_start (nat (bf_off work + bf_len work) - hmac_start)))"

definition openvpn_encrypt_v1 ::
  "int \<Rightarrow> byte list \<Rightarrow> buffer \<Rightarrow> buffer \<Rightarrow> crypto_options \<Rightarrow> (buffer \<times> crypto_options) option" where
  "openvpn_encrypt_v1 now iv_random b work opt =
     (if \<not> bf_len b > 0 then Some (b, opt)
      else
        let ctx = encrypt_ctx opt; snd_id = pid_send (co_packet_id opt) in
        case kc_cipher ctx of
          Some (c, key) \<Rightarrow>
            (case (case kc_hmac ctx of None \<Rightarrow> (Some 0, work) | Some (md, hk) \<Rightarrow> buf_write_alloc work (md_size md)) of
               (None, work1) \<Rightarrow> None
             | (Some mac_out, work1) \<Rightarrow>
               (case encrypt_v1_cipher now iv_random c key b work1 opt of None \<Rightarrow> None
                | Some (None, b1, opt1) \<Rightarrow> Some (crypt_drop_buf b1, opt1)
                | Some (Some work2, b1, opt1) \<Rightarrow>
                    Some (case kc_hmac ctx of None \<Rightarrow> work2
                          | Some (md, hk) \<Rightarrow> sign_v1 md hk mac_out (nat (bf_off work1 + bf_len work1)) work2, opt1)))
        | None \<Rightarrow>
            (case (if initialized (pid_rec (co_packet_id opt)) then packet_id_write now snd_id b (long_form opt) True
                   else (True, snd_id, b)) of
               (False, snd_id1, b1) \<Rightarrow> Some (crypt_drop_buf b1, set_pid_send snd_id1 opt)
             | (True, snd_id1, b1) \<Rightarrow>
                 let opt1 = set_pid_send snd_id1 opt in
                 (case kc_hmac ctx of
                    None \<Rightarrow> Some (if buf_len work \<noteq> 0 then snd (buf_write_prepend b1 (buf_bytes work)) else b1, opt1)
                  | Some (md, hk) \<Rightarrow>
                      (case buf_prepend b1 (md_size md) of (None, b2) \<Rightarrow> None
                       | (Some mac_out, b2) \<Rightarrow>
                           let b3 = (if buf_len work \<noteq> 0 then snd (buf_write_prepend b2 (buf_bytes work)) else b2)
                           in Some (sign_v1 md hk mac_out (nat (bf_off b1)) b3, opt1)))))"

definition openvpn_encrypt ::
  "hmac \<Rightarrow> int \<Rightarrow> byte list \<Rightarrow> buffer \<Rightarrow> buffer \<Rightarrow> crypto_options \<Rightarrow> (buffer \<times> crypto_options) option" where
  "openvpn_encrypt hm now iv_random b work opt =
     (if bf_len b > 0
      then if cipher_ctx_mode_aead (encrypt_ctx opt) then openvpn_encrypt_aead hm now b work opt
           else openvpn_encrypt_v1 now iv_random b work opt
      else Some (b, opt))"

section \<open>Receiving\<close>

definition crypto_check_replay ::
  "hmac \<Rightarrow> int \<Rightarrow> crypto_options \<Rightarrow> packet_id_net \<Rightarrow> u16 \<Rightarrow> (bool \<times> crypto_options) option" where
  "crypto_check_replay hm now opt pin epoch =
     (let save = (\<lambda>ok opt1. if ok \<and> long_form opt1
            then opt1\<lparr>co_pid_persist := map_option (\<lambda>pp. packet_id_persist_save_obj pp (co_packet_id opt1)) (co_pid_persist opt1)\<rparr>
            else opt1)
      in
      if epoch = 0 \<or> kc_epoch (decrypt_ctx opt) = epoch then
        map_option (\<lambda>(ok, p). (ok, save ok (set_pid_rec p opt))) (replay_recv now (pid_rec (co_packet_id opt)) pin)
      else if epoch = kc_epoch (epoch_retiring_key opt) then
        map_option (\<lambda>(ok, p). (ok, save ok (opt\<lparr>epoch_retiring_pid := p\<rparr>))) (replay_recv now (epoch_retiring_pid opt) pin)
      else
        (case epoch_replace_update_recv_key hm opt epoch of None \<Rightarrow> None
         | Some opt1 \<Rightarrow>
             map_option (\<lambda>(ok, p). (ok, save ok (set_pid_rec p opt1))) (replay_recv now (pid_rec (co_packet_id opt1)) pin)))"

definition crypt_drop :: "buffer \<Rightarrow> crypto_options \<Rightarrow> (bool \<times> buffer \<times> crypto_options) option" where
  "crypt_drop b opt = Some (False, crypt_drop_buf b, opt)"

text \<open>
  From the IV on: \<open>b\<close> begins behind the packet id, \<open>slot\<close> is where \<^verbatim>\<open>ctx\<close> points to, and the
  authenticated data ends in front of \<open>b\<close>.
\<close>

definition aead_open ::
  "hmac \<Rightarrow> int \<Rightarrow> bool \<Rightarrow> key_slot \<Rightarrow> u16 \<Rightarrow> packet_id_net \<Rightarrow> byte list \<Rightarrow> nat \<Rightarrow> buffer \<Rightarrow> buffer \<Rightarrow> crypto_options
   \<Rightarrow> (bool \<times> buffer \<times> crypto_options) option" where
  "aead_open hm now epoch_fmt slot epoch pin iv ad_start b work opt =
     (let ctx = slot_ctx opt slot; tag_size = OPENVPN_AEAD_TAG_LENGTH in
      case kc_cipher ctx of None \<Rightarrow> None
      | Some (c, key) \<Rightarrow>
        if \<not> ck_reset c key (combine_iv c ctx iv) then crypt_drop b opt
        else
          let iv1 = combine_iv c ctx iv;
              ad = mem_get (bf_mem b) ad_start (nat (bf_off b) - ad_start);
              (ok, b1) = (if epoch_fmt then (True, b) else buf_advance b tag_size);
              data_len = (if epoch_fmt then buf_len b - tag_size else buf_len b1);
              tag = (if epoch_fmt then drop (nat data_len) (buf_bytes b) else take (nat tag_size) (buf_bytes b));
              data = take (nat data_len) (buf_bytes b1)
          in
          if \<not> ok then None
          else if \<not> buf_safe work (bf_len b1 + ck_block_size c) then crypt_drop b1 opt
          else case ck_dec c key iv1 ad data of
                 None \<Rightarrow> crypt_drop b1 opt
               | Some out1 \<Rightarrow>
                 (case cipher_put work out1 of None \<Rightarrow> None
                  | Some work1 \<Rightarrow>
                    (case ck_dec_final c key iv1 ad data tag of
                       None \<Rightarrow> crypt_drop b1 (set_slot slot (ctx\<lparr>failed_verifications := failed_verifications ctx + 1\<rparr>) opt)
                     | Some out2 \<Rightarrow>
                       (case cipher_put work1 out2 of None \<Rightarrow> None
                        | Some work2 \<Rightarrow>
                          (case crypto_check_replay hm now opt pin epoch of None \<Rightarrow> None
                           | Some (False, opt1) \<Rightarrow> crypt_drop b1 opt1
                           | Some (True, opt1) \<Rightarrow>
                               Some (True, work2, set_decrypt (count_blocks out2 (decrypt_ctx opt1)) opt1))))))"

text \<open>\<open>headroom\<close> is \<^verbatim>\<open>frame->buf.headroom\<close>, \<open>ad_start\<close> an index into the memory of \<open>b\<close>.\<close>

definition openvpn_decrypt_aead ::
  "hmac \<Rightarrow> int \<Rightarrow> int \<Rightarrow> nat \<Rightarrow> buffer \<Rightarrow> buffer \<Rightarrow> crypto_options \<Rightarrow> (bool \<times> buffer \<times> crypto_options) option" where
  "openvpn_decrypt_aead hm now headroom ad_start b work opt =
     (let epoch_fmt = epoch_format opt; iv0 = replicate (nat OPENVPN_MAX_IV_LENGTH) 0 in
      if \<not> epoch_fmt \<and> cipher_decrypt_verify_fail_exceeded (decrypt_ctx opt) then crypt_drop b opt
      else if \<not> (bf_len b > 0 \<and> kc_cipher (decrypt_ctx opt) \<noteq> None \<and> int ad_start \<le> bf_off b) then None
      else case buf_init work headroom of (False, w) \<Rightarrow> None
           | (True, work1) \<Rightarrow>
             if \<not> initialized (pid_rec (co_packet_id opt)) then None
             else if bf_len b < packet_id_size False + OPENVPN_AEAD_TAG_LENGTH + 1 + (if epoch_fmt then 4 else 0)
             then crypt_drop b opt
             else if epoch_fmt then
               let iv = mem_put iv0 0 (take 8 (buf_bytes b)) in
               (case packet_id_read_epoch b \<lparr>pn_id = 0, pn_time = 0\<rparr> of
                  ((epoch, pin), b1) \<Rightarrow>
                    if epoch = 0 then crypt_drop b1 opt
                    else (case epoch_lookup_decrypt_key opt epoch of None \<Rightarrow> crypt_drop b1 opt
                          | Some slot \<Rightarrow>
                              if cipher_decrypt_verify_fail_exceeded (slot_ctx opt slot) then crypt_drop b1 opt
                              else aead_open hm now True slot epoch pin iv ad_start b1 work1 opt))
             else
               let iv = mem_put iv0 0 (take 4 (buf_bytes b)) in
               (case packet_id_read b False of
                  ((False, pin), b1) \<Rightarrow> crypt_drop b1 opt
                | ((True, pin), b1) \<Rightarrow> aead_open hm now False Slot_Decrypt 0 pin iv ad_start b1 work1 opt))"

text \<open>
  The other modes. \<open>decrypt_v1_cipher\<close> gives the plaintext buffer and the packet id, or the
  buffer that is dropped.
\<close>

definition decrypt_v1_cipher ::
  "int \<Rightarrow> cipher_kt \<Rightarrow> byte list \<Rightarrow> buffer \<Rightarrow> buffer \<Rightarrow> crypto_options
   \<Rightarrow> ((buffer \<times> packet_id_net option) option \<times> buffer) option" where
  "decrypt_v1_cipher headroom c key b work opt =
     (case buf_init work headroom of (False, w) \<Rightarrow> None
      | (True, work1) \<Rightarrow>
        if bf_len b < ck_iv_size c then Some (None, b)
        else
          let iv = take (nat (ck_iv_size c)) (buf_bytes b) in
          (case buf_advance b (ck_iv_size c) of (False, b1) \<Rightarrow> None
           | (True, b1) \<Rightarrow>
             if bf_len b1 < 1 then Some (None, b1)
             else if \<not> ck_reset c key iv then Some (None, b1)
             else if \<not> buf_safe work1 (bf_len b1 + ck_block_size c) then Some (None, b1)
             else (case ck_dec c key iv [] (buf_bytes b1) of None \<Rightarrow> Some (None, b1)
                   | Some out1 \<Rightarrow>
                     (case cipher_put work1 out1 of None \<Rightarrow> None
                      | Some work2 \<Rightarrow>
                        (case ck_dec_final c key iv [] (buf_bytes b1) [] of None \<Rightarrow> Some (None, b1)
                         | Some out2 \<Rightarrow>
                           (case cipher_put work2 out2 of None \<Rightarrow> None
                            | Some work3 \<Rightarrow>
                              (case ck_mode c of
                                 MODE_CBC \<Rightarrow>
                                   if initialized (pid_rec (co_packet_id opt))
                                   then (case packet_id_read work3 (long_form opt) of
                                           ((False, pin), work4) \<Rightarrow> Some (None, b1)
                                         | ((True, pin), work4) \<Rightarrow> Some (Some (work4, Some pin), b1))
                                   else Some (Some (work3, None), b1)
                               | MODE_OFB_CFB \<Rightarrow>
                                   if \<not> initialized (pid_rec (co_packet_id opt)) then None
                                   else (case buf_set_read (Some (mem_put (replicate (nat OPENVPN_MAX_IV_LENGTH) 0) 0 iv)) (ck_iv_size c) of
                                           None \<Rightarrow> None
                                         | Some ivb \<Rightarrow>
                                           (case packet_id_read ivb True of
                                              ((False, pin), ivb1) \<Rightarrow> Some (None, b1)
                                            | ((True, pin), ivb1) \<Rightarrow> Some (Some (work3, Some pin), b1)))
                               | _ \<Rightarrow> None)))))))"

definition openvpn_decrypt_v1 ::
  "hmac \<Rightarrow> int \<Rightarrow> int \<Rightarrow> buffer \<Rightarrow> buffer \<Rightarrow> crypto_options \<Rightarrow> (bool \<times> buffer \<times> crypto_options) option" where
  "openvpn_decrypt_v1 hm now headroom b work opt =
     (if \<not> bf_len b > 0 then Some (True, b, opt)
      else
        let ctx = decrypt_ctx opt;
            verified = (case kc_hmac ctx of None \<Rightarrow> Some (True, b)
              | Some (md, hk) \<Rightarrow>
                  if bf_len b < md_size md then Some (False, b)
                  else if md_hmac md hk (drop (nat (md_size md)) (buf_bytes b)) \<noteq> take (nat (md_size md)) (buf_bytes b)
                  then Some (False, b)
                  else (case buf_advance b (md_size md) of (True, b1) \<Rightarrow> Some (True, b1) | (False, b1) \<Rightarrow> None));
            finish = (\<lambda>b1 work1 have_pin.
              case have_pin of None \<Rightarrow> Some (True, work1, opt)
              | Some pin \<Rightarrow>
                  (case crypto_check_replay hm now opt pin 0 of None \<Rightarrow> None
                   | Some (False, opt1) \<Rightarrow> crypt_drop b1 opt1
                   | Some (True, opt1) \<Rightarrow> Some (True, work1, opt1)))
        in
        case verified of None \<Rightarrow> None
        | Some (False, b1) \<Rightarrow> crypt_drop b1 opt
        | Some (True, b1) \<Rightarrow>
          (case kc_cipher ctx of
             Some (c, key) \<Rightarrow>
               (case decrypt_v1_cipher headroom c key b1 work opt of None \<Rightarrow> None
                | Some (None, b2) \<Rightarrow> crypt_drop b2 opt
                | Some (Some (work1, have_pin), b2) \<Rightarrow> finish b2 work1 have_pin)
           | None \<Rightarrow>
               if initialized (pid_rec (co_packet_id opt))
               then (case packet_id_read b1 (long_form opt) of
                       ((False, pin), work1) \<Rightarrow> crypt_drop b1 opt
                     | ((True, pin), work1) \<Rightarrow>
                         finish b1 work1 (if co_flags opt AND CO_IGNORE_PACKET_ID \<noteq> 0 then None else Some pin))
               else finish b1 b1 None))"

definition openvpn_decrypt ::
  "hmac \<Rightarrow> int \<Rightarrow> int \<Rightarrow> nat \<Rightarrow> buffer \<Rightarrow> buffer \<Rightarrow> crypto_options \<Rightarrow> (bool \<times> buffer \<times> crypto_options) option" where
  "openvpn_decrypt hm now headroom ad_start b work opt =
     (if bf_len b > 0
      then if cipher_ctx_mode_aead (decrypt_ctx opt)
           then openvpn_decrypt_aead hm now headroom ad_start b work opt
           else openvpn_decrypt_v1 hm now headroom b work opt
      else Some (True, b, opt))"

section \<open>What a sealed packet looks like\<close>

text \<open>
  The documented behaviour of the AEAD ciphers, AES-GCM and ChaCha20-Poly1305: the output has
  the length of the input and is complete before the final call, the tag has 16 bytes,
  decryption inverts encryption, and the final call accepts exactly the tag of the plaintext.
\<close>

definition aead_correct :: "cipher_kt \<Rightarrow> bool" where
  "aead_correct c \<longleftrightarrow>
     (\<forall>key iv. ck_reset c key iv) \<and>
     (\<forall>key iv ad p. length (ck_enc c key iv ad p) = length p \<and> ck_enc_final c key iv ad p = []
        \<and> length (ck_tag c key iv ad p) = 16 \<and> ck_dec c key iv ad (ck_enc c key iv ad p) = Some p) \<and>
     (\<forall>key iv ad x tag p. ck_dec c key iv ad x = Some p \<longrightarrow> length p = length x \<and>
        ck_dec_final c key iv ad x tag = (if x = ck_enc c key iv ad p \<and> tag = ck_tag c key iv ad p then Some [] else None))"

definition cipher_sizes :: "cipher_kt \<Rightarrow> bool" where
  "cipher_sizes c \<longleftrightarrow> 0 \<le> ck_block_size c \<and> OPENVPN_AEAD_MIN_IV_LEN \<le> ck_iv_size c \<and> ck_iv_size c \<le> OPENVPN_MAX_IV_LENGTH"

definition iv_block :: "byte list \<Rightarrow> byte list" where
  "iv_block pid = mem_put (replicate (nat OPENVPN_MAX_IV_LENGTH) 0) 0 pid"

text \<open>The packet for the plaintext \<open>p\<close>: \<open>ad\<close> is the header in front of the packet id.\<close>

definition aead_packet :: "bool \<Rightarrow> cipher_kt \<Rightarrow> byte list \<Rightarrow> key_ctx \<Rightarrow> byte list \<Rightarrow> byte list \<Rightarrow> byte list \<Rightarrow> byte list" where
  "aead_packet epoch_fmt c key ctx ad pid p =
     (let iv = combine_iv c ctx (iv_block pid); x = ck_enc c key iv (ad @ pid) p; tag = ck_tag c key iv (ad @ pid) p
      in pid @ (if epoch_fmt then x @ tag else tag @ x))"

section \<open>Sending\<close>

lemma cipher_put_write:
  assumes "buf_wf w" "buf_defined w"
  shows "cipher_put w out = (if buf_safe w (int (length out)) then Some (snd (buf_write w out)) else None)"
proof -
  obtain m where m: "bf_data w = Some m" using assms(2) by (auto simp: buf_defined_def)
  have b: "0 \<le> bf_off w" "0 \<le> bf_len w" "bf_off w + bf_len w \<le> bf_cap w" "bf_cap w < BUF_SIZE_MAX"
    using assms(1) m by (auto simp: buf_wf_def)
  have n: "nat (bf_off w + bf_len w) = nat (bf_off w) + nat (bf_len w)" using b by (simp add: nat_add_distrib)
  show ?thesis
    using m b n
    by (auto simp: cipher_put_def buf_inc_len_def buf_safe_bidir_def buf_size_valid_signed_def buf_safe_def buf_size_valid_def
        buf_valid_def bf_poke_def buf_write_def buf_write_alloc_def buf_bptr_def Let_def BUF_SIZE_MAX_def)
qed

lemma reserve_fill:
  assumes wf: "buf_wf w" and safe: "buf_safe w (int n + int (length x))" and tag: "length tag = n"
  obtains i w1 where "buf_write_alloc w (int n) = (Some i, w1)" "buf_wf w1" "buf_defined w1" "buf_safe w1 (int (length x))"
    "buf_wf (bf_poke (snd (buf_write w1 x)) i tag)" "content (bf_poke (snd (buf_write w1 x)) i tag) = content w @ tag @ x"
    "bf_off (bf_poke (snd (buf_write w1 x)) i tag) = bf_off w"
proof -
  obtain m where m: "bf_data w = Some m" using safe by (auto simp: buf_safe_def buf_valid_def)
  define i where "i = nat (bf_off w) + nat (bf_len w)"
  define w1 where "w1 = w\<lparr>bf_len := bf_len w + int n\<rparr>"
  have b: "0 \<le> bf_off w" "0 \<le> bf_len w" "bf_off w + bf_len w + int n + int (length x) \<le> bf_cap w"
    "bf_cap w = int (length m)" "bf_cap w < BUF_SIZE_MAX"
    using wf safe m by (auto simp: buf_wf_def buf_safe_def)
  have fit: "i + n + length x \<le> length m" using b unfolding i_def by linarith
  have sz: "bf_len w + int n + int (length x) < BUF_SIZE_MAX" "int n < BUF_SIZE_MAX" "int (length x) < BUF_SIZE_MAX" using b by linarith+
  have a: "buf_write_alloc w (int n) = (Some i, w1)"
    using m b sz by (simp add: buf_write_alloc_def buf_safe_def buf_valid_def buf_size_valid_def buf_bptr_def w1_def i_def)
  have wf1: "buf_wf w1" "buf_defined w1" using b m by (simp_all add: buf_wf_def w1_def buf_defined_def)
  have s1: "buf_safe w1 (int (length x))" using b m sz by (simp add: buf_safe_def buf_valid_def buf_size_valid_def w1_def)
  define w2 where "w2 = bf_poke (snd (buf_write w1 x)) i tag"
  have nn: "nat (bf_len w + int n) = nat (bf_len w) + n" "nat (bf_len w + int n + int (length x)) = nat (bf_len w) + (n + length x)"
    using b by (simp_all add: nat_add_distrib)
  have e: "w2 = w\<lparr>bf_len := bf_len w + int n + int (length x), bf_data := Some (mem_put (mem_put m (i + n) x) i tag)\<rparr>"
    using s1 m b nn by (simp add: w2_def buf_write_def buf_write_alloc_def bf_poke_def buf_bptr_def buf_valid_def w1_def i_def add_ac)
  have l: "length (mem_put m (i + n) x) = length m" using fit by (simp add: length_mem_put)
  have "length (mem_put (mem_put m (i + n) x) i tag) = length m" using fit tag l by (simp add: length_mem_put)
  then have wf2: "buf_wf w2" using b sz by (simp add: e buf_wf_def)
  have "mem_get (mem_put (mem_put m (i + n) x) i tag) (nat (bf_off w)) (nat (bf_len w) + (n + length x)) =
      mem_get m (nat (bf_off w)) (nat (bf_len w)) @ tag @ x"
  proof -
    let ?o = "nat (bf_off w)" and ?l = "nat (bf_len w)" and ?m = "mem_put (mem_put m (i + n) x) i tag"
    have "mem_get ?m ?o (?l + (n + length x)) = mem_get ?m ?o ?l @ mem_get ?m i n @ mem_get ?m (i + n) (length x)"
      by (simp add: mem_get_append i_def)
    also have "mem_get ?m ?o ?l = mem_get m ?o ?l" using fit l by (simp add: mem_get_put_before i_def)
    also have "mem_get ?m i n = tag" using fit l tag by (simp add: mem_get_put_same)
    also have "mem_get ?m (i + n) (length x) = x" using fit l tag by (simp add: mem_get_put_after mem_get_put_same)
    finally show ?thesis .
  qed
  then have "content w2 = content w @ tag @ x" using m nn by (simp add: content_def bf_mem_def e)
  moreover have "bf_off w2 = bf_off w" by (simp add: e)
  ultimately show thesis using that[OF a wf1 s1] wf2 by (simp add: w2_def)
qed

lemma buf_safe_mono: "buf_safe w n \<Longrightarrow> 0 \<le> k \<Longrightarrow> k \<le> n \<Longrightarrow> buf_safe w k"
  by (auto simp: buf_safe_def buf_size_valid_def)

lemma encrypt_reset_iv_sel [simp]:
  "encrypt_ctx (encrypt_reset_iv iv opt) = (encrypt_ctx opt)\<lparr>kc_iv := iv\<rparr>"
  by (simp add: encrypt_reset_iv_def set_encrypt_def)

lemma aead_seal_ok:
  assumes c: "aead_correct c" "cipher_sizes c" and wf: "buf_wf b" "buf_wf w" "buf_defined w"
    and safe: "buf_safe w (bf_len b + OPENVPN_AEAD_TAG_LENGTH + ck_block_size c)"
  shows "\<exists>out x tag. x = ck_enc c key iv (content w) (content b) \<and> tag = ck_tag c key iv (content w) (content b)
    \<and> aead_seal f c key iv b w opt = Some (out, set_encrypt (count_blocks x (encrypt_ctx (encrypt_reset_iv iv opt))) (encrypt_reset_iv iv opt))
    \<and> buf_wf out \<and> content out = content w @ (if f then x @ tag else tag @ x) \<and> bf_off out = bf_off w"
proof -
  define x where "x = ck_enc c key iv (content w) (content b)"
  define tag where "tag = ck_tag c key iv (content w) (content b)"
  have r: "ck_reset c key iv" "ck_enc_final c key iv (content w) (content b) = []" "length tag = 16" "int (length x) = bf_len b"
    using c(1) bf_len_content[OF wf(1)] by (simp_all add: aead_correct_def x_def tag_def)
  have l: "0 \<le> bf_len b" "0 \<le> ck_block_size c" using buf_wf_bounds[OF wf(1)] c(2) by (auto simp: cipher_sizes_def)
  have s: "buf_safe w (int 16 + int (length x))"
    by (rule buf_safe_mono[OF safe]) (use l r(4) in \<open>simp_all add: OPENVPN_AEAD_TAG_LENGTH_def\<close>)
  have bytes: "buf_bytes w = content w" "buf_bytes b = content b" using wf by (simp_all add: buf_bytes_wf)
  have nil: "buf_safe v 0 \<and> snd (buf_write v []) = v" if "buf_wf v" "buf_defined v" for v
  proof -
    have "0 \<le> nat (bf_off v) + nat (bf_len v)" by simp
    then show ?thesis using that
      by (auto simp: buf_safe_def buf_wf_def buf_valid_def buf_size_valid_def BUF_SIZE_MAX_def buf_defined_def buf_write_def
          buf_write_alloc_def buf_bptr_def bf_poke_def mem_put_def split: option.splits)
  qed
  show ?thesis
  proof (cases f)
    case False
    obtain i w1 where a: "buf_write_alloc w (int 16) = (Some i, w1)" "buf_wf w1" "buf_defined w1" "buf_safe w1 (int (length x))"
      "buf_wf (bf_poke (snd (buf_write w1 x)) i tag)" "content (bf_poke (snd (buf_write w1 x)) i tag) = content w @ tag @ x"
      "bf_off (bf_poke (snd (buf_write w1 x)) i tag) = bf_off w"
      using reserve_fill[OF wf(2) s r(3)] by metis
    have w2: "buf_wf (snd (buf_write w1 x))" "buf_defined (snd (buf_write w1 x))" using a(2,3) by (simp_all add: buf_simps)
    have "aead_seal f c key iv b w opt = Some (bf_poke (snd (buf_write w1 x)) i tag, set_encrypt (count_blocks x (encrypt_ctx (encrypt_reset_iv iv opt))) (encrypt_reset_iv iv opt))"
      using False r safe a(1,4) cipher_put_write[OF a(2,3), of x] cipher_put_write[OF w2, of "[]"] nil[OF w2]
      by (simp add: aead_seal_def Let_def bytes x_def[symmetric] tag_def[symmetric] OPENVPN_AEAD_TAG_LENGTH_def)
    then show ?thesis using a(5-7) False by (simp add: x_def[symmetric] tag_def[symmetric])
  next
    case True
    have sx: "buf_safe w (int (length x))" by (rule buf_safe_mono[OF s]) simp_all
    obtain w1 where w1: "buf_write w x = (True, w1)" "buf_wf w1" "content w1 = content w @ x" "bf_off w1 = bf_off w"
      "bf_cap w1 = bf_cap w" "bf_len w1 = bf_len w + int (length x)" "buf_defined w1"
      using buf_write_safe[OF wf(2) sx] by metis
    have st: "buf_safe w1 (int (length tag))"
      using s w1(4-7) r(3) wf(2) w1(2) by (simp add: buf_safe_wf)
    obtain out where o: "buf_write w1 tag = (True, out)" "buf_wf out" "content out = content w1 @ tag" "bf_off out = bf_off w1"
      using buf_write_safe[OF w1(2) st] by metis
    then obtain i w2 where al: "buf_write_alloc w1 16 = (Some i, w2)" "out = bf_poke w2 i tag"
      using r(3) by (auto simp: buf_write_def split: prod.splits option.splits)
    have "aead_seal f c key iv b w opt = Some (out, set_encrypt (count_blocks x (encrypt_ctx (encrypt_reset_iv iv opt))) (encrypt_reset_iv iv opt))"
      using True r safe w1(1) al sx cipher_put_write[OF wf(2,3), of x] cipher_put_write[OF w1(2,7), of "[]"] nil[OF w1(2,7)]
      by (simp add: aead_seal_def Let_def bytes x_def[symmetric] tag_def[symmetric] OPENVPN_AEAD_TAG_LENGTH_def)
    then show ?thesis using o w1 True by (simp add: x_def[symmetric] tag_def[symmetric])
  qed
qed

definition epoch_pid :: "u16 \<Rightarrow> u64 \<Rightarrow> byte list" where
  "epoch_pid e i = enc64 (push_bit 48 (ucast e) OR i)"

text \<open>The bytes of the packet id that goes out with the counter \<open>ps\<close>.\<close>

definition pid_bytes :: "bool \<Rightarrow> u16 \<Rightarrow> packet_id_send \<Rightarrow> byte list" where
  "pid_bytes epoch_fmt e ps = (if epoch_fmt then epoch_pid e (ps_id ps) else enc32 (ucast (ps_id ps)))"

lemma length_pid_bytes: "length (pid_bytes f e ps) = (if f then 8 else 4)"
  by (simp add: pid_bytes_def epoch_pid_def length_enc)

lemma iv_buffer_ok:
  assumes "cipher_sizes c" "length pid \<le> 8"
  obtains b b1 where "buf_set_write (Some (replicate (nat OPENVPN_MAX_IV_LENGTH) 0)) (ck_iv_size c) = Some b"
    "buf_write b pid = (True, b1)" "bf_mem b1 = iv_block pid" "take (nat (buf_len b1)) (bf_mem b1) = pid"
proof -
  have sz: "12 \<le> ck_iv_size c" "ck_iv_size c \<le> 16" using assms(1)
    by (simp_all add: cipher_sizes_def OPENVPN_AEAD_MIN_IV_LEN_def OPENVPN_MAX_IV_LENGTH_def)
  define b where "b = \<lparr>bf_cap = ck_iv_size c, bf_off = 0, bf_len = 0, bf_data = Some (replicate 16 (0 :: byte))\<rparr>"
  have z: "mem_put (replicate 16 (0 :: byte)) 0 [0] = replicate 16 0" by (simp add: mem_put_def numeral_eq_Suc)
  have s: "buf_set_write (Some (replicate (nat OPENVPN_MAX_IV_LENGTH) 0)) (ck_iv_size c) = Some b"
    using sz z by (simp add: buf_set_write_def buf_size_valid_def BUF_SIZE_MAX_def b_def OPENVPN_MAX_IV_LENGTH_def)
  define b1 where "b1 = b\<lparr>bf_len := int (length pid), bf_data := Some (iv_block pid)\<rparr>"
  have w: "buf_write b pid = (True, b1)"
    using sz assms(2) by (simp add: buf_write_def buf_write_alloc_def buf_safe_def buf_valid_def buf_size_valid_def BUF_SIZE_MAX_def
        b_def b1_def buf_bptr_def bf_poke_def iv_block_def OPENVPN_MAX_IV_LENGTH_def)
  have "take (length pid) (iv_block pid) = pid" by (simp add: iv_block_def mem_put_def)
  then show thesis using that[OF s w] by (simp add: b1_def bf_mem_def buf_len_def buf_valid_def)
qed

definition encrypt_update :: "bool \<Rightarrow> int \<Rightarrow> packet_id_send \<Rightarrow> bool \<times> packet_id_send" where
  "encrypt_update epoch_fmt now ps = (if epoch_fmt then packet_id_send_update_epoch now ps else packet_id_send_update now ps False)"

lemma id_write_ok:
  assumes "cipher_sizes c"
  obtains ivb where "buf_set_write (Some (replicate (nat OPENVPN_MAX_IV_LENGTH) 0)) (ck_iv_size c) = Some ivb"
    "\<And>ps. encrypt_update f now snd_id = (False, ps) \<Longrightarrow>
       (if f then packet_id_write_epoch now snd_id e ivb else packet_id_write now snd_id ivb False False) = (False, ps, ivb)"
    "\<And>ps. encrypt_update f now snd_id = (True, ps) \<Longrightarrow>
       \<exists>ivb1. (if f then packet_id_write_epoch now snd_id e ivb else packet_id_write now snd_id ivb False False) = (True, ps, ivb1)
         \<and> bf_mem ivb1 = iv_block (pid_bytes f e ps) \<and> take (nat (buf_len ivb1)) (bf_mem ivb1) = pid_bytes f e ps"
proof -
  obtain ivb where b: "buf_set_write (Some (replicate (nat OPENVPN_MAX_IV_LENGTH) 0)) (ck_iv_size c) = Some ivb"
    using iv_buffer_ok[OF assms, of "[]"] by auto
  have w: "\<exists>ivb1. buf_write ivb (pid_bytes f e ps) = (True, ivb1) \<and> bf_mem ivb1 = iv_block (pid_bytes f e ps)
      \<and> take (nat (buf_len ivb1)) (bf_mem ivb1) = pid_bytes f e ps" for ps
  proof -
    have "length (pid_bytes f e ps) \<le> 8" by (simp add: length_pid_bytes)
    from iv_buffer_ok[OF assms this] b show ?thesis by (metis option.inject)
  qed
  show thesis
  proof (rule that[OF b])
    fix ps assume "encrypt_update f now snd_id = (False, ps)"
    then show "(if f then packet_id_write_epoch now snd_id e ivb else packet_id_write now snd_id ivb False False) = (False, ps, ivb)"
      by (auto simp: encrypt_update_def packet_id_write_epoch_def packet_id_write_def split: if_splits)
  next
    fix ps assume u: "encrypt_update f now snd_id = (True, ps)"
    obtain ivb1 where "buf_write ivb (pid_bytes f e ps) = (True, ivb1)" "bf_mem ivb1 = iv_block (pid_bytes f e ps)"
      "take (nat (buf_len ivb1)) (bf_mem ivb1) = pid_bytes f e ps" using w by blast
    then show "\<exists>ivb1. (if f then packet_id_write_epoch now snd_id e ivb else packet_id_write now snd_id ivb False False) = (True, ps, ivb1)
         \<and> bf_mem ivb1 = iv_block (pid_bytes f e ps) \<and> take (nat (buf_len ivb1)) (bf_mem ivb1) = pid_bytes f e ps"
      using u by (auto simp: encrypt_update_def packet_id_write_epoch_def packet_id_write_def pid_bytes_def epoch_pid_def Let_def split: if_splits)
  qed
qed

text \<open>The sender's state once the counter is \<open>ps\<close> and the cipher has its IV.\<close>

definition sealing_state :: "cipher_kt \<Rightarrow> bool \<Rightarrow> packet_id_send \<Rightarrow> crypto_options \<Rightarrow> crypto_options" where
  "sealing_state c epoch_fmt ps opt =
     encrypt_reset_iv (combine_iv c (encrypt_ctx opt) (iv_block (pid_bytes epoch_fmt (kc_epoch (encrypt_ctx opt)) ps))) (set_pid_send ps opt)"

lemma sealing_state_ctx:
  "encrypt_ctx (sealing_state c f ps opt) =
     (encrypt_ctx opt)\<lparr>kc_iv := combine_iv c (encrypt_ctx opt) (iv_block (pid_bytes f (kc_epoch (encrypt_ctx opt)) ps))\<rparr>"
  by (simp add: sealing_state_def set_pid_send_def)

text \<open>Everything the sender can do with a packet.\<close>

lemma encrypt_aead_cases:
  assumes opt: "(if epoch_format opt0 then epoch_check_send_iterate hm opt0 else Some opt0) = Some opt"
    and k: "kc_cipher (encrypt_ctx opt) = Some (c, key)" "aead_correct c" "cipher_sizes c" "initialized (pid_rec (co_packet_id opt))"
    and wf: "buf_wf b" "buf_wf work" "buf_defined work" and room: "buf_safe work 8"
  shows "case encrypt_update (epoch_format opt0) now (pid_send (co_packet_id opt)) of
      (False, ps) \<Rightarrow> openvpn_encrypt_aead hm now b work opt0 = Some (crypt_drop_buf b, set_pid_send ps opt)
    | (True, ps) \<Rightarrow>
        openvpn_encrypt_aead hm now b work opt0 = Some (crypt_drop_buf b, sealing_state c (epoch_format opt0) ps opt)
          \<and> \<not> buf_safe work (int (length (pid_bytes (epoch_format opt0) (kc_epoch (encrypt_ctx opt)) ps)) + bf_len b + OPENVPN_AEAD_TAG_LENGTH + ck_block_size c)
        \<or> (\<exists>out x. openvpn_encrypt_aead hm now b work opt0 = Some (out, set_encrypt (count_blocks x (encrypt_ctx (sealing_state c (epoch_format opt0) ps opt)))
                (sealing_state c (epoch_format opt0) ps opt))
            \<and> length x = length (content b) \<and> buf_wf out \<and> bf_off out = bf_off work
            \<and> content out = content work @ aead_packet (epoch_format opt0) c key (encrypt_ctx opt) (content work)
                (pid_bytes (epoch_format opt0) (kc_epoch (encrypt_ctx opt)) ps) (content b))"
proof -
  let ?f = "epoch_format opt0" and ?ctx = "encrypt_ctx opt" and ?snd = "pid_send (co_packet_id opt)"
  have sz: "\<not> \<not> (ck_iv_size c \<ge> OPENVPN_AEAD_MIN_IV_LEN \<and> ck_iv_size c \<le> OPENVPN_MAX_IV_LENGTH)"
    using k(3) by (simp add: cipher_sizes_def)
  obtain ivb where iv: "buf_set_write (Some (replicate (nat OPENVPN_MAX_IV_LENGTH) 0)) (ck_iv_size c) = Some ivb"
    "\<And>ps. encrypt_update ?f now ?snd = (False, ps) \<Longrightarrow>
       (if ?f then packet_id_write_epoch now ?snd (kc_epoch ?ctx) ivb else packet_id_write now ?snd ivb False False) = (False, ps, ivb)"
    "\<And>ps. encrypt_update ?f now ?snd = (True, ps) \<Longrightarrow>
       \<exists>ivb1. (if ?f then packet_id_write_epoch now ?snd (kc_epoch ?ctx) ivb else packet_id_write now ?snd ivb False False) = (True, ps, ivb1)
         \<and> bf_mem ivb1 = iv_block (pid_bytes ?f (kc_epoch ?ctx) ps) \<and> take (nat (buf_len ivb1)) (bf_mem ivb1) = pid_bytes ?f (kc_epoch ?ctx) ps"
    by (rule id_write_ok[OF k(3), where f = ?f and now = now and snd_id = ?snd and e = "kc_epoch ?ctx"]) (rule that; assumption)
  have enc: "openvpn_encrypt_aead hm now b work opt0 =
     (case (if ?f then packet_id_write_epoch now ?snd (kc_epoch ?ctx) ivb else packet_id_write now ?snd ivb False False) of
        (False, snd_id1, iv_buffer1) \<Rightarrow> Some (crypt_drop_buf b, set_pid_send snd_id1 opt)
      | (True, snd_id1, iv_buffer1) \<Rightarrow>
         (case buf_write work (take (nat (buf_len iv_buffer1)) (bf_mem iv_buffer1)) of (False, work1) \<Rightarrow> None
          | (True, work1) \<Rightarrow> aead_seal ?f c key (combine_iv c ?ctx (bf_mem iv_buffer1)) b work1 (set_pid_send snd_id1 opt)))"
    unfolding openvpn_encrypt_aead_def opt Let_def option.case k(1) prod.case iv(1) using k(4) k(3)
    by (simp only: not_not cipher_sizes_def if_False simp_thms)
  obtain ok ps where u: "encrypt_update ?f now ?snd = (ok, ps)" by fastforce
  show ?thesis
  proof (cases ok)
    case False
    then show ?thesis using u iv(2)[of ps] by (simp add: enc)
  next
    case True
    let ?pid = "pid_bytes ?f (kc_epoch ?ctx) ps"
    have ut: "encrypt_update ?f now ?snd = (True, ps)" using u True by simp
    obtain ivb1 where w: "(if ?f then packet_id_write_epoch now ?snd (kc_epoch ?ctx) ivb else packet_id_write now ?snd ivb False False) = (True, ps, ivb1)"
      "bf_mem ivb1 = iv_block ?pid" "take (nat (buf_len ivb1)) (bf_mem ivb1) = ?pid" using iv(3)[OF ut] by blast
    have "buf_safe work (int (length ?pid))" by (rule buf_safe_mono[OF room]) (simp_all add: length_pid_bytes)
    then obtain work1 where w1: "buf_write work ?pid = (True, work1)" "buf_wf work1" "content work1 = content work @ ?pid"
      "bf_off work1 = bf_off work" "bf_cap work1 = bf_cap work" "bf_len work1 = bf_len work + int (length ?pid)" "buf_defined work1"
      using buf_write_safe[OF wf(2)] by metis
    have e: "openvpn_encrypt_aead hm now b work opt0 = aead_seal ?f c key (combine_iv c ?ctx (iv_block ?pid)) b work1 (set_pid_send ps opt)"
      unfolding enc w(1) using w(2,3) w1(1) by simp
    have safe: "buf_safe work1 (bf_len b + OPENVPN_AEAD_TAG_LENGTH + ck_block_size c) \<longleftrightarrow>
        buf_safe work (int (length ?pid) + bf_len b + OPENVPN_AEAD_TAG_LENGTH + ck_block_size c)"
      using wf w1 buf_wf_bounds[OF wf(1)] k(3) by (auto simp: buf_safe_wf cipher_sizes_def OPENVPN_AEAD_TAG_LENGTH_def)
    show ?thesis
    proof (cases "buf_safe work1 (bf_len b + OPENVPN_AEAD_TAG_LENGTH + ck_block_size c)")
      case False
      have "ck_reset c key (combine_iv c ?ctx (iv_block ?pid))" using k(2) by (simp add: aead_correct_def)
      then have "openvpn_encrypt_aead hm now b work opt0 = Some (crypt_drop_buf b, sealing_state c ?f ps opt)"
        using False unfolding e by (simp add: aead_seal_def Let_def sealing_state_def)
      then show ?thesis using False safe u True by simp
    next
      case s: True
      let ?x = "ck_enc c key (combine_iv c ?ctx (iv_block ?pid)) (content work1) (content b)"
      obtain out where o: "openvpn_encrypt_aead hm now b work opt0 = Some (out, set_encrypt (count_blocks ?x (encrypt_ctx (sealing_state c ?f ps opt))) (sealing_state c ?f ps opt))"
        "buf_wf out" "bf_off out = bf_off work1"
        "content out = content work1 @ (if ?f then ?x @ ck_tag c key (combine_iv c ?ctx (iv_block ?pid)) (content work1) (content b)
           else ck_tag c key (combine_iv c ?ctx (iv_block ?pid)) (content work1) (content b) @ ?x)"
        unfolding e using aead_seal_ok[OF k(2,3) wf(1) w1(2,7) s, of key "combine_iv c ?ctx (iv_block ?pid)" ?f "set_pid_send ps opt"] unfolding sealing_state_def by metis
      have "length ?x = length (content b)" using k(2) by (simp add: aead_correct_def)
      then show ?thesis using o w1(3,4) u True
        by (auto simp: aead_packet_def Let_def intro!: exI[of _ out] exI[of _ ?x])
    qed
  qed
qed

section \<open>Receiving\<close>

definition aead_tail :: "bool \<Rightarrow> cipher_kt \<Rightarrow> byte list \<Rightarrow> byte list \<Rightarrow> byte list \<Rightarrow> byte list \<Rightarrow> byte list" where
  "aead_tail f c key iv ad p =
     (if f then ck_enc c key iv ad p @ ck_tag c key iv ad p else ck_tag c key iv ad p @ ck_enc c key iv ad p)"

lemma aead_packet_tail:
  "aead_packet f c key ctx ad pid p = pid @ aead_tail f c key (combine_iv c ctx (iv_block pid)) (ad @ pid) p"
  by (simp add: aead_packet_def aead_tail_def Let_def)

text \<open>The bytes in front of the buffer from \<open>i\<close> on.\<close>

definition bytes_before :: "buffer \<Rightarrow> nat \<Rightarrow> byte list" where
  "bytes_before b i = mem_get (bf_mem b) i (nat (bf_off b) - i)"

text \<open>A dropped packet changes at most the failure counter of the key it was tried with.\<close>

definition dropped :: "key_slot option \<Rightarrow> crypto_options \<Rightarrow> (bool \<times> buffer \<times> crypto_options) option \<Rightarrow> bool" where
  "dropped s opt r \<longleftrightarrow> (\<exists>b' opt'. r = Some (False, b', opt') \<and> bf_len b' = 0 \<and>
     (opt' = opt \<or> (\<exists>slot n. s = Some slot \<and> opt' = set_slot slot ((slot_ctx opt slot)\<lparr>failed_verifications := n\<rparr>) opt)))"

text \<open>An authentic packet is delivered exactly when the replay check lets it pass.\<close>

definition checked :: "(bool \<times> crypto_options) option \<Rightarrow> byte list \<Rightarrow> (bool \<times> buffer \<times> crypto_options) option \<Rightarrow> bool" where
  "checked rc p r \<longleftrightarrow>
     (case rc of None \<Rightarrow> r = None
      | Some (False, opt1) \<Rightarrow> (\<exists>b'. r = Some (False, b', opt1) \<and> bf_len b' = 0)
      | Some (True, opt1) \<Rightarrow> (\<exists>w. r = Some (True, w, set_decrypt (count_blocks [] (decrypt_ctx opt1)) opt1) \<and> buf_wf w \<and> content w = p))"

lemma crypt_drop_dropped: "dropped s opt (crypt_drop b opt)"
  by (auto simp: dropped_def crypt_drop_def crypt_drop_buf_def)

lemma crypt_drop_failed:
  "dropped (Some slot) opt (crypt_drop b (set_slot slot ((slot_ctx opt slot)\<lparr>failed_verifications := n\<rparr>) opt))"
  by (auto simp: dropped_def crypt_drop_def crypt_drop_buf_def)

lemma aead_open_cases:
  fixes iv :: "byte list" and ad_start :: nat and hm :: hmac and now :: int and f :: bool and slot :: key_slot
    and epoch :: u16 and pin :: packet_id_net and b work :: buffer and opt :: crypto_options and c :: cipher_kt
  assumes wf: "buf_wf b" "buf_defined b" "buf_wf work" "buf_defined work" "content work = []"
    and len: "OPENVPN_AEAD_TAG_LENGTH \<le> bf_len b"
    and k: "kc_cipher (slot_ctx opt slot) = Some (c, key)" "aead_correct c" "cipher_sizes c"
  defines "iv1 \<equiv> combine_iv c (slot_ctx opt slot) iv" and "ad \<equiv> bytes_before b ad_start"
    and "r \<equiv> aead_open hm now f slot epoch pin iv ad_start b work opt"
  shows "dropped (Some slot) opt r \<and> (buf_safe work (bf_len b + ck_block_size c) \<longrightarrow> (\<forall>p. content b \<noteq> aead_tail f c key iv1 ad p))
    \<or> (\<exists>p. content b = aead_tail f c key iv1 ad p \<and> checked (crypto_check_replay hm now opt pin epoch) p r)"
proof -
  have len: "16 \<le> bf_len b" using len by (simp add: OPENVPN_AEAD_TAG_LENGTH_def)
  have lc: "int (length (content b)) = bf_len b" using bf_len_content[OF wf(1)] by simp
  obtain b1 where b1: "(if f then (True, b) else buf_advance b 16) = (True, b1)" "buf_wf b1" "buf_defined b1"
    "content b1 = (if f then content b else drop 16 (content b))" "bf_len b1 = (if f then bf_len b else bf_len b - 16)"
  proof (cases f)
    case True
    then show thesis using that[of b] wf(1,2) by simp
  next
    case False
    obtain b1 where "buf_advance b 16 = (True, b1)" "buf_wf b1" "content b1 = drop (nat 16) (content b)" "buf_defined b1" "bf_len b1 = bf_len b - 16"
      by (rule buf_advance_ok[OF wf(1,2), where n = 16]) (use len in auto)
    then show thesis using that[of b1] False by simp
  qed
  define n where "n = bf_len b - 16"
  define data where "data = take (nat n) (content b1)"
  define tag where "tag = (if f then drop (nat n) (content b) else take 16 (content b))"
  have split: "content b = (if f then data @ tag else tag @ data)" "length tag = 16" "length data = nat n"
    using len lc b1(4) by (auto simp: data_def tag_def n_def nat_diff_distrib)
  have dl: "(if f then buf_len b - OPENVPN_AEAD_TAG_LENGTH else buf_len b1) = n"
    using wf(1) b1(2,5) by (simp add: buf_len_wf n_def OPENVPN_AEAD_TAG_LENGTH_def)
  have nc: "ck_reset c key iv1" using k(2) by (simp add: aead_correct_def)
  have r: "r = (if \<not> buf_safe work (bf_len b1 + ck_block_size c) then crypt_drop b1 opt
      else case ck_dec c key iv1 ad data of None \<Rightarrow> crypt_drop b1 opt
      | Some out1 \<Rightarrow> (case cipher_put work out1 of None \<Rightarrow> None
         | Some work1 \<Rightarrow> (case ck_dec_final c key iv1 ad data tag of
              None \<Rightarrow> crypt_drop b1 (set_slot slot ((slot_ctx opt slot)\<lparr>failed_verifications := failed_verifications (slot_ctx opt slot) + 1\<rparr>) opt)
            | Some out2 \<Rightarrow> (case cipher_put work1 out2 of None \<Rightarrow> None
               | Some work2 \<Rightarrow> (case crypto_check_replay hm now opt pin epoch of None \<Rightarrow> None
                    | Some (False, opt1) \<Rightarrow> crypt_drop b1 opt1
                    | Some (True, opt1) \<Rightarrow> Some (True, work2, set_decrypt (count_blocks out2 (decrypt_ctx opt1)) opt1))))))"
  proof (cases f)
    case True
    have e: "b1 = b" using b1(1) True by simp
    have l: "buf_len b - OPENVPN_AEAD_TAG_LENGTH = n" using dl True by simp
    have t: "tag = drop (nat n) (buf_bytes b)" "data = take (nat n) (buf_bytes b)" using wf(1) True e by (simp_all add: tag_def data_def buf_bytes_wf)
    show ?thesis
      unfolding r_def aead_open_def Let_def k(1) option.case prod.case iv1_def[symmetric] bytes_before_def[symmetric] ad_def[symmetric]
        t e if_P[OF True] prod.case l using nc by simp
  next
    case False
    have e: "buf_advance b OPENVPN_AEAD_TAG_LENGTH = (True, b1)" using b1(1) False by (simp add: OPENVPN_AEAD_TAG_LENGTH_def)
    have l: "buf_len b1 = n" using dl False by simp
    have t: "tag = take (nat OPENVPN_AEAD_TAG_LENGTH) (buf_bytes b)" "data = take (nat n) (buf_bytes b1)"
      using wf(1) b1(2) False by (simp_all add: tag_def data_def buf_bytes_wf OPENVPN_AEAD_TAG_LENGTH_def)
    show ?thesis
      unfolding r_def aead_open_def Let_def k(1) option.case prod.case iv1_def[symmetric] bytes_before_def[symmetric] ad_def[symmetric]
        t if_not_P[OF False] e prod.case l using nc by simp
  qed
  have dec: "length p = length data \<and> ck_dec_final c key iv1 ad data tag =
      (if data = ck_enc c key iv1 ad p \<and> tag = ck_tag c key iv1 ad p then Some [] else None)" if "ck_dec c key iv1 ad data = Some p" for p
    using that k(2) unfolding aead_correct_def by blast
  have packet: "content b = aead_tail f c key iv1 ad p \<longleftrightarrow> data = ck_enc c key iv1 ad p \<and> tag = ck_tag c key iv1 ad p" for p
  proof -
    have "length (ck_tag c key iv1 ad p) = 16" using k(2) by (simp add: aead_correct_def)
    then show ?thesis using split by (auto simp: aead_tail_def append_eq_append_conv)
  qed
  have inv: "ck_dec c key iv1 ad (ck_enc c key iv1 ad p) = Some p" for p using k(2) by (simp add: aead_correct_def)
  have bs: "0 \<le> ck_block_size c" "0 \<le> bf_len b1" using k(3) buf_wf_bounds[OF b1(2)] by (auto simp: cipher_sizes_def)
  show ?thesis
  proof (cases "buf_safe work (bf_len b1 + ck_block_size c)")
    case False
    have "\<not> buf_safe work (bf_len b + ck_block_size c)"
    proof
      assume "buf_safe work (bf_len b + ck_block_size c)"
      then have "buf_safe work (bf_len b1 + ck_block_size c)" by (rule buf_safe_mono) (use bs b1(5) in auto)
      then show False using False by simp
    qed
    moreover have "dropped (Some slot) opt r" unfolding r using False by (simp add: crypt_drop_dropped)
    ultimately show ?thesis by blast
  next
    case safe: True
    show ?thesis
    proof (cases "ck_dec c key iv1 ad data")
      case None
      then have "dropped (Some slot) opt r" unfolding r using safe by (simp add: crypt_drop_dropped)
      moreover have "content b \<noteq> aead_tail f c key iv1 ad p" for p using None inv[of p] packet[of p] by auto
      ultimately show ?thesis by blast
    next
      case (Some p)
      note d = dec[OF Some]
      have sp: "buf_safe work (int (length p))"
        by (rule buf_safe_mono[OF safe]) (use d bs split(3) b1(5) len in \<open>auto simp: n_def\<close>)
      obtain w where w: "buf_write work p = (True, w)" "buf_wf w" "content w = p" "buf_defined w"
        using buf_write_safe[OF wf(3) sp] wf(5) by auto
      have p1: "cipher_put work p = Some w" using cipher_put_write[OF wf(3,4), of p] sp w(1) by simp
      have s0: "buf_safe w 0" using w(2,4) buf_wf_bounds[OF w(2)] by (simp add: buf_safe_wf)
      obtain w' where w': "buf_write w [] = (True, w')" "buf_wf w'" "content w' = p"
        using buf_write_safe[OF w(2), of "[]"] s0 w(3) by auto
      have p2: "cipher_put w [] = Some w'" using cipher_put_write[OF w(2,4), of "[]"] s0 w'(1) by simp
      show ?thesis
      proof (cases "content b = aead_tail f c key iv1 ad p")
        case False
        then have "ck_dec_final c key iv1 ad data tag = None" using d packet[of p] by auto
        then have "dropped (Some slot) opt r" unfolding r using safe Some p1 by (simp add: crypt_drop_failed)
        moreover have "content b \<noteq> aead_tail f c key iv1 ad q" for q using False Some inv[of q] packet[of q] by auto
        ultimately show ?thesis by blast
      next
        case True
        then have "ck_dec_final c key iv1 ad data tag = Some []" using d packet[of p] by auto
        then have "checked (crypto_check_replay hm now opt pin epoch) p r"
          unfolding r using safe Some p1 p2 w'
          by (auto simp: checked_def crypt_drop_def crypt_drop_buf_def split: option.splits bool.splits)
        then show ?thesis using True by blast
      qed
    qed
  qed
qed

lemma read_front:
  assumes wf: "buf_wf b" and n: "0 < n" "int n \<le> bf_len b"
  obtains b1 where "buf_read b (int n) = (Some (take n (content b)), b1)" "buf_wf b1" "buf_defined b1"
    "content b1 = drop n (content b)" "bf_len b1 = bf_len b - int n"
    "\<And>i. int i \<le> bf_off b \<Longrightarrow> bytes_before b1 i = bytes_before b i @ take n (content b)"
proof -
  have def: "buf_defined b" using wf n by (auto simp: buf_wf_def buf_defined_def split: option.splits)
  obtain b0 where r: "buf_read b (int n) = (Some (take (nat (int n)) (content b)), b0)" "buf_wf b0"
    "content b0 = drop (nat (int n)) (content b)" "buf_defined b0" "bf_len b0 = bf_len b - int n"
    by (rule buf_read_ok[OF wf def, of "int n"]) (use n in auto)
  have e: "bf_off b0 = bf_off b + int n" "bf_mem b0 = bf_mem b"
    using r(1) n by (auto simp: buf_read_def buf_read_alloc_def bf_mem_def split: option.splits if_splits prod.splits)
  have bo: "0 \<le> bf_off b" "0 \<le> bf_len b" using buf_wf_bounds[OF wf] by auto
  have "bytes_before b0 i = bytes_before b i @ take n (content b)" if "int i \<le> bf_off b" for i
  proof -
    have "nat (bf_off b + int n) - i = (nat (bf_off b) - i) + n" using that bo by linarith
    moreover have "i + (nat (bf_off b) - i) = nat (bf_off b)" using that by linarith
    moreover have "take n (content b) = mem_get (bf_mem b) (nat (bf_off b)) n"
      using n by (simp add: content_def mem_get_take nat_le_iff le_nat_iff bo)
    ultimately show ?thesis unfolding bytes_before_def e by (simp only: mem_get_append)
  qed
  with r that[of b0] show thesis by simp
qed

lemma init_work:
  assumes "buf_wf work" "buf_defined work" "0 \<le> headroom" "headroom \<le> bf_cap work"
  obtains w where "buf_init work headroom = (True, w)" "buf_wf w" "buf_defined w" "content w = []" "bf_off w = headroom"
    "\<And>n. buf_safe w n \<longleftrightarrow> 0 \<le> n \<and> headroom + n \<le> bf_cap work"
proof -
  define w where "w = work\<lparr>bf_len := 0, bf_off := headroom\<rparr>"
  have i: "buf_init work headroom = (True, w)" using assms by (auto simp: buf_init_def buf_defined_def w_def)
  have wf: "buf_wf w" "buf_defined w" using assms by (auto simp: w_def buf_wf_def buf_defined_def split: option.splits)
  show thesis by (rule that[OF i wf]) (use wf in \<open>simp_all add: w_def content_def buf_safe_wf buf_defined_def\<close>)
qed

definition wire_epoch :: "byte list \<Rightarrow> u16" where
  "wire_epoch pid = ucast (drop_bit 48 (dec64 pid))"

definition wire_pin :: "byte list \<Rightarrow> packet_id_net" where
  "wire_pin pid = \<lparr>pn_id = dec64 pid AND PACKET_ID_MASK, pn_time = 0\<rparr>"

lemma wire_epoch_pid:
  assumes "i \<le> PACKET_ID_EPOCH_MAX"
  shows "wire_epoch (epoch_pid e i) = e" "pn_id (wire_pin (epoch_pid e i)) = i"
  using epoch_pack[OF assms] by (simp_all add: wire_epoch_def wire_pin_def epoch_pid_def dec64_enc64)

text \<open>Everything the receiver can do with a packet in the epoch format.\<close>

lemma decrypt_epoch_cases:
  fixes b work :: buffer and hm :: hmac and now headroom :: int and ad_start :: nat and opt :: crypto_options
  assumes f: "epoch_format opt" and wf: "buf_wf b" "buf_wf work" "buf_defined work"
    and h: "0 \<le> headroom" "headroom \<le> bf_cap work" and len: "0 < bf_len b" and ad: "int ad_start \<le> bf_off b"
    and st: "kc_cipher (decrypt_ctx opt) \<noteq> None" "initialized (pid_rec (co_packet_id opt))"
    and keys: "\<And>slot. epoch_lookup_decrypt_key opt (wire_epoch (take 8 (content b))) = Some slot \<Longrightarrow>
      \<exists>c key. kc_cipher (slot_ctx opt slot) = Some (c, key) \<and> aead_correct c \<and> cipher_sizes c"
  defines "pid \<equiv> take 8 (content b)" and "r \<equiv> openvpn_decrypt_aead hm now headroom ad_start b work opt"
  shows "dropped (epoch_lookup_decrypt_key opt (wire_epoch pid)) opt r \<and>
      (\<forall>slot c key p. wire_epoch pid \<noteq> 0 \<longrightarrow> epoch_lookup_decrypt_key opt (wire_epoch pid) = Some slot \<longrightarrow> kc_cipher (slot_ctx opt slot) = Some (c, key)
         \<longrightarrow> \<not> cipher_decrypt_verify_fail_exceeded (slot_ctx opt slot) \<longrightarrow> headroom + bf_len b + ck_block_size c \<le> bf_cap work \<longrightarrow> p \<noteq> [] \<longrightarrow> length pid = 8
         \<longrightarrow> content b \<noteq> aead_packet True c key (slot_ctx opt slot) (bytes_before b ad_start) pid p)
    \<or> (\<exists>slot c key p. wire_epoch pid \<noteq> 0 \<and> epoch_lookup_decrypt_key opt (wire_epoch pid) = Some slot \<and> length pid = 8
         \<and> kc_cipher (slot_ctx opt slot) = Some (c, key)
         \<and> content b = aead_packet True c key (slot_ctx opt slot) (bytes_before b ad_start) pid p
         \<and> checked (crypto_check_replay hm now opt (wire_pin pid) (wire_epoch pid)) p r)"
proof -
  obtain w where w: "buf_init work headroom = (True, w)" "buf_wf w" "buf_defined w" "content w = []"
    "\<And>n. buf_safe w n \<longleftrightarrow> 0 \<le> n \<and> headroom + n \<le> bf_cap work"
    using init_work[OF wf(2,3) h] by metis
  have lc: "int (length (content b)) = bf_len b" using bf_len_content[OF wf(1)] by simp
  have min_len: "packet_id_size False + OPENVPN_AEAD_TAG_LENGTH + 1 + 4 = 25" by (simp add: packet_id_size_def OPENVPN_AEAD_TAG_LENGTH_def)
  show ?thesis
  proof (cases "bf_len b < 25")
    case True
    then have "dropped (epoch_lookup_decrypt_key opt (wire_epoch pid)) opt r"
      unfolding r_def openvpn_decrypt_aead_def Let_def using f len ad st w(1) min_len by (simp add: crypt_drop_dropped)
    moreover have "content b \<noteq> aead_packet True c key (slot_ctx opt slot) (bytes_before b ad_start) pid p"
      if "epoch_lookup_decrypt_key opt (wire_epoch pid) = Some slot" "kc_cipher (slot_ctx opt slot) = Some (c, key)" "p \<noteq> []" "length pid = 8" for slot c key p
    proof
      assume e: "content b = aead_packet True c key (slot_ctx opt slot) (bytes_before b ad_start) pid p"
      have "aead_correct c" using keys that(1,2) by (auto simp: pid_def)
      then have "length (content b) = 8 + length p + 16" unfolding e by (simp add: aead_packet_tail aead_tail_def that(4) aead_correct_def)
      moreover have "1 \<le> length p" using that(3) by (cases p) simp_all
      ultimately show False using True lc by simp
    qed
    ultimately show ?thesis by blast
  next
    case False
    obtain b1 where b1: "buf_read b (int 8) = (Some (take 8 (content b)), b1)" "buf_wf b1" "buf_defined b1"
      "content b1 = drop 8 (content b)" "bf_len b1 = bf_len b - int 8"
      "\<And>i. int i \<le> bf_off b \<Longrightarrow> bytes_before b1 i = bytes_before b i @ take 8 (content b)"
      by (rule read_front[OF wf(1), of 8]) (use False in auto)
    have rd: "packet_id_read_epoch b \<lparr>pn_id = 0, pn_time = 0\<rparr> = ((wire_epoch pid, wire_pin pid), b1)"
      using b1(1) by (simp add: packet_id_read_epoch_def wire_epoch_def wire_pin_def pid_def Let_def)
    have pl: "length pid = 8" using False lc by (simp add: pid_def)
    have pc: "content b = pid @ content b1" by (simp add: pid_def b1(4))
    have ivb: "mem_put (replicate (nat OPENVPN_MAX_IV_LENGTH) 0) 0 (take 8 (buf_bytes b)) = iv_block pid"
      using wf(1) by (simp add: iv_block_def pid_def buf_bytes_wf)
    have r: "r = (if wire_epoch pid = 0 then crypt_drop b1 opt
        else case epoch_lookup_decrypt_key opt (wire_epoch pid) of None \<Rightarrow> crypt_drop b1 opt
             | Some slot \<Rightarrow> if cipher_decrypt_verify_fail_exceeded (slot_ctx opt slot) then crypt_drop b1 opt
                 else aead_open hm now True slot (wire_epoch pid) (wire_pin pid) (iv_block pid) ad_start b1 w opt)"
      unfolding r_def openvpn_decrypt_aead_def Let_def w(1) rd prod.case bool.case ivb
      using f len ad st min_len False wf(1) by simp
    show ?thesis
    proof (cases "wire_epoch pid = 0")
      case True
      then show ?thesis unfolding r by (simp add: crypt_drop_dropped)
    next
      case ne: False
      show ?thesis
      proof (cases "epoch_lookup_decrypt_key opt (wire_epoch pid)")
        case None
        then show ?thesis using ne unfolding r by (simp add: crypt_drop_dropped)
      next
        case (Some slot)
        obtain c key where k: "kc_cipher (slot_ctx opt slot) = Some (c, key)" "aead_correct c" "cipher_sizes c"
          using keys Some by (auto simp: pid_def)
        show ?thesis
        proof (cases "cipher_decrypt_verify_fail_exceeded (slot_ctx opt slot)")
          case True
          then show ?thesis using ne Some unfolding r by (simp add: crypt_drop_dropped)
        next
          case nf: False
          have r': "r = aead_open hm now True slot (wire_epoch pid) (wire_pin pid) (iv_block pid) ad_start b1 w opt"
            unfolding r using ne Some nf by simp
          have bb: "bytes_before b1 ad_start = bytes_before b ad_start @ pid" using b1(6)[OF ad] by (simp add: pid_def)
          have l16: "OPENVPN_AEAD_TAG_LENGTH \<le> bf_len b1" using False b1(5) by (simp add: OPENVPN_AEAD_TAG_LENGTH_def)
          have pk: "content b = aead_packet True c key (slot_ctx opt slot) (bytes_before b ad_start) pid p \<longleftrightarrow>
              content b1 = aead_tail True c key (combine_iv c (slot_ctx opt slot) (iv_block pid)) (bytes_before b1 ad_start) p" for p
            unfolding aead_packet_tail bb by (subst pc) simp
          have room: "buf_safe w (bf_len b1 + ck_block_size c)" if "headroom + bf_len b + ck_block_size c \<le> bf_cap work"
            using that k(3) buf_wf_bounds[OF b1(2)] b1(5) by (simp add: w(5) cipher_sizes_def)
          have o: "dropped (Some slot) opt r \<and> (buf_safe w (bf_len b1 + ck_block_size c) \<longrightarrow>
              (\<forall>p. content b1 \<noteq> aead_tail True c key (combine_iv c (slot_ctx opt slot) (iv_block pid)) (bytes_before b1 ad_start) p))
            \<or> (\<exists>p. content b1 = aead_tail True c key (combine_iv c (slot_ctx opt slot) (iv_block pid)) (bytes_before b1 ad_start) p
              \<and> checked (crypto_check_replay hm now opt (wire_pin pid) (wire_epoch pid)) p r)"
            unfolding r' by (rule aead_open_cases[OF b1(2,3) w(2-4) l16 k])
          then show ?thesis
          proof (elim disjE)
            assume "\<exists>p. content b1 = aead_tail True c key (combine_iv c (slot_ctx opt slot) (iv_block pid)) (bytes_before b1 ad_start) p
              \<and> checked (crypto_check_replay hm now opt (wire_pin pid) (wire_epoch pid)) p r"
            then show ?thesis using ne Some k(1) pk pl by blast
          next
            assume "dropped (Some slot) opt r \<and> (buf_safe w (bf_len b1 + ck_block_size c) \<longrightarrow>
              (\<forall>p. content b1 \<noteq> aead_tail True c key (combine_iv c (slot_ctx opt slot) (iv_block pid)) (bytes_before b1 ad_start) p))"
            then show ?thesis using Some k(1) pk room by (intro disjI1) auto
          qed
        qed
      qed
    qed
  qed
qed

end
