(* ===== verification/Crypto_Session.thy ===== *)
theory Crypto_Session
  imports Crypto_Data
begin

text \<open>
  Sessions of the data channel: the keys of a new session (\<^verbatim>\<open>init_epoch_keys\<close> and
  \<^verbatim>\<open>init_key_contexts\<close> of \<^verbatim>\<open>ssl.c\<close>), and runs in which one end sends packets and gets datagrams,
  whatever they are. \<open>data_inv\<close> relates the state to the packet ids sent and delivered so far;
  \<open>send_step\<close> and \<open>receive_step\<close> show that it is kept.
\<close>

unbundle bit_operations_syntax

section \<open>The data channel\<close>

text \<open>The key type of a session in the epoch format, with a cipher that does what it should.\<close>

definition session_kt :: "key_type \<Rightarrow> bool" where
  "session_kt kt \<longleftrightarrow> epoch_kt kt \<and> (\<forall>c. kt_cipher kt = Some c \<longrightarrow> aead_correct c \<and> cipher_sizes c)"

text \<open>
  \<open>R\<close> are the packet ids delivered so far with their epoch, \<open>T\<close> those sent.
\<close>

definition ids_of :: "(nat \<times> u64) set \<Rightarrow> nat \<Rightarrow> (int \<times> u64) set" where
  "ids_of R e = {(0, i) | i. (e, i) \<in> R}"

definition data_inv :: "hmac \<Rightarrow> key_type \<Rightarrow> epoch_key \<Rightarrow> epoch_key \<Rightarrow> (nat \<times> u64) set \<Rightarrow> (nat \<times> u64) set \<Rightarrow> crypto_options \<Rightarrow> bool" where
  "data_inv hm kt es er R T co \<longleftrightarrow> epoch_inv hm kt es er co \<and> epoch_format co
     \<and> window_inv (ids_of R (epoch_of (decrypt_ctx co))) (pid_rec (co_packet_id co))
     \<and> (epoch_of (epoch_retiring_key co) \<noteq> 0 \<longrightarrow> window_inv (ids_of R (epoch_of (epoch_retiring_key co))) (epoch_retiring_pid co))
     \<and> (\<forall>(e, i) \<in> R. e \<le> epoch_of (decrypt_ctx co))
     \<and> (\<forall>(e, i) \<in> T. e < epoch_of (encrypt_ctx co) \<or> e = epoch_of (encrypt_ctx co) \<and> i \<le> ps_id (pid_send (co_packet_id co)))
     \<and> ps_id (pid_send (co_packet_id co)) \<le> PACKET_ID_EPOCH_MAX"

lemma ids_of_insert [simp]: "ids_of (insert (e, i) R) e = insert (0, i) (ids_of R e)"
  by (auto simp: ids_of_def)

lemma ids_of_other [simp]: "e' \<noteq> e \<Longrightarrow> ids_of (insert (e, i) R) e' = ids_of R e'"
  by (auto simp: ids_of_def)

lemma ids_of_iff [simp]: "(0, i) \<in> ids_of R e \<longleftrightarrow> (e, i) \<in> R"
  by (simp add: ids_of_def)

lemma reap_backtrack: "packet_id_reap_test now p = Some p1 \<Longrightarrow> time_backtrack p1 = time_backtrack p"
  by (auto simp: packet_id_reap_test_def packet_id_reap_def split: option.splits if_splits)

lemma test_backtrack: "packet_id_test p pin = Some (ok, p1) \<Longrightarrow> time_backtrack p1 = time_backtrack p"
  by (simp add: packet_id_test_def Let_def split: option.splits if_splits) auto

lemma add_backtrack:
  assumes "packet_id_add now p pin = Some p1"
  shows "time_backtrack p1 = time_backtrack p"
proof (cases "seq_list p")
  case None
  then show ?thesis using assms by (auto simp: packet_id_add_def)
next
  case (Some c0)
  define q where "q = (if x_size c0 = 0 \<or> pn_time pin > pr_time p \<or> (pn_id pin \<ge> seq_backtrack p \<and> pn_id pin - seq_backtrack p > pr_id p)
    then (p\<lparr>pr_time := pn_time pin, pr_id := (if pn_id pin > seq_backtrack p then pn_id pin - seq_backtrack p else 0)\<rparr>, CIRC_LIST_RESET c0)
    else (p, c0))"
  have tq: "time_backtrack (fst q) = time_backtrack p" by (simp add: q_def)
  show ?thesis
    using assms tq unfolding packet_id_add_def Some option.case q_def[symmetric] Let_def
    by (cases q) (auto split: option.splits if_splits prod.splits)
qed

lemma replay_recv_backtrack:
  "replay_recv now p pin = Some (ok, p') \<Longrightarrow> time_backtrack p' = time_backtrack p"
  by (auto simp: replay_recv_def split: option.splits prod.splits bool.splits
      dest!: reap_backtrack test_backtrack add_backtrack)

lemma window_movable: "window_inv S p \<Longrightarrow> 0 \<le> time_backtrack p \<Longrightarrow> time_backtrack p \<le> MAX_TIME_BACKTRACK \<Longrightarrow> rec_movable p"
  by (auto simp: window_inv_def window_wf_def rec_movable_def)

lemma window_initialized: "window_inv S p \<Longrightarrow> initialized p"
  by (auto simp: window_inv_def window_wf_def)

lemma fresh_window:
  assumes "packet_id_init_recv clear_rec (uint (seq_backtrack p)) (time_backtrack p) = Some p'" "window_inv S p"
  shows "window_inv {} p'"
proof -
  have "0 < uint (seq_backtrack p)" using assms(2) by (auto simp: window_inv_def window_wf_def word_less_def)
  moreover have "packet_id_init (uint (seq_backtrack p)) (time_backtrack p) = Some \<lparr>pid_send = clear_send, pid_rec = p'\<rparr>"
    using assms(1) by (simp add: packet_id_init_def)
  ultimately show ?thesis using packet_id_init_window by fastforce
qed

lemma mask_small:
  fixes w :: u64
  shows "w AND PACKET_ID_MASK \<le> PACKET_ID_EPOCH_MAX" "unat (w AND PACKET_ID_MASK) < 2 ^ 63"
proof -
  have m: "PACKET_ID_MASK = mask 48" by (simp add: PACKET_ID_MASK_def mask_eq_exp_minus_1)
  have u: "unat (w AND PACKET_ID_MASK) = take_bit 48 (unat w)" by (simp add: m take_bit_eq_mask[symmetric] unsigned_take_bit_eq)
  have lt: "take_bit 48 (unat w) < 2 ^ 48" by (rule take_bit_nat_less_exp)
  then show "unat (w AND PACKET_ID_MASK) < 2 ^ 63" unfolding u by simp
  show "w AND PACKET_ID_MASK \<le> PACKET_ID_EPOCH_MAX" unfolding word_le_nat_alt u using lt by (simp add: PACKET_ID_EPOCH_MAX_def)
qed

text \<open>One packet that was authentic: the replay check of the epoch it belongs to.\<close>

lemma epoch_inv_cong:
  assumes "epoch_inv hm kt es er co" "same_ctx_key (decrypt_ctx co') (decrypt_ctx co)" "same_ctx_key (encrypt_ctx co') (encrypt_ctx co)"
    "same_ctx_key (epoch_retiring_key co') (epoch_retiring_key co)" "bi_initialized (key_bi co')" "epoch_key_type co' = epoch_key_type co"
    "length (epoch_data_keys_future co') = length (epoch_data_keys_future co)"
    "\<And>i. i < length (epoch_data_keys_future co) \<Longrightarrow> same_ctx_key (epoch_data_keys_future co' ! i) (epoch_data_keys_future co ! i)"
    "epoch_key_recv co' = epoch_key_recv co" "epoch_key_send co' = epoch_key_send co" "rec_movable (pid_rec (co_packet_id co'))"
  shows "epoch_inv hm kt es er co'"
proof -
  note d = epoch_invD[OF assms(1)]
  have k: "kc_epoch (decrypt_ctx co') = kc_epoch (decrypt_ctx co)" "kc_epoch (encrypt_ctx co') = kc_epoch (encrypt_ctx co)"
    "kc_epoch (epoch_retiring_key co') = kc_epoch (epoch_retiring_key co)" using assms(2-4) by (auto simp: same_ctx_key_def)
  have tr: "same_ctx_key a b \<Longrightarrow> same_ctx_key b c \<Longrightarrow> same_ctx_key a c" for a b c by (simp add: same_ctx_key_def)
  show ?thesis unfolding epoch_inv_def Let_def k assms(7,9,10)
    using d assms(5,6,11) tr[OF assms(2) d(9)] tr[OF assms(3) d(11)] tr[OF assms(8) d(8)] tr[OF assms(4)] by auto
qed

lemma check_replay_ok:
  assumes e: "epoch_setup hm kt es er" and i: "data_inv hm kt es er R T co" and now: "SEQ_EXPIRED < now"
    and l: "epoch_lookup_decrypt_key co ep = Some slot"
    and pin: "pn_time pin = 0" "pn_id pin \<le> PACKET_ID_EPOCH_MAX"
  shows "case crypto_check_replay hm now co pin ep of
      None \<Rightarrow> unat ep = epoch_of (decrypt_ctx co) + length (epoch_data_keys_future co)
    | Some (ok, co1) \<Rightarrow> if ok then (unat ep, pn_id pin) \<notin> R \<and> data_inv hm kt es er (insert (unat ep, pn_id pin) R) T co1
                         else data_inv hm kt es er R T co1"
proof -
  have ei: "epoch_inv hm kt es er co" and ef: "epoch_format co"
    and win: "window_inv (ids_of R (epoch_of (decrypt_ctx co))) (pid_rec (co_packet_id co))"
    and ret: "epoch_of (epoch_retiring_key co) \<noteq> 0 \<Longrightarrow> window_inv (ids_of R (epoch_of (epoch_retiring_key co))) (epoch_retiring_pid co)"
    and Rb: "\<forall>(x, i) \<in> R. x \<le> epoch_of (decrypt_ctx co)"
    and Tb: "\<forall>(x, i) \<in> T. x < epoch_of (encrypt_ctx co) \<or> x = epoch_of (encrypt_ctx co) \<and> i \<le> ps_id (pid_send (co_packet_id co))"
    and pm: "ps_id (pid_send (co_packet_id co)) \<le> PACKET_ID_EPOCH_MAX"
    using i by (simp_all add: data_inv_def)
  note d = epoch_invD[OF ei]
  note lk = lookup_ok[OF e ei l]
  have pv: "pin_valid (now, pin)" using now pin(2) by (simp add: pin_valid_def PACKET_ID_EPOCH_MAX_def word_le_nat_alt)
  have tb: "0 \<le> time_backtrack (pid_rec (co_packet_id co))" "time_backtrack (pid_rec (co_packet_id co)) \<le> MAX_TIME_BACKTRACK"
    using d(13) by (auto simp: rec_movable_def)
  have ne: "ep \<noteq> 0" using lk(2) by auto
  show ?thesis
  proof (cases slot)
    case Slot_Decrypt
    then have ep: "ep = kc_epoch (decrypt_ctx co)" using lk(3) by simp
    obtain ok p' where r: "replay_recv now (pid_rec (co_packet_id co)) pin = Some (ok, p')"
      "ok \<longrightarrow> (pn_time pin, pn_id pin) \<notin> ids_of R (unat ep) \<and> window_inv (insert (pn_time pin, pn_id pin) (ids_of R (unat ep))) p'"
      "\<not> ok \<longrightarrow> window_inv (ids_of R (unat ep)) p'"
      using replay_recv_window[OF win pv] ep by auto
    have w': "\<exists>S. window_inv S p'" using r by blast
    have mv: "rec_movable p'" using w' window_movable replay_recv_backtrack[OF r(1)] tb by metis
    define co1 where "co1 = (let co1 = set_pid_rec p' co in if ok \<and> long_form co1
            then co1\<lparr>co_pid_persist := map_option (\<lambda>pp. packet_id_persist_save_obj pp (co_packet_id co1)) (co_pid_persist co1)\<rparr> else co1)"
    have c: "crypto_check_replay hm now co pin ep = Some (ok, co1)"
      unfolding crypto_check_replay_def Let_def using ep r(1) by (simp add: co1_def Let_def)
    have f: "key_bi co1 = key_bi co" "epoch_retiring_key co1 = epoch_retiring_key co" "epoch_retiring_pid co1 = epoch_retiring_pid co"
      "pid_rec (co_packet_id co1) = p'" "pid_send (co_packet_id co1) = pid_send (co_packet_id co)" "epoch_key_type co1 = epoch_key_type co"
      "epoch_data_keys_future co1 = epoch_data_keys_future co" "epoch_key_recv co1 = epoch_key_recv co" "epoch_key_send co1 = epoch_key_send co"
      "co_flags co1 = co_flags co"
      by (simp_all add: co1_def set_pid_rec_def Let_def)
    have ei1: "epoch_inv hm kt es er co1" by (rule epoch_inv_cong[OF ei]) (use f mv d(1) in simp_all)
    have rne: "epoch_of (epoch_retiring_key co) \<noteq> 0 \<Longrightarrow> epoch_of (epoch_retiring_key co) \<noteq> unat ep" using d(12) ep by auto
    show ?thesis
    proof (cases ok)
      case True
      then show ?thesis unfolding c using r(2) ei1 ef f ret rne Rb Tb pm ep pin(1)
        by (auto simp: data_inv_def epoch_format_def)
    next
      case False
      then show ?thesis unfolding c using r(3) ei1 ef f ret Rb Tb pm ep by (simp add: data_inv_def epoch_format_def)
    qed
  next
    case Slot_Retiring
    then have ep: "ep = kc_epoch (epoch_retiring_key co)" "ep < kc_epoch (decrypt_ctx co)" using lk(3) by auto
    have rw: "window_inv (ids_of R (unat ep)) (epoch_retiring_pid co)" using ret lk(2) ep by auto
    obtain ok p' where r: "replay_recv now (epoch_retiring_pid co) pin = Some (ok, p')"
      "ok \<longrightarrow> (pn_time pin, pn_id pin) \<notin> ids_of R (unat ep) \<and> window_inv (insert (pn_time pin, pn_id pin) (ids_of R (unat ep))) p'"
      "\<not> ok \<longrightarrow> window_inv (ids_of R (unat ep)) p'"
      using replay_recv_window[OF rw pv] by auto
    define co1 where "co1 = (let co1 = co\<lparr>epoch_retiring_pid := p'\<rparr> in if ok \<and> long_form co1
            then co1\<lparr>co_pid_persist := map_option (\<lambda>pp. packet_id_persist_save_obj pp (co_packet_id co1)) (co_pid_persist co1)\<rparr> else co1)"
    have nd: "kc_epoch (decrypt_ctx co) \<noteq> ep" using ep(2) by auto
    have c: "crypto_check_replay hm now co pin ep = Some (ok, co1)"
      unfolding crypto_check_replay_def Let_def using ep(1) nd ne r(1) by (simp add: co1_def Let_def)
    have f: "key_bi co1 = key_bi co" "epoch_retiring_key co1 = epoch_retiring_key co" "epoch_retiring_pid co1 = p'"
      "co_packet_id co1 = co_packet_id co" "epoch_key_type co1 = epoch_key_type co"
      "epoch_data_keys_future co1 = epoch_data_keys_future co" "epoch_key_recv co1 = epoch_key_recv co" "epoch_key_send co1 = epoch_key_send co"
      "co_flags co1 = co_flags co"
      by (simp_all add: co1_def Let_def)
    have ei1: "epoch_inv hm kt es er co1" by (rule epoch_inv_cong[OF ei]) (use f d(1,13) in simp_all)
    have le: "unat ep < epoch_of (decrypt_ctx co)" using ep(2) by (simp add: word_less_nat_alt)
    show ?thesis
    proof (cases ok)
      case True
      then show ?thesis unfolding c using r(2) ei1 ef f win Rb Tb pm ep(1) pin(1) le
        by (auto simp: data_inv_def epoch_format_def)
    next
      case False
      then show ?thesis unfolding c using r(3) ei1 ef f win Rb Tb pm ep(1) by (simp add: data_inv_def epoch_format_def)
    qed
  next
    case (Slot_Future k)
    then have k: "k < length (epoch_data_keys_future co)" "unat ep = epoch_of (decrypt_ctx co) + 1 + k"
      "unat ep + length (epoch_data_keys_future co) \<le> 65534" using lk(3) by simp_all
    have nd: "kc_epoch (decrypt_ctx co) \<noteq> ep" using k(2) by auto
    have nr: "ep \<noteq> kc_epoch (epoch_retiring_key co)" using k(2) d(12) lk(2) by auto
    show ?thesis
    proof (cases "k + 1 < length (epoch_data_keys_future co)")
      case False
      then have "epoch_replace_update_recv_key hm co ep = None" using jump_to_last[OF e ei, of ep] k by simp
      then have "crypto_check_replay hm now co pin ep = None"
        unfolding crypto_check_replay_def Let_def using ne nd nr by simp
      then show ?thesis using False k by simp
    next
      case True
      obtain co' where c': "epoch_replace_update_recv_key hm co ep = Some co'" "epoch_inv hm kt es er co'"
        "kc_epoch (decrypt_ctx co') = ep" "epoch_of (encrypt_ctx co') = max (epoch_of (encrypt_ctx co)) (unat ep)"
        "epoch_retiring_key co' = decrypt_ctx co" "epoch_retiring_pid co' = pid_rec (co_packet_id co)"
        "packet_id_init_recv clear_rec (uint (seq_backtrack (pid_rec (co_packet_id co)))) (time_backtrack (pid_rec (co_packet_id co)))
           = Some (pid_rec (co_packet_id co'))"
        "if epoch_of (encrypt_ctx co) < unat ep then pid_send (co_packet_id co') = \<lparr>ps_id = 0, ps_time = 0\<rparr>
         else pid_send (co_packet_id co') = pid_send (co_packet_id co) \<and> encrypt_ctx co' = encrypt_ctx co"
        "co_flags co' = co_flags co"
        using replace_ok[OF e ei True k(2,3)] by metis
      note d' = epoch_invD[OF c'(2)]
      have fw: "window_inv (ids_of R (unat ep)) (pid_rec (co_packet_id co'))"
      proof -
        have "ids_of R (unat ep) = {}" using Rb k(2) by (auto simp: ids_of_def)
        then show ?thesis using fresh_window[OF c'(7) win] by simp
      qed
      obtain ok p' where r: "replay_recv now (pid_rec (co_packet_id co')) pin = Some (ok, p')"
        "ok \<longrightarrow> (pn_time pin, pn_id pin) \<notin> ids_of R (unat ep) \<and> window_inv (insert (pn_time pin, pn_id pin) (ids_of R (unat ep))) p'"
        "\<not> ok \<longrightarrow> window_inv (ids_of R (unat ep)) p'"
        using replay_recv_window[OF fw pv] by auto
      have w': "\<exists>S. window_inv S p'" using r by blast
      have tb': "0 \<le> time_backtrack (pid_rec (co_packet_id co'))" "time_backtrack (pid_rec (co_packet_id co')) \<le> MAX_TIME_BACKTRACK"
        using d'(13) by (auto simp: rec_movable_def)
      have mv: "rec_movable p'" using w' window_movable replay_recv_backtrack[OF r(1)] tb' by metis
      define co1 where "co1 = (let co1 = set_pid_rec p' co' in if ok \<and> long_form co1
              then co1\<lparr>co_pid_persist := map_option (\<lambda>pp. packet_id_persist_save_obj pp (co_packet_id co1)) (co_pid_persist co1)\<rparr> else co1)"
      have c: "crypto_check_replay hm now co pin ep = Some (ok, co1)"
        unfolding crypto_check_replay_def Let_def using nd nr ne c'(1) r(1) by (simp add: co1_def Let_def)
      have f: "key_bi co1 = key_bi co'" "epoch_retiring_key co1 = decrypt_ctx co" "epoch_retiring_pid co1 = pid_rec (co_packet_id co)"
        "pid_rec (co_packet_id co1) = p'" "pid_send (co_packet_id co1) = pid_send (co_packet_id co')" "epoch_key_type co1 = epoch_key_type co'"
        "epoch_data_keys_future co1 = epoch_data_keys_future co'" "epoch_key_recv co1 = epoch_key_recv co'" "epoch_key_send co1 = epoch_key_send co'"
        "co_flags co1 = co_flags co" "epoch_retiring_key co1 = epoch_retiring_key co'"
        using c'(5,6,9) by (simp_all add: co1_def set_pid_rec_def Let_def)
      have ei1: "epoch_inv hm kt es er co1" by (rule epoch_inv_cong[OF c'(2)]) (use f mv d'(1) in simp_all)
      have T1: "\<forall>(x, i) \<in> T. x < epoch_of (encrypt_ctx co1) \<or> x = epoch_of (encrypt_ctx co1) \<and> i \<le> ps_id (pid_send (co_packet_id co1))"
        using Tb c'(4,8) unfolding f(1,5) by (auto simp: max_def split: if_splits)
      have P1: "ps_id (pid_send (co_packet_id co1)) \<le> PACKET_ID_EPOCH_MAX" using pm c'(8) unfolding f(5) by (auto split: if_splits)
      have R1: "\<forall>(x, i) \<in> R. x \<le> unat ep" using Rb k(2) by fastforce
      have dn: "epoch_of (decrypt_ctx co) \<noteq> unat ep" using k(2) by simp
      show ?thesis
      proof (cases ok)
        case True
        then show ?thesis unfolding c using r(2) ei1 ef f(1-4,10) win R1 T1 P1 c'(3) pin(1) dn
          by (auto simp: data_inv_def epoch_format_def)
      next
        case False
        then show ?thesis unfolding c using r(3) ei1 ef f(1-4,10) win R1 T1 P1 c'(3) by (simp add: data_inv_def epoch_format_def)
      qed
    qed
  qed
qed

section \<open>Runs of the data channel\<close>

text \<open>
  One end of a session: packets to send, and datagrams from the network, whatever they are. An
  event names what went out or was handed on: the epoch of the key and the IV the cipher was given for a packet sent, the packet
  id and the plaintext of one delivered.
\<close>

datatype data_op =
    Op_Send int buffer buffer
  | Op_Receive int int nat buffer buffer

datatype data_event = Ev_Nothing | Ev_Sent u16 "byte list" | Ev_Delivered "byte list" "byte list"

definition sent_event :: "crypto_options \<Rightarrow> data_event" where
  "sent_event co = Ev_Sent (kc_epoch (encrypt_ctx co)) (kc_iv (encrypt_ctx co))"

fun data_step :: "hmac \<Rightarrow> crypto_options \<Rightarrow> data_op \<Rightarrow> (data_event \<times> crypto_options) option" where
  "data_step hm co (Op_Send now b work) =
     (case openvpn_encrypt hm now [] b work co of None \<Rightarrow> None
      | Some (out, co1) \<Rightarrow> Some (if bf_len out > 0 then sent_event co1 else Ev_Nothing, co1))"
| "data_step hm co (Op_Receive now headroom ad_start b work) =
     (case openvpn_decrypt hm now headroom ad_start b work co of None \<Rightarrow> None
      | Some (ok, out, co1) \<Rightarrow> Some (if ok then Ev_Delivered (take 8 (buf_bytes b)) (buf_bytes out) else Ev_Nothing, co1))"

fun data_legal :: "data_op \<Rightarrow> bool" where
  "data_legal (Op_Send now b work) \<longleftrightarrow> buf_wf b \<and> 0 < bf_len b \<and> buf_wf work \<and> buf_defined work \<and> buf_safe work 8"
| "data_legal (Op_Receive now headroom ad_start b work) \<longleftrightarrow>
     SEQ_EXPIRED < now \<and> buf_wf b \<and> 0 < bf_len b \<and> buf_wf work \<and> buf_defined work
     \<and> 0 \<le> headroom \<and> headroom \<le> bf_cap work \<and> int ad_start \<le> bf_off b"

text \<open>The packet the peer makes of \<open>p\<close> with the key of the epoch that \<open>pid\<close> names.\<close>

definition session_packet :: "hmac \<Rightarrow> key_type \<Rightarrow> epoch_key \<Rightarrow> byte list \<Rightarrow> byte list \<Rightarrow> byte list \<Rightarrow> byte list" where
  "session_packet hm kt e1 ad pid p =
     (let ctx = data_key hm kt e1 (unat (wire_epoch pid)) in
      case kc_cipher ctx of None \<Rightarrow> [] | Some (c, key) \<Rightarrow> aead_packet True c key ctx ad pid p)"

definition session_iv :: "hmac \<Rightarrow> key_type \<Rightarrow> epoch_key \<Rightarrow> u16 \<Rightarrow> u64 \<Rightarrow> byte list" where
  "session_iv hm kt e1 e i =
     (let ctx = data_key hm kt e1 (unat e) in
      case kc_cipher ctx of None \<Rightarrow> [] | Some (c, key) \<Rightarrow> combine_iv c ctx (iv_block (epoch_pid e i)))"

lemma data_key_cipher:
  assumes "epoch_setup hm kt es er" "session_kt kt" "e1 = es \<or> e1 = er"
  obtains c key where "kc_cipher (data_key hm kt e1 e) = Some (c, key)" "kt_cipher kt = Some c" "ck_mode c = MODE_AEAD"
    "aead_correct c" "cipher_sizes c" "length (implicit_iv (data_key hm kt e1 e)) = 16"
proof -
  have s: "sha256_sized hm" "epoch_kt kt" "ek_ok e1" "ek_epoch e1 = 1" using assms(1,3) by (auto simp: epoch_setup_def)
  obtain c k where "kt_cipher kt = Some c" "kc_cipher (epoch_ctx hm kt (epoch_chain hm e1 (e - 1))) = Some (c, k)"
    "length (implicit_iv (epoch_ctx hm kt (epoch_chain hm e1 (e - 1)))) = 16"
    using derive_ok[OF s(1) chain_ok(1)[OF s(1,3,4)] s(2)] by metis
  then show thesis using that assms(2) s(2) by (auto simp: data_key_def session_kt_def epoch_kt_def)
qed

lemma same_key_packet:
  "same_ctx_key a b \<Longrightarrow> aead_packet f c key a ad pid p = aead_packet f c key b ad pid p"
  "same_ctx_key a b \<Longrightarrow> combine_iv c a iv = combine_iv c b iv"
  by (simp_all add: same_ctx_key_def aead_packet_def combine_iv_def)

lemma same_key_count [simp]: "same_ctx_key (count_blocks x a) a" "same_ctx_key (a\<lparr>failed_verifications := n\<rparr>) a"
  by (simp_all add: same_ctx_key_def count_blocks_def)

lemma data_inv_cong:
  assumes "data_inv hm kt es er R T co" "same_ctx_key (decrypt_ctx co') (decrypt_ctx co)" "same_ctx_key (encrypt_ctx co') (encrypt_ctx co)"
    "same_ctx_key (epoch_retiring_key co') (epoch_retiring_key co)" "bi_initialized (key_bi co') = bi_initialized (key_bi co)"
    "epoch_key_type co' = epoch_key_type co"
    "length (epoch_data_keys_future co') = length (epoch_data_keys_future co)"
    "\<And>i. i < length (epoch_data_keys_future co) \<Longrightarrow> same_ctx_key (epoch_data_keys_future co' ! i) (epoch_data_keys_future co ! i)"
    "epoch_key_recv co' = epoch_key_recv co" "epoch_key_send co' = epoch_key_send co" "co_packet_id co' = co_packet_id co"
    "epoch_retiring_pid co' = epoch_retiring_pid co" "co_flags co' = co_flags co"
  shows "data_inv hm kt es er R T co'"
proof -
  have e: "epoch_inv hm kt es er co" using assms(1) by (simp add: data_inv_def)
  have "epoch_inv hm kt es er co'"
    by (rule epoch_inv_cong[OF e assms(2-4) _ assms(6-10)]) (use assms(5,11) epoch_invD(1,13)[OF e] in simp_all)
  then show ?thesis
    using assms(1) same_key_epoch[OF assms(2)] same_key_epoch[OF assms(3)] same_key_epoch[OF assms(4)] assms(11-13)
    by (simp add: data_inv_def epoch_format_def)
qed

lemma same_key_upd: "same_ctx_key x (xs ! k) \<Longrightarrow> i < length xs \<Longrightarrow> same_ctx_key (xs[k := x] ! i) (xs ! i)"
  by (cases "k = i") simp_all

lemma data_inv_slot:
  assumes "data_inv hm kt es er R T co"
  shows "data_inv hm kt es er R T (set_slot s ((slot_ctx co s)\<lparr>failed_verifications := n\<rparr>) co)"
  by (rule data_inv_cong[OF assms])
     (auto simp: set_slot_def slot_ctx_def set_decrypt_def intro!: same_key_upd split: key_slot.splits)

lemma data_inv_iv:
  assumes "data_inv hm kt es er R T co"
  shows "data_inv hm kt es er R T (encrypt_reset_iv iv co)"
  by (rule data_inv_cong[OF assms]) (auto simp: encrypt_reset_iv_def set_encrypt_def same_ctx_key_def)

lemma update_epoch_cases:
  assumes "encrypt_update True now ps0 = (ok, ps)" "ps_id ps0 \<le> PACKET_ID_EPOCH_MAX"
  shows "if ok then ps_id ps0 < ps_id ps \<and> ps_id ps \<le> PACKET_ID_EPOCH_MAX else ps_id ps = ps_id ps0"
proof (cases "ps_id ps0 = PACKET_ID_EPOCH_MAX")
  case True
  then show ?thesis using assms(1) by (auto simp: encrypt_update_def packet_id_send_update_epoch_def Let_def split: if_splits)
next
  case False
  then have lt: "ps_id ps0 < PACKET_ID_EPOCH_MAX" using assms(2) by simp
  have u: "ok" "ps_id ps = ps_id ps0 + 1"
    using assms(1) False by (auto simp: encrypt_update_def packet_id_send_update_epoch_def Let_def split: if_splits)
  have "unat (ps_id ps0) < 281474976710655" using lt by (simp add: word_less_nat_alt PACKET_ID_EPOCH_MAX_def)
  then have "unat (ps_id ps0 + 1) = unat (ps_id ps0) + 1" by (simp add: unat_word_ariths)
  then show ?thesis using u lt by (simp add: word_less_nat_alt word_le_nat_alt PACKET_ID_EPOCH_MAX_def)
qed

lemma data_inv_send_moved:
  assumes "data_inv hm kt es er R T co" "epoch_inv hm kt es er co'" "co' = co \<or> send_key_moved co co'"
  shows "data_inv hm kt es er R T co'"
  using assms by (auto simp: data_inv_def send_key_moved_def epoch_format_def)

lemma send_step:
  assumes e: "epoch_setup hm kt es er" and kt: "session_kt kt" and i: "data_inv hm kt es er R T co"
    and legal: "data_legal (Op_Send now b work)"
  shows "\<exists>ev co'. data_step hm co (Op_Send now b work) = Some (ev, co')
    \<and> (case ev of Ev_Nothing \<Rightarrow> data_inv hm kt es er R T co'
       | Ev_Sent ep iv \<Rightarrow> \<exists>id. (unat ep, id) \<notin> T \<and> id \<le> PACKET_ID_EPOCH_MAX \<and> iv = session_iv hm kt es ep id
           \<and> data_inv hm kt es er R (insert (unat ep, id) T) co'
       | Ev_Delivered pid p \<Rightarrow> False)"
proof -
  have ef: "epoch_format co" and ei: "epoch_inv hm kt es er co" using i by (simp_all add: data_inv_def)
  obtain opt where opt: "epoch_check_send_iterate hm co = Some opt" "epoch_inv hm kt es er opt" "opt = co \<or> send_key_moved co opt"
    using check_send_ok[OF e ei] by blast
  have io: "data_inv hm kt es er R T opt" by (rule data_inv_send_moved[OF i opt(2,3)])
  note d = epoch_invD[OF opt(2)]
  let ?s = "epoch_of (encrypt_ctx opt)"
  obtain c key where k0: "kc_cipher (data_key hm kt es ?s) = Some (c, key)" "ck_mode c = MODE_AEAD" "aead_correct c" "cipher_sizes c"
    using data_key_cipher[OF e kt, of es ?s] by metis
  have kc: "kc_cipher (encrypt_ctx opt) = Some (c, key)" using d(11) k0(1) by (simp add: same_ctx_key_def)
  have aead: "cipher_ctx_mode_aead (encrypt_ctx co)"
  proof -
    obtain c' key' where "kc_cipher (data_key hm kt es (epoch_of (encrypt_ctx co))) = Some (c', key')" "ck_mode c' = MODE_AEAD"
      using data_key_cipher[OF e kt, of es "epoch_of (encrypt_ctx co)"] by metis
    then show ?thesis using epoch_invD(11)[OF ei] by (simp add: same_ctx_key_def cipher_ctx_mode_aead_def)
  qed
  have ini: "initialized (pid_rec (co_packet_id opt))" using io window_initialized by (auto simp: data_inv_def)
  have wf: "buf_wf b" "buf_wf work" "buf_defined work" "buf_safe work 8" "0 < bf_len b" using legal by simp_all
  have enc: "openvpn_encrypt hm now [] b work co = openvpn_encrypt_aead hm now b work co" using aead wf(5) by (simp add: openvpn_encrypt_def)
  have o: "(if epoch_format co then epoch_check_send_iterate hm co else Some co) = Some opt" using ef opt(1) by simp
  note cs = encrypt_aead_cases[OF o kc k0(3,4) ini wf(1-4), of now]
  obtain ok ps where u: "encrypt_update True now (pid_send (co_packet_id opt)) = (ok, ps)" by fastforce
  have pm: "ps_id (pid_send (co_packet_id opt)) \<le> PACKET_ID_EPOCH_MAX" using io by (simp add: data_inv_def)
  note up = update_epoch_cases[OF u pm]
  have keep: "data_inv hm kt es er R T (set_pid_send ps opt)"
  proof -
    have "epoch_inv hm kt es er (set_pid_send ps opt)"
      by (rule epoch_inv_cong[OF opt(2)]) (use d(1,13) in \<open>simp_all add: set_pid_send_def\<close>)
    moreover have "ps_id (pid_send (co_packet_id opt)) \<le> ps_id ps" "ps_id ps \<le> PACKET_ID_EPOCH_MAX" using up pm by (auto split: if_splits)
    ultimately show ?thesis using io by (fastforce simp: data_inv_def set_pid_send_def epoch_format_def)
  qed
  let ?seal = "sealing_state c True ps opt"
  have seal: "data_inv hm kt es er R T ?seal"
  proof -
    have "?seal = encrypt_reset_iv (kc_iv (encrypt_ctx ?seal)) (set_pid_send ps opt)" by (simp add: sealing_state_def)
    then show ?thesis using data_inv_iv[OF keep] by metis
  qed
  have drop: "data_step hm co (Op_Send now b work) = Some (Ev_Nothing, co1)"
    if "openvpn_encrypt_aead hm now b work co = Some (crypt_drop_buf b, co1)" for co1
    using that enc by (simp add: crypt_drop_buf_def)
  show ?thesis
  proof (cases ok)
    case False
    then have "openvpn_encrypt_aead hm now b work co = Some (crypt_drop_buf b, set_pid_send ps opt)" using cs u ef by simp
    from drop[OF this] keep show ?thesis by auto
  next
    case True
    let ?pid = "pid_bytes True (kc_epoch (encrypt_ctx opt)) ps"
    have pid: "?pid = epoch_pid (kc_epoch (encrypt_ctx opt)) (ps_id ps)" by (simp add: pid_bytes_def)
    have up1: "ps_id (pid_send (co_packet_id opt)) < ps_id ps" "ps_id ps \<le> PACKET_ID_EPOCH_MAX" using up True by simp_all
    from cs u True ef consider "openvpn_encrypt_aead hm now b work co = Some (crypt_drop_buf b, ?seal)"
      | out x where "openvpn_encrypt_aead hm now b work co = Some (out, set_encrypt (count_blocks x (encrypt_ctx ?seal)) ?seal)"
         "buf_wf out" "content out = content work @ aead_packet True c key (encrypt_ctx opt) (content work) ?pid (content b)"
      by auto
    then show ?thesis
    proof cases
      case 1
      from drop[OF this] seal show ?thesis by auto
    next
      case 2
      define co' where "co' = set_encrypt (count_blocks x (encrypt_ctx ?seal)) ?seal"
      have ec: "encrypt_ctx co' = count_blocks x ((encrypt_ctx opt)\<lparr>kc_iv := combine_iv c (encrypt_ctx opt) (iv_block ?pid)\<rparr>)"
        by (simp add: co'_def set_encrypt_def sealing_state_ctx)
      have "0 < length (content out)" unfolding 2(3) by (simp add: aead_packet_def Let_def length_pid_bytes)
      then have lo: "0 < bf_len out" using bf_len_content[OF 2(2)] by simp
      have iv: "combine_iv c (encrypt_ctx opt) (iv_block ?pid) = session_iv hm kt es (kc_epoch (encrypt_ctx opt)) (ps_id ps)"
        using same_key_packet(2)[OF d(11)] k0(1) by (simp add: session_iv_def Let_def pid)
      have sv: "sent_event co' =
          Ev_Sent (kc_epoch (encrypt_ctx opt)) (session_iv hm kt es (kc_epoch (encrypt_ctx opt)) (ps_id ps))"
        by (simp add: sent_event_def ec count_blocks_def iv)
      have st: "data_step hm co (Op_Send now b work) =
          Some (Ev_Sent (kc_epoch (encrypt_ctx opt)) (session_iv hm kt es (kc_epoch (encrypt_ctx opt)) (ps_id ps)), co')"
        by (simp only: data_step.simps enc 2(1)[folded co'_def] option.case prod.case lo if_True sv)
      have new: "(epoch_of (encrypt_ctx opt), ps_id ps) \<notin> T"
        using io up1(1) by (fastforce simp: data_inv_def)
      have "data_inv hm kt es er R (insert (epoch_of (encrypt_ctx opt), ps_id ps) T) ?seal"
        using seal by (simp add: data_inv_def sealing_state_def encrypt_reset_iv_def set_encrypt_def set_pid_send_def)
      then have "data_inv hm kt es er R (insert (epoch_of (encrypt_ctx opt), ps_id ps) T) co'"
        by (rule data_inv_cong) (simp_all add: co'_def set_encrypt_def sealing_state_def encrypt_reset_iv_def set_pid_send_def)
      then show ?thesis using st new up1(2) by auto
    qed
  qed
qed

lemma receive_step:
  assumes e: "epoch_setup hm kt es er" and kt: "session_kt kt" and i: "data_inv hm kt es er R T co"
    and legal: "data_legal (Op_Receive now headroom ad_start b work)"
  shows "case data_step hm co (Op_Receive now headroom ad_start b work) of
      None \<Rightarrow> \<exists>p. content b = session_packet hm kt er (bytes_before b ad_start) (take 8 (content b)) p
        \<and> unat (wire_epoch (take 8 (content b))) = epoch_of (decrypt_ctx co) + length (epoch_data_keys_future co)
    | Some (ev, co') \<Rightarrow> (case ev of Ev_Nothing \<Rightarrow> data_inv hm kt es er R T co'
       | Ev_Delivered pid p \<Rightarrow> pid = take 8 (content b) \<and> length pid = 8 \<and> (unat (wire_epoch pid), pn_id (wire_pin pid)) \<notin> R
           \<and> content b = session_packet hm kt er (bytes_before b ad_start) pid p
           \<and> data_inv hm kt es er (insert (unat (wire_epoch pid), pn_id (wire_pin pid)) R) T co'
       | Ev_Sent ep iv \<Rightarrow> False)"
proof -
  have ef: "epoch_format co" and ei: "epoch_inv hm kt es er co" using i by (simp_all add: data_inv_def)
  note d = epoch_invD[OF ei]
  have l: "SEQ_EXPIRED < now" "buf_wf b" "0 < bf_len b" "buf_wf work" "buf_defined work" "0 \<le> headroom" "headroom \<le> bf_cap work"
    "int ad_start \<le> bf_off b" using legal by simp_all
  define pid where "pid = take 8 (content b)"
  define r where "r = openvpn_decrypt_aead hm now headroom ad_start b work co"
  have slot_key: "\<exists>c key. kc_cipher (slot_ctx co slot) = Some (c, key) \<and> aead_correct c \<and> cipher_sizes c
      \<and> same_ctx_key (slot_ctx co slot) (data_key hm kt er (unat ep)) \<and> kc_cipher (data_key hm kt er (unat ep)) = Some (c, key)"
    if "epoch_lookup_decrypt_key co ep = Some slot" for ep slot
  proof -
    note lk = lookup_ok[OF e ei that]
    obtain c key where "kc_cipher (data_key hm kt er (unat ep)) = Some (c, key)" "aead_correct c" "cipher_sizes c"
      using data_key_cipher[OF e kt, of er "unat ep"] by metis
    then show ?thesis using lk(1) by (auto simp: same_ctx_key_def)
  qed
  obtain c0 key0 where k0: "kc_cipher (decrypt_ctx co) = Some (c0, key0)" "ck_mode c0 = MODE_AEAD"
    using data_key_cipher[OF e kt, of er "epoch_of (decrypt_ctx co)"] d(9) by (metis same_ctx_key_def)
  have ini: "initialized (pid_rec (co_packet_id co))" using i window_initialized by (auto simp: data_inv_def)
  have step: "data_step hm co (Op_Receive now headroom ad_start b work) =
      (case r of None \<Rightarrow> None | Some (ok, out, co1) \<Rightarrow> Some (if ok then Ev_Delivered pid (buf_bytes out) else Ev_Nothing, co1))"
  proof -
    have dec: "openvpn_decrypt hm now headroom ad_start b work co = r"
      using l(3) k0 by (simp add: openvpn_decrypt_def cipher_ctx_mode_aead_def r_def)
    have pb: "take 8 (buf_bytes b) = pid" using l(2) by (simp add: pid_def buf_bytes_wf)
    show ?thesis unfolding data_step.simps dec pb by (rule refl)
  qed
  have kn: "kc_cipher (decrypt_ctx co) \<noteq> None" using k0 by simp
  have keys: "\<exists>c key. kc_cipher (slot_ctx co slot) = Some (c, key) \<and> aead_correct c \<and> cipher_sizes c"
    if "epoch_lookup_decrypt_key co (wire_epoch (take 8 (content b))) = Some slot" for slot
    using slot_key[OF that] by blast
  have "dropped (epoch_lookup_decrypt_key co (wire_epoch pid)) co r \<or>
     (\<exists>slot c key p. wire_epoch pid \<noteq> 0 \<and> epoch_lookup_decrypt_key co (wire_epoch pid) = Some slot \<and> length pid = 8
         \<and> kc_cipher (slot_ctx co slot) = Some (c, key)
         \<and> content b = aead_packet True c key (slot_ctx co slot) (bytes_before b ad_start) pid p
         \<and> checked (crypto_check_replay hm now co (wire_pin pid) (wire_epoch pid)) p r)"
    using decrypt_epoch_cases[OF ef l(2,4-7,3,8) kn ini keys, of hm now] unfolding pid_def r_def by blast
  then consider "dropped (epoch_lookup_decrypt_key co (wire_epoch pid)) co r"
    | slot c key p where "epoch_lookup_decrypt_key co (wire_epoch pid) = Some slot" "length pid = 8"
         "kc_cipher (slot_ctx co slot) = Some (c, key)"
         "content b = aead_packet True c key (slot_ctx co slot) (bytes_before b ad_start) pid p"
         "checked (crypto_check_replay hm now co (wire_pin pid) (wire_epoch pid)) p r"
    by blast
  then show ?thesis
  proof cases
    case 1
    then obtain b' co' where d1: "r = Some (False, b', co')"
      "co' = co \<or> (\<exists>slot n. co' = set_slot slot ((slot_ctx co slot)\<lparr>failed_verifications := n\<rparr>) co)"
      by (auto simp: dropped_def)
    then have "data_inv hm kt es er R T co'" using i data_inv_slot[OF i] by auto
    then show ?thesis unfolding step by (simp add: d1(1))
  next
    case 2
    have sk: "same_ctx_key (slot_ctx co slot) (data_key hm kt er (unat (wire_epoch pid)))"
        "kc_cipher (data_key hm kt er (unat (wire_epoch pid))) = Some (c, key)"
      using slot_key[OF 2(1)] 2(3) by auto
    have auth: "content b = session_packet hm kt er (bytes_before b ad_start) pid p"
      using 2(4) same_key_packet(1)[OF sk(1)] sk(2) by (simp add: session_packet_def Let_def)
    have pin: "pn_time (wire_pin pid) = 0" "pn_id (wire_pin pid) \<le> PACKET_ID_EPOCH_MAX" by (simp_all add: wire_pin_def mask_small)
    note cr = check_replay_ok[OF e i l(1) 2(1) pin]
    show ?thesis
    proof (cases "crypto_check_replay hm now co (wire_pin pid) (wire_epoch pid)")
      case None
      then have "r = None" using 2(5) by (simp add: checked_def)
      then have st: "data_step hm co (Op_Receive now headroom ad_start b work) = None" unfolding step by simp
      have n: "unat (wire_epoch pid) = epoch_of (decrypt_ctx co) + length (epoch_data_keys_future co)"
        using cr unfolding None by (simp only: option.case)
      show ?thesis unfolding st option.case pid_def[symmetric] using auth n by blast
    next
      case (Some x)
      obtain ok co1 where x: "x = (ok, co1)" by (cases x)
      show ?thesis
      proof (cases ok)
        case False
        then obtain b' where "r = Some (False, b', co1)" using 2(5) Some x by (auto simp: checked_def)
        then have st: "data_step hm co (Op_Receive now headroom ad_start b work) = Some (Ev_Nothing, co1)" unfolding step by simp
        have n: "data_inv hm kt es er R T co1" using cr False unfolding Some x by (simp only: option.case prod.case if_False)
        show ?thesis unfolding st option.case prod.case data_event.case by (rule n)
      next
        case True
        then obtain w where w: "r = Some (True, w, set_decrypt (count_blocks [] (decrypt_ctx co1)) co1)" "buf_wf w" "content w = p"
          using 2(5) Some x by (auto simp: checked_def)
        let ?co = "set_decrypt (count_blocks [] (decrypt_ctx co1)) co1" and ?R = "insert (unat (wire_epoch pid), pn_id (wire_pin pid)) R"
        have n: "(unat (wire_epoch pid), pn_id (wire_pin pid)) \<notin> R" "data_inv hm kt es er ?R T co1"
          using cr True unfolding Some x option.case prod.case by (auto simp only: if_True)
        have n': "data_inv hm kt es er ?R T ?co" by (rule data_inv_cong[OF n(2)]) (simp_all add: set_decrypt_def)
        have "buf_bytes w = p" using w by (simp add: buf_bytes_wf)
        then have st: "data_step hm co (Op_Receive now headroom ad_start b work) = Some (Ev_Delivered pid p, ?co)"
          unfolding step w(1) by simp
        show ?thesis unfolding st option.case prod.case data_event.case by (intro conjI pid_def 2(2) n(1) auth n')
      qed
    qed
  qed
qed

section \<open>The keys of a session\<close>

text \<open>
  \<^verbatim>\<open>init_epoch_keys\<close> and the part of \<^verbatim>\<open>init_key_contexts\<close> for a data channel in user space, where
  \<^verbatim>\<open>M_FATAL\<close> is \<open>None\<close>. \<open>key2\<close> are the two keys both ends derive from the handshake.
\<close>

definition future_key_count :: nat where "future_key_count = 16"

definition session_direction :: "bool \<Rightarrow> key_direction" where
  "session_direction server = (if server then KEY_DIRECTION_INVERSE else KEY_DIRECTION_NORMAL)"

definition first_epoch_key :: "raw_key \<Rightarrow> epoch_key" where
  "first_epoch_key k = \<lparr>ek_key = take 32 (rk_cipher k), ek_epoch = 1\<rparr>"

definition init_epoch_keys :: "hmac \<Rightarrow> crypto_options \<Rightarrow> key_type \<Rightarrow> bool \<Rightarrow> raw_key list \<Rightarrow> crypto_options option" where
  "init_epoch_keys hm co kt server key2 =
     (let kds = key_direction_state_init (session_direction server);
          e1_send = first_epoch_key (key2 ! out_key kds);
          e1_recv = first_epoch_key (key2 ! in_key kds)
      in epoch_init_key_ctx hm co kt e1_send e1_recv future_key_count)"

definition init_key_contexts ::
  "hmac \<Rightarrow> u32 \<Rightarrow> crypto_options \<Rightarrow> key_type \<Rightarrow> bool \<Rightarrow> raw_key list \<Rightarrow> crypto_options option" where
  "init_key_contexts hm crypto_flags co kt server key2 =
     (if crypto_flags AND CO_EPOCH_DATA_KEY_FORMAT \<noteq> 0
      then if \<not> (case kt_cipher kt of None \<Rightarrow> False | Some c \<Rightarrow> ck_mode c = MODE_AEAD) then None
           else init_epoch_keys hm co kt server key2
      else map_option (\<lambda>k. co\<lparr>key_bi := k\<rparr>) (init_key_ctx_bi key2 (session_direction server) kt))"

text \<open>
  The crypto options of a new session: cleared, the packet ids of \<^verbatim>\<open>key_state_init\<close>, the flags of
  \<^verbatim>\<open>tls_session_generate_data_channel_keys\<close>, then the keys.
\<close>

definition clear_key_type :: key_type where "clear_key_type = \<lparr>kt_cipher = None, kt_digest = None\<rparr>"
definition clear_epoch_key :: epoch_key where "clear_epoch_key = \<lparr>ek_key = replicate 32 0, ek_epoch = 0\<rparr>"

definition clear_crypto_options :: "packet_id \<Rightarrow> u32 \<Rightarrow> crypto_options" where
  "clear_crypto_options pid flags =
     \<lparr>key_bi = \<lparr>bi_encrypt = clear_key_ctx, bi_decrypt = clear_key_ctx, bi_initialized = False\<rparr>,
      epoch_key_send = clear_epoch_key, epoch_key_recv = clear_epoch_key, epoch_key_type = clear_key_type, aead_usage_limit = 0,
      epoch_data_keys_future = [], epoch_retiring_key = clear_key_ctx, epoch_retiring_pid = clear_rec,
      co_packet_id = pid, co_pid_persist = None, co_flags = flags\<rparr>"

definition session_start ::
  "hmac \<Rightarrow> u32 \<Rightarrow> int \<Rightarrow> int \<Rightarrow> key_type \<Rightarrow> bool \<Rightarrow> raw_key list \<Rightarrow> crypto_options option" where
  "session_start hm flags replay_window replay_time kt server key2 =
     (case packet_id_init replay_window replay_time of None \<Rightarrow> None
      | Some pid \<Rightarrow> init_key_contexts hm flags (clear_crypto_options pid flags) kt server key2)"

text \<open>What is known of a session before its first packet, and the first keys of its two directions.\<close>

definition session_ok :: "hmac \<Rightarrow> u32 \<Rightarrow> int \<Rightarrow> key_type \<Rightarrow> raw_key list \<Rightarrow> bool" where
  "session_ok hm flags replay_window kt key2 \<longleftrightarrow>
     sha256_sized hm \<and> session_kt kt \<and> flags AND CO_EPOCH_DATA_KEY_FORMAT \<noteq> 0 \<and> 0 < replay_window
     \<and> length key2 = 2 \<and> (\<forall>k \<in> set key2. 32 \<le> length (rk_cipher k))"

definition send_secret :: "bool \<Rightarrow> raw_key list \<Rightarrow> epoch_key" where
  "send_secret server key2 = first_epoch_key (key2 ! (if server then 1 else 0))"

definition recv_secret :: "bool \<Rightarrow> raw_key list \<Rightarrow> epoch_key" where
  "recv_secret server key2 = send_secret (\<not> server) key2"

lemma session_setup:
  assumes "session_ok hm flags w kt key2"
  shows "epoch_setup hm kt (send_secret server key2) (recv_secret server key2)"
proof -
  obtain a b where k: "key2 = [a, b]" using assms by (auto simp: session_ok_def length_Suc_conv numeral_2_eq_2)
  then show ?thesis using assms
    by (auto simp: session_ok_def epoch_setup_def send_secret_def recv_secret_def first_epoch_key_def ek_ok_def session_kt_def)
qed

lemma session_starts:
  assumes s: "session_ok hm flags w kt key2" and p: "packet_id_init w tb = Some pid"
  obtains co where "session_start hm flags w tb kt server key2 = Some co"
    "data_inv hm kt (send_secret server key2) (recv_secret server key2) {} {} co"
    "length (epoch_data_keys_future co) = 16" "epoch_of (decrypt_ctx co) = 1" "epoch_of (encrypt_ctx co) = 1"
proof -
  let ?co = "clear_crypto_options pid flags" and ?es = "send_secret server key2" and ?er = "recv_secret server key2"
  note e = session_setup[OF s, of server]
  have w: "window_inv {} (pid_rec pid)" "0 < w" using packet_id_init_window[OF p] s by (auto simp: session_ok_def)
  have "0 \<le> time_backtrack (pid_rec pid)" "time_backtrack (pid_rec pid) \<le> MAX_TIME_BACKTRACK"
    using p by (auto simp: packet_id_init_def packet_id_init_recv_def clear_rec_def MAX_TIME_BACKTRACK_def split: if_splits)
  then have m: "rec_movable (pid_rec (co_packet_id ?co))" using window_movable[OF w(1)] by (simp add: clear_crypto_options_def)
  obtain co where co: "epoch_init_key_ctx hm ?co kt ?es ?er 16 = Some co" "epoch_inv hm kt ?es ?er co"
    "epoch_of (encrypt_ctx co) = 1" "epoch_of (decrypt_ctx co) = 1" "length (epoch_data_keys_future co) = 16"
    "co_packet_id co = (co_packet_id ?co)\<lparr>pid_send := \<lparr>ps_id = 0, ps_time = 0\<rparr>\<rparr>" "co_flags co = co_flags ?co"
    using init_ok[OF e, of 16 ?co] m by (auto simp: clear_crypto_options_def clear_key_ctx_def)
  have ret: "epoch_retiring_key co = clear_key_ctx"
  proof -
    have "epoch_retiring_key co2 = epoch_retiring_key co1" if "make_future_keys hm k co1 = Some (ks, co2)" for k ks co1 co2
      using that by (induction k arbitrary: ks co1) (force simp: Let_def split: option.splits)+
    then have g: "epoch_retiring_key co2 = epoch_retiring_key co1" if "epoch_generate_future_receive_keys hm co1 = Some co2" for co1 co2
      using that by (auto simp: epoch_generate_future_receive_keys_def Let_def split: if_splits option.splits)
    show ?thesis using co(1)
      by (auto simp: epoch_init_key_ctx_def epoch_init_send_key_ctx_def set_encrypt_def set_pid_send_def clear_crypto_options_def
          split: if_splits option.splits dest!: g)
  qed
  have st: "session_start hm flags w tb kt server key2 = Some co"
    using s p co(1) by (auto simp: session_start_def init_key_contexts_def init_epoch_keys_def Let_def session_direction_def
        session_ok_def session_kt_def epoch_kt_def send_secret_def recv_secret_def future_key_count_def split: option.splits)
  have "data_inv hm kt ?es ?er {} {} co"
    using co(2,6,7) ret w(1) s by (simp add: data_inv_def epoch_format_def clear_crypto_options_def ids_of_def clear_key_ctx_def
        session_ok_def PACKET_ID_EPOCH_MAX_def)
  then show thesis using that[OF st] co by blast
qed

section \<open>Runs\<close>

fun delivered_id :: "data_event \<Rightarrow> (nat \<times> u64) option" where
  "delivered_id (Ev_Delivered pid p) = Some (unat (wire_epoch pid), pn_id (wire_pin pid))"
| "delivered_id _ = None"

fun delivered_pid :: "data_event \<Rightarrow> byte list option" where
  "delivered_pid (Ev_Delivered pid p) = Some pid"
| "delivered_pid _ = None"

fun sent_iv :: "data_event \<Rightarrow> (u16 \<times> byte list) option" where
  "sent_iv (Ev_Sent ep iv) = Some (ep, iv)"
| "sent_iv _ = None"

text \<open>A packet is delivered only for a datagram the peer's key of its epoch made of that plaintext.\<close>

fun genuine_event :: "hmac \<Rightarrow> key_type \<Rightarrow> epoch_key \<Rightarrow> data_op \<Rightarrow> data_event \<Rightarrow> bool" where
  "genuine_event hm kt er (Op_Receive now headroom ad_start b work) (Ev_Delivered pid p) \<longleftrightarrow>
     pid = take 8 (content b) \<and> content b = session_packet hm kt er (bytes_before b ad_start) pid p"
| "genuine_event hm kt er (Op_Receive now headroom ad_start b work) ev \<longleftrightarrow> ev = Ev_Nothing"
| "genuine_event hm kt er (Op_Send now b work) (Ev_Delivered pid p) \<longleftrightarrow> False"
| "genuine_event hm kt er (Op_Send now b work) ev \<longleftrightarrow> True"

text \<open>A datagram that would move the receiver to the last key of its array.\<close>

fun jump_packet :: "hmac \<Rightarrow> key_type \<Rightarrow> epoch_key \<Rightarrow> crypto_options \<Rightarrow> data_op \<Rightarrow> bool" where
  "jump_packet hm kt er co (Op_Receive now headroom ad_start b work) \<longleftrightarrow>
     (\<exists>p. content b = session_packet hm kt er (bytes_before b ad_start) (take 8 (content b)) p)
     \<and> unat (wire_epoch (take 8 (content b))) = epoch_of (decrypt_ctx co) + length (epoch_data_keys_future co)"
| "jump_packet hm kt er co (Op_Send now b work) \<longleftrightarrow> False"

lemma session_iv_inj:
  assumes "epoch_setup hm kt es er" "session_kt kt" "i \<le> PACKET_ID_EPOCH_MAX" "j \<le> PACKET_ID_EPOCH_MAX"
    "session_iv hm kt es e i = session_iv hm kt es e j"
  shows "i = j"
proof -
  obtain c key where k: "kc_cipher (data_key hm kt es (unat e)) = Some (c, key)" "cipher_sizes c"
    "length (implicit_iv (data_key hm kt es (unat e))) = 16"
    using data_key_cipher[OF assms(1,2), of es "unat e"] by metis
  let ?iv = "implicit_iv (data_key hm kt es (unat e))"
  have n: "12 \<le> nat (ck_iv_size c)" "nat (ck_iv_size c) \<le> 16"
    using k(2) by (auto simp: cipher_sizes_def OPENVPN_AEAD_MIN_IV_LEN_def OPENVPN_MAX_IV_LENGTH_def)
  have bytes: "epoch_pid e x ! m = combine_iv c (data_key hm kt es (unat e)) (iv_block (epoch_pid e x)) ! m XOR ?iv ! m" if "m < 8" for m x
  proof -
    have l: "length (epoch_pid e x) = 8" by (simp add: epoch_pid_def length_enc)
    then have "iv_block (epoch_pid e x) ! m = epoch_pid e x ! m" "length (iv_block (epoch_pid e x)) = 16"
      using that by (simp_all add: iv_block_def mem_put_def nth_append OPENVPN_MAX_IV_LENGTH_def)
    then show ?thesis using that n k(3) by (simp add: combine_iv_def xor.assoc)
  qed
  have "epoch_pid e i = epoch_pid e j"
  proof (rule nth_equalityI)
    show "length (epoch_pid e i) = length (epoch_pid e j)" by (simp add: epoch_pid_def length_enc)
    fix m assume "m < length (epoch_pid e i)"
    then have "m < 8" by (simp add: epoch_pid_def length_enc)
    then have m: "m < 8" .
    have iv: "combine_iv c (data_key hm kt es (unat e)) (iv_block (epoch_pid e i)) = combine_iv c (data_key hm kt es (unat e)) (iv_block (epoch_pid e j))"
      using assms(5) k(1) by (simp add: session_iv_def Let_def)
    have "epoch_pid e i ! m = combine_iv c (data_key hm kt es (unat e)) (iv_block (epoch_pid e i)) ! m XOR ?iv ! m" by (rule bytes[OF m])
    also have "\<dots> = combine_iv c (data_key hm kt es (unat e)) (iv_block (epoch_pid e j)) ! m XOR ?iv ! m" by (simp only: iv)
    also have "\<dots> = epoch_pid e j ! m" by (rule bytes[OF m, symmetric])
    finally show "epoch_pid e i ! m = epoch_pid e j ! m" .
  qed
  then show ?thesis using wire_epoch_pid(2)[OF assms(3), of e] wire_epoch_pid(2)[OF assms(4), of e] by metis
qed

definition delivered_ids :: "data_event list \<Rightarrow> (nat \<times> u64) list" where
  "delivered_ids evs = List.map_filter delivered_id evs"

definition delivered_pids :: "data_event list \<Rightarrow> byte list list" where
  "delivered_pids evs = List.map_filter delivered_pid evs"

definition sent_ivs :: "data_event list \<Rightarrow> (u16 \<times> byte list) list" where
  "sent_ivs evs = List.map_filter sent_iv evs"

lemma map_filter_Cons: "List.map_filter f (x # xs) = (case f x of None \<Rightarrow> List.map_filter f xs | Some y \<Rightarrow> y # List.map_filter f xs)"
  by (simp add: List.map_filter_def split: option.splits)

lemma pids_ids: "delivered_ids evs = map (\<lambda>pid. (unat (wire_epoch pid), pn_id (wire_pin pid))) (delivered_pids evs)"
  unfolding delivered_ids_def delivered_pids_def
proof (induction evs)
  case (Cons ev evs)
  then show ?case by (cases ev) (simp_all add: map_filter_Cons)
qed (simp add: List.map_filter_def)

text \<open>One operation, whichever it is.\<close>

lemma any_step:
  assumes "epoch_setup hm kt es er" "session_kt kt" "data_inv hm kt es er R T co" "data_legal op"
  shows "case data_step hm co op of None \<Rightarrow> jump_packet hm kt er co op
    | Some (ev, co') \<Rightarrow> genuine_event hm kt er op ev \<and>
        (case ev of Ev_Nothing \<Rightarrow> data_inv hm kt es er R T co'
         | Ev_Sent ep iv \<Rightarrow> \<exists>id. (unat ep, id) \<notin> T \<and> id \<le> PACKET_ID_EPOCH_MAX \<and> iv = session_iv hm kt es ep id
             \<and> data_inv hm kt es er R (insert (unat ep, id) T) co'
         | Ev_Delivered pid p \<Rightarrow> (unat (wire_epoch pid), pn_id (wire_pin pid)) \<notin> R
             \<and> data_inv hm kt es er (insert (unat (wire_epoch pid), pn_id (wire_pin pid)) R) T co')"
proof (cases op)
  case (Op_Send now b work)
  obtain ev co' where s: "data_step hm co op = Some (ev, co')"
    "case ev of Ev_Nothing \<Rightarrow> data_inv hm kt es er R T co'
       | Ev_Sent ep iv \<Rightarrow> \<exists>id. (unat ep, id) \<notin> T \<and> id \<le> PACKET_ID_EPOCH_MAX \<and> iv = session_iv hm kt es ep id
           \<and> data_inv hm kt es er R (insert (unat ep, id) T) co'
       | Ev_Delivered pid p \<Rightarrow> False"
    using send_step[OF assms(1-3)] assms(4) Op_Send by blast
  then show ?thesis unfolding s(1) Op_Send by (cases ev) simp_all
next
  case (Op_Receive now headroom ad_start b work)
  note s = receive_step[OF assms(1-3) assms(4)[unfolded Op_Receive], folded Op_Receive]
  show ?thesis
  proof (cases "data_step hm co op")
    case None
    show ?thesis unfolding None option.case unfolding Op_Receive jump_packet.simps using s[unfolded None option.case] by blast
  next
    case (Some x)
    obtain ev co' where x: "x = (ev, co')" by (cases x)
    note s' = s[unfolded Some x option.case prod.case]
    show ?thesis
    proof (cases ev)
      case Ev_Nothing
      show ?thesis unfolding Some x option.case prod.case Ev_Nothing data_event.case unfolding Op_Receive genuine_event.simps
        using s'[unfolded Ev_Nothing data_event.case] by blast
    next
      case (Ev_Sent ep iv)
      then show ?thesis using s' by simp
    next
      case (Ev_Delivered pid p)
      show ?thesis unfolding Some x option.case prod.case Ev_Delivered data_event.case unfolding Op_Receive genuine_event.simps
        using s'[unfolded Ev_Delivered data_event.case] by blast
    qed
  qed
qed

definition ids_known :: "(nat \<times> u64) set \<Rightarrow> hmac \<Rightarrow> key_type \<Rightarrow> epoch_key \<Rightarrow> data_event list \<Rightarrow> (nat \<times> u64) list \<Rightarrow> bool" where
  "ids_known T hm kt es evs ids \<longleftrightarrow> distinct ids \<and> set ids \<inter> T = {} \<and> (\<forall>(e, i) \<in> set ids. i \<le> PACKET_ID_EPOCH_MAX)
     \<and> list_all2 (\<lambda>(ep, iv) (e, i). e = unat ep \<and> iv = session_iv hm kt es ep i) (sent_ivs evs) ids"

lemma data_run:
  assumes "epoch_setup hm kt es er" "session_kt kt" "data_inv hm kt es er R T co" "\<forall>op \<in> set ops. data_legal op"
    "run_ops (data_step hm) co ops = Some (evs, co')"
  shows "distinct (delivered_ids evs) \<and> set (delivered_ids evs) \<inter> R = {} \<and> list_all2 (genuine_event hm kt er) ops evs
    \<and> (\<exists>ids. ids_known T hm kt es evs ids \<and> data_inv hm kt es er (R \<union> set (delivered_ids evs)) (T \<union> set ids) co')"
  using assms(3-5)
proof (induction ops arbitrary: R T co evs)
  case Nil
  then show ?case by (auto simp: delivered_ids_def sent_ivs_def List.map_filter_def ids_known_def intro!: exI[of _ "[]"])
next
  case (Cons op ops)
  obtain ev co1 evs1 where st: "data_step hm co op = Some (ev, co1)" "run_ops (data_step hm) co1 ops = Some (evs1, co')" "evs = ev # evs1"
    using Cons.prems(3) by (auto split: option.splits)
  have s: "genuine_event hm kt er op ev \<and>
        (case ev of Ev_Nothing \<Rightarrow> data_inv hm kt es er R T co1
         | Ev_Sent ep iv \<Rightarrow> \<exists>id. (unat ep, id) \<notin> T \<and> id \<le> PACKET_ID_EPOCH_MAX \<and> iv = session_iv hm kt es ep id
             \<and> data_inv hm kt es er R (insert (unat ep, id) T) co1
         | Ev_Delivered pid p \<Rightarrow> (unat (wire_epoch pid), pn_id (wire_pin pid)) \<notin> R
             \<and> data_inv hm kt es er (insert (unat (wire_epoch pid), pn_id (wire_pin pid)) R) T co1)"
    using any_step[OF assms(1,2) Cons.prems(1), of op] Cons.prems(2) unfolding st(1) by simp
  have lg: "\<forall>op \<in> set ops. data_legal op" using Cons.prems(2) by simp
  show ?case
  proof (cases ev)
    case Ev_Nothing
    then have "data_inv hm kt es er R T co1" using s by simp
    from Cons.IH[OF this lg st(2)] s Ev_Nothing show ?thesis
      by (simp add: st(3) delivered_ids_def sent_ivs_def map_filter_Cons ids_known_def)
  next
    case (Ev_Sent ep iv)
    then obtain id where id: "(unat ep, id) \<notin> T" "id \<le> PACKET_ID_EPOCH_MAX" "iv = session_iv hm kt es ep id"
      "data_inv hm kt es er R (insert (unat ep, id) T) co1" using s by auto
    from Cons.IH[OF id(4) lg st(2)] obtain ids where ids: "ids_known (insert (unat ep, id) T) hm kt es evs1 ids"
      "data_inv hm kt es er (R \<union> set (delivered_ids evs1)) (insert (unat ep, id) T \<union> set ids) co'"
      "distinct (delivered_ids evs1)" "set (delivered_ids evs1) \<inter> R = {}" "list_all2 (genuine_event hm kt er) ops evs1" by blast
    have "ids_known T hm kt es evs ((unat ep, id) # ids)"
      using ids(1) id(1-3) by (auto simp: ids_known_def st(3) Ev_Sent sent_ivs_def map_filter_Cons)
    moreover have "T \<union> set ((unat ep, id) # ids) = insert (unat ep, id) T \<union> set ids" by simp
    ultimately have ex: "\<exists>ids. ids_known T hm kt es evs ids \<and> data_inv hm kt es er (R \<union> set (delivered_ids evs1)) (T \<union> set ids) co'"
      using ids(2) by metis
    have d: "delivered_ids evs = delivered_ids evs1" by (simp add: st(3) Ev_Sent delivered_ids_def map_filter_Cons)
    have "list_all2 (genuine_event hm kt er) (op # ops) evs" using ids(5) s by (simp add: st(3))
    then show ?thesis unfolding d using ids(3,4) ex by blast
  next
    case (Ev_Delivered pid p)
    let ?i = "(unat (wire_epoch pid), pn_id (wire_pin pid))"
    have n: "?i \<notin> R" "data_inv hm kt es er (insert ?i R) T co1" using s Ev_Delivered by simp_all
    from Cons.IH[OF n(2) lg st(2)] obtain ids where ids: "ids_known T hm kt es evs1 ids"
      "data_inv hm kt es er (insert ?i R \<union> set (delivered_ids evs1)) (T \<union> set ids) co'"
      "distinct (delivered_ids evs1)" "set (delivered_ids evs1) \<inter> insert ?i R = {}" "list_all2 (genuine_event hm kt er) ops evs1" by blast
    have d: "delivered_ids evs = ?i # delivered_ids evs1" "sent_ivs evs = sent_ivs evs1"
      by (simp_all add: st(3) Ev_Delivered delivered_ids_def sent_ivs_def map_filter_Cons)
    have "ids_known T hm kt es evs ids" using ids(1) by (simp add: ids_known_def d(2))
    moreover have "R \<union> set (delivered_ids evs) = insert ?i R \<union> set (delivered_ids evs1)" by (simp add: d(1))
    ultimately have "\<exists>ids. ids_known T hm kt es evs ids \<and> data_inv hm kt es er (R \<union> set (delivered_ids evs)) (T \<union> set ids) co'"
      using ids(2) by metis
    moreover have "distinct (delivered_ids evs)" "set (delivered_ids evs) \<inter> R = {}" using ids(3,4) n(1) by (auto simp: d(1))
    moreover have "list_all2 (genuine_event hm kt er) (op # ops) evs" using ids(5) s by (simp add: st(3))
    ultimately show ?thesis by blast
  qed
qed

lemma data_run_stops:
  assumes "epoch_setup hm kt es er" "session_kt kt" "data_inv hm kt es er R T co" "\<forall>op \<in> set ops. data_legal op"
    "run_ops (data_step hm) co ops = None"
  shows "\<exists>ops1 op ops2 evs co1. ops = ops1 @ op # ops2 \<and> run_ops (data_step hm) co ops1 = Some (evs, co1) \<and> jump_packet hm kt er co1 op"
  using assms(3-5)
proof (induction ops arbitrary: R T co)
  case (Cons op ops)
  have s: "case data_step hm co op of None \<Rightarrow> jump_packet hm kt er co op
    | Some (ev, co') \<Rightarrow> genuine_event hm kt er op ev \<and>
        (case ev of Ev_Nothing \<Rightarrow> data_inv hm kt es er R T co'
         | Ev_Sent ep iv \<Rightarrow> \<exists>id. (unat ep, id) \<notin> T \<and> id \<le> PACKET_ID_EPOCH_MAX \<and> iv = session_iv hm kt es ep id
             \<and> data_inv hm kt es er R (insert (unat ep, id) T) co'
         | Ev_Delivered pid p \<Rightarrow> (unat (wire_epoch pid), pn_id (wire_pin pid)) \<notin> R
             \<and> data_inv hm kt es er (insert (unat (wire_epoch pid), pn_id (wire_pin pid)) R) T co')"
    using any_step[OF assms(1,2) Cons.prems(1), of op] Cons.prems(2) by simp
  show ?case
  proof (cases "data_step hm co op")
    case None
    then show ?thesis using s by (intro exI[of _ "[]"] exI[of _ op] exI[of _ ops]) simp
  next
    case (Some x)
    obtain ev co1 where x: "x = (ev, co1)" by (cases x)
    have "\<exists>R T. data_inv hm kt es er R T co1" using s unfolding Some x by (auto split: data_event.splits)
    moreover have "run_ops (data_step hm) co1 ops = None" using Cons.prems(3) unfolding run_ops.simps Some x by simp
    ultimately obtain ops1 op' ops2 evs co2 where r: "ops = ops1 @ op' # ops2" "run_ops (data_step hm) co1 ops1 = Some (evs, co2)"
      "jump_packet hm kt er co2 op'" using Cons.IH Cons.prems(2) by (metis list.set_intros(2))
    then have "run_ops (data_step hm) co (op # ops1) = Some (ev # evs, co2)" unfolding run_ops.simps Some x by simp
    then show ?thesis using r(1,3) by (intro exI[of _ "op # ops1"] exI[of _ op'] exI[of _ ops2]) auto
  qed
qed simp

end
