(* ===== verification/Data_Channel.thy ===== *)
theory Data_Channel
  imports Crypto_Session
begin

text \<open>
  What a session guarantees: \<open>data_channel_authentic_once\<close>, \<open>data_channel_ivs_unique\<close>,
  \<open>data_keys_in_step\<close>, \<open>data_packet_roundtrip\<close>, and the one datagram that stops the process,
  \<open>data_channel_stops_only\<close> and \<open>epoch_jump_to_last_crashes\<close>. The witnesses run a session with a
  cipher that leaves its input as it is; words are encoded by \<open>be_encw\<close> there.
\<close>

unbundle bit_operations_syntax

section \<open>A sealed packet on its way\<close>

lemma send_packet_form:
  assumes e: "epoch_setup hm kt es er" and kt: "session_kt kt" and i: "data_inv hm kt es er R T co"
    and legal: "data_legal (Op_Send now b work)"
    and enc: "openvpn_encrypt hm now [] b work co = Some (out, co')" "0 < bf_len out"
  obtains pid where "length pid = 8" "buf_wf out" "content out = content work @ session_packet hm kt es (content work) pid (content b)"
    "wire_epoch pid \<noteq> 0"
proof -
  have ef: "epoch_format co" and ei: "epoch_inv hm kt es er co" using i by (simp_all add: data_inv_def)
  obtain opt where opt: "epoch_check_send_iterate hm co = Some opt" "epoch_inv hm kt es er opt" "opt = co \<or> send_key_moved co opt"
    using check_send_ok[OF e ei] by blast
  have io: "data_inv hm kt es er R T opt" by (rule data_inv_send_moved[OF i opt(2,3)])
  note d = epoch_invD[OF opt(2)]
  obtain c key where k0: "kc_cipher (data_key hm kt es (epoch_of (encrypt_ctx opt))) = Some (c, key)" "aead_correct c" "cipher_sizes c"
    using data_key_cipher[OF e kt, of es "epoch_of (encrypt_ctx opt)"] by metis
  have kc: "kc_cipher (encrypt_ctx opt) = Some (c, key)" using d(11) k0(1) by (simp add: same_ctx_key_def)
  obtain c' key' where "kc_cipher (data_key hm kt es (epoch_of (encrypt_ctx co))) = Some (c', key')" "ck_mode c' = MODE_AEAD"
    using data_key_cipher[OF e kt, of es "epoch_of (encrypt_ctx co)"] by metis
  then have aead: "cipher_ctx_mode_aead (encrypt_ctx co)"
    using epoch_invD(11)[OF ei] by (simp add: same_ctx_key_def cipher_ctx_mode_aead_def)
  have ini: "initialized (pid_rec (co_packet_id opt))" using io window_initialized by (auto simp: data_inv_def)
  have wf: "buf_wf b" "buf_wf work" "buf_defined work" "buf_safe work 8" "0 < bf_len b" using legal by simp_all
  have en: "openvpn_encrypt_aead hm now b work co = Some (out, co')" using aead wf(5) enc(1) by (simp add: openvpn_encrypt_def)
  have o: "(if epoch_format co then epoch_check_send_iterate hm co else Some co) = Some opt" using ef opt(1) by simp
  note cs = encrypt_aead_cases[OF o kc k0(2,3) ini wf(1-4), of now]
  obtain ok ps where u: "encrypt_update True now (pid_send (co_packet_id opt)) = (ok, ps)" by fastforce
  have pm: "ps_id (pid_send (co_packet_id opt)) \<le> PACKET_ID_EPOCH_MAX" using io by (simp add: data_inv_def)
  note up = update_epoch_cases[OF u pm]
  have nd: "out \<noteq> crypt_drop_buf b" using enc(2) by (auto simp: crypt_drop_buf_def)
  have ok: ok using cs u ef en nd by (cases ok) auto
  let ?pid = "pid_bytes True (kc_epoch (encrypt_ctx opt)) ps"
  have f: "buf_wf out" "content out = content work @ aead_packet True c key (encrypt_ctx opt) (content work) ?pid (content b)"
    using cs u ok ef en nd by auto
  have pid: "?pid = epoch_pid (kc_epoch (encrypt_ctx opt)) (ps_id ps)" by (simp add: pid_bytes_def)
  have we: "wire_epoch ?pid = kc_epoch (encrypt_ctx opt)" unfolding pid by (rule wire_epoch_pid(1)) (use up ok in simp)
  have "aead_packet True c key (encrypt_ctx opt) (content work) ?pid (content b) = session_packet hm kt es (content work) ?pid (content b)"
    using same_key_packet(1)[OF d(11)] k0(1) by (simp add: session_packet_def Let_def we)
  moreover have "kc_epoch (encrypt_ctx opt) \<noteq> 0" using d(4,6) by auto
  ultimately show thesis using that[of ?pid] f we by (simp add: length_pid_bytes)
qed

lemma session_packet_inj:
  assumes "epoch_setup hm kt es er" "session_kt kt" "e1 = es \<or> e1 = er"
    "session_packet hm kt e1 ad pid p = session_packet hm kt e1 ad pid q"
  shows "p = q"
proof -
  obtain c key where k: "kc_cipher (data_key hm kt e1 (unat (wire_epoch pid))) = Some (c, key)" "aead_correct c"
    using data_key_cipher[OF assms(1-3), of "unat (wire_epoch pid)"] by metis
  let ?iv = "combine_iv c (data_key hm kt e1 (unat (wire_epoch pid))) (iv_block pid)"
  have ac: "length (ck_tag c key iv (ad @ pid) x) = 16" "ck_dec c key iv (ad @ pid) (ck_enc c key iv (ad @ pid) x) = Some x" for iv x
    using k(2) unfolding aead_correct_def by blast+
  have "ck_enc c key ?iv (ad @ pid) p @ ck_tag c key ?iv (ad @ pid) p = ck_enc c key ?iv (ad @ pid) q @ ck_tag c key ?iv (ad @ pid) q"
    using assms(4) k(1) by (simp add: session_packet_def Let_def aead_packet_def)
  then have "ck_enc c key ?iv (ad @ pid) p = ck_enc c key ?iv (ad @ pid) q"
    by (simp add: ac(1) append_eq_append_conv)
  then show ?thesis using ac(2)[of "?iv" p] ac(2)[of "?iv" q] by (metis option.inject)
qed

lemma packet_front: "length pid = 8 \<Longrightarrow> kc_cipher (data_key hm kt e1 (unat (wire_epoch pid))) \<noteq> None \<Longrightarrow> take 8 (session_packet hm kt e1 ad pid p) = pid"
  by (auto simp: session_packet_def Let_def aead_packet_def)

text \<open>An authentic packet whose key is at hand reaches the replay check, and its verdict is final.\<close>

lemma authentic_checked:
  assumes e: "epoch_setup hm kt es er" and kt: "session_kt kt" and i: "data_inv hm kt es er R T co"
    and legal: "data_legal (Op_Receive now headroom ad_start b work)"
    and pk: "content b = session_packet hm kt er (bytes_before b ad_start) pid p" "length pid = 8" "p \<noteq> []" "wire_epoch pid \<noteq> 0"
    and l: "epoch_lookup_decrypt_key co (wire_epoch pid) = Some slot" "\<not> cipher_decrypt_verify_fail_exceeded (slot_ctx co slot)"
    and room: "\<And>c. kt_cipher kt = Some c \<Longrightarrow> headroom + bf_len b + ck_block_size c \<le> bf_cap work"
  shows "checked (crypto_check_replay hm now co (wire_pin pid) (wire_epoch pid)) p (openvpn_decrypt hm now headroom ad_start b work co)"
proof -
  have ef: "epoch_format co" and ei: "epoch_inv hm kt es er co" using i by (simp_all add: data_inv_def)
  note d = epoch_invD[OF ei]
  have lg: "SEQ_EXPIRED < now" "buf_wf b" "0 < bf_len b" "buf_wf work" "buf_defined work" "0 \<le> headroom" "headroom \<le> bf_cap work"
    "int ad_start \<le> bf_off b" using legal by simp_all
  obtain c key where k: "kc_cipher (data_key hm kt er (unat (wire_epoch pid))) = Some (c, key)" "kt_cipher kt = Some c"
    "aead_correct c" "cipher_sizes c"
    using data_key_cipher[OF e kt, of er "unat (wire_epoch pid)"] by metis
  note lk = lookup_ok[OF e ei l(1)]
  have ks: "kc_cipher (slot_ctx co slot) = Some (c, key)" using lk(1) k(1) by (simp add: same_ctx_key_def)
  have t8: "take 8 (content b) = pid" unfolding pk(1) by (rule packet_front[OF pk(2)]) (use k(1) in simp)
  have form: "session_packet hm kt er ad pid q = aead_packet True c key (slot_ctx co slot) ad pid q" for ad q
    using same_key_packet(1)[OF lk(1)] k(1) by (simp add: session_packet_def Let_def)
  obtain c0 key0 where k0: "kc_cipher (decrypt_ctx co) = Some (c0, key0)" "ck_mode c0 = MODE_AEAD"
    using data_key_cipher[OF e kt, of er "epoch_of (decrypt_ctx co)"] d(9) by (metis same_ctx_key_def)
  have ini: "initialized (pid_rec (co_packet_id co))" using i window_initialized by (auto simp: data_inv_def)
  have kn: "kc_cipher (decrypt_ctx co) \<noteq> None" using k0 by simp
  have dec: "openvpn_decrypt hm now headroom ad_start b work co = openvpn_decrypt_aead hm now headroom ad_start b work co"
    using lg(3) k0 by (simp add: openvpn_decrypt_def cipher_ctx_mode_aead_def)
  have keys: "\<exists>c key. kc_cipher (slot_ctx co s) = Some (c, key) \<and> aead_correct c \<and> cipher_sizes c"
    if "epoch_lookup_decrypt_key co (wire_epoch (take 8 (content b))) = Some s" for s
    using that l(1) ks k(3,4) unfolding t8 by auto
  note cs = decrypt_epoch_cases[OF ef lg(2,4-7,3,8) kn ini keys, of hm now, unfolded t8]
  have "headroom + bf_len b + ck_block_size c \<le> bf_cap work" by (rule room[OF k(2)])
  then have "\<exists>slot' c' key' p'. epoch_lookup_decrypt_key co (wire_epoch pid) = Some slot' \<and> kc_cipher (slot_ctx co slot') = Some (c', key')
      \<and> content b = aead_packet True c' key' (slot_ctx co slot') (bytes_before b ad_start) pid p'
      \<and> checked (crypto_check_replay hm now co (wire_pin pid) (wire_epoch pid)) p' (openvpn_decrypt hm now headroom ad_start b work co)"
    using cs pk(1)[unfolded form] pk(2-4) l ks unfolding dec by blast
  then obtain p' where p': "content b = aead_packet True c key (slot_ctx co slot) (bytes_before b ad_start) pid p'"
      "checked (crypto_check_replay hm now co (wire_pin pid) (wire_epoch pid)) p' (openvpn_decrypt hm now headroom ad_start b work co)"
    using l(1) ks by auto
  have "session_packet hm kt er (bytes_before b ad_start) pid p = session_packet hm kt er (bytes_before b ad_start) pid p'"
    using pk(1) p'(1) unfolding form by simp
  then have "p = p'" by (rule session_packet_inj[OF e kt disjI2[OF refl]])
  then show ?thesis using p'(2) by simp
qed

section \<open>Evaluation\<close>

text \<open>The codecs on words, for evaluation.\<close>

fun be_encw :: "nat \<Rightarrow> u64 \<Rightarrow> byte list" where
  "be_encw 0 w = []"
| "be_encw (Suc k) w = be_encw k (drop_bit 8 w) @ [ucast w]"

lemma be_encw: "be_enc k (unat (w :: u64)) = be_encw k w"
proof (induction k arbitrary: w)
  case (Suc k)
  have "unat (drop_bit 8 w) = unat w div 256" by (simp add: drop_bit_eq_div unat_div)
  moreover have "(of_nat (unat w) :: byte) = ucast w" by (rule bit_word_eqI) (simp add: bit_simps)
  ultimately show ?case using Suc[of "drop_bit 8 w"] by simp
qed simp

lemma enc64_code [code]: "enc64 w = be_encw 8 w"
  by (simp add: enc64_def be_encw)

lemma of_nat_unat_byte: "(of_nat (unat (b :: byte)) :: u64) = ucast b"
  by (rule bit_word_eqI) (simp add: bit_simps)

lemma be_dec_word: "(of_nat (be_dec bs) :: u64) = foldl (\<lambda>a b. 256 * a + ucast b) 0 bs"
  by (induction bs rule: rev_induct) (simp_all add: of_nat_unat_byte)

lemma dec64_code [code]: "dec64 bs = foldl (\<lambda>a b. 256 * a + ucast b) 0 bs"
  by (simp add: dec64_def be_dec_word)


definition demo_hmac :: hmac where "demo_hmac k m = replicate 32 0"

definition demo_cipher :: cipher_kt where
  "demo_cipher = \<lparr>ck_name = ''AES-256-GCM'', ck_mode = MODE_AEAD, ck_iv_size = 12, ck_key_size = 32, ck_block_size = 16, ck_tag_size = 16,
     ck_reset = (\<lambda>key iv. True), ck_enc = (\<lambda>key iv ad p. p), ck_enc_final = (\<lambda>key iv ad p. []),
     ck_tag = (\<lambda>key iv ad p. replicate 16 0), ck_dec = (\<lambda>key iv ad x. Some x),
     ck_dec_final = (\<lambda>key iv ad x tag. if tag = replicate 16 0 then Some [] else None)\<rparr>"

definition demo_kt :: key_type where "demo_kt = \<lparr>kt_cipher = Some demo_cipher, kt_digest = None\<rparr>"

definition demo_key2 :: "raw_key list" where
  "demo_key2 = replicate 2 \<lparr>rk_cipher = replicate 64 0, rk_hmac = replicate 64 0\<rparr>"

definition demo_dbuf :: "int \<Rightarrow> byte list \<Rightarrow> buffer" where
  "demo_dbuf off xs = \<lparr>bf_cap = 64, bf_off = off, bf_len = int (length xs),
     bf_data = Some (mem_put (replicate 64 0) (nat off) xs)\<rparr>"

definition demo_packet :: "byte list" where
  "demo_packet = [0, 1, 0, 0, 0, 0, 0, 1] @ [69, 0] @ replicate 16 0"

definition demo_data_ops :: "data_op list" where
  "demo_data_ops = [Op_Send 1000 (demo_dbuf 0 [69, 0]) (demo_dbuf 0 []), Op_Receive 1000 0 0 (demo_dbuf 0 demo_packet) (demo_dbuf 0 []),
     Op_Receive 1000 0 0 (demo_dbuf 0 demo_packet) (demo_dbuf 0 [])]"



lemma demo_session: "session_ok demo_hmac 0x100 64 demo_kt demo_key2" "session_ok demo_hmac 0x100 4 demo_kt demo_key2"
proof -
  have a: "sha256_sized demo_hmac" by (simp add: sha256_sized_def demo_hmac_def)
  have b: "aead_correct demo_cipher" by (simp add: aead_correct_def demo_cipher_def)
  have c: "epoch_kt demo_kt" "cipher_sizes demo_cipher"
    by (simp_all add: epoch_kt_def cipher_sizes_def demo_kt_def demo_cipher_def MAX_CIPHER_KEY_LENGTH_def
        OPENVPN_AEAD_MIN_IV_LEN_def OPENVPN_MAX_IV_LENGTH_def)
  have d: "kt_cipher demo_kt = Some demo_cipher" by (simp add: demo_kt_def)
  have f: "(0x100 :: u32) AND CO_EPOCH_DATA_KEY_FORMAT \<noteq> 0" by (simp add: CO_EPOCH_DATA_KEY_FORMAT_def)
  show "session_ok demo_hmac 0x100 64 demo_kt demo_key2" "session_ok demo_hmac 0x100 4 demo_kt demo_key2"
    using a b c d f by (simp_all add: session_ok_def session_kt_def demo_key2_def)
qed

definition demo_co :: "bool \<Rightarrow> crypto_options" where
  "demo_co server = the (session_start demo_hmac 0x100 4 0 demo_kt server demo_key2)"

lemma demo_start: "session_start demo_hmac 0x100 4 0 demo_kt server demo_key2 = Some (demo_co server)"
proof -
  have "session_start demo_hmac 0x100 4 0 demo_kt True demo_key2 \<noteq> None" "session_start demo_hmac 0x100 4 0 demo_kt False demo_key2 \<noteq> None"
    by code_simp+
  then show ?thesis by (cases server) (auto simp: demo_co_def)
qed

definition demo_events :: "data_event list" where
  "demo_events = [Ev_Sent 1 [0, 1, 0, 0, 0, 0, 0, 1, 0, 0, 0, 0], Ev_Delivered [0, 1, 0, 0, 0, 0, 0, 1] [69, 0], Ev_Nothing]"

lemma demo_run: "\<exists>co'. run_ops (data_step demo_hmac) (demo_co False) demo_data_ops = Some (demo_events, co')"
proof -
  have "map_option fst (run_ops (data_step demo_hmac) (demo_co False) demo_data_ops) = Some demo_events" by code_simp
  then show ?thesis by auto
qed

lemma demo_legal: "\<forall>op \<in> set demo_data_ops. data_legal op"
  by code_simp

section \<open>Properties\<close>

lemma session_run:
  assumes "session_ok hm flags w kt key2" "session_start hm flags w tb kt server key2 = Some co0"
    "\<forall>op \<in> set ops. data_legal op" "run_ops (data_step hm) co0 ops = Some (evs, co)"
  obtains ids where "epoch_setup hm kt (send_secret server key2) (recv_secret server key2)" "session_kt kt"
    "distinct (delivered_ids evs)" "list_all2 (genuine_event hm kt (recv_secret server key2)) ops evs"
    "ids_known {} hm kt (send_secret server key2) evs ids"
    "data_inv hm kt (send_secret server key2) (recv_secret server key2) (set (delivered_ids evs)) (set ids) co"
proof -
  obtain pid where p: "packet_id_init w tb = Some pid" using assms(2) by (auto simp: session_start_def split: option.splits)
  have i: "data_inv hm kt (send_secret server key2) (recv_secret server key2) {} {} co0"
    using session_starts[OF assms(1) p, of server] assms(2) by (metis option.inject)
  have k: "session_kt kt" using assms(1) by (simp add: session_ok_def)
  show thesis using data_run[OF session_setup[OF assms(1)] k i assms(3,4)] that session_setup[OF assms(1)] k by auto
qed

text \<open>C10: Whatever the network brings, a packet is handed on only if the key the peer has for its
  epoch made the datagram of that plaintext and that header, and no packet id is handed on twice.\<close>

theorem data_channel_authentic_once:
  assumes "session_ok hm flags w kt key2" "session_start hm flags w tb kt server key2 = Some co0"
    and "\<forall>op \<in> set ops. data_legal op" "run_ops (data_step hm) co0 ops = Some (evs, co)"
  shows "list_all2 (genuine_event hm kt (recv_secret server key2)) ops evs \<and> distinct (delivered_pids evs)"
proof -
  obtain ids where s: "distinct (delivered_ids evs)" "list_all2 (genuine_event hm kt (recv_secret server key2)) ops evs"
    by (rule session_run[OF assms])
  then show ?thesis by (simp add: pids_ids distinct_map)
qed

theorem data_channel_authentic_once_witness:
  "list_all2 (genuine_event demo_hmac demo_kt (recv_secret False demo_key2)) demo_data_ops demo_events
   \<and> distinct (delivered_pids demo_events) \<and> delivered_pids demo_events = [[0, 1, 0, 0, 0, 0, 0, 1]]"
proof -
  obtain co where r: "run_ops (data_step demo_hmac) (demo_co False) demo_data_ops = Some (demo_events, co)" using demo_run by blast
  have "delivered_pids demo_events = [[0, 1, 0, 0, 0, 0, 0, 1]]" by code_simp
  then show ?thesis using data_channel_authentic_once[OF demo_session(2) demo_start demo_legal r] by simp
qed

text \<open>C11: A session never encrypts two packets with the same key and the same IV.\<close>

theorem data_channel_ivs_unique:
  assumes "session_ok hm flags w kt key2" "session_start hm flags w tb kt server key2 = Some co0"
    and "\<forall>op \<in> set ops. data_legal op" "run_ops (data_step hm) co0 ops = Some (evs, co)"
  shows "distinct (sent_ivs evs)"
proof -
  obtain ids where s: "epoch_setup hm kt (send_secret server key2) (recv_secret server key2)" "session_kt kt"
    "ids_known {} hm kt (send_secret server key2) evs ids"
    by (rule session_run[OF assms])
  let ?es = "send_secret server key2"
  have l: "distinct ids" "\<forall>(e, i) \<in> set ids. i \<le> PACKET_ID_EPOCH_MAX"
    "list_all2 (\<lambda>(ep, iv) (e, i). e = unat ep \<and> iv = session_iv hm kt ?es ep i) (sent_ivs evs) ids"
    using s(3) by (auto simp: ids_known_def)
  show ?thesis
  proof (rule distinct_conv_nth[THEN iffD2], intro allI impI)
    fix m n assume mn: "m < length (sent_ivs evs)" "n < length (sent_ivs evs)" "m \<noteq> n"
    obtain a iv b iv' where t: "sent_ivs evs ! m = (a, iv)" "sent_ivs evs ! n = (b, iv')" by (metis surj_pair)
    obtain e i f j where u: "ids ! m = (e, i)" "ids ! n = (f, j)" by (metis surj_pair)
    have len: "length (sent_ivs evs) = length ids" by (rule list_all2_lengthD[OF l(3)])
    have v: "e = unat a" "iv = session_iv hm kt ?es a i" "f = unat b" "iv' = session_iv hm kt ?es b j"
      using list_all2_nthD[OF l(3) mn(1)] list_all2_nthD[OF l(3) mn(2)] t u by auto
    have "(e, i) \<in> set ids" "(f, j) \<in> set ids" using u mn len by (metis nth_mem)+
    then have ij: "i \<le> PACKET_ID_EPOCH_MAX" "j \<le> PACKET_ID_EPOCH_MAX" using l(2) by auto
    have ne: "(e, i) \<noteq> (f, j)" using l(1) mn len u by (metis nth_eq_iff_index_eq)
    show "sent_ivs evs ! m \<noteq> sent_ivs evs ! n"
    proof
      assume "sent_ivs evs ! m = sent_ivs evs ! n"
      then have "a = b" "session_iv hm kt ?es a i = session_iv hm kt ?es a j" using t v by auto
      moreover from this(2) have "i = j" by (rule session_iv_inj[OF s(1,2) ij])
      ultimately show False using ne v by simp
    qed
  qed
qed

theorem data_channel_ivs_unique_witness:
  "distinct (sent_ivs demo_events) \<and> sent_ivs demo_events = [(1, [0, 1, 0, 0, 0, 0, 0, 1, 0, 0, 0, 0])]"
proof -
  obtain co where r: "run_ops (data_step demo_hmac) (demo_co False) demo_data_ops = Some (demo_events, co)" using demo_run by blast
  have "sent_ivs demo_events = [(1, [0, 1, 0, 0, 0, 0, 0, 1, 0, 0, 0, 0])]" by code_simp
  then show ?thesis using data_channel_ivs_unique[OF demo_session(2) demo_start demo_legal r] by simp
qed

text \<open>C13: In every reachable state the receive key, the keys behind it, the retiring key and the send
  key are the keys of their epochs: the future keys follow the receive key without a gap, the
  retiring key is older, and the send key is not.\<close>

theorem data_keys_in_step:
  assumes "session_ok hm flags w kt key2" "session_start hm flags w tb kt server key2 = Some co0"
    and "\<forall>op \<in> set ops. data_legal op" "run_ops (data_step hm) co0 ops = Some (evs, co)"
  shows "epoch_inv hm kt (send_secret server key2) (recv_secret server key2) co"
  by (rule session_run[OF assms]) (simp add: data_inv_def)

theorem data_keys_in_step_witness:
  "\<exists>co. run_ops (data_step demo_hmac) (demo_co False) demo_data_ops = Some (demo_events, co)
     \<and> epoch_inv demo_hmac demo_kt (send_secret False demo_key2) (recv_secret False demo_key2) co"
proof -
  obtain co where r: "run_ops (data_step demo_hmac) (demo_co False) demo_data_ops = Some (demo_events, co)" using demo_run by blast
  then show ?thesis using data_keys_in_step[OF demo_session(2) demo_start demo_legal r] by blast
qed

text \<open>C14: No datagram stops the process except an authentic one of the last epoch for which a key is
  kept: a run that fails an assertion ends in such a datagram.\<close>

theorem data_channel_stops_only:
  assumes "session_ok hm flags w kt key2" "session_start hm flags w tb kt server key2 = Some co0"
    and "\<forall>op \<in> set ops. data_legal op" "run_ops (data_step hm) co0 ops = None"
  shows "\<exists>ops1 op ops2 evs co. ops = ops1 @ op # ops2 \<and> run_ops (data_step hm) co0 ops1 = Some (evs, co)
    \<and> jump_packet hm kt (recv_secret server key2) co op"
proof -
  obtain pid where p: "packet_id_init w tb = Some pid" using assms(2) by (auto simp: session_start_def split: option.splits)
  have i: "data_inv hm kt (send_secret server key2) (recv_secret server key2) {} {} co0"
    using session_starts[OF assms(1) p, of server] assms(2) by (metis option.inject)
  have k: "session_kt kt" using assms(1) by (simp add: session_ok_def)
  show ?thesis by (rule data_run_stops[OF session_setup[OF assms(1)] k i assms(3,4)])
qed

definition demo_jump :: data_op where
  "demo_jump = Op_Receive 1000 0 0 (demo_dbuf 0 ([0, 17, 0, 0, 0, 0, 0, 1] @ [69, 0] @ replicate 16 0)) (demo_dbuf 0 [])"

theorem data_channel_stops_only_witness:
  "\<exists>ops1 op ops2 evs co. [demo_jump] = ops1 @ op # ops2 \<and> run_ops (data_step demo_hmac) (demo_co True) ops1 = Some (evs, co)
    \<and> jump_packet demo_hmac demo_kt (recv_secret True demo_key2) co op"
proof (rule data_channel_stops_only[OF demo_session(2) demo_start])
  show "\<forall>op \<in> set [demo_jump]. data_legal op" by code_simp
  show "run_ops (data_step demo_hmac) (demo_co True) [demo_jump] = None" by code_simp
qed

text \<open>C15: An authentic datagram of the last epoch for which a key is kept stops the process: it is
  decrypted, and then the assertion of \<^verbatim>\<open>epoch_generate_future_receive_keys\<close> fails.\<close>

theorem epoch_jump_to_last_crashes:
  assumes s: "session_ok hm flags w kt key2" "session_start hm flags w tb kt server key2 = Some co0"
    "\<forall>op \<in> set ops. data_legal op" "run_ops (data_step hm) co0 ops = Some (evs, co)"
    and legal: "data_legal (Op_Receive now headroom ad_start b work)"
    and pk: "content b = session_packet hm kt (recv_secret server key2) (bytes_before b ad_start) pid p" "length pid = 8" "p \<noteq> []"
    and ep: "wire_epoch pid = kc_epoch (decrypt_ctx co) + of_nat (length (epoch_data_keys_future co))"
      "epoch_of (decrypt_ctx co) + 2 * length (epoch_data_keys_future co) \<le> 65534"
    and ok: "\<not> cipher_decrypt_verify_fail_exceeded (last (epoch_data_keys_future co))"
    and room: "\<And>c. kt_cipher kt = Some c \<Longrightarrow> headroom + bf_len b + ck_block_size c \<le> bf_cap work"
  shows "openvpn_decrypt hm now headroom ad_start b work co = None"
proof -
  obtain ids where i: "epoch_setup hm kt (send_secret server key2) (recv_secret server key2)" "session_kt kt"
    "data_inv hm kt (send_secret server key2) (recv_secret server key2) (set (delivered_ids evs)) (set ids) co"
    by (rule session_run[OF s])
  have ei: "epoch_inv hm kt (send_secret server key2) (recv_secret server key2) co" using i(3) by (simp add: data_inv_def)
  note d = epoch_invD[OF ei]
  define n where "n = length (epoch_data_keys_future co)"
  have n0: "0 < n" using d(3) by (simp add: n_def)
  have u: "unat (wire_epoch pid) = epoch_of (decrypt_ctx co) + n"
  proof -
    have "unat (of_nat n :: u16) = n" using ep(2) by (intro u16_of_nat) (simp add: n_def)
    then have "unat (wire_epoch pid) = (epoch_of (decrypt_ctx co) + n) mod 65536"
      unfolding ep(1) n_def[symmetric] by (simp add: unat_word_ariths)
    then show ?thesis using ep(2) by (simp add: n_def)
  qed
  have r: "epoch_of (epoch_retiring_key co) < epoch_of (decrypt_ctx co)" using d(4,12) by auto
  have ne: "kc_epoch (decrypt_ctx co) \<noteq> wire_epoch pid" "kc_epoch (epoch_retiring_key co) \<noteq> wire_epoch pid" "wire_epoch pid \<noteq> 0"
    using u n0 r by auto
  have l: "epoch_lookup_decrypt_key co (wire_epoch pid) = Some (Slot_Future (n - 1))"
    unfolding lookup_cases Let_def n_def[symmetric] u using ne n0 ep(2) by (simp add: n_def)
  have "slot_ctx co (Slot_Future (n - 1)) = last (epoch_data_keys_future co)"
    using n0 by (simp add: slot_ctx_def n_def last_conv_nth)
  then have f: "\<not> cipher_decrypt_verify_fail_exceeded (slot_ctx co (Slot_Future (n - 1)))" using ok by simp
  have "epoch_replace_update_recv_key hm co (wire_epoch pid) = None" using jump_to_last[OF i(1) ei] u by (simp add: n_def)
  then have "crypto_check_replay hm now co (wire_pin pid) (wire_epoch pid) = None"
    unfolding crypto_check_replay_def Let_def using ne by simp
  then show ?thesis
    using authentic_checked[OF i legal pk ne(3) l f room] by (simp add: checked_def)
qed

theorem epoch_jump_to_last_crashes_witness:
  "openvpn_decrypt demo_hmac 1000 0 0 (demo_dbuf 0 ([0, 17, 0, 0, 0, 0, 0, 1] @ [69, 0] @ replicate 16 0)) (demo_dbuf 0 []) (demo_co True) = None"
proof (rule epoch_jump_to_last_crashes[OF demo_session(2) demo_start, where ops = "[]" and pid = "[0, 17, 0, 0, 0, 0, 0, 1]" and p = "[69, 0]"])
  show "\<forall>op \<in> set []. data_legal op" "run_ops (data_step demo_hmac) (demo_co True) [] = Some ([], demo_co True)" by simp_all
  show "data_legal (Op_Receive 1000 0 0 (demo_dbuf 0 ([0, 17, 0, 0, 0, 0, 0, 1] @ [69, 0] @ replicate 16 0)) (demo_dbuf 0 []))" by code_simp
  show "content (demo_dbuf 0 ([0, 17, 0, 0, 0, 0, 0, 1] @ [69, 0] @ replicate 16 0)) =
    session_packet demo_hmac demo_kt (recv_secret True demo_key2)
      (bytes_before (demo_dbuf 0 ([0, 17, 0, 0, 0, 0, 0, 1] @ [69, 0] @ replicate 16 0)) 0) [0, 17, 0, 0, 0, 0, 0, 1] [69, 0]" by code_simp
  show "length [0, 17, 0, 0, 0, 0, 0, 1 :: byte] = 8" "[69, 0 :: byte] \<noteq> []" by simp_all
  show "wire_epoch [0, 17, 0, 0, 0, 0, 0, 1] = kc_epoch (decrypt_ctx (demo_co True)) + of_nat (length (epoch_data_keys_future (demo_co True)))"
    by code_simp
  show "epoch_of (decrypt_ctx (demo_co True)) + 2 * length (epoch_data_keys_future (demo_co True)) \<le> 65534"
  proof -
    have "kc_epoch (decrypt_ctx (demo_co True)) = 1" "length (epoch_data_keys_future (demo_co True)) = 16" by code_simp+
    then show ?thesis by simp
  qed
  show "\<not> cipher_decrypt_verify_fail_exceeded (last (epoch_data_keys_future (demo_co True)))" by code_simp
  show "0 + bf_len (demo_dbuf 0 ([0, 17, 0, 0, 0, 0, 0, 1] @ [69, 0] @ replicate 16 0)) + ck_block_size c \<le> bf_cap (demo_dbuf 0 [])"
    if "kt_cipher demo_kt = Some c" for c
    using that by (auto simp: demo_kt_def demo_cipher_def demo_dbuf_def)
qed

text \<open>C12: What one end seals the other end opens: when the receiver has a key for the epoch of the
  packet, the packet passes exactly if the replay check lets its packet id pass, and then the
  plaintext is the one that was sent.\<close>

theorem data_packet_roundtrip:
  assumes sa: "session_ok hm flags w kt key2" "session_start hm flags w tb kt server key2 = Some coa0"
      "\<forall>op \<in> set opsa. data_legal op" "run_ops (data_step hm) coa0 opsa = Some (evsa, coa)"
    and sb: "session_start hm flags w tb kt (\<not> server) key2 = Some cob0"
      "\<forall>op \<in> set opsb. data_legal op" "run_ops (data_step hm) cob0 opsb = Some (evsb, cob)"
    and send: "data_legal (Op_Send now b work)" "openvpn_encrypt hm now [] b work coa = Some (out, coa')" "0 < bf_len out"
    and recv: "data_legal (Op_Receive now' headroom ad_start b' work')"
      "content b' = drop (length (content work)) (content out)" "bytes_before b' ad_start = content work"
    and key: "epoch_lookup_decrypt_key cob (wire_epoch (take 8 (content b'))) = Some slot"
      "\<not> cipher_decrypt_verify_fail_exceeded (slot_ctx cob slot)"
    and room: "\<And>c. kt_cipher kt = Some c \<Longrightarrow> headroom + bf_len b' + ck_block_size c \<le> bf_cap work'"
  shows "case crypto_check_replay hm now' cob (wire_pin (take 8 (content b'))) (wire_epoch (take 8 (content b'))) of
      None \<Rightarrow> openvpn_decrypt hm now' headroom ad_start b' work' cob = None
    | Some (ok, cob1) \<Rightarrow> \<exists>plain cob2. openvpn_decrypt hm now' headroom ad_start b' work' cob = Some (ok, plain, cob2)
        \<and> (ok \<longrightarrow> content plain = content b)"
proof -
  obtain idsa where a: "epoch_setup hm kt (send_secret server key2) (recv_secret server key2)" "session_kt kt"
    "data_inv hm kt (send_secret server key2) (recv_secret server key2) (set (delivered_ids evsa)) (set idsa) coa"
    by (rule session_run[OF sa])
  obtain idsb where i: "epoch_setup hm kt (send_secret (\<not> server) key2) (recv_secret (\<not> server) key2)"
    "data_inv hm kt (send_secret (\<not> server) key2) (recv_secret (\<not> server) key2) (set (delivered_ids evsb)) (set idsb) cob"
    by (rule session_run[OF sa(1) sb])
  have same: "recv_secret (\<not> server) key2 = send_secret server key2" by (simp add: recv_secret_def)
  obtain pid where f: "length pid = 8" "content out = content work @ session_packet hm kt (send_secret server key2) (content work) pid (content b)"
    "wire_epoch pid \<noteq> 0"
    using send_packet_form[OF a send] by metis
  have cb: "content b' = session_packet hm kt (recv_secret (\<not> server) key2) (bytes_before b' ad_start) pid (content b)"
    unfolding recv(2) f(2) recv(3) same by simp
  obtain c k where ck: "kc_cipher (data_key hm kt (recv_secret (\<not> server) key2) (unat (wire_epoch pid))) = Some (c, k)"
    using data_key_cipher[OF i(1) a(2), of "recv_secret (\<not> server) key2" "unat (wire_epoch pid)"] by metis
  have t8: "take 8 (content b') = pid" unfolding cb by (rule packet_front[OF f(1)]) (use ck in simp)
  have pn: "content b \<noteq> []" using send(1) bf_len_content[of b] by auto
  note ch = authentic_checked[OF i(1) a(2) i(2) recv(1) cb f(1) pn f(3) key[unfolded t8] room]
  show ?thesis unfolding t8
  proof (cases "crypto_check_replay hm now' cob (wire_pin pid) (wire_epoch pid)")
    case None
    then show "case crypto_check_replay hm now' cob (wire_pin pid) (wire_epoch pid) of
      None \<Rightarrow> openvpn_decrypt hm now' headroom ad_start b' work' cob = None
    | Some (ok, cob1) \<Rightarrow> \<exists>plain cob2. openvpn_decrypt hm now' headroom ad_start b' work' cob = Some (ok, plain, cob2)
        \<and> (ok \<longrightarrow> content plain = content b)" using ch by (simp add: checked_def)
  next
    case (Some x)
    then show "case crypto_check_replay hm now' cob (wire_pin pid) (wire_epoch pid) of
      None \<Rightarrow> openvpn_decrypt hm now' headroom ad_start b' work' cob = None
    | Some (ok, cob1) \<Rightarrow> \<exists>plain cob2. openvpn_decrypt hm now' headroom ad_start b' work' cob = Some (ok, plain, cob2)
        \<and> (ok \<longrightarrow> content plain = content b)" using ch by (cases x; cases "fst x") (auto simp: checked_def)
  qed
qed

lemma demo_seal:
  obtains out coa where "openvpn_encrypt demo_hmac 1000 [] (demo_dbuf 0 [69, 0]) (demo_dbuf 0 []) (demo_co False) = Some (out, coa)"
    "content out = demo_packet" "0 < bf_len out"
proof -
  have "map_option (\<lambda>(out, coa). (content out, 0 < bf_len out))
      (openvpn_encrypt demo_hmac 1000 [] (demo_dbuf 0 [69, 0]) (demo_dbuf 0 []) (demo_co False)) = Some (demo_packet, True)"
    by code_simp
  then show thesis using that by auto
qed

theorem data_packet_roundtrip_witness:
  "\<exists>plain cob. openvpn_decrypt demo_hmac 1000 0 0 (demo_dbuf 0 demo_packet) (demo_dbuf 0 []) (demo_co True) = Some (True, plain, cob)
     \<and> content plain = [69, 0]"
proof -
  obtain out coa where o: "openvpn_encrypt demo_hmac 1000 [] (demo_dbuf 0 [69, 0]) (demo_dbuf 0 []) (demo_co False) = Some (out, coa)"
    "content out = demo_packet" "0 < bf_len out" by (rule demo_seal)
  have run: "run_ops (data_step demo_hmac) (demo_co s) [] = Some ([], demo_co s)" for s by simp
  have no: "\<forall>op \<in> set []. data_legal op" by simp
  have legal: "data_legal (Op_Send 1000 (demo_dbuf 0 [69, 0]) (demo_dbuf 0 []))"
    "data_legal (Op_Receive 1000 0 0 (demo_dbuf 0 demo_packet) (demo_dbuf 0 []))" by code_simp+
  have e: "content (demo_dbuf 0 []) = []" "content (demo_dbuf 0 demo_packet) = demo_packet" "bytes_before (demo_dbuf 0 demo_packet) 0 = []"
    "content (demo_dbuf 0 [69, 0]) = [69, 0]" by code_simp+
  have key: "epoch_lookup_decrypt_key (demo_co True) (wire_epoch (take 8 demo_packet)) = Some Slot_Decrypt" by code_simp
  have lim: "\<not> cipher_decrypt_verify_fail_exceeded (slot_ctx (demo_co True) Slot_Decrypt)" by code_simp
  have room: "0 + bf_len (demo_dbuf 0 demo_packet) + ck_block_size c \<le> bf_cap (demo_dbuf 0 [])" if "kt_cipher demo_kt = Some c" for c
    using that by (auto simp: demo_kt_def demo_cipher_def demo_dbuf_def demo_packet_def)
  have st: "session_start demo_hmac 0x100 4 0 demo_kt (\<not> False) demo_key2 = Some (demo_co True)" using demo_start by simp
  have rp: "map_option fst (crypto_check_replay demo_hmac 1000 (demo_co True) (wire_pin (take 8 demo_packet)) (wire_epoch (take 8 demo_packet))) = Some True"
    by code_simp
  have f: "content (demo_dbuf 0 demo_packet) = drop (length (content (demo_dbuf 0 []))) (content out)"
    "bytes_before (demo_dbuf 0 demo_packet) 0 = content (demo_dbuf 0 [])" by (simp_all add: e o(2))
  have key': "epoch_lookup_decrypt_key (demo_co True) (wire_epoch (take 8 (content (demo_dbuf 0 demo_packet)))) = Some Slot_Decrypt"
    unfolding e(2) by (rule key)
  show ?thesis
    using data_packet_roundtrip[OF demo_session(2) demo_start no run st no run legal(1) o(1,3) legal(2) f key' lim room, unfolded e(2,4)] rp
    by (auto split: option.splits)
qed

end
