(* ===== verification/Otime.thy ===== *)
theory Otime
  imports Ovpn_Prelude
begin

text \<open>
  Time: the clock and the \<^verbatim>\<open>struct timeval\<close> arithmetic of \<^verbatim>\<open>otime.h\<close> and \<^verbatim>\<open>otime.c\<close>,
  the periodic timers of \<^verbatim>\<open>interval.h\<close> and \<^verbatim>\<open>interval.c\<close>, and the wake-up computation of
  \<^verbatim>\<open>shaper.c\<close>. Seconds are a 64-bit \<^verbatim>\<open>time_t\<close>, modelled as \<^typ>\<open>int\<close>; the places where
  the source narrows them to \<^verbatim>\<open>int\<close> go through \<open>to_int32\<close>. The global variables
  \<^verbatim>\<open>now\<close>, \<^verbatim>\<open>now_usec\<close> and \<^verbatim>\<open>now_adj\<close> are the record \<open>clock\<close>; a function that only
  reads \<^verbatim>\<open>now\<close> takes it as an argument.
\<close>

unbundle bit_operations_syntax

section \<open>The clock\<close>

record clock =
  ck_now :: int
  ck_usec :: int
  ck_adj :: int

definition update_now :: "int \<Rightarrow> clock \<Rightarrow> clock" where
  "update_now system_time c =
     (let real_time = system_time + ck_adj c in
      if real_time > ck_now c
      then let overshoot = real_time - ck_now c - 1 in
           if overshoot > 86400 \<and> ck_adj c \<ge> overshoot
           then c\<lparr>ck_adj := ck_adj c - overshoot, ck_now := real_time - overshoot\<rparr>
           else c\<lparr>ck_now := real_time\<rparr>
      else if real_time < ck_now c - 10
      then c\<lparr>ck_adj := ck_adj c + (ck_now c - real_time)\<rparr>
      else c)"

section \<open>\<^verbatim>\<open>struct timeval\<close>\<close>

datatype timeval = Timeval (tv_sec: int) (tv_usec: int)

definition update_now_usec :: "timeval \<Rightarrow> clock \<Rightarrow> clock" where
  "update_now_usec tv c =
     (let lst = ck_now c; c1 = update_now (tv_sec tv) c in
      if ck_now c1 > lst \<or> ck_now c1 = lst \<and> tv_usec tv > ck_usec c1
      then c1\<lparr>ck_usec := tv_usec tv\<rparr> else c1)"

text \<open>A successful \<^verbatim>\<open>gettimeofday\<close>, whose result is the argument.\<close>

definition openvpn_gettimeofday :: "timeval \<Rightarrow> clock \<Rightarrow> timeval \<times> clock" where
  "openvpn_gettimeofday sys c =
     (let c1 = update_now_usec sys c in (Timeval (ck_now c1) (ck_usec c1), c1))"

definition update_time :: "int \<Rightarrow> clock \<Rightarrow> clock" where
  "update_time sys c = (update_now sys c)\<lparr>ck_usec := 0\<rparr>"

definition openvpn_time :: "int \<Rightarrow> clock \<Rightarrow> int \<times> clock" where
  "openvpn_time sys c = (let c1 = update_time sys c in (ck_now c1, c1))"

definition tv_clear :: timeval where "tv_clear = Timeval 0 0"

definition tv_defined :: "timeval \<Rightarrow> bool" where
  "tv_defined tv \<longleftrightarrow> tv_sec tv > 0 \<and> tv_usec tv > 0"

definition tv_subtract :: "timeval \<Rightarrow> timeval \<Rightarrow> int \<Rightarrow> int" where
  "tv_subtract tv1 tv2 max_seconds =
     (let max_usec = max_seconds * 1000000;
          sec_diff = to_int32 (tv_sec tv1 - tv_sec tv2) in
      if sec_diff > max_seconds + 10 then max_usec
      else if sec_diff < - (max_seconds + 10) then - max_usec
      else constrain_int (sec_diff * 1000000 + (tv_usec tv1 - tv_usec tv2)) (- max_usec) max_usec)"

definition tv_add :: "timeval \<Rightarrow> timeval \<Rightarrow> timeval" where
  "tv_add dest src =
     (let sec = tv_sec dest + tv_sec src;
          usec = tv_usec dest + tv_usec src;
          sec1 = sec + drop_bit 20 usec;
          usec1 = usec AND 0x000FFFFF in
      if usec1 \<ge> 1000000 then Timeval (sec1 + 1) (usec1 - 1000000) else Timeval sec1 usec1)"

definition tv_lt :: "timeval \<Rightarrow> timeval \<Rightarrow> bool" where
  "tv_lt t1 t2 = (if tv_sec t1 < tv_sec t2 then True
                  else if tv_sec t1 > tv_sec t2 then False else tv_usec t1 < tv_usec t2)"

definition tv_le :: "timeval \<Rightarrow> timeval \<Rightarrow> bool" where
  "tv_le t1 t2 = (if tv_sec t1 < tv_sec t2 then True
                  else if tv_sec t1 > tv_sec t2 then False else tv_usec t1 \<le> tv_usec t2)"

definition tv_ge :: "timeval \<Rightarrow> timeval \<Rightarrow> bool" where
  "tv_ge t1 t2 = (if tv_sec t1 > tv_sec t2 then True
                  else if tv_sec t1 < tv_sec t2 then False else tv_usec t1 \<ge> tv_usec t2)"

definition tv_gt :: "timeval \<Rightarrow> timeval \<Rightarrow> bool" where
  "tv_gt t1 t2 = (if tv_sec t1 > tv_sec t2 then True
                  else if tv_sec t1 < tv_sec t2 then False else tv_usec t1 > tv_usec t2)"

definition tv_eq :: "timeval \<Rightarrow> timeval \<Rightarrow> bool" where
  "tv_eq t1 t2 \<longleftrightarrow> tv_sec t1 = tv_sec t2 \<and> tv_usec t1 = tv_usec t2"

text \<open>The borrow loop of \<^verbatim>\<open>tv_delta\<close>.\<close>

function tv_borrow :: "int \<Rightarrow> int \<Rightarrow> int \<times> int" where
  "tv_borrow sec usec = (if usec < 0 then tv_borrow (sec - 1) (usec + 1000000) else (sec, usec))"
  by pat_completeness auto
termination
  by (relation "measure (\<lambda>(sec, usec). nat (- usec))") auto

declare tv_borrow.simps [simp del]

definition tv_delta :: "timeval \<Rightarrow> timeval \<Rightarrow> timeval" where
  "tv_delta t1 t2 =
     (case tv_borrow (to_int32 (tv_sec t2 - tv_sec t1)) (to_int32 (tv_usec t2 - tv_usec t1)) of
        (sec, usec) \<Rightarrow> if sec < 0 then Timeval 0 0 else Timeval sec usec)"

definition TV_WITHIN_SIGMA_MAX_SEC :: int where "TV_WITHIN_SIGMA_MAX_SEC = 600"

definition tv_within_sigma :: "timeval \<Rightarrow> timeval \<Rightarrow> u32 \<Rightarrow> bool" where
  "tv_within_sigma t1 t2 sigma \<longleftrightarrow>
     (let delta = tv_subtract t1 t2 TV_WITHIN_SIGMA_MAX_SEC in
      - sint sigma \<le> delta \<and> delta \<le> sint sigma)"

definition interval_earliest_wakeup :: "int \<Rightarrow> int \<Rightarrow> int \<Rightarrow> int" where
  "interval_earliest_wakeup wakeup at current =
     (if at > current
      then let delta = to_int32 (at - current);
               w = (if delta < wakeup then delta else wakeup)
           in if w < 0 then 0 else w
      else wakeup)"

section \<open>Rate limit\<close>

record frequency_limit =
  fl_max :: int
  fl_per :: int
  fl_n :: int
  fl_reset :: int

definition frequency_limit_init :: "int \<Rightarrow> int \<Rightarrow> frequency_limit option" where
  "frequency_limit_init mx per =
     (if \<not> (mx \<ge> 0 \<and> per \<ge> 0) then None
      else Some \<lparr>fl_max = mx, fl_per = per, fl_n = 0, fl_reset = 0\<rparr>)"

definition frequency_limit_event_allowed :: "int \<Rightarrow> frequency_limit \<Rightarrow> bool \<times> frequency_limit" where
  "frequency_limit_event_allowed t f =
     (if fl_per f \<noteq> 0
      then let f1 = (if t \<ge> fl_reset f + fl_per f then f\<lparr>fl_reset := t, fl_n := 0\<rparr> else f);
               f2 = f1\<lparr>fl_n := fl_n f1 + 1\<rparr>
           in (fl_n f2 \<le> fl_max f2, f2)
      else (True, f))"

section \<open>Timers\<close>

record interval =
  refresh :: int
  horizon :: int
  future_trigger :: int
  last_action :: int
  last_test_true :: int

definition interval_init :: "int \<Rightarrow> int \<Rightarrow> interval" where
  "interval_init hor ref =
     \<lparr>refresh = ref, horizon = hor, future_trigger = 0, last_action = 0, last_test_true = 0\<rparr>"

definition interval_test :: "int \<Rightarrow> interval \<Rightarrow> bool \<times> interval" where
  "interval_test t iv =
     (let fired = future_trigger iv \<noteq> 0 \<and> t \<ge> future_trigger iv;
          iv1 = (if fired then iv\<lparr>future_trigger := 0\<rparr> else iv) in
      if last_action iv1 + horizon iv1 > t \<or> last_test_true iv1 + refresh iv1 \<le> t \<or> fired
      then (True, iv1\<lparr>last_test_true := t\<rparr>) else (False, iv1))"

definition interval_schedule_wakeup :: "int \<Rightarrow> interval \<Rightarrow> int \<Rightarrow> int" where
  "interval_schedule_wakeup t iv wakeup =
     interval_earliest_wakeup
       (interval_earliest_wakeup wakeup (last_test_true iv + refresh iv) t) (future_trigger iv) t"

definition interval_future_trigger :: "int \<Rightarrow> interval \<Rightarrow> int \<Rightarrow> interval" where
  "interval_future_trigger t iv wakeup =
     (if wakeup \<noteq> 0 then iv\<lparr>future_trigger := t + wakeup\<rparr> else iv)"

definition interval_action :: "int \<Rightarrow> interval \<Rightarrow> interval" where
  "interval_action t iv = iv\<lparr>last_action := t\<rparr>"

record event_timeout =
  et_defined :: bool
  et_n :: int
  et_last :: int

definition event_timeout_defined :: "event_timeout \<Rightarrow> bool" where
  "event_timeout_defined et = et_defined et"

definition event_timeout_clear :: event_timeout where
  "event_timeout_clear = \<lparr>et_defined = False, et_n = 0, et_last = 0\<rparr>"

definition event_timeout_init :: "int \<Rightarrow> int \<Rightarrow> event_timeout" where
  "event_timeout_init n lst = \<lparr>et_defined = True, et_n = (if n \<ge> 0 then n else 0), et_last = lst\<rparr>"

definition event_timeout_reset :: "int \<Rightarrow> event_timeout \<Rightarrow> event_timeout" where
  "event_timeout_reset t et = (if et_defined et then et\<lparr>et_last := t\<rparr> else et)"

definition event_timeout_modify_wakeup :: "event_timeout \<Rightarrow> int \<Rightarrow> event_timeout" where
  "event_timeout_modify_wakeup et n =
     (if et_defined et then et\<lparr>et_n := (if n \<ge> 0 then n else 0)\<rparr> else et)"

definition event_timeout_remaining :: "int \<Rightarrow> event_timeout \<Rightarrow> int" where
  "event_timeout_remaining t et = to_int32 ((et_last et + et_n et) - t)"

definition ETT_DEFAULT :: int where "ETT_DEFAULT = - 1"

text \<open>\<open>tv\<close> is \<^verbatim>\<open>NULL\<close> or the time the event loop would sleep.\<close>

definition event_timeout_trigger ::
  "int \<Rightarrow> event_timeout \<Rightarrow> timeval option \<Rightarrow> int \<Rightarrow> bool \<times> event_timeout \<times> timeval option" where
  "event_timeout_trigger t et tv et_const_retry =
     (if \<not> et_defined et then (False, et, tv)
      else
        let wakeup0 = event_timeout_remaining t et;
            (ret, et', wakeup) =
              (if wakeup0 \<le> 0
               then if et_const_retry < 0 then (True, et\<lparr>et_last := t\<rparr>, et_n et)
                    else (False, et, et_const_retry)
               else (False, et, wakeup0))
        in (ret, et',
            case tv of
              None \<Rightarrow> None
            | Some v \<Rightarrow> if wakeup < tv_sec v then Some (Timeval wakeup 0) else Some v))"

record usec_timer =
  ut_start :: timeval
  ut_end :: timeval

definition USEC_TIMER_MAX :: int where "USEC_TIMER_MAX = 60"

definition usec_timer_start :: "timeval \<Rightarrow> clock \<Rightarrow> usec_timer \<times> clock" where
  "usec_timer_start sys c =
     (case openvpn_gettimeofday sys c of (tv, c') \<Rightarrow> (\<lparr>ut_start = tv, ut_end = tv_clear\<rparr>, c'))"

definition usec_timer_end :: "timeval \<Rightarrow> usec_timer \<Rightarrow> clock \<Rightarrow> usec_timer \<times> clock" where
  "usec_timer_end sys obj c =
     (case openvpn_gettimeofday sys c of (tv, c') \<Rightarrow> (obj\<lparr>ut_end := tv\<rparr>, c'))"

definition usec_timer_interval_defined :: "usec_timer \<Rightarrow> bool" where
  "usec_timer_interval_defined obj \<longleftrightarrow> tv_sec (ut_start obj) \<noteq> 0 \<and> tv_sec (ut_end obj) \<noteq> 0"

definition usec_timer_interval :: "usec_timer \<Rightarrow> int" where
  "usec_timer_interval obj = tv_subtract (ut_end obj) (ut_start obj) USEC_TIMER_MAX"

section \<open>Traffic shaper\<close>

definition shaper_soonest_event :: "timeval \<Rightarrow> int \<Rightarrow> bool \<times> timeval" where
  "shaper_soonest_event tv delay =
     (if delay < 1000000
      then (if tv_sec tv \<noteq> 0 then (True, Timeval 0 delay)
            else if delay < tv_usec tv then (True, Timeval (tv_sec tv) delay)
            else (False, tv))
      else
        let sec = delay div 1000000; usec = delay mod 1000000 in
        if sec < tv_sec tv then (True, Timeval sec usec)
        else if sec = tv_sec tv
        then (if usec < tv_usec tv then (True, Timeval (tv_sec tv) usec) else (False, tv))
        else (False, tv))"

definition SHAPER_MAX_TIMEOUT :: int where "SHAPER_MAX_TIMEOUT = 10"

text \<open>\<^verbatim>\<open>s->wakeup\<close> is the first argument, the reading of the clock the second.\<close>

definition shaper_delay :: "timeval \<Rightarrow> timeval \<Rightarrow> int" where
  "shaper_delay wakeup tv =
     (let delay = (if tv_defined wakeup then tv_subtract wakeup tv SHAPER_MAX_TIMEOUT else 0)
      in if delay > 0 then delay else 0)"

section \<open>The order on \<^verbatim>\<open>timeval\<close>\<close>

instantiation timeval :: linorder
begin

definition less_timeval :: "timeval \<Rightarrow> timeval \<Rightarrow> bool" where
  "less_timeval = tv_lt"

definition less_eq_timeval :: "timeval \<Rightarrow> timeval \<Rightarrow> bool" where
  "less_eq_timeval = tv_le"

instance
  by intro_classes
    (auto simp: less_timeval_def less_eq_timeval_def tv_lt_def tv_le_def timeval.expand split: if_splits)

end

lemmas tv_order_defs = less_timeval_def less_eq_timeval_def tv_lt_def tv_le_def

lemma timeval_less [simp]: "Timeval a b < Timeval c d \<longleftrightarrow> a < c \<or> a = c \<and> b < d"
  by (simp add: tv_order_defs)

lemma timeval_le [simp]: "Timeval a b \<le> Timeval c d \<longleftrightarrow> a < c \<or> a = c \<and> b \<le> d"
  by (simp add: tv_order_defs)

lemma tv_ge_gt_eq: "tv_ge = (\<ge>)" "tv_gt = (>)" "tv_eq = (=)"
  by (auto simp: fun_eq_iff tv_ge_def tv_gt_def tv_eq_def tv_order_defs timeval.expand)

definition tv_norm :: "timeval \<Rightarrow> bool" where
  "tv_norm tv \<longleftrightarrow> 0 \<le> tv_usec tv \<and> tv_usec tv < 1000000"

definition tv_us :: "timeval \<Rightarrow> int" where
  "tv_us tv = tv_sec tv * 1000000 + tv_usec tv"

lemma update_now_mono: "ck_now c \<le> ck_now (update_now s c)"
  by (auto simp: update_now_def Let_def)

lemma update_now_usec_frame: "ck_usec (update_now s c) = ck_usec c"
  by (auto simp: update_now_def Let_def)

lemma gettimeofday_mono:
  assumes "openvpn_gettimeofday sys c = (tv, c')"
  shows "Timeval (ck_now c) (ck_usec c) \<le> tv \<and> tv = Timeval (ck_now c') (ck_usec c')"
  using assms update_now_mono [of c "tv_sec sys"]
  by (auto simp: openvpn_gettimeofday_def update_now_usec_def Let_def update_now_usec_frame)

text \<open>
  The readings of the clock a program takes: \<open>Get_Time\<close> is a call of \<^verbatim>\<open>openvpn_gettimeofday\<close>,
  \<open>Update_Time\<close> one of \<^verbatim>\<open>update_time\<close> or \<^verbatim>\<open>openvpn_time\<close>; the argument is what the system clock said.
  The reading after a call is \<^verbatim>\<open>now\<close> and \<^verbatim>\<open>now_usec\<close>.
\<close>

datatype clock_op = Get_Time timeval | Update_Time int

fun clock_step :: "clock_op \<Rightarrow> clock \<Rightarrow> timeval \<times> clock" where
  "clock_step (Get_Time sys) c = openvpn_gettimeofday sys c"
| "clock_step (Update_Time sys) c = (let c1 = update_time sys c in (Timeval (ck_now c1) (ck_usec c1), c1))"

fun clock_readings :: "clock \<Rightarrow> clock_op list \<Rightarrow> timeval list" where
  "clock_readings c [] = []"
| "clock_readings c (x # xs) = (case clock_step x c of (tv, c') \<Rightarrow> tv # clock_readings c' xs)"

fun clock_op_ok :: "clock_op \<Rightarrow> bool" where
  "clock_op_ok (Get_Time sys) \<longleftrightarrow> tv_norm sys"
| "clock_op_ok (Update_Time sys) \<longleftrightarrow> True"

fun is_get :: "clock_op \<Rightarrow> bool" where
  "is_get (Get_Time sys) \<longleftrightarrow> True"
| "is_get (Update_Time sys) \<longleftrightarrow> False"

lemma clock_step_reading:
  assumes "clock_step x c = (tv, c')" "clock_op_ok x" "tv_norm (Timeval (ck_now c) (ck_usec c))"
  shows "tv = Timeval (ck_now c') (ck_usec c')" "ck_now c \<le> ck_now c'" "tv_norm tv"
    "is_get x \<Longrightarrow> Timeval (ck_now c) (ck_usec c) \<le> tv"
proof -
  show tv: "tv = Timeval (ck_now c') (ck_usec c')"
    using assms(1) by (cases x) (auto simp: openvpn_gettimeofday_def Let_def)
  show "ck_now c \<le> ck_now c'"
    using assms(1) by (cases x) (auto simp: openvpn_gettimeofday_def update_now_usec_def update_time_def Let_def update_now_mono)
  show "tv_norm tv"
    using assms by (cases x) (auto simp: openvpn_gettimeofday_def update_now_usec_def update_time_def Let_def tv_norm_def
        update_now_usec_frame)
  show "Timeval (ck_now c) (ck_usec c) \<le> tv" if "is_get x"
    using assms(1) that gettimeofday_mono by (cases x) auto
qed

text \<open>A reading against the clock the run began with, and then two readings of a run.\<close>

lemma clock_readings_from:
  assumes "\<forall>x \<in> set xs. clock_op_ok x" "tv_norm (Timeval (ck_now c) (ck_usec c))" "j < length xs"
  shows "ck_now c \<le> tv_sec (clock_readings c xs ! j) \<and> tv_norm (clock_readings c xs ! j)
    \<and> ((\<forall>k \<le> j. is_get (xs ! k)) \<longrightarrow> Timeval (ck_now c) (ck_usec c) \<le> clock_readings c xs ! j)"
  using assms
proof (induction xs arbitrary: c j)
  case Nil
  then show ?case by simp
next
  case (Cons x xs)
  obtain tv c' where s: "clock_step x c = (tv, c')" by fastforce
  note r = clock_step_reading[OF s _ Cons.prems(2)]
  have ok: "clock_op_ok x" "\<forall>y \<in> set xs. clock_op_ok y" using Cons.prems(1) by simp_all
  show ?case
  proof (cases j)
    case 0
    then show ?thesis using r ok(1) s by auto
  next
    case (Suc k)
    have n: "tv_norm (Timeval (ck_now c') (ck_usec c'))" using r(1,3) ok(1) by simp
    note ih = Cons.IH[OF ok(2) n, of k]
    have "Timeval (ck_now c) (ck_usec c) \<le> clock_readings c' xs ! k" if "\<forall>m \<le> j. is_get ((x # xs) ! m)"
    proof -
      have g: "is_get x" "\<forall>m \<le> k. is_get (xs ! m)" using that Suc by (auto dest: spec[of _ 0] spec[of _ "Suc m" for m])
      show ?thesis by (rule order_trans[OF r(4)[OF ok(1) g(1)]]) (use ih g(2) Cons.prems(3) Suc r(1)[OF ok(1)] in simp)
    qed
    then show ?thesis using ih r(2)[OF ok(1)] Cons.prems(3) Suc s by simp
  qed
qed

lemma clock_readings_pair:
  assumes "\<forall>x \<in> set xs. clock_op_ok x" "tv_norm (Timeval (ck_now c) (ck_usec c))" "i < j" "j < length xs"
  shows "tv_sec (clock_readings c xs ! i) \<le> tv_sec (clock_readings c xs ! j)
    \<and> tv_norm (clock_readings c xs ! i) \<and> tv_norm (clock_readings c xs ! j)
    \<and> ((\<forall>k. i < k \<and> k \<le> j \<longrightarrow> is_get (xs ! k)) \<longrightarrow> clock_readings c xs ! i \<le> clock_readings c xs ! j)"
  using assms
proof (induction xs arbitrary: c i j)
  case Nil
  then show ?case by simp
next
  case (Cons x xs)
  obtain tv c' where s: "clock_step x c = (tv, c')" by fastforce
  note r = clock_step_reading[OF s _ Cons.prems(2)]
  have ok: "clock_op_ok x" "\<forall>y \<in> set xs. clock_op_ok y" using Cons.prems(1) by simp_all
  have n: "tv_norm (Timeval (ck_now c') (ck_usec c'))" using r(1,3) ok(1) by simp
  obtain m where j: "j = Suc m" using Cons.prems(3) by (cases j) auto
  show ?case
  proof (cases i)
    case 0
    have "\<forall>k \<le> m. is_get (xs ! k)" if "\<forall>k. i < k \<and> k \<le> j \<longrightarrow> is_get ((x # xs) ! k)"
      using that 0 j by (auto dest: spec[of _ "Suc k" for k])
    then show ?thesis using clock_readings_from[OF ok(2) n, of m] Cons.prems(4) 0 j s r(1,3)[OF ok(1)] by simp
  next
    case (Suc l)
    have "\<forall>k. l < k \<and> k \<le> m \<longrightarrow> is_get (xs ! k)" if "\<forall>k. i < k \<and> k \<le> j \<longrightarrow> is_get ((x # xs) ! k)"
      using that Suc j by (auto dest: spec[of _ "Suc k" for k])
    then show ?thesis using Cons.IH[OF ok(2) n, of l m] Cons.prems(3,4) Suc j s by simp
  qed
qed

lemma low20: "x AND 0x000FFFFF = x mod 1048576" for x :: int
  using take_bit_eq_mask [of 20 x] by (simp add: take_bit_eq_mod mask_eq_exp_minus_1)

lemma high20: "drop_bit 20 x = x div 1048576" for x :: int
  by (simp add: drop_bit_eq_div)

lemma carry20:
  fixes u :: int
  assumes "1048576 \<le> u" "u < 2000000"
  shows "u div 1048576 = 1" "u mod 1048576 = u - 1048576"
  using assms int_div_pos_eq [of u 1048576 1 "u - 1048576"] int_mod_pos_eq [of u 1048576 1 "u - 1048576"]
  by auto

section \<open>Properties\<close>

text \<open>C31: Whatever the system clock does (steps forward, steps backward, repeats itself), and however
  the calls of \<^verbatim>\<open>openvpn_gettimeofday\<close> and \<^verbatim>\<open>update_time\<close> are mixed: the seconds never go back; a
  reading is never a whole second before an earlier one, and it is not before it at all if only
  \<^verbatim>\<open>openvpn_gettimeofday\<close> was called in between. \<^verbatim>\<open>update_time\<close> sets the microseconds to zero, so
  within a second readings do go back.\<close>

theorem clock_never_goes_back:
  assumes "\<forall>x \<in> set xs. clock_op_ok x" "tv_norm (Timeval (ck_now c) (ck_usec c))" "i < j" "j < length xs"
  shows "tv_sec (clock_readings c xs ! i) \<le> tv_sec (clock_readings c xs ! j)
    \<and> tv_us (clock_readings c xs ! i) - 1000000 < tv_us (clock_readings c xs ! j)
    \<and> ((\<forall>k. i < k \<and> k \<le> j \<longrightarrow> is_get (xs ! k)) \<longrightarrow> clock_readings c xs ! i \<le> clock_readings c xs ! j)"
  using clock_readings_pair[OF assms] by (auto simp: tv_us_def tv_norm_def)

text \<open>5.9 s, then \<^verbatim>\<open>update_time\<close>, then the system clock stepped back to 5.1 s, then 4.2 s: the third
  reading is before the first, by less than a second, and the last two agree.\<close>

theorem clock_never_goes_back_witness:
  "\<exists>r. r = clock_readings \<lparr>ck_now = 0, ck_usec = 0, ck_adj = 0\<rparr>
           [Get_Time (Timeval 5 900000), Update_Time 5, Get_Time (Timeval 5 100000), Get_Time (Timeval 4 200000)]
     \<and> r = [Timeval 5 900000, Timeval 5 0, Timeval 5 100000, Timeval 5 200000]
     \<and> tv_sec (r ! 0) \<le> tv_sec (r ! 2) \<and> tv_us (r ! 0) - 1000000 < tv_us (r ! 2) \<and> r ! 2 < r ! 0 \<and> r ! 2 \<le> r ! 3"
proof -
  let ?c = "\<lparr>ck_now = 0, ck_usec = 0, ck_adj = 0\<rparr>"
  let ?xs = "[Get_Time (Timeval 5 900000), Update_Time 5, Get_Time (Timeval 5 100000), Get_Time (Timeval 4 200000)]"
  have r: "clock_readings ?c ?xs = [Timeval 5 900000, Timeval 5 0, Timeval 5 100000, Timeval 5 200000]" by code_simp
  have ok: "\<forall>x \<in> set ?xs. clock_op_ok x" "tv_norm (Timeval (ck_now ?c) (ck_usec ?c))" by code_simp+
  have g: "\<forall>k. 2 < k \<and> k \<le> 3 \<longrightarrow> is_get (?xs ! k)" by (auto simp: le_Suc_eq numeral_3_eq_3)
  have "clock_readings ?c ?xs ! 2 \<le> clock_readings ?c ?xs ! 3" using clock_never_goes_back[OF ok, of 2 3] g by simp
  moreover have "tv_sec (clock_readings ?c ?xs ! 0) \<le> tv_sec (clock_readings ?c ?xs ! 2)
      \<and> tv_us (clock_readings ?c ?xs ! 0) - 1000000 < tv_us (clock_readings ?c ?xs ! 2)"
    using clock_never_goes_back[OF ok, of 0 2] by simp
  ultimately show ?thesis unfolding r by simp
qed

text \<open>A backward step of the system clock is absorbed: after the first reading that
  shows one of more than ten seconds, the clock advances again with the system clock,
  second by second, from where it stood.\<close>

theorem backward_step_absorbed:
  assumes "s + ck_adj c < ck_now c - 10" "0 < d" "d \<le> 86400"
  shows "ck_now (update_now s c) = ck_now c \<and> ck_now (update_now (s + d) (update_now s c)) = ck_now c + d"
  using assms by (simp add: update_now_def Let_def)

theorem backward_step_absorbed_witness:
  "ck_now (update_now 503 (update_now 500 \<lparr>ck_now = 1000, ck_usec = 0, ck_adj = 0\<rparr>)) = 1003"
  using backward_step_absorbed [of 500 "\<lparr>ck_now = 1000, ck_usec = 0, ck_adj = 0\<rparr>" 3] by simp

text \<open>\<^verbatim>\<open>tv_subtract\<close> is the difference in microseconds, clamped to the given number of
  seconds in both directions.\<close>

theorem tv_subtract_clamps:
  assumes "tv_norm a" "tv_norm b" "0 \<le> m" "\<bar>tv_sec a - tv_sec b\<bar> < 2 ^ 31"
  shows "tv_subtract a b m = max (- (m * 1000000)) (min (m * 1000000) (tv_us a - tv_us b))"
proof -
  have s: "to_int32 (tv_sec a - tv_sec b) = tv_sec a - tv_sec b"
    using assms(4) by (intro to_int32_id) auto
  show ?thesis
    unfolding tv_subtract_def Let_def s constrain_int_def tv_us_def
    using assms by (auto simp: tv_norm_def min_def max_def algebra_simps)
qed

theorem tv_subtract_clamps_witness:
  "tv_subtract (Timeval 100 5) (Timeval 98 10) 10 = 1999995
   \<and> tv_subtract (Timeval 100 5) (Timeval 300 10) 10 = - 10000000"
  using tv_subtract_clamps [of "Timeval 100 5" "Timeval 98 10" 10]
    tv_subtract_clamps [of "Timeval 100 5" "Timeval 300 10" 10]
  by (simp add: tv_norm_def tv_us_def)

text \<open>\<^verbatim>\<open>tv_add\<close> carries through a shift by 20 bits, as if a second had 1048576
  microseconds. Its result is always normalised, but it is the sum only while the
  microseconds add up to less than 1048576; above that it is 48576 microseconds early.\<close>

lemma tv_add_drift:
  assumes "tv_norm a" "tv_norm b"
  shows "tv_norm (tv_add a b)
     \<and> tv_us (tv_add a b) = tv_us a + tv_us b - (if tv_usec a + tv_usec b < 1048576 then 0 else 48576)"
proof -
  let ?u = "tv_usec a + tv_usec b"
  have u: "0 \<le> ?u" "?u < 2000000"
    using assms by (auto simp: tv_norm_def)
  show ?thesis
  proof (cases "?u < 1048576")
    case True
    then have "?u div 1048576 = 0" "?u mod 1048576 = ?u"
      using u by auto
    then show ?thesis
      unfolding tv_add_def Let_def low20 high20 using True u by (auto simp: tv_norm_def tv_us_def)
  next
    case False
    then have "?u div 1048576 = 1" "?u mod 1048576 = ?u - 1048576"
      using u carry20 [of ?u] by auto
    then show ?thesis
      unfolding tv_add_def Let_def low20 high20 using False u by (auto simp: tv_norm_def tv_us_def)
  qed
qed

lemma tv_add_drift_witness:
  "tv_add (Timeval 1 600000) (Timeval 2 600000) = Timeval 4 151424 \<and> tv_us (Timeval 4 151424) \<noteq> 4200000"
proof -
  have "tv_us (tv_add (Timeval 1 600000) (Timeval 2 600000)) = 4151424"
    using tv_add_drift [of "Timeval 1 600000" "Timeval 2 600000"] by (simp add: tv_norm_def tv_us_def)
  then show ?thesis
    by (simp add: tv_us_def tv_add_def low20 high20)
qed

text \<open>C32: A periodic timer fires exactly when its period has elapsed; firing restarts the
  period from the present, and in every case the event loop is told to wake up no later
  than the time the timer wants next.\<close>

theorem event_timeout_periodic:
  assumes "et_defined et" "0 \<le> et_n et" "\<bar>et_last et + et_n et - t\<bar> < 2 ^ 31"
  shows "case event_timeout_trigger t et (Some tv) ETT_DEFAULT of
      (fired, et', Some tv') \<Rightarrow>
        fired = (et_last et + et_n et \<le> t)
        \<and> et' = (if fired then et\<lparr>et_last := t\<rparr> else et)
        \<and> tv' \<le> tv \<and> tv_sec tv' \<le> et_last et' + et_n et' - t
    | (fired, et', None) \<Rightarrow> False"
proof -
  have r: "event_timeout_remaining t et = et_last et + et_n et - t"
    unfolding event_timeout_remaining_def using assms(3) by (intro to_int32_id) auto
  show ?thesis
    using assms(1,2) unfolding event_timeout_trigger_def r ETT_DEFAULT_def
    by (cases tv) (auto simp: Let_def)
qed

theorem event_timeout_periodic_witness:
  "case event_timeout_trigger 120 (event_timeout_init 10 110) (Some (Timeval 60 0)) ETT_DEFAULT of
      (fired, et', Some tv') \<Rightarrow> fired \<and> et_last et' = 120 \<and> tv_sec tv' \<le> 10
    | (fired, et', None) \<Rightarrow> False"
proof -
  obtain f e v where r: "event_timeout_trigger 120 (event_timeout_init 10 110) (Some (Timeval 60 0)) ETT_DEFAULT
      = (f, e, v)"
    by (cases "event_timeout_trigger 120 (event_timeout_init 10 110) (Some (Timeval 60 0)) ETT_DEFAULT")
  show ?thesis
    using event_timeout_periodic [of "event_timeout_init 10 110" 120 "Timeval 60 0"] unfolding r
    by (cases v) (auto simp: event_timeout_init_def)
qed

text \<open>\<^verbatim>\<open>shaper_soonest_event\<close> shortens the sleep to the shaper's delay, and to nothing
  else: the result is the minimum of both, and it reports a change exactly when there
  is one.\<close>

theorem shaper_soonest_event_min:
  assumes "tv_norm tv" "0 \<le> tv_sec tv" "0 \<le> delay"
  shows "shaper_soonest_event tv delay
     = (let d = Timeval (delay div 1000000) (delay mod 1000000) in (d < tv, min d tv))"
proof -
  obtain s u where tv: "tv = Timeval s u"
    by (cases tv)
  show ?thesis
  proof (cases "delay < 1000000")
    case True
    then have "delay div 1000000 = 0" "delay mod 1000000 = delay"
      using assms(3) by auto
    then show ?thesis
      using True assms unfolding shaper_soonest_event_def
      by (auto simp: tv Let_def tv_norm_def min_def)
  next
    case False
    then show ?thesis
      using assms unfolding shaper_soonest_event_def by (auto simp: tv Let_def min_def)
  qed
qed

theorem shaper_soonest_event_min_witness:
  "shaper_soonest_event (Timeval 3 250) 2000700 = (True, Timeval 2 700)"
  using shaper_soonest_event_min [of "Timeval 3 250" 2000700] by (simp add: tv_norm_def min_def)

end
