(* ===== verification/Fragment.thy ===== *)
theory Fragment
  imports Buf Otime "HOL-Library.Multiset"
begin

text \<open>
  Datagram fragmentation, \<^verbatim>\<open>fragment.h\<close> and \<^verbatim>\<open>fragment.c\<close>: a packet larger than the
  maximum is sent as up to 32 parts under an 8-bit sequence number, and put together again
  in one of 25 reassembly slots. The part of \<^verbatim>\<open>struct frame\<close> (\<^verbatim>\<open>mtu.h\<close>) that is used is the
  record \<open>frame\<close>. The buffers the functions hand out share their block with a buffer of the
  state; their model is the value at the time of the call. \<open>None\<close> is a failed
  \<^verbatim>\<open>ASSERT\<close>.
\<close>

section \<open>State\<close>

record frame =
  fm_headroom :: int
  fm_payload_size :: int
  fm_tailroom :: int
  fm_max_fragment_size :: int

definition BUF_SIZE :: "frame \<Rightarrow> int" where
  "BUF_SIZE fm = fm_headroom fm + fm_payload_size fm + fm_tailroom fm"

definition N_FRAG_BUF :: int where "N_FRAG_BUF = 25"
definition FRAG_TTL_SEC :: int where "FRAG_TTL_SEC = 10"
definition FRAG_WAKEUP_INTERVAL :: int where "FRAG_WAKEUP_INTERVAL = 5"
definition FRAG_MAP_MASK :: u32 where "FRAG_MAP_MASK = 0xFFFFFFFF"
definition MAX_FRAGS :: int where "MAX_FRAGS = 32"
definition N_SEQ_ID :: int where "N_SEQ_ID = 256"

record fragment =
  fr_defined :: bool
  fr_max_frag_size :: int
  fr_map :: u32
  fr_timestamp :: int
  fr_buf :: buffer

record fragment_list =
  fl_seq_id :: int
  fl_index :: int
  fl_fragments :: "fragment list"

record fragment_master =
  fm_wakeup :: event_timeout
  outgoing_seq_id :: int
  outgoing_frag_size :: int
  outgoing_frag_id :: int
  outgoing :: buffer
  outgoing_return :: buffer
  incoming :: fragment_list

section \<open>The fragment header\<close>

definition FRAG_TYPE_MASK :: u32 where "FRAG_TYPE_MASK = 0x00000003"
definition FRAG_TYPE_SHIFT :: nat where "FRAG_TYPE_SHIFT = 0"
definition FRAG_WHOLE :: int where "FRAG_WHOLE = 0"
definition FRAG_YES_NOTLAST :: int where "FRAG_YES_NOTLAST = 1"
definition FRAG_YES_LAST :: int where "FRAG_YES_LAST = 2"
definition FRAG_TEST :: int where "FRAG_TEST = 3"
definition FRAG_SEQ_ID_MASK :: u32 where "FRAG_SEQ_ID_MASK = 0x000000ff"
definition FRAG_SEQ_ID_SHIFT :: nat where "FRAG_SEQ_ID_SHIFT = 2"
definition FRAG_ID_MASK :: u32 where "FRAG_ID_MASK = 0x0000001f"
definition FRAG_ID_SHIFT :: nat where "FRAG_ID_SHIFT = 10"
definition FRAG_SIZE_MASK :: u32 where "FRAG_SIZE_MASK = 0x00003fff"
definition FRAG_SIZE_SHIFT :: nat where "FRAG_SIZE_SHIFT = 15"
definition FRAG_SIZE_ROUND_SHIFT :: nat where "FRAG_SIZE_ROUND_SHIFT = 2"
definition FRAG_SIZE_ROUND_MASK :: int where "FRAG_SIZE_ROUND_MASK = push_bit FRAG_SIZE_ROUND_SHIFT 1 - 1"

text \<open>The header word of \<^verbatim>\<open>fragment_prepend_flags\<close>.\<close>

definition fragment_flags :: "int \<Rightarrow> int \<Rightarrow> int \<Rightarrow> int \<Rightarrow> u32" where
  "fragment_flags typ seq_id frag_id frag_size =
     (let flags = push_bit FRAG_TYPE_SHIFT (of_int typ AND FRAG_TYPE_MASK)
                  OR push_bit FRAG_SEQ_ID_SHIFT (of_int seq_id AND FRAG_SEQ_ID_MASK)
                  OR push_bit FRAG_ID_SHIFT (of_int frag_id AND FRAG_ID_MASK) in
      if typ = FRAG_WHOLE \<or> typ = FRAG_YES_NOTLAST then flags
      else flags OR push_bit FRAG_SIZE_SHIFT
                      (of_int (drop_bit FRAG_SIZE_ROUND_SHIFT frag_size) AND FRAG_SIZE_MASK))"

definition fragment_prepend_flags :: "buffer \<Rightarrow> int \<Rightarrow> int \<Rightarrow> int \<Rightarrow> int \<Rightarrow> buffer option" where
  "fragment_prepend_flags b typ seq_id frag_id frag_size =
     (case buf_write_prepend b (enc32 (fragment_flags typ seq_id frag_id frag_size)) of
        (False, _) \<Rightarrow> None
      | (True, b') \<Rightarrow> Some b')"

section \<open>Initialisation\<close>

text \<open>\<^verbatim>\<open>alloc_buf\<close> of a size it refuses is fatal.\<close>

definition fragment_list_buf_init :: "fragment_list \<Rightarrow> frame \<Rightarrow> fragment_list option" where
  "fragment_list_buf_init l fm =
     (case alloc_buf (BUF_SIZE fm) of
        None \<Rightarrow> None
      | Some b \<Rightarrow> Some (l\<lparr>fl_fragments := map (\<lambda>fr. fr\<lparr>fr_buf := b\<rparr>) (fl_fragments l)\<rparr>))"

definition fragment_list_buf_free :: "fragment_list \<Rightarrow> fragment_list" where
  "fragment_list_buf_free l =
     l\<lparr>fl_fragments := map (\<lambda>fr. fr\<lparr>fr_buf := free_buf (fr_buf fr)\<rparr>) (fl_fragments l)\<rparr>"

definition clear_fragment :: fragment where
  "clear_fragment =
     \<lparr>fr_defined = False, fr_max_frag_size = 0, fr_map = 0, fr_timestamp = 0, fr_buf = clear_buf\<rparr>"

text \<open>The random number and the present time are arguments.\<close>

definition fragment_init :: "int \<Rightarrow> int \<Rightarrow> fragment_master" where
  "fragment_init random t =
     \<lparr>fm_wakeup = event_timeout_init FRAG_WAKEUP_INTERVAL t,
      outgoing_seq_id = random AND (N_SEQ_ID - 1), outgoing_frag_size = 0, outgoing_frag_id = 0,
      outgoing = clear_buf, outgoing_return = clear_buf,
      incoming = \<lparr>fl_seq_id = 0, fl_index = 0,
                  fl_fragments = replicate (nat N_FRAG_BUF) clear_fragment\<rparr>\<rparr>"

definition fragment_frame_init :: "fragment_master \<Rightarrow> frame \<Rightarrow> fragment_master option" where
  "fragment_frame_init f fm =
     (case fragment_list_buf_init (incoming f) fm of
        None \<Rightarrow> None
      | Some l \<Rightarrow>
          (case alloc_buf (BUF_SIZE fm) of
             None \<Rightarrow> None
           | Some b \<Rightarrow> Some (f\<lparr>incoming := l, outgoing := b, outgoing_return := b\<rparr>)))"

section \<open>Receiving\<close>

text \<open>The loop that moves the window of slots on to a newer sequence number.\<close>

fun frag_advance :: "nat \<Rightarrow> fragment_list \<Rightarrow> fragment_list option" where
  "frag_advance 0 l = Some l"
| "frag_advance (Suc d) l =
     (case modulo_add (fl_index l) 1 N_FRAG_BUF of
        None \<Rightarrow> None
      | Some i \<Rightarrow>
          (case modulo_add (fl_seq_id l) 1 N_SEQ_ID of
             None \<Rightarrow> None
           | Some s \<Rightarrow> frag_advance d
               (l\<lparr>fl_index := i, fl_seq_id := s,
                  fl_fragments := (fl_fragments l)
                    [nat i := (fl_fragments l ! nat i)\<lparr>fr_defined := False\<rparr>]\<rparr>)))"

definition fragment_list_get_buf :: "fragment_list \<Rightarrow> int \<Rightarrow> (nat \<times> fragment_list) option" where
  "fragment_list_get_buf l seq_id =
     (case modulo_subtract seq_id (fl_seq_id l) N_SEQ_ID of
        None \<Rightarrow> None
      | Some diff0 \<Rightarrow>
          let (l1, diff) =
            (if \<bar>diff0\<bar> \<ge> N_FRAG_BUF
             then (l\<lparr>fl_fragments := map (\<lambda>fr. fr\<lparr>fr_defined := False\<rparr>) (fl_fragments l),
                     fl_index := 0, fl_seq_id := seq_id\<rparr>, 0)
             else (l, diff0)) in
          (case frag_advance (nat diff) l1 of
             None \<Rightarrow> None
           | Some l2 \<Rightarrow>
               (case modulo_add (fl_index l2) (if diff > 0 then 0 else diff) N_FRAG_BUF of
                  None \<Rightarrow> None
                | Some i \<Rightarrow> Some (nat i, l2))))"

definition upd_frag :: "fragment_list \<Rightarrow> nat \<Rightarrow> (fragment \<Rightarrow> fragment) \<Rightarrow> fragment_list" where
  "upd_frag l i g = l\<lparr>fl_fragments := (fl_fragments l)[i := g (fl_fragments l ! i)]\<rparr>"

text \<open>\<open>error:\<close> drops the packet.\<close>

definition frag_err :: "fragment_master \<Rightarrow> buffer \<Rightarrow> (fragment_master \<times> buffer) option" where
  "frag_err f b = Some (f, b\<lparr>bf_len := 0\<rparr>)"

text \<open>
  The branch of \<^verbatim>\<open>fragment_incoming\<close> for a part of a fragmented packet, after the header
  has been read off.
\<close>

definition fragment_incoming_part ::
  "fragment_master \<Rightarrow> buffer \<Rightarrow> frame \<Rightarrow> int \<Rightarrow> u32 \<Rightarrow> int \<Rightarrow> (fragment_master \<times> buffer) option" where
  "fragment_incoming_part f b fm t flags frag_type =
     (let seq_id = uint (drop_bit FRAG_SEQ_ID_SHIFT flags AND FRAG_SEQ_ID_MASK);
          n = uint (drop_bit FRAG_ID_SHIFT flags AND FRAG_ID_MASK);
          sz = (if frag_type = FRAG_YES_LAST
                then sint (push_bit FRAG_SIZE_ROUND_SHIFT (drop_bit FRAG_SIZE_SHIFT flags AND FRAG_SIZE_MASK))
                else bf_len b) in
      case fragment_list_get_buf (incoming f) seq_id of
        None \<Rightarrow> None
      | Some (i, l) \<Rightarrow>
          let f1 = f\<lparr>incoming := l\<rparr>; frag = fl_fragments l ! i in
          if sz AND FRAG_SIZE_ROUND_MASK \<noteq> 0 then frag_err f1 b
          else
            (case (if \<not> fr_defined frag \<or> fr_max_frag_size frag \<noteq> sz
                   then (case buf_init (fr_buf frag) (fm_headroom fm) of
                           (False, _) \<Rightarrow> None
                         | (True, fb) \<Rightarrow>
                             Some (frag\<lparr>fr_defined := True, fr_max_frag_size := sz, fr_map := 0,
                                        fr_buf := fb\<rparr>))
                   else Some frag) of
               None \<Rightarrow> None
             | Some frag1 \<Rightarrow>
                 (case buf_copy_range (fr_buf frag1) (n * sz) b 0 (bf_len b) of
                    (False, _) \<Rightarrow> frag_err (f1\<lparr>incoming := upd_frag l i (\<lambda>_. frag1)\<rparr>) b
                  | (True, fb) \<Rightarrow>
                      let frag2 = frag1\<lparr>fr_buf := fb,
                            fr_map := fr_map frag1
                                      OR push_bit (nat n) (if frag_type = FRAG_YES_LAST then FRAG_MAP_MASK else 1),
                            fr_timestamp := t\<rparr> in
                      if fr_map frag2 AND FRAG_MAP_MASK = FRAG_MAP_MASK
                      then Some (f1\<lparr>incoming := upd_frag l i (\<lambda>_. frag2\<lparr>fr_defined := False\<rparr>)\<rparr>, fb)
                      else Some (f1\<lparr>incoming := upd_frag l i (\<lambda>_. frag2)\<rparr>, b\<lparr>bf_len := 0\<rparr>))))"

definition fragment_incoming ::
  "fragment_master \<Rightarrow> buffer \<Rightarrow> frame \<Rightarrow> int \<Rightarrow> (fragment_master \<times> buffer) option" where
  "fragment_incoming f b fm t =
     (if bf_len b > 0
      then
        (case buf_read b 4 of
           (None, b1) \<Rightarrow> frag_err f b1
         | (Some bs, b1) \<Rightarrow>
             let flags = dec32 bs;
                 frag_type = uint (drop_bit FRAG_TYPE_SHIFT flags AND FRAG_TYPE_MASK) in
             if frag_type = FRAG_WHOLE
             then (if flags AND (FRAG_SEQ_ID_MASK OR FRAG_ID_MASK) \<noteq> 0 then frag_err f b1
                   else Some (f, b1))
             else if frag_type = FRAG_YES_NOTLAST \<or> frag_type = FRAG_YES_LAST
             then fragment_incoming_part f b1 fm t flags frag_type
             else frag_err f b1)
      else Some (f, b))"

section \<open>Sending\<close>

definition fragment_outgoing_defined :: "fragment_master \<Rightarrow> bool" where
  "fragment_outgoing_defined f \<longleftrightarrow> bf_len (outgoing f) > 0"

text \<open>\<open>None\<close> is the division by zero when the maximum is below 4.\<close>

definition optimal_fragment_size :: "int \<Rightarrow> int \<Rightarrow> int option" where
  "optimal_fragment_size len max_frag_size =
     (let mfs_aligned = max_frag_size AND NOT FRAG_SIZE_ROUND_MASK in
      if mfs_aligned = 0 then None
      else
        let dv = len div mfs_aligned; md = len mod mfs_aligned in
        if dv > 0 \<and> md > 0 \<and> md < mfs_aligned * 3 div 4
        then Some (min_int mfs_aligned
                    ((max_frag_size - ((max_frag_size - md) div (dv + 1)) + FRAG_SIZE_ROUND_MASK)
                     AND NOT FRAG_SIZE_ROUND_MASK))
        else Some mfs_aligned)"

definition fragment_ready_to_send ::
  "fragment_master \<Rightarrow> buffer \<Rightarrow> frame \<Rightarrow> (bool \<times> fragment_master \<times> buffer) option" where
  "fragment_ready_to_send f b fm =
     (if fragment_outgoing_defined f
      then
        let last_part = (bf_len (outgoing f) \<le> outgoing_frag_size f);
            sz = (if last_part then bf_len (outgoing f) else outgoing_frag_size f) in
        (case buf_init (outgoing_return f) (fm_headroom fm) of
           (False, _) \<Rightarrow> None
         | (True, b1) \<Rightarrow>
             (case buf_copy_n b1 (outgoing f) sz of
                (False, _) \<Rightarrow> None
              | (True, b2, out) \<Rightarrow>
                  (case fragment_prepend_flags b2 (if last_part then FRAG_YES_LAST else FRAG_YES_NOTLAST)
                          (outgoing_seq_id f) (outgoing_frag_id f) (outgoing_frag_size f) of
                     None \<Rightarrow> None
                   | Some b3 \<Rightarrow>
                       if last_part \<and> bf_len out \<noteq> 0 then None
                       else Some (True,
                              f\<lparr>outgoing := out, outgoing_frag_id := outgoing_frag_id f + 1,
                                outgoing_return := (outgoing_return f)\<lparr>bf_data := bf_data b3\<rparr>\<rparr>,
                              b3))))
      else Some (False, f, b))"

definition fragment_outgoing ::
  "fragment_master \<Rightarrow> buffer \<Rightarrow> frame \<Rightarrow> (fragment_master \<times> buffer) option" where
  "fragment_outgoing f b fm =
     (if bf_len b > 0
      then
        (if bf_len b > fm_max_fragment_size fm
         then
           (case optimal_fragment_size (bf_len b) (fm_max_fragment_size fm) of
              None \<Rightarrow> None
            | Some sz \<Rightarrow>
                let f1 = f\<lparr>outgoing_frag_size := sz\<rparr> in
                if bf_len b > sz * MAX_FRAGS then frag_err f1 b
                else
                  (case buf_init (outgoing f1) (fm_headroom fm) of
                     (False, _) \<Rightarrow> None
                   | (True, o1) \<Rightarrow>
                       (case buf_copy o1 b of
                          (False, _) \<Rightarrow> None
                        | (True, o2) \<Rightarrow>
                            (case modulo_add (outgoing_seq_id f1) 1 N_SEQ_ID of
                               None \<Rightarrow> None
                             | Some s \<Rightarrow>
                                 (case fragment_ready_to_send
                                         (f1\<lparr>outgoing := o2, outgoing_seq_id := s, outgoing_frag_id := 0\<rparr>)
                                         (b\<lparr>bf_len := 0\<rparr>) fm of
                                    Some (True, f2, b2) \<Rightarrow> Some (f2, b2)
                                  | _ \<Rightarrow> None)))))
         else
           (case fragment_prepend_flags b FRAG_WHOLE 0 0 0 of
              None \<Rightarrow> None
            | Some b1 \<Rightarrow> Some (f, b1)))
      else Some (f, b))"

section \<open>Housekeeping\<close>

definition fragment_ttl_reap :: "int \<Rightarrow> fragment_master \<Rightarrow> fragment_master" where
  "fragment_ttl_reap t f =
     f\<lparr>incoming := (incoming f)\<lparr>fl_fragments :=
         map (\<lambda>fr. if fr_defined fr \<and> fr_timestamp fr + FRAG_TTL_SEC \<le> t then fr\<lparr>fr_defined := False\<rparr> else fr)
             (fl_fragments (incoming f))\<rparr>\<rparr>"

definition fragment_wakeup :: "int \<Rightarrow> fragment_master \<Rightarrow> fragment_master" where
  "fragment_wakeup t f = fragment_ttl_reap t f"

definition fragment_housekeeping ::
  "int \<Rightarrow> fragment_master \<Rightarrow> timeval option \<Rightarrow> fragment_master \<times> timeval option" where
  "fragment_housekeeping t f tv =
     (case event_timeout_trigger t (fm_wakeup f) tv ETT_DEFAULT of
        (fired, et, tv') \<Rightarrow>
          (if fired then fragment_wakeup t (f\<lparr>fm_wakeup := et\<rparr>) else f\<lparr>fm_wakeup := et\<rparr>, tv'))"

section \<open>The header fields\<close>

lemma masks:
  "(0x3 :: u32) = mask 2" "(0xff :: u32) = mask 8" "(0x1f :: u32) = mask 5" "(0x3fff :: u32) = mask 14"
  by (simp_all add: mask_eq_exp_minus_1)

lemma uint_of_int_mask:
  "0 \<le> x \<Longrightarrow> x < 2 ^ k \<Longrightarrow> k < 31 \<Longrightarrow> uint (of_int x AND mask k :: u32) = x"
  by (simp add: take_bit_eq_mask [symmetric] unsigned_take_bit_eq unsigned_of_int take_bit_int_eq_self min_def)

lemma flags_fields:
  fixes t s i z :: u32
  defines "w \<equiv> push_bit 0 (t AND mask 2) OR push_bit 2 (s AND mask 8) OR push_bit 10 (i AND mask 5)"
  shows "drop_bit 0 w AND mask 2 = t AND mask 2"
    "drop_bit 2 w AND mask 8 = s AND mask 8"
    "drop_bit 10 w AND mask 5 = i AND mask 5"
    "drop_bit 0 (w OR push_bit 15 (z AND mask 14)) AND mask 2 = t AND mask 2"
    "drop_bit 2 (w OR push_bit 15 (z AND mask 14)) AND mask 8 = s AND mask 8"
    "drop_bit 10 (w OR push_bit 15 (z AND mask 14)) AND mask 5 = i AND mask 5"
    "drop_bit 15 (w OR push_bit 15 (z AND mask 14)) AND mask 14 = z AND mask 14"
  unfolding w_def by (rule bit_word_eqI; auto simp: bit_simps)+

lemmas frag_consts =
  FRAG_TYPE_MASK_def FRAG_TYPE_SHIFT_def FRAG_SEQ_ID_MASK_def FRAG_SEQ_ID_SHIFT_def
  FRAG_ID_MASK_def FRAG_ID_SHIFT_def FRAG_SIZE_MASK_def FRAG_SIZE_SHIFT_def

lemmas frag_types = FRAG_WHOLE_def FRAG_YES_NOTLAST_def FRAG_YES_LAST_def FRAG_TEST_def

lemma fragment_flags_fields:
  fixes ty s i z :: int
  assumes "ty = FRAG_YES_NOTLAST \<or> ty = FRAG_YES_LAST" "0 \<le> s" "s < 256" "0 \<le> i" "i < 32"
  defines "w \<equiv> fragment_flags ty s i z"
  shows "uint (drop_bit FRAG_TYPE_SHIFT w AND FRAG_TYPE_MASK) = ty"
    "uint (drop_bit FRAG_SEQ_ID_SHIFT w AND FRAG_SEQ_ID_MASK) = s"
    "uint (drop_bit FRAG_ID_SHIFT w AND FRAG_ID_MASK) = i"
    "ty = FRAG_YES_LAST \<Longrightarrow> 0 \<le> z \<Longrightarrow> z < 65536 \<Longrightarrow> z mod 4 = 0 \<Longrightarrow>
       sint (push_bit FRAG_SIZE_ROUND_SHIFT (drop_bit FRAG_SIZE_SHIFT w AND FRAG_SIZE_MASK)) = z"
proof -
  have w: "w = (if ty = FRAG_YES_NOTLAST
      then push_bit 0 (of_int ty AND mask 2) OR push_bit 2 (of_int s AND mask 8) OR push_bit 10 (of_int i AND mask 5)
      else (push_bit 0 (of_int ty AND mask 2) OR push_bit 2 (of_int s AND mask 8) OR push_bit 10 (of_int i AND mask 5))
           OR push_bit 15 (of_int (drop_bit 2 z) AND mask 14))"
    using assms(1) unfolding w_def fragment_flags_def frag_consts masks frag_types Let_def FRAG_SIZE_ROUND_SHIFT_def
    by (auto simp: or.assoc)
  have r: "uint (of_int ty AND mask 2 :: u32) = ty" "uint (of_int s AND mask 8 :: u32) = s"
    "uint (of_int i AND mask 5 :: u32) = i"
    using assms(1-5) by (auto simp: frag_types intro!: uint_of_int_mask)
  show "uint (drop_bit FRAG_TYPE_SHIFT w AND FRAG_TYPE_MASK) = ty"
    "uint (drop_bit FRAG_SEQ_ID_SHIFT w AND FRAG_SEQ_ID_MASK) = s"
    "uint (drop_bit FRAG_ID_SHIFT w AND FRAG_ID_MASK) = i"
    unfolding w frag_consts masks
    using r by (simp_all only: flags_fields split: if_split) simp_all
  assume last: "ty = FRAG_YES_LAST" and z: "0 \<le> z" "z < 65536" "z mod 4 = 0"
  have f: "drop_bit 15 w AND mask 14 = of_int (drop_bit 2 z) AND mask 14"
  proof -
    have "ty \<noteq> FRAG_YES_NOTLAST"
      by (simp add: last frag_types)
    then show ?thesis
      unfolding w by (simp only: if_False flags_fields(7))
  qed
  have d: "drop_bit 2 z = z div 4"
    by (simp add: drop_bit_eq_div)
  have u: "uint (of_int (drop_bit 2 z) AND mask 14 :: u32) = z div 4"
    unfolding d using z by (intro uint_of_int_mask) auto
  have "uint (push_bit 2 (of_int (drop_bit 2 z) AND mask 14 :: u32)) = take_bit 32 (push_bit 2 (z div 4))"
    unfolding u [symmetric] by (subst unsigned_push_bit_eq) simp
  also have "push_bit 2 (z div 4) = z"
  proof -
    have "z div 4 * 4 = z"
      using z(3) by presburger
    then show ?thesis
      by (simp add: push_bit_eq_mult)
  qed
  also have "take_bit 32 z = z"
    using z by (intro take_bit_int_eq_self) auto
  finally have "uint (push_bit 2 (of_int (drop_bit 2 z) AND mask 14 :: u32)) = z" .
  moreover have "sint x = uint x" if "uint x < 2 ^ 31" for x :: u32
  proof -
    have "- (2 ^ 31) \<le> uint x"
      by (rule order_trans [of _ 0]) simp_all
    then have "signed_take_bit 31 (uint x) = uint x"
      using that by (rule signed_take_bit_int_eq_self)
    then show ?thesis
      by (simp add: sint_uint)
  qed
  ultimately show "sint (push_bit FRAG_SIZE_ROUND_SHIFT (drop_bit FRAG_SIZE_SHIFT w AND FRAG_SIZE_MASK)) = z"
    unfolding frag_consts masks f FRAG_SIZE_ROUND_SHIFT_def using z(2) by simp
qed

section \<open>The size of the parts\<close>

lemma round_mask: "FRAG_SIZE_ROUND_MASK = 3"
  by (simp add: FRAG_SIZE_ROUND_MASK_def FRAG_SIZE_ROUND_SHIFT_def)

lemma and_round_mask: "x AND FRAG_SIZE_ROUND_MASK = x mod 4"
  using take_bit_eq_mask [of 2 x] by (simp add: round_mask take_bit_eq_mod mask_eq_exp_minus_1)

lemma and_not_round_mask: "x AND NOT FRAG_SIZE_ROUND_MASK = x - x mod 4"
proof -
  have "x AND NOT FRAG_SIZE_ROUND_MASK = x AND NOT (x AND FRAG_SIZE_ROUND_MASK)"
    by (rule bit_eqI) (auto simp: bit_simps)
  also have "\<dots> = x - (x AND FRAG_SIZE_ROUND_MASK)"
    by (rule disjunctive_diff_eq_and_not [symmetric]) (rule bit_eqI, auto simp: bit_simps)
  finally show ?thesis
    by (simp add: and_round_mask)
qed

lemma ceil_div_unique:
  fixes n :: int
  assumes "0 < s" "s * (n - 1) < len" "len \<le> s * n"
  shows "(len + s - 1) div s = n"
proof -
  have "len + s - 1 = s * n + (len - s * n + s - 1)"
    by simp
  moreover have "0 \<le> len - s * n + s - 1" "len - s * n + s - 1 < s"
    using assms by (auto simp: algebra_simps)
  ultimately show ?thesis
    by (rule int_div_pos_eq)
qed

lemma round_up4:
  fixes y :: int
  shows "y \<le> y + 3 - (y + 3) mod 4" "(y + 3 - (y + 3) mod 4) mod 4 = 0"
    "5 \<le> y + 3 \<Longrightarrow> 4 \<le> y + 3 - (y + 3) mod 4"
  by presburger+

lemma optimal_fragment_size_ok:
  assumes "0 < len" "4 \<le> mx"
  defines "m \<equiv> mx - mx mod 4"
  obtains s where "optimal_fragment_size len mx = Some s" "4 \<le> s" "s \<le> m" "s mod 4 = 0"
    "(len + s - 1) div s = (len + m - 1) div m"
proof -
  have m: "4 \<le> m" "m \<le> mx" "m mod 4 = 0" "mx - 3 \<le> m"
    using assms(2) by (simp_all add: m_def) presburger+
  let ?dv = "len div m" and ?md = "len mod m"
  have md: "0 \<le> ?md" "?md < m" "len = m * ?dv + ?md" "0 \<le> ?dv"
    using m assms(1) by (simp_all add: pos_imp_zdiv_nonneg_iff)
  let ?q = "(mx - ?md) div (?dv + 1)"
  let ?r = "mx - ?q + 3 - (mx - ?q + 3) mod 4"
  show thesis
  proof (cases "?dv > 0 \<and> ?md > 0 \<and> ?md < m * 3 div 4")
    case True
    have o: "optimal_fragment_size len mx = Some (min_int m ?r)"
      unfolding optimal_fragment_size_def Let_def and_not_round_mask m_def [symmetric] if_P [OF True]
      using m by (simp add: round_mask)
    have q2: "?q * (?dv + 1) \<le> mx - ?md"
    proof -
      have "?q * (?dv + 1) + (mx - ?md) mod (?dv + 1) = mx - ?md"
        by (rule div_mult_mod_eq)
      moreover have "0 \<le> (mx - ?md) mod (?dv + 1)"
        using md(4) by simp
      ultimately show ?thesis
        by linarith
    qed
    have q0: "0 \<le> ?q"
    proof -
      have "0 \<le> mx - ?md"
        using md m by linarith
      then show ?thesis
        using md(4) by (simp add: pos_imp_zdiv_nonneg_iff)
    qed
    have "?q * 2 \<le> ?q * (?dv + 1)"
      using True q0 by (intro mult_left_mono) auto
    then have qh: "2 * ?q \<le> mx"
      using q2 md by linarith
    have r: "mx - ?q \<le> ?r" "?r mod 4 = 0"
      by (rule round_up4)+
    have s4: "4 \<le> min_int m ?r"
    proof -
      have "5 \<le> mx - ?q + 3"
        using qh assms(2) by linarith
      then have "4 \<le> ?r"
        by (rule round_up4)
      then show ?thesis
        using m by (simp add: min_int_def)
    qed
    have sm: "min_int m ?r \<le> m" "min_int m ?r mod 4 = 0"
      using m(3) r(2) by (auto simp: min_int_def)
    have up: "len \<le> min_int m ?r * (?dv + 1)"
    proof (cases "m < ?r")
      case True
      have "m * (?dv + 1) = m * ?dv + m"
        by (simp add: algebra_simps)
      then have "len \<le> m * (?dv + 1)"
        using md(2,3) by linarith
      with True show ?thesis
        by (simp add: min_int_def)
    next
      case False
      have "m * ?dv \<le> mx * ?dv"
        using m md by (intro mult_right_mono) auto
      then have "len \<le> mx * ?dv + ?md"
        using md(3) by linarith
      also have "\<dots> = mx * (?dv + 1) - (mx - ?md)"
        by (simp add: algebra_simps)
      also have "\<dots> \<le> mx * (?dv + 1) - ?q * (?dv + 1)"
        using q2 by linarith
      also have "\<dots> = (mx - ?q) * (?dv + 1)"
        by (simp add: algebra_simps)
      also have "\<dots> \<le> ?r * (?dv + 1)"
        using r(1) md(4) by (intro mult_right_mono) auto
      finally have "len \<le> ?r * (?dv + 1)" .
      then show ?thesis
        using False by (simp add: min_int_def)
    qed
    have low: "min_int m ?r * (?dv + 1 - 1) < len"
    proof -
      have "min_int m ?r * ?dv \<le> m * ?dv"
        using sm md by (intro mult_right_mono) auto
      moreover have "0 < ?md"
        using True by blast
      ultimately have "min_int m ?r * ?dv < len"
        using md(3) by linarith
      then show ?thesis
        by (simp only: add_diff_cancel_right')
    qed
    have "(len + min_int m ?r - 1) div min_int m ?r = ?dv + 1"
      using s4 low up by (intro ceil_div_unique) auto
    moreover have "(len + m - 1) div m = ?dv + 1"
    proof (rule ceil_div_unique)
      have "0 < ?md"
        using True by blast
      then have "m * ?dv < len"
        using md(3) by linarith
      then show "m * (?dv + 1 - 1) < len"
        by (simp only: add_diff_cancel_right')
      have "m * (?dv + 1) = m * ?dv + m"
        by (simp add: algebra_simps)
      then show "len \<le> m * (?dv + 1)"
        using md(2,3) by linarith
    qed (use m in simp)
    ultimately show ?thesis
      using o s4 sm by (intro that) auto
  next
    case False
    then have "optimal_fragment_size len mx = Some m"
      unfolding optimal_fragment_size_def Let_def and_not_round_mask m_def [symmetric] if_not_P [OF False]
      using m by simp
    then show ?thesis
      using m by (intro that) auto
  qed
qed

section \<open>The parts of a packet\<close>

definition chunk :: "nat \<Rightarrow> byte list \<Rightarrow> nat \<Rightarrow> byte list" where
  "chunk sz P j = take sz (drop (j * sz) P)"

definition nparts :: "nat \<Rightarrow> byte list \<Rightarrow> nat" where
  "nparts sz P = (length P + sz - 1) div sz"

definition part_type :: "nat \<Rightarrow> byte list \<Rightarrow> nat \<Rightarrow> int" where
  "part_type sz P j = (if Suc j = nparts sz P then FRAG_YES_LAST else FRAG_YES_NOTLAST)"

definition part_packet :: "nat \<Rightarrow> int \<Rightarrow> byte list \<Rightarrow> nat \<Rightarrow> byte list" where
  "part_packet sz seq P j =
     enc32 (fragment_flags (part_type sz P j) seq (int j) (int sz)) @ chunk sz P j"

lemma nparts_bounds:
  assumes "0 < sz" "P \<noteq> []"
  shows "0 < nparts sz P" "(nparts sz P - 1) * sz < length P" "length P \<le> nparts sz P * sz"
proof -
  let ?n = "nparts sz P"
  have e: "?n * sz + (length P + sz - 1) mod sz = length P + sz - 1"
    unfolding nparts_def by (rule div_mult_mod_eq)
  have r: "(length P + sz - 1) mod sz < sz"
    using assms(1) by simp
  have l: "0 < length P"
    using assms(2) by simp
  show up: "length P \<le> ?n * sz"
    using e r assms(1) l by linarith
  then show pos: "0 < ?n"
    using l by (cases ?n) auto
  have "(?n - 1) * sz = ?n * sz - sz"
    by (simp add: diff_mult_distrib)
  then show "(?n - 1) * sz < length P"
    using e l assms(1) by linarith
qed

lemma part_before:
  assumes "0 < sz" "P \<noteq> []" "j < nparts sz P"
  shows "j * sz < length P"
proof -
  have "j \<le> nparts sz P - 1"
    using assms(3) by simp
  then have "j * sz \<le> (nparts sz P - 1) * sz"
    by (rule mult_le_mono1)
  then show ?thesis
    using nparts_bounds(2) [OF assms(1,2)] by linarith
qed

lemma chunk_full:
  assumes "0 < sz" "P \<noteq> []" "Suc j < nparts sz P"
  shows "length (chunk sz P j) = sz"
proof -
  have "Suc j * sz < length P"
    by (rule part_before [OF assms])
  then show ?thesis
    by (simp add: chunk_def)
qed

lemma chunk_last:
  assumes "0 < sz" "P \<noteq> []" "Suc j = nparts sz P"
  shows "chunk sz P j = drop (j * sz) P"
proof -
  have "length P \<le> Suc j * sz"
    using nparts_bounds(3) [OF assms(1,2)] assms(3) by simp
  then show ?thesis
    by (simp add: chunk_def)
qed

lemma chunk_nonempty:
  assumes "0 < sz" "P \<noteq> []" "j < nparts sz P"
  shows "chunk sz P j \<noteq> []"
  using part_before [OF assms] assms(1) by (simp add: chunk_def)

lemma chunk_end:
  assumes "0 < sz" "P \<noteq> []" "j < nparts sz P"
  shows "j * sz + length (chunk sz P j) \<le> length P" "length (chunk sz P j) \<le> sz"
  using part_before [OF assms] by (simp_all add: chunk_def)

lemma drop_chunk: "drop (j * sz) P = chunk sz P j @ drop (Suc j * sz) P"
proof -
  have "drop (Suc j * sz) P = drop sz (drop (j * sz) P)"
    by simp
  then show ?thesis
    by (simp only: chunk_def append_take_drop_id)
qed

lemma take_chunk: "take (Suc j * sz) P = take (j * sz) P @ chunk sz P j"
proof -
  have "take (j * sz + sz) P = take (j * sz) P @ take sz (drop (j * sz) P)"
    by (rule take_add)
  then show ?thesis
    by (simp add: chunk_def add.commute)
qed

section \<open>The sender\<close>

lemma fragment_prepend_flags_ok:
  assumes "buf_wf b" "buf_defined b" "4 \<le> bf_off b"
  obtains b' where "fragment_prepend_flags b ty s i z = Some b'" "buf_wf b'"
    "content b' = enc32 (fragment_flags ty s i z) @ content b" "bf_cap b' = bf_cap b" "buf_defined b'"
proof -
  let ?h = "enc32 (fragment_flags ty s i z)"
  have "int (length ?h) \<le> bf_off b"
    using assms(3) by (simp add: codec_simps)
  then obtain b' where "buf_write_prepend b ?h = (True, b')" "buf_wf b'" "content b' = ?h @ content b"
    "bf_cap b' = bf_cap b" "buf_defined b'"
    using buf_write_prepend_safe [OF assms(1,2)] by metis
  then show thesis
    by (intro that [of b']) (simp_all add: fragment_prepend_flags_def)
qed

text \<open>The two buffers the sender works in can hold a headroom and a part.\<close>

definition send_room :: "frame \<Rightarrow> int \<Rightarrow> buffer \<Rightarrow> bool" where
  "send_room fm n b \<longleftrightarrow>
     buf_wf b \<and> buf_defined b \<and> 4 \<le> fm_headroom fm \<and> fm_headroom fm + n \<le> bf_cap b"

lemma buf_copy_n_ok:
  assumes "buf_wf d" "buf_safe d n" "buf_wf b" "buf_defined b" "0 \<le> n" "n \<le> bf_len b"
  obtains d' b' where "buf_copy_n d b n = (True, d', b')" "buf_wf d'" "buf_wf b'"
    "content d' = content d @ take (nat n) (content b)" "content b' = drop (nat n) (content b)"
    "bf_off d' = bf_off d" "bf_cap d' = bf_cap d" "buf_defined d'"
    "bf_len b' = bf_len b - n" "buf_defined b'" "bf_cap b' = bf_cap b"
proof -
  obtain b' where r: "buf_read b n = (Some (take (nat n) (content b)), b')" "buf_wf b'"
    "content b' = drop (nat n) (content b)" "bf_cap b' = bf_cap b" "buf_defined b'" "bf_len b' = bf_len b - n"
    by (rule buf_read_ok [OF assms(3-6)])
  have len: "int (length (take (nat n) (content b))) = n"
    using assms(3,5,6) bf_len_content [OF assms(3)] by simp
  have safe: "buf_safe d (int (length (take (nat n) (content b))))"
    using assms(2) by (simp only: len)
  obtain d' where w: "buf_write d (take (nat n) (content b)) = (True, d')" "buf_wf d'"
    "content d' = content d @ take (nat n) (content b)" "bf_off d' = bf_off d" "bf_cap d' = bf_cap d"
    "buf_defined d'"
    by (rule buf_write_safe [OF assms(1) safe])
  have "buf_copy_n d b n = (True, d', b')"
    using r(1) w(1) by (auto simp: buf_copy_n_def buf_read_def split: prod.splits option.splits)
  then show thesis
    using r w by (intro that)
qed

lemma buf_init_ok:
  assumes "buf_wf b" "buf_defined b" "0 \<le> off" "off \<le> bf_cap b"
  obtains b' where "buf_init b off = (True, b')" "buf_wf b'" "content b' = []" "bf_off b' = off"
    "bf_cap b' = bf_cap b" "buf_defined b'" "bf_len b' = 0"
proof -
  obtain ok b' where i: "buf_init b off = (ok, b')"
    by fastforce
  have ok: ok and b': "b' = b\<lparr>bf_len := 0, bf_off := off\<rparr>"
    using i assms by (auto simp: buf_init_def buf_defined_def split: if_splits)
  show thesis
  proof (rule that [of b'])
    show "bf_len b' = 0" "bf_off b' = off" "bf_cap b' = bf_cap b"
      by (simp_all add: b')
  qed (use ok i buf_init_wf [OF assms(1) i] assms(2) in auto)
qed

lemma ready_to_send_part:
  assumes sz: "0 < sz" "P \<noteq> []" "j < nparts sz P"
    and out: "buf_wf (outgoing f)" "content (outgoing f) = drop (j * sz) P"
    and f: "outgoing_frag_size f = int sz" "outgoing_frag_id f = int j"
    and ret: "send_room fm (int sz) (outgoing_return f)"
  obtains f' b' where "fragment_ready_to_send f b fm = Some (True, f', b')"
    "buf_wf b'" "content b' = part_packet sz (outgoing_seq_id f) P j"
    "buf_wf (outgoing f')" "content (outgoing f') = drop (Suc j * sz) P"
    "outgoing_frag_size f' = int sz" "outgoing_frag_id f' = int (Suc j)"
    "outgoing_seq_id f' = outgoing_seq_id f"
    "send_room fm (int sz) (outgoing_return f')" "incoming f' = incoming f"
proof -
  let ?c = "chunk sz P j"
  have len: "bf_len (outgoing f) = int (length P - j * sz)"
    using bf_len_content [OF out(1)] out(2) by simp
  have "0 < length P - j * sz"
    using part_before [OF sz] by simp
  then have lpos: "0 < bf_len (outgoing f)"
    using len by linarith
  then have def: "buf_defined (outgoing f)"
    using out(1) by (auto simp: buf_wf_def buf_defined_def split: option.splits)
  let ?last = "bf_len (outgoing f) \<le> outgoing_frag_size f"
  have last: "?last \<longleftrightarrow> Suc j = nparts sz P"
  proof
    assume ?last
    then have le: "length P \<le> Suc j * sz"
      using len f(1) by simp
    show "Suc j = nparts sz P"
    proof (rule ccontr)
      assume "Suc j \<noteq> nparts sz P"
      then have "Suc j < nparts sz P"
        using sz(3) by simp
      from part_before [OF sz(1,2) this] le show False
        by simp
    qed
  next
    assume "Suc j = nparts sz P"
    then have "length P \<le> Suc j * sz"
      using nparts_bounds(3) [OF sz(1,2)] by simp
    then have "length P - j * sz \<le> sz"
      by simp
    then show ?last
      using len f(1) by simp
  qed
  let ?n = "if ?last then bf_len (outgoing f) else outgoing_frag_size f"
  have n: "?n = int (length ?c)"
    using last chunk_last [OF sz(1,2), of j] chunk_full [OF sz(1,2), of j] sz(3) len f(1) by auto
  have nle: "?n \<le> bf_len (outgoing f)" "?n \<le> int sz"
    using f(1) by auto
  have room: "buf_wf (outgoing_return f)" "buf_defined (outgoing_return f)" "0 \<le> fm_headroom fm"
    "fm_headroom fm \<le> bf_cap (outgoing_return f)"
    using ret by (auto simp: send_room_def)
  obtain b1 where b1: "buf_init (outgoing_return f) (fm_headroom fm) = (True, b1)" "buf_wf b1" "content b1 = []"
    "bf_off b1 = fm_headroom fm" "bf_cap b1 = bf_cap (outgoing_return f)" "buf_defined b1" "bf_len b1 = 0"
    by (rule buf_init_ok [OF room])
  have safe: "buf_safe b1 ?n"
    using b1 ret nle n by (auto simp: buf_safe_wf send_room_def)
  have n0: "0 \<le> ?n"
    using n by simp
  obtain b2 out' where b2: "buf_copy_n b1 (outgoing f) ?n = (True, b2, out')" "buf_wf b2" "buf_wf out'"
    "content b2 = content b1 @ take (nat ?n) (content (outgoing f))"
    "content out' = drop (nat ?n) (content (outgoing f))"
    "bf_off b2 = bf_off b1" "bf_cap b2 = bf_cap b1" "buf_defined b2"
    "bf_len out' = bf_len (outgoing f) - ?n"
    by (rule buf_copy_n_ok [OF b1(2) safe out(1) def n0 nle(1)])
  have t: "take (nat ?n) (content (outgoing f)) = ?c" "drop (nat ?n) (content (outgoing f)) = drop (Suc j * sz) P"
    unfolding n nat_int out(2) by (subst drop_chunk, simp)+
  have off4: "4 \<le> bf_off b2"
    using b2 b1 ret by (simp add: send_room_def)
  obtain b3 where b3: "fragment_prepend_flags b2 (if ?last then FRAG_YES_LAST else FRAG_YES_NOTLAST)
      (outgoing_seq_id f) (outgoing_frag_id f) (outgoing_frag_size f) = Some b3" "buf_wf b3"
    "content b3 = enc32 (fragment_flags (if ?last then FRAG_YES_LAST else FRAG_YES_NOTLAST)
      (outgoing_seq_id f) (outgoing_frag_id f) (outgoing_frag_size f)) @ content b2"
    "bf_cap b3 = bf_cap b2" "buf_defined b3"
    by (rule fragment_prepend_flags_ok [OF b2(2,8) off4])
  have pos: "fragment_outgoing_defined f"
    using lpos by (simp add: fragment_outgoing_defined_def)
  have nz: "\<not> (?last \<and> bf_len out' \<noteq> 0)"
    using b2(9) by auto
  let ?f = "f\<lparr>outgoing := out', outgoing_frag_id := outgoing_frag_id f + 1,
              outgoing_return := (outgoing_return f)\<lparr>bf_data := bf_data b3\<rparr>\<rparr>"
  have r: "fragment_ready_to_send f b fm = Some (True, ?f, b3)"
    unfolding fragment_ready_to_send_def Let_def if_P [OF pos] b1(1) prod.case bool.case b2(1) b3(1)
      option.case if_not_P [OF nz] by simp
  have ret': "send_room fm (int sz) (outgoing_return ?f)"
  proof -
    obtain m where m: "bf_data b3 = Some m"
      using b3(5) by (auto simp: buf_defined_def)
    have "int (length m) = bf_cap (outgoing_return f)"
      using buf_wf_mem [OF b3(2) m] b3(4) b2(7) b1(5) by simp
    then show ?thesis
      using ret m room(2) by (auto simp: send_room_def buf_wf_def buf_defined_def)
  qed
  have c2: "content b2 = ?c"
    using b2(4) t(1) b1(3) by simp
  show thesis
  proof (rule that [OF r b3(2)])
    show "content b3 = part_packet sz (outgoing_seq_id f) P j"
      unfolding b3(3) c2 part_packet_def part_type_def f by (simp only: last [unfolded f])
  qed (use ret' b2(3,5) t f in \<open>simp_all only: fragment_master.simps of_nat_Suc add.commute\<close>, simp_all)
qed

text \<open>
  The rest of a packet: the main loop calls \<^verbatim>\<open>fragment_ready_to_send\<close> until it returns
  false. A packet has at most 32 parts, so that many rounds are enough; a failed assertion and
  parts that are left after the last round are told apart.
\<close>

datatype send_error = Assertion_Failed | Rounds_Exhausted

fun send_rest :: "nat \<Rightarrow> fragment_master \<Rightarrow> frame \<Rightarrow> send_error + (fragment_master \<times> byte list list)" where
  "send_rest 0 f fm = (if fragment_outgoing_defined f then Inl Rounds_Exhausted else Inr (f, []))"
| "send_rest (Suc n) f fm =
     (case fragment_ready_to_send f clear_buf fm of
        None \<Rightarrow> Inl Assertion_Failed
      | Some (False, f', _) \<Rightarrow> Inr (f', [])
      | Some (True, f', b) \<Rightarrow> map_sum id (\<lambda>(f'', ps). (f'', content b # ps)) (send_rest n f' fm))"

definition send_packet :: "fragment_master \<Rightarrow> buffer \<Rightarrow> frame \<Rightarrow> send_error + (fragment_master \<times> byte list list)" where
  "send_packet f b fm =
     (case fragment_outgoing f b fm of
        None \<Rightarrow> Inl Assertion_Failed
      | Some (f', b') \<Rightarrow> map_sum id (\<lambda>(f'', ps). (f'', content b' # ps)) (send_rest 32 f' fm))"

lemma send_rest_parts:
  assumes sz: "0 < sz" "P \<noteq> []" "j \<le> nparts sz P" "nparts sz P - j \<le> n"
    and out: "buf_wf (outgoing f)" "content (outgoing f) = drop (j * sz) P"
    and f: "outgoing_frag_size f = int sz" "outgoing_frag_id f = int j"
    and ret: "send_room fm (int sz) (outgoing_return f)"
  shows "\<exists>f'. send_rest n f fm = Inr (f', map (part_packet sz (outgoing_seq_id f) P) [j..<nparts sz P])"
  using assms(3-)
proof (induction n arbitrary: j f)
  case 0
  then have "length P \<le> j * sz"
    using nparts_bounds(3) [OF sz(1,2)] by simp
  then have "content (outgoing f) = []"
    using 0 by simp
  then have "bf_len (outgoing f) = 0"
    using bf_len_content [OF 0(3)] by simp
  with 0 show ?case
    by (simp add: fragment_outgoing_defined_def)
next
  case (Suc n)
  show ?case
  proof (cases "j < nparts sz P")
    case True
    obtain f' b' where r: "fragment_ready_to_send f clear_buf fm = Some (True, f', b')"
      "buf_wf b'" "content b' = part_packet sz (outgoing_seq_id f) P j"
      "buf_wf (outgoing f')" "content (outgoing f') = drop (Suc j * sz) P"
      "outgoing_frag_size f' = int sz" "outgoing_frag_id f' = int (Suc j)"
      "outgoing_seq_id f' = outgoing_seq_id f"
      "send_room fm (int sz) (outgoing_return f')" "incoming f' = incoming f"
      by (rule ready_to_send_part [OF sz(1,2) True Suc.prems(3-7), of clear_buf])
    have "Suc j \<le> nparts sz P" "nparts sz P - Suc j \<le> n"
      using True Suc.prems(2) by auto
    from Suc.IH [OF this r(4-7,9)] obtain f'' where
      "send_rest n f' fm = Inr (f'', map (part_packet sz (outgoing_seq_id f') P) [Suc j..<nparts sz P])"
      by blast
    then show ?thesis
      using r(1,3,8) True by (simp add: upt_conv_Cons)
  next
    case False
    then have "length P \<le> j * sz"
      using nparts_bounds(3) [OF sz(1,2)] Suc.prems(1) by simp
    then have "content (outgoing f) = []"
      using Suc.prems by simp
    then have "bf_len (outgoing f) = 0"
      using bf_len_content [OF Suc.prems(3)] by simp
    with False show ?thesis
      by (simp add: fragment_ready_to_send_def fragment_outgoing_defined_def)
  qed
qed

lemma nparts_le:
  assumes "0 < sz" "length P \<le> sz * n" "P \<noteq> []"
  shows "nparts sz P \<le> n"
proof (rule ccontr)
  assume "\<not> nparts sz P \<le> n"
  then have "n \<le> nparts sz P - 1"
    by simp
  then have "n * sz \<le> (nparts sz P - 1) * sz"
    by (rule mult_le_mono1)
  then show False
    using nparts_bounds(2) [OF assms(1,3)] assms(2) unfolding mult.commute [of sz n] by linarith
qed

lemma fragment_outgoing_parts:
  assumes b: "buf_wf b" "content b = P" "fm_max_fragment_size fm < int (length P)"
    and opt: "optimal_fragment_size (int (length P)) (fm_max_fragment_size fm) = Some (int sz)"
    and sz: "0 < sz" "length P \<le> sz * 32"
    and room: "send_room fm (int (length P)) (outgoing f)" "send_room fm (int sz) (outgoing_return f)"
    and seq: "0 \<le> outgoing_seq_id f" "outgoing_seq_id f < 256" and ne: "P \<noteq> []"
  obtains f' where "send_packet f b fm
      = Inr (f', map (part_packet sz ((outgoing_seq_id f + 1) mod 256) P) [0..<nparts sz P])"
proof -
  have len: "bf_len b = int (length P)"
    using bf_len_content [OF b(1)] b(2) by simp
  let ?s = "(outgoing_seq_id f + 1) mod 256"
  have s: "modulo_add (outgoing_seq_id f) 1 N_SEQ_ID = Some ?s"
    using seq modulo_add_mod [of "outgoing_seq_id f" 256 1] by (simp add: N_SEQ_ID_def)
  have io: "buf_wf (outgoing f)" "buf_defined (outgoing f)" "0 \<le> fm_headroom fm" "fm_headroom fm \<le> bf_cap (outgoing f)"
    using room(1) by (auto simp: send_room_def)
  obtain o1 where o1: "buf_init (outgoing f) (fm_headroom fm) = (True, o1)" "buf_wf o1" "content o1 = []"
    "bf_off o1 = fm_headroom fm" "bf_cap o1 = bf_cap (outgoing f)" "buf_defined o1" "bf_len o1 = 0"
    by (rule buf_init_ok [OF io])
  have safe: "buf_safe o1 (int (length P))"
    using o1 room(1) by (simp add: buf_safe_wf send_room_def)
  obtain o2 where o2: "buf_write o1 P = (True, o2)" "buf_wf o2" "content o2 = content o1 @ P"
    by (rule buf_write_safe [OF o1(2) safe])
  have cp: "buf_copy o1 b = (True, o2)"
    using o2(1) b by (simp add: buf_copy_def buf_bytes_wf)
  let ?f = "f\<lparr>outgoing_frag_size := int sz, outgoing := o2, outgoing_seq_id := ?s, outgoing_frag_id := 0\<rparr>"
  have n0: "0 < nparts sz P"
    by (rule nparts_bounds(1) [OF sz(1) ne])
  have c0: "content (outgoing ?f) = drop (0 * sz) P"
    using o2(3) o1(3) by simp
  have f0: "outgoing_frag_size ?f = int sz" "outgoing_frag_id ?f = int 0"
    "send_room fm (int sz) (outgoing_return ?f)" "buf_wf (outgoing ?f)"
    using room(2) o2(2) by simp_all
  obtain f' b' where r: "fragment_ready_to_send ?f (b\<lparr>bf_len := 0\<rparr>) fm = Some (True, f', b')"
    "buf_wf b'" "content b' = part_packet sz (outgoing_seq_id ?f) P 0"
    "buf_wf (outgoing f')" "content (outgoing f') = drop (Suc 0 * sz) P"
    "outgoing_frag_size f' = int sz" "outgoing_frag_id f' = int (Suc 0)"
    "outgoing_seq_id f' = outgoing_seq_id ?f"
    "send_room fm (int sz) (outgoing_return f')"
    by (rule ready_to_send_part [OF sz(1) ne n0 f0(4) c0 f0(1,2,3), of "b\<lparr>bf_len := 0\<rparr>"])
  have pos: "bf_len b > 0" and big: "bf_len b > fm_max_fragment_size fm"
    using len ne b(3) by simp_all
  have fits: "\<not> bf_len b > int sz * MAX_FRAGS"
    using len sz(2) by (simp add: MAX_FRAGS_def)
  have out: "fragment_outgoing f b fm = Some (f', b')"
    using pos big opt [folded len] fits o1(1) cp s r(1)
    by (simp add: fragment_outgoing_def Let_def)
  have "Suc 0 \<le> nparts sz P" "nparts sz P - Suc 0 \<le> 32"
    using n0 nparts_le [OF sz ne] by auto
  from send_rest_parts [OF sz(1) ne this r(4-7,9)] obtain f'' where
    "send_rest 32 f' fm = Inr (f'', map (part_packet sz (outgoing_seq_id f') P) [Suc 0..<nparts sz P])"
    by blast
  then have "send_packet f b fm = Inr (f'', map (part_packet sz ?s P) [0..<nparts sz P])"
    using out r(3,8) n0 by (simp add: send_packet_def upt_conv_Cons)
  then show thesis
    by (rule that)
qed

section \<open>The receiver\<close>

lemma buf_copy_range_ok:
  assumes d: "buf_wf d" "bf_data d = Some m" and b: "buf_wf b" "content b = xs"
    and room: "0 \<le> i" "bf_off d + i + int (length xs) \<le> bf_cap d"
  obtains d' where "buf_copy_range d i b 0 (bf_len b) = (True, d')" "buf_wf d'"
    "bf_data d' = Some (mem_put m (nat (bf_off d + i)) xs)" "bf_off d' = bf_off d" "bf_cap d' = bf_cap d"
    "bf_len d' = max (bf_len d) (i + int (length xs))"
proof -
  have len: "bf_len b = int (length xs)"
    using bf_len_content [OF b(1)] b(2) by simp
  have bounds: "0 \<le> bf_off d" "0 \<le> bf_len d" "bf_off d + bf_len d \<le> bf_cap d" "bf_cap d = int (length m)"
    "bf_cap d < BUF_SIZE_MAX"
    using d by (auto simp: buf_wf_def)
  have get: "mem_get (bf_mem b) (nat (bf_off b + 0)) (nat (int (length xs))) = xs"
    using b(2) len by (simp add: content_def)
  let ?d0 = "d\<lparr>bf_data := Some (mem_put m (nat (bf_off d + i)) xs)\<rparr>"
  let ?d = "if i + int (length xs) > bf_len ?d0 then ?d0\<lparr>bf_len := i + int (length xs)\<rparr> else ?d0"
  have w: "buf_copy_range d i b 0 (bf_len b) = (True, ?d)"
    using room bounds d(2) get by (simp add: buf_copy_range_def len bf_poke_def Let_def)
  have fits: "nat (bf_off d + i) + length xs \<le> length m"
    using room bounds by linarith
  have "buf_wf ?d"
    using bounds room fits by (auto simp: buf_wf_def mem_simps)
  then show thesis
    using w by (intro that [of ?d]) (auto simp: max_def)
qed

definition copied :: "int \<Rightarrow> nat \<Rightarrow> byte list \<Rightarrow> buffer \<Rightarrow> nat \<Rightarrow> bool" where
  "copied h sz P b j \<longleftrightarrow>
     int (j * sz + length (chunk sz P j)) \<le> bf_len b
     \<and> mem_get (bf_mem b) (nat h + j * sz) (length (chunk sz P j)) = chunk sz P j"

definition part_inv :: "int \<Rightarrow> int \<Rightarrow> nat \<Rightarrow> byte list \<Rightarrow> nat set \<Rightarrow> fragment \<Rightarrow> bool" where
  "part_inv cap h sz P S fr \<longleftrightarrow>
     buf_wf (fr_buf fr) \<and> buf_defined (fr_buf fr) \<and> bf_cap (fr_buf fr) = cap \<and> bf_off (fr_buf fr) = h
     \<and> bf_len (fr_buf fr) \<le> int (length P)
     \<and> (\<forall>j \<in> S. copied h sz P (fr_buf fr) j)
     \<and> (\<forall>n < 32. bit (fr_map fr) n \<longleftrightarrow>
          n \<in> S \<or> nparts sz P - 1 \<in> S \<and> nparts sz P - 1 \<le> n)"

lemma copied_complete:
  assumes sz: "0 < sz" "P \<noteq> []" and b: "buf_wf b" "bf_off b = h" "bf_len b \<le> int (length P)"
    and all: "\<forall>j < nparts sz P. copied h sz P b j"
  shows "content b = P"
proof -
  let ?k = "nparts sz P"
  have pre: "mem_get (bf_mem b) (nat h) (length (take (j * sz) P)) = take (j * sz) P" if "j \<le> ?k" for j
    using that
  proof (induction j)
    case 0
    then show ?case by simp
  next
    case (Suc j)
    then have j: "j < ?k"
      by simp
    have l: "length (take (j * sz) P) = j * sz"
      using part_before [OF sz j] by simp
    have l2: "length (take (Suc j * sz) P) = j * sz + length (chunk sz P j)"
      unfolding take_chunk length_append l by simp
    have "mem_get (bf_mem b) (nat h + j * sz) (length (chunk sz P j)) = chunk sz P j"
      using all j by (simp add: copied_def)
    moreover have "mem_get (bf_mem b) (nat h) (j * sz) = take (j * sz) P"
      using Suc.IH j l by simp
    ultimately show ?case
      unfolding l2 mem_get_append by (simp only: take_chunk)
  qed
  have k0: "0 < ?k"
    by (rule nparts_bounds(1) [OF sz])
  have "copied h sz P b (?k - 1)"
    using all k0 by simp
  then have le: "int ((?k - 1) * sz + length (chunk sz P (?k - 1))) \<le> bf_len b"
    by (simp add: copied_def)
  have "chunk sz P (?k - 1) = drop ((?k - 1) * sz) P"
    using k0 by (intro chunk_last [OF sz]) simp
  then have "(?k - 1) * sz + length (chunk sz P (?k - 1)) = length P"
    using nparts_bounds(2) [OF sz] by simp
  with le have "int (length P) \<le> bf_len b"
    by (simp only:)
  with b(3) have len: "bf_len b = int (length P)"
    by simp
  have "take (?k * sz) P = P"
    using nparts_bounds(3) [OF sz] by simp
  with pre [of ?k] have "mem_get (bf_mem b) (nat h) (length P) = P"
    by simp
  then show ?thesis
    using b(2) len by (simp add: content_def)
qed

lemma map_complete:
  fixes m :: u32
  assumes "\<forall>n < 32. bit m n \<longleftrightarrow> n \<in> S \<or> k - 1 \<in> S \<and> k - 1 \<le> n" "S \<subseteq> {..<k}" "0 < k" "k \<le> 32"
  shows "m AND FRAG_MAP_MASK = FRAG_MAP_MASK \<longleftrightarrow> S = {..<k}"
proof -
  have mask: "FRAG_MAP_MASK = - 1"
    by (simp add: FRAG_MAP_MASK_def)
  have "m AND FRAG_MAP_MASK = FRAG_MAP_MASK \<longleftrightarrow> (\<forall>n < 32. bit m n)"
    unfolding mask by (auto simp: bit_eq_iff bit_simps)
  also have "\<dots> \<longleftrightarrow> S = {..<k}"
  proof
    assume a: "\<forall>n < 32. bit m n"
    have "n \<in> S" if n: "n < k" for n
    proof -
      have "n \<in> S \<or> k - 1 \<in> S \<and> k - 1 \<le> n"
        using a assms(1,4) n by (meson less_le_trans)
      moreover have "k - 1 \<le> n \<Longrightarrow> n = k - 1"
        using n by simp
      ultimately show ?thesis
        by blast
    qed
    with assms(2) show "S = {..<k}"
      by blast
  next
    assume S: "S = {..<k}"
    have "bit m n" if n: "n < 32" for n
    proof (cases "n < k")
      case True
      then show ?thesis
        using assms(1) n S by simp
    next
      case False
      then have "k - 1 \<le> n" "k - 1 \<in> S"
        using assms(3) S by auto
      then show ?thesis
        using assms(1) n by blast
    qed
    then show "\<forall>n < 32. bit m n"
      by blast
  qed
  finally show ?thesis .
qed

lemma part_inv_copy:
  assumes sz: "0 < sz" "P \<noteq> []" "j < nparts sz P" "nparts sz P \<le> 32"
    and inv: "part_inv cap h sz P S fr" and S: "S \<subseteq> {..<nparts sz P}" and h: "0 \<le> h"
    and room: "h + int (length P) \<le> cap"
    and b: "buf_wf b" "content b = chunk sz P j"
  obtains fb where "buf_copy_range (fr_buf fr) (int j * int sz) b 0 (bf_len b) = (True, fb)"
    "part_inv cap h sz P (insert j S)
       (fr\<lparr>fr_buf := fb, fr_map := fr_map fr OR push_bit j
              (if Suc j = nparts sz P then FRAG_MAP_MASK else 1), fr_timestamp := t\<rparr>)"
proof -
  let ?c = "chunk sz P j"
  have fb: "buf_wf (fr_buf fr)" "bf_cap (fr_buf fr) = cap" "bf_off (fr_buf fr) = h"
    "bf_len (fr_buf fr) \<le> int (length P)" "\<forall>i \<in> S. copied h sz P (fr_buf fr) i"
    using inv by (auto simp: part_inv_def)
  obtain m where m: "bf_data (fr_buf fr) = Some m"
    using inv by (auto simp: part_inv_def buf_defined_def)
  have lm: "int (length m) = cap"
    using buf_wf_mem [OF fb(1) m] fb(2) by simp
  have ends: "j * sz + length ?c \<le> length P" "length ?c \<le> sz"
    by (rule chunk_end [OF sz(1-3)])+
  have i0: "0 \<le> int j * int sz"
    by simp
  have r: "bf_off (fr_buf fr) + int j * int sz + int (length ?c) \<le> bf_cap (fr_buf fr)"
    using ends(1) room fb(2,3) by (simp flip: of_nat_mult of_nat_add)
  obtain d where d: "buf_copy_range (fr_buf fr) (int j * int sz) b 0 (bf_len b) = (True, d)" "buf_wf d"
    "bf_data d = Some (mem_put m (nat (bf_off (fr_buf fr) + int j * int sz)) ?c)"
    "bf_off d = bf_off (fr_buf fr)" "bf_cap d = bf_cap (fr_buf fr)"
    "bf_len d = max (bf_len (fr_buf fr)) (int j * int sz + int (length ?c))"
    by (rule buf_copy_range_ok [OF fb(1) m b i0 r])
  have p: "nat (bf_off (fr_buf fr) + int j * int sz) = nat h + j * sz"
    using fb(3) h by (simp add: nat_add_distrib nat_mult_distrib)
  have fits: "nat h + j * sz + length ?c \<le> length m"
    using ends(1) room lm h by linarith
  have mem: "bf_mem d = mem_put m (nat h + j * sz) ?c" and mem0: "bf_mem (fr_buf fr) = m"
    using d(3) m p by (simp_all add: bf_mem_def)
  have new: "copied h sz P d j"
    using d(6) fits by (simp add: copied_def mem mem_simps)
  have old: "copied h sz P d i" if i: "i \<in> S" "i \<noteq> j" for i
  proof -
    have c: "copied h sz P (fr_buf fr) i"
      using fb(5) i by blast
    have k: "i < nparts sz P"
      using S i by blast
    have e: "length (chunk sz P i) \<le> sz"
      by (rule chunk_end [OF sz(1,2) k])
    have "mem_get (mem_put m (nat h + j * sz) ?c) (nat h + i * sz) (length (chunk sz P i))
        = mem_get m (nat h + i * sz) (length (chunk sz P i))"
    proof (cases "i < j")
      case True
      then have "Suc i * sz \<le> j * sz"
        by (intro mult_le_mono1) simp
      then show ?thesis
        using e fits by (intro mem_get_put_before) auto
    next
      case False
      with i have "Suc j * sz \<le> i * sz"
        by (intro mult_le_mono1) simp
      then show ?thesis
        using ends(2) fits by (intro mem_get_put_after) auto
    qed
    moreover have "bf_len (fr_buf fr) \<le> bf_len d"
      unfolding d(6) by simp
    ultimately show ?thesis
      using c unfolding copied_def mem mem0 by (metis order_trans)
  qed
  have bits: "bit (fr_map fr OR push_bit j (if Suc j = nparts sz P then FRAG_MAP_MASK else 1)) n \<longleftrightarrow>
      n \<in> insert j S \<or> nparts sz P - 1 \<in> insert j S \<and> nparts sz P - 1 \<le> n" if n: "n < 32" for n
  proof -
    have o: "bit (fr_map fr) n \<longleftrightarrow> n \<in> S \<or> nparts sz P - 1 \<in> S \<and> nparts sz P - 1 \<le> n"
      using inv n by (simp add: part_inv_def)
    have mask: "FRAG_MAP_MASK = - 1"
      by (simp add: FRAG_MAP_MASK_def)
    show ?thesis
    proof (cases "Suc j = nparts sz P")
      case True
      then have "nparts sz P - 1 = j"
        by simp
      with True o n show ?thesis
        by (auto simp: bit_simps mask)
    next
      case False
      then have "nparts sz P - 1 \<noteq> j"
        using sz(3) by simp
      with False o n show ?thesis
        by (auto simp: bit_simps)
    qed
  qed
  have "bf_len d \<le> int (length P)"
    using d(6) fb(4) ends(1) by (simp flip: of_nat_mult of_nat_add)
  moreover have "buf_defined d"
    using d(3) by (simp add: buf_defined_def)
  moreover have "\<forall>i \<in> insert j S. copied h sz P d i"
    using new old by blast
  ultimately show thesis
    using d fb bits by (intro that [of d]) (simp_all add: part_inv_def)
qed

definition slots_ok :: "int \<Rightarrow> int \<Rightarrow> fragment_list \<Rightarrow> bool" where
  "slots_ok cap h l \<longleftrightarrow>
     0 \<le> fl_index l \<and> fl_index l < N_FRAG_BUF \<and> 0 \<le> fl_seq_id l \<and> fl_seq_id l < N_SEQ_ID
     \<and> length (fl_fragments l) = nat N_FRAG_BUF \<and> 0 \<le> h \<and> h \<le> cap
     \<and> (\<forall>fr \<in> set (fl_fragments l). buf_wf (fr_buf fr) \<and> buf_defined (fr_buf fr) \<and> bf_cap (fr_buf fr) = cap)"

lemma set_update_ok: "\<forall>x \<in> set xs. Q x \<Longrightarrow> Q y \<Longrightarrow> \<forall>x \<in> set (xs[i := y]). Q x"
  using set_update_subset_insert [of xs i y] by blast

lemma frag_advance_ok:
  assumes "slots_ok cap h l"
  shows "\<exists>l2. frag_advance d l = Some l2 \<and> slots_ok cap h l2
      \<and> fl_index l2 = (fl_index l + int d) mod N_FRAG_BUF
      \<and> fl_seq_id l2 = (fl_seq_id l + int d) mod N_SEQ_ID
      \<and> (0 < d \<longrightarrow> \<not> fr_defined (fl_fragments l2 ! nat (fl_index l2)))"
  using assms
proof (induction d arbitrary: l)
  case 0
  then show ?case by (simp add: slots_ok_def)
next
  case (Suc d)
  let ?i = "(fl_index l + 1) mod N_FRAG_BUF" and ?s = "(fl_seq_id l + 1) mod N_SEQ_ID"
  let ?l = "l\<lparr>fl_index := ?i, fl_seq_id := ?s,
      fl_fragments := (fl_fragments l)[nat ?i := (fl_fragments l ! nat ?i)\<lparr>fr_defined := False\<rparr>]\<rparr>"
  have m: "modulo_add (fl_index l) 1 N_FRAG_BUF = Some ?i" "modulo_add (fl_seq_id l) 1 N_SEQ_ID = Some ?s"
    using Suc.prems by (auto simp: slots_ok_def N_FRAG_BUF_def N_SEQ_ID_def intro!: modulo_add_mod)
  have il: "0 \<le> ?i" "?i < N_FRAG_BUF" "0 \<le> ?s" "?s < N_SEQ_ID"
    by (simp_all add: N_FRAG_BUF_def N_SEQ_ID_def)
  have len: "nat ?i < length (fl_fragments l)"
    using il Suc.prems by (simp add: slots_ok_def)
  then have mem: "fl_fragments l ! nat ?i \<in> set (fl_fragments l)"
    by simp
  have "\<forall>fr \<in> set ((fl_fragments l)[nat ?i := (fl_fragments l ! nat ?i)\<lparr>fr_defined := False\<rparr>]).
      buf_wf (fr_buf fr) \<and> buf_defined (fr_buf fr) \<and> bf_cap (fr_buf fr) = cap"
    using Suc.prems mem unfolding slots_ok_def by (intro set_update_ok) auto
  then have ok: "slots_ok cap h ?l"
    using Suc.prems il by (simp add: slots_ok_def)
  obtain l2 where l2: "frag_advance d ?l = Some l2" "slots_ok cap h l2"
    "fl_index l2 = (?i + int d) mod N_FRAG_BUF" "fl_seq_id l2 = (?s + int d) mod N_SEQ_ID"
    "0 < d \<longrightarrow> \<not> fr_defined (fl_fragments l2 ! nat (fl_index l2))"
    using Suc.IH [OF ok] by auto
  have e: "(?i + int d) mod N_FRAG_BUF = (fl_index l + int (Suc d)) mod N_FRAG_BUF"
    "(?s + int d) mod N_SEQ_ID = (fl_seq_id l + int (Suc d)) mod N_SEQ_ID"
    by (simp_all add: mod_simps add.assoc)
  have "\<not> fr_defined (fl_fragments l2 ! nat (fl_index l2))"
  proof (cases d)
    case 0
    with l2(1) len il show ?thesis
      by auto
  next
    case (Suc d')
    with l2(5) show ?thesis
      by simp
  qed
  with l2 e m show ?case
    by (intro exI [of _ l2]) simp
qed

lemma modulo_subtract_256:
  assumes "0 \<le> x" "x < N_SEQ_ID" "0 \<le> y" "y < N_SEQ_ID"
  obtains d where "modulo_subtract x y N_SEQ_ID = Some d" "(y + d) mod N_SEQ_ID = x" "x = y \<Longrightarrow> d = 0"
proof -
  consider "x > y" | "x = y" | "x < y"
    by linarith
  then show thesis
  proof cases
    case 1
    show ?thesis
    proof (cases "x - y > 128")
      case True
      with 1 assms show ?thesis
        by (intro that [of "x - y - 256"]) (simp_all add: modulo_subtract_def N_SEQ_ID_def Let_def)
    next
      case False
      with 1 assms show ?thesis
        by (intro that [of "x - y"]) (simp_all add: modulo_subtract_def N_SEQ_ID_def Let_def)
    qed
  next
    case 2
    with assms show ?thesis
      by (intro that [of 0]) (simp_all add: modulo_subtract_def N_SEQ_ID_def Let_def)
  next
    case 3
    show ?thesis
    proof (cases "y - x > 128")
      case True
      with 3 assms show ?thesis
        by (intro that [of "x - y + 256"]) (simp_all add: modulo_subtract_def N_SEQ_ID_def Let_def)
    next
      case False
      with 3 assms show ?thesis
        by (intro that [of "x - y"]) (simp_all add: modulo_subtract_def N_SEQ_ID_def Let_def)
    qed
  qed
qed

text \<open>
  The slot of a sequence number inside the window. Every sequence number gets one, and a
  second look-up finds it again without moving the window.
\<close>

definition slot_at :: "fragment_list \<Rightarrow> int \<Rightarrow> nat \<Rightarrow> bool" where
  "slot_at l s i \<longleftrightarrow> (\<exists>d \<le> 0. modulo_subtract s (fl_seq_id l) N_SEQ_ID = Some d \<and> \<bar>d\<bar> < N_FRAG_BUF
      \<and> i = nat ((fl_index l + d) mod N_FRAG_BUF))"

lemma slot_at_get:
  assumes "slots_ok cap h l" "slot_at l s i"
  shows "fragment_list_get_buf l s = Some (i, l)" "i < nat N_FRAG_BUF"
proof -
  obtain d where d: "d \<le> 0" "modulo_subtract s (fl_seq_id l) N_SEQ_ID = Some d" "\<bar>d\<bar> < N_FRAG_BUF"
    "i = nat ((fl_index l + d) mod N_FRAG_BUF)"
    using assms(2) by (auto simp: slot_at_def)
  have "modulo_add (fl_index l) d N_FRAG_BUF = Some ((fl_index l + d) mod N_FRAG_BUF)"
    using assms(1) d by (intro modulo_add_mod) (auto simp: slots_ok_def)
  then show "fragment_list_get_buf l s = Some (i, l)"
    using d by (simp add: fragment_list_get_buf_def Let_def)
  show "i < nat N_FRAG_BUF"
    by (simp add: d N_FRAG_BUF_def)
qed

lemma slot_at_upd: "slot_at (upd_frag l k g) s i = slot_at l s i"
  by (simp add: slot_at_def upd_frag_def)

lemma get_buf_ok:
  assumes ok: "slots_ok cap h l" and s: "0 \<le> s" "s < N_SEQ_ID"
  obtains i l2 where "fragment_list_get_buf l s = Some (i, l2)" "slots_ok cap h l2" "slot_at l2 s i"
proof -
  have wf: "0 \<le> fl_index l" "fl_index l < N_FRAG_BUF" "0 \<le> fl_seq_id l" "fl_seq_id l < N_SEQ_ID"
    using ok by (simp_all add: slots_ok_def)
  obtain d where d: "modulo_subtract s (fl_seq_id l) N_SEQ_ID = Some d" "(fl_seq_id l + d) mod N_SEQ_ID = s"
    by (rule modulo_subtract_256 [OF s wf(3,4)])
  have same: "modulo_subtract s s N_SEQ_ID = Some 0"
    using s by (simp add: modulo_subtract_def Let_def)
  have stable: "slot_at l2 s (nat (fl_index l2))" if "fl_seq_id l2 = s" "slots_ok cap h l2" for l2
    using that same by (auto simp: slot_at_def slots_ok_def N_FRAG_BUF_def)
  consider (far) "\<bar>d\<bar> \<ge> N_FRAG_BUF" | (new) "\<not> \<bar>d\<bar> \<ge> N_FRAG_BUF" "d > 0" | (old) "\<bar>d\<bar> < N_FRAG_BUF" "d \<le> 0"
    by linarith
  then show thesis
  proof cases
    case far
    let ?l = "l\<lparr>fl_fragments := map (\<lambda>fr. fr\<lparr>fr_defined := False\<rparr>) (fl_fragments l), fl_index := 0, fl_seq_id := s\<rparr>"
    have ok2: "slots_ok cap h ?l"
      using ok s by (auto simp: slots_ok_def N_FRAG_BUF_def)
    have "fragment_list_get_buf l s = Some (nat (fl_index ?l), ?l)"
      using d(1) far by (simp add: fragment_list_get_buf_def modulo_add_def N_FRAG_BUF_def Let_def)
    then show ?thesis
      using ok2 stable [OF _ ok2] by (intro that) auto
  next
    case new
    obtain l2 where l2: "frag_advance (nat d) l = Some l2" "slots_ok cap h l2"
      "fl_seq_id l2 = (fl_seq_id l + int (nat d)) mod N_SEQ_ID"
      using frag_advance_ok [OF ok, of "nat d"] by blast
    have sid: "fl_seq_id l2 = s"
      using l2(3) d(2) new(2) by simp
    have "modulo_add (fl_index l2) 0 N_FRAG_BUF = Some (fl_index l2)"
      using l2(2) by (simp add: slots_ok_def modulo_add_def N_FRAG_BUF_def Let_def)
    then have "fragment_list_get_buf l s = Some (nat (fl_index l2), l2)"
      using d(1) new l2(1) by (simp add: fragment_list_get_buf_def Let_def)
    then show ?thesis
      using l2(2) stable [OF sid l2(2)] by (intro that) auto
  next
    case old
    then have "slot_at l s (nat ((fl_index l + d) mod N_FRAG_BUF))"
      using d(1) by (auto simp: slot_at_def)
    then show ?thesis
      using slot_at_get(1) [OF ok] ok by (intro that) auto
  qed
qed

text \<open>The slot of the packet under reassembly, after the parts in \<open>S\<close> have arrived.\<close>

definition slot_state :: "int \<Rightarrow> int \<Rightarrow> nat \<Rightarrow> byte list \<Rightarrow> nat set \<Rightarrow> fragment \<Rightarrow> bool" where
  "slot_state cap h sz P S fr \<longleftrightarrow>
     (if S = {} then \<not> fr_defined fr
      else fr_defined fr \<and> fr_max_frag_size fr = int sz \<and> part_inv cap h sz P S fr)"

lemma slot_prepare:
  assumes "slot_state cap h sz P S fr" "buf_wf (fr_buf fr)" "buf_defined (fr_buf fr)"
    "bf_cap (fr_buf fr) = cap" "0 \<le> h" "h \<le> cap"
  obtains fr1 where
    "(if \<not> fr_defined fr \<or> fr_max_frag_size fr \<noteq> int sz
      then (case buf_init (fr_buf fr) h of
              (False, _) \<Rightarrow> None
            | (True, fb) \<Rightarrow> Some (fr\<lparr>fr_defined := True, fr_max_frag_size := int sz, fr_map := 0, fr_buf := fb\<rparr>))
      else Some fr) = Some fr1"
    "fr_defined fr1" "fr_max_frag_size fr1 = int sz" "part_inv cap h sz P S fr1"
proof (cases "S = {}")
  case True
  obtain fb where fb: "buf_init (fr_buf fr) h = (True, fb)" "buf_wf fb" "bf_off fb = h"
    "bf_cap fb = bf_cap (fr_buf fr)" "buf_defined fb" "bf_len fb = 0"
    by (rule buf_init_ok [OF assms(2,3,5)]) (use assms(4,6) in auto)
  have "\<not> fr_defined fr"
    using assms(1) True by (simp add: slot_state_def)
  with fb assms(4) True show ?thesis
    by (intro that) (auto simp: part_inv_def)
next
  case False
  with assms(1) show ?thesis
    by (intro that [of fr]) (auto simp: slot_state_def)
qed

lemma part_header:
  assumes "0 < sz" "P \<noteq> []" "j < nparts sz P" "nparts sz P \<le> 32" "0 \<le> s" "s < 256"
    "sz < 65536" "sz mod 4 = 0" "buf_wf b" "content b = chunk sz P j"
  defines "w \<equiv> fragment_flags (part_type sz P j) s (int j) (int sz)"
  shows "uint (drop_bit FRAG_TYPE_SHIFT w AND FRAG_TYPE_MASK) = part_type sz P j"
    "uint (drop_bit FRAG_SEQ_ID_SHIFT w AND FRAG_SEQ_ID_MASK) = s"
    "uint (drop_bit FRAG_ID_SHIFT w AND FRAG_ID_MASK) = int j"
    "(if part_type sz P j = FRAG_YES_LAST
      then sint (push_bit FRAG_SIZE_ROUND_SHIFT (drop_bit FRAG_SIZE_SHIFT w AND FRAG_SIZE_MASK))
      else bf_len b) = int sz"
proof -
  have ty: "part_type sz P j = FRAG_YES_NOTLAST \<or> part_type sz P j = FRAG_YES_LAST"
    by (simp add: part_type_def)
  have j: "0 \<le> int j" "int j < 32"
    using assms(3,4) by auto
  note fields = fragment_flags_fields [OF ty assms(5,6) j, of "int sz", folded w_def]
  show "uint (drop_bit FRAG_TYPE_SHIFT w AND FRAG_TYPE_MASK) = part_type sz P j"
    "uint (drop_bit FRAG_SEQ_ID_SHIFT w AND FRAG_SEQ_ID_MASK) = s"
    "uint (drop_bit FRAG_ID_SHIFT w AND FRAG_ID_MASK) = int j"
    by (rule fields(1-3))+
  show "(if part_type sz P j = FRAG_YES_LAST
      then sint (push_bit FRAG_SIZE_ROUND_SHIFT (drop_bit FRAG_SIZE_SHIFT w AND FRAG_SIZE_MASK))
      else bf_len b) = int sz"
  proof (cases "Suc j = nparts sz P")
    case True
    then have t: "part_type sz P j = FRAG_YES_LAST"
      by (simp add: part_type_def)
    have "int sz mod 4 = 0"
      using assms(8) by presburger
    then show ?thesis
      using fields(4) [OF t] assms(7) t by simp
  next
    case False
    then have "part_type sz P j \<noteq> FRAG_YES_LAST"
      by (simp add: part_type_def frag_types)
    moreover have "length (chunk sz P j) = sz"
      using chunk_full [OF assms(1,2)] False assms(3) by simp
    ultimately show ?thesis
      using bf_len_content [OF assms(9)] assms(10) by simp
  qed
qed

lemma incoming_is_part:
  assumes sz: "0 < sz" "P \<noteq> []" "j < nparts sz P" "nparts sz P \<le> 32" and s: "0 \<le> s" "s < 256"
    and sz4: "sz < 65536" "sz mod 4 = 0"
    and b: "buf_wf b" "content b = part_packet sz s P j"
  obtains b1 where "buf_wf b1" "content b1 = chunk sz P j"
    "\<And>f. fragment_incoming f b fm t = fragment_incoming_part f b1 fm t
       (fragment_flags (part_type sz P j) s (int j) (int sz)) (part_type sz P j)"
proof -
  let ?w = "fragment_flags (part_type sz P j) s (int j) (int sz)"
  have len: "bf_len b = int (length (enc32 ?w @ chunk sz P j))"
    using bf_len_content [OF b(1)] b(2) by (simp add: part_packet_def)
  then have pos: "bf_len b > 0" and four: "4 \<le> bf_len b"
    by (simp_all add: codec_simps)
  have def: "buf_defined b"
    using b(1) pos by (auto simp: buf_wf_def buf_defined_def split: option.splits)
  obtain b1 where b1: "buf_read b 4 = (Some (take (nat 4) (content b)), b1)" "buf_wf b1"
    "content b1 = drop (nat 4) (content b)"
    by (rule buf_read_ok [OF b(1) def _ four]) simp
  have bs: "dec32 (take (nat 4) (content b)) = ?w" and c1: "content b1 = chunk sz P j"
    using b1(3) b(2) by (simp_all add: part_packet_def codec_simps)
  note hd = part_header [OF sz s sz4 b1(2) c1]
  have ty: "part_type sz P j \<noteq> FRAG_WHOLE" "part_type sz P j = FRAG_YES_NOTLAST \<or> part_type sz P j = FRAG_YES_LAST"
    by (simp_all add: part_type_def frag_types)
  show thesis
  proof (rule that [OF b1(2) c1])
    fix f
    show "fragment_incoming f b fm t = fragment_incoming_part f b1 fm t ?w (part_type sz P j)"
      unfolding fragment_incoming_def if_P [OF pos] b1(1) prod.case option.case bs Let_def hd(1)
        if_not_P [OF ty(1)] if_P [OF ty(2)] ..
  qed
qed

lemma incoming_part_step:
  assumes sz: "0 < sz" "P \<noteq> []" "j < nparts sz P" "nparts sz P \<le> 32" and s: "0 \<le> s" "s < 256"
    and sz4: "sz < 65536" "sz mod 4 = 0"
    and b: "buf_wf b" "content b = part_packet sz s P j"
    and ok: "slots_ok cap (fm_headroom fm) (incoming f)" and room: "fm_headroom fm + int (length P) \<le> cap"
    and at: "slot_at (incoming f) s i"
    and S: "slot_state cap (fm_headroom fm) sz P S (fl_fragments (incoming f) ! i)" "S \<subseteq> {..<nparts sz P}"
  obtains f' b' where "fragment_incoming f b fm t = Some (f', b')"
    "slots_ok cap (fm_headroom fm) (incoming f')"
    "slot_at (incoming f') s i"
    "if insert j S = {..<nparts sz P} then bf_len b' > 0 \<and> content b' = P
     else bf_len b' = 0 \<and> slot_state cap (fm_headroom fm) sz P (insert j S) (fl_fragments (incoming f') ! i)"
proof -
  let ?h = "fm_headroom fm" and ?l = "incoming f"
  let ?w = "fragment_flags (part_type sz P j) s (int j) (int sz)"
  note slot = slot_at_get [OF ok at]
  let ?fr = "fl_fragments ?l ! i"
  obtain b1 where b1: "buf_wf b1" "content b1 = chunk sz P j"
    and inc: "\<And>f. fragment_incoming f b fm t = fragment_incoming_part f b1 fm t ?w (part_type sz P j)"
    by (rule incoming_is_part [OF sz s sz4 b]) (rule that)
  note c1 = b1(2)
  note hd = part_header [OF sz s sz4 b1]
  have il: "i < length (fl_fragments ?l)"
    using ok slot(2) by (simp add: slots_ok_def)
  then have "?fr \<in> set (fl_fragments ?l)"
    by simp
  then have fb: "buf_wf (fr_buf ?fr)" "buf_defined (fr_buf ?fr)" "bf_cap (fr_buf ?fr) = cap"
    and h: "0 \<le> ?h" "?h \<le> cap"
    using ok by (auto simp: slots_ok_def)
  obtain fr1 where fr1: "(if \<not> fr_defined ?fr \<or> fr_max_frag_size ?fr \<noteq> int sz
      then (case buf_init (fr_buf ?fr) ?h of
              (False, _) \<Rightarrow> None
            | (True, fb) \<Rightarrow> Some (?fr\<lparr>fr_defined := True, fr_max_frag_size := int sz, fr_map := 0, fr_buf := fb\<rparr>))
      else Some ?fr) = Some fr1"
    "fr_defined fr1" "fr_max_frag_size fr1 = int sz" "part_inv cap ?h sz P S fr1"
    by (rule slot_prepare [OF S(1) fb h])
  obtain fb' where cp: "buf_copy_range (fr_buf fr1) (int j * int sz) b1 0 (bf_len b1) = (True, fb')"
    and inv: "part_inv cap ?h sz P (insert j S)
       (fr1\<lparr>fr_buf := fb', fr_map := fr_map fr1 OR push_bit j
              (if Suc j = nparts sz P then FRAG_MAP_MASK else 1), fr_timestamp := t\<rparr>)"
    by (rule part_inv_copy [OF sz fr1(4) S(2) h(1) room b1])
  define fr2 where "fr2 = fr1\<lparr>fr_buf := fb', fr_map := fr_map fr1 OR push_bit (nat (int j))
      (if part_type sz P j = FRAG_YES_LAST then FRAG_MAP_MASK else 1), fr_timestamp := t\<rparr>"
  have last: "part_type sz P j = FRAG_YES_LAST \<longleftrightarrow> Suc j = nparts sz P"
    by (simp add: part_type_def frag_types)
  have inv2: "part_inv cap ?h sz P (insert j S) fr2"
    using inv by (simp add: fr2_def last)
  have d2: "fr_defined fr2" "fr_max_frag_size fr2 = int sz" "fr_buf fr2 = fb'"
    using fr1 by (simp_all add: fr2_def)
  have al: "\<not> int sz AND FRAG_SIZE_ROUND_MASK \<noteq> 0"
    using sz4(2) unfolding and_round_mask by presburger
  have fin: "f\<lparr>incoming := ?l\<rparr> = f"
    by simp
  have r: "fragment_incoming f b fm t =
      (if fr_map fr2 AND FRAG_MAP_MASK = FRAG_MAP_MASK
       then Some (f\<lparr>incoming := upd_frag ?l i (\<lambda>_. fr2\<lparr>fr_defined := False\<rparr>)\<rparr>, fb')
       else Some (f\<lparr>incoming := upd_frag ?l i (\<lambda>_. fr2)\<rparr>, b1\<lparr>bf_len := 0\<rparr>))"
    unfolding inc fragment_incoming_part_def Let_def hd(2,3,4) slot(1) option.case prod.case
      if_not_P [OF al] fr1(1) cp bool.case fin fr2_def [symmetric] by simp
  have full: "fr_map fr2 AND FRAG_MAP_MASK = FRAG_MAP_MASK \<longleftrightarrow> insert j S = {..<nparts sz P}"
  proof (rule map_complete)
    show "\<forall>n < 32. bit (fr_map fr2) n \<longleftrightarrow>
        n \<in> insert j S \<or> nparts sz P - 1 \<in> insert j S \<and> nparts sz P - 1 \<le> n"
      using inv2 by (simp add: part_inv_def)
  qed (use S(2) sz in auto)
  have pb: "buf_wf fb'" "buf_defined fb'" "bf_cap fb' = cap" "bf_off fb' = ?h" "bf_len fb' \<le> int (length P)"
    "\<forall>n \<in> insert j S. copied ?h sz P fb' n"
    using inv2 by (simp_all add: part_inv_def d2)
  have ok': "slots_ok cap ?h (upd_frag ?l i g)" if "fr_buf (g ?fr) = fb'" for g
  proof -
    have "\<forall>fr \<in> set ((fl_fragments ?l)[i := g ?fr]).
        buf_wf (fr_buf fr) \<and> buf_defined (fr_buf fr) \<and> bf_cap (fr_buf fr) = cap"
      using ok pb that unfolding slots_ok_def by (intro set_update_ok) auto
    then show ?thesis
      using ok by (simp add: slots_ok_def upd_frag_def)
  qed
  have slot': "slot_at (upd_frag ?l i g) s i" for g
    using at by (simp add: slot_at_upd)
  show thesis
  proof (cases "insert j S = {..<nparts sz P}")
    case True
    have "content fb' = P"
      by (rule copied_complete [OF sz(1,2) pb(1,4,5)]) (use pb(6) True in auto)
    moreover from this have "bf_len fb' > 0"
      using bf_len_content [OF pb(1)] sz(2) by simp
    ultimately show ?thesis
      using r full True ok' [of "\<lambda>_. fr2\<lparr>fr_defined := False\<rparr>"]
        slot' [of "\<lambda>_. fr2\<lparr>fr_defined := False\<rparr>"] d2
      by (intro that [of "f\<lparr>incoming := upd_frag ?l i (\<lambda>_. fr2\<lparr>fr_defined := False\<rparr>)\<rparr>" fb']) simp_all
  next
    case False
    have "slot_state cap ?h sz P (insert j S) fr2"
      using inv2 d2 by (simp add: slot_state_def)
    moreover have "fl_fragments (upd_frag ?l i (\<lambda>_. fr2)) ! i = fr2"
      using il by (simp add: upd_frag_def)
    ultimately show ?thesis
      using r full False ok' [of "\<lambda>_. fr2"] slot' [of "\<lambda>_. fr2"] d2(3)
      by (intro that [of "f\<lparr>incoming := upd_frag ?l i (\<lambda>_. fr2)\<rparr>" "b1\<lparr>bf_len := 0\<rparr>"]) simp_all
  qed
qed

text \<open>A run of the receiver: the datagrams that come out, from the buffers that come in.\<close>

fun frag_recv :: "fragment_master \<Rightarrow> frame \<Rightarrow> int \<Rightarrow> buffer list \<Rightarrow> (fragment_master \<times> byte list list) option" where
  "frag_recv f fm t [] = Some (f, [])"
| "frag_recv f fm t (b # bs) =
     (case fragment_incoming f b fm t of
        None \<Rightarrow> None
      | Some (f', b') \<Rightarrow> map_option (\<lambda>(f'', ps). (f'', if bf_len b' > 0 then content b' # ps else ps))
                          (frag_recv f' fm t bs))"

lemma frag_recv_parts:
  assumes sz: "0 < sz" "P \<noteq> []" "nparts sz P \<le> 32" and s: "0 \<le> s" "s < 256"
    and sz4: "sz < 65536" "sz mod 4 = 0"
    and room: "fm_headroom fm + int (length P) \<le> cap"
    and bs: "\<forall>b \<in> set bs. buf_wf b" "map content bs = map (part_packet sz s P) js"
    and js: "distinct js" "js \<noteq> []" "set js \<inter> S = {}" "set js \<union> S = {..<nparts sz P}"
    and ok: "slots_ok cap (fm_headroom fm) (incoming f)"
    and at: "slot_at (incoming f) s i"
    and st: "slot_state cap (fm_headroom fm) sz P S (fl_fragments (incoming f) ! i)"
  shows "\<exists>f'. frag_recv f fm t bs = Some (f', [P])"
  using bs js ok at st
proof (induction js arbitrary: bs S f)
  case Nil
  then show ?case by simp
next
  case (Cons j js)
  obtain b bs' where bs: "bs = b # bs'"
    using Cons.prems(2) by (cases bs) auto
  have b: "buf_wf b" "content b = part_packet sz s P j"
    and bs': "\<forall>b \<in> set bs'. buf_wf b" "map content bs' = map (part_packet sz s P) js"
    using Cons.prems(1,2) bs by auto
  have j: "j < nparts sz P"
    using Cons.prems(6) by auto
  have S: "S \<subseteq> {..<nparts sz P}"
    using Cons.prems(6) by auto
  obtain f' b' where r: "fragment_incoming f b fm t = Some (f', b')"
    "slots_ok cap (fm_headroom fm) (incoming f')" "slot_at (incoming f') s i"
    "if insert j S = {..<nparts sz P} then bf_len b' > 0 \<and> content b' = P
     else bf_len b' = 0 \<and> slot_state cap (fm_headroom fm) sz P (insert j S) (fl_fragments (incoming f') ! i)"
    by (rule incoming_part_step [OF sz(1,2) j sz(3) s sz4 b Cons.prems(7) room Cons.prems(8,9) S])
  show ?case
  proof (cases "js = []")
    case True
    then have "insert j S = {..<nparts sz P}" "bs' = []"
      using Cons.prems(6) bs' by auto
    with r bs show ?thesis
      by simp
  next
    case False
    then obtain x where x: "x \<in> set js"
      by (cases js) auto
    then have "x \<notin> insert j S" "x < nparts sz P"
      using Cons.prems(3,5,6) by auto
    then have ne: "insert j S \<noteq> {..<nparts sz P}"
      by blast
    have "distinct js" "set js \<inter> insert j S = {}" "set js \<union> insert j S = {..<nparts sz P}"
      using Cons.prems(3,5,6) by auto
    from Cons.IH [OF bs' this(1) False this(2,3) r(2,3)] r(4) ne
    obtain f'' where "frag_recv f' fm t bs' = Some (f'', [P])"
      by auto
    with r(1,4) ne bs show ?thesis
      by simp
  qed
qed

lemma mset_map_eq:
  "mset xs = mset (map g ys) \<Longrightarrow> \<exists>zs. mset zs = mset ys \<and> xs = map g zs"
proof (induction xs arbitrary: ys)
  case Nil
  then have "ys = []"
    by (cases ys) auto
  then show ?case by simp
next
  case (Cons x xs)
  then have "x \<in> set (map g ys)"
    by (metis list.set_intros(1) mset_eq_setD)
  then obtain y us vs where y: "x = g y" "ys = us @ y # vs"
    by (auto dest!: split_list)
  then have "mset xs = mset (map g (us @ vs))"
    using Cons.prems by simp
  from Cons.IH [OF this] obtain zs where "mset zs = mset (us @ vs)" "xs = map g zs"
    by blast
  with y show ?case
    by (intro exI [of _ "y # zs"]) simp
qed

lemma incoming_after_get:
  assumes "fragment_list_get_buf (incoming f) s = Some (i, l2)" "fragment_list_get_buf l2 s = Some (i, l2)"
    and "uint (drop_bit FRAG_SEQ_ID_SHIFT flags AND FRAG_SEQ_ID_MASK) = s"
  shows "fragment_incoming_part f b fm t flags ty = fragment_incoming_part (f\<lparr>incoming := l2\<rparr>) b fm t flags ty"
  by (simp add: fragment_incoming_part_def Let_def assms)

section \<open>Memory safety of the receiver\<close>

lemma buf_copy_range_wf:
  assumes "buf_wf d" "buf_defined d" "buf_wf b" "buf_defined b"
    "buf_copy_range d i b 0 (bf_len b) = (r, d')"
  shows "buf_wf d' \<and> buf_defined d' \<and> bf_cap d' = bf_cap d"
proof (cases "i < 0 \<or> bf_off d + i + bf_len b > bf_cap d")
  case True
  then show ?thesis
    using assms by (auto simp: buf_copy_range_def)
next
  case False
  obtain m where m: "bf_data d = Some m"
    using assms(2) by (auto simp: buf_defined_def)
  have len: "bf_len b = int (length (content b))"
    by (rule bf_len_content [OF assms(3)])
  have "0 \<le> i" "bf_off d + i + int (length (content b)) \<le> bf_cap d"
    using False len by auto
  from buf_copy_range_ok [OF assms(1) m assms(3) refl this] assms(5) show ?thesis
    by (metis buf_defined_def option.distinct(1) prod.inject)
qed

lemma slots_ok_upd:
  assumes "slots_ok cap h l" "buf_wf (fr_buf fr)" "buf_defined (fr_buf fr)" "bf_cap (fr_buf fr) = cap"
  shows "slots_ok cap h (upd_frag l i (\<lambda>_. fr))"
proof -
  have "\<forall>x \<in> set ((fl_fragments l)[i := fr]). buf_wf (fr_buf x) \<and> buf_defined (fr_buf x) \<and> bf_cap (fr_buf x) = cap"
    using assms unfolding slots_ok_def by (intro set_update_ok) auto
  then show ?thesis
    using assms(1) by (simp add: slots_ok_def upd_frag_def)
qed

lemma buf_wf_cut: "buf_wf b \<Longrightarrow> buf_wf (b\<lparr>bf_len := 0\<rparr>)"
  by (auto simp: buf_wf_def split: option.splits)

lemma incoming_part_safe:
  assumes ok: "slots_ok cap (fm_headroom fm) (incoming f)" and b: "buf_wf b" "buf_defined b"
  shows "\<exists>f' b'. fragment_incoming_part f b fm t flags ty = Some (f', b')
     \<and> slots_ok cap (fm_headroom fm) (incoming f') \<and> buf_wf b'"
proof -
  let ?s = "uint (drop_bit FRAG_SEQ_ID_SHIFT flags AND FRAG_SEQ_ID_MASK)"
  let ?n = "uint (drop_bit FRAG_ID_SHIFT flags AND FRAG_ID_MASK)"
  define sz where "sz = (if ty = FRAG_YES_LAST
    then sint (push_bit FRAG_SIZE_ROUND_SHIFT (drop_bit FRAG_SIZE_SHIFT flags AND FRAG_SIZE_MASK)) else bf_len b)"
  have mask: "FRAG_SEQ_ID_MASK = mask 8"
    by (simp add: FRAG_SEQ_ID_MASK_def mask_eq_exp_minus_1)
  have "?s = take_bit 8 (uint (drop_bit FRAG_SEQ_ID_SHIFT flags))"
    unfolding mask take_bit_eq_mask [symmetric] by (rule unsigned_take_bit_eq)
  moreover have "take_bit 8 x < 256" for x :: int
    using take_bit_int_less_exp [of 8 x] by simp
  ultimately have s: "0 \<le> ?s" "?s < N_SEQ_ID"
    by (simp_all add: N_SEQ_ID_def)
  obtain i l where g: "fragment_list_get_buf (incoming f) ?s = Some (i, l)"
    "slots_ok cap (fm_headroom fm) l" "slot_at l ?s i"
    by (rule get_buf_ok [OF ok s])
  have il: "i < length (fl_fragments l)"
    using slot_at_get(2) [OF g(2,3)] g(2) by (simp add: slots_ok_def)
  let ?fr = "fl_fragments l ! i"
  have "?fr \<in> set (fl_fragments l)"
    using il by simp
  then have fr: "buf_wf (fr_buf ?fr)" "buf_defined (fr_buf ?fr)" "bf_cap (fr_buf ?fr) = cap"
    "0 \<le> fm_headroom fm" "fm_headroom fm \<le> cap"
    using g(2) by (auto simp: slots_ok_def)
  obtain fb where fb: "buf_init (fr_buf ?fr) (fm_headroom fm) = (True, fb)" "buf_wf fb"
    "bf_cap fb = bf_cap (fr_buf ?fr)" "buf_defined fb"
    by (rule buf_init_ok [OF fr(1,2,4)]) (use fr in auto)
  define fr1 where "fr1 = (if \<not> fr_defined ?fr \<or> fr_max_frag_size ?fr \<noteq> sz
    then ?fr\<lparr>fr_defined := True, fr_max_frag_size := sz, fr_map := 0, fr_buf := fb\<rparr> else ?fr)"
  have prep: "(if \<not> fr_defined ?fr \<or> fr_max_frag_size ?fr \<noteq> sz
      then (case buf_init (fr_buf ?fr) (fm_headroom fm) of
              (False, _) \<Rightarrow> None
            | (True, fb) \<Rightarrow> Some (?fr\<lparr>fr_defined := True, fr_max_frag_size := sz, fr_map := 0, fr_buf := fb\<rparr>))
      else Some ?fr) = Some fr1"
    by (simp add: fr1_def fb(1))
  have fr1: "buf_wf (fr_buf fr1)" "buf_defined (fr_buf fr1)" "bf_cap (fr_buf fr1) = cap"
    using fr fb by (simp_all add: fr1_def)
  obtain r cb where cp: "buf_copy_range (fr_buf fr1) (?n * sz) b 0 (bf_len b) = (r, cb)"
    by fastforce
  note cw = buf_copy_range_wf [OF fr1(1,2) b cp]
  have u1: "slots_ok cap (fm_headroom fm) (upd_frag l i (\<lambda>_. fr1))"
    by (rule slots_ok_upd [OF g(2) fr1])
  have u2: "slots_ok cap (fm_headroom fm) (upd_frag l i (\<lambda>_. x))" if "fr_buf x = cb" for x
    using cw fr1(3) that by (intro slots_ok_upd [OF g(2)]) simp_all
  show ?thesis
    unfolding fragment_incoming_part_def Let_def sz_def [symmetric] g(1) option.case prod.case prep cp
    using u1 u2 g(2) cw b(1) buf_wf_cut [OF b(1)] by (cases r) (auto simp: frag_err_def)
qed

section \<open>Properties\<close>

lemma fragment_size_parts:
  assumes "fm_max_fragment_size fm < int (length P)" "4 \<le> fm_max_fragment_size fm" "fm_max_fragment_size fm < 65536"
    and opt: "optimal_fragment_size (int (length P)) (fm_max_fragment_size fm) = Some sz"
    and fits: "int (length P) \<le> sz * MAX_FRAGS"
  obtains n where "sz = int n" "0 < n" "n < 65536" "n mod 4 = 0" "int n \<le> fm_max_fragment_size fm" "length P \<le> n * 32"
    "P \<noteq> []" "2 \<le> nparts n P" "nparts n P \<le> 32"
proof -
  have ne: "P \<noteq> []" and lp: "0 < int (length P)" using assms(1,2) by auto
  obtain s0 where s0: "optimal_fragment_size (int (length P)) (fm_max_fragment_size fm) = Some s0"
    "4 \<le> s0" "s0 \<le> fm_max_fragment_size fm - fm_max_fragment_size fm mod 4" "s0 mod 4 = 0"
    by (rule optimal_fragment_size_ok [OF lp assms(2)])
  have "0 \<le> fm_max_fragment_size fm mod 4" by simp
  then have sz: "4 \<le> sz" "sz \<le> fm_max_fragment_size fm" "sz mod 4 = 0" using s0 opt by auto
  define n where "n = nat sz"
  have szn: "sz = int n" using sz(1) by (simp add: n_def)
  then have n: "0 < n" "n < 65536" "n mod 4 = 0" using sz assms(3) by (auto simp: mod_eq_0_iff_dvd) presburger
  have l32: "length P \<le> n * 32" using fits szn by (simp add: MAX_FRAGS_def)
  have "\<not> nparts n P \<le> 1"
  proof
    assume "nparts n P \<le> 1"
    then have "length P \<le> n" using nparts_bounds(3) [OF n(1) ne] by (metis le_trans mult_le_mono1 nat_mult_1)
    then show False using assms(1) sz(2) szn by simp
  qed
  then show thesis using that [OF szn n _ l32 ne] sz(2) szn nparts_le [OF n(1) l32 ne] by simp
qed

lemma fragments_reassembled:
  assumes n: "0 < n" "n < 65536" "n mod 4 = 0" and ne: "P \<noteq> []" and k32: "nparts n P \<le> 32"
    and s: "0 \<le> s" "s < 256"
    and slots: "slots_ok cap (fm_headroom fm') (incoming g)" and cap: "fm_headroom fm' + int (length P) \<le> cap"
    and gb0: "fragment_list_get_buf (incoming g) s = Some (i, l)" and free: "\<not> fr_defined (fl_fragments l ! i)"
    and ps: "ps = map (part_packet n s P) [0..<nparts n P]"
    and wf: "\<forall>b \<in> set bs. buf_wf b" and ms: "mset (map content bs) = mset ps"
  shows "\<exists>g'. frag_recv g fm' t bs = Some (g', [P])"
proof -
  obtain js where js: "mset js = mset [0..<nparts n P]" "map content bs = map (part_packet n s P) js"
    using mset_map_eq ms unfolding ps by blast
  have djs: "distinct js" "set js = {..<nparts n P}"
    using js(1) by (metis distinct_upt mset_eq_imp_distinct_iff) (metis atLeast0LessThan js(1) set_mset_mset set_upt)
  have "0 < nparts n P"
    by (rule nparts_bounds(1) [OF n(1) ne])
  then have "0 \<in> set js"
    by (simp only: djs(2) lessThan_iff)
  then have jne: "js \<noteq> []"
    by auto
  have sN: "0 \<le> s" "s < N_SEQ_ID"
    using s by (simp_all add: N_SEQ_ID_def)
  obtain i2 l2 where gb: "fragment_list_get_buf (incoming g) s = Some (i2, l2)"
    "slots_ok cap (fm_headroom fm') l2" "slot_at l2 s i2"
    by (rule get_buf_ok [OF slots sN])
  have il: "i2 = i" "l2 = l"
    using gb(1) gb0 by simp_all
  let ?g = "g\<lparr>incoming := l\<rparr>"
  have run: "\<exists>g'. frag_recv ?g fm' t bs = Some (g', [P])"
  proof (rule frag_recv_parts [OF n(1) ne k32 s n(2,3) cap wf js(2) djs(1) jne])
    show "slot_state cap (fm_headroom fm') n P {} (fl_fragments (incoming ?g) ! i)"
      using free by (simp add: slot_state_def)
  qed (use gb il djs in simp_all)
  have "frag_recv g fm' t bs = frag_recv ?g fm' t bs"
  proof -
    obtain j js' where js': "js = j # js'"
      using jne by (cases js) auto
    obtain b0 bs' where bs: "bs = b0 # bs'"
      using js(2) js' by (cases bs) auto
    have jk: "j < nparts n P"
      using djs(2) js' by auto
    have b0: "buf_wf b0" "content b0 = part_packet n s P j"
      using wf js(2) js' bs by auto
    obtain b1 where b1: "buf_wf b1" "content b1 = chunk n P j"
      and inc: "\<And>f. fragment_incoming f b0 fm' t = fragment_incoming_part f b1 fm' t
         (fragment_flags (part_type n P j) s (int j) (int n)) (part_type n P j)"
      by (rule incoming_is_part [OF n(1) ne jk k32 s n(2,3) b0]) (rule that)
    have "fragment_list_get_buf l s = Some (i, l)"
      using slot_at_get(1) [OF gb(2,3)] il by simp
    then have "fragment_incoming g b0 fm' t = fragment_incoming ?g b0 fm' t"
      unfolding inc
      by (rule incoming_after_get [OF gb0 _ part_header(2) [OF n(1) ne jk k32 s n(2,3) b1]])
    then show ?thesis
      by (simp add: bs)
  qed
  then show ?thesis using run by simp
qed

text \<open>C23: Fragmentation is transparent. A packet too large for one datagram is sent without failing
  an assertion, as two to 32 datagrams, none longer than the configured maximum and its header; when
  these arrive, in whatever order, at a peer with a free slot for their sequence number, exactly one
  packet comes out, with the last of them, and it is the packet that was sent.\<close>

theorem fragment_reassembly:
  assumes "buf_wf b" "content b = P" "fm_max_fragment_size fm < int (length P)"
    and "4 \<le> fm_max_fragment_size fm" "fm_max_fragment_size fm < 65536"
    and "optimal_fragment_size (int (length P)) (fm_max_fragment_size fm) = Some sz"
    and "int (length P) \<le> sz * MAX_FRAGS"
    and "send_room fm (int (length P)) (outgoing f)" "send_room fm sz (outgoing_return f)"
    and "0 \<le> outgoing_seq_id f" "outgoing_seq_id f < N_SEQ_ID"
    and "s = (outgoing_seq_id f + 1) mod N_SEQ_ID"
    and "slots_ok cap (fm_headroom fm') (incoming g)" "fm_headroom fm' + int (length P) \<le> cap"
    and "fragment_list_get_buf (incoming g) s = Some (i, l)" "\<not> fr_defined (fl_fragments l ! i)"
  shows "\<exists>f' ps. send_packet f b fm = Inr (f', ps) \<and> 2 \<le> length ps \<and> length ps \<le> 32
     \<and> set ps \<subseteq> {p. int (length p) \<le> fm_max_fragment_size fm + 4}
     \<and> (\<forall>bs. (\<forall>b \<in> set bs. buf_wf b) \<and> mset (map content bs) = mset ps \<longrightarrow>
          (\<exists>g'. frag_recv g fm' t bs = Some (g', [P])))"
proof -
  obtain n where n: "sz = int n" "0 < n" "n < 65536" "n mod 4 = 0" "int n \<le> fm_max_fragment_size fm" "length P \<le> n * 32"
    "P \<noteq> []" "2 \<le> nparts n P" "nparts n P \<le> 32"
    by (rule fragment_size_parts [OF assms(3-7)])
  have s: "0 \<le> s" "s < 256" "s = (outgoing_seq_id f + 1) mod 256"
    by (simp_all add: assms(12) N_SEQ_ID_def)
  have sq: "0 \<le> outgoing_seq_id f" "outgoing_seq_id f < 256"
    using assms(10,11) by (simp_all add: N_SEQ_ID_def)
  obtain f' where snd: "send_packet f b fm = Inr (f', map (part_packet n s P) [0..<nparts n P])"
    using fragment_outgoing_parts [OF assms(1-3) assms(6) [unfolded n(1)] n(2,6) assms(8)
          assms(9) [unfolded n(1)] sq n(7)] unfolding s(3) by blast
  have short: "int (length (part_packet n s P j)) \<le> fm_max_fragment_size fm + 4" if "j < nparts n P" for j
    using chunk_end(2) [OF n(2,7) that] n(5) by (simp add: part_packet_def codec_simps)
  show ?thesis
    using snd n(8,9) short fragments_reassembled [OF n(2-4,7,9) s(1,2) assms(13-16) refl]
    by (intro exI [of _ f'] exI [of _ "map (part_packet n s P) [0..<nparts n P]"]) auto
qed

definition net_buf :: "byte list \<Rightarrow> buffer" where
  "net_buf p = \<lparr>bf_cap = int (length p), bf_off = 0, bf_len = int (length p), bf_data = Some p\<rparr>"

lemma net_buf_content [simp]: "content (net_buf p) = p"
  by (simp add: net_buf_def content_def bf_mem_def mem_get_def)

lemma net_buf_wf: "int (length p) < BUF_SIZE_MAX \<Longrightarrow> buf_wf (net_buf p)"
  by (simp add: net_buf_def buf_wf_def)

definition demo_fm :: frame where
  "demo_fm = \<lparr>fm_headroom = 8, fm_payload_size = 24, fm_tailroom = 4, fm_max_fragment_size = 9\<rparr>"

definition demo_master :: fragment_master where
  "demo_master = the (fragment_frame_init (fragment_init 300 100) demo_fm)"

definition demo_payload :: "byte list" where
  "demo_payload = [1, 2, 3, 4, 5, 6, 7, 8, 9, 10, 11, 12, 13, 14, 15, 16, 17, 18, 19, 20]"

definition demo_sent :: "byte list list" where
  "demo_sent = map (part_packet 8 45 demo_payload) [0..<nparts 8 demo_payload]"

lemma demo_frag_facts:
  "optimal_fragment_size (int (length demo_payload)) (fm_max_fragment_size demo_fm) = Some 8"
  "send_room demo_fm (int (length demo_payload)) (outgoing demo_master)"
  "send_room demo_fm 8 (outgoing_return demo_master)"
  "slots_ok 36 (fm_headroom demo_fm) (incoming demo_master)"
  "outgoing_seq_id demo_master = 44"
  "map_option (\<lambda>(i, l). \<not> fr_defined (fl_fragments l ! i)) (fragment_list_get_buf (incoming demo_master) 45)
     = Some True"
  by code_simp+

lemma demo_payload_facts:
  "fm_max_fragment_size demo_fm < int (length demo_payload)" "length demo_payload \<le> 8 * 32"
  "demo_payload \<noteq> []" "buf_wf (net_buf demo_payload)" "4 \<le> fm_max_fragment_size demo_fm"
  "fm_max_fragment_size demo_fm < 65536" "int (length demo_payload) \<le> 8 * MAX_FRAGS"
  "fm_headroom demo_fm + int (length demo_payload) \<le> 36"
  by (simp_all add: demo_fm_def demo_payload_def net_buf_wf BUF_SIZE_MAX_def MAX_FRAGS_def)

theorem fragment_reassembly_witness:
  "\<exists>f' ps. send_packet demo_master (net_buf demo_payload) demo_fm = Inr (f', ps) \<and> ps = demo_sent
     \<and> (\<exists>g'. frag_recv demo_master demo_fm 0 (map net_buf (rev demo_sent)) = Some (g', [demo_payload]))"
proof -
  have seq: "0 \<le> outgoing_seq_id demo_master" "outgoing_seq_id demo_master < N_SEQ_ID"
    "45 = (outgoing_seq_id demo_master + 1) mod N_SEQ_ID"
    by (simp_all add: demo_frag_facts(5) N_SEQ_ID_def)
  obtain i l where g: "fragment_list_get_buf (incoming demo_master) 45 = Some (i, l)"
    "\<not> fr_defined (fl_fragments l ! i)"
    using demo_frag_facts(6) by auto
  have wf: "\<forall>b \<in> set (map net_buf (rev demo_sent)). buf_wf b"
    by (auto simp: demo_sent_def part_packet_def chunk_def codec_simps BUF_SIZE_MAX_def intro!: net_buf_wf)
  have ms: "mset (map content (map net_buf (rev demo_sent))) = mset demo_sent"
    by (simp add: comp_def)
  have opt: "optimal_fragment_size (int (length demo_payload)) (fm_max_fragment_size demo_fm) = Some (int 8)"
    "send_room demo_fm (int 8) (outgoing_return demo_master)"
    using demo_frag_facts(1,3) by simp_all
  have sq: "0 \<le> outgoing_seq_id demo_master" "outgoing_seq_id demo_master < 256"
    by (simp_all add: demo_frag_facts(5))
  obtain f0 where "send_packet demo_master (net_buf demo_payload) demo_fm = Inr (f0, demo_sent)"
    using fragment_outgoing_parts [OF demo_payload_facts(4) net_buf_content demo_payload_facts(1) opt(1) _
        demo_payload_facts(2) demo_frag_facts(2) opt(2) sq demo_payload_facts(3)]
    unfolding demo_sent_def demo_frag_facts(5) by auto
  moreover obtain f' ps where p: "send_packet demo_master (net_buf demo_payload) demo_fm = Inr (f', ps)"
    "\<forall>bs. (\<forall>b \<in> set bs. buf_wf b) \<and> mset (map content bs) = mset ps \<longrightarrow>
       (\<exists>g'. frag_recv demo_master demo_fm 0 bs = Some (g', [demo_payload]))"
    using fragment_reassembly [OF demo_payload_facts(4) net_buf_content demo_payload_facts(1,5,6)
        demo_frag_facts(1) demo_payload_facts(7) demo_frag_facts(2,3) seq demo_frag_facts(4)
        demo_payload_facts(8) g] by blast
  ultimately have "ps = demo_sent" by simp
  then show ?thesis using p wf ms by blast
qed

text \<open>C30: The size chosen for the parts never costs a datagram: it needs as many parts as
  the configured maximum would, it is a multiple of 4, and it is not larger.\<close>

theorem optimal_fragment_size_same_count:
  assumes "0 < len" "4 \<le> mx"
  shows "case optimal_fragment_size len mx of
      None \<Rightarrow> False
    | Some s \<Rightarrow> 0 < s \<and> s \<le> mx \<and> s mod 4 = 0
        \<and> (len + s - 1) div s = (len + (mx - mx mod 4) - 1) div (mx - mx mod 4)"
proof -
  obtain s where "optimal_fragment_size len mx = Some s" "4 \<le> s" "s \<le> mx - mx mod 4" "s mod 4 = 0"
    "(len + s - 1) div s = (len + (mx - mx mod 4) - 1) div (mx - mx mod 4)"
    by (rule optimal_fragment_size_ok [OF assms])
  moreover have "0 \<le> mx mod 4"
    by simp
  ultimately show ?thesis
    by auto
qed

theorem optimal_fragment_size_same_count_witness:
  "optimal_fragment_size 1500 1403 = Some 752 \<and> (1500 + 752 - 1) div 752 = (1500 + 1400 - 1) div (1400 :: int)"
proof -
  have "optimal_fragment_size 1500 1403 = Some 752"
    by code_simp
  with optimal_fragment_size_same_count [of 1500 1403] show ?thesis
    by simp
qed

text \<open>C24: No datagram can break the receiver. Whatever bytes arrive, \<^verbatim>\<open>fragment_incoming\<close>
  fails no assertion and every reassembly buffer stays inside its block.\<close>

theorem fragment_incoming_safe:
  assumes "slots_ok cap (fm_headroom fm) (incoming f)" "buf_wf b"
  shows "\<exists>f' b'. fragment_incoming f b fm t = Some (f', b')
     \<and> slots_ok cap (fm_headroom fm) (incoming f') \<and> buf_wf b'"
proof (cases "4 \<le> bf_len b")
  case True
  then have def: "buf_defined b" and pos: "bf_len b > 0"
    using assms(2) by (auto simp: buf_wf_def buf_defined_def split: option.splits)
  obtain b1 where b1: "buf_read b 4 = (Some (take (nat 4) (content b)), b1)" "buf_wf b1" "buf_defined b1"
    by (rule buf_read_ok [OF assms(2) def _ True]) simp
  show ?thesis
    unfolding fragment_incoming_def if_P [OF pos] b1(1) prod.case option.case Let_def
    using assms(1) b1 buf_wf_cut [OF b1(2)] incoming_part_safe [OF assms(1) b1(2,3)]
    by (auto simp: frag_err_def)
next
  case False
  then show ?thesis
    using assms buf_wf_cut [OF assms(2)] by (auto simp: fragment_incoming_def buf_read_short frag_err_def)
qed

theorem fragment_incoming_safe_witness:
  "\<exists>f' b'. fragment_incoming demo_master (net_buf [1, 255, 3, 7, 9]) demo_fm 5 = Some (f', b')
     \<and> slots_ok 36 (fm_headroom demo_fm) (incoming f') \<and> buf_wf b'"
  by (rule fragment_incoming_safe [OF demo_frag_facts(4) net_buf_wf]) (simp add: BUF_SIZE_MAX_def)

end
