(* ===== verification/Link_Stream.thy ===== *)
theory Link_Stream
  imports Fragment
begin

text \<open>
  Packets over TCP (\<^verbatim>\<open>socket.c\<close>, \<^verbatim>\<open>socket.h\<close>, with \<^verbatim>\<open>is_openvpn_protocol\<close> of \<^verbatim>\<open>ps.c\<close> and
  \<^verbatim>\<open>alloc_buf_sock_tun\<close> of \<^verbatim>\<open>mtu.c\<close>): the stream buffer that cuts the bytes of a connection into
  packets, reading and writing.

  A failed \<^verbatim>\<open>ASSERT\<close> is \<open>None\<close>; what \<^verbatim>\<open>recv\<close> returns is an argument. The receiver refines a parser
  of the byte stream: \<open>tcp_stream\<close> interprets \<open>relational_simulation\<close> with the bytes that were
  received but not handed on yet (\<open>pending\<close>) as the abstract state.
\<close>

unbundle bit_operations_syntax

section \<open>State\<close>

datatype port_share_state = PS_DISABLED | PS_ENABLED | PS_FOREIGN

record stream_buf =
  sb_buf_init :: buffer
  sb_residual :: buffer
  sb_maxlen :: int
  residual_fully_formed :: bool
  sb_buf :: buffer
  sb_next :: buffer
  sb_len :: int
  sb_error :: bool
  sb_port_share :: port_share_state

text \<open>The part of \<^verbatim>\<open>struct link_socket\<close> that the stream code uses; \<open>ls_sd\<close>: the descriptor is valid.\<close>

record link_socket =
  ls_stream :: stream_buf
  ls_stream_reset :: bool
  ls_sd :: bool

definition P_OPCODE_SHIFT :: nat where "P_OPCODE_SHIFT = 3"
definition P_CONTROL_HARD_RESET_CLIENT_V2 :: int where "P_CONTROL_HARD_RESET_CLIENT_V2 = 7"
definition P_CONTROL_HARD_RESET_CLIENT_V3 :: int where "P_CONTROL_HARD_RESET_CLIENT_V3 = 10"

definition is_openvpn_protocol :: "buffer \<Rightarrow> bool" where
  "is_openvpn_protocol b =
     (let p = buf_bytes b; len = buf_len b in
      if len \<ge> 3 then
        let plen = push_bit 8 (uint (p ! 0)) OR uint (p ! 1) in
        if uint (p ! 2) = push_bit P_OPCODE_SHIFT P_CONTROL_HARD_RESET_CLIENT_V3
        then plen \<ge> 336 \<and> plen < 1024 + 255
        else plen \<ge> 14 \<and> plen \<le> 255 \<and> uint (p ! 2) = push_bit P_OPCODE_SHIFT P_CONTROL_HARD_RESET_CLIENT_V2
      else if len \<ge> 2 then
        let plen = push_bit 8 (uint (p ! 0)) OR uint (p ! 1) in plen \<ge> 14 \<and> plen \<le> 255
      else True)"

section \<open>Stream buffer\<close>

text \<open>
  The buffers \<^verbatim>\<open>buf_init\<close>, \<^verbatim>\<open>buf\<close> and \<^verbatim>\<open>next\<close> point into the same block of memory: it is the one
  of \<open>sb_buf\<close>, and \<open>sb_next\<close> only says where the next bytes go.
\<close>

definition stream_buf_reset :: "stream_buf \<Rightarrow> stream_buf" where
  "stream_buf_reset sb = sb\<lparr>residual_fully_formed := False,
     sb_buf := (sb_buf_init sb)\<lparr>bf_data := bf_data (sb_buf sb)\<rparr>,
     sb_next := buf_reset (sb_next sb), sb_len := -1\<rparr>"

definition alloc_buf_sock_tun :: "frame \<Rightarrow> buffer option" where
  "alloc_buf_sock_tun fm =
     (case alloc_buf (BUF_SIZE fm) of None \<Rightarrow> None
      | Some b \<Rightarrow>
          (case buf_init b (fm_headroom fm) of (False, _) \<Rightarrow> None
           | (True, b1) \<Rightarrow>
               let b2 = b1\<lparr>bf_len := fm_payload_size fm\<rparr> in if buf_safe b2 0 then Some b2 else None))"

text \<open>\<open>port_share\<close> is the test of the socket flags and the protocol.\<close>

definition stream_buf_init :: "buffer \<Rightarrow> bool \<Rightarrow> stream_buf option" where
  "stream_buf_init b port_share =
     (case alloc_buf (bf_len b) of None \<Rightarrow> None
      | Some res \<Rightarrow>
          Some (stream_buf_reset
            \<lparr>sb_buf_init = b\<lparr>bf_len := 0\<rparr>, sb_residual = res, sb_maxlen = bf_len b, residual_fully_formed = False,
             sb_buf = b, sb_next = clear_buf, sb_len = -1, sb_error = False,
             sb_port_share = (if port_share then PS_ENABLED else PS_DISABLED)\<rparr>))"

definition socket_frame_init :: "frame \<Rightarrow> bool \<Rightarrow> stream_buf option" where
  "socket_frame_init fm port_share =
     (case alloc_buf_sock_tun fm of None \<Rightarrow> None | Some b \<Rightarrow> stream_buf_init b port_share)"

definition stream_buf_set_next :: "stream_buf \<Rightarrow> stream_buf option" where
  "stream_buf_set_next sb =
     (let b = sb_buf sb;
          n = b\<lparr>bf_off := bf_off b + bf_len b, bf_len := (if sb_len sb \<ge> 0 then sb_len sb else sb_maxlen sb) - bf_len b\<rparr>
      in if bf_len n > 0 \<and> buf_safe b (bf_len n) then Some (sb\<lparr>sb_next := n\<rparr>) else None)"

definition stream_buf_get_final :: "stream_buf \<Rightarrow> buffer option" where
  "stream_buf_get_final sb = (if buf_defined (sb_buf sb) then Some (sb_buf sb) else None)"

definition stream_buf_get_next :: "stream_buf \<Rightarrow> buffer option" where
  "stream_buf_get_next sb = (if buf_defined (sb_next sb) then Some (sb_next sb) else None)"

text \<open>The second half: is the packet complete?\<close>

definition stream_buf_complete :: "stream_buf \<Rightarrow> (bool \<times> stream_buf) option" where
  "stream_buf_complete sb =
     (if sb_len sb > 0 \<and> bf_len (sb_buf sb) \<ge> sb_len sb
      then (case buf_init (sb_residual sb) 0 of (False, _) \<Rightarrow> None
            | (True, res) \<Rightarrow>
                if bf_len (sb_buf sb) > sb_len sb
                then (case buf_copy_excess res (sb_buf sb) (sb_len sb) of
                        (False, _) \<Rightarrow> None
                      | (True, res1, b1) \<Rightarrow> Some (True, sb\<lparr>sb_residual := res1, sb_buf := b1\<rparr>))
                else Some (True, sb\<lparr>sb_residual := res\<rparr>))
      else map_option (\<lambda>sb1. (False, sb1)) (stream_buf_set_next sb))"

definition stream_buf_added :: "stream_buf \<Rightarrow> int \<Rightarrow> (bool \<times> stream_buf) option" where
  "stream_buf_added sb0 length_added =
     (let sb = (if length_added > 0 then sb0\<lparr>sb_buf := (sb_buf sb0)\<lparr>bf_len := bf_len (sb_buf sb0) + length_added\<rparr>\<rparr> else sb0) in
      if sb_len sb < 0 \<and> bf_len (sb_buf sb) \<ge> 2 then
        if sb_port_share sb = PS_ENABLED \<and> \<not> is_openvpn_protocol (sb_buf sb)
        then Some (False, sb\<lparr>sb_port_share := PS_FOREIGN, sb_error := True\<rparr>)
        else
          let sb1 = (if sb_port_share sb = PS_ENABLED then sb\<lparr>sb_port_share := PS_DISABLED\<rparr> else sb) in
          (case buf_read (sb_buf sb1) 2 of
             (None, _) \<Rightarrow> None
           | (Some net_size, b1) \<Rightarrow>
               let sb2 = sb1\<lparr>sb_buf := b1, sb_len := uint (dec16 net_size)\<rparr> in
               if sb_len sb2 < 1 \<or> sb_len sb2 > sb_maxlen sb2
               then Some (False, (stream_buf_reset sb2)\<lparr>sb_error := True\<rparr>)
               else stream_buf_complete sb2)
      else stream_buf_complete sb)"

definition stream_buf_read_setup_dowork :: "stream_buf \<Rightarrow> (bool \<times> stream_buf) option" where
  "stream_buf_read_setup_dowork sb =
     (case (if bf_len (sb_residual sb) \<noteq> 0 \<and> \<not> residual_fully_formed sb
            then (case buf_copy (sb_buf sb) (sb_residual sb) of (False, _) \<Rightarrow> None
                  | (True, b) \<Rightarrow>
                      (case buf_init (sb_residual sb) 0 of (False, _) \<Rightarrow> None
                       | (True, res) \<Rightarrow>
                           map_option (\<lambda>(ok, sb1). sb1\<lparr>residual_fully_formed := ok\<rparr>)
                             (stream_buf_added (sb\<lparr>sb_buf := b, sb_residual := res\<rparr>) 0)))
            else Some sb) of
        None \<Rightarrow> None
      | Some sb1 \<Rightarrow>
          (case (if residual_fully_formed sb1 then Some sb1 else stream_buf_set_next sb1) of
             None \<Rightarrow> None | Some sb2 \<Rightarrow> Some (\<not> residual_fully_formed sb2, sb2)))"

section \<open>Reading and writing\<close>

datatype recv_result = Recv_Bytes "byte list" | Recv_Closed | Recv_Error int

text \<open>The result is the length, which is negative for an error, and the packet.\<close>

definition link_socket_read_tcp :: "link_socket \<Rightarrow> recv_result \<Rightarrow> buffer \<Rightarrow> (int \<times> buffer \<times> link_socket) option" where
  "link_socket_read_tcp sock res b =
     (let finish = (\<lambda>sock1 sb. case stream_buf_get_final sb of None \<Rightarrow> None
            | Some b1 \<Rightarrow> Some (bf_len b1, b1, sock1\<lparr>ls_stream := stream_buf_reset sb\<rparr>))
      in
      if residual_fully_formed (ls_stream sock) then finish sock (ls_stream sock)
      else if \<not> ls_sd sock then Some (0, b\<lparr>bf_len := 0\<rparr>, sock\<lparr>ls_stream_reset := True\<rparr>)
      else
        (case stream_buf_get_next (ls_stream sock) of None \<Rightarrow> None
         | Some frag \<Rightarrow>
             (case res of
                Recv_Closed \<Rightarrow> Some (0, b\<lparr>bf_len := 0\<rparr>, sock\<lparr>ls_stream_reset := True\<rparr>)
              | Recv_Error e \<Rightarrow> Some (e, b\<lparr>bf_len := e\<rparr>, sock)
              | Recv_Bytes bs \<Rightarrow>
                  let sb = (ls_stream sock)\<lparr>sb_buf := bf_poke (sb_buf (ls_stream sock)) (nat (bf_off frag)) bs\<rparr> in
                  (case stream_buf_added sb (int (length bs)) of None \<Rightarrow> None
                   | Some (True, sb1) \<Rightarrow> finish sock sb1
                   | Some (False, sb1) \<Rightarrow> Some (0, b\<lparr>bf_len := 0\<rparr>, sock\<lparr>ls_stream := sb1\<rparr>)))))"

text \<open>The bytes given to \<^verbatim>\<open>send\<close> are those of the buffer.\<close>

definition link_socket_write_tcp :: "int \<Rightarrow> buffer \<Rightarrow> buffer option" where
  "link_socket_write_tcp maxlen b =
     (let len = (of_int (buf_len b) :: u16) in
      if \<not> uint len \<le> maxlen then None
      else case buf_write_prepend b (enc16 len) of (False, _) \<Rightarrow> None | (True, b1) \<Rightarrow> Some b1)"

text \<open>
  For a connection-oriented socket; \<open>err_reset\<close> is whether \<^verbatim>\<open>errno\<close> says that the peer reset the
  connection.
\<close>

definition socket_connection_reset :: "link_socket \<Rightarrow> int \<Rightarrow> bool \<Rightarrow> bool" where
  "socket_connection_reset sock status err_reset =
     (if ls_stream_reset sock \<or> sb_error (ls_stream sock) then True
      else if status < 0 then err_reset
      else False)"

section \<open>The stream invariant\<close>

text \<open>The bytes that were received but not handed on yet.\<close>

definition pending :: "stream_buf \<Rightarrow> byte list" where
  "pending sb = (if sb_len sb < 0 then [] else enc16 (of_int (sb_len sb))) @ content (sb_buf sb) @ content (sb_residual sb)"

definition stream_wf :: "int \<Rightarrow> int \<Rightarrow> stream_buf \<Rightarrow> bool" where
  "stream_wf M h sb \<longleftrightarrow> buf_wf (sb_buf sb) \<and> buf_defined (sb_buf sb) \<and> buf_wf (sb_residual sb) \<and> buf_defined (sb_residual sb)
     \<and> sb_maxlen sb = M \<and> 2 \<le> M \<and> M \<le> 65535 \<and> 0 \<le> h \<and> h + M + 2 \<le> bf_cap (sb_buf sb)
     \<and> bf_off (sb_buf_init sb) = h \<and> bf_len (sb_buf_init sb) = 0 \<and> bf_cap (sb_buf_init sb) = bf_cap (sb_buf sb)
     \<and> bf_off (sb_residual sb) = 0 \<and> bf_cap (sb_residual sb) = M"

definition stream_inv :: "int \<Rightarrow> int \<Rightarrow> stream_buf \<Rightarrow> bool" where
  "stream_inv M h sb \<longleftrightarrow> stream_wf M h sb \<and> \<not> sb_error sb \<and> sb_port_share sb = PS_DISABLED \<and>
     (if sb_len sb < 0
      then sb_len sb = -1 \<and> \<not> residual_fully_formed sb \<and> bf_off (sb_buf sb) = h \<and> bf_len (sb_buf sb) \<le> 1
           \<and> (bf_len (sb_residual sb) \<noteq> 0 \<longrightarrow> bf_len (sb_buf sb) = 0)
      else 1 \<le> sb_len sb \<and> sb_len sb \<le> M \<and> bf_off (sb_buf sb) = h + 2 \<and>
           (if residual_fully_formed sb then bf_len (sb_buf sb) = sb_len sb
            else bf_len (sb_buf sb) < sb_len sb \<and> bf_len (sb_residual sb) = 0))"

text \<open>A packet on the wire.\<close>

definition frame_bytes :: "byte list \<Rightarrow> byte list" where
  "frame_bytes p = enc16 (of_nat (length p)) @ p"

text \<open>Before \<^verbatim>\<open>stream_buf_added\<close> with nothing left to add.\<close>

definition add_ready :: "int \<Rightarrow> int \<Rightarrow> stream_buf \<Rightarrow> bool" where
  "add_ready M h sb \<longleftrightarrow> stream_wf M h sb \<and> \<not> sb_error sb \<and> sb_port_share sb = PS_DISABLED \<and> \<not> residual_fully_formed sb
     \<and> bf_len (sb_residual sb) = 0 \<and>
     (if sb_len sb < 0 then sb_len sb = -1 \<and> bf_off (sb_buf sb) = h \<and> bf_len (sb_buf sb) \<le> M
      else 1 \<le> sb_len sb \<and> sb_len sb \<le> M \<and> bf_off (sb_buf sb) = h + 2 \<and> bf_len (sb_buf sb) \<le> sb_len sb)"

lemma set_next_ok:
  assumes "stream_wf M h sb" "bf_off (sb_buf sb) \<le> h + 2" "sb_len sb \<le> M" "0 \<le> bf_len (sb_buf sb)"
    "bf_len (sb_buf sb) < (if sb_len sb \<ge> 0 then sb_len sb else M)"
  obtains sb' where "stream_buf_set_next sb = Some sb'" "sb' = sb\<lparr>sb_next := sb_next sb'\<rparr>" "buf_defined (sb_next sb')"
    "bf_off (sb_next sb') = bf_off (sb_buf sb) + bf_len (sb_buf sb)"
    "bf_len (sb_next sb') = (if sb_len sb \<ge> 0 then sb_len sb else M) - bf_len (sb_buf sb)"
    "buf_safe (sb_buf sb) (bf_len (sb_next sb'))"
proof -
  define n where "n = (sb_buf sb)\<lparr>bf_off := bf_off (sb_buf sb) + bf_len (sb_buf sb),
      bf_len := (if sb_len sb \<ge> 0 then sb_len sb else sb_maxlen sb) - bf_len (sb_buf sb)\<rparr>"
  have l: "bf_len n = (if sb_len sb \<ge> 0 then sb_len sb else M) - bf_len (sb_buf sb)" using assms(1) by (simp add: n_def stream_wf_def)
  have "0 < bf_len n" "buf_safe (sb_buf sb) (bf_len n)"
    using assms unfolding l by (auto simp: stream_wf_def buf_safe_wf split: if_splits)
  then have "stream_buf_set_next sb = Some (sb\<lparr>sb_next := n\<rparr>)" by (simp add: stream_buf_set_next_def Let_def n_def)
  moreover have "buf_defined n" using assms(1) by (simp add: n_def stream_wf_def buf_defined_def)
  ultimately show thesis using that[of "sb\<lparr>sb_next := n\<rparr>"] \<open>buf_safe (sb_buf sb) (bf_len n)\<close> l by (simp add: n_def)
qed

lemma enc16_dec16: "length xs = 2 \<Longrightarrow> enc16 (dec16 xs) = xs"
  using be_dec_bound[of xs] by (simp add: enc16_def dec16_def be_enc_dec unat_of_nat)

lemma take_drop_content: "buf_wf b \<Longrightarrow> content b = [] \<longleftrightarrow> bf_len b = 0"
  using bf_len_content[of b] by auto

text \<open>The length is known.\<close>

lemma complete_ok:
  assumes wf: "stream_wf M h sb" and L: "1 \<le> sb_len sb" "sb_len sb \<le> M"
    and b: "bf_off (sb_buf sb) = h + 2" "bf_len (sb_buf sb) \<le> M" "bf_len (sb_residual sb) = 0"
  shows "\<exists>sb'. stream_buf_complete sb = Some (sb_len sb \<le> bf_len (sb_buf sb), sb') \<and> stream_wf M h sb' \<and> pending sb' = pending sb
    \<and> sb_len sb' = sb_len sb \<and> bf_off (sb_buf sb') = h + 2 \<and> bf_len (sb_buf sb') = min (sb_len sb) (bf_len (sb_buf sb))
    \<and> sb_error sb' = sb_error sb \<and> sb_port_share sb' = sb_port_share sb \<and> residual_fully_formed sb' = residual_fully_formed sb
    \<and> (bf_len (sb_buf sb) < sb_len sb \<longrightarrow> bf_len (sb_residual sb') = 0)"
proof (cases "sb_len sb \<le> bf_len (sb_buf sb)")
  case False
  have c: "0 \<le> bf_len (sb_buf sb)" using wf buf_wf_bounds by (auto simp: stream_wf_def)
  obtain sb' where s: "stream_buf_set_next sb = Some sb'" "sb' = sb\<lparr>sb_next := sb_next sb'\<rparr>"
    by (rule set_next_ok[OF wf]) (use False L b c in auto)
  define n where "n = sb_next sb'"
  have e: "sb' = sb\<lparr>sb_next := n\<rparr>" using s(2) by (simp add: n_def)
  show ?thesis using False s(1) wf L b by (auto simp: stream_buf_complete_def e stream_wf_def pending_def)
next
  case True
  let ?n = "sb_len sb" and ?b = "sb_buf sb"
  have w: "buf_wf ?b" "buf_defined ?b" "buf_wf (sb_residual sb)" "buf_defined (sb_residual sb)" "bf_cap (sb_residual sb) = M"
    using wf by (auto simp: stream_wf_def)
  define res where "res = (sb_residual sb)\<lparr>bf_len := 0, bf_off := 0\<rparr>"
  have i: "buf_init (sb_residual sb) 0 = (True, res)" using w wf by (auto simp: buf_init_def res_def buf_defined_def stream_wf_def)
  have rw: "buf_wf res" "buf_defined res" "content res = []" "bf_cap res = M" "bf_off res = 0" "bf_len res = 0"
    using w by (auto simp: res_def buf_wf_def buf_defined_def content_def split: option.splits)
  have lc: "length (content ?b) = nat (bf_len ?b)" using w by (simp add: length_content)
  show ?thesis
  proof (cases "bf_len ?b > ?n")
    case False
    then have "?n = bf_len ?b" using True by simp
    moreover have "content (sb_residual sb) = []" using b(3) w by (simp add: take_drop_content)
    ultimately show ?thesis using False True L i wf rw b by (auto simp: stream_buf_complete_def stream_wf_def pending_def)
  next
    case gt: True
    have safe: "buf_safe res (bf_len ?b - ?n)" using rw b gt L by (simp add: buf_safe_wf)
    obtain b1 where b1: "buf_advance ?b ?n = (True, b1)" "buf_wf b1" "content b1 = drop (nat ?n) (content ?b)" "bf_len b1 = bf_len ?b - ?n"
      using buf_advance_ok[OF w(1,2), of ?n] L gt by (metis less_imp_le order.trans zero_le_one)
    have len: "int (length (content b1)) = bf_len ?b - ?n" using bf_len_content[OF b1(2)] b1(4) by simp
    obtain d where d: "buf_write res (content b1) = (True, d)" "buf_wf d" "content d = content res @ content b1" "bf_cap d = bf_cap res" "bf_off d = bf_off res" "buf_defined d"
    proof -
      have "buf_safe res (int (length (content b1)))" using safe len by simp
      from buf_write_safe[OF rw(1) this] that show thesis by (metis buf_write_frame snd_conv)
    qed
    define src where "src = ?b\<lparr>bf_len := ?n\<rparr>"
    have cp: "buf_copy_excess res ?b ?n = (True, d, src)"
      using d(1) b1(1,2) gt L by (simp add: buf_copy_excess_def Let_def buf_copy_def buf_bytes_wf src_def)
    have sw: "buf_wf src" "buf_defined src" "content src = take (nat ?n) (content ?b)"
      using w gt L by (auto simp: src_def buf_wf_def buf_defined_def content_def bf_mem_def mem_get_take nat_mono split: option.splits)
    have st: "stream_buf_complete sb = Some (True, sb\<lparr>sb_residual := d, sb_buf := src\<rparr>)"
      using True gt L i cp by (simp add: stream_buf_complete_def)
    have "pending (sb\<lparr>sb_residual := d, sb_buf := src\<rparr>) = pending sb"
    proof -
      have "content (sb_residual sb) = []" using b(3) w by (simp add: take_drop_content)
      then show ?thesis using L rw(3) b1(3) d(3) sw(3) by (simp add: pending_def)
    qed
    then show ?thesis using st True gt L b wf sw d rw by (simp add: stream_wf_def src_def)
  qed
qed

lemma added_ok:
  assumes r: "add_ready M h sb"
  shows "\<exists>ok sb'. stream_buf_added sb 0 = Some (ok, sb') \<and> sb_maxlen sb' = M \<and>
    (if sb_error sb' then \<not> ok \<and> (\<exists>n rest. pending sb = enc16 n @ rest \<and> (uint n < 1 \<or> M < uint n))
        \<and> stream_wf M h sb' \<and> \<not> residual_fully_formed sb' \<and> sb_len sb' = -1 \<and> bf_len (sb_buf sb') = 0 \<and> bf_off (sb_buf sb') = h
     else pending sb' = pending sb \<and> \<not> residual_fully_formed sb'
       \<and> (if ok then stream_inv M h (sb'\<lparr>residual_fully_formed := True\<rparr>) else stream_inv M h sb' \<and> bf_len (sb_residual sb') = 0))"
proof -
  have wf: "stream_wf M h sb" and rc: "content (sb_residual sb) = []"
    using r by (auto simp: add_ready_def stream_wf_def take_drop_content)
  have w: "buf_wf (sb_buf sb)" "buf_defined (sb_buf sb)" "0 \<le> bf_len (sb_buf sb)" "2 \<le> M" using wf buf_wf_bounds by (auto simp: stream_wf_def)
  consider "sb_len sb \<ge> 0" | "sb_len sb < 0" "bf_len (sb_buf sb) < 2" | "sb_len sb < 0" "2 \<le> bf_len (sb_buf sb)" by linarith
  then show ?thesis
  proof cases
    case 1
    have a: "stream_buf_added sb 0 = stream_buf_complete sb" using 1 by (simp add: stream_buf_added_def)
    have p: "1 \<le> sb_len sb" "sb_len sb \<le> M" "bf_off (sb_buf sb) = h + 2" "bf_len (sb_buf sb) \<le> M" "bf_len (sb_residual sb) = 0"
      using r 1 by (auto simp: add_ready_def)
    obtain sb' where s: "stream_buf_complete sb = Some (sb_len sb \<le> bf_len (sb_buf sb), sb')" "stream_wf M h sb'" "pending sb' = pending sb"
      "sb_len sb' = sb_len sb" "bf_off (sb_buf sb') = h + 2" "bf_len (sb_buf sb') = min (sb_len sb) (bf_len (sb_buf sb))"
      "sb_error sb' = sb_error sb" "sb_port_share sb' = sb_port_share sb" "residual_fully_formed sb' = residual_fully_formed sb"
      "bf_len (sb_buf sb) < sb_len sb \<longrightarrow> bf_len (sb_residual sb') = 0"
      using complete_ok[OF wf p] by blast
    show ?thesis using a s r p 1 by (auto simp: add_ready_def stream_inv_def stream_wf_def)
  next
    case 2
    have "\<exists>sb'. stream_buf_set_next sb = Some sb' \<and> sb' = sb\<lparr>sb_next := sb_next sb'\<rparr>"
      by (rule set_next_ok[OF wf]) (use r 2 w in \<open>auto simp: add_ready_def\<close>)
    then obtain n where n: "stream_buf_set_next sb = Some (sb\<lparr>sb_next := n\<rparr>)" by metis
    have a: "stream_buf_added sb 0 = Some (False, sb\<lparr>sb_next := n\<rparr>)" using 2 n by (simp add: stream_buf_added_def stream_buf_complete_def)
    show ?thesis using a r 2 by (auto simp: add_ready_def stream_inv_def stream_wf_def pending_def)
  next
    case 3
    obtain b1 where b1: "buf_read (sb_buf sb) 2 = (Some (take 2 (content (sb_buf sb))), b1)" "buf_wf b1"
      "content b1 = drop 2 (content (sb_buf sb))" "bf_cap b1 = bf_cap (sb_buf sb)" "buf_defined b1" "bf_len b1 = bf_len (sb_buf sb) - 2"
      by (rule buf_read_ok[OF w(1,2), of 2]) (use 3 in auto)
    have off: "bf_off b1 = bf_off (sb_buf sb) + 2"
      using b1(1) by (auto simp: buf_read_def buf_read_alloc_def split: option.splits if_splits prod.splits)
    define net where "net = take 2 (content (sb_buf sb))"
    have ln: "length net = 2" using 3 w by (simp add: net_def length_content)
    define L where "L = uint (dec16 net)"
    define sb2 where "sb2 = sb\<lparr>sb_buf := b1, sb_len := L\<rparr>"
    have ps: "sb_port_share sb = PS_DISABLED" using r by (simp add: add_ready_def)
    have a: "stream_buf_added sb 0 = (if L < 1 \<or> L > M then Some (False, (stream_buf_reset sb2)\<lparr>sb_error := True\<rparr>) else stream_buf_complete sb2)"
      using 3 b1(1) ps wf by (simp add: stream_buf_added_def Let_def sb2_def L_def net_def stream_wf_def)
    have pe: "pending sb = enc16 (dec16 net) @ content b1"
      using 3 rc b1(3) enc16_dec16[OF ln] by (simp add: pending_def net_def)
    have wf2: "stream_wf M h sb2" using wf b1 by (simp add: stream_wf_def sb2_def)
    show ?thesis
    proof (cases "L < 1 \<or> L > M")
      case True
      have "stream_wf M h ((stream_buf_reset sb2)\<lparr>sb_error := True\<rparr>)"
        using wf2 by (auto simp: stream_buf_reset_def stream_wf_def buf_wf_def buf_defined_def split: option.splits)
      then show ?thesis using a True pe wf2
        by (auto simp: L_def stream_buf_reset_def stream_wf_def)
    next
      case False
      have p: "1 \<le> sb_len sb2" "sb_len sb2 \<le> M" "bf_off (sb_buf sb2) = h + 2" "bf_len (sb_buf sb2) \<le> M" "bf_len (sb_residual sb2) = 0"
        using False r 3 off b1(6) by (auto simp: add_ready_def sb2_def)
      obtain sb' where s: "stream_buf_complete sb2 = Some (sb_len sb2 \<le> bf_len (sb_buf sb2), sb')" "stream_wf M h sb'" "pending sb' = pending sb2"
        "sb_len sb' = sb_len sb2" "bf_off (sb_buf sb') = h + 2" "bf_len (sb_buf sb') = min (sb_len sb2) (bf_len (sb_buf sb2))"
        "sb_error sb' = sb_error sb2" "sb_port_share sb' = sb_port_share sb2" "residual_fully_formed sb' = residual_fully_formed sb2"
        "bf_len (sb_buf sb2) < sb_len sb2 \<longrightarrow> bf_len (sb_residual sb') = 0"
        using complete_ok[OF wf2 p] by blast
      have "pending sb2 = pending sb" using pe rc p(1) by (simp add: pending_def sb2_def L_def)
      then show ?thesis using a s r p False
        by (auto simp: add_ready_def stream_inv_def stream_wf_def sb2_def)
    qed
  qed
qed

definition bad_frame :: "int \<Rightarrow> byte list \<Rightarrow> bool" where
  "bad_frame M bs \<longleftrightarrow> (\<exists>n rest. bs = enc16 n @ rest \<and> (uint n < 1 \<or> M < uint n))"

lemma pending_formed [simp]: "pending (sb\<lparr>residual_fully_formed := x\<rparr>) = pending sb"
  by (simp add: pending_def)

text \<open>What the event loop sees before it waits for the socket.\<close>

definition next_ready :: "stream_buf \<Rightarrow> bool" where
  "next_ready sb \<longleftrightarrow> buf_defined (sb_next sb) \<and> 0 < bf_len (sb_next sb) \<and> bf_off (sb_next sb) = bf_off (sb_buf sb) + bf_len (sb_buf sb)
     \<and> bf_len (sb_next sb) = (if sb_len sb \<ge> 0 then sb_len sb else sb_maxlen sb) - bf_len (sb_buf sb)
     \<and> buf_safe (sb_buf sb) (bf_len (sb_next sb))"

lemma setup_next:
  assumes "stream_inv M h sb" "\<not> residual_fully_formed sb" "bf_len (sb_residual sb) = 0"
  obtains sb' where "stream_buf_set_next sb = Some sb'" "stream_inv M h sb'" "pending sb' = pending sb" "next_ready sb'"
    "\<not> residual_fully_formed sb'" "bf_len (sb_residual sb') = 0"
proof -
  have c: "0 \<le> bf_len (sb_buf sb)" "2 \<le> M" "sb_maxlen sb = M" using assms(1) buf_wf_bounds by (auto simp: stream_inv_def stream_wf_def)
  obtain sb' where s: "stream_buf_set_next sb = Some sb'" "sb' = sb\<lparr>sb_next := sb_next sb'\<rparr>" "buf_defined (sb_next sb')"
    "bf_off (sb_next sb') = bf_off (sb_buf sb) + bf_len (sb_buf sb)"
    "bf_len (sb_next sb') = (if sb_len sb \<ge> 0 then sb_len sb else M) - bf_len (sb_buf sb)"
    "buf_safe (sb_buf sb) (bf_len (sb_next sb'))"
    by (rule set_next_ok[of M h sb]) (use assms c in \<open>auto simp: stream_inv_def split: if_splits\<close>)
  define n where "n = sb_next sb'"
  have e: "sb' = sb\<lparr>sb_next := n\<rparr>" using s(2) by (simp add: n_def)
  have "next_ready sb'" using s(3-6) assms c by (auto simp: next_ready_def e stream_inv_def split: if_splits)
  moreover have "stream_inv M h sb'" "pending sb' = pending sb" using assms(1) by (simp_all add: e stream_inv_def stream_wf_def pending_def)
  ultimately show thesis using that[OF s(1)] assms(2,3) by (simp add: e)
qed

lemma read_setup_ok:
  assumes i: "stream_inv M h sb"
  shows "\<exists>want sb'. stream_buf_read_setup_dowork sb = Some (want, sb') \<and>
    (if sb_error sb' then want \<and> bad_frame M (pending sb)
     else stream_inv M h sb' \<and> pending sb' = pending sb \<and> (want \<longleftrightarrow> \<not> residual_fully_formed sb')
       \<and> (want \<longrightarrow> next_ready sb' \<and> bf_len (sb_residual sb') = 0))"
proof (cases "bf_len (sb_residual sb) \<noteq> 0 \<and> \<not> residual_fully_formed sb")
  case False
  show ?thesis
  proof (cases "residual_fully_formed sb")
    case True
    then have "stream_buf_read_setup_dowork sb = Some (False, sb)" by (simp add: stream_buf_read_setup_dowork_def)
    then show ?thesis using i True by (auto simp: stream_inv_def)
  next
    case nf: False
    then have r0: "bf_len (sb_residual sb) = 0" using False by simp
    obtain sb' where s: "stream_buf_set_next sb = Some sb'" "stream_inv M h sb'" "pending sb' = pending sb" "next_ready sb'"
      "\<not> residual_fully_formed sb'" "bf_len (sb_residual sb') = 0" by (rule setup_next[OF i nf r0])
    then have "stream_buf_read_setup_dowork sb = Some (True, sb')" using nf r0 by (simp add: stream_buf_read_setup_dowork_def)
    then show ?thesis using s by (auto simp: stream_inv_def)
  qed
next
  case True
  have st: "sb_len sb = -1" "bf_off (sb_buf sb) = h" "bf_len (sb_buf sb) = 0" "stream_wf M h sb" "\<not> sb_error sb" "sb_port_share sb = PS_DISABLED"
    using i True by (auto simp: stream_inv_def split: if_splits)
  have w: "buf_wf (sb_buf sb)" "buf_defined (sb_buf sb)" "buf_wf (sb_residual sb)" "buf_defined (sb_residual sb)" "bf_cap (sb_residual sb) = M" "bf_off (sb_residual sb) = 0"
    "h + M + 2 \<le> bf_cap (sb_buf sb)" "0 \<le> M"
    using st(4) by (auto simp: stream_wf_def)
  have rl: "int (length (content (sb_residual sb))) = bf_len (sb_residual sb)" using bf_len_content[OF w(3)] by simp
  have rM: "bf_len (sb_residual sb) \<le> M" using w(3,5,6) by (auto simp: buf_wf_def split: option.splits)
  have safe: "buf_safe (sb_buf sb) (int (length (content (sb_residual sb))))" using w st rl rM by (simp add: buf_safe_wf)
  obtain b where b: "buf_write (sb_buf sb) (content (sb_residual sb)) = (True, b)" "buf_wf b"
      "content b = content (sb_buf sb) @ content (sb_residual sb)" "bf_cap b = bf_cap (sb_buf sb)" "bf_off b = bf_off (sb_buf sb)" "buf_defined b"
    using buf_write_safe[OF w(1) safe] by (metis buf_write_frame snd_conv)
  have c0: "content (sb_buf sb) = []" using st(3) w(1) by (simp add: take_drop_content)
  have bl: "bf_len b = bf_len (sb_residual sb)" using bf_len_content[OF b(2)] b(3) c0 rl by simp
  define res where "res = (sb_residual sb)\<lparr>bf_len := 0, bf_off := 0\<rparr>"
  have ri: "buf_init (sb_residual sb) 0 = (True, res)" using w by (auto simp: buf_init_def res_def buf_defined_def)
  have rw: "buf_wf res" "buf_defined res" "content res = []" "bf_cap res = M" "bf_off res = 0" "bf_len res = 0"
    using w by (auto simp: res_def buf_wf_def buf_defined_def content_def split: option.splits)
  define sb1 where "sb1 = sb\<lparr>sb_buf := b, sb_residual := res\<rparr>"
  have ar: "add_ready M h sb1" using st b(2,4-6) bl rM rw True by (simp add: add_ready_def sb1_def stream_wf_def)
  have pe: "pending sb1 = pending sb" using st(1) b(3) c0 rw(3) by (simp add: pending_def sb1_def)
  obtain ok sb2 where a: "stream_buf_added sb1 0 = Some (ok, sb2)"
    "if sb_error sb2 then \<not> ok \<and> (\<exists>n rest. pending sb1 = enc16 n @ rest \<and> (uint n < 1 \<or> M < uint n))
        \<and> stream_wf M h sb2 \<and> \<not> residual_fully_formed sb2 \<and> sb_len sb2 = -1 \<and> bf_len (sb_buf sb2) = 0 \<and> bf_off (sb_buf sb2) = h
     else pending sb2 = pending sb1 \<and> \<not> residual_fully_formed sb2
       \<and> (if ok then stream_inv M h (sb2\<lparr>residual_fully_formed := True\<rparr>) else stream_inv M h sb2 \<and> bf_len (sb_residual sb2) = 0)"
    using added_ok[OF ar] by blast
  have cp: "buf_copy (sb_buf sb) (sb_residual sb) = (True, b)" using b(1) w(3) by (simp add: buf_copy_def buf_bytes_wf)
  have rs: "stream_buf_read_setup_dowork sb =
      (case (if ok then Some (sb2\<lparr>residual_fully_formed := ok\<rparr>) else stream_buf_set_next (sb2\<lparr>residual_fully_formed := ok\<rparr>)) of
         None \<Rightarrow> None | Some sb3 \<Rightarrow> Some (\<not> residual_fully_formed sb3, sb3))"
    unfolding stream_buf_read_setup_dowork_def using True cp ri a(1) by (simp add: sb1_def)
  show ?thesis
  proof (cases "sb_error sb2")
    case True
    then have e: "\<not> ok" "bad_frame M (pending sb)" "stream_wf M h sb2" "\<not> residual_fully_formed sb2" "sb_len sb2 = -1" "bf_len (sb_buf sb2) = 0"
      "bf_off (sb_buf sb2) = h" using a(2) pe by (auto simp: bad_frame_def)
    have M2: "2 \<le> M" using e(3) by (simp add: stream_wf_def)
    have "\<exists>sb3. stream_buf_set_next sb2 = Some sb3 \<and> sb3 = sb2\<lparr>sb_next := sb_next sb3\<rparr>"
      by (rule set_next_ok[OF e(3)]) (use e M2 in auto)
    then obtain n where n: "stream_buf_set_next sb2 = Some (sb2\<lparr>sb_next := n\<rparr>)" by metis
    have same: "sb2\<lparr>residual_fully_formed := False\<rparr> = sb2" using e(4) by simp
    have "stream_buf_read_setup_dowork sb = Some (True, sb2\<lparr>sb_next := n\<rparr>)" unfolding rs using e(1,4) n by (simp add: same)
    then show ?thesis using True e(2) by auto
  next
    case ne: False
    show ?thesis
    proof (cases ok)
      case True
      then have s: "stream_inv M h (sb2\<lparr>residual_fully_formed := True\<rparr>)" "pending sb2 = pending sb" using a(2) ne pe by auto
      have "stream_buf_read_setup_dowork sb = Some (False, sb2\<lparr>residual_fully_formed := True\<rparr>)" unfolding rs using True by simp
      moreover have "pending (sb2\<lparr>residual_fully_formed := True\<rparr>) = pending sb" using s(2) by simp
      ultimately show ?thesis using ne s(1) by (intro exI[of _ False] exI[of _ "sb2\<lparr>residual_fully_formed := True\<rparr>"]) simp
    next
      case False
      then have s: "stream_inv M h sb2" "pending sb2 = pending sb" "\<not> residual_fully_formed sb2" "bf_len (sb_residual sb2) = 0" using a(2) ne pe by auto
      have same: "sb2\<lparr>residual_fully_formed := False\<rparr> = sb2" using s(3) by simp
      obtain sb3 where t: "stream_buf_set_next sb2 = Some sb3" "stream_inv M h sb3" "pending sb3 = pending sb2" "next_ready sb3"
        "\<not> residual_fully_formed sb3" "bf_len (sb_residual sb3) = 0" by (rule setup_next[OF s(1,3,4)])
      have "stream_buf_read_setup_dowork sb = Some (True, sb3)" unfolding rs using False t(1,5) by (simp add: same)
      moreover have "\<not> sb_error sb3" using t(2) by (simp add: stream_inv_def)
      ultimately show ?thesis using t s(2) by (intro exI[of _ True] exI[of _ sb3]) simp
    qed
  qed
qed

text \<open>A complete packet is handed on and the stream starts afresh with the rest.\<close>

lemma finish_ok:
  assumes "stream_inv M h sb" "residual_fully_formed sb"
  obtains "stream_buf_get_final sb = Some (sb_buf sb)" "0 < bf_len (sb_buf sb)" "int (length (content (sb_buf sb))) = bf_len (sb_buf sb)"
    "bf_len (sb_buf sb) \<le> M" "stream_inv M h (stream_buf_reset sb)" "pending sb = frame_bytes (content (sb_buf sb)) @ pending (stream_buf_reset sb)"
proof -
  have s: "stream_wf M h sb" "1 \<le> sb_len sb" "sb_len sb \<le> M" "bf_len (sb_buf sb) = sb_len sb" "\<not> sb_error sb" "sb_port_share sb = PS_DISABLED"
    using assms by (auto simp: stream_inv_def split: if_splits)
  have w: "buf_wf (sb_buf sb)" "buf_defined (sb_buf sb)" using s(1) by (auto simp: stream_wf_def)
  have l: "int (length (content (sb_buf sb))) = bf_len (sb_buf sb)" using bf_len_content[OF w(1)] by simp
  let ?b = "(sb_buf_init sb)\<lparr>bf_data := bf_data (sb_buf sb)\<rparr>"
  have bw: "buf_wf ?b" "buf_defined ?b" "content ?b = []" "bf_len ?b = 0" "bf_off ?b = h" "bf_cap ?b = bf_cap (sb_buf sb)"
    using s(1) w by (auto simp: stream_wf_def buf_wf_def buf_defined_def content_def split: option.splits)
  have i: "stream_inv M h (stream_buf_reset sb)"
    using s bw by (simp add: stream_inv_def stream_wf_def stream_buf_reset_def)
  have e: "(of_int (sb_len sb) :: u16) = of_nat (length (content (sb_buf sb)))"
    using l s(4) by (metis of_int_of_nat_eq)
  have "pending sb = frame_bytes (content (sb_buf sb)) @ pending (stream_buf_reset sb)"
    using s(2) bw(3) by (simp add: pending_def frame_bytes_def e[symmetric] stream_buf_reset_def)
  then show thesis using that i l s w by (simp add: stream_buf_get_final_def)
qed

section \<open>Runs of the receiver\<close>

text \<open>
  One turn of the event loop: \<^verbatim>\<open>stream_buf_read_setup\<close>, then \<^verbatim>\<open>link_socket_read_tcp\<close>. \<open>net\<close> are the
  bytes the peer has sent that were not read yet; \<^verbatim>\<open>recv\<close> gives up to \<open>k\<close> of them. A connection with an error is
  reset and hands on nothing. Here \<^verbatim>\<open>recv\<close> does not fail, so that \<^verbatim>\<open>errno\<close> is not looked at.
\<close>

definition stream_step :: "link_socket \<times> byte list \<Rightarrow> nat \<Rightarrow> (byte list list \<times> link_socket \<times> byte list) option" where
  "stream_step s k = (case s of (sock, net) \<Rightarrow>
     if socket_connection_reset sock 0 False then Some ([], sock, net)
     else case stream_buf_read_setup_dowork (ls_stream sock) of None \<Rightarrow> None
     | Some (want, sb) \<Rightarrow>
         let sock1 = sock\<lparr>ls_stream := sb\<rparr>; n = (if want then min k (min (length net) (nat (bf_len (sb_next sb)))) else 0) in
         if socket_connection_reset sock1 0 False \<or> want \<and> n = 0 then Some ([], sock1, net)
         else case link_socket_read_tcp sock1 (Recv_Bytes (take n net)) clear_buf of None \<Rightarrow> None
         | Some (len, b, sock2) \<Rightarrow>
             Some (if len > 0 \<and> \<not> socket_connection_reset sock2 len False then [buf_bytes b] else [], sock2, drop n net))"

definition tcp_inv :: "int \<Rightarrow> int \<Rightarrow> link_socket \<times> byte list \<Rightarrow> bool" where
  "tcp_inv M h s \<longleftrightarrow> ls_sd (fst s) \<and> \<not> ls_stream_reset (fst s) \<and> (sb_error (ls_stream (fst s)) \<or> stream_inv M h (ls_stream (fst s)))"

definition tcp_abs :: "link_socket \<times> byte list \<Rightarrow> byte list option" where
  "tcp_abs s = (if sb_error (ls_stream (fst s)) then None else Some (pending (ls_stream (fst s)) @ snd s))"

text \<open>The specification works on the bytes that were not handed on yet; \<open>None\<close> is an error.\<close>

definition tcp_spec :: "int \<Rightarrow> byte list option \<Rightarrow> nat \<Rightarrow> byte list list \<Rightarrow> byte list option \<Rightarrow> bool" where
  "tcp_spec M m k r m' \<longleftrightarrow>
     (case m of None \<Rightarrow> r = [] \<and> m' = None
      | Some bs \<Rightarrow> r = [] \<and> m' = Some bs \<or> r = [] \<and> m' = None \<and> bad_frame M bs
          \<or> (\<exists>p bs'. r = [p] \<and> p \<noteq> [] \<and> int (length p) \<le> M \<and> bs = frame_bytes p @ bs' \<and> m' = Some bs'))"

lemma bad_frame_append: "bad_frame M bs \<Longrightarrow> bad_frame M (bs @ xs)"
  unfolding bad_frame_def by (metis append_assoc)

lemma added_write:
  assumes "buf_wf (sb_buf sb)" "buf_safe (sb_buf sb) (int (length bs))" "bs \<noteq> []"
  shows "stream_buf_added (sb\<lparr>sb_buf := bf_poke (sb_buf sb) (nat (bf_off (sb_buf sb) + bf_len (sb_buf sb))) bs\<rparr>) (int (length bs)) =
    stream_buf_added (sb\<lparr>sb_buf := snd (buf_write (sb_buf sb) bs)\<rparr>) 0"
proof -
  obtain m where m: "bf_data (sb_buf sb) = Some m" using assms(2) by (auto simp: buf_safe_def buf_valid_def)
  have b: "0 \<le> bf_off (sb_buf sb)" "0 \<le> bf_len (sb_buf sb)" using buf_wf_bounds[OF assms(1)] by auto
  have "snd (buf_write (sb_buf sb) bs) = (bf_poke (sb_buf sb) (nat (bf_off (sb_buf sb) + bf_len (sb_buf sb))) bs)
      \<lparr>bf_len := bf_len (sb_buf sb) + int (length bs)\<rparr>"
    using assms(2) m b by (simp add: buf_write_def buf_write_alloc_def buf_bptr_def buf_valid_def bf_poke_def nat_add_distrib)
  moreover have "bf_len (bf_poke (sb_buf sb) i xs) = bf_len (sb_buf sb)" for i xs using m by (simp add: bf_poke_def)
  ultimately show ?thesis using assms(3) by (simp add: stream_buf_added_def)
qed

lemma read_bytes_ok:
  assumes i: "stream_inv M h sb" "next_ready sb" "bf_len (sb_residual sb) = 0" "\<not> residual_fully_formed sb"
    and bs: "bs \<noteq> []" "int (length bs) \<le> bf_len (sb_next sb)" and s: "ls_stream sock = sb" "ls_sd sock"
  shows "\<exists>len b sock2. link_socket_read_tcp sock (Recv_Bytes bs) b0 = Some (len, b, sock2) \<and> ls_sd sock2 = ls_sd sock
    \<and> ls_stream_reset sock2 = ls_stream_reset sock \<and>
    (if sb_error (ls_stream sock2) then bad_frame M (pending sb @ bs)
     else stream_inv M h (ls_stream sock2) \<and>
       (if len > 0 then buf_bytes b \<noteq> [] \<and> int (length (buf_bytes b)) \<le> M \<and> pending sb @ bs = frame_bytes (buf_bytes b) @ pending (ls_stream sock2)
        else pending (ls_stream sock2) = pending sb @ bs))"
proof -
  have w: "buf_wf (sb_buf sb)" "buf_defined (sb_buf sb)" "buf_wf (sb_residual sb)" "stream_wf M h sb" "sb_maxlen sb = M" "0 \<le> bf_len (sb_buf sb)"
    using i(1) buf_wf_bounds by (auto simp: stream_inv_def stream_wf_def)
  have safe: "buf_safe (sb_buf sb) (int (length bs))" using i(2) bs w(1) by (auto simp: next_ready_def buf_safe_wf)
  obtain d where d: "buf_write (sb_buf sb) bs = (True, d)" "buf_wf d" "content d = content (sb_buf sb) @ bs"
      "bf_cap d = bf_cap (sb_buf sb)" "bf_off d = bf_off (sb_buf sb)" "buf_defined d"
    using buf_write_safe[OF w(1) safe] by (metis buf_write_frame snd_conv)
  have dl: "bf_len d = bf_len (sb_buf sb) + int (length bs)" using bf_len_content[OF d(2)] bf_len_content[OF w(1)] d(3) by simp
  define sb1 where "sb1 = sb\<lparr>sb_buf := d\<rparr>"
  have rc: "content (sb_residual sb) = []" using i(3) w(3) by (simp add: take_drop_content)
  have lim: "bf_len d \<le> (if sb_len sb \<ge> 0 then sb_len sb else M)" using i(2) bs(2) dl w(5) by (auto simp: next_ready_def split: if_splits)
  have ar: "add_ready M h sb1"
    using i(1,3,4) lim d(2,4-6) by (auto simp: add_ready_def stream_inv_def stream_wf_def sb1_def split: if_splits)
  have pe: "pending sb1 = pending sb @ bs" using d(3) rc by (simp add: pending_def sb1_def)
  have nx: "stream_buf_get_next sb = Some (sb_next sb)" "bf_off (sb_next sb) = bf_off (sb_buf sb) + bf_len (sb_buf sb)"
    using i(2) by (auto simp: stream_buf_get_next_def next_ready_def)
  obtain ok sb2 where a: "stream_buf_added sb1 0 = Some (ok, sb2)"
    "if sb_error sb2 then \<not> ok \<and> (\<exists>n rest. pending sb1 = enc16 n @ rest \<and> (uint n < 1 \<or> M < uint n))
        \<and> stream_wf M h sb2 \<and> \<not> residual_fully_formed sb2 \<and> sb_len sb2 = -1 \<and> bf_len (sb_buf sb2) = 0 \<and> bf_off (sb_buf sb2) = h
     else pending sb2 = pending sb1 \<and> \<not> residual_fully_formed sb2
       \<and> (if ok then stream_inv M h (sb2\<lparr>residual_fully_formed := True\<rparr>) else stream_inv M h sb2 \<and> bf_len (sb_residual sb2) = 0)"
    using added_ok[OF ar] by blast
  have ad: "stream_buf_added (sb\<lparr>sb_buf := bf_poke (sb_buf sb) (nat (bf_off (sb_next sb))) bs\<rparr>) (int (length bs)) = Some (ok, sb2)"
    unfolding nx(2) added_write[OF w(1) safe bs(1)] using a(1) d(1) by (simp add: sb1_def)
  have rd: "link_socket_read_tcp sock (Recv_Bytes bs) b0 =
      (if ok then (case stream_buf_get_final sb2 of None \<Rightarrow> None
            | Some b1 \<Rightarrow> Some (bf_len b1, b1, sock\<lparr>ls_stream := stream_buf_reset sb2\<rparr>))
       else Some (0, b0\<lparr>bf_len := 0\<rparr>, sock\<lparr>ls_stream := sb2\<rparr>))"
    unfolding link_socket_read_tcp_def Let_def s(1) using i(4) s(2) nx(1) ad by simp
  show ?thesis
  proof (cases "sb_error sb2")
    case True
    then have "\<not> ok" "bad_frame M (pending sb @ bs)" using a(2) pe by (auto simp: bad_frame_def)
    then show ?thesis unfolding rd using True by simp
  next
    case ne: False
    show ?thesis
    proof (cases ok)
      case False
      then show ?thesis unfolding rd using ne a(2) pe by simp
    next
      case True
      then have v: "stream_inv M h (sb2\<lparr>residual_fully_formed := True\<rparr>)" "pending sb2 = pending sb @ bs" using ne a(2) pe by auto
      have e: "pending (sb2\<lparr>residual_fully_formed := True\<rparr>) = pending sb2" "stream_buf_reset (sb2\<lparr>residual_fully_formed := True\<rparr>) = stream_buf_reset sb2"
        by (simp_all add: pending_def stream_buf_reset_def)
      have f: "stream_buf_get_final (sb2\<lparr>residual_fully_formed := True\<rparr>) = Some (sb_buf sb2)" "0 < bf_len (sb_buf sb2)"
          "int (length (content (sb_buf sb2))) = bf_len (sb_buf sb2)" "bf_len (sb_buf sb2) \<le> M" "stream_inv M h (stream_buf_reset sb2)"
          "pending sb2 = frame_bytes (content (sb_buf sb2)) @ pending (stream_buf_reset sb2)"
        using finish_ok[OF v(1)] e by auto
      have bb: "buf_bytes (sb_buf sb2) = content (sb_buf sb2)" using v(1) by (auto simp: stream_inv_def stream_wf_def buf_bytes_wf)
      have g: "stream_buf_get_final sb2 = Some (sb_buf sb2)" using f(1) by (simp add: stream_buf_get_final_def split: if_splits)
      have er: "\<not> sb_error (stream_buf_reset sb2)" using ne by (simp add: stream_buf_reset_def)
      have "content (sb_buf sb2) \<noteq> []" using f(2,3) by auto
      then show ?thesis unfolding rd using True g f(2-6) bb er v(2) by simp
    qed
  qed
qed

lemma tcp_step:
  assumes i: "tcp_inv M h s"
  shows "\<exists>r s'. stream_step s k = Some (r, s') \<and> tcp_inv M h s' \<and> tcp_spec M (tcp_abs s) k r (tcp_abs s')"
proof -
  obtain sock net where s: "s = (sock, net)" by (cases s)
  have sd: "ls_sd sock" "\<not> ls_stream_reset sock" using i by (auto simp: tcp_inv_def s)
  show ?thesis
  proof (cases "sb_error (ls_stream sock)")
    case True
    then have "stream_step s k = Some ([], s)" by (simp add: stream_step_def s socket_connection_reset_def)
    then show ?thesis using True i by (simp add: tcp_spec_def tcp_abs_def s)
  next
    case ne: False
    then have si: "stream_inv M h (ls_stream sock)" using i by (simp add: tcp_inv_def s)
    obtain want sb where u: "stream_buf_read_setup_dowork (ls_stream sock) = Some (want, sb)"
      "if sb_error sb then want \<and> bad_frame M (pending (ls_stream sock))
       else stream_inv M h sb \<and> pending sb = pending (ls_stream sock) \<and> (want \<longleftrightarrow> \<not> residual_fully_formed sb)
         \<and> (want \<longrightarrow> next_ready sb \<and> bf_len (sb_residual sb) = 0)"
      using read_setup_ok[OF si] by blast
    define sock1 where "sock1 = sock\<lparr>ls_stream := sb\<rparr>"
    define n where "n = (if want then min k (min (length net) (nat (bf_len (sb_next sb)))) else 0)"
    have st: "stream_step s k = (if socket_connection_reset sock1 0 False \<or> want \<and> n = 0 then Some ([], sock1, net)
         else case link_socket_read_tcp sock1 (Recv_Bytes (take n net)) clear_buf of None \<Rightarrow> None
         | Some (len, b, sock2) \<Rightarrow>
             Some (if len > 0 \<and> \<not> socket_connection_reset sock2 len False then [buf_bytes b] else [], sock2, drop n net))"
    proof -
      have nrc: "\<not> socket_connection_reset sock 0 False" using ne sd by (simp add: socket_connection_reset_def)
      show ?thesis by (simp only: stream_step_def s prod.case nrc u(1) if_False option.case Let_def sock1_def n_def)
    qed
    have s1: "ls_stream sock1 = sb" "ls_sd sock1" "\<not> ls_stream_reset sock1" using sd by (simp_all add: sock1_def)
    show ?thesis
    proof (cases "sb_error sb")
      case True
      then have "stream_step s k = Some ([], sock1, net)" unfolding st using s1 by (simp add: socket_connection_reset_def)
      then show ?thesis using True u(2) ne s1 bad_frame_append
        by (auto simp: tcp_inv_def tcp_spec_def tcp_abs_def s)
    next
      case ne1: False
      then have v: "stream_inv M h sb" "pending sb = pending (ls_stream sock)" "want \<longleftrightarrow> \<not> residual_fully_formed sb"
        "want \<longrightarrow> next_ready sb \<and> bf_len (sb_residual sb) = 0" using u(2) by auto
      have nr: "\<not> socket_connection_reset sock1 0 False" using ne1 s1 by (simp add: socket_connection_reset_def)
      show ?thesis
      proof (cases want)
        case False
        then have ff: "residual_fully_formed sb" using v(3) by simp
        have f: "stream_buf_get_final sb = Some (sb_buf sb)" "0 < bf_len (sb_buf sb)"
          "int (length (content (sb_buf sb))) = bf_len (sb_buf sb)" "bf_len (sb_buf sb) \<le> M" "stream_inv M h (stream_buf_reset sb)"
          "pending sb = frame_bytes (content (sb_buf sb)) @ pending (stream_buf_reset sb)"
          using finish_ok[OF v(1) ff] by auto
        have bb: "buf_bytes (sb_buf sb) = content (sb_buf sb)" using v(1) by (auto simp: stream_inv_def stream_wf_def buf_bytes_wf)
        have er: "\<not> sb_error (stream_buf_reset sb)" using ne1 by (simp add: stream_buf_reset_def)
        have "stream_step s k = Some ([content (sb_buf sb)], sock1\<lparr>ls_stream := stream_buf_reset sb\<rparr>, net)"
          unfolding st using nr False ff s1 f(1,2) er bb
          by (simp add: n_def link_socket_read_tcp_def socket_connection_reset_def)
        moreover have "content (sb_buf sb) \<noteq> []" using f(2,3) by auto
        ultimately show ?thesis using s1 f er ne v(2) by (simp add: tcp_inv_def tcp_spec_def tcp_abs_def s)
      next
        case True
        show ?thesis
        proof (cases "n = 0")
          case n0: True
          then have "stream_step s k = Some ([], sock1, net)" unfolding st using True by simp
          then show ?thesis using s1 v ne ne1 by (simp add: tcp_inv_def tcp_spec_def tcp_abs_def s)
        next
          case n1: False
          define bs where "bs = take n net"
          have b: "bs \<noteq> []" "int (length bs) \<le> bf_len (sb_next sb)" using n1 True by (auto simp: bs_def n_def)
          have nn: "net = bs @ drop n net" by (simp add: bs_def)
          obtain len b' sock2 where r: "link_socket_read_tcp sock1 (Recv_Bytes bs) clear_buf = Some (len, b', sock2)" "ls_sd sock2 = ls_sd sock1"
            "ls_stream_reset sock2 = ls_stream_reset sock1"
            "if sb_error (ls_stream sock2) then bad_frame M (pending sb @ bs)
             else stream_inv M h (ls_stream sock2) \<and>
               (if len > 0 then buf_bytes b' \<noteq> [] \<and> int (length (buf_bytes b')) \<le> M \<and> pending sb @ bs = frame_bytes (buf_bytes b') @ pending (ls_stream sock2)
                else pending (ls_stream sock2) = pending sb @ bs)"
            using read_bytes_ok[OF v(1) _ _ _ b s1(1,2), of clear_buf] v(3,4) True by blast
          have st': "stream_step s k = Some (if len > 0 \<and> \<not> sb_error (ls_stream sock2) then [buf_bytes b'] else [], sock2, drop n net)"
            unfolding st using nr n1 r(1-3) s1 by (simp add: bs_def socket_connection_reset_def)
          have ab: "tcp_abs s = Some ((pending sb @ bs) @ drop n net)"
            using ne v(2) nn by (simp add: tcp_abs_def s)
          show ?thesis
          proof (cases "sb_error (ls_stream sock2)")
            case True
            then have "bad_frame M ((pending sb @ bs) @ drop n net)" using r(4) by (simp only: bad_frame_append if_True)
            then show ?thesis unfolding st' ab using True r(2,3) s1 by (simp add: tcp_inv_def tcp_spec_def tcp_abs_def)
          next
            case False
            then show ?thesis unfolding st' ab using r s1
              by (cases "len > 0") (auto simp: tcp_inv_def tcp_spec_def tcp_abs_def)
          qed
        qed
      qed
    qed
  qed
qed

interpretation tcp_stream: relational_simulation "tcp_inv M h" tcp_abs "\<lambda>_. True" stream_step "tcp_spec M" for M h
  by unfold_locales (rule tcp_step)

section \<open>Properties\<close>

lemma run_rel_none: "run_rel (tcp_spec M) None ks rs m' \<Longrightarrow> concat rs = [] \<and> m' = None"
  by (induction ks arbitrary: rs) (auto simp: tcp_spec_def)

lemma run_rel_frames:
  assumes "run_rel (tcp_spec M) (Some bs) ks rs m'"
  shows "\<exists>rest. bs = concat (map frame_bytes (concat rs)) @ rest \<and> (\<forall>p \<in> set (concat rs). p \<noteq> [] \<and> int (length p) \<le> M)
    \<and> (m' = Some rest \<or> m' = None \<and> bad_frame M rest)"
  using assms
proof (induction ks arbitrary: bs rs)
  case Nil
  then show ?case by simp
next
  case (Cons k ks)
  obtain r rs' m1 where s: "rs = r # rs'" "tcp_spec M (Some bs) k r m1" "run_rel (tcp_spec M) m1 ks rs' m'"
    using Cons.prems by auto
  from s(2) consider "r = []" "m1 = Some bs" | "r = []" "m1 = None" "bad_frame M bs"
    | p bs' where "r = [p]" "p \<noteq> []" "int (length p) \<le> M" "bs = frame_bytes p @ bs'" "m1 = Some bs'"
    by (auto simp: tcp_spec_def)
  then show ?case
  proof cases
    case 1
    then show ?thesis using Cons.IH s by simp
  next
    case 2
    then show ?thesis using run_rel_none s by fastforce
  next
    case 3
    then obtain rest where "bs' = concat (map frame_bytes (concat rs')) @ rest" "\<forall>p \<in> set (concat rs'). p \<noteq> [] \<and> int (length p) \<le> M"
      "m' = Some rest \<or> m' = None \<and> bad_frame M rest" using Cons.IH[of bs' rs'] s by auto
    then show ?thesis using 3 s(1) by (intro exI[of _ rest]) auto
  qed
qed

definition stream_frame_ok :: "frame \<Rightarrow> bool" where
  "stream_frame_ok fm \<longleftrightarrow> 0 \<le> fm_headroom fm \<and> 2 \<le> fm_payload_size fm \<and> fm_payload_size fm \<le> 65535 \<and> 2 \<le> fm_tailroom fm"

definition new_link :: "stream_buf \<Rightarrow> link_socket" where
  "new_link sb = \<lparr>ls_stream = sb, ls_stream_reset = False, ls_sd = True\<rparr>"

lemma frame_init_inv:
  assumes "stream_frame_ok fm" "socket_frame_init fm False = Some sb"
  shows "stream_inv (fm_payload_size fm) (fm_headroom fm) sb" "pending sb = []"
proof -
  note f = assms(1)[unfolded stream_frame_ok_def]
  obtain b where b: "alloc_buf_sock_tun fm = Some b" "stream_buf_init b False = Some sb"
    using assms(2) by (auto simp: socket_frame_init_def split: option.splits)
  have be: "b = \<lparr>bf_cap = BUF_SIZE fm, bf_off = fm_headroom fm, bf_len = fm_payload_size fm, bf_data = Some (replicate (nat (BUF_SIZE fm)) 0)\<rparr>"
    and sz: "buf_size_valid (BUF_SIZE fm)"
    using b(1) f by (auto simp: alloc_buf_sock_tun_def alloc_buf_def buf_init_def BUF_SIZE_def Let_def split: if_splits)
  have res: "alloc_buf (fm_payload_size fm) = Some \<lparr>bf_cap = fm_payload_size fm, bf_off = 0, bf_len = 0, bf_data = Some (replicate (nat (fm_payload_size fm)) 0)\<rparr>"
    using sz f by (simp add: alloc_buf_def buf_size_valid_def BUF_SIZE_def)
  show "stream_inv (fm_payload_size fm) (fm_headroom fm) sb" "pending sb = []"
    using b(2) res sz f
    by (auto simp: stream_buf_init_def be stream_buf_reset_def stream_inv_def stream_wf_def buf_wf_def buf_defined_def
        buf_size_valid_def BUF_SIZE_def pending_def content_def)
qed

text \<open>C17: However the bytes of a TCP connection arrive, and whatever they are, no assertion fails:
  the receiver hands on exactly the frames at the front of the stream, each not empty and not longer
  than the configured size, and resets the connection only at a length that is out of range.\<close>

theorem tcp_stream_deframes:
  assumes "stream_frame_ok fm" "socket_frame_init fm False = Some sb"
  shows "\<exists>rs sock net'. run_ops stream_step (new_link sb, net) ks = Some (rs, sock, net') \<and>
    (\<forall>p \<in> set (concat rs). p \<noteq> [] \<and> int (length p) \<le> fm_payload_size fm) \<and>
    (\<exists>rest. net = concat (map frame_bytes (concat rs)) @ rest \<and>
      (if socket_connection_reset sock 0 False then bad_frame (fm_payload_size fm) rest else rest = pending (ls_stream sock) @ net'))"
proof -
  let ?M = "fm_payload_size fm" and ?h = "fm_headroom fm"
  note i = frame_init_inv[OF assms]
  have "tcp_inv ?M ?h (new_link sb, net)" "tcp_abs (new_link sb, net) = Some net"
    using i by (auto simp: tcp_inv_def tcp_abs_def new_link_def stream_inv_def)
  then obtain rs s' where r: "run_ops stream_step (new_link sb, net) ks = Some (rs, s')" "tcp_inv ?M ?h s'"
    "run_rel (tcp_spec ?M) (Some net) ks rs (tcp_abs s')"
    using tcp_stream.run_simulates[of ?M ?h "(new_link sb, net)" ks] by auto
  obtain sock net' where s': "s' = (sock, net')" by (cases s')
  obtain rest where f: "net = concat (map frame_bytes (concat rs)) @ rest" "\<forall>p \<in> set (concat rs). p \<noteq> [] \<and> int (length p) \<le> ?M"
    "tcp_abs s' = Some rest \<or> tcp_abs s' = None \<and> bad_frame ?M rest"
    using run_rel_frames[OF r(3)] by blast
  have "if socket_connection_reset sock 0 False then bad_frame ?M rest else rest = pending (ls_stream sock) @ net'"
    using f(3) r(2) by (auto simp: s' tcp_abs_def tcp_inv_def socket_connection_reset_def split: if_splits)
  then show ?thesis using r(1) f(1,2) unfolding s' by blast
qed

definition demo_tcp_frame :: frame where
  "demo_tcp_frame = \<lparr>fm_headroom = 4, fm_payload_size = 8, fm_tailroom = 4, fm_max_fragment_size = 0\<rparr>"

definition demo_stream :: stream_buf where "demo_stream = the (socket_frame_init demo_tcp_frame False)"

lemma demo_stream: "stream_frame_ok demo_tcp_frame" "socket_frame_init demo_tcp_frame False = Some demo_stream"
proof -
  show "stream_frame_ok demo_tcp_frame" by (simp add: stream_frame_ok_def demo_tcp_frame_def)
  have "socket_frame_init demo_tcp_frame False \<noteq> None" by code_simp
  then show "socket_frame_init demo_tcp_frame False = Some demo_stream" by (auto simp: demo_stream_def)
qed

theorem tcp_stream_deframes_witness:
  "\<exists>rs sock net'. run_ops stream_step (new_link demo_stream, [0, 1, 7, 0, 2, 8, 9, 0, 0, 5]) [3, 9, 2, 9] = Some (rs, sock, net') \<and>
    (\<forall>p \<in> set (concat rs). p \<noteq> [] \<and> int (length p) \<le> 8) \<and>
    (\<exists>rest. [0, 1, 7, 0, 2, 8, 9, 0, 0, 5] = concat (map frame_bytes (concat rs)) @ rest \<and>
      (if socket_connection_reset sock 0 False then bad_frame 8 rest else rest = pending (ls_stream sock) @ net'))"
proof -
  have e: "fm_payload_size demo_tcp_frame = 8" by (simp add: demo_tcp_frame_def)
  show ?thesis by (rule tcp_stream_deframes[OF demo_stream, unfolded e])
qed

lemma enc16_inj: "enc16 a = enc16 b \<Longrightarrow> a = b"
  by (metis dec16_enc16)

lemma length_frame: "length (frame_bytes p) = 2 + length p"
  by (simp add: frame_bytes_def length_enc)

lemma frame_inj:
  assumes "frame_bytes p @ xs = frame_bytes q @ ys" "length p \<le> 65535" "length q \<le> 65535"
  shows "p = q \<and> xs = ys"
proof -
  have "enc16 (of_nat (length p)) = enc16 (of_nat (length q))" "p @ xs = q @ ys"
    using assms(1) by (simp_all add: frame_bytes_def length_enc append_eq_append_conv)
  moreover from this(1) have "(of_nat (length p) :: u16) = of_nat (length q)" by (rule enc16_inj)
  moreover have "unat (of_nat n :: u16) = n" if "n \<le> 65535" for n using that by (simp add: unat_of_nat)
  ultimately show ?thesis using assms(2,3) by (metis append_eq_append_conv)
qed

lemma frames_prefix:
  assumes "concat (map frame_bytes ps) = concat (map frame_bytes out) @ rest"
    "\<forall>p \<in> set ps. length p \<le> 65535" "\<forall>p \<in> set out. length p \<le> 65535"
  shows "\<exists>qs. ps = out @ qs \<and> rest = concat (map frame_bytes qs)"
  using assms
proof (induction out arbitrary: ps)
  case Nil
  then show ?case by simp
next
  case (Cons o1 out)
  have "ps \<noteq> []"
  proof
    assume "ps = []"
    then have "frame_bytes o1 = []" using Cons.prems(1) by simp
    then show False using length_frame[of o1] by simp
  qed
  then obtain p ps' where ps: "ps = p # ps'" by (cases ps) auto
  have "p = o1 \<and> concat (map frame_bytes ps') = concat (map frame_bytes out) @ rest"
    by (rule frame_inj) (use Cons.prems ps in auto)
  then show ?case using Cons.IH[of ps'] Cons.prems(2,3) ps by auto
qed

lemma u16_uint: "0 \<le> n \<Longrightarrow> n \<le> 65535 \<Longrightarrow> uint (of_int n :: u16) = n"
  by (simp add: uint_word_of_int)

lemma bad_frame_frames:
  assumes "\<forall>p \<in> set qs. p \<noteq> [] \<and> int (length p) \<le> M" "M \<le> 65535"
  shows "\<not> bad_frame M (concat (map frame_bytes qs))"
proof
  assume "bad_frame M (concat (map frame_bytes qs))"
  then obtain n rest where n: "concat (map frame_bytes qs) = enc16 n @ rest" "uint n < 1 \<or> M < uint n" by (auto simp: bad_frame_def)
  show False
  proof (cases qs)
    case Nil
    then show ?thesis using n(1) by (metis append_is_Nil_conv concat.simps(1) length_enc(1) list.simps(8) list.size(3) zero_neq_numeral)
  next
    case (Cons q qs')
    then have "enc16 (of_nat (length q)) = enc16 n" using n(1) by (simp add: frame_bytes_def length_enc append_eq_append_conv)
    then have "n = of_nat (length q)" by (metis enc16_inj)
    moreover have "1 \<le> length q" "int (length q) \<le> M" using assms(1) Cons by (auto simp: Suc_le_eq)
    moreover have "uint (of_int (int (length q)) :: u16) = int (length q)"
      by (rule u16_uint) (use \<open>int (length q) \<le> M\<close> assms(2) in auto)
    ultimately show False using n(2) by (metis nat_int_comparison(3) not_le of_int_of_nat_eq of_nat_1)
  qed
qed

text \<open>A stream that waits for bytes has no complete frame.\<close>

lemma waiting_incomplete:
  assumes "stream_inv M h sb" "\<not> residual_fully_formed sb" "bf_len (sb_residual sb) = 0" "int (length q) \<le> 65535"
  shows "pending sb \<noteq> frame_bytes q @ ys"
proof
  assume p: "pending sb = frame_bytes q @ ys"
  have w: "buf_wf (sb_buf sb)" "buf_wf (sb_residual sb)" "M \<le> 65535" using assms(1) by (auto simp: stream_inv_def stream_wf_def)
  have rc: "content (sb_residual sb) = []" using assms(3) w(2) by (simp add: take_drop_content)
  have lb: "bf_len (sb_buf sb) = int (length (content (sb_buf sb)))" by (rule bf_len_content[OF w(1)])
  show False
  proof (cases "sb_len sb < 0")
    case True
    then have "bf_len (sb_buf sb) \<le> 1" using assms(1) by (simp add: stream_inv_def)
    then have "length (pending sb) \<le> 1" using True rc lb by (simp add: pending_def)
    then show False using p by (simp add: length_frame)
  next
    case False
    then have l: "1 \<le> sb_len sb" "sb_len sb \<le> M" "bf_len (sb_buf sb) < sb_len sb" using assms(1,2) by (auto simp: stream_inv_def)
    have "enc16 (of_int (sb_len sb)) = enc16 (of_nat (length q))" "content (sb_buf sb) = q @ ys"
      using p False rc by (simp_all add: pending_def frame_bytes_def length_enc append_eq_append_conv)
    moreover from this(1) have "(of_int (sb_len sb) :: u16) = of_int (int (length q))" by (metis enc16_inj of_int_of_nat_eq)
    moreover have "uint (of_int n :: u16) = n" if "0 \<le> n" "n \<le> 65535" for n using that by (simp add: uint_word_of_int)
    ultimately have "sb_len sb = int (length q)" "content (sb_buf sb) = q @ ys" using l w(3) assms(4) by (metis of_nat_0_le_iff order.trans zero_le_one)+
    then show False using l(3) lb by simp
  qed
qed

lemma write_tcp_ok:
  assumes "buf_wf b" "0 < bf_len b" "bf_len b \<le> 65535" "link_socket_write_tcp M b = Some w"
  shows "content w = frame_bytes (content b)" "content b \<noteq> []" "int (length (content b)) \<le> M"
proof -
  have l: "int (length (content b)) = bf_len b" using bf_len_content[OF assms(1)] by simp
  have len: "buf_len b = bf_len b" using assms(1) by (simp add: buf_len_wf)
  have u: "uint (of_int (bf_len b) :: u16) = bf_len b" using assms(2,3) by (simp add: uint_word_of_int)
  have e: "(of_int (bf_len b) :: u16) = of_nat (length (content b))" using l by (metis of_int_of_nat_eq)
  have w: "buf_write_prepend b (enc16 (of_int (bf_len b))) = (True, w)" "bf_len b \<le> M"
    using assms(4) u by (auto simp: link_socket_write_tcp_def Let_def len split: if_splits prod.splits bool.splits)
  let ?x = "enc16 (of_int (bf_len b))"
  have lx: "int (length ?x) = 2" by (simp add: length_enc)
  have def: "buf_defined b" using assms(1,2) by (auto simp: buf_wf_def buf_defined_def split: option.splits)
  have room: "int (length ?x) \<le> bf_off b" using w(1) buf_write_prepend_unsafe[of b ?x] by (metis Pair_inject linorder_not_le)
  obtain b' where b': "buf_write_prepend b ?x = (True, b')" "content b' = ?x @ content b"
    by (rule buf_write_prepend_safe[OF assms(1) def room])
  show "content w = frame_bytes (content b)" using w(1) b' by (simp add: frame_bytes_def e)
  show "content b \<noteq> []" "int (length (content b)) \<le> M" using assms(2) l w(2) by auto
qed

text \<open>C16: Packets written to a TCP connection come out of the other end unchanged and in order, however
  the bytes are cut on the way: what was handed on is a prefix of what was sent, the connection is not
  reset, and when all bytes have arrived the next turn hands on the next packet until none is left.\<close>

theorem tcp_stream_roundtrip:
  assumes f: "stream_frame_ok fm" "socket_frame_init fm False = Some sb"
    and send: "list_all2 (\<lambda>b w. buf_wf b \<and> 0 < bf_len b \<and> bf_len b \<le> 65535 \<and> link_socket_write_tcp (fm_payload_size fm) b = Some w) bs ws"
    and run: "run_ops stream_step (new_link sb, concat (map content ws)) ks = Some (rs, sock, net')"
  shows "\<exists>qs. map content bs = concat rs @ qs \<and> \<not> socket_connection_reset sock 0 False \<and>
    (net' = [] \<longrightarrow> qs = [] \<or> (\<exists>sock2. stream_step (sock, net') 0 = Some ([hd qs], sock2, [])))"
proof -
  let ?M = "fm_payload_size fm" and ?h = "fm_headroom fm"
  have M: "?M \<le> 65535" using f(1) by (simp add: stream_frame_ok_def)
  have wr: "content (ws ! i) = frame_bytes (content (bs ! i)) \<and> content (bs ! i) \<noteq> [] \<and> int (length (content (bs ! i))) \<le> ?M"
    if "i < length bs" for i
    using list_all2_nthD[OF send that] write_tcp_ok by blast
  have len: "length ws = length bs" using list_all2_lengthD[OF send] by simp
  have mp: "map content ws = map frame_bytes (map content bs)" by (rule nth_equalityI) (use wr len in auto)
  have ok: "\<forall>p \<in> set (map content bs). p \<noteq> [] \<and> int (length p) \<le> ?M" using wr by (auto simp: in_set_conv_nth)
  define s where "s = (new_link sb, concat (map content ws))"
  have "tcp_inv ?M ?h s" "tcp_abs s = Some (concat (map content ws))"
    using frame_init_inv[OF f] by (auto simp: s_def tcp_inv_def tcp_abs_def new_link_def stream_inv_def)
  then obtain rs1 s1 where r: "run_ops stream_step s ks = Some (rs1, s1)" "tcp_inv ?M ?h s1"
    "run_rel (tcp_spec ?M) (Some (concat (map content ws))) ks rs1 (tcp_abs s1)"
    using tcp_stream.run_simulates[of ?M ?h s ks] by auto
  then have e: "rs1 = rs" "s1 = (sock, net')" using run by (auto simp: s_def)
  obtain rest where d: "concat (map content ws) = concat (map frame_bytes (concat rs)) @ rest"
    "\<forall>p \<in> set (concat rs). p \<noteq> [] \<and> int (length p) \<le> ?M"
    "tcp_abs s1 = Some rest \<or> tcp_abs s1 = None \<and> bad_frame ?M rest"
    using run_rel_frames[OF r(3)] unfolding e(1) by blast
  have "\<exists>qs. map content bs = concat rs @ qs \<and> rest = concat (map frame_bytes qs)"
  proof (rule frames_prefix)
    show "concat (map frame_bytes (map content bs)) = concat (map frame_bytes (concat rs)) @ rest" using d(1) mp by simp
    show "\<forall>p \<in> set (map content bs). length p \<le> 65535" "\<forall>p \<in> set (concat rs). length p \<le> 65535"
      using ok d(2) M by fastforce+
  qed
  then obtain qs where q: "map content bs = concat rs @ qs" "rest = concat (map frame_bytes qs)" by blast
  have qok: "\<forall>p \<in> set qs. p \<noteq> [] \<and> int (length p) \<le> ?M"
  proof
    fix p assume "p \<in> set qs"
    then have "p \<in> set (map content bs)" unfolding q(1) by simp
    then show "p \<noteq> [] \<and> int (length p) \<le> ?M" using ok by blast
  qed
  have nb: "\<not> bad_frame ?M rest" unfolding q(2) by (rule bad_frame_frames[OF qok M])
  then have abs: "tcp_abs s1 = Some rest" using d(3) by blast
  have inv: "stream_inv ?M ?h (ls_stream sock)" "\<not> socket_connection_reset sock 0 False" "pending (ls_stream sock) @ net' = rest"
    using abs r(2) unfolding e(2) by (auto simp: tcp_abs_def tcp_inv_def socket_connection_reset_def split: if_splits)
  have "\<exists>sock2. stream_step (sock, net') 0 = Some ([hd qs], sock2, [])" if n: "net' = []" "qs \<noteq> []"
  proof -
    obtain q1 qs1 where qs: "qs = q1 # qs1" using n(2) by (cases qs) auto
    have pe: "pending (ls_stream sock) = frame_bytes q1 @ concat (map frame_bytes qs1)" using inv(3) q(2) n(1) qs by simp
    have q1: "int (length q1) \<le> 65535" using qok qs M by fastforce
    obtain rr s2 where st: "stream_step (sock, []) 0 = Some (rr, s2)" "tcp_inv ?M ?h s2" "tcp_spec ?M (tcp_abs (sock, [])) 0 rr (tcp_abs s2)"
      using tcp_step[OF r(2), of 0] unfolding e(2) n(1) by blast
    obtain want sb1 where u: "stream_buf_read_setup_dowork (ls_stream sock) = Some (want, sb1)"
      "if sb_error sb1 then want \<and> bad_frame ?M (pending (ls_stream sock))
       else stream_inv ?M ?h sb1 \<and> pending sb1 = pending (ls_stream sock) \<and> (want \<longleftrightarrow> \<not> residual_fully_formed sb1)
         \<and> (want \<longrightarrow> next_ready sb1 \<and> bf_len (sb_residual sb1) = 0)"
      using read_setup_ok[OF inv(1)] by blast
    have ne: "\<not> sb_error sb1" using u(2) nb inv(3) n(1) by auto
    then have v: "stream_inv ?M ?h sb1" "pending sb1 = pending (ls_stream sock)" "want \<longleftrightarrow> \<not> residual_fully_formed sb1"
      "want \<longrightarrow> bf_len (sb_residual sb1) = 0" using u(2) by auto
    have nw: "\<not> want"
    proof
      assume want
      then have "pending sb1 \<noteq> frame_bytes q1 @ concat (map frame_bytes qs1)"
        by (intro waiting_incomplete[OF v(1) _ _ q1]) (use v(3,4) in auto)
      then show False using v(2) pe by simp
    qed
    then have ff: "residual_fully_formed sb1" using v(3) by simp
    have fin: "stream_buf_get_final sb1 = Some (sb_buf sb1)" "0 < bf_len (sb_buf sb1)"
      "int (length (content (sb_buf sb1))) = bf_len (sb_buf sb1)" "bf_len (sb_buf sb1) \<le> ?M"
      "pending sb1 = frame_bytes (content (sb_buf sb1)) @ pending (stream_buf_reset sb1)"
      using finish_ok[OF v(1) ff] by auto
    have cq: "content (sb_buf sb1) = q1"
    proof -
      have "frame_bytes (content (sb_buf sb1)) @ pending (stream_buf_reset sb1) = frame_bytes q1 @ concat (map frame_bytes qs1)"
        using fin(5) v(2) pe by simp
      moreover have "length (content (sb_buf sb1)) \<le> 65535" using fin(3,4) M by linarith
      ultimately show ?thesis using frame_inj q1 by (metis of_nat_le_iff of_nat_numeral)
    qed
    have bb: "buf_bytes (sb_buf sb1) = content (sb_buf sb1)" using v(1) by (auto simp: stream_inv_def stream_wf_def buf_bytes_wf)
    have er: "\<not> sb_error (stream_buf_reset sb1)" "\<not> ls_stream_reset sock" using ne inv(2) by (auto simp: stream_buf_reset_def socket_connection_reset_def split: if_splits)
    have nr: "\<not> socket_connection_reset (sock\<lparr>ls_stream := sb1\<rparr>) 0 False" using ne er(2) by (simp add: socket_connection_reset_def)
    have "stream_step (sock, []) 0 = Some ([q1], sock\<lparr>ls_stream := stream_buf_reset sb1\<rparr>, [])"
      unfolding stream_step_def prod.case
      using inv(2) u(1) nr nw ff fin(1,2) bb cq er by (simp add: link_socket_read_tcp_def socket_connection_reset_def)
    then show ?thesis using qs n(1) by simp
  qed
  then show ?thesis using q(1) inv(2) by blast
qed

definition demo_out :: "byte list \<Rightarrow> buffer" where
  "demo_out xs = \<lparr>bf_cap = 64, bf_off = 4, bf_len = int (length xs), bf_data = Some (mem_put (replicate 64 0) 4 xs)\<rparr>"

theorem tcp_stream_roundtrip_witness:
  "\<exists>sock qs. run_ops stream_step (new_link demo_stream, [0, 1, 7, 0, 2, 8, 9]) [1, 3, 9, 9] = Some ([[], [[7]], [[8, 9]], []], sock, [])
    \<and> [[7 :: byte], [8, 9]] = concat [[], [[7]], [[8, 9]], []] @ qs \<and> \<not> socket_connection_reset sock 0 False"
proof -
  let ?bs = "[demo_out [7], demo_out [8, 9]]"
  define ws where "ws = map (\<lambda>b. the (link_socket_write_tcp 8 b)) ?bs"
  have e: "fm_payload_size demo_tcp_frame = 8" by (simp add: demo_tcp_frame_def)
  have w: "link_socket_write_tcp 8 (demo_out [7]) \<noteq> None" "link_socket_write_tcp 8 (demo_out [8, 9]) \<noteq> None" by code_simp+
  have v: "buf_wf (demo_out [7])" "buf_wf (demo_out [8, 9])" "bf_len (demo_out [7]) = 1" "bf_len (demo_out [8, 9]) = 2" by code_simp+
  have s: "list_all2 (\<lambda>b w. buf_wf b \<and> 0 < bf_len b \<and> bf_len b \<le> 65535 \<and> link_socket_write_tcp (fm_payload_size demo_tcp_frame) b = Some w) ?bs ws"
    using w v by (auto simp: ws_def e)
  have c: "concat (map content ws) = [0, 1, 7, 0, 2, 8, 9]" "map content ?bs = [[7], [8, 9]]" unfolding ws_def by code_simp+
  have "map_option (\<lambda>(rs, sock, net). (rs, net)) (run_ops stream_step (new_link demo_stream, [0, 1, 7, 0, 2, 8, 9]) [1, 3, 9, 9])
      = Some ([[], [[7]], [[8, 9]], []], [])" by code_simp
  then obtain sock where r: "run_ops stream_step (new_link demo_stream, [0, 1, 7, 0, 2, 8, 9]) [1, 3, 9, 9] = Some ([[], [[7]], [[8, 9]], []], sock, [])"
    by auto
  show ?thesis using tcp_stream_roundtrip[OF demo_stream s r[folded c(1)]] r unfolding c(2) by blast
qed

end
