(* ===== verification/Hash_Table.thy ===== *)
theory Hash_Table
  imports Buf
begin

text \<open>
  The hash table of \<^verbatim>\<open>list.h\<close> and \<^verbatim>\<open>list.c\<close>. A bucket is the list of its elements in the
  order of the \<^verbatim>\<open>next\<close> links; a \<^verbatim>\<open>void *key\<close> is the key it points to, and \<^verbatim>\<open>NULL\<close>,
  the mark of a deleted element, is \<open>None\<close>. A found element is the head of its bucket,
  because a successful search moves it there. The iterator's element pointers are positions
  in the bucket it has locked.
\<close>

unbundle bit_operations_syntax

record ('k, 'v) hash_element =
  he_value :: 'v
  he_key :: "'k option"
  he_hash :: u32

record ('k, 'v) hash =
  n_buckets :: int
  n_elements :: int
  h_mask :: int
  h_iv :: u32
  hash_function :: "'k \<Rightarrow> u32 \<Rightarrow> u32"
  compare_function :: "'k \<Rightarrow> 'k \<Rightarrow> bool"
  buckets :: "('k, 'v) hash_element list list"

section \<open>Basic operations\<close>

text \<open>
  \<^verbatim>\<open>n_buckets\<close> is an \<^verbatim>\<open>int\<close>, so the power of two is at most \<open>2 ^ 31\<close>. \<^verbatim>\<open>ALLOC_ARRAY\<close> goes
  through \<^verbatim>\<open>array_mult_safe\<close>, which stops the process when the array has more than 0xFFFFFFFF bytes;
  a bucket is a pointer of 8 bytes. This covers the power \<open>2 ^ 31\<close>, which the cast to \<^verbatim>\<open>int\<close> makes
  negative and the parameter of type \<^verbatim>\<open>size_t\<close> larger than that limit.
\<close>

definition SIZEOF_HASH_BUCKET :: int where "SIZEOF_HASH_BUCKET = 8"

definition hash_init ::
  "int \<Rightarrow> u32 \<Rightarrow> ('k \<Rightarrow> u32 \<Rightarrow> u32) \<Rightarrow> ('k \<Rightarrow> 'k \<Rightarrow> bool) \<Rightarrow> ('k, 'v) hash option" where
  "hash_init n iv hf cf =
     (if \<not> n > 0 then None
      else let nb = adjust_power_of_2_from 1 (nat n) in
           if SIZEOF_HASH_BUCKET * int nb > 0xFFFFFFFF then None
           else Some \<lparr>n_buckets = int nb, n_elements = 0, h_mask = int nb - 1, h_iv = iv,
                 hash_function = hf, compare_function = cf, buckets = replicate nb []\<rparr>)"

definition hash_value :: "('k, 'v) hash \<Rightarrow> 'k \<Rightarrow> u32" where
  "hash_value h key = hash_function h key (h_iv h)"

definition hash_n_elements :: "('k, 'v) hash \<Rightarrow> int" where
  "hash_n_elements h = n_elements h"

definition hash_n_buckets :: "('k, 'v) hash \<Rightarrow> int" where
  "hash_n_buckets h = n_buckets h"

definition hash_bucket :: "('k, 'v) hash \<Rightarrow> u32 \<Rightarrow> nat" where
  "hash_bucket h hv = unat (hv AND of_int (h_mask h))"

definition set_bucket :: "('k, 'v) hash \<Rightarrow> nat \<Rightarrow> ('k, 'v) hash_element list \<Rightarrow> ('k, 'v) hash" where
  "set_bucket h i b = h\<lparr>buckets := (buckets h)[i := b]\<rparr>"

text \<open>The test of the search loops. A marked element has no key to compare with.\<close>

definition he_match :: "('k, 'v) hash \<Rightarrow> 'k \<Rightarrow> u32 \<Rightarrow> ('k, 'v) hash_element \<Rightarrow> bool" where
  "he_match h key hv he \<longleftrightarrow>
     hv = he_hash he \<and> (case he_key he of None \<Rightarrow> False | Some k \<Rightarrow> compare_function h key k)"

text \<open>The walk along a bucket: the elements before the first hit, the hit, those after it.\<close>

fun bucket_split :: "('e \<Rightarrow> bool) \<Rightarrow> 'e list \<Rightarrow> ('e list \<times> 'e \<times> 'e list) option" where
  "bucket_split P [] = None"
| "bucket_split P (e # es) =
     (if P e then Some ([], e, es)
      else map_option (\<lambda>(pre, x, post). (e # pre, x, post)) (bucket_split P es))"

definition hash_lookup_fast ::
  "('k, 'v) hash \<Rightarrow> nat \<Rightarrow> 'k \<Rightarrow> u32 \<Rightarrow> ('k, 'v) hash_element option \<times> ('k, 'v) hash" where
  "hash_lookup_fast h i key hv =
     (case bucket_split (he_match h key hv) (buckets h ! i) of
        None \<Rightarrow> (None, h)
      | Some (pre, he, post) \<Rightarrow> (Some he, set_bucket h i (he # pre @ post)))"

definition hash_remove_fast :: "('k, 'v) hash \<Rightarrow> nat \<Rightarrow> 'k \<Rightarrow> u32 \<Rightarrow> bool \<times> ('k, 'v) hash" where
  "hash_remove_fast h i key hv =
     (case bucket_split (he_match h key hv) (buckets h ! i) of
        None \<Rightarrow> (False, h)
      | Some (pre, he, post) \<Rightarrow>
          (True, (set_bucket h i (pre @ post))\<lparr>n_elements := n_elements h - 1\<rparr>))"

definition hash_add_fast :: "('k, 'v) hash \<Rightarrow> nat \<Rightarrow> 'k \<Rightarrow> u32 \<Rightarrow> 'v \<Rightarrow> ('k, 'v) hash" where
  "hash_add_fast h i key hv value =
     (set_bucket h i (\<lparr>he_value = value, he_key = Some key, he_hash = hv\<rparr> # buckets h ! i))
       \<lparr>n_elements := n_elements h + 1\<rparr>"

definition hash_lookup :: "('k, 'v) hash \<Rightarrow> 'k \<Rightarrow> 'v option \<times> ('k, 'v) hash" where
  "hash_lookup h key =
     (let hv = hash_value h key in
      case hash_lookup_fast h (hash_bucket h hv) key hv of
        (he, h') \<Rightarrow> (map_option he_value he, h'))"

text \<open>\<^verbatim>\<open>he->value = value\<close> on the element a search has just moved to the head.\<close>

definition set_head :: "('k, 'v) hash \<Rightarrow> nat \<Rightarrow> (('k, 'v) hash_element \<Rightarrow> ('k, 'v) hash_element) \<Rightarrow> ('k, 'v) hash" where
  "set_head h i f = set_bucket h i (case buckets h ! i of [] \<Rightarrow> [] | e # es \<Rightarrow> f e # es)"

definition hash_add :: "('k, 'v) hash \<Rightarrow> 'k \<Rightarrow> 'v \<Rightarrow> bool \<Rightarrow> bool \<times> ('k, 'v) hash" where
  "hash_add h key value replace =
     (let hv = hash_value h key; i = hash_bucket h hv in
      case hash_lookup_fast h i key hv of
        (Some he, h1) \<Rightarrow>
          if replace then (True, set_head h1 i (\<lambda>e. e\<lparr>he_value := value\<rparr>)) else (False, h1)
      | (None, h1) \<Rightarrow> (True, hash_add_fast h1 i key hv value))"

definition hash_remove :: "('k, 'v) hash \<Rightarrow> 'k \<Rightarrow> bool \<times> ('k, 'v) hash" where
  "hash_remove h key =
     (let hv = hash_value h key in hash_remove_fast h (hash_bucket h hv) key hv)"

section \<open>Iteration\<close>

text \<open>\<^verbatim>\<open>hash_remove_marked\<close>: the second component counts the elements freed.\<close>

fun drop_marked :: "('k, 'v) hash_element list \<Rightarrow> ('k, 'v) hash_element list \<times> int" where
  "drop_marked [] = ([], 0)"
| "drop_marked (e # es) =
     (case drop_marked es of (es', n) \<Rightarrow> if he_key e = None then (es', n + 1) else (e # es', n))"

definition hash_remove_marked :: "('k, 'v) hash \<Rightarrow> nat \<Rightarrow> ('k, 'v) hash" where
  "hash_remove_marked h i =
     (case drop_marked (buckets h ! i) of
        (es, n) \<Rightarrow> (set_bucket h i es)\<lparr>n_elements := n_elements h - n\<rparr>)"

record hash_iterator =
  hi_bucket_index :: int
  hi_bucket :: "nat option"
  hi_elem :: "nat option"
  hi_last :: "nat option"
  hi_bucket_marked :: bool
  hi_bucket_index_start :: int
  hi_bucket_index_end :: int

definition hash_iterator_init_range :: "('k, 'v) hash \<Rightarrow> int \<Rightarrow> int \<Rightarrow> hash_iterator option" where
  "hash_iterator_init_range h start_bucket end0 =
     (let end_bucket = (if end0 > n_buckets h then n_buckets h else end0) in
      if \<not> (start_bucket \<ge> 0 \<and> start_bucket \<le> end_bucket) then None
      else Some \<lparr>hi_bucket_index = start_bucket - 1, hi_bucket = None, hi_elem = None,
                 hi_last = None, hi_bucket_marked = False, hi_bucket_index_start = start_bucket,
                 hi_bucket_index_end = end_bucket\<rparr>)"

definition hash_iterator_init :: "('k, 'v) hash \<Rightarrow> hash_iterator option" where
  "hash_iterator_init h = hash_iterator_init_range h 0 (n_buckets h)"

definition hash_iterator_lock :: "hash_iterator \<Rightarrow> nat \<Rightarrow> hash_iterator" where
  "hash_iterator_lock hi b = hi\<lparr>hi_bucket := Some b, hi_last := None, hi_bucket_marked := False\<rparr>"

definition hash_iterator_unlock ::
  "('k, 'v) hash \<Rightarrow> hash_iterator \<Rightarrow> ('k, 'v) hash \<times> hash_iterator" where
  "hash_iterator_unlock h hi =
     (case hi_bucket hi of
        None \<Rightarrow> (h, hi)
      | Some b \<Rightarrow>
          (if hi_bucket_marked hi then hash_remove_marked h b else h,
           hi\<lparr>hi_bucket_marked := False, hi_bucket := None, hi_last := None\<rparr>))"

text \<open>\<^verbatim>\<open>hi->elem->next\<close> is the next position, \<^verbatim>\<open>NULL\<close> at the end of the bucket.\<close>

definition hash_iterator_advance :: "('k, 'v) hash \<Rightarrow> hash_iterator \<Rightarrow> hash_iterator" where
  "hash_iterator_advance h hi =
     (case (hi_bucket hi, hi_elem hi) of
        (Some b, Some p) \<Rightarrow>
          hi\<lparr>hi_last := Some p,
             hi_elem := (if Suc p < length (buckets h ! b) then Some (Suc p) else None)\<rparr>
      | _ \<Rightarrow> hi)"

text \<open>The loop over the buckets; \<open>n\<close> is how many are left.\<close>

fun hash_iterator_search ::
  "nat \<Rightarrow> ('k, 'v) hash \<Rightarrow> hash_iterator \<Rightarrow> (nat \<times> nat) option \<times> ('k, 'v) hash \<times> hash_iterator" where
  "hash_iterator_search 0 h hi = (None, h, hi\<lparr>hi_bucket_index := hi_bucket_index hi + 1\<rparr>)"
| "hash_iterator_search (Suc n) h hi =
     (let hi1 = hi\<lparr>hi_bucket_index := hi_bucket_index hi + 1\<rparr>;
          (h2, hi2) = hash_iterator_unlock h hi1;
          b = nat (hi_bucket_index hi2) in
      if buckets h2 ! b \<noteq> []
      then let hi3 = (hash_iterator_lock hi2 b)\<lparr>hi_elem := Some 0\<rparr>
           in (Some (b, 0), h2, hash_iterator_advance h2 hi3)
      else hash_iterator_search n h2 hi2)"

text \<open>The element returned is given by its bucket and its position.\<close>

definition hash_iterator_next ::
  "('k, 'v) hash \<Rightarrow> hash_iterator \<Rightarrow> (nat \<times> nat) option \<times> ('k, 'v) hash \<times> hash_iterator" where
  "hash_iterator_next h hi =
     (case hi_elem hi of
        Some p \<Rightarrow> (map_option (\<lambda>b. (b, p)) (hi_bucket hi), h, hash_iterator_advance h hi)
      | None \<Rightarrow> hash_iterator_search (nat (hi_bucket_index_end hi - hi_bucket_index hi - 1)) h hi)"

definition hash_iterator_delete_element ::
  "('k, 'v) hash \<Rightarrow> hash_iterator \<Rightarrow> (('k, 'v) hash \<times> hash_iterator) option" where
  "hash_iterator_delete_element h hi =
     (case (hi_bucket hi, hi_last hi) of
        (Some b, Some p) \<Rightarrow>
          Some (set_bucket h b ((buckets h ! b)[p := (buckets h ! b ! p)\<lparr>he_key := None\<rparr>]),
                hi\<lparr>hi_bucket_marked := True\<rparr>)
      | _ \<Rightarrow> None)"

definition hash_iterator_free :: "('k, 'v) hash \<Rightarrow> hash_iterator \<Rightarrow> ('k, 'v) hash" where
  "hash_iterator_free h hi = fst (hash_iterator_unlock h hi)"

text \<open>
  The loop of the functions that walk over the table and delete the elements that satisfy a
  test: \<^verbatim>\<open>hash_remove_by_value\<close> here, the route reaper of the server. The body sees the
  element and a state of its own, and says whether the element goes. \<open>fuel\<close> bounds the
  number of elements visited.
\<close>

fun hash_sweep ::
  "nat \<Rightarrow> ('st \<Rightarrow> ('k, 'v) hash_element \<Rightarrow> (bool \<times> 'st) option) \<Rightarrow>
   ('k, 'v) hash \<Rightarrow> hash_iterator \<Rightarrow> 'st \<Rightarrow> (('k, 'v) hash \<times> 'st) option" where
  "hash_sweep 0 f h hi st = None"
| "hash_sweep (Suc fuel) f h hi st =
     (case hash_iterator_next h hi of
        (None, h1, hi1) \<Rightarrow> Some (hash_iterator_free h1 hi1, st)
      | (Some (b, p), h1, hi1) \<Rightarrow>
          (case f st (buckets h1 ! b ! p) of
             None \<Rightarrow> None
           | Some (delete, st1) \<Rightarrow>
               if delete
               then (case hash_iterator_delete_element h1 hi1 of
                       None \<Rightarrow> None
                     | Some (h2, hi2) \<Rightarrow> hash_sweep fuel f h2 hi2 st1)
               else hash_sweep fuel f h1 hi1 st1))"

definition sweep_fuel :: "('k, 'v) hash \<Rightarrow> nat" where
  "sweep_fuel h = Suc (sum_list (map length (buckets h)))"

definition hash_remove_by_value :: "('k, 'v) hash \<Rightarrow> 'v \<Rightarrow> ('k, 'v) hash option" where
  "hash_remove_by_value h value =
     (case hash_iterator_init h of
        None \<Rightarrow> None
      | Some hi \<Rightarrow>
          map_option fst
            (hash_sweep (sweep_fuel h) (\<lambda>_ he. Some (he_value he = value, ())) h hi ()))"

section \<open>The hash function\<close>

text \<open>One round of \<^verbatim>\<open>mix\<close>: \<^verbatim>\<open>x -= y; x -= z; x ^= shift z\<close>.\<close>

definition mix_r :: "u32 \<Rightarrow> u32 \<Rightarrow> u32 \<Rightarrow> nat \<Rightarrow> u32" where
  "mix_r x y z s = ((x - y) - z) XOR drop_bit s z"

definition mix_l :: "u32 \<Rightarrow> u32 \<Rightarrow> u32 \<Rightarrow> nat \<Rightarrow> u32" where
  "mix_l x y z s = ((x - y) - z) XOR push_bit s z"

definition mix :: "u32 \<times> u32 \<times> u32 \<Rightarrow> u32 \<times> u32 \<times> u32" where
  "mix abc =
     (case abc of (a0, b0, c0) \<Rightarrow>
        let a1 = mix_r a0 b0 c0 13; b1 = mix_l b0 c0 a1 8; c1 = mix_r c0 a1 b1 13;
            a2 = mix_r a1 b1 c1 12; b2 = mix_l b1 c1 a2 16; c2 = mix_r c1 a2 b2 5;
            a3 = mix_r a2 b2 c2 3; b3 = mix_l b2 c2 a3 10; c3 = mix_r c2 a3 b3 15
        in (a3, b3, c3))"

definition byte_at :: "byte list \<Rightarrow> nat \<Rightarrow> nat \<Rightarrow> u32" where
  "byte_at k i s = push_bit s (ucast (k ! i))"

definition word_le :: "byte list \<Rightarrow> nat \<Rightarrow> u32" where
  "word_le k i = byte_at k i 0 + byte_at k (i + 1) 8 + byte_at k (i + 2) 16 + byte_at k (i + 3) 24"

text \<open>The main loop and the fall-through \<^verbatim>\<open>switch\<close> over the last 11 bytes.\<close>

definition hash_tail :: "byte list \<Rightarrow> u32 \<times> u32 \<times> u32 \<Rightarrow> u32 \<times> u32 \<times> u32" where
  "hash_tail k abc =
     (case abc of (a, b, c) \<Rightarrow>
        let n = length k;
            add = (\<lambda>x m i s. if m \<le> n then x + byte_at k i s else x);
            c1 = add (add (add c 11 10 24) 10 9 16) 9 8 8;
            b1 = add (add (add (add b 8 7 24) 7 6 16) 6 5 8) 5 4 0;
            a1 = add (add (add (add a 4 3 24) 3 2 16) 2 1 8) 1 0 0
        in (a1, b1, c1))"

function hash_loop :: "u32 \<Rightarrow> byte list \<Rightarrow> u32 \<times> u32 \<times> u32 \<Rightarrow> u32" where
  "hash_loop len0 k abc =
     (if length k \<ge> 12
      then hash_loop len0 (drop 12 k)
             (case abc of (a, b, c) \<Rightarrow> mix (a + word_le k 0, b + word_le k 4, c + word_le k 8))
      else case abc of (a, b, c) \<Rightarrow>
             (case mix (hash_tail k (a, b, c + len0)) of (_, _, c') \<Rightarrow> c'))"
  by pat_completeness auto
termination
  by (relation "measure (\<lambda>(l, k, abc). length k)") auto

declare hash_loop.simps [simp del]

definition hash_func :: "byte list \<Rightarrow> u32 \<Rightarrow> u32" where
  "hash_func k initval = hash_loop (of_nat (length k)) k (0x9e3779b9, 0x9e3779b9, initval)"

section \<open>The table as a map\<close>

text \<open>
  The contract on the two function pointers: the comparison is an equivalence and keys that
  compare equal hash alike.
\<close>

definition key_contract :: "('k, 'v) hash \<Rightarrow> bool" where
  "key_contract h \<longleftrightarrow>
     reflp (compare_function h) \<and> symp (compare_function h) \<and> transp (compare_function h) \<and>
     (\<forall>k k'. compare_function h k k' \<longrightarrow> hash_value h k = hash_value h k')"

definition elem_ok :: "('k, 'v) hash \<Rightarrow> nat \<Rightarrow> ('k, 'v) hash_element \<Rightarrow> bool" where
  "elem_ok h i e \<longleftrightarrow>
     (case he_key e of None \<Rightarrow> False
      | Some k \<Rightarrow> he_hash e = hash_value h k \<and> hash_bucket h (he_hash e) = i)"

definition same_key :: "('k, 'v) hash \<Rightarrow> ('k, 'v) hash_element \<Rightarrow> ('k, 'v) hash_element \<Rightarrow> bool" where
  "same_key h e f \<longleftrightarrow> compare_function h (the (he_key e)) (the (he_key f))"

definition bucket_ok :: "('k, 'v) hash \<Rightarrow> nat \<Rightarrow> ('k, 'v) hash_element list \<Rightarrow> bool" where
  "bucket_ok h i es \<longleftrightarrow> list_all (elem_ok h i) es \<and> sorted_wrt (\<lambda>e f. \<not> same_key h e f) es"

definition hash_shape :: "('k, 'v) hash \<Rightarrow> bool" where
  "hash_shape h \<longleftrightarrow>
     (\<exists>j. n_buckets h = 2 ^ j \<and> h_mask h = 2 ^ j - 1 \<and> length (buckets h) = 2 ^ j)"

definition hash_wf :: "('k, 'v) hash \<Rightarrow> bool" where
  "hash_wf h \<longleftrightarrow>
     key_contract h \<and> hash_shape h \<and>
     (\<forall>i < length (buckets h). bucket_ok h i (buckets h ! i)) \<and>
     n_elements h = int (sum_list (map length (buckets h)))"

definition find_match :: "('k, 'v) hash \<Rightarrow> 'k \<Rightarrow> ('k, 'v) hash_element list \<Rightarrow> ('k, 'v) hash_element option" where
  "find_match h k es = find (he_match h k (hash_value h k)) es"

text \<open>The map a table stands for.\<close>

definition hash_abs :: "('k, 'v) hash \<Rightarrow> 'k \<Rightarrow> 'v option" where
  "hash_abs h k = map_option he_value (find_match h k (buckets h ! hash_bucket h (hash_value h k)))"

text \<open>Operations only change the buckets and the count.\<close>

definition same_params :: "('k, 'v) hash \<Rightarrow> ('k, 'v) hash \<Rightarrow> bool" where
  "same_params h h' \<longleftrightarrow>
     n_buckets h' = n_buckets h \<and> h_mask h' = h_mask h \<and> h_iv h' = h_iv h \<and>
     hash_function h' = hash_function h \<and> compare_function h' = compare_function h"

lemma same_params_set_bucket [simp]: "same_params h (set_bucket h i b)"
  and same_params_count [simp]: "same_params h (set_bucket h i b\<lparr>n_elements := n\<rparr>)"
  and same_params_buckets [simp]: "same_params h (h\<lparr>buckets := bs, n_elements := n\<rparr>)"
  by (simp_all add: same_params_def set_bucket_def)

lemma same_params_cong:
  assumes "same_params h h'"
  shows "hash_value h' = hash_value h" "hash_bucket h' = hash_bucket h"
    "he_match h' = he_match h" "key_contract h' = key_contract h" "elem_ok h' = elem_ok h"
    "same_key h' = same_key h" "bucket_ok h' = bucket_ok h" "find_match h' = find_match h"
proof -
  note e = assms[unfolded same_params_def]
  show v: "hash_value h' = hash_value h" and b: "hash_bucket h' = hash_bucket h"
    by (rule ext, simp add: e hash_value_def hash_bucket_def)+
  show m: "he_match h' = he_match h"
    by (intro ext) (simp add: e he_match_def split: option.split)
  show k: "same_key h' = same_key h"
    by (intro ext) (simp add: e same_key_def)
  show "key_contract h' = key_contract h"
    by (simp add: e key_contract_def v)
  show o: "elem_ok h' = elem_ok h"
    by (intro ext) (simp add: elem_ok_def v b split: option.split)
  show "bucket_ok h' = bucket_ok h"
    by (intro ext) (simp add: bucket_ok_def o k)
  show "find_match h' = find_match h"
    by (intro ext) (simp add: find_match_def m v)
qed

lemma set_bucket_simps [simp]:
  "buckets (set_bucket h i b) = (buckets h)[i := b]"
  "n_elements (set_bucket h i b) = n_elements h"
  "length (buckets (set_bucket h i b)) = length (buckets h)"
  by (simp_all add: set_bucket_def)

lemma hash_shape_cong:
  "same_params h h' \<Longrightarrow> length (buckets h') = length (buckets h) \<Longrightarrow> hash_shape h' = hash_shape h"
  by (simp add: hash_shape_def same_params_def)

lemma hash_bucket_less:
  assumes "hash_shape h"
  shows "hash_bucket h hv < length (buckets h)"
proof -
  obtain j where j: "h_mask h = 2 ^ j - 1" "length (buckets h) = 2 ^ j"
    using assms by (auto simp: hash_shape_def)
  have "of_int (h_mask h) = (mask j :: u32)"
    by (simp add: j mask_eq_exp_minus_1)
  then have "hash_bucket h hv = take_bit j (unat hv)"
    by (simp add: hash_bucket_def take_bit_eq_mask[symmetric] unsigned_take_bit_eq)
  then show ?thesis by (simp add: j)
qed

section \<open>One bucket\<close>

lemma bucket_split_None:
  "bucket_split P es = None \<longleftrightarrow> (\<forall>e \<in> set es. \<not> P e)"
  by (induction es) auto

lemma bucket_split_Some:
  "bucket_split P es = Some (pre, x, post) \<Longrightarrow>
   es = pre @ x # post \<and> P x \<and> (\<forall>e \<in> set pre. \<not> P e)"
  by (induction es arbitrary: pre) (auto split: if_splits)

lemma find_bucket_split:
  "find P es = map_option (\<lambda>(pre, x, post). x) (bucket_split P es)"
  by (induction es) (auto simp: option.map_comp comp_def split_def)

lemma find_append_None: "\<forall>e \<in> set pre. \<not> P e \<Longrightarrow> find P (pre @ es) = find P es"
  by (induction pre) auto

lemma find_none: "\<forall>e \<in> set es. \<not> P e \<Longrightarrow> find P es = None"
  by (simp add: find_None_iff)

lemma key_contractD:
  assumes "key_contract h"
  shows "compare_function h k k"
    and "compare_function h k k' \<Longrightarrow> compare_function h k' k"
    and "compare_function h k k' \<Longrightarrow> compare_function h k' k'' \<Longrightarrow> compare_function h k k''"
    and "compare_function h k k' \<Longrightarrow> hash_value h k = hash_value h k'"
  using assms unfolding key_contract_def by (auto dest: reflpD sympD transpD)

lemma he_match_elem:
  assumes "key_contract h" "elem_ok h i e"
  shows "he_match h k (hash_value h k) e \<longleftrightarrow> compare_function h k (the (he_key e))"
  using assms key_contractD(4)[OF assms(1)]
  by (auto simp: he_match_def elem_ok_def split: option.splits)

lemma he_match_cong:
  assumes "key_contract h" "compare_function h k k'"
  shows "he_match h k (hash_value h k) e = he_match h k' (hash_value h k') e"
proof -
  have "compare_function h k x = compare_function h k' x" for x
    using key_contractD(2,3)[OF assms(1)] assms(2) by metis
  then show ?thesis
    using key_contractD(4)[OF assms] by (simp add: he_match_def split: option.split)
qed

lemma he_match_same_key:
  assumes "key_contract h" "elem_ok h i e" "elem_ok h i f"
    and "he_match h k (hash_value h k) e" "he_match h k (hash_value h k) f"
  shows "same_key h e f"
  using assms key_contractD[OF assms(1)] he_match_elem[OF assms(1)]
  unfolding same_key_def by metis

lemma same_key_sym: "key_contract h \<Longrightarrow> same_key h e f \<Longrightarrow> same_key h f e"
  using key_contractD(2) unfolding same_key_def by metis

lemma bucket_ok_append:
  assumes "key_contract h"
  shows "bucket_ok h i (pre @ x # post) \<longleftrightarrow> bucket_ok h i (x # pre @ post)"
  using same_key_sym[OF assms]
  by (auto simp: bucket_ok_def sorted_wrt_append)

lemma bucket_ok_drop: "bucket_ok h i (x # es) \<Longrightarrow> bucket_ok h i es"
  by (simp add: bucket_ok_def)

lemma bucket_ok_unique:
  assumes c: "key_contract h" and b: "bucket_ok h i (x # es)"
    and m: "he_match h k (hash_value h k) x" and e: "e \<in> set es"
  shows "\<not> he_match h k (hash_value h k) e"
proof
  assume "he_match h k (hash_value h k) e"
  moreover have "elem_ok h i x" "elem_ok h i e" "\<not> same_key h x e"
    using b e by (auto simp: bucket_ok_def list_all_iff)
  ultimately show False using he_match_same_key[OF c] m by blast
qed

lemma not_match_other:
  assumes "key_contract h" "elem_ok h i x" "he_match h k (hash_value h k) x"
    "\<not> compare_function h k k'"
  shows "\<not> he_match h k' (hash_value h k') x"
  using assms he_match_elem key_contractD by metis

text \<open>Moving the hit to the head changes no lookup, removing it changes only its own.\<close>

lemma find_match_front:
  assumes c: "key_contract h" and b: "bucket_ok h i (pre @ x # post)"
  shows "find_match h k (x # pre @ post) = find_match h k (pre @ x # post)"
proof (cases "he_match h k (hash_value h k) x")
  case True
  then have "\<forall>e \<in> set pre. \<not> he_match h k (hash_value h k) e"
    using bucket_ok_unique[OF c] b bucket_ok_append[OF c] by fastforce
  then show ?thesis using True by (simp add: find_match_def find_append_None)
next
  case False
  then show ?thesis by (induction pre) (auto simp: find_match_def)
qed

lemma find_match_del:
  assumes c: "key_contract h" and b: "bucket_ok h i (pre @ x # post)"
    and m: "he_match h k (hash_value h k) x"
  shows "find_match h k' (pre @ post) =
    (if compare_function h k k' then None else find_match h k' (pre @ x # post))"
proof (cases "compare_function h k k'")
  case True
  have "bucket_ok h i (x # pre @ post)" using b bucket_ok_append[OF c] by blast
  then have "\<forall>e \<in> set (pre @ post). \<not> he_match h k (hash_value h k) e"
    using bucket_ok_unique[OF c _ m] by blast
  then show ?thesis
    using True he_match_cong[OF c True] by (simp add: find_match_def find_none)
next
  case False
  have "elem_ok h i x" using b by (simp add: bucket_ok_def)
  from not_match_other[OF c this m False] show ?thesis
    using False by (induction pre) (auto simp: find_match_def)
qed

lemma he_match_trans:
  assumes c: "key_contract h" and m: "he_match h k (hash_value h k) x"
  shows "he_match h k' (hash_value h k') x \<longleftrightarrow> compare_function h k k'"
    and "elem_ok h (hash_bucket h (hash_value h k)) x"
    and "same_key h x e \<longleftrightarrow> compare_function h k (the (he_key e))"
proof -
  obtain kx where x: "he_key x = Some kx" "compare_function h k kx" "he_hash x = hash_value h k"
    using m by (auto simp: he_match_def split: option.splits)
  have v: "hash_value h kx = hash_value h k" using key_contractD(4)[OF c x(2)] by simp
  have e: "compare_function h kx y = compare_function h k y" for y
    using key_contractD(2,3)[OF c] x(2) by metis
  show "he_match h k' (hash_value h k') x \<longleftrightarrow> compare_function h k k'"
  proof -
    have "compare_function h k' kx \<longleftrightarrow> compare_function h k k'"
      using e[of k'] key_contractD(2)[OF c] by blast
    then show ?thesis
      using key_contractD(4)[OF c, of k k'] by (auto simp: he_match_def x)
  qed
  show "elem_ok h (hash_bucket h (hash_value h k)) x" using x v by (simp add: elem_ok_def)
  show "same_key h x e \<longleftrightarrow> compare_function h k (the (he_key e))" by (simp add: same_key_def x e)
qed

lemma find_match_upd:
  assumes c: "key_contract h" and m: "he_match h k (hash_value h k) x" "he_match h k (hash_value h k) x'"
  shows "find_match h k' (x' # es) =
    (if compare_function h k k' then Some x' else find_match h k' (x # es))"
  using he_match_trans(1)[OF c m(1)] he_match_trans(1)[OF c m(2)] by (simp add: find_match_def)

section \<open>Steps on the table\<close>

lemma sum_list_update_len:
  assumes "i < length bs"
  shows "int (sum_list (map length (bs[i := b]))) =
    int (sum_list (map length bs)) - int (length (bs ! i)) + int (length b)"
  using assms
proof (induction bs arbitrary: i)
  case (Cons a bs)
  then show ?case by (cases i) auto
qed simp

lemmas hash_wfD = hash_wf_def[THEN iffD1, THEN conjunct1]
  hash_wf_def[THEN iffD1, THEN conjunct2, THEN conjunct1]
  hash_wf_def[THEN iffD1, THEN conjunct2, THEN conjunct2, THEN conjunct1, rule_format]
  hash_wf_def[THEN iffD1, THEN conjunct2, THEN conjunct2, THEN conjunct2]

lemma hash_wf_set_bucket:
  assumes h: "hash_wf h" and i: "i < length (buckets h)" and b: "bucket_ok h i b"
    and n: "n = n_elements h - int (length (buckets h ! i)) + int (length b)"
  shows "hash_wf ((set_bucket h i b)\<lparr>n_elements := n\<rparr>)"
proof -
  let ?h = "(set_bucket h i b)\<lparr>n_elements := n\<rparr>"
  have p: "same_params h ?h" by simp
  note pc = same_params_cong[OF p]
  have "n_elements ?h = int (sum_list (map length (buckets ?h)))"
    using sum_list_update_len[OF i] hash_wfD(4)[OF h] n by simp
  moreover have "hash_shape ?h"
    using hash_shape_cong[OF p] hash_wfD(2)[OF h] by simp
  moreover have "bucket_ok h j (buckets ?h ! j)" if "j < length (buckets ?h)" for j
    using that b hash_wfD(3)[OF h] by (cases "j = i") auto
  ultimately show ?thesis
    unfolding hash_wf_def using hash_wfD(1)[OF h] by (simp only: pc) blast
qed

lemma hash_abs_set_bucket:
  assumes i: "i < length (buckets h)"
    and f: "\<And>k. hash_bucket h (hash_value h k) = i \<Longrightarrow>
      map_option he_value (find_match h k b) = g k"
    and g: "\<And>k. hash_bucket h (hash_value h k) \<noteq> i \<Longrightarrow> hash_abs h k = g k"
  shows "hash_abs ((set_bucket h i b)\<lparr>n_elements := n\<rparr>) k = g k"
proof -
  let ?h = "(set_bucket h i b)\<lparr>n_elements := n\<rparr>"
  have p: "same_params h ?h" by simp
  note pc = same_params_cong[OF p]
  show ?thesis
    using assms by (cases "hash_bucket h (hash_value h k) = i")
      (auto simp: hash_abs_def pc)
qed

lemma hash_elem_ok_new:
  "elem_ok h (hash_bucket h (hash_value h k))
     \<lparr>he_value = v, he_key = Some k, he_hash = hash_value h k\<rparr>"
  by (simp add: elem_ok_def)

lemma hash_abs_cong_key:
  assumes "key_contract h" "compare_function h k k'"
  shows "hash_abs h k' = hash_abs h k"
proof -
  have "he_match h k (hash_value h k) = he_match h k' (hash_value h k')"
    using he_match_cong[OF assms] by (rule ext)
  then show ?thesis
    using key_contractD(4)[OF assms] by (simp add: hash_abs_def find_match_def)
qed

text \<open>A search: the element found is the head of its bucket afterwards.\<close>

lemma hash_lookup_fast_None:
  assumes "hash_lookup_fast h (hash_bucket h (hash_value h k)) k (hash_value h k) = (None, h')"
  shows "h' = h" "hash_abs h k = None"
    "\<forall>e \<in> set (buckets h ! hash_bucket h (hash_value h k)). \<not> he_match h k (hash_value h k) e"
  using assms bucket_split_None[of "he_match h k (hash_value h k)"]
  by (auto simp: hash_lookup_fast_def hash_abs_def find_match_def find_bucket_split split: option.splits)

lemma hash_lookup_fast_Some:
  assumes h: "hash_wf h"
    and l: "hash_lookup_fast h (hash_bucket h (hash_value h k)) k (hash_value h k) = (Some he, h')"
  shows "hash_wf h'" "hash_abs h' = hash_abs h" "same_params h h'"
    "hash_abs h k = Some (he_value he)" "he_match h k (hash_value h k) he"
    "\<exists>es. buckets h' ! hash_bucket h (hash_value h k) = he # es"
    "length (buckets h') = length (buckets h)"
proof -
  let ?i = "hash_bucket h (hash_value h k)" and ?P = "he_match h k (hash_value h k)"
  from l obtain pre post where sp: "bucket_split ?P (buckets h ! ?i) = Some (pre, he, post)"
    and h': "h' = set_bucket h ?i (he # pre @ post)"
    by (auto simp: hash_lookup_fast_def split: option.splits prod.splits)
  note e = bucket_split_Some[OF sp]
  have i: "?i < length (buckets h)"
    using hash_bucket_less hash_wfD(2)[OF h] by blast
  have c: "key_contract h" using hash_wfD(1)[OF h] .
  have b: "bucket_ok h ?i (pre @ he # post)" using hash_wfD(3)[OF h i] e by simp
  have n: "h' = (set_bucket h ?i (he # pre @ post))\<lparr>n_elements := n_elements h\<rparr>"
    by (simp add: h' set_bucket_def)
  show "hash_wf h'"
    unfolding n by (rule hash_wf_set_bucket[OF h i]) (use bucket_ok_append[OF c] b e in auto)
  have "hash_abs h' k' = hash_abs h k'" for k'
    unfolding n by (rule hash_abs_set_bucket[OF i])
      (use e find_match_front[OF c b] in \<open>auto simp: hash_abs_def\<close>)
  then show "hash_abs h' = hash_abs h" by (rule ext)
  show "same_params h h'" "length (buckets h') = length (buckets h)" by (simp_all add: h')
  show "hash_abs h k = Some (he_value he)"
    using sp by (simp add: hash_abs_def find_match_def find_bucket_split)
  show "?P he" using e by blast
  show "\<exists>es. buckets h' ! ?i = he # es" using i by (simp add: h')
qed

lemma hash_lookup_ok:
  assumes h: "hash_wf h"
  shows "fst (hash_lookup h k) = hash_abs h k" "hash_wf (snd (hash_lookup h k))"
    "hash_abs (snd (hash_lookup h k)) = hash_abs h" "same_params h (snd (hash_lookup h k))"
proof -
  let ?r = "hash_lookup_fast h (hash_bucket h (hash_value h k)) k (hash_value h k)"
  obtain x h' where r: "?r = (x, h')" by fastforce
  then have l: "hash_lookup h k = (map_option he_value x, h')"
    by (simp add: hash_lookup_def Let_def)
  have "map_option he_value x = hash_abs h k \<and> hash_wf h' \<and> hash_abs h' = hash_abs h \<and> same_params h h'"
  proof (cases x)
    case None
    then show ?thesis using hash_lookup_fast_None[OF r[unfolded None]] h by (simp add: same_params_def)
  next
    case (Some he)
    then show ?thesis using hash_lookup_fast_Some[OF h r[unfolded Some]] by simp
  qed
  then show "fst (hash_lookup h k) = hash_abs h k" "hash_wf (snd (hash_lookup h k))"
    "hash_abs (snd (hash_lookup h k)) = hash_abs h" "same_params h (snd (hash_lookup h k))"
    by (simp_all add: l)
qed

lemma hash_add_fast_ok:
  fixes v :: 'v and h :: "('k, 'v) hash"
  assumes h: "hash_wf h" and fresh: "hash_abs h k = None"
  defines "h' \<equiv> hash_add_fast h (hash_bucket h (hash_value h k)) k (hash_value h k) v"
  shows "hash_wf h'" "hash_abs h' = (\<lambda>k'. if compare_function h k k' then Some v else hash_abs h k')"
    "same_params h h'"
proof -
  let ?i = "hash_bucket h (hash_value h k)"
  let ?e = "\<lparr>he_value = v, he_key = Some k, he_hash = hash_value h k\<rparr>"
  have i: "?i < length (buckets h)"
    using hash_bucket_less hash_wfD(2)[OF h] by blast
  have c: "key_contract h" using hash_wfD(1)[OF h] .
  have b: "bucket_ok h ?i (buckets h ! ?i)" using hash_wfD(3)[OF h i] .
  have none: "\<not> he_match h k (hash_value h k) f" if "f \<in> set (buckets h ! ?i)" for f
    using fresh that by (auto simp: hash_abs_def find_match_def find_None_iff)
  have new: "\<not> same_key h ?e f" if f: "f \<in> set (buckets h ! ?i)" for f
  proof -
    have "elem_ok h ?i f" using b f by (auto simp: bucket_ok_def list_all_iff)
    from none[OF f] he_match_elem[OF c this] show ?thesis by (simp add: same_key_def)
  qed
  have n: "h' = (set_bucket h ?i (?e # buckets h ! ?i))\<lparr>n_elements := n_elements h + 1\<rparr>"
    by (simp add: h'_def hash_add_fast_def)
  show "hash_wf h'"
    unfolding n by (rule hash_wf_set_bucket[OF h i])
      (use b new hash_elem_ok_new in \<open>auto simp: bucket_ok_def\<close>)
  have m: "he_match h k' (hash_value h k') ?e \<longleftrightarrow> compare_function h k k'" for k'
    using he_match_elem[OF c hash_elem_ok_new] key_contractD(2)[OF c] by fastforce
  have "hash_abs h' k' = (if compare_function h k k' then Some v else hash_abs h k')" for k'
    unfolding n
  proof (rule hash_abs_set_bucket[OF i])
    show "map_option he_value (find_match h k'' (?e # buckets h ! ?i)) =
      (if compare_function h k k'' then Some v else hash_abs h k'')"
      if "hash_bucket h (hash_value h k'') = ?i" for k''
      using that m by (simp add: find_match_def hash_abs_def)
    show "hash_abs h k'' = (if compare_function h k k'' then Some v else hash_abs h k'')"
      if "hash_bucket h (hash_value h k'') \<noteq> ?i" for k''
      using that key_contractD(4)[OF c] by auto
  qed
  then show "hash_abs h' = (\<lambda>k'. if compare_function h k k' then Some v else hash_abs h k')"
    by (rule ext)
  show "same_params h h'" by (simp add: n)
qed

text \<open>Replacing the head found for \<open>k\<close> by another element for \<open>k\<close>.\<close>

lemma set_head_ok:
  fixes h :: "('k, 'v) hash" and f :: "('k, 'v) hash_element \<Rightarrow> ('k, 'v) hash_element"
  assumes h: "hash_wf h" and b: "buckets h ! hash_bucket h (hash_value h k) = he # es"
    and m: "he_match h k (hash_value h k) he" and m': "he_match h k (hash_value h k) (f he)"
  defines "h' \<equiv> set_head h (hash_bucket h (hash_value h k)) f"
  shows "hash_wf h'"
    "hash_abs h' = (\<lambda>k'. if compare_function h k k' then Some (he_value (f he)) else hash_abs h k')"
    "same_params h h'"
proof -
  let ?i = "hash_bucket h (hash_value h k)" and ?e = "f he"
  have i: "?i < length (buckets h)"
    using hash_bucket_less hash_wfD(2)[OF h] by blast
  have c: "key_contract h" using hash_wfD(1)[OF h] .
  have bo: "bucket_ok h ?i (he # es)" using hash_wfD(3)[OF h i] b by simp
  have n: "h' = (set_bucket h ?i (?e # es))\<lparr>n_elements := n_elements h\<rparr>"
    by (simp add: h'_def set_head_def set_bucket_def b)
  have "bucket_ok h ?i (?e # es)"
    using bo he_match_trans(2,3)[OF c m'] he_match_trans(3)[OF c m] by (auto simp: bucket_ok_def)
  then show "hash_wf h'"
    unfolding n by (intro hash_wf_set_bucket[OF h i]) (use b in auto)
  have "hash_abs h' k' = (if compare_function h k k' then Some (he_value ?e) else hash_abs h k')" for k'
    unfolding n
  proof (rule hash_abs_set_bucket[OF i])
    show "map_option he_value (find_match h k'' (?e # es)) =
      (if compare_function h k k'' then Some (he_value ?e) else hash_abs h k'')"
      if "hash_bucket h (hash_value h k'') = ?i" for k''
      using that find_match_upd[OF c m m', of k'' es] b by (simp add: hash_abs_def)
    show "hash_abs h k'' = (if compare_function h k k'' then Some (he_value ?e) else hash_abs h k'')"
      if "hash_bucket h (hash_value h k'') \<noteq> ?i" for k''
      using that key_contractD(4)[OF c] by auto
  qed
  then show "hash_abs h' = (\<lambda>k'. if compare_function h k k' then Some (he_value ?e) else hash_abs h k')"
    by (rule ext)
  show "same_params h h'" by (simp add: n)
qed

lemma hash_add_ok:
  assumes h: "hash_wf h"
  shows "fst (hash_add h k v r) = (hash_abs h k = None \<or> r)" "hash_wf (snd (hash_add h k v r))"
    "hash_abs (snd (hash_add h k v r)) =
       (if hash_abs h k = None \<or> r then (\<lambda>k'. if compare_function h k k' then Some v else hash_abs h k')
        else hash_abs h)"
    "same_params h (snd (hash_add h k v r))"
proof -
  let ?hv = "hash_value h k" let ?i = "hash_bucket h ?hv"
  obtain x h1 where l: "hash_lookup_fast h ?i k ?hv = (x, h1)" by fastforce
  have "fst (hash_add h k v r) = (hash_abs h k = None \<or> r) \<and> hash_wf (snd (hash_add h k v r)) \<and>
    hash_abs (snd (hash_add h k v r)) =
       (if hash_abs h k = None \<or> r then (\<lambda>k'. if compare_function h k k' then Some v else hash_abs h k')
        else hash_abs h) \<and> same_params h (snd (hash_add h k v r))"
  proof (cases x)
    case None
    note n = hash_lookup_fast_None[OF l[unfolded None]]
    have "hash_add h k v r = (True, hash_add_fast h ?i k ?hv v)"
      using l None n(1) by (simp add: hash_add_def Let_def)
    then show ?thesis using hash_add_fast_ok[OF h n(2)] n(2) by simp
  next
    case (Some he)
    note s = hash_lookup_fast_Some[OF h l[unfolded Some]]
    note pc = same_params_cong[OF s(3)]
    have d: "hash_add h k v r =
      (if r then (True, set_head h1 ?i (\<lambda>e. e\<lparr>he_value := v\<rparr>)) else (False, h1))"
      using l Some by (simp add: hash_add_def Let_def)
    obtain es where es: "buckets h1 ! ?i = he # es" using s(6) by blast
    have "set_head h1 (hash_bucket h1 (hash_value h1 k)) = set_head h1 ?i"
      by (simp add: pc)
    have "he_match h k ?hv (he\<lparr>he_value := v\<rparr>)" using s(5) by (simp add: he_match_def)
    with set_head_ok[OF s(1), of k he es "\<lambda>e. e\<lparr>he_value := v\<rparr>"] es s(5)
    have u: "hash_wf (set_head h1 ?i (\<lambda>e. e\<lparr>he_value := v\<rparr>))"
      "hash_abs (set_head h1 ?i (\<lambda>e. e\<lparr>he_value := v\<rparr>)) =
        (\<lambda>k'. if compare_function h1 k k' then Some v else hash_abs h1 k')"
      "same_params h1 (set_head h1 ?i (\<lambda>e. e\<lparr>he_value := v\<rparr>))"
      by (simp_all add: pc cong: if_cong)
    have "compare_function h1 = compare_function h" using s(3) by (simp add: same_params_def)
    moreover have "same_params h (set_head h1 ?i (\<lambda>e. e\<lparr>he_value := v\<rparr>))"
      using u(3) s(3) by (simp add: same_params_def)
    ultimately show ?thesis using d u s(1-4) by (cases r) (simp_all add: fun_eq_iff)
  qed
  then show "fst (hash_add h k v r) = (hash_abs h k = None \<or> r)" "hash_wf (snd (hash_add h k v r))"
    "hash_abs (snd (hash_add h k v r)) =
       (if hash_abs h k = None \<or> r then (\<lambda>k'. if compare_function h k k' then Some v else hash_abs h k')
        else hash_abs h)"
    "same_params h (snd (hash_add h k v r))"
    by blast+
qed

lemma hash_remove_ok:
  assumes h: "hash_wf h"
  shows "fst (hash_remove h k) = (hash_abs h k \<noteq> None)" "hash_wf (snd (hash_remove h k))"
    "hash_abs (snd (hash_remove h k)) = (\<lambda>k'. if compare_function h k k' then None else hash_abs h k')"
    "same_params h (snd (hash_remove h k))"
proof -
  let ?hv = "hash_value h k" let ?i = "hash_bucket h ?hv"
  let ?P = "he_match h k ?hv"
  have i: "?i < length (buckets h)"
    using hash_bucket_less hash_wfD(2)[OF h] by blast
  have c: "key_contract h" using hash_wfD(1)[OF h] .
  have "fst (hash_remove h k) = (hash_abs h k \<noteq> None) \<and> hash_wf (snd (hash_remove h k)) \<and>
    hash_abs (snd (hash_remove h k)) = (\<lambda>k'. if compare_function h k k' then None else hash_abs h k') \<and>
    same_params h (snd (hash_remove h k))"
  proof (cases "bucket_split ?P (buckets h ! ?i)")
    case None
    then have a: "hash_abs h k = None"
      by (simp add: hash_abs_def find_match_def find_bucket_split)
    then have "hash_abs h = (\<lambda>k'. if compare_function h k k' then None else hash_abs h k')"
      using hash_abs_cong_key[OF c] by fastforce
    then show ?thesis
      using None a h by (simp add: hash_remove_def hash_remove_fast_def Let_def same_params_def)
  next
    case (Some t)
    then obtain pre x post where sp: "bucket_split ?P (buckets h ! ?i) = Some (pre, x, post)"
      by (cases t) auto
    note e = bucket_split_Some[OF sp]
    let ?h = "(set_bucket h ?i (pre @ post))\<lparr>n_elements := n_elements h - 1\<rparr>"
    have r: "hash_remove h k = (True, ?h)"
      by (simp add: hash_remove_def hash_remove_fast_def Let_def sp)
    have b: "bucket_ok h ?i (pre @ x # post)" using hash_wfD(3)[OF h i] e by simp
    have "hash_wf ?h"
      by (rule hash_wf_set_bucket[OF h i]) (use bucket_ok_append[OF c] bucket_ok_drop b e in auto)
    moreover have "hash_abs ?h k' = (if compare_function h k k' then None else hash_abs h k')" for k'
    proof (rule hash_abs_set_bucket[OF i])
      show "map_option he_value (find_match h k'' (pre @ post)) =
        (if compare_function h k k'' then None else hash_abs h k'')"
        if "hash_bucket h (hash_value h k'') = ?i" for k''
        using that find_match_del[OF c b, of k k''] e by (simp add: hash_abs_def)
      show "hash_abs h k'' = (if compare_function h k k'' then None else hash_abs h k'')"
        if "hash_bucket h (hash_value h k'') \<noteq> ?i" for k''
        using that key_contractD(4)[OF c] by auto
    qed
    moreover have "hash_abs h k \<noteq> None"
      using sp by (simp add: hash_abs_def find_match_def find_bucket_split)
    ultimately show ?thesis using r by auto
  qed
  then show "fst (hash_remove h k) = (hash_abs h k \<noteq> None)" "hash_wf (snd (hash_remove h k))"
    "hash_abs (snd (hash_remove h k)) = (\<lambda>k'. if compare_function h k k' then None else hash_abs h k')"
    "same_params h (snd (hash_remove h k))"
    by blast+
qed

lemma adjust_power_of_2_pow: "0 < r \<Longrightarrow> \<exists>j. adjust_power_of_2_from r u = r * 2 ^ j"
proof (induction r u rule: adjust_power_of_2_from.induct)
  case (1 r u)
  show ?case
  proof (cases "r < u")
    case True
    then obtain j where "adjust_power_of_2_from (2 * r) u = 2 * r * 2 ^ j" using 1 by auto
    then have "adjust_power_of_2_from r u = r * 2 ^ Suc j"
      using True 1(2) by (subst adjust_power_of_2_from.simps) simp
    then show ?thesis by blast
  next
    case False
    then have "adjust_power_of_2_from r u = r * 2 ^ 0"
      by (subst adjust_power_of_2_from.simps) simp
    then show ?thesis by blast
  qed
qed

lemma hash_init_ok:
  assumes i: "hash_init n iv hf cf = Some h"
    and c: "reflp cf" "symp cf" "transp cf" "\<And>k k'. cf k k' \<Longrightarrow> hf k iv = hf k' iv"
  shows "hash_wf h" "hash_abs h = (\<lambda>k. None)" "compare_function h = cf"
proof -
  let ?nb = "adjust_power_of_2_from 1 (nat n)"
  have h: "h = \<lparr>n_buckets = int ?nb, n_elements = 0, h_mask = int ?nb - 1, h_iv = iv,
      hash_function = hf, compare_function = cf, buckets = replicate ?nb []\<rparr>"
    using i by (simp add: hash_init_def Let_def split: if_splits)
  obtain j where "?nb = 2 ^ j" using adjust_power_of_2_pow[of 1 "nat n"] by auto
  then have shape: "hash_shape h" by (auto simp: hash_shape_def h intro!: exI[of _ j])
  have "key_contract h" using c by (auto simp: key_contract_def h hash_value_def)
  with shape show "hash_wf h" by (simp add: hash_wf_def h bucket_ok_def)
  have "buckets h ! hash_bucket h hv = []" for hv
    using hash_bucket_less[OF shape, of hv] by (simp add: h)
  then show "hash_abs h = (\<lambda>k. None)" by (simp add: hash_abs_def find_match_def fun_eq_iff)
  show "compare_function h = cf" by (simp add: h)
qed

end
