(* ===== verification/Hash_Sweep.thy ===== *)
theory Hash_Sweep
  imports Hash_Table
begin

text \<open>
  Iteration over the hash table with deletion of elements: what the iterator and the sweep of
  a range of buckets leave of the table, and the table's interface \<open>key_table\<close> with its
  interpretation. The hash function's mixing step is shown reversible at the end.
\<close>

unbundle bit_operations_syntax

section \<open>Partly swept tables\<close>

text \<open>
  \<open>swept P s e\<close> is a table from whose buckets \<open>s\<close> to \<open>e - 1\<close> the elements that satisfy \<open>P\<close>
  are gone. While a bucket is locked those already visited in it are only marked:
  \<open>half_swept P s h b p\<close> has the buckets from \<open>s\<close> to \<open>b - 1\<close> swept and the first \<open>p\<close>
  elements of bucket \<open>b\<close> marked.
\<close>

abbreviation keep :: "('e \<Rightarrow> bool) \<Rightarrow> 'e list \<Rightarrow> 'e list" where
  "keep P \<equiv> filter (\<lambda>e. \<not> P e)"

definition removed :: "('e \<Rightarrow> bool) \<Rightarrow> 'e list list \<Rightarrow> int" where
  "removed P bs = sum_list (map (\<lambda>b. int (length b) - int (length (keep P b))) bs)"

definition mark_if :: "(('k, 'v) hash_element \<Rightarrow> bool) \<Rightarrow> ('k, 'v) hash_element \<Rightarrow> ('k, 'v) hash_element" where
  "mark_if P e = (if P e then e\<lparr>he_key := None\<rparr> else e)"

definition unmarked :: "('k, 'v) hash \<Rightarrow> bool" where
  "unmarked h \<longleftrightarrow> (\<forall>b \<in> set (buckets h). \<forall>e \<in> set b. he_key e \<noteq> None)"

definition swept :: "(('k, 'v) hash_element \<Rightarrow> bool) \<Rightarrow> nat \<Rightarrow> nat \<Rightarrow> ('k, 'v) hash \<Rightarrow> ('k, 'v) hash" where
  "swept P s e h =
     h\<lparr>buckets := take s (buckets h) @ map (keep P) (drop s (take e (buckets h))) @ drop e (buckets h),
       n_elements := n_elements h - removed P (drop s (take e (buckets h)))\<rparr>"

definition half_swept ::
  "(('k, 'v) hash_element \<Rightarrow> bool) \<Rightarrow> nat \<Rightarrow> ('k, 'v) hash \<Rightarrow> nat \<Rightarrow> nat \<Rightarrow> ('k, 'v) hash" where
  "half_swept P s h b p =
     h\<lparr>buckets := take s (buckets h) @ map (keep P) (drop s (take b (buckets h))) @
         (case drop b (buckets h) of [] \<Rightarrow> []
          | c # cs \<Rightarrow> (map (mark_if P) (take p c) @ drop p c) # cs),
       n_elements := n_elements h - removed P (drop s (take b (buckets h)))\<rparr>"

text \<open>The iterator in bucket \<open>b\<close> with \<open>p\<close> elements visited, \<open>q\<close> of them dealt with.\<close>

definition iter_at ::
  "(('k, 'v) hash_element \<Rightarrow> bool) \<Rightarrow> nat \<Rightarrow> nat \<Rightarrow> ('k, 'v) hash \<Rightarrow> nat \<Rightarrow> nat \<Rightarrow> nat \<Rightarrow> hash_iterator \<Rightarrow> bool" where
  "iter_at P s e h b p q hi \<longleftrightarrow>
     s \<le> b \<and> b < e \<and> e \<le> length (buckets h) \<and> 0 < p \<and> p \<le> length (buckets h ! b) \<and>
     hi_bucket hi = Some b \<and> hi_bucket_index hi = int b \<and>
     hi_elem hi = (if p < length (buckets h ! b) then Some p else None) \<and>
     hi_last hi = Some (p - 1) \<and>
     hi_bucket_marked hi = (\<exists>x \<in> set (take q (buckets h ! b)). P x) \<and>
     hi_bucket_index_end hi = int e"

text \<open>The iterator between buckets, the next one to look at being \<open>b\<close>.\<close>

definition iter_before :: "nat \<Rightarrow> nat \<Rightarrow> ('k, 'v) hash \<Rightarrow> nat \<Rightarrow> hash_iterator \<Rightarrow> bool" where
  "iter_before s e h b hi \<longleftrightarrow>
     s \<le> b \<and> b \<le> e \<and> e \<le> length (buckets h) \<and> hi_bucket hi = None \<and>
     hi_bucket_index hi = int b - 1 \<and> hi_elem hi = None \<and> \<not> hi_bucket_marked hi \<and>
     hi_bucket_index_end hi = int e"

text \<open>The elements still to be visited, in the order of the visit.\<close>

definition remaining :: "('k, 'v) hash \<Rightarrow> nat \<Rightarrow> nat \<Rightarrow> nat \<Rightarrow> ('k, 'v) hash_element list" where
  "remaining h e b p = drop p (concat (drop b (take e (buckets h))))"

lemma drop_marked_mark:
  assumes "\<forall>e \<in> set es. he_key e \<noteq> None"
  shows "drop_marked (map (mark_if P) es) = (keep P es, int (length es) - int (length (keep P es)))"
  using assms by (induction es) (auto simp: mark_if_def)

lemma drop_bucket: "b < length bs \<Longrightarrow> drop b bs = bs ! b # drop (Suc b) bs"
  and take_bucket: "b < length bs \<Longrightarrow> take (Suc b) bs = take b bs @ [bs ! b]"
  by (simp_all add: Cons_nth_drop_Suc take_Suc_conv_app_nth)

lemma slice_bucket: "s \<le> b \<Longrightarrow> b < length bs \<Longrightarrow> drop s (take (Suc b) bs) = drop s (take b bs) @ [bs ! b]"
  by (simp add: take_bucket)

lemma remaining_bucket:
  assumes "b < e" "e \<le> length (buckets h)" "p \<le> length (buckets h ! b)"
  shows "remaining h e b p = drop p (buckets h ! b) @ remaining h e (Suc b) 0"
  using assms by (simp add: remaining_def drop_bucket)

lemma half_swept_zero:
  "half_swept P s h b 0 =
     h\<lparr>buckets := take s (buckets h) @ map (keep P) (drop s (take b (buckets h))) @ drop b (buckets h),
       n_elements := n_elements h - removed P (drop s (take b (buckets h)))\<rparr>"
  by (cases "drop b (buckets h)") (simp_all add: half_swept_def)

lemma half_swept_start: "half_swept P s h s 0 = h"
  by (simp add: half_swept_zero removed_def)

lemma half_swept_end: "half_swept P s h e 0 = swept P s e h"
  by (simp add: half_swept_zero swept_def)

lemma half_swept_buckets:
  assumes b: "s \<le> b" "b < length (buckets h)"
  shows "length (buckets (half_swept P s h b p)) = length (buckets h)"
    "buckets (half_swept P s h b p) ! b =
       map (mark_if P) (take p (buckets h ! b)) @ drop p (buckets h ! b)"
  using b by (simp_all add: half_swept_def drop_bucket[OF b(2)] nth_append min_def)

lemma half_swept_Suc:
  assumes b: "s \<le> b" "b < length (buckets h)" and k: "keep P (buckets h ! b) = buckets h ! b"
  shows "half_swept P s h b 0 = half_swept P s h (Suc b) 0"
  using k unfolding half_swept_zero drop_bucket[OF b(2)] slice_bucket[OF b]
  by (simp add: removed_def)

lemma unlock_full:
  assumes b: "s \<le> b" "b < length (buckets h)" and u: "unmarked h"
    and at: "iter_at P s e h b (length (buckets h ! b)) (length (buckets h ! b)) hi"
  shows "\<exists>hi'. hash_iterator_unlock (half_swept P s h b (length (buckets h ! b))) (hi\<lparr>hi_bucket_index := i\<rparr>) =
      (half_swept P s h (Suc b) 0, hi') \<and> hi_bucket hi' = None \<and> hi_bucket_index hi' = i \<and>
      hi_elem hi' = None \<and> \<not> hi_bucket_marked hi' \<and> hi_bucket_index_end hi' = int e"
proof -
  let ?B = "buckets h" and ?b = "buckets h ! b"
  let ?h = "half_swept P s h b (length ?b)"
  have m: "\<forall>e \<in> set ?b. he_key e \<noteq> None" using u b by (auto simp: unmarked_def)
  have l: "length (take s ?B @ map (keep P) (drop s (take b ?B))) = b" using b by simp
  have "(if \<exists>e \<in> set ?b. P e then hash_remove_marked ?h b else ?h) = half_swept P s h (Suc b) 0"
  proof (cases "\<exists>e \<in> set ?b. P e")
    case True
    have "hash_remove_marked ?h b = half_swept P s h (Suc b) 0"
      using b unfolding half_swept_zero
      by (simp add: hash_remove_marked_def half_swept_buckets drop_marked_mark[OF m])
        (simp add: half_swept_def set_bucket_def drop_bucket[OF b(2)] slice_bucket[OF b]
          list_update_append removed_def min_def)
    then show ?thesis using True by simp
  next
    case False
    then have "mark_if P e = e" if "e \<in> set ?b" for e using that by (auto simp: mark_if_def)
    then have "?h = half_swept P s h b 0"
      by (simp add: half_swept_def drop_bucket[OF b(2)] map_idI)
    moreover have "keep P ?b = ?b" using False by (simp add: filter_id_conv)
    ultimately show ?thesis using half_swept_Suc[OF b] False by auto
  qed
  then show ?thesis using at by (auto simp: hash_iterator_unlock_def iter_at_def)
qed

section \<open>The sweep\<close>

text \<open>What a call of \<^verbatim>\<open>hash_iterator_next\<close> can bring when \<open>es\<close> are still to be visited.\<close>

definition sweep_result ::
  "(('k, 'v) hash_element \<Rightarrow> bool) \<Rightarrow> nat \<Rightarrow> nat \<Rightarrow> ('k, 'v) hash \<Rightarrow> ('k, 'v) hash_element list \<Rightarrow>
   (nat \<times> nat) option \<times> ('k, 'v) hash \<times> hash_iterator \<Rightarrow> bool" where
  "sweep_result P s e h es r \<longleftrightarrow>
     (case r of
        (None, h1, hi1) \<Rightarrow> hash_iterator_free h1 hi1 = swept P s e h \<and> es = []
      | (Some (b, p), h1, hi1) \<Rightarrow>
          h1 = half_swept P s h b p \<and> iter_at P s e h b (Suc p) p hi1 \<and> remaining h e b p = es)"

lemma search_sweep:
  assumes "iter_before s e h b hi" and "n = e - b" and "es = remaining h e b 0"
  shows "sweep_result P s e h es (hash_iterator_search n (half_swept P s h b 0) hi)"
  using assms
proof (induction n arbitrary: b hi)
  case 0
  then have "b = e" by (simp add: iter_before_def)
  then show ?case using 0
    by (simp add: sweep_result_def half_swept_end hash_iterator_free_def hash_iterator_unlock_def
        iter_before_def remaining_def)
next
  case (Suc n)
  then have b: "s \<le> b" "b < length (buckets h)" "b < e" "e \<le> length (buckets h)"
    by (auto simp: iter_before_def)
  let ?H = "half_swept P s h b 0" and ?hi = "hi\<lparr>hi_bucket_index := hi_bucket_index hi + 1\<rparr>"
  have u: "hash_iterator_unlock ?H ?hi = (?H, ?hi)" and ix: "nat (hi_bucket_index ?hi) = b"
    using Suc(2) by (simp_all add: hash_iterator_unlock_def iter_before_def)
  have Hb: "buckets ?H ! b = buckets h ! b" using half_swept_buckets(2)[OF b(1,2)] by simp
  show ?case
  proof (cases "buckets h ! b = []")
    case False
    then have "hash_iterator_search (Suc n) ?H hi =
      (Some (b, 0), ?H, hash_iterator_advance ?H ((hash_iterator_lock ?hi b)\<lparr>hi_elem := Some 0\<rparr>))"
      using u ix Hb by (simp add: Let_def)
    moreover have "iter_at P s e h b (Suc 0) 0
        (hash_iterator_advance ?H ((hash_iterator_lock ?hi b)\<lparr>hi_elem := Some 0\<rparr>))"
      using False Suc(2) b Hb
      by (simp add: iter_at_def iter_before_def hash_iterator_advance_def hash_iterator_lock_def Suc_le_eq)
    ultimately show ?thesis using Suc(4) by (simp add: sweep_result_def)
  next
    case True
    then have "half_swept P s h (Suc b) 0 = ?H" using half_swept_Suc[OF b(1,2)] by simp
    moreover have "iter_before s e h (Suc b) ?hi" using Suc(2) b by (simp add: iter_before_def)
    moreover have "es = remaining h e (Suc b) 0"
      using Suc(4) True remaining_bucket[OF b(3,4), of 0] by simp
    moreover have "n = e - Suc b" using Suc(3) by simp
    ultimately have "sweep_result P s e h es (hash_iterator_search n ?H ?hi)"
      using Suc(1)[of "Suc b" ?hi] by metis
    then show ?thesis using True u ix Hb by (simp add: Let_def)
  qed
qed

lemma next_sweep:
  assumes at: "iter_at P s e h b p p hi" and u: "unmarked h"
  shows "sweep_result P s e h (remaining h e b p) (hash_iterator_next (half_swept P s h b p) hi)"
proof (cases "p < length (buckets h ! b)")
  case True
  have b: "s \<le> b" "b < length (buckets h)" using at by (auto simp: iter_at_def)
  have l: "length (buckets (half_swept P s h b p) ! b) = length (buckets h ! b)"
    using True by (simp add: half_swept_buckets[OF b])
  have "hash_iterator_next (half_swept P s h b p) hi =
    (Some (b, p), half_swept P s h b p, hash_iterator_advance (half_swept P s h b p) hi)"
    using at True by (simp add: hash_iterator_next_def iter_at_def)
  moreover have "iter_at P s e h b (Suc p) p (hash_iterator_advance (half_swept P s h b p) hi)"
    using at True l by (simp add: iter_at_def hash_iterator_advance_def)
  ultimately show ?thesis by (simp add: sweep_result_def)
next
  case False
  have b: "s \<le> b" "b < length (buckets h)" "b < e" "e \<le> length (buckets h)"
    and p: "p = length (buckets h ! b)" using at False by (auto simp: iter_at_def)
  let ?H = "half_swept P s h b p"
  obtain hi' where un: "hash_iterator_unlock ?H (hi\<lparr>hi_bucket_index := int (Suc b)\<rparr>) = (half_swept P s h (Suc b) 0, hi')"
    and hi': "hi_bucket hi' = None" "hi_bucket_index hi' = int (Suc b)" "hi_elem hi' = None"
      "\<not> hi_bucket_marked hi'" "hi_bucket_index_end hi' = int e"
    using unlock_full[OF b(1,2) u at[unfolded p], of "int (Suc b)"] p by auto
  have ix: "hi_bucket_index hi = int b" "hi_elem hi = None" "hi_bucket_index_end hi = int e"
    using at p by (simp_all add: iter_at_def)
  have nx: "hash_iterator_next ?H hi = hash_iterator_search (e - Suc b) ?H hi"
    using ix b by (simp add: hash_iterator_next_def) (simp add: nat_diff_distrib')
  have left: "remaining h e b p = remaining h e (Suc b) 0"
    using remaining_bucket[OF b(3,4), of p] p by simp
  show ?thesis
  proof (cases "e - Suc b")
    case 0
    then have e: "Suc b = e" using b by simp
    then have "hash_iterator_free ?H (hi\<lparr>hi_bucket_index := int (Suc b)\<rparr>) = swept P s e h"
      using un half_swept_end[of P s h] by (simp add: hash_iterator_free_def)
    moreover have ie: "int b + 1 = int e" using e by simp
    ultimately show ?thesis using nx 0 ix(1) left e
      by (simp add: sweep_result_def remaining_def ie)
  next
    case (Suc n)
    let ?hi = "hi'\<lparr>hi_bucket_index := int b\<rparr>"
    have "iter_before s e h (Suc b) ?hi" using hi' b by (simp add: iter_before_def)
    then have "sweep_result P s e h (remaining h e b p)
        (hash_iterator_search (Suc n) (half_swept P s h (Suc b) 0) ?hi)"
      using search_sweep[OF _ _ left, of s ?hi "Suc n" P] Suc by simp
    moreover have "hash_iterator_search (Suc n) ?H hi =
        hash_iterator_search (Suc n) (half_swept P s h (Suc b) 0) ?hi"
    proof -
      have r: "hi\<lparr>hi_bucket_index := hi_bucket_index hi + 1\<rparr> = hi\<lparr>hi_bucket_index := int (Suc b)\<rparr>"
        "?hi\<lparr>hi_bucket_index := hi_bucket_index ?hi + 1\<rparr> = hi'"
        using ix(1) hi'(2) by (cases hi, simp, cases hi', simp)
      have nl: "hash_iterator_unlock (half_swept P s h (Suc b) 0) hi' = (half_swept P s h (Suc b) 0, hi')"
        using hi'(1) by (simp add: hash_iterator_unlock_def)
      then show ?thesis
        unfolding hash_iterator_search.simps Let_def r un nl by simp
    qed
    ultimately show ?thesis using nx Suc by simp
  qed
qed

lemma half_swept_step:
  assumes at: "iter_at P s e h b (Suc p) p hi"
  shows "buckets (half_swept P s h b p) ! b ! p = buckets h ! b ! p"
    and "\<not> P (buckets h ! b ! p) \<Longrightarrow>
      half_swept P s h b p = half_swept P s h b (Suc p) \<and> iter_at P s e h b (Suc p) (Suc p) hi"
    and "P (buckets h ! b ! p) \<Longrightarrow>
      \<exists>hi'. hash_iterator_delete_element (half_swept P s h b p) hi = Some (half_swept P s h b (Suc p), hi') \<and>
        iter_at P s e h b (Suc p) (Suc p) hi'"
proof -
  let ?b = "buckets h ! b"
  have b: "s \<le> b" "b < length (buckets h)" and p: "p < length ?b" using at by (auto simp: iter_at_def)
  have t: "take (Suc p) ?b = take p ?b @ [?b ! p]" and d: "drop p ?b = ?b ! p # drop (Suc p) ?b"
    using p by (simp_all add: take_Suc_conv_app_nth Cons_nth_drop_Suc)
  have l: "length (take s (buckets h) @ map (keep P) (drop s (take b (buckets h)))) = b" using b by simp
  show e: "buckets (half_swept P s h b p) ! b ! p = buckets h ! b ! p"
    using p by (simp add: half_swept_buckets[OF b] nth_append)
  show "half_swept P s h b p = half_swept P s h b (Suc p) \<and> iter_at P s e h b (Suc p) (Suc p) hi"
    if "\<not> P (buckets h ! b ! p)"
    using that at by (auto simp: half_swept_def drop_bucket[OF b(2)] t d mark_if_def iter_at_def)
  assume P: "P (buckets h ! b ! p)"
  have "set_bucket (half_swept P s h b p) b
      ((buckets (half_swept P s h b p) ! b)[p := (buckets (half_swept P s h b p) ! b ! p)\<lparr>he_key := None\<rparr>]) =
      half_swept P s h b (Suc p)"
    using P p b unfolding e
    by (simp add: half_swept_buckets[OF b] set_bucket_def)
      (simp add: half_swept_def drop_bucket[OF b(2)] t d mark_if_def list_update_append min_def)
  moreover have "hi_bucket hi = Some b" "hi_last hi = Some p" using at by (simp_all add: iter_at_def)
  ultimately have "hash_iterator_delete_element (half_swept P s h b p) hi =
      Some (half_swept P s h b (Suc p), hi\<lparr>hi_bucket_marked := True\<rparr>)"
    by (simp add: hash_iterator_delete_element_def)
  moreover have "iter_at P s e h b (Suc p) (Suc p) (hi\<lparr>hi_bucket_marked := True\<rparr>)"
    using at P by (auto simp: iter_at_def t)
  ultimately show "\<exists>hi'. hash_iterator_delete_element (half_swept P s h b p) hi =
      Some (half_swept P s h b (Suc p), hi') \<and> iter_at P s e h b (Suc p) (Suc p) hi'" by blast
qed

text \<open>The body of the loop run over a list; it has to decide as \<open>P\<close> does.\<close>

fun sweep_list ::
  "('st \<Rightarrow> 'e \<Rightarrow> (bool \<times> 'st) option) \<Rightarrow> ('e \<Rightarrow> bool) \<Rightarrow> 'e list \<Rightarrow> 'st \<Rightarrow> 'st option" where
  "sweep_list f P [] st = Some st"
| "sweep_list f P (e # es) st =
     (case f st e of None \<Rightarrow> None | Some (b, st') \<Rightarrow> if b = P e then sweep_list f P es st' else None)"

lemma hash_sweep_step:
  assumes IH: "\<And>b p hi st. iter_at P s e h b p p hi \<Longrightarrow> length (remaining h e b p) < fuel \<Longrightarrow>
      sweep_list f P (remaining h e b p) st = Some st' \<Longrightarrow>
      hash_sweep fuel f (half_swept P s h b p) hi st = Some (swept P s e h, st')"
    and r: "sweep_result P s e h es (hash_iterator_next H hi)"
    and k: "length es < Suc fuel" and sl: "sweep_list f P es st = Some st'"
  shows "hash_sweep (Suc fuel) f H hi st = Some (swept P s e h, st')"
proof -
  obtain x h1 hi1 where nx: "hash_iterator_next H hi = (x, h1, hi1)" by (metis prod_cases3)
  show ?thesis
  proof (cases x)
    case None
    then show ?thesis using r nx sl by (simp add: sweep_result_def)
  next
    case (Some bp)
    obtain b p where x: "x = Some (b, p)" using Some by (cases bp) auto
    then have h1: "h1 = half_swept P s h b p" and at: "iter_at P s e h b (Suc p) p hi1"
      and es: "es = remaining h e b p" using r nx by (auto simp: sweep_result_def)
    have b: "b < e" "e \<le> length (buckets h)" "p < length (buckets h ! b)" using at by (auto simp: iter_at_def)
    have c: "es = buckets h ! b ! p # remaining h e b (Suc p)"
      unfolding es using remaining_bucket[OF b(1,2), of p] remaining_bucket[OF b(1,2), of "Suc p"] b(3)
      by (simp add: Cons_nth_drop_Suc[symmetric])
    note stp = half_swept_step[OF at]
    obtain st1 where f: "f st (buckets h ! b ! p) = Some (P (buckets h ! b ! p), st1)"
      and sl1: "sweep_list f P (remaining h e b (Suc p)) st1 = Some st'"
      using sl unfolding c by (auto split: option.splits if_splits)
    have k1: "length (remaining h e b (Suc p)) < fuel" using k unfolding c by simp
    show ?thesis
    proof (cases "P (buckets h ! b ! p)")
      case True
      from stp(3)[OF this] obtain hi2 where
        "hash_iterator_delete_element h1 hi1 = Some (half_swept P s h b (Suc p), hi2)"
        "iter_at P s e h b (Suc p) (Suc p) hi2" using h1 by auto
      then show ?thesis using nx x stp(1) True IH[OF _ k1 sl1] h1 f by simp
    next
      case False
      then show ?thesis using nx x stp(1) stp(2)[OF False] IH[OF _ k1 sl1] h1 f by simp
    qed
  qed
qed

lemma hash_sweep_from:
  assumes u: "unmarked h"
  shows "iter_at P s e h b p p hi \<Longrightarrow> length (remaining h e b p) < fuel \<Longrightarrow>
    sweep_list f P (remaining h e b p) st = Some st' \<Longrightarrow>
    hash_sweep fuel f (half_swept P s h b p) hi st = Some (swept P s e h, st')"
proof (induction fuel arbitrary: b p hi st)
  case (Suc fuel)
  show ?case by (rule hash_sweep_step[OF Suc(1) next_sweep[OF Suc(2) u] Suc(3,4)])
qed simp

lemma length_concat_slice: "length (concat (drop s (take e bs))) \<le> length (concat bs)"
proof -
  have "length (concat (drop s xs)) \<le> length (concat xs)" for xs :: "'a list list"
    by (metis append_take_drop_id concat_append le_add2 length_append)
  moreover have "length (concat (take e bs)) \<le> length (concat bs)"
    by (metis append_take_drop_id concat_append le_add1 length_append)
  ultimately show ?thesis using le_trans by blast
qed

text \<open>A sweep over a range of buckets ends, and it is the filter of the buckets in the range.\<close>

lemma hash_sweep_range:
  assumes u: "unmarked h" and se: "s \<le> e" "e \<le> length (buckets h)"
    and nb: "n_buckets h = int (length (buckets h))"
    and hi: "hash_iterator_init_range h (int s) (int e) = Some hi"
    and f: "length (concat (buckets h)) < fuel"
    and sl: "sweep_list f P (concat (drop s (take e (buckets h)))) st = Some st'"
  shows "hash_sweep fuel f h hi st = Some (swept P s e h, st')"
proof -
  have bf: "iter_before s e h s hi"
    using hi nb se by (auto simp: hash_iterator_init_range_def iter_before_def)
  then have nx: "hash_iterator_next h hi = hash_iterator_search (e - s) h hi"
    using se by (simp add: hash_iterator_next_def iter_before_def) (simp add: nat_diff_distrib')
  have r: "sweep_result P s e h (remaining h e s 0) (hash_iterator_next h hi)"
    using search_sweep[OF bf refl refl, of P] half_swept_start[of P s h] nx by simp
  have "length (concat (drop s (take e (buckets h)))) \<le> length (concat (buckets h))"
    by (rule length_concat_slice)
  moreover obtain g where g: "fuel = Suc g" using f by (cases fuel) auto
  ultimately have l: "length (remaining h e s 0) < Suc g" using f by (simp add: remaining_def)
  show ?thesis
    unfolding g by (rule hash_sweep_step[OF hash_sweep_from[OF u] r l]) (use sl in \<open>simp_all add: remaining_def\<close>)
qed

lemma length_concat_sum: "length (concat bs) = sum_list (map length bs)"
  by (simp add: length_concat)

lemma init_range_whole: "hash_iterator_init h = hash_iterator_init_range h 0 (n_buckets h)"
  by (simp add: hash_iterator_init_def)

lemma hash_wf_unmarked: "hash_wf h \<Longrightarrow> unmarked h"
  unfolding unmarked_def
proof (intro ballI)
  fix b e assume h: "hash_wf h" and "b \<in> set (buckets h)" and e: "e \<in> set b"
  then obtain i where "i < length (buckets h)" "b = buckets h ! i" by (auto simp: in_set_conv_nth)
  then have "elem_ok h i e" using hash_wfD(3)[OF h] e by (auto simp: bucket_ok_def list_all_iff)
  then show "he_key e \<noteq> None" by (auto simp: elem_ok_def split: option.splits)
qed

lemma same_params_swept: "same_params h (swept P s e h)"
  by (simp add: swept_def)

lemma slices:
  assumes "s \<le> e" "e \<le> length bs"
  shows "bs = take s bs @ drop s (take e bs) @ drop e bs"
  using append_take_drop_id[of s "take e bs"] append_take_drop_id[of e bs] assms
  by (simp add: min_def flip: append_assoc)

lemma swept_bucket:
  assumes "s \<le> e" "e \<le> length (buckets h)" "i < length (buckets h)"
  shows "length (buckets (swept P s e h)) = length (buckets h)"
    "buckets (swept P s e h) ! i = (if s \<le> i \<and> i < e then keep P (buckets h ! i) else buckets h ! i)"
  using assms by (auto simp: swept_def nth_append min_def)

lemma removed_sum:
  "int (sum_list (map length (map (keep P) bs))) = int (sum_list (map length bs)) - removed P bs"
  by (induction bs) (simp_all add: removed_def)

lemma hash_wf_swept:
  assumes h: "hash_wf h" and se: "s \<le> e" "e \<le> length (buckets h)"
  shows "hash_wf (swept P s e h)"
proof -
  let ?h = "swept P s e h" and ?B = "buckets h"
  note pc = same_params_cong[OF same_params_swept[of h P s e]]
  have l: "length (buckets ?h) = length ?B" using se by (simp add: swept_def)
  have "bucket_ok h i (buckets ?h ! i)" if "i < length (buckets ?h)" for i
    using that hash_wfD(3)[OF h, of i] swept_bucket(2)[OF se, of i P] l
    by (auto simp: bucket_ok_def sorted_wrt_filter list_all_iff)
  moreover have "hash_shape ?h"
    using hash_shape_cong[OF same_params_swept] hash_wfD(2)[OF h] l by blast
  moreover have "n_elements ?h = int (sum_list (map length (buckets ?h)))"
  proof -
    have "sum_list (map length ?B) =
        sum_list (map length (take s ?B)) + sum_list (map length (drop s (take e ?B))) +
        sum_list (map length (drop e ?B))"
      using arg_cong[OF slices[OF se], of "\<lambda>x. sum_list (map length x)"] by simp
    then show ?thesis
      using hash_wfD(4)[OF h] removed_sum[of P "drop s (take e ?B)"] by (simp add: swept_def)
  qed
  ultimately show ?thesis
    using hash_wfD(1)[OF h] unfolding hash_wf_def by (simp only: pc) blast
qed

lemma find_match_keep:
  assumes c: "key_contract h" and b: "bucket_ok h i es"
  shows "find_match h k (keep P es) =
    (case find_match h k es of None \<Rightarrow> None | Some e \<Rightarrow> if P e then None else Some e)"
  using b
proof (induction es)
  case (Cons x es)
  then have IH: "find_match h k (keep P es) =
      (case find_match h k es of None \<Rightarrow> None | Some e \<Rightarrow> if P e then None else Some e)"
    using bucket_ok_drop by blast
  show ?case
  proof (cases "he_match h k (hash_value h k) x")
    case True
    then have "\<forall>e \<in> set (keep P es). \<not> he_match h k (hash_value h k) e"
      using bucket_ok_unique[OF c Cons(2)] by simp
    then show ?thesis using True by (simp add: find_match_def find_none)
  qed (use IH in \<open>simp add: find_match_def\<close>)
qed (simp add: find_match_def)

lemma hash_abs_swept:
  assumes h: "hash_wf h" and se: "s \<le> e" "e \<le> length (buckets h)"
  shows "hash_abs (swept (\<lambda>e. Q (he_value e)) s e h) k =
    (case hash_abs h k of
       None \<Rightarrow> None
     | Some v \<Rightarrow> if Q v \<and> s \<le> hash_bucket h (hash_value h k) \<and> hash_bucket h (hash_value h k) < e
                 then None else Some v)"
proof -
  let ?P = "\<lambda>e. Q (he_value e)" and ?i = "hash_bucket h (hash_value h k)"
  have i: "?i < length (buckets h)"
    using hash_bucket_less hash_wfD(2)[OF h] by blast
  show ?thesis
    using find_match_keep[OF hash_wfD(1)[OF h] hash_wfD(3)[OF h i], of k ?P] swept_bucket(2)[OF se i, of ?P]
    by (simp add: hash_abs_def same_params_cong[OF same_params_swept] split: option.split)
qed

text \<open>The sweep by value always comes to its end.\<close>

lemma sweep_list_pure: "sweep_list (\<lambda>_ e. Some (P e, ())) P es () = Some ()"
  by (induction es) simp_all

lemma hash_remove_by_value_ok:
  assumes h: "hash_wf h"
  shows "hash_remove_by_value h v = Some (swept (\<lambda>e. he_value e = v) 0 (length (buckets h)) h)"
proof -
  let ?n = "length (buckets h)"
  have nb: "n_buckets h = int ?n" using hash_wfD(2)[OF h] by (auto simp: hash_shape_def)
  obtain hi where hi: "hash_iterator_init h = Some hi"
    using nb by (simp add: hash_iterator_init_def hash_iterator_init_range_def)
  then have hi': "hash_iterator_init_range h (int 0) (int ?n) = Some hi"
    by (simp add: init_range_whole nb)
  have "hash_sweep (sweep_fuel h) (\<lambda>_ he. Some (he_value he = v, ())) h hi () =
      Some (swept (\<lambda>e. he_value e = v) 0 ?n h, ())"
    by (rule hash_sweep_range[OF hash_wf_unmarked[OF h] _ _ nb hi'])
      (simp_all add: sweep_fuel_def length_concat sweep_list_pure)
  then show ?thesis by (simp add: hash_remove_by_value_def hi)
qed

section \<open>The table interface\<close>

text \<open>
  Requests to a table and their answers, one step of a table given by its four operations,
  and the same step on a map whose keys are compared with \<open>eqk\<close>.
\<close>

datatype ('k, 'v) table_op = Lookup 'k | Add 'k 'v bool | Remove 'k | Purge 'v

datatype 'v table_reply = Found "'v option" | Changed bool | Purged

fun table_step where
  "table_step lookup add remove purge s (Lookup k) =
     (case lookup s k of (r, s') \<Rightarrow> Some (Found r, s'))"
| "table_step lookup add remove purge s (Add k v r) =
     (case add s k v r of (b, s') \<Rightarrow> Some (Changed b, s'))"
| "table_step lookup add remove purge s (Remove k) =
     (case remove s k of (b, s') \<Rightarrow> Some (Changed b, s'))"
| "table_step lookup add remove purge s (Purge v) = map_option (\<lambda>s'. (Purged, s')) (purge s v)"

fun map_step ::
  "('k \<Rightarrow> 'k \<Rightarrow> bool) \<Rightarrow> ('k \<Rightarrow> 'v option) \<Rightarrow> ('k, 'v) table_op \<Rightarrow> 'v table_reply \<times> ('k \<Rightarrow> 'v option)" where
  "map_step eqk m (Lookup k) = (Found (m k), m)"
| "map_step eqk m (Add k v r) =
     (if m k = None \<or> r then (Changed True, \<lambda>k'. if eqk k k' then Some v else m k')
      else (Changed False, m))"
| "map_step eqk m (Remove k) = (Changed (m k \<noteq> None), \<lambda>k'. if eqk k k' then None else m k')"
| "map_step eqk m (Purge v) = (Purged, \<lambda>k'. if m k' = Some v then None else m k')"

locale key_table =
  fixes inv :: "'s \<Rightarrow> bool" and abs :: "'s \<Rightarrow> 'k \<Rightarrow> 'v option" and eqk :: "'k \<Rightarrow> 'k \<Rightarrow> bool"
    and lookup :: "'s \<Rightarrow> 'k \<Rightarrow> 'v option \<times> 's"
    and add :: "'s \<Rightarrow> 'k \<Rightarrow> 'v \<Rightarrow> bool \<Rightarrow> bool \<times> 's"
    and remove :: "'s \<Rightarrow> 'k \<Rightarrow> bool \<times> 's"
    and purge :: "'s \<Rightarrow> 'v \<Rightarrow> 's option"
  assumes eq_refl: "eqk k k"
    and lookup_law: "inv s \<Longrightarrow> lookup s k = (r, s') \<Longrightarrow> inv s' \<and> abs s' = abs s \<and> r = abs s k"
    and add_law: "inv s \<Longrightarrow> add s k v rep = (b, s') \<Longrightarrow>
      inv s' \<and> b = (abs s k = None \<or> rep) \<and>
      abs s' = (if b then (\<lambda>k'. if eqk k k' then Some v else abs s k') else abs s)"
    and remove_law: "inv s \<Longrightarrow> remove s k = (b, s') \<Longrightarrow>
      inv s' \<and> b = (abs s k \<noteq> None) \<and> abs s' = (\<lambda>k'. if eqk k k' then None else abs s k')"
    and purge_law: "inv s \<Longrightarrow> \<exists>s'. purge s v = Some s' \<and> inv s' \<and>
      abs s' = (\<lambda>k. if abs s k = Some v then None else abs s k)"
begin

lemma lookup_after_add:
  assumes "inv s" "add s k v True = (b, s')" "eqk k k'"
  shows "fst (lookup s' k') = Some v"
proof -
  obtain r s2 where l: "lookup s' k' = (r, s2)" by fastforce
  from lookup_law[OF _ l] add_law[OF assms(1,2)] assms(3) show ?thesis by (simp add: l)
qed

lemma lookup_after_remove:
  assumes "inv s" "remove s k = (b, s')"
  shows "fst (lookup s' k) = None"
proof -
  obtain r s2 where l: "lookup s' k = (r, s2)" by fastforce
  from lookup_law[OF _ l] remove_law[OF assms] eq_refl show ?thesis by (simp add: l)
qed

lemma step_simulates:
  assumes "inv s"
  shows "\<exists>r s'. table_step lookup add remove purge s op = Some (r, s') \<and> inv s' \<and>
    map_step eqk (abs s) op = (r, abs s')"
proof (cases op)
  case (Lookup k)
  then show ?thesis using lookup_law[OF assms] by (cases "lookup s k") fastforce
next
  case (Add k v rep)
  then show ?thesis using add_law[OF assms] by (cases "add s k v rep") fastforce
next
  case (Remove k)
  then show ?thesis using remove_law[OF assms] by (cases "remove s k") fastforce
next
  case (Purge v)
  then show ?thesis using purge_law[OF assms, of v] by auto
qed

end

text \<open>Every table runs any sequence of requests as its map does.\<close>

sublocale key_table \<subseteq> run: simulation inv abs "table_step lookup add remove purge" "map_step eqk"
  by unfold_locales (rule step_simulates)

text \<open>
  \<open>cf_ok cf\<close> is the part of the contract that does not mention a table. The interpretation is
  on the tables whose comparison function is \<open>cf\<close>.
\<close>

definition table_of :: "('k \<Rightarrow> 'k \<Rightarrow> bool) \<Rightarrow> ('k, 'v) hash \<Rightarrow> bool" where
  "table_of cf h \<longleftrightarrow> hash_wf h \<and> compare_function h = cf"

lemma table_ofD: "table_of cf h \<Longrightarrow> hash_wf h" "table_of cf h \<Longrightarrow> compare_function h = cf"
  by (simp_all add: table_of_def)

lemma table_of_params: "table_of cf h \<Longrightarrow> hash_wf h' \<Longrightarrow> same_params h h' \<Longrightarrow> table_of cf h'"
  by (simp add: table_of_def same_params_def)

lemma hash_table_laws:
  assumes "reflp cf"
  shows "key_table (table_of cf) hash_abs cf hash_lookup hash_add hash_remove hash_remove_by_value"
proof (unfold_locales, goal_cases)
  case (1 k)
  then show ?case using assms by (simp add: reflpD)
next
  case (2 h k r h')
  then show ?case using hash_lookup_ok[of h k] table_of_params by (auto simp: table_ofD)
next
  case (3 h k v rep b h')
  then show ?case using hash_add_ok[of h k v rep] table_of_params by (auto simp: table_ofD)
next
  case (4 h k b h')
  then show ?case using hash_remove_ok[of h k] table_of_params by (auto simp: table_ofD)
next
  case (5 h v)
  then have h: "hash_wf h" by (simp add: table_ofD)
  let ?n = "length (buckets h)"
  have "hash_bucket h hv < ?n" for hv using hash_bucket_less hash_wfD(2)[OF h] by blast
  then have "hash_abs (swept (\<lambda>e. he_value e = v) 0 ?n h) =
      (\<lambda>k. if hash_abs h k = Some v then None else hash_abs h k)"
    using hash_abs_swept[OF h _ order_refl, of 0 "\<lambda>x. x = v"] by (auto simp: fun_eq_iff split: option.split)
  moreover have "table_of cf (swept (\<lambda>e. he_value e = v) 0 ?n h)"
    by (rule table_of_params[OF 5 hash_wf_swept[OF h] same_params_swept]) simp_all
  ultimately show ?case using hash_remove_by_value_ok[OF h] by simp
qed

abbreviation hash_step :: "('k, 'v) hash \<Rightarrow> ('k, 'v) table_op \<Rightarrow> ('v table_reply \<times> ('k, 'v) hash) option" where
  "hash_step \<equiv> table_step hash_lookup hash_add hash_remove hash_remove_by_value"

interpretation ht: key_table "table_of (=)" hash_abs "(=)"
  hash_lookup hash_add hash_remove hash_remove_by_value
  by (rule hash_table_laws) (simp add: reflp_def)

text \<open>C4: whatever the hash function, a table created by \<^verbatim>\<open>hash_init\<close> for keys that are compared
  for equality answers every sequence of lookups, insertions with and without replacement,
  removals and removals by value exactly as a map that starts empty; no sequence fails, and the
  table is well formed at the end.\<close>

theorem hash_table_refines_map:
  fixes h :: "('k, 'v) hash"
  assumes "hash_init n iv hf (=) = Some h"
  shows "\<exists>replies h'. run_ops hash_step h ops = Some (replies, h') \<and> hash_wf h' \<and>
    run_spec (map_step (=)) (\<lambda>k. None) ops = (replies, hash_abs h')"
proof -
  have e: "reflp ((=) :: 'k \<Rightarrow> 'k \<Rightarrow> bool)" "symp ((=) :: 'k \<Rightarrow> 'k \<Rightarrow> bool)" "transp ((=) :: 'k \<Rightarrow> 'k \<Rightarrow> bool)"
    by (simp_all add: reflp_def symp_def transp_def)
  note i = hash_init_ok[OF assms e]
  have "table_of (=) h" using i by (simp add: table_of_def)
  from ht.run.run_simulates[OF this, of ops] i show ?thesis by (auto simp: table_of_def)
qed

theorem hash_table_refines_map_witness:
  "\<exists>replies h'. run_ops hash_step
      (the (hash_init 3 7 hash_func (=)))
      [Add [1, 2] (5::nat) False, Add [3] 5 False, Add [1, 2] 6 False, Purge 5, Lookup [1, 2 :: byte]]
      = Some (replies, h') \<and> hash_wf h' \<and>
    replies = [Changed True, Changed True, Changed False, Purged, Found None]"
proof -
  let ?h = "the (hash_init 3 7 hash_func (=)) :: (byte list, nat) hash"
  have "hash_init 3 7 hash_func (=) = Some ?h" by (simp add: hash_init_def Let_def SIZEOF_HASH_BUCKET_def adjust_power_of_2_from.simps)
  from hash_table_refines_map[OF this,
    of "[Add [1, 2] (5::nat) False, Add [3] 5 False, Add [1, 2] 6 False, Purge 5, Lookup [1, 2 :: byte]]"]
  show ?thesis by auto
qed

text \<open>A round of \<^verbatim>\<open>mix\<close> in the hash function loses nothing: \<open>unmix\<close> recovers the three words,
  so equal hashes never come from the mixing of different states.\<close>

definition unmix_r :: "u32 \<Rightarrow> u32 \<Rightarrow> u32 \<Rightarrow> nat \<Rightarrow> u32" where
  "unmix_r x y z s = ((x XOR drop_bit s z) + z) + y"

definition unmix_l :: "u32 \<Rightarrow> u32 \<Rightarrow> u32 \<Rightarrow> nat \<Rightarrow> u32" where
  "unmix_l x y z s = ((x XOR push_bit s z) + z) + y"

lemma unmix [simp]: "unmix_r (mix_r x y z s) y z s = x" "unmix_l (mix_l x y z s) y z s = x"
  by (simp_all add: unmix_r_def mix_r_def unmix_l_def mix_l_def xor.assoc)

definition unmix3 :: "u32 \<times> u32 \<times> u32 \<Rightarrow> u32 \<times> u32 \<times> u32" where
  "unmix3 abc =
     (case abc of (a3, b3, c3) \<Rightarrow>
        let c2 = unmix_r c3 a3 b3 15; b2 = unmix_l b3 c2 a3 10; a2 = unmix_r a3 b2 c2 3;
            c1 = unmix_r c2 a2 b2 5; b1 = unmix_l b2 c1 a2 16; a1 = unmix_r a2 b1 c1 12;
            c0 = unmix_r c1 a1 b1 13; b0 = unmix_l b1 c0 a1 8; a0 = unmix_r a1 b0 c0 13
        in (a0, b0, c0))"

lemma mix_reversible: "unmix3 (mix abc) = abc"
  by (cases abc) (simp add: unmix3_def mix_def Let_def)

end
