(* ===== verification/Mroute.thy ===== *)
theory Mroute
  imports Hash_Sweep
begin

text \<open>
  The addresses of the server's routing table, \<^verbatim>\<open>mroute.h\<close> and \<^verbatim>\<open>mroute.c\<close>, and the netmask
  helpers of \<^verbatim>\<open>route.h\<close> and \<^verbatim>\<open>route.c\<close>. The union in \<^verbatim>\<open>struct mroute_addr\<close> is its 20 raw bytes:
  an address or port in network order is the bytes themselves, so \<^verbatim>\<open>ntohl(ma->v4.addr)\<close> is
  \<open>dec32\<close> of the first four; the 16 bits of \<^verbatim>\<open>ether.vid\<close> are in the byte order of the machine,
  little endian here. \<^verbatim>\<open>mroute_addr_print\<close> and the log messages are left out.
\<close>

unbundle bit_operations_syntax

section \<open>Netmasks\<close>

definition IPV4_NETMASK_HOST :: u32 where
  "IPV4_NETMASK_HOST = 0xffffffff"

definition netbits_to_netmask :: "int \<Rightarrow> u32" where
  "netbits_to_netmask netbits =
     (if netbits > 0 \<and> netbits \<le> 32 then push_bit (nat (32 - netbits)) IPV4_NETMASK_HOST else 0)"

text \<open>The search for the number of bits, from \<open>i\<close> up to \<^verbatim>\<open>addrlen\<close>.\<close>

function netmask_search :: "nat \<Rightarrow> u32 \<Rightarrow> nat option" where
  "netmask_search i netmask =
     (if i \<le> 32
      then if netbits_to_netmask (int i) = netmask then Some i else netmask_search (i + 1) netmask
      else None)"
  by pat_completeness auto
termination
  by (relation "measure (\<lambda>(i, m). 33 - i)") auto

declare netmask_search.simps [simp del]

definition netmask_to_netbits2 :: "u32 \<Rightarrow> int" where
  "netmask_to_netbits2 netmask =
     (case netmask_search 0 netmask of Some i \<Rightarrow> int i | None \<Rightarrow> - 1)"

text \<open>The value stored through \<^verbatim>\<open>int *netbits\<close>, \<open>None\<close> when the function returns false.\<close>

definition netmask_to_netbits :: "u32 \<Rightarrow> u32 \<Rightarrow> int option" where
  "netmask_to_netbits network netmask =
     (if network AND netmask = network
      then map_option (\<lambda>i. if i = 32 then - 1 else int i) (netmask_search 0 netmask)
      else None)"

section \<open>Addresses\<close>

definition MR_MAX_ADDR_LEN :: nat where "MR_MAX_ADDR_LEN = 20"
definition MR_ADDR_NONE :: byte where "MR_ADDR_NONE = 0"
definition MR_ADDR_ETHER :: byte where "MR_ADDR_ETHER = 1"
definition MR_ADDR_IPV4 :: byte where "MR_ADDR_IPV4 = 2"
definition MR_ADDR_IPV6 :: byte where "MR_ADDR_IPV6 = 3"
definition MR_ADDR_MASK :: byte where "MR_ADDR_MASK = 3"
definition MR_WITH_PORT :: byte where "MR_WITH_PORT = 4"
definition MR_WITH_NETBITS :: byte where "MR_WITH_NETBITS = 8"
definition MR_WITH_PROTO :: byte where "MR_WITH_PROTO = 32"

record mroute_addr =
  ma_len :: byte
  ma_proto :: byte
  ma_type :: byte
  ma_netbits :: byte
  ma_raw :: "byte list"

definition mroute_addr_init :: mroute_addr where
  "mroute_addr_init =
     \<lparr>ma_len = 0, ma_proto = 0, ma_type = 0, ma_netbits = 0, ma_raw = replicate MR_MAX_ADDR_LEN 0\<rparr>"

definition mroute_addr_reset :: "mroute_addr \<Rightarrow> mroute_addr" where
  "mroute_addr_reset ma = ma\<lparr>ma_len := 0, ma_type := MR_ADDR_NONE\<rparr>"

definition addr_kind :: "mroute_addr \<Rightarrow> byte" where
  "addr_kind ma = ma_type ma AND MR_ADDR_MASK"

definition mroute_addr_equal :: "mroute_addr \<Rightarrow> mroute_addr \<Rightarrow> bool" where
  "mroute_addr_equal a1 a2 =
     (if ma_type a1 \<noteq> ma_type a2 then False
      else if ma_proto a1 \<noteq> ma_proto a2 then False
      else if ma_netbits a1 \<noteq> ma_netbits a2 then False
      else if ma_len a1 \<noteq> ma_len a2 then False
      else take (unat (ma_len a1)) (ma_raw a1) = take (unat (ma_len a1)) (ma_raw a2))"

definition mroute_addr_compare_function :: "mroute_addr \<Rightarrow> mroute_addr \<Rightarrow> bool" where
  "mroute_addr_compare_function key1 key2 = mroute_addr_equal key1 key2"

text \<open>
  The bytes hashed are those of the structure from \<^verbatim>\<open>proto\<close> on, \<^verbatim>\<open>len + 3\<close> of them.
\<close>

definition mroute_addr_hash_ptr :: "mroute_addr \<Rightarrow> byte list" where
  "mroute_addr_hash_ptr a = [ma_proto a, ma_type a, ma_netbits a] @ ma_raw a"

definition mroute_addr_hash_len :: "mroute_addr \<Rightarrow> nat" where
  "mroute_addr_hash_len a = unat (ma_len a) + 3"

definition mroute_addr_hash_function :: "mroute_addr \<Rightarrow> u32 \<Rightarrow> u32" where
  "mroute_addr_hash_function key iv =
     hash_func (take (mroute_addr_hash_len key) (mroute_addr_hash_ptr key)) iv"

definition is_mac_mcast_addr :: "byte list \<Rightarrow> bool" where
  "is_mac_mcast_addr mac \<longleftrightarrow> mac ! 0 AND 1 \<noteq> 0"

definition is_mac_mcast_maddr :: "mroute_addr \<Rightarrow> bool" where
  "is_mac_mcast_maddr addr \<longleftrightarrow> addr_kind addr = MR_ADDR_ETHER \<and> is_mac_mcast_addr (ma_raw addr)"

definition mroute_learnable_address :: "mroute_addr \<Rightarrow> bool" where
  "mroute_learnable_address addr =
     (let a = take (unat (ma_len addr)) (ma_raw addr);
          all_zeros = list_all (\<lambda>b. b = 0) a; all_ones = list_all (\<lambda>b. b = 0xFF) a in
      if all_zeros \<and> \<not> (ma_type addr AND MR_WITH_NETBITS \<noteq> 0 \<and> ma_netbits addr < 8) then False
      else if all_ones then False
      else if is_mac_mcast_maddr addr then False
      else True)"

section \<open>Extraction\<close>

definition mroute_get_in_addr_t :: "mroute_addr \<Rightarrow> byte list \<Rightarrow> byte \<Rightarrow> mroute_addr" where
  "mroute_get_in_addr_t ma src mk =
     ma\<lparr>ma_type := MR_ADDR_IPV4 OR mk, ma_netbits := 0, ma_len := 4, ma_raw := mem_put (ma_raw ma) 0 src\<rparr>"

definition mroute_get_in6_addr :: "mroute_addr \<Rightarrow> byte list \<Rightarrow> byte \<Rightarrow> mroute_addr" where
  "mroute_get_in6_addr ma src mk =
     ma\<lparr>ma_type := MR_ADDR_IPV6 OR mk, ma_netbits := 0, ma_len := 16, ma_raw := mem_put (ma_raw ma) 0 src\<rparr>"

definition mroute_extract_in_addr_t :: "mroute_addr \<Rightarrow> u32 \<Rightarrow> mroute_addr" where
  "mroute_extract_in_addr_t dest src =
     dest\<lparr>ma_type := MR_ADDR_IPV4, ma_netbits := 0, ma_len := 4, ma_raw := mem_put (ma_raw dest) 0 (enc32 src)\<rparr>"

definition in_addr_t_from_mroute_addr :: "mroute_addr \<Rightarrow> u32" where
  "in_addr_t_from_mroute_addr addr =
     (if addr_kind addr = MR_ADDR_IPV4 \<and> ma_netbits addr = 0 \<and> ma_len addr = 4
      then dec32 (mem_get (ma_raw addr) 0 4) else 0)"

definition IP_MCAST_SUBNET_MASK :: u32 where "IP_MCAST_SUBNET_MASK = push_bit 24 240"
definition IP_MCAST_NETWORK :: u32 where "IP_MCAST_NETWORK = push_bit 24 224"

definition mroute_is_mcast :: "byte list \<Rightarrow> bool" where
  "mroute_is_mcast addr \<longleftrightarrow> dec32 addr AND IP_MCAST_SUBNET_MASK = IP_MCAST_NETWORK"

definition mroute_is_mcast_ipv6 :: "byte list \<Rightarrow> bool" where
  "mroute_is_mcast_ipv6 addr \<longleftrightarrow> addr ! 0 = 0xff"

definition MROUTE_EXTRACT_SUCCEEDED :: u32 where "MROUTE_EXTRACT_SUCCEEDED = 1"
definition MROUTE_EXTRACT_BCAST :: u32 where "MROUTE_EXTRACT_BCAST = 2"
definition MROUTE_EXTRACT_MCAST :: u32 where "MROUTE_EXTRACT_MCAST = 4"
definition MROUTE_EXTRACT_IGMP :: u32 where "MROUTE_EXTRACT_IGMP = 8"

definition OPENVPN_IPH_GET_VER :: "byte \<Rightarrow> byte" where
  "OPENVPN_IPH_GET_VER v = drop_bit 4 v AND 0x0F"

definition OPENVPN_IPPROTO_IGMP :: byte where "OPENVPN_IPPROTO_IGMP = 2"

text \<open>
  The result code with the two addresses after the call. The offsets are those of
  \<^verbatim>\<open>struct openvpn_iphdr\<close> (20 bytes) and \<^verbatim>\<open>struct openvpn_ipv6hdr\<close> (40 bytes).
\<close>

definition mroute_extract_addr_ip ::
  "mroute_addr \<Rightarrow> mroute_addr \<Rightarrow> buffer \<Rightarrow> u32 \<times> mroute_addr \<times> mroute_addr" where
  "mroute_extract_addr_ip src dest b =
     (let p = buf_bytes b; v = OPENVPN_IPH_GET_VER (p ! 0) in
      if buf_len b \<ge> 1 then
        if v = 4 then
          if buf_len b \<ge> 20 then
            (MROUTE_EXTRACT_SUCCEEDED OR
               (if mroute_is_mcast (mem_get p 16 4) then MROUTE_EXTRACT_MCAST else 0) OR
               (if p ! 9 = OPENVPN_IPPROTO_IGMP then MROUTE_EXTRACT_IGMP else 0),
             mroute_get_in_addr_t src (mem_get p 12 4) 0,
             mroute_get_in_addr_t dest (mem_get p 16 4) 0)
          else (0, src, dest)
        else if v = 6 then
          if buf_len b \<ge> 40 then
            (MROUTE_EXTRACT_SUCCEEDED OR
               (if mroute_is_mcast_ipv6 (mem_get p 24 16) then MROUTE_EXTRACT_MCAST else 0),
             mroute_get_in6_addr src (mem_get p 8 16) 0,
             mroute_get_in6_addr dest (mem_get p 24 16) 0)
          else (0, src, dest)
        else (0, src, dest)
      else (0, src, dest))"

definition OPENVPN_ETH_ALEN :: nat where "OPENVPN_ETH_ALEN = 6"

definition mroute_copy_ether_to_addr :: "mroute_addr \<Rightarrow> byte list \<Rightarrow> u16 \<Rightarrow> mroute_addr" where
  "mroute_copy_ether_to_addr maddr ether_addr vid =
     maddr\<lparr>ma_type := MR_ADDR_ETHER, ma_netbits := 0, ma_len := of_nat OPENVPN_ETH_ALEN + 2,
           ma_raw := mem_put (ma_raw maddr) 0 (ether_addr @ [ucast vid, ucast (drop_bit 8 vid)])\<rparr>"

definition mroute_extract_addr_ether ::
  "mroute_addr \<Rightarrow> mroute_addr \<Rightarrow> u16 \<Rightarrow> buffer \<Rightarrow> u32 \<times> mroute_addr \<times> mroute_addr" where
  "mroute_extract_addr_ether src dest vid b =
     (let p = buf_bytes b in
      if buf_len b \<ge> 14 then
        (MROUTE_EXTRACT_SUCCEEDED OR
           (if is_mac_mcast_addr (mem_get p 0 6) then MROUTE_EXTRACT_BCAST else 0),
         mroute_copy_ether_to_addr src (mem_get p 6 6) vid,
         mroute_copy_ether_to_addr dest (mem_get p 0 6) vid)
      else (0, src, dest))"

datatype dev_type = DEV_TYPE_UNDEF | DEV_TYPE_NULL | DEV_TYPE_TUN | DEV_TYPE_TAP

definition mroute_extract_addr_from_packet ::
  "mroute_addr \<Rightarrow> mroute_addr \<Rightarrow> u16 \<Rightarrow> buffer \<Rightarrow> dev_type \<Rightarrow> u32 \<times> mroute_addr \<times> mroute_addr" where
  "mroute_extract_addr_from_packet src0 dest0 vid b tunnel_type =
     (let src = src0\<lparr>ma_proto := 0\<rparr>; dest = dest0\<lparr>ma_proto := 0\<rparr> in
      if tunnel_type = DEV_TYPE_TUN then mroute_extract_addr_ip src dest b
      else if tunnel_type = DEV_TYPE_TAP then mroute_extract_addr_ether src dest vid b
      else (0, src, dest))"

text \<open>
  A socket address by its family, with its address and port in network order.
  \<^verbatim>\<open>PROTO_NONE\<close> is 0.
\<close>

datatype openvpn_sockaddr =
  AF_INET (sa_addr: "byte list") (sa_port: "byte list")
| AF_INET6 (sa_addr: "byte list") (sa_port: "byte list")
| AF_OTHER

definition with_port :: "mroute_addr \<Rightarrow> byte \<Rightarrow> byte \<Rightarrow> byte list \<Rightarrow> mroute_addr" where
  "with_port addr ty n raw =
     addr\<lparr>ma_type := (ty OR MR_WITH_PORT) OR (if ma_proto addr \<noteq> 0 then MR_WITH_PROTO else 0),
          ma_netbits := 0, ma_len := n, ma_raw := mem_put (ma_raw addr) 0 raw\<rparr>"

fun mroute_extract_openvpn_sockaddr ::
  "mroute_addr \<Rightarrow> openvpn_sockaddr \<Rightarrow> bool \<Rightarrow> bool \<times> mroute_addr" where
  "mroute_extract_openvpn_sockaddr addr (AF_INET a p) use_port =
     (True,
      if use_port then with_port addr MR_ADDR_IPV4 6 (a @ p)
      else addr\<lparr>ma_type := MR_ADDR_IPV4, ma_netbits := 0, ma_len := 4, ma_raw := mem_put (ma_raw addr) 0 a\<rparr>)"
| "mroute_extract_openvpn_sockaddr addr (AF_INET6 a p) use_port =
     (True,
      if use_port then with_port addr MR_ADDR_IPV6 18 (a @ p)
      else addr\<lparr>ma_type := MR_ADDR_IPV6, ma_netbits := 0, ma_len := 16, ma_raw := mem_put (ma_raw addr) 0 a\<rparr>)"
| "mroute_extract_openvpn_sockaddr addr AF_OTHER use_port = (False, addr)"

section \<open>Masking\<close>

text \<open>The loop over the bytes of an IPv6 address, with the value of \<^verbatim>\<open>bits_to_clear\<close> at its end.\<close>

function mask6_loop :: "byte list \<Rightarrow> int \<Rightarrow> int \<Rightarrow> byte list \<times> int" where
  "mask6_loop raw i bits =
     (if i \<ge> 0 \<and> bits > 0
      then if bits \<ge> 8 then mask6_loop (raw[nat i := 0]) (i - 1) (bits - 8)
           else mask6_loop (raw[nat i := raw ! nat i AND ucast (push_bit (nat bits) IPV4_NETMASK_HOST)]) (i - 1) 0
      else (raw, bits))"
  by pat_completeness auto
termination
  by (relation "measure (\<lambda>(raw, i, bits). nat (i + 1))") auto

declare mask6_loop.simps [simp del]

definition mroute_addr_mask_host_bits :: "mroute_addr \<Rightarrow> mroute_addr option" where
  "mroute_addr_mask_host_bits ma =
     (if addr_kind ma = MR_ADDR_IPV4
      then let addr = dec32 (mem_get (ma_raw ma) 0 4) in
           Some (ma\<lparr>ma_raw := mem_put (ma_raw ma) 0
                      (enc32 (addr AND netbits_to_netmask (uint (ma_netbits ma))))\<rparr>)
      else if addr_kind ma = MR_ADDR_IPV6
      then case mask6_loop (ma_raw ma) 15 (128 - uint (ma_netbits ma)) of
             (raw, bits_to_clear) \<Rightarrow>
               if bits_to_clear = 0 then Some (ma\<lparr>ma_raw := raw\<rparr>) else None
      else None)"

section \<open>The prefix lengths in use\<close>

definition MR_HELPER_NET_LEN :: nat where "MR_HELPER_NET_LEN = 129"

record mroute_helper =
  cache_generation :: u32
  ageable_ttl_secs :: int
  n_net_len :: nat
  net_len :: "byte list"
  net_len_refcount :: "int list"

definition mroute_helper_init :: "int \<Rightarrow> mroute_helper" where
  "mroute_helper_init ttl =
     \<lparr>cache_generation = 0, ageable_ttl_secs = ttl, n_net_len = 0,
      net_len = replicate MR_HELPER_NET_LEN 0, net_len_refcount = replicate MR_HELPER_NET_LEN 0\<rparr>"

text \<open>The loop from \<open>i - 1\<close> down to 0, the next free place of \<^verbatim>\<open>net_len\<close> being \<open>j\<close>.\<close>

fun regenerate_loop :: "int list \<Rightarrow> nat \<Rightarrow> nat \<Rightarrow> byte list \<Rightarrow> nat \<times> byte list" where
  "regenerate_loop rc 0 j nl = (j, nl)"
| "regenerate_loop rc (Suc i) j nl =
     (if rc ! i > 0 then regenerate_loop rc i (j + 1) (nl[j := of_nat i])
      else regenerate_loop rc i j nl)"

definition mroute_helper_regenerate :: "mroute_helper \<Rightarrow> mroute_helper" where
  "mroute_helper_regenerate mh =
     (case regenerate_loop (net_len_refcount mh) MR_HELPER_NET_LEN 0 (net_len mh) of
        (j, nl) \<Rightarrow> mh\<lparr>net_len := nl, n_net_len := j\<rparr>)"

definition mroute_helper_add_iroute46 :: "mroute_helper \<Rightarrow> int \<Rightarrow> mroute_helper option" where
  "mroute_helper_add_iroute46 mh netbits =
     (if netbits \<ge> 0 then
        if \<not> netbits < int MR_HELPER_NET_LEN then None
        else let n = nat netbits;
                 mh1 = mh\<lparr>cache_generation := cache_generation mh + 1,
                          net_len_refcount := (net_len_refcount mh)[n := net_len_refcount mh ! n + 1]\<rparr>
             in Some (if net_len_refcount mh1 ! n = 1 then mroute_helper_regenerate mh1 else mh1)
      else Some mh)"

definition mroute_helper_del_iroute46 :: "mroute_helper \<Rightarrow> int \<Rightarrow> mroute_helper option" where
  "mroute_helper_del_iroute46 mh netbits =
     (if netbits \<ge> 0 then
        if \<not> netbits < int MR_HELPER_NET_LEN then None
        else let n = nat netbits;
                 mh1 = mh\<lparr>cache_generation := cache_generation mh + 1,
                          net_len_refcount := (net_len_refcount mh)[n := net_len_refcount mh ! n - 1]\<rparr>
             in if \<not> net_len_refcount mh1 ! n \<ge> 0 then None
                else Some (if net_len_refcount mh1 ! n = 0 then mroute_helper_regenerate mh1 else mh1)
      else Some mh)"

section \<open>Addresses as keys\<close>

definition mroute_wf :: "mroute_addr \<Rightarrow> bool" where
  "mroute_wf a \<longleftrightarrow> length (ma_raw a) = MR_MAX_ADDR_LEN \<and> unat (ma_len a) \<le> MR_MAX_ADDR_LEN"

lemma mroute_addr_equal_iff:
  "mroute_addr_equal a b \<longleftrightarrow>
     ma_type a = ma_type b \<and> ma_proto a = ma_proto b \<and> ma_netbits a = ma_netbits b \<and>
     ma_len a = ma_len b \<and> take (unat (ma_len a)) (ma_raw a) = take (unat (ma_len b)) (ma_raw b)"
  by (auto simp: mroute_addr_equal_def)

lemma mroute_addr_equal_equiv:
  "reflp mroute_addr_equal" "symp mroute_addr_equal" "transp mroute_addr_equal"
  by (auto simp: mroute_addr_equal_iff reflp_def symp_def transp_def)

lemma mroute_addr_equal_refl [simp]: "mroute_addr_equal a a"
  by (simp add: mroute_addr_equal_iff)

lemma mroute_addr_equal_sym: "mroute_addr_equal a b = mroute_addr_equal b a"
  by (auto simp: mroute_addr_equal_iff)

lemma mroute_addr_equal_trans: "mroute_addr_equal a b \<Longrightarrow> mroute_addr_equal b c \<Longrightarrow> mroute_addr_equal a c"
  by (auto simp: mroute_addr_equal_iff)

lemma mroute_addr_hash_cong:
  assumes "mroute_addr_equal a b"
  shows "mroute_addr_hash_function a iv = mroute_addr_hash_function b iv"
proof -
  have t: "take (unat (ma_len b)) (ma_raw a) = take (unat (ma_len b)) (ma_raw b)"
    using assms[unfolded mroute_addr_equal_iff] by (elim conjE) simp
  have "take (mroute_addr_hash_len a) (mroute_addr_hash_ptr a) =
      take (mroute_addr_hash_len b) (mroute_addr_hash_ptr b)"
    using assms t by (simp add: mroute_addr_equal_iff mroute_addr_hash_len_def mroute_addr_hash_ptr_def
        numeral_3_eq_3)
  then show ?thesis by (simp add: mroute_addr_hash_function_def)
qed

text \<open>The hash table of routes keeps the table's laws with this comparison.\<close>

interpretation vt: key_table "table_of mroute_addr_equal" hash_abs mroute_addr_equal
  hash_lookup hash_add hash_remove hash_remove_by_value
  by (rule hash_table_laws[OF mroute_addr_equal_equiv(1)])

lemma mroute_table_init:
  assumes "hash_init n iv mroute_addr_hash_function mroute_addr_compare_function = Some h"
  shows "table_of mroute_addr_equal h" "hash_abs h = (\<lambda>k. None)"
proof -
  have c: "mroute_addr_compare_function = mroute_addr_equal"
    by (simp add: fun_eq_iff mroute_addr_compare_function_def)
  note i = hash_init_ok[OF assms[unfolded c] mroute_addr_equal_equiv mroute_addr_hash_cong]
  show "table_of mroute_addr_equal h" "hash_abs h = (\<lambda>k. None)"
    using i by (simp_all add: table_of_def)
qed

section \<open>Bits of an address\<close>

text \<open>The bits of an address are numbered from its most significant one.\<close>

definition addr_bit :: "byte list \<Rightarrow> nat \<Rightarrow> bool" where
  "addr_bit raw i \<longleftrightarrow> bit (raw ! (i div 8)) (7 - i mod 8)"

lemma byte_eq_bits: "(x :: byte) = y \<longleftrightarrow> (\<forall>i < 8. bit x (7 - i) = bit y (7 - i))"
proof
  assume r: "\<forall>i < 8. bit x (7 - i) = bit y (7 - i)"
  show "x = y"
  proof (rule bit_word_eqI)
    fix n assume "n < LENGTH(8)"
    then show "bit x n = bit y n" using r[rule_format, of "7 - n"] by simp
  qed
qed simp

lemma bytes_eq_bits:
  assumes "length a = n" "length b = n"
  shows "a = b \<longleftrightarrow> (\<forall>i < 8 * n. addr_bit a i = addr_bit b i)"
proof
  assume r: "\<forall>i < 8 * n. addr_bit a i = addr_bit b i"
  show "a = b"
  proof (rule nth_equalityI)
    fix j assume j: "j < length a"
    have "bit (a ! j) (7 - i) = bit (b ! j) (7 - i)" if "i < 8" for i
    proof -
      have "(8 * j + i) div 8 = j" "(8 * j + i) mod 8 = i" using that by simp_all
      moreover have "8 * j + i < 8 * n" using j that assms by simp
      ultimately show ?thesis using r[rule_format, of "8 * j + i"] by (simp only: addr_bit_def)
    qed
    then show "a ! j = b ! j" using byte_eq_bits by blast
  qed (use assms in simp)
qed simp

lemma bit_byte_step:
  fixes m n :: nat
  assumes "n < 256"
  shows "bit (m * 256 + n) i = (if i < 8 then bit n i else bit m (i - 8))"
proof (cases "i < 8")
  case True
  then have "(256::nat) = 2 ^ i * 2 * 2 ^ (7 - i)"
    by (simp add: power_add[symmetric] flip: power_Suc2)
  then have "m * 256 + n = n + 2 ^ i * (2 * 2 ^ (7 - i) * m)" by (simp add: mult.assoc)
  then show ?thesis using True by (simp only: bit_iff_odd) simp
next
  case False
  then have "(2::nat) ^ i = 2 ^ 8 * 2 ^ (i - 8)" by (subst power_add[symmetric]) simp
  then have "(2::nat) ^ i = 256 * 2 ^ (i - 8)" by simp
  then have "(m * 256 + n) div 2 ^ i = m div 2 ^ (i - 8)"
    using assms by (simp add: div_mult2_eq)
  then show ?thesis using False by (simp add: bit_iff_odd)
qed

lemma bit_unat_byte: "bit (unat (b :: byte)) i = bit b i"
  by (simp add: bit_unsigned_iff)

lemma bit_be_dec:
  "i < 8 * length bs \<Longrightarrow> bit (be_dec bs) (8 * length bs - 1 - i) = addr_bit bs i"
proof (induction bs rule: rev_induct)
  case (snoc b bs)
  let ?n = "length bs"
  have b: "unat b < 256" using unat_bound[of b] by simp
  have d: "be_dec (bs @ [b]) = be_dec bs * 256 + unat b" by simp
  show ?case
  proof (cases "i < 8 * ?n")
    case True
    then have "i div 8 < ?n" by simp
    then have "addr_bit (bs @ [b]) i = addr_bit bs i" by (simp add: addr_bit_def nth_append)
    moreover have "8 * length (bs @ [b]) - 1 - i - 8 = 8 * ?n - 1 - i" by simp
    moreover have "\<not> 8 * length (bs @ [b]) - 1 - i < 8" using True by simp
    ultimately show ?thesis using snoc(1)[OF True] unfolding d bit_byte_step[OF b] by simp
  next
    case False
    then have i: "i div 8 = ?n" using snoc(2) by simp
    then have "i = 8 * ?n + i mod 8" using div_mult_mod_eq[of i 8] by simp
    then have "8 * length (bs @ [b]) - 1 - i = 7 - i mod 8" by simp
    then show ?thesis
      unfolding d bit_byte_step[OF b] addr_bit_def by (auto simp: i bit_unat_byte)
  qed
qed simp

lemma bit_dec32: "length bs = 4 \<Longrightarrow> i < 32 \<Longrightarrow> bit (dec32 bs) (31 - i) = addr_bit bs i"
  using bit_be_dec[of i bs] by (auto simp: dec32_def bit_simps)

lemma addr_bit_enc32: "i < 32 \<Longrightarrow> addr_bit (enc32 w) i = bit w (31 - i)"
  using bit_dec32[of "enc32 w" i] by (simp add: codec_simps)

lemma bit_netmask:
  assumes "i < 32"
  shows "bit (netbits_to_netmask n) (31 - i) \<longleftrightarrow> int i < n \<and> n \<le> 32"
proof -
  have m: "IPV4_NETMASK_HOST = mask 32" by (simp add: IPV4_NETMASK_HOST_def mask_eq_exp_minus_1)
  show ?thesis
    using assms by (auto simp: netbits_to_netmask_def m bit_simps)
qed

lemma addr_bit_append: "i < 8 * length a \<Longrightarrow> addr_bit (a @ b) i = addr_bit a i"
  by (simp add: addr_bit_def nth_append less_mult_imp_div_less)

lemma addr_bit_put:
  assumes "length xs \<le> length raw" "i < 8 * length raw"
  shows "addr_bit (mem_put raw 0 xs) i = (if i < 8 * length xs then addr_bit xs i else addr_bit raw i)"
  using assms by (auto simp: addr_bit_def mem_put_def nth_append less_mult_imp_div_less)

lemma addr_bit_take: "i < 8 * n \<Longrightarrow> addr_bit (take n raw) i = addr_bit raw i"
  by (simp add: addr_bit_def)

lemma addr_bit_update:
  assumes "j < length raw"
  shows "addr_bit (raw[j := v]) i = (if i div 8 = j then bit v (7 - i mod 8) else addr_bit raw i)"
  using assms by (auto simp: addr_bit_def nth_list_update)

lemma mask6_loop_spec:
  assumes "mask6_loop raw i bits = (raw', b')" "- 1 \<le> i" "i < int (length raw)" "0 \<le> bits" "bits \<le> 8 * (i + 1)"
  shows "b' = 0 \<and> length raw' = length raw \<and>
    (\<forall>j < 8 * length raw. addr_bit raw' j =
      (addr_bit raw j \<and> \<not> (8 * (i + 1) - bits \<le> int j \<and> int j < 8 * (i + 1))))"
  using assms
proof (induction raw i bits arbitrary: raw' b' rule: mask6_loop.induct)
  case (1 raw i bits)
  show ?case
  proof (cases "i \<ge> 0 \<and> bits > 0")
    case c: True
    define k where "k = nat i"
    have k: "i = int k" "k < length raw" using c 1(5) by (auto simp: k_def)
    show ?thesis
    proof (cases "bits \<ge> 8")
      case True
      have st: "mask6_loop (raw[k := 0]) (i - 1) (bits - 8) = (raw', b')"
        using 1(3) c True by (subst (asm) mask6_loop.simps) (simp add: k_def)
      have "b' = 0 \<and> length raw' = length (raw[k := 0]) \<and>
        (\<forall>j < 8 * length (raw[k := 0]). addr_bit raw' j =
          (addr_bit (raw[k := 0]) j \<and> \<not> (8 * ((i - 1) + 1) - (bits - 8) \<le> int j \<and> int j < 8 * ((i - 1) + 1))))"
        unfolding k_def
        by (rule 1(1)[OF c True]) (use st c True 1 in \<open>auto simp: k_def\<close>)
      then show ?thesis
        using k True c by (auto simp: addr_bit_update)
    next
      case False
      let ?raw = "raw[k := raw ! k AND ucast (push_bit (nat bits) IPV4_NETMASK_HOST)]"
      have st: "mask6_loop ?raw (i - 1) 0 = (raw', b')"
        using 1(3) c False by (subst (asm) mask6_loop.simps) (simp add: k_def)
      then have r: "raw' = ?raw" "b' = 0" by (subst (asm) mask6_loop.simps; simp)+
      have m: "IPV4_NETMASK_HOST = mask 32" by (simp add: IPV4_NETMASK_HOST_def mask_eq_exp_minus_1)
      have "addr_bit ?raw j = (addr_bit raw j \<and> \<not> (8 * (i + 1) - bits \<le> int j \<and> int j < 8 * (i + 1)))"
        if "j < 8 * length raw" for j
      proof (cases "j div 8 = k")
        case True
        then have "bit (ucast (push_bit (nat bits) IPV4_NETMASK_HOST) :: byte) (7 - j mod 8) \<longleftrightarrow>
            nat bits \<le> 7 - j mod 8"
          by (auto simp: m bit_simps)
        moreover have "nat bits \<le> 7 - j mod 8 \<longleftrightarrow> \<not> (8 * (i + 1) - bits \<le> int j \<and> int j < 8 * (i + 1))"
        proof -
          define r where "r = j mod 8"
          have "r < 8" "int j = 8 * i + int r"
            using True k(1) div_mult_mod_eq[of j 8] by (simp_all add: r_def)
          then show ?thesis using c by (auto simp: r_def[symmetric])
        qed
        ultimately show ?thesis
          using True k by (simp add: addr_bit_update bit_and_iff) (simp add: addr_bit_def)
      next
        case False
        then show ?thesis using k c \<open>\<not> bits \<ge> 8\<close> by (auto simp: addr_bit_update)
      qed
      then show ?thesis using r by simp
    qed
  next
    case False
    then have r: "raw' = raw" "b' = bits" using 1(3) by (subst (asm) mask6_loop.simps; auto)+
    moreover have "bits = 0" using False 1 by auto
    ultimately show ?thesis by simp
  qed
qed

section \<open>What masking does\<close>

definition kind_bits :: "mroute_addr \<Rightarrow> nat" where
  "kind_bits a = (if addr_kind a = MR_ADDR_IPV4 then 32 else 128)"

definition ip_addr :: "mroute_addr \<Rightarrow> bool" where
  "ip_addr a \<longleftrightarrow> addr_kind a = MR_ADDR_IPV4 \<or> addr_kind a = MR_ADDR_IPV6"

text \<open>Masking an IPv4 address goes through its 32-bit value, an IPv6 one byte by byte.\<close>

lemma mask_host_bits_bits:
  assumes w: "mroute_wf a" and ip: "ip_addr a" and n: "unat (ma_netbits a) \<le> kind_bits a"
  shows "\<exists>raw. mroute_addr_mask_host_bits a = Some (a\<lparr>ma_raw := raw\<rparr>) \<and>
    length raw = length (ma_raw a) \<and>
    (\<forall>i < kind_bits a. addr_bit raw i = (addr_bit (ma_raw a) i \<and> i < unat (ma_netbits a))) \<and>
    drop (kind_bits a div 8) raw = drop (kind_bits a div 8) (ma_raw a)"
proof -
  define m where "m = unat (ma_netbits a)"
  have m: "uint (ma_netbits a) = int m" "unat (ma_netbits a) = m" by (simp_all add: m_def)
  show ?thesis
  proof (cases "addr_kind a = MR_ADDR_IPV4")
  case True
  let ?b = "mem_get (ma_raw a) 0 4"
  let ?v = "dec32 ?b AND netbits_to_netmask (uint (ma_netbits a))"
  have l: "length (ma_raw a) = 20" using w by (simp add: mroute_wf_def MR_MAX_ADDR_LEN_def)
  have k: "kind_bits a = 32" using True by (simp add: kind_bits_def)
  have b: "length ?b = 4" using l by (simp add: mem_simps)
  have le: "length (enc32 ?v) = 4" by (simp add: codec_simps)
  have "addr_bit (mem_put (ma_raw a) 0 (enc32 ?v)) i = (addr_bit (ma_raw a) i \<and> i < unat (ma_netbits a))"
    if "i < 32" for i
  proof -
    have "addr_bit ?b i = addr_bit (ma_raw a) i" using that by (simp add: mem_get_def addr_bit_take)
    moreover have "int i < uint (ma_netbits a) \<and> uint (ma_netbits a) \<le> 32 \<longleftrightarrow> i < unat (ma_netbits a)"
      using n k unfolding m by auto
    ultimately show ?thesis
      using that l le bit_dec32[OF b that]
      by (simp add: addr_bit_put addr_bit_enc32 bit_and_iff bit_netmask)
  qed
  moreover have "drop 4 (mem_put (ma_raw a) 0 (enc32 ?v)) = drop 4 (ma_raw a)"
    using le l by (simp add: mem_put_def)
  ultimately show ?thesis
    using True l le by (auto simp: mroute_addr_mask_host_bits_def Let_def k mem_simps)
next
  case False
  then have six: "addr_kind a = MR_ADDR_IPV6" using ip by (simp add: ip_addr_def)
  have k: "kind_bits a = 128" using False by (simp add: kind_bits_def)
  have l: "length (ma_raw a) = 20" using w by (simp add: mroute_wf_def MR_MAX_ADDR_LEN_def)
  let ?n = "uint (ma_netbits a)"
  obtain raw b where r: "mask6_loop (ma_raw a) 15 (128 - ?n) = (raw, b)" by fastforce
  have n': "0 \<le> ?n" "?n \<le> 128" using n k unfolding m by simp_all
  from mask6_loop_spec[OF r] n' l have s: "b = 0" "length raw = 20"
    "\<forall>j < 160. addr_bit raw j = (addr_bit (ma_raw a) j \<and> \<not> (?n \<le> int j \<and> j < 128))"
    by simp_all
  have "addr_bit raw i = (addr_bit (ma_raw a) i \<and> i < unat (ma_netbits a))" if "i < 128" for i
    using s(3)[rule_format, of i] that unfolding m by auto
  moreover have "drop 16 raw = drop 16 (ma_raw a)"
  proof (rule bytes_eq_bits[THEN iffD2, rule_format])
    show "length (drop 16 raw) = 4" "length (drop 16 (ma_raw a)) = 4" using s(2) l by simp_all
    fix i :: nat assume i: "i < 8 * 4"
    have "addr_bit (drop 16 xs) i = addr_bit xs (128 + i)" if "length xs = 20" for xs
    proof -
      have "(128 + i) div 8 = 16 + i div 8" "(128 + i) mod 8 = i mod 8" by presburger+
      then show ?thesis using i that by (simp add: addr_bit_def)
    qed
    then show "addr_bit (drop 16 raw) i = addr_bit (drop 16 (ma_raw a)) i"
      using s l i by simp
  qed
  ultimately show ?thesis
    using False six r s(1,2) l
    by (intro exI[of _ raw]) (simp add: mroute_addr_mask_host_bits_def k)
qed
qed

section \<open>The list of prefix lengths\<close>

definition used_lens :: "int list \<Rightarrow> nat \<Rightarrow> nat list" where
  "used_lens rc n = filter (\<lambda>i. rc ! i > 0) (rev [0..<n])"

definition helper_wf :: "mroute_helper \<Rightarrow> bool" where
  "helper_wf mh \<longleftrightarrow>
     length (net_len_refcount mh) = MR_HELPER_NET_LEN \<and> length (net_len mh) = MR_HELPER_NET_LEN \<and>
     (\<forall>i < MR_HELPER_NET_LEN. net_len_refcount mh ! i \<ge> 0) \<and>
     n_net_len mh \<le> MR_HELPER_NET_LEN \<and>
     map unat (take (n_net_len mh) (net_len mh)) = used_lens (net_len_refcount mh) MR_HELPER_NET_LEN"

lemma used_lens_Suc: "used_lens rc (Suc i) = (if rc ! i > 0 then [i] else []) @ used_lens rc i"
  by (simp add: used_lens_def)

lemma used_lens_bound: "length (used_lens rc i) \<le> i"
  using length_filter_le[of "\<lambda>j. rc ! j > 0" "rev [0..<i]"] by (simp add: used_lens_def)

lemma regenerate_loop_spec:
  assumes "regenerate_loop rc i j nl = (j', nl')" "j + i \<le> length nl" "i \<le> 129"
  shows "length nl' = length nl \<and> j' = j + length (used_lens rc i) \<and>
    map unat (take j' nl') = map unat (take j nl) @ used_lens rc i"
  using assms
proof (induction rc i j nl arbitrary: j' nl' rule: regenerate_loop.induct)
  case (1 rc j nl)
  then show ?case by (simp add: used_lens_def)
next
  case (2 rc i j nl)
  show ?case
  proof (cases "rc ! i > 0")
    case True
    have u: "unat (of_nat i :: byte) = i" using 2(5) by (simp add: unat_of_nat)
    have "take (Suc j) (nl[j := of_nat i]) = take j nl @ [of_nat i]"
      using 2(4) by (simp add: take_Suc_conv_app_nth)
    moreover have "length nl' = length nl \<and> j' = Suc j + length (used_lens rc i) \<and>
      map unat (take j' nl') = map unat (take (Suc j) (nl[j := of_nat i])) @ used_lens rc i"
      using 2(1)[OF True, of j' nl'] 2(3-5) True by auto
    ultimately show ?thesis using True u by (auto simp: used_lens_Suc)
  next
    case False
    then show ?thesis using 2(2)[OF False, of j' nl'] 2(3-5) by (auto simp: used_lens_Suc)
  qed
qed

lemma regenerate_wf:
  assumes "length (net_len_refcount mh) = MR_HELPER_NET_LEN" "length (net_len mh) = MR_HELPER_NET_LEN"
    "\<forall>i < MR_HELPER_NET_LEN. net_len_refcount mh ! i \<ge> 0"
  shows "helper_wf (mroute_helper_regenerate mh)"
    "net_len_refcount (mroute_helper_regenerate mh) = net_len_refcount mh"
    "cache_generation (mroute_helper_regenerate mh) = cache_generation mh"
    "ageable_ttl_secs (mroute_helper_regenerate mh) = ageable_ttl_secs mh"
proof -
  obtain j nl where r: "regenerate_loop (net_len_refcount mh) MR_HELPER_NET_LEN 0 (net_len mh) = (j, nl)"
    by fastforce
  from regenerate_loop_spec[OF r] assms have s: "length nl = MR_HELPER_NET_LEN"
    "j = length (used_lens (net_len_refcount mh) MR_HELPER_NET_LEN)"
    "map unat (take j nl) = used_lens (net_len_refcount mh) MR_HELPER_NET_LEN"
    by (auto simp: MR_HELPER_NET_LEN_def)
  then show "helper_wf (mroute_helper_regenerate mh)"
    using assms used_lens_bound by (simp add: helper_wf_def mroute_helper_regenerate_def r)
  show "net_len_refcount (mroute_helper_regenerate mh) = net_len_refcount mh"
    "cache_generation (mroute_helper_regenerate mh) = cache_generation mh"
    "ageable_ttl_secs (mroute_helper_regenerate mh) = ageable_ttl_secs mh"
    by (simp_all add: mroute_helper_regenerate_def r)
qed

lemma used_lens_update:
  assumes "rc ! n > 0 \<longleftrightarrow> v > 0" "n < length rc"
  shows "used_lens (rc[n := v]) k = used_lens rc k"
proof -
  have "rc[n := v] ! i > 0 \<longleftrightarrow> rc ! i > 0" for i
    using assms by (cases "i = n") auto
  then show ?thesis by (simp add: used_lens_def)
qed

text \<open>Both operations keep the list right; they differ in what they do to the count.\<close>

lemma helper_count_wf:
  fixes g :: u32
  assumes w: "helper_wf mh" and n: "n < MR_HELPER_NET_LEN" and v: "v \<ge> 0"
    and keep: "\<not> regen \<Longrightarrow> net_len_refcount mh ! n > 0 \<longleftrightarrow> v > 0"
  defines "m1 \<equiv> mh\<lparr>cache_generation := g, net_len_refcount := (net_len_refcount mh)[n := v]\<rparr>"
  shows "helper_wf (if regen then mroute_helper_regenerate m1 else m1)"
    "net_len_refcount (if regen then mroute_helper_regenerate m1 else m1) = (net_len_refcount mh)[n := v]"
    "cache_generation (if regen then mroute_helper_regenerate m1 else m1) = g"
    "ageable_ttl_secs (if regen then mroute_helper_regenerate m1 else m1) = ageable_ttl_secs mh"
proof -
  have l: "length (net_len_refcount m1) = MR_HELPER_NET_LEN" "length (net_len m1) = MR_HELPER_NET_LEN"
    using w by (simp_all add: m1_def helper_wf_def)
  have p: "\<forall>i < MR_HELPER_NET_LEN. net_len_refcount m1 ! i \<ge> 0"
    using w v n by (auto simp: m1_def helper_wf_def nth_list_update)
  note r = regenerate_wf[OF l p]
  have "helper_wf m1" if "\<not> regen"
    using used_lens_update[OF keep[OF that]] w n l p by (simp add: helper_wf_def m1_def)
  then show "helper_wf (if regen then mroute_helper_regenerate m1 else m1)" using r by simp
  show "net_len_refcount (if regen then mroute_helper_regenerate m1 else m1) = (net_len_refcount mh)[n := v]"
    "cache_generation (if regen then mroute_helper_regenerate m1 else m1) = g"
    "ageable_ttl_secs (if regen then mroute_helper_regenerate m1 else m1) = ageable_ttl_secs mh"
    using r by (simp_all add: m1_def)
qed

text \<open>masking keeps exactly the first \<^verbatim>\<open>netbits\<close> bits of an IPv4 or IPv6 address and clears
  the others, changes nothing else, and fails no assertion for a prefix length the address can have.\<close>

lemma mask_host_bits_prefix:
  assumes "mroute_wf a" "ip_addr a" "unat (ma_netbits a) \<le> kind_bits a"
  shows "\<exists>raw. mroute_addr_mask_host_bits a = Some (a\<lparr>ma_raw := raw\<rparr>) \<and>
    length raw = length (ma_raw a) \<and>
    (\<forall>i < kind_bits a. addr_bit raw i = (addr_bit (ma_raw a) i \<and> i < unat (ma_netbits a))) \<and>
    drop (kind_bits a div 8) raw = drop (kind_bits a div 8) (ma_raw a)"
  using assms by (rule mask_host_bits_bits)

theorem mask_host_bits_prefix_witness:
  "\<exists>raw. mroute_addr_mask_host_bits
      \<lparr>ma_len = 4, ma_proto = 0, ma_type = 10, ma_netbits = 20, ma_raw = replicate 20 255\<rparr> =
      Some \<lparr>ma_len = 4, ma_proto = 0, ma_type = 10, ma_netbits = 20, ma_raw = raw\<rparr> \<and>
    addr_bit raw 19 \<and> \<not> addr_bit raw 20"
proof -
  let ?a = "\<lparr>ma_len = 4, ma_proto = 0, ma_type = 10, ma_netbits = 20, ma_raw = replicate 20 255\<rparr>"
  have k: "addr_kind ?a = MR_ADDR_IPV4" by (simp add: addr_kind_def MR_ADDR_MASK_def MR_ADDR_IPV4_def)
  then have b: "kind_bits ?a = 32" by (simp add: kind_bits_def)
  have w: "mroute_wf ?a" "ip_addr ?a" "unat (ma_netbits ?a) \<le> kind_bits ?a"
    using k b by (simp_all add: mroute_wf_def ip_addr_def MR_MAX_ADDR_LEN_def)
  from mask_host_bits_prefix[OF w] obtain raw where
    r: "mroute_addr_mask_host_bits ?a = Some (?a\<lparr>ma_raw := raw\<rparr>)"
    "\<forall>i < 32. addr_bit raw i = (addr_bit (ma_raw ?a) i \<and> i < unat (ma_netbits ?a))"
    unfolding b by blast
  have "addr_bit (ma_raw ?a) 19" by (simp add: addr_bit_def bit_iff_odd_drop_bit)
  then show ?thesis using r(1) r(2)[rule_format, of 19] r(2)[rule_format, of 20] by auto
qed

text \<open>Prefixes of IPv6 length masked on an IPv4 address leave nothing of it.\<close>

lemma mask_v4_long:
  assumes k: "addr_kind a = MR_ADDR_IPV4" and n: "unat (ma_netbits a) > 32"
  shows "mroute_addr_mask_host_bits a = Some (a\<lparr>ma_raw := mem_put (ma_raw a) 0 (enc32 0)\<rparr>)"
proof -
  define m where "m = unat (ma_netbits a)"
  have m: "uint (ma_netbits a) = int m" by (simp add: m_def)
  have "netbits_to_netmask (uint (ma_netbits a)) = 0"
    using n[folded m_def] unfolding m by (simp add: netbits_to_netmask_def)
  then show ?thesis by (simp add: mroute_addr_mask_host_bits_def k Let_def)
qed

text \<open>An address of the internal network: no port, no protocol.\<close>

definition plain_addr :: "mroute_addr \<Rightarrow> bool" where
  "plain_addr a \<longleftrightarrow> mroute_wf a \<and> ip_addr a \<and> unat (ma_len a) * 8 = kind_bits a"

lemma mask_host_bits_total:
  assumes "mroute_wf a" "ip_addr a" "unat (ma_netbits a) \<le> 128"
  shows "\<exists>raw. mroute_addr_mask_host_bits a = Some (a\<lparr>ma_raw := raw\<rparr>) \<and> length raw = length (ma_raw a)"
proof (cases "unat (ma_netbits a) \<le> kind_bits a")
  case True
  then show ?thesis using mask_host_bits_bits[OF assms(1,2)] by blast
next
  case False
  then have k: "addr_kind a = MR_ADDR_IPV4" and "unat (ma_netbits a) > 32"
    using assms(3) by (auto simp: kind_bits_def split: if_splits)
  then show ?thesis
    using mask_v4_long[OF k] assms(1)
    by (intro exI[of _ "mem_put (ma_raw a) 0 (enc32 0)"])
      (simp add: mem_simps codec_simps mroute_wf_def MR_MAX_ADDR_LEN_def)
qed

text \<open>
  Two addresses of one family, masked to the same length, are equal as keys exactly when they
  agree on the prefix.
\<close>

lemma masked_equal_iff:
  assumes a: "plain_addr a" and b: "plain_addr b"
    and s: "ma_type a = ma_type b" "ma_proto a = ma_proto b" "ma_netbits a = ma_netbits b"
    and n: "unat (ma_netbits a) \<le> kind_bits a"
    and ma: "mroute_addr_mask_host_bits a = Some a'" and mb: "mroute_addr_mask_host_bits b = Some b'"
  shows "mroute_addr_equal a' b' \<longleftrightarrow>
    (\<forall>i < unat (ma_netbits a). addr_bit (ma_raw a) i = addr_bit (ma_raw b) i)"
proof -
  have k: "kind_bits b = kind_bits a" using s by (simp add: kind_bits_def addr_kind_def)
  have l: "unat (ma_len a) * 8 = kind_bits a" "unat (ma_len b) * 8 = kind_bits a"
    using a b k by (simp_all add: plain_addr_def)
  then have len: "unat (ma_len a) = unat (ma_len b)" by simp
  from mask_host_bits_bits[of a] a n ma obtain ra where
    ra: "a' = a\<lparr>ma_raw := ra\<rparr>" "length ra = length (ma_raw a)"
    "\<forall>i < kind_bits a. addr_bit ra i = (addr_bit (ma_raw a) i \<and> i < unat (ma_netbits a))"
    by (auto simp: plain_addr_def)
  from mask_host_bits_bits[of b] b n mb s k obtain rb where
    rb: "b' = b\<lparr>ma_raw := rb\<rparr>" "length rb = length (ma_raw b)"
    "\<forall>i < kind_bits a. addr_bit rb i = (addr_bit (ma_raw b) i \<and> i < unat (ma_netbits a))"
    by (auto simp: plain_addr_def)
  have lr: "length (take (unat (ma_len a)) ra) = unat (ma_len a)" "length (take (unat (ma_len a)) rb) = unat (ma_len a)"
    using ra(2) rb(2) a b len by (simp_all add: plain_addr_def mroute_wf_def)
  have "mroute_addr_equal a' b' \<longleftrightarrow> take (unat (ma_len a)) ra = take (unat (ma_len a)) rb"
    using s len by (auto simp: mroute_addr_equal_iff ra(1) rb(1) word_unat_eq_iff)
  also have "\<dots> \<longleftrightarrow> (\<forall>i < 8 * unat (ma_len a). addr_bit ra i = addr_bit rb i)"
    unfolding bytes_eq_bits[OF lr] by (auto simp: addr_bit_take)
  also have "\<dots> \<longleftrightarrow> (\<forall>i < unat (ma_netbits a). addr_bit (ma_raw a) i = addr_bit (ma_raw b) i)"
  proof -
    have "8 * unat (ma_len a) = kind_bits a" using l(1) by simp
    then have "(\<forall>i < 8 * unat (ma_len a). addr_bit ra i = addr_bit rb i) \<longleftrightarrow>
        (\<forall>i < kind_bits a. (addr_bit (ma_raw a) i \<and> i < unat (ma_netbits a)) =
          (addr_bit (ma_raw b) i \<and> i < unat (ma_netbits a)))"
      using ra(3) rb(3) s(3) by simp
    also have "\<dots> \<longleftrightarrow> (\<forall>i < unat (ma_netbits a). addr_bit (ma_raw a) i = addr_bit (ma_raw b) i)"
      using n by (metis order_less_le_trans)
    finally show ?thesis .
  qed
  finally show ?thesis .
qed

lemma add_iroute46_spec:
  assumes w: "helper_wf mh" and n: "0 \<le> n" "n < 129"
  shows "\<exists>mh'. mroute_helper_add_iroute46 mh n = Some mh' \<and> helper_wf mh' \<and>
    cache_generation mh' = cache_generation mh + 1 \<and> ageable_ttl_secs mh' = ageable_ttl_secs mh \<and>
    net_len_refcount mh' = (net_len_refcount mh)[nat n := net_len_refcount mh ! nat n + 1]"
proof -
  let ?v = "net_len_refcount mh ! nat n + 1" and ?k = "nat n"
  have k: "?k < MR_HELPER_NET_LEN" using n by (simp add: MR_HELPER_NET_LEN_def)
  have v: "net_len_refcount mh ! ?k \<ge> 0" and l: "length (net_len_refcount mh) = MR_HELPER_NET_LEN"
    using w k by (auto simp: helper_wf_def)
  have e: "mroute_helper_add_iroute46 mh n = Some (if ?v = 1
      then mroute_helper_regenerate (mh\<lparr>cache_generation := cache_generation mh + 1,
        net_len_refcount := (net_len_refcount mh)[?k := ?v]\<rparr>)
      else mh\<lparr>cache_generation := cache_generation mh + 1,
        net_len_refcount := (net_len_refcount mh)[?k := ?v]\<rparr>)"
    using n k l by (simp add: mroute_helper_add_iroute46_def Let_def MR_HELPER_NET_LEN_def)
  have "?v \<ge> 0" "\<not> (?v = 1) \<Longrightarrow> net_len_refcount mh ! ?k > 0 \<longleftrightarrow> ?v > 0" using v by auto
  note h = helper_count_wf[where g = "cache_generation mh + 1", OF w k this]
  show ?thesis unfolding e by (rule exI, rule conjI, rule refl) (intro conjI h)
qed

lemma del_iroute46_spec:
  assumes w: "helper_wf mh" and n: "0 \<le> n" "n < 129" and c: "net_len_refcount mh ! nat n > 0"
  shows "\<exists>mh'. mroute_helper_del_iroute46 mh n = Some mh' \<and> helper_wf mh' \<and>
    cache_generation mh' = cache_generation mh + 1 \<and> ageable_ttl_secs mh' = ageable_ttl_secs mh \<and>
    net_len_refcount mh' = (net_len_refcount mh)[nat n := net_len_refcount mh ! nat n - 1]"
proof -
  let ?v = "net_len_refcount mh ! nat n - 1" and ?k = "nat n"
  have k: "?k < MR_HELPER_NET_LEN" using n by (simp add: MR_HELPER_NET_LEN_def)
  have l: "length (net_len_refcount mh) = MR_HELPER_NET_LEN"
    using w k by (auto simp: helper_wf_def)
  have e: "mroute_helper_del_iroute46 mh n = Some (if ?v = 0
      then mroute_helper_regenerate (mh\<lparr>cache_generation := cache_generation mh + 1,
        net_len_refcount := (net_len_refcount mh)[?k := ?v]\<rparr>)
      else mh\<lparr>cache_generation := cache_generation mh + 1,
        net_len_refcount := (net_len_refcount mh)[?k := ?v]\<rparr>)"
    using n k l c by (simp add: mroute_helper_del_iroute46_def Let_def MR_HELPER_NET_LEN_def)
  have "?v \<ge> 0" "\<not> (?v = 0) \<Longrightarrow> net_len_refcount mh ! ?k > 0 \<longleftrightarrow> ?v > 0" using c by auto
  note h = helper_count_wf[where g = "cache_generation mh + 1", OF w k this]
  show ?thesis unfolding e by (rule exI, rule conjI, rule refl) (intro conjI h)
qed

text \<open>The lengths the lookup tries: each length in use once, longest first.\<close>

lemma used_lens_props:
  "set (used_lens rc n) = {i. i < n \<and> rc ! i > 0}" "sorted_wrt (>) (used_lens rc n)"
  unfolding used_lens_def
  by (auto intro!: sorted_wrt_filter simp: sorted_wrt_rev)

section \<open>Netmask conversions\<close>

lemma netmask_search_Some:
  "netmask_search i m = Some j \<Longrightarrow> i \<le> j \<and> j \<le> 32 \<and> netbits_to_netmask (int j) = m"
proof (induction i m rule: netmask_search.induct)
  case (1 i m)
  from 1(2) show ?case
    using 1(1) by (subst (asm) netmask_search.simps) (auto split: if_splits)
qed

lemma netbits_to_netmask_inj:
  assumes "0 \<le> a" "a \<le> 32" "0 \<le> b" "b \<le> 32" "netbits_to_netmask a = netbits_to_netmask b"
  shows "a = b"
proof -
  have "netbits_to_netmask a \<noteq> netbits_to_netmask b" if "a < b" "0 \<le> a" "b \<le> 32" for a b
  proof -
    have "nat a < 32" using that by linarith
    then show ?thesis using bit_netmask[of "nat a" a] bit_netmask[of "nat a" b] that by auto
  qed
  then show ?thesis using assms by (metis linorder_neqE)
qed

lemma netmask_search_ok:
  assumes "i \<le> n" "n \<le> 32"
  shows "netmask_search i (netbits_to_netmask (int n)) = Some n"
  using assms
proof (induction i "netbits_to_netmask (int n)" rule: netmask_search.induct)
  case (1 i)
  show ?case
  proof (cases "i = n")
    case True
    then show ?thesis using 1 by (subst netmask_search.simps) simp
  next
    case False
    then have "netbits_to_netmask (int i) \<noteq> netbits_to_netmask (int n)"
      using netbits_to_netmask_inj[of "int i" "int n"] 1 by auto
    then show ?thesis using 1 False by (subst netmask_search.simps) simp
  qed
qed

text \<open>The two directions between prefix lengths and netmasks are inverse: \<^verbatim>\<open>netmask_to_netbits2\<close>
  recovers every length from 0 to 32, any mask it accepts is the mask of its result, and it
  returns -1 exactly on the words that are no netmask.\<close>

theorem netmask_netbits_roundtrip:
  "(0 \<le> n \<and> n \<le> 32 \<longrightarrow> netmask_to_netbits2 (netbits_to_netmask n) = n) \<and>
   (netmask_to_netbits2 m \<noteq> - 1 \<longrightarrow> netbits_to_netmask (netmask_to_netbits2 m) = m) \<and>
   (netmask_to_netbits2 m = - 1 \<longleftrightarrow> (\<forall>k. 0 \<le> k \<and> k \<le> 32 \<longrightarrow> netbits_to_netmask k \<noteq> m))"
proof -
  have a: "netmask_to_netbits2 (netbits_to_netmask k) = k" if "0 \<le> k" "k \<le> 32" for k
    using netmask_search_ok[of 0 "nat k"] that by (simp add: netmask_to_netbits2_def)
  have b: "netbits_to_netmask (netmask_to_netbits2 m) = m" if "netmask_to_netbits2 m \<noteq> - 1"
    using that netmask_search_Some[of 0 m] by (auto simp: netmask_to_netbits2_def split: option.splits)
  have c: "0 \<le> netmask_to_netbits2 m \<and> netmask_to_netbits2 m \<le> 32" if "netmask_to_netbits2 m \<noteq> - 1"
    using that netmask_search_Some[of 0 m] by (auto simp: netmask_to_netbits2_def split: option.splits)
  have "netmask_to_netbits2 m = - 1 \<longleftrightarrow> (\<forall>k. 0 \<le> k \<and> k \<le> 32 \<longrightarrow> netbits_to_netmask k \<noteq> m)"
    using a b c by force
  with a b show ?thesis by blast
qed

theorem netmask_netbits_roundtrip_witness:
  "netmask_to_netbits2 (netbits_to_netmask 24) = 24"
  using netmask_netbits_roundtrip[of 24 0] by simp

end
