(* ===== verification/Multi_Route.thy ===== *)
theory Multi_Route
  imports Mroute "HOL-Library.Monad_Syntax"
begin

text \<open>
  The server's internal routing table: the functions of \<^verbatim>\<open>multi.c\<close> and \<^verbatim>\<open>multi.h\<close> that learn,
  look up, age and delete the routes from virtual addresses to client instances, and the
  decision that \<^verbatim>\<open>multi_process_incoming_link\<close> and \<^verbatim>\<open>multi_process_incoming_tun\<close> take for a packet.
  An instance pointer is a number; the map \<open>mc_inst\<close> holds the instances that are not freed, so
  following a dangling pointer is \<open>None\<close>, as is a failed \<^verbatim>\<open>ASSERT\<close>. Of an instance only the
  fields the routing uses are there. \<open>script a\<close> is whether the external
  learn-address script or plugin accepts the address \<open>a\<close> in this call. Management
  notifications, kernel offload (\<^verbatim>\<open>dco_*\<close>) and messages are left out.
\<close>

unbundle bit_operations_syntax

section \<open>State\<close>

record iroute =
  ir_network :: u32
  ir_netbits :: int

record iroute_ipv6 =
  ir6_network :: "byte list"
  ir6_netbits :: u32

record multi_instance =
  mi_halt :: bool
  mi_refcount :: int
  mi_route_count :: int
  max_routes_per_client :: int
  mi_did_iroutes :: bool
  mi_iroutes :: "iroute list"
  mi_iroutes_ipv6 :: "iroute_ipv6 list"

definition MULTI_ROUTE_CACHE :: u32 where "MULTI_ROUTE_CACHE = 1"
definition MULTI_ROUTE_AGEABLE :: u32 where "MULTI_ROUTE_AGEABLE = 2"

record multi_route =
  mr_addr :: mroute_addr
  mr_instance :: nat
  mr_flags :: u32
  mr_cache_generation :: u32
  mr_last_reference :: int

record multi_reap =
  bucket_base :: int
  buckets_per_pass :: int
  last_call :: int

record multi_context =
  mc_vhash :: "(mroute_addr, multi_route) hash"
  mc_route_helper :: mroute_helper
  mc_local :: mroute_addr
  mc_inst :: "nat \<Rightarrow> multi_instance option"
  mc_now :: int
  mc_dev_type :: dev_type
  mc_stale_routes_ageing_time :: int
  mc_reaper :: multi_reap
  mc_enable_c2c :: bool

section \<open>Instances and routes\<close>

definition upd_inst :: "multi_context \<Rightarrow> nat \<Rightarrow> (multi_instance \<Rightarrow> multi_instance) \<Rightarrow> multi_context option" where
  "upd_inst m i f =
     (case mc_inst m i of None \<Rightarrow> None | Some x \<Rightarrow> Some (m\<lparr>mc_inst := (mc_inst m)(i \<mapsto> f x)\<rparr>))"

definition route_quota_inc :: "multi_context \<Rightarrow> nat \<Rightarrow> multi_context option" where
  "route_quota_inc m i = upd_inst m i (\<lambda>x. x\<lparr>mi_route_count := mi_route_count x + 1\<rparr>)"

definition route_quota_dec :: "multi_context \<Rightarrow> nat \<Rightarrow> multi_context option" where
  "route_quota_dec m i = upd_inst m i (\<lambda>x. x\<lparr>mi_route_count := mi_route_count x - 1\<rparr>)"

definition route_quota_test :: "multi_context \<Rightarrow> nat \<Rightarrow> bool option" where
  "route_quota_test m i =
     map_option (\<lambda>x. if mi_route_count x \<ge> max_routes_per_client x then False else True) (mc_inst m i)"

definition multi_instance_inc_refcount :: "multi_context \<Rightarrow> nat \<Rightarrow> multi_context option" where
  "multi_instance_inc_refcount m i = upd_inst m i (\<lambda>x. x\<lparr>mi_refcount := mi_refcount x + 1\<rparr>)"

definition multi_instance_dec_refcount :: "multi_context \<Rightarrow> nat \<Rightarrow> multi_context option" where
  "multi_instance_dec_refcount m i =
     do { m1 \<leftarrow> upd_inst m i (\<lambda>x. x\<lparr>mi_refcount := mi_refcount x - 1\<rparr>);
          x \<leftarrow> mc_inst m1 i;
          Some (if mi_refcount x \<le> 0 then m1\<lparr>mc_inst := (mc_inst m1)(i := None)\<rparr> else m1) }"

definition multi_route_del :: "multi_context \<Rightarrow> multi_route \<Rightarrow> multi_context option" where
  "multi_route_del m route =
     do { m1 \<leftarrow> route_quota_dec m (mr_instance route);
          multi_instance_dec_refcount m1 (mr_instance route) }"

definition multi_route_defined :: "multi_context \<Rightarrow> multi_route \<Rightarrow> bool option" where
  "multi_route_defined m r =
     map_option
       (\<lambda>x. if mi_halt x then False
            else if mr_flags r AND MULTI_ROUTE_CACHE \<noteq> 0 \<and>
                    mr_cache_generation r \<noteq> cache_generation (mc_route_helper m) then False
            else if mr_flags r AND MULTI_ROUTE_AGEABLE \<noteq> 0 \<and>
                    mr_last_reference r + ageable_ttl_secs (mc_route_helper m) < mc_now m then False
            else True)
       (mc_inst m (mr_instance r))"

section \<open>Learning and lookup\<close>

definition multi_learn_addr ::
  "(mroute_addr \<Rightarrow> bool) \<Rightarrow> multi_context \<Rightarrow> nat \<Rightarrow> mroute_addr \<Rightarrow> u32 \<Rightarrow>
   (nat option \<times> multi_context) option" where
  "multi_learn_addr script m mi addr flags =
     (let hv = hash_value (mc_vhash m) addr; b = hash_bucket (mc_vhash m) hv in
      case hash_lookup_fast (mc_vhash m) b addr hv of (he, vhash) \<Rightarrow>
      let m1 = m\<lparr>mc_vhash := vhash\<rparr>;
          newroute = \<lparr>mr_addr = addr, mr_instance = mi, mr_flags = flags,
            mr_cache_generation =
              (if flags AND MULTI_ROUTE_CACHE \<noteq> 0 then cache_generation (mc_route_helper m) else 0),
            mr_last_reference = mc_now m\<rparr> in
      do { owner \<leftarrow> (case he of
                       None \<Rightarrow> Some None
                     | Some e \<Rightarrow>
                         do { d \<leftarrow> multi_route_defined m1 (he_value e);
                              Some (if d then Some (mr_instance (he_value e)) else None) });
           if owner \<noteq> Some mi \<and> mroute_learnable_address addr \<and> \<not> mroute_addr_equal addr (mc_local m)
           then do { q \<leftarrow> route_quota_test m1 mi;
                     if q \<and> script addr
                     then do { m2 \<leftarrow> multi_instance_inc_refcount m1 mi;
                               m3 \<leftarrow> route_quota_inc m2 mi;
                               (case he of
                                  Some e \<Rightarrow>
                                    do { m4 \<leftarrow> multi_route_del m3 (he_value e);
                                         Some (Some mi, m4\<lparr>mc_vhash :=
                                           set_head (mc_vhash m4) b
                                             (\<lambda>x. x\<lparr>he_key := Some addr, he_value := newroute\<rparr>)\<rparr>) }
                                | None \<Rightarrow>
                                    Some (Some mi, m3\<lparr>mc_vhash :=
                                      hash_add_fast (mc_vhash m3) b addr hv newroute\<rparr>)) }
                     else Some (owner, m1) }
           else Some (owner, m1) })"

text \<open>\<^verbatim>\<open>hash_lookup\<close> on the table of the context.\<close>

definition vlookup :: "multi_context \<Rightarrow> mroute_addr \<Rightarrow> multi_route option \<times> multi_context" where
  "vlookup m addr = (case hash_lookup (mc_vhash m) addr of (r, h) \<Rightarrow> (r, m\<lparr>mc_vhash := h\<rparr>))"

text \<open>The loop over the prefix lengths in use, longest first.\<close>

fun cidr_loop ::
  "(mroute_addr \<Rightarrow> bool) \<Rightarrow> multi_context \<Rightarrow> mroute_addr \<Rightarrow> byte list \<Rightarrow>
   (nat option \<times> multi_context) option" where
  "cidr_loop script m addr [] = Some (None, m)"
| "cidr_loop script m addr (n # ns) =
     do { tryaddr \<leftarrow> mroute_addr_mask_host_bits
            (addr\<lparr>ma_type := ma_type addr OR MR_WITH_NETBITS, ma_netbits := n\<rparr>);
          (case vlookup m tryaddr of
             (None, m1) \<Rightarrow> cidr_loop script m1 addr ns
           | (Some route, m1) \<Rightarrow>
               do { d \<leftarrow> multi_route_defined m1 route;
                    if d
                    then do { (_, m2) \<leftarrow> multi_learn_addr script m1 (mr_instance route) addr
                                          (MULTI_ROUTE_CACHE OR MULTI_ROUTE_AGEABLE);
                              Some (Some (mr_instance route), m2) }
                    else cidr_loop script m1 addr ns }) }"

text \<open>\<^verbatim>\<open>route->last_reference = now\<close> on the route a lookup has just found.\<close>

definition touch_route :: "multi_context \<Rightarrow> mroute_addr \<Rightarrow> multi_context" where
  "touch_route m addr =
     m\<lparr>mc_vhash := set_head (mc_vhash m) (hash_bucket (mc_vhash m) (hash_value (mc_vhash m) addr))
        (\<lambda>e. e\<lparr>he_value := (he_value e)\<lparr>mr_last_reference := mc_now m\<rparr>\<rparr>)\<rparr>"

definition multi_get_instance_by_virtual_addr ::
  "(mroute_addr \<Rightarrow> bool) \<Rightarrow> multi_context \<Rightarrow> mroute_addr \<Rightarrow> bool \<Rightarrow> (nat option \<times> multi_context) option" where
  "multi_get_instance_by_virtual_addr script m addr cidr_routing =
     (if mroute_addr_equal addr (mc_local m) then Some (None, m)
      else case vlookup m addr of (route, m1) \<Rightarrow>
      do { hit \<leftarrow> (case route of None \<Rightarrow> Some False | Some r \<Rightarrow> multi_route_defined m1 r);
           (ret, m2) \<leftarrow>
             (if hit then Some (map_option mr_instance route, touch_route m1 addr)
              else if cidr_routing
              then cidr_loop script m1 addr
                     (take (n_net_len (mc_route_helper m1)) (net_len (mc_route_helper m1)))
              else Some (None, m1));
           (case ret of
              None \<Rightarrow> Some (None, m2)
            | Some i \<Rightarrow> do { x \<leftarrow> mc_inst m2 i; if mi_halt x then None else Some (Some i, m2) }) })"

section \<open>Internal routes\<close>

definition multi_learn_in_addr_t ::
  "(mroute_addr \<Rightarrow> bool) \<Rightarrow> multi_context \<Rightarrow> nat \<Rightarrow> u32 \<Rightarrow> int \<Rightarrow> bool \<Rightarrow> (nat option \<times> multi_context) option" where
  "multi_learn_in_addr_t script m mi a netbits primary =
     (case mroute_extract_openvpn_sockaddr mroute_addr_init (AF_INET (enc32 a) [0, 0]) False of
        (ok, addr0) \<Rightarrow>
        if \<not> ok then None
        else let addr = (if netbits \<ge> 0
                         then addr0\<lparr>ma_type := ma_type addr0 OR MR_WITH_NETBITS, ma_netbits := of_int netbits\<rparr>
                         else addr0) in
             do { (owner, m1) \<leftarrow> multi_learn_addr script m mi addr 0;
                  if \<not> primary \<and> \<not> netbits \<ge> 0 then None else Some (owner, m1) })"

definition multi_learn_in6_addr ::
  "(mroute_addr \<Rightarrow> bool) \<Rightarrow> multi_context \<Rightarrow> nat \<Rightarrow> byte list \<Rightarrow> int \<Rightarrow> bool \<Rightarrow> (nat option \<times> multi_context) option" where
  "multi_learn_in6_addr script m mi a6 netbits primary =
     (let addr0 = mroute_addr_init\<lparr>ma_len := 16, ma_type := MR_ADDR_IPV6, ma_netbits := 0,
                    ma_raw := mem_put (ma_raw mroute_addr_init) 0 a6\<rparr> in
      do { addr \<leftarrow> (if netbits \<ge> 0
                    then mroute_addr_mask_host_bits
                           (addr0\<lparr>ma_type := ma_type addr0 OR MR_WITH_NETBITS, ma_netbits := of_int netbits\<rparr>)
                    else Some addr0);
           (owner, m1) \<leftarrow> multi_learn_addr script m mi addr 0;
           if \<not> primary \<and> \<not> netbits \<ge> 0 then None else Some (owner, m1) })"

definition helper_add :: "multi_context \<Rightarrow> int \<Rightarrow> multi_context option" where
  "helper_add m netbits =
     map_option (\<lambda>mh. m\<lparr>mc_route_helper := mh\<rparr>) (mroute_helper_add_iroute46 (mc_route_helper m) netbits)"

definition helper_del :: "multi_context \<Rightarrow> int \<Rightarrow> multi_context option" where
  "helper_del m netbits =
     map_option (\<lambda>mh. m\<lparr>mc_route_helper := mh\<rparr>) (mroute_helper_del_iroute46 (mc_route_helper m) netbits)"

fun add_iroutes_v4 ::
  "(mroute_addr \<Rightarrow> bool) \<Rightarrow> multi_context \<Rightarrow> nat \<Rightarrow> iroute list \<Rightarrow> multi_context option" where
  "add_iroutes_v4 script m mi [] = Some m"
| "add_iroutes_v4 script m mi (ir # irs) =
     do { m1 \<leftarrow> helper_add m (ir_netbits ir);
          (_, m2) \<leftarrow> multi_learn_in_addr_t script m1 mi (ir_network ir) (ir_netbits ir) False;
          add_iroutes_v4 script m2 mi irs }"

fun add_iroutes_v6 ::
  "(mroute_addr \<Rightarrow> bool) \<Rightarrow> multi_context \<Rightarrow> nat \<Rightarrow> iroute_ipv6 list \<Rightarrow> multi_context option" where
  "add_iroutes_v6 script m mi [] = Some m"
| "add_iroutes_v6 script m mi (ir # irs) =
     do { m1 \<leftarrow> helper_add m (sint (ir6_netbits ir));
          (_, m2) \<leftarrow> multi_learn_in6_addr script m1 mi (ir6_network ir) (sint (ir6_netbits ir)) False;
          add_iroutes_v6 script m2 mi irs }"

definition multi_add_iroutes ::
  "(mroute_addr \<Rightarrow> bool) \<Rightarrow> multi_context \<Rightarrow> nat \<Rightarrow> multi_context option" where
  "multi_add_iroutes script m mi =
     (if mc_dev_type m = DEV_TYPE_TUN
      then do { x \<leftarrow> mc_inst m mi;
                m1 \<leftarrow> upd_inst m mi (\<lambda>x. x\<lparr>mi_did_iroutes := True\<rparr>);
                m2 \<leftarrow> add_iroutes_v4 script m1 mi (mi_iroutes x);
                add_iroutes_v6 script m2 mi (mi_iroutes_ipv6 x) }
      else Some m)"

fun helper_del_list :: "multi_context \<Rightarrow> int list \<Rightarrow> multi_context option" where
  "helper_del_list m [] = Some m"
| "helper_del_list m (n # ns) = do { m1 \<leftarrow> helper_del m n; helper_del_list m1 ns }"

definition iroute_lens :: "multi_instance \<Rightarrow> int list" where
  "iroute_lens x = map ir_netbits (mi_iroutes x) @ map (\<lambda>r. sint (ir6_netbits r)) (mi_iroutes_ipv6 x)"

definition multi_del_iroutes :: "multi_context \<Rightarrow> nat \<Rightarrow> multi_context option" where
  "multi_del_iroutes m mi =
     (if mc_dev_type m = DEV_TYPE_TUN
      then do { x \<leftarrow> mc_inst m mi; helper_del_list m (iroute_lens x) }
      else Some m)"

text \<open>The routing part of the life of an instance.\<close>

definition multi_create_instance :: "multi_context \<Rightarrow> nat \<Rightarrow> int \<Rightarrow> multi_context option" where
  "multi_create_instance m i max_routes =
     multi_instance_inc_refcount
       (m\<lparr>mc_inst := (mc_inst m)(i \<mapsto>
          \<lparr>mi_halt = False, mi_refcount = 0, mi_route_count = 0, max_routes_per_client = max_routes,
           mi_did_iroutes = False, mi_iroutes = [], mi_iroutes_ipv6 = []\<rparr>)\<rparr>) i"

definition multi_close_instance :: "multi_context \<Rightarrow> nat \<Rightarrow> bool \<Rightarrow> multi_context option" where
  "multi_close_instance m mi shutdown =
     do { x \<leftarrow> mc_inst m mi;
          if mi_halt x then None
          else do { m1 \<leftarrow> upd_inst m mi (\<lambda>x. x\<lparr>mi_halt := True\<rparr>);
                    m2 \<leftarrow> (if \<not> shutdown \<and> mi_did_iroutes x
                           then do { m2 \<leftarrow> multi_del_iroutes m1 mi;
                                     upd_inst m2 mi (\<lambda>x. x\<lparr>mi_did_iroutes := False\<rparr>) }
                           else Some m1);
                    multi_instance_dec_refcount m2 mi } }"

section \<open>Ageing\<close>

definition reap_body :: "multi_context \<Rightarrow> (mroute_addr, multi_route) hash_element \<Rightarrow> (bool \<times> multi_context) option" where
  "reap_body m he =
     do { d \<leftarrow> multi_route_defined m (he_value he);
          if \<not> d then do { m1 \<leftarrow> multi_route_del m (he_value he); Some (True, m1) }
          else Some (False, m) }"

definition stale_body :: "multi_context \<Rightarrow> (mroute_addr, multi_route) hash_element \<Rightarrow> (bool \<times> multi_context) option" where
  "stale_body m he =
     do { d \<leftarrow> multi_route_defined m (he_value he);
          if d \<and> mc_now m - mr_last_reference (he_value he) \<ge> mc_stale_routes_ageing_time m
          then do { m1 \<leftarrow> multi_route_del m (he_value he); Some (True, m1) }
          else Some (False, m) }"

definition sweep_routes ::
  "(multi_context \<Rightarrow> (mroute_addr, multi_route) hash_element \<Rightarrow> (bool \<times> multi_context) option) \<Rightarrow>
   multi_context \<Rightarrow> int \<Rightarrow> int \<Rightarrow> multi_context option" where
  "sweep_routes body m start_bucket end_bucket =
     do { hi \<leftarrow> hash_iterator_init_range (mc_vhash m) start_bucket end_bucket;
          (h, m1) \<leftarrow> hash_sweep (sweep_fuel (mc_vhash m)) body (mc_vhash m) hi m;
          Some (m1\<lparr>mc_vhash := h\<rparr>) }"

definition multi_reap_range :: "multi_context \<Rightarrow> int \<Rightarrow> int \<Rightarrow> multi_context option" where
  "multi_reap_range m start_bucket end_bucket =
     (if start_bucket < 0 then sweep_routes reap_body m 0 (hash_n_buckets (mc_vhash m))
      else sweep_routes reap_body m start_bucket end_bucket)"

definition multi_reap_all :: "multi_context \<Rightarrow> multi_context option" where
  "multi_reap_all m = multi_reap_range m (- 1) 0"

definition check_stale_routes :: "multi_context \<Rightarrow> multi_context option" where
  "check_stale_routes m = sweep_routes stale_body m 0 (hash_n_buckets (mc_vhash m))"

definition REAP_DIVISOR :: int where "REAP_DIVISOR = 256"
definition REAP_MIN :: int where "REAP_MIN = 16"
definition REAP_MAX :: int where "REAP_MAX = 1024"

definition reap_buckets_per_pass :: "int \<Rightarrow> int" where
  "reap_buckets_per_pass n = constrain_int (n div REAP_DIVISOR) REAP_MIN REAP_MAX"

definition multi_reap_new :: "int \<Rightarrow> int \<Rightarrow> multi_reap" where
  "multi_reap_new per_pass now = \<lparr>bucket_base = 0, buckets_per_pass = per_pass, last_call = now\<rparr>"

definition multi_reap_process_dowork :: "multi_context \<Rightarrow> multi_context option" where
  "multi_reap_process_dowork m =
     (let mr = mc_reaper m;
          mr1 = (if bucket_base mr \<ge> hash_n_buckets (mc_vhash m) then mr\<lparr>bucket_base := 0\<rparr> else mr) in
      do { m1 \<leftarrow> multi_reap_range m (bucket_base mr1) (bucket_base mr1 + buckets_per_pass mr1);
           Some (m1\<lparr>mc_reaper := mr1\<lparr>bucket_base := bucket_base mr1 + buckets_per_pass mr1,
                                      last_call := mc_now m\<rparr>\<rparr>) })"

definition multi_reap_process :: "multi_context \<Rightarrow> multi_context option" where
  "multi_reap_process m =
     (if last_call (mc_reaper m) \<noteq> mc_now m then multi_reap_process_dowork m else Some m)"

section \<open>The routing decision for a packet\<close>

text \<open>
  What becomes of a packet: it is dropped, goes to one client or to all of them, and
  \<open>to_tun\<close> says whether it is (also) handed to the server's own interface.
\<close>

datatype forward = Nowhere | Unicast nat | Broadcast

record verdict =
  vd_forward :: forward
  vd_to_tun :: bool

definition drop_packet :: verdict where
  "drop_packet = \<lparr>vd_forward = Nowhere, vd_to_tun = False\<rparr>"

text \<open>\<^verbatim>\<open>multi_process_incoming_link\<close> for a decrypted packet of client \<open>pending\<close> in TUN mode.\<close>

definition incoming_link_tun ::
  "(mroute_addr \<Rightarrow> bool) \<Rightarrow> multi_context \<Rightarrow> nat \<Rightarrow> mroute_addr \<Rightarrow> mroute_addr \<Rightarrow> buffer \<Rightarrow>
   (verdict \<times> multi_context) option" where
  "incoming_link_tun script m pending src0 dest0 to_tun =
     (case mroute_extract_addr_from_packet src0 dest0 0 to_tun DEV_TYPE_TUN of (fl, src, dest) \<Rightarrow>
      if fl AND MROUTE_EXTRACT_SUCCEEDED = 0 then Some (drop_packet, m)
      else do { (owner, m1) \<leftarrow> multi_get_instance_by_virtual_addr script m src True;
                if owner \<noteq> Some pending then Some (drop_packet, m1)
                else if mc_enable_c2c m1 then
                  if fl AND MROUTE_EXTRACT_MCAST \<noteq> 0
                  then Some (\<lparr>vd_forward = Broadcast, vd_to_tun = True\<rparr>, m1)
                  else if fl AND MROUTE_EXTRACT_BCAST \<noteq> 0 then None
                  else do { (mi, m2) \<leftarrow> multi_get_instance_by_virtual_addr script m1 dest True;
                            Some (case mi of
                                    Some i \<Rightarrow> \<lparr>vd_forward = Unicast i, vd_to_tun = False\<rparr>
                                  | None \<Rightarrow> \<lparr>vd_forward = Nowhere, vd_to_tun = True\<rparr>, m2) }
                else Some (\<lparr>vd_forward = Nowhere, vd_to_tun = True\<rparr>, m1) })"

text \<open>\<^verbatim>\<open>multi_process_incoming_tun\<close> for a packet from the server's own interface.\<close>

definition incoming_tun ::
  "(mroute_addr \<Rightarrow> bool) \<Rightarrow> multi_context \<Rightarrow> mroute_addr \<Rightarrow> mroute_addr \<Rightarrow> u16 \<Rightarrow> buffer \<Rightarrow>
   (forward \<times> multi_context) option" where
  "incoming_tun script m src0 dest0 vid b =
     (case mroute_extract_addr_from_packet src0 dest0 vid b (mc_dev_type m) of (fl, src, dest) \<Rightarrow>
      if fl AND MROUTE_EXTRACT_SUCCEEDED = 0 then Some (Nowhere, m)
      else if fl AND (MROUTE_EXTRACT_BCAST OR MROUTE_EXTRACT_MCAST) \<noteq> 0 then Some (Broadcast, m)
      else do { (mi, m1) \<leftarrow> multi_get_instance_by_virtual_addr script m dest (mc_dev_type m = DEV_TYPE_TUN);
                Some (case mi of Some i \<Rightarrow> Unicast i | None \<Rightarrow> Nowhere, m1) })"

end
