(* ===== verification/Multi_Route_Inv.thy ===== *)
theory Multi_Route_Inv
  imports Multi_Route
begin

text \<open>
  The server's routing table never refers to a freed instance: every route is counted in its
  instance's \<^verbatim>\<open>route_count\<close> and holds one of its references. First what the operations of the
  hash table do to the elements of the table, then the books of the instances, then each
  operation of \<open>Multi_Route\<close>.
\<close>

unbundle bit_operations_syntax

section \<open>The elements of a table\<close>

definition helems :: "('k, 'v) hash \<Rightarrow> ('k, 'v) hash_element list" where
  "helems h = concat (buckets h)"

definition hcount :: "(('k, 'v) hash_element \<Rightarrow> bool) \<Rightarrow> ('k, 'v) hash \<Rightarrow> nat" where
  "hcount P h = length (filter P (helems h))"

lemma helems_iff: "e \<in> set (helems h) \<longleftrightarrow> (\<exists>i < length (buckets h). e \<in> set (buckets h ! i))"
  by (force simp: helems_def in_set_conv_nth)

lemma length_filter_concat:
  "length (filter P (concat bs)) = sum_list (map (\<lambda>b. length (filter P b)) bs)"
  by (induction bs) simp_all

lemma hcount_set_bucket:
  assumes "i < length (buckets h)"
  shows "hcount P ((set_bucket h i b)\<lparr>n_elements := n\<rparr>) + length (filter P (buckets h ! i)) =
    hcount P h + length (filter P b)"
proof -
  have "sum_list (map (\<lambda>b. length (filter P b)) (bs[i := b])) + length (filter P (bs ! i)) =
      sum_list (map (\<lambda>b. length (filter P b)) bs) + length (filter P b)" if "i < length bs" for bs
    using that
  proof (induction bs arbitrary: i)
    case (Cons a bs)
    then show ?case by (cases i) auto
  qed simp
  from this[OF assms] show ?thesis
    by (simp add: hcount_def helems_def length_filter_concat)
qed

lemma helems_set_bucket:
  assumes "i < length (buckets h)"
  shows "set (helems ((set_bucket h i b)\<lparr>n_elements := n\<rparr>)) =
    (\<Union>j \<in> {..<length (buckets h)} - {i}. set (buckets h ! j)) \<union> set b"
proof -
  have "e \<in> set (helems ((set_bucket h i b)\<lparr>n_elements := n\<rparr>)) \<longleftrightarrow>
      (\<exists>j < length (buckets h). e \<in> set ((buckets h)[i := b] ! j))" for e
    by (simp add: helems_iff)
  then show ?thesis using assms by (auto simp: nth_list_update split: if_splits)
qed

lemma helems_split:
  assumes i: "i < length (buckets h)"
  shows "set (helems h) = (\<Union>j \<in> {..<length (buckets h)} - {i}. set (buckets h ! j)) \<union> set (buckets h ! i)"
proof -
  have "helems h = helems ((set_bucket h i (buckets h ! i))\<lparr>n_elements := n_elements h\<rparr>)"
    by (simp add: helems_def set_bucket_def)
  then show ?thesis by (simp only: helems_set_bucket[OF i])
qed

lemma hash_abs_elem:
  assumes h: "hash_wf h" and a: "hash_abs h k = Some v"
  shows "\<exists>e \<in> set (helems h). he_value e = v \<and> compare_function h k (the (he_key e))"
proof -
  let ?i = "hash_bucket h (hash_value h k)"
  have i: "?i < length (buckets h)" using hash_bucket_less hash_wfD(2)[OF h] by blast
  obtain e where e: "find_match h k (buckets h ! ?i) = Some e" "he_value e = v"
    using a by (auto simp: hash_abs_def)
  then have m: "he_match h k (hash_value h k) e" "e \<in> set (buckets h ! ?i)"
    by (auto simp: find_match_def find_Some_iff in_set_conv_nth)
  moreover have "elem_ok h ?i e" using hash_wfD(3)[OF h i] m(2) by (auto simp: bucket_ok_def list_all_iff)
  moreover have "e \<in> set (helems h)" using i m(2) by (auto simp: helems_iff)
  ultimately show ?thesis
    using he_match_elem[OF hash_wfD(1)[OF h]] e(2) by blast
qed

lemma elem_hash_abs:
  assumes h: "hash_wf h" and e: "e \<in> set (helems h)"
  shows "he_key e \<noteq> None" "hash_abs h (the (he_key e)) = Some (he_value e)"
proof -
  obtain i where i: "i < length (buckets h)" "e \<in> set (buckets h ! i)" using e by (auto simp: helems_iff)
  have b: "bucket_ok h i (buckets h ! i)" using hash_wfD(3)[OF h i(1)] .
  have c: "key_contract h" using hash_wfD(1)[OF h] .
  have eo: "elem_ok h i e" using b i(2) by (auto simp: bucket_ok_def list_all_iff)
  then show k: "he_key e \<noteq> None" by (auto simp: elem_ok_def split: option.splits)
  then obtain k where k: "he_key e = Some k" by auto
  have hb: "hash_bucket h (hash_value h k) = i" using eo k by (auto simp: elem_ok_def)
  have m: "he_match h k (hash_value h k) e"
    using he_match_elem[OF c eo] key_contractD(1)[OF c] k by simp
  obtain pre post where sp: "buckets h ! i = pre @ e # post" using i(2) by (meson split_list)
  have "bucket_ok h i (e # pre @ post)" using bucket_ok_append[OF c] b sp by metis
  then have "find_match h k (e # pre @ post) = Some e" using m by (simp add: find_match_def)
  then have "find_match h k (buckets h ! i) = Some e"
    using find_match_front[OF c] b sp by metis
  then show "hash_abs h (the (he_key e)) = Some (he_value e)"
    by (simp add: hash_abs_def k hb)
qed

text \<open>A search permutes one bucket.\<close>

lemma hash_lookup_fast_elems:
  assumes h: "hash_wf h" and l: "hash_lookup_fast h (hash_bucket h (hash_value h k)) k (hash_value h k) = (r, h')"
  shows "hcount P h' = hcount P h" "set (helems h') = set (helems h)"
    "r = Some he \<Longrightarrow> he \<in> set (helems h)"
proof -
  let ?i = "hash_bucket h (hash_value h k)"
  have i: "?i < length (buckets h)" using hash_bucket_less hash_wfD(2)[OF h] by blast
  have "hcount P h' = hcount P h \<and> set (helems h') = set (helems h) \<and> (r = Some he \<longrightarrow> he \<in> set (helems h))"
  proof (cases "bucket_split (he_match h k (hash_value h k)) (buckets h ! ?i)")
    case None
    then show ?thesis using l by (simp add: hash_lookup_fast_def)
  next
    case (Some t)
    obtain pre x post where t: "t = (pre, x, post)" by (cases t)
    note s = bucket_split_Some[OF Some[unfolded t]]
    have h': "h' = (set_bucket h ?i (x # pre @ post))\<lparr>n_elements := n_elements h\<rparr>" and r: "r = Some x"
      using l Some t by (auto simp: hash_lookup_fast_def set_bucket_def)
    have "hcount P h' = hcount P h"
      using hcount_set_bucket[OF i, where P = P and b = "x # pre @ post" and n = "n_elements h"] s unfolding h'
      by (simp split: if_splits)
    moreover have "set (helems h') = set (helems h)"
      using s unfolding h' helems_split[OF i] helems_set_bucket[OF i] by auto
    moreover have "x \<in> set (helems h)" using s i by (auto simp: helems_iff)
    ultimately show ?thesis using r by auto
  qed
  then show "hcount P h' = hcount P h" "set (helems h') = set (helems h)"
    "r = Some he \<Longrightarrow> he \<in> set (helems h)" by auto
qed

lemma hash_lookup_elems:
  assumes "hash_wf h"
  shows "hcount P (snd (hash_lookup h k)) = hcount P h" "set (helems (snd (hash_lookup h k))) = set (helems h)"
proof -
  obtain r h' where l: "hash_lookup_fast h (hash_bucket h (hash_value h k)) k (hash_value h k) = (r, h')"
    by fastforce
  then have "snd (hash_lookup h k) = h'" by (simp add: hash_lookup_def Let_def)
  with hash_lookup_fast_elems[OF assms l] show "hcount P (snd (hash_lookup h k)) = hcount P h"
    "set (helems (snd (hash_lookup h k))) = set (helems h)" by simp_all
qed

lemma hash_add_fast_elems:
  fixes h :: "('k, 'v) hash" and k :: 'k
  assumes h: "hash_wf h"
  defines "i \<equiv> hash_bucket h (hash_value h k)"
  shows "hcount P (hash_add_fast h i k hv v) =
      hcount P h + (if P \<lparr>he_value = v, he_key = Some k, he_hash = hv\<rparr> then 1 else 0)"
    "set (helems (hash_add_fast h i k hv v)) =
      insert \<lparr>he_value = v, he_key = Some k, he_hash = hv\<rparr> (set (helems h))"
proof -
  have i: "i < length (buckets h)" using hash_bucket_less hash_wfD(2)[OF h] by (auto simp: i_def)
  let ?b = "\<lparr>he_value = v, he_key = Some k, he_hash = hv\<rparr> # buckets h ! i"
  show "hcount P (hash_add_fast h i k hv v) =
      hcount P h + (if P \<lparr>he_value = v, he_key = Some k, he_hash = hv\<rparr> then 1 else 0)"
    using hcount_set_bucket[OF i, where P = P and b = ?b and n = "n_elements h + 1"] by (simp add: hash_add_fast_def split: if_splits)
  show "set (helems (hash_add_fast h i k hv v)) =
      insert \<lparr>he_value = v, he_key = Some k, he_hash = hv\<rparr> (set (helems h))"
    by (simp add: hash_add_fast_def helems_set_bucket[OF i] helems_split[OF i])
qed

lemma set_head_elems:
  assumes i: "i < length (buckets h)" and b: "buckets h ! i = he # es"
  shows "hcount P (set_head h i f) + (if P he then 1 else 0) = hcount P h + (if P (f he) then 1 else 0)"
    "set (helems (set_head h i f)) \<subseteq> insert (f he) (set (helems h))"
    "f he \<in> set (helems (set_head h i f))"
proof -
  have n: "set_head h i f = (set_bucket h i (f he # es))\<lparr>n_elements := n_elements h\<rparr>"
    by (simp add: set_head_def set_bucket_def b)
  show "hcount P (set_head h i f) + (if P he then 1 else 0) = hcount P h + (if P (f he) then 1 else 0)"
    using hcount_set_bucket[OF i, where P = P and b = "f he # es" and n = "n_elements h"] b unfolding n by (simp split: if_splits)
  show "set (helems (set_head h i f)) \<subseteq> insert (f he) (set (helems h))"
  proof -
    have "set es \<subseteq> set (buckets h ! i)" using b by auto
    then show ?thesis using i unfolding n helems_set_bucket[OF i] by (fastforce simp: helems_iff)
  qed
  show "f he \<in> set (helems (set_head h i f))"
    unfolding n helems_set_bucket[OF i] by simp
qed

lemma swept_elems:
  assumes "s \<le> e" "e \<le> length (buckets h)"
  shows "set (helems (swept P s e h)) \<subseteq> set (helems h)"
    "hcount Q (swept P s e h) + length (filter Q (filter P (concat (drop s (take e (buckets h)))))) = hcount Q h"
proof -
  let ?M = "drop s (take e (buckets h))"
  have h: "helems h = concat (take s (buckets h)) @ concat ?M @ concat (drop e (buckets h))"
    using arg_cong[OF slices[OF assms], of concat] by (simp add: helems_def)
  have s: "helems (swept P s e h) =
      concat (take s (buckets h)) @ filter (\<lambda>x. \<not> P x) (concat ?M) @ concat (drop e (buckets h))"
    by (simp add: helems_def swept_def filter_concat)
  show "set (helems (swept P s e h)) \<subseteq> set (helems h)" unfolding h s by auto
  have "length (filter Q (filter (\<lambda>x. \<not> P x) xs)) + length (filter Q (filter P xs)) = length (filter Q xs)" for xs
    by (induction xs) auto
  then show "hcount Q (swept P s e h) + length (filter Q (filter P (concat ?M))) = hcount Q h"
    unfolding hcount_def h s by (simp add: add.assoc)
qed

section \<open>The books\<close>

text \<open>
  \<open>books c inst\<close>: instance \<open>i\<close> owns \<open>c i\<close> routes, which its two counters record; it is there as
  long as it is open or owns a route; and it owns no more than its quota.
\<close>

definition books :: "(nat \<Rightarrow> nat) \<Rightarrow> (nat \<Rightarrow> multi_instance option) \<Rightarrow> bool" where
  "books c inst \<longleftrightarrow>
     (\<forall>i. case inst i of
            None \<Rightarrow> c i = 0
          | Some x \<Rightarrow> mi_route_count x = int (c i) \<and>
              mi_refcount x = int (c i) + (if mi_halt x then 0 else 1) \<and> mi_refcount x > 0 \<and>
              mi_route_count x \<le> max 0 (max_routes_per_client x))"

text \<open>How an operation may change the instances: counters, and the end of a closed one.\<close>

definition static :: "multi_instance \<Rightarrow> multi_instance" where
  "static x = x\<lparr>mi_refcount := 0, mi_route_count := 0\<rparr>"

definition evolves :: "(nat \<Rightarrow> multi_instance option) \<Rightarrow> (nat \<Rightarrow> multi_instance option) \<Rightarrow> bool" where
  "evolves I J \<longleftrightarrow>
     (\<forall>i. case J i of
            None \<Rightarrow> (case I i of None \<Rightarrow> True | Some x \<Rightarrow> mi_halt x)
          | Some y \<Rightarrow> (case I i of None \<Rightarrow> False | Some x \<Rightarrow> static y = static x))"

lemma evolves_refl [simp]: "evolves I I"
  by (auto simp: evolves_def split: option.split)

lemma static_fields:
  "static x = static y \<longleftrightarrow> mi_halt x = mi_halt y \<and> max_routes_per_client x = max_routes_per_client y \<and>
     mi_did_iroutes x = mi_did_iroutes y \<and> mi_iroutes x = mi_iroutes y \<and> mi_iroutes_ipv6 x = mi_iroutes_ipv6 y"
  by (cases x; cases y) (auto simp: static_def)

lemma evolvesD:
  assumes "evolves I J"
  shows "J i = Some y \<Longrightarrow> \<exists>x. I i = Some x \<and> static y = static x"
    "I i = Some x \<Longrightarrow> \<not> mi_halt x \<Longrightarrow> \<exists>y. J i = Some y \<and> static y = static x"
    "I i = None \<Longrightarrow> J i = None"
    "J i = None \<Longrightarrow> I i = Some x \<Longrightarrow> mi_halt x"
  using assms[unfolded evolves_def, rule_format, of i] by (auto split: option.splits)

lemma evolves_trans:
  assumes "evolves I J" "evolves J K"
  shows "evolves I K"
  unfolding evolves_def
proof
  fix i
  show "case K i of None \<Rightarrow> (case I i of None \<Rightarrow> True | Some x \<Rightarrow> mi_halt x)
    | Some y \<Rightarrow> (case I i of None \<Rightarrow> False | Some x \<Rightarrow> static y = static x)"
    using assms(1)[unfolded evolves_def, rule_format, of i] assms(2)[unfolded evolves_def, rule_format, of i]
    by (cases "I i"; cases "J i"; cases "K i"; simp add: static_fields)
qed

lemma booksD:
  assumes "books c inst"
  shows "inst i = None \<Longrightarrow> c i = 0"
    "inst i = Some x \<Longrightarrow> mi_route_count x = int (c i)"
    "inst i = Some x \<Longrightarrow> mi_refcount x = int (c i) + (if mi_halt x then 0 else 1)"
    "inst i = Some x \<Longrightarrow> mi_refcount x > 0"
    "inst i = Some x \<Longrightarrow> mi_route_count x \<le> max 0 (max_routes_per_client x)"
  using assms[unfolded books_def, rule_format, of i] by simp_all

lemma books_live: "books c inst \<Longrightarrow> c i > 0 \<Longrightarrow> \<exists>x. inst i = Some x"
  using booksD(1)[of c inst i] by (cases "inst i") auto

lemma books_update:
  assumes b: "books c inst" and x: "inst i = Some x"
    and y: "mi_route_count y = int n" "mi_refcount y = int n + (if mi_halt y then 0 else 1)"
      "mi_refcount y > 0" "mi_route_count y \<le> max 0 (max_routes_per_client y)"
  shows "books (c(i := n)) (inst(i \<mapsto> y))"
  unfolding books_def
proof
  fix j
  show "case (inst(i \<mapsto> y)) j of None \<Rightarrow> (c(i := n)) j = 0
    | Some x \<Rightarrow> mi_route_count x = int ((c(i := n)) j) \<and>
        mi_refcount x = int ((c(i := n)) j) + (if mi_halt x then 0 else 1) \<and> mi_refcount x > 0 \<and>
        mi_route_count x \<le> max 0 (max_routes_per_client x)"
    using y booksD[OF b, of j] by (cases "j = i") (auto split: option.split)
qed

lemma books_drop:
  assumes b: "books c inst"
  shows "books (c(i := 0)) (inst(i := None))"
  unfolding books_def
proof
  fix j
  show "case (inst(i := None)) j of None \<Rightarrow> (c(i := 0)) j = 0
    | Some x \<Rightarrow> mi_route_count x = int ((c(i := 0)) j) \<and>
        mi_refcount x = int ((c(i := 0)) j) + (if mi_halt x then 0 else 1) \<and> mi_refcount x > 0 \<and>
        mi_route_count x \<le> max 0 (max_routes_per_client x)"
    using booksD[OF b, of j] by (cases "j = i") (auto split: option.split)
qed

text \<open>A new route for an open instance below its quota.\<close>

lemma acquire_route:
  assumes b: "books c (mc_inst m)" and x: "mc_inst m i = Some x" and o: "\<not> mi_halt x"
    and q: "route_quota_test m i = Some True"
  shows "\<exists>m1 m2. multi_instance_inc_refcount m i = Some m1 \<and> route_quota_inc m1 i = Some m2 \<and>
    books (c(i := c i + 1)) (mc_inst m2) \<and> evolves (mc_inst m) (mc_inst m2) \<and>
    m2 = m\<lparr>mc_inst := mc_inst m2\<rparr>"
proof -
  let ?y = "x\<lparr>mi_refcount := mi_refcount x + 1, mi_route_count := mi_route_count x + 1\<rparr>"
  have "mi_route_count x < max_routes_per_client x"
    using q x by (auto simp: route_quota_test_def split: if_splits)
  then have bk: "books (c(i := c i + 1)) ((mc_inst m)(i \<mapsto> ?y))"
    using booksD[OF b, of i] x o by (intro books_update[OF b x]) auto
  have "evolves (mc_inst m) ((mc_inst m)(i \<mapsto> ?y))"
    using x by (auto simp: evolves_def static_def split: option.split)
  then show ?thesis using bk x
    by (simp add: multi_instance_inc_refcount_def route_quota_inc_def upd_inst_def)
qed

text \<open>A route less.\<close>

lemma release_route:
  assumes b: "books c (mc_inst m)" and r: "c (mr_instance r) > 0"
  shows "\<exists>m'. multi_route_del m r = Some m' \<and>
    books (c(mr_instance r := c (mr_instance r) - 1)) (mc_inst m') \<and>
    evolves (mc_inst m) (mc_inst m') \<and> m' = m\<lparr>mc_inst := mc_inst m'\<rparr>"
proof -
  let ?i = "mr_instance r"
  obtain x where x: "mc_inst m ?i = Some x" using books_live[OF b r] by blast
  let ?y = "x\<lparr>mi_route_count := mi_route_count x - 1, mi_refcount := mi_refcount x - 1\<rparr>"
  note bx = booksD(2-5)[OF b x]
  show ?thesis
  proof (cases "mi_refcount x \<le> 1")
    case True
    then have one: "c ?i = 1" and h: "mi_halt x" using bx r by (auto split: if_splits)
    have "multi_route_del m r = Some (m\<lparr>mc_inst := (mc_inst m)(?i := None)\<rparr>)"
      using x True
      by (simp add: multi_route_del_def route_quota_dec_def multi_instance_dec_refcount_def upd_inst_def)
    moreover have "books (c(?i := c ?i - 1)) ((mc_inst m)(?i := None))"
      using books_drop[OF b, of ?i] one by simp
    moreover have "evolves (mc_inst m) ((mc_inst m)(?i := None))"
      using x h by (auto simp: evolves_def split: option.split)
    ultimately show ?thesis by simp
  next
    case False
    have "multi_route_del m r = Some (m\<lparr>mc_inst := (mc_inst m)(?i \<mapsto> ?y)\<rparr>)"
      using x False
      by (simp add: multi_route_del_def route_quota_dec_def multi_instance_dec_refcount_def upd_inst_def)
    moreover have "books (c(?i := c ?i - 1)) ((mc_inst m)(?i \<mapsto> ?y))"
      using bx r False by (intro books_update[OF b x]) (auto split: if_splits)
    moreover have "evolves (mc_inst m) ((mc_inst m)(?i \<mapsto> ?y))"
      using x by (auto simp: evolves_def static_def split: option.split)
    ultimately show ?thesis by simp
  qed
qed

section \<open>Learning a route\<close>

definition owned :: "(mroute_addr, multi_route) hash \<Rightarrow> nat \<Rightarrow> nat" where
  "owned h i = hcount (\<lambda>e. mr_instance (he_value e) = i) h"

definition keys_ok :: "(mroute_addr, multi_route) hash \<Rightarrow> bool" where
  "keys_ok h \<longleftrightarrow> (\<forall>e \<in> set (helems h). he_key e = Some (mr_addr (he_value e)))"

definition routing_ok :: "multi_context \<Rightarrow> bool" where
  "routing_ok m \<longleftrightarrow>
     table_of mroute_addr_equal (mc_vhash m) \<and> keys_ok (mc_vhash m) \<and>
     books (owned (mc_vhash m)) (mc_inst m)"

lemma routing_okD:
  assumes "routing_ok m"
  shows "hash_wf (mc_vhash m)" "compare_function (mc_vhash m) = mroute_addr_equal"
    "keys_ok (mc_vhash m)" "books (owned (mc_vhash m)) (mc_inst m)"
  using assms by (simp_all add: routing_ok_def table_of_def)

text \<open>Operations change the table and the instances; the rest of the context is kept.\<close>

definition same_rest :: "multi_context \<Rightarrow> multi_context \<Rightarrow> bool" where
  "same_rest m m' \<longleftrightarrow> m' = m\<lparr>mc_vhash := mc_vhash m', mc_inst := mc_inst m'\<rparr>"

lemma same_rest_refl [simp]: "same_rest m m"
  by (simp add: same_rest_def)

lemma same_rest_fields:
  assumes "same_rest m m'"
  shows "mc_route_helper m' = mc_route_helper m" "mc_local m' = mc_local m" "mc_now m' = mc_now m"
    "mc_dev_type m' = mc_dev_type m" "mc_stale_routes_ageing_time m' = mc_stale_routes_ageing_time m"
    "mc_reaper m' = mc_reaper m" "mc_enable_c2c m' = mc_enable_c2c m"
  by (subst assms[unfolded same_rest_def], simp)+

lemma same_rest_trans: "same_rest m m' \<Longrightarrow> same_rest m' m'' \<Longrightarrow> same_rest m m''"
  unfolding same_rest_def by (cases m; cases m'; cases m'') auto

lemma same_rest_upd [simp]:
  "same_rest m (m\<lparr>mc_vhash := h\<rparr>)" "same_rest m (m\<lparr>mc_inst := I\<rparr>)"
  "same_rest m (m\<lparr>mc_inst := I, mc_vhash := h\<rparr>)" "same_rest m (m\<lparr>mc_vhash := h, mc_inst := I\<rparr>)"
  by (simp_all add: same_rest_def)

text \<open>A route that counts, and the owner of an address in the table.\<close>

definition live :: "multi_context \<Rightarrow> multi_route \<Rightarrow> bool" where
  "live m r \<longleftrightarrow> multi_route_defined m r = Some True"

definition table_owner :: "multi_context \<Rightarrow> mroute_addr \<Rightarrow> nat option" where
  "table_owner m a =
     (case hash_abs (mc_vhash m) a of
        None \<Rightarrow> None
      | Some r \<Rightarrow> if live m r then Some (mr_instance r) else None)"

lemma route_owned: "e \<in> set (helems h) \<Longrightarrow> owned h (mr_instance (he_value e)) > 0"
  by (auto simp: owned_def hcount_def filter_empty_conv)

lemma route_inst:
  assumes "routing_ok m" "e \<in> set (helems (mc_vhash m))"
  shows "\<exists>x. mc_inst m (mr_instance (he_value e)) = Some x"
  using books_live[OF routing_okD(4)[OF assms(1)] route_owned[OF assms(2)]] .

lemma hash_abs_route:
  assumes m: "routing_ok m" and a: "hash_abs (mc_vhash m) k = Some r"
  shows "\<exists>e \<in> set (helems (mc_vhash m)). he_value e = r" "mroute_addr_equal k (mr_addr r)"
    "\<exists>x. mc_inst m (mr_instance r) = Some x"
proof -
  obtain e where e: "e \<in> set (helems (mc_vhash m))" "he_value e = r"
    "compare_function (mc_vhash m) k (the (he_key e))"
    using hash_abs_elem[OF routing_okD(1)[OF m] a] by blast
  moreover have "he_key e = Some (mr_addr (he_value e))"
    using routing_okD(3)[OF m] e(1) by (auto simp: keys_ok_def)
  ultimately show "\<exists>e \<in> set (helems (mc_vhash m)). he_value e = r" "mroute_addr_equal k (mr_addr r)"
    using routing_okD(2)[OF m] by auto
  show "\<exists>x. mc_inst m (mr_instance r) = Some x" using route_inst[OF m e(1)] e(2) by simp
qed

lemma defined_vhash [simp]:
  "multi_route_defined (m\<lparr>mc_vhash := h\<rparr>) r = multi_route_defined m r" "live (m\<lparr>mc_vhash := h\<rparr>) r = live m r"
  by (simp_all add: multi_route_defined_def live_def)

lemma route_defined_cong:
  assumes "mc_inst m' (mr_instance r) = Some y" "mc_inst m (mr_instance r) = Some x" "mi_halt y = mi_halt x"
    "mc_route_helper m' = mc_route_helper m" "mc_now m' = mc_now m"
  shows "multi_route_defined m' r = multi_route_defined m r"
  using assms by (simp add: multi_route_defined_def)

lemma multi_route_defined_Some:
  "mc_inst m (mr_instance r) = Some x \<Longrightarrow> multi_route_defined m r = Some (live m r)"
  by (auto simp: live_def multi_route_defined_def)

definition new_route :: "multi_context \<Rightarrow> nat \<Rightarrow> mroute_addr \<Rightarrow> u32 \<Rightarrow> multi_route" where
  "new_route m mi addr flags =
     \<lparr>mr_addr = addr, mr_instance = mi, mr_flags = flags,
      mr_cache_generation =
        (if flags AND MULTI_ROUTE_CACHE \<noteq> 0 then cache_generation (mc_route_helper m) else 0),
      mr_last_reference = mc_now m\<rparr>"

text \<open>A search on the table, in the terms of the context.\<close>

lemma find_route:
  assumes m: "routing_ok m" and l: "hash_lookup_fast (mc_vhash m)
      (hash_bucket (mc_vhash m) (hash_value (mc_vhash m) addr)) addr (hash_value (mc_vhash m) addr) = (he, h)"
  shows "routing_ok (m\<lparr>mc_vhash := h\<rparr>)" "hash_abs h = hash_abs (mc_vhash m)"
    "set (helems h) = set (helems (mc_vhash m))" "same_params (mc_vhash m) h"
    "hash_abs h addr = map_option he_value he"
    "he = Some e \<Longrightarrow> he_match h addr (hash_value h addr) e \<and> e \<in> set (helems h) \<and>
       (\<exists>es. buckets h ! hash_bucket h (hash_value h addr) = e # es)"
proof -
  note w = routing_okD[OF m]
  note el = hash_lookup_fast_elems[OF w(1) l]
  have c: "hash_wf h \<and> hash_abs h = hash_abs (mc_vhash m) \<and> same_params (mc_vhash m) h \<and>
    hash_abs h addr = map_option he_value he \<and>
    (he = Some e \<longrightarrow> he_match h addr (hash_value h addr) e \<and>
      (\<exists>es. buckets h ! hash_bucket h (hash_value h addr) = e # es))"
  proof (cases he)
    case None
    then show ?thesis using hash_lookup_fast_None[OF l[unfolded None]] w(1)
      by (simp add: same_params_def)
  next
    case (Some f)
    note s = hash_lookup_fast_Some[OF w(1) l[unfolded Some]]
    show ?thesis using s Some same_params_cong[OF s(3)] by auto
  qed
  then show "hash_abs h = hash_abs (mc_vhash m)" "set (helems h) = set (helems (mc_vhash m))"
    "same_params (mc_vhash m) h" "hash_abs h addr = map_option he_value he"
    "he = Some e \<Longrightarrow> he_match h addr (hash_value h addr) e \<and> e \<in> set (helems h) \<and>
       (\<exists>es. buckets h ! hash_bucket h (hash_value h addr) = e # es)"
    using el by auto
  have wf: "hash_wf h" using c by blast
  have "owned h = owned (mc_vhash m)" using el(1) by (simp add: owned_def fun_eq_iff)
  then show "routing_ok (m\<lparr>mc_vhash := h\<rparr>)"
    using w el(2) wf \<open>same_params (mc_vhash m) h\<close>
    by (simp add: routing_ok_def table_of_def keys_ok_def same_params_def)
qed

text \<open>The table after the new route has taken the place of an old one, or of none.\<close>

lemma put_route:
  assumes m: "routing_ok m" and a: "mr_addr nr = addr"
    and l: "hash_lookup_fast (mc_vhash m)
      (hash_bucket (mc_vhash m) (hash_value (mc_vhash m) addr)) addr (hash_value (mc_vhash m) addr) = (he, h)"
  defines "h' \<equiv> (case he of
      None \<Rightarrow> hash_add_fast h (hash_bucket (mc_vhash m) (hash_value (mc_vhash m) addr)) addr
                (hash_value (mc_vhash m) addr) nr
    | Some e \<Rightarrow> set_head h (hash_bucket (mc_vhash m) (hash_value (mc_vhash m) addr))
                (\<lambda>x. x\<lparr>he_key := Some addr, he_value := nr\<rparr>))"
  shows "table_of mroute_addr_equal h'" "keys_ok h'"
    "hash_abs h' = (\<lambda>k. if mroute_addr_equal addr k then Some nr else hash_abs (mc_vhash m) k)"
    "owned h' = (\<lambda>i. owned (mc_vhash m) i + (if mr_instance nr = i then 1 else 0) -
       (case he of None \<Rightarrow> 0 | Some e \<Rightarrow> if mr_instance (he_value e) = i then 1 else 0))"
    "\<And>e. e \<in> set (helems h') \<Longrightarrow> he_value e = nr \<or> e \<in> set (helems (mc_vhash m))"
proof -
  note f = find_route[OF m l]
  note w = routing_okD[OF f(1), simplified]
  note pc = same_params_cong[OF f(4)]
  have ow: "owned h = owned (mc_vhash m)"
    using hash_lookup_fast_elems(1)[OF routing_okD(1)[OF m] l] by (simp add: owned_def fun_eq_iff)
  let ?i = "hash_bucket h (hash_value h addr)"
  have i: "?i < length (buckets h)" using hash_bucket_less hash_wfD(2)[OF w(1)] by blast
  have "table_of mroute_addr_equal h' \<and> keys_ok h' \<and>
    hash_abs h' = (\<lambda>k. if mroute_addr_equal addr k then Some nr else hash_abs (mc_vhash m) k) \<and>
    owned h' = (\<lambda>i. owned (mc_vhash m) i + (if mr_instance nr = i then 1 else 0) -
       (case he of None \<Rightarrow> 0 | Some e \<Rightarrow> if mr_instance (he_value e) = i then 1 else 0)) \<and>
    (\<forall>e \<in> set (helems h'). he_value e = nr \<or> e \<in> set (helems (mc_vhash m)))"
  proof (cases he)
    case None
    have h': "h' = hash_add_fast h ?i addr (hash_value h addr) nr" by (simp add: h'_def None pc)
    have n: "hash_abs h addr = None" using f(5) None by simp
    note ad = hash_add_fast_ok[OF w(1) n, of nr, folded h']
    note ae = hash_add_fast_elems[OF w(1), where k = addr and hv = "hash_value h addr" and v = nr, folded h']
    have "owned h' i = owned h i + (if mr_instance nr = i then 1 else 0)" for i
      unfolding owned_def ae(1) by simp
    then show ?thesis
      using ad ae(2) w f(2,3) ow None a by (auto simp: table_of_def same_params_def keys_ok_def fun_eq_iff)
  next
    case (Some e)
    let ?f = "\<lambda>x. x\<lparr>he_key := Some addr, he_value := nr\<rparr>"
    have h': "h' = set_head h ?i ?f" by (simp add: h'_def Some pc)
    obtain es where e: "he_match h addr (hash_value h addr) e" "e \<in> set (helems h)" "buckets h ! ?i = e # es"
      using f(6)[OF Some] by blast
    have c: "key_contract h" using hash_wfD(1)[OF w(1)] .
    have m': "he_match h addr (hash_value h addr) (?f e)"
      using e(1) key_contractD(1)[OF c] by (simp add: he_match_def split: option.splits)
    note sh = set_head_ok[OF w(1) e(3,1), of ?f, OF m', folded h']
    note se = set_head_elems[OF i e(3), where f = ?f, folded h']
    have "owned h' i = owned h i + (if mr_instance nr = i then 1 else 0) -
        (if mr_instance (he_value e) = i then 1 else 0)" for i
      using se(1)[of "\<lambda>e. mr_instance (he_value e) = i"] by (auto simp: owned_def split: if_splits)
    then have "owned h' = (\<lambda>i. owned (mc_vhash m) i + (if mr_instance nr = i then 1 else 0) -
        (if mr_instance (he_value e) = i then 1 else 0))" by (simp add: ow fun_eq_iff)
    moreover have "keys_ok h'" using se(2) w(3) a by (auto simp: keys_ok_def)
    moreover have "table_of mroute_addr_equal h'" using sh w by (simp add: table_of_def same_params_def)
    moreover have "he_value x = nr \<or> x \<in> set (helems (mc_vhash m))" if "x \<in> set (helems h')" for x
      using se(2) that f(3) by auto
    moreover have "hash_abs h' = (\<lambda>k. if mroute_addr_equal addr k then Some nr else hash_abs (mc_vhash m) k)"
      using sh(2) w(2) f(2) by (simp cong: if_cong)
    ultimately show ?thesis using Some by simp
  qed
  then show "table_of mroute_addr_equal h'" "keys_ok h'"
    "hash_abs h' = (\<lambda>k. if mroute_addr_equal addr k then Some nr else hash_abs (mc_vhash m) k)"
    "owned h' = (\<lambda>i. owned (mc_vhash m) i + (if mr_instance nr = i then 1 else 0) -
       (case he of None \<Rightarrow> 0 | Some e \<Rightarrow> if mr_instance (he_value e) = i then 1 else 0))"
    "\<And>e. e \<in> set (helems h') \<Longrightarrow> he_value e = nr \<or> e \<in> set (helems (mc_vhash m))"
    by blast+
qed

text \<open>The two outcomes: the routes stay as they were, or the new one is in the table.\<close>

definition unchanged :: "multi_context \<Rightarrow> multi_context \<Rightarrow> bool" where
  "unchanged m m' \<longleftrightarrow>
     same_rest m m' \<and> mc_inst m' = mc_inst m \<and> hash_abs (mc_vhash m') = hash_abs (mc_vhash m) \<and>
     set (helems (mc_vhash m')) = set (helems (mc_vhash m))"

definition learned :: "multi_context \<Rightarrow> nat \<Rightarrow> mroute_addr \<Rightarrow> u32 \<Rightarrow> multi_context \<Rightarrow> bool" where
  "learned m mi addr flags m' \<longleftrightarrow>
     same_rest m m' \<and> evolves (mc_inst m) (mc_inst m') \<and>
     table_owner m addr \<noteq> Some mi \<and> mroute_learnable_address addr \<and>
     \<not> mroute_addr_equal addr (mc_local m) \<and>
     hash_abs (mc_vhash m') = (\<lambda>k. if mroute_addr_equal addr k then Some (new_route m mi addr flags)
                                   else hash_abs (mc_vhash m) k) \<and>
     (\<forall>e \<in> set (helems (mc_vhash m')). he_value e = new_route m mi addr flags \<or>
        e \<in> set (helems (mc_vhash m)))"

lemma learn_ok:
  assumes m: "routing_ok m" and x: "mc_inst m mi = Some x" and o: "\<not> mi_halt x"
  shows "\<exists>owner m'. multi_learn_addr script m mi addr flags = Some (owner, m') \<and> routing_ok m' \<and>
    ((owner = table_owner m addr \<and> unchanged m m') \<or> (owner = Some mi \<and> learned m mi addr flags m'))"
proof -
  let ?v = "mc_vhash m" let ?hv = "hash_value ?v addr" let ?b = "hash_bucket ?v ?hv"
  let ?nr = "new_route m mi addr flags"
  obtain he h where l: "hash_lookup_fast ?v ?b addr ?hv = (he, h)" by fastforce
  let ?m1 = "m\<lparr>mc_vhash := h\<rparr>"
  note f = find_route[OF m l]
  note w = routing_okD[OF m]
  have own: "(case he of None \<Rightarrow> Some None
      | Some e \<Rightarrow> Option.bind (multi_route_defined ?m1 (he_value e))
          (\<lambda>d. Some (if d then Some (mr_instance (he_value e)) else None))) = Some (table_owner m addr)"
  proof (cases he)
    case (Some e)
    then have "e \<in> set (helems ?v)" and a: "hash_abs ?v addr = Some (he_value e)" using f by auto
    then obtain y where "mc_inst m (mr_instance (he_value e)) = Some y" using route_inst[OF m] by blast
    then have "multi_route_defined ?m1 (he_value e) = Some (live m (he_value e))"
      using multi_route_defined_Some[of m] by simp
    then show ?thesis using Some a by (simp add: table_owner_def)
  qed (use f(2,5) in \<open>simp add: table_owner_def\<close>)
  let ?h' = "case he of None \<Rightarrow> hash_add_fast h ?b addr ?hv ?nr
    | Some e \<Rightarrow> set_head h ?b (\<lambda>x. x\<lparr>he_key := Some addr, he_value := ?nr\<rparr>)"
  have nr: "mr_addr ?nr = addr" "mr_instance ?nr = mi" by (simp_all add: new_route_def)
  note p = put_route[OF m nr(1) l]
  define go where "go \<longleftrightarrow> table_owner m addr \<noteq> Some mi \<and> mroute_learnable_address addr \<and>
    \<not> mroute_addr_equal addr (mc_local m) \<and> route_quota_test ?m1 mi = Some True \<and> script addr"
  obtain q where q: "route_quota_test ?m1 mi = Some q" using x by (simp add: route_quota_test_def)
  have base: "multi_learn_addr script m mi addr flags =
    (if go then Option.bind (multi_instance_inc_refcount ?m1 mi) (\<lambda>m2.
        Option.bind (route_quota_inc m2 mi) (\<lambda>m3. case he of
            Some e \<Rightarrow> Option.bind (multi_route_del m3 (he_value e)) (\<lambda>m4.
              Some (Some mi, m4\<lparr>mc_vhash := set_head (mc_vhash m4) ?b
                (\<lambda>x. x\<lparr>he_key := Some addr, he_value := ?nr\<rparr>)\<rparr>))
          | None \<Rightarrow> Some (Some mi, m3\<lparr>mc_vhash := hash_add_fast (mc_vhash m3) ?b addr ?hv ?nr\<rparr>)))
     else Some (table_owner m addr, ?m1))"
    unfolding multi_learn_addr_def Let_def l prod.case own new_route_def[symmetric]
    by (simp add: go_def q)
  show ?thesis
  proof (cases go)
    case False
    then have "multi_learn_addr script m mi addr flags = Some (table_owner m addr, ?m1)"
      using base by simp
    then show ?thesis using f by (simp add: unchanged_def)
  next
    case True
    have b1: "books (owned ?v) (mc_inst ?m1)" using w(4) by simp
    from acquire_route[OF b1, of mi x] x o True obtain m2 m3 where
      a: "multi_instance_inc_refcount ?m1 mi = Some m2" "route_quota_inc m2 mi = Some m3"
      "books ((owned ?v)(mi := owned ?v mi + 1)) (mc_inst m3)" "evolves (mc_inst m) (mc_inst m3)"
      "m3 = ?m1\<lparr>mc_inst := mc_inst m3\<rparr>"
      by (auto simp: go_def)
    have v3: "mc_vhash m3 = h" by (subst a(5)) simp
    have "\<exists>I. multi_learn_addr script m mi addr flags = Some (Some mi, m\<lparr>mc_inst := I, mc_vhash := ?h'\<rparr>) \<and>
      evolves (mc_inst m) I \<and> books (owned ?h') I"
    proof (cases he)
      case None
      have "m3\<lparr>mc_vhash := ?h'\<rparr> = m\<lparr>mc_inst := mc_inst m3, mc_vhash := ?h'\<rparr>" by (subst a(5)) simp
      moreover have "owned ?h' = (owned ?v)(mi := owned ?v mi + 1)"
        using p(4) None nr(2) by (simp add: fun_eq_iff)
      ultimately show ?thesis using base True a v3 None by (intro exI[of _ "mc_inst m3"]) simp
    next
      case (Some e)
      let ?j = "mr_instance (he_value e)"
      have e: "e \<in> set (helems ?v)" using f(3,6) Some by blast
      have j: "owned ?v ?j > 0" using route_owned[OF e] .
      have "((owned ?v)(mi := owned ?v mi + 1)) ?j > 0" using j by simp
      from release_route[OF a(3) this] obtain m4 where
        d: "multi_route_del m3 (he_value e) = Some m4"
        "books (((owned ?v)(mi := owned ?v mi + 1))(?j := ((owned ?v)(mi := owned ?v mi + 1)) ?j - 1)) (mc_inst m4)"
        "evolves (mc_inst m3) (mc_inst m4)" "m4 = m3\<lparr>mc_inst := mc_inst m4\<rparr>"
        by blast
      have v4: "mc_vhash m4 = h" by (subst d(4)) (simp add: v3)
      have "m4\<lparr>mc_vhash := ?h'\<rparr> = m\<lparr>mc_inst := mc_inst m4, mc_vhash := ?h'\<rparr>"
        by (subst d(4), subst a(5)) simp
      moreover have "owned ?h' = ((owned ?v)(mi := owned ?v mi + 1))(?j := ((owned ?v)(mi := owned ?v mi + 1)) ?j - 1)"
        using p(4) Some nr(2) j by (auto simp: fun_eq_iff)
      ultimately show ?thesis
        using base True a v4 Some d evolves_trans[OF a(4) d(3)]
        by (intro exI[of _ "mc_inst m4"]) simp
    qed
    then obtain I where r: "multi_learn_addr script m mi addr flags = Some (Some mi, m\<lparr>mc_inst := I, mc_vhash := ?h'\<rparr>)"
      "evolves (mc_inst m) I" "books (owned ?h') I" by blast
    have "routing_ok (m\<lparr>mc_inst := I, mc_vhash := ?h'\<rparr>)"
      using p(1,2) r(3) by (simp add: routing_ok_def)
    then show ?thesis
      using r p(3,5) True by (auto simp: go_def learned_def)
  qed
qed

section \<open>Looking up an address\<close>

lemma unchanged_refl [simp]: "unchanged m m"
  by (simp add: unchanged_def)

lemma unchanged_trans: "unchanged m m1 \<Longrightarrow> unchanged m1 m2 \<Longrightarrow> unchanged m m2"
  by (auto simp: unchanged_def intro: same_rest_trans)

lemma unchanged_evolves: "unchanged m m' \<Longrightarrow> evolves (mc_inst m) (mc_inst m')"
  by (simp add: unchanged_def)

lemma unchanged_live:
  assumes "unchanged m m'"
  shows "live m' = live m" "table_owner m' = table_owner m"
proof -
  note s = same_rest_fields[of m m'] 
  show "live m' = live m"
    using assms s by (simp add: unchanged_def live_def multi_route_defined_def fun_eq_iff)
  with assms show "table_owner m' = table_owner m"
    by (intro ext) (simp add: unchanged_def table_owner_def split: option.split)
qed

lemma unchanged_learned:
  assumes u: "unchanged m m1" and l: "learned m1 i a fl m2"
  shows "learned m i a fl m2"
proof -
  have "same_rest m m1" using u by (simp add: unchanged_def)
  note f = same_rest_fields[OF this]
  have "new_route m1 i a fl = new_route m i a fl" using f by (simp add: new_route_def)
  then show ?thesis
    using u l unchanged_live[OF u] f
    by (auto simp: unchanged_def learned_def intro: same_rest_trans)
qed

lemma vlookup_ok:
  assumes m: "routing_ok m" and v: "vlookup m a = (r, m1)"
  shows "r = hash_abs (mc_vhash m) a" "routing_ok m1" "unchanged m m1"
proof -
  note w = routing_okD[OF m]
  let ?h = "snd (hash_lookup (mc_vhash m) a)"
  have m1: "m1 = m\<lparr>mc_vhash := ?h\<rparr>" and r: "r = fst (hash_lookup (mc_vhash m) a)"
    using v by (auto simp: vlookup_def split: prod.splits)
  note l = hash_lookup_ok[OF w(1), of a] and e = hash_lookup_elems[OF w(1)]
  show "r = hash_abs (mc_vhash m) a" using r l by simp
  show "unchanged m m1" using l e by (simp add: m1 unchanged_def)
  have "owned ?h = owned (mc_vhash m)" using e(1) by (simp add: owned_def fun_eq_iff)
  then show "routing_ok m1"
    using w l e by (simp add: m1 routing_ok_def table_of_def keys_ok_def same_params_def)
qed

text \<open>The result of the loop over the prefix lengths.\<close>

definition net_key :: "mroute_addr \<Rightarrow> byte \<Rightarrow> mroute_addr option" where
  "net_key addr n =
     mroute_addr_mask_host_bits (addr\<lparr>ma_type := ma_type addr OR MR_WITH_NETBITS, ma_netbits := n\<rparr>)"

fun lpm_search :: "multi_context \<Rightarrow> mroute_addr \<Rightarrow> byte list \<Rightarrow> nat option" where
  "lpm_search m addr [] = None"
| "lpm_search m addr (n # ns) =
     (case Option.bind (net_key addr n) (table_owner m) of
        Some i \<Rightarrow> Some i
      | None \<Rightarrow> lpm_search m addr ns)"

lemma lpm_search_cong: "table_owner m' = table_owner m \<Longrightarrow> lpm_search m' a ns = lpm_search m a ns"
  by (induction ns) (simp_all split: option.split)

definition CACHE_FLAGS :: u32 where
  "CACHE_FLAGS = MULTI_ROUTE_CACHE OR MULTI_ROUTE_AGEABLE"

lemma kind_with_netbits [simp]: "addr_kind (a\<lparr>ma_type := ma_type a OR MR_WITH_NETBITS, ma_netbits := n\<rparr>) = addr_kind a"
proof -
  have "(t OR 8) AND 3 = t AND (3 :: byte)" for t by (simp add: bit.conj_disj_distrib2)
  then show ?thesis by (simp add: addr_kind_def MR_ADDR_MASK_def MR_WITH_NETBITS_def)
qed

lemma net_key_total:
  assumes "mroute_wf a" "ip_addr a" "unat n \<le> 128"
  shows "\<exists>k. net_key a n = Some k"
proof -
  let ?a = "a\<lparr>ma_type := ma_type a OR MR_WITH_NETBITS, ma_netbits := n\<rparr>"
  have "mroute_wf ?a" "ip_addr ?a" "unat (ma_netbits ?a) \<le> 128"
    using assms by (simp_all add: mroute_wf_def ip_addr_def)
  from mask_host_bits_total[OF this] show ?thesis by (auto simp: net_key_def)
qed

lemma live_open:
  "live m r \<Longrightarrow> \<exists>x. mc_inst m (mr_instance r) = Some x \<and> \<not> mi_halt x"
  by (auto simp: live_def multi_route_defined_def split: if_splits)

lemma table_ownerD:
  assumes "table_owner m a = Some i"
  shows "\<exists>r x. hash_abs (mc_vhash m) a = Some r \<and> live m r \<and> mr_instance r = i \<and>
    mc_inst m i = Some x \<and> \<not> mi_halt x"
  using assms live_open by (fastforce simp: table_owner_def split: option.splits if_splits)

lemma lpm_search_open:
  "lpm_search m a ns = Some i \<Longrightarrow> \<exists>x. mc_inst m i = Some x \<and> \<not> mi_halt x"
  using table_ownerD by (induction ns) (fastforce split: option.splits simp: bind_eq_Some_conv)+

lemma cidr_loop_ok:
  assumes m: "routing_ok m" and a: "mroute_wf a" "ip_addr a" and n: "\<forall>n \<in> set ns. unat n \<le> 128"
  shows "\<exists>m'. cidr_loop script m a ns = Some (lpm_search m a ns, m') \<and> routing_ok m' \<and>
    (unchanged m m' \<or> (\<exists>i. lpm_search m a ns = Some i \<and> learned m i a CACHE_FLAGS m'))"
  using m n
proof (induction ns arbitrary: m)
  case (Cons n ns)
  obtain k where k: "net_key a n = Some k" using net_key_total[OF a] Cons(3) by auto
  obtain r m1 where v: "vlookup m k = (r, m1)" by fastforce
  note vl = vlookup_ok[OF Cons(2) v]
  have lp: "lpm_search m1 a xs = lpm_search m a xs" for xs
    by (rule lpm_search_cong[OF unchanged_live(2)[OF vl(3)]])
  from Cons(1)[OF vl(2)] Cons(3) obtain m2 where
    ih: "cidr_loop script m1 a ns = Some (lpm_search m a ns, m2)" "routing_ok m2"
    "unchanged m m2 \<or> (\<exists>i. lpm_search m a ns = Some i \<and> learned m i a CACHE_FLAGS m2)"
    using lp unchanged_trans[OF vl(3)] unchanged_learned[OF vl(3)] by auto
  show ?case
  proof (cases r)
    case None
    then show ?thesis
      using ih v k vl(1) by (auto simp: net_key_def[symmetric] table_owner_def)
  next
    case (Some rt)
    obtain x where x: "mc_inst m (mr_instance rt) = Some x"
      using hash_abs_route(3)[OF Cons(2)] vl(1) Some by metis
    then have d: "multi_route_defined m1 rt = Some (live m rt)"
      using multi_route_defined_Some[of m1 rt] vl(3) unchanged_live[OF vl(3)] by (auto simp: unchanged_def)
    have own: "table_owner m k = (if live m rt then Some (mr_instance rt) else None)"
      using vl(1)[symmetric] Some by (simp add: table_owner_def)
    show ?thesis
    proof (cases "live m rt")
      case False
      then show ?thesis using ih v k Some d own by (simp add: net_key_def[symmetric])
    next
      case True
      then obtain y where y: "mc_inst m1 (mr_instance rt) = Some y" "\<not> mi_halt y"
        using live_open[of m1 rt] unchanged_live[OF vl(3)] by auto
      from learn_ok[OF vl(2) y, of script a CACHE_FLAGS] obtain owner m3 where
        l: "multi_learn_addr script m1 (mr_instance rt) a CACHE_FLAGS = Some (owner, m3)" "routing_ok m3"
        "unchanged m1 m3 \<or> learned m1 (mr_instance rt) a CACHE_FLAGS m3" by blast
      then have "unchanged m m3 \<or> learned m (mr_instance rt) a CACHE_FLAGS m3"
        using unchanged_trans[OF vl(3)] unchanged_learned[OF vl(3)] by blast
      then show ?thesis
        using l v k Some d own True by (auto simp: net_key_def[symmetric] CACHE_FLAGS_def)
    qed
  qed
qed simp

text \<open>The route a lookup hits is refreshed.\<close>

definition touched :: "multi_context \<Rightarrow> mroute_addr \<Rightarrow> multi_route \<Rightarrow> multi_context \<Rightarrow> bool" where
  "touched m a r m' \<longleftrightarrow>
     same_rest m m' \<and> mc_inst m' = mc_inst m \<and>
     hash_abs (mc_vhash m') = (\<lambda>k. if mroute_addr_equal a k then Some (r\<lparr>mr_last_reference := mc_now m\<rparr>)
                                   else hash_abs (mc_vhash m) k) \<and>
     (\<forall>e \<in> set (helems (mc_vhash m')). he_value e = r\<lparr>mr_last_reference := mc_now m\<rparr> \<or>
        e \<in> set (helems (mc_vhash m)))"

lemma touch_route_ok:
  assumes m: "routing_ok m" and v: "vlookup m a = (Some r, m1)"
  shows "routing_ok (touch_route m1 a)" "touched m a r (touch_route m1 a)"
proof -
  let ?v = "mc_vhash m"
  obtain he h where l: "hash_lookup_fast ?v (hash_bucket ?v (hash_value ?v a)) a (hash_value ?v a) = (he, h)"
    by fastforce
  note f = find_route[OF m l]
  have m1: "m1 = m\<lparr>mc_vhash := h\<rparr>" and r: "map_option he_value he = Some r"
    using v l by (auto simp: vlookup_def hash_lookup_def Let_def split: prod.splits)
  then obtain e where e: "he = Some e" "he_value e = r" by auto
  from f(6)[OF e(1)] obtain es where
    h: "he_match h a (hash_value h a) e" "e \<in> set (helems h)" "buckets h ! hash_bucket h (hash_value h a) = e # es"
    by blast
  note w = routing_okD[OF f(1), simplified]
  let ?i = "hash_bucket h (hash_value h a)"
  let ?f = "\<lambda>e. e\<lparr>he_value := (he_value e)\<lparr>mr_last_reference := mc_now m\<rparr>\<rparr>"
  have i: "?i < length (buckets h)" using hash_bucket_less hash_wfD(2)[OF w(1)] by blast
  have h': "touch_route m1 a = m\<lparr>mc_vhash := set_head h ?i ?f\<rparr>" by (simp add: touch_route_def m1)
  have mf: "he_match h a (hash_value h a) (?f e)" using h(1) by (simp add: he_match_def)
  note sh = set_head_ok[OF w(1) h(3,1), of ?f, OF mf]
  note se = set_head_elems[OF i h(3), where f = ?f]
  have "owned (set_head h ?i ?f) = owned h"
    using se(1) unfolding owned_def fun_eq_iff by (metis (no_types, lifting) add_right_cancel
      hash_element.select_convs(1) hash_element.surjective hash_element.update_convs(1)
      multi_route.select_convs(2) multi_route.surjective multi_route.update_convs(5))
  then have own: "owned (set_head h ?i ?f) = owned ?v"
    using hash_lookup_fast_elems(1)[OF routing_okD(1)[OF m] l] by (simp add: owned_def fun_eq_iff)
  have "keys_ok (set_head h ?i ?f)" using se(2) w(3) h(2) by (auto simp: keys_ok_def)
  then show "routing_ok (touch_route m1 a)"
    using sh w own routing_okD(4)[OF m] by (simp add: h' routing_ok_def table_of_def same_params_def)
  show "touched m a r (touch_route m1 a)"
    unfolding touched_def h' using sh(2) se(2) f(2,3) w(2) e(2) by (auto cong: if_cong)
qed

definition lens :: "multi_context \<Rightarrow> byte list" where
  "lens m = take (n_net_len (mc_route_helper m)) (net_len (mc_route_helper m))"

definition virtual_owner :: "multi_context \<Rightarrow> mroute_addr \<Rightarrow> bool \<Rightarrow> nat option" where
  "virtual_owner m a cidr =
     (if mroute_addr_equal a (mc_local m) then None
      else case table_owner m a of
        Some i \<Rightarrow> Some i
      | None \<Rightarrow> if cidr then lpm_search m a (lens m) else None)"

lemma virtual_addr_ok:
  assumes m: "routing_ok m" and a: "cidr \<Longrightarrow> mroute_wf a \<and> ip_addr a"
    and n: "\<forall>n \<in> set (lens m). unat n \<le> 128"
  shows "\<exists>m'. multi_get_instance_by_virtual_addr script m a cidr = Some (virtual_owner m a cidr, m') \<and>
    routing_ok m' \<and>
    (unchanged m m' \<or> (\<exists>r. hash_abs (mc_vhash m) a = Some r \<and> live m r \<and> touched m a r m') \<or>
     (\<exists>i. cidr \<and> table_owner m a = None \<and> lpm_search m a (lens m) = Some i \<and> learned m i a CACHE_FLAGS m'))"
proof (cases "mroute_addr_equal a (mc_local m)")
  case True
  then show ?thesis using m by (simp add: multi_get_instance_by_virtual_addr_def virtual_owner_def)
next
  case nl: False
  obtain r m1 where v: "vlookup m a = (r, m1)" by fastforce
  note vl = vlookup_ok[OF m v]
  have sr: "mc_route_helper m1 = mc_route_helper m" "mc_inst m1 = mc_inst m"
    using vl(3) same_rest_fields[of m m1] by (auto simp: unchanged_def)
  have hit: "(case r of None \<Rightarrow> Some False | Some r \<Rightarrow> multi_route_defined m1 r) =
      Some (table_owner m a \<noteq> None)"
  proof (cases r)
    case (Some rt)
    then obtain x where "mc_inst m1 (mr_instance rt) = Some x"
      using hash_abs_route(3)[OF m] vl(1) sr(2) by metis
    then show ?thesis
      using multi_route_defined_Some[of m1 rt] unchanged_live(1)[OF vl(3)] Some vl(1)
      by (simp add: table_owner_def)
  qed (use vl(1) in \<open>simp add: table_owner_def\<close>)
  show ?thesis
  proof (cases "table_owner m a")
    case (Some i)
    from table_ownerD[OF this] obtain rt x where
      t: "hash_abs (mc_vhash m) a = Some rt" "live m rt" "mr_instance rt = i" "mc_inst m i = Some x" "\<not> mi_halt x"
      by blast
    then have r: "r = Some rt" using vl(1) by simp
    note to = touch_route_ok[OF m v[unfolded r]]
    have "mc_inst (touch_route m1 a) i = Some x" using to(2) t(4) by (simp add: touched_def)
    then show ?thesis
      using nl v hit Some t to r
      by (auto simp: multi_get_instance_by_virtual_addr_def virtual_owner_def)
  next
    case None
    show ?thesis
    proof (cases cidr)
      case False
      then show ?thesis using nl v hit None vl
        by (auto simp: multi_get_instance_by_virtual_addr_def virtual_owner_def)
    next
      case True
      have lp: "lpm_search m1 a xs = lpm_search m a xs" for xs
        by (rule lpm_search_cong[OF unchanged_live(2)[OF vl(3)]])
      have aa: "mroute_wf a" "ip_addr a" using a True by auto
      from cidr_loop_ok[OF vl(2) aa n, of script] obtain m2 where
        c: "cidr_loop script m1 a (lens m) = Some (lpm_search m a (lens m), m2)" "routing_ok m2"
        "unchanged m1 m2 \<or> (\<exists>i. lpm_search m a (lens m) = Some i \<and> learned m1 i a CACHE_FLAGS m2)"
        using lp by auto
      have e: "unchanged m m2 \<or> (\<exists>i. lpm_search m a (lens m) = Some i \<and> learned m i a CACHE_FLAGS m2)"
        using c(3) unchanged_trans[OF vl(3)] unchanged_learned[OF vl(3)] by blast
      have fin: "(case lpm_search m a (lens m) of None \<Rightarrow> Some (None, m2)
          | Some i \<Rightarrow> Option.bind (mc_inst m2 i) (\<lambda>x. if mi_halt x then None else Some (Some i, m2))) =
          Some (lpm_search m a (lens m), m2)"
      proof (cases "lpm_search m a (lens m)")
        case (Some i)
        have "evolves (mc_inst m) (mc_inst m2)" using e by (auto simp: unchanged_def learned_def)
        with lpm_search_open[OF Some] obtain y where "mc_inst m2 i = Some y" "\<not> mi_halt y"
          using evolvesD(2) by (metis static_fields)
        then show ?thesis using Some by simp
      qed simp
      have "multi_get_instance_by_virtual_addr script m a cidr = Some (virtual_owner m a cidr, m2)"
        using nl v hit None True c(1) sr fin
        by (simp add: multi_get_instance_by_virtual_addr_def virtual_owner_def lens_def)
      then show ?thesis using e c(2) None True by blast
    qed
  qed
qed

section \<open>Ageing\<close>

text \<open>
  The bodies of the two sweeps delete the routes that satisfy a test, which deleting other
  routes does not change.
\<close>

definition deletes ::
  "multi_context \<Rightarrow> (multi_context \<Rightarrow> (mroute_addr, multi_route) hash_element \<Rightarrow> (bool \<times> multi_context) option) \<Rightarrow>
   ((mroute_addr, multi_route) hash_element \<Rightarrow> bool) \<Rightarrow> bool" where
  "deletes m body P \<longleftrightarrow>
     (\<forall>I e x. evolves (mc_inst m) I \<and> I (mr_instance (he_value e)) = Some x \<longrightarrow>
        body (m\<lparr>mc_inst := I\<rparr>) e =
          (if P e then map_option (\<lambda>m1. (True, m1)) (multi_route_del (m\<lparr>mc_inst := I\<rparr>) (he_value e))
           else Some (False, m\<lparr>mc_inst := I\<rparr>)))"

lemma live_evolves:
  assumes "evolves (mc_inst m) I" "I (mr_instance r) = Some x"
  shows "multi_route_defined (m\<lparr>mc_inst := I\<rparr>) r = Some (live m r)"
proof -
  obtain y where y: "mc_inst m (mr_instance r) = Some y" "static x = static y"
    using evolvesD(1)[OF assms] by blast
  have "multi_route_defined (m\<lparr>mc_inst := I\<rparr>) r = multi_route_defined m r"
    by (rule route_defined_cong[where x = y and y = x]) (use assms y in \<open>simp_all add: static_fields\<close>)
  then show ?thesis using multi_route_defined_Some[OF y(1)] by simp
qed

lemma reap_body_deletes: "deletes m reap_body (\<lambda>e. \<not> live m (he_value e))"
  unfolding deletes_def reap_body_def using live_evolves[of m]
  by (auto simp: map_option_case split: option.split)

lemma stale_body_deletes:
  "deletes m stale_body
     (\<lambda>e. live m (he_value e) \<and> mc_now m - mr_last_reference (he_value e) \<ge> mc_stale_routes_ageing_time m)"
  unfolding deletes_def stale_body_def using live_evolves[of m]
  by (auto simp: map_option_case split: option.split)

definition owner_count :: "(mroute_addr, multi_route) hash_element list \<Rightarrow> nat \<Rightarrow> nat" where
  "owner_count es i = length (filter (\<lambda>e. mr_instance (he_value e) = i) es)"

lemma sweep_list_routes:
  assumes d: "deletes m body P" and ev: "evolves (mc_inst m) I" and b: "books c I"
    and c: "\<forall>i. owner_count es i \<le> c i"
  shows "\<exists>J. sweep_list body P es (m\<lparr>mc_inst := I\<rparr>) = Some (m\<lparr>mc_inst := J\<rparr>) \<and>
    books (\<lambda>i. c i - owner_count (filter P es) i) J \<and> evolves (mc_inst m) J"
  using ev b c
proof (induction es arbitrary: I c)
  case Nil
  then show ?case by (auto simp: owner_count_def)
next
  case (Cons e es)
  let ?j = "mr_instance (he_value e)"
  have j: "c ?j > 0" using Cons(4)[rule_format, of ?j] by (simp add: owner_count_def)
  then obtain x where x: "I ?j = Some x" using books_live[OF Cons(3)] by blast
  have body: "body (m\<lparr>mc_inst := I\<rparr>) e =
      (if P e then map_option (\<lambda>m1. (True, m1)) (multi_route_del (m\<lparr>mc_inst := I\<rparr>) (he_value e))
       else Some (False, m\<lparr>mc_inst := I\<rparr>))"
    using d Cons(2) x by (auto simp: deletes_def)
  show ?case
  proof (cases "P e")
    case True
    have "books c (mc_inst (m\<lparr>mc_inst := I\<rparr>))" using Cons(3) by simp
    from release_route[OF this j] obtain m1 where
      r: "multi_route_del (m\<lparr>mc_inst := I\<rparr>) (he_value e) = Some m1"
      "books (c(?j := c ?j - 1)) (mc_inst m1)" "evolves I (mc_inst m1)" "m1 = m\<lparr>mc_inst := mc_inst m1\<rparr>"
      by auto
    have c': "\<forall>i. owner_count es i \<le> (c(?j := c ?j - 1)) i"
    proof
      fix i show "owner_count es i \<le> (c(?j := c ?j - 1)) i"
        using Cons(4)[rule_format, of i] by (auto simp: owner_count_def split: if_splits)
    qed
    from Cons(1)[OF evolves_trans[OF Cons(2) r(3)] r(2) c'] obtain J where
      J: "sweep_list body P es m1 = Some (m\<lparr>mc_inst := J\<rparr>)"
      "books (\<lambda>i. (c(?j := c ?j - 1)) i - owner_count (filter P es) i) J" "evolves (mc_inst m) J"
      using r(4) by auto
    have "(\<lambda>i. (c(?j := c ?j - 1)) i - owner_count (filter P es) i) =
        (\<lambda>i. c i - owner_count (filter P (e # es)) i)"
      using True by (auto simp: fun_eq_iff owner_count_def)
    then show ?thesis using J body True r(1) by auto
  next
    case False
    have "\<forall>i. owner_count es i \<le> c i"
    proof
      fix i show "owner_count es i \<le> c i"
        using Cons(4)[rule_format, of i] by (auto simp: owner_count_def split: if_splits)
    qed
    from Cons(1)[OF Cons(2,3) this] show ?thesis using body False by auto
  qed
qed

text \<open>What a sweep does to the routes: those in the range that satisfy the test are gone.\<close>

definition swept_routes ::
  "(multi_route \<Rightarrow> bool) \<Rightarrow> multi_context \<Rightarrow> multi_context \<Rightarrow> bool" where
  "swept_routes Q m m' \<longleftrightarrow>
     same_rest m m' \<and> evolves (mc_inst m) (mc_inst m') \<and>
     (\<forall>k. hash_abs (mc_vhash m') k = hash_abs (mc_vhash m) k \<or>
       (hash_abs (mc_vhash m') k = None \<and> (\<exists>r. hash_abs (mc_vhash m) k = Some r \<and> Q r))) \<and>
     set (helems (mc_vhash m')) \<subseteq> set (helems (mc_vhash m))"

lemma sweep_routes_ok:
  assumes m: "routing_ok m" and d: "deletes m body (\<lambda>e. Q (he_value e))"
    and se: "0 \<le> s" "s \<le> e" "s \<le> n_buckets (mc_vhash m)"
  shows "\<exists>m'. sweep_routes body m s e = Some m' \<and> routing_ok m' \<and> swept_routes Q m m'"
proof -
  let ?v = "mc_vhash m" let ?P = "\<lambda>e. Q (he_value e)"
  define E where "E = nat (min e (n_buckets ?v))"
  define S where "S = nat s"
  note w = routing_okD[OF m]
  have nb: "n_buckets ?v = int (length (buckets ?v))" using hash_wfD(2)[OF w(1)] by (auto simp: hash_shape_def)
  have SE: "S \<le> E" "E \<le> length (buckets ?v)" "int S = s" "int E = min e (n_buckets ?v)"
    using se nb by (auto simp: S_def E_def min_def)
  have "hash_iterator_init_range ?v s e \<noteq> None"
    using se by (simp add: hash_iterator_init_range_def Let_def)
  then obtain hi where hi: "hash_iterator_init_range ?v s e = Some hi" by auto
  then have hi': "hash_iterator_init_range ?v (int S) (int E) = Some hi"
    unfolding SE(3,4) using se by (auto simp: hash_iterator_init_range_def Let_def min_def split: if_splits)
  let ?es = "concat (drop S (take E (buckets ?v)))"
  have cnt: "\<forall>i. owner_count ?es i \<le> owned ?v i"
  proof
    fix i
    have "helems ?v = concat (take S (buckets ?v)) @ ?es @ concat (drop E (buckets ?v))"
      using arg_cong[OF slices[OF SE(1,2)], of concat] by (simp add: helems_def)
    then show "owner_count ?es i \<le> owned ?v i" by (simp add: owner_count_def owned_def hcount_def)
  qed
  have "m = m\<lparr>mc_inst := mc_inst m\<rparr>" by simp
  with sweep_list_routes[OF d evolves_refl w(4) cnt] obtain J where
    J: "sweep_list body ?P ?es m = Some (m\<lparr>mc_inst := J\<rparr>)"
    "books (\<lambda>i. owned ?v i - owner_count (filter ?P ?es) i) J" "evolves (mc_inst m) J" by auto
  have fu: "length (concat (buckets ?v)) < sweep_fuel ?v" by (simp add: sweep_fuel_def length_concat)
  have sw: "hash_sweep (sweep_fuel ?v) body ?v hi m = Some (swept ?P S E ?v, m\<lparr>mc_inst := J\<rparr>)"
    by (rule hash_sweep_range[OF hash_wf_unmarked[OF w(1)] SE(1,2) nb hi' fu J(1)])
  let ?m' = "m\<lparr>mc_inst := J, mc_vhash := swept ?P S E ?v\<rparr>"
  have r: "sweep_routes body m s e = Some ?m'"
    using hi sw by (simp add: sweep_routes_def)
  note el = swept_elems[OF SE(1,2), where P = ?P]
  have "owned (swept ?P S E ?v) = (\<lambda>i. owned ?v i - owner_count (filter ?P ?es) i)"
  proof
    fix i
    show "owned (swept ?P S E ?v) i = owned ?v i - owner_count (filter ?P ?es) i"
      using el(2)[where Q = "\<lambda>e. mr_instance (he_value e) = i"] unfolding owned_def owner_count_def by linarith
  qed
  then have "routing_ok ?m'"
    using w hash_wf_swept[OF w(1) SE(1,2), of ?P] el(1) J(2) same_params_swept[of ?v ?P S E]
    by (auto simp: routing_ok_def table_of_def keys_ok_def same_params_def)
  moreover have "swept_routes Q m ?m'"
    using J(3) el(1) hash_abs_swept[OF w(1) SE(1,2), of Q]
    by (auto simp: swept_routes_def split: option.splits)
  ultimately show ?thesis using r by blast
qed

section \<open>The life of an instance\<close>

lemma books_create:
  assumes b: "books c inst" and f: "inst i = None" and x: "mi_route_count x = 0" "mi_refcount x = 1" "\<not> mi_halt x"
  shows "books c (inst(i \<mapsto> x))"
proof -
  have "c i = 0" using booksD(1)[OF b f] .
  then show ?thesis
    unfolding books_def
  proof (intro allI)
    fix j
    show "case (inst(i \<mapsto> x)) j of None \<Rightarrow> c j = 0
      | Some x \<Rightarrow> mi_route_count x = int (c j) \<and>
          mi_refcount x = int (c j) + (if mi_halt x then 0 else 1) \<and> mi_refcount x > 0 \<and>
          mi_route_count x \<le> max 0 (max_routes_per_client x)"
      using x \<open>c i = 0\<close> booksD[OF b, of j] by (cases "j = i") (auto split: option.split)
  qed
qed

lemma create_ok:
  assumes m: "routing_ok m" and f: "mc_inst m i = None"
  shows "\<exists>x. multi_create_instance m i k = Some (m\<lparr>mc_inst := (mc_inst m)(i \<mapsto> x)\<rparr>) \<and>
    routing_ok (m\<lparr>mc_inst := (mc_inst m)(i \<mapsto> x)\<rparr>) \<and> \<not> mi_halt x \<and> \<not> mi_did_iroutes x"
proof -
  let ?x = "\<lparr>mi_halt = False, mi_refcount = 1, mi_route_count = 0, max_routes_per_client = k,
           mi_did_iroutes = False, mi_iroutes = [], mi_iroutes_ipv6 = []\<rparr>"
  have "multi_create_instance m i k = Some (m\<lparr>mc_inst := (mc_inst m)(i \<mapsto> ?x)\<rparr>)"
    by (simp add: multi_create_instance_def multi_instance_inc_refcount_def upd_inst_def)
  moreover have "books (owned (mc_vhash m)) ((mc_inst m)(i \<mapsto> ?x))"
    by (rule books_create[OF routing_okD(4)[OF m] f]) simp_all
  ultimately show ?thesis using m by (intro exI[of _ ?x]) (simp add: routing_ok_def)
qed

text \<open>Changes of an instance that leave its counters alone.\<close>

lemma books_static:
  assumes b: "books c inst" and x: "inst i = Some x"
    and y: "mi_route_count y = mi_route_count x" "mi_refcount y = mi_refcount x" "mi_halt y = mi_halt x"
      "max_routes_per_client y = max_routes_per_client x"
  shows "books c (inst(i \<mapsto> y))"
  using books_update[OF b x, of y "c i"] booksD(2-5)[OF b, of i x] x y by simp

text \<open>Closing: the instance is marked, and freed at once when no route refers to it.\<close>

lemma close_books:
  assumes b: "books c inst" and x: "inst i = Some x" and o: "\<not> mi_halt x"
    and y: "mi_halt y" "mi_route_count y = mi_route_count x" "mi_refcount y = mi_refcount x - 1"
      "max_routes_per_client y = max_routes_per_client x"
  shows "if mi_refcount y \<le> 0 then books c (inst(i := None)) else books c (inst(i \<mapsto> y))"
proof -
  note bx = booksD(2-5)[OF b, of i x]
  show ?thesis
  proof (cases "mi_refcount y \<le> 0")
    case True
    then have "c i = 0" using bx x o y by simp
    then have "c(i := 0) = c" by auto
    then show ?thesis using books_drop[OF b, of i] True by simp
  next
    case False
    then have "books (c(i := c i)) (inst(i \<mapsto> y))"
      using bx x o y by (intro books_update[OF b x]) auto
    then show ?thesis using False by simp
  qed
qed

end
