(* ===== verification/Multi_Route_Lpm.thy ===== *)
theory Multi_Route_Lpm
  imports Multi_Route_Inv
begin

text \<open>
  The server's routing table as a state machine: the prefix lengths the route helper counts are
  those of the internal routes, no operation fails in a reachable state, and a lookup returns
  the owner of the host route or else of the longest matching internal route, with or without
  the cache of host routes.
\<close>

unbundle bit_operations_syntax

section \<open>Counting prefix lengths\<close>

text \<open>
  \<open>counted mh D g\<close>: the reference counts of the route helper are those of the prefix lengths
  \<open>g i\<close> that the instances \<open>i\<close> in \<open>D\<close> have registered.
\<close>

definition counted :: "mroute_helper \<Rightarrow> nat set \<Rightarrow> (nat \<Rightarrow> int list) \<Rightarrow> bool" where
  "counted mh D g \<longleftrightarrow>
     helper_wf mh \<and> finite D \<and>
     (\<forall>n < 129. net_len_refcount mh ! n = (\<Sum>i \<in> D. int (count_list (g i) (int n)))) \<and>
     (\<forall>i \<in> D. \<forall>n \<in> set (g i). 0 \<le> n \<and> n < 129)"

lemma countedD:
  assumes "counted mh D g"
  shows "helper_wf mh" "finite D"
    "n < 129 \<Longrightarrow> net_len_refcount mh ! n = (\<Sum>i \<in> D. int (count_list (g i) (int n)))"
    "i \<in> D \<Longrightarrow> k \<in> set (g i) \<Longrightarrow> 0 \<le> k \<and> k < 129"
  using assms by (auto simp: counted_def)

lemma sum_upd:
  fixes f :: "'b \<Rightarrow> int"
  assumes "finite D" "i \<in> D"
  shows "(\<Sum>j \<in> D. f ((g(i := v)) j)) = (\<Sum>j \<in> D. f (g j)) + f v - f (g i)"
proof -
  have "(\<Sum>j \<in> D. f ((g(i := v)) j)) = f v + (\<Sum>j \<in> D - {i}. f ((g(i := v)) j))"
    using assms by (simp add: sum.remove)
  also have "(\<Sum>j \<in> D - {i}. f ((g(i := v)) j)) = (\<Sum>j \<in> D - {i}. f (g j))"
    by (rule sum.cong) auto
  finally show ?thesis using sum.remove[OF assms, of "\<lambda>j. f (g j)"] by simp
qed

lemma counted_upd:
  assumes c: "counted mh D g" and i: "i \<in> D" and w: "helper_wf mh'"
    and r: "net_len_refcount mh' = (net_len_refcount mh)[k := net_len_refcount mh ! k + d]" and k: "k < 129"
    and v: "\<And>n. int (count_list v (int n)) = int (count_list (g i) (int n)) + (if n = k then d else 0)"
    and b: "\<forall>n \<in> set v. 0 \<le> n \<and> n < 129"
  shows "counted mh' D (g(i := v))"
proof -
  have "length (net_len_refcount mh) = 129"
    using countedD(1)[OF c] by (simp add: helper_wf_def MR_HELPER_NET_LEN_def)
  then have "net_len_refcount mh' ! n = (\<Sum>j \<in> D. int (count_list ((g(i := v)) j) (int n)))" if "n < 129" for n
    using sum_upd[OF countedD(2)[OF c] i, of "\<lambda>l. int (count_list l (int n))" g v] v[of n] r k
      countedD(3)[OF c that] that
    by (cases "n = k") (simp_all del: of_nat_sum)
  then show ?thesis using c w b by (auto simp: counted_def)
qed

lemma counted_add:
  assumes c: "counted mh D g" and i: "i \<in> D" and n: "0 \<le> n" "n < 129"
  shows "\<exists>mh'. mroute_helper_add_iroute46 mh n = Some mh' \<and> counted mh' D (g(i := g i @ [n])) \<and>
    cache_generation mh' = cache_generation mh + 1 \<and> ageable_ttl_secs mh' = ageable_ttl_secs mh"
proof -
  from add_iroute46_spec[OF countedD(1)[OF c] n] obtain mh' where
    a: "mroute_helper_add_iroute46 mh n = Some mh'" "helper_wf mh'"
    "cache_generation mh' = cache_generation mh + 1" "ageable_ttl_secs mh' = ageable_ttl_secs mh"
    "net_len_refcount mh' = (net_len_refcount mh)[nat n := net_len_refcount mh ! nat n + 1]" by blast
  have "counted mh' D (g(i := g i @ [n]))"
    by (rule counted_upd[OF c i a(2,5)]) (use n countedD(4)[OF c i] in auto)
  then show ?thesis using a by blast
qed

lemma counted_del:
  assumes c: "counted mh D g" and i: "i \<in> D" and g: "g i = n # ns"
  shows "\<exists>mh'. mroute_helper_del_iroute46 mh n = Some mh' \<and> counted mh' D (g(i := ns)) \<and>
    cache_generation mh' = cache_generation mh + 1 \<and> ageable_ttl_secs mh' = ageable_ttl_secs mh"
proof -
  have n: "0 \<le> n" "n < 129" using countedD(4)[OF c i] g by auto
  have "int (count_list (g i) n) \<le> (\<Sum>j \<in> D. int (count_list (g j) n))"
    by (rule member_le_sum[OF i _ countedD(2)[OF c]]) simp
  then have p: "net_len_refcount mh ! nat n > 0"
    using countedD(3)[OF c, of "nat n"] n g by (simp del: of_nat_sum)
  from del_iroute46_spec[OF countedD(1)[OF c] n p] obtain mh' where
    a: "mroute_helper_del_iroute46 mh n = Some mh'" "helper_wf mh'"
    "cache_generation mh' = cache_generation mh + 1" "ageable_ttl_secs mh' = ageable_ttl_secs mh"
    "net_len_refcount mh' = (net_len_refcount mh)[nat n := net_len_refcount mh ! nat n + (- 1)]" by auto
  have "counted mh' D (g(i := ns))"
    by (rule counted_upd[OF c i a(2,5)]) (use n g countedD(4)[OF c i] in \<open>auto simp: nat_less_iff\<close>)
  then show ?thesis using a by blast
qed

lemma counted_mono:
  assumes c: "counted mh D g" and s: "D' \<subseteq> D" "\<And>i. i \<in> D - D' \<Longrightarrow> g i = []"
    and g: "\<And>i. i \<in> D' \<Longrightarrow> g' i = g i"
  shows "counted mh D' g'"
proof -
  have "(\<Sum>i \<in> D. int (count_list (g i) k)) = (\<Sum>i \<in> D'. int (count_list (g' i) k))" for k
    using s countedD(2)[OF c] g by (intro sum.mono_neutral_cong_right) auto
  then show ?thesis
    using c s g finite_subset[OF s(1)] unfolding counted_def by (simp del: of_nat_sum) blast
qed

lemma counted_fresh:
  assumes c: "counted mh D g" and i: "i \<notin> D" and g: "g' i = []" "\<And>j. j \<in> D \<Longrightarrow> g' j = g j"
  shows "counted mh (insert i D) g'"
proof -
  have "(\<Sum>j \<in> insert i D. int (count_list (g' j) k)) = (\<Sum>j \<in> D. int (count_list (g j) k))" for k
    using countedD(2)[OF c] i g by (simp del: of_nat_sum cong: sum.cong)
  then show ?thesis using c g by (simp add: counted_def del: of_nat_sum)
qed

text \<open>Only lengths in use are in the helper's list, longest first, and none is missing.\<close>

lemma lens_set:
  assumes c: "counted (mc_route_helper m) D g"
  shows "unat ` set (lens m) = {n. n < 129 \<and> (\<exists>i \<in> D. int n \<in> set (g i))}"
    "sorted_wrt (>) (map unat (lens m))"
proof -
  let ?mh = "mc_route_helper m"
  have w: "map unat (lens m) = used_lens (net_len_refcount ?mh) 129"
    using countedD(1)[OF c] by (simp add: helper_wf_def lens_def MR_HELPER_NET_LEN_def)
  have "net_len_refcount ?mh ! n > 0 \<longleftrightarrow> (\<exists>i \<in> D. int n \<in> set (g i))" if "n < 129" for n
  proof -
    have "(\<Sum>i \<in> D. int (count_list (g i) (int n))) > 0 \<longleftrightarrow> (\<exists>i \<in> D. count_list (g i) (int n) \<noteq> 0)"
    proof -
      let ?f = "\<lambda>i. int (count_list (g i) (int n))"
      have "sum ?f D \<ge> 0" by (simp add: sum_nonneg del: of_nat_sum)
      moreover have "sum ?f D = 0 \<longleftrightarrow> (\<forall>i \<in> D. ?f i = 0)"
        by (rule sum_nonneg_eq_0_iff[OF countedD(2)[OF c]]) simp
      ultimately have "sum ?f D > 0 \<longleftrightarrow> \<not> (\<forall>i \<in> D. ?f i = 0)" by linarith
      moreover have "\<not> (\<forall>i \<in> D. ?f i = 0) \<longleftrightarrow> (\<exists>i \<in> D. count_list (g i) (int n) \<noteq> 0)" by simp
      ultimately show ?thesis by (rule trans)
    qed
    then show ?thesis using countedD(3)[OF c that] by (simp add: count_list_0_iff del: of_nat_sum)
  qed
  then show "unat ` set (lens m) = {n. n < 129 \<and> (\<exists>i \<in> D. int n \<in> set (g i))}"
    using arg_cong[OF w, of set] by (auto simp: used_lens_props(1))
  show "sorted_wrt (>) (map unat (lens m))" using w used_lens_props(2) by metis
qed

lemma lens_bound:
  assumes "counted (mc_route_helper m) D g"
  shows "\<forall>n \<in> set (lens m). unat n \<le> 128"
proof
  fix n assume "n \<in> set (lens m)"
  then have "unat n \<in> unat ` set (lens m)" by (rule imageI)
  then show "unat n \<le> 128" unfolding lens_set(1)[OF assms] by simp
qed

section \<open>The routes in the table\<close>

definition net_flag :: "mroute_addr \<Rightarrow> bool" where
  "net_flag a \<longleftrightarrow> ma_type a AND MR_WITH_NETBITS \<noteq> 0"

text \<open>The addresses of packets, and of internal routes.\<close>

definition host_addr :: "mroute_addr \<Rightarrow> bool" where
  "host_addr a \<longleftrightarrow> plain_addr a \<and> (ma_type a = MR_ADDR_IPV4 \<or> ma_type a = MR_ADDR_IPV6) \<and>
     ma_proto a = 0 \<and> ma_netbits a = 0"

definition net_addr :: "mroute_addr \<Rightarrow> bool" where
  "net_addr a \<longleftrightarrow> plain_addr a \<and>
     (ma_type a = MR_ADDR_IPV4 OR MR_WITH_NETBITS \<or> ma_type a = MR_ADDR_IPV6 OR MR_WITH_NETBITS) \<and>
     ma_proto a = 0 \<and> unat (ma_netbits a) \<le> kind_bits a"

definition route_kind :: "multi_route \<Rightarrow> bool" where
  "route_kind r \<longleftrightarrow>
     (if net_flag (mr_addr r) then net_addr (mr_addr r) \<and> mr_flags r = 0
      else mr_flags r = 0 \<or> (mr_flags r = CACHE_FLAGS \<and> host_addr (mr_addr r)))"

text \<open>\<open>g i\<close>: the prefix lengths instance \<open>i\<close> has registered so far.\<close>

definition registered :: "multi_context \<Rightarrow> (nat \<Rightarrow> int list) \<Rightarrow> multi_route \<Rightarrow> bool" where
  "registered m g r \<longleftrightarrow>
     (net_flag (mr_addr r) \<longrightarrow>
       (\<forall>x. mc_inst m (mr_instance r) = Some x \<and> \<not> mi_halt x \<longrightarrow>
         int (unat (ma_netbits (mr_addr r))) \<in> set (g (mr_instance r))))"

definition net_inv :: "multi_context \<Rightarrow> (nat \<Rightarrow> int list) \<Rightarrow> bool" where
  "net_inv m g \<longleftrightarrow>
     routing_ok m \<and> counted (mc_route_helper m) (dom (mc_inst m)) g \<and>
     (\<forall>i x. mc_inst m i = Some x \<and> mi_halt x \<longrightarrow> g i = []) \<and>
     (\<forall>e \<in> set (helems (mc_vhash m)). route_kind (he_value e) \<and> registered m g (he_value e))"

lemma net_invD:
  assumes "net_inv m g"
  shows "routing_ok m" "counted (mc_route_helper m) (dom (mc_inst m)) g"
    "mc_inst m i = Some x \<Longrightarrow> mi_halt x \<Longrightarrow> g i = []"
    "e \<in> set (helems (mc_vhash m)) \<Longrightarrow> route_kind (he_value e)"
    "e \<in> set (helems (mc_vhash m)) \<Longrightarrow> registered m g (he_value e)"
  using assms by (auto simp: net_inv_def)

lemma registered_evolves:
  assumes "registered m g r" "evolves (mc_inst m) (mc_inst m')"
  shows "registered m' g r"
  unfolding registered_def
proof (intro impI allI)
  fix x assume n: "net_flag (mr_addr r)" and x: "mc_inst m' (mr_instance r) = Some x \<and> \<not> mi_halt x"
  then obtain y where "mc_inst m (mr_instance r) = Some y" "static x = static y"
    using evolvesD(1)[OF assms(2)] by blast
  then show "int (unat (ma_netbits (mr_addr r))) \<in> set (g (mr_instance r))"
    using assms(1) n x by (auto simp: registered_def static_fields)
qed

lemma evolves_dom: "evolves I J \<Longrightarrow> dom J \<subseteq> dom I"
  using evolvesD(1) by (fastforce simp: dom_def)

text \<open>The table may lose routes and gain ones of the right kind.\<close>

lemma net_inv_evolve:
  assumes i: "net_inv m g" and m': "routing_ok m'" and h: "mc_route_helper m' = mc_route_helper m"
    and ev: "evolves (mc_inst m) (mc_inst m')"
    and el: "\<And>e. e \<in> set (helems (mc_vhash m')) \<Longrightarrow> route_kind (he_value e) \<and> registered m g (he_value e)"
  shows "net_inv m' g"
proof -
  have "counted (mc_route_helper m') (dom (mc_inst m')) g"
    unfolding h
  proof (rule counted_mono[OF net_invD(2)[OF i] evolves_dom[OF ev] _ refl])
    fix j assume "j \<in> dom (mc_inst m) - dom (mc_inst m')"
    then obtain x where "mc_inst m j = Some x" "mc_inst m' j = None" by auto
    then show "g j = []" using evolvesD(4)[OF ev] net_invD(3)[OF i] by blast
  qed
  moreover have "g j = []" if "mc_inst m' j = Some x" "mi_halt x" for j x
    using evolvesD(1)[OF ev that(1)] that(2) net_invD(3)[OF i] by (auto simp: static_fields)
  ultimately show ?thesis
    using m' el registered_evolves[OF _ ev] by (auto simp: net_inv_def)
qed

lemma net_inv_unchanged:
  assumes "net_inv m g" "routing_ok m'" "unchanged m m'"
  shows "net_inv m' g"
  using assms same_rest_fields[of m m'] net_invD(4,5)[OF assms(1)]
  by (intro net_inv_evolve[OF assms(1,2)]) (auto simp: unchanged_def)

lemma net_inv_learned:
  assumes i: "net_inv m g" and m': "routing_ok m'" and l: "learned m j a fl m'"
    and k: "route_kind (new_route m j a fl)"
    and n: "net_flag a \<Longrightarrow> int (unat (ma_netbits a)) \<in> set (g j)"
  shows "net_inv m' g"
proof (rule net_inv_evolve[OF i m'])
  show "mc_route_helper m' = mc_route_helper m" "evolves (mc_inst m) (mc_inst m')"
    using l same_rest_fields[of m m'] by (auto simp: learned_def)
  fix e assume e: "e \<in> set (helems (mc_vhash m'))"
  have "registered m g (new_route m j a fl)" using n by (simp add: registered_def new_route_def)
  then show "route_kind (he_value e) \<and> registered m g (he_value e)"
    using l e k net_invD(4,5)[OF i] by (auto simp: learned_def)
qed

lemma net_inv_touched:
  assumes i: "net_inv m g" and m': "routing_ok m'" and t: "touched m a r m'"
    and r: "hash_abs (mc_vhash m) a = Some r"
  shows "net_inv m' g"
proof (rule net_inv_evolve[OF i m'])
  show "mc_route_helper m' = mc_route_helper m" "evolves (mc_inst m) (mc_inst m')"
    using t same_rest_fields[of m m'] by (auto simp: touched_def)
  fix e assume e: "e \<in> set (helems (mc_vhash m'))"
  obtain e0 where e0: "e0 \<in> set (helems (mc_vhash m))" "he_value e0 = r"
    using hash_abs_route(1)[OF net_invD(1)[OF i] r] by blast
  have "route_kind (r\<lparr>mr_last_reference := t\<rparr>) = route_kind r"
    "registered m g (r\<lparr>mr_last_reference := t\<rparr>) = registered m g r" for t
    by (simp_all add: route_kind_def registered_def)
  then show "route_kind (he_value e) \<and> registered m g (he_value e)"
    using t e e0 net_invD(4,5)[OF i] by (auto simp: touched_def)
qed

lemma net_inv_swept:
  assumes "net_inv m g" "routing_ok m'" "swept_routes Q m m'"
  shows "net_inv m' g"
  using assms same_rest_fields[of m m'] net_invD(4,5)[OF assms(1)]
  by (intro net_inv_evolve[OF assms(1,2)]) (auto simp: swept_routes_def)

section \<open>Internal routes\<close>

definition iroute_ok :: "iroute \<Rightarrow> bool" where
  "iroute_ok ir \<longleftrightarrow> 0 \<le> ir_netbits ir \<and> ir_netbits ir \<le> 32"

definition iroute_ipv6_ok :: "iroute_ipv6 \<Rightarrow> bool" where
  "iroute_ipv6_ok ir \<longleftrightarrow> length (ir6_network ir) = 16 \<and> unat (ir6_netbits ir) \<le> 128"

text \<open>The rest of the context, the route helper's counts aside.\<close>

definition frame :: "multi_context \<Rightarrow> multi_context \<Rightarrow> bool" where
  "frame m m' \<longleftrightarrow>
     mc_local m' = mc_local m \<and> mc_now m' = mc_now m \<and> mc_dev_type m' = mc_dev_type m \<and>
     mc_stale_routes_ageing_time m' = mc_stale_routes_ageing_time m \<and> mc_reaper m' = mc_reaper m \<and>
     mc_enable_c2c m' = mc_enable_c2c m \<and>
     ageable_ttl_secs (mc_route_helper m') = ageable_ttl_secs (mc_route_helper m)"

lemma frame_refl [simp]: "frame m m"
  by (simp add: frame_def)

lemma frame_trans: "frame m m' \<Longrightarrow> frame m' m'' \<Longrightarrow> frame m m''"
  by (simp add: frame_def)

lemma same_rest_frame: "same_rest m m' \<Longrightarrow> frame m m'"
  using same_rest_fields[of m m'] by (simp add: frame_def)

definition cached_subset :: "multi_context \<Rightarrow> multi_context \<Rightarrow> bool" where
  "cached_subset m m' \<longleftrightarrow>
     (\<forall>e \<in> set (helems (mc_vhash m')). mr_flags (he_value e) \<noteq> 0 \<longrightarrow> e \<in> set (helems (mc_vhash m)))"

text \<open>One step of the loops of \<^verbatim>\<open>multi_add_iroutes\<close>.\<close>

lemma helper_add_ok:
  assumes i: "net_inv m g" and j: "mc_inst m j = Some x" "\<not> mi_halt x" and n: "0 \<le> n" "n < 129"
  shows "\<exists>m1. helper_add m n = Some m1 \<and> net_inv m1 (g(j := g j @ [n])) \<and> frame m m1 \<and>
    mc_inst m1 = mc_inst m \<and> mc_vhash m1 = mc_vhash m \<and>
    cache_generation (mc_route_helper m1) = cache_generation (mc_route_helper m) + 1"
proof -
  have "j \<in> dom (mc_inst m)" using j by blast
  from counted_add[OF net_invD(2)[OF i] this n] obtain mh where
    a: "mroute_helper_add_iroute46 (mc_route_helper m) n = Some mh"
    "counted mh (dom (mc_inst m)) (g(j := g j @ [n]))"
    "cache_generation mh = cache_generation (mc_route_helper m) + 1"
    "ageable_ttl_secs mh = ageable_ttl_secs (mc_route_helper m)" by blast
  let ?m1 = "m\<lparr>mc_route_helper := mh\<rparr>"
  have "registered ?m1 (g(j := g j @ [n])) r" if "registered m g r" for r
    using that by (auto simp: registered_def)
  then have "net_inv ?m1 (g(j := g j @ [n]))"
    using i a(2) j by (auto simp: net_inv_def routing_ok_def)
  then show ?thesis using a by (simp add: helper_add_def frame_def)
qed

lemma learn_net_ok:
  assumes i: "net_inv m g" and j: "mc_inst m j = Some x" "\<not> mi_halt x"
    and a: "net_addr a" "net_flag a" "int (unat (ma_netbits a)) \<in> set (g j)"
  shows "\<exists>owner m'. multi_learn_addr script m j a 0 = Some (owner, m') \<and> net_inv m' g \<and> frame m m' \<and>
    (\<exists>y. mc_inst m' j = Some y \<and> static y = static x) \<and> cached_subset m m' \<and>
    mc_route_helper m' = mc_route_helper m \<and> evolves (mc_inst m) (mc_inst m')"
proof -
  from learn_ok[OF net_invD(1)[OF i] j] obtain owner m' where
    l: "multi_learn_addr script m j a 0 = Some (owner, m')" "routing_ok m'"
    "unchanged m m' \<or> learned m j a 0 m'" by blast
  have k: "route_kind (new_route m j a 0)" using a by (simp add: route_kind_def new_route_def)
  have n: "net_inv m' g"
    using l net_inv_unchanged[OF i l(2)] net_inv_learned[OF i l(2) _ k] a(3) by auto
  have s: "same_rest m m'" "evolves (mc_inst m) (mc_inst m')"
    using l(3) by (auto simp: unchanged_def learned_def)
  have "cached_subset m m'"
    using l(3) by (auto simp: cached_subset_def unchanged_def learned_def new_route_def)
  then show ?thesis
    using l(1) n s same_rest_frame[OF s(1)] evolvesD(2)[OF s(2) j] same_rest_fields(1)[OF s(1)] by auto
qed

lemma addr_consts:
  "MR_ADDR_IPV4 \<noteq> MR_ADDR_IPV6" "MR_ADDR_IPV4 AND MR_ADDR_MASK = MR_ADDR_IPV4"
  "MR_ADDR_IPV6 AND MR_ADDR_MASK = MR_ADDR_IPV6"
  "(MR_ADDR_IPV4 OR MR_WITH_NETBITS) AND MR_ADDR_MASK = MR_ADDR_IPV4"
  "(MR_ADDR_IPV6 OR MR_WITH_NETBITS) AND MR_ADDR_MASK = MR_ADDR_IPV6"
  "(t OR MR_WITH_NETBITS) AND MR_WITH_NETBITS \<noteq> 0"
  "MR_ADDR_IPV4 AND MR_WITH_NETBITS = 0" "MR_ADDR_IPV6 AND MR_WITH_NETBITS = 0"
  by (simp_all add: MR_ADDR_IPV4_def MR_ADDR_IPV6_def MR_ADDR_MASK_def MR_WITH_NETBITS_def
      bit.conj_disj_distrib2)

definition v4_net :: "u32 \<Rightarrow> int \<Rightarrow> mroute_addr" where
  "v4_net a n =
     \<lparr>ma_len = 4, ma_proto = 0, ma_type = MR_ADDR_IPV4 OR MR_WITH_NETBITS, ma_netbits = of_int n,
      ma_raw = mem_put (replicate 20 0) 0 (enc32 a)\<rparr>"

lemma unat_of_int_byte: "0 \<le> n \<Longrightarrow> n \<le> 128 \<Longrightarrow> unat (of_int n :: byte) = nat n"
  by (erule nonneg_int_cases) (simp add: unat_of_nat)

lemma v4_net_sel [simp]:
  "ma_len (v4_net a n) = 4" "ma_proto (v4_net a n) = 0"
  "ma_type (v4_net a n) = MR_ADDR_IPV4 OR MR_WITH_NETBITS"
  by (simp_all add: v4_net_def)

lemma v4_net_addr:
  assumes "0 \<le> n" "n \<le> 32"
  shows "net_addr (v4_net a n)" "net_flag (v4_net a n)" "int (unat (ma_netbits (v4_net a n))) = n"
proof -
  show u: "int (unat (ma_netbits (v4_net a n))) = n"
    using assms unat_of_int_byte[of n] by (simp add: v4_net_def)
  have le: "unat (ma_netbits (v4_net a n)) \<le> 32"
    using assms unat_of_int_byte[of n] by (simp add: v4_net_def)
  have k: "addr_kind (v4_net a n) = MR_ADDR_IPV4" by (simp add: addr_kind_def v4_net_def addr_consts)
  then have "kind_bits (v4_net a n) = 32" by (simp add: kind_bits_def)
  moreover have "mroute_wf (v4_net a n)"
    by (simp add: mroute_wf_def v4_net_def MR_MAX_ADDR_LEN_def mem_simps codec_simps)
  ultimately show "net_addr (v4_net a n)"
    using le k by (simp add: net_addr_def plain_addr_def ip_addr_def)
  show "net_flag (v4_net a n)" by (simp add: net_flag_def MR_WITH_NETBITS_def)
qed

lemma learn_in_addr_t_net:
  assumes "0 \<le> n"
  shows "multi_learn_in_addr_t script m mi a n False = multi_learn_addr script m mi (v4_net a n) 0"
  using assms
  by (simp add: multi_learn_in_addr_t_def mroute_addr_init_def v4_net_def Let_def MR_MAX_ADDR_LEN_def bind_eq_Some_conv
      split: option.split)

definition v6_base :: "byte list \<Rightarrow> int \<Rightarrow> mroute_addr" where
  "v6_base a n =
     \<lparr>ma_len = 16, ma_proto = 0, ma_type = MR_ADDR_IPV6 OR MR_WITH_NETBITS, ma_netbits = of_int n,
      ma_raw = mem_put (replicate 20 0) 0 a\<rparr>"

lemma v6_base_sel [simp]:
  "ma_len (v6_base a n) = 16" "ma_proto (v6_base a n) = 0"
  "ma_type (v6_base a n) = MR_ADDR_IPV6 OR MR_WITH_NETBITS"
  by (simp_all add: v6_base_def)

lemma v6_net_addr:
  assumes l: "length a = 16" and n: "0 \<le> n" "n \<le> 128"
  shows "\<exists>raw. mroute_addr_mask_host_bits (v6_base a n) = Some ((v6_base a n)\<lparr>ma_raw := raw\<rparr>) \<and>
    net_addr ((v6_base a n)\<lparr>ma_raw := raw\<rparr>) \<and> net_flag ((v6_base a n)\<lparr>ma_raw := raw\<rparr>) \<and>
    int (unat (ma_netbits ((v6_base a n)\<lparr>ma_raw := raw\<rparr>))) = n"
proof -
  have u: "int (unat (ma_netbits (v6_base a n))) = n"
    using n unat_of_int_byte[of n] by (simp add: v6_base_def)
  have k: "addr_kind (v6_base a n) = MR_ADDR_IPV6" by (simp add: addr_kind_def v6_base_def addr_consts)
  then have kb: "kind_bits (v6_base a n) = 128" by (simp add: kind_bits_def addr_consts(1)[symmetric])
  have w: "mroute_wf (v6_base a n)"
    using l by (simp add: mroute_wf_def v6_base_def MR_MAX_ADDR_LEN_def mem_simps)
  have ip: "ip_addr (v6_base a n)" using k by (simp add: ip_addr_def)
  from mask_host_bits_bits[OF w ip] obtain raw where
    r: "mroute_addr_mask_host_bits (v6_base a n) = Some ((v6_base a n)\<lparr>ma_raw := raw\<rparr>)"
    "length raw = length (ma_raw (v6_base a n))" using u n kb by auto
  let ?a = "(v6_base a n)\<lparr>ma_raw := raw\<rparr>"
  have k': "addr_kind ?a = MR_ADDR_IPV6" using k by (simp add: addr_kind_def)
  then have kb': "kind_bits ?a = 128" by (simp add: kind_bits_def addr_consts(1)[symmetric])
  have "mroute_wf ?a" using w r(2) by (simp add: mroute_wf_def)
  then have "plain_addr ?a" using k' kb' by (simp add: plain_addr_def ip_addr_def)
  moreover have "unat (ma_netbits (v6_base a n)) \<le> 128"
    using n unat_of_int_byte[of n] by (simp add: v6_base_def)
  ultimately have "net_addr ?a" using kb' by (simp add: net_addr_def)
  moreover have "net_flag ?a" by (simp add: net_flag_def MR_WITH_NETBITS_def)
  ultimately show ?thesis using r u by auto
qed

lemma learn_in6_addr_net:
  assumes "0 \<le> n" "mroute_addr_mask_host_bits (v6_base a n) = Some k"
  shows "multi_learn_in6_addr script m mi a n False = multi_learn_addr script m mi k 0"
proof -
  have "mroute_addr_init\<lparr>ma_len := 16, ma_type := MR_ADDR_IPV6, ma_netbits := 0,
      ma_raw := mem_put (ma_raw mroute_addr_init) 0 a\<rparr>
      \<lparr>ma_type := MR_ADDR_IPV6 OR MR_WITH_NETBITS, ma_netbits := of_int n\<rparr> = v6_base a n"
    by (simp add: mroute_addr_init_def v6_base_def MR_MAX_ADDR_LEN_def)
  then show ?thesis
    using assms
    by (simp add: multi_learn_in6_addr_def Let_def)
qed

text \<open>What the loops over the internal routes of instance \<open>j\<close> have done.\<close>

definition iroutes_added ::
  "multi_context \<Rightarrow> (nat \<Rightarrow> int list) \<Rightarrow> nat \<Rightarrow> multi_instance \<Rightarrow> int list \<Rightarrow> multi_context \<Rightarrow> bool" where
  "iroutes_added m g j x ns m' \<longleftrightarrow>
     net_inv m' (g(j := g j @ ns)) \<and> frame m m' \<and> evolves (mc_inst m) (mc_inst m') \<and>
     (\<exists>y. mc_inst m' j = Some y \<and> static y = static x) \<and> cached_subset m m' \<and>
     cache_generation (mc_route_helper m') = cache_generation (mc_route_helper m) + of_nat (length ns)"

lemma iroutes_added_Nil: "net_inv m g \<Longrightarrow> mc_inst m j = Some x \<Longrightarrow> iroutes_added m g j x [] m"
  by (simp add: iroutes_added_def cached_subset_def)

lemma iroutes_added_trans:
  assumes "iroutes_added m g j x ns m1" "iroutes_added m1 (g(j := g j @ ns)) j y ks m2" "static y = static x"
  shows "iroutes_added m g j x (ns @ ks) m2"
  using assms evolves_trans[of "mc_inst m" "mc_inst m1" "mc_inst m2"] frame_trans[of m m1 m2]
  by (auto simp: iroutes_added_def cached_subset_def add.assoc)

lemma iroutes_added_one:
  assumes i: "net_inv m g" and j: "mc_inst m j = Some x" "\<not> mi_halt x" and n: "0 \<le> n" "n < 129"
    and a: "net_addr a" "net_flag a" "int (unat (ma_netbits a)) = n"
  shows "\<exists>m1 owner m2. helper_add m n = Some m1 \<and> multi_learn_addr script m1 j a 0 = Some (owner, m2) \<and>
    iroutes_added m g j x [n] m2"
proof -
  from helper_add_ok[OF i j n] obtain m1 where
    h: "helper_add m n = Some m1" "net_inv m1 (g(j := g j @ [n]))" "frame m m1" "mc_inst m1 = mc_inst m"
    "mc_vhash m1 = mc_vhash m"
    "cache_generation (mc_route_helper m1) = cache_generation (mc_route_helper m) + 1" by blast
  have j1: "mc_inst m1 j = Some x" using h(4) j by simp
  have "int (unat (ma_netbits a)) \<in> set ((g(j := g j @ [n])) j)" using a(3) by simp
  from learn_net_ok[OF h(2) j1 j(2) a(1,2) this] obtain owner m2 where
    "multi_learn_addr script m1 j a 0 = Some (owner, m2)" "net_inv m2 (g(j := g j @ [n]))" "frame m1 m2"
    "\<exists>y. mc_inst m2 j = Some y \<and> static y = static x" "cached_subset m1 m2"
    "mc_route_helper m2 = mc_route_helper m1" "evolves (mc_inst m1) (mc_inst m2)" by blast
  then show ?thesis
    using h frame_trans[OF h(3)] by (auto simp: iroutes_added_def cached_subset_def)
qed

lemma add_v4_ok:
  assumes "net_inv m g" "mc_inst m j = Some x" "\<not> mi_halt x" "\<forall>ir \<in> set irs. iroute_ok ir"
  shows "\<exists>m'. add_iroutes_v4 script m j irs = Some m' \<and> iroutes_added m g j x (map ir_netbits irs) m'"
  using assms
proof (induction irs arbitrary: m g x)
  case (Cons ir irs)
  have n: "0 \<le> ir_netbits ir" "ir_netbits ir \<le> 32" using Cons(5) by (auto simp: iroute_ok_def)
  then have n': "ir_netbits ir < 129" by simp
  from iroutes_added_one[OF Cons(2-4) n(1) n' v4_net_addr[OF n]] obtain m1 ow m2 where
    1: "helper_add m (ir_netbits ir) = Some m1"
    "multi_learn_addr script m1 j (v4_net (ir_network ir) (ir_netbits ir)) 0 = Some (ow, m2)"
    "iroutes_added m g j x [ir_netbits ir] m2" by blast
  then obtain y where y: "mc_inst m2 j = Some y" "static y = static x" "net_inv m2 (g(j := g j @ [ir_netbits ir]))"
    by (auto simp: iroutes_added_def)
  then have "\<not> mi_halt y" using Cons(4) by (simp add: static_fields)
  moreover have "\<forall>ir \<in> set irs. iroute_ok ir" using Cons(5) by simp
  ultimately have "\<exists>m'. add_iroutes_v4 script m2 j irs = Some m' \<and>
      iroutes_added m2 (g(j := g j @ [ir_netbits ir])) j y (map ir_netbits irs) m'"
    by (rule Cons(1)[OF y(3,1)])
  then obtain m3 where
    2: "add_iroutes_v4 script m2 j irs = Some m3"
    "iroutes_added m2 (g(j := g j @ [ir_netbits ir])) j y (map ir_netbits irs) m3" by blast
  have "iroutes_added m g j x (map ir_netbits (ir # irs)) m3"
    using iroutes_added_trans[OF 1(3) 2(2) y(2)] by simp
  then show ?case using 1 2 n by (simp add: learn_in_addr_t_net)
qed (simp add: iroutes_added_Nil)

lemma signed_take_bit_small: "0 \<le> k \<Longrightarrow> k \<le> 128 \<Longrightarrow> signed_take_bit 31 k = (k::int)"
  by (rule signed_take_bit_int_eq_self) simp_all

lemma sint_small_u32:
  assumes "unat (w :: u32) \<le> 128"
  shows "0 \<le> sint w \<and> sint w \<le> 128"
proof -
  have u: "uint w \<le> 128" using assms by (metis int_eq_iff_numeral of_nat_le_iff of_nat_numeral uint_nat)
  have "sint w = signed_take_bit 31 (uint w)" by (subst sint_uint) simp
  also have "\<dots> = uint w" by (rule signed_take_bit_small[OF unsigned_greater_eq u])
  finally show ?thesis using u by simp
qed

lemma add_v6_ok:
  assumes "net_inv m g" "mc_inst m j = Some x" "\<not> mi_halt x" "\<forall>ir \<in> set irs. iroute_ipv6_ok ir"
  shows "\<exists>m'. add_iroutes_v6 script m j irs = Some m' \<and>
    iroutes_added m g j x (map (\<lambda>ir. sint (ir6_netbits ir)) irs) m'"
  using assms
proof (induction irs arbitrary: m g x)
  case (Cons ir irs)
  let ?n = "sint (ir6_netbits ir)"
  have u: "unat (ir6_netbits ir) \<le> 128" "length (ir6_network ir) = 16"
    using Cons(5) by (auto simp: iroute_ipv6_ok_def)
  have n: "0 \<le> ?n" "?n \<le> 128" using sint_small_u32[OF u(1)] by auto
  then have n': "?n < 129" by simp
  from v6_net_addr[OF u(2) n] obtain raw where
    k: "mroute_addr_mask_host_bits (v6_base (ir6_network ir) ?n) = Some ((v6_base (ir6_network ir) ?n)\<lparr>ma_raw := raw\<rparr>)"
    "net_addr ((v6_base (ir6_network ir) ?n)\<lparr>ma_raw := raw\<rparr>)" "net_flag ((v6_base (ir6_network ir) ?n)\<lparr>ma_raw := raw\<rparr>)"
    "int (unat (ma_netbits ((v6_base (ir6_network ir) ?n)\<lparr>ma_raw := raw\<rparr>))) = ?n" by blast
  from iroutes_added_one[OF Cons(2-4) n(1) n' k(2-4)] obtain m1 ow m2 where
    1: "helper_add m ?n = Some m1"
    "multi_learn_addr script m1 j ((v6_base (ir6_network ir) ?n)\<lparr>ma_raw := raw\<rparr>) 0 = Some (ow, m2)"
    "iroutes_added m g j x [?n] m2" by blast
  then obtain y where y: "mc_inst m2 j = Some y" "static y = static x" "net_inv m2 (g(j := g j @ [?n]))"
    by (auto simp: iroutes_added_def)
  then have "\<not> mi_halt y" using Cons(4) by (simp add: static_fields)
  moreover have "\<forall>ir \<in> set irs. iroute_ipv6_ok ir" using Cons(5) by simp
  ultimately have "\<exists>m'. add_iroutes_v6 script m2 j irs = Some m' \<and>
      iroutes_added m2 (g(j := g j @ [?n])) j y (map (\<lambda>ir. sint (ir6_netbits ir)) irs) m'"
    by (rule Cons(1)[OF y(3,1)])
  then obtain m3 where
    2: "add_iroutes_v6 script m2 j irs = Some m3"
    "iroutes_added m2 (g(j := g j @ [?n])) j y (map (\<lambda>ir. sint (ir6_netbits ir)) irs) m3" by blast
  have "iroutes_added m g j x (map (\<lambda>ir. sint (ir6_netbits ir)) (ir # irs)) m3"
    using iroutes_added_trans[OF 1(3) 2(2) y(2)] by simp
  then show ?case using 1 2 learn_in6_addr_net[OF n(1) k(1)] by simp
qed (simp add: iroutes_added_Nil)

lemma helper_del_list_ok:
  assumes "counted (mc_route_helper m) D g" "j \<in> D" "g j = ns" "z = g(j := [])"
  shows "\<exists>mh. helper_del_list m ns = Some (m\<lparr>mc_route_helper := mh\<rparr>) \<and> counted mh D z \<and>
    cache_generation mh = cache_generation (mc_route_helper m) + of_nat (length ns) \<and>
    ageable_ttl_secs mh = ageable_ttl_secs (mc_route_helper m)"
  using assms
proof (induction ns arbitrary: m g)
  case Nil
  then have "z = g" by (metis fun_upd_triv)
  then show ?case using Nil by (intro exI[of _ "mc_route_helper m"]) simp
next
  case (Cons n ns)
  from counted_del[OF Cons(2-4)] obtain mh where
    1: "mroute_helper_del_iroute46 (mc_route_helper m) n = Some mh" "counted mh D (g(j := ns))"
    "cache_generation mh = cache_generation (mc_route_helper m) + 1"
    "ageable_ttl_secs mh = ageable_ttl_secs (mc_route_helper m)" by blast
  have c: "counted (mc_route_helper (m\<lparr>mc_route_helper := mh\<rparr>)) D (g(j := ns))" using 1(2) by simp
  have "(g(j := ns)) j = ns" "z = (g(j := ns))(j := [])"
    by (simp, simp only: Cons(5) fun_upd_upd)
  from Cons(1)[OF c Cons(3) this] obtain mh' where
    "helper_del_list (m\<lparr>mc_route_helper := mh\<rparr>) ns = Some (m\<lparr>mc_route_helper := mh'\<rparr>)"
    "counted mh' D z" "cache_generation mh' = cache_generation mh + of_nat (length ns)"
    "ageable_ttl_secs mh' = ageable_ttl_secs mh" by auto
  then show ?case using 1 by (intro exI[of _ mh']) (simp add: helper_del_def add.assoc)
qed

end
