(* ===== verification/Multi_Route_Run.thy ===== *)
theory Multi_Route_Run
  imports Multi_Route_Lpm
begin

text \<open>
  The server's routing table at work: the invariant every operation keeps, the calls the server
  makes as a step relation, and that none of them ever fails.
\<close>

unbundle bit_operations_syntax

section \<open>The invariant of the server's routes\<close>

text \<open>The prefix lengths an instance has registered: those of its internal routes, once they are installed.\<close>

definition inst_lens :: "multi_instance \<Rightarrow> int list" where
  "inst_lens x = (if mi_did_iroutes x then iroute_lens x else [])"

definition gof :: "multi_context \<Rightarrow> nat \<Rightarrow> int list" where
  "gof m i = (case mc_inst m i of None \<Rightarrow> [] | Some x \<Rightarrow> inst_lens x)"

definition inst_ok :: "dev_type \<Rightarrow> multi_instance \<Rightarrow> bool" where
  "inst_ok dev x \<longleftrightarrow>
     (mi_halt x \<longrightarrow> \<not> mi_did_iroutes x) \<and> (mi_did_iroutes x \<longrightarrow> dev = DEV_TYPE_TUN) \<and>
     (\<forall>ir \<in> set (mi_iroutes x). iroute_ok ir) \<and> (\<forall>ir \<in> set (mi_iroutes_ipv6 x). iroute_ipv6_ok ir)"

definition route_inv :: "multi_context \<Rightarrow> bool" where
  "route_inv m \<longleftrightarrow>
     net_inv m (gof m) \<and> (\<forall>i x. mc_inst m i = Some x \<longrightarrow> inst_ok (mc_dev_type m) x) \<and>
     0 \<le> bucket_base (mc_reaper m) \<and> 0 \<le> buckets_per_pass (mc_reaper m)"

lemma route_invD:
  assumes "route_inv m"
  shows "net_inv m (gof m)" "mc_inst m i = Some x \<Longrightarrow> inst_ok (mc_dev_type m) x"
    "0 \<le> bucket_base (mc_reaper m)" "0 \<le> buckets_per_pass (mc_reaper m)" "routing_ok m"
  using assms net_invD(1) by (auto simp: route_inv_def)

lemma gof_Some: "mc_inst m i = Some x \<Longrightarrow> gof m i = inst_lens x"
  by (simp add: gof_def)

lemma static_lens: "static x = static y \<Longrightarrow> inst_lens x = inst_lens y"
  by (simp add: static_fields inst_lens_def iroute_lens_def)

lemma static_inst_ok: "static x = static y \<Longrightarrow> inst_ok d x = inst_ok d y"
  by (simp add: static_fields inst_ok_def)

lemma net_inv_cong:
  assumes i0: "net_inv m g" and g: "\<And>i. i \<in> dom (mc_inst m) \<Longrightarrow> g' i = g i"
  shows "net_inv m g'"
proof -
  have "counted (mc_route_helper m) (dom (mc_inst m)) g'"
    by (rule counted_mono[OF net_invD(2)[OF i0] subset_refl]) (simp_all add: g)
  moreover have "registered m g' r" if "registered m g r" for r
    using that g by (auto simp: registered_def dom_def)
  moreover have "g' i = []" if "mc_inst m i = Some x" "mi_halt x" for i x
    using g[of i] net_invD(3)[OF i0 that] that(1) by (simp add: dom_def)
  ultimately show ?thesis using i0 by (simp add: net_inv_def)
qed

lemma gof_evolves:
  assumes "evolves (mc_inst m) (mc_inst m')" "i \<in> dom (mc_inst m')"
  shows "gof m' i = gof m i"
proof -
  obtain y where y: "mc_inst m' i = Some y" using assms(2) by blast
  then obtain x where "mc_inst m i = Some x" "static y = static x" using evolvesD(1)[OF assms(1)] by blast
  then show ?thesis using y static_lens[of y] by (auto simp: gof_def)
qed

lemma route_inv_evolves:
  assumes i: "route_inv m" and n: "net_inv m' (gof m)" and ev: "evolves (mc_inst m) (mc_inst m')"
    and f: "mc_dev_type m' = mc_dev_type m" "mc_reaper m' = mc_reaper m"
  shows "route_inv m'"
proof -
  have "net_inv m' (gof m')" by (rule net_inv_cong[OF n]) (rule gof_evolves[OF ev])
  moreover have "inst_ok (mc_dev_type m') y" if "mc_inst m' j = Some y" for j y
  proof -
    from evolvesD(1)[OF ev that] obtain x where x: "mc_inst m j = Some x" "static y = static x" by blast
    show ?thesis using route_invD(2)[OF i x(1)] static_inst_ok[OF x(2)] f(1) by simp
  qed
  ultimately show ?thesis using route_invD(3,4)[OF i] f(2) by (simp add: route_inv_def)
qed

lemma route_inv_frame:
  assumes "route_inv m" "net_inv m' (gof m)" "evolves (mc_inst m) (mc_inst m')" "same_rest m m'"
  shows "route_inv m' \<and> frame m m'"
  using route_inv_evolves[OF assms(1-3)] same_rest_fields[OF assms(4)] same_rest_frame[OF assms(4)] by blast

text \<open>The outcome of an operation on the routes alone.\<close>

lemma inv_unchanged:
  assumes i: "route_inv m" and m': "routing_ok m'" and u: "unchanged m m'"
  shows "route_inv m' \<and> frame m m'"
  using route_inv_frame[OF i net_inv_unchanged[OF route_invD(1)[OF i] m' u] unchanged_evolves[OF u]] u
  by (simp add: unchanged_def)

lemma inv_swept:
  assumes i: "route_inv m" and m': "routing_ok m'" and u: "swept_routes Q m m'"
  shows "route_inv m' \<and> frame m m'"
  using route_inv_frame[OF i net_inv_swept[OF route_invD(1)[OF i] m' u]] u
  by (simp add: swept_routes_def)

lemma inv_touched:
  assumes "route_inv m" "routing_ok m'" "touched m a r m'" "hash_abs (mc_vhash m) a = Some r"
  shows "route_inv m' \<and> frame m m'"
  using route_inv_frame[OF assms(1) net_inv_touched[OF route_invD(1)[OF assms(1)] assms(2-4)]] assms(3)
  by (auto simp: touched_def)

lemma inv_learned:
  assumes "route_inv m" "routing_ok m'" "learned m j a fl m'" "route_kind (new_route m j a fl)" "\<not> net_flag a"
  shows "route_inv m' \<and> frame m m'"
  using route_inv_frame[OF assms(1) net_inv_learned[OF route_invD(1)[OF assms(1)] assms(2-4)]] assms(3,5)
  by (auto simp: learned_def)

section \<open>Every operation keeps it\<close>

lemma learn_host_inv:
  assumes i: "route_inv m" and x: "mc_inst m j = Some x" "\<not> mi_halt x" and a: "\<not> net_flag a"
  shows "\<exists>owner m'. multi_learn_addr script m j a 0 = Some (owner, m') \<and> route_inv m' \<and> frame m m' \<and>
    (unchanged m m' \<or> learned m j a 0 m')"
proof -
  from learn_ok[OF route_invD(5)[OF i] x, of script a 0] obtain owner m' where
    l: "multi_learn_addr script m j a 0 = Some (owner, m')" "routing_ok m'"
    "unchanged m m' \<or> learned m j a 0 m'" by blast
  have "route_kind (new_route m j a 0)" using a by (simp add: route_kind_def new_route_def)
  then show ?thesis using l inv_unchanged[OF i l(2)] inv_learned[OF i l(2) _ _ a] by blast
qed

lemma host_not_net: "host_addr a \<Longrightarrow> \<not> net_flag a"
  by (auto simp: host_addr_def net_flag_def addr_consts)

lemma lookup_inv:
  assumes i: "route_inv m" and a: "cidr \<Longrightarrow> host_addr a"
  shows "\<exists>m'. multi_get_instance_by_virtual_addr script m a cidr = Some (virtual_owner m a cidr, m') \<and>
    route_inv m' \<and> frame m m' \<and>
    (unchanged m m' \<or> (\<exists>r. hash_abs (mc_vhash m) a = Some r \<and> live m r \<and> touched m a r m') \<or>
     (\<exists>i. cidr \<and> table_owner m a = None \<and> lpm_search m a (lens m) = Some i \<and> learned m i a CACHE_FLAGS m'))"
proof -
  have w: "cidr \<Longrightarrow> mroute_wf a \<and> ip_addr a" using a by (auto simp: host_addr_def plain_addr_def)
  from virtual_addr_ok[where script = script, OF route_invD(5)[OF i] w lens_bound[OF net_invD(2)[OF route_invD(1)[OF i]]]]
  obtain m' where m': "multi_get_instance_by_virtual_addr script m a cidr = Some (virtual_owner m a cidr, m')"
    "routing_ok m'" and c:
    "unchanged m m' \<or> (\<exists>r. hash_abs (mc_vhash m) a = Some r \<and> live m r \<and> touched m a r m') \<or>
     (\<exists>i. cidr \<and> table_owner m a = None \<and> lpm_search m a (lens m) = Some i \<and> learned m i a CACHE_FLAGS m')" by blast
  have "route_kind (new_route m j a CACHE_FLAGS)" if cidr for j
    using a[OF that] host_not_net[OF a[OF that]] by (simp add: route_kind_def new_route_def)
  then have "route_inv m' \<and> frame m m'"
    using c inv_unchanged[OF i m'(2)] inv_touched[OF i m'(2)]
      inv_learned[OF i m'(2) _ _ host_not_net[OF a]] by blast
  then show ?thesis using m' c by blast
qed

lemma n_buckets_nonneg: "route_inv m \<Longrightarrow> 0 \<le> n_buckets (mc_vhash m)"
  using routing_okD(1)[OF route_invD(5)] by (fastforce simp: hash_wf_def hash_shape_def)

lemma reap_inv:
  assumes i: "route_inv m"
  shows "\<exists>m'. multi_reap_process m = Some m' \<and> route_inv m' \<and>
    (m' = m \<or> (\<exists>m1. swept_routes (\<lambda>r. \<not> live m r) m m1 \<and> routing_ok m1 \<and>
       m' = m1\<lparr>mc_reaper := mc_reaper m'\<rparr> \<and> 0 \<le> bucket_base (mc_reaper m') \<and>
       buckets_per_pass (mc_reaper m') = buckets_per_pass (mc_reaper m)))"
proof (cases "last_call (mc_reaper m) = mc_now m")
  case True
  then show ?thesis using i by (auto simp: multi_reap_process_def)
next
  case False
  define mr where "mr = (if bucket_base (mc_reaper m) \<ge> hash_n_buckets (mc_vhash m)
    then (mc_reaper m)\<lparr>bucket_base := 0\<rparr> else mc_reaper m)"
  have nb: "0 \<le> n_buckets (mc_vhash m)"
    by (rule n_buckets_nonneg[OF i])
  have mr: "0 \<le> bucket_base mr" "bucket_base mr \<le> n_buckets (mc_vhash m)"
    "buckets_per_pass mr = buckets_per_pass (mc_reaper m)" "0 \<le> buckets_per_pass mr"
    using route_invD(3,4)[OF i] nb by (auto simp: mr_def hash_n_buckets_def)
  have d: "deletes m reap_body (\<lambda>e. \<not> live m (he_value e))" by (rule reap_body_deletes)
  have le: "bucket_base mr \<le> bucket_base mr + buckets_per_pass mr" using mr by simp
  from sweep_routes_ok[OF route_invD(5)[OF i] d mr(1) le mr(2)] obtain m1 where
    s: "sweep_routes reap_body m (bucket_base mr) (bucket_base mr + buckets_per_pass mr) = Some m1"
    "routing_ok m1" "swept_routes (\<lambda>r. \<not> live m r) m m1" by blast
  define m2 where "m2 = m1\<lparr>mc_reaper := mr\<lparr>bucket_base := bucket_base mr + buckets_per_pass mr,
    last_call := mc_now m\<rparr>\<rparr>"
  have "multi_reap_process m = Some m2"
    using False s(1) mr(1)
    by (simp add: multi_reap_process_def multi_reap_process_dowork_def Let_def mr_def[symmetric]
        multi_reap_range_def m2_def)
  moreover have i1: "route_inv m1" using inv_swept[OF i s(2,3)] by blast
  moreover have "route_inv m2"
  proof -
    have "gof m2 = gof m1" by (simp add: gof_def m2_def fun_eq_iff)
    then have "net_inv m2 (gof m2)"
      using route_invD(1)[OF i1] by (simp add: net_inv_def routing_ok_def registered_def m2_def)
    then show ?thesis using i1 mr by (simp add: route_inv_def m2_def)
  qed
  ultimately show ?thesis using s mr by (auto simp: m2_def)
qed

lemma stale_inv:
  assumes i: "route_inv m"
  shows "\<exists>m'. check_stale_routes m = Some m' \<and> route_inv m'"
proof -
  have "0 \<le> n_buckets (mc_vhash m)"
    by (rule n_buckets_nonneg[OF i])
  from sweep_routes_ok[OF route_invD(5)[OF i] stale_body_deletes, of 0 "n_buckets (mc_vhash m)"] this
  obtain m' where "sweep_routes stale_body m 0 (n_buckets (mc_vhash m)) = Some m'" "routing_ok m'"
    "swept_routes (\<lambda>r. live m r \<and> mc_now m - mr_last_reference r \<ge> mc_stale_routes_ageing_time m) m m'"
    by auto
  then show ?thesis using inv_swept[OF i] by (auto simp: check_stale_routes_def hash_n_buckets_def)
qed

lemma create_inv:
  assumes i: "route_inv m" and f: "mc_inst m j = None"
  shows "\<exists>x. multi_create_instance m j k = Some (m\<lparr>mc_inst := (mc_inst m)(j \<mapsto> x)\<rparr>) \<and>
    route_inv (m\<lparr>mc_inst := (mc_inst m)(j \<mapsto> x)\<rparr>)"
proof -
  define x where "x = \<lparr>mi_halt = False, mi_refcount = 1, mi_route_count = 0, max_routes_per_client = k,
    mi_did_iroutes = False, mi_iroutes = [], mi_iroutes_ipv6 = []\<rparr>"
  let ?m = "m\<lparr>mc_inst := (mc_inst m)(j \<mapsto> x)\<rparr>"
  have e: "multi_create_instance m j k = Some ?m"
    by (simp add: multi_create_instance_def multi_instance_inc_refcount_def upd_inst_def x_def)
  with create_ok[OF route_invD(5)[OF i] f, of k] obtain y where
    "?m = m\<lparr>mc_inst := (mc_inst m)(j \<mapsto> y)\<rparr>" "routing_ok (m\<lparr>mc_inst := (mc_inst m)(j \<mapsto> y)\<rparr>)" by auto
  then have r: "routing_ok ?m" by simp
  note n = route_invD(1)[OF i]
  have g: "gof ?m l = (if l = j then [] else gof m l)" for l
    by (simp add: gof_def x_def inst_lens_def)
  have "counted (mc_route_helper m) (insert j (dom (mc_inst m))) (gof ?m)"
    by (rule counted_fresh[OF net_invD(2)[OF n]]) (use f in \<open>auto simp: g\<close>)
  moreover have "registered ?m (gof ?m) (he_value e)" if "e \<in> set (helems (mc_vhash m))" for e
    using net_invD(5)[OF n that] route_inst[OF route_invD(5)[OF i] that] f
    by (auto simp: registered_def g)
  ultimately have "net_inv ?m (gof ?m)"
    using n r f by (auto simp: net_inv_def x_def gof_def)
  then have "route_inv ?m" using i by (auto simp: route_inv_def inst_ok_def x_def)
  then show ?thesis using e by blast
qed

text \<open>The internal routes the configuration of a client names, before they are installed.\<close>

definition set_iroutes :: "multi_context \<Rightarrow> nat \<Rightarrow> iroute list \<Rightarrow> iroute_ipv6 list \<Rightarrow> multi_context option" where
  "set_iroutes m j irs irs6 = upd_inst m j (\<lambda>x. x\<lparr>mi_iroutes := irs, mi_iroutes_ipv6 := irs6\<rparr>)"

lemma inst_upd_inv:
  assumes i: "route_inv m" and x: "mc_inst m j = Some x" and o: "mi_halt y = mi_halt x"
    and c: "mi_route_count y = mi_route_count x" "mi_refcount y = mi_refcount x"
      "max_routes_per_client y = max_routes_per_client x"
  shows "net_inv (m\<lparr>mc_inst := (mc_inst m)(j \<mapsto> y)\<rparr>) (gof m)"
proof -
  let ?m = "m\<lparr>mc_inst := (mc_inst m)(j \<mapsto> y)\<rparr>"
  note n = route_invD(1)[OF i]
  have "books (owned (mc_vhash m)) ((mc_inst m)(j \<mapsto> y))"
    by (rule books_static[OF routing_okD(4)[OF route_invD(5)[OF i]] x]) (use o c in simp_all)
  then have "routing_ok ?m" using route_invD(5)[OF i] by (simp add: routing_ok_def)
  moreover have "insert j (dom (mc_inst m)) = dom (mc_inst m)" using x by auto
  moreover have "registered ?m (gof m) r" if "registered m (gof m) r" for r
    using that x o by (auto simp: registered_def)
  moreover have "gof m l = []" if "(if l = j then Some y else mc_inst m l) = Some z" "mi_halt z" for l z
    using net_invD(3)[OF n] x o that by (cases "l = j") auto
  ultimately show ?thesis using n by (auto simp: net_inv_def)
qed

lemma set_iroutes_inv:
  assumes i: "route_inv m" and x: "mc_inst m j = Some x" "\<not> mi_did_iroutes x"
    and r: "\<forall>ir \<in> set irs. iroute_ok ir" "\<forall>ir \<in> set irs6. iroute_ipv6_ok ir"
  shows "\<exists>y. set_iroutes m j irs irs6 = Some (m\<lparr>mc_inst := (mc_inst m)(j \<mapsto> y)\<rparr>) \<and> mi_halt y = mi_halt x \<and>
    route_inv (m\<lparr>mc_inst := (mc_inst m)(j \<mapsto> y)\<rparr>)"
proof -
  define y where "y = x\<lparr>mi_iroutes := irs, mi_iroutes_ipv6 := irs6\<rparr>"
  let ?m = "m\<lparr>mc_inst := (mc_inst m)(j \<mapsto> y)\<rparr>"
  have "gof ?m l = gof m l" for l using x by (simp add: gof_def inst_lens_def y_def)
  then have "gof ?m = gof m" by (rule ext)
  then have "net_inv ?m (gof ?m)"
    using inst_upd_inv[OF i x(1), of y] by (simp add: y_def)
  moreover have "inst_ok (mc_dev_type m) y"
    using route_invD(2)[OF i x(1)] x(2) r by (simp add: inst_ok_def y_def)
  ultimately have "route_inv ?m" using i by (auto simp: route_inv_def)
  then show ?thesis using x(1) by (auto simp: set_iroutes_def upd_inst_def y_def)
qed

lemma add_iroutes_inv:
  assumes i: "route_inv m" and x: "mc_inst m j = Some x" "\<not> mi_halt x" "\<not> mi_did_iroutes x"
  shows "\<exists>m'. multi_add_iroutes script m j = Some m' \<and> route_inv m' \<and>
    (m' = m \<or> (cached_subset m m' \<and> frame m m' \<and> cache_generation (mc_route_helper m') =
       cache_generation (mc_route_helper m) + of_nat (length (iroute_lens x))))"
proof (cases "mc_dev_type m = DEV_TYPE_TUN")
  case False
  then show ?thesis using i by (simp add: multi_add_iroutes_def)
next
  case True
  define y where "y = x\<lparr>mi_did_iroutes := True\<rparr>"
  define m1 where "m1 = m\<lparr>mc_inst := (mc_inst m)(j \<mapsto> y)\<rparr>"
  have n1: "net_inv m1 (gof m)"
    unfolding m1_def by (rule inst_upd_inv[OF i x(1)]) (simp_all add: y_def)
  have y: "mc_inst m1 j = Some y" "\<not> mi_halt y" using x by (simp_all add: m1_def y_def)
  have ok: "\<forall>ir \<in> set (mi_iroutes x). iroute_ok ir" "\<forall>ir \<in> set (mi_iroutes_ipv6 x). iroute_ipv6_ok ir"
    using route_invD(2)[OF i x(1)] by (auto simp: inst_ok_def)
  define l4 where "l4 = map ir_netbits (mi_iroutes x)"
  define l6 where "l6 = map (\<lambda>ir. sint (ir6_netbits ir)) (mi_iroutes_ipv6 x)"
  define g1 where "g1 = (gof m)(j := gof m j @ l4)"
  from add_v4_ok[OF n1 y ok(1), of script] obtain m2 where
    2: "add_iroutes_v4 script m1 j (mi_iroutes x) = Some m2" "iroutes_added m1 (gof m) j y l4 m2"
    unfolding l4_def by blast
  then obtain z where z: "net_inv m2 g1" "mc_inst m2 j = Some z" "static z = static y"
    by (auto simp: iroutes_added_def g1_def)
  then have hz: "\<not> mi_halt z" using y(2) by (simp add: static_fields)
  from add_v6_ok[OF z(1,2) hz ok(2), of script] obtain m3 where
    3: "add_iroutes_v6 script m2 j (mi_iroutes_ipv6 x) = Some m3" "iroutes_added m2 g1 j z l6 m3"
    unfolding l6_def by blast
  have a: "iroutes_added m1 (gof m) j y (l4 @ l6) m3"
    by (rule iroutes_added_trans[OF 2(2) 3(2)[unfolded g1_def] z(3)])
  then have n3: "net_inv m3 ((gof m)(j := gof m j @ (l4 @ l6)))" and ev: "evolves (mc_inst m1) (mc_inst m3)"
    and f: "frame m1 m3" and cs: "cached_subset m1 m3"
    and cg: "cache_generation (mc_route_helper m3) = cache_generation (mc_route_helper m1) + of_nat (length (l4 @ l6))"
    by (auto simp: iroutes_added_def)
  have g0: "gof m j = []" using x by (simp add: gof_def inst_lens_def)
  have g1: "gof m1 l = ((gof m)(j := gof m j @ (l4 @ l6))) l" for l
    by (simp add: gof_def m1_def y_def inst_lens_def iroute_lens_def l4_def l6_def g0[unfolded gof_def])
  have "net_inv m3 (gof m3)"
    by (rule net_inv_cong[OF n3]) (simp only: gof_evolves[OF ev] g1)
  moreover have "inst_ok (mc_dev_type m3) w" if w: "mc_inst m3 l = Some w" for l w
  proof -
    obtain v where v: "mc_inst m1 l = Some v" "static w = static v" using evolvesD(1)[OF ev w] by blast
    have "inst_ok (mc_dev_type m) v"
    proof (cases "l = j")
      case t: True
      then have "v = y" using v(1) y(1) by simp
      then show ?thesis using route_invD(2)[OF i x(1)] True x by (simp add: inst_ok_def y_def)
    next
      case False
      then show ?thesis using v(1) route_invD(2)[OF i] by (simp add: m1_def)
    qed
    then show ?thesis using static_inst_ok[OF v(2)] f by (simp add: frame_def m1_def)
  qed
  ultimately have "route_inv m3" using i f by (auto simp: route_inv_def frame_def m1_def)
  moreover have "multi_add_iroutes script m j = Some m3"
    using True x(1) 2(1) 3(1) by (simp add: multi_add_iroutes_def upd_inst_def m1_def y_def)
  moreover have "cached_subset m m3" "frame m m3" using cs f by (simp_all add: cached_subset_def m1_def frame_def)
  moreover have "cache_generation (mc_route_helper m3) =
      cache_generation (mc_route_helper m) + of_nat (length (iroute_lens x))"
    using cg by (simp add: m1_def iroute_lens_def l4_def l6_def)
  ultimately show ?thesis by blast
qed

text \<open>Closing takes the internal routes of the client out of the route helper.\<close>

lemma close_helper:
  assumes i: "route_inv m" and x: "mc_inst m j = Some x"
  shows "\<exists>mh. helper_del_list (m\<lparr>mc_inst := I\<rparr>) (gof m j) = Some (m\<lparr>mc_inst := I, mc_route_helper := mh\<rparr>) \<and>
    counted mh (dom (mc_inst m)) ((gof m)(j := [])) \<and>
    cache_generation mh = cache_generation (mc_route_helper m) + of_nat (length (gof m j)) \<and>
    ageable_ttl_secs mh = ageable_ttl_secs (mc_route_helper m)"
proof -
  have c: "counted (mc_route_helper (m\<lparr>mc_inst := I\<rparr>)) (dom (mc_inst m)) (gof m)"
    using net_invD(2)[OF route_invD(1)[OF i]] by simp
  have "j \<in> dom (mc_inst m)" using x by blast
  from helper_del_list_ok[OF c this refl refl] show ?thesis by simp
qed

lemma close_inv:
  assumes i: "route_inv m" and x: "mc_inst m j = Some x" "\<not> mi_halt x"
  shows "\<exists>mh J. multi_close_instance m j False = Some (m\<lparr>mc_inst := J, mc_route_helper := mh\<rparr>) \<and>
    route_inv (m\<lparr>mc_inst := J, mc_route_helper := mh\<rparr>) \<and>
    (\<forall>l. l \<noteq> j \<longrightarrow> J l = mc_inst m l) \<and> (\<forall>y. J j = Some y \<longrightarrow> mi_halt y) \<and>
    cache_generation mh = cache_generation (mc_route_helper m) + of_nat (length (gof m j)) \<and>
    (gof m j = [] \<longrightarrow> mh = mc_route_helper m)"
proof -
  define y where "y = x\<lparr>mi_halt := True, mi_did_iroutes := False, mi_refcount := mi_refcount x - 1\<rparr>"
  define J where "J = (if mi_refcount y \<le> 0 then (mc_inst m)(j := None) else (mc_inst m)(j \<mapsto> y))"
  have y: "mi_halt y" "mi_route_count y = mi_route_count x" "mi_refcount y = mi_refcount x - 1"
    "max_routes_per_client y = max_routes_per_client x" "\<not> mi_did_iroutes y"
    by (simp_all add: y_def)
  have b: "books (owned (mc_vhash m)) J"
    using close_books[OF routing_okD(4)[OF route_invD(5)[OF i]] x y(1-4)] by (simp add: J_def)
  have Jo: "\<forall>l. l \<noteq> j \<longrightarrow> J l = mc_inst m l" and Jj: "\<forall>z. J j = Some z \<longrightarrow> z = y" by (simp_all add: J_def)
  obtain mh where h:
    "multi_close_instance m j False = Some (m\<lparr>mc_inst := J, mc_route_helper := mh\<rparr>)"
    "counted mh (dom (mc_inst m)) ((gof m)(j := []))"
    "cache_generation mh = cache_generation (mc_route_helper m) + of_nat (length (gof m j))"
    "gof m j = [] \<longrightarrow> mh = mc_route_helper m"
  proof (cases "mi_did_iroutes x")
    case False
    have g: "gof m j = []" using x False by (simp add: gof_def inst_lens_def)
    have yy: "y = x\<lparr>mi_halt := True, mi_refcount := mi_refcount x - 1\<rparr>"
      using False by (cases x) (simp add: y_def)
    have "multi_close_instance m j False = Some (m\<lparr>mc_inst := J, mc_route_helper := mc_route_helper m\<rparr>)"
      using x False yy
      by (simp add: multi_close_instance_def upd_inst_def multi_instance_dec_refcount_def J_def)
    moreover have "(gof m)(j := []) = gof m" using g by (metis fun_upd_triv)
    ultimately show ?thesis
      using that[of "mc_route_helper m"] net_invD(2)[OF route_invD(1)[OF i]] g by simp
  next
    case True
    have g: "gof m j = iroute_lens x" using x True by (simp add: gof_def inst_lens_def)
    have d: "mc_dev_type m = DEV_TYPE_TUN"
      using route_invD(2)[OF i x(1)] True by (simp add: inst_ok_def)
    define I where "I = (mc_inst m)(j \<mapsto> x\<lparr>mi_halt := True\<rparr>)"
    from close_helper[OF i x(1), of I] obtain mh where mh:
      "helper_del_list (m\<lparr>mc_inst := I\<rparr>) (gof m j) = Some (m\<lparr>mc_inst := I, mc_route_helper := mh\<rparr>)"
      "counted mh (dom (mc_inst m)) ((gof m)(j := []))"
      "cache_generation mh = cache_generation (mc_route_helper m) + of_nat (length (gof m j))" by blast
    have "multi_close_instance m j False = Some (m\<lparr>mc_inst := J, mc_route_helper := mh\<rparr>)"
      using x True d mh(1)
      by (simp add: multi_close_instance_def upd_inst_def multi_instance_dec_refcount_def multi_del_iroutes_def
          g I_def y_def J_def iroute_lens_def)
    moreover have "gof m j = [] \<longrightarrow> mh = mc_route_helper m"
    proof
      assume "gof m j = []"
      then have "m\<lparr>mc_inst := I\<rparr> = m\<lparr>mc_inst := I, mc_route_helper := mh\<rparr>" using mh(1) by simp
      then show "mh = mc_route_helper m"
        by (metis multi_context.select_convs(2) multi_context.surjective multi_context.update_convs(2,4))
    qed
    ultimately show ?thesis using that mh(2,3) by blast
  qed
  let ?m = "m\<lparr>mc_inst := J, mc_route_helper := mh\<rparr>"
  note n = route_invD(1)[OF i]
  have dJ: "dom J \<subseteq> dom (mc_inst m)" using x by (auto simp: J_def split: if_splits)
  have g: "gof ?m l = ((gof m)(j := [])) l" if "l \<in> dom J" for l
    using that Jj Jo y(5) by (cases "l = j") (auto simp: gof_def inst_lens_def)
  have "counted mh (dom J) (gof ?m)"
  proof (rule counted_mono[OF h(2) dJ])
    fix l assume "l \<in> dom (mc_inst m) - dom J"
    then have "l = j" using Jo by (auto simp: dom_def)
    then show "((gof m)(j := [])) l = []" by simp
  qed (rule g)
  moreover have "registered ?m (gof ?m) r" if "registered m (gof m) r" for r
    using that Jj Jo y(1) by (cases "mr_instance r = j") (auto simp: registered_def gof_def)
  moreover have "gof ?m l = []" if "J l = Some z" "mi_halt z" for l z
    using that Jj Jo y net_invD(3)[OF n, of l z] by (cases "l = j") (auto simp: gof_def inst_lens_def)
  moreover have "routing_ok ?m" using route_invD(5)[OF i] b by (simp add: routing_ok_def)
  ultimately have "net_inv ?m (gof ?m)" using n by (auto simp: net_inv_def)
  moreover have "inst_ok (mc_dev_type m) z" if "J l = Some z" for l z
    using that Jj Jo route_invD(2)[OF i x(1)] route_invD(2)[OF i, of l z]
    by (cases "l = j") (auto simp: inst_ok_def y_def)
  ultimately have "route_inv ?m" using i by (simp add: route_inv_def)
  then show ?thesis using h Jo Jj y(1) by blast
qed

lemma tick_inv:
  assumes "route_inv m"
  shows "route_inv (m\<lparr>mc_now := t\<rparr>)"
proof -
  have "gof (m\<lparr>mc_now := t\<rparr>) = gof m" by (rule ext) (simp add: gof_def)
  then show ?thesis using assms by (simp add: route_inv_def net_inv_def routing_ok_def registered_def)
qed

text \<open>The primary addresses of a client.\<close>

definition v4_host :: "u32 \<Rightarrow> mroute_addr" where
  "v4_host a = \<lparr>ma_len = 4, ma_proto = 0, ma_type = MR_ADDR_IPV4, ma_netbits = 0,
     ma_raw = mem_put (replicate 20 0) 0 (enc32 a)\<rparr>"

definition v6_host :: "byte list \<Rightarrow> mroute_addr" where
  "v6_host a = \<lparr>ma_len = 16, ma_proto = 0, ma_type = MR_ADDR_IPV6, ma_netbits = 0,
     ma_raw = mem_put (replicate 20 0) 0 a\<rparr>"

lemma learn_v4_host: "multi_learn_in_addr_t script m j a (- 1) True = multi_learn_addr script m j (v4_host a) 0"
  by (simp add: multi_learn_in_addr_t_def mroute_addr_init_def v4_host_def Let_def MR_MAX_ADDR_LEN_def
      bind_eq_Some_conv split: option.split)

lemma learn_v6_host: "multi_learn_in6_addr script m j a (- 1) True = multi_learn_addr script m j (v6_host a) 0"
  by (simp add: multi_learn_in6_addr_def mroute_addr_init_def v6_host_def Let_def MR_MAX_ADDR_LEN_def
      bind_eq_Some_conv split: option.split)

lemma host_addrs: "host_addr (v4_host a)" "length b = 16 \<Longrightarrow> host_addr (v6_host b)"
  by (simp_all add: host_addr_def v4_host_def v6_host_def plain_addr_def ip_addr_def addr_kind_def kind_bits_def
      mroute_wf_def MR_MAX_ADDR_LEN_def mem_simps codec_simps addr_consts addr_consts(1)[symmetric])

lemma host_not_flag [simp]: "\<not> net_flag (v4_host a)" "\<not> net_flag (v6_host b)"
  by (simp_all add: net_flag_def v4_host_def v6_host_def addr_consts)

section \<open>The server at work\<close>

text \<open>
  \<^verbatim>\<open>option_iroute\<close> and \<^verbatim>\<open>option_iroute_ipv6\<close> on the list of a client's internal routes; the
  addresses and the prefix length are those the string parser (\<^verbatim>\<open>get_addr_generic\<close>) returns, which
  refuses a prefix length above 128.
\<close>

definition option_iroute :: "iroute list \<Rightarrow> u32 \<Rightarrow> u32 option \<Rightarrow> iroute list" where
  "option_iroute irs network netmask =
     (case netmask of
        None \<Rightarrow> \<lparr>ir_network = network, ir_netbits = 32\<rparr> # irs
      | Some nm \<Rightarrow>
          if netmask_to_netbits2 nm < 0 then irs
          else \<lparr>ir_network = network, ir_netbits = netmask_to_netbits2 nm\<rparr> # irs)"

definition option_iroute_ipv6 :: "iroute_ipv6 list \<Rightarrow> (byte list \<times> u32) option \<Rightarrow> iroute_ipv6 list" where
  "option_iroute_ipv6 irs parsed =
     (case parsed of
        None \<Rightarrow> irs
      | Some (network, bits) \<Rightarrow> \<lparr>ir6_network = network, ir6_netbits = bits\<rparr> # irs)"

lemma option_iroute_ok: "\<forall>ir \<in> set irs. iroute_ok ir \<Longrightarrow> \<forall>ir \<in> set (option_iroute irs n nm). iroute_ok ir"
  using netmask_search_Some[of 0 "the nm"]
  by (auto simp: option_iroute_def iroute_ok_def netmask_to_netbits2_def split: option.splits)

definition parsed_ok :: "(byte list \<times> u32) option \<Rightarrow> bool" where
  "parsed_ok p = (case p of None \<Rightarrow> True | Some (n, b) \<Rightarrow> length n = 16 \<and> unat b \<le> 128)"

lemma option_iroute_ipv6_ok:
  "\<forall>ir \<in> set irs. iroute_ipv6_ok ir \<Longrightarrow> parsed_ok p \<Longrightarrow> \<forall>ir \<in> set (option_iroute_ipv6 irs p). iroute_ipv6_ok ir"
  by (auto simp: option_iroute_ipv6_def iroute_ipv6_ok_def parsed_ok_def split: option.splits)

text \<open>What \<^verbatim>\<open>multi_init\<close> sets up for the routing.\<close>

definition MULTI_CACHE_ROUTE_TTL :: int where "MULTI_CACHE_ROUTE_TTL = 60"

definition multi_init_routes ::
  "int \<Rightarrow> u32 \<Rightarrow> u32 \<Rightarrow> dev_type \<Rightarrow> int \<Rightarrow> bool \<Rightarrow> int \<Rightarrow> multi_context option" where
  "multi_init_routes virtual_hash_size iv local dev ageing_time c2c now =
     do { h \<leftarrow> hash_init virtual_hash_size iv mroute_addr_hash_function mroute_addr_compare_function;
          Some \<lparr>mc_vhash = h, mc_route_helper = mroute_helper_init MULTI_CACHE_ROUTE_TTL,
                mc_local = mroute_extract_in_addr_t mroute_addr_init local, mc_inst = Map.empty,
                mc_now = now, mc_dev_type = dev, mc_stale_routes_ageing_time = ageing_time,
                mc_reaper = multi_reap_new (reap_buckets_per_pass virtual_hash_size) now,
                mc_enable_c2c = c2c\<rparr> }"

lemma helper_init_wf: "helper_wf (mroute_helper_init ttl)"
proof -
  have "used_lens (replicate 129 0) 129 = []" by (simp add: used_lens_def filter_empty_conv)
  then show ?thesis by (simp add: helper_wf_def mroute_helper_init_def MR_HELPER_NET_LEN_def)
qed

lemma helems_abs_empty:
  assumes "hash_wf h" "hash_abs h = (\<lambda>k. None)"
  shows "helems h = []"
proof (rule ccontr)
  assume "helems h \<noteq> []"
  then obtain e where "e \<in> set (helems h)" by (cases "helems h") auto
  then show False using elem_hash_abs(2)[OF assms(1)] assms(2) by fastforce
qed

lemma init_inv:
  assumes "multi_init_routes n iv local dev ageing c2c now = Some m"
  shows "route_inv m" "helems (mc_vhash m) = []"
proof -
  obtain h where h: "hash_init n iv mroute_addr_hash_function mroute_addr_compare_function = Some h"
    and m: "m = \<lparr>mc_vhash = h, mc_route_helper = mroute_helper_init MULTI_CACHE_ROUTE_TTL,
      mc_local = mroute_extract_in_addr_t mroute_addr_init local, mc_inst = Map.empty, mc_now = now,
      mc_dev_type = dev, mc_stale_routes_ageing_time = ageing,
      mc_reaper = multi_reap_new (reap_buckets_per_pass n) now, mc_enable_c2c = c2c\<rparr>"
    using assms by (auto simp: multi_init_routes_def bind_eq_Some_conv)
  note t = mroute_table_init[OF h]
  have e: "helems h = []" by (rule helems_abs_empty[OF table_ofD(1)[OF t(1)] t(2)])
  have "counted (mroute_helper_init MULTI_CACHE_ROUTE_TTL) {} (gof m)"
    by (simp add: counted_def helper_init_wf) (simp add: mroute_helper_init_def MR_HELPER_NET_LEN_def)
  then have "net_inv m (gof m)"
    using t e by (simp add: m net_inv_def routing_ok_def keys_ok_def books_def owned_def hcount_def)
  moreover have "0 \<le> reap_buckets_per_pass n"
    by (simp add: reap_buckets_per_pass_def constrain_int_def REAP_MIN_def REAP_MAX_def)
  ultimately show "route_inv m" by (simp add: route_inv_def m multi_reap_new_def)
  show "helems (mc_vhash m) = []" using e by (simp add: m)
qed

text \<open>The calls the server makes.\<close>

datatype route_op =
    Create nat int
  | Iroute nat u32 "u32 option"
  | Iroute_Ipv6 nat "(byte list \<times> u32) option"
  | Add_Iroutes nat
  | Primary_V4 nat u32
  | Primary_V6 nat "byte list"
  | Learn_Source nat mroute_addr
  | Lookup_Virtual mroute_addr bool
  | Reap
  | Stale_Check
  | Close nat
  | Clock int

fun route_exec :: "(mroute_addr \<Rightarrow> bool) \<Rightarrow> multi_context \<Rightarrow> route_op \<Rightarrow> multi_context option" where
  "route_exec script m (Create i quota) = multi_create_instance m i quota"
| "route_exec script m (Iroute i network netmask) =
     upd_inst m i (\<lambda>x. x\<lparr>mi_iroutes := option_iroute (mi_iroutes x) network netmask\<rparr>)"
| "route_exec script m (Iroute_Ipv6 i parsed) =
     upd_inst m i (\<lambda>x. x\<lparr>mi_iroutes_ipv6 := option_iroute_ipv6 (mi_iroutes_ipv6 x) parsed\<rparr>)"
| "route_exec script m (Add_Iroutes i) = multi_add_iroutes script m i"
| "route_exec script m (Primary_V4 i a) = map_option snd (multi_learn_in_addr_t script m i a (- 1) True)"
| "route_exec script m (Primary_V6 i a) = map_option snd (multi_learn_in6_addr script m i a (- 1) True)"
| "route_exec script m (Learn_Source i a) = map_option snd (multi_learn_addr script m i a 0)"
| "route_exec script m (Lookup_Virtual a cidr) = map_option snd (multi_get_instance_by_virtual_addr script m a cidr)"
| "route_exec script m Reap = multi_reap_process m"
| "route_exec script m Stale_Check = check_stale_routes m"
| "route_exec script m (Close i) = multi_close_instance m i False"
| "route_exec script m (Clock t) = Some (m\<lparr>mc_now := t\<rparr>)"

text \<open>What the callers make sure of: they name open instances, and packet addresses come from
  \<^verbatim>\<open>mroute_extract_addr_from_packet\<close>.\<close>

definition open_inst :: "multi_context \<Rightarrow> nat \<Rightarrow> bool" where
  "open_inst m i = (case mc_inst m i of None \<Rightarrow> False | Some x \<Rightarrow> \<not> mi_halt x)"

definition unrouted :: "multi_context \<Rightarrow> nat \<Rightarrow> bool" where
  "unrouted m i = (case mc_inst m i of None \<Rightarrow> False | Some x \<Rightarrow> \<not> mi_halt x \<and> \<not> mi_did_iroutes x)"

fun route_pre :: "multi_context \<Rightarrow> route_op \<Rightarrow> bool" where
  "route_pre m (Create i quota) = (mc_inst m i = None)"
| "route_pre m (Iroute i network netmask) = unrouted m i"
| "route_pre m (Iroute_Ipv6 i parsed) = (unrouted m i \<and> parsed_ok parsed)"
| "route_pre m (Add_Iroutes i) = unrouted m i"
| "route_pre m (Primary_V4 i a) = open_inst m i"
| "route_pre m (Primary_V6 i a) = open_inst m i"
| "route_pre m (Learn_Source i a) = (open_inst m i \<and> \<not> net_flag a)"
| "route_pre m (Lookup_Virtual a cidr) = (cidr \<longrightarrow> host_addr a)"
| "route_pre m (Close i) = open_inst m i"
| "route_pre m _ = True"

inductive serves :: "(multi_context \<Rightarrow> route_op \<Rightarrow> bool) \<Rightarrow> multi_context \<Rightarrow> bool"
  for allowed :: "multi_context \<Rightarrow> route_op \<Rightarrow> bool" where
  start: "multi_init_routes n iv local dev ageing c2c now = Some m \<Longrightarrow> serves allowed m"
| step: "serves allowed m \<Longrightarrow> route_pre m op \<Longrightarrow> allowed m op \<Longrightarrow> route_exec script m op = Some m' \<Longrightarrow>
    serves allowed m'"

inductive_cases servesE: "serves allowed m"

lemma open_instE:
  assumes "open_inst m i"
  obtains x where "mc_inst m i = Some x" "\<not> mi_halt x"
  using assms by (auto simp: open_inst_def split: option.splits)

lemma unroutedE:
  assumes "unrouted m i"
  obtains x where "mc_inst m i = Some x" "\<not> mi_halt x" "\<not> mi_did_iroutes x"
  using assms by (auto simp: unrouted_def split: option.splits)

lemma set_routes_inv:
  assumes i: "route_inv m" and x: "mc_inst m j = Some x" "\<not> mi_did_iroutes x"
    and y: "y = x\<lparr>mi_iroutes := irs, mi_iroutes_ipv6 := jrs\<rparr>"
    and r: "\<forall>ir \<in> set irs. iroute_ok ir" "\<forall>ir \<in> set jrs. iroute_ipv6_ok ir"
  shows "route_inv (m\<lparr>mc_inst := (mc_inst m)(j \<mapsto> y)\<rparr>)"
  using set_iroutes_inv[OF i x r] x(1) by (auto simp: set_iroutes_def upd_inst_def y)

lemma route_step:
  assumes i: "route_inv m" and p: "route_pre m op"
  shows "\<exists>m'. route_exec script m op = Some m' \<and> route_inv m'"
proof (cases op)
  case (Create j k)
  then show ?thesis using create_inv[OF i] p by auto
next
  case (Iroute j n nm)
  with p obtain x where x: "mc_inst m j = Some x" "\<not> mi_halt x" "\<not> mi_did_iroutes x" by (auto elim: unroutedE)
  have ok: "inst_ok (mc_dev_type m) x" by (rule route_invD(2)[OF i x(1)])
  have "route_inv (m\<lparr>mc_inst := (mc_inst m)(j \<mapsto> x\<lparr>mi_iroutes := option_iroute (mi_iroutes x) n nm\<rparr>)\<rparr>)"
    by (rule set_routes_inv[where irs = "option_iroute (mi_iroutes x) n nm" and jrs = "mi_iroutes_ipv6 x", OF i x(1,3)])
      (use ok option_iroute_ok in \<open>auto simp: inst_ok_def\<close>)
  then show ?thesis using Iroute x(1) by (simp add: upd_inst_def)
next
  case (Iroute_Ipv6 j q)
  with p obtain x where x: "mc_inst m j = Some x" "\<not> mi_halt x" "\<not> mi_did_iroutes x" and q: "parsed_ok q"
    by (auto elim: unroutedE)
  have ok: "inst_ok (mc_dev_type m) x" by (rule route_invD(2)[OF i x(1)])
  have "route_inv (m\<lparr>mc_inst := (mc_inst m)(j \<mapsto> x\<lparr>mi_iroutes_ipv6 := option_iroute_ipv6 (mi_iroutes_ipv6 x) q\<rparr>)\<rparr>)"
    by (rule set_routes_inv[where irs = "mi_iroutes x" and jrs = "option_iroute_ipv6 (mi_iroutes_ipv6 x) q", OF i x(1,3)])
      (use ok option_iroute_ipv6_ok[OF _ q] in \<open>auto simp: inst_ok_def\<close>)
  then show ?thesis using Iroute_Ipv6 x(1) by (simp add: upd_inst_def)
next
  case (Add_Iroutes j)
  with p obtain x where x: "mc_inst m j = Some x" "\<not> mi_halt x" "\<not> mi_did_iroutes x" by (auto elim: unroutedE)
  show ?thesis using add_iroutes_inv[OF i x, of script] Add_Iroutes by auto
next
  case (Primary_V4 j a)
  with p obtain x where x: "mc_inst m j = Some x" "\<not> mi_halt x" by (auto elim: open_instE)
  show ?thesis using learn_host_inv[OF i x host_not_flag(1), of script a] Primary_V4 by (auto simp: learn_v4_host)
next
  case (Primary_V6 j a)
  with p obtain x where x: "mc_inst m j = Some x" "\<not> mi_halt x" by (auto elim: open_instE)
  show ?thesis using learn_host_inv[OF i x host_not_flag(2), of script a] Primary_V6 by (auto simp: learn_v6_host)
next
  case (Learn_Source j a)
  with p obtain x where x: "mc_inst m j = Some x" "\<not> mi_halt x" and a: "\<not> net_flag a" by (auto elim: open_instE)
  show ?thesis using learn_host_inv[OF i x a, of script] Learn_Source by auto
next
  case (Lookup_Virtual a c)
  then have "c \<Longrightarrow> host_addr a" using p by simp
  from lookup_inv[where script = script and cidr = c, OF i this] Lookup_Virtual show ?thesis by auto
next
  case Reap
  then show ?thesis using reap_inv[OF i] by auto
next
  case Stale_Check
  then show ?thesis using stale_inv[OF i] by auto
next
  case (Close j)
  with p obtain x where x: "mc_inst m j = Some x" "\<not> mi_halt x" by (auto elim: open_instE)
  show ?thesis using close_inv[OF i x] Close by auto
next
  case (Clock t)
  then show ?thesis using tick_inv[OF i] by auto
qed

lemma serves_inv: "serves allowed m \<Longrightarrow> route_inv m"
proof (induction rule: serves.induct)
  case (step m op script m')
  then show ?case using route_step[of m op script] by auto
qed (rule init_inv(1))

text \<open>C2: whatever calls the server makes, in whatever order and whatever the external script answers, none of
  them fails: no assertion, no access to a freed client. Afterwards every route in the table belongs to a client
  that is still allocated, the route and reference counts of each client are exact, and no client
  has more routes than its quota.\<close>

theorem routing_never_fails:
  assumes "serves (\<lambda>m op. True) m" "route_pre m op"
  shows "\<exists>m'. route_exec script m op = Some m' \<and>
    (\<forall>e \<in> set (helems (mc_vhash m')). mc_inst m' (mr_instance (he_value e)) \<noteq> None) \<and>
    (\<forall>i x. mc_inst m' i = Some x \<longrightarrow>
       mi_route_count x = int (length (filter (\<lambda>e. mr_instance (he_value e) = i) (helems (mc_vhash m')))) \<and>
       mi_refcount x = mi_route_count x + (if mi_halt x then 0 else 1) \<and> 0 < mi_refcount x \<and>
       mi_route_count x \<le> max 0 (max_routes_per_client x))"
proof -
  from route_step[OF serves_inv[OF assms(1)] assms(2)] obtain m' where
    m': "route_exec script m op = Some m'" "routing_ok m'" using route_invD(5) by blast
  note b = booksD[OF routing_okD(4)[OF m'(2)]]
  have "mc_inst m' (mr_instance (he_value e)) \<noteq> None" if "e \<in> set (helems (mc_vhash m'))" for e
    using route_inst[OF m'(2) that] by auto
  moreover have "mi_route_count x = int (length (filter (\<lambda>e. mr_instance (he_value e) = i) (helems (mc_vhash m'))))"
    "mi_refcount x = mi_route_count x + (if mi_halt x then 0 else 1)" "0 < mi_refcount x"
    "mi_route_count x \<le> max 0 (max_routes_per_client x)" if "mc_inst m' i = Some x" for i x
    using b(2-5)[OF that] by (simp_all add: owned_def hcount_def)
  ultimately show ?thesis using m'(1) by blast
qed

section \<open>The longest matching prefix\<close>

text \<open>\<open>covers k a\<close>: the address \<open>a\<close> is in the network \<open>k\<close>.\<close>

definition covers :: "mroute_addr \<Rightarrow> mroute_addr \<Rightarrow> bool" where
  "covers k a \<longleftrightarrow>
     net_flag k \<and> addr_kind k = addr_kind a \<and>
     (\<forall>i < kind_bits a. addr_bit (ma_raw k) i = (addr_bit (ma_raw a) i \<and> i < unat (ma_netbits k)))"

lemma netbits_nonzero: "MR_WITH_NETBITS \<noteq> 0"
  by (simp add: MR_WITH_NETBITS_def)

lemma net_addrD:
  assumes "net_addr k"
  shows "plain_addr k" "ma_type k = MR_ADDR_IPV4 OR MR_WITH_NETBITS \<or> ma_type k = MR_ADDR_IPV6 OR MR_WITH_NETBITS"
    "ma_proto k = 0" "unat (ma_netbits k) \<le> kind_bits k" "net_flag k"
  using assms netbits_nonzero by (auto simp: net_addr_def net_flag_def)

lemma host_addrD:
  assumes "host_addr a"
  shows "plain_addr a" "ma_type a = MR_ADDR_IPV4 \<or> ma_type a = MR_ADDR_IPV6" "ma_proto a = 0" "ma_netbits a = 0"
    "mroute_wf a" "ip_addr a"
  using assms by (auto simp: host_addr_def plain_addr_def)

lemma same_kind:
  assumes "host_addr a" "net_addr k"
  shows "ma_type a OR MR_WITH_NETBITS = ma_type k \<longleftrightarrow> addr_kind a = addr_kind k"
  using host_addrD(2)[OF assms(1)] net_addrD(2)[OF assms(2)]
  by (auto simp: addr_kind_def addr_consts addr_consts(1)[symmetric] dest: arg_cong[where f = "\<lambda>t. t AND MR_ADDR_MASK"])

lemma kind_bits_kind: "addr_kind a = addr_kind b \<Longrightarrow> kind_bits a = kind_bits b"
  by (simp add: kind_bits_def)

lemma plain_len:
  assumes "plain_addr a" "plain_addr b" "addr_kind a = addr_kind b"
  shows "ma_len a = ma_len b" "8 * unat (ma_len a) = kind_bits a" "length (ma_raw a) = 20" "unat (ma_len a) \<le> 20"
  using assms kind_bits_kind[OF assms(3)]
  by (auto simp: plain_addr_def word_unat_eq_iff mroute_wf_def MR_MAX_ADDR_LEN_def)

text \<open>The key the lookup tries for a length names exactly the networks of that length the address is in.\<close>

lemma net_key_match:
  assumes a: "host_addr a" and k: "net_addr k" and t: "net_key a n = Some t" and n: "unat n \<le> 128"
  shows "mroute_addr_equal t k \<longleftrightarrow> ma_netbits k = n \<and> covers k a"
proof -
  define b where "b = a\<lparr>ma_type := ma_type a OR MR_WITH_NETBITS, ma_netbits := n\<rparr>"
  have b: "mroute_wf b" "ip_addr b" "unat (ma_netbits b) \<le> 128" "addr_kind b = addr_kind a"
    using host_addrD(5,6)[OF a] n by (simp_all add: b_def mroute_wf_def ip_addr_def)
  have tb: "mroute_addr_mask_host_bits b = Some t" using t by (simp add: net_key_def b_def)
  with mask_host_bits_total[OF b(1-3)] obtain raw where
    raw: "t = b\<lparr>ma_raw := raw\<rparr>" "length raw = length (ma_raw a)" by (auto simp: b_def)
  have f: "ma_type t = ma_type a OR MR_WITH_NETBITS" "ma_proto t = 0" "ma_netbits t = n" "ma_len t = ma_len a"
    "ma_raw t = raw" using raw(1) host_addrD(3)[OF a] by (simp_all add: b_def)
  show ?thesis
  proof (cases "addr_kind a = addr_kind k \<and> ma_netbits k = n")
    case False
    then show ?thesis using same_kind[OF a k] f by (auto simp: mroute_addr_equal_iff covers_def)
  next
    case True
    then have kk: "addr_kind a = addr_kind k" and nk: "ma_netbits k = n" by auto
    note l = plain_len[OF host_addrD(1)[OF a] net_addrD(1)[OF k] kk]
    have nb: "unat (ma_netbits b) \<le> kind_bits b"
      using net_addrD(4)[OF k] nk kind_bits_kind[OF kk] kind_bits_kind[OF b(4)] by (simp add: b_def)
    from mask_host_bits_bits[OF b(1,2) nb] obtain raw2 where
      r2: "mroute_addr_mask_host_bits b = Some (b\<lparr>ma_raw := raw2\<rparr>)"
      "\<forall>i < kind_bits b. addr_bit raw2 i = (addr_bit (ma_raw b) i \<and> i < unat (ma_netbits b))" by blast
    then have "raw = raw2" using tb f(5) by auto
    then have bits: "\<forall>i < kind_bits a. addr_bit raw i = (addr_bit (ma_raw a) i \<and> i < unat n)"
      using r2(2) kind_bits_kind[OF b(4)] by (simp add: b_def)
    have lr: "length (take (unat (ma_len a)) raw) = unat (ma_len a)"
      "length (take (unat (ma_len a)) (ma_raw k)) = unat (ma_len a)"
      using l raw(2) plain_len(3)[OF net_addrD(1)[OF k] net_addrD(1)[OF k] refl] by simp_all
    have "mroute_addr_equal t k \<longleftrightarrow> take (unat (ma_len a)) raw = take (unat (ma_len a)) (ma_raw k)"
      using f same_kind[OF a k] kk nk l(1) net_addrD(3)[OF k] by (auto simp: mroute_addr_equal_iff)
    also have "\<dots> \<longleftrightarrow> (\<forall>i < 8 * unat (ma_len a). addr_bit raw i = addr_bit (ma_raw k) i)"
      unfolding bytes_eq_bits[OF lr] by (auto simp: addr_bit_take)
    also have "\<dots> \<longleftrightarrow> covers k a"
      using bits l(2) net_addrD(5)[OF k] kk nk by (auto simp: covers_def)
    finally show ?thesis using nk by simp
  qed
qed

text \<open>The routes to networks of open clients an address is in.\<close>

definition net_route :: "multi_context \<Rightarrow> mroute_addr \<Rightarrow> multi_route \<Rightarrow> bool" where
  "net_route m a r \<longleftrightarrow>
     r \<in> he_value ` set (helems (mc_vhash m)) \<and> open_inst m (mr_instance r) \<and> covers (mr_addr r) a"

lemma table_abs_cong:
  assumes "routing_ok m" "mroute_addr_equal a b"
  shows "hash_abs (mc_vhash m) a = hash_abs (mc_vhash m) b"
  using hash_abs_cong_key[of "mc_vhash m" a b] routing_okD(1,2)[OF assms(1)] assms(2) by (simp add: hash_wf_def)

lemma live_permanent:
  assumes "mr_flags r = 0"
  shows "live m r = open_inst m (mr_instance r)"
  using assms by (auto simp: live_def multi_route_defined_def open_inst_def split: option.splits)

lemma live_open_inst: "live m r \<Longrightarrow> open_inst m (mr_instance r)"
  by (auto simp: live_def multi_route_defined_def open_inst_def split: option.splits if_splits)

lemma table_route:
  assumes m: "routing_ok m" and r: "r \<in> he_value ` set (helems (mc_vhash m))"
  shows "hash_abs (mc_vhash m) (mr_addr r) = Some r"
proof -
  obtain e where e: "e \<in> set (helems (mc_vhash m))" "r = he_value e" using r by blast
  then have "he_key e = Some (mr_addr r)" using routing_okD(3)[OF m] by (simp add: keys_ok_def)
  then show ?thesis using elem_hash_abs(2)[OF routing_okD(1)[OF m] e(1)] e(2) by simp
qed

lemma lpm_step:
  assumes i: "net_inv m g" and a: "host_addr a" and n: "unat n \<le> 128"
  shows "Option.bind (net_key a n) (table_owner m) = Some j \<longleftrightarrow>
    (\<exists>r. net_route m a r \<and> ma_netbits (mr_addr r) = n \<and> mr_instance r = j)"
proof -
  note ok = net_invD(1)[OF i]
  obtain t where t: "net_key a n = Some t" using net_key_total[OF host_addrD(5,6)[OF a] n] by blast
  have tn: "net_flag t"
    using t mask_host_bits_total[of "a\<lparr>ma_type := ma_type a OR MR_WITH_NETBITS, ma_netbits := n\<rparr>"] host_addrD(5,6)[OF a] n
      netbits_nonzero by (auto simp: net_key_def net_flag_def mroute_wf_def ip_addr_def)
  show ?thesis
  proof
    assume "Option.bind (net_key a n) (table_owner m) = Some j"
    then have "table_owner m t = Some j" using t by simp
    from table_ownerD[OF this] obtain r where r: "hash_abs (mc_vhash m) t = Some r" "live m r" "mr_instance r = j"
      by blast
    note h = hash_abs_route(1,2)[OF ok r(1)]
    have "net_flag (mr_addr r)" using tn h(2) by (simp add: net_flag_def mroute_addr_equal_iff)
    moreover have "route_kind r" using net_invD(4)[OF i] h(1) by blast
    ultimately have "net_addr (mr_addr r)" by (simp add: route_kind_def)
    from net_key_match[OF a this t n] h(2) have "ma_netbits (mr_addr r) = n" "covers (mr_addr r) a" by auto
    moreover have "r \<in> he_value ` set (helems (mc_vhash m))" using h(1) by blast
    ultimately show "\<exists>r. net_route m a r \<and> ma_netbits (mr_addr r) = n \<and> mr_instance r = j"
      using r live_open_inst[OF r(2)] by (auto simp: net_route_def)
  next
    assume "\<exists>r. net_route m a r \<and> ma_netbits (mr_addr r) = n \<and> mr_instance r = j"
    then obtain r where r: "r \<in> he_value ` set (helems (mc_vhash m))" "open_inst m (mr_instance r)"
      "covers (mr_addr r) a" "ma_netbits (mr_addr r) = n" "mr_instance r = j" by (auto simp: net_route_def)
    then have k: "net_addr (mr_addr r)" "mr_flags r = 0"
      using net_invD(4)[OF i] by (auto simp: covers_def route_kind_def)
    have "mroute_addr_equal t (mr_addr r)" using net_key_match[OF a k(1) t n] r by simp
    then have "hash_abs (mc_vhash m) t = Some r" using table_abs_cong[OF ok] table_route[OF ok r(1)] by metis
    then show "Option.bind (net_key a n) (table_owner m) = Some j"
      using t live_permanent[OF k(2)] r by (simp add: table_owner_def)
  qed
qed

text \<open>\<open>longest m a o\<close>: \<open>o\<close> is the client of the most specific route for the address.\<close>

definition longest_in :: "multi_context \<Rightarrow> byte set \<Rightarrow> mroute_addr \<Rightarrow> nat option \<Rightarrow> bool" where
  "longest_in m L a w \<longleftrightarrow>
     (case w of
        None \<Rightarrow> \<forall>r. net_route m a r \<longrightarrow> ma_netbits (mr_addr r) \<notin> L
      | Some i \<Rightarrow> \<exists>r. net_route m a r \<and> mr_instance r = i \<and> ma_netbits (mr_addr r) \<in> L \<and>
          (\<forall>r'. net_route m a r' \<and> ma_netbits (mr_addr r') \<in> L \<longrightarrow>
             unat (ma_netbits (mr_addr r')) \<le> unat (ma_netbits (mr_addr r))))"

lemma lpm_search_longest:
  assumes i: "net_inv m g" and a: "host_addr a"
    and n: "\<forall>n \<in> set ns. unat n \<le> 128" "sorted_wrt (>) (map unat ns)"
  shows "longest_in m (set ns) a (lpm_search m a ns)"
  using n
proof (induction ns)
  case Nil
  then show ?case by (simp add: longest_in_def)
next
  case (Cons n ns)
  have n: "unat n \<le> 128" and lt: "\<forall>k \<in> set ns. unat k < unat n" using Cons(2,3) by auto
  note st = lpm_step[OF i a n]
  show ?case
  proof (cases "Option.bind (net_key a n) (table_owner m)")
    case (Some j)
    then obtain r where r: "net_route m a r" "ma_netbits (mr_addr r) = n" "mr_instance r = j" using st by blast
    have "unat (ma_netbits (mr_addr r')) \<le> unat n" if "ma_netbits (mr_addr r') \<in> set (n # ns)" for r'
      using that lt by (auto simp: less_imp_le)
    then show ?thesis using Some r by (auto simp: longest_in_def)
  next
    case None
    then have no: "ma_netbits (mr_addr r) \<noteq> n" if "net_route m a r" for r using st that by auto
    have "longest_in m (set ns) a (lpm_search m a ns)" using Cons by simp
    then show ?thesis using None no by (cases "lpm_search m a ns") (auto simp: longest_in_def)
  qed
qed

lemma net_route_len:
  assumes i: "net_inv m g" and r: "net_route m a r"
  shows "ma_netbits (mr_addr r) \<in> set (lens m)"
proof -
  from r obtain e where e: "e \<in> set (helems (mc_vhash m))" "he_value e = r" and o: "open_inst m (mr_instance r)"
    and c: "net_flag (mr_addr r)" by (auto simp: net_route_def covers_def)
  from o obtain x where x: "mc_inst m (mr_instance r) = Some x" "\<not> mi_halt x" by (rule open_instE)
  define k where "k = unat (ma_netbits (mr_addr r))"
  have k: "int k \<in> set (g (mr_instance r))"
    using net_invD(5)[OF i e(1), unfolded e(2) registered_def] c x unfolding k_def by blast
  have d: "mr_instance r \<in> dom (mc_inst m)" using x by blast
  have "k < 129" using countedD(4)[OF net_invD(2)[OF i] d k] by simp
  then have "k \<in> unat ` set (lens m)" unfolding lens_set(1)[OF net_invD(2)[OF i]] using d k by blast
  then show ?thesis unfolding k_def by (auto simp: word_unat_eq_iff[symmetric])
qed

definition longest_match :: "multi_context \<Rightarrow> mroute_addr \<Rightarrow> nat option \<Rightarrow> bool" where
  "longest_match m a w \<longleftrightarrow>
     (case w of
        None \<Rightarrow> \<forall>r. \<not> net_route m a r
      | Some i \<Rightarrow> \<exists>r. net_route m a r \<and> mr_instance r = i \<and>
          (\<forall>r'. net_route m a r' \<longrightarrow> unat (ma_netbits (mr_addr r')) \<le> unat (ma_netbits (mr_addr r))))"

lemma lpm_search_match:
  assumes i: "net_inv m g" and a: "host_addr a"
  shows "longest_match m a (lpm_search m a (lens m))"
proof -
  have l: "longest_in m (set (lens m)) a (lpm_search m a (lens m))"
    by (rule lpm_search_longest[OF i a lens_bound[OF net_invD(2)[OF i]] lens_set(2)[OF net_invD(2)[OF i]]])
  show ?thesis
  proof (cases "lpm_search m a (lens m)")
    case None
    then show ?thesis using l net_route_len[OF i] by (auto simp: longest_match_def longest_in_def)
  next
    case (Some j)
    with l obtain r where "net_route m a r" "mr_instance r = j"
      "\<And>r'. net_route m a r' \<Longrightarrow> ma_netbits (mr_addr r') \<in> set (lens m) \<Longrightarrow>
         unat (ma_netbits (mr_addr r')) \<le> unat (ma_netbits (mr_addr r))"
      unfolding longest_in_def by (simp only: option.case) blast
    then show ?thesis using Some net_route_len[OF i] unfolding longest_match_def by (simp only: option.case) blast
  qed
qed

section \<open>The cache of host routes is transparent\<close>

definition current_cached :: "multi_context \<Rightarrow> mroute_addr \<Rightarrow> multi_route \<Rightarrow> bool" where
  "current_cached m a r \<longleftrightarrow>
     host_addr a \<and> hash_abs (mc_vhash m) a = Some r \<and> mr_flags r \<noteq> 0 \<and>
     mr_cache_generation r = cache_generation (mc_route_helper m) \<and> open_inst m (mr_instance r)"

definition cache_ok :: "multi_context \<Rightarrow> bool" where
  "cache_ok m \<longleftrightarrow>
     (\<forall>e \<in> set (helems (mc_vhash m)). mr_flags (he_value e) \<noteq> 0 \<longrightarrow>
        unat (mr_cache_generation (he_value e)) \<le> unat (cache_generation (mc_route_helper m))) \<and>
     (\<forall>a r. current_cached m a r \<longrightarrow> lpm_search m a (lens m) = Some (mr_instance r))"

text \<open>The internal routes lead to the same clients.\<close>

definition nets_same :: "multi_context \<Rightarrow> multi_context \<Rightarrow> bool" where
  "nets_same m m' \<longleftrightarrow>
     (\<forall>k. net_flag k \<longrightarrow> table_owner m' k = table_owner m k) \<and> mc_route_helper m' = mc_route_helper m"

lemma net_key_flag: "net_key a n = Some t \<Longrightarrow> net_flag t"
  by (auto simp: net_key_def mroute_addr_mask_host_bits_def Let_def net_flag_def netbits_nonzero
      split: if_splits prod.splits)

lemma lpm_search_nets:
  assumes "\<And>k. net_flag k \<Longrightarrow> table_owner m' k = table_owner m k"
  shows "lpm_search m' a ns = lpm_search m a ns"
proof (induction ns)
  case (Cons n ns)
  have "Option.bind (net_key a n) (table_owner m') = Option.bind (net_key a n) (table_owner m)"
    using net_key_flag[of a n] assms by (cases "net_key a n") simp_all
  then show ?case using Cons by (simp split: option.split)
qed simp

lemma lens_helper: "mc_route_helper m' = mc_route_helper m \<Longrightarrow> lens m' = lens m"
  by (simp add: lens_def)

lemma nets_same_lpm: "nets_same m m' \<Longrightarrow> lpm_search m' a (lens m') = lpm_search m a (lens m)"
  using lpm_search_nets[of m' m] lens_helper[of m' m] by (simp add: nets_same_def)

text \<open>Equal addresses have the same longest prefix.\<close>

lemma equal_bits:
  assumes "plain_addr a" "plain_addr b" "mroute_addr_equal a b" "i < kind_bits a"
  shows "addr_bit (ma_raw a) i = addr_bit (ma_raw b) i"
proof -
  have "addr_kind a = addr_kind b" using assms(3) by (simp add: mroute_addr_equal_iff addr_kind_def)
  note l = plain_len(1,2)[OF assms(1,2) this]
  have "take (unat (ma_len a)) (ma_raw a) = take (unat (ma_len a)) (ma_raw b)"
    using assms(3) unfolding mroute_addr_equal_iff by (elim conjE) simp
  then show ?thesis using addr_bit_take[of i "unat (ma_len a)"] l(2) assms(4) by metis
qed

lemma net_key_equal:
  assumes a: "host_addr a" "host_addr b" and e: "mroute_addr_equal a b" and n: "unat n \<le> 128"
    and s: "net_key a n = Some s" and t: "net_key b n = Some t"
  shows "mroute_addr_equal s t"
proof -
  let ?a = "a\<lparr>ma_type := ma_type a OR MR_WITH_NETBITS, ma_netbits := n\<rparr>"
  let ?b = "b\<lparr>ma_type := ma_type b OR MR_WITH_NETBITS, ma_netbits := n\<rparr>"
  have f: "ma_type a = ma_type b" "ma_proto a = ma_proto b" "ma_len a = ma_len b"
    using e by (simp_all add: mroute_addr_equal_iff)
  have k: "addr_kind b = addr_kind a" using f by (simp add: addr_kind_def)
  have kb: "kind_bits ?a = kind_bits a" "kind_bits ?b = kind_bits b" by (simp_all add: kind_bits_def)
  have p: "plain_addr ?a" "plain_addr ?b"
    using host_addrD(1)[OF a(1)] host_addrD(1)[OF a(2)] kb
    by (simp_all add: plain_addr_def mroute_wf_def ip_addr_def)
  have m: "mroute_addr_mask_host_bits ?a = Some s" "mroute_addr_mask_host_bits ?b = Some t"
    using s t by (simp_all add: net_key_def)
  show ?thesis
  proof (cases "unat n \<le> kind_bits a")
    case True
    have n': "unat (ma_netbits ?a) \<le> kind_bits ?a" using True kb by simp
    have "mroute_addr_equal s t \<longleftrightarrow>
        (\<forall>i < unat (ma_netbits ?a). addr_bit (ma_raw ?a) i = addr_bit (ma_raw ?b) i)"
      by (rule masked_equal_iff[OF p _ _ _ n' m]) (use f in simp_all)
    then show ?thesis using equal_bits[OF host_addrD(1)[OF a(1)] host_addrD(1)[OF a(2)] e] True by auto
  next
    case False
    then have k4: "addr_kind a = MR_ADDR_IPV4" and l: "unat n > 32"
      using n host_addrD(6)[OF a(1)] by (auto simp: kind_bits_def split: if_splits)
    have "s = ?a\<lparr>ma_raw := mem_put (ma_raw a) 0 (enc32 0)\<rparr>" "t = ?b\<lparr>ma_raw := mem_put (ma_raw b) 0 (enc32 0)\<rparr>"
      using mask_v4_long[of ?a] mask_v4_long[of ?b] m k4 k l by simp_all
    moreover have "unat (ma_len a) = 4" using host_addrD(1)[OF a(1)] k4 by (simp add: plain_addr_def kind_bits_def)
    moreover have "length (ma_raw a) = 20" "length (ma_raw b) = 20"
      using host_addrD(5)[OF a(1)] host_addrD(5)[OF a(2)] by (simp_all add: mroute_wf_def MR_MAX_ADDR_LEN_def)
    ultimately show ?thesis using f by (simp add: mroute_addr_equal_iff mem_put_def codec_simps)
  qed
qed

lemma lpm_search_equal:
  assumes m: "routing_ok m" and a: "host_addr a" "host_addr b" and e: "mroute_addr_equal a b"
    and n: "\<forall>n \<in> set ns. unat n \<le> 128"
  shows "lpm_search m a ns = lpm_search m b ns"
  using n
proof (induction ns)
  case (Cons n ns)
  have n: "unat n \<le> 128" using Cons(2) by simp
  obtain s t where s: "net_key a n = Some s" and t: "net_key b n = Some t"
    using net_key_total[OF host_addrD(5,6)[OF a(1)] n] net_key_total[OF host_addrD(5,6)[OF a(2)] n] by blast
  have "mroute_addr_equal s t" by (rule net_key_equal[OF a e n s t])
  then have "table_owner m s = table_owner m t" using table_abs_cong[OF m] by (simp add: table_owner_def)
  then show ?case using Cons s t by (simp split: option.split)
qed simp

lemma cache_okD:
  assumes "cache_ok m"
  shows "e \<in> set (helems (mc_vhash m)) \<Longrightarrow> mr_flags (he_value e) \<noteq> 0 \<Longrightarrow>
      unat (mr_cache_generation (he_value e)) \<le> unat (cache_generation (mc_route_helper m))"
    "current_cached m a r \<Longrightarrow> lpm_search m a (lens m) = Some (mr_instance r)"
  using assms by (auto simp: cache_ok_def)

text \<open>Two ways to keep the cache right: the internal routes are the same, or the generation is new.\<close>

lemma cache_ok_same:
  assumes c: "cache_ok m" and n: "nets_same m m'"
    and e: "\<And>e. e \<in> set (helems (mc_vhash m')) \<Longrightarrow> mr_flags (he_value e) \<noteq> 0 \<Longrightarrow>
      unat (mr_cache_generation (he_value e)) \<le> unat (cache_generation (mc_route_helper m))"
    and r: "\<And>a r. current_cached m' a r \<Longrightarrow>
      (\<exists>q. current_cached m a q \<and> mr_instance q = mr_instance r) \<or>
      lpm_search m a (lens m) = Some (mr_instance r)"
  shows "cache_ok m'"
  unfolding cache_ok_def
proof (intro conjI ballI allI impI)
  fix a r assume "current_cached m' a r"
  from r[OF this] have "lpm_search m a (lens m) = Some (mr_instance r)"
    using cache_okD(2)[OF c] by auto
  then show "lpm_search m' a (lens m') = Some (mr_instance r)" using nets_same_lpm[OF n] by simp
qed (use e n in \<open>simp add: nets_same_def\<close>)

lemma cache_ok_new:
  assumes c: "cache_ok m" and s: "cached_subset m m'" and w: "routing_ok m'"
    and g: "cache_generation (mc_route_helper m') = cache_generation (mc_route_helper m) + of_nat n"
    and n: "n > 0" "unat (cache_generation (mc_route_helper m)) + n < 2 ^ 32"
  shows "cache_ok m'"
proof -
  have u: "unat (cache_generation (mc_route_helper m')) = unat (cache_generation (mc_route_helper m)) + n"
  proof -
    have "unat (of_nat n :: u32) = n" using n(2) by (simp add: unat_of_nat)
    then show ?thesis using n(2) unfolding g by (subst unat_add_lem[THEN iffD1]) simp_all
  qed
  have e: "unat (mr_cache_generation (he_value e)) < unat (cache_generation (mc_route_helper m'))"
    if "e \<in> set (helems (mc_vhash m'))" "mr_flags (he_value e) \<noteq> 0" for e
  proof -
    have "e \<in> set (helems (mc_vhash m))" using s that by (auto simp: cached_subset_def)
    from cache_okD(1)[OF c this that(2)] show ?thesis using u n(1) by simp
  qed
  have "\<not> current_cached m' a r" for a r
  proof
    assume cc: "current_cached m' a r"
    then obtain x where "x \<in> set (helems (mc_vhash m'))" "he_value x = r"
      using hash_abs_route(1)[OF w] by (auto simp: current_cached_def)
    with e[of x] cc show False by (auto simp: current_cached_def)
  qed
  then show ?thesis using e by (auto simp: cache_ok_def less_imp_le)
qed

lemma open_evolves:
  assumes ev: "evolves (mc_inst m) (mc_inst m')"
  shows "open_inst m' i = open_inst m i"
proof
  assume "open_inst m' i"
  then obtain y where y: "mc_inst m' i = Some y" "\<not> mi_halt y" by (rule open_instE)
  from evolvesD(1)[OF ev y(1)] obtain x where "mc_inst m i = Some x" "static y = static x" by blast
  then show "open_inst m i" using y(2) by (simp add: open_inst_def static_fields)
next
  assume "open_inst m i"
  then obtain x where x: "mc_inst m i = Some x" "\<not> mi_halt x" by (rule open_instE)
  from evolvesD(2)[OF ev x] obtain y where "mc_inst m' i = Some y" "static y = static x" by blast
  then show "open_inst m' i" using x(2) by (simp add: open_inst_def static_fields)
qed

text \<open>The client a network key leads to.\<close>

lemma net_owner:
  assumes i: "net_inv m g" and k: "net_flag k"
  shows "table_owner m k = (case hash_abs (mc_vhash m) k of None \<Rightarrow> None
    | Some r \<Rightarrow> if open_inst m (mr_instance r) then Some (mr_instance r) else None)"
proof (cases "hash_abs (mc_vhash m) k")
  case (Some r)
  note h = hash_abs_route[OF net_invD(1)[OF i] Some]
  have "net_flag (mr_addr r)" using h(2) k by (simp add: net_flag_def mroute_addr_equal_iff)
  moreover have "route_kind r" using net_invD(4)[OF i] h(1) by blast
  ultimately have "mr_flags r = 0" by (simp add: route_kind_def)
  then show ?thesis using Some live_permanent by (simp add: table_owner_def)
qed (simp add: table_owner_def)

lemma nets_sameI:
  assumes "net_inv m g" "net_inv m' g'" "mc_route_helper m' = mc_route_helper m"
    and "\<And>i. open_inst m' i = open_inst m i"
    and "\<And>k. net_flag k \<Longrightarrow> map_option mr_instance (hash_abs (mc_vhash m') k) =
      map_option mr_instance (hash_abs (mc_vhash m) k)"
  shows "nets_same m m'"
  unfolding nets_same_def
proof (intro conjI allI impI)
  fix k assume k: "net_flag k"
  show "table_owner m' k = table_owner m k"
    using assms(5)[OF k] assms(4) net_owner[OF assms(1) k] net_owner[OF assms(2) k]
    by (auto split: option.splits)
qed (rule assms(3))

section \<open>Every operation keeps the cache right\<close>

lemma cache_unchanged:
  assumes c: "cache_ok m" and i: "route_inv m" "route_inv m'" and u: "unchanged m m'"
  shows "cache_ok m'"
proof -
  have f: "mc_route_helper m' = mc_route_helper m" "hash_abs (mc_vhash m') = hash_abs (mc_vhash m)"
    "set (helems (mc_vhash m')) = set (helems (mc_vhash m))"
    using u same_rest_fields(1) by (auto simp: unchanged_def)
  have o: "open_inst m' j = open_inst m j" for j by (rule open_evolves[OF unchanged_evolves[OF u]])
  have "nets_same m m'"
    by (rule nets_sameI[OF route_invD(1)[OF i(1)] route_invD(1)[OF i(2)] f(1)]) (simp_all add: f o)
  then show ?thesis
    by (rule cache_ok_same[OF c]) (use cache_okD(1)[OF c] f o in \<open>auto simp: current_cached_def\<close>)
qed

lemma cache_learned:
  assumes c: "cache_ok m" and i: "route_inv m" "route_inv m'" and l: "learned m j a fl m'"
    and a: "\<not> net_flag a" and fl: "fl = 0 \<or> (fl = CACHE_FLAGS \<and> host_addr a \<and> lpm_search m a (lens m) = Some j)"
  shows "cache_ok m'"
proof -
  have f: "mc_route_helper m' = mc_route_helper m" "evolves (mc_inst m) (mc_inst m')"
    and h: "hash_abs (mc_vhash m') = (\<lambda>k. if mroute_addr_equal a k then Some (new_route m j a fl)
      else hash_abs (mc_vhash m) k)"
    and el: "\<And>e. e \<in> set (helems (mc_vhash m')) \<Longrightarrow>
      he_value e = new_route m j a fl \<or> e \<in> set (helems (mc_vhash m))"
    using l same_rest_fields(1) by (auto simp: learned_def)
  have o: "open_inst m' k = open_inst m k" for k by (rule open_evolves[OF f(2)])
  have ne: "\<not> mroute_addr_equal a k" if "net_flag k" for k
    using a that by (auto simp: net_flag_def mroute_addr_equal_iff)
  have "nets_same m m'"
    by (rule nets_sameI[OF route_invD(1)[OF i(1)] route_invD(1)[OF i(2)] f(1)]) (simp_all add: h o ne)
  then show ?thesis
  proof (rule cache_ok_same[OF c])
    fix e assume "e \<in> set (helems (mc_vhash m'))" "mr_flags (he_value e) \<noteq> 0"
    then show "unat (mr_cache_generation (he_value e)) \<le> unat (cache_generation (mc_route_helper m))"
      using el[of e] cache_okD(1)[OF c] by (auto simp: new_route_def)
  next
    fix b r assume cc: "current_cached m' b r"
    show "(\<exists>q. current_cached m b q \<and> mr_instance q = mr_instance r) \<or>
      lpm_search m b (lens m) = Some (mr_instance r)"
    proof (cases "mroute_addr_equal a b")
      case False
      then have "current_cached m b r" using cc by (simp add: current_cached_def h f o)
      then show ?thesis by blast
    next
      case True
      then have r: "r = new_route m j a fl" and b: "host_addr b" and nz: "fl \<noteq> 0"
        using cc by (auto simp: current_cached_def h new_route_def)
      have "lpm_search m b (lens m) = lpm_search m a (lens m)"
        by (rule lpm_search_equal[OF route_invD(5)[OF i(1)] b])
          (use fl nz True mroute_addr_equal_sym lens_bound[OF net_invD(2)[OF route_invD(1)[OF i(1)]]] in auto)
      then show ?thesis using fl nz r by (simp add: new_route_def)
    qed
  qed
qed

lemma cache_touched:
  assumes c: "cache_ok m" and i: "route_inv m" "route_inv m'" and t: "touched m a r m'"
    and r: "hash_abs (mc_vhash m) a = Some r"
  shows "cache_ok m'"
proof -
  let ?r = "r\<lparr>mr_last_reference := mc_now m\<rparr>"
  have f: "mc_route_helper m' = mc_route_helper m" "mc_inst m' = mc_inst m"
    and h: "hash_abs (mc_vhash m') = (\<lambda>k. if mroute_addr_equal a k then Some ?r else hash_abs (mc_vhash m) k)"
    and el: "\<And>e. e \<in> set (helems (mc_vhash m')) \<Longrightarrow> he_value e = ?r \<or> e \<in> set (helems (mc_vhash m))"
    using t same_rest_fields(1) by (auto simp: touched_def)
  have o: "open_inst m' k = open_inst m k" for k using f(2) by (simp add: open_inst_def)
  have rk: "hash_abs (mc_vhash m) k = Some r" if "mroute_addr_equal a k" for k
    using table_abs_cong[OF route_invD(5)[OF i(1)] that] r by simp
  have "nets_same m m'"
    by (rule nets_sameI[OF route_invD(1)[OF i(1)] route_invD(1)[OF i(2)] f(1)]) (simp_all add: h o rk)
  then show ?thesis
  proof (rule cache_ok_same[OF c])
    fix e assume "e \<in> set (helems (mc_vhash m'))" "mr_flags (he_value e) \<noteq> 0"
    moreover obtain e0 where "e0 \<in> set (helems (mc_vhash m))" "he_value e0 = r"
      using hash_abs_route(1)[OF route_invD(5)[OF i(1)] r] by blast
    ultimately show "unat (mr_cache_generation (he_value e)) \<le> unat (cache_generation (mc_route_helper m))"
      using el[of e] cache_okD(1)[OF c] by auto
  next
    fix b q assume cc: "current_cached m' b q"
    then have "current_cached m b (if mroute_addr_equal a b then r else q)"
      using rk by (auto simp: current_cached_def h f o split: if_splits)
    moreover have "mr_instance (if mroute_addr_equal a b then r else q) = mr_instance q"
      using cc by (auto simp: current_cached_def h split: if_splits)
    ultimately show "(\<exists>q'. current_cached m b q' \<and> mr_instance q' = mr_instance q) \<or>
      lpm_search m b (lens m) = Some (mr_instance q)" by blast
  qed
qed

lemma cache_swept:
  assumes c: "cache_ok m" and i: "route_inv m" "route_inv m'" and s: "swept_routes (\<lambda>r. \<not> live m r) m m'"
  shows "cache_ok m'"
proof -
  have f: "mc_route_helper m' = mc_route_helper m" "evolves (mc_inst m) (mc_inst m')"
    and h: "\<And>k. hash_abs (mc_vhash m') k = hash_abs (mc_vhash m) k \<or>
       (hash_abs (mc_vhash m') k = None \<and> (\<exists>r. hash_abs (mc_vhash m) k = Some r \<and> \<not> live m r))"
    and el: "set (helems (mc_vhash m')) \<subseteq> set (helems (mc_vhash m))"
    using s same_rest_fields(1) by (auto simp: swept_routes_def)
  have o: "open_inst m' k = open_inst m k" for k by (rule open_evolves[OF f(2)])
  have "nets_same m m'"
    unfolding nets_same_def
  proof (intro conjI allI impI)
    fix k assume k: "net_flag k"
    note own = net_owner[OF route_invD(1)[OF i(1)] k] net_owner[OF route_invD(1)[OF i(2)] k]
    show "table_owner m' k = table_owner m k" using h[of k]
    proof (elim disjE conjE exE)
      assume "hash_abs (mc_vhash m') k = hash_abs (mc_vhash m) k"
      then show ?thesis using own by (cases "hash_abs (mc_vhash m) k") (simp_all add: o)
    qed (simp add: table_owner_def)
  qed (rule f(1))
  then show ?thesis
  proof (rule cache_ok_same[OF c])
    fix b r assume "current_cached m' b r"
    then have "current_cached m b r" using h[of b] f o by (auto simp: current_cached_def)
    then show "(\<exists>q. current_cached m b q \<and> mr_instance q = mr_instance r) \<or>
      lpm_search m b (lens m) = Some (mr_instance r)" by blast
  qed (use cache_okD(1)[OF c] el in auto)
qed

lemma cache_inst:
  assumes c: "cache_ok m" and i: "route_inv m" "route_inv m'"
    and f: "mc_vhash m' = mc_vhash m" "mc_route_helper m' = mc_route_helper m"
    and o: "\<And>k r. hash_abs (mc_vhash m) k = Some r \<Longrightarrow> open_inst m' (mr_instance r) \<Longrightarrow> open_inst m (mr_instance r)"
    and n: "\<And>k r. hash_abs (mc_vhash m) k = Some r \<Longrightarrow> net_flag (mr_addr r) \<Longrightarrow> open_inst m (mr_instance r) \<Longrightarrow>
      open_inst m' (mr_instance r)"
  shows "cache_ok m'"
proof -
  have "nets_same m m'"
    unfolding nets_same_def
  proof (intro conjI allI impI)
    fix k assume k: "net_flag k"
    note own = net_owner[OF route_invD(1)[OF i(1)] k] net_owner[OF route_invD(1)[OF i(2)] k]
    show "table_owner m' k = table_owner m k"
    proof (cases "hash_abs (mc_vhash m) k")
      case (Some r)
      have "net_flag (mr_addr r)"
        using hash_abs_route(2)[OF route_invD(5)[OF i(1)] Some] k by (simp add: net_flag_def mroute_addr_equal_iff)
      then have "open_inst m' (mr_instance r) = open_inst m (mr_instance r)" using o[OF Some] n[OF Some] by blast
      then show ?thesis using own Some f by simp
    qed (use own f in simp)
  qed (rule f(2))
  then show ?thesis
  proof (rule cache_ok_same[OF c])
    fix b r assume "current_cached m' b r"
    then have "current_cached m b r" using o f by (auto simp: current_cached_def)
    then show "(\<exists>q. current_cached m b q \<and> mr_instance q = mr_instance r) \<or>
      lpm_search m b (lens m) = Some (mr_instance r)" by blast
  qed (use cache_okD(1)[OF c] f in simp)
qed

text \<open>
  The calls that keep the cache right: all but the check for stale routes, as long as the 32-bit
  generation counter does not wrap around.
\<close>

definition steady :: "multi_context \<Rightarrow> route_op \<Rightarrow> bool" where
  "steady m op =
     (case op of
        Stale_Check \<Rightarrow> False
      | Add_Iroutes i \<Rightarrow>
          (case mc_inst m i of None \<Rightarrow> True | Some x \<Rightarrow>
             unat (cache_generation (mc_route_helper m)) + length (iroute_lens x) < 2 ^ 32)
      | Close i \<Rightarrow>
          (case mc_inst m i of None \<Rightarrow> True | Some x \<Rightarrow>
             unat (cache_generation (mc_route_helper m)) + length (iroute_lens x) < 2 ^ 32)
      | _ \<Rightarrow> True)"

lemma open_upd: "open_inst (m\<lparr>mc_inst := (mc_inst m)(j \<mapsto> y)\<rparr>) i = (if i = j then \<not> mi_halt y else open_inst m i)"
  by (simp add: open_inst_def)

lemma cache_upd:
  assumes c: "cache_ok m" and i: "route_inv m" "route_inv (m\<lparr>mc_inst := (mc_inst m)(j \<mapsto> y)\<rparr>)"
    and x: "mc_inst m j = Some x" "mi_halt y = mi_halt x"
  shows "cache_ok (m\<lparr>mc_inst := (mc_inst m)(j \<mapsto> y)\<rparr>)"
proof -
  have "open_inst (m\<lparr>mc_inst := (mc_inst m)(j \<mapsto> y)\<rparr>) k = open_inst m k" for k
    using x by (simp add: open_upd open_inst_def)
  then show ?thesis by (intro cache_inst[OF c i]) simp_all
qed

lemma upd_inst_Some: "mc_inst m j = Some x \<Longrightarrow> upd_inst m j f = Some (m\<lparr>mc_inst := (mc_inst m)(j \<mapsto> f x)\<rparr>)"
  by (simp add: upd_inst_def)

lemma add_iroutes_nil:
  assumes "mc_inst m j = Some x" "iroute_lens x = []" "multi_add_iroutes script m j = Some m'"
  shows "m' = m \<or> m' = m\<lparr>mc_inst := (mc_inst m)(j \<mapsto> x\<lparr>mi_did_iroutes := True\<rparr>)\<rparr>"
  using assms by (auto simp: multi_add_iroutes_def upd_inst_def iroute_lens_def split: if_splits)

lemma cache_add_iroutes:
  assumes c: "cache_ok m" and i: "route_inv m" and x: "mc_inst m j = Some x" "\<not> mi_halt x" "\<not> mi_did_iroutes x"
    and s: "unat (cache_generation (mc_route_helper m)) + length (iroute_lens x) < 2 ^ 32"
    and e: "multi_add_iroutes script m j = Some m'"
  shows "cache_ok m'"
proof (cases "iroute_lens x = []")
  case True
  from add_iroutes_inv[OF i x, of script] e have i': "route_inv m'" by auto
  show ?thesis using add_iroutes_nil[OF x(1) True e] c cache_upd[OF c i _ x(1)] i' by auto
next
  case False
  from add_iroutes_inv[OF i x, of script] e have i': "route_inv m'" and d:
    "m' = m \<or> (cached_subset m m' \<and> cache_generation (mc_route_helper m') =
       cache_generation (mc_route_helper m) + of_nat (length (iroute_lens x)))" by auto
  from d show ?thesis
  proof (elim disjE conjE)
    assume "cached_subset m m'" "cache_generation (mc_route_helper m') =
      cache_generation (mc_route_helper m) + of_nat (length (iroute_lens x))"
    from cache_ok_new[OF c this(1) route_invD(5)[OF i'] this(2)] show ?thesis using False s by simp
  qed (use c in simp)
qed

lemma cache_close:
  assumes c: "cache_ok m" and i: "route_inv m" and x: "mc_inst m j = Some x" "\<not> mi_halt x"
    and s: "unat (cache_generation (mc_route_helper m)) + length (iroute_lens x) < 2 ^ 32"
    and e: "multi_close_instance m j False = Some m'"
  shows "cache_ok m'"
proof -
  from close_inv[OF i x] e obtain mh J where m': "m' = m\<lparr>mc_inst := J, mc_route_helper := mh\<rparr>"
    and r: "route_inv m'" "\<forall>l. l \<noteq> j \<longrightarrow> J l = mc_inst m l" "\<forall>y. J j = Some y \<longrightarrow> mi_halt y"
      "cache_generation mh = cache_generation (mc_route_helper m) + of_nat (length (gof m j))"
      "gof m j = [] \<longrightarrow> mh = mc_route_helper m" by auto
  have cl: "\<not> open_inst m' j" using r(3) by (auto simp: open_inst_def m' split: option.splits)
  have ot: "l \<noteq> j \<Longrightarrow> open_inst m' l = open_inst m l" for l using r(2) by (simp add: open_inst_def m')
  show ?thesis
  proof (cases "gof m j = []")
    case True
    show ?thesis
    proof (rule cache_inst[OF c i r(1)])
      fix k q assume "open_inst m' (mr_instance q)"
      then show "open_inst m (mr_instance q)" using cl ot by (cases "mr_instance q = j") auto
    next
      fix k q assume q: "hash_abs (mc_vhash m) k = Some q" "net_flag (mr_addr q)" "open_inst m (mr_instance q)"
      from hash_abs_route(1)[OF route_invD(5)[OF i] q(1)] obtain w where
        "w \<in> set (helems (mc_vhash m))" "he_value w = q" by blast
      then have "registered m (gof m) q" using net_invD(5)[OF route_invD(1)[OF i]] by blast
      then have "mr_instance q \<noteq> j" using True q(2) x by (auto simp: registered_def)
      then show "open_inst m' (mr_instance q)" using ot q(3) by simp
    qed (use True r(5) in \<open>simp_all add: m'\<close>)
  next
    case False
    have "cached_subset m m'" by (simp add: cached_subset_def m')
    moreover have "gof m j = iroute_lens x" using False x by (auto simp: gof_def inst_lens_def split: if_splits)
    ultimately show ?thesis
      using cache_ok_new[OF c _ route_invD(5)[OF r(1)], of "length (gof m j)"] r(4) False s by (simp add: m')
  qed
qed

lemma cache_step:
  assumes i: "route_inv m" and c: "cache_ok m" and p: "route_pre m op" and s: "steady m op"
    and e: "route_exec script m op = Some m'"
  shows "cache_ok m'"
proof -
  from route_step[OF i p, of script] e have i': "route_inv m'" by simp
  show ?thesis
  proof (cases op)
    case (Create j k)
    with create_inv[OF i, of j k] p e obtain x where m': "m' = m\<lparr>mc_inst := (mc_inst m)(j \<mapsto> x)\<rparr>" by auto
    have "open_inst m' (mr_instance r) = open_inst m (mr_instance r)" if "hash_abs (mc_vhash m) k = Some r" for k r
      using hash_abs_route(3)[OF route_invD(5)[OF i] that] Create p by (auto simp: m' open_upd)
    then show ?thesis by (intro cache_inst[OF c i i']) (auto simp: m')
  next
    case (Iroute j n nm)
    with p obtain x where x: "mc_inst m j = Some x" by (auto elim: unroutedE)
    with e Iroute have "m' = m\<lparr>mc_inst := (mc_inst m)(j \<mapsto> x\<lparr>mi_iroutes := option_iroute (mi_iroutes x) n nm\<rparr>)\<rparr>"
      by (simp add: upd_inst_Some)
    then show ?thesis using cache_upd[OF c i _ x] i' by simp
  next
    case (Iroute_Ipv6 j q)
    with p obtain x where x: "mc_inst m j = Some x" by (auto elim: unroutedE)
    with e Iroute_Ipv6 have
      "m' = m\<lparr>mc_inst := (mc_inst m)(j \<mapsto> x\<lparr>mi_iroutes_ipv6 := option_iroute_ipv6 (mi_iroutes_ipv6 x) q\<rparr>)\<rparr>"
      by (simp add: upd_inst_Some)
    then show ?thesis using cache_upd[OF c i _ x] i' by simp
  next
    case (Add_Iroutes j)
    with p obtain x where x: "mc_inst m j = Some x" "\<not> mi_halt x" "\<not> mi_did_iroutes x" by (auto elim: unroutedE)
    then show ?thesis using cache_add_iroutes[OF c i x] s e Add_Iroutes by (simp add: steady_def)
  next
    case (Primary_V4 j a)
    with p obtain x where x: "mc_inst m j = Some x" "\<not> mi_halt x" by (auto elim: open_instE)
    from learn_host_inv[OF i x host_not_flag(1), of script a] e Primary_V4
    show ?thesis using cache_unchanged[OF c i i'] cache_learned[OF c i i' _ host_not_flag(1)]
      by (auto simp: learn_v4_host)
  next
    case (Primary_V6 j a)
    with p obtain x where x: "mc_inst m j = Some x" "\<not> mi_halt x" by (auto elim: open_instE)
    from learn_host_inv[OF i x host_not_flag(2), of script a] e Primary_V6
    show ?thesis using cache_unchanged[OF c i i'] cache_learned[OF c i i' _ host_not_flag(2)]
      by (auto simp: learn_v6_host)
  next
    case (Learn_Source j a)
    with p obtain x where x: "mc_inst m j = Some x" "\<not> mi_halt x" and a: "\<not> net_flag a" by (auto elim: open_instE)
    from learn_host_inv[OF i x a, of script] e Learn_Source
    show ?thesis using cache_unchanged[OF c i i'] cache_learned[OF c i i' _ a] by auto
  next
    case (Lookup_Virtual a cidr)
    then have h: "cidr \<Longrightarrow> host_addr a" using p by simp
    from lookup_inv[where script = script and cidr = cidr, OF i h] e Lookup_Virtual
    have "unchanged m m' \<or> (\<exists>r. hash_abs (mc_vhash m) a = Some r \<and> live m r \<and> touched m a r m') \<or>
     (\<exists>i. cidr \<and> lpm_search m a (lens m) = Some i \<and> learned m i a CACHE_FLAGS m')" by auto
    then show ?thesis
    proof (elim disjE exE conjE)
      fix k assume "cidr" "lpm_search m a (lens m) = Some k" "learned m k a CACHE_FLAGS m'"
      then show ?thesis using cache_learned[OF c i i' _ host_not_net[OF h]] h by blast
    qed (use cache_unchanged[OF c i i'] cache_touched[OF c i i'] in blast)+
  next
    case Reap
    from reap_inv[OF i] e Reap have "m' = m \<or> (\<exists>m1. swept_routes (\<lambda>r. \<not> live m r) m m1 \<and> routing_ok m1 \<and>
       m' = m1\<lparr>mc_reaper := mc_reaper m'\<rparr>)" by auto
    then show ?thesis
    proof (elim disjE exE conjE)
      fix m1 assume m1: "swept_routes (\<lambda>r. \<not> live m r) m m1" "routing_ok m1" "m' = m1\<lparr>mc_reaper := mc_reaper m'\<rparr>"
      have i1: "route_inv m1" using inv_swept[OF i m1(2,1)] by blast
      have f: "mc_vhash m' = mc_vhash m1" "mc_route_helper m' = mc_route_helper m1" "mc_inst m' = mc_inst m1"
        by (subst m1(3); simp)+
      have "cache_ok m1" by (rule cache_swept[OF c i i1 m1(1)])
      then show ?thesis by (rule cache_inst[OF _ i1 i']) (simp_all add: f open_inst_def)
    qed (use c in simp)
  next
    case Stale_Check
    then show ?thesis using s by (simp add: steady_def)
  next
    case (Close j)
    with p obtain x where x: "mc_inst m j = Some x" "\<not> mi_halt x" by (auto elim: open_instE)
    then show ?thesis using cache_close[OF c i x] s e Close by (simp add: steady_def)
  next
    case (Clock t)
    then have "m' = m\<lparr>mc_now := t\<rparr>" using e by simp
    then show ?thesis by (intro cache_inst[OF c i i']) (simp_all add: open_inst_def)
  qed
qed

lemma serves_cache: "serves steady m \<Longrightarrow> cache_ok m"
proof (induction rule: serves.induct)
  case (start n iv local dev ageing c2c now m)
  from init_inv[OF start] show ?case
    using hash_abs_route(1)[OF route_invD(5)] by (fastforce simp: cache_ok_def current_cached_def)
next
  case (step m op script m')
  then show ?case using cache_step[OF serves_inv[OF step(1)]] by blast
qed

section \<open>What the server guarantees\<close>

text \<open>The client an address was learned for, as opposed to cached for.\<close>

definition host_owner :: "multi_context \<Rightarrow> mroute_addr \<Rightarrow> nat option" where
  "host_owner m a =
     (case hash_abs (mc_vhash m) a of
        None \<Rightarrow> None
      | Some r \<Rightarrow> if mr_flags r = 0 \<and> open_inst m (mr_instance r) then Some (mr_instance r) else None)"

text \<open>\<open>routed m a w\<close>: by the learned routes and the internal routes, \<open>w\<close> owns the address.\<close>

definition routed :: "multi_context \<Rightarrow> mroute_addr \<Rightarrow> nat option \<Rightarrow> bool" where
  "routed m a w \<longleftrightarrow>
     (if mroute_addr_equal a (mc_local m) then w = None
      else case host_owner m a of Some i \<Rightarrow> w = Some i | None \<Rightarrow> longest_match m a w)"

lemma virtual_owner_routed:
  assumes i: "route_inv m" and c: "cache_ok m" and a: "host_addr a"
  shows "routed m a (virtual_owner m a True)"
proof (cases "mroute_addr_equal a (mc_local m)")
  case True
  then show ?thesis by (simp add: routed_def virtual_owner_def)
next
  case False
  note lm = lpm_search_match[OF route_invD(1)[OF i] a]
  show ?thesis
  proof (cases "hash_abs (mc_vhash m) a")
    case None
    then show ?thesis using False lm by (simp add: routed_def virtual_owner_def host_owner_def table_owner_def)
  next
    case (Some r)
    show ?thesis
    proof (cases "mr_flags r = 0")
      case True
      then show ?thesis using False Some lm live_permanent[OF True, of m]
        by (simp add: routed_def virtual_owner_def host_owner_def table_owner_def)
    next
      case fl: False
      from hash_abs_route(1)[OF route_invD(5)[OF i] Some] obtain e where
        "e \<in> set (helems (mc_vhash m))" "he_value e = r" by blast
      then have "route_kind r" using net_invD(4)[OF route_invD(1)[OF i]] by blast
      then have "mr_flags r = CACHE_FLAGS" using fl by (auto simp: route_kind_def split: if_splits)
      then have "mr_flags r AND MULTI_ROUTE_CACHE \<noteq> 0"
        by (simp add: CACHE_FLAGS_def MULTI_ROUTE_CACHE_def MULTI_ROUTE_AGEABLE_def)
      then have "mr_cache_generation r = cache_generation (mc_route_helper m)" if "live m r"
        using that by (auto simp: live_def multi_route_defined_def split: if_splits)
      then have "current_cached m a r" if "live m r"
        using that Some fl a live_open_inst[OF that] by (simp add: current_cached_def)
      then have "live m r \<Longrightarrow> lpm_search m a (lens m) = Some (mr_instance r)" using cache_okD(2)[OF c] by blast
      then have "virtual_owner m a True = lpm_search m a (lens m)"
        using False Some by (simp add: virtual_owner_def table_owner_def)
      then show ?thesis using False Some fl lm by (simp add: routed_def host_owner_def)
    qed
  qed
qed

text \<open>C1: the server sends a packet for an address to the client the address was learned for, or else to the client
  with the longest matching internal route, or to none if no route matches: the cache of
  host routes, its ageing, its generations and the reaper never change the answer. This holds in
  every state reached without the optional check for stale routes and with less than 2^32
  changes of internal routes.\<close>

theorem lookup_longest_prefix:
  assumes "serves steady m" "host_addr a"
  shows "\<exists>w m'. multi_get_instance_by_virtual_addr script m a True = Some (w, m') \<and> routed m a w"
  using lookup_inv[where script = script and cidr = True, OF serves_inv[OF assms(1)] assms(2)]
    virtual_owner_routed[OF serves_inv[OF assms(1)] serves_cache[OF assms(1)] assms(2)] by blast

text \<open>The addresses of a packet.\<close>

lemma extract_tun_addrs:
  assumes e: "mroute_extract_addr_from_packet src0 dest0 vid b DEV_TYPE_TUN = (fl, src, dest)"
    and s: "fl AND MROUTE_EXTRACT_SUCCEEDED \<noteq> 0" and l: "length (ma_raw src0) = 20" "length (ma_raw dest0) = 20"
    and b: "int (length (buf_bytes b)) = buf_len b"
  shows "host_addr src" "host_addr dest" "fl AND MROUTE_EXTRACT_BCAST = 0"
proof -
  let ?p = "buf_bytes b"
  have c: "(buf_len b \<ge> 20 \<and> src = mroute_get_in_addr_t (src0\<lparr>ma_proto := 0\<rparr>) (mem_get ?p 12 4) 0 \<and>
      dest = mroute_get_in_addr_t (dest0\<lparr>ma_proto := 0\<rparr>) (mem_get ?p 16 4) 0) \<or>
     (buf_len b \<ge> 40 \<and> src = mroute_get_in6_addr (src0\<lparr>ma_proto := 0\<rparr>) (mem_get ?p 8 16) 0 \<and>
      dest = mroute_get_in6_addr (dest0\<lparr>ma_proto := 0\<rparr>) (mem_get ?p 24 16) 0)"
    and "fl AND MROUTE_EXTRACT_BCAST = 0"
    using e s by (auto simp: mroute_extract_addr_from_packet_def mroute_extract_addr_ip_def Let_def
        MROUTE_EXTRACT_SUCCEEDED_def MROUTE_EXTRACT_MCAST_def MROUTE_EXTRACT_IGMP_def MROUTE_EXTRACT_BCAST_def
        split: if_splits)
  then show "fl AND MROUTE_EXTRACT_BCAST = 0" by blast
  have g: "length (mem_get ?p i n) = n" if "int (i + n) \<le> buf_len b" for i n
    using that b by (simp add: mem_get_def)
  show "host_addr src" "host_addr dest"
    using c g[of 12 4] g[of 16 4] g[of 8 16] g[of 24 16] l
    by (auto simp: host_addr_def mroute_get_in_addr_t_def mroute_get_in6_addr_def plain_addr_def ip_addr_def
        addr_kind_def kind_bits_def mroute_wf_def MR_MAX_ADDR_LEN_def mem_simps addr_consts addr_consts(1)[symmetric])
qed

text \<open>C3: no client can send under another's address. Handling a packet a client sent never fails, and
  the packet is dropped unless its source address is routed to that very client.\<close>

theorem packets_not_spoofed:
  assumes m: "serves steady m"
    and l: "length (ma_raw src0) = 20" "length (ma_raw dest0) = 20"
    and b: "int (length (buf_bytes b)) = buf_len b"
  shows "\<exists>v m' fl src dest. incoming_link_tun script m pending src0 dest0 b = Some (v, m') \<and>
    mroute_extract_addr_from_packet src0 dest0 0 b DEV_TYPE_TUN = (fl, src, dest) \<and>
    (v = drop_packet \<or> (fl AND MROUTE_EXTRACT_SUCCEEDED \<noteq> 0 \<and> routed m src (Some pending)))"
proof -
  obtain fl src dest where e: "mroute_extract_addr_from_packet src0 dest0 0 b DEV_TYPE_TUN = (fl, src, dest)"
    by (metis prod_cases3)
  show ?thesis
  proof (cases "fl AND MROUTE_EXTRACT_SUCCEEDED = 0")
    case True
    then show ?thesis using e by (simp add: incoming_link_tun_def)
  next
    case False
    note x = extract_tun_addrs[OF e False l b]
    note i = serves_inv[OF m]
    from lookup_inv[where script = script and cidr = True, OF i x(1)] obtain m1 where
      1: "multi_get_instance_by_virtual_addr script m src True = Some (virtual_owner m src True, m1)" "route_inv m1"
      by blast
    from lookup_inv[where script = script and cidr = True, OF 1(2) x(2)] obtain m2 where
      2: "multi_get_instance_by_virtual_addr script m1 dest True = Some (virtual_owner m1 dest True, m2)" by blast
    note r = virtual_owner_routed[OF i serves_cache[OF m] x(1)]
    show ?thesis
    proof (cases "virtual_owner m src True = Some pending")
      case f: False
      then show ?thesis using e False 1(1) by (simp add: incoming_link_tun_def)
    next
      case True
      have "\<exists>v m'. incoming_link_tun script m pending src0 dest0 b = Some (v, m')"
        using e False 1(1) 2 True x(3) by (simp add: incoming_link_tun_def)
      then show ?thesis using e False r True by auto
    qed
  qed
qed

text \<open>C40: an IPv4 \<^verbatim>\<open>iroute\<close> whose network address has a bit set beyond its netmask is accepted and installed as it
  is written, but then no address is in its network: the client gets none of the traffic.\<close>

theorem unmasked_iroute_dead:
  assumes m: "netmask_to_netbits2 nm = n" "0 \<le> n"
    and h: "nat n \<le> i" "i < 32" "addr_bit (enc32 network) i"
  shows "option_iroute irs network (Some nm) = \<lparr>ir_network = network, ir_netbits = n\<rparr> # irs \<and>
    (\<exists>k. multi_learn_in_addr_t script m j network n False = multi_learn_addr script m j k 0 \<and>
       (\<forall>a. \<not> covers k a))"
proof -
  have n: "n \<le> 32" using m netmask_search_Some[of 0 nm] by (auto simp: netmask_to_netbits2_def split: option.splits)
  have nb: "unat (ma_netbits (v4_net network n)) = nat n" 
    using v4_net_addr(3)[OF m(2) n, of network] by (metis nat_int)
  have "\<not> covers (v4_net network n) a" for a
  proof
    assume c: "covers (v4_net network n) a"
    have "addr_kind (v4_net network n) = MR_ADDR_IPV4" by (simp add: addr_kind_def addr_consts)
    then have "kind_bits a = 32" using c by (simp add: covers_def kind_bits_def)
    then have "addr_bit (ma_raw (v4_net network n)) i \<Longrightarrow> i < nat n" using c h(2) nb by (simp add: covers_def)
    moreover have d: "i div 8 < 4" using h(2) by linarith
    moreover have "addr_bit (ma_raw (v4_net network n)) i = addr_bit (enc32 network) i"
      using h(2) d by (simp add: addr_bit_def v4_net_def mem_put_def nth_append codec_simps)
    ultimately show False using h by simp
  qed
  then show ?thesis using m learn_in_addr_t_net[OF m(2)] by (auto simp: option_iroute_def)
qed

text \<open>A server that has just started, and its first client.\<close>

lemma start_witness:
  "\<exists>m. multi_init_routes 256 7 167772161 DEV_TYPE_TUN 0 True 0 = Some m \<and> serves allowed m \<and>
    helems (mc_vhash m) = [] \<and> mc_inst m = Map.empty \<and> mc_local m = v4_host 167772161"
proof -
  obtain m where m: "multi_init_routes 256 7 167772161 DEV_TYPE_TUN 0 True 0 = Some m"
    by (simp add: multi_init_routes_def hash_init_def Let_def SIZEOF_HASH_BUCKET_def adjust_power_of_2_from.simps)
  have "mc_inst m = Map.empty" "mc_local m = v4_host 167772161"
    using m by (auto simp: multi_init_routes_def bind_eq_Some_conv mroute_extract_in_addr_t_def mroute_addr_init_def
        v4_host_def MR_MAX_ADDR_LEN_def)
  then show ?thesis using m serves.start[OF m, of allowed] init_inv(2)[OF m] by blast
qed

theorem lookup_longest_prefix_witness:
  "\<exists>m m'. multi_init_routes 256 7 167772161 DEV_TYPE_TUN 0 True 0 = Some m \<and>
    multi_get_instance_by_virtual_addr (\<lambda>_. True) m (v4_host 167772162) True = Some (None, m')"
proof -
  obtain m where m: "multi_init_routes 256 7 167772161 DEV_TYPE_TUN 0 True 0 = Some m" "serves steady m"
    "helems (mc_vhash m) = []" using start_witness by blast
  from lookup_longest_prefix[OF m(2) host_addrs(1), of "\<lambda>_. True"] obtain w m' where
    w: "multi_get_instance_by_virtual_addr (\<lambda>_. True) m (v4_host 167772162) True = Some (w, m')"
    "routed m (v4_host 167772162) w" by blast
  have "hash_abs (mc_vhash m) (v4_host 167772162) = None"
    using hash_abs_route(1)[OF route_invD(5)[OF serves_inv[OF m(2)]]] m(3) by (cases "hash_abs (mc_vhash m) (v4_host 167772162)") auto
  then have "w = None"
    using w(2) m(3) by (auto simp: routed_def host_owner_def longest_match_def net_route_def split: if_splits option.splits)
  then show ?thesis using w(1) m(1) by blast
qed

theorem packets_not_spoofed_witness:
  "\<exists>m m'. multi_init_routes 256 7 167772161 DEV_TYPE_TUN 0 True 0 = Some m \<and>
    incoming_link_tun (\<lambda>_. True) m 3 mroute_addr_init mroute_addr_init
      \<lparr>bf_cap = 20, bf_off = 0, bf_len = 20, bf_data = Some (69 # replicate 19 1)\<rparr> =
      Some (drop_packet, m')"
proof -
  let ?b = "\<lparr>bf_cap = 20, bf_off = 0, bf_len = 20, bf_data = Some (69 # replicate 19 1)\<rparr>"
  obtain m where m: "multi_init_routes 256 7 167772161 DEV_TYPE_TUN 0 True 0 = Some m" "serves steady m"
    "helems (mc_vhash m) = []" using start_witness by blast
  have l: "length (ma_raw mroute_addr_init) = 20" by (simp add: mroute_addr_init_def MR_MAX_ADDR_LEN_def)
  have b: "int (length (buf_bytes ?b)) = buf_len ?b"
    by (simp add: buf_bytes_def buf_bptr_def buf_len_def buf_valid_def bf_mem_def mem_get_def)
  from packets_not_spoofed[OF m(2) l l b, of "\<lambda>_. True" 3] obtain v m' src where
    v: "incoming_link_tun (\<lambda>_. True) m 3 mroute_addr_init mroute_addr_init ?b = Some (v, m')"
    "v = drop_packet \<or> routed m src (Some 3)" by blast
  have "hash_abs (mc_vhash m) a = None" for a
    using hash_abs_route(1)[OF route_invD(5)[OF serves_inv[OF m(2)]]] m(3) by (cases "hash_abs (mc_vhash m) a") auto
  then have "\<not> routed m src (Some 3)"
    using m(3) by (simp add: routed_def host_owner_def longest_match_def net_route_def)
  then show ?thesis using v m(1) by blast
qed

theorem routing_never_fails_witness:
  "\<exists>m m' x. multi_init_routes 256 7 167772161 DEV_TYPE_TUN 0 True 0 = Some m \<and>
    route_exec (\<lambda>_. True) m (Create 0 5) = Some m' \<and> mc_inst m' 0 = Some x \<and>
    mi_route_count x = 0 \<and> mi_refcount x = 1"
proof -
  obtain m where m: "multi_init_routes 256 7 167772161 DEV_TYPE_TUN 0 True 0 = Some m" "serves (\<lambda>m op. True) m"
    "helems (mc_vhash m) = []" "mc_inst m = Map.empty" using start_witness by blast
  have p: "route_pre m (Create 0 5)" using m(4) by simp
  from routing_never_fails[OF m(2) p, of "\<lambda>_. True"] obtain m' where
    m': "route_exec (\<lambda>_. True) m (Create 0 5) = Some m'" "\<And>x. mc_inst m' 0 = Some x \<Longrightarrow>
       mi_route_count x = int (length (filter (\<lambda>e. mr_instance (he_value e) = 0) (helems (mc_vhash m')))) \<and>
       mi_refcount x = mi_route_count x + (if mi_halt x then 0 else 1)" by blast
  from m'(1) obtain x where x: "mc_inst m' 0 = Some x" "\<not> mi_halt x" "mc_vhash m' = mc_vhash m"
    by (auto simp: multi_create_instance_def multi_instance_inc_refcount_def upd_inst_def)
  then have "mi_route_count x = 0" "mi_refcount x = 1" using m'(2)[OF x(1)] m(3) by simp_all
  then show ?thesis using m(1) m'(1) x(1) by blast
qed

theorem unmasked_iroute_dead_witness:
  "option_iroute [] 167837953 (Some 4294901760) = [\<lparr>ir_network = 167837953, ir_netbits = 16\<rparr>] \<and>
   (\<forall>m j. \<exists>k. multi_learn_in_addr_t (\<lambda>_. True) m j 167837953 16 False = multi_learn_addr (\<lambda>_. True) m j k 0 \<and>
     (\<forall>a. \<not> covers k a))"
proof -
  have e: "netbits_to_netmask 16 = 4294901760" by (simp add: netbits_to_netmask_def IPV4_NETMASK_HOST_def)
  then have "netmask_to_netbits2 4294901760 = 16"
    using netmask_search_ok[of 0 16] by (simp add: netmask_to_netbits2_def)
  moreover have "enc32 167837953 ! 3 = 1"
    using be_enc.simps(2)[of 3 167837953] by (simp add: enc32_def nth_append)
  then have "addr_bit (enc32 167837953) 31" by (simp add: addr_bit_def)
  ultimately show ?thesis
    using unmasked_iroute_dead[of 4294901760 16 31 167837953 "[]" "\<lambda>_. True"] by simp
qed

end
