(* ===== verification/Pool.thy ===== *)
theory Pool
  imports Otime C_Strings
begin

text \<open>
  The address pool of a server (\<^verbatim>\<open>pool.c\<close>, with \<^verbatim>\<open>add_in6_addr\<close> of \<^verbatim>\<open>socket.c\<close>): how it is set up
  from the configured range, which entry a client gets, the addresses of an entry, returning an
  entry, and loading the saved pool.

  \<^verbatim>\<open>ifconfig_pool\<close> is a record whose array of entries is a list; a handle is an index, \<^verbatim>\<open>-1\<close>
  is \<open>None\<close>. An IPv6 address is its 16 bytes. A call that ends the process is \<open>None\<close>. The current
  time \<^verbatim>\<open>now\<close> and the address parsers of \<^verbatim>\<open>socket.c\<close> are parameters.

  The pool refines a partial function from entries to the addresses they are leased with:
  \<open>pool_refinement\<close> interprets \<open>relational_simulation\<close>.
\<close>

unbundle bit_operations_syntax

section \<open>State\<close>

datatype pool_type = IFCONFIG_POOL_30NET | IFCONFIG_POOL_INDIV

record ifconfig_pool_entry =
  ip_in_use :: bool
  ip_common_name :: "byte list option"
  ip_last_release :: int
  ip_fixed :: bool

record ifconfig_pool =
  duplicate_cn :: bool
  ipv4_enabled :: bool
  ipv4_type :: pool_type
  ipv4_base :: u32
  ipv6_enabled :: bool
  ipv6_base :: "byte list"
  pool_list :: "ifconfig_pool_entry list"

definition IFCONFIG_POOL_MAX :: nat where "IFCONFIG_POOL_MAX = 65536"

text \<open>\<^verbatim>\<open>pool->size\<close> is the length of the array it was allocated with.\<close>

abbreviation pool_size :: "ifconfig_pool \<Rightarrow> nat" where
  "pool_size pool \<equiv> length (pool_list pool)"

section \<open>Entries\<close>

definition ifconfig_pool_entry_free :: "int \<Rightarrow> ifconfig_pool_entry \<Rightarrow> bool \<Rightarrow> ifconfig_pool_entry" where
  "ifconfig_pool_entry_free now ipe hard =
     ipe\<lparr>ip_in_use := False,
         ip_common_name := (if hard then None else ip_common_name ipe),
         ip_last_release := (if hard then 0 else now)\<rparr>"

text \<open>
  The scan of \<^verbatim>\<open>ifconfig_pool_find\<close>: the entries from index \<open>i\<close> on, with the candidates found so
  far. A name found earlier wins over the entry that is free for the longest time.
\<close>

fun pool_scan ::
  "bool \<Rightarrow> byte list option \<Rightarrow> ifconfig_pool_entry list \<Rightarrow> nat \<Rightarrow> int \<Rightarrow> nat option \<Rightarrow> nat option \<Rightarrow> nat option \<times> nat option" where
  "pool_scan dup cn [] i earliest_release new_usage previous_usage = (new_usage, previous_usage)"
| "pool_scan dup cn (ipe # es) i earliest_release new_usage previous_usage =
     (if \<not> ip_in_use ipe
      then if dup then (Some i, previous_usage)
           else let take_it = ((new_usage = None \<or> ip_last_release ipe < earliest_release) \<and> \<not> ip_fixed ipe)
                in pool_scan dup cn es (Suc i)
                     (if take_it then ip_last_release ipe else earliest_release)
                     (if take_it then Some i else new_usage)
                     (if previous_usage = None \<and> cn \<noteq> None \<and> ip_common_name ipe = cn then Some i else previous_usage)
      else pool_scan dup cn es (Suc i) earliest_release new_usage previous_usage)"

definition ifconfig_pool_find :: "ifconfig_pool \<Rightarrow> byte list option \<Rightarrow> nat option" where
  "ifconfig_pool_find pool common_name =
     (case pool_scan (duplicate_cn pool) common_name (pool_list pool) 0 0 None None of
        (new_usage, Some i) \<Rightarrow> Some i
      | (new_usage, None) \<Rightarrow> new_usage)"

section \<open>Addresses\<close>

definition ifconfig_pool_verify_range :: "u32 \<Rightarrow> u32 \<Rightarrow> bool" where
  "ifconfig_pool_verify_range start end' \<longleftrightarrow> \<not> start > end' \<and> \<not> end' - start \<ge> of_nat IFCONFIG_POOL_MAX"

text \<open>\<^verbatim>\<open>add_in6_addr\<close>: byte \<open>i\<close> and those in front of it, last byte first.\<close>

fun add_bytes :: "byte list \<Rightarrow> u32 \<Rightarrow> byte list" where
  "add_bytes [] add = []"
| "add_bytes (b # bs) add =
     (if add > 0
      then let h = ucast b :: u32; carry = drop_bit 8 ((h AND 0xff) + (add AND 0xff))
           in ucast ((h + add) AND 0xff) # add_bytes bs (drop_bit 8 add + carry)
      else b # bs)"

definition add_in6_addr :: "byte list \<Rightarrow> u32 \<Rightarrow> byte list" where
  "add_in6_addr base add = rev (add_bytes (rev base) add)"

definition pool_ipv4_range :: "pool_type \<Rightarrow> u32 \<Rightarrow> u32 \<Rightarrow> u32 \<times> int" where
  "pool_ipv4_range t start end' =
     (case t of
        IFCONFIG_POOL_30NET \<Rightarrow>
          (let base = start AND NOT 3 in (base, sint (drop_bit 2 (((end' OR 3) + 1) - base))))
      | IFCONFIG_POOL_INDIV \<Rightarrow> (start, sint (end' - start + 1)))"

definition pool_ipv6_range :: "byte list \<Rightarrow> int \<Rightarrow> byte list \<times> int" where
  "pool_ipv6_range ipv6_base0 netbits =
     (let base0 = dec32 (drop 12 ipv6_base0);
          base = (if 128 - netbits < 32 then base0 AND (push_bit (nat (128 - netbits)) 1 - 1) else base0);
          (base1, addr) = (if base = 0 then (1, ipv6_base0[15 := ipv6_base0 ! 15 + 1]) else (base, ipv6_base0))
      in (addr, if netbits \<ge> 112 then sint (push_bit (nat (128 - netbits)) 1 - base1) else int IFCONFIG_POOL_MAX))"

definition free_entry :: ifconfig_pool_entry where
  "free_entry = \<lparr>ip_in_use = False, ip_common_name = None, ip_last_release = 0, ip_fixed = False\<rparr>"

text \<open>A failed \<^verbatim>\<open>ASSERT\<close> and an \<^verbatim>\<open>M_FATAL\<close> message end the process: \<open>None\<close>.\<close>

definition ifconfig_pool_init ::
  "bool \<Rightarrow> pool_type \<Rightarrow> u32 \<Rightarrow> u32 \<Rightarrow> bool \<Rightarrow> bool \<Rightarrow> byte list \<Rightarrow> int \<Rightarrow> ifconfig_pool option" where
  "ifconfig_pool_init ipv4_pool t start end' dup ipv6_pool v6_base v6_netbits =
     (if \<not> (start \<le> end' \<and> end' - start < of_nat IFCONFIG_POOL_MAX) then None
      else
        let (base4, size4) = (if ipv4_pool then pool_ipv4_range t start end' else (0, - 1));
            (base6, size6) = (if ipv6_pool then pool_ipv6_range v6_base v6_netbits else (replicate 16 0, - 1))
        in if ipv4_pool \<and> size4 < 2 then None
           else if ipv6_pool \<and> size6 < 2 then None
           else
             let size0 = (if ipv4_pool then size4 else 0);
                 size = (if ipv6_pool \<and> (size0 \<le> 0 \<or> size6 < size0) then size6 else size0)
             in if \<not> size > 0 then None
                else Some \<lparr>duplicate_cn = dup, ipv4_enabled = ipv4_pool,
                           ipv4_type = (if ipv4_pool then t else IFCONFIG_POOL_30NET), ipv4_base = base4,
                           ipv6_enabled = ipv6_pool, ipv6_base = base6,
                           pool_list = replicate (nat size) free_entry\<rparr>)"

section \<open>Leases\<close>

text \<open>The addresses handed out: \<^verbatim>\<open>local\<close> and \<^verbatim>\<open>remote\<close> when asked for, and \<^verbatim>\<open>remote_ipv6\<close>.\<close>

type_synonym lease = "(u32 \<times> u32) option \<times> byte list option"

definition pool_lease :: "ifconfig_pool \<Rightarrow> nat \<Rightarrow> lease" where
  "pool_lease pool i =
     (if ipv4_enabled pool
      then Some (case ipv4_type pool of
                   IFCONFIG_POOL_30NET \<Rightarrow>
                     (let b = ipv4_base pool + push_bit 2 (of_nat i) in (b + 1, b + 2))
                 | IFCONFIG_POOL_INDIV \<Rightarrow> (0, ipv4_base pool + of_nat i))
      else None,
      if ipv6_enabled pool then Some (add_in6_addr (ipv6_base pool) (of_nat i)) else None)"

definition ifconfig_pool_acquire ::
  "int \<Rightarrow> ifconfig_pool \<Rightarrow> byte list option \<Rightarrow> (((nat \<times> lease) option) \<times> ifconfig_pool) option" where
  "ifconfig_pool_acquire now pool common_name =
     (case ifconfig_pool_find pool common_name of
        None \<Rightarrow> Some (None, pool)
      | Some i \<Rightarrow>
          let ipe = pool_list pool ! i in
          if ip_in_use ipe then None
          else let ipe1 = (ifconfig_pool_entry_free now ipe True)\<lparr>ip_in_use := True\<rparr>;
                   ipe2 = (if common_name \<noteq> None then ipe1\<lparr>ip_common_name := common_name\<rparr> else ipe1);
                   pool1 = pool\<lparr>pool_list := (pool_list pool)[i := ipe2]\<rparr>
               in Some (Some (i, pool_lease pool1 i), pool1))"

definition ifconfig_pool_release :: "int \<Rightarrow> ifconfig_pool \<Rightarrow> int \<Rightarrow> bool \<Rightarrow> bool \<times> ifconfig_pool" where
  "ifconfig_pool_release now pool hand hard =
     (if hand \<ge> 0 \<and> hand < int (pool_size pool)
      then (True, pool\<lparr>pool_list := (pool_list pool)[nat hand := ifconfig_pool_entry_free now (pool_list pool ! nat hand) hard]\<rparr>)
      else (False, pool))"

section \<open>The saved pool\<close>

definition ifconfig_pool_ip_base_to_handle :: "ifconfig_pool \<Rightarrow> u32 \<Rightarrow> int" where
  "ifconfig_pool_ip_base_to_handle pool addr =
     (let ret = (case ipv4_type pool of
                   IFCONFIG_POOL_30NET \<Rightarrow> sint (drop_bit 2 (addr - ipv4_base pool))
                 | IFCONFIG_POOL_INDIV \<Rightarrow> sint (addr - ipv4_base pool))
      in if ret < 0 \<or> ret \<ge> int (pool_size pool) then - 1 else ret)"

definition ifconfig_pool_ipv6_base_to_handle :: "ifconfig_pool \<Rightarrow> byte list \<Rightarrow> int" where
  "ifconfig_pool_ipv6_base_to_handle pool addr =
     (if take 12 (ipv6_base pool) \<noteq> take 12 addr then - 1
      else let ret = sint (dec32 (drop 12 addr) - dec32 (drop 12 (ipv6_base pool)))
           in if ret < 0 \<or> ret \<ge> int (pool_size pool) then - 1 else ret)"

definition ifconfig_pool_handle_to_ip_base :: "ifconfig_pool \<Rightarrow> int \<Rightarrow> u32" where
  "ifconfig_pool_handle_to_ip_base pool hand =
     (if ipv4_enabled pool \<and> hand \<ge> 0 \<and> hand < int (pool_size pool)
      then (case ipv4_type pool of
              IFCONFIG_POOL_30NET \<Rightarrow> ipv4_base pool + push_bit 2 (of_int hand)
            | IFCONFIG_POOL_INDIV \<Rightarrow> ipv4_base pool + of_int hand)
      else 0)"

definition ifconfig_pool_handle_to_ipv6_base :: "ifconfig_pool \<Rightarrow> int \<Rightarrow> byte list" where
  "ifconfig_pool_handle_to_ipv6_base pool hand =
     (if ipv6_enabled pool \<and> hand \<ge> 0 \<and> hand < int (pool_size pool)
      then add_in6_addr (ipv6_base pool) (of_int hand) else replicate 16 0)"

definition ifconfig_pool_set :: "int \<Rightarrow> ifconfig_pool \<Rightarrow> byte list \<Rightarrow> nat \<Rightarrow> bool \<Rightarrow> ifconfig_pool" where
  "ifconfig_pool_set now pool cn h fixed =
     (let e = ifconfig_pool_entry_free now (pool_list pool ! h) True
      in pool\<lparr>pool_list := (pool_list pool)[h := e\<lparr>ip_in_use := False, ip_common_name := Some cn,
                 ip_last_release := now, ip_fixed := fixed\<rparr>]\<rparr>)"

text \<open>The lines \<^verbatim>\<open>ifconfig_pool_list\<close> prints: name, IPv4 and IPv6 address.\<close>

definition ifconfig_pool_list :: "ifconfig_pool \<Rightarrow> (byte list \<times> u32 option \<times> byte list option) list" where
  "ifconfig_pool_list pool =
     List.map_filter (\<lambda>i. case ip_common_name (pool_list pool ! i) of
         None \<Rightarrow> None
       | Some cn \<Rightarrow> Some (cn,
           if ipv4_enabled pool then Some (ifconfig_pool_handle_to_ip_base pool (int i)) else None,
           if ipv6_enabled pool then Some (ifconfig_pool_handle_to_ipv6_base pool (int i)) else None))
       [0 ..< pool_size pool]"

text \<open>
  One line of the file, in the buffer as \<^verbatim>\<open>status_read\<close> leaves it. \<open>getaddr\<close> and
  \<open>get_ipv6_addr\<close> are the address parsers of \<^verbatim>\<open>socket.c\<close>, which call the resolver of the
  system.
\<close>

definition c_text :: "byte list \<Rightarrow> byte list" where
  "c_text s = take (c_strlen s) s"

definition pool_read_line ::
  "(byte list \<Rightarrow> u32 option) \<Rightarrow> (byte list \<Rightarrow> byte list option) \<Rightarrow> int \<Rightarrow> bool \<Rightarrow> ifconfig_pool \<Rightarrow> buffer \<Rightarrow> ifconfig_pool option" where
  "pool_read_line getaddr get_ipv6_addr now fixed pool inb =
     (if buf_len inb = 0 then Some pool
      else if buf_bytes inb ! 0 = 35 \<or> buf_bytes inb ! 0 = 59 then Some pool
      else
        case buf_parse inb 44 (replicate 128 0) 128 of None \<Rightarrow> None
        | Some ((ok1, cn_buf), in1) \<Rightarrow>
          if \<not> ok1 then Some pool
          else
            case buf_parse in1 44 (replicate 128 0) 128 of None \<Rightarrow> None
            | Some ((ok2, ip_buf), in2) \<Rightarrow>
              if \<not> ok2 then Some pool
              else
                let h = (if c_strlen ip_buf > 0
                         then case getaddr (c_text ip_buf) of None \<Rightarrow> - 1
                              | Some addr \<Rightarrow> ifconfig_pool_ip_base_to_handle pool addr
                         else - 1)
                in case buf_parse in2 44 (replicate 128 0) 128 of None \<Rightarrow> None
                   | Some ((ok3, ip6_buf), in3) \<Rightarrow>
                     let h1 = (if ok3 \<and> c_strlen ip6_buf > 0
                               then case get_ipv6_addr (c_text ip6_buf) of None \<Rightarrow> h
                                    | Some addr6 \<Rightarrow>
                                        if h < 0 then ifconfig_pool_ipv6_base_to_handle pool addr6 else h
                               else h)
                     in if h1 \<ge> 0 then Some (ifconfig_pool_set now pool (c_text cn_buf) (nat h1) fixed)
                        else Some pool)"

fun ifconfig_pool_read ::
  "(byte list \<Rightarrow> u32 option) \<Rightarrow> (byte list \<Rightarrow> byte list option) \<Rightarrow> int \<Rightarrow> bool \<Rightarrow> ifconfig_pool \<Rightarrow> buffer list \<Rightarrow> ifconfig_pool option" where
  "ifconfig_pool_read getaddr get_ipv6_addr now fixed pool [] = Some pool"
| "ifconfig_pool_read getaddr get_ipv6_addr now fixed pool (l # ls) =
     (case pool_read_line getaddr get_ipv6_addr now fixed pool l of
        None \<Rightarrow> None
      | Some pool' \<Rightarrow> ifconfig_pool_read getaddr get_ipv6_addr now fixed pool' ls)"

section \<open>Which entry is chosen\<close>

abbreviation entry_free :: "ifconfig_pool_entry list \<Rightarrow> nat \<Rightarrow> bool" where
  "entry_free L j \<equiv> j < length L \<and> \<not> ip_in_use (L ! j)"

text \<open>
  The first of the free entries that may be given to anyone and were released earliest, and the
  first free one with the name.
\<close>

definition oldest_in :: "ifconfig_pool_entry list \<Rightarrow> nat option \<Rightarrow> bool" where
  "oldest_in L r \<longleftrightarrow>
     (case r of None \<Rightarrow> \<forall>j. entry_free L j \<longrightarrow> ip_fixed (L ! j)
      | Some k \<Rightarrow> entry_free L k \<and> \<not> ip_fixed (L ! k) \<and>
          (\<forall>j. entry_free L j \<and> \<not> ip_fixed (L ! j) \<longrightarrow> ip_last_release (L ! k) \<le> ip_last_release (L ! j)) \<and>
          (\<forall>j < k. \<not> ip_in_use (L ! j) \<and> \<not> ip_fixed (L ! j) \<longrightarrow> ip_last_release (L ! k) < ip_last_release (L ! j)))"

definition named_in :: "byte list option \<Rightarrow> ifconfig_pool_entry list \<Rightarrow> nat option \<Rightarrow> bool" where
  "named_in cn L r \<longleftrightarrow>
     (case r of None \<Rightarrow> cn = None \<or> (\<forall>j. entry_free L j \<longrightarrow> ip_common_name (L ! j) \<noteq> cn)
      | Some k \<Rightarrow> cn \<noteq> None \<and> entry_free L k \<and> ip_common_name (L ! k) = cn
          \<and> (\<forall>j < k. \<not> ip_in_use (L ! j) \<longrightarrow> ip_common_name (L ! j) \<noteq> cn))"

lemma free_snoc: "entry_free (L @ [e]) j \<longleftrightarrow> entry_free L j \<or> (j = length L \<and> \<not> ip_in_use e)"
  by (auto simp: nth_append less_Suc_eq)

lemma oldest_snoc:
  fixes L :: "ifconfig_pool_entry list" and new :: "nat option" and er :: int and e :: ifconfig_pool_entry
  assumes "oldest_in L new" "new \<noteq> None \<longrightarrow> er = ip_last_release (L ! the new)"
  defines "hit \<equiv> \<not> ip_in_use e \<and> (new = None \<or> ip_last_release e < er) \<and> \<not> ip_fixed e"
  shows "oldest_in (L @ [e]) (if hit then Some (length L) else new)"
proof (cases new)
  case None
  then show ?thesis using assms(1) by (auto simp: oldest_in_def hit_def nth_append less_Suc_eq)
next
  case (Some k)
  have k: "entry_free L k" "\<not> ip_fixed (L ! k)" "er = ip_last_release (L ! k)"
    and mn: "\<And>j. entry_free L j \<Longrightarrow> \<not> ip_fixed (L ! j) \<Longrightarrow> ip_last_release (L ! k) \<le> ip_last_release (L ! j)"
    and lt: "\<And>j. j < k \<Longrightarrow> \<not> ip_in_use (L ! j) \<Longrightarrow> \<not> ip_fixed (L ! j) \<Longrightarrow> ip_last_release (L ! k) < ip_last_release (L ! j)"
    using assms(1,2) Some by (auto simp: oldest_in_def)
  show ?thesis
  proof (cases hit)
    case True
    have "ip_last_release e \<le> ip_last_release ((L @ [e]) ! j)"
      if j: "entry_free (L @ [e]) j" "\<not> ip_fixed ((L @ [e]) ! j)" for j
      using j mn[of j] True k(3) Some by (cases "j < length L") (auto simp: hit_def nth_append less_Suc_eq)
    moreover have "ip_last_release e < ip_last_release (L ! j)" if "j < length L" "\<not> ip_in_use (L ! j)" "\<not> ip_fixed (L ! j)" for j
      using mn[of j] that True k(3) Some by (auto simp: hit_def)
    ultimately show ?thesis using True by (auto simp: oldest_in_def hit_def nth_append)
  next
    case False
    have "ip_last_release (L ! k) \<le> ip_last_release ((L @ [e]) ! j)"
      if j: "entry_free (L @ [e]) j" "\<not> ip_fixed ((L @ [e]) ! j)" for j
      using j mn[of j] False k(3) Some by (cases "j < length L") (auto simp: hit_def nth_append less_Suc_eq)
    then show ?thesis using False Some k lt by (auto simp: oldest_in_def nth_append)
  qed
qed

lemma named_snoc:
  assumes "named_in cn L prev"
  shows "named_in cn (L @ [e]) (if \<not> ip_in_use e \<and> prev = None \<and> cn \<noteq> None \<and> ip_common_name e = cn then Some (length L) else prev)"
  using assms by (cases prev) (auto simp: named_in_def nth_append less_Suc_eq)

lemma pool_scan_finds:
  assumes "oldest_in L new" "new \<noteq> None \<longrightarrow> er = ip_last_release (L ! the new)" "named_in cn L prev" "i = length L"
    "pool_scan False cn es i er new prev = (new', prev')"
  shows "oldest_in (L @ es) new' \<and> named_in cn (L @ es) prev'"
  using assms
proof (induction es arbitrary: L er new prev i)
  case (Cons e es)
  define hit where "hit \<longleftrightarrow> \<not> ip_in_use e \<and> (new = None \<or> ip_last_release e < er) \<and> \<not> ip_fixed e"
  define nm where "nm \<longleftrightarrow> \<not> ip_in_use e \<and> prev = None \<and> cn \<noteq> None \<and> ip_common_name e = cn"
  have s: "pool_scan False cn (e # es) i er new prev =
    pool_scan False cn es (Suc i) (if hit then ip_last_release e else er) (if hit then Some i else new) (if nm then Some i else prev)"
    by (auto simp: hit_def nm_def Let_def)
  have o: "oldest_in (L @ [e]) (if hit then Some i else new)"
    using oldest_snoc[OF Cons.prems(1,2), of e] unfolding hit_def Cons.prems(4) .
  have r: "(if hit then Some i else new) \<noteq> None \<longrightarrow>
    (if hit then ip_last_release e else er) = ip_last_release ((L @ [e]) ! the (if hit then Some i else new))"
  proof (cases hit)
    case False
    then show ?thesis using Cons.prems(1,2) by (cases new) (auto simp: oldest_in_def nth_append)
  qed (use Cons.prems(4) in simp)
  have n: "named_in cn (L @ [e]) (if nm then Some i else prev)"
    using named_snoc[OF Cons.prems(3), of e] unfolding nm_def Cons.prems(4) .
  show ?case using Cons.IH[OF o r n _ Cons.prems(5)[unfolded s]] Cons.prems(4) by simp
qed simp

lemma pool_scan_dup:
  "pool_scan True cn es i er new None = (new', prev') \<Longrightarrow>
    prev' = None \<and> (if \<exists>j. entry_free es j then \<exists>j. new' = Some (i + j) \<and> entry_free es j \<and> (\<forall>k < j. \<not> entry_free es k) else new' = new)"
proof (induction es arbitrary: i)
  case (Cons e es)
  show ?case
  proof (cases "ip_in_use e")
    case False
    then show ?thesis using Cons.prems by (auto intro!: exI[of _ 0])
  next
    case True
    have ih: "prev' = None \<and> (if \<exists>j. entry_free es j then \<exists>j. new' = Some (Suc i + j) \<and> entry_free es j \<and> (\<forall>k < j. \<not> entry_free es k) else new' = new)"
      by (rule Cons.IH) (use Cons.prems True in simp)
    have sh: "entry_free (e # es) j \<longleftrightarrow> (\<exists>k. j = Suc k \<and> entry_free es k)" for j
      using True by (cases j) auto
    show ?thesis
    proof (cases "\<exists>j. entry_free es j")
      case ex: True
      then obtain j where j: "new' = Some (Suc i + j)" "entry_free es j" "\<forall>k < j. \<not> entry_free es k" using ih by auto
      have "\<exists>j. entry_free (e # es) j" using j(2) sh by blast
      moreover have "entry_free (e # es) (Suc j)" using j(2) by simp
      moreover have "\<not> entry_free (e # es) k" if "k < Suc j" for k
        using that j(3) True by (cases k) auto
      ultimately have "\<exists>j. new' = Some (i + j) \<and> entry_free (e # es) j \<and> (\<forall>k < j. \<not> entry_free (e # es) k)"
        using j(1) by (intro exI[of _ "Suc j"]) simp
      then show ?thesis using ih \<open>\<exists>j. entry_free (e # es) j\<close> by presburger
    next
      case no: False
      then have "\<not> (\<exists>j. entry_free (e # es) j)" using sh by blast
      then have "\<nexists>j. entry_free (e # es) j" .
      then show ?thesis using ih no by (simp only: if_False simp_thms)
    qed
  qed
qed simp

lemma pool_find_choice:
  assumes "\<not> duplicate_cn pool"
  shows "case ifconfig_pool_find pool cn of
      None \<Rightarrow> \<forall>j. entry_free (pool_list pool) j \<longrightarrow> ip_fixed (pool_list pool ! j) \<and> (cn = None \<or> ip_common_name (pool_list pool ! j) \<noteq> cn)
    | Some i \<Rightarrow> entry_free (pool_list pool) i \<and>
        (if cn \<noteq> None \<and> (\<exists>j. entry_free (pool_list pool) j \<and> ip_common_name (pool_list pool ! j) = cn)
         then ip_common_name (pool_list pool ! i) = cn
         else \<not> ip_fixed (pool_list pool ! i) \<and>
           (\<forall>j. entry_free (pool_list pool) j \<and> \<not> ip_fixed (pool_list pool ! j) \<longrightarrow>
              ip_last_release (pool_list pool ! i) \<le> ip_last_release (pool_list pool ! j)))"
proof -
  obtain new prev where s: "pool_scan False cn (pool_list pool) 0 0 None None = (new, prev)" by (metis surj_pair)
  have "oldest_in [] None" "named_in cn [] None" by (simp_all add: oldest_in_def named_in_def)
  from pool_scan_finds[OF this(1) _ this(2) _ s] have o: "oldest_in (pool_list pool) new" "named_in cn (pool_list pool) prev" by auto
  have f: "ifconfig_pool_find pool cn = (case prev of Some i \<Rightarrow> Some i | None \<Rightarrow> new)"
    using assms s by (simp add: ifconfig_pool_find_def split: option.split)
  show ?thesis
  proof (cases prev)
    case (Some i)
    then show ?thesis using o(2) f by (auto simp: named_in_def)
  next
    case None
    then show ?thesis using o f by (cases new) (auto simp: oldest_in_def named_in_def)
  qed
qed

lemma pool_find_free:
  assumes "ifconfig_pool_find pool cn = Some i"
  shows "entry_free (pool_list pool) i"
proof (cases "duplicate_cn pool")
  case False
  then show ?thesis using pool_find_choice[OF False, of cn] assms by simp
next
  case True
  obtain new prev where s: "pool_scan True cn (pool_list pool) 0 0 None None = (new, prev)" by (metis surj_pair)
  then show ?thesis using pool_scan_dup[OF s] assms True
    by (auto simp: ifconfig_pool_find_def split: if_splits option.splits)
qed

section \<open>Different handles, different addresses\<close>

definition le_dec :: "byte list \<Rightarrow> nat" where
  "le_dec bs = be_dec (rev bs)"

lemma le_dec_simps [simp]: "le_dec [] = 0" "le_dec (b # bs) = unat b + 256 * le_dec bs"
  by (simp_all add: le_dec_def)

lemma length_add_bytes [simp]: "length (add_bytes bs a) = length bs"
  by (induction bs arbitrary: a) (simp_all add: Let_def)

lemma uint_drop8: "uint (drop_bit 8 w) = uint w div 2 ^ 8" for w :: u32
proof -
  have "take_bit LENGTH(32) (uint w) = uint w" by (simp only: take_bit_int_eq_self_iff) (use uint_lt2p[of w] in simp)
  then show ?thesis unfolding unsigned_drop_bit_eq by (simp only: drop_bit_eq_div)
qed

lemma add_byte_step:
  fixes b :: byte and a :: u32
  defines "h \<equiv> ucast b :: u32"
  shows "unat (ucast ((h + a) AND 0xff) :: byte) = (unat b + unat a) mod 256"
    "unat (drop_bit 8 a + drop_bit 8 ((h AND 0xff) + (a AND 0xff))) = (unat b + unat a) div 256"
proof -
  have lo: "w AND 0xff = take_bit 8 w" for w :: u32 by (simp add: take_bit_eq_mask mask_eq_exp_minus_1)
  have ul: "unat (w AND 0xff) = unat w mod 256" for w :: u32
  proof -
    have "unat (take_bit 8 w) = take_bit 8 (unat w)" by (rule unsigned_take_bit_eq)
    then show ?thesis unfolding lo by (simp only: take_bit_eq_mod) simp
  qed
  have ud: "unat (drop_bit 8 w) = unat w div 256" for w :: u32
  proof -
    have "int (unat (drop_bit 8 w)) = int (unat w div 256)"
      unfolding zdiv_int uint_nat[symmetric] uint_drop8 by simp
    then show ?thesis by (simp only: of_nat_eq_iff)
  qed
  have plus: "unat (v + w) = (unat v + unat w) mod 4294967296" for v w :: u32 by (simp add: unat_word_ariths)
  have b: "unat b < 256" "unat a < 4294967296" using unat_bound[of b] unat_bound[of a] by simp_all
  have h: "unat h = unat b" using b(1) unfolding h_def unsigned_ucast_eq by (simp add: take_bit_eq_mod)
  have "unat (ucast ((h + a) AND 0xff) :: byte) = unat ((h + a) AND 0xff) mod 256"
    unfolding unsigned_ucast_eq by (simp only: take_bit_eq_mod) simp
  also have "\<dots> = (unat b + unat a) mod 4294967296 mod 256"
    unfolding ul by (simp add: unat_word_ariths h)
  also have "\<dots> = (unat b + unat a) mod 256" by (rule mod_mod_cancel) simp
  finally show "unat (ucast ((h + a) AND 0xff) :: byte) = (unat b + unat a) mod 256" .
  have "unat ((h AND 0xff) + (a AND 0xff)) = (unat b + unat a mod 256) mod 4294967296"
    using b(1) by (simp add: unat_word_ariths ul h)
  also have "\<dots> = unat b + unat a mod 256" using b(1) by (intro mod_less) simp
  finally have s: "unat (drop_bit 8 ((h AND 0xff) + (a AND 0xff))) = (unat b + unat a mod 256) div 256" by (simp only: ud)
  have "unat (drop_bit 8 a + drop_bit 8 ((h AND 0xff) + (a AND 0xff))) = (unat a div 256 + (unat b + unat a mod 256) div 256) mod 4294967296"
    by (subst plus) (simp only: ud[of a] s)
  also have "\<dots> = unat a div 256 + (unat b + unat a mod 256) div 256" using b by (intro mod_less) simp
  also have "\<dots> = (unat b + unat a) div 256"
  proof -
    have "unat b + unat a = (unat b + unat a mod 256) + 256 * (unat a div 256)" by simp
    also have "\<dots> div 256 = unat a div 256 + (unat b + unat a mod 256) div 256" by (rule div_mult_self2) simp
    finally show ?thesis by (rule sym)
  qed
  finally show "unat (drop_bit 8 a + drop_bit 8 ((h AND 0xff) + (a AND 0xff))) = (unat b + unat a) div 256" .
qed

lemma le_dec_add: "le_dec (add_bytes bs a) = (le_dec bs + unat a) mod 256 ^ length bs"
proof (induction bs arbitrary: a)
  case (Cons b bs)
  let ?h = "ucast b :: u32"
  let ?a' = "drop_bit 8 a + drop_bit 8 ((?h AND 0xff) + (a AND 0xff))"
  have n: "le_dec (b # bs) + unat a = (unat b + unat a) mod 256 + 256 * (le_dec bs + (unat b + unat a) div 256)"
    using mult_div_mod_eq[of 256 "unat b + unat a"] by simp
  show ?case
  proof (cases "a > 0")
    case True
    have "le_dec (add_bytes (b # bs) a) = (unat b + unat a) mod 256 + 256 * ((le_dec bs + (unat b + unat a) div 256) mod 256 ^ length bs)"
      using True Cons.IH[of ?a'] by (simp only: add_bytes.simps if_True Let_def le_dec_simps add_byte_step)
    also have "\<dots> = ((unat b + unat a) mod 256 + 256 * (le_dec bs + (unat b + unat a) div 256)) mod (256 * 256 ^ length bs)"
      by (simp add: mod_mult2_eq)
    finally show ?thesis unfolding n by simp
  next
    case False
    then have "a = 0" by (simp add: word_gt_0)
    moreover have "le_dec (b # bs) < 256 ^ length (b # bs)"
      unfolding le_dec_def using be_dec_bound[of "rev (b # bs)"] by simp
    ultimately show ?thesis by (simp del: le_dec_simps)
  qed
qed simp


lemma add_in6_addr_inj:
  assumes "length base = 16" "add_in6_addr base a = add_in6_addr base b"
  shows "a = b"
proof -
  have "add_bytes (rev base) a = add_bytes (rev base) b" using assms(2) by (simp add: add_in6_addr_def)
  then have "(le_dec (rev base) + unat a) mod 256 ^ 16 = (le_dec (rev base) + unat b) mod 256 ^ 16"
    using le_dec_add[of "rev base" a] le_dec_add[of "rev base" b] assms(1) by simp
  then have "int ((le_dec (rev base) + unat a) mod 256 ^ 16) = int ((le_dec (rev base) + unat b) mod 256 ^ 16)" by simp
  then have "(int (le_dec (rev base)) + int (unat a)) mod 256 ^ 16 = (int (le_dec (rev base)) + int (unat b)) mod 256 ^ 16"
    by (simp only: zmod_int of_nat_add of_nat_power of_nat_numeral)
  then have d: "256 ^ 16 dvd (int (unat a) - int (unat b))" by (simp only: mod_eq_dvd_iff add_diff_cancel_left)
  have "int (unat a) < 4294967296" "int (unat b) < 4294967296"
    using uint_lt2p[of a] uint_lt2p[of b] by simp_all
  then have "\<bar>int (unat a) - int (unat b)\<bar> < 4294967296" by linarith
  then have "int (unat a) - int (unat b) = 0" using dvd_imp_le_int[OF _ d] by fastforce
  then have "uint a = uint b" by simp
  then show ?thesis by (rule word_uint_eqI)
qed

section \<open>The pool as a client sees it\<close>

definition pool_ok :: "ifconfig_pool \<Rightarrow> bool" where
  "pool_ok pool \<longleftrightarrow> pool_size pool \<le> IFCONFIG_POOL_MAX \<and> length (ipv6_base pool) = 16 \<and>
     (ipv4_enabled pool \<and> ipv4_type pool = IFCONFIG_POOL_30NET \<longrightarrow> ipv4_base pool AND 3 = 0)"

text \<open>The leases that are out.\<close>

definition pool_leases :: "ifconfig_pool \<Rightarrow> nat \<Rightarrow> lease option" where
  "pool_leases pool i =
     (if i < pool_size pool \<and> ip_in_use (pool_list pool ! i) then Some (pool_lease pool i) else None)"

text \<open>The addresses of a lease; a \<^verbatim>\<open>local\<close> of zero is no address.\<close>

definition v4_addrs :: "lease \<Rightarrow> u32 set" where
  "v4_addrs l = (case fst l of None \<Rightarrow> {} | Some (loc, rem) \<Rightarrow> (if loc = 0 then {} else {loc}) \<union> {rem})"

definition lease_disjoint :: "lease \<Rightarrow> lease \<Rightarrow> bool" where
  "lease_disjoint a b \<longleftrightarrow> v4_addrs a \<inter> v4_addrs b = {} \<and> (snd a = None \<or> snd a \<noteq> snd b)"

lemma of_nat_small: "i < 65536 \<Longrightarrow> j < 65536 \<Longrightarrow> (of_nat i :: u32) = of_nat j \<Longrightarrow> i = j"
proof -
  assume a: "i < 65536" "j < 65536" "(of_nat i :: u32) = of_nat j"
  have "unat (of_nat i :: u32) = i" "unat (of_nat j :: u32) = j"
    unfolding unat_of_nat using a(1,2) by simp_all
  then show "i = j" using arg_cong[OF a(3), of unat] by metis
qed

lemma quad_addr:
  fixes base :: u32
  assumes "i < 65536" "j < 65536" "i \<noteq> j" "x < 4" "y < 4"
  shows "base + push_bit 2 (of_nat i) + of_nat x \<noteq> base + push_bit 2 (of_nat j) + of_nat y"
proof
  assume e: "base + push_bit 2 (of_nat i) + of_nat x = base + push_bit 2 (of_nat j) + of_nat y"
  have p: "push_bit 2 (of_nat k) + of_nat z = (of_nat (4 * k + z) :: u32)" for k z
    by (simp add: push_bit_eq_mult)
  have "base + of_nat (4 * i + x) = base + of_nat (4 * j + y)" using e unfolding add.assoc p .
  then have "(of_nat (4 * i + x) :: u32) = of_nat (4 * j + y)" by (simp only: add_left_cancel)
  then have u: "unat (of_nat (4 * i + x) :: u32) = unat (of_nat (4 * j + y) :: u32)" by (rule arg_cong)
  have m: "unat (of_nat k :: u32) = k" if "k < 4294967296" for k using that unfolding unat_of_nat by simp
  have "4 * i + x < 4294967296" "4 * j + y < 4294967296" using assms by simp_all
  then have "4 * i + x = 4 * j + y" using u unfolding m[OF \<open>4 * i + x < _\<close>] m[OF \<open>4 * j + y < _\<close>] by simp
  then have "i = j" using assms(4,5) by presburger
  then show False using assms(3) by simp
qed

lemma leases_disjoint:
  assumes p: "pool_ok pool" and i: "i < pool_size pool" "j < pool_size pool" "i \<noteq> j"
  shows "lease_disjoint (pool_lease pool i) (pool_lease pool j)"
proof -
  have s: "i < 65536" "j < 65536" using p i by (auto simp: pool_ok_def IFCONFIG_POOL_MAX_def)
  have "snd (pool_lease pool i) = None \<or> snd (pool_lease pool i) \<noteq> snd (pool_lease pool j)"
    using add_in6_addr_inj[of "ipv6_base pool" "of_nat i" "of_nat j"] of_nat_small[OF s] i(3) p
    by (auto simp: pool_lease_def pool_ok_def)
  moreover have "v4_addrs (pool_lease pool i) \<inter> v4_addrs (pool_lease pool j) = {}"
  proof (cases "ipv4_enabled pool")
    case True
    show ?thesis
    proof (cases "ipv4_type pool")
      case IFCONFIG_POOL_30NET
      have q: "ipv4_base pool + push_bit 2 (of_nat i) + of_nat x \<noteq> ipv4_base pool + push_bit 2 (of_nat j) + of_nat y"
        if "x < 4" "y < 4" for x y by (rule quad_addr[OF s i(3) that])
      show ?thesis using q[of 1 1] q[of 1 2] q[of 2 1] q[of 2 2] True IFCONFIG_POOL_30NET
        by (auto simp: v4_addrs_def pool_lease_def Let_def)
    next
      case IFCONFIG_POOL_INDIV
      then show ?thesis using of_nat_small[OF s] i(3) True by (auto simp: v4_addrs_def pool_lease_def)
    qed
  qed (simp add: v4_addrs_def pool_lease_def)
  ultimately show ?thesis by (simp add: lease_disjoint_def)
qed

datatype pool_op =
    Pool_Acquire int "byte list option"
  | Pool_Release int int bool
  | Pool_Set int "byte list" nat bool

fun pool_step :: "ifconfig_pool \<Rightarrow> pool_op \<Rightarrow> ((nat \<times> lease) option \<times> ifconfig_pool) option" where
  "pool_step pool (Pool_Acquire now cn) = ifconfig_pool_acquire now pool cn"
| "pool_step pool (Pool_Release now hand hard) = Some (None, snd (ifconfig_pool_release now pool hand hard))"
| "pool_step pool (Pool_Set now cn h fixed) =
     (if h < pool_size pool then Some (None, ifconfig_pool_set now pool cn h fixed) else None)"

fun pool_spec :: "nat \<Rightarrow> (nat \<Rightarrow> lease option) \<Rightarrow> pool_op \<Rightarrow> (nat \<times> lease) option \<Rightarrow> (nat \<Rightarrow> lease option) \<Rightarrow> bool" where
  "pool_spec n m (Pool_Acquire now cn) r m' \<longleftrightarrow>
     (case r of None \<Rightarrow> m' = m
      | Some (h, a) \<Rightarrow> h < n \<and> m h = None \<and> m' = m(h \<mapsto> a) \<and> (\<forall>k b. m k = Some b \<longrightarrow> lease_disjoint a b))"
| "pool_spec n m (Pool_Release now hand hard) r m' \<longleftrightarrow> r = None \<and> m' = (if hand \<ge> 0 then m(nat hand := None) else m)"
| "pool_spec n m (Pool_Set now cn h fixed) r m' \<longleftrightarrow> r = None \<and> m' = m(h := None)"

fun pool_legal :: "nat \<Rightarrow> pool_op \<Rightarrow> bool" where
  "pool_legal n (Pool_Set now cn h fixed) \<longleftrightarrow> h < n"
| "pool_legal n _ \<longleftrightarrow> True"

lemma leases_update:
  assumes "i < pool_size pool" "\<And>k. pool_lease pool' k = pool_lease pool k" "pool_list pool' = (pool_list pool)[i := e]"
  shows "pool_leases pool' = (pool_leases pool)(i := if ip_in_use e then Some (pool_lease pool i) else None)"
  using assms by (auto simp: pool_leases_def fun_eq_iff)

lemma lease_cong: "pool_lease (pool\<lparr>pool_list := L\<rparr>) k = pool_lease pool k"
  by (simp add: pool_lease_def split: pool_type.split)

lemma acquire_ok:
  assumes p: "pool_ok pool"
  shows "\<exists>r pool'. ifconfig_pool_acquire now pool cn = Some (r, pool') \<and> pool_ok pool' \<and> pool_size pool' = pool_size pool \<and>
    pool_spec (pool_size pool) (pool_leases pool) (Pool_Acquire now cn) r (pool_leases pool')"
proof (cases "ifconfig_pool_find pool cn")
  case None
  then show ?thesis using p by (simp add: ifconfig_pool_acquire_def)
next
  case (Some i)
  have i: "i < pool_size pool" "\<not> ip_in_use (pool_list pool ! i)" using pool_find_free[OF Some] by simp_all
  define e where "e = (let e1 = (ifconfig_pool_entry_free now (pool_list pool ! i) True)\<lparr>ip_in_use := True\<rparr>
    in if cn \<noteq> None then e1\<lparr>ip_common_name := cn\<rparr> else e1)"
  define pool' where "pool' = pool\<lparr>pool_list := (pool_list pool)[i := e]\<rparr>"
  have u: "ip_in_use e" by (simp add: e_def Let_def)
  have a: "ifconfig_pool_acquire now pool cn = Some (Some (i, pool_lease pool i), pool')"
    using Some i by (simp add: ifconfig_pool_acquire_def e_def pool'_def Let_def lease_cong)
  have l: "pool_leases pool' = (pool_leases pool)(i \<mapsto> pool_lease pool i)"
    using leases_update[OF i(1), of pool' e] u by (simp add: pool'_def lease_cong)
  have "lease_disjoint (pool_lease pool i) b" if "pool_leases pool k = Some b" for k b
  proof -
    have k: "k < pool_size pool" "ip_in_use (pool_list pool ! k)" "b = pool_lease pool k"
      using that by (auto simp: pool_leases_def split: if_splits)
    then have "i \<noteq> k" using i(2) by auto
    then show ?thesis using leases_disjoint[OF p i(1) k(1)] k(3) by simp
  qed
  then have "pool_spec (pool_size pool) (pool_leases pool) (Pool_Acquire now cn) (Some (i, pool_lease pool i)) (pool_leases pool')"
    using i l by (simp add: pool_leases_def)
  moreover have "pool_ok pool'" using p by (simp add: pool_ok_def pool'_def)
  moreover have "pool_size pool' = pool_size pool" by (simp add: pool'_def)
  ultimately show ?thesis using a by blast
qed

lemma release_ok:
  fixes now hand :: int and hard :: bool
  assumes p: "pool_ok pool"
  defines "pool' \<equiv> snd (ifconfig_pool_release now pool hand hard)"
  shows "pool_ok pool' \<and> pool_size pool' = pool_size pool \<and>
    pool_spec (pool_size pool) (pool_leases pool) (Pool_Release now hand hard) None (pool_leases pool')"
proof (cases "hand \<ge> 0 \<and> hand < int (pool_size pool)")
  case True
  then have h: "nat hand < pool_size pool" by auto
  define e where "e = ifconfig_pool_entry_free now (pool_list pool ! nat hand) hard"
  have e: "pool' = pool\<lparr>pool_list := (pool_list pool)[nat hand := e]\<rparr>"
    using True by (simp add: pool'_def ifconfig_pool_release_def e_def)
  have "\<not> ip_in_use e" by (simp add: e_def ifconfig_pool_entry_free_def)
  then have "pool_leases pool' = (pool_leases pool)(nat hand := None)"
    using leases_update[OF h, of pool' e] by (simp add: e lease_cong)
  then show ?thesis using True p by (simp add: pool_ok_def e)
next
  case False
  then have "pool' = pool" by (auto simp: pool'_def ifconfig_pool_release_def)
  moreover have "(pool_leases pool)(nat hand := None) = pool_leases pool" if "hand \<ge> 0"
    using that False by (auto simp: pool_leases_def fun_eq_iff)
  ultimately show ?thesis using p by simp
qed

lemma set_ok:
  fixes now :: int and cn :: "byte list" and fixed :: bool
  assumes p: "pool_ok pool" and h: "h < pool_size pool"
  defines "pool' \<equiv> ifconfig_pool_set now pool cn h fixed"
  shows "pool_ok pool' \<and> pool_size pool' = pool_size pool \<and> pool_leases pool' = (pool_leases pool)(h := None)"
proof -
  define e where "e = (ifconfig_pool_entry_free now (pool_list pool ! h) True)\<lparr>ip_in_use := False, ip_common_name := Some cn,
    ip_last_release := now, ip_fixed := fixed\<rparr>"
  have e: "pool' = pool\<lparr>pool_list := (pool_list pool)[h := e]\<rparr>" by (simp add: pool'_def ifconfig_pool_set_def e_def Let_def)
  have "\<not> ip_in_use e" by (simp add: e_def)
  then show ?thesis using leases_update[OF h, of pool' e] p by (simp add: e lease_cong pool_ok_def)
qed

interpretation pool_refinement: relational_simulation "\<lambda>pool. pool_ok pool \<and> pool_size pool = n" pool_leases "pool_legal n" pool_step "pool_spec n"
proof
  fix pool x assume p: "pool_ok pool \<and> pool_size pool = n" and x: "pool_legal n x"
  show "\<exists>r pool'. pool_step pool x = Some (r, pool') \<and> (pool_ok pool' \<and> pool_size pool' = n) \<and> pool_spec n (pool_leases pool) x r (pool_leases pool')"
  proof (cases x)
    case (Pool_Acquire now cn)
    then show ?thesis using acquire_ok[of pool now cn] p by auto
  next
    case (Pool_Release now hand hard)
    then show ?thesis using release_ok[of pool now hand hard] p by auto
  next
    case (Pool_Set now cn h fixed)
    then show ?thesis using set_ok[of pool h now cn fixed] p x by auto
  qed
qed

section \<open>A new pool\<close>

lemma quad_base: "w AND NOT 3 = push_bit 2 (drop_bit 2 w)" for w :: u32
proof -
  have "w AND NOT (mask 2) = push_bit 2 (drop_bit 2 w)"
  proof (rule bit_word_eqI)
    fix n
    have "2 \<le> n \<Longrightarrow> Suc (Suc (n - 2)) = n" by arith
    then show "bit (w AND NOT (mask 2)) n = bit (push_bit 2 (drop_bit 2 w)) n"
      by (cases "2 \<le> n") (auto simp: bit_simps dest: bit_imp_le_length)
  qed
  moreover have "(mask 2 :: u32) = 3" by (simp add: mask_eq_exp_minus_1)
  ultimately show ?thesis by metis
qed

lemma uint_quad:
  fixes w :: u32
  shows "uint (w AND NOT 3) = 4 * (uint w div 4)" "uint (w OR 3) = 4 * (uint w div 4) + 3"
proof -
  have r: "0 \<le> uint w" "uint w < 4294967296" using uint_lt2p[of w] by simp_all
  have d: "uint (drop_bit 2 w) = uint w div 4"
  proof -
    have "take_bit LENGTH(32) (uint w) = uint w" by (simp only: take_bit_int_eq_self_iff) (use uint_lt2p[of w] in simp)
    then show ?thesis unfolding unsigned_drop_bit_eq by (simp only: drop_bit_eq_div) simp
  qed
  have q: "uint w div 4 < 1073741824" "0 \<le> uint w div 4" using r by linarith+
  have "uint (push_bit 2 (drop_bit 2 w)) = (uint w div 4 * 4) mod 4294967296"
    unfolding unsigned_push_bit_eq d by (simp add: take_bit_eq_mod push_bit_eq_mult)
  then show u: "uint (w AND NOT 3) = 4 * (uint w div 4)" unfolding quad_base using q by simp
  have "w OR 3 = (w AND NOT 3) OR 3" by (simp add: bit_eq_iff bit_simps) blast
  also have "\<dots> = (w AND NOT 3) + 3"
    by (rule disjunctive_add_eq_or[symmetric]) (rule bit_word_eqI, simp add: bit_simps)
  finally have "uint (w OR 3) = (4 * (uint w div 4) + 3) mod 4294967296"
    using u by (simp add: uint_word_ariths)
  then show "uint (w OR 3) = 4 * (uint w div 4) + 3" using q by simp
qed

lemma range_size:
  assumes "start \<le> end'" "end' - start < of_nat IFCONFIG_POOL_MAX"
  shows "snd (pool_ipv4_range t start end') \<le> 65536"
    "t = IFCONFIG_POOL_30NET \<Longrightarrow> fst (pool_ipv4_range t start end') AND 3 = 0"
proof -
  have le: "uint start \<le> uint end'" using assms(1) by (simp add: word_le_def)
  have r: "0 \<le> uint start" "uint end' < 4294967296" using uint_lt2p[of end'] by simp_all
  have "uint (end' - start) < 65536" using assms(2) by (simp add: word_less_def IFCONFIG_POOL_MAX_def)
  moreover have df: "uint (end' - start) = uint end' - uint start"
  proof -
    have "uint (end' - start) = (uint end' - uint start) mod 4294967296" by (simp add: uint_word_ariths)
    also have "\<dots> = uint end' - uint start" using le r by (intro mod_pos_pos_trivial) linarith+
    finally show ?thesis .
  qed
  ultimately have d: "uint end' - uint start < 65536" by simp
  have sm: "sint v = uint v" if "uint v < 2147483648" for v :: u32
    using that by (subst sint_uint) (simp add: signed_take_bit_eq_if_positive bit_iff_odd_drop_bit take_bit_int_eq_self drop_bit_eq_div)
  show "snd (pool_ipv4_range t start end') \<le> 65536"
  proof (cases t)
    case IFCONFIG_POOL_INDIV
    have "uint (end' - start + 1) = uint end' - uint start + 1"
    proof -
      have "uint (end' - start + 1) = (uint (end' - start) + 1) mod 4294967296" by (simp add: uint_word_ariths)
      also have "\<dots> = uint end' - uint start + 1" unfolding df using le d by (intro mod_pos_pos_trivial) linarith+
      finally show ?thesis .
    qed
    then show ?thesis using IFCONFIG_POOL_INDIV d sm[of "end' - start + 1"] by (simp add: pool_ipv4_range_def)
  next
    case IFCONFIG_POOL_30NET
    define v1 where "v1 = end' OR 3"
    define v2 where "v2 = start AND NOT 3"
    let ?v = "v1 + 1 - v2"
    have "uint end' div 4 * 4 \<le> uint end'" "uint start < uint start div 4 * 4 + 4" by linarith+
    then have b: "0 \<le> 4 * (uint end' div 4) + 4 - 4 * (uint start div 4)" "4 * (uint end' div 4) + 4 - 4 * (uint start div 4) < 65544"
      using le d by linarith+
    have "uint ?v = (uint v1 + 1 - uint v2) mod 4294967296"
      by (simp add: uint_word_ariths mod_diff_left_eq)
    also have "uint v1 + 1 - uint v2 = 4 * (uint end' div 4) + 4 - 4 * (uint start div 4)"
      unfolding v1_def v2_def by (simp only: uint_quad)
    finally have v: "uint ?v < 65544" using b by simp
    have "uint (drop_bit 2 ?v) = uint ?v div 4"
    proof -
      have "take_bit LENGTH(32) (uint ?v) = uint ?v" by (simp only: take_bit_int_eq_self_iff) (use uint_lt2p[of ?v] in simp)
      then show ?thesis unfolding unsigned_drop_bit_eq by (simp only: drop_bit_eq_div) simp
    qed
    then have "uint (drop_bit 2 ?v) < 16386" using v by linarith
    then show ?thesis using IFCONFIG_POOL_30NET sm[of "drop_bit 2 ?v"] by (simp add: pool_ipv4_range_def Let_def v1_def v2_def)
  qed
  show "fst (pool_ipv4_range t start end') AND 3 = 0" if "t = IFCONFIG_POOL_30NET"
    using that by (simp add: pool_ipv4_range_def Let_def and.assoc)
qed

lemma range6_size:
  assumes "length base = 16" "64 \<le> n" "n \<le> 124"
  shows "snd (pool_ipv6_range base n) \<le> 65536" "length (fst (pool_ipv6_range base n)) = 16"
proof -
  show "length (fst (pool_ipv6_range base n)) = 16" using assms(1) by (simp add: pool_ipv6_range_def Let_def)
  show "snd (pool_ipv6_range base n) \<le> 65536"
  proof (cases "n \<ge> 112")
    case False
    then show ?thesis by (simp add: pool_ipv6_range_def Let_def IFCONFIG_POOL_MAX_def)
  next
    case True
    define k where "k = nat (128 - n)"
    have k: "4 \<le> k" "k \<le> 16" "128 - n < 32" using True assms by (auto simp: k_def)
    define b where "b = (dec32 (drop 12 base) AND (push_bit k 1 - 1))"
    define b1 where "b1 = (if b = 0 then 1 else b)"
    have "b = take_bit k (dec32 (drop 12 base))" by (simp add: b_def take_bit_eq_mask mask_eq_exp_minus_1 push_bit_eq_mult)
    then have "uint b < 2 ^ k" by (simp add: unsigned_take_bit_eq)
    moreover have one: "(1 :: int) < 2 ^ k" using k(1) by simp
    ultimately have b1: "0 \<le> uint b1" "uint b1 < 2 ^ k" by (auto simp: b1_def)
    have up: "(2 :: int) ^ k \<le> 65536" using power_increasing[OF k(2), of "2 :: int"] by simp
    have "uint (push_bit k 1 :: u32) = 2 ^ k"
    proof -
      have "uint (push_bit k 1 :: u32) = 2 ^ k mod 4294967296"
        unfolding unsigned_push_bit_eq by (simp add: take_bit_eq_mod push_bit_eq_mult)
      also have "\<dots> = 2 ^ k" using up by (intro mod_pos_pos_trivial) simp_all
      finally show ?thesis .
    qed
    then have "uint (push_bit k 1 - b1) = (2 ^ k - uint b1) mod 4294967296" by (simp add: uint_word_ariths)
    also have "\<dots> = 2 ^ k - uint b1" using up b1 by (intro mod_pos_pos_trivial) linarith+
    finally have u: "uint (push_bit k 1 - b1) = 2 ^ k - uint b1" .
    have sm: "sint v = uint v" if "uint v < 2147483648" for v :: u32
      using that by (subst sint_uint) (simp add: signed_take_bit_eq_if_positive bit_iff_odd_drop_bit take_bit_int_eq_self drop_bit_eq_div)
    have v: "uint (push_bit k 1 - b1) \<le> 65536" unfolding u using up b1(1) by linarith
    have "snd (pool_ipv6_range base n) = sint (push_bit k 1 - b1)"
      using True k(3) unfolding b1_def
      by (simp only: pool_ipv6_range_def Let_def k_def[symmetric] if_True b_def[symmetric]) (simp split: if_splits)
    then show ?thesis using sm[of "push_bit k 1 - b1"] v by simp
  qed
qed

lemma pool_init_ok:
  assumes i: "ifconfig_pool_init v4 t start end' dup v6 base n = Some pool" and b: "length base = 16" "64 \<le> n" "n \<le> 124"
  shows "pool_ok pool" "pool_leases pool = Map.empty" "0 < pool_size pool"
proof -
  define r4 where "r4 = (if v4 then pool_ipv4_range t start end' else (0, - 1))"
  define r6 where "r6 = (if v6 then pool_ipv6_range base n else (replicate 16 0, - 1))"
  define size0 where "size0 = (if v4 then snd r4 else 0)"
  define sz where "sz = (if v6 \<and> (size0 \<le> 0 \<or> snd r6 < size0) then snd r6 else size0)"
  have g: "start \<le> end'" "end' - start < of_nat IFCONFIG_POOL_MAX" "0 < sz"
    "pool = \<lparr>duplicate_cn = dup, ipv4_enabled = v4, ipv4_type = (if v4 then t else IFCONFIG_POOL_30NET), ipv4_base = fst r4,
       ipv6_enabled = v6, ipv6_base = fst r6, pool_list = replicate (nat sz) free_entry\<rparr>"
    using i unfolding ifconfig_pool_init_def r4_def[symmetric] r6_def[symmetric]
    by (auto simp: Let_def case_prod_unfold size0_def sz_def split: if_splits)
  have "snd r4 \<le> 65536" "v4 \<Longrightarrow> t = IFCONFIG_POOL_30NET \<Longrightarrow> fst r4 AND 3 = 0"
    using range_size[OF g(1,2)] by (auto simp: r4_def)
  moreover have "snd r6 \<le> 65536" "length (fst r6) = 16"
    using range6_size[OF b] by (auto simp: r6_def)
  ultimately show "pool_ok pool" by (auto simp: pool_ok_def g(4) sz_def size0_def IFCONFIG_POOL_MAX_def)
  show "pool_leases pool = Map.empty" by (auto simp: pool_leases_def g(4) free_entry_def fun_eq_iff)
  show "0 < pool_size pool" using g(3) by (simp add: g(4))
qed

text \<open>C34: no address is leased twice: in any sequence of leases, returns and loaded entries after
  the pool was set up, the IPv4 addresses and the IPv6 address of a new lease differ from those
  of every lease that is out.\<close>

theorem pool_leases_distinct:
  assumes "ifconfig_pool_init v4 t start end' dup v6 base n = Some pool" "length base = 16" "64 \<le> n" "n \<le> 124"
    and "\<forall>x \<in> set ops. pool_legal (pool_size pool) x"
  shows "\<exists>rs pool'. run_ops pool_step pool ops = Some (rs, pool') \<and>
    run_rel (pool_spec (pool_size pool)) Map.empty ops rs (pool_leases pool')"
proof -
  note i = pool_init_ok[OF assms(1-4)]
  show ?thesis
    using pool_refinement.run_simulates[of pool "pool_size pool" ops] i(1,2) assms(5) by auto
qed

definition demo_pool :: ifconfig_pool where
  "demo_pool = \<lparr>duplicate_cn = False, ipv4_enabled = True, ipv4_type = IFCONFIG_POOL_30NET, ipv4_base = 0x0A080004,
     ipv6_enabled = False, ipv6_base = replicate 16 0, pool_list = [free_entry, free_entry]\<rparr>"

lemma demo_pool_init: "ifconfig_pool_init True IFCONFIG_POOL_30NET 0x0A080004 0x0A08000B False False (replicate 16 0) 64 = Some demo_pool"
proof -
  have "pool_ipv4_range IFCONFIG_POOL_30NET 0x0A080004 0x0A08000B = (0x0A080004, 2)" by (simp add: pool_ipv4_range_def Let_def)
  moreover have "replicate (nat 2) free_entry = [free_entry, free_entry]" by (simp add: numeral_2_eq_2)
  ultimately show ?thesis by (simp add: ifconfig_pool_init_def demo_pool_def IFCONFIG_POOL_MAX_def)
qed

lemma pool_leases_distinct_witness:
  "\<exists>rs pool'. run_ops pool_step demo_pool [Pool_Acquire 1 (Some [65]), Pool_Acquire 1 None, Pool_Release 2 0 False] = Some (rs, pool') \<and>
    run_rel (pool_spec 2) Map.empty [Pool_Acquire 1 (Some [65]), Pool_Acquire 1 None, Pool_Release 2 0 False] rs (pool_leases pool')"
proof -
  have sz: "pool_size demo_pool = 2" by (simp add: demo_pool_def)
  show ?thesis by (rule pool_leases_distinct[OF demo_pool_init, unfolded sz]) simp_all
qed

text \<open>The choice without a scan: the first entry of those that qualify.\<close>

definition pool_reference :: "ifconfig_pool \<Rightarrow> byte list option \<Rightarrow> nat option" where
  "pool_reference pool cn =
     (let L = pool_list pool;
          free = (\<lambda>j. \<not> ip_in_use (L ! j));
          usable = (\<lambda>j. free j \<and> \<not> ip_fixed (L ! j));
          first = (\<lambda>P. List.find P [0..<length L])
      in if duplicate_cn pool then first free
         else case first (\<lambda>j. free j \<and> cn \<noteq> None \<and> ip_common_name (L ! j) = cn) of
                Some j \<Rightarrow> Some j
              | None \<Rightarrow> first (\<lambda>j. usable j \<and> (\<forall>k \<in> set [0..<length L]. usable k \<longrightarrow> ip_last_release (L ! j) \<le> ip_last_release (L ! k))))"

lemma first_index: "k < n \<Longrightarrow> P k \<Longrightarrow> \<forall>j < k. \<not> P j \<Longrightarrow> List.find P [0..<n] = Some k"
  by (auto simp: find_Some_iff intro!: exI[of _ k])

lemma no_index: "\<forall>j < n. \<not> P j \<Longrightarrow> List.find P [0..<n] = None"
  by (auto simp: find_None_iff)

text \<open>C39: which entry a client gets. When names may be shared, the first free entry. Otherwise the
  first free entry kept under the client's name, even a fixed one; if there is none, of the free
  entries that are not fixed the one released earliest, the first of them when there are several;
  and none when there is no such entry.\<close>

theorem pool_choice:
  "ifconfig_pool_find pool cn = pool_reference pool cn"
proof -
  let ?L = "pool_list pool"
  obtain new prev where s: "pool_scan (duplicate_cn pool) cn ?L 0 0 None None = (new, prev)" by (metis surj_pair)
  have f: "ifconfig_pool_find pool cn = (case prev of Some i \<Rightarrow> Some i | None \<Rightarrow> new)"
    using s by (simp add: ifconfig_pool_find_def split: option.split)
  show ?thesis
  proof (cases "duplicate_cn pool")
    case True
    have s1: "pool_scan True cn ?L 0 0 None None = (new, prev)" using s True by simp
    note d = conjunct1[OF pool_scan_dup[OF s1, unfolded add_0]] conjunct2[OF pool_scan_dup[OF s1, unfolded add_0]]
    have "List.find (\<lambda>j. \<not> ip_in_use (?L ! j)) [0..<length ?L] = new"
    proof (cases "\<exists>j. entry_free ?L j")
      case ex: True
      then obtain j where j: "new = Some j" "entry_free ?L j" "\<forall>k < j. \<not> entry_free ?L k" using d(2) by auto
      have "\<forall>k < j. \<not> \<not> ip_in_use (?L ! k)" using j(2,3) by auto
      then show ?thesis unfolding j(1) using j(2) by (intro first_index) auto
    next
      case False
      then show ?thesis using d(2) by (simp add: no_index)
    qed
    then show ?thesis using True d(1) f by (simp add: pool_reference_def Let_def)
  next
    case False
    have "oldest_in [] None" "named_in cn [] None" by (simp_all add: oldest_in_def named_in_def)
    from pool_scan_finds[OF this(1) _ this(2)] s False have o: "oldest_in ?L new" "named_in cn ?L prev" by auto
    have n: "List.find (\<lambda>j. \<not> ip_in_use (?L ! j) \<and> cn \<noteq> None \<and> ip_common_name (?L ! j) = cn) [0..<length ?L] = prev"
    proof (cases prev)
      case None
      then show ?thesis using o(2) by (auto simp: named_in_def intro!: no_index)
    next
      case (Some k)
      then show ?thesis using o(2) by (auto simp: named_in_def intro!: first_index)
    qed
    have u: "List.find (\<lambda>j. (\<not> ip_in_use (?L ! j) \<and> \<not> ip_fixed (?L ! j)) \<and>
        (\<forall>k \<in> set [0..<length ?L]. \<not> ip_in_use (?L ! k) \<and> \<not> ip_fixed (?L ! k) \<longrightarrow> ip_last_release (?L ! j) \<le> ip_last_release (?L ! k)))
        [0..<length ?L] = new"
    proof (cases new)
      case None
      then show ?thesis using o(1) by (auto simp: oldest_in_def intro!: no_index)
    next
      case (Some k)
      then have k: "entry_free ?L k" "\<not> ip_fixed (?L ! k)"
        "\<forall>j. entry_free ?L j \<and> \<not> ip_fixed (?L ! j) \<longrightarrow> ip_last_release (?L ! k) \<le> ip_last_release (?L ! j)"
        "\<forall>j < k. \<not> ip_in_use (?L ! j) \<and> \<not> ip_fixed (?L ! j) \<longrightarrow> ip_last_release (?L ! k) < ip_last_release (?L ! j)"
        using o(1) by (auto simp: oldest_in_def)
      show ?thesis unfolding Some by (rule first_index) (use k in \<open>force+\<close>)
    qed
    show ?thesis using False f n u by (simp only: pool_reference_def Let_def if_False)
  qed
qed

text \<open>A /100 pool that starts at the last address of its network: the second lease is outside.\<close>

definition edge_base :: "byte list" where
  "edge_base = [0x20, 1, 0xd, 0xb8, 0, 0, 0, 0, 0, 0, 0, 0, 0x0f, 0xff, 0xff, 0xff]"

lemma pool_leaves_network:
  "\<exists>pool. ifconfig_pool_init False IFCONFIG_POOL_INDIV 0 0 False True edge_base 100 = Some pool \<and> 1 < pool_size pool \<and>
     snd (pool_lease pool 1) = Some [0x20, 1, 0xd, 0xb8, 0, 0, 0, 0, 0, 0, 0, 0, 0x10, 0, 0, 0]"
proof -
  have "dec32 (drop 12 edge_base) = 0x0fffffff" by (simp add: edge_base_def dec32_def be_dec_def)
  then have r: "pool_ipv6_range edge_base 100 = (edge_base, 65536)"
    by (simp add: pool_ipv6_range_def Let_def push_bit_eq_mult IFCONFIG_POOL_MAX_def)
  have a: "add_in6_addr edge_base 1 = [0x20, 1, 0xd, 0xb8, 0, 0, 0, 0, 0, 0, 0, 0, 0x10, 0, 0, 0]" by code_simp
  show ?thesis by (simp add: ifconfig_pool_init_def r pool_lease_def a IFCONFIG_POOL_MAX_def)
qed

end
