(* ===== verification/Schedule.thy ===== *)
theory Schedule
  imports Otime "HOL-Library.Tree"
begin

text \<open>
  The event scheduler of the server, \<^verbatim>\<open>schedule.c\<close> and \<^verbatim>\<open>schedule.h\<close>: a treap, a binary
  search tree by wakeup time kept balanced by random priorities in heap order, with parent
  links. An entry is named by its index and the entries live in a store, so that every link
  the C code writes is a write to the store. This theory holds the operations and the shape
  of the tree: what one rotation does to the links and to the tree they represent.
\<close>

section \<open>State\<close>

record schedule_entry =
  se_tv :: timeval
  se_pri :: u32
  se_parent :: "nat option"
  se_lt :: "nat option"
  se_gt :: "nat option"

record schedule =
  earliest_wakeup :: "nat option"
  sc_root :: "nat option"
  sc_mem :: "nat \<Rightarrow> schedule_entry"

definition upd :: "schedule \<Rightarrow> nat \<Rightarrow> (schedule_entry \<Rightarrow> schedule_entry) \<Rightarrow> schedule" where
  "upd s e f = s\<lparr>sc_mem := (sc_mem s)(e := f (sc_mem s e))\<rparr>"

definition IN_TREE :: "schedule \<Rightarrow> nat \<Rightarrow> bool" where
  "IN_TREE s e \<longleftrightarrow> se_pri (sc_mem s e) \<noteq> 0"

section \<open>Operations\<close>

text \<open>\<^verbatim>\<open>random()\<close> takes the next number of a list; with none left the model stops (\<open>None\<close>).\<close>

definition schedule_set_pri :: "schedule \<Rightarrow> nat \<Rightarrow> u32 list \<Rightarrow> (schedule \<times> u32 list) option" where
  "schedule_set_pri s e rnd =
     (case rnd of
        [] \<Rightarrow> None
      | r # rs \<Rightarrow> Some (upd s e (\<lambda>x. x\<lparr>se_pri := if r < 1 then 1 else r\<rparr>), rs))"

definition schedule_entry_compare :: "schedule_entry \<Rightarrow> schedule_entry \<Rightarrow> int" where
  "schedule_entry_compare e1 e2 =
     (if tv_sec (se_tv e1) < tv_sec (se_tv e2) then - 1
      else if tv_sec (se_tv e1) > tv_sec (se_tv e2) then 1
      else if tv_usec (se_tv e1) < tv_usec (se_tv e2) then - 1
      else if tv_usec (se_tv e1) > tv_usec (se_tv e2) then 1
      else if se_pri e1 < se_pri e2 then - 1
      else if se_pri e1 > se_pri e2 then 1
      else 0)"

definition schedule_detach_parent :: "schedule \<Rightarrow> nat option \<Rightarrow> schedule option" where
  "schedule_detach_parent s eo =
     (case eo of
        None \<Rightarrow> Some s
      | Some e \<Rightarrow>
          (case se_parent (sc_mem s e) of
             Some p \<Rightarrow>
               if se_lt (sc_mem s p) = Some e
               then Some (upd (upd s p (\<lambda>x. x\<lparr>se_lt := None\<rparr>)) e (\<lambda>x. x\<lparr>se_parent := None\<rparr>))
               else if se_gt (sc_mem s p) = Some e
               then Some (upd (upd s p (\<lambda>x. x\<lparr>se_gt := None\<rparr>)) e (\<lambda>x. x\<lparr>se_parent := None\<rparr>))
               else None
           | None \<Rightarrow> Some (if sc_root s = Some e then s\<lparr>sc_root := None\<rparr> else s)))"

text \<open>The three parts of \<^verbatim>\<open>schedule_rotate_up\<close>: the link from above, the parents, the link of the former parent.\<close>

definition rotate_grandparent :: "schedule \<Rightarrow> nat \<Rightarrow> nat \<Rightarrow> nat option \<Rightarrow> schedule option" where
  "rotate_grandparent s e p gpo =
     (case gpo of
        Some gp \<Rightarrow>
          if se_gt (sc_mem s gp) = Some p then Some (upd s gp (\<lambda>x. x\<lparr>se_gt := Some e\<rparr>))
          else if se_lt (sc_mem s gp) = Some p then Some (upd s gp (\<lambda>x. x\<lparr>se_lt := Some e\<rparr>))
          else None
      | None \<Rightarrow> Some (s\<lparr>sc_root := Some e\<rparr>))"

definition set_parent :: "schedule \<Rightarrow> nat option \<Rightarrow> nat \<Rightarrow> schedule" where
  "set_parent s co p = (case co of None \<Rightarrow> s | Some c \<Rightarrow> upd s c (\<lambda>x. x\<lparr>se_parent := Some p\<rparr>))"

definition rotate_child :: "schedule \<Rightarrow> nat \<Rightarrow> nat \<Rightarrow> nat option \<Rightarrow> nat option \<Rightarrow> schedule option" where
  "rotate_child s e p lt gt =
     (if se_gt (sc_mem s p) = Some e
      then Some (set_parent (upd (upd s e (\<lambda>x. x\<lparr>se_lt := Some p\<rparr>)) p (\<lambda>x. x\<lparr>se_gt := lt\<rparr>)) lt p)
      else if se_lt (sc_mem s p) = Some e
      then Some (set_parent (upd (upd s e (\<lambda>x. x\<lparr>se_gt := Some p\<rparr>)) p (\<lambda>x. x\<lparr>se_lt := gt\<rparr>)) gt p)
      else None)"

definition schedule_rotate_up :: "schedule \<Rightarrow> nat option \<Rightarrow> schedule option" where
  "schedule_rotate_up s eo =
     (case eo of
        None \<Rightarrow> Some s
      | Some e \<Rightarrow>
          (case se_parent (sc_mem s e) of
             None \<Rightarrow> Some s
           | Some p \<Rightarrow>
               let lt = se_lt (sc_mem s e); gt = se_gt (sc_mem s e); gp = se_parent (sc_mem s p) in
               case rotate_grandparent s e p gp of
                 None \<Rightarrow> None
               | Some s1 \<Rightarrow>
                   rotate_child (upd (upd s1 e (\<lambda>x. x\<lparr>se_parent := gp\<rparr>)) p (\<lambda>x. x\<lparr>se_parent := Some e\<rparr>))
                     e p lt gt))"

text \<open>The child the removal rotates up.\<close>

definition lesser_child :: "schedule \<Rightarrow> nat \<Rightarrow> nat option" where
  "lesser_child s e =
     (case se_lt (sc_mem s e) of
        Some l \<Rightarrow>
          (case se_gt (sc_mem s e) of
             Some g \<Rightarrow> if se_pri (sc_mem s l) < se_pri (sc_mem s g) then Some l else Some g
           | None \<Rightarrow> Some l)
      | None \<Rightarrow> se_gt (sc_mem s e))"

partial_function (option) sink_node :: "schedule \<Rightarrow> nat \<Rightarrow> schedule option" where
  "sink_node s e =
     (if se_lt (sc_mem s e) \<noteq> None \<or> se_gt (sc_mem s e) \<noteq> None
      then Option.bind (schedule_rotate_up s (lesser_child s e)) (\<lambda>s'. sink_node s' e)
      else Some s)"

definition schedule_remove_node :: "schedule \<Rightarrow> nat \<Rightarrow> schedule option" where
  "schedule_remove_node s e =
     Option.bind (sink_node s e) (\<lambda>s1.
       Option.bind (schedule_detach_parent s1 (Some e)) (\<lambda>s2.
         Some (upd s2 e (\<lambda>x. x\<lparr>se_pri := 0\<rparr>))))"

text \<open>\<^verbatim>\<open>schedule_insert\<close> from the node \<open>c\<close> on.\<close>

partial_function (option) insert_at :: "schedule \<Rightarrow> nat \<Rightarrow> nat option \<Rightarrow> u32 list \<Rightarrow> (schedule \<times> u32 list) option" where
  "insert_at s e co rnd =
     (case co of
        None \<Rightarrow> None
      | Some c \<Rightarrow>
          let comp = schedule_entry_compare (sc_mem s e) (sc_mem s c) in
          if comp = - 1
          then if se_lt (sc_mem s c) \<noteq> None then insert_at s e (se_lt (sc_mem s c)) rnd
               else Some (upd (upd s c (\<lambda>x. x\<lparr>se_lt := Some e\<rparr>)) e (\<lambda>x. x\<lparr>se_parent := Some c\<rparr>), rnd)
          else if comp = 1
          then if se_gt (sc_mem s c) \<noteq> None then insert_at s e (se_gt (sc_mem s c)) rnd
               else Some (upd (upd s c (\<lambda>x. x\<lparr>se_gt := Some e\<rparr>)) e (\<lambda>x. x\<lparr>se_parent := Some c\<rparr>), rnd)
          else Option.bind (schedule_set_pri s e rnd) (\<lambda>(s1, rnd1). insert_at s1 e (sc_root s1) rnd1))"

definition schedule_insert :: "schedule \<Rightarrow> nat \<Rightarrow> u32 list \<Rightarrow> (schedule \<times> u32 list) option" where
  "schedule_insert s e rnd = insert_at s e (sc_root s) rnd"

partial_function (option) rise_node :: "schedule \<Rightarrow> nat \<Rightarrow> schedule option" where
  "rise_node s e =
     (case se_parent (sc_mem s e) of
        None \<Rightarrow> Some s
      | Some p \<Rightarrow>
          if se_pri (sc_mem s p) > se_pri (sc_mem s e)
          then Option.bind (schedule_rotate_up s (Some e)) (\<lambda>s'. rise_node s' e)
          else Some s)"

definition schedule_add_modify :: "schedule \<Rightarrow> nat \<Rightarrow> u32 list \<Rightarrow> (schedule \<times> u32 list) option" where
  "schedule_add_modify s e rnd =
     Option.bind (if IN_TREE s e then schedule_remove_node s e else Some s) (\<lambda>s1.
       Option.bind (schedule_set_pri s1 e rnd) (\<lambda>(s2, rnd2).
         Option.bind (if sc_root s2 \<noteq> None then schedule_insert s2 e rnd2
                      else Some (s2\<lparr>sc_root := Some e\<rparr>, rnd2)) (\<lambda>(s3, rnd3).
           map_option (\<lambda>s4. (s4, rnd3)) (rise_node s3 e))))"

partial_function (option) leftmost :: "schedule \<Rightarrow> nat \<Rightarrow> nat option" where
  "leftmost s e = (case se_lt (sc_mem s e) of None \<Rightarrow> Some e | Some l \<Rightarrow> leftmost s l)"

text \<open>The outer \<open>None\<close> is a walk that does not end, the inner one \<^verbatim>\<open>NULL\<close>.\<close>

definition schedule_find_least :: "schedule \<Rightarrow> nat option \<Rightarrow> nat option option" where
  "schedule_find_least s eo =
     (case eo of None \<Rightarrow> Some None | Some e \<Rightarrow> map_option Some (leftmost s e))"

definition schedule_init :: "(nat \<Rightarrow> schedule_entry) \<Rightarrow> schedule" where
  "schedule_init mem = \<lparr>earliest_wakeup = None, sc_root = None, sc_mem = mem\<rparr>"

definition schedule_remove_entry :: "schedule \<Rightarrow> nat \<Rightarrow> schedule option" where
  "schedule_remove_entry s e = schedule_remove_node (s\<lparr>earliest_wakeup := None\<rparr>) e"

definition schedule_add_entry ::
  "schedule \<Rightarrow> nat \<Rightarrow> timeval \<Rightarrow> u32 \<Rightarrow> u32 list \<Rightarrow> (schedule \<times> u32 list) option" where
  "schedule_add_entry s e tv sigma rnd =
     (if \<not> IN_TREE s e \<or> sigma = 0 \<or> \<not> tv_within_sigma tv (se_tv (sc_mem s e)) sigma
      then map_option (\<lambda>(s', rnd'). (s'\<lparr>earliest_wakeup := None\<rparr>, rnd'))
             (schedule_add_modify (upd s e (\<lambda>x. x\<lparr>se_tv := tv\<rparr>)) e rnd)
      else Some (s, rnd))"

definition schedule_get_earliest_wakeup :: "schedule \<Rightarrow> ((nat \<times> timeval) option \<times> schedule) option" where
  "schedule_get_earliest_wakeup s =
     Option.bind (if earliest_wakeup s = None then schedule_find_least s (sc_root s) else Some (earliest_wakeup s))
       (\<lambda>ret. Some (map_option (\<lambda>e. (e, se_tv (sc_mem s e))) ret, s\<lparr>earliest_wakeup := ret\<rparr>))"

section \<open>The tree behind the links\<close>

fun root_of :: "nat tree \<Rightarrow> nat option" where
  "root_of Leaf = None"
| "root_of (Node l e r) = Some e"

fun rep :: "(nat \<Rightarrow> schedule_entry) \<Rightarrow> nat option \<Rightarrow> nat tree \<Rightarrow> bool" where
  "rep h p Leaf = True"
| "rep h p (Node l e r) \<longleftrightarrow>
     se_parent (h e) = p \<and> se_lt (h e) = root_of l \<and> se_gt (h e) = root_of r \<and>
     rep h (Some e) l \<and> rep h (Some e) r"

definition links :: "schedule_entry \<Rightarrow> nat option \<times> nat option \<times> nat option" where
  "links x = (se_parent x, se_lt x, se_gt x)"

lemma root_of_in: "root_of t = Some x \<Longrightarrow> x \<in> set_tree t"
  by (cases t) auto

lemma rep_cong: "(\<And>x. x \<in> set_tree t \<Longrightarrow> links (h' x) = links (h x)) \<Longrightarrow> rep h' p t = rep h p t"
  by (induction t arbitrary: p) (auto simp: links_def)

text \<open>A tree hung up elsewhere.\<close>

lemma rep_move:
  assumes "rep h p t" "distinct (inorder t)"
    and "\<And>x. x \<in> set_tree t \<Longrightarrow> se_lt (h' x) = se_lt (h x) \<and> se_gt (h' x) = se_gt (h x) \<and>
      se_parent (h' x) = (if root_of t = Some x then q else se_parent (h x))"
  shows "rep h' q t"
proof (cases t)
  case (Node l e r)
  have d: "e \<notin> set_tree l" "e \<notin> set_tree r" using assms(2) Node by auto
  have "rep h' (Some e) l = rep h (Some e) l"
    by (rule rep_cong) (use assms(3) d Node in \<open>auto simp: links_def\<close>)
  moreover have "rep h' (Some e) r = rep h (Some e) r"
    by (rule rep_cong) (use assms(3) d Node in \<open>auto simp: links_def\<close>)
  ultimately show ?thesis using assms(1,3) Node by simp
qed simp

text \<open>A node and the nodes above it.\<close>

definition child_of :: "(nat \<Rightarrow> schedule_entry) \<Rightarrow> nat \<Rightarrow> nat \<Rightarrow> bool" where
  "child_of h p c \<longleftrightarrow>
     (se_lt (h p) = Some c \<and> se_gt (h p) \<noteq> Some c) \<or> (se_gt (h p) = Some c \<and> se_lt (h p) \<noteq> Some c)"

text \<open>The child that changes sides when \<open>c\<close> is rotated over its parent \<open>p\<close>.\<close>

definition inner :: "(nat \<Rightarrow> schedule_entry) \<Rightarrow> nat \<Rightarrow> nat \<Rightarrow> nat option" where
  "inner h p c = (if se_gt (h p) = Some c then se_lt (h c) else se_gt (h c))"

definition hangs :: "(nat \<Rightarrow> schedule_entry) \<Rightarrow> nat option \<Rightarrow> nat tree \<Rightarrow> nat \<Rightarrow> bool" where
  "hangs h q t c \<longleftrightarrow>
     (\<exists>p \<in> set_tree t. se_parent (h c) = Some p \<and> p \<noteq> c \<and> child_of h p c \<and>
       (if root_of t = Some p then se_parent (h p) = q
        else \<exists>g \<in> set_tree t. se_parent (h p) = Some g \<and> g \<noteq> p \<and> g \<noteq> c \<and> child_of h g p) \<and>
       (\<forall>i. inner h p c = Some i \<longrightarrow> i \<in> set_tree t \<and> i \<noteq> p \<and> i \<noteq> c \<and> se_parent (h p) \<noteq> Some i))"

lemma root_child:
  assumes "rep h q (Node l e r)" "distinct (inorder (Node l e r))" "root_of l = Some c \<or> root_of r = Some c"
  shows "child_of h e c" "se_parent (h c) = Some e" "e \<noteq> c"
    "inner h e c = Some i \<Longrightarrow> i \<in> set_tree (Node l e r) \<and> i \<noteq> e \<and> i \<noteq> c"
proof -
  have "root_of l \<noteq> root_of r"
    using assms(2,3) root_of_in[of l c] root_of_in[of r c] by auto
  then show "child_of h e c" using assms(1,3) by (auto simp: child_of_def)
  show "se_parent (h c) = Some e" using assms(1,3) by (cases l; cases r) auto
  show "e \<noteq> c" using assms(2,3) root_of_in[of l c] root_of_in[of r c] by auto
  show "i \<in> set_tree (Node l e r) \<and> i \<noteq> e \<and> i \<noteq> c" if "inner h e c = Some i"
    using assms(3)
  proof
    assume l: "root_of l = Some c"
    then obtain a b where n: "l = Node a c b" by (cases l) auto
    then have "root_of b = Some i" using that assms(1) \<open>child_of h e c\<close> l by (auto simp: inner_def child_of_def)
    then show ?thesis using assms(2) n root_of_in by fastforce
  next
    assume r: "root_of r = Some c"
    then obtain a b where n: "r = Node a c b" by (cases r) auto
    then have "root_of a = Some i" using that assms(1) \<open>child_of h e c\<close> r by (auto simp: inner_def child_of_def)
    then show ?thesis using assms(2) n root_of_in by fastforce
  qed
qed

lemma hangs_sub:
  assumes r: "rep h q (Node l e r)" and d: "distinct (inorder (Node l e r))"
    and t: "t = l \<or> t = r" and c: "c \<in> set_tree t" and n: "root_of t \<noteq> Some c" and h: "hangs h (Some e) t c"
  shows "hangs h q (Node l e r) c"
proof -
  from h obtain p where p: "p \<in> set_tree t" "se_parent (h c) = Some p" "p \<noteq> c" "child_of h p c"
    "if root_of t = Some p then se_parent (h p) = Some e
     else \<exists>g \<in> set_tree t. se_parent (h p) = Some g \<and> g \<noteq> p \<and> g \<noteq> c \<and> child_of h g p"
    "\<forall>i. inner h p c = Some i \<longrightarrow> i \<in> set_tree t \<and> i \<noteq> p \<and> i \<noteq> c \<and> se_parent (h p) \<noteq> Some i"
    unfolding hangs_def by blast
  have pe: "p \<noteq> e" "e \<noteq> c" using p(1) c t d by auto
  have "\<exists>g \<in> set_tree (Node l e r). se_parent (h p) = Some g \<and> g \<noteq> p \<and> g \<noteq> c \<and> child_of h g p"
  proof (cases "root_of t = Some p")
    case True
    then have "child_of h e p" using root_child(1)[OF r d] t by auto
    then show ?thesis using True p(5) pe by auto
  next
    case False
    then show ?thesis using p(5) t by auto
  qed
  then show ?thesis using p pe t by (auto simp: hangs_def)
qed

lemma rep_hangs:
  assumes "rep h q t" "c \<in> set_tree t" "root_of t \<noteq> Some c" "distinct (inorder t)" "q \<notin> Some ` set_tree t"
  shows "hangs h q t c"
  using assms
proof (induction t arbitrary: q)
  case (Node l e r)
  have d: "distinct (inorder l)" "distinct (inorder r)" using Node.prems(4) by auto
  have rr: "rep h (Some e) l" "rep h (Some e) r" "se_parent (h e) = q" using Node.prems(1) by auto
  have e: "Some e \<notin> Some ` set_tree l" "Some e \<notin> Some ` set_tree r" using Node.prems(4) by auto
  consider "root_of l = Some c \<or> root_of r = Some c" | "c \<in> set_tree l" "root_of l \<noteq> Some c" | "c \<in> set_tree r" "root_of r \<noteq> Some c"
    using Node.prems(2,3) by auto
  then show ?case
  proof cases
    case 1
    from root_child[OF Node.prems(1,4) 1] rr(3) Node.prems(5) show ?thesis by (auto simp: hangs_def)
  next
    case 2
    from hangs_sub[OF Node.prems(1,4) _ 2 Node.IH(1)[OF rr(1) 2 d(1) e(1)]] show ?thesis by simp
  next
    case 3
    from hangs_sub[OF Node.prems(1,4) _ 3 Node.IH(2)[OF rr(2) 3 d(2) e(2)]] show ?thesis by simp
  qed
qed simp

section \<open>Rotation\<close>

fun rot :: "nat \<Rightarrow> nat tree \<Rightarrow> nat tree" where
  "rot c Leaf = Leaf"
| "rot c (Node l p r) =
     (if root_of l = Some c then (case l of Leaf \<Rightarrow> Leaf | Node a x b \<Rightarrow> Node a x (Node b p r))
      else if root_of r = Some c then (case r of Leaf \<Rightarrow> Leaf | Node a x b \<Rightarrow> Node (Node l p a) x b)
      else Node (rot c l) p (rot c r))"

lemma inorder_rot [simp]: "inorder (rot c t) = inorder t"
  by (induction t) (auto split: tree.split)

lemma set_rot [simp]: "set_tree (rot c t) = set_tree t"
  by (metis inorder_rot set_inorder)

lemma rot_id: "c \<notin> set_tree t \<Longrightarrow> rot c t = t"
  by (induction t) (auto dest: root_of_in)

text \<open>The links after the rotation of \<open>c\<close> over its parent \<open>p\<close>.\<close>

definition relink :: "nat option \<Rightarrow> nat \<Rightarrow> nat \<Rightarrow> nat option" where
  "relink l old new = (if l = Some old then Some new else l)"

definition rotated :: "(nat \<Rightarrow> schedule_entry) \<Rightarrow> nat \<Rightarrow> nat \<Rightarrow> (nat \<Rightarrow> schedule_entry) \<Rightarrow> bool" where
  "rotated h p c h' \<longleftrightarrow>
     (\<forall>x. se_tv (h' x) = se_tv (h x) \<and> se_pri (h' x) = se_pri (h x) \<and>
       se_parent (h' x) = (if x = c then se_parent (h p) else if x = p then Some c
         else if inner h p c = Some x then Some p else se_parent (h x)) \<and>
       se_lt (h' x) = (if x = p then (if se_gt (h p) = Some c then se_lt (h p) else se_gt (h c))
         else if x = c then (if se_gt (h p) = Some c then Some p else se_lt (h c))
         else if se_parent (h p) = Some x then relink (se_lt (h x)) p c else se_lt (h x)) \<and>
       se_gt (h' x) = (if x = p then (if se_gt (h p) = Some c then se_lt (h c) else se_gt (h p))
         else if x = c then (if se_gt (h p) = Some c then se_gt (h c) else Some p)
         else if se_parent (h p) = Some x then relink (se_gt (h x)) p c else se_gt (h x)))"

lemma rotate_up_links:
  assumes p: "se_parent (sc_mem s c) = Some p" "p \<noteq> c" "child_of (sc_mem s) p c"
    and g: "case se_parent (sc_mem s p) of None \<Rightarrow> True | Some g \<Rightarrow> g \<noteq> p \<and> g \<noteq> c \<and> child_of (sc_mem s) g p"
    and i: "inner (sc_mem s) p c \<noteq> Some p" "inner (sc_mem s) p c \<noteq> Some c"
      "inner (sc_mem s) p c \<noteq> None \<Longrightarrow> inner (sc_mem s) p c \<noteq> se_parent (sc_mem s p)"
  shows "\<exists>s'. schedule_rotate_up s (Some c) = Some s' \<and> rotated (sc_mem s) p c (sc_mem s') \<and>
    earliest_wakeup s' = earliest_wakeup s \<and>
    sc_root s' = (if se_parent (sc_mem s p) = None then Some c else sc_root s)"
proof (cases "se_gt (sc_mem s p) = Some c")
  case right: True
  show ?thesis
  proof (cases "se_parent (sc_mem s p)")
    case None
    then show ?thesis using right p i
      by (cases "se_lt (sc_mem s c)")
        (auto simp: schedule_rotate_up_def rotate_grandparent_def rotate_child_def set_parent_def upd_def Let_def
          rotated_def inner_def)
  next
    case (Some g)
    then show ?thesis using right p i g
      by (cases "se_lt (sc_mem s c)"; cases "se_gt (sc_mem s g) = Some p")
        (auto simp: schedule_rotate_up_def rotate_grandparent_def rotate_child_def set_parent_def upd_def Let_def
          rotated_def inner_def relink_def child_of_def)
  qed
next
  case left: False
  show ?thesis
  proof (cases "se_parent (sc_mem s p)")
    case None
    then show ?thesis using left p i
      by (cases "se_gt (sc_mem s c)")
        (auto simp: schedule_rotate_up_def rotate_grandparent_def rotate_child_def set_parent_def upd_def Let_def
          rotated_def inner_def child_of_def)
  next
    case (Some g)
    then show ?thesis using left p i g
      by (cases "se_gt (sc_mem s c)"; cases "se_gt (sc_mem s g) = Some p")
        (auto simp: schedule_rotate_up_def rotate_grandparent_def rotate_child_def set_parent_def upd_def Let_def
          rotated_def inner_def relink_def child_of_def)
  qed
qed

lemma rotatedD:
  assumes "rotated h p c h'"
  shows "se_tv (h' x) = se_tv (h x)" "se_pri (h' x) = se_pri (h x)"
    "se_parent (h' x) = (if x = c then se_parent (h p) else if x = p then Some c
         else if inner h p c = Some x then Some p else se_parent (h x))"
    "se_lt (h' x) = (if x = p then (if se_gt (h p) = Some c then se_lt (h p) else se_gt (h c))
         else if x = c then (if se_gt (h p) = Some c then Some p else se_lt (h c))
         else if se_parent (h p) = Some x then relink (se_lt (h x)) p c else se_lt (h x))"
    "se_gt (h' x) = (if x = p then (if se_gt (h p) = Some c then se_lt (h c) else se_gt (h p))
         else if x = c then (if se_gt (h p) = Some c then se_gt (h c) else Some p)
         else if se_parent (h p) = Some x then relink (se_gt (h x)) p c else se_gt (h x))"
  using assms by (auto simp: rotated_def)

lemma rotated_far:
  assumes "rotated h p c h'" "x \<noteq> p" "x \<noteq> c" "inner h p c \<noteq> Some x" "se_parent (h p) \<noteq> Some x"
  shows "links (h' x) = links (h x)"
  using rotatedD[OF assms(1), of x] assms(2-5) by (simp add: links_def)

lemma rep_rotated_left:
  assumes r: "rep h q (Node (Node a c b) p r)" and d: "distinct (inorder (Node (Node a c b) p r))"
    and q: "q \<notin> Some ` set_tree (Node (Node a c b) p r)" and ro: "rotated h p c h'"
  shows "rep h' q (Node a c (Node b p r))"
proof -
  have f: "se_parent (h p) = q" "se_lt (h p) = Some c" "se_gt (h p) = root_of r" "se_lt (h c) = root_of a"
    "se_gt (h c) = root_of b" "rep h (Some c) a" "rep h (Some c) b" "rep h (Some p) r" using r by auto
  have ng: "se_gt (h p) \<noteq> Some c" using f(3) d root_of_in[of r c] by auto
  have i: "inner h p c = root_of b" using ng f(5) by (simp add: inner_def)
  have far: "links (h' x) = links (h x)" if "x \<in> set_tree a \<or> x \<in> set_tree r" for x
    by (rule rotated_far[OF ro]) (use that d q i f(1) root_of_in[of b x] in auto)
  have "rep h' (Some c) a" using rep_cong[of a h' h "Some c"] far f(6) by auto
  moreover have "rep h' (Some p) r" using rep_cong[of r h' h "Some p"] far f(8) by auto
  moreover have "rep h' (Some p) b"
  proof (rule rep_move[OF f(7)])
    fix x assume x: "x \<in> set_tree b"
    then have "x \<noteq> p" "x \<noteq> c" "q \<noteq> Some x" using d q by auto
    then show "se_lt (h' x) = se_lt (h x) \<and> se_gt (h' x) = se_gt (h x) \<and>
      se_parent (h' x) = (if root_of b = Some x then Some p else se_parent (h x))"
      using rotatedD[OF ro, of x] f(1) i by simp
  qed (use d in auto)
  moreover have "p \<noteq> c" using d by auto
  ultimately show ?thesis
    using rotatedD(3-5)[OF ro, of p] rotatedD(3-5)[OF ro, of c] f ng i by simp
qed

lemma rep_rotated_right:
  assumes r: "rep h q (Node l p (Node a c b))" and d: "distinct (inorder (Node l p (Node a c b)))"
    and q: "q \<notin> Some ` set_tree (Node l p (Node a c b))" and ro: "rotated h p c h'"
  shows "rep h' q (Node (Node l p a) c b)"
proof -
  have f: "se_parent (h p) = q" "se_gt (h p) = Some c" "se_lt (h p) = root_of l" "se_lt (h c) = root_of a"
    "se_gt (h c) = root_of b" "rep h (Some c) a" "rep h (Some c) b" "rep h (Some p) l" using r by auto
  have i: "inner h p c = root_of a" using f(2,4) by (simp add: inner_def)
  have far: "links (h' x) = links (h x)" if "x \<in> set_tree b \<or> x \<in> set_tree l" for x
    by (rule rotated_far[OF ro]) (use that d q i f(1) root_of_in[of a x] in auto)
  have "rep h' (Some c) b" using rep_cong[of b h' h "Some c"] far f(7) by auto
  moreover have "rep h' (Some p) l" using rep_cong[of l h' h "Some p"] far f(8) by auto
  moreover have "rep h' (Some p) a"
  proof (rule rep_move[OF f(6)])
    fix x assume x: "x \<in> set_tree a"
    then have "x \<noteq> p" "x \<noteq> c" "q \<noteq> Some x" using d q by auto
    then show "se_lt (h' x) = se_lt (h x) \<and> se_gt (h' x) = se_gt (h x) \<and>
      se_parent (h' x) = (if root_of a = Some x then Some p else se_parent (h x))"
      using rotatedD[OF ro, of x] f(1) i by simp
  qed (use d in auto)
  moreover have "p \<noteq> c" using d by auto
  ultimately show ?thesis
    using rotatedD(3-5)[OF ro, of p] rotatedD(3-5)[OF ro, of c] f i by simp
qed

lemma root_of_rot:
  "root_of (rot c (Node l p r)) = (if root_of l = Some c \<or> root_of r = Some c then Some c else Some p)"
  by (auto split: tree.split)

text \<open>A rotation inside one of the two subtrees of \<open>e\<close>.\<close>

lemma rotated_inside:
  assumes t: "rep h (Some e) t" "distinct (inorder t)" "e \<notin> set_tree t"
    and c: "c \<in> set_tree t" "root_of t \<noteq> Some c" and p: "se_parent (h c) = Some p" and ro: "rotated h p c h'"
  shows "x \<notin> set_tree t \<Longrightarrow> x \<noteq> e \<Longrightarrow> links (h' x) = links (h x)"
    "se_parent (h' e) = se_parent (h e)"
    "se_lt (h e) = root_of t \<Longrightarrow> se_lt (h' e) = root_of (rot c t)"
    "se_gt (h e) = root_of t \<Longrightarrow> se_gt (h' e) = root_of (rot c t)"
    "se_lt (h e) \<notin> Some ` set_tree t \<Longrightarrow> se_lt (h' e) = se_lt (h e)"
    "se_gt (h e) \<notin> Some ` set_tree t \<Longrightarrow> se_gt (h' e) = se_gt (h e)"
proof -
  have "Some e \<notin> Some ` set_tree t" using t(3) by auto
  from rep_hangs[OF t(1) c t(2) this] have h: "p \<in> set_tree t" "p \<noteq> c" "child_of h p c"
    "if root_of t = Some p then se_parent (h p) = Some e else \<exists>g \<in> set_tree t. se_parent (h p) = Some g"
    "\<And>i. inner h p c = Some i \<Longrightarrow> i \<in> set_tree t" using p by (auto simp: hangs_def split: if_splits)
  have ne: "e \<noteq> p" "e \<noteq> c" "inner h p c \<noteq> Some e" using h(1,5) c t(3) by auto
  show "links (h' x) = links (h x)" if "x \<notin> set_tree t" "x \<noteq> e"
    by (rule rotated_far[OF ro]) (use that h c in \<open>auto split: if_splits\<close>)
  show "se_parent (h' e) = se_parent (h e)" using rotatedD(3)[OF ro, of e] ne by simp
  have root: "root_of (rot c t) = (if root_of t = Some p then Some c else root_of t)"
  proof (cases t)
    case (Node l y r)
    have "root_of l = Some c \<or> root_of r = Some c \<longleftrightarrow> y = p"
    proof
      assume "root_of l = Some c \<or> root_of r = Some c"
      from root_child(2)[OF t(1,2)[unfolded Node] this] p show "y = p" by simp
    next
      assume "y = p"
      then show "root_of l = Some c \<or> root_of r = Some c"
        using h(3) t(1) Node by (auto simp: child_of_def)
    qed
    then show ?thesis using root_of_rot[of c l y r] Node by auto
  qed (use c in simp)
  have ge: "root_of t \<noteq> Some p \<Longrightarrow> se_parent (h p) \<noteq> Some e" using h(4) t(3) by auto
  have gp: "root_of t = Some p \<Longrightarrow> se_parent (h p) = Some e" using h(4) by simp
  show "se_lt (h e) = root_of t \<Longrightarrow> se_lt (h' e) = root_of (rot c t)"
    using rotatedD(4)[OF ro, of e] ne root ge gp by (cases "root_of t = Some p") (simp_all add: relink_def)
  show "se_gt (h e) = root_of t \<Longrightarrow> se_gt (h' e) = root_of (rot c t)"
    using rotatedD(5)[OF ro, of e] ne root ge gp by (cases "root_of t = Some p") (simp_all add: relink_def)
  show "se_lt (h e) \<notin> Some ` set_tree t \<Longrightarrow> se_lt (h' e) = se_lt (h e)"
    using rotatedD(4)[OF ro, of e] ne h(1) by (auto simp: relink_def)
  show "se_gt (h e) \<notin> Some ` set_tree t \<Longrightarrow> se_gt (h' e) = se_gt (h e)"
    using rotatedD(5)[OF ro, of e] ne h(1) by (auto simp: relink_def)
qed

lemma rep_rotated:
  assumes "rep h q t" "distinct (inorder t)" "c \<in> set_tree t" "root_of t \<noteq> Some c" "q \<notin> Some ` set_tree t"
    and "se_parent (h c) = Some p" "rotated h p c h'"
  shows "rep h' q (rot c t)"
  using assms
proof (induction t arbitrary: q)
  case (Node l e r)
  note pr = Node.prems
  have f: "rep h (Some e) l" "rep h (Some e) r" "se_parent (h e) = q" "se_lt (h e) = root_of l" "se_gt (h e) = root_of r"
    using pr(1) by auto
  have d: "distinct (inorder l)" "distinct (inorder r)" "e \<notin> set_tree l" "e \<notin> set_tree r"
    "set_tree l \<inter> set_tree r = {}" using pr(2) by auto
  have q: "Some e \<notin> Some ` set_tree l" "Some e \<notin> Some ` set_tree r" using d by auto
  consider "root_of l = Some c" | "root_of r = Some c" | "c \<in> set_tree l" "root_of l \<noteq> Some c" "root_of r \<noteq> Some c"
    | "c \<in> set_tree r" "root_of r \<noteq> Some c" "root_of l \<noteq> Some c" using pr(3,4) by auto
  then show ?case
  proof cases
    case 1
    then obtain a b where l: "l = Node a c b" by (cases l) auto
    have "p = e" using root_child(2)[OF pr(1,2)] 1 pr(6) by simp
    then show ?thesis using rep_rotated_left[of h q a c b e r h'] pr l by simp
  next
    case 2
    then obtain a b where r: "r = Node a c b" by (cases r) auto
    have p: "p = e" using root_child(2)[OF pr(1,2)] 2 pr(6) by simp
    have "root_of l \<noteq> Some c" using r d(5) root_of_in[of l c] by auto
    then show ?thesis using rep_rotated_right[of h q l e a c b h'] pr r p by simp
  next
    case 3
    note i = rotated_inside[OF f(1) d(1,3) 3(1,2) pr(6,7)]
    have "rep h' (Some e) (rot c l)" by (rule Node.IH(1)[OF f(1) d(1) 3(1,2) q(1) pr(6,7)])
    moreover have "rep h' (Some e) r"
      using f(2) rep_cong[of r h' h "Some e"] i(1) d by (metis disjoint_iff)
    moreover have "se_gt (h e) \<notin> Some ` set_tree l" using f(5) d(5) root_of_in[of r] by auto
    moreover have "rot c r = r" by (rule rot_id) (use 3 d(5) in auto)
    ultimately show ?thesis using 3 i(2,3,6) f by simp
  next
    case 4
    note i = rotated_inside[OF f(2) d(2,4) 4(1,2) pr(6,7)]
    have "rep h' (Some e) (rot c r)" by (rule Node.IH(2)[OF f(2) d(2) 4(1,2) q(2) pr(6,7)])
    moreover have "rep h' (Some e) l"
      using f(1) rep_cong[of l h' h "Some e"] i(1) d by (metis disjoint_iff)
    moreover have "se_lt (h e) \<notin> Some ` set_tree r" using f(4) d(5) root_of_in[of l] by auto
    moreover have "rot c l = l" by (rule rot_id) (use 4 d(5) in auto)
    ultimately show ?thesis using 4 i(2,4,5) f by simp
  qed
qed simp

section \<open>The tree of a schedule\<close>

definition tree_of :: "schedule \<Rightarrow> nat tree \<Rightarrow> bool" where
  "tree_of s t \<longleftrightarrow> sc_root s = root_of t \<and> rep (sc_mem s) None t \<and> distinct (inorder t)"

lemma rotate_up_ok:
  assumes t: "tree_of s t" and c: "c \<in> set_tree t" "root_of t \<noteq> Some c"
  shows "\<exists>s' p. schedule_rotate_up s (Some c) = Some s' \<and> tree_of s' (rot c t) \<and>
    se_parent (sc_mem s c) = Some p \<and> p \<in> set_tree t \<and> p \<noteq> c \<and> child_of (sc_mem s) p c \<and>
    rotated (sc_mem s) p c (sc_mem s') \<and> earliest_wakeup s' = earliest_wakeup s \<and>
    (\<forall>x. x \<notin> set_tree t \<longrightarrow> sc_mem s' x = sc_mem s x)"
proof -
  let ?h = "sc_mem s"
  have r: "rep ?h None t" "distinct (inorder t)" "sc_root s = root_of t" using t by (auto simp: tree_of_def)
  from rep_hangs[OF r(1) c r(2)] obtain p where p: "p \<in> set_tree t" "se_parent (?h c) = Some p" "p \<noteq> c" "child_of ?h p c"
    "if root_of t = Some p then se_parent (?h p) = None
     else \<exists>g \<in> set_tree t. se_parent (?h p) = Some g \<and> g \<noteq> p \<and> g \<noteq> c \<and> child_of ?h g p"
    and i: "\<And>i. inner ?h p c = Some i \<Longrightarrow> i \<in> set_tree t \<and> i \<noteq> p \<and> i \<noteq> c \<and> se_parent (?h p) \<noteq> Some i"
    by (auto simp: hangs_def)
  have g: "case se_parent (?h p) of None \<Rightarrow> True | Some g \<Rightarrow> g \<noteq> p \<and> g \<noteq> c \<and> child_of ?h g p"
    "\<And>g. se_parent (?h p) = Some g \<Longrightarrow> g \<in> set_tree t" "se_parent (?h p) = None \<longleftrightarrow> root_of t = Some p"
    using p(5) by (auto split: if_splits)
  have "inner ?h p c \<noteq> Some p" "inner ?h p c \<noteq> Some c" "inner ?h p c \<noteq> None \<Longrightarrow> inner ?h p c \<noteq> se_parent (?h p)"
    using i by auto
  from rotate_up_links[OF p(2-4) g(1) this] obtain s' where
    s': "schedule_rotate_up s (Some c) = Some s'" "rotated ?h p c (sc_mem s')" "earliest_wakeup s' = earliest_wakeup s"
    "sc_root s' = (if se_parent (?h p) = None then Some c else sc_root s)" by auto
  have "rep (sc_mem s') None (rot c t)" by (rule rep_rotated[OF r(1,2) c _ p(2) s'(2)]) simp
  moreover have "sc_root s' = root_of (rot c t)"
  proof (cases t)
    case (Node a y b)
    have "root_of a = Some c \<or> root_of b = Some c \<longleftrightarrow> y = p"
      using root_child(2)[OF r(1,2)[unfolded Node]] p(2,4) r(1) Node by (auto simp: child_of_def)
    then show ?thesis using s'(4) r(3) g(3) root_of_rot[of c a y b] Node by auto
  qed (use c in simp)
  moreover have "sc_mem s' x = ?h x" if "x \<notin> set_tree t" for x
  proof -
    have "links (sc_mem s' x) = links (?h x)"
      by (rule rotated_far[OF s'(2)]) (use that p c i g(2) in auto)
    then show ?thesis using rotatedD(1,2)[OF s'(2), of x] by (simp add: links_def)
  qed
  ultimately have "tree_of s' (rot c t)" "\<forall>x. x \<notin> set_tree t \<longrightarrow> sc_mem s' x = ?h x" using r(2) by (auto simp: tree_of_def)
  then show ?thesis using s' p by blast
qed

end
