(* ===== verification/Schedule_Heap.thy ===== *)
theory Schedule_Heap
  imports Schedule
begin

text \<open>
  The loops of the treap: a node sinks until it is a leaf and is cut off, a new leaf is found
  by its key and rises until its priority is in heap order. Each loop is followed on the tree
  the links represent, whose inorder the rotations keep.
\<close>

section \<open>Removal\<close>

fun sub :: "nat \<Rightarrow> nat tree \<Rightarrow> nat tree" where
  "sub e Leaf = Leaf"
| "sub e (Node l x r) = (if x = e then Node l x r else if e \<in> set_tree l then sub e l else sub e r)"

lemma sub_links:
  assumes "rep h q t" "e \<in> set_tree t"
  shows "\<exists>a b. sub e t = Node a e b \<and> se_lt (h e) = root_of a \<and> se_gt (h e) = root_of b \<and>
    set_tree a \<subseteq> set_tree t \<and> set_tree b \<subseteq> set_tree t"
  using assms by (induction t arbitrary: q) (auto; blast)+

lemma set_sub: "set_tree (sub e t) \<subseteq> set_tree t"
  by (induction t) auto

lemma sub_below:
  assumes "distinct (inorder t)" "e \<in> set_tree t" "c \<in> set_tree (sub e t)" "root_of t = Some c"
  shows "c = e"
proof (cases t)
  case (Node l x r)
  show ?thesis
  proof (rule ccontr)
    assume "c \<noteq> e"
    then have "c \<in> set_tree l \<or> c \<in> set_tree r" using Node assms(3,4) set_sub[of e l] set_sub[of e r] by (auto split: if_splits)
    then show False using Node assms(1,4) by auto
  qed
qed (use assms in simp)

lemma sub_rot:
  assumes "distinct (inorder t)" "sub e t = Node a e b" "root_of a = Some c \<or> root_of b = Some c"
  shows "size (sub e (rot c t)) < size (sub e t)"
  using assms
proof (induction t)
  case (Node l x r)
  have d: "distinct (inorder l)" "distinct (inorder r)" "x \<notin> set_tree l" "x \<notin> set_tree r"
    "set_tree l \<inter> set_tree r = {}" using Node.prems(1) by auto
  show ?case
  proof (cases "x = e")
    case True
    then have ab: "a = l" "b = r" using Node.prems(2) by auto
    show ?thesis
    proof (cases "root_of l = Some c")
      case t: True
      then obtain u v where "l = Node u c v" by (cases l) auto
      then show ?thesis using True t d by auto
    next
      case False
      then have rc: "root_of r = Some c" using Node.prems(3) ab by simp
      then obtain u v where "r = Node u c v" by (cases r) auto
      then show ?thesis using True False rc d by auto
    qed
  next
    case xe: False
    have c: "c \<in> set_tree (sub e (Node l x r))" using Node.prems(2,3) root_of_in[of a c] root_of_in[of b c] by auto
    have "distinct (inorder a @ e # inorder b)"
    proof -
      have "distinct (inorder (sub e t))" if "distinct (inorder t)" for t using that by (induction t) auto
      from this[OF Node.prems(1)] show ?thesis using Node.prems(2) by (simp del: sub.simps)
    qed
    then have ce: "c \<noteq> e" using Node.prems(3) root_of_in[of a c] root_of_in[of b c] by auto
    show ?thesis
    proof (cases "e \<in> set_tree l")
      case True
      then have cl: "c \<in> set_tree (sub e l)" using c xe by simp
      then have "c \<in> set_tree l" using set_sub[of e l] by blast
      then have "root_of r \<noteq> Some c" "c \<notin> set_tree r" using d(5) root_of_in[of r c] by auto
      moreover have "root_of l \<noteq> Some c" using sub_below[OF d(1) True cl] ce by blast
      moreover have "sub e l = Node a e b" using Node.prems(2) xe True by simp
      ultimately show ?thesis using Node.IH(1)[OF d(1) _ Node.prems(3)] xe True by simp
    next
      case False
      then have cr: "c \<in> set_tree (sub e r)" and sr: "sub e r = Node a e b" using c xe Node.prems(2) by auto
      then have er: "e \<in> set_tree r" using set_sub[of e r] by auto
      have "c \<in> set_tree r" using cr set_sub[of e r] by blast
      then have "root_of l \<noteq> Some c" "c \<notin> set_tree l" using d(5) root_of_in[of l c] by auto
      moreover have "root_of r \<noteq> Some c" using sub_below[OF d(2) er cr] ce by blast
      ultimately show ?thesis using Node.IH(2)[OF d(2) sr Node.prems(3)] xe False by (simp add: rot_id)
    qed
  qed
qed simp

text \<open>
  The heap order, stated over the links upwards, except around one node on its way through the tree.
\<close>

definition pri_of :: "schedule \<Rightarrow> nat \<Rightarrow> u32" where "pri_of s x = se_pri (sc_mem s x)"

definition heap_around :: "schedule \<Rightarrow> nat tree \<Rightarrow> nat \<Rightarrow> bool" where
  "heap_around s t e \<longleftrightarrow>
     (\<forall>x \<in> set_tree t. \<forall>y. se_parent (sc_mem s x) = Some y \<and> x \<noteq> e \<and> y \<noteq> e \<longrightarrow> pri_of s y \<le> pri_of s x) \<and>
     (\<forall>x \<in> set_tree t. \<forall>y. se_parent (sc_mem s x) = Some e \<and> se_parent (sc_mem s e) = Some y \<longrightarrow> pri_of s y \<le> pri_of s x)"

definition same_keys :: "schedule \<Rightarrow> schedule \<Rightarrow> bool" where
  "same_keys s s' \<longleftrightarrow> (\<forall>x. se_tv (sc_mem s' x) = se_tv (sc_mem s x) \<and> pri_of s' x = pri_of s x)"

lemma rotated_keys: "rotated (sc_mem s) p c (sc_mem s') \<Longrightarrow> same_keys s s'"
  using rotatedD(1,2) by (auto simp: same_keys_def pri_of_def)

lemma same_keys_refl [simp]: "same_keys s s" by (simp add: same_keys_def)
lemma same_keys_trans: "same_keys s s' \<Longrightarrow> same_keys s' s'' \<Longrightarrow> same_keys s s''" by (simp add: same_keys_def)

text \<open>The children of a node.\<close>

lemma parent_link:
  assumes t: "tree_of s t" and x: "x \<in> set_tree t" "se_parent (sc_mem s x) = Some e"
  shows "child_of (sc_mem s) e x" "e \<in> set_tree t" "e \<noteq> x" "root_of t \<noteq> Some x"
proof -
  have r: "rep (sc_mem s) None t" "distinct (inorder t)" using t by (auto simp: tree_of_def)
  show n: "root_of t \<noteq> Some x" using r(1) x by (cases t) auto
  from rep_hangs[OF r(1) x(1) n r(2)] x(2) show "child_of (sc_mem s) e x" "e \<in> set_tree t" "e \<noteq> x"
    by (auto simp: hangs_def)
qed

lemma child_link:
  assumes t: "tree_of s t" and e: "e \<in> set_tree t" and x: "se_lt (sc_mem s e) = Some x \<or> se_gt (sc_mem s e) = Some x"
  shows "x \<in> set_tree t" "se_parent (sc_mem s x) = Some e"
proof -
  have "rep h q t \<Longrightarrow> e \<in> set_tree t \<Longrightarrow> se_lt (h e) = Some x \<or> se_gt (h e) = Some x \<Longrightarrow>
    x \<in> set_tree t \<and> se_parent (h x) = Some e" for h q t
  proof (induction t arbitrary: q)
    case (Node l y r)
    show ?case
    proof (cases "y = e")
      case True
      then show ?thesis using Node.prems by (cases l; cases r) auto
    next
      case False
      then show ?thesis using Node by auto
    qed
  qed simp
  then show "x \<in> set_tree t" "se_parent (sc_mem s x) = Some e" using t e x by (auto simp: tree_of_def)
qed

lemma lesser_child_ok:
  assumes t: "tree_of s t" and e: "e \<in> set_tree t"
    and n: "se_lt (sc_mem s e) \<noteq> None \<or> se_gt (sc_mem s e) \<noteq> None"
  shows "\<exists>c. lesser_child s e = Some c \<and> (se_lt (sc_mem s e) = Some c \<or> se_gt (sc_mem s e) = Some c) \<and>
    (\<forall>x \<in> set_tree t. se_parent (sc_mem s x) = Some e \<longrightarrow> pri_of s c \<le> pri_of s x)"
proof -
  have ch: "se_lt (sc_mem s e) = Some x \<or> se_gt (sc_mem s e) = Some x"
    if "x \<in> set_tree t" "se_parent (sc_mem s x) = Some e" for x
    using parent_link(1)[OF t that] by (auto simp: child_of_def)
  show ?thesis using n ch
    by (cases "se_lt (sc_mem s e)"; cases "se_gt (sc_mem s e)")
      (auto simp: lesser_child_def pri_of_def; fastforce)+
qed

lemma sink_step:
  assumes t: "tree_of s t" and e: "e \<in> set_tree t" and h: "heap_around s t e"
    and n: "se_lt (sc_mem s e) \<noteq> None \<or> se_gt (sc_mem s e) \<noteq> None"
  shows "\<exists>c s'. schedule_rotate_up s (lesser_child s e) = Some s' \<and> tree_of s' (rot c t) \<and>
    size (sub e (rot c t)) < size (sub e t) \<and> heap_around s' (rot c t) e \<and> same_keys s s' \<and>
    earliest_wakeup s' = earliest_wakeup s \<and> (\<forall>x. x \<notin> set_tree t \<longrightarrow> sc_mem s' x = sc_mem s x)"
proof -
  from lesser_child_ok[OF t e n] obtain c where c: "lesser_child s e = Some c"
    "se_lt (sc_mem s e) = Some c \<or> se_gt (sc_mem s e) = Some c"
    "\<forall>x \<in> set_tree t. se_parent (sc_mem s x) = Some e \<longrightarrow> pri_of s c \<le> pri_of s x" by blast
  note cl = child_link[OF t e c(2)]
  note pl = parent_link(3,4)[OF t cl]
  from rotate_up_ok[OF t cl(1) pl(2)] cl(2) obtain s' where
    s': "schedule_rotate_up s (Some c) = Some s'" "tree_of s' (rot c t)" "rotated (sc_mem s) e c (sc_mem s')"
    "earliest_wakeup s' = earliest_wakeup s" "\<forall>x. x \<notin> set_tree t \<longrightarrow> sc_mem s' x = sc_mem s x" by auto
  have d: "distinct (inorder t)" "rep (sc_mem s) None t" using t by (auto simp: tree_of_def)
  obtain a b where ab: "sub e t = Node a e b" "se_lt (sc_mem s e) = root_of a" "se_gt (sc_mem s e) = root_of b"
    using sub_links[OF d(2) e] by blast
  have sz: "size (sub e (rot c t)) < size (sub e t)" by (rule sub_rot[OF d(1) ab(1)]) (use c(2) ab in auto)
  note k = rotated_keys[OF s'(3)]
  have pr: "pri_of s' x = pri_of s x" for x using k by (simp add: same_keys_def)
  note pa = rotatedD(3)[OF s'(3)]
  have inn: "se_parent (sc_mem s i) = Some c \<and> i \<in> set_tree t \<and> i \<noteq> c \<and> i \<noteq> e"
    if "inner (sc_mem s) e c = Some i" for i
  proof -
    have "se_lt (sc_mem s c) = Some i \<or> se_gt (sc_mem s c) = Some i" using that by (auto simp: inner_def split: if_splits)
    from child_link[OF t cl(1) this] parent_link(3)[OF t child_link[OF t cl(1) this]]
    show ?thesis using rep_hangs[OF d(2) cl(1) pl(2) d(1)] that cl(2) by (auto simp: hangs_def)
  qed
  have h1: "\<And>x y. x \<in> set_tree t \<Longrightarrow> se_parent (sc_mem s x) = Some y \<Longrightarrow> x \<noteq> e \<Longrightarrow> y \<noteq> e \<Longrightarrow> pri_of s y \<le> pri_of s x"
    and h2: "\<And>x y. x \<in> set_tree t \<Longrightarrow> se_parent (sc_mem s x) = Some e \<Longrightarrow> se_parent (sc_mem s e) = Some y \<Longrightarrow> pri_of s y \<le> pri_of s x"
    using h by (auto simp: heap_around_def)
  have "heap_around s' (rot c t) e"
    unfolding heap_around_def set_rot pr
  proof (intro conjI ballI allI impI)
    fix x y assume x: "x \<in> set_tree t" and y: "se_parent (sc_mem s' x) = Some y \<and> x \<noteq> e \<and> y \<noteq> e"
    show "pri_of s y \<le> pri_of s x"
    proof (cases "x = c")
      case True
      then show ?thesis using h2[OF cl] y pa[of c] by simp
    next
      case False
      then show ?thesis using h1[OF x] y pa[of x] by (auto split: if_splits)
    qed
  next
    fix x y assume x: "x \<in> set_tree t" and y: "se_parent (sc_mem s' x) = Some e \<and> se_parent (sc_mem s' e) = Some y"
    have yc: "y = c" using y pa[of e] pl(1) by simp
    show "pri_of s y \<le> pri_of s x"
    proof (cases "inner (sc_mem s) e c = Some x")
      case True
      then show ?thesis using inn[OF True] h1[OF x] yc pl(1) by auto
    next
      case False
      have "x \<noteq> c"
      proof
        assume "x = c"
        then have "se_parent (sc_mem s e) = Some e" using y pa[of c] by simp
        then show False using parent_link(3)[OF t e] by blast
      qed
      then have "se_parent (sc_mem s x) = Some e" using False y pa[of x] pl(1) by (auto split: if_splits)
      then show ?thesis using c(3) x yc by blast
    qed
  qed
  then show ?thesis using s' c(1) sz k by auto
qed

lemma sink_ok:
  assumes "tree_of s t" "e \<in> set_tree t" "heap_around s t e"
  shows "\<exists>s' t'. sink_node s e = Some s' \<and> tree_of s' t' \<and> inorder t' = inorder t \<and> heap_around s' t' e \<and>
    same_keys s s' \<and> earliest_wakeup s' = earliest_wakeup s \<and> se_lt (sc_mem s' e) = None \<and> se_gt (sc_mem s' e) = None \<and>
    (\<forall>x. x \<notin> set_tree t \<longrightarrow> sc_mem s' x = sc_mem s x)"
  using assms
proof (induction "size (sub e t)" arbitrary: s t rule: less_induct)
  case less
  show ?case
  proof (cases "se_lt (sc_mem s e) \<noteq> None \<or> se_gt (sc_mem s e) \<noteq> None")
    case False
    then have "sink_node s e = Some s" by (subst sink_node.simps) simp
    then show ?thesis using less.prems False by auto
  next
    case True
    from sink_step[OF less.prems True] obtain c s1 where
      1: "schedule_rotate_up s (lesser_child s e) = Some s1" "tree_of s1 (rot c t)"
      "size (sub e (rot c t)) < size (sub e t)" "heap_around s1 (rot c t) e" "same_keys s s1"
      "earliest_wakeup s1 = earliest_wakeup s" "\<forall>x. x \<notin> set_tree t \<longrightarrow> sc_mem s1 x = sc_mem s x" by blast
    from less.hyps[OF 1(3,2) _ 1(4)] less.prems(2) obtain s' t' where
      2: "sink_node s1 e = Some s'" "tree_of s' t'" "inorder t' = inorder t" "heap_around s' t' e" "same_keys s1 s'"
      "earliest_wakeup s' = earliest_wakeup s1" "se_lt (sc_mem s' e) = None" "se_gt (sc_mem s' e) = None"
      "\<forall>x. x \<notin> set_tree t \<longrightarrow> sc_mem s' x = sc_mem s1 x" by auto
    have "sink_node s e = Some s'" using True 1(1) 2(1) by (subst sink_node.simps) simp
    then show ?thesis using 2 1(5-7) same_keys_trans[OF 1(5) 2(5)] by auto
  qed
qed

text \<open>The leaf is cut off.\<close>

fun cut :: "nat \<Rightarrow> nat tree \<Rightarrow> nat tree" where
  "cut e Leaf = Leaf"
| "cut e (Node l x r) = (if x = e then Leaf else Node (cut e l) x (cut e r))"

lemma cut_inorder:
  "rep h q t \<Longrightarrow> distinct (inorder t) \<Longrightarrow> se_lt (h e) = None \<Longrightarrow> se_gt (h e) = None \<Longrightarrow>
   inorder (cut e t) = filter (\<lambda>x. x \<noteq> e) (inorder t)"
proof (induction t arbitrary: q)
  case (Node l x r)
  show ?case
  proof (cases "x = e")
    case True
    then have "l = Leaf" "r = Leaf" using Node.prems by (cases l; cases r; simp)+
    then show ?thesis using True by simp
  qed (use Node in auto)
qed simp

lemma root_cut: "root_of (cut e t) = (if root_of t = Some e then None else root_of t)"
  by (cases t) auto

lemma cut_id: "e \<notin> set_tree t \<Longrightarrow> cut e t = t"
  by (induction t) auto

lemma set_cut: "set_tree (cut e t) \<subseteq> set_tree t - {e}"
  by (induction t) auto

lemma rep_cut:
  assumes "rep h q t" "distinct (inorder t)"
    and "\<And>x. x \<in> set_tree t \<Longrightarrow> x \<noteq> e \<Longrightarrow> se_parent (h' x) = se_parent (h x) \<and>
      se_lt (h' x) = (if se_lt (h x) = Some e then None else se_lt (h x)) \<and>
      se_gt (h' x) = (if se_gt (h x) = Some e then None else se_gt (h x))"
  shows "rep h' q (cut e t)"
  using assms
proof (induction t arbitrary: q)
  case (Node l x r)
  show ?case
  proof (cases "x = e")
    case False
    have "rep h' (Some x) (cut e l)" "rep h' (Some x) (cut e r)"
      using Node by auto
    then show ?thesis using False Node.prems(1) Node.prems(3)[of x] by (auto simp: root_cut)
  qed simp
qed simp

definition unlinked :: "schedule \<Rightarrow> nat \<Rightarrow> bool" where
  "unlinked s x \<longleftrightarrow> se_parent (sc_mem s x) = None \<and> se_lt (sc_mem s x) = None \<and> se_gt (sc_mem s x) = None"

definition heap_ord :: "schedule \<Rightarrow> nat tree \<Rightarrow> bool" where
  "heap_ord s t \<longleftrightarrow> (\<forall>x \<in> set_tree t. \<forall>y. se_parent (sc_mem s x) = Some y \<longrightarrow> pri_of s y \<le> pri_of s x)"

lemma detach_ok:
  assumes t: "tree_of s t" and e: "e \<in> set_tree t" and lf: "se_lt (sc_mem s e) = None" "se_gt (sc_mem s e) = None"
  shows "\<exists>s'. schedule_detach_parent s (Some e) = Some s' \<and> tree_of s' (cut e t) \<and> unlinked s' e \<and> same_keys s s' \<and>
    earliest_wakeup s' = earliest_wakeup s \<and> (\<forall>x. x \<noteq> e \<longrightarrow> se_parent (sc_mem s' x) = se_parent (sc_mem s x)) \<and>
    (\<forall>x. x \<notin> set_tree t \<longrightarrow> sc_mem s' x = sc_mem s x)"
proof -
  have r: "rep (sc_mem s) None t" "distinct (inorder t)" "sc_root s = root_of t" using t by (auto simp: tree_of_def)
  have io: "inorder (cut e t) = filter (\<lambda>x. x \<noteq> e) (inorder t)" by (rule cut_inorder[OF r(1,2) lf])
  show ?thesis
  proof (cases "root_of t = Some e")
    case True
    then have "cut e t = Leaf" "se_parent (sc_mem s e) = None" using r(1) by (cases t; simp)+
    then show ?thesis using True r(3) lf
      by (auto simp: schedule_detach_parent_def tree_of_def unlinked_def same_keys_def pri_of_def)
  next
    case False
    from rep_hangs[OF r(1) e False r(2)] obtain p where
      p: "p \<in> set_tree t" "se_parent (sc_mem s e) = Some p" "p \<noteq> e" "child_of (sc_mem s) p e" by (auto simp: hangs_def)
    define side where "side = (se_lt (sc_mem s p) = Some e)"
    define s' where "s' = upd (upd s p (\<lambda>x. if side then x\<lparr>se_lt := None\<rparr> else x\<lparr>se_gt := None\<rparr>)) e (\<lambda>x. x\<lparr>se_parent := None\<rparr>)"
    have ex: "schedule_detach_parent s (Some e) = Some s'"
      using p(2,4) by (auto simp: schedule_detach_parent_def s'_def side_def child_of_def)
    have up: "x = p" if "x \<in> set_tree t" "se_lt (sc_mem s x) = Some e \<or> se_gt (sc_mem s x) = Some e" for x
      using child_link(2)[OF t that] p(2) by simp
    have "rep (sc_mem s') None (cut e t)"
    proof (rule rep_cut[OF r(1,2)])
      fix x assume x: "x \<in> set_tree t" "x \<noteq> e"
      show "se_parent (sc_mem s' x) = se_parent (sc_mem s x) \<and>
        se_lt (sc_mem s' x) = (if se_lt (sc_mem s x) = Some e then None else se_lt (sc_mem s x)) \<and>
        se_gt (sc_mem s' x) = (if se_gt (sc_mem s x) = Some e then None else se_gt (sc_mem s x))"
      proof (cases "x = p")
        case True
        then show ?thesis using p(3,4) by (cases side) (simp_all add: s'_def upd_def side_def child_of_def)
      next
        case False
        then have "se_lt (sc_mem s x) \<noteq> Some e" "se_gt (sc_mem s x) \<noteq> Some e" using up[OF x(1)] by blast+
        then show ?thesis using x(2) False by (simp add: s'_def upd_def)
      qed
    qed
    moreover have "sc_root s' = root_of (cut e t)" using r(3) False by (simp add: s'_def upd_def root_cut)
    moreover have "distinct (inorder (cut e t))" using io r(2) by simp
    moreover have "unlinked s' e" using lf p(3) by (simp add: s'_def upd_def unlinked_def)
    moreover have "same_keys s s'" by (simp add: same_keys_def pri_of_def s'_def upd_def)
    moreover have "\<forall>x. x \<noteq> e \<longrightarrow> se_parent (sc_mem s' x) = se_parent (sc_mem s x)" by (simp add: s'_def upd_def)
    moreover have "\<forall>x. x \<notin> set_tree t \<longrightarrow> sc_mem s' x = sc_mem s x" using p(1) e by (auto simp: s'_def upd_def)
    ultimately show ?thesis using ex by (auto simp: tree_of_def s'_def upd_def)
  qed
qed

lemma remove_node_ok:
  assumes t: "tree_of s t" and e: "e \<in> set_tree t" and h: "heap_ord s t"
  shows "\<exists>s' t'. schedule_remove_node s e = Some s' \<and> tree_of s' t' \<and>
    inorder t' = filter (\<lambda>x. x \<noteq> e) (inorder t) \<and> heap_ord s' t' \<and> unlinked s' e \<and> pri_of s' e = 0 \<and>
    (\<forall>x. se_tv (sc_mem s' x) = se_tv (sc_mem s x)) \<and> (\<forall>x. x \<noteq> e \<longrightarrow> pri_of s' x = pri_of s x) \<and>
    earliest_wakeup s' = earliest_wakeup s \<and> (\<forall>x. x \<notin> set_tree t \<longrightarrow> sc_mem s' x = sc_mem s x)"
proof -
  have "pri_of s y \<le> pri_of s x" if "x \<in> set_tree t" "se_parent (sc_mem s x) = Some e" "se_parent (sc_mem s e) = Some y" for x y
  proof -
    have "pri_of s e \<le> pri_of s x" "pri_of s y \<le> pri_of s e" using h e that by (auto simp: heap_ord_def)
    then show ?thesis by simp
  qed
  then have "heap_around s t e" using h by (auto simp: heap_around_def heap_ord_def)
  from sink_ok[OF t e this] obtain s1 t1 where
    1: "sink_node s e = Some s1" "tree_of s1 t1" "inorder t1 = inorder t" "heap_around s1 t1 e" "same_keys s s1"
    "earliest_wakeup s1 = earliest_wakeup s" "se_lt (sc_mem s1 e) = None" "se_gt (sc_mem s1 e) = None"
    "\<forall>x. x \<notin> set_tree t \<longrightarrow> sc_mem s1 x = sc_mem s x" by blast
  have st: "set_tree t1 = set_tree t" using 1(3) by (metis set_inorder)
  from detach_ok[OF 1(2) _ 1(7,8)] e st obtain s2 where
    2: "schedule_detach_parent s1 (Some e) = Some s2" "tree_of s2 (cut e t1)" "unlinked s2 e" "same_keys s1 s2"
    "earliest_wakeup s2 = earliest_wakeup s1" "\<forall>x. x \<noteq> e \<longrightarrow> se_parent (sc_mem s2 x) = se_parent (sc_mem s1 x)"
    "\<forall>x. x \<notin> set_tree t \<longrightarrow> sc_mem s2 x = sc_mem s1 x" by auto
  define s3 where "s3 = upd s2 e (\<lambda>x. x\<lparr>se_pri := 0\<rparr>)"
  have "schedule_remove_node s e = Some s3" using 1(1) 2(1) by (simp add: schedule_remove_node_def s3_def)
  moreover have ct: "set_tree (cut e t1) \<subseteq> set_tree t1 - {e}" by (rule set_cut)
  moreover have "tree_of s3 (cut e t1)"
  proof -
    have "rep (sc_mem s3) None (cut e t1) = rep (sc_mem s2) None (cut e t1)"
      by (rule rep_cong) (use ct in \<open>auto simp: s3_def upd_def links_def\<close>)
    then show ?thesis using 2(2) by (simp add: tree_of_def s3_def upd_def)
  qed
  moreover have "inorder (cut e t1) = filter (\<lambda>x. x \<noteq> e) (inorder t)"
    using cut_inorder[of "sc_mem s1" None t1 e] 1(2,3,7,8) by (simp add: tree_of_def)
  moreover have "pri_of s3 x = (if x = e then 0 else pri_of s x)" for x
    using 1(5) 2(4) by (simp add: same_keys_def pri_of_def s3_def upd_def)
  moreover have "heap_ord s3 (cut e t1)"
    unfolding heap_ord_def
  proof (intro ballI allI impI)
    fix x y assume x: "x \<in> set_tree (cut e t1)" and y: "se_parent (sc_mem s3 x) = Some y"
    have xe: "x \<in> set_tree t1" "x \<noteq> e" using x ct by auto
    have p: "se_parent (sc_mem s1 x) = Some y" using y 2(6) xe by (simp add: s3_def upd_def)
    have "y \<noteq> e" using parent_link(1)[OF 1(2) xe(1) p] 1(7,8) by (auto simp: child_of_def)
    then show "pri_of s3 y \<le> pri_of s3 x"
      using 1(4) p xe 2(4) by (simp add: heap_around_def same_keys_def s3_def upd_def pri_of_def)
  qed
  moreover have "unlinked s3 e" using 2(3) by (simp add: unlinked_def s3_def upd_def)
  moreover have "se_tv (sc_mem s3 x) = se_tv (sc_mem s x)" for x
    using 1(5) 2(4) by (simp add: same_keys_def s3_def upd_def)
  moreover have "sc_mem s3 x = sc_mem s x" if "x \<notin> set_tree t" for x
    using 1(9) 2(7) that e by (auto simp: s3_def upd_def)
  moreover have "earliest_wakeup s3 = earliest_wakeup s" using 1(6) 2(5) by (simp add: s3_def upd_def)
  ultimately show ?thesis by (intro exI[of _ s3] exI[of _ "cut e t1"]) simp
qed

section \<open>Insertion\<close>

text \<open>The place of a new leaf, given which nodes it goes to the left of.\<close>

fun graft :: "(nat \<Rightarrow> bool) \<Rightarrow> nat \<Rightarrow> nat tree \<Rightarrow> nat tree" where
  "graft go e Leaf = Node Leaf e Leaf"
| "graft go e (Node l x r) = (if go x then Node (graft go e l) x r else Node l x (graft go e r))"

lemma set_graft [simp]: "set_tree (graft go e t) = insert e (set_tree t)"
  by (induction t) auto

lemma root_graft: "root_of (graft go e t) = (if t = Leaf then Some e else root_of t)"
  by (cases t) auto

definition before :: "schedule \<Rightarrow> nat \<Rightarrow> nat \<Rightarrow> bool" where
  "before s x y \<longleftrightarrow> schedule_entry_compare (sc_mem s x) (sc_mem s y) = - 1"

text \<open>The keys are compared lexicographically.\<close>

lemma compare_cases:
  "schedule_entry_compare a b = - 1 \<longleftrightarrow>
     tv_sec (se_tv a) < tv_sec (se_tv b) \<or> (tv_sec (se_tv a) = tv_sec (se_tv b) \<and>
       (tv_usec (se_tv a) < tv_usec (se_tv b) \<or> (tv_usec (se_tv a) = tv_usec (se_tv b) \<and> se_pri a < se_pri b)))"
  "schedule_entry_compare a b = 1 \<longleftrightarrow> schedule_entry_compare b a = - 1"
  "schedule_entry_compare a b \<noteq> - 1 \<Longrightarrow> schedule_entry_compare a b \<noteq> 1 \<Longrightarrow>
     schedule_entry_compare a b = 0 \<and> se_tv a = se_tv b \<and> se_pri a = se_pri b"
  by (auto simp: schedule_entry_compare_def timeval.expand split: if_splits)

lemma before_trans: "before s x y \<Longrightarrow> before s y z \<Longrightarrow> before s x z"
  by (auto simp: before_def compare_cases(1))

lemma before_irrefl [simp]: "\<not> before s x x"
  by (simp add: before_def compare_cases(1))

definition sorted_by :: "schedule \<Rightarrow> nat list \<Rightarrow> bool" where
  "sorted_by s xs \<longleftrightarrow> sorted_wrt (before s) xs"

definition path_free :: "schedule \<Rightarrow> nat \<Rightarrow> nat tree \<Rightarrow> bool" where
  "path_free s e t \<longleftrightarrow> (\<forall>x \<in> set_tree t. before s e x \<or> before s x e)"

lemma graft_sorted:
  assumes "sorted_by s (inorder t)" "path_free s e t"
  shows "sorted_by s (inorder (graft (before s e) e t))"
  using assms
proof (induction t)
  case (Node l x r)
  have o: "sorted_by s (inorder l)" "sorted_by s (inorder r)" "\<forall>y \<in> set_tree l. before s y x"
    "\<forall>y \<in> set_tree r. before s x y" "\<forall>y \<in> set_tree l. \<forall>z \<in> set_tree r. before s y z"
    using Node.prems(1) by (auto simp: sorted_by_def sorted_wrt_append)
  have p: "path_free s e l" "path_free s e r" using Node.prems(2) by (auto simp: path_free_def)
  show ?case
  proof (cases "before s e x")
    case True
    have "\<forall>z \<in> set_tree r. before s e z" using True o(4) before_trans by blast
    then show ?thesis using Node.IH(1)[OF o(1) p(1)] True o by (auto simp: sorted_by_def sorted_wrt_append)
  next
    case False
    then have xe: "before s x e" using Node.prems(2) by (auto simp: path_free_def)
    then have "\<forall>z \<in> set_tree l. before s z e" using o(3) before_trans by blast
    then show ?thesis using Node.IH(2)[OF o(2) p(2)] False xe o by (auto simp: sorted_by_def sorted_wrt_append)
  qed
qed (simp add: sorted_by_def)

lemma insert_free:
  assumes "rep (sc_mem s) q u" "distinct (inorder u)" "u \<noteq> Leaf" "e \<notin> set_tree u" "unlinked s e" "path_free s e u"
  shows "\<exists>s' p. insert_at s e (root_of u) rnd = Some (s', rnd) \<and>
    rep (sc_mem s') q (graft (before s e) e u) \<and> p \<in> set_tree u \<and>
    s' = s\<lparr>sc_mem := sc_mem s'\<rparr> \<and> same_keys s s' \<and>
    (\<forall>x. x \<noteq> e \<longrightarrow> se_parent (sc_mem s' x) = se_parent (sc_mem s x)) \<and>
    (\<forall>x. x \<noteq> e \<and> x \<noteq> p \<longrightarrow> sc_mem s' x = sc_mem s x) \<and>
    se_parent (sc_mem s' e) = Some p \<and> se_lt (sc_mem s' e) = None \<and> se_gt (sc_mem s' e) = None"
  using assms
proof (induction u arbitrary: q)
  case (Node l x r)
  have rr: "rep (sc_mem s) (Some x) l" "rep (sc_mem s) (Some x) r" "se_lt (sc_mem s x) = root_of l"
    "se_gt (sc_mem s x) = root_of r" "se_parent (sc_mem s x) = q" using Node.prems(1) by auto
  have d: "distinct (inorder l)" "distinct (inorder r)" "x \<notin> set_tree l" "x \<notin> set_tree r"
    "set_tree l \<inter> set_tree r = {}" "e \<notin> set_tree l" "e \<notin> set_tree r" "e \<noteq> x" using Node.prems(2,4) by auto
  have pf: "path_free s e l" "path_free s e r" "before s e x \<or> before s x e" using Node.prems(6) by (auto simp: path_free_def)
  have lf: "rep h' (Some x) t" if "rep (sc_mem s) (Some x) t" "\<forall>y \<in> set_tree t. h' y = sc_mem s y" for h' t
    using rep_cong[of t h' "sc_mem s" "Some x"] that by simp
  show ?case
  proof (cases "before s e x")
    case go: True
    then have cmp: "schedule_entry_compare (sc_mem s e) (sc_mem s x) = - 1" by (simp add: before_def)
    show ?thesis
    proof (cases "l = Leaf")
      case True
      define s' where "s' = upd (upd s x (\<lambda>y. y\<lparr>se_lt := Some e\<rparr>)) e (\<lambda>y. y\<lparr>se_parent := Some x\<rparr>)"
      have m: "sc_mem s' e = (sc_mem s e)\<lparr>se_parent := Some x\<rparr>" "sc_mem s' x = (sc_mem s x)\<lparr>se_lt := Some e\<rparr>"
        "y \<noteq> e \<Longrightarrow> y \<noteq> x \<Longrightarrow> sc_mem s' y = sc_mem s y" for y
        using d(8) by (simp_all add: s'_def upd_def)
      have k: "same_keys s s'" "\<forall>y. y \<noteq> e \<longrightarrow> se_parent (sc_mem s' y) = se_parent (sc_mem s y)"
        by (simp_all add: same_keys_def pri_of_def s'_def upd_def)
      have sm: "s' = s\<lparr>sc_mem := sc_mem s'\<rparr>" by (simp add: s'_def upd_def)
      have "insert_at s e (Some x) rnd = Some (s', rnd)"
        using cmp True rr(3) by (subst insert_at.simps) (simp add: s'_def)
      moreover have "rep (sc_mem s') (Some x) r" by (rule lf[OF rr(2)]) (use d in \<open>auto intro!: m(3)\<close>)
      ultimately show ?thesis using True go rr d(8) Node.prems(5)
        by (intro exI[of _ s'] exI[of _ x]) (simp add: m(1,2) m(3) k sm[symmetric] unlinked_def)
    next
      case False
      from Node.IH(1)[OF rr(1) d(1) False d(6) Node.prems(5) pf(1)] obtain s' p where i:
        "insert_at s e (root_of l) rnd = Some (s', rnd)" "rep (sc_mem s') (Some x) (graft (before s e) e l)"
        "p \<in> set_tree l" "s' = s\<lparr>sc_mem := sc_mem s'\<rparr>" "same_keys s s'"
        "\<forall>y. y \<noteq> e \<longrightarrow> se_parent (sc_mem s' y) = se_parent (sc_mem s y)"
        "\<forall>y. y \<noteq> e \<and> y \<noteq> p \<longrightarrow> sc_mem s' y = sc_mem s y" "se_parent (sc_mem s' e) = Some p"
        "se_lt (sc_mem s' e) = None" "se_gt (sc_mem s' e) = None" by blast
      have "root_of l \<noteq> None" using False by (cases l) auto
      then have "insert_at s e (Some x) rnd = Some (s', rnd)"
        using cmp rr(3) i(1) by (subst insert_at.simps) simp
      moreover have "rep (sc_mem s') (Some x) r" by (rule lf[OF rr(2)]) (use i(3,7) d in auto)
      moreover have "sc_mem s' x = sc_mem s x" using i(3,7) d by auto
      ultimately show ?thesis using i go rr False by (intro exI[of _ s'] exI[of _ p]) (auto simp: root_graft)
    qed
  next
    case ngo: False
    then have "before s x e" using pf(3) by blast
    then have cmp: "schedule_entry_compare (sc_mem s e) (sc_mem s x) = 1" by (simp add: before_def compare_cases(2))
    show ?thesis
    proof (cases "r = Leaf")
      case True
      define s' where "s' = upd (upd s x (\<lambda>y. y\<lparr>se_gt := Some e\<rparr>)) e (\<lambda>y. y\<lparr>se_parent := Some x\<rparr>)"
      have m: "sc_mem s' e = (sc_mem s e)\<lparr>se_parent := Some x\<rparr>" "sc_mem s' x = (sc_mem s x)\<lparr>se_gt := Some e\<rparr>"
        "y \<noteq> e \<Longrightarrow> y \<noteq> x \<Longrightarrow> sc_mem s' y = sc_mem s y" for y
        using d(8) by (simp_all add: s'_def upd_def)
      have k: "same_keys s s'" "\<forall>y. y \<noteq> e \<longrightarrow> se_parent (sc_mem s' y) = se_parent (sc_mem s y)"
        by (simp_all add: same_keys_def pri_of_def s'_def upd_def)
      have sm: "s' = s\<lparr>sc_mem := sc_mem s'\<rparr>" by (simp add: s'_def upd_def)
      have "insert_at s e (Some x) rnd = Some (s', rnd)"
        using cmp True rr(4) by (subst insert_at.simps) (simp add: s'_def)
      moreover have "rep (sc_mem s') (Some x) l" by (rule lf[OF rr(1)]) (use d in \<open>auto intro!: m(3)\<close>)
      ultimately show ?thesis using True ngo rr d(8) Node.prems(5)
        by (intro exI[of _ s'] exI[of _ x]) (simp add: m(1,2) m(3) k sm[symmetric] unlinked_def)
    next
      case False
      from Node.IH(2)[OF rr(2) d(2) False d(7) Node.prems(5) pf(2)] obtain s' p where i:
        "insert_at s e (root_of r) rnd = Some (s', rnd)" "rep (sc_mem s') (Some x) (graft (before s e) e r)"
        "p \<in> set_tree r" "s' = s\<lparr>sc_mem := sc_mem s'\<rparr>" "same_keys s s'"
        "\<forall>y. y \<noteq> e \<longrightarrow> se_parent (sc_mem s' y) = se_parent (sc_mem s y)"
        "\<forall>y. y \<noteq> e \<and> y \<noteq> p \<longrightarrow> sc_mem s' y = sc_mem s y" "se_parent (sc_mem s' e) = Some p"
        "se_lt (sc_mem s' e) = None" "se_gt (sc_mem s' e) = None" by blast
      have "root_of r \<noteq> None" using False by (cases r) auto
      then have "insert_at s e (Some x) rnd = Some (s', rnd)"
        using cmp rr(4) i(1) by (subst insert_at.simps) simp
      moreover have "rep (sc_mem s') (Some x) l" by (rule lf[OF rr(1)]) (use i(3,7) d in auto)
      moreover have "sc_mem s' x = sc_mem s x" using i(3,7) d by auto
      ultimately show ?thesis using i ngo rr False by (intro exI[of _ s'] exI[of _ p]) (auto simp: root_graft)
    qed
  qed
qed simp

text \<open>A node with the same key is met, and the search starts again with a new priority.\<close>

lemma insert_collision:
  assumes "rep (sc_mem s) q u" "sorted_by s (inorder u)" "\<not> path_free s e u"
  shows "insert_at s e (root_of u) rnd =
    Option.bind (schedule_set_pri s e rnd) (\<lambda>(s1, rnd1). insert_at s1 e (sc_root s1) rnd1)"
  using assms
proof (induction u arbitrary: q)
  case (Node l x r)
  have o: "sorted_by s (inorder l)" "sorted_by s (inorder r)" "\<forall>y \<in> set_tree l. before s y x" "\<forall>y \<in> set_tree r. before s x y"
    using Node.prems(2) by (auto simp: sorted_by_def sorted_wrt_append)
  have rr: "rep (sc_mem s) (Some x) l" "rep (sc_mem s) (Some x) r" "se_lt (sc_mem s x) = root_of l"
    "se_gt (sc_mem s x) = root_of r" using Node.prems(1) by auto
  consider "before s e x" | "before s x e" | "\<not> before s e x" "\<not> before s x e" by blast
  then show ?case
  proof cases
    case 1
    then have pr: "path_free s e r" using o(4) before_trans by (auto simp: path_free_def)
    have nl: "\<not> path_free s e l" using Node.prems(3) pr 1 by (auto simp: path_free_def)
    then have "root_of l \<noteq> None" by (cases l) (auto simp: path_free_def)
    then show ?thesis using Node.IH(1)[OF rr(1) o(1) nl] 1 rr(3)
      by (subst insert_at.simps) (simp add: before_def)
  next
    case 2
    then have pl: "path_free s e l" using o(3) before_trans by (auto simp: path_free_def)
    have nr: "\<not> path_free s e r" using Node.prems(3) pl 2 by (auto simp: path_free_def)
    then have "root_of r \<noteq> None" by (cases r) (auto simp: path_free_def)
    moreover have "schedule_entry_compare (sc_mem s e) (sc_mem s x) = 1" using 2 by (simp add: before_def compare_cases(2))
    ultimately show ?thesis using Node.IH(2)[OF rr(2) o(2) nr] rr(4)
      by (subst insert_at.simps) simp
  next
    case 3
    then have "schedule_entry_compare (sc_mem s e) (sc_mem s x) = 0"
      using compare_cases(3) by (simp add: before_def compare_cases(2))
    then show ?thesis by (subst insert_at.simps) simp
  qed
qed (simp add: path_free_def)

definition pri_from :: "u32 \<Rightarrow> u32" where "pri_from r = (if r < 1 then 1 else r)"

lemma pri_from_nz [simp]: "pri_from r \<noteq> 0"
  by (simp add: pri_from_def word_less_1)

text \<open>No node of the tree has the time of \<open>e\<close> and the priority \<open>p\<close>.\<close>

definition key_free :: "schedule \<Rightarrow> nat \<Rightarrow> nat set \<Rightarrow> u32 \<Rightarrow> bool" where
  "key_free s e A p \<longleftrightarrow> (\<forall>x \<in> A. se_tv (sc_mem s x) = se_tv (sc_mem s e) \<longrightarrow> pri_of s x \<noteq> p)"

lemma path_free_key: "path_free s e t \<longleftrightarrow> key_free s e (set_tree t) (pri_of s e)"
proof -
  have "before s e x \<or> before s x e \<longleftrightarrow> \<not> (se_tv (sc_mem s x) = se_tv (sc_mem s e) \<and> pri_of s x = pri_of s e)" for x
  proof (cases "before s e x \<or> before s x e")
    case True
    then have "\<not> (se_tv (sc_mem s x) = se_tv (sc_mem s e) \<and> se_pri (sc_mem s x) = se_pri (sc_mem s e))"
      unfolding before_def compare_cases(1) by auto
    then show ?thesis using True by (simp add: pri_of_def)
  next
    case False
    then have "schedule_entry_compare (sc_mem s e) (sc_mem s x) \<noteq> - 1" "schedule_entry_compare (sc_mem s e) (sc_mem s x) \<noteq> 1"
      using compare_cases(2) by (auto simp: before_def)
    from compare_cases(3)[OF this] False show ?thesis by (simp add: pri_of_def)
  qed
  then show ?thesis by (auto simp: path_free_def key_free_def)
qed

definition inserted :: "schedule \<Rightarrow> nat tree \<Rightarrow> nat \<Rightarrow> schedule \<Rightarrow> nat tree \<Rightarrow> bool" where
  "inserted s t e s' t' \<longleftrightarrow>
     tree_of s' t' \<and> set_tree t' = insert e (set_tree t) \<and> sorted_by s' (inorder t') \<and> pri_of s' e \<noteq> 0 \<and>
     (\<forall>x. se_tv (sc_mem s' x) = se_tv (sc_mem s x)) \<and> (\<forall>x. x \<noteq> e \<longrightarrow> pri_of s' x = pri_of s x) \<and>
     (\<forall>x. x \<noteq> e \<longrightarrow> se_parent (sc_mem s' x) = se_parent (sc_mem s x)) \<and>
     (\<exists>p \<in> set_tree t. se_parent (sc_mem s' e) = Some p) \<and>
     se_lt (sc_mem s' e) = None \<and> se_gt (sc_mem s' e) = None \<and>
     (\<forall>x. x \<notin> insert e (set_tree t) \<longrightarrow> sc_mem s' x = sc_mem s x) \<and> earliest_wakeup s' = earliest_wakeup s"

lemma sorted_by_cong:
  assumes "\<And>x. x \<in> set xs \<Longrightarrow> se_tv (sc_mem s' x) = se_tv (sc_mem s x) \<and> pri_of s' x = pri_of s x"
  shows "sorted_by s' xs = sorted_by s xs"
proof -
  have b: "before s' x y = before s x y" if "x \<in> set xs" "y \<in> set xs" for x y
    using assms[OF that(1)] assms[OF that(2)] by (simp add: before_def compare_cases(1) pri_of_def)
  have "set ys \<subseteq> set xs \<Longrightarrow> sorted_wrt (before s') ys = sorted_wrt (before s) ys" for ys
  proof (induction ys)
    case (Cons y ys)
    then have "(\<forall>z \<in> set ys. before s' y z) = (\<forall>z \<in> set ys. before s y z)" using b by (metis list.set_intros subset_iff)
    then show ?case using Cons by simp
  qed simp
  then show ?thesis by (simp add: sorted_by_def)
qed

lemma sorted_by_distinct: "sorted_by s xs \<Longrightarrow> distinct xs"
  unfolding sorted_by_def by (induction xs) auto

lemma insert_now:
  assumes t: "tree_of s t" "t \<noteq> Leaf" and o: "sorted_by s (inorder t)" and e: "e \<notin> set_tree t" "unlinked s e" "pri_of s e \<noteq> 0"
    and f: "path_free s e t"
  shows "\<exists>s' t'. schedule_insert s e rnd = Some (s', rnd) \<and> inserted s t e s' t'"
proof -
  have r: "rep (sc_mem s) None t" "distinct (inorder t)" "sc_root s = root_of t" using t by (auto simp: tree_of_def)
  from insert_free[OF r(1,2) t(2) e(1,2) f, of rnd] obtain s' p where i:
    "insert_at s e (root_of t) rnd = Some (s', rnd)" "rep (sc_mem s') None (graft (before s e) e t)" "p \<in> set_tree t"
    "s' = s\<lparr>sc_mem := sc_mem s'\<rparr>" "same_keys s s'" "\<forall>x. x \<noteq> e \<longrightarrow> se_parent (sc_mem s' x) = se_parent (sc_mem s x)"
    "\<forall>x. x \<noteq> e \<and> x \<noteq> p \<longrightarrow> sc_mem s' x = sc_mem s x" "se_parent (sc_mem s' e) = Some p"
    "se_lt (sc_mem s' e) = None" "se_gt (sc_mem s' e) = None" by blast
  let ?t = "graft (before s e) e t"
  have rt: "sc_root s' = sc_root s" "earliest_wakeup s' = earliest_wakeup s" by (subst i(4); simp)+
  have so: "sorted_by s' (inorder ?t)"
    using graft_sorted[OF o f] sorted_by_cong[of "inorder ?t" s' s] i(5) by (auto simp: same_keys_def)
  have "distinct (inorder ?t)" by (rule sorted_by_distinct[OF so])
  then have "tree_of s' ?t" using i(2) rt r(3) t(2) by (simp add: tree_of_def root_graft)
  then have "inserted s t e s' ?t" using so i e(3) rt by (auto simp: inserted_def same_keys_def)
  then show ?thesis using i(1) r(3) by (auto simp: schedule_insert_def)
qed

text \<open>A collision draws a new priority and starts again, with the tree as it was.\<close>

lemma redraw:
  fixes s :: schedule and e :: nat and r :: u32
  assumes t: "tree_of s t" "sorted_by s (inorder t)" "e \<notin> set_tree t" "unlinked s e"
  defines "s1 \<equiv> upd s e (\<lambda>x. x\<lparr>se_pri := pri_from r\<rparr>)"
  shows "tree_of s1 t" "sorted_by s1 (inorder t)" "unlinked s1 e" "pri_of s1 e = pri_from r"
    "key_free s1 e (set_tree t) = key_free s e (set_tree t)"
    "\<not> path_free s e t \<Longrightarrow> schedule_insert s e (r # rs) = schedule_insert s1 e rs"
    "inserted s1 t e s' t' \<Longrightarrow> inserted s t e s' t'"
proof -
  have m: "x \<noteq> e \<Longrightarrow> sc_mem s1 x = sc_mem s x" for x by (simp add: s1_def upd_def)
  have tv: "se_tv (sc_mem s1 x) = se_tv (sc_mem s x)" for x by (simp add: s1_def upd_def)
  have rep1: "rep (sc_mem s) None t" "sc_root s = root_of t" using t(1) by (auto simp: tree_of_def)
  have out: "x \<in> set_tree t \<Longrightarrow> x \<noteq> e" for x using t(3) by blast
  have "rep (sc_mem s1) None t = rep (sc_mem s) None t"
    by (rule rep_cong) (use m out in simp)
  then show "tree_of s1 t" using t(1) by (simp add: tree_of_def s1_def upd_def)
  show "sorted_by s1 (inorder t)"
  proof (subst sorted_by_cong[of _ _ s])
    fix x assume "x \<in> set (inorder t)"
    then have "x \<noteq> e" using out by simp
    then show "se_tv (sc_mem s1 x) = se_tv (sc_mem s x) \<and> pri_of s1 x = pri_of s x" by (simp add: m pri_of_def)
  qed (rule t(2))
  show "unlinked s1 e" "pri_of s1 e = pri_from r" using t(4) by (simp_all add: unlinked_def s1_def upd_def pri_of_def)
  show "key_free s1 e (set_tree t) = key_free s e (set_tree t)"
  proof
    fix p
    have "pri_of s1 x = pri_of s x" if "x \<in> set_tree t" for x using m[OF out[OF that]] by (simp add: pri_of_def)
    then show "key_free s1 e (set_tree t) p = key_free s e (set_tree t) p" by (simp add: key_free_def tv)
  qed
  show "schedule_insert s e (r # rs) = schedule_insert s1 e rs" if "\<not> path_free s e t"
    using insert_collision[OF rep1(1) t(2) that, of "r # rs"] rep1(2)
    by (simp add: schedule_insert_def schedule_set_pri_def s1_def pri_from_def)
  show "inserted s t e s' t'" if "inserted s1 t e s' t'"
    using that m by (auto simp: inserted_def s1_def upd_def pri_of_def)
qed

lemma no_redraw:
  assumes "tree_of s t" "sorted_by s (inorder t)" "\<not> path_free s e t"
  shows "schedule_insert s e [] = None"
  using insert_collision[of s None t e "[]"] assms
  by (simp add: tree_of_def schedule_insert_def schedule_set_pri_def)

lemma insert_ok:
  assumes "tree_of s t" "t \<noteq> Leaf" "sorted_by s (inorder t)" "e \<notin> set_tree t" "unlinked s e" "pri_of s e \<noteq> 0"
  shows "if \<exists>p \<in> insert (pri_of s e) (pri_from ` set rnd). key_free s e (set_tree t) p
    then \<exists>s' t' rnd'. schedule_insert s e rnd = Some (s', rnd') \<and> inserted s t e s' t'
    else schedule_insert s e rnd = None"
  using assms
proof (induction rnd arbitrary: s)
  case Nil
  show ?case
  proof (cases "path_free s e t")
    case True
    then show ?thesis using insert_now[OF Nil.prems True, of "[]"] path_free_key by auto
  next
    case False
    then show ?thesis using no_redraw[OF Nil.prems(1,3) False] path_free_key by auto
  qed
next
  case (Cons r rs)
  show ?case
  proof (cases "path_free s e t")
    case True
    then show ?thesis using insert_now[OF Cons.prems True, of "r # rs"] path_free_key by auto
  next
    case False
    note d = redraw[OF Cons.prems(1,3-5), of r]
    have "key_free s e (set_tree t) (pri_of s e) = False" using False path_free_key by blast
    then have k: "(\<exists>p \<in> insert (pri_of s e) (pri_from ` set (r # rs)). key_free s e (set_tree t) p) =
      (\<exists>p \<in> insert (pri_from r) (pri_from ` set rs). key_free s e (set_tree t) p)" by simp
    show ?thesis
      using Cons.IH[OF d(1) Cons.prems(2) d(2) Cons.prems(4) d(3)] d(7) unfolding k d(4) d(5) d(6)[OF False]
      by (auto split: if_splits)
  qed
qed

section \<open>Restoring the heap order\<close>

lemma sub_rot_grows:
  assumes "distinct (inorder t)" "e \<in> set_tree t" "root_of t \<noteq> Some e"
  shows "size (sub e t) < size (sub e (rot e t))"
  using assms
proof (induction t)
  case (Node l x r)
  have d: "distinct (inorder l)" "distinct (inorder r)" "x \<notin> set_tree l" "x \<notin> set_tree r"
    "set_tree l \<inter> set_tree r = {}" using Node.prems(1) by auto
  have xe: "x \<noteq> e" using Node.prems(3) by simp
  consider "root_of l = Some e" | "root_of l \<noteq> Some e" "root_of r = Some e" | "e \<in> set_tree l" "root_of l \<noteq> Some e" "root_of r \<noteq> Some e"
    | "e \<in> set_tree r" "root_of l \<noteq> Some e" "root_of r \<noteq> Some e" using Node.prems(2) xe by auto
  then show ?case
  proof cases
    case 1
    then obtain a b where "l = Node a e b" by (cases l) auto
    then show ?thesis using xe by simp
  next
    case 2
    then obtain a b where r: "r = Node a e b" by (cases r) auto
    then have "e \<notin> set_tree l" using d(5) by auto
    then show ?thesis using 2 r xe by simp
  next
    case 3
    then show ?thesis using Node.IH(1)[OF d(1)] xe by simp
  next
    case 4
    then have "e \<notin> set_tree l" using d(5) by auto
    then show ?thesis using 4 Node.IH(2)[OF d(2)] xe by (simp add: rot_id)
  qed
qed simp

lemma size_sub: "size (sub e t) \<le> size t"
  by (induction t) auto

text \<open>The heap order but for a node that may have to rise.\<close>

definition heap_below :: "schedule \<Rightarrow> nat tree \<Rightarrow> nat \<Rightarrow> bool" where
  "heap_below s t e \<longleftrightarrow>
     (\<forall>x \<in> set_tree t. \<forall>y. se_parent (sc_mem s x) = Some y \<and> x \<noteq> e \<longrightarrow> pri_of s y \<le> pri_of s x) \<and>
     (\<forall>x \<in> set_tree t. \<forall>y. se_parent (sc_mem s x) = Some e \<and> se_parent (sc_mem s e) = Some y \<longrightarrow> pri_of s y \<le> pri_of s x)"

lemma rise_step:
  assumes t: "tree_of s t" and e: "e \<in> set_tree t" and h: "heap_below s t e"
    and p: "se_parent (sc_mem s e) = Some p" "pri_of s e < pri_of s p"
  shows "\<exists>s'. schedule_rotate_up s (Some e) = Some s' \<and> tree_of s' (rot e t) \<and>
    size (sub e t) < size (sub e (rot e t)) \<and> heap_below s' (rot e t) e \<and> same_keys s s' \<and>
    earliest_wakeup s' = earliest_wakeup s \<and> (\<forall>x. x \<notin> set_tree t \<longrightarrow> sc_mem s' x = sc_mem s x)"
proof -
  note pl = parent_link[OF t e p(1)]
  from rotate_up_ok[OF t e pl(4)] p(1) obtain s' where
    s': "schedule_rotate_up s (Some e) = Some s'" "tree_of s' (rot e t)" "rotated (sc_mem s) p e (sc_mem s')"
    "earliest_wakeup s' = earliest_wakeup s" "\<forall>x. x \<notin> set_tree t \<longrightarrow> sc_mem s' x = sc_mem s x" by auto
  have d: "distinct (inorder t)" "rep (sc_mem s) None t" using t by (auto simp: tree_of_def)
  note k = rotated_keys[OF s'(3)]
  have pr: "pri_of s' x = pri_of s x" for x using k by (simp add: same_keys_def)
  note pa = rotatedD(3)[OF s'(3)]
  have inn: "se_parent (sc_mem s i) = Some e" if "inner (sc_mem s) p e = Some i" for i
    using child_link(2)[OF t e] that by (auto simp: inner_def split: if_splits)
  have h1: "\<And>x y. x \<in> set_tree t \<Longrightarrow> se_parent (sc_mem s x) = Some y \<Longrightarrow> x \<noteq> e \<Longrightarrow> pri_of s y \<le> pri_of s x"
    and h2: "\<And>x. x \<in> set_tree t \<Longrightarrow> se_parent (sc_mem s x) = Some e \<Longrightarrow> pri_of s p \<le> pri_of s x"
    using h p(1) by (auto simp: heap_below_def)
  have "heap_below s' (rot e t) e"
    unfolding heap_below_def set_rot pr
  proof (intro conjI ballI allI impI)
    fix x y assume x: "x \<in> set_tree t" and y: "se_parent (sc_mem s' x) = Some y \<and> x \<noteq> e"
    show "pri_of s y \<le> pri_of s x"
    proof (cases "x = p")
      case True
      then show ?thesis using y pa[of p] p(2) pl(3) by auto
    next
      case False
      show ?thesis
      proof (cases "inner (sc_mem s) p e = Some x")
        case True
        then show ?thesis using h2[OF x inn[OF True]] y pa[of x] False by auto
      next
        case n: False
        then show ?thesis using h1[OF x] y pa[of x] False by auto
      qed
    qed
  next
    fix x y assume x: "x \<in> set_tree t" and y: "se_parent (sc_mem s' x) = Some e \<and> se_parent (sc_mem s' e) = Some y"
    have py: "se_parent (sc_mem s p) = Some y" using y pa[of e] by simp
    have yp: "pri_of s y \<le> pri_of s p" using h1[OF pl(2) py] pl(3) by simp
    show "pri_of s y \<le> pri_of s x"
    proof (cases "x = p")
      case False
      have xe: "x \<noteq> e"
      proof
        assume "x = e"
        then have "y = e" using y by auto
        then show False using py rep_hangs[OF d(2) e pl(4) d(1)] p(1) parent_link(4)[OF t pl(2)] by (auto simp: hangs_def)
      qed
      then have "se_parent (sc_mem s x) = Some e" using y pa[of x] False pl(3) by (auto split: if_splits)
      from order_trans[OF yp h2[OF x this]] show ?thesis .
    qed (use yp in simp)
  qed
  then show ?thesis using s' k sub_rot_grows[OF d(1) e pl(4)] by blast
qed

lemma rise_ok:
  assumes "tree_of s t" "e \<in> set_tree t" "heap_below s t e"
  shows "\<exists>s' t'. rise_node s e = Some s' \<and> tree_of s' t' \<and> inorder t' = inorder t \<and> heap_ord s' t' \<and>
    same_keys s s' \<and> earliest_wakeup s' = earliest_wakeup s \<and> (\<forall>x. x \<notin> set_tree t \<longrightarrow> sc_mem s' x = sc_mem s x)"
  using assms
proof (induction "size t - size (sub e t)" arbitrary: s t rule: less_induct)
  case less
  show ?case
  proof (cases "\<exists>p. se_parent (sc_mem s e) = Some p \<and> pri_of s e < pri_of s p")
    case False
    then have "rise_node s e = Some s" by (subst rise_node.simps) (auto simp: pri_of_def split: option.split)
    moreover have "heap_ord s t"
      using less.prems(3) False by (auto simp: heap_below_def heap_ord_def not_less)
    ultimately show ?thesis using less.prems by auto
  next
    case True
    then obtain p where p: "se_parent (sc_mem s e) = Some p" "pri_of s e < pri_of s p" by blast
    from rise_step[OF less.prems p] obtain s1 where
      1: "schedule_rotate_up s (Some e) = Some s1" "tree_of s1 (rot e t)" "size (sub e t) < size (sub e (rot e t))"
      "heap_below s1 (rot e t) e" "same_keys s s1" "earliest_wakeup s1 = earliest_wakeup s"
      "\<forall>x. x \<notin> set_tree t \<longrightarrow> sc_mem s1 x = sc_mem s x" by blast
    have "size (rot e t) = size t" by (metis inorder_rot length_inorder)
    then have "size (rot e t) - size (sub e (rot e t)) < size t - size (sub e t)"
      using 1(3) size_sub[of e "rot e t"] by simp
    from less.hyps[OF this 1(2) _ 1(4)] less.prems(2) obtain s' t' where
      2: "rise_node s1 e = Some s'" "tree_of s' t'" "inorder t' = inorder t" "heap_ord s' t'" "same_keys s1 s'"
      "earliest_wakeup s' = earliest_wakeup s1" "\<forall>x. x \<notin> set_tree t \<longrightarrow> sc_mem s' x = sc_mem s1 x" by auto
    have "rise_node s e = Some s'" using p 1(1) 2(1) by (subst rise_node.simps) (simp add: pri_of_def)
    then show ?thesis using 2 1(6,7) same_keys_trans[OF 1(5) 2(5)] by auto
  qed
qed

end
