(* ===== verification/Schedule_Queue.thy ===== *)
theory Schedule_Queue
  imports Schedule_Heap
begin

text \<open>
  The scheduler as a client sees it: a priority queue of wakeup times with a cached minimum.
  The invariant says that the links form a treap of the scheduled entries and that the cache
  is empty or holds the least of them; every operation keeps it and does what the map of
  wakeup times says.
\<close>

section \<open>The schedule as a priority queue\<close>

text \<open>What is scheduled when.\<close>

definition wakeups :: "schedule \<Rightarrow> nat \<Rightarrow> timeval option" where
  "wakeups s x = (if IN_TREE s x then Some (se_tv (sc_mem s x)) else None)"

text \<open>The invariant of the tree, and that of the schedule with its cached minimum.\<close>

definition treap :: "schedule \<Rightarrow> nat tree \<Rightarrow> bool" where
  "treap s t \<longleftrightarrow> tree_of s t \<and> sorted_by s (inorder t) \<and> heap_ord s t \<and>
     (\<forall>x. x \<in> set_tree t \<longleftrightarrow> pri_of s x \<noteq> 0) \<and> (\<forall>x. x \<notin> set_tree t \<longrightarrow> unlinked s x)"

definition sched_inv :: "schedule \<Rightarrow> bool" where
  "sched_inv s \<longleftrightarrow> (\<exists>t. treap s t \<and>
     (case earliest_wakeup s of None \<Rightarrow> True | Some e \<Rightarrow> \<exists>xs. inorder t = e # xs))"

lemma IN_TREE_pri: "IN_TREE s x \<longleftrightarrow> pri_of s x \<noteq> 0"
  by (simp add: IN_TREE_def pri_of_def)

lemma leftmost_ok:
  assumes "rep (sc_mem s) q t" "t \<noteq> Leaf"
  shows "\<exists>xs e. root_of t \<noteq> None \<and> leftmost s (the (root_of t)) = Some e \<and> inorder t = e # xs"
  using assms
proof (induction t arbitrary: q)
  case (Node l x r)
  show ?case
  proof (cases "l = Leaf")
    case True
    then show ?thesis using Node.prems by (subst leftmost.simps) simp
  next
    case False
    have "rep (sc_mem s) (Some x) l" using Node.prems by simp
    from Node.IH(1)[OF this False] obtain xs e where
      "root_of l \<noteq> None" "leftmost s (the (root_of l)) = Some e" "inorder l = e # xs" by blast
    then show ?thesis using Node.prems by (subst leftmost.simps) auto
  qed
qed simp

lemma find_least_ok:
  assumes t: "treap s t"
  shows "schedule_find_least s (sc_root s) = Some (case inorder t of [] \<Rightarrow> None | e # xs \<Rightarrow> Some e)"
proof (cases "t = Leaf")
  case True
  then show ?thesis using t by (simp add: treap_def tree_of_def schedule_find_least_def)
next
  case False
  from t have "rep (sc_mem s) None t" "sc_root s = root_of t" by (auto simp: treap_def tree_of_def)
  from leftmost_ok[OF this(1) False] this(2) show ?thesis by (auto simp: schedule_find_least_def)
qed

lemma least_ok:
  assumes t: "treap s t" and h: "inorder t = e # xs" and x: "wakeups s x = Some tv"
  shows "tv_le (se_tv (sc_mem s e)) tv"
proof -
  have "x \<in> set_tree t" "tv = se_tv (sc_mem s x)"
    using x t by (auto simp: wakeups_def IN_TREE_pri treap_def split: if_splits)
  then have "x \<in> set (e # xs)" using h by (metis set_inorder)
  moreover have "before s e y" if "y \<in> set xs" for y
    using t h that by (auto simp: treap_def sorted_by_def)
  ultimately have "x = e \<or> before s e x" by auto
  then show ?thesis unfolding \<open>tv = _\<close>
    by (auto simp: before_def compare_cases(1) tv_le_def)
qed

lemma remove_inv:
  assumes t: "treap s t"
  shows "\<exists>s' t'. schedule_remove_node s e = Some s' \<and> treap s' t' \<and> wakeups s' = (wakeups s)(e := None) \<and>
    earliest_wakeup s' = earliest_wakeup s"
proof (cases "e \<in> set_tree t")
  case True
  have tt: "tree_of s t" "heap_ord s t" using t by (auto simp: treap_def)
  from remove_node_ok[OF tt(1) True tt(2)] obtain s' t' where
    r: "schedule_remove_node s e = Some s'" "tree_of s' t'" "inorder t' = filter (\<lambda>x. x \<noteq> e) (inorder t)" "heap_ord s' t'"
    "unlinked s' e" "pri_of s' e = 0" "\<forall>x. se_tv (sc_mem s' x) = se_tv (sc_mem s x)"
    "\<forall>x. x \<noteq> e \<longrightarrow> pri_of s' x = pri_of s x" "earliest_wakeup s' = earliest_wakeup s"
    "\<forall>x. x \<notin> set_tree t \<longrightarrow> sc_mem s' x = sc_mem s x" by blast
  have st: "set_tree t' = set_tree t - {e}" using arg_cong[OF r(3), of set] by auto
  have "sorted_by s' (inorder t')"
    using t r(3,7,8) sorted_by_cong[of "inorder t'" s' s] by (auto simp: treap_def sorted_by_def sorted_wrt_filter)
  moreover have "unlinked s' x" if "x \<notin> set_tree t'" for x
    using that st r(5,10) t by (cases "x = e") (auto simp: treap_def unlinked_def)
  moreover have "x \<in> set_tree t' \<longleftrightarrow> pri_of s' x \<noteq> 0" for x
    using st r(6,8) t by (cases "x = e") (auto simp: treap_def)
  moreover have "wakeups s' = (wakeups s)(e := None)"
    using r(6-8) by (auto simp: wakeups_def IN_TREE_pri fun_eq_iff)
  ultimately show ?thesis using r by (auto simp: treap_def)
next
  case False
  then have u: "unlinked s e" "pri_of s e = 0" "sc_root s \<noteq> Some e"
    using t root_of_in[of t e] by (auto simp: treap_def tree_of_def)
  have "sink_node s e = Some s" using u(1) by (subst sink_node.simps) (simp add: unlinked_def)
  moreover have "upd s e (\<lambda>x. x\<lparr>se_pri := 0\<rparr>) = s"
  proof -
    have "(sc_mem s e)\<lparr>se_pri := 0\<rparr> = sc_mem s e" using u(2) by (cases "sc_mem s e") (simp add: pri_of_def)
    then have "(sc_mem s)(e := (sc_mem s e)\<lparr>se_pri := 0\<rparr>) = sc_mem s" by (metis fun_upd_triv)
    then show ?thesis by (simp add: upd_def)
  qed
  ultimately have "schedule_remove_node s e = Some s"
    using u by (simp add: schedule_remove_node_def schedule_detach_parent_def unlinked_def)
  moreover have "wakeups s = (wakeups s)(e := None)"
    using u(2) by (auto simp: wakeups_def IN_TREE_pri fun_eq_iff)
  ultimately show ?thesis using t by metis
qed

text \<open>The time of an entry is set while it may still be in the tree; removing it comes next.\<close>

lemma treap_retime:
  fixes s :: schedule and e :: nat and tv :: timeval
  assumes t: "treap s t"
  defines "s1 \<equiv> upd s e (\<lambda>x. x\<lparr>se_tv := tv\<rparr>)"
  shows "tree_of s1 t" "heap_ord s1 t" "\<And>x. pri_of s1 x = pri_of s x" "\<And>x. unlinked s1 x = unlinked s x"
    "sorted_by s1 (filter (\<lambda>x. x \<noteq> e) (inorder t))" "\<And>x. se_tv (sc_mem s1 x) = (if x = e then tv else se_tv (sc_mem s x))"
proof -
  show p: "\<And>x. pri_of s1 x = pri_of s x" "\<And>x. unlinked s1 x = unlinked s x"
    "\<And>x. se_tv (sc_mem s1 x) = (if x = e then tv else se_tv (sc_mem s x))"
    by (simp_all add: s1_def upd_def pri_of_def unlinked_def)
  have "rep (sc_mem s1) None t = rep (sc_mem s) None t"
    by (rule rep_cong) (simp add: s1_def upd_def links_def)
  then show "tree_of s1 t" using t by (simp add: treap_def tree_of_def s1_def upd_def)
  show "heap_ord s1 t" using t p(1) by (simp add: treap_def heap_ord_def s1_def upd_def)
  have "sorted_by s1 (filter (\<lambda>x. x \<noteq> e) (inorder t)) = sorted_by s (filter (\<lambda>x. x \<noteq> e) (inorder t))"
    by (rule sorted_by_cong) (use p in auto)
  then show "sorted_by s1 (filter (\<lambda>x. x \<noteq> e) (inorder t))"
    using t by (simp add: treap_def sorted_by_def sorted_wrt_filter)
qed

lemma inserted_heap:
  assumes t: "tree_of s t" "heap_ord s t" "e \<notin> set_tree t" and i: "inserted s t e s' t'"
  shows "heap_below s' t' e"
proof -
  have par: "y \<in> set_tree t" if "x \<in> set_tree t" "se_parent (sc_mem s x) = Some y" for x y
    by (rule parent_link(2)[OF t(1) that])
  have out: "x \<in> set_tree t \<Longrightarrow> x \<noteq> e" for x using t(3) by blast
  have same: "x \<in> set_tree t \<Longrightarrow> se_parent (sc_mem s' x) = se_parent (sc_mem s x) \<and> pri_of s' x = pri_of s x" for x
    using i out[of x] by (simp add: inserted_def)
  have st: "set_tree t' = insert e (set_tree t)" and pe: "\<exists>p \<in> set_tree t. se_parent (sc_mem s' e) = Some p"
    using i by (simp_all add: inserted_def)
  show ?thesis
    unfolding heap_below_def st
  proof (intro conjI ballI allI impI)
    fix x y assume x: "x \<in> insert e (set_tree t)" and y: "se_parent (sc_mem s' x) = Some y \<and> x \<noteq> e"
    then have xt: "x \<in> set_tree t" by simp
    then have "se_parent (sc_mem s x) = Some y" using same y by simp
    then show "pri_of s' y \<le> pri_of s' x" using same[OF xt] same[OF par[OF xt]] t(2) xt by (simp add: heap_ord_def)
  next
    fix x y assume x: "x \<in> insert e (set_tree t)" and y: "se_parent (sc_mem s' x) = Some e \<and> se_parent (sc_mem s' e) = Some y"
    have "x \<noteq> e" using y pe t(3) by auto
    then have xt: "x \<in> set_tree t" using x by simp
    then have "se_parent (sc_mem s x) = Some e" using same y by simp
    then have False using par[OF xt] t(3) by blast
    then show "pri_of s' y \<le> pri_of s' x" ..
  qed
qed

lemma treap_raised:
  assumes "tree_of s t" "sorted_by s (inorder t)" "heap_below s t e" "e \<in> set_tree t"
    and "\<forall>x. x \<in> set_tree t \<longleftrightarrow> pri_of s x \<noteq> 0" "\<forall>x. x \<notin> set_tree t \<longrightarrow> unlinked s x"
  shows "\<exists>s' t'. rise_node s e = Some s' \<and> treap s' t' \<and> same_keys s s'"
proof -
  from rise_ok[OF assms(1,4,3)] obtain s' t' where r: "rise_node s e = Some s'" "tree_of s' t'" "inorder t' = inorder t"
    "heap_ord s' t'" "same_keys s s'" "\<forall>x. x \<notin> set_tree t \<longrightarrow> sc_mem s' x = sc_mem s x" by blast
  have st: "set_tree t' = set_tree t" by (metis r(3) set_inorder)
  have "sorted_by s' (inorder t')"
    unfolding r(3) using assms(2) sorted_by_cong[of "inorder t" s' s] r(5) by (simp add: same_keys_def)
  then show ?thesis using r st assms(5,6) by (auto simp: treap_def same_keys_def unlinked_def)
qed

text \<open>The state in which \<^verbatim>\<open>schedule_insert\<close> is called: \<open>e\<close> is out of the tree, with its new time.\<close>

definition vacated :: "schedule \<Rightarrow> nat tree \<Rightarrow> nat \<Rightarrow> bool" where
  "vacated s t e \<longleftrightarrow> tree_of s t \<and> sorted_by s (inorder t) \<and> heap_ord s t \<and> e \<notin> set_tree t \<and> unlinked s e \<and>
     (\<forall>x. x \<noteq> e \<longrightarrow> (x \<in> set_tree t \<longleftrightarrow> pri_of s x \<noteq> 0)) \<and> (\<forall>x. x \<notin> set_tree t \<longrightarrow> unlinked s x)"

lemma place_ok:
  fixes s :: schedule and e :: nat and rnd :: "u32 list"
  assumes v: "vacated s t e" and p: "pri_of s e \<noteq> 0"
  defines "place \<equiv> Option.bind (if sc_root s \<noteq> None then schedule_insert s e rnd else Some (s\<lparr>sc_root := Some e\<rparr>, rnd))
    (\<lambda>(s3, rnd3). map_option (\<lambda>s4. (s4, rnd3)) (rise_node s3 e))"
  shows "if \<exists>p \<in> insert (pri_of s e) (pri_from ` set rnd). key_free s e (set_tree t) p
    then \<exists>s' t' rnd'. place = Some (s', rnd') \<and> treap s' t' \<and> pri_of s' e \<noteq> 0 \<and>
      (\<forall>x. se_tv (sc_mem s' x) = se_tv (sc_mem s x)) \<and> (\<forall>x. x \<noteq> e \<longrightarrow> pri_of s' x = pri_of s x)
    else place = None"
proof (cases "t = Leaf")
  case True
  have r: "sc_root s = None" using v True by (simp add: vacated_def tree_of_def)
  let ?s = "s\<lparr>sc_root := Some e\<rparr>" and ?t = "Node Leaf e Leaf"
  have u: "unlinked s e" using v by (simp add: vacated_def)
  have "tree_of ?s ?t" using u by (simp add: tree_of_def unlinked_def)
  moreover have "sorted_by ?s (inorder ?t)" by (simp add: sorted_by_def)
  moreover have "heap_below ?s ?t e" using u by (simp add: heap_below_def unlinked_def)
  moreover have "\<forall>x. x \<in> set_tree ?t \<longleftrightarrow> pri_of ?s x \<noteq> 0" "\<forall>x. x \<notin> set_tree ?t \<longrightarrow> unlinked ?s x"
    using v True p by (auto simp: vacated_def pri_of_def unlinked_def)
  ultimately have "\<exists>s' t'. rise_node ?s e = Some s' \<and> treap s' t' \<and> same_keys ?s s'"
    by (intro treap_raised) auto
  then obtain s' t' where a: "rise_node ?s e = Some s'" "treap s' t'" "same_keys ?s s'" by blast
  have k: "key_free s e (set_tree t) q" for q using True by (simp add: key_free_def)
  have "place = Some (s', rnd)" using r a(1) by (simp add: place_def)
  moreover have "pri_of s' x = pri_of s x" "se_tv (sc_mem s' x) = se_tv (sc_mem s x)" for x
    using a(3) by (simp_all add: same_keys_def pri_of_def)
  ultimately show ?thesis using k a(2) p by auto
next
  case False
  have vs: "tree_of s t" "sorted_by s (inorder t)" "heap_ord s t" "e \<notin> set_tree t" "unlinked s e"
    "\<forall>x. x \<noteq> e \<longrightarrow> (x \<in> set_tree t \<longleftrightarrow> pri_of s x \<noteq> 0)" "\<forall>x. x \<notin> set_tree t \<longrightarrow> unlinked s x"
    using v by (simp_all add: vacated_def)
  have r: "sc_root s \<noteq> None" using vs(1) False by (cases t) (simp_all add: tree_of_def)
  note io = insert_ok[OF vs(1) False vs(2,4,5) p, of rnd]
  show ?thesis
  proof (cases "\<exists>p \<in> insert (pri_of s e) (pri_from ` set rnd). key_free s e (set_tree t) p")
    case True
    then obtain s1 t1 rnd1 where i: "schedule_insert s e rnd = Some (s1, rnd1)" "inserted s t e s1 t1" using io by auto
    have h: "heap_below s1 t1 e" by (rule inserted_heap[OF vs(1,3,4) i(2)])
    have j: "tree_of s1 t1" "set_tree t1 = insert e (set_tree t)" "sorted_by s1 (inorder t1)" "pri_of s1 e \<noteq> 0"
      "\<forall>x. se_tv (sc_mem s1 x) = se_tv (sc_mem s x)" "\<forall>x. x \<noteq> e \<longrightarrow> pri_of s1 x = pri_of s x"
      "\<forall>x. x \<notin> insert e (set_tree t) \<longrightarrow> sc_mem s1 x = sc_mem s x"
      using i(2) by (simp_all add: inserted_def)
    have "x \<in> set_tree t1 \<longleftrightarrow> pri_of s1 x \<noteq> 0" for x using j(2,4,6) vs(6) by (cases "x = e") auto
    moreover have "unlinked s1 x" if "x \<notin> set_tree t1" for x
      using j(2,7) vs(7) that by (simp add: unlinked_def)
    ultimately have "\<exists>s' t'. rise_node s1 e = Some s' \<and> treap s' t' \<and> same_keys s1 s'"
      using j(1-3) h by (intro treap_raised) auto
    then obtain s' t' where a: "rise_node s1 e = Some s'" "treap s' t'" "same_keys s1 s'" by blast
    have "place = Some (s', rnd1)" using r a(1) i(1) by (simp add: place_def)
    then show ?thesis using True a(2,3) j(4-6) by (auto simp: same_keys_def)
  next
    case False
    then have "place = None" using io r by (simp add: place_def)
    then show ?thesis using False by (simp only: if_False)
  qed
qed

lemma vacate_ok:
  fixes s0 :: schedule and e :: nat and tv :: timeval
  assumes t: "treap s0 t0"
  defines "s \<equiv> upd s0 e (\<lambda>x. x\<lparr>se_tv := tv\<rparr>)"
  shows "\<exists>s1 t1. (if IN_TREE s e then schedule_remove_node s e else Some s) = Some s1 \<and> vacated s1 t1 e \<and>
    set_tree t1 = set_tree t0 - {e} \<and> (\<forall>x. se_tv (sc_mem s1 x) = se_tv (sc_mem s x)) \<and>
    (\<forall>x. x \<noteq> e \<longrightarrow> pri_of s1 x = pri_of s x)"
proof -
  note rt = treap_retime[OF t, of e tv, folded s_def]
  have pt: "x \<in> set_tree t0 \<longleftrightarrow> pri_of s x \<noteq> 0" "x \<notin> set_tree t0 \<Longrightarrow> unlinked s x" for x
    using t rt(3,4) by (auto simp: treap_def)
  show ?thesis
  proof (cases "e \<in> set_tree t0")
    case True
    from remove_node_ok[OF rt(1) True rt(2)] obtain s1 t1 where
      r: "schedule_remove_node s e = Some s1" "tree_of s1 t1" "inorder t1 = filter (\<lambda>x. x \<noteq> e) (inorder t0)" "heap_ord s1 t1"
      "unlinked s1 e" "\<forall>x. se_tv (sc_mem s1 x) = se_tv (sc_mem s x)"
      "\<forall>x. x \<noteq> e \<longrightarrow> pri_of s1 x = pri_of s x" "\<forall>x. x \<notin> set_tree t0 \<longrightarrow> sc_mem s1 x = sc_mem s x" by blast
    have st: "set_tree t1 = set_tree t0 - {e}" using arg_cong[OF r(3), of set] by auto
    have "sorted_by s1 (inorder t1)"
      unfolding r(3) using rt(5) sorted_by_cong[of "filter (\<lambda>x. x \<noteq> e) (inorder t0)" s1 s] r(6,7) by simp
    moreover have "x \<in> set_tree t1 \<longleftrightarrow> pri_of s1 x \<noteq> 0" if "x \<noteq> e" for x
      using st pt(1) r(7) that by simp
    moreover have "unlinked s1 x" if "x \<notin> set_tree t1" for x
      using that st r(5,8) pt(2) by (cases "x = e") (auto simp: unlinked_def)
    moreover have "IN_TREE s e" using True pt(1) by (simp add: IN_TREE_pri)
    ultimately show ?thesis using r st by (auto simp: vacated_def)
  next
    case False
    then have "filter (\<lambda>x. x \<noteq> e) (inorder t0) = inorder t0" by (auto simp: filter_id_conv)
    then have "vacated s t0 e" using rt pt False by (auto simp: vacated_def)
    moreover have "\<not> IN_TREE s e" using False pt(1) by (simp add: IN_TREE_pri)
    ultimately show ?thesis using False by auto
  qed
qed

lemma vacated_pri:
  fixes s :: schedule and e :: nat and r :: u32
  assumes v: "vacated s t e"
  defines "s1 \<equiv> upd s e (\<lambda>x. x\<lparr>se_pri := pri_from r\<rparr>)"
  shows "vacated s1 t e" "pri_of s1 e = pri_from r" "key_free s1 e (set_tree t) = key_free s e (set_tree t)"
proof -
  have vs: "tree_of s t" "sorted_by s (inorder t)" "heap_ord s t" "e \<notin> set_tree t" "unlinked s e"
    using v by (simp_all add: vacated_def)
  note d = redraw[OF vs(1,2,4,5), of r, folded s1_def]
  have m: "x \<noteq> e \<Longrightarrow> pri_of s1 x = pri_of s x" for x by (simp add: s1_def upd_def pri_of_def)
  have l: "se_parent (sc_mem s1 x) = se_parent (sc_mem s x)" "unlinked s1 x = unlinked s x" for x
    by (simp_all add: s1_def upd_def unlinked_def)
  have "pri_of s1 y \<le> pri_of s1 x" if "x \<in> set_tree t" "se_parent (sc_mem s x) = Some y" for x y
  proof -
    have "y \<in> set_tree t" by (rule parent_link(2)[OF vs(1) that])
    then have "x \<noteq> e" "y \<noteq> e" using that(1) vs(4) by auto
    then show ?thesis using m vs(3) that by (simp add: heap_ord_def)
  qed
  then have "heap_ord s1 t" by (simp add: heap_ord_def l)
  then show "vacated s1 t e" using v d(1-3) m by (simp add: vacated_def l)
  show "pri_of s1 e = pri_from r" "key_free s1 e (set_tree t) = key_free s e (set_tree t)" by (rule d)+
qed

text \<open>No other entry in the tree has the time \<open>tv\<close> and the priority drawn.\<close>

definition draw_free :: "schedule \<Rightarrow> nat \<Rightarrow> timeval \<Rightarrow> u32 \<Rightarrow> bool" where
  "draw_free s e tv r \<longleftrightarrow> (\<forall>x. x \<noteq> e \<and> wakeups s x = Some tv \<longrightarrow> se_pri (sc_mem s x) \<noteq> (if r < 1 then 1 else r))"

lemma add_modify_ok:
  fixes s0 :: schedule and e :: nat and tv :: timeval and rnd :: "u32 list"
  assumes t: "treap s0 t0"
  defines "s \<equiv> upd s0 e (\<lambda>x. x\<lparr>se_tv := tv\<rparr>)"
  shows "if \<exists>r \<in> set rnd. draw_free s0 e tv r
    then \<exists>s' t' rnd'. schedule_add_modify s e rnd = Some (s', rnd') \<and> treap s' t' \<and> wakeups s' = (wakeups s0)(e \<mapsto> tv)
    else schedule_add_modify s e rnd = None"
proof -
  from vacate_ok[OF t, of e tv, folded s_def] obtain s1 t1 where
    1: "(if IN_TREE s e then schedule_remove_node s e else Some s) = Some s1" "vacated s1 t1 e"
    "set_tree t1 = set_tree t0 - {e}" "\<forall>x. se_tv (sc_mem s1 x) = se_tv (sc_mem s x)"
    "\<forall>x. x \<noteq> e \<longrightarrow> pri_of s1 x = pri_of s x" by blast
  have tv1: "se_tv (sc_mem s1 x) = (if x = e then tv else se_tv (sc_mem s0 x))" for x
    using 1(4) by (simp add: s_def upd_def)
  have p1: "x \<noteq> e \<Longrightarrow> pri_of s1 x = pri_of s0 x" for x using 1(5) by (simp add: s_def upd_def pri_of_def)
  have tp: "x \<in> set_tree t0 \<longleftrightarrow> pri_of s0 x \<noteq> 0" for x using t by (simp add: treap_def)
  have kf: "key_free s1 e (set_tree t1) (pri_from r) = draw_free s0 e tv r" for r
    using tp p1 by (auto simp: key_free_def draw_free_def 1(3) tv1 wakeups_def IN_TREE_pri pri_from_def pri_of_def)
  show ?thesis
  proof (cases rnd)
    case Nil
    then show ?thesis using 1(1) by (simp add: schedule_add_modify_def schedule_set_pri_def)
  next
    case (Cons r rs)
    define s2 where "s2 = upd s1 e (\<lambda>x. x\<lparr>se_pri := pri_from r\<rparr>)"
    note v2 = vacated_pri[OF 1(2), of r, folded s2_def]
    have st: "se_tv (sc_mem s2 x) = se_tv (sc_mem s1 x)" "x \<noteq> e \<Longrightarrow> pri_of s2 x = pri_of s1 x" for x
      by (simp_all add: s2_def upd_def pri_of_def)
    have am: "schedule_add_modify s e rnd =
      Option.bind (if sc_root s2 \<noteq> None then schedule_insert s2 e rs else Some (s2\<lparr>sc_root := Some e\<rparr>, rs))
        (\<lambda>(s3, rnd3). map_option (\<lambda>s4. (s4, rnd3)) (rise_node s3 e))"
      using 1(1) Cons unfolding schedule_add_modify_def
      by (simp add: schedule_set_pri_def s2_def pri_from_def cong: if_cong del: not_None_eq)
    have "(\<exists>p \<in> insert (pri_of s2 e) (pri_from ` set rs). key_free s2 e (set_tree t1) p) = (\<exists>r \<in> set rnd. draw_free s0 e tv r)"
      unfolding v2(2,3) using kf Cons by simp
    note pl = place_ok[OF v2(1), of rs, unfolded this, folded am]
    have nz: "pri_of s2 e \<noteq> 0" by (simp add: v2(2))
    have "wakeups s' = (wakeups s0)(e \<mapsto> tv)"
      if "pri_of s' e \<noteq> 0" "\<forall>x. se_tv (sc_mem s' x) = se_tv (sc_mem s2 x)" "\<forall>x. x \<noteq> e \<longrightarrow> pri_of s' x = pri_of s2 x" for s'
      using that st p1 by (auto simp: fun_eq_iff wakeups_def IN_TREE_pri tv1)
    then show ?thesis using pl[OF nz] by (auto split: if_splits)
  qed
qed

section \<open>The operations as a client sees them\<close>

datatype sched_op =
    Sched_Add nat timeval u32 "u32 list"
  | Sched_Remove nat
  | Sched_Earliest

fun sched_step :: "schedule \<Rightarrow> sched_op \<Rightarrow> ((nat \<times> timeval) option \<times> schedule) option" where
  "sched_step s (Sched_Add e tv sigma rnd) = map_option (\<lambda>(s', _). (None, s')) (schedule_add_entry s e tv sigma rnd)"
| "sched_step s (Sched_Remove e) = map_option (Pair None) (schedule_remove_entry s e)"
| "sched_step s Sched_Earliest = schedule_get_earliest_wakeup s"

text \<open>The contract: a map from entries to wakeup times, from which a least one is read.\<close>

fun sched_spec :: "(nat \<Rightarrow> timeval option) \<Rightarrow> sched_op \<Rightarrow> (nat \<times> timeval) option \<Rightarrow> (nat \<Rightarrow> timeval option) \<Rightarrow> bool" where
  "sched_spec m (Sched_Add e tv sigma rnd) r m' \<longleftrightarrow>
     r = None \<and> m' = (case m e of
       Some old \<Rightarrow> if sigma \<noteq> 0 \<and> tv_within_sigma tv old sigma then m else m(e \<mapsto> tv)
     | None \<Rightarrow> m(e \<mapsto> tv))"
| "sched_spec m (Sched_Remove e) r m' \<longleftrightarrow> r = None \<and> m' = m(e := None)"
| "sched_spec m Sched_Earliest r m' \<longleftrightarrow> m' = m \<and>
     (case r of None \<Rightarrow> m = Map.empty
      | Some (e, tv) \<Rightarrow> m e = Some tv \<and> (\<forall>x tv'. m x = Some tv' \<longrightarrow> tv_le tv tv'))"

text \<open>With \<open>n\<close> entries, \<open>n\<close> different priorities among the numbers drawn are enough for every call.\<close>

fun sched_legal :: "nat \<Rightarrow> sched_op \<Rightarrow> bool" where
  "sched_legal n (Sched_Add e tv sigma rnd) \<longleftrightarrow> e < n \<and> n \<le> card (set (map (\<lambda>r. if r < 1 then 1 else r) rnd))"
| "sched_legal n _ \<longleftrightarrow> True"

lemma treap_keep:
  assumes "treap s t" "sc_mem s' = sc_mem s" "sc_root s' = sc_root s"
  shows "treap s' t" "wakeups s' = wakeups s"
proof -
  have p: "pri_of s' = pri_of s" "unlinked s' = unlinked s" "before s' = before s"
    using assms(2) by (auto simp: pri_of_def unlinked_def before_def fun_eq_iff)
  show "treap s' t" using assms p by (simp add: treap_def tree_of_def heap_ord_def sorted_by_def)
  show "wakeups s' = wakeups s" using assms(2) p by (simp add: wakeups_def IN_TREE_def fun_eq_iff)
qed

lemma draw_exists:
  assumes "dom (wakeups s) \<subseteq> {..<n}" "e < n" "n \<le> card (pri_from ` set rnd)"
  shows "\<exists>r \<in> set rnd. draw_free s e tv r"
proof -
  let ?B = "(\<lambda>x. se_pri (sc_mem s x)) ` ({..<n} - {e})"
  have "card ?B \<le> card ({..<n} - {e})" by (rule card_image_le) simp
  also have "\<dots> < n" using assms(2) by simp
  finally have "\<not> pri_from ` set rnd \<subseteq> ?B" using assms(3) card_mono[of ?B "pri_from ` set rnd"] by fastforce
  then obtain r where r: "r \<in> set rnd" "pri_from r \<notin> ?B" by blast
  have "draw_free s e tv r"
    unfolding draw_free_def
  proof (intro allI impI)
    fix x assume x: "x \<noteq> e \<and> wakeups s x = Some tv"
    then have "x \<in> {..<n} - {e}" using assms(1) by auto
    then have "se_pri (sc_mem s x) \<noteq> pri_from r" using r(2) by (metis imageI)
    then show "se_pri (sc_mem s x) \<noteq> (if r < 1 then 1 else r)" by (simp add: pri_from_def)
  qed
  then show ?thesis using r(1) by blast
qed

lemma add_entry_ok:
  assumes "sched_inv s"
  shows "if IN_TREE s e \<and> sigma \<noteq> 0 \<and> tv_within_sigma tv (se_tv (sc_mem s e)) sigma
    then schedule_add_entry s e tv sigma rnd = Some (s, rnd)
    else if \<exists>r \<in> set rnd. draw_free s e tv r
    then \<exists>s' rnd'. schedule_add_entry s e tv sigma rnd = Some (s', rnd') \<and> sched_inv s' \<and> wakeups s' = (wakeups s)(e \<mapsto> tv)
    else schedule_add_entry s e tv sigma rnd = None"
proof -
  from assms obtain t where t: "treap s t" by (auto simp: sched_inv_def)
  note am = add_modify_ok[OF t, of rnd e tv]
  have inv: "sched_inv (s'\<lparr>earliest_wakeup := None\<rparr>)" "wakeups (s'\<lparr>earliest_wakeup := None\<rparr>) = wakeups s'"
    if "treap s' t'" for s' t'
    using treap_keep[OF that, of "s'\<lparr>earliest_wakeup := None\<rparr>"] by (auto simp: sched_inv_def)
  show ?thesis using am inv by (fastforce simp: schedule_add_entry_def split: if_splits)
qed

lemma remove_entry_ok:
  assumes "sched_inv s"
  shows "\<exists>s'. schedule_remove_entry s e = Some s' \<and> sched_inv s' \<and> wakeups s' = (wakeups s)(e := None)"
proof -
  from assms obtain t where t: "treap s t" by (auto simp: sched_inv_def)
  note k = treap_keep[OF t, of "s\<lparr>earliest_wakeup := None\<rparr>", simplified]
  from remove_inv[OF k(1), of e] k(2) show ?thesis by (auto simp: schedule_remove_entry_def sched_inv_def)
qed

lemma earliest_ok:
  assumes "sched_inv s"
  shows "\<exists>r s'. schedule_get_earliest_wakeup s = Some (r, s') \<and> sched_inv s' \<and> wakeups s' = wakeups s \<and>
    sched_spec (wakeups s) Sched_Earliest r (wakeups s')"
proof -
  from assms obtain t where t: "treap s t" and c: "case earliest_wakeup s of None \<Rightarrow> True | Some e \<Rightarrow> \<exists>xs. inorder t = e # xs"
    by (auto simp: sched_inv_def)
  define ret where "ret = (case inorder t of [] \<Rightarrow> None | e # xs \<Rightarrow> Some e)"
  have g: "schedule_get_earliest_wakeup s = Some (map_option (\<lambda>e. (e, se_tv (sc_mem s e))) ret, s\<lparr>earliest_wakeup := ret\<rparr>)"
    using c find_least_ok[OF t] by (auto simp: schedule_get_earliest_wakeup_def ret_def split: option.splits)
  note k = treap_keep[OF t, of "s\<lparr>earliest_wakeup := ret\<rparr>", simplified]
  have i: "sched_inv (s\<lparr>earliest_wakeup := ret\<rparr>)"
    unfolding sched_inv_def using k(1) by (intro exI[of _ t]) (auto simp: ret_def split: list.split)
  have "sched_spec (wakeups s) Sched_Earliest (map_option (\<lambda>e. (e, se_tv (sc_mem s e))) ret) (wakeups s)"
  proof (cases "inorder t")
    case Nil
    then have "x \<notin> set_tree t" for x by (metis empty_iff list.set(1) set_inorder)
    then have "wakeups s x = None" for x using t by (auto simp: treap_def wakeups_def IN_TREE_pri)
    then show ?thesis using Nil by (auto simp: ret_def fun_eq_iff)
  next
    case (Cons e xs)
    then have "e \<in> set_tree t" by (metis list.set_intros(1) set_inorder)
    then have "wakeups s e = Some (se_tv (sc_mem s e))" using t by (simp add: treap_def wakeups_def IN_TREE_pri)
    then show ?thesis using Cons least_ok[OF t Cons] by (auto simp: ret_def)
  qed
  then show ?thesis using g i k(2) by auto
qed

definition blank_entry :: schedule_entry where
  "blank_entry = \<lparr>se_tv = tv_clear, se_pri = 0, se_parent = None, se_lt = None, se_gt = None\<rparr>"

lemma sched_init_inv: "sched_inv (schedule_init (\<lambda>_. blank_entry))" "wakeups (schedule_init (\<lambda>_. blank_entry)) = Map.empty"
proof -
  let ?s = "schedule_init (\<lambda>_. blank_entry)"
  have "treap ?s Leaf"
    by (simp add: treap_def tree_of_def sorted_by_def heap_ord_def pri_of_def unlinked_def schedule_init_def blank_entry_def)
  then show "sched_inv ?s" by (auto simp: sched_inv_def schedule_init_def)
  show "wakeups ?s = Map.empty" by (simp add: wakeups_def fun_eq_iff IN_TREE_def schedule_init_def blank_entry_def)
qed

interpretation scheduler: relational_simulation "\<lambda>s. sched_inv s \<and> dom (wakeups s) \<subseteq> {..<n}" wakeups "sched_legal n" sched_step sched_spec
proof
  fix s x assume s: "sched_inv s \<and> dom (wakeups s) \<subseteq> {..<n}" and x: "sched_legal n x"
  show "\<exists>r s'. sched_step s x = Some (r, s') \<and> (sched_inv s' \<and> dom (wakeups s') \<subseteq> {..<n}) \<and> sched_spec (wakeups s) x r (wakeups s')"
  proof (cases x)
    case (Sched_Add e tv sigma rnd)
    then have e: "e < n" "n \<le> card (pri_from ` set rnd)" using x by (simp_all add: pri_from_def[abs_def])
    have d: "\<exists>r \<in> set rnd. draw_free s e tv r" by (rule draw_exists[OF _ e]) (use s in simp)
    have w: "wakeups s e = (if IN_TREE s e then Some (se_tv (sc_mem s e)) else None)" by (simp add: wakeups_def)
    show ?thesis
    proof (cases "IN_TREE s e \<and> sigma \<noteq> 0 \<and> tv_within_sigma tv (se_tv (sc_mem s e)) sigma")
      case True
      then show ?thesis using add_entry_ok[of s e sigma tv rnd] s Sched_Add w by simp
    next
      case False
      obtain s' rnd' where a: "schedule_add_entry s e tv sigma rnd = Some (s', rnd')" "sched_inv s'" "wakeups s' = (wakeups s)(e \<mapsto> tv)"
        using add_entry_ok[OF conjunct1[OF s], of e sigma tv rnd] unfolding if_not_P[OF False] if_P[OF d] by blast
      have "sched_spec (wakeups s) x None (wakeups s')" using False a(3) Sched_Add w by (auto split: option.split)
      moreover have "dom (wakeups s') \<subseteq> {..<n}" using s a(3) e(1) by auto
      ultimately show ?thesis using a Sched_Add by auto
    qed
  next
    case (Sched_Remove e)
    moreover obtain s' where a: "schedule_remove_entry s e = Some s'" "sched_inv s'" "wakeups s' = (wakeups s)(e := None)"
      using remove_entry_ok[of s e] s by blast
    moreover have "dom (wakeups s') \<subseteq> {..<n}" using s a(3) by (auto split: if_splits)
    ultimately show ?thesis by auto
  next
    case Sched_Earliest
    from earliest_ok[of s] s obtain r s' where "schedule_get_earliest_wakeup s = Some (r, s')" "sched_inv s'" "wakeups s' = wakeups s"
      "sched_spec (wakeups s) Sched_Earliest r (wakeups s')" by blast
    then show ?thesis using s Sched_Earliest by (intro exI[of _ r] exI[of _ s']) simp
  qed
qed

text \<open>C5: the scheduler is a priority queue of wakeup times: every sequence of add, remove and
  query calls returns, and answers as the map from entries to times does, the query with an
  entry of least time.\<close>

theorem schedule_is_priority_queue:
  assumes "\<forall>x \<in> set ops. sched_legal n x"
  shows "\<exists>rs s'. run_ops sched_step (schedule_init (\<lambda>_. blank_entry)) ops = Some (rs, s') \<and>
    run_rel sched_spec Map.empty ops rs (wakeups s')"
  using scheduler.run_simulates[of "schedule_init (\<lambda>_. blank_entry)" n ops] sched_init_inv assms by auto

definition demo_ops :: "sched_op list" where
  "demo_ops = [Sched_Add 0 (Timeval 9 0) 0 [5, 6], Sched_Add 1 (Timeval 7 0) 0 [3, 4],
     Sched_Earliest, Sched_Remove 1, Sched_Earliest]"

lemma schedule_is_priority_queue_witness:
  "\<exists>rs s'. run_ops sched_step (schedule_init (\<lambda>_. blank_entry)) demo_ops = Some (rs, s') \<and>
    run_rel sched_spec Map.empty demo_ops rs (wakeups s')"
  by (rule schedule_is_priority_queue[of _ 2]) (simp add: demo_ops_def)

text \<open>C28: adding an entry draws priorities until one differs from those of the entries with the same
  time, and returns exactly when such a draw comes.\<close>

theorem schedule_add_returns_iff:
  assumes "sched_inv s" "\<not> (IN_TREE s e \<and> sigma \<noteq> 0 \<and> tv_within_sigma tv (se_tv (sc_mem s e)) sigma)"
  shows "(\<exists>s' rnd'. schedule_add_entry s e tv sigma rnd = Some (s', rnd')) \<longleftrightarrow>
    (\<exists>r \<in> set rnd. \<forall>x. x \<noteq> e \<and> wakeups s x = Some tv \<longrightarrow> se_pri (sc_mem s x) \<noteq> (if r < 1 then 1 else r))"
  using add_entry_ok[OF assms(1), of e sigma tv rnd] assms(2) unfolding draw_free_def[symmetric]
  by (auto split: if_splits)

lemma schedule_add_returns_iff_witness:
  "\<not> (\<exists>s' rnd'. schedule_add_entry (schedule_init (\<lambda>_. blank_entry)) 0 (Timeval 1 0) 0 [] = Some (s', rnd'))"
  by (subst schedule_add_returns_iff) (use sched_init_inv in simp_all)

end
