(* ===== verification/Session_Cookie.thy ===== *)
theory Session_Cookie
  imports Reliable
begin

text \<open>
  The stateless cookie of a server (\<^verbatim>\<open>ssl_pkt.c\<close>): before it keeps anything about a client, the
  server answers its first packet with a session id that is an HMAC of the time, the client's
  address and the client's session id, and it goes on when a later packet acknowledges that id.

  HMAC-SHA256 under the server's key is the argument \<open>hm\<close>, a function of all the bytes given to
  \<^verbatim>\<open>hmac_ctx_update\<close>; \<^verbatim>\<open>now\<close> is an argument. Of \<^verbatim>\<open>struct tls_pre_decrypt_state\<close> the fields that are
  used are there. A division by zero is \<open>None\<close>; the time and the hand window are not negative, for
  which \<open>div\<close> is C's division, and the hand window is below \<^verbatim>\<open>INT_MAX\<close>. The byte order is that of a little-endian host.
\<close>

unbundle bit_operations_syntax

section \<open>The cookie\<close>

text \<open>The bytes of \<^verbatim>\<open>struct sockaddr_in\<close> or \<^verbatim>\<open>struct sockaddr_in6\<close>; other families are not hashed.\<close>

datatype openvpn_sockaddr = AF_INET "byte list" | AF_INET6 "byte list" | AF_OTHER

fun sockaddr_bytes :: "openvpn_sockaddr \<Rightarrow> byte list" where
  "sockaddr_bytes (AF_INET in4) = in4"
| "sockaddr_bytes (AF_INET6 in6) = in6"
| "sockaddr_bytes AF_OTHER = []"

record tls_pre_decrypt_state =
  newbuf :: buffer
  peer_session_id :: session_id
  server_session_id :: session_id

text \<open>\<^verbatim>\<open>ntohl\<close> of the 32-bit time, stored by a little-endian host, is the time in network order.\<close>

definition calculate_session_id_hmac ::
  "(byte list \<Rightarrow> byte list) \<Rightarrow> int \<Rightarrow> session_id \<Rightarrow> openvpn_sockaddr \<Rightarrow> int \<Rightarrow> int \<Rightarrow> session_id option" where
  "calculate_session_id_hmac hm now client_sid from handwindow offset =
     (let quantum = (handwindow + 1) div 2 in
      if quantum = 0 then None
      else let session_id_time = enc32 (of_int (now div quantum + offset))
           in Some (take SID_SIZE (hm (session_id_time @ sockaddr_bytes from @ client_sid))))"

text \<open>The loop of \<^verbatim>\<open>memcmp_constant_time\<close>: the bits in which two bytes differ are collected.\<close>

definition memcmp_constant_time :: "byte list \<Rightarrow> byte list \<Rightarrow> nat \<Rightarrow> byte" where
  "memcmp_constant_time a b n = fold (\<lambda>i diff. diff OR (a ! i XOR b ! i)) [0..<n] 0"

text \<open>\<^verbatim>\<open>for (int offset = -2; offset <= 1; offset++)\<close>\<close>

fun check_offsets :: "(int \<Rightarrow> session_id option) \<Rightarrow> session_id \<Rightarrow> int list \<Rightarrow> bool option" where
  "check_offsets expected_id sid [] = Some False"
| "check_offsets expected_id sid (offset # offsets) =
     (case expected_id offset of
        None \<Rightarrow> None
      | Some expected \<Rightarrow>
          if memcmp_constant_time expected sid SID_SIZE \<noteq> 0 then Some True
          else check_offsets expected_id sid offsets)"

definition check_session_id_hmac ::
  "(byte list \<Rightarrow> byte list) \<Rightarrow> int \<Rightarrow> tls_pre_decrypt_state \<Rightarrow> openvpn_sockaddr option \<Rightarrow> int
   \<Rightarrow> (bool \<times> tls_pre_decrypt_state) option" where
  "check_session_id_hmac hm now state from handwindow =
     (case from of
        None \<Rightarrow> Some (False, state)
      | Some addr \<Rightarrow>
          (case reliable_ack_parse (newbuf state) (server_session_id state) of
             ((ok, ack, sid), buf) \<Rightarrow>
               let state1 = state\<lparr>server_session_id := sid\<rparr> in
               if \<not> ok then Some (False, state1)
               else map_option (\<lambda>valid. (valid, state1))
                 (check_offsets (calculate_session_id_hmac hm now (peer_session_id state) addr handwindow)
                   (server_session_id state1) [- 2, - 1, 0, 1])))"

section \<open>What the check accepts\<close>

lemma memcmp_zero:
  assumes "length a = n" "length b = n"
  shows "memcmp_constant_time a b n = 0 \<longleftrightarrow> a = b"
proof -
  have x: "u XOR v = 0 \<longleftrightarrow> u = v" for u v :: byte
    by (auto simp: bit_eq_iff bit_simps)
  have f: "fold (\<lambda>i diff. diff OR (a ! i XOR b ! i)) xs d = 0 \<longleftrightarrow> d = 0 \<and> (\<forall>i \<in> set xs. a ! i = b ! i)" for xs and d :: byte
  proof (induction xs arbitrary: d)
    case (Cons i xs)
    show ?case unfolding fold_simps(2) Cons.IH or_eq_0_iff x list.set(2) by blast
  qed simp
  have "a = b \<longleftrightarrow> (\<forall>i \<in> set [0..<n]. a ! i = b ! i)" using assms by (simp add: list_eq_iff_nth_eq[of a b] Ball_def)
  then show ?thesis unfolding memcmp_constant_time_def f by blast
qed

lemma check_offsets_differs:
  assumes "length sid = SID_SIZE" "\<And>x. expected_id x = Some (e x)" "\<And>x. length (e x) = SID_SIZE"
  shows "check_offsets expected_id sid xs = Some (\<exists>x \<in> set xs. sid \<noteq> e x)"
  by (induction xs) (use assms in \<open>auto simp: memcmp_zero\<close>)

definition cookie :: "(byte list \<Rightarrow> byte list) \<Rightarrow> int \<Rightarrow> session_id \<Rightarrow> openvpn_sockaddr \<Rightarrow> int \<Rightarrow> int \<Rightarrow> session_id" where
  "cookie hm now client_sid from handwindow offset = the (calculate_session_id_hmac hm now client_sid from handwindow offset)"

text \<open>The check of the cookie is inverted. It is meant to accept a packet that acknowledges one of the
  four session ids the server may have sent; \<^verbatim>\<open>memcmp_constant_time\<close> returns zero for equal data,
  and the check accepts the packet exactly if its session id differs from one of the four. So it
  accepts every session id, made up without any knowledge of the key, as soon as the HMACs of two
  of the four times differ.\<close>

lemma cookie_check_inverted:
  assumes "0 \<le> now" "0 < handwindow" "handwindow < 2 ^ 31 - 1" "\<And>m. SID_SIZE \<le> length (hm m)"
    and parse: "reliable_ack_parse (newbuf state) (server_session_id state) = ((True, ack, sid), buf)" "length sid = SID_SIZE"
  shows "check_session_id_hmac hm now state (Some addr) handwindow =
      Some (\<exists>offset \<in> {- 2, - 1, 0, 1}. sid \<noteq> cookie hm now (peer_session_id state) addr handwindow offset,
            state\<lparr>server_session_id := sid\<rparr>)
    \<and> (cookie hm now (peer_session_id state) addr handwindow (- 1) \<noteq> cookie hm now (peer_session_id state) addr handwindow 0
       \<longrightarrow> check_session_id_hmac hm now state (Some addr) handwindow = Some (True, state\<lparr>server_session_id := sid\<rparr>))"
proof -
  let ?e = "cookie hm now (peer_session_id state) addr handwindow"
  have "(handwindow + 1) div 2 \<noteq> 0" using assms(2) by simp
  then have e: "calculate_session_id_hmac hm now (peer_session_id state) addr handwindow x = Some (?e x)"
    "length (?e x) = SID_SIZE" for x
    using assms(4) by (simp_all add: calculate_session_id_hmac_def cookie_def Let_def)
  have c: "check_offsets (calculate_session_id_hmac hm now (peer_session_id state) addr handwindow) sid [- 2, - 1, 0, 1] =
      Some (\<exists>offset \<in> {- 2, - 1, 0, 1}. sid \<noteq> ?e offset)"
    using check_offsets_differs[OF parse(2) e, where xs = "[- 2, - 1, 0, 1]"] by (simp only: list.set)
  have "check_session_id_hmac hm now state (Some addr) handwindow =
      map_option (\<lambda>valid. (valid, state\<lparr>server_session_id := sid\<rparr>))
        (check_offsets (calculate_session_id_hmac hm now (peer_session_id state) addr handwindow) sid [- 2, - 1, 0, 1])"
    using parse by (simp add: check_session_id_hmac_def del: check_offsets.simps)
  then have s: "check_session_id_hmac hm now state (Some addr) handwindow =
      Some (\<exists>offset \<in> {- 2, - 1, 0, 1}. sid \<noteq> ?e offset, state\<lparr>server_session_id := sid\<rparr>)"
    unfolding c by simp
  have "?e (- 1) \<noteq> ?e 0 \<Longrightarrow> \<exists>offset \<in> {- 2, - 1, 0, 1}. sid \<noteq> ?e offset" by auto
  then show ?thesis unfolding s by blast
qed

text \<open>
  A packet that acknowledges packet 0 of the session 1, 1, 1, 1, 1, 1, 1, 1, which no server has; the
  HMAC is the first bytes of the message.
\<close>

definition demo_state :: tls_pre_decrypt_state where
  "demo_state = \<lparr>newbuf = \<lparr>bf_cap = 13, bf_off = 0, bf_len = 13,
       bf_data = Some ([1, 0, 0, 0, 0] @ replicate 8 1)\<rparr>, peer_session_id = replicate 8 7, server_session_id = replicate 8 0\<rparr>"

definition demo_mac :: "byte list \<Rightarrow> byte list" where
  "demo_mac m = take 32 (m @ replicate 32 0)"

lemma cookie_check_inverted_example:
  "check_session_id_hmac demo_mac 1000 demo_state (Some (AF_INET [2, 0, 4, 170, 10, 0, 0, 1])) 60 =
     Some (True, demo_state\<lparr>server_session_id := replicate 8 1\<rparr>)"
proof -
  have p: "fst (reliable_ack_parse (newbuf demo_state) (server_session_id demo_state)) = (True, [0], replicate 8 1)" by code_simp
  obtain buf where b: "reliable_ack_parse (newbuf demo_state) (server_session_id demo_state) = ((True, [0], replicate 8 1), buf)"
    using p by (metis prod.collapse)
  have l: "\<And>m. SID_SIZE \<le> length (demo_mac m)" by (simp add: demo_mac_def SID_SIZE_def)
  have "cookie demo_mac 1000 (peer_session_id demo_state) (AF_INET [2, 0, 4, 170, 10, 0, 0, 1]) 60 (- 1) \<noteq>
      cookie demo_mac 1000 (peer_session_id demo_state) (AF_INET [2, 0, 4, 170, 10, 0, 0, 1]) 60 0" by code_simp
  then show ?thesis using cookie_check_inverted[OF _ _ _ l b, where handwindow = 60 and now = 1000 and addr = "AF_INET [2, 0, 4, 170, 10, 0, 0, 1]"]
    by (simp add: SID_SIZE_def)
qed

end
