(* ===== verification/Ip_Packet.thy ===== *)
theory Ip_Packet
  imports Mroute
begin

text \<open>
  IP packets and their checksums, \<^verbatim>\<open>proto.h\<close> and \<^verbatim>\<open>proto.c\<close>: 16-bit header fields in
  memory, the incremental update \<^verbatim>\<open>ADJUST_CHECKSUM\<close>, the reference \<^verbatim>\<open>ip_checksum\<close>, and the
  search for the IP header in a frame. The lemmas say that the update moves the sum of a
  block, modulo 65535, by the difference of the words replaced, and that blocks whose sums
  agree have the same checksum.
\<close>

unbundle bit_operations_syntax

section \<open>Words in memory\<close>

text \<open>
  A 16-bit field of a packed header is loaded and stored in the byte order of the host, which is
  little endian on every platform the program is built for here; \<^verbatim>\<open>htons\<close> swaps the bytes.
\<close>

definition htons :: "u16 \<Rightarrow> u16" where
  "htons w = push_bit 8 w OR drop_bit 8 w"

definition ld16 :: "byte list \<Rightarrow> nat \<Rightarrow> u16" where
  "ld16 p i = of_nat (unat (p ! i) + 256 * unat (p ! Suc i))"

definition st16 :: "byte list \<Rightarrow> nat \<Rightarrow> u16 \<Rightarrow> byte list" where
  "st16 p i w = mem_put p i [ucast w, ucast (drop_bit 8 w)]"

definition be16 :: "byte list \<Rightarrow> nat \<Rightarrow> int" where
  "be16 p i = 256 * uint (p ! i) + uint (p ! Suc i)"

lemma byte_range: "0 \<le> uint (b :: byte)" "uint (b :: byte) < 256"
  using uint_bounded[of b] by simp_all

lemma uint_drop: "uint (drop_bit n w) = uint w div 2 ^ n" for w :: "'a::len word"
proof -
  have "take_bit LENGTH('a) (uint w) = uint w" by (simp only: take_bit_int_eq_self_iff) (simp add: uint_lt2p)
  then show ?thesis unfolding unsigned_drop_bit_eq by (simp only: drop_bit_eq_div)
qed

lemma uint_push: "uint (push_bit n w) = (uint w * 2 ^ n) mod 2 ^ LENGTH('a)" for w :: "'a::len word"
  unfolding unsigned_push_bit_eq by (simp only: take_bit_eq_mod push_bit_eq_mult)

lemma uint_ucast_mod: "uint (ucast w :: 'b::len word) = uint w mod 2 ^ LENGTH('b)" for w :: "'a::len word"
  unfolding unsigned_ucast_eq by (simp only: take_bit_eq_mod)

lemma uint_div_nonneg [simp]: "0 \<le> uint w div 2 ^ n" "0 \<le> uint w div numeral k"
  by (simp_all add: pos_imp_zdiv_nonneg_iff)

lemma uint_div_less: "uint w < k * n \<Longrightarrow> 0 < n \<Longrightarrow> uint w div n < k"
  using mult_div_mod_eq[of n "uint w"] pos_mod_sign[of n "uint w"]
  by (metis add_increasing2 mult.commute mult_less_cancel_left_pos not_less order_less_le_trans order_refl zero_le_mult_iff)

lemma uint_ld16: "uint (ld16 p i) = uint (p ! i) + 256 * uint (p ! Suc i)"
proof -
  have "unat (p ! i) + 256 * unat (p ! Suc i) < 2 ^ 16"
    using unat_bound[of "p ! i"] unat_bound[of "p ! Suc i"] by simp
  then have "unat (ld16 p i) = unat (p ! i) + 256 * unat (p ! Suc i)"
    unfolding ld16_def unat_of_nat by simp
  then show ?thesis by (metis int_ops(7) int_plus of_nat_numeral uint_nat)
qed

lemma uint_split16: "uint (w :: u16) = uint (ucast w :: byte) + 256 * uint (ucast (drop_bit 8 w) :: byte)"
proof -
  have "0 \<le> uint w" "uint w < 65536" using uint_bounded[of w] by simp_all
  then have "uint w div 256 mod 256 = uint w div 256"
    by (intro mod_pos_pos_trivial uint_div_less) simp_all
  then show ?thesis using mult_div_mod_eq[of 256 "uint w"] by (simp add: uint_ucast_mod uint_drop)
qed

lemma uint_htons: "uint (htons w) = 256 * uint (ucast w :: byte) + uint (ucast (drop_bit 8 w) :: byte)"
proof -
  let ?l = "uint (ucast w :: byte)" and ?h = "uint (ucast (drop_bit 8 w) :: byte)"
  have "push_bit 8 w OR drop_bit 8 w = push_bit 8 w + drop_bit 8 w"
  proof (rule disjunctive_add_eq_or[symmetric])
    show "push_bit 8 w AND drop_bit 8 w = 0"
      by (rule bit_word_eqI) (auto simp: bit_simps dest: bit_imp_le_length)
  qed
  then have "uint (htons w) = (uint (push_bit 8 w) + uint (drop_bit 8 w)) mod 65536"
    by (simp add: htons_def uint_word_ariths)
  moreover have "uint (push_bit 8 w) = 256 * ?l"
  proof -
    have "uint (push_bit 8 w) = (uint w * 256) mod 65536" unfolding uint_push by simp
    also have "\<dots> = 256 * (uint w mod 256)" using mod_mult_mult2[of "uint w" 256 256] by simp
    also have "uint w mod 256 = ?l" unfolding uint_ucast_mod by simp
    finally show ?thesis .
  qed
  moreover have "uint (drop_bit 8 w) = ?h"
  proof -
    have "0 \<le> uint w" "uint w < 65536" using uint_bounded[of w] by simp_all
    then have "uint w div 256 mod 256 = uint w div 256"
      by (intro mod_pos_pos_trivial uint_div_less) simp_all
    then show ?thesis unfolding uint_ucast_mod uint_drop by simp
  qed
  ultimately show ?thesis using byte_range[of "ucast w"] byte_range[of "ucast (drop_bit 8 w)"] by simp
qed

text \<open>Swapping the bytes is multiplication by 256 in the arithmetic of the checksum.\<close>

lemma htons_mod: "uint (htons w) mod 65535 = 256 * uint w mod 65535"
proof -
  have "256 * uint w = uint (htons w) + 65535 * uint (ucast (drop_bit 8 w) :: byte)"
    by (subst uint_split16, subst uint_htons) simp
  then show ?thesis by (metis mod_mult_self2)
qed

lemma be16_ld16: "be16 p i mod 65535 = 256 * uint (ld16 p i) mod 65535"
proof -
  have "256 * uint (ld16 p i) = be16 p i + 65535 * uint (p ! Suc i)" by (simp add: uint_ld16 be16_def)
  then show ?thesis by (metis mod_mult_self2)
qed

section \<open>The Internet checksum\<close>

definition ADJUST_CHECKSUM :: "int \<Rightarrow> u16 \<Rightarrow> u16" where
  "ADJUST_CHECKSUM acc cksum =
     (let a = acc + uint cksum in
      if a < 0
      then let b = - a; c = b div 65536 + b mod 65536; d = c + c div 65536 in NOT (word_of_int d)
      else let c = a div 65536 + a mod 65536; d = c + c div 65536 in word_of_int d)"

definition ADD_CHECKSUM_32 :: "int \<Rightarrow> u32 \<Rightarrow> int" where
  "ADD_CHECKSUM_32 acc w = acc + uint (w AND 0xFFFF) + uint (drop_bit 16 w)"

definition SUB_CHECKSUM_32 :: "int \<Rightarrow> u32 \<Rightarrow> int" where
  "SUB_CHECKSUM_32 acc w = acc - uint (w AND 0xFFFF) - uint (drop_bit 16 w)"

lemma fold_once:
  fixes a :: int
  shows "(a div 65536 + a mod 65536) mod 65535 = a mod 65535" "0 \<le> a \<Longrightarrow> 0 \<le> a div 65536 + a mod 65536"
    "a < 2 ^ 31 \<Longrightarrow> a div 65536 + a mod 65536 < 98304"
    "0 \<le> a \<Longrightarrow> a div 65536 \<noteq> 0 \<Longrightarrow> a mod 65536 + a div 65536 < a"
proof -
  have e: "a = 65536 * (a div 65536) + a mod 65536" by simp
  have m: "0 \<le> a mod 65536" "a mod 65536 < 65536" by simp_all
  have "a = (a div 65536 + a mod 65536) + 65535 * (a div 65536)" using e by linarith
  then show "(a div 65536 + a mod 65536) mod 65535 = a mod 65535" by (metis mod_mult_self2)
  show "0 \<le> a div 65536 + a mod 65536" if "0 \<le> a" using that by simp
  show "a div 65536 + a mod 65536 < 98304" if "a < 2 ^ 31"
  proof -
    have "a < 2147483648" using that by simp
    then have "a div 65536 < 32768" using e m by linarith
    then show ?thesis using m(2) by linarith
  qed
  show "a mod 65536 + a div 65536 < a" if "0 \<le> a" "a div 65536 \<noteq> 0"
  proof -
    have "0 \<le> a div 65536" using that(1) by simp
    then have "1 \<le> a div 65536" using that(2) by linarith
    then show ?thesis using e by linarith
  qed
qed

lemma fold_twice:
  fixes a :: int
  assumes "0 \<le> a" "a < 2 ^ 31"
  defines "c \<equiv> a div 65536 + a mod 65536"
  shows "(c + c div 65536) mod 65536 mod 65535 = a mod 65535"
proof -
  have c: "0 \<le> c" "c < 98304" "c mod 65535 = a mod 65535"
    using fold_once(1-3)[of a] assms by (simp_all add: c_def)
  show ?thesis
  proof (cases "c < 65536")
    case True
    then have d: "c div 65536 = 0" "c mod 65536 = c" using c(1) by (auto intro: div_pos_pos_trivial mod_pos_pos_trivial)
    show ?thesis by (simp only: d add_0_right c(3))
  next
    case False
    have d: "c div 65536 = 1"
      using False c(2) mult_div_mod_eq[of 65536 c] pos_mod_bound[of 65536 c] pos_mod_sign[of 65536 c] by linarith
    have "(c + 1) mod 65536 = (c - 65535 + 65536) mod 65536" by (rule arg_cong[where f = "\<lambda>x. x mod 65536"]) simp
    also have "\<dots> = (c - 65535) mod 65536" by (rule mod_add_self2)
    also have "\<dots> = c - 65535" using False c(2) by (intro mod_pos_pos_trivial) simp_all
    finally have "(c + c div 65536) mod 65536 mod 65535 = (c - 65535) mod 65535" by (simp only: d)
    also have "\<dots> = c mod 65535" by (rule minus_mod_self2)
    finally show ?thesis by (simp only: c(3))
  qed
qed

lemma uint_not16: "uint (NOT w) = 65535 - uint w" for w :: u16
proof -
  have "NOT w = - 1 - w" by (simp add: not_eq_complement)
  then have "uint (NOT w) = (65535 - uint w) mod 65536" by (simp add: uint_word_ariths)
  also have "\<dots> = 65535 - uint w" using uint_bounded[of w] by (intro mod_pos_pos_trivial) (simp_all add: order_less_le_trans[OF _ uint_ge_0])
  finally show ?thesis .
qed

lemma ADJUST_CHECKSUM_mod:
  assumes "\<bar>acc + uint ck\<bar> < 2 ^ 31"
  shows "uint (ADJUST_CHECKSUM acc ck) mod 65535 = (acc + uint ck) mod 65535"
proof -
  define a where "a = acc + uint ck"
  define g where "g = (\<lambda>b :: int. b div 65536 + b mod 65536 + (b div 65536 + b mod 65536) div 65536)"
  have A: "ADJUST_CHECKSUM acc ck = (if a < 0 then NOT (word_of_int (g (- a))) else word_of_int (g a))"
    by (simp only: ADJUST_CHECKSUM_def Let_def a_def[symmetric] g_def)
  show ?thesis
  proof (cases "a < 0")
    case False
    have "uint (ADJUST_CHECKSUM acc ck) = g a mod 65536" using False by (simp add: A uint_word_of_int)
    then show ?thesis using fold_twice[of a] False assms unfolding a_def[symmetric] g_def by (simp only: not_less abs_of_nonneg)
  next
    case True
    have b: "g (- a) mod 65536 mod 65535 = - a mod 65535"
      using fold_twice[of "- a"] True assms unfolding a_def[symmetric] g_def by (simp only: abs_of_neg neg_0_le_iff_le order_less_imp_le)
    have "uint (ADJUST_CHECKSUM acc ck) = 65535 - g (- a) mod 65536"
      using True by (simp add: A uint_not16 uint_word_of_int)
    then have "uint (ADJUST_CHECKSUM acc ck) mod 65535 = (65535 - g (- a) mod 65536 mod 65535) mod 65535"
      by (metis mod_diff_right_eq)
    also have "\<dots> = (65535 - (- a)) mod 65535" unfolding b by (rule mod_diff_right_eq)
    also have "\<dots> = a mod 65535" by simp
    finally show ?thesis by (simp only: a_def)
  qed
qed

text \<open>\<^verbatim>\<open>ip_checksum\<close>: two bytes a round, the last one padded.\<close>

fun add_words :: "u32 \<Rightarrow> byte list \<Rightarrow> u32" where
  "add_words s (a # b # xs) = add_words (s + (ucast ((push_bit 8 (ucast a) AND 0xFF00) + (ucast b AND 0xFF) :: u16))) xs"
| "add_words s [a] = s + ucast (push_bit 8 (ucast a :: u16) AND 0xFF00)"
| "add_words s [] = s"

lemma fold_step:
  fixes s :: u32
  shows "uint ((s AND 0xFFFF) + drop_bit 16 s) = uint s mod 65536 + uint s div 65536"
    "uint (drop_bit 16 s) = uint s div 65536"
proof -
  have m: "uint (s AND 0xFFFF) = uint s mod 65536"
  proof -
    have "s AND 0xFFFF = take_bit 16 s" by (simp add: take_bit_eq_mask mask_eq_exp_minus_1)
    then have "uint (s AND 0xFFFF) = take_bit 16 (uint s)" by (simp only: unsigned_take_bit_eq)
    then show ?thesis by (simp only: take_bit_eq_mod) simp
  qed
  show d: "uint (drop_bit 16 s) = uint s div 65536" unfolding uint_drop by simp
  have "uint s < 4294967296" using uint_bounded[of s] by simp
  then have "uint s div 65536 < 65536" by (intro uint_div_less) simp_all
  moreover have "uint s mod 65536 < 65536" by simp
  ultimately have "uint s mod 65536 + uint s div 65536 < 4294967296" by linarith
  moreover have "0 \<le> uint s mod 65536 + uint s div 65536" by simp
  ultimately show "uint ((s AND 0xFFFF) + drop_bit 16 s) = uint s mod 65536 + uint s div 65536"
    by (simp add: uint_word_ariths m d)
qed

function fold_sum :: "u32 \<Rightarrow> u32" where
  "fold_sum s = (if drop_bit 16 s \<noteq> 0 then fold_sum ((s AND 0xFFFF) + drop_bit 16 s) else s)"
  by pat_completeness auto

termination
proof (relation "measure (\<lambda>s. nat (uint s))", simp)
  fix s :: u32 assume "drop_bit 16 s \<noteq> 0"
  then have "uint s div 65536 \<noteq> 0" using fold_step(2)[of s] by (metis uint_0_iff)
  then have "uint s mod 65536 + uint s div 65536 < uint s" by (intro fold_once(4)) simp_all
  then show "((s AND 0xFFFF) + drop_bit 16 s, s) \<in> measure (\<lambda>s. nat (uint s))"
    unfolding in_measure fold_step(1) by (subst nat_less_eq_zless) simp_all
qed

declare fold_sum.simps [simp del]

definition ip_checksum :: "byte list \<Rightarrow> byte list \<Rightarrow> byte list \<Rightarrow> u32 \<Rightarrow> u16" where
  "ip_checksum payload src_addr dest_addr proto =
     (let total = add_words (add_words (add_words 0 payload) src_addr) dest_addr
              + ucast (of_nat (length payload) :: u16) + ucast (ucast proto :: u16)
      in NOT (ucast (fold_sum total)))"

fun be_sum :: "byte list \<Rightarrow> int" where
  "be_sum (a # b # xs) = 256 * uint a + uint b + be_sum xs"
| "be_sum [a] = 256 * uint a"
| "be_sum [] = 0"

lemma be_word:
  "uint ((push_bit 8 (ucast a) AND 0xFF00) + (ucast b AND 0xFF) :: u16) = 256 * uint (a :: byte) + uint (b :: byte)"
  "uint (push_bit 8 (ucast a :: u16) AND 0xFF00) = 256 * uint (a :: byte)"
proof -
  have b: "(ucast b AND 0xFF :: u16) = ucast b"
  proof -
    have "(ucast b AND 0xFF :: u16) = take_bit 8 (ucast b)" by (simp add: take_bit_eq_mask mask_eq_exp_minus_1)
    also have "\<dots> = ucast b" by (rule bit_word_eqI) (auto simp: bit_simps dest: bit_imp_le_length)
    finally show ?thesis .
  qed
  have c: "(ucast a AND 0xFF :: u16) = ucast a"
  proof -
    have "(ucast a AND 0xFF :: u16) = take_bit 8 (ucast a)" by (simp add: take_bit_eq_mask mask_eq_exp_minus_1)
    also have "\<dots> = ucast a" by (rule bit_word_eqI) (auto simp: bit_simps dest: bit_imp_le_length)
    finally show ?thesis .
  qed
  have a: "push_bit 8 (ucast a :: u16) AND 0xFF00 = push_bit 8 (ucast a)"
  proof -
    have "push_bit 8 (ucast a :: u16) AND push_bit 8 0xFF = push_bit 8 (ucast a)" by (simp only: push_bit_and[symmetric] c)
    then show ?thesis by simp
  qed
  have ua: "uint (push_bit 8 (ucast a :: u16)) = 256 * uint a"
    unfolding uint_push uint_ucast_mod using byte_range[of a] by simp
  have ub: "uint (ucast b :: u16) = uint b"
    unfolding uint_ucast_mod using byte_range[of b] by simp
  show "uint (push_bit 8 (ucast a :: u16) AND 0xFF00) = 256 * uint a" using a ua by simp
  show "uint ((push_bit 8 (ucast a) AND 0xFF00) + (ucast b AND 0xFF) :: u16) = 256 * uint a + uint b"
    unfolding a b using ua ub byte_range[of a] byte_range[of b] by (simp add: uint_word_ariths)
qed

lemma ucast_16_32: "uint (ucast (w :: u16) :: u32) = uint w"
  using uint_bounded[of w] by (simp add: unsigned_ucast_eq take_bit_eq_mod)

lemma uint_add16: "uint (s + ucast (w :: u16) :: u32) = (uint s + uint w) mod 4294967296"
  by (simp add: uint_word_ariths ucast_16_32)

lemma uint_add_words: "uint (add_words s xs) = (uint s + be_sum xs) mod 4294967296"
proof (induction s xs rule: add_words.induct)
  case (1 s a b xs)
  have "uint (s + ucast ((push_bit 8 (ucast a) AND 0xFF00) + (ucast b AND 0xFF) :: u16)) =
    (uint s + (256 * uint a + uint b)) mod 4294967296"
    by (simp only: uint_add16 be_word(1))
  then show ?case using 1 by (simp add: mod_add_left_eq add.assoc)
next
  case (2 s a)
  then show ?case by (simp add: uint_add16 be_word(2))
next
  case (3 s)
  have "0 \<le> uint s" "uint s < 4294967296" using uint_bounded[of s] by simp_all
  then show ?case by simp
qed

lemma fold_sum_value: "uint (fold_sum s) = (if s = 0 then 0 else (uint s - 1) mod 65535 + 1)"
proof (induction s rule: fold_sum.induct)
  case (1 s)
  let ?t = "(s AND 0xFFFF) + drop_bit 16 s"
  show ?case
  proof (cases "drop_bit 16 s \<noteq> 0")
    case True
    have d: "uint s div 65536 \<noteq> 0" using True fold_step(2)[of s] by (metis uint_0_iff)
    have "0 \<le> uint s" by simp
    have ts: "uint ?t = uint s - 65535 * (uint s div 65536)"
      using fold_step(1)[of s] mult_div_mod_eq[of 65536 "uint s"] by linarith
    have "0 < uint s div 65536" "0 \<le> uint s mod 65536" using d by (simp_all add: order_less_le)
    then have tp: "uint ?t \<noteq> 0" using fold_step(1)[of s] by linarith
    have "(uint ?t - 1) mod 65535 = (uint s - 1) mod 65535"
    proof -
      have "uint ?t - 1 = uint s - 1 - 65535 * (uint s div 65536)" using ts by simp
      then show ?thesis by (metis mod_diff_right_eq mod_mult_self1_is_0 diff_zero)
    qed
    moreover have "?t \<noteq> 0" "s \<noteq> 0" using tp d by auto
    ultimately show ?thesis using 1 True by (subst fold_sum.simps) simp
  next
    case False
    then have "uint s div 65536 = 0" using fold_step(2)[of s] by (metis uint_0_iff)
    then have "uint s < 65536" using mult_div_mod_eq[of 65536 "uint s"] pos_mod_bound[of 65536 "uint s"] by linarith
    moreover have "0 \<le> uint s" by simp
    moreover have "s \<noteq> 0 \<Longrightarrow> uint s \<noteq> 0" by (simp add: uint_0_iff)
    moreover have "s \<noteq> 0 \<Longrightarrow> (uint s - 1) mod 65535 = uint s - 1"
      using calculation by (intro mod_pos_pos_trivial) (simp_all add: order_less_le)
    ultimately show ?thesis using False by (subst fold_sum.simps) auto
  qed
qed

section \<open>Rewriting a word of a checksummed block\<close>

lemma be_sum_append: "even (length xs) \<Longrightarrow> be_sum (xs @ ys) = be_sum xs + be_sum ys"
  by (induction xs rule: be_sum.induct) auto

lemma be_sum_nonneg [simp]: "0 \<le> be_sum xs"
  by (induction xs rule: be_sum.induct) auto

lemma be_sum_bound: "be_sum xs \<le> 65535 * ((int (length xs) + 1) div 2)"
proof (induction xs rule: be_sum.induct)
  case (1 a b xs)
  have "(int (length (a # b # xs)) + 1) div 2 = (int (length xs) + 1) div 2 + 1" by simp
  then show ?case using 1 byte_range[of a] byte_range[of b] by simp
next
  case (2 a)
  then show ?case using byte_range[of a] by simp
qed simp

lemma be_sum_le: "length xs \<le> 2 * n \<Longrightarrow> be_sum xs \<le> 65535 * int n"
proof -
  assume "length xs \<le> 2 * n"
  then have "(int (length xs) + 1) div 2 \<le> int n" by linarith
  then have "65535 * ((int (length xs) + 1) div 2) \<le> 65535 * int n" by (intro mult_left_mono) simp_all
  then show ?thesis using be_sum_bound[of xs] by (rule order_trans[rotated])
qed

lemma split_at2: "Suc i < length p \<Longrightarrow> p = take i p @ [p ! i, p ! Suc i] @ drop (i + 2) p"
  by (simp add: Cons_nth_drop_Suc)

text \<open>What the block sums up to once the bytes of one of its words are replaced.\<close>

lemma be_sum_put:
  assumes "even i" "Suc i < length p"
  shows "be_sum (mem_put p i [a, b]) = be_sum p - be16 p i + (256 * uint a + uint b)"
proof -
  have e: "even (length (take i p))" using assms by (simp add: min_def)
  have "be_sum p = be_sum (take i p) + be_sum ([p ! i, p ! Suc i] @ drop (i + 2) p)"
    by (subst split_at2[OF assms(2)], subst be_sum_append[OF e]) (rule refl)
  then show ?thesis
    unfolding mem_put_def be_sum_append[OF e] by (simp add: be16_def)
qed

lemma be16_put: "be16 (mem_put p i [a, b]) i = 256 * uint a + uint b" if "Suc i < length p"
  using that by (simp add: be16_def mem_put_def nth_append)

lemma nth_put2:
  assumes "Suc i < length p" "j < length p"
  shows "mem_put p i [a, b] ! j = (if j = i then a else if j = Suc i then b else p ! j)"
proof -
  have "j \<noteq> i \<Longrightarrow> j \<noteq> Suc i \<Longrightarrow> i \<le> j \<Longrightarrow> Suc (Suc (j - 2)) = j" by arith
  then show ?thesis using assms by (auto simp: mem_put_def nth_append min_def nth_Cons' not_less)
qed

lemma length_put2 [simp]: "Suc i < length p \<Longrightarrow> length (mem_put p i [a, b]) = length p"
  by (simp add: length_mem_put)

lemma length_st16 [simp]: "Suc i < length p \<Longrightarrow> length (st16 p i w) = length p"
  by (simp add: st16_def)

lemma be_sum_st16:
  assumes "even i" "Suc i < length p"
  shows "be_sum (st16 p i w) mod 65535 = (be_sum p - be16 p i + 256 * uint w) mod 65535"
proof -
  have "256 * uint (ucast w :: byte) + uint (ucast (drop_bit 8 w) :: byte) = uint (htons w)" by (simp only: uint_htons)
  then have "be_sum (st16 p i w) = be_sum p - be16 p i + uint (htons w)"
    unfolding st16_def be_sum_put[OF assms] by simp
  then show ?thesis using htons_mod[of w] by (metis mod_add_right_eq)
qed

text \<open>
  The incremental update: \<open>acc\<close> is the old word less the new one, in the byte order of the
  host, and the checksum is a word of the block itself.
\<close>

lemma be_sum_ADJUST:
  assumes "even i" "Suc i < length p" "\<bar>acc + uint (ld16 p i)\<bar> < 2 ^ 31"
  shows "be_sum (st16 p i (ADJUST_CHECKSUM acc (ld16 p i))) mod 65535 = (be_sum p + 256 * acc) mod 65535"
proof -
  let ?w = "ADJUST_CHECKSUM acc (ld16 p i)"
  have a: "256 * uint ?w mod 65535 = (256 * acc + 256 * uint (ld16 p i)) mod 65535"
    by (metis ADJUST_CHECKSUM_mod[OF assms(3)] distrib_left mod_mult_right_eq)
  have "be_sum (st16 p i ?w) mod 65535 = (be_sum p - be16 p i + 256 * uint ?w) mod 65535"
    by (rule be_sum_st16[OF assms(1,2)])
  also have "\<dots> = (be_sum p - be16 p i + (256 * acc + 256 * uint (ld16 p i))) mod 65535"
    by (rule mod_add_cong[OF refl a])
  also have "be_sum p - be16 p i + (256 * acc + 256 * uint (ld16 p i)) = be_sum p + 256 * acc + (256 * uint (ld16 p i) - be16 p i)"
    by linarith
  also have "(be_sum p + 256 * acc + (256 * uint (ld16 p i) - be16 p i)) mod 65535 = (be_sum p + 256 * acc) mod 65535"
  proof -
    have "65535 dvd (256 * uint (ld16 p i) - be16 p i)"
      by (subst mod_eq_dvd_iff[symmetric]) (rule be16_ld16[symmetric])
    then obtain k where k: "256 * uint (ld16 p i) - be16 p i = 65535 * k" by (rule dvdE)
    show ?thesis unfolding k by (rule mod_mult_self2)
  qed
  finally show ?thesis .
qed

text \<open>Two blocks whose words sum up alike have the same checksum, whatever the pseudo header.\<close>

text \<open>The value of the reference function.\<close>

definition words_total :: "byte list \<Rightarrow> byte list \<Rightarrow> byte list \<Rightarrow> u32 \<Rightarrow> int" where
  "words_total p src dst proto = be_sum p + be_sum src + be_sum dst + (int (length p) mod 65536 + uint proto mod 65536)"

lemma uint_ip_checksum:
  assumes b: "length p \<le> 65535" "length src \<le> 16" "length dst \<le> 16" and pr: "uint proto mod 65536 \<noteq> 0"
  shows "uint (ip_checksum p src dst proto) = 65534 - (words_total p src dst proto - 1) mod 65535"
proof -
  define tot where "tot = (add_words (add_words (add_words 0 p) src) dst + ucast (of_nat (length p) :: u16) + ucast (ucast proto :: u16) :: u32)"
  define k where "k = words_total p src dst proto"
  have "be_sum p \<le> 65535 * 32768" using be_sum_le[of p 32768] b(1) by simp
  moreover have "be_sum src \<le> 65535 * 8" "be_sum dst \<le> 65535 * 8"
    using be_sum_le[of src 8] be_sum_le[of dst 8] b(2,3) by simp_all
  moreover have "0 \<le> int (length p) mod 65536" "int (length p) mod 65536 < 65536" "0 \<le> uint proto mod 65536" "uint proto mod 65536 < 65536" by simp_all
  ultimately have r: "0 < k" "k < 4294967296"
    using pr be_sum_nonneg[of p] be_sum_nonneg[of src] be_sum_nonneg[of dst] unfolding k_def words_total_def by linarith+
  have "uint (of_nat (length p) :: u16) = int (length p) mod 65536" by (simp only: unsigned_of_nat take_bit_eq_mod zmod_int) simp
  moreover have "uint (ucast proto :: u16) = uint proto mod 65536" by (simp add: uint_ucast_mod)
  ultimately have "uint tot = k mod 4294967296"
    unfolding tot_def uint_add16 uint_add_words k_def words_total_def
    by (simp only: mod_add_left_eq add.assoc unsigned_0 add_0_left)
  then have t: "uint tot = k" using r by simp
  then have nz: "tot \<noteq> 0" using r(1) by (metis less_irrefl unsigned_0)
  have m: "(k - 1) mod 65535 < 65535" "0 \<le> (k - 1) mod 65535" by simp_all
  have f: "uint (fold_sum tot) = (k - 1) mod 65535 + 1" using t nz by (simp add: fold_sum_value)
  then have u: "uint (ucast (fold_sum tot) :: u16) = (k - 1) mod 65535 + 1"
    unfolding uint_ucast_mod f using m by (intro mod_pos_pos_trivial[of _ "2 ^ LENGTH(16)"]) simp_all
  have "ip_checksum p src dst proto = NOT (ucast (fold_sum tot))" by (simp add: ip_checksum_def tot_def Let_def)
  then show ?thesis by (simp add: uint_not16 u k_def)
qed

lemma ip_checksum_cong2:
  assumes l: "length p' = length p"
    and s: "(be_sum p' + be_sum src' + be_sum dst') mod 65535 = (be_sum p + be_sum src + be_sum dst) mod 65535"
    and b: "length p \<le> 65535" "length src \<le> 16" "length dst \<le> 16" "length src' \<le> 16" "length dst' \<le> 16"
    and pr: "uint proto mod 65536 \<noteq> 0"
  shows "ip_checksum p' src' dst' proto = ip_checksum p src dst proto"
proof -
  define k where "k = int (length p) mod 65536 + uint proto mod 65536"
  have "(be_sum p' + be_sum src' + be_sum dst' + (k - 1)) mod 65535 = (be_sum p + be_sum src + be_sum dst + (k - 1)) mod 65535"
    by (rule mod_add_cong[OF s refl])
  then have "(words_total p' src' dst' proto - 1) mod 65535 = (words_total p src dst proto - 1) mod 65535"
    unfolding words_total_def l k_def[symmetric] add_diff_eq .
  then have "uint (ip_checksum p' src' dst' proto) = uint (ip_checksum p src dst proto)"
    using uint_ip_checksum[of p' src' dst' proto] uint_ip_checksum[OF b(1-3) pr] l b pr by simp
  then show ?thesis by (rule word_uint_eqI)
qed

lemma ip_checksum_cong:
  assumes "length p' = length p" "be_sum p' mod 65535 = be_sum p mod 65535"
    and "length p \<le> 65535" "length src \<le> 16" "length dst \<le> 16" "uint proto mod 65536 \<noteq> 0"
  shows "ip_checksum p' src dst proto = ip_checksum p src dst proto"
  using assms by (intro ip_checksum_cong2) (auto intro: mod_add_cong)

section \<open>Finding the IP header\<close>

definition OPENVPN_IPH_GET_LEN :: "byte \<Rightarrow> int" where
  "OPENVPN_IPH_GET_LEN v = 4 * uint (v AND 0x0F)"

definition ETH_P_IPV4 :: u16 where "ETH_P_IPV4 = 0x0800"
definition ETH_P_IPV6 :: u16 where "ETH_P_IPV6 = 0x86DD"
definition ETH_P_8021Q :: u16 where "ETH_P_8021Q = 0x8100"

definition is_ipv_X :: "dev_type \<Rightarrow> buffer \<Rightarrow> byte \<Rightarrow> bool \<times> buffer" where
  "is_ipv_X tunnel_type b ip_ver =
     (let p = buf_bytes b;
          at = (\<lambda>offset :: int. if OPENVPN_IPH_GET_VER (p ! nat offset) = ip_ver then buf_advance b offset else (False, b))
      in if tunnel_type = DEV_TYPE_TUN then
           if buf_len b < 20 then (False, b) else at 0
         else if tunnel_type = DEV_TYPE_TAP then
           if buf_len b < 14 + 20 then (False, b)
           else
             let proto0 = ld16 p 12;
                 (proto, offset) = (if proto0 = htons ETH_P_8021Q then (ld16 p 16, 18) else (proto0, 14))
             in if htons proto \<noteq> (if ip_ver = 6 then ETH_P_IPV6 else ETH_P_IPV4) then (False, b)
                else at offset
         else (False, b))"

definition is_ipv4 :: "dev_type \<Rightarrow> buffer \<Rightarrow> bool \<times> buffer" where
  "is_ipv4 tunnel_type b = is_ipv_X tunnel_type b 4"

definition is_ipv6 :: "dev_type \<Rightarrow> buffer \<Rightarrow> bool \<times> buffer" where
  "is_ipv6 tunnel_type b = is_ipv_X tunnel_type b 6"

end
