(* ===== verification/Mss.thy ===== *)
theory Mss
  imports Ip_Packet
begin

text \<open>
  Lowering the TCP segment size in SYN packets, \<^verbatim>\<open>mss.c\<close>: the walk over the TCP options,
  which options it meets and what it writes, and that the checksum it leaves is the one
  computed anew.
\<close>

unbundle bit_operations_syntax

section \<open>Clamping the segment size\<close>

definition OPENVPN_TCPH_GET_DOFF :: "byte \<Rightarrow> int" where
  "OPENVPN_TCPH_GET_DOFF d = uint (drop_bit 2 (d AND 0xF0))"

definition TCPH_SYN_MASK :: byte where "TCPH_SYN_MASK = 2"
definition TCPOPT_EOL :: byte where "TCPOPT_EOL = 0"
definition TCPOPT_NOP :: byte where "TCPOPT_NOP = 1"
definition TCPOPT_MAXSEG :: byte where "TCPOPT_MAXSEG = 2"
definition TCPOLEN_MAXSEG :: int where "TCPOLEN_MAXSEG = 4"

text \<open>One \<^verbatim>\<open>MAXSEG\<close> option at \<open>opt\<close> of the segment \<open>p\<close>; the checksum is its word at 16.\<close>

definition clamp_mss :: "byte list \<Rightarrow> u16 \<Rightarrow> nat \<Rightarrow> byte list" where
  "clamp_mss p maxmss opt =
     (let mssval = push_bit 8 (ucast (p ! (opt + 2)) :: u16) + ucast (p ! (opt + 3)) in
      if mssval > maxmss
      then let accumulate = uint (htons mssval);
               p1 = mem_put p (opt + 2) [ucast (drop_bit 8 maxmss AND 0xff), ucast (maxmss AND 0xff)];
               accumulate1 = accumulate - uint (htons maxmss)
           in st16 p1 16 (ADJUST_CHECKSUM accumulate1 (ld16 p1 16))
      else p)"

text \<open>The walk over the options: \<open>olen\<close> bytes of them are left at \<open>opt\<close>.\<close>

function mss_options :: "byte list \<Rightarrow> u16 \<Rightarrow> nat \<Rightarrow> int \<Rightarrow> byte list" where
  "mss_options p maxmss opt olen =
     (if olen > 1
      then if p ! opt = TCPOPT_EOL then p
           else if p ! opt = TCPOPT_NOP then mss_options p maxmss (opt + 1) (olen - 1)
           else let optlen = uint (p ! (opt + 1)) in
                if optlen \<le> 0 \<or> optlen > olen then p
                else let p1 = (if p ! opt = TCPOPT_MAXSEG \<and> optlen = TCPOLEN_MAXSEG then clamp_mss p maxmss opt else p)
                     in mss_options p1 maxmss (opt + nat optlen) (olen - optlen)
      else p)"
  by pat_completeness auto
termination
proof (relation "measure (\<lambda>(p, m, opt, olen). nat olen)", simp, simp)
  fix p :: "byte list" and maxmss :: u16 and opt :: nat and olen optlen :: int and p1
  assume o: "1 < olen" "optlen = uint (p ! (opt + 1))" "\<not> (optlen \<le> 0 \<or> optlen > olen)"
  have "0 < optlen" using o(3) by linarith
  then show "((p1, maxmss, opt + nat optlen, olen - optlen), p, maxmss, opt, olen) \<in> measure (\<lambda>(p, m, opt, olen). nat olen)"
    using o(1) by simp
qed

declare mss_options.simps [simp del]

text \<open>The bytes written through the copy of the buffer head are those of the packet.\<close>

definition put_bytes :: "buffer \<Rightarrow> byte list \<Rightarrow> buffer" where
  "put_bytes b p = bf_poke b (nat (bf_off b)) p"

definition mss_fixup_dowork :: "buffer \<Rightarrow> u16 \<Rightarrow> buffer" where
  "mss_fixup_dowork b maxmss =
     (if buf_len b < 20 then b
      else let p = buf_bytes b; hlen = OPENVPN_TCPH_GET_DOFF (p ! 12) in
           if hlen \<le> 20 \<or> hlen > buf_len b then b
           else put_bytes b (mss_options p maxmss 20 (hlen - 20)))"

definition OPENVPN_IP_OFFMASK :: u16 where "OPENVPN_IP_OFFMASK = 0x1fff"
definition OPENVPN_IPPROTO_TCP :: byte where "OPENVPN_IPPROTO_TCP = 6"

text \<open>\<^verbatim>\<open>newbuf\<close> shares its memory with \<^verbatim>\<open>buf\<close>.\<close>

definition mss_fixup_tcp :: "buffer \<Rightarrow> int \<Rightarrow> u16 \<Rightarrow> buffer" where
  "mss_fixup_tcp b hlen maxmss =
     (case buf_advance b hlen of
        (True, newbuf) \<Rightarrow>
          if buf_len newbuf \<ge> 20 \<and> (buf_bytes newbuf ! 13) AND TCPH_SYN_MASK \<noteq> 0
          then b\<lparr>bf_data := bf_data (mss_fixup_dowork newbuf maxmss)\<rparr>
          else b
      | (False, newbuf) \<Rightarrow> b)"

definition mss_fixup_ipv4 :: "buffer \<Rightarrow> u16 \<Rightarrow> buffer" where
  "mss_fixup_ipv4 b maxmss =
     (if buf_len b < 20 then b
      else let p = buf_bytes b; hlen = OPENVPN_IPH_GET_LEN (p ! 0) in
           if p ! 9 = OPENVPN_IPPROTO_TCP \<and> uint (htons (ld16 p 2)) = buf_len b
              \<and> htons (ld16 p 6) AND OPENVPN_IP_OFFMASK = 0 \<and> hlen \<le> buf_len b \<and> buf_len b - hlen \<ge> 20
           then mss_fixup_tcp b hlen maxmss
           else b)"

definition mss_fixup_ipv6 :: "buffer \<Rightarrow> u16 \<Rightarrow> buffer" where
  "mss_fixup_ipv6 b maxmss =
     (if buf_len b < 40 then b
      else let p = buf_bytes b in
           if buf_len b \<noteq> uint (htons (ld16 p 4)) + 40 then b
           else if p ! 6 \<noteq> OPENVPN_IPPROTO_TCP then b
           else mss_fixup_tcp b 40 (maxmss - 20))"

lemma uint_htons_twice: "(256 * uint (htons w)) mod 65535 = uint w mod 65535"
proof -
  have "(256 * uint (htons w)) mod 65535 = (256 * (256 * uint w)) mod 65535"
    by (metis htons_mod mod_mult_right_eq)
  also have "\<dots> = (uint w + 65535 * uint w) mod 65535" by simp
  also have "\<dots> = uint w mod 65535" by (rule mod_mult_self2)
  finally show ?thesis .
qed

lemma word_of_bytes: "uint (push_bit 8 (ucast (a :: byte) :: u16) + ucast (b :: byte)) = 256 * uint a + uint b"
proof -
  have "uint (push_bit 8 (ucast a :: u16)) = 256 * uint a"
    unfolding uint_push uint_ucast_mod using byte_range[of a] by simp
  moreover have "uint (ucast b :: u16) = uint b"
    unfolding uint_ucast_mod using byte_range[of b] by simp
  ultimately show ?thesis using byte_range[of a] byte_range[of b] by (simp add: uint_word_ariths)
qed

lemma bytes_of_word:
  "256 * uint (ucast (drop_bit 8 (w :: u16) AND 0xff) :: byte) + uint (ucast (w AND 0xff) :: byte) = uint w"
proof -
  have "drop_bit 8 w AND 0xff = take_bit 8 (drop_bit 8 w)" "w AND 0xff = take_bit 8 w"
    by (simp_all add: take_bit_eq_mask mask_eq_exp_minus_1)
  then have "(ucast (drop_bit 8 w AND 0xff) :: byte) = ucast (drop_bit 8 w)" "(ucast (w AND 0xff) :: byte) = ucast w"
    by (auto intro!: bit_word_eqI simp: bit_simps)
  then show ?thesis using uint_split16[of w] by simp
qed

lemma u16_range: "0 \<le> uint (w :: u16)" "uint (w :: u16) < 65536"
  using uint_lt2p[of w] by simp_all

lemma clamp_ok:
  assumes b: "18 \<le> opt" "opt + 3 < length p"
  shows "length (clamp_mss p m opt) = length p"
    "\<And>j. j < length p \<Longrightarrow> j \<notin> {16, 17, opt + 2, opt + 3} \<Longrightarrow> clamp_mss p m opt ! j = p ! j"
    "be16 (clamp_mss p m opt) (opt + 2) = min (be16 p (opt + 2)) (uint m)"
    "even opt \<or> be16 p (opt + 2) \<le> uint m \<Longrightarrow> be_sum (clamp_mss p m opt) mod 65535 = be_sum p mod 65535"
proof -
  define v where "v = (push_bit 8 (ucast (p ! (opt + 2)) :: u16) + ucast (p ! (opt + 3)))"
  have uv: "uint v = be16 p (opt + 2)"
    unfolding v_def word_of_bytes be16_def by (simp add: numeral_3_eq_3 numeral_2_eq_2)
  define hi lo where "hi = (ucast (drop_bit 8 m AND 0xff) :: byte)" and "lo = (ucast (m AND 0xff) :: byte)"
  have um: "256 * uint hi + uint lo = uint m" unfolding hi_def lo_def by (rule bytes_of_word)
  define p1 where "p1 = mem_put p (opt + 2) [hi, lo]"
  define acc where "acc = uint (htons v) - uint (htons m)"
  define p2 where "p2 = st16 p1 16 (ADJUST_CHECKSUM acc (ld16 p1 16))"
  have c: "clamp_mss p m opt = (if v > m then p2 else p)"
    by (simp only: clamp_mss_def Let_def v_def[symmetric] hi_def[symmetric] lo_def[symmetric] p1_def[symmetric] acc_def[symmetric] p2_def[symmetric])
  have i: "Suc (opt + 2) < length p" using b by simp
  have l1: "length p1 = length p" unfolding p1_def by (rule length_put2[OF i])
  have i1: "Suc 16 < length p1" using b l1 by simp
  have l2: "length p2 = length p" unfolding p2_def length_st16[OF i1] by (rule l1)
  show "length (clamp_mss p m opt) = length p" using c l2 by simp
  have n2: "p2 ! j = p1 ! j" if "j < length p" "j \<noteq> 16" "j \<noteq> 17" for j
    unfolding p2_def st16_def using nth_put2[OF i1, of j] that l1 by simp
  have n1: "p1 ! j = (if j = opt + 2 then hi else if j = opt + 3 then lo else p ! j)" if "j < length p" for j
    unfolding p1_def nth_put2[OF i that] by (simp add: numeral_3_eq_3)
  show "clamp_mss p m opt ! j = p ! j" if "j < length p" "j \<notin> {16, 17, opt + 2, opt + 3}" for j
    using c n1[OF that(1)] n2[OF that(1)] that(2) by auto
  have vm: "v > m \<longleftrightarrow> be16 p (opt + 2) > uint m" unfolding uv[symmetric] by (rule word_less_def)
  have "be16 p2 (opt + 2) = uint m"
    using n2[of "opt + 2"] n2[of "opt + 3"] n1[of "opt + 2"] n1[of "opt + 3"] b um by (simp add: be16_def numeral_3_eq_3)
  then show "be16 (clamp_mss p m opt) (opt + 2) = min (be16 p (opt + 2)) (uint m)" using c vm by auto
  show "be_sum (clamp_mss p m opt) mod 65535 = be_sum p mod 65535" if e: "even opt \<or> be16 p (opt + 2) \<le> uint m"
  proof (cases "v > m")
    case True
    then have ev: "even (opt + 2)" using e vm by auto
    have s1: "be_sum p1 = be_sum p - uint v + uint m"
      unfolding p1_def be_sum_put[OF ev i] um uv by simp
    have "\<bar>acc + uint (ld16 p1 16)\<bar> < 2147483648"
      using u16_range[of "htons v"] u16_range[of "htons m"] u16_range[of "ld16 p1 16"] unfolding acc_def by linarith
    then have "\<bar>acc + uint (ld16 p1 16)\<bar> < 2 ^ 31" by simp
    then have "be_sum p2 mod 65535 = (be_sum p1 + 256 * acc) mod 65535"
      unfolding p2_def by (intro be_sum_ADJUST) (use i1 in simp_all)
    also have "\<dots> = (be_sum p1 + (256 * uint (htons v) - 256 * uint (htons m))) mod 65535" by (simp add: acc_def right_diff_distrib)
    also have "\<dots> = (be_sum p1 + (uint v - uint m)) mod 65535"
      by (rule mod_add_cong[OF refl mod_diff_cong[OF uint_htons_twice uint_htons_twice]])
    also have "be_sum p1 + (uint v - uint m) = be_sum p" using s1 by simp
    finally show ?thesis using c True by simp
  qed (use c in simp)
qed

text \<open>Where the walk meets a segment size option.\<close>

function mss_positions :: "byte list \<Rightarrow> nat \<Rightarrow> int \<Rightarrow> nat list" where
  "mss_positions p opt olen =
     (if olen > 1
      then if p ! opt = TCPOPT_EOL then []
           else if p ! opt = TCPOPT_NOP then mss_positions p (opt + 1) (olen - 1)
           else if uint (p ! (opt + 1)) \<le> 0 \<or> uint (p ! (opt + 1)) > olen then []
           else (if p ! opt = TCPOPT_MAXSEG \<and> uint (p ! (opt + 1)) = TCPOLEN_MAXSEG then [opt] else [])
                @ mss_positions p (opt + unat (p ! (opt + 1))) (olen - uint (p ! (opt + 1)))
      else [])"
  by pat_completeness auto
termination
proof (relation "measure (\<lambda>(p, opt, olen). nat olen)", simp, simp)
  fix p :: "byte list" and opt :: nat and olen :: int
  assume o: "1 < olen" "\<not> (uint (p ! (opt + 1)) \<le> 0 \<or> uint (p ! (opt + 1)) > olen)"
  define optlen where "optlen = uint (p ! (opt + 1))"
  have "0 < optlen" using o(2) unfolding optlen_def by linarith
  then show "((p, opt + unat (p ! (opt + 1)), olen - uint (p ! (opt + 1))), p, opt, olen) \<in> measure (\<lambda>(p, opt, olen). nat olen)"
    using o(1) unfolding optlen_def[symmetric] by simp
qed

declare mss_positions.simps [simp del]

lemma positions_cong:
  assumes "\<forall>j. int opt \<le> int j \<and> int j < int opt + olen \<longrightarrow> p' ! j = p ! j"
  shows "mss_positions p' opt olen = mss_positions p opt olen"
  using assms
proof (induction p opt olen rule: mss_positions.induct)
  case (1 p opt olen)
  show ?case
  proof (cases "olen > 1")
    case True
    have k: "p' ! opt = p ! opt" "p' ! (opt + 1) = p ! (opt + 1)" using 1(3) True by auto
    let ?l = "uint (p ! (opt + 1))"
    have u: "int (unat (p ! (opt + 1))) = ?l" by (rule uint_nat[symmetric])
    have n: "mss_positions p' (opt + 1) (olen - 1) = mss_positions p (opt + 1) (olen - 1)"
      if "p ! opt \<noteq> TCPOPT_EOL" "p ! opt = TCPOPT_NOP"
      using 1(1)[OF True that] 1(3) by auto
    have m: "mss_positions p' (opt + unat (p ! (opt + 1))) (olen - ?l) = mss_positions p (opt + unat (p ! (opt + 1))) (olen - ?l)"
      if "p ! opt \<noteq> TCPOPT_EOL" "p ! opt \<noteq> TCPOPT_NOP" "\<not> (?l \<le> 0 \<or> olen < ?l)"
    proof (rule 1(2)[OF True that])
      show "\<forall>j. int (opt + unat (p ! (opt + 1))) \<le> int j \<and> int j < int (opt + unat (p ! (opt + 1))) + (olen - ?l) \<longrightarrow> p' ! j = p ! j"
      proof (intro allI impI)
        fix j assume j: "int (opt + unat (p ! (opt + 1))) \<le> int j \<and> int j < int (opt + unat (p ! (opt + 1))) + (olen - ?l)"
        then have "int opt \<le> int j \<and> int j < int opt + olen" using u uint_ge_0[of "p ! (opt + 1)"] by linarith
        then show "p' ! j = p ! j" using 1(3) by blast
      qed
    qed
    show ?thesis
      by (subst (1 2) mss_positions.simps) (use k n m True in auto)
  next
    case False
    then show ?thesis by (subst (1 2) mss_positions.simps) simp
  qed
qed

text \<open>The whole walk: what it keeps, what it clamps, and the sum of the words.\<close>

lemma positions_range:
  "q \<in> set (mss_positions p opt olen) \<Longrightarrow> opt \<le> q \<and> int q + 4 \<le> int opt + olen"
proof (induction p opt olen rule: mss_positions.induct)
  case (1 p opt olen)
  have u: "int (unat (p ! (opt + 1))) = uint (p ! (opt + 1))" by (rule uint_nat[symmetric])
  show ?case
    using 1 u uint_ge_0[of "p ! (opt + 1)"]
    by (subst (asm) (2) mss_positions.simps) (auto split: if_splits simp: TCPOLEN_MAXSEG_def)
qed

definition clamped :: "byte list \<Rightarrow> u16 \<Rightarrow> nat list \<Rightarrow> byte list \<Rightarrow> bool" where
  "clamped p m qs p' \<longleftrightarrow> length p' = length p \<and>
     (\<forall>j < length p. j \<noteq> 16 \<and> j \<noteq> 17 \<and> (\<forall>q \<in> set qs. j \<noteq> q + 2 \<and> j \<noteq> q + 3) \<longrightarrow> p' ! j = p ! j) \<and>
     (\<forall>q \<in> set qs. be16 p' (q + 2) = min (be16 p (q + 2)) (uint m)) \<and>
     ((\<forall>q \<in> set qs. even q \<or> be16 p (q + 2) \<le> uint m) \<longrightarrow> be_sum p' mod 65535 = be_sum p mod 65535)"

lemma clamped_refl: "clamped p m [] p"
  by (simp add: clamped_def)

lemma clamped_step:
  assumes q: "18 \<le> q" "q + 3 < length p" and far: "\<forall>r \<in> set qs. q + 4 \<le> r \<and> r + 3 < length p"
    and c: "clamped (clamp_mss p m q) m qs p'"
  shows "clamped p m (q # qs) p'"
proof -
  note k = clamp_ok[OF q, where m = m]
  let ?p = "clamp_mss p m q"
  have c': "length p' = length ?p"
    "\<forall>j < length ?p. j \<noteq> 16 \<and> j \<noteq> 17 \<and> (\<forall>r \<in> set qs. j \<noteq> r + 2 \<and> j \<noteq> r + 3) \<longrightarrow> p' ! j = ?p ! j"
    "\<forall>r \<in> set qs. be16 p' (r + 2) = min (be16 ?p (r + 2)) (uint m)"
    "(\<forall>r \<in> set qs. even r \<or> be16 ?p (r + 2) \<le> uint m) \<longrightarrow> be_sum p' mod 65535 = be_sum ?p mod 65535"
    using c by (simp_all add: clamped_def)
  have same: "be16 ?p (r + 2) = be16 p (r + 2)" if "r \<in> set qs" for r
  proof -
    have r: "q + 4 \<le> r" "r + 3 < length p" using far that by blast+
    then have "?p ! (r + 2) = p ! (r + 2)" "?p ! (r + 3) = p ! (r + 3)" using q by (auto intro!: k(2))
    then show ?thesis by (simp add: be16_def numeral_3_eq_3 numeral_2_eq_2)
  qed
  have own: "be16 p' (q + 2) = be16 ?p (q + 2)"
  proof -
    have "\<forall>r \<in> set qs. q + 2 \<noteq> r + 2 \<and> q + 2 \<noteq> r + 3 \<and> q + 3 \<noteq> r + 2 \<and> q + 3 \<noteq> r + 3" using far by fastforce
    then have "p' ! (q + 2) = ?p ! (q + 2)" "p' ! (q + 3) = ?p ! (q + 3)" using c'(2) k(1) q by auto
    then show ?thesis by (simp add: be16_def numeral_3_eq_3 numeral_2_eq_2)
  qed
  show ?thesis
    unfolding clamped_def
  proof (intro conjI allI impI ballI)
    show "length p' = length p" using c'(1) k(1) by simp
  next
    fix j assume j: "j < length p" "j \<noteq> 16 \<and> j \<noteq> 17 \<and> (\<forall>r \<in> set (q # qs). j \<noteq> r + 2 \<and> j \<noteq> r + 3)"
    then have "p' ! j = ?p ! j" using c'(2) k(1) by simp
    also have "\<dots> = p ! j" using j by (intro k(2)) auto
    finally show "p' ! j = p ! j" .
  next
    fix r assume "r \<in> set (q # qs)"
    then show "be16 p' (r + 2) = min (be16 p (r + 2)) (uint m)"
      using own k(3) c'(3) same by auto
  next
    assume e: "\<forall>r \<in> set (q # qs). even r \<or> be16 p (r + 2) \<le> uint m"
    then have "be_sum ?p mod 65535 = be_sum p mod 65535" by (intro k(4)) simp
    moreover have "be_sum p' mod 65535 = be_sum ?p mod 65535" using c'(4) e same by simp
    ultimately show "be_sum p' mod 65535 = be_sum p mod 65535" by simp
  qed
qed

lemma mss_options_clamps:
  assumes "18 \<le> opt" "int opt + olen \<le> int (length p)"
  shows "clamped p m (mss_positions p opt olen) (mss_options p m opt olen)"
  using assms
proof (induction p m opt olen rule: mss_options.induct)
  case (1 p m opt olen)
  show ?case
  proof (cases "olen > 1")
    case False
    then show ?thesis by (subst mss_positions.simps, subst mss_options.simps) (simp add: clamped_refl)
  next
    case o: True
    consider "p ! opt = TCPOPT_EOL" | "p ! opt \<noteq> TCPOPT_EOL" "p ! opt = TCPOPT_NOP"
      | "p ! opt \<noteq> TCPOPT_EOL" "p ! opt \<noteq> TCPOPT_NOP" "uint (p ! (opt + 1)) \<le> 0 \<or> olen < uint (p ! (opt + 1))"
      | "p ! opt \<noteq> TCPOPT_EOL" "p ! opt \<noteq> TCPOPT_NOP" "\<not> (uint (p ! (opt + 1)) \<le> 0 \<or> olen < uint (p ! (opt + 1)))"
      by blast
    then show ?thesis
    proof cases
      case 1
      then show ?thesis by (subst mss_positions.simps, subst mss_options.simps) (simp add: clamped_refl)
    next
      case 2
      then show ?thesis
        using "1.IH"(1)[OF o 2] "1.prems" o by (subst mss_positions.simps, subst mss_options.simps) simp
    next
      case 3
      then show ?thesis by (subst mss_positions.simps, subst mss_options.simps) (simp add: clamped_refl Let_def)
    next
      case 4
      define l where "l = uint (p ! (opt + 1))"
      define hit where "hit \<longleftrightarrow> p ! opt = TCPOPT_MAXSEG \<and> l = TCPOLEN_MAXSEG"
      define p1 where "p1 = (if hit then clamp_mss p m opt else p)"
      have l: "0 < l" "l \<le> olen" "unat (p ! (opt + 1)) = nat l"
        using 4(3)[folded l_def] by (linarith, linarith) (simp add: l_def)
      have hr: "opt + 3 < length p" if hit using that l(2) "1.prems" by (simp add: hit_def TCPOLEN_MAXSEG_def)
      have e: "mss_options p m opt olen = mss_options p1 m (opt + nat l) (olen - l)"
        by (subst mss_options.simps) (use 4 o in \<open>simp add: l_def hit_def p1_def Let_def\<close>)
      have f: "mss_positions p opt olen = (if hit then [opt] else []) @ mss_positions p (opt + nat l) (olen - l)"
        by (subst mss_positions.simps) (use 4 o in \<open>simp add: l_def hit_def\<close>)
      have lp: "length p1 = length p" using clamp_ok(1)[OF "1.prems"(1) hr] by (simp add: p1_def)
      have g: "mss_positions p1 (opt + nat l) (olen - l) = mss_positions p (opt + nat l) (olen - l)"
      proof (rule positions_cong, intro allI impI)
        fix j assume j: "int (opt + nat l) \<le> int j \<and> int j < int (opt + nat l) + (olen - l)"
        show "p1 ! j = p ! j"
        proof (cases hit)
          case True
          then have "opt + 4 \<le> j" "j < length p" using j l "1.prems" by (auto simp: hit_def TCPOLEN_MAXSEG_def)
          then show ?thesis using clamp_ok(2)[OF "1.prems"(1) hr[OF True], of j m] "1.prems"(1) True by (simp add: p1_def)
        qed (simp add: p1_def)
      qed
      have ih: "clamped p1 m (mss_positions p1 (opt + nat l) (olen - l)) (mss_options p1 m (opt + nat l) (olen - l))"
        by (rule "1.IH"(2)[OF o 4(1,2) l_def 4(3)[folded l_def], folded hit_def, folded p1_def])
           (use "1.prems" l lp in \<open>auto simp: p1_def\<close>)
      show ?thesis
      proof (cases hit)
        case False
        then show ?thesis using ih g e f by (simp add: p1_def)
      next
        case True
        have "clamped p m (opt # mss_positions p (opt + nat l) (olen - l)) (mss_options p1 m (opt + nat l) (olen - l))"
        proof (rule clamped_step[OF "1.prems"(1) hr[OF True]])
          show "clamped (clamp_mss p m opt) m (mss_positions p (opt + nat l) (olen - l)) (mss_options p1 m (opt + nat l) (olen - l))"
            using ih g True by (simp add: p1_def)
          show "\<forall>r \<in> set (mss_positions p (opt + nat l) (olen - l)). opt + 4 \<le> r \<and> r + 3 < length p"
            using positions_range[of _ p "opt + nat l" "olen - l"] l True "1.prems" by (fastforce simp: hit_def TCPOLEN_MAXSEG_def)
        qed
        then show ?thesis using e f True by simp
      qed
    qed
  qed
qed

text \<open>The packet with the bytes from \<open>n\<close> on replaced.\<close>

lemma put_tail:
  assumes wf: "buf_wf b" "buf_defined b" and n: "0 \<le> n" "n \<le> bf_len b" and l: "length p = nat (bf_len b - n)"
    and a: "buf_advance b n = (True, nb)"
  defines "b' \<equiv> b\<lparr>bf_data := bf_data (put_bytes nb p)\<rparr>"
  shows "content b' = take (nat n) (content b) @ p" "buf_wf b'" "bf_off b' = bf_off b" "bf_len b' = bf_len b" "bf_cap b' = bf_cap b"
proof -
  from wf(2) obtain m where m: "bf_data b = Some m" by (auto simp: buf_defined_def)
  have bd: "0 \<le> bf_off b" "0 \<le> bf_len b" "bf_off b + bf_len b \<le> int (length m)" "bf_cap b = int (length m)"
    using wf(1) m by (auto simp: buf_wf_def)
  have nb: "nb = b\<lparr>bf_off := bf_off b + n, bf_len := bf_len b - n\<rparr>" using a by (auto simp: buf_advance_def split: if_splits)
  have d: "bf_data b' = Some (mem_put m (nat (bf_off b + n)) p)"
    by (simp add: b'_def nb put_bytes_def bf_poke_def m)
  show fr: "bf_off b' = bf_off b" "bf_len b' = bf_len b" "bf_cap b' = bf_cap b" by (simp_all add: b'_def)
  have fits: "nat (bf_off b + n) + length p \<le> length m" using bd n l by linarith
  show "buf_wf b'" using wf(1) m fits by (simp add: buf_wf_def d fr length_mem_put)
  have nn: "nat (bf_len b) = nat n + length p" using n l bd by linarith
  have no: "nat (bf_off b) + nat n = nat (bf_off b + n)" using n bd by linarith
  have "content b' = mem_get m (nat (bf_off b)) (nat n) @ p"
    unfolding content_def bf_mem_def d fr option.case by (rule mem_get_put_extend_right[OF no fits nn])
  also have "mem_get m (nat (bf_off b)) (nat n) = take (nat n) (content b)"
    unfolding content_def bf_mem_def m option.case nn by (rule mem_get_take[symmetric]) simp
  finally show "content b' = take (nat n) (content b) @ p" .
qed

text \<open>The options of a TCP segment, and that every size option to be lowered is aligned.\<close>

definition seg_mss :: "byte list \<Rightarrow> nat list" where
  "seg_mss p = mss_positions p 20 (OPENVPN_TCPH_GET_DOFF (p ! 12) - 20)"

definition mss_aligned :: "byte list \<Rightarrow> u16 \<Rightarrow> bool" where
  "mss_aligned p m \<longleftrightarrow> (\<forall>q \<in> set (seg_mss p). even q \<or> be16 p (q + 2) \<le> uint m)"

text \<open>A segment the walk is done on.\<close>

definition tcp_options :: "byte list \<Rightarrow> bool" where
  "tcp_options p \<longleftrightarrow> 20 \<le> length p \<and> 20 < OPENVPN_TCPH_GET_DOFF (p ! 12) \<and> OPENVPN_TCPH_GET_DOFF (p ! 12) \<le> int (length p)"

definition tcp_syn :: "byte list \<Rightarrow> bool" where
  "tcp_syn p \<longleftrightarrow> tcp_options p \<and> p ! 13 AND TCPH_SYN_MASK \<noteq> 0"

lemma dowork_ok:
  fixes m :: u16
  assumes wf: "buf_wf b" "buf_defined b" and n: "0 \<le> n" "n \<le> bf_len b" and a: "buf_advance b n = (True, nb)"
  defines "b' \<equiv> b\<lparr>bf_data := bf_data (mss_fixup_dowork nb m)\<rparr>"
  shows "\<exists>p'. content b' = take (nat n) (content b) @ p' \<and> buf_wf b' \<and> buf_defined b' \<and> bf_off b' = bf_off b \<and> bf_len b' = bf_len b \<and>
    (if tcp_options (drop (nat n) (content b)) then clamped (drop (nat n) (content b)) m (seg_mss (drop (nat n) (content b))) p'
     else p' = drop (nat n) (content b))"
proof -
  obtain nb' where nb': "buf_advance b n = (True, nb')" "buf_wf nb'" "content nb' = drop (nat n) (content b)"
    "buf_defined nb'" "bf_len nb' = bf_len b - n"
    by (rule buf_advance_ok[OF wf n]) blast
  then have nb: "buf_wf nb" "content nb = drop (nat n) (content b)" "buf_defined nb" "bf_len nb = bf_len b - n" using a by auto
  let ?p = "drop (nat n) (content b)"
  have bb: "buf_bytes nb = ?p" "buf_len nb = bf_len b - n" using nb by (simp_all add: buf_simps)
  have lp: "int (length ?p) = bf_len b - n" using bf_len_content[OF nb(1)] nb(2,4) by simp
  have same: "b\<lparr>bf_data := bf_data nb\<rparr> = b" using a by (auto simp: buf_advance_def split: if_splits)
  let ?h = "OPENVPN_TCPH_GET_DOFF (?p ! 12)"
  have to: "tcp_options ?p \<longleftrightarrow> \<not> (bf_len b - n < 20 \<or> ?h \<le> 20 \<or> ?h > bf_len b - n)"
    unfolding tcp_options_def using lp by linarith
  show ?thesis
  proof (cases "bf_len b - n < 20 \<or> ?h \<le> 20 \<or> ?h > bf_len b - n")
    case True
    then have "mss_fixup_dowork nb m = nb" by (auto simp: mss_fixup_dowork_def bb Let_def)
    then have "b' = b" using same by (simp add: b'_def)
    then show ?thesis using wf to True by (intro exI[of _ ?p]) simp
  next
    case False
    define p' where "p' = mss_options ?p m 20 (?h - 20)"
    have c: "clamped ?p m (seg_mss ?p) p'"
      unfolding seg_mss_def p'_def by (rule mss_options_clamps) (use False lp in simp_all)
    have e: "mss_fixup_dowork nb m = put_bytes nb p'" using False by (simp add: mss_fixup_dowork_def bb Let_def p'_def)
    have l: "length p' = nat (bf_len b - n)" using c lp by (simp add: clamped_def)
    note t = put_tail[OF wf n l a, folded e, folded b'_def]
    have "buf_defined b'" using wf(2) a
      by (auto simp: b'_def e put_bytes_def bf_poke_def buf_defined_def buf_advance_def split: if_splits)
    then show ?thesis using t c to False by (intro exI[of _ p']) simp
  qed
qed

lemma fixup_tcp_ok:
  fixes m :: u16
  assumes wf: "buf_wf b" "buf_defined b" and n: "0 \<le> n" "n \<le> bf_len b"
  defines "b' \<equiv> mss_fixup_tcp b n m"
  shows "\<exists>p'. content b' = take (nat n) (content b) @ p' \<and> buf_wf b' \<and> buf_defined b' \<and> bf_off b' = bf_off b \<and> bf_len b' = bf_len b \<and>
    (if tcp_syn (drop (nat n) (content b)) then clamped (drop (nat n) (content b)) m (seg_mss (drop (nat n) (content b))) p'
     else p' = drop (nat n) (content b))"
proof -
  obtain nb where nb: "buf_advance b n = (True, nb)" "buf_wf nb" "content nb = drop (nat n) (content b)" "bf_len nb = bf_len b - n"
    by (rule buf_advance_ok[OF wf n]) blast
  have lp: "int (length (drop (nat n) (content b))) = bf_len b - n" using bf_len_content[OF nb(2)] nb(3,4) by simp
  have id: "content b = take (nat n) (content b) @ drop (nat n) (content b)" by simp
  show ?thesis
  proof (cases "buf_len nb \<ge> 20 \<and> (buf_bytes nb ! 13) AND TCPH_SYN_MASK \<noteq> 0")
    case True
    then have "tcp_syn (drop (nat n) (content b)) = tcp_options (drop (nat n) (content b))"
      using nb(2,3) by (simp add: tcp_syn_def buf_simps)
    then show ?thesis using dowork_ok[OF wf n nb(1), of m] True by (simp add: b'_def mss_fixup_tcp_def nb(1))
  next
    case False
    then have "\<not> tcp_syn (drop (nat n) (content b))"
      using nb(2-4) lp by (auto simp: tcp_syn_def tcp_options_def buf_simps)
    moreover have "b' = b" using False by (auto simp: b'_def mss_fixup_tcp_def nb(1))
    ultimately show ?thesis using wf id by (intro exI[of _ "drop (nat n) (content b)"]) simp
  qed
qed

lemma clamped_checksum:
  assumes "clamped p m (seg_mss p) p'" "mss_aligned p m" "length p \<le> 65535" "length src \<le> 16" "length dst \<le> 16"
  shows "ip_checksum p' src dst 6 = ip_checksum p src dst 6"
  using assms by (intro ip_checksum_cong) (auto simp: clamped_def mss_aligned_def)

text \<open>The packets the rewriting applies to.\<close>

definition ipv4_tcp :: "byte list \<Rightarrow> bool" where
  "ipv4_tcp p \<longleftrightarrow> 20 \<le> length p \<and> p ! 9 = OPENVPN_IPPROTO_TCP \<and> uint (htons (ld16 p 2)) = int (length p) \<and>
     htons (ld16 p 6) AND OPENVPN_IP_OFFMASK = 0 \<and> OPENVPN_IPH_GET_LEN (p ! 0) + 20 \<le> int (length p)"

definition ipv6_tcp :: "byte list \<Rightarrow> bool" where
  "ipv6_tcp p \<longleftrightarrow> 40 \<le> length p \<and> uint (htons (ld16 p 4)) + 40 = int (length p) \<and> p ! 6 = OPENVPN_IPPROTO_TCP"

definition rewritten :: "byte list \<Rightarrow> nat \<Rightarrow> bool \<Rightarrow> u16 \<Rightarrow> byte list \<Rightarrow> bool" where
  "rewritten p n applies m p' \<longleftrightarrow> take n p' = take n p \<and>
     (if applies \<and> tcp_syn (drop n p) then clamped (drop n p) m (seg_mss (drop n p)) (drop n p') else p' = p)"

lemma fixup_rewritten:
  assumes wf: "buf_wf b" "buf_defined b" and n: "0 \<le> n" "n \<le> bf_len b"
  shows "rewritten (content b) (nat n) True m (content (mss_fixup_tcp b n m))"
    "buf_wf (mss_fixup_tcp b n m)" "bf_len (mss_fixup_tcp b n m) = bf_len b"
proof -
  from fixup_tcp_ok[OF wf n, of m] obtain p' where
    p: "content (mss_fixup_tcp b n m) = take (nat n) (content b) @ p'" "buf_wf (mss_fixup_tcp b n m)" "bf_len (mss_fixup_tcp b n m) = bf_len b"
    "if tcp_syn (drop (nat n) (content b)) then clamped (drop (nat n) (content b)) m (seg_mss (drop (nat n) (content b))) p'
     else p' = drop (nat n) (content b)" by blast
  have ln: "length (take (nat n) (content b)) = nat n" using n bf_len_content[OF wf(1)] by simp
  have "take (nat n) (content (mss_fixup_tcp b n m)) = take (nat n) (content b)" "drop (nat n) (content (mss_fixup_tcp b n m)) = p'"
    unfolding p(1) using ln by simp_all
  then show "rewritten (content b) (nat n) True m (content (mss_fixup_tcp b n m))"
    using p(1,4) by (simp add: rewritten_def)
  show "buf_wf (mss_fixup_tcp b n m)" "bf_len (mss_fixup_tcp b n m) = bf_len b" by (rule p)+
qed

lemma fixup_ipv4_ok:
  assumes wf: "buf_wf b" "buf_defined b"
  shows "rewritten (content b) (nat (OPENVPN_IPH_GET_LEN (content b ! 0))) (ipv4_tcp (content b)) m (content (mss_fixup_ipv4 b m)) \<and>
    buf_wf (mss_fixup_ipv4 b m) \<and> bf_len (mss_fixup_ipv4 b m) = bf_len b"
proof -
  have bb: "buf_bytes b = content b" "buf_len b = bf_len b" using wf by (simp_all add: buf_simps)
  have l: "int (length (content b)) = bf_len b" using bf_len_content[OF wf(1)] by simp
  let ?h = "OPENVPN_IPH_GET_LEN (content b ! 0)"
  have h: "0 \<le> ?h" by (simp add: OPENVPN_IPH_GET_LEN_def)
  have e: "mss_fixup_ipv4 b m = (if ipv4_tcp (content b) then mss_fixup_tcp b ?h m else b)"
    using l h by (auto simp: mss_fixup_ipv4_def ipv4_tcp_def bb Let_def)
  show ?thesis
  proof (cases "ipv4_tcp (content b)")
    case True
    then have "?h \<le> bf_len b" using l by (simp add: ipv4_tcp_def)
    from fixup_rewritten[OF wf h this] show ?thesis using True e by simp
  next
    case False
    then show ?thesis using e wf by (simp add: rewritten_def)
  qed
qed

lemma fixup_ipv6_ok:
  assumes wf: "buf_wf b" "buf_defined b"
  shows "rewritten (content b) 40 (ipv6_tcp (content b)) (m - 20) (content (mss_fixup_ipv6 b m)) \<and>
    buf_wf (mss_fixup_ipv6 b m) \<and> bf_len (mss_fixup_ipv6 b m) = bf_len b"
proof -
  have bb: "buf_bytes b = content b" "buf_len b = bf_len b" using wf by (simp_all add: buf_simps)
  have l: "int (length (content b)) = bf_len b" using bf_len_content[OF wf(1)] by simp
  have e: "mss_fixup_ipv6 b m = (if ipv6_tcp (content b) then mss_fixup_tcp b 40 (m - 20) else b)"
    using l by (auto simp: mss_fixup_ipv6_def ipv6_tcp_def bb Let_def)
  show ?thesis
  proof (cases "ipv6_tcp (content b)")
    case True
    then have "40 \<le> bf_len b" using l by (simp add: ipv6_tcp_def)
    from fixup_rewritten[OF wf _ this, of "m - 20"] show ?thesis using True e by simp
  next
    case False
    then show ?thesis using e wf by (simp add: rewritten_def)
  qed
qed

lemma rewritten_checksum:
  assumes r: "rewritten p n applies m p'" and al: "mss_aligned (drop n p) m"
    and l: "applies \<Longrightarrow> length (drop n p) \<le> 65535" "length src \<le> 16" "length dst \<le> 16"
  shows "ip_checksum (drop n p') src dst 6 = ip_checksum (drop n p) src dst 6"
proof (cases "applies \<and> tcp_syn (drop n p)")
  case True
  then show ?thesis using r l by (intro clamped_checksum[OF _ al]) (auto simp: rewritten_def)
next
  case False
  then show ?thesis using r by (simp only: rewritten_def if_False)
qed

text \<open>C35: lowering the segment size keeps the TCP checksum right: \<^verbatim>\<open>ip_checksum\<close> gives for the
  rewritten segment what it gives for the original, whatever the addresses of the pseudo header,
  when every option that is lowered starts at an even offset.\<close>

theorem mss_fixup_checksum:
  assumes "buf_wf b" "buf_defined b" "length src \<le> 16" "length dst \<le> 16"
  defines "n \<equiv> nat (OPENVPN_IPH_GET_LEN (content b ! 0))"
  shows "(mss_aligned (drop n (content b)) m \<longrightarrow>
      ip_checksum (drop n (content (mss_fixup_ipv4 b m))) src dst 6 = ip_checksum (drop n (content b)) src dst 6) \<and>
    (mss_aligned (drop 40 (content b)) (m - 20) \<longrightarrow>
      ip_checksum (drop 40 (content (mss_fixup_ipv6 b m))) src dst 6 = ip_checksum (drop 40 (content b)) src dst 6)"
proof (intro conjI impI)
  assume al: "mss_aligned (drop n (content b)) m"
  show "ip_checksum (drop n (content (mss_fixup_ipv4 b m))) src dst 6 = ip_checksum (drop n (content b)) src dst 6"
  proof (rule rewritten_checksum[OF conjunct1[OF fixup_ipv4_ok[OF assms(1,2), folded n_def]] al _ assms(3,4)])
    assume "ipv4_tcp (content b)"
    then show "length (drop n (content b)) \<le> 65535"
      using u16_range[of "htons (ld16 (content b) 2)"] by (simp add: ipv4_tcp_def)
  qed
next
  assume al: "mss_aligned (drop 40 (content b)) (m - 20)"
  show "ip_checksum (drop 40 (content (mss_fixup_ipv6 b m))) src dst 6 = ip_checksum (drop 40 (content b)) src dst 6"
  proof (rule rewritten_checksum[OF conjunct1[OF fixup_ipv6_ok[OF assms(1,2)]] al _ assms(3,4)])
    assume "ipv6_tcp (content b)"
    then show "length (drop 40 (content b)) \<le> 65535"
      using u16_range[of "htons (ld16 (content b) 4)"] unfolding ipv6_tcp_def length_drop by linarith
  qed
qed

definition packet_of :: "byte list \<Rightarrow> buffer" where
  "packet_of p = \<lparr>bf_cap = int (length p), bf_off = 0, bf_len = int (length p), bf_data = Some p\<rparr>"

definition syn_packet :: "byte list" where
  "syn_packet = [0x45, 0, 0, 44, 0, 0, 0, 0, 64, 6, 0, 0, 10, 0, 0, 1, 10, 0, 0, 2,
     4, 0, 0, 80, 0, 0, 0, 0, 0, 0, 0, 0, 0x60, 2, 255, 255, 18, 52, 0, 0, 2, 4, 5, 180]"

lemma packet_of_ok: "length p < 1000000 \<Longrightarrow> buf_wf (packet_of p) \<and> buf_defined (packet_of p) \<and> content (packet_of p) = p"
  by (simp add: packet_of_def buf_wf_def buf_defined_def content_def bf_mem_def BUF_SIZE_MAX_def mem_get_def)

lemma mss_fixup_checksum_witness:
  "ip_checksum (drop 20 (content (mss_fixup_ipv4 (packet_of syn_packet) 1200))) [10, 0, 0, 1] [10, 0, 0, 2] 6 =
    ip_checksum (drop 20 syn_packet) [10, 0, 0, 1] [10, 0, 0, 2] 6 \<and>
   be16 (content (mss_fixup_ipv4 (packet_of syn_packet) 1200)) 42 = 1200"
proof -
  have p: "buf_wf (packet_of syn_packet)" "buf_defined (packet_of syn_packet)" "content (packet_of syn_packet) = syn_packet"
    using packet_of_ok[of syn_packet] by (simp_all add: syn_packet_def)
  have n: "nat (OPENVPN_IPH_GET_LEN (syn_packet ! 0)) = 20" by code_simp
  have "mss_aligned (drop 20 syn_packet) 1200" by code_simp
  then have "ip_checksum (drop 20 (content (mss_fixup_ipv4 (packet_of syn_packet) 1200))) [10, 0, 0, 1] [10, 0, 0, 2] 6 =
    ip_checksum (drop 20 syn_packet) [10, 0, 0, 1] [10, 0, 0, 2] 6"
    using mss_fixup_checksum[OF p(1,2), of "[10, 0, 0, 1]" "[10, 0, 0, 2]" 1200] by (simp add: p(3) n)
  moreover have "be16 (content (mss_fixup_ipv4 (packet_of syn_packet) 1200)) 42 = 1200" by code_simp
  ultimately show ?thesis by simp
qed

definition odd_packet :: "byte list" where
  "odd_packet = [0x45, 0, 0, 48, 0, 0, 0, 0, 64, 6, 0, 0, 10, 0, 0, 1, 10, 0, 0, 2,
     4, 0, 0, 80, 0, 0, 0, 0, 0, 0, 0, 0, 0x70, 2, 255, 255, 18, 52, 0, 0, 1, 2, 4, 5, 180, 0, 0, 0]"

text \<open>an option at an odd offset is lowered too, but with a wrong checksum.\<close>

lemma mss_fixup_odd_breaks:
  "be16 (content (mss_fixup_ipv4 (packet_of odd_packet) 1200)) 43 = 1200 \<and>
   ip_checksum (drop 20 (content (mss_fixup_ipv4 (packet_of odd_packet) 1200))) [10, 0, 0, 1] [10, 0, 0, 2] 6 \<noteq>
     ip_checksum (drop 20 odd_packet) [10, 0, 0, 1] [10, 0, 0, 2] 6"
proof -
  let ?out = "[69, 0, 0, 48, 0, 0, 0, 0, 64, 6, 0, 0, 10, 0, 0, 1, 10, 0, 0, 2, 4, 0, 0,
    80, 0, 0, 0, 0, 0, 0, 0, 0, 112, 2, 255, 255, 19, 56, 0, 0, 1, 2, 4, 4, 176, 0, 0, 0] :: byte list"
  have e: "content (mss_fixup_ipv4 (packet_of odd_packet) 1200) = ?out" by code_simp
  have "uint (ip_checksum (drop 20 ?out) [10, 0, 0, 1] [10, 0, 0, 2] 6) \<noteq> uint (ip_checksum (drop 20 odd_packet) [10, 0, 0, 1] [10, 0, 0, 2] 6)"
    by (subst (1 2) uint_ip_checksum) (simp_all add: words_total_def odd_packet_def)
  then show ?thesis unfolding e by (auto simp: be16_def)
qed

text \<open>The rewriting of an unfragmented IPv4 TCP SYN lowers every segment size option above the
  limit to the limit and touches nothing else but the checksum; any other packet is left as it is.\<close>

theorem mss_fixup_clamps:
  fixes b :: buffer and m :: u16
  assumes "buf_wf b" "buf_defined b"
  defines "p \<equiv> content b" and "p' \<equiv> content (mss_fixup_ipv4 b m)"
  defines "n \<equiv> nat (OPENVPN_IPH_GET_LEN (p ! 0))"
  defines "seg \<equiv> drop n p" and "seg' \<equiv> drop n p'"
  shows "take n p' = take n p \<and>
    (if ipv4_tcp p \<and> tcp_syn seg
     then length seg' = length seg \<and>
       (\<forall>j < length seg. j \<noteq> 16 \<and> j \<noteq> 17 \<and> (\<forall>q \<in> set (seg_mss seg). j \<noteq> q + 2 \<and> j \<noteq> q + 3) \<longrightarrow> seg' ! j = seg ! j) \<and>
       (\<forall>q \<in> set (seg_mss seg). be16 seg' (q + 2) = min (be16 seg (q + 2)) (uint m))
     else p' = p)"
proof -
  have r: "rewritten p n (ipv4_tcp p) m p'"
    using fixup_ipv4_ok[OF assms(1,2), of m] by (simp add: p_def p'_def n_def)
  show ?thesis
  proof (cases "ipv4_tcp p \<and> tcp_syn seg")
    case True
    then have "take n p' = take n p" "clamped seg m (seg_mss seg) seg'" using r by (simp_all add: rewritten_def seg_def seg'_def)
    then show ?thesis using True by (simp add: clamped_def)
  next
    case False
    then show ?thesis using r by (auto simp: rewritten_def seg_def)
  qed
qed

lemma mss_fixup_clamps_witness:
  "let p = syn_packet; p' = content (mss_fixup_ipv4 (packet_of p) 1200)
   in seg_mss (drop 20 p) = [20] \<and> be16 (drop 20 p') 22 = min (be16 (drop 20 p) 22) 1200 \<and> take 20 p' = take 20 p"
proof -
  have p: "buf_wf (packet_of syn_packet)" "buf_defined (packet_of syn_packet)" "content (packet_of syn_packet) = syn_packet"
    using packet_of_ok[of syn_packet] by (simp_all add: syn_packet_def)
  have n: "nat (OPENVPN_IPH_GET_LEN (syn_packet ! 0)) = 20" by code_simp
  have c: "ipv4_tcp syn_packet \<and> tcp_syn (drop 20 syn_packet)" "seg_mss (drop 20 syn_packet) = [20]" by code_simp+
  show ?thesis
    using mss_fixup_clamps[OF p(1,2), of 1200] unfolding p(3) n if_P[OF c(1)] c(2) by (simp add: Let_def c(2))
qed

end
