(* ===== verification/Client_Nat.thy ===== *)
theory Client_Nat
  imports Mss
begin

text \<open>
  Address translation for clients, \<^verbatim>\<open>clinat.c\<close>: the table of rules and the rewriting of the
  addresses of an IPv4 packet with its checksums. The invariant of the loop over the rules
  says that the accumulated difference is what the header lost.
\<close>

unbundle bit_operations_syntax

section \<open>State\<close>

record client_nat_entry =
  cn_dnat :: bool
  cn_network :: u32
  cn_netmask :: u32
  cn_foreign :: u32

type_synonym client_nat_option_list = "client_nat_entry list"

definition MAX_CLIENT_NAT :: nat where "MAX_CLIENT_NAT = 64"

definition add_entry :: "client_nat_option_list \<Rightarrow> client_nat_entry \<Rightarrow> bool \<times> client_nat_option_list" where
  "add_entry dest e = (if length dest \<ge> MAX_CLIENT_NAT then (False, dest) else (True, dest @ [e]))"

definition new_client_nat_list :: client_nat_option_list where "new_client_nat_list = []"

definition clone_client_nat_option_list :: "client_nat_option_list \<Rightarrow> client_nat_option_list" where
  "clone_client_nat_option_list src = src"

fun copy_client_nat_option_list :: "client_nat_option_list \<Rightarrow> client_nat_option_list \<Rightarrow> client_nat_option_list" where
  "copy_client_nat_option_list dest [] = dest"
| "copy_client_nat_option_list dest (e # es) =
     (case add_entry dest e of (ok, dest') \<Rightarrow> if ok then copy_client_nat_option_list dest' es else dest')"

text \<open>
  \<open>getaddr\<close> is the name resolution of \<^verbatim>\<open>socket.c\<close>: the address in network order, as the host
  loads it, or nothing.
\<close>

definition add_client_nat_to_option_list ::
  "(string \<Rightarrow> u32 option) \<Rightarrow> client_nat_option_list \<Rightarrow> string \<Rightarrow> string \<Rightarrow> string \<Rightarrow> string \<Rightarrow> client_nat_option_list" where
  "add_client_nat_to_option_list getaddr dest t network netmask foreign_network =
     (if t \<noteq> ''snat'' \<and> t \<noteq> ''dnat'' then dest
      else case getaddr network of None \<Rightarrow> dest
      | Some n \<Rightarrow>
        (case getaddr netmask of None \<Rightarrow> dest
         | Some m \<Rightarrow>
           (case getaddr foreign_network of None \<Rightarrow> dest
            | Some f \<Rightarrow> snd (add_entry dest \<lparr>cn_dnat = (t = ''dnat''), cn_network = n, cn_netmask = m, cn_foreign = f\<rparr>))))"

section \<open>The transformation\<close>

definition ld32 :: "byte list \<Rightarrow> nat \<Rightarrow> u32" where
  "ld32 p i = ucast (ld16 p i) OR push_bit 16 (ucast (ld16 p (i + 2)))"

definition st32 :: "byte list \<Rightarrow> nat \<Rightarrow> u32 \<Rightarrow> byte list" where
  "st32 p i w = st16 (st16 p i (ucast w)) (i + 2) (ucast (drop_bit 16 w))"

text \<open>Outgoing is \<open>False\<close>, \<^verbatim>\<open>CN_OUTGOING\<close>; \<^verbatim>\<open>saddr\<close> is at 12 of the header, \<^verbatim>\<open>daddr\<close> at 16.\<close>

definition nat_step :: "bool \<Rightarrow> client_nat_entry \<Rightarrow> byte list \<times> int \<times> u32 \<Rightarrow> byte list \<times> int \<times> u32" where
  "nat_step incoming e = (\<lambda>(p, accumulate, alog).
     let dst = (cn_dnat e \<noteq> incoming);
         at = (if dst then 16 else 12);
         amask = (if dst then 2 else 1);
         addr = ld32 p at;
         frm = (if incoming then cn_foreign e else cn_network e);
         to = (if incoming then cn_network e else cn_foreign e)
     in if addr AND cn_netmask e = frm \<and> amask AND alog = 0
        then let addr1 = (addr AND NOT (cn_netmask e)) OR to in
             (st32 p at addr1, SUB_CHECKSUM_32 (ADD_CHECKSUM_32 accumulate addr) addr1, alog OR amask)
        else (p, accumulate, alog))"

definition OPENVPN_IPPROTO_UDP :: byte where "OPENVPN_IPPROTO_UDP = 17"

definition nat_checksums :: "byte list \<Rightarrow> int \<Rightarrow> int \<Rightarrow> byte list" where
  "nat_checksums p len accumulate =
     (let p1 = st16 p 10 (ADJUST_CHECKSUM accumulate (ld16 p 10)) in
      if p1 ! 9 = OPENVPN_IPPROTO_TCP then
        if len \<ge> 20 + 20 then st16 p1 36 (ADJUST_CHECKSUM accumulate (ld16 p1 36)) else p1
      else if p1 ! 9 = OPENVPN_IPPROTO_UDP then
        if len \<ge> 20 + 8 then st16 p1 26 (ADJUST_CHECKSUM accumulate (ld16 p1 26)) else p1
      else p1)"

definition client_nat_transform :: "client_nat_option_list \<Rightarrow> buffer \<Rightarrow> bool \<Rightarrow> buffer" where
  "client_nat_transform l ipbuf incoming =
     (case fold (nat_step incoming) l (buf_bytes ipbuf, 0, 0) of (p, accumulate, alog) \<Rightarrow>
        put_bytes ipbuf (if alog \<noteq> 0 then nat_checksums p (buf_len ipbuf) accumulate else p))"

section \<open>Checksums after the transformation\<close>

definition halves :: "u32 \<Rightarrow> int" where
  "halves w = uint (w AND 0xFFFF) + uint (drop_bit 16 w)"

lemma low_half: "uint (ucast w :: u16) = uint (w AND 0xFFFF)" for w :: u32
proof -
  have "w AND 0xFFFF = take_bit 16 w" by (simp add: take_bit_eq_mask mask_eq_exp_minus_1)
  then have "uint (w AND 0xFFFF) = take_bit 16 (uint w)" by (simp only: unsigned_take_bit_eq)
  then show ?thesis by (simp only: take_bit_eq_mod uint_ucast_mod) simp
qed

lemma high_half: "uint (ucast (drop_bit 16 w) :: u16) = uint (drop_bit 16 w)" for w :: u32
proof -
  have "uint w div 65536 < 65536" by (rule uint_div_less) (use uint_lt2p[of w] in simp_all)
  then show ?thesis unfolding uint_ucast_mod uint_drop by simp
qed

lemma no_high_bit: "\<not> bit w (16 + n)" for w :: u16
  using bit_imp_le_length[of w "16 + n"] by auto

lemma halves_ld32: "halves (ld32 p i) = uint (ld16 p i) + uint (ld16 p (i + 2))"
proof -
  have "ucast (ld32 p i) = ld16 p i" "ucast (drop_bit 16 (ld32 p i)) = ld16 p (i + 2)"
    unfolding ld32_def by (auto intro!: bit_word_eqI simp: bit_simps no_high_bit)
  then show ?thesis unfolding halves_def low_half[symmetric] high_half[symmetric] by simp
qed

lemma halves_range: "0 \<le> halves w" "halves w \<le> 131070"
  using u16_range[of "ucast w"] u16_range[of "ucast (drop_bit 16 w)"]
  unfolding halves_def low_half[symmetric] high_half[symmetric] by simp_all

lemma ld16_mod: "256 * uint (ld16 p i) mod 65535 = be16 p i mod 65535"
  by (rule be16_ld16[symmetric])

lemma take_drop2:
  assumes "i + 1 < n" "n \<le> length p"
  shows "take n (take i p @ a # b # drop (Suc (Suc i)) p) = take i p @ a # b # drop (Suc (Suc i)) (take n p)"
    "drop n (take i p @ a # b # drop (Suc (Suc i)) p) = drop n p"
proof -
  from assms(1) obtain k where k: "n = Suc (Suc i) + k" by (metis Suc_eq_plus1 Suc_leI le_Suc_ex)
  have m: "min (length p) i = i" using assms by simp
  show "take n (take i p @ a # b # drop (Suc (Suc i)) p) = take i p @ a # b # drop (Suc (Suc i)) (take n p)"
    unfolding k by (simp add: m drop_take)
  show "drop n (take i p @ a # b # drop (Suc (Suc i)) p) = drop n p"
    unfolding k by (simp add: m add.commute)
qed

lemma st16_take: "i + 1 < n \<Longrightarrow> n \<le> length p \<Longrightarrow> take n (st16 p i w) = st16 (take n p) i w"
  using take_drop2(1)[of i n p] by (simp add: st16_def mem_put_def min_def)

lemma st16_take_same: "n \<le> i \<Longrightarrow> i + 1 < length p \<Longrightarrow> take n (st16 p i w) = take n p"
  by (simp add: st16_def mem_put_def min_def)

lemma st16_drop: "n \<le> i \<Longrightarrow> i + 1 < length p \<Longrightarrow> drop n (st16 p i w) = st16 (drop n p) (i - n) w"
  by (simp add: st16_def mem_put_def drop_take)

lemma st16_drop_same: "i + 1 < n \<Longrightarrow> n \<le> length p \<Longrightarrow> drop n (st16 p i w) = drop n p"
  using take_drop2(2)[of i n p] by (simp add: st16_def mem_put_def)

lemma ld16_drop: "n \<le> i \<Longrightarrow> i + 1 < length p \<Longrightarrow> ld16 (drop n p) (i - n) = ld16 p i"
  by (simp add: ld16_def Suc_diff_le[symmetric])

lemma ld16_take: "i + 1 < n \<Longrightarrow> ld16 (take n p) i = ld16 p i"
  by (simp add: ld16_def)

lemma ld16_st16_other: "j + 1 < i \<or> i + 1 < j \<Longrightarrow> i + 1 < length p \<Longrightarrow> j + 1 < length p \<Longrightarrow> ld16 (st16 p i w) j = ld16 p j"
  by (auto simp: ld16_def st16_def nth_put2)

lemma be16_of_ld16: "ld16 p i = ld16 q j \<Longrightarrow> be16 p i mod 65535 = be16 q j mod 65535"
  by (simp add: be16_ld16)

lemma be_sum_st32:
  assumes "even i" "i + 3 < length p"
  shows "be_sum (st32 p i w) mod 65535 = (be_sum p - 256 * halves (ld32 p i) + 256 * halves w) mod 65535"
proof -
  let ?q = "st16 p i (ucast w)"
  have l: "Suc i < length p" "Suc (i + 2) < length ?q" "even (i + 2)" using assms by simp_all
  have "be_sum (st32 p i w) mod 65535 = (be_sum ?q - be16 ?q (i + 2) + 256 * uint (drop_bit 16 w)) mod 65535"
    unfolding st32_def be_sum_st16[OF l(3,2)] high_half ..
  also have "\<dots> = (be_sum p - be16 p i + 256 * uint (w AND 0xFFFF) - 256 * uint (ld16 p (i + 2)) + 256 * uint (drop_bit 16 w)) mod 65535"
  proof (intro mod_add_cong mod_diff_cong refl)
    show "be_sum ?q mod 65535 = (be_sum p - be16 p i + 256 * uint (w AND 0xFFFF)) mod 65535"
      unfolding be_sum_st16[OF assms(1) l(1)] low_half ..
    have "ld16 ?q (i + 2) = ld16 p (i + 2)" by (rule ld16_st16_other) (use assms in simp_all)
    then show "be16 ?q (i + 2) mod 65535 = 256 * uint (ld16 p (i + 2)) mod 65535" by (simp add: be16_ld16)
  qed
  also have "\<dots> = (be_sum p - 256 * uint (ld16 p i) + 256 * uint (w AND 0xFFFF) - 256 * uint (ld16 p (i + 2)) + 256 * uint (drop_bit 16 w)) mod 65535"
    by (intro mod_add_cong mod_diff_cong refl be16_ld16)
  also have "be_sum p - 256 * uint (ld16 p i) + 256 * uint (w AND 0xFFFF) - 256 * uint (ld16 p (i + 2)) + 256 * uint (drop_bit 16 w) =
      be_sum p - 256 * halves (ld32 p i) + 256 * halves w"
    unfolding halves_ld32 by (simp add: halves_def algebra_simps)
  finally show ?thesis .
qed

text \<open>What the loop over the rules keeps.\<close>

definition nat_inv :: "byte list \<Rightarrow> byte list \<times> int \<times> u32 \<Rightarrow> bool" where
  "nat_inv p0 = (\<lambda>(p, acc, alog). length p = length p0 \<and> take 12 p = take 12 p0 \<and> drop 20 p = drop 20 p0 \<and>
     (256 * acc + be_sum (take 20 p)) mod 65535 = be_sum (take 20 p0) mod 65535 \<and>
     \<bar>acc\<bar> \<le> 131070 * (of_bool (bit alog 0) + of_bool (bit alog 1)))"

lemma nat_step_inv:
  assumes i: "nat_inv p0 s" and l: "20 \<le> length p0"
  shows "nat_inv p0 (nat_step incoming e s)"
proof -
  obtain p acc alog where s: "s = (p, acc, alog)" by (cases s)
  define at :: nat where "at = (if cn_dnat e \<noteq> incoming then 16 else 12)"
  define amask :: u32 where "amask = (if cn_dnat e \<noteq> incoming then 2 else 1)"
  define addr where "addr = ld32 p at"
  define w where "w = ((addr AND NOT (cn_netmask e)) OR (if incoming then cn_network e else cn_foreign e))"
  define hit where "hit \<longleftrightarrow> addr AND cn_netmask e = (if incoming then cn_foreign e else cn_network e) \<and> amask AND alog = 0"
  have u: "nat_step incoming e s =
    (if hit then (st32 p at w, SUB_CHECKSUM_32 (ADD_CHECKSUM_32 acc addr) w, alog OR amask) else (p, acc, alog))"
    by (simp only: nat_step_def s prod.case Let_def at_def[symmetric] amask_def[symmetric] addr_def[symmetric] w_def[symmetric] hit_def[symmetric])
  show ?thesis
  proof (cases hit)
    case False
    then show ?thesis using i u s by simp
  next
    case True
    then have r: "nat_step incoming e s = (st32 p at w, SUB_CHECKSUM_32 (ADD_CHECKSUM_32 acc addr) w, alog OR amask)"
      using u by simp
    have h: "length p = length p0" "take 12 p = take 12 p0" "drop 20 p = drop 20 p0"
      "(256 * acc + be_sum (take 20 p)) mod 65535 = be_sum (take 20 p0) mod 65535"
      "\<bar>acc\<bar> \<le> 131070 * (of_bool (bit alog 0) + of_bool (bit alog 1))"
      using i by (simp_all add: nat_inv_def s)
    have at: "at = 12 \<or> at = 16" "even at" by (simp_all add: at_def)
    have acc': "SUB_CHECKSUM_32 (ADD_CHECKSUM_32 acc addr) w = acc + halves addr - halves w"
      by (simp add: SUB_CHECKSUM_32_def ADD_CHECKSUM_32_def halves_def)
    have fr: "length (st32 p at w) = length p" "take 12 (st32 p at w) = take 12 p" "drop 20 (st32 p at w) = drop 20 p"
      using at(1) l h(1) by (auto simp: st32_def st16_take_same st16_drop_same)
    have tk: "take 20 (st32 p at w) = st32 (take 20 p) at w"
      using at(1) l h(1) by (auto simp: st32_def st16_take)
    have ad: "ld32 (take 20 p) at = addr" using at(1) by (auto simp: ld32_def addr_def ld16_take)
    have "be_sum (take 20 (st32 p at w)) mod 65535 = (be_sum (take 20 p) - 256 * halves addr + 256 * halves w) mod 65535"
      unfolding tk ad[symmetric] by (rule be_sum_st32[OF at(2)]) (use at(1) l h(1) in auto)
    then have "(256 * (acc + halves addr - halves w) + be_sum (take 20 (st32 p at w))) mod 65535 =
      (256 * (acc + halves addr - halves w) + (be_sum (take 20 p) - 256 * halves addr + 256 * halves w)) mod 65535"
      by (rule mod_add_cong[OF refl])
    also have "256 * (acc + halves addr - halves w) + (be_sum (take 20 p) - 256 * halves addr + 256 * halves w) =
      256 * acc + be_sum (take 20 p)" by (simp add: algebra_simps)
    finally have sum: "(256 * (acc + halves addr - halves w) + be_sum (take 20 (st32 p at w))) mod 65535 = be_sum (take 20 p0) mod 65535"
      using h(4) by simp
    have b: "of_bool (bit (alog OR amask) 0) + of_bool (bit (alog OR amask) 1) = of_bool (bit alog 0) + of_bool (bit alog 1) + (1 :: int)"
    proof -
      have "amask = 1 \<or> amask = 2" by (simp add: amask_def)
      moreover have "\<not> (bit amask n \<and> bit alog n)" for n using True[unfolded hit_def] by (metis bit_and_iff bit_0_eq bot_apply bot_bool_def)
      moreover have "bit (1 :: u32) 0" "\<not> bit (1 :: u32) 1" "\<not> bit (2 :: u32) 0" "bit (2 :: u32) 1" by simp_all
      ultimately show ?thesis by (auto simp: bit_or_iff)
    qed
    have "\<bar>acc + halves addr - halves w\<bar> \<le> 131070 * (of_bool (bit (alog OR amask) 0) + of_bool (bit (alog OR amask) 1))"
      unfolding b
    proof -
      define c :: int where "c = 131070 * (of_bool (bit alog 0) + of_bool (bit alog 1))"
      have "\<bar>acc\<bar> \<le> c" using h(5) by (simp add: c_def)
      then have "\<bar>acc + halves addr - halves w\<bar> \<le> c + 131070" using halves_range[of addr] halves_range[of w] by linarith
      then show "\<bar>acc + halves addr - halves w\<bar> \<le> 131070 * (of_bool (bit alog 0) + of_bool (bit alog 1) + 1)"
        by (simp add: c_def distrib_left)
    qed
    then show ?thesis unfolding r acc' nat_inv_def using fr h(1-3) sum by simp
  qed
qed

lemma nat_fold_inv: "20 \<le> length p0 \<Longrightarrow> nat_inv p0 (fold (nat_step incoming) l (p0, 0, 0))"
proof -
  assume l: "20 \<le> length p0"
  have "nat_inv p0 s \<Longrightarrow> nat_inv p0 (fold (nat_step incoming) l s)" for s
    by (induction l arbitrary: s) (simp_all add: nat_step_inv[OF _ l])
  moreover have "nat_inv p0 (p0, 0, 0)" by (simp add: nat_inv_def)
  ultimately show ?thesis by blast
qed

definition addr_sum :: "byte list \<Rightarrow> int" where
  "addr_sum p = be_sum (mem_get p 12 4) + be_sum (mem_get p 16 4)"

lemma header_split: "20 \<le> length p \<Longrightarrow> be_sum (take 20 p) = be_sum (take 12 p) + addr_sum p"
proof -
  assume l: "20 \<le> length p"
  have "take 20 p = mem_get p 0 (12 + (4 + 4))" by (simp add: mem_get_def)
  also have "\<dots> = take 12 p @ mem_get p 12 4 @ mem_get p 16 4"
    unfolding mem_get_append by (simp add: mem_get_def)
  finally have "take 20 p = take 12 p @ mem_get p 12 4 @ mem_get p 16 4" .
  then show ?thesis using l by (simp add: be_sum_append mem_get_def addr_sum_def)
qed

lemma adjusted:
  assumes "even i" "i + 1 < length p" "\<bar>acc\<bar> \<le> 262140"
  shows "be_sum (st16 p i (ADJUST_CHECKSUM acc (ld16 p i))) mod 65535 = (be_sum p + 256 * acc) mod 65535"
proof (rule be_sum_ADJUST)
  have "\<bar>acc + uint (ld16 p i)\<bar> < 2147483648" using assms(3) u16_range[of "ld16 p i"] by linarith
  then show "\<bar>acc + uint (ld16 p i)\<bar> < 2 ^ 31" by simp
qed (use assms in simp_all)

text \<open>The two checksums of a packet whose transport header starts at 20.\<close>

definition same_sums :: "byte list \<Rightarrow> byte list \<Rightarrow> bool" where
  "same_sums p p' \<longleftrightarrow> be_sum (take 20 p') mod 65535 = be_sum (take 20 p) mod 65535 \<and>
     (addr_sum p' + be_sum (drop 20 p')) mod 65535 = (addr_sum p + be_sum (drop 20 p)) mod 65535"

lemma nat_checksums_ok:
  assumes i: "nat_inv p0 (p, acc, alog)" and l: "20 \<le> length p0" "n = int (length p0)"
    and t: "p0 ! 9 = OPENVPN_IPPROTO_TCP \<Longrightarrow> 40 \<le> length p0" "p0 ! 9 = OPENVPN_IPPROTO_UDP \<Longrightarrow> 28 \<le> length p0"
  defines "p' \<equiv> nat_checksums p n acc"
  shows "length p' = length p0 \<and> p' ! 9 = p0 ! 9 \<and> be_sum (take 20 p') mod 65535 = be_sum (take 20 p0) mod 65535 \<and>
    (p0 ! 9 = OPENVPN_IPPROTO_TCP \<or> p0 ! 9 = OPENVPN_IPPROTO_UDP \<longrightarrow> same_sums p0 p')"
proof -
  have h: "length p = length p0" "take 12 p = take 12 p0" "drop 20 p = drop 20 p0"
    "(256 * acc + be_sum (take 20 p)) mod 65535 = be_sum (take 20 p0) mod 65535"
    "\<bar>acc\<bar> \<le> 131070 * (of_bool (bit alog 0) + of_bool (bit alog 1))"
    using i by (simp_all add: nat_inv_def)
  have ac: "\<bar>acc\<bar> \<le> 262140" using h(5) by (auto split: if_splits simp: of_bool_def)
  define p1 where "p1 = st16 p 10 (ADJUST_CHECKSUM acc (ld16 p 10))"
  have l1: "length p1 = length p0" unfolding p1_def using l h(1) by simp
  have t1: "take 20 p1 = st16 (take 20 p) 10 (ADJUST_CHECKSUM acc (ld16 (take 20 p) 10))"
    unfolding p1_def by (subst st16_take) (use l h(1) in \<open>simp_all add: ld16_take\<close>)
  have d1: "drop 20 p1 = drop 20 p0" unfolding p1_def h(3)[symmetric] by (rule st16_drop_same) (use l h(1) in simp_all)
  have s1: "be_sum (take 20 p1) mod 65535 = be_sum (take 20 p0) mod 65535"
    unfolding t1 by (subst adjusted) (use l h(1,4) ac in \<open>simp_all add: add.commute\<close>)
  have n9: "p1 ! 9 = p0 ! 9"
  proof -
    have "p1 ! 9 = p ! 9" unfolding p1_def st16_def using l h(1) by (subst nth_put2) simp_all
    also have "\<dots> = take 12 p ! 9" by simp
    finally show ?thesis unfolding h(2) by simp
  qed
  have g1: "addr_sum p1 = addr_sum p"
  proof -
    have "drop 12 p1 = drop 12 p" unfolding p1_def by (rule st16_drop_same) (use l h(1) in simp_all)
    then have "mem_get p1 12 4 = mem_get p 12 4" "drop 4 (drop 12 p1) = drop 4 (drop 12 p)" by (simp_all only: mem_get_def)
    then show ?thesis by (simp add: addr_sum_def mem_get_def)
  qed
  have asum: "(addr_sum p + 256 * acc) mod 65535 = addr_sum p0 mod 65535"
  proof -
    have "256 * acc + be_sum (take 20 p) = be_sum (take 12 p0) + (addr_sum p + 256 * acc)"
      unfolding header_split[of p, unfolded h(1), OF l(1)] h(2) by simp
    then have "(be_sum (take 12 p0) + (addr_sum p + 256 * acc)) mod 65535 = (be_sum (take 12 p0) + addr_sum p0) mod 65535"
      using h(4) unfolding header_split[OF l(1)] by (simp add: add_ac)
    then show ?thesis by (simp add: mod_eq_dvd_iff)
  qed
  have fin: "length p2 = length p0 \<and> p2 ! 9 = p0 ! 9 \<and> be_sum (take 20 p2) mod 65535 = be_sum (take 20 p0) mod 65535 \<and> same_sums p0 p2"
    if k: "20 \<le> k" "even k" "k + 1 < length p0" and p2: "p2 = st16 p1 k (ADJUST_CHECKSUM acc (ld16 p1 k))" for k p2
  proof -
    have len: "length p2 = length p0" unfolding p2 using k l1 by simp
    have tk: "take 20 p2 = take 20 p1" unfolding p2 by (rule st16_take_same) (use k l1 in simp_all)
    have "p2 ! 9 = take 20 p2 ! 9" by simp
    then have nine: "p2 ! 9 = p0 ! 9" unfolding tk using n9 by simp
    have dr: "drop 20 p2 = st16 (drop 20 p0) (k - 20) (ADJUST_CHECKSUM acc (ld16 (drop 20 p0) (k - 20)))"
      unfolding p2 d1[symmetric] using k l1 by (simp add: st16_drop ld16_drop)
    have sm: "be_sum (drop 20 p2) mod 65535 = (be_sum (drop 20 p0) + 256 * acc) mod 65535"
      unfolding dr by (rule adjusted) (use k ac in auto)
    have ads: "addr_sum p2 = addr_sum p"
    proof -
      have "addr_sum q = be_sum (take 4 (drop 12 (take 20 q))) + be_sum (drop 16 (take 20 q))" for q
        by (simp add: addr_sum_def mem_get_def drop_take)
      then show ?thesis using g1 tk by metis
    qed
    have "(addr_sum p2 + be_sum (drop 20 p2)) mod 65535 = (addr_sum p + (be_sum (drop 20 p0) + 256 * acc)) mod 65535"
      unfolding ads by (rule mod_add_cong[OF refl sm])
    also have "addr_sum p + (be_sum (drop 20 p0) + 256 * acc) = (addr_sum p + 256 * acc) + be_sum (drop 20 p0)" by simp
    also have "((addr_sum p + 256 * acc) + be_sum (drop 20 p0)) mod 65535 = (addr_sum p0 + be_sum (drop 20 p0)) mod 65535"
      by (rule mod_add_cong[OF asum refl])
    finally show ?thesis using len nine tk s1 by (simp add: same_sums_def)
  qed
  have e: "p' = (if p1 ! 9 = OPENVPN_IPPROTO_TCP then if n \<ge> 40 then st16 p1 36 (ADJUST_CHECKSUM acc (ld16 p1 36)) else p1
      else if p1 ! 9 = OPENVPN_IPPROTO_UDP then if n \<ge> 28 then st16 p1 26 (ADJUST_CHECKSUM acc (ld16 p1 26)) else p1 else p1)"
    by (simp add: p'_def nat_checksums_def p1_def Let_def)
  show ?thesis
  proof (cases "p0 ! 9 = OPENVPN_IPPROTO_TCP")
    case True
    then show ?thesis using fin[of 36 p'] t(1) l(2) n9 e by simp
  next
    case False
    then show ?thesis
      using fin[of 26 p'] t(2) l(2) n9 e l1 s1 by (cases "p0 ! 9 = OPENVPN_IPPROTO_UDP") simp_all
  qed
qed

lemma put_all:
  assumes wf: "buf_wf b" "buf_defined b" and l: "length p = length (content b)"
  shows "content (put_bytes b p) = p"
proof -
  have a: "buf_advance b 0 = (True, b)"
    using wf by (auto simp: buf_advance_def buf_wf_def buf_valid_def buf_defined_def split: option.splits)
  have "0 \<le> bf_len b" using buf_wf_bounds[OF wf(1)] by simp
  moreover have "b\<lparr>bf_data := bf_data (put_bytes b p)\<rparr> = put_bytes b p" by (simp add: put_bytes_def bf_poke_def)
  moreover have "length p = nat (bf_len b - 0)" using l bf_len_content[OF wf(1)] by simp
  ultimately show ?thesis using put_tail(1)[OF wf _ _ _ a, of p] by simp
qed

lemma transform_content:
  fixes incoming :: bool and rules :: client_nat_option_list
  assumes wf: "buf_wf b" "buf_defined b" and l: "20 \<le> length (content b)"
    and t: "content b ! 9 = OPENVPN_IPPROTO_TCP \<Longrightarrow> 40 \<le> length (content b)" "content b ! 9 = OPENVPN_IPPROTO_UDP \<Longrightarrow> 28 \<le> length (content b)"
  defines "p' \<equiv> content (client_nat_transform rules b incoming)"
  shows "length p' = length (content b) \<and> p' ! 9 = content b ! 9 \<and>
    be_sum (take 20 p') mod 65535 = be_sum (take 20 (content b)) mod 65535 \<and>
    (content b ! 9 = OPENVPN_IPPROTO_TCP \<or> content b ! 9 = OPENVPN_IPPROTO_UDP \<longrightarrow> same_sums (content b) p')"
proof -
  obtain p acc alog where f: "fold (nat_step incoming) rules (content b, 0, 0) = (p, acc, alog)" by (metis prod_cases3)
  have i: "nat_inv (content b) (p, acc, alog)" using nat_fold_inv[OF l, of incoming rules] f by simp
  have bb: "buf_bytes b = content b" "buf_len b = bf_len b" using wf by (simp_all add: buf_simps)
  define q where "q = (if alog \<noteq> 0 then nat_checksums p (bf_len b) acc else p)"
  have lp: "length p = length (content b)" using i by (simp add: nat_inv_def)
  have n: "bf_len b = int (length (content b))" by (rule bf_len_content[OF wf(1)])
  have pq: "p' = q" if "length q = length (content b)"
    unfolding p'_def client_nat_transform_def bb f prod.case q_def[symmetric] by (rule put_all[OF wf that])
  show ?thesis
  proof (cases "alog = 0")
    case True
    then have "acc = 0" "q = p" using i by (simp_all add: nat_inv_def q_def)
    then have k: "take 12 q = take 12 (content b)" "drop 20 q = drop 20 (content b)" "length q = length (content b)"
      "be_sum (take 20 q) mod 65535 = be_sum (take 20 (content b)) mod 65535"
      using i by (simp_all add: nat_inv_def)
    have "take 12 q ! 9 = q ! 9" "take 12 (content b) ! 9 = content b ! 9" by simp_all
    then have "q ! 9 = content b ! 9" using k(1) by simp
    moreover have "addr_sum q mod 65535 = addr_sum (content b) mod 65535"
      using k(1,4) header_split[of q] header_split[OF l] l k(3) by (simp add: mod_eq_dvd_iff)
    then have "(addr_sum q + be_sum (drop 20 q)) mod 65535 = (addr_sum (content b) + be_sum (drop 20 (content b))) mod 65535"
      unfolding k(2) by (rule mod_add_cong[OF _ refl])
    ultimately show ?thesis using pq k by (simp add: same_sums_def)
  next
    case False
    then have "q = nat_checksums p (bf_len b) acc" by (simp add: q_def)
    then show ?thesis using nat_checksums_ok[OF i l n t] pq by simp
  qed
qed

section \<open>Addresses after the transformation\<close>

text \<open>What an address becomes: the first rule for its side that matches decides.\<close>

definition nat_target :: "bool \<Rightarrow> bool \<Rightarrow> client_nat_option_list \<Rightarrow> u32 \<Rightarrow> u32" where
  "nat_target incoming dst rules addr =
     (case List.find (\<lambda>e. (cn_dnat e \<noteq> incoming) = dst
         \<and> addr AND cn_netmask e = (if incoming then cn_foreign e else cn_network e)) rules of
        None \<Rightarrow> addr
      | Some e \<Rightarrow> (addr AND NOT (cn_netmask e)) OR (if incoming then cn_network e else cn_foreign e))"

lemma nat_target_Cons:
  "nat_target incoming dst (e # rules) addr =
     (if (cn_dnat e \<noteq> incoming) = dst \<and> addr AND cn_netmask e = (if incoming then cn_foreign e else cn_network e)
      then (addr AND NOT (cn_netmask e)) OR (if incoming then cn_network e else cn_foreign e)
      else nat_target incoming dst rules addr)"
  by (simp add: nat_target_def)

lemma ld16_st16_same:
  assumes "Suc i < length p"
  shows "ld16 (st16 p i w) i = w"
proof -
  have "ld16 (st16 p i w) i = of_nat (unat (ucast w :: byte) + 256 * unat (ucast (drop_bit 8 w) :: byte))"
    using assms by (simp add: ld16_def st16_def nth_put2)
  moreover have "int (unat (ucast w :: byte) + 256 * unat (ucast (drop_bit 8 w) :: byte)) = uint w"
    using uint_split16[of w] by (simp add: uint_nat[symmetric])
  ultimately show ?thesis by (metis of_int_of_nat_eq word_of_int_uint)
qed

lemma ld32_st32:
  assumes "i + 3 < length p"
  shows "ld32 (st32 p i w) i = w" "j + 3 < i \<or> i + 3 < j \<Longrightarrow> j + 3 < length p \<Longrightarrow> ld32 (st32 p i w) j = ld32 p j"
proof -
  let ?q = "st16 p i (ucast w)"
  have l: "Suc i < length p" "Suc (i + 2) < length ?q" using assms by simp_all
  have "ld16 (st32 p i w) i = ucast w"
    unfolding st32_def using assms l by (subst ld16_st16_other) (simp_all add: ld16_st16_same)
  moreover have "ld16 (st32 p i w) (i + 2) = ucast (drop_bit 16 w)"
    unfolding st32_def by (rule ld16_st16_same[OF l(2)])
  ultimately show "ld32 (st32 p i w) i = w"
    unfolding ld32_def by (auto intro!: bit_word_eqI simp: bit_simps dest: bit_imp_le_length)
  assume j: "j + 3 < i \<or> i + 3 < j" "j + 3 < length p"
  have "ld16 (st32 p i w) k = ld16 p k" if "k = j \<or> k = j + 2" for k
    unfolding st32_def using that j assms l
    by (subst ld16_st16_other, force, force, force) (rule ld16_st16_other; force)
  then show "ld32 (st32 p i w) j = ld32 p j" by (simp add: ld32_def)
qed

lemma alog_bits: "1 AND (x :: u32) = 0 \<longleftrightarrow> \<not> bit x 0" "2 AND (x :: u32) = 0 \<longleftrightarrow> \<not> bit x (Suc 0)"
  "bit (x OR 1) 0" "bit (x OR 1) (Suc 0) = bit x (Suc 0)" "bit (x OR 2) 0 = bit x 0" "bit (x OR 2) (Suc 0)"
  using and_exp_eq_0_iff_not_bit[of x 0] and_exp_eq_0_iff_not_bit[of x 1] by (simp_all add: bit_or_iff and.commute)

text \<open>Each side is rewritten once, by the first rule that matches.\<close>

lemma nat_fold_addr:
  assumes "fold (nat_step incoming) rules (p, acc, alog) = (q, acc', alog')" "20 \<le> length p"
  shows "ld32 q 12 = (if bit alog 0 then ld32 p 12 else nat_target incoming False rules (ld32 p 12))
    \<and> ld32 q 16 = (if bit alog 1 then ld32 p 16 else nat_target incoming True rules (ld32 p 16))"
  using assms
proof (induction rules arbitrary: p acc alog)
  case Nil
  then show ?case by (simp add: nat_target_def)
next
  case (Cons e rules)
  obtain p1 acc1 alog1 where s: "nat_step incoming e (p, acc, alog) = (p1, acc1, alog1)" by (metis prod_cases3)
  have f: "fold (nat_step incoming) rules (p1, acc1, alog1) = (q, acc', alog')" using Cons.prems(1) s by simp
  have l1: "20 \<le> length p1"
    using s Cons.prems(2) by (auto simp: nat_step_def Let_def st32_def split: if_splits)
  note ih = Cons.IH[OF f l1]
  have far: "ld32 (st32 p 12 w) 16 = ld32 p 16" "ld32 (st32 p 16 w) 12 = ld32 p 12"
    "ld32 (st32 p 12 w) 12 = w" "ld32 (st32 p 16 w) 16 = w" for w
    using Cons.prems(2) by (simp_all add: ld32_st32)
  show ?case
    using ih s by (cases "cn_dnat e \<noteq> incoming")
      (auto simp: nat_step_def Let_def nat_target_Cons alog_bits far split: if_splits)
qed

lemma nat_checksums_addr:
  assumes "20 \<le> length p" "p ! 9 = OPENVPN_IPPROTO_TCP \<Longrightarrow> 40 \<le> length p" "p ! 9 = OPENVPN_IPPROTO_UDP \<Longrightarrow> 28 \<le> length p"
    "at = 12 \<or> at = 16"
  shows "ld32 (nat_checksums p (int (length p)) acc) at = ld32 p at"
proof -
  let ?p1 = "st16 p 10 (ADJUST_CHECKSUM acc (ld16 p 10))"
  have l: "length ?p1 = length p" using assms(1) by simp
  have nine: "?p1 ! 9 = p ! 9" using assms(1) by (simp add: st16_def nth_put2)
  have a: "ld16 ?p1 k = ld16 p k" if "12 \<le> k" "k \<le> 18" for k
    by (rule ld16_st16_other) (use that assms(1) in auto)
  have b: "ld16 (st16 ?p1 m w) k = ld16 p k" if "12 \<le> k" "k \<le> 18" "20 \<le> m" "Suc m < length p" for k m w
    using a[OF that(1,2)] by (subst ld16_st16_other) (use that l in auto)
  have k: "12 \<le> at" "at \<le> 18" "12 \<le> at + 2" "at + 2 \<le> 18" using assms(4) by auto
  have c: "ld32 ?p1 at = ld32 p at" using a[OF k(1,2)] a[OF k(3,4)] by (simp add: ld32_def)
  have d: "ld32 (st16 ?p1 m w) at = ld32 p at" if "20 \<le> m" "Suc m < length p" for m w
    using b[OF k(1,2) that] b[OF k(3,4) that] by (simp add: ld32_def)
  show ?thesis
    using c d assms(2,3) nine by (auto simp: nat_checksums_def Let_def OPENVPN_IPPROTO_TCP_def OPENVPN_IPPROTO_UDP_def)
qed

lemma transform_addr:
  fixes incoming :: bool and rules :: client_nat_option_list
  assumes wf: "buf_wf b" "buf_defined b" and l: "20 \<le> length (content b)"
    and t: "content b ! 9 = OPENVPN_IPPROTO_TCP \<Longrightarrow> 40 \<le> length (content b)" "content b ! 9 = OPENVPN_IPPROTO_UDP \<Longrightarrow> 28 \<le> length (content b)"
  defines "p' \<equiv> content (client_nat_transform rules b incoming)"
  shows "ld32 p' 12 = nat_target incoming False rules (ld32 (content b) 12)"
    "ld32 p' 16 = nat_target incoming True rules (ld32 (content b) 16)"
proof -
  obtain p acc alog where f: "fold (nat_step incoming) rules (content b, 0, 0) = (p, acc, alog)" by (metis prod_cases3)
  have i: "nat_inv (content b) (p, acc, alog)" using nat_fold_inv[OF l, of incoming rules] f by simp
  have bb: "buf_bytes b = content b" "buf_len b = bf_len b" using wf by (simp_all add: buf_simps)
  have lp: "length p = length (content b)" using i by (simp add: nat_inv_def)
  have n: "bf_len b = int (length p)" using bf_len_content[OF wf(1)] lp by simp
  define q where "q = (if alog \<noteq> 0 then nat_checksums p (bf_len b) acc else p)"
  have lq: "length q = length (content b)"
    using lp l t i by (auto simp: q_def nat_checksums_def Let_def n nat_inv_def)
  have pq: "p' = q"
    unfolding p'_def client_nat_transform_def bb f prod.case q_def[symmetric] by (rule put_all[OF wf lq])
  have "take 12 p ! 9 = take 12 (content b) ! 9" using i by (simp add: nat_inv_def)
  then have nine: "p ! 9 = content b ! 9" by simp
  have q: "ld32 q at = ld32 p at" if "at = 12 \<or> at = 16" for at
    unfolding q_def n using nat_checksums_addr[OF _ _ _ that, of p acc] lp l t nine by simp
  show "ld32 p' 12 = nat_target incoming False rules (ld32 (content b) 12)"
    "ld32 p' 16 = nat_target incoming True rules (ld32 (content b) 16)"
    using nat_fold_addr[OF f l] unfolding pq by (simp_all add: q)
qed

text \<open>
  A receiver accepts an IPv4 header whose words add up to zero, and a TCP or UDP segment whose
  checksum over the segment with its checksum field and the addresses is zero; a UDP checksum
  field of zero says that there is none.
\<close>

definition header_accepted :: "byte list \<Rightarrow> bool" where
  "header_accepted p \<longleftrightarrow> be_sum (take 20 p) mod 65535 = 0"

definition segment_accepted :: "byte list \<Rightarrow> bool" where
  "segment_accepted p \<longleftrightarrow> p ! 9 = OPENVPN_IPPROTO_UDP \<and> ld16 p 26 = 0
     \<or> ip_checksum (drop 20 p) (mem_get p 12 4) (mem_get p 16 4) (ucast (p ! 9)) = 0"

text \<open>C36: Translating addresses: each address of the packet is rewritten by the first rule for its side
  that matches it, and the checksums stay right. For a packet whose header has no options, that is
  not a later fragment and whose transport header is complete, a header and a TCP or UDP segment
  that a receiver accepts are accepted after the translation too; a UDP datagram has a checksum.
  (\<open>client_nat_damages\<close> shows what happens to a later fragment and to a UDP datagram without one.)\<close>

theorem client_nat_checksums:
  fixes b :: buffer and rules :: client_nat_option_list and incoming :: bool
  assumes "buf_wf b" "buf_defined b" and l: "20 \<le> length (content b)" "length (content b) \<le> 65535"
    and "content b ! 9 = OPENVPN_IPPROTO_TCP \<Longrightarrow> 40 \<le> length (content b)" "content b ! 9 = OPENVPN_IPPROTO_UDP \<Longrightarrow> 28 \<le> length (content b)"
    and "OPENVPN_IPH_GET_LEN (content b ! 0) = 20" "htons (ld16 (content b) 6) AND OPENVPN_IP_OFFMASK = 0"
    and udp: "content b ! 9 = OPENVPN_IPPROTO_UDP \<Longrightarrow> ld16 (content b) 26 \<noteq> 0"
  defines "p \<equiv> content b" and "p' \<equiv> content (client_nat_transform rules b incoming)"
  shows "length p' = length p
    \<and> ld32 p' 12 = nat_target incoming False rules (ld32 p 12) \<and> ld32 p' 16 = nat_target incoming True rules (ld32 p 16)
    \<and> (header_accepted p' \<longleftrightarrow> header_accepted p)
    \<and> (p ! 9 = OPENVPN_IPPROTO_TCP \<or> p ! 9 = OPENVPN_IPPROTO_UDP \<longrightarrow>
        ip_checksum (drop 20 p') (mem_get p' 12 4) (mem_get p' 16 4) (ucast (p ! 9)) =
          ip_checksum (drop 20 p) (mem_get p 12 4) (mem_get p 16 4) (ucast (p ! 9))
        \<and> (segment_accepted p \<longrightarrow> segment_accepted p'))"
proof -
  note c = transform_content[OF assms(1-3,5,6), of rules incoming, folded p_def p'_def]
  note a = transform_addr[OF assms(1-3,5,6), of rules incoming, folded p_def p'_def]
  have same: "ip_checksum (drop 20 p') (mem_get p' 12 4) (mem_get p' 16 4) (ucast (p ! 9)) =
      ip_checksum (drop 20 p) (mem_get p 12 4) (mem_get p 16 4) (ucast (p ! 9))"
    if u: "p ! 9 = OPENVPN_IPPROTO_TCP \<or> p ! 9 = OPENVPN_IPPROTO_UDP"
  proof (rule ip_checksum_cong2)
    show "(be_sum (drop 20 p') + be_sum (mem_get p' 12 4) + be_sum (mem_get p' 16 4)) mod 65535 =
      (be_sum (drop 20 p) + be_sum (mem_get p 12 4) + be_sum (mem_get p 16 4)) mod 65535"
      using c u by (simp add: same_sums_def addr_sum_def add_ac)
    show "uint (ucast (p ! 9) :: u32) mod 65536 \<noteq> 0"
      using u by (auto simp: OPENVPN_IPPROTO_TCP_def OPENVPN_IPPROTO_UDP_def)
  qed (use c l p_def in \<open>simp_all add: mem_get_def\<close>)
  moreover have "segment_accepted p'" if u: "p ! 9 = OPENVPN_IPPROTO_TCP \<or> p ! 9 = OPENVPN_IPPROTO_UDP" and s: "segment_accepted p"
    using s same[OF u] c udp unfolding segment_accepted_def p_def[symmetric] by auto
  ultimately show ?thesis using c a by (simp add: header_accepted_def)
qed

definition nat_rules :: client_nat_option_list where
  "nat_rules = [\<lparr>cn_dnat = False, cn_network = 0x0000000A, cn_netmask = 0x000000FF, cn_foreign = 0x0000000B\<rparr>]"

text \<open>A UDP datagram sent without a checksum gets a wrong one, and a later fragment of a TCP packet
  has payload where the code looks for the checksum.\<close>

definition plain_udp :: "byte list" where
  "plain_udp = [0x45, 0, 0, 28, 0, 0, 0, 0, 64, 17, 0, 0, 10, 0, 0, 1, 10, 0, 0, 2, 4, 0, 0, 53, 0, 8, 0, 0]"

definition plain_udp_out :: "byte list" where
  "plain_udp_out = [69, 0, 0, 28, 0, 0, 0, 0, 64, 17, 254, 255, 11, 0, 0, 1, 10, 0, 0, 2, 4, 0, 0, 53, 0, 8, 254, 255]"

definition tcp_fragment :: "byte list" where
  "tcp_fragment = [0x45, 0, 0, 44, 0, 0, 0, 185, 64, 6, 0, 0, 10, 0, 0, 1, 10, 0, 0, 2] @ replicate 24 (7 :: byte)"

lemma nat_runs:
  "mem_get (content (client_nat_transform nat_rules (packet_of syn_packet) False)) 12 8 = [11, 0, 0, 1, 10, 0, 0, 2]"
  "content (client_nat_transform nat_rules (packet_of plain_udp) False) = plain_udp_out"
  "mem_get (content (client_nat_transform nat_rules (packet_of tcp_fragment) False)) 36 1 = [6]"
  by code_simp+

lemma client_nat_checksums_witness:
  "let p' = content (client_nat_transform nat_rules (packet_of syn_packet) False)
   in ip_checksum (drop 20 p') [11, 0, 0, 1] [10, 0, 0, 2] 6 =
        ip_checksum (drop 20 syn_packet) [10, 0, 0, 1] [10, 0, 0, 2] 6
      \<and> ld32 p' 12 = 0x0100000B \<and> ld32 p' 16 = 0x0200000A"
proof -
  have p: "buf_wf (packet_of syn_packet)" "buf_defined (packet_of syn_packet)" "content (packet_of syn_packet) = syn_packet"
    using packet_of_ok[of syn_packet] by (simp_all add: syn_packet_def)
  have l: "length syn_packet = 44" "syn_packet ! 9 = 6" "mem_get syn_packet 12 4 = [10, 0, 0, 1]" "mem_get syn_packet 16 4 = [10, 0, 0, 2]"
    by (simp_all add: syn_packet_def mem_get_def)
  have h: "OPENVPN_IPH_GET_LEN (syn_packet ! 0) = 20" "htons (ld16 syn_packet 6) AND OPENVPN_IP_OFFMASK = 0"
    "nat_target False False nat_rules (ld32 syn_packet 12) = 0x0100000B" "nat_target False True nat_rules (ld32 syn_packet 16) = 0x0200000A"
    by code_simp+
  define q where "q = content (client_nat_transform nat_rules (packet_of syn_packet) False)"
  have "mem_get q 12 4 = take 4 (mem_get q 12 8)" "mem_get q 16 4 = drop 4 (mem_get q 12 8)"
    by (simp_all add: mem_get_def drop_take)
  then show ?thesis
    using client_nat_checksums[OF p(1,2), of nat_rules False] nat_runs(1) unfolding q_def[symmetric]
    by (simp add: p(3) l h OPENVPN_IPPROTO_TCP_def OPENVPN_IPPROTO_UDP_def Let_def)
qed

text \<open>A UDP datagram sent without a checksum, which is valid, leaves with a wrong one, and the payload
  of a later TCP fragment is rewritten.\<close>

theorem client_nat_damages:
  "ld16 plain_udp 26 = 0 \<and>
   (let p' = content (client_nat_transform nat_rules (packet_of plain_udp) False)
    in ld16 p' 26 \<noteq> 0 \<and> ip_checksum (drop 20 p') (mem_get p' 12 4) (mem_get p' 16 4) 17 \<noteq> 0) \<and>
   htons (ld16 tcp_fragment 6) AND OPENVPN_IP_OFFMASK \<noteq> 0 \<and>
   mem_get (content (client_nat_transform nat_rules (packet_of tcp_fragment) False)) 36 1 \<noteq> mem_get tcp_fragment 36 1"
proof -
  have "uint (ip_checksum (drop 20 plain_udp_out) (mem_get plain_udp_out 12 4) (mem_get plain_udp_out 16 4) 17) \<noteq> 0"
    by (subst uint_ip_checksum) (simp_all add: words_total_def plain_udp_out_def mem_get_def)
  then have 1: "ip_checksum (drop 20 plain_udp_out) (mem_get plain_udp_out 12 4) (mem_get plain_udp_out 16 4) 17 \<noteq> 0"
    by (metis unsigned_0)
  have 2: "ld16 plain_udp_out 26 \<noteq> 0" "ld16 plain_udp 26 = 0"
    by (simp_all add: ld16_def plain_udp_out_def plain_udp_def)
  have 3: "htons (ld16 tcp_fragment 6) AND OPENVPN_IP_OFFMASK \<noteq> 0" 
    by (simp add: ld16_def tcp_fragment_def htons_def OPENVPN_IP_OFFMASK_def nth_append)
  have 4: "[6 :: byte] \<noteq> mem_get tcp_fragment 36 1" by (simp add: tcp_fragment_def mem_get_def)
  show ?thesis unfolding nat_runs Let_def by (intro conjI 1 2 3 4)
qed

end
