(* ===== verification/Vlan.thy ===== *)
theory Vlan
  imports Client_Nat
begin

text \<open>
  VLAN tags of Ethernet frames, \<^verbatim>\<open>vlan.c\<close>: adding and removing the 802.1Q header in front of
  the payload, byte by byte in the buffer. The lemmas follow the parts of a frame through
  both rewritings.
\<close>

unbundle bit_operations_syntax

section \<open>Frames\<close>

datatype vlan_acceptable_frames = VLAN_ONLY_TAGGED | VLAN_ONLY_UNTAGGED_OR_PRIORITY | VLAN_ALL

definition OPENVPN_8021Q_MASK_VID :: u16 where "OPENVPN_8021Q_MASK_VID = htons 0x0FFF"

definition SIZE_ETH_TO_8021Q_HDR :: int where "SIZE_ETH_TO_8021Q_HDR = 18 - 14"

text \<open>A header in front of the bytes \<open>p\<close>: \<^verbatim>\<open>tpid\<close> at 12, \<^verbatim>\<open>pcp_cfi_vid\<close> at 14, \<^verbatim>\<open>proto\<close> at 16.\<close>

definition vlanhdr_get_vid :: "byte list \<Rightarrow> u16" where
  "vlanhdr_get_vid p = htons (ld16 p 14 AND OPENVPN_8021Q_MASK_VID)"

definition vlanhdr_set_vid :: "byte list \<Rightarrow> u16 \<Rightarrow> byte list" where
  "vlanhdr_set_vid p vid =
     st16 p 14 ((ld16 p 14 AND NOT OPENVPN_8021Q_MASK_VID) OR (htons vid AND OPENVPN_8021Q_MASK_VID))"

text \<open>\<^verbatim>\<open>goto drop\<close>\<close>

definition drop_frame :: "buffer \<Rightarrow> buffer" where
  "drop_frame b = b\<lparr>bf_len := 0\<rparr>"

definition vlan_decapsulate :: "vlan_acceptable_frames \<Rightarrow> u16 \<Rightarrow> buffer \<Rightarrow> 16 word \<times> buffer" where
  "vlan_decapsulate vlan_accept vlan_pvid b =
     (let p = buf_bytes b; drop = (- 1, drop_frame b) in
      if buf_len b < 14 then drop
      else if ld16 p 12 \<noteq> htons ETH_P_8021Q then
        if vlan_accept = VLAN_ONLY_TAGGED then drop else (vlan_pvid, b)
      else if buf_len b < 18 then drop
      else let vid = vlanhdr_get_vid p in
        if vlan_accept = VLAN_ONLY_UNTAGGED_OR_PRIORITY \<and> vid \<noteq> 0 then drop
        else if vid = 0 then (vlan_pvid, b)
        else let proto = ld16 p 16;
                 b1 = snd (buf_advance b SIZE_ETH_TO_8021Q_HDR);
                 p1 = mem_put (buf_bytes b1) 0 (take 14 p)
             in (vid, put_bytes b1 (st16 p1 12 proto)))"

definition vlan_encapsulate :: "u16 \<Rightarrow> buffer \<Rightarrow> buffer" where
  "vlan_encapsulate vlan_pvid b =
     (let p = buf_bytes b in
      if buf_len b < 14 then drop_frame b
      else if ld16 p 12 = htons ETH_P_8021Q then
        if buf_len b < 18 then drop_frame b
        else if vlanhdr_get_vid p \<noteq> 0 then drop_frame b
        else put_bytes b (vlanhdr_set_vid p vlan_pvid)
      else if buf_reverse_capacity b < SIZE_ETH_TO_8021Q_HDR then drop_frame b
      else let b1 = snd (buf_prepend b SIZE_ETH_TO_8021Q_HDR);
               proto = ld16 p 12;
               p1 = mem_put (buf_bytes b1) 0 (take 14 p);
               p2 = st16 (st16 (st16 p1 12 (htons ETH_P_8021Q)) 14 0) 16 proto
           in put_bytes b1 (vlanhdr_set_vid p2 vlan_pvid))"

definition vlan_is_tagged :: "buffer \<Rightarrow> bool" where
  "vlan_is_tagged b =
     (let p = buf_bytes b in
      if buf_len b < 18 then False
      else if htons (ld16 p 12) \<noteq> ETH_P_8021Q then False
      else vlanhdr_get_vid p \<noteq> 0)"

definition vlan_process_outgoing_tun ::
  "bool \<Rightarrow> vlan_acceptable_frames \<Rightarrow> u16 \<Rightarrow> u16 \<Rightarrow> buffer \<Rightarrow> buffer" where
  "vlan_process_outgoing_tun vlan_tagging vlan_accept top_pvid mi_pvid to_tun =
     (if \<not> vlan_tagging then to_tun
      else if vlan_accept = VLAN_ONLY_UNTAGGED_OR_PRIORITY then
        if top_pvid \<noteq> mi_pvid then drop_frame to_tun else to_tun
      else if vlan_accept = VLAN_ALL then
        if top_pvid \<noteq> mi_pvid then vlan_encapsulate mi_pvid to_tun else to_tun
      else vlan_encapsulate mi_pvid to_tun)"

section \<open>What tagging does to a frame\<close>

lemma put_all_frame:
  assumes wf: "buf_wf b" "buf_defined b" and l: "length p = length (content b)"
  shows "content (put_bytes b p) = p \<and> buf_wf (put_bytes b p) \<and> buf_defined (put_bytes b p) \<and>
    bf_off (put_bytes b p) = bf_off b \<and> bf_len (put_bytes b p) = bf_len b \<and> bf_cap (put_bytes b p) = bf_cap b"
proof -
  have a: "buf_advance b 0 = (True, b)"
    using wf by (auto simp: buf_advance_def buf_wf_def buf_valid_def buf_defined_def split: option.splits)
  have z: "0 \<le> bf_len b" using buf_wf_bounds[OF wf(1)] by simp
  have e: "b\<lparr>bf_data := bf_data (put_bytes b p)\<rparr> = put_bytes b p" by (simp add: put_bytes_def bf_poke_def)
  have "length p = nat (bf_len b - 0)" using l bf_len_content[OF wf(1)] by simp
  note t = put_tail[OF wf order_refl z this a, unfolded e]
  then show ?thesis using wf(2) by (simp add: put_bytes_def bf_poke_def buf_defined_def)
qed

text \<open>The tag of a VLAN in network order, and the frame with it.\<close>

definition tag_of :: "u16 \<Rightarrow> byte list" where
  "tag_of vid = [0x81, 0, ucast (drop_bit 8 vid AND 0x0F), ucast vid]"

lemma prepend_frame:
  assumes wf: "buf_wf b" "buf_defined b" and n: "0 \<le> n" "n \<le> bf_off b"
  shows "\<exists>h. snd (buf_prepend b n) = b\<lparr>bf_off := bf_off b - n, bf_len := bf_len b + n\<rparr> \<and> length h = nat n \<and>
    content (snd (buf_prepend b n)) = h @ content b \<and> buf_wf (snd (buf_prepend b n)) \<and> buf_defined (snd (buf_prepend b n))"
proof -
  from wf(2) obtain m where m: "bf_data b = Some m" by (auto simp: buf_defined_def)
  have bd: "0 \<le> bf_len b" "bf_off b + bf_len b \<le> int (length m)" "bf_cap b = int (length m)"
    using wf(1) m by (auto simp: buf_wf_def)
  have e: "snd (buf_prepend b n) = b\<lparr>bf_off := bf_off b - n, bf_len := bf_len b + n\<rparr>"
    using n bd m by (simp add: buf_prepend_def buf_valid_def Let_def)
  let ?h = "mem_get m (nat (bf_off b - n)) (nat n)"
  have s: "nat (bf_len b + n) = nat n + nat (bf_len b)" "nat (bf_off b - n) + nat n = nat (bf_off b)" using bd n by linarith+
  have "content (snd (buf_prepend b n)) = ?h @ content b"
    unfolding e content_def bf_mem_def by (simp add: m s(1) mem_get_append s(2))
  moreover have "length ?h = nat n" by (rule length_mem_get) (use s n bd in linarith)
  moreover have "buf_wf (snd (buf_prepend b n))" using wf(1) m n bd unfolding e by (auto simp: buf_wf_def)
  ultimately show ?thesis using e wf(2) by (intro exI[of _ ?h]) (simp add: buf_defined_def)
qed

lemma htons_and: "htons (a AND b) = htons a AND htons b"
proof -
  have "n < 8" if "bit w (8 + n)" for w :: u16 and n using bit_imp_le_length[OF that] by simp
  then show ?thesis unfolding htons_def by (intro bit_word_eqI) (fastforce simp: bit_simps)
qed

lemma vid_word:
  fixes vid :: u16
  assumes "uint vid \<le> 4095"
  shows "htons vid AND htons 0x0FFF = htons vid" "htons (htons vid) = vid" "drop_bit 8 vid AND 0x0F = drop_bit 8 vid"
proof -
  show "htons (htons vid) = vid"
    unfolding htons_def by (rule bit_word_eqI) (auto simp: bit_simps no_high_bit dest: bit_imp_le_length)
  have t: "take_bit 12 vid = vid"
  proof (rule word_uint_eqI)
    show "uint (take_bit 12 vid) = uint vid" using assms by (simp add: unsigned_take_bit_eq take_bit_int_eq_self)
  qed
  have h: "\<not> bit vid n" if "12 \<le> n" for n using t that by (metis bit_take_bit_iff not_less)
  show "drop_bit 8 vid AND 0x0F = drop_bit 8 vid"
  proof -
    have "drop_bit 8 vid AND 0x0F = take_bit 4 (drop_bit 8 vid)" by (simp add: take_bit_eq_mask mask_eq_exp_minus_1)
    also have "\<dots> = drop_bit 8 vid"
    proof (rule bit_word_eqI)
      fix n
      show "bit (take_bit 4 (drop_bit 8 vid)) n = bit (drop_bit 8 vid) n"
        using h[of "8 + n"] by (cases "4 \<le> n") (auto simp: bit_simps)
    qed
    finally show ?thesis .
  qed
  have "htons vid AND htons 0x0FFF = htons (vid AND 0x0FFF)"
    by (rule htons_and[symmetric])
  also have "vid AND 0x0FFF = vid" using t by (simp add: take_bit_eq_mask mask_eq_exp_minus_1)
  finally show "htons vid AND htons 0x0FFF = htons vid" .
qed

text \<open>Reading and writing a word in the middle of a block.\<close>

lemma ld16_at: "length u = i \<Longrightarrow> ld16 (u @ x # y # v) i = ld16 [x, y] 0"
  by (simp add: ld16_def nth_append)

lemma st16_at: "length u = i \<Longrightarrow> st16 (u @ x # y # v) i w = u @ ucast w # ucast (drop_bit 8 w) # v"
  by (simp add: st16_def mem_put_def)

lemma ld16_bytes: "ucast (ld16 [x, y] 0) = x" "ucast (drop_bit 8 (ld16 [x, y] 0)) = y"
proof -
  have u: "uint (ld16 [x, y] 0) = uint x + 256 * uint y" by (simp add: uint_ld16)
  have "uint (ucast (ld16 [x, y] 0) :: byte) = (uint x + 256 * uint y) mod 256" unfolding uint_ucast_mod u by simp
  also have "\<dots> = uint x" using byte_range[of x] by simp
  finally show "ucast (ld16 [x, y] 0) = x" by (rule word_uint_eqI)
  have "uint (drop_bit 8 (ld16 [x, y] 0)) = (uint x + 256 * uint y) div 256" unfolding uint_drop u by simp
  also have "\<dots> = uint y" using byte_range[of x] by simp
  finally have d: "uint (drop_bit 8 (ld16 [x, y] 0)) = uint y" .
  have "uint (ucast (drop_bit 8 (ld16 [x, y] 0)) :: byte) = uint y" unfolding uint_ucast_mod d using byte_range[of y] by simp
  then show "ucast (drop_bit 8 (ld16 [x, y] 0)) = y" by (rule word_uint_eqI)
qed

lemma ld16_of_word: "ld16 [ucast w, ucast (drop_bit 8 w)] 0 = w" for w :: u16
  by (rule word_uint_eqI) (simp add: uint_ld16 uint_split16[of w, symmetric])

text \<open>A frame by its parts.\<close>

lemma frame_parts:
  assumes "14 \<le> length f"
  obtains a c d x y t where "f = a @ c # d # x # y # t" "length a = 10"
proof -
  have "f = take 10 f @ f ! 10 # f ! 11 # f ! 12 # f ! 13 # drop 14 f"
    using assms by (simp add: Cons_nth_drop_Suc numeral_eq_Suc)
  moreover have "length (take 10 f) = 10" using assms by simp
  ultimately show thesis using that by blast
qed

lemma encapsulate_content:
  assumes wf: "buf_wf b" "buf_defined b" and room: "4 \<le> bf_off b" and l: "14 \<le> length (content b)"
    and un: "ld16 (content b) 12 \<noteq> htons ETH_P_8021Q" and v: "uint vid \<le> 4095"
  defines "b' \<equiv> vlan_encapsulate vid b"
  shows "content b' = take 12 (content b) @ tag_of vid @ drop 12 (content b)" "buf_wf b'" "buf_defined b'"
    "bf_off b' = bf_off b - 4" "bf_len b' = bf_len b + 4"
proof -
  have bb: "buf_bytes b = content b" "buf_len b = bf_len b" using wf by (simp_all add: buf_simps)
  have rc: "buf_reverse_capacity b = bf_off b" using wf by (simp add: buf_reverse_capacity_def buf_simps)
  have n: "bf_len b = int (length (content b))" by (rule bf_len_content[OF wf(1)])
  define b1 where "b1 = snd (buf_prepend b SIZE_ETH_TO_8021Q_HDR)"
  from prepend_frame[OF wf, of 4] room obtain h where
    h: "b1 = b\<lparr>bf_off := bf_off b - 4, bf_len := bf_len b + 4\<rparr>" "length h = 4" "content b1 = h @ content b" "buf_wf b1" "buf_defined b1"
    by (auto simp: b1_def SIZE_ETH_TO_8021Q_HDR_def)
  obtain a c d x y t where f: "content b = a @ c # d # x # y # t" "length a = 10" by (rule frame_parts[OF l])
  have b1b: "buf_bytes b1 = h @ content b" using h by (simp add: buf_simps)
  define p1 where "p1 = mem_put (buf_bytes b1) 0 (take 14 (content b))"
  have p1: "p1 = (a @ [c, d]) @ x # y # c # d # x # y # t"
    unfolding p1_def b1b f(1) using h(2) f(2) by (simp add: mem_put_def)
  define p2 where "p2 = st16 (st16 (st16 p1 12 (htons ETH_P_8021Q)) 14 0) 16 (ld16 (content b) 12)"
  have proto: "ld16 (content b) 12 = ld16 [x, y] 0"
    using ld16_at[of "a @ [c, d]" 12 x y t] f by simp
  have p2: "p2 = (a @ [c, d, 0x81, 0]) @ 0 # 0 # x # y # t"
  proof -
    have "st16 p1 12 (htons ETH_P_8021Q) = (a @ [c, d, 0x81, 0]) @ c # d # x # y # t"
      unfolding p1 by (subst st16_at) (use f(2) in \<open>simp_all add: htons_def ETH_P_8021Q_def\<close>)
    moreover have "st16 ((a @ [c, d, 0x81, 0]) @ c # d # x # y # t) 14 0 = (a @ [c, d, 0x81, 0, 0, 0]) @ x # y # t"
      by (subst st16_at) (use f(2) in simp_all)
    moreover have "st16 ((a @ [c, d, 0x81, 0, 0, 0]) @ x # y # t) 16 (ld16 [x, y] 0) = (a @ [c, d, 0x81, 0, 0, 0]) @ x # y # t"
      by (subst st16_at) (use f(2) in \<open>simp_all add: ld16_bytes\<close>)
    ultimately show ?thesis unfolding p2_def proto by simp
  qed
  have sv: "vlanhdr_set_vid p2 vid = (a @ [c, d, 0x81, 0]) @ ucast (drop_bit 8 vid) # ucast vid # x # y # t"
  proof -
    have "ld16 p2 14 = 0" unfolding p2 by (subst ld16_at) (use f(2) in \<open>simp_all add: ld16_def\<close>)
    then have "vlanhdr_set_vid p2 vid = st16 p2 14 (htons vid)"
      by (simp add: vlanhdr_set_vid_def OPENVPN_8021Q_MASK_VID_def vid_word(1)[OF v])
    also have "\<dots> = (a @ [c, d, 0x81, 0]) @ ucast (htons vid) # ucast (drop_bit 8 (htons vid)) # x # y # t"
      unfolding p2 by (rule st16_at) (use f(2) in simp)
    also have "(ucast (htons vid) :: byte) = ucast (drop_bit 8 vid)"
      unfolding htons_def by (rule bit_word_eqI) (auto simp: bit_simps)
    also have "(ucast (drop_bit 8 (htons vid)) :: byte) = ucast vid"
      unfolding htons_def by (rule bit_word_eqI) (auto simp: bit_simps no_high_bit)
    finally show ?thesis .
  qed
  have e: "b' = put_bytes b1 (vlanhdr_set_vid p2 vid)"
    unfolding b'_def vlan_encapsulate_def bb rc using l n un room
    by (simp add: SIZE_ETH_TO_8021Q_HDR_def b1_def p1_def p2_def Let_def)
  have len: "length (vlanhdr_set_vid p2 vid) = length (content b1)" unfolding sv h(3) f(1) using h(2) f(2) by simp
  note pa = put_all_frame[OF h(4,5) len, folded e]
  have "tag_of vid = [0x81, 0, ucast (drop_bit 8 vid), ucast vid]" by (simp add: tag_of_def vid_word(3)[OF v])
  then show "content b' = take 12 (content b) @ tag_of vid @ drop 12 (content b)"
    using pa sv f by simp
  show "buf_wf b'" "buf_defined b'" "bf_off b' = bf_off b - 4" "bf_len b' = bf_len b + 4" using pa h(1) by simp_all
qed

lemma vid_of_tag:
  assumes "uint vid \<le> 4095" "length u = 12"
  shows "ld16 (u @ tag_of vid @ v) 12 = htons ETH_P_8021Q" "vlanhdr_get_vid (u @ tag_of vid @ v) = vid"
proof -
  have t: "tag_of vid = [0x81, 0, ucast (drop_bit 8 vid), ucast vid]" by (simp add: tag_of_def vid_word(3)[OF assms(1)])
  have "ld16 (u @ tag_of vid @ v) 12 = ld16 [0x81, 0] 0" unfolding t using ld16_at[OF assms(2)] by simp
  then show "ld16 (u @ tag_of vid @ v) 12 = htons ETH_P_8021Q" by (simp add: ld16_def htons_def ETH_P_8021Q_def)
  have "ld16 (u @ tag_of vid @ v) 14 = ld16 [ucast (drop_bit 8 vid), ucast vid] 0"
    unfolding t using ld16_at[of "u @ [0x81, 0]" 14 "ucast (drop_bit 8 vid)" "ucast vid" v] assms(2) by simp
  also have "\<dots> = htons vid"
  proof -
    have "(ucast (htons vid) :: byte) = ucast (drop_bit 8 vid)" "(ucast (drop_bit 8 (htons vid)) :: byte) = ucast vid"
      unfolding htons_def by (rule bit_word_eqI; auto simp: bit_simps no_high_bit)+
    then show ?thesis using ld16_of_word[of "htons vid"] by simp
  qed
  finally show "vlanhdr_get_vid (u @ tag_of vid @ v) = vid"
    by (simp add: vlanhdr_get_vid_def OPENVPN_8021Q_MASK_VID_def vid_word[OF assms(1)])
qed

lemma decapsulate_content:
  assumes wf: "buf_wf b" "buf_defined b" and g: "content b = u @ tag_of vid @ v" "length u = 12" "2 \<le> length v"
    and vid: "0 < uint vid" "uint vid \<le> 4095" and acc: "acc \<noteq> VLAN_ONLY_UNTAGGED_OR_PRIORITY"
  shows "\<exists>b'. vlan_decapsulate acc pvid b = (vid, b') \<and> content b' = u @ v \<and> buf_wf b' \<and> buf_defined b' \<and>
    bf_off b' = bf_off b + 4 \<and> bf_len b' = bf_len b - 4"
proof -
  have bb: "buf_bytes b = content b" "buf_len b = bf_len b" using wf by (simp_all add: buf_simps)
  have n: "bf_len b = int (length (content b))" by (rule bf_len_content[OF wf(1)])
  have l: "18 \<le> length (content b)" using g by (simp add: tag_of_def)
  then have l4: "(0::int) \<le> 4" "4 \<le> bf_len b" using n by simp_all
  obtain b1 where b1: "buf_advance b 4 = (True, b1)" "buf_wf b1" "content b1 = drop 4 (content b)" "buf_defined b1"
    "bf_off b1 = bf_off b + 4" "bf_len b1 = bf_len b - 4"
    by (rule buf_advance_ok[OF wf l4]) (auto elim: that)
  have b1b: "buf_bytes b1 = content b1" using b1 by (simp add: buf_simps)
  obtain x y t where v: "v = x # y # t" using g(3) by (metis One_nat_def Suc_le_length_iff numeral_2_eq_2)
  have pr: "ld16 (content b) 16 = ld16 [x, y] 0"
    unfolding g(1) v using ld16_at[of "u @ tag_of vid" 16 x y t] g(2) by (simp add: tag_of_def)
  define p1 where "p1 = mem_put (content b1) 0 (take 14 (content b))"
  have p1: "p1 = u @ 0x81 # 0 # t"
    unfolding p1_def b1(3) g(1) v tag_of_def using g(2) by (simp add: mem_put_def)
  have s: "st16 p1 12 (ld16 [x, y] 0) = u @ v" unfolding p1 st16_at[OF g(2)] ld16_bytes v ..
  have len: "length (u @ v) = length (content b1)" unfolding b1(3) g(1) using g(2) by (simp add: tag_of_def)
  note vt = vid_of_tag[OF vid(2) g(2), of v, folded g(1)]
  have "vid \<noteq> 0" using vid(1) by auto
  then have "vlan_decapsulate acc pvid b = (vid, put_bytes b1 (u @ v))"
    unfolding vlan_decapsulate_def bb using l n vt acc b1(1) pr
    by (simp add: SIZE_ETH_TO_8021Q_HDR_def b1b p1_def[symmetric] s Let_def)
  then show ?thesis using put_all_frame[OF b1(2,4) len] b1(5,6) by auto
qed

text \<open>C37: tagging an untagged frame with the VLAN of its client and removing the tag gives the frame
  and the VLAN back, byte for byte and at the same place of the buffer.\<close>

theorem vlan_tag_roundtrip:
  assumes "buf_wf b" "buf_defined b" "4 \<le> bf_off b" "14 \<le> length (content b)"
    and "ld16 (content b) 12 \<noteq> htons ETH_P_8021Q" "1 \<le> uint vid" "uint vid \<le> 4094"
    and "acc \<noteq> VLAN_ONLY_UNTAGGED_OR_PRIORITY"
  shows "vlan_is_tagged (vlan_encapsulate vid b) \<and>
    (\<exists>b'. vlan_decapsulate acc pvid (vlan_encapsulate vid b) = (vid, b') \<and>
       content b' = content b \<and> bf_off b' = bf_off b \<and> bf_len b' = bf_len b \<and> buf_wf b')"
proof -
  have v: "uint vid \<le> 4095" "0 < uint vid" using assms(6,7) by simp_all
  note e = encapsulate_content[OF assms(1-5) v(1)]
  define u where "u = take 12 (content b)"
  define w where "w = drop 12 (content b)"
  have uw: "length u = 12" "2 \<le> length w" "content b = u @ w" using assms(4) by (simp_all add: u_def w_def)
  have c: "content (vlan_encapsulate vid b) = u @ tag_of vid @ w" using e(1) by (simp add: u_def w_def)
  have bb: "buf_bytes (vlan_encapsulate vid b) = u @ tag_of vid @ w" "buf_len (vlan_encapsulate vid b) = bf_len b + 4"
    using e c by (simp_all add: buf_simps)
  have "vid \<noteq> 0" using v(2) by auto
  moreover have "bf_len b = int (length (content b))" by (rule bf_len_content[OF assms(1)])
  ultimately have "vlan_is_tagged (vlan_encapsulate vid b)"
    using assms(4) vid_of_tag[OF v(1) uw(1), of w]
    by (simp add: vlan_is_tagged_def bb vid_word(2) ETH_P_8021Q_def htons_def)
  then show ?thesis
    using decapsulate_content[OF e(2,3) c uw(1,2) v(2,1) assms(8)] e(4,5) uw(3) by auto
qed

definition demo_frame :: buffer where
  "demo_frame = \<lparr>bf_cap = 24, bf_off = 4, bf_len = 16, bf_data = Some (replicate 4 0 @ [1,2,3,4,5,6,7,8,9,10,11,12,8,0,69,1] @ replicate 4 0)\<rparr>"

lemma vlan_tag_roundtrip_witness:
  "\<exists>b'. vlan_decapsulate VLAN_ALL 1 (vlan_encapsulate 42 demo_frame) = (42, b') \<and>
    content b' = [1,2,3,4,5,6,7,8,9,10,11,12,8,0,69,1]"
proof -
  have d: "buf_wf demo_frame" "buf_defined demo_frame" "4 \<le> bf_off demo_frame" "content demo_frame = [1,2,3,4,5,6,7,8,9,10,11,12,8,0,69,1]"
    by (simp_all add: demo_frame_def buf_wf_def buf_defined_def content_def bf_mem_def mem_get_def BUF_SIZE_MAX_def numeral_eq_Suc)
  show ?thesis
    using vlan_tag_roundtrip[OF d(1-3), of 42 VLAN_ALL 1] unfolding d(4)
    by (auto simp: ld16_def htons_def ETH_P_8021Q_def)
qed

lemma put_all_wf:
  assumes "buf_wf b" "buf_defined b" "length p = length (content b)"
  shows "buf_wf (put_bytes b p)" "bf_len (put_bytes b p) = bf_len b" "bf_cap (put_bytes b p) = bf_cap b"
  using put_all_frame[OF assms] by simp_all

lemma drop_wf: "buf_wf b \<Longrightarrow> buf_wf (drop_frame b) \<and> content (drop_frame b) = []"
  by (auto simp: drop_frame_def buf_wf_def content_def split: option.splits)

text \<open>A frame after either operation.\<close>

definition frame_ok :: "buffer \<Rightarrow> buffer \<Rightarrow> bool" where
  "frame_ok b b' \<longleftrightarrow> buf_wf b' \<and> bf_cap b' = bf_cap b \<and> bf_len b' \<le> bf_len b + 4"

lemma frame_ok_refl: "buf_wf b \<Longrightarrow> frame_ok b b"
  by (simp add: frame_ok_def)

lemma frame_ok_drop: "buf_wf b \<Longrightarrow> frame_ok b (drop_frame b)"
  using drop_wf[of b] buf_wf_bounds[of b] by (simp add: frame_ok_def) (simp add: drop_frame_def)

lemma short_frame: "buf_wf b \<Longrightarrow> \<not> buf_defined b \<Longrightarrow> buf_len b = 0"
  by (auto simp: buf_len_def buf_valid_def buf_defined_def)

lemma short_dropped:
  "buf_len b < 14 \<Longrightarrow> vlan_decapsulate acc pvid b = (- 1, drop_frame b)"
  "buf_len b < 14 \<Longrightarrow> vlan_encapsulate vid b = drop_frame b"
  by (simp_all add: vlan_decapsulate_def vlan_encapsulate_def)

lemma short_kept:
  "buf_len b < 18 \<Longrightarrow> vlan_decapsulate acc pvid b = (- 1, drop_frame b) \<or> vlan_decapsulate acc pvid b = (pvid, b)"
  by (simp add: vlan_decapsulate_def Let_def)

lemma decapsulate_frame:
  assumes wf: "buf_wf b"
  shows "frame_ok b (snd (vlan_decapsulate acc pvid b))"
proof (cases "vlan_decapsulate acc pvid b = (- 1, drop_frame b) \<or> vlan_decapsulate acc pvid b = (pvid, b)")
  case True
  then show ?thesis using frame_ok_refl[OF wf] frame_ok_drop[OF wf] by auto
next
  case False
  then have d: "buf_defined b" using short_frame[OF wf] short_dropped(1)[of b acc pvid] by fastforce
  have bb: "buf_bytes b = content b" "buf_len b = bf_len b" using wf by (simp_all add: buf_simps)
  have l: "18 \<le> bf_len b"
  proof (rule ccontr)
    assume "\<not> 18 \<le> bf_len b"
    then show False using False using short_kept[of b acc pvid] bb(2) by auto
  qed
  have n: "bf_len b = int (length (content b))" by (rule bf_len_content[OF wf])
  obtain b1 where b1: "buf_advance b 4 = (True, b1)" "buf_wf b1" "content b1 = drop 4 (content b)" "buf_defined b1"
    "bf_cap b1 = bf_cap b" "bf_len b1 = bf_len b - 4"
    by (rule buf_advance_ok[OF wf d, of 4]) (use l that in auto)
  have b1b: "buf_bytes b1 = content b1" using b1 by (simp add: buf_simps)
  define p1 where "p1 = st16 (mem_put (content b1) 0 (take 14 (content b))) 12 (ld16 (content b) 16)"
  have l1: "14 \<le> length (content b1)" using b1(3) l n by simp
  have "length (mem_put (content b1) 0 (take 14 (content b))) = length (content b1)"
    by (rule length_mem_put) (use l1 in simp)
  then have lp: "length p1 = length (content b1)" unfolding p1_def using l1 by simp
  have "snd (vlan_decapsulate acc pvid b) = put_bytes b1 p1"
    using False unfolding vlan_decapsulate_def bb
    by (auto simp: SIZE_ETH_TO_8021Q_HDR_def b1(1) b1b p1_def Let_def split: if_splits)
  then show ?thesis using put_all_wf[OF b1(2,4) lp] b1(5,6) by (simp add: frame_ok_def)
qed

lemma encapsulate_frame:
  assumes wf: "buf_wf b"
  shows "frame_ok b (vlan_encapsulate vid b)"
proof (cases "vlan_encapsulate vid b = drop_frame b")
  case True
  then show ?thesis using frame_ok_drop[OF wf] by simp
next
  case False
  then have d: "buf_defined b" using short_frame[OF wf] short_dropped(2)[of b vid] by fastforce
  have bb: "buf_bytes b = content b" "buf_len b = bf_len b" using wf by (simp_all add: buf_simps)
  have n: "bf_len b = int (length (content b))" by (rule bf_len_content[OF wf])
  have l: "14 \<le> bf_len b" using False short_dropped(2)[of b vid] bb(2) by fastforce
  show ?thesis
  proof (cases "ld16 (content b) 12 = htons ETH_P_8021Q")
    case True
    then have l18: "18 \<le> bf_len b" and e: "vlan_encapsulate vid b = put_bytes b (vlanhdr_set_vid (content b) vid)"
      using False l unfolding vlan_encapsulate_def bb by (auto simp: Let_def split: if_splits)
    have "length (vlanhdr_set_vid (content b) vid) = length (content b)"
      unfolding vlanhdr_set_vid_def using l18 n by simp
    then show ?thesis using put_all_wf[OF wf d] by (simp add: frame_ok_def e)
  next
    case un: False
    have rc: "buf_reverse_capacity b = bf_off b" using wf d by (simp add: buf_reverse_capacity_def buf_simps)
    define b1 where "b1 = snd (buf_prepend b SIZE_ETH_TO_8021Q_HDR)"
    define p1 where "p1 = mem_put (buf_bytes b1) 0 (take 14 (content b))"
    define p2 where "p2 = st16 (st16 (st16 p1 12 (htons ETH_P_8021Q)) 14 0) 16 (ld16 (content b) 12)"
    have room: "4 \<le> bf_off b" and e: "vlan_encapsulate vid b = put_bytes b1 (vlanhdr_set_vid p2 vid)"
      using False un l unfolding vlan_encapsulate_def bb rc
      by (auto simp: Let_def SIZE_ETH_TO_8021Q_HDR_def b1_def p1_def p2_def split: if_splits)
    from prepend_frame[OF wf d, of 4] room obtain h where
      h: "b1 = b\<lparr>bf_off := bf_off b - 4, bf_len := bf_len b + 4\<rparr>" "length h = 4" "content b1 = h @ content b" "buf_wf b1" "buf_defined b1"
      by (auto simp: b1_def SIZE_ETH_TO_8021Q_HDR_def)
    have lc: "18 \<le> length (content b1)" using h(2,3) l n by simp
    have "length p1 = length (content b1)"
      unfolding p1_def using h lc by (simp add: buf_simps length_mem_put)
    then have "length (vlanhdr_set_vid p2 vid) = length (content b1)"
      unfolding vlanhdr_set_vid_def p2_def using lc by simp
    then show ?thesis using put_all_wf[OF h(4,5)] h(1) by (simp add: frame_ok_def e)
  qed
qed

text \<open>C38: tagging, untagging and the choice between them keep buffers well formed: for every frame that
  may arrive, short, tagged or not, with or without room in front, the result lies in the same
  block, at most four bytes longer than the frame.\<close>

theorem vlan_keeps_frames:
  assumes "buf_wf b"
  shows "let ok = (\<lambda>b'. buf_wf b' \<and> bf_cap b' = bf_cap b \<and> bf_len b' \<le> bf_len b + 4)
    in ok (snd (vlan_decapsulate acc pvid b)) \<and> ok (vlan_encapsulate vid b) \<and>
       ok (vlan_process_outgoing_tun tagging acc pvid vid b)"
  using decapsulate_frame[OF assms] encapsulate_frame[OF assms] frame_ok_refl[OF assms] frame_ok_drop[OF assms]
  unfolding frame_ok_def[symmetric] by (auto simp: vlan_process_outgoing_tun_def Let_def)

lemma vlan_keeps_frames_witness:
  "buf_wf (vlan_process_outgoing_tun True VLAN_ALL 1 7 demo_frame)"
  using vlan_keeps_frames[of demo_frame VLAN_ALL 1 7 True]
  by (simp add: Let_def) (simp add: demo_frame_def buf_wf_def BUF_SIZE_MAX_def)

text \<open>A tagged frame can pass the test for an IPv4 packet with less than an IPv4 header behind the tag.\<close>

definition short_tagged :: "byte list" where
  "short_tagged = replicate 12 0 @ [0x81, 0, 0, 1, 8, 0, 0x45] @ replicate 15 0"

lemma tagged_header_too_short:
  "fst (is_ipv4 DEV_TYPE_TAP (packet_of short_tagged)) \<and> buf_len (snd (is_ipv4 DEV_TYPE_TAP (packet_of short_tagged))) < 20"
  by code_simp

end
