(* ===== verification/Spec2Isabelle.thy ===== *)
theory Spec2Isabelle
  imports C_Strings Control_Link Data_Channel Link_Stream Multi_Route_Run Pool Schedule_Queue Session_Cookie Vlan
begin

text \<open>
  The core of OpenVPN 2 (\<^verbatim>\<open>src/main/src/main/cpp/openvpn/src/openvpn\<close>; file names below are relative
  to it): what a peer does with packets and what a server keeps about its clients.

  \<^bold>\<open>The program.\<close> A packet from the tun device is clamped (\<^verbatim>\<open>mss.c\<close>), translated (\<^verbatim>\<open>clinat.c\<close>), on a
  server given to a client by the routing table (\<^verbatim>\<open>multi.c\<close>, \<^verbatim>\<open>mroute.c\<close>, \<^verbatim>\<open>list.c\<close>), cut into
  fragments (\<^verbatim>\<open>fragment.c\<close>), sealed with a packet id and the key of the current epoch (\<^verbatim>\<open>crypto.c\<close>,
  \<^verbatim>\<open>crypto_epoch.c\<close>, \<^verbatim>\<open>packet_id.c\<close>) and written to a datagram or stream socket (\<^verbatim>\<open>socket.c\<close>). The way
  back opens it, checks for replays, puts fragments together and checks that the source address
  belongs to the client. Beside it the control channel carries TLS records over a reliability layer
  (\<^verbatim>\<open>reliable.c\<close>), timers run on a monotone clock (\<^verbatim>\<open>otime.c\<close>, \<^verbatim>\<open>interval.c\<close>), a server keeps its
  clients' wakeup times in a treap (\<^verbatim>\<open>schedule.c\<close>), their addresses in a pool (\<^verbatim>\<open>pool.c\<close>) and their
  networks apart by VLAN tags (\<^verbatim>\<open>vlan.c\<close>).

  \<^bold>\<open>The theories.\<close>

  \<^item> \<open>Ovpn_Prelude\<close>: machine types, \<^verbatim>\<open>memcpy\<close> and network byte order, \<^verbatim>\<open>integer.h\<close>, the locales for
    simulations (runs of a component against an abstract specification), named collections of rewrite rules.
  \<^item> \<open>Buf\<close>: \<^verbatim>\<open>struct buffer\<close> with every inline operation of \<^verbatim>\<open>buffer.h\<close>; \<open>buf_wf\<close> is what each keeps,
    \<open>content\<close> the bytes a buffer stands for, the locale \<open>byte_codec\<close> the contract of a field on the wire.
    \<open>C_Strings\<close>: character classes and line parsing of \<^verbatim>\<open>buffer.c\<close>. \<open>Circ_List\<close>: \<^verbatim>\<open>circ_list.h\<close>.
  \<^item> \<open>Packet_Id\<close>: \<^verbatim>\<open>packet_id.c\<close>, sender, sliding window, wire formats, restored ids; \<open>window_inv\<close>
    says which ids the window knows. \<open>Replay_Filter\<close> is the interface of whatever accepts each key
    once, which the window and the strict sequence of stream mode interpret.
  \<^item> \<open>Session_Id\<close>, \<open>Reliable\<close>, \<open>Control_Link\<close>: \<^verbatim>\<open>session_id.c\<close>, \<^verbatim>\<open>reliable.c\<close> and the receive path of
    \<^verbatim>\<open>tls_pre_decrypt\<close>; then two ends and a network that loses, repeats and reorders as a step relation.
  \<^item> \<open>Session_Cookie\<close>: the HMAC that a server uses as its session id, and its check (\<^verbatim>\<open>ssl_pkt.c\<close>).
  \<^item> \<open>Crypto_Key\<close>, \<open>Crypto_Epoch\<close>, \<open>Crypto_Data\<close>, \<open>Crypto_Session\<close>, \<open>Data_Channel\<close>: key contexts, the keys
    of the epochs (\<^verbatim>\<open>crypto_epoch.c\<close>), sealing and opening packets (\<^verbatim>\<open>crypto.c\<close>), the keys of a new session
    (\<^verbatim>\<open>ssl.c\<close>) and runs of a session against any network.
  \<^item> \<open>Otime\<close>: \<^verbatim>\<open>otime.c\<close>, \<^verbatim>\<open>interval.c\<close>, the wakeup of \<^verbatim>\<open>shaper.c\<close>. \<open>Schedule\<close>, \<open>Schedule_Heap\<close>,
    \<open>Schedule_Queue\<close>: the treap of \<^verbatim>\<open>schedule.c\<close> as linked nodes, which represent a binary tree, which
    refines a map of wakeup times.
  \<^item> \<open>Fragment\<close>: \<^verbatim>\<open>fragment.c\<close>. \<open>Link_Stream\<close>: packets over TCP (\<^verbatim>\<open>socket.c\<close>), a refinement of a parser
    of the bytes received.
  \<^item> \<open>Hash_Table\<close>, \<open>Hash_Sweep\<close>: \<^verbatim>\<open>list.c\<close> with its iterator; the locale \<open>key_table\<close> is its contract.
    \<open>Mroute\<close>: the addresses of \<^verbatim>\<open>mroute.c\<close>, which interpret it. \<open>Multi_Route\<close>, \<open>Multi_Route_Inv\<close>,
    \<open>Multi_Route_Lpm\<close>, \<open>Multi_Route_Run\<close>: the routing part of \<^verbatim>\<open>multi.c\<close>, its reference counts, the longest
    prefix match and the runs of a server.
  \<^item> \<open>Ip_Packet\<close>, \<open>Mss\<close>, \<open>Client_Nat\<close>, \<open>Vlan\<close>: \<^verbatim>\<open>proto.c\<close>, \<^verbatim>\<open>mss.c\<close>, \<^verbatim>\<open>clinat.c\<close>, \<^verbatim>\<open>vlan.c\<close>.
  \<^item> \<open>Pool\<close>: \<^verbatim>\<open>pool.c\<close>, which refines a map from entries to the addresses they are leased with.

  \<^bold>\<open>Conventions.\<close> A struct is a record, an enum a datatype, a field of fixed unsigned width a word; an
  \<^verbatim>\<open>int\<close> is an \<^typ>\<open>int\<close>, narrowed by \<open>to_int32\<close> where the code can leave its range; \<^verbatim>\<open>time_t\<close> is an
  \<^typ>\<open>int\<close>; reference counts of instances are not narrowed, since an instance has at most as many
  routes as its quota. \<open>None\<close> is a call that ends the process: a failed \<^verbatim>\<open>ASSERT\<close>, \<^verbatim>\<open>M_FATAL\<close>, or an access
  outside an array. A pointer into an array is an index, a list of nodes a list, shared nodes of the
  treap a map from addresses. 16-bit words of packet headers are read as on a little-endian host,
  lengths of pointers as on a 64-bit one. Global variables such as \<^verbatim>\<open>now\<close>, random numbers, and what system
  calls return are arguments.

  \<^bold>\<open>Parameters.\<close> The cryptographic library is the record \<open>cipher_kt\<close> of functions and the function for
  HMAC-SHA256; \<open>aead_correct\<close> states its documented behaviour: decryption inverts encryption, lengths
  are kept, and a tag that verifies is the one of the plaintext. The cipher context is modelled by the
  IV it was reset with (\<open>kc_iv\<close>), so that what \<open>data_channel_ivs_unique\<close> says is about the IVs the
  cipher got. Address parsers are functions, the learn-address script a predicate.

  \<^bold>\<open>Loops.\<close> All loops of the code are total functions. The only fuel is in \<open>send_rest\<close>, 32 rounds for the
  at most 32 parts of a packet, with running out told apart from a failed assertion; \<open>fragment_reassembly\<close>
  proves that neither happens. The search for a priority in \<^verbatim>\<open>schedule.c\<close> draws from a list of random
  numbers; \<open>schedule_add_returns_iff\<close> says which lists are long enough.

  \<^bold>\<open>Findings\<close> are theorems where they are properties of the code: a datagram that stops a session
  (\<open>epoch_jump_to_last_crashes\<close>), ids accepted again after a restart (\<open>persisted_id_forgotten\<close>), ids far
  outside the window of the control channel (\<open>receive_window_exact\<close>), a retransmission interval that
  overflows (\<open>reliable_send_oldest_due\<close>), routes that match nothing (\<open>unmasked_iroute_dead\<close>); others are
  lemmas, such as \<open>client_nat_damages\<close>, \<open>mss_fixup_odd_breaks\<close> and \<open>cookie_check_inverted\<close>, by which the check of a
  client's cookie accepts any session id.

  \<^bold>\<open>Not modelled.\<close> The TLS session state machine and the verification of certificates (\<^verbatim>\<open>ssl.c\<close>,
  \<^verbatim>\<open>ssl_verify.c\<close>) and the wrapping of control packets (\<^verbatim>\<open>tls_crypt.c\<close>, the formats of \<^verbatim>\<open>ssl_pkt.c\<close>, \<^verbatim>\<open>mudp.c\<close>); the option
  parser and pushed options; sockets, tun devices, routes of the host, kernel offload and Windows support,
  which are system calls; the event loops of \<^verbatim>\<open>forward.c\<close> and \<^verbatim>\<open>multi.c\<close>; management and plugins; proxies;
  compression, which calls other libraries; the bindings to OpenSSL and mbed TLS. Functions that only
  print or release memory are left out everywhere. The other trees of the repository are vendored
  libraries, the C++ core of OpenVPN 3 and the Android application in Java and Kotlin.
\<close>

end
